(* ===== verification/Xv6_Prelude.thy ===== *)
theory Xv6_Prelude
  imports Main "HOL-Library.Word"
begin

text \<open>
  The vocabulary every component of the development shares: the machine types, the outcome
  type of kernel code, little-endian byte layouts of C structures, and windows into byte
  arrays. The generic lemmas are declared as simplification rules or collected in
  \<open>res_simps\<close>, \<open>slice_simps\<close> and \<open>layout_simps\<close>, so that the component proofs can name one
  collection instead of a list of facts.
\<close>

named_theorems res_simps \<open>outcomes of kernel code\<close>
named_theorems slice_simps \<open>reading and writing windows of byte arrays\<close>
named_theorems layout_simps \<open>C structures laid out in byte arrays\<close>

section \<open>Machine types\<close>

text \<open>\<open>uchar\<close>, \<open>ushort\<close>, \<open>uint\<close> and, for the default X64 build, \<open>uintp\<close> of \<open>include/types.h\<close>.\<close>

type_synonym byte = "8 word"
type_synonym u16 = "16 word"
type_synonym u32 = "32 word"
type_synonym u64 = "64 word"

section \<open>Outcomes of kernel code\<close>

text \<open>
  Kernel code either returns, or calls \<open>panic\<close> (which never returns), or calls \<open>sleep\<close> in a
  state where only another process can make the condition true, or accesses memory outside the
  object it means to (\<open>Undefined\<close>). The last three are values.
\<close>

datatype kerror = Panic string | Sleeps string | Undefined string

type_synonym 'a res = "kerror + 'a"

fun res_bind :: "'a res \<Rightarrow> ('a \<Rightarrow> 'b res) \<Rightarrow> 'b res" where
  "res_bind (Inl e) f = Inl e"
| "res_bind (Inr x) f = f x"

lemma res_bind_eq_Inr [res_simps]:
  "res_bind m f = Inr y \<longleftrightarrow> (\<exists>x. m = Inr x \<and> f x = Inr y)"
  by (cases m) auto

lemma res_bind_eq_Inl [res_simps]:
  "res_bind m f = Inl e \<longleftrightarrow> m = Inl e \<or> (\<exists>x. m = Inr x \<and> f x = Inl e)"
  by (cases m) auto

lemma res_bind_assoc: "res_bind (res_bind m f) g = res_bind m (\<lambda>x. res_bind (f x) g)"
  by (cases m) auto

lemma res_bind_cong [fundef_cong]:
  "m = m' \<Longrightarrow> (\<And>x. m' = Inr x \<Longrightarrow> f x = f' x) \<Longrightarrow> res_bind m f = res_bind m' f'"
  by (cases m') auto

text \<open>Computations that may fail or not return.\<close>

definition ro_bind :: "'a res option \<Rightarrow> ('a \<Rightarrow> 'b res option) \<Rightarrow> 'b res option" where
  "ro_bind m f = (case m of None \<Rightarrow> None | Some (Inl e) \<Rightarrow> Some (Inl e) | Some (Inr x) \<Rightarrow> f x)"

section \<open>Windows into arrays\<close>

text \<open>\<open>slice off n xs\<close> are the \<open>n\<close> elements from offset \<open>off\<close>; \<open>splice off ys xs\<close> overwrites
  them, as \<open>memmove\<close> into an array does.\<close>

definition slice :: "nat \<Rightarrow> nat \<Rightarrow> 'a list \<Rightarrow> 'a list" where
  "slice off n xs = take n (drop off xs)"

definition splice :: "nat \<Rightarrow> 'a list \<Rightarrow> 'a list \<Rightarrow> 'a list" where
  "splice off ys xs = take off xs @ ys @ drop (off + length ys) xs"

lemma length_slice [simp]: "length (slice off n xs) = min n (length xs - off)"
  by (simp add: slice_def)

lemma length_splice [simp]: "off + length ys \<le> length xs \<Longrightarrow> length (splice off ys xs) = length xs"
  by (simp add: splice_def)

lemma nth_slice [simp]: "i < n \<Longrightarrow> off + i < length xs \<Longrightarrow> slice off n xs ! i = xs ! (off + i)"
  by (simp add: slice_def)

lemma nth_splice:
  assumes "off + length ys \<le> length xs" "i < length xs"
  shows "splice off ys xs ! i = (if off \<le> i \<and> i < off + length ys then ys ! (i - off) else xs ! i)"
  using assms by (auto simp: splice_def nth_append min_def)

lemma slice_splice_same [slice_simps]:
  "off + length ys \<le> length xs \<Longrightarrow> n = length ys \<Longrightarrow> slice off n (splice off ys xs) = ys"
  by (simp add: slice_def splice_def)

lemma slice_splice_disj [slice_simps]:
  assumes "off + length ys \<le> length xs" "o2 + n \<le> off \<or> off + length ys \<le> o2"
  shows "slice o2 n (splice off ys xs) = slice o2 n xs"
proof (rule nth_equalityI)
  show "length (slice o2 n (splice off ys xs)) = length (slice o2 n xs)"
    using assms(1) by simp
  fix i assume "i < length (slice o2 n (splice off ys xs))"
  with assms show "slice o2 n (splice off ys xs) ! i = slice o2 n xs ! i"
    by (auto simp: nth_splice)
qed

lemma slice_all [slice_simps]: "n = length xs \<Longrightarrow> slice 0 n xs = xs"
  by (simp add: slice_def)

lemma slice_slice [slice_simps]:
  "o2 + m \<le> n \<Longrightarrow> slice o2 m (slice off n xs) = slice (off + o2) m xs"
  by (simp add: slice_def drop_take add.commute)

lemma slice_append: "slice off (m + n) xs = slice off m xs @ slice (off + m) n xs"
  by (simp add: slice_def take_add add.commute)

lemma splice_all [slice_simps]: "length ys = length xs \<Longrightarrow> splice 0 ys xs = ys"
  by (simp add: splice_def)

lemma slice_within_splice [slice_simps]:
  assumes "off + length ys \<le> length xs" "off \<le> o2" "o2 + n \<le> off + length ys"
  shows "slice o2 n (splice off ys xs) = slice (o2 - off) n ys"
proof (rule nth_equalityI)
  show "length (slice o2 n (splice off ys xs)) = length (slice (o2 - off) n ys)"
    using assms by simp
  fix i assume "i < length (slice o2 n (splice off ys xs))"
  with assms show "slice o2 n (splice off ys xs) ! i = slice (o2 - off) n ys ! i"
    by (auto simp: nth_splice)
qed

section \<open>Little-endian integers\<close>

text \<open>The x86 layout of unsigned integers of \<open>k\<close> bytes; an integer that does not fit is
  reduced modulo \<open>256 ^ k\<close>, as an assignment to the C type does.\<close>

primrec le_enc :: "nat \<Rightarrow> nat \<Rightarrow> byte list" where
  "le_enc 0 n = []"
| "le_enc (Suc k) n = of_nat (n mod 256) # le_enc k (n div 256)"

primrec le_dec :: "byte list \<Rightarrow> nat" where
  "le_dec [] = 0"
| "le_dec (b # bs) = unat b + 256 * le_dec bs"

lemma length_le_enc [simp]: "length (le_enc k n) = k"
  by (induction k arbitrary: n) auto

lemma unat_of_nat_byte [simp]: "unat (of_nat (n mod 256) :: byte) = n mod 256"
  by (simp add: unat_of_nat)

lemma le_dec_enc_mod: "le_dec (le_enc k n) = n mod 256 ^ k"
proof (induction k arbitrary: n)
  case (Suc k)
  have "n mod 256 ^ Suc k = n mod 256 + 256 * (n div 256 mod 256 ^ k)"
    using mod_mult2_eq [of n 256 "256 ^ k"] by simp
  with Suc show ?case by simp
qed simp

lemma le_dec_enc [simp]: "n < 256 ^ k \<Longrightarrow> le_dec (le_enc k n) = n"
  by (simp add: le_dec_enc_mod)

lemma unat_byte_less [simp]: "unat (b :: byte) < 256"
  using unsigned_less [of b, where 'a = nat] by simp

lemma le_dec_less: "le_dec bs < 256 ^ length bs"
proof (induction bs)
  case (Cons b bs)
  from unat_byte_less [of b] have "unat b + 256 * le_dec bs < 256 * Suc (le_dec bs)" by simp
  also from Cons have "\<dots> \<le> 256 * 256 ^ length bs" by simp
  finally show ?case by simp
qed simp

lemma le_enc_dec [simp]: "length bs = k \<Longrightarrow> le_enc k (le_dec bs) = bs"
proof (induction bs arbitrary: k)
  case (Cons b bs)
  then show ?case by (cases k) (auto simp: mod_less)
qed simp

text \<open>A C \<open>short\<close>: 16 bits read as two's complement.\<close>

definition short_of :: "nat \<Rightarrow> int" where
  "short_of n = (if n < 32768 then int n else int n - 65536)"

definition of_short :: "int \<Rightarrow> nat" where
  "of_short x = nat (x mod 65536)"

lemma short_of_of_short [simp]:
  assumes "-32768 \<le> x" "x < 32768"
  shows "short_of (of_short x) = x"
proof (cases "x < 0")
  case True
  have "x mod 65536 = (x + 65536) mod 65536" by simp
  also have "\<dots> = x + 65536" using True assms by (intro mod_pos_pos_trivial) auto
  finally show ?thesis using True assms by (simp add: short_of_def of_short_def)
next
  case False
  with assms have "x mod 65536 = x" by (intro mod_pos_pos_trivial) auto
  with False assms show ?thesis by (simp add: short_of_def of_short_def)
qed

lemma of_short_less [simp]: "of_short x < 65536"
  by (simp add: of_short_def nat_less_iff)

lemma short_of_range: "n < 65536 \<Longrightarrow> -32768 \<le> short_of n \<and> short_of n < 32768"
  by (simp add: short_of_def)

text \<open>A C \<open>int\<close> stored in 32 bits.\<close>

definition int_of_u32 :: "nat \<Rightarrow> int" where
  "int_of_u32 n = (if n < 2 ^ 31 then int n else int n - 2 ^ 32)"

definition u32_of_int :: "int \<Rightarrow> nat" where
  "u32_of_int x = nat (x mod 2 ^ 32)"

lemma u32_of_int_nat [simp]: "0 \<le> x \<Longrightarrow> x < 2 ^ 32 \<Longrightarrow> u32_of_int x = nat x"
  by (simp add: u32_of_int_def)

lemma int_of_u32_small [simp]: "n < 2 ^ 31 \<Longrightarrow> int_of_u32 n = int n"
  by (simp add: int_of_u32_def)

text \<open>An \<open>int\<close> sum or product reduced to the range of the type.\<close>

definition wrap_int :: "int \<Rightarrow> int" where
  "wrap_int x = int_of_u32 (nat (x mod 2 ^ 32))"

lemma wrap_int_id: "0 \<le> x \<Longrightarrow> x < 2 ^ 31 \<Longrightarrow> wrap_int x = x"
  by (simp add: wrap_int_def)

lemma wrap_int_small: "- (2 ^ 31) \<le> x \<Longrightarrow> x < 2 ^ 31 \<Longrightarrow> wrap_int x = x"
proof (cases "0 \<le> x")
  case False
  assume "- (2 ^ 31) \<le> x" "x < 2 ^ 31"
  then have "x mod 2 ^ 32 = x + 2 ^ 32" using False by (subst mod_pos_pos_trivial [symmetric, of "x + 2 ^ 32" "2 ^ 32"]) auto
  then show ?thesis using False \<open>- (2 ^ 31) \<le> x\<close> by (simp add: wrap_int_def int_of_u32_def nat_less_iff)
qed (simp add: wrap_int_id)

section \<open>Integer fields of a byte array\<close>

definition get_u32 :: "nat \<Rightarrow> byte list \<Rightarrow> nat" where
  "get_u32 off d = le_dec (slice off 4 d)"

definition put_u32 :: "nat \<Rightarrow> nat \<Rightarrow> byte list \<Rightarrow> byte list" where
  "put_u32 off v d = splice off (le_enc 4 v) d"

definition get_u16 :: "nat \<Rightarrow> byte list \<Rightarrow> nat" where
  "get_u16 off d = le_dec (slice off 2 d)"

definition put_u16 :: "nat \<Rightarrow> nat \<Rightarrow> byte list \<Rightarrow> byte list" where
  "put_u16 off v d = splice off (le_enc 2 v) d"

lemma length_put_u32 [simp]: "off + 4 \<le> length d \<Longrightarrow> length (put_u32 off v d) = length d"
  by (simp add: put_u32_def)

lemma length_put_u16 [simp]: "off + 2 \<le> length d \<Longrightarrow> length (put_u16 off v d) = length d"
  by (simp add: put_u16_def)

lemma get_put_u32_same [layout_simps]:
  "off + 4 \<le> length d \<Longrightarrow> get_u32 off (put_u32 off v d) = v mod 2 ^ 32"
  by (simp add: get_u32_def put_u32_def slice_splice_same le_dec_enc_mod)

lemma get_put_u16_same [layout_simps]:
  "off + 2 \<le> length d \<Longrightarrow> get_u16 off (put_u16 off v d) = v mod 2 ^ 16"
  by (simp add: get_u16_def put_u16_def slice_splice_same le_dec_enc_mod)

lemma get_put_disj [layout_simps]:
  "off + 4 \<le> length d \<Longrightarrow> o2 + 4 \<le> off \<or> off + 4 \<le> o2 \<Longrightarrow> get_u32 o2 (put_u32 off v d) = get_u32 o2 d"
  "off + 4 \<le> length d \<Longrightarrow> o2 + 2 \<le> off \<or> off + 4 \<le> o2 \<Longrightarrow> get_u16 o2 (put_u32 off v d) = get_u16 o2 d"
  "off + 2 \<le> length d \<Longrightarrow> o2 + 4 \<le> off \<or> off + 2 \<le> o2 \<Longrightarrow> get_u32 o2 (put_u16 off v d) = get_u32 o2 d"
  "off + 2 \<le> length d \<Longrightarrow> o2 + 2 \<le> off \<or> off + 2 \<le> o2 \<Longrightarrow> get_u16 o2 (put_u16 off v d) = get_u16 o2 d"
  by (simp_all add: get_u32_def put_u32_def get_u16_def put_u16_def slice_splice_disj)

lemma get_u32_less [simp]: "off + 4 \<le> length d \<Longrightarrow> get_u32 off d < 2 ^ 32"
  using le_dec_less [of "slice off 4 d"] by (simp add: get_u32_def)

lemma get_u16_less [simp]: "off + 2 \<le> length d \<Longrightarrow> get_u16 off d < 2 ^ 16"
  using le_dec_less [of "slice off 2 d"] by (simp add: get_u16_def)

section \<open>Tables scanned for the first match\<close>

text \<open>The loop \<open>for (i = 0; i < N; i++) if (P(tab[i])) ...\<close> that the kernel's fixed-size tables
  are searched with: the least index whose entry satisfies \<open>P\<close>.\<close>

fun find_index :: "('a \<Rightarrow> bool) \<Rightarrow> 'a list \<Rightarrow> nat option" where
  "find_index P [] = None"
| "find_index P (x # xs) = (if P x then Some 0 else map_option Suc (find_index P xs))"

lemma find_index_None: "find_index P xs = None \<longleftrightarrow> (\<forall>x \<in> set xs. \<not> P x)"
  by (induction xs) auto

lemma find_index_Some:
  "find_index P xs = Some i \<longleftrightarrow> i < length xs \<and> P (xs ! i) \<and> (\<forall>j < i. \<not> P (xs ! j))"
proof (induction xs arbitrary: i)
  case (Cons x xs)
  show ?case
  proof (cases i)
    case (Suc k)
    with Cons show ?thesis by (auto simp: less_Suc_eq_0_disj)
  qed auto
qed simp

lemma find_index_SomeD:
  assumes "find_index P xs = Some i"
  shows "i < length xs" "P (xs ! i)" "j < i \<Longrightarrow> \<not> P (xs ! j)"
  using assms by (auto simp: find_index_Some)

lemma find_index_ex: "x \<in> set xs \<Longrightarrow> P x \<Longrightarrow> \<exists>i. find_index P xs = Some i"
  using find_index_None [of P xs] by fastforce

end
