(* ===== verification/Bio.thy ===== *)
theory Bio
  imports Xv6_Prelude
begin

text \<open>
  \<open>kernel/memide.c\<close> and \<open>kernel/bio.c\<close>: the memory-backed disk and the buffer cache above it. The
  state records are extensible: the log and the file system add their own fields, so the
  cache operations act on their states as they are. \<open>bio_inv\<close> is the invariant of the cache;
  \<open>view\<close> is what a block holds as seen through the cache, \<open>busyS\<close> and \<open>dirtyS\<close> are the sectors
  some caller holds and the sectors pinned by the log. The locale \<open>block_cache\<close> states what the
  layers above rely on in those terms; \<open>bc\<close> interprets it for the operations of \<open>bio.c\<close>.
\<close>

section \<open>State\<close>

definition NBUF :: nat where "NBUF = 10"
definition BSIZE :: nat where "BSIZE = 1024"
definition ROOTDEV :: nat where "ROOTDEV = 1"

text \<open>\<open>struct buf\<close>; the three bits of \<open>flags\<close> are fields of their own.\<close>

record buf =
  b_busy :: bool
  b_valid :: bool
  b_dirty :: bool
  b_dev :: nat
  b_sector :: nat
  b_data :: "byte list"

text \<open>\<open>memdisk\<close> as its blocks of 1024 bytes (\<open>disksize\<close> is their number), and the history of the
  blocks written to it, which the crash argument of the log inspects.\<close>

record disk_state =
  memdisk :: "byte list list"
  writes :: "(nat \<times> byte list) list"

text \<open>\<open>bcache\<close>: the buffers, and the circular list through \<open>head\<close> as the buffer numbers in the order
  of the \<open>next\<close> pointers, most recently used first.\<close>

record bio_state = disk_state +
  bufs :: "buf list"
  lru :: "nat list"

section \<open>Operations\<close>

text \<open>\<open>iderw\<close> of \<open>memide.c\<close> on buffer \<open>i\<close>.\<close>

definition iderw :: "nat \<Rightarrow> 'a bio_state_scheme \<Rightarrow> 'a bio_state_scheme res" where
  "iderw i s =
     (let b = bufs s ! i
      in if \<not> b_busy b then Inl (Panic ''iderw: buf not busy'')
      else if b_valid b \<and> \<not> b_dirty b then Inl (Panic ''iderw: nothing to do'')
      else if b_dev b \<noteq> 1 then Inl (Panic ''iderw: request not for disk 1'')
      else if b_sector b \<ge> length (memdisk s) then Inl (Panic ''iderw: sector out of range'')
      else if b_dirty b
      then Inr (s\<lparr>memdisk := (memdisk s)[b_sector b := b_data b],
                  writes := writes s @ [(b_sector b, b_data b)],
                  bufs := (bufs s)[i := b\<lparr>b_dirty := False, b_valid := True\<rparr>]\<rparr>)
      else Inr (s\<lparr>bufs := (bufs s)[i := b\<lparr>b_data := memdisk s ! b_sector b, b_valid := True\<rparr>]\<rparr>))"

text \<open>The loop of \<open>binit\<close> inserts each buffer after \<open>head\<close>, so the last one comes first. The
  buffers are zero-initialised static data but for \<open>dev = -1\<close>.\<close>

definition buf_init :: buf where
  "buf_init = \<lparr>b_busy = False, b_valid = False, b_dirty = False, b_dev = 2 ^ 32 - 1, b_sector = 0,
     b_data = replicate BSIZE 0\<rparr>"

definition binit :: "'a bio_state_scheme \<Rightarrow> 'a bio_state_scheme" where
  "binit s = s\<lparr>bufs := replicate NBUF buf_init, lru := fold (\<lambda>b l. b # l) [0..<NBUF] []\<rparr>"

text \<open>\<open>bget\<close> searches forwards for the block; if another caller holds it, it sleeps. Otherwise it
  recycles the least recently used buffer that is neither busy nor dirty.\<close>

definition bget :: "nat \<Rightarrow> nat \<Rightarrow> 'a bio_state_scheme \<Rightarrow> (nat \<times> 'a bio_state_scheme) res" where
  "bget dev sector s =
     (case find (\<lambda>i. b_dev (bufs s ! i) = dev \<and> b_sector (bufs s ! i) = sector) (lru s) of
        Some i \<Rightarrow>
          (let b = bufs s ! i
           in if \<not> b_busy b then Inr (i, s\<lparr>bufs := (bufs s)[i := b\<lparr>b_busy := True\<rparr>]\<rparr>)
              else Inl (Sleeps ''bget''))
      | None \<Rightarrow>
          (case find (\<lambda>i. \<not> b_busy (bufs s ! i) \<and> \<not> b_dirty (bufs s ! i)) (rev (lru s)) of
             Some i \<Rightarrow>
               (let b = bufs s ! i
                in Inr (i, s\<lparr>bufs := (bufs s)[i := b\<lparr>b_dev := dev, b_sector := sector,
                     b_busy := True, b_valid := False, b_dirty := False\<rparr>]\<rparr>))
           | None \<Rightarrow> Inl (Panic ''bget: no buffers'')))"

definition bread :: "nat \<Rightarrow> nat \<Rightarrow> 'a bio_state_scheme \<Rightarrow> (nat \<times> 'a bio_state_scheme) res" where
  "bread dev sector s =
     res_bind (bget dev sector s) (\<lambda>(i, s).
       if \<not> b_valid (bufs s ! i) then res_bind (iderw i s) (\<lambda>s. Inr (i, s)) else Inr (i, s))"

definition bwrite :: "nat \<Rightarrow> 'a bio_state_scheme \<Rightarrow> 'a bio_state_scheme res" where
  "bwrite i s =
     (let b = bufs s ! i
      in if \<not> b_busy b then Inl (Panic ''bwrite'')
      else iderw i (s\<lparr>bufs := (bufs s)[i := b\<lparr>b_dirty := True\<rparr>]\<rparr>))"

definition brelse :: "nat \<Rightarrow> 'a bio_state_scheme \<Rightarrow> 'a bio_state_scheme res" where
  "brelse i s =
     (let b = bufs s ! i
      in if \<not> b_busy b then Inl (Panic ''brelse'')
      else Inr (s\<lparr>lru := i # remove1 i (lru s), bufs := (bufs s)[i := b\<lparr>b_busy := False\<rparr>]\<rparr>))"

text \<open>What callers do between \<open>bread\<close> and \<open>brelse\<close>: read and overwrite \<open>b->data\<close>, and, in
  \<open>log_write\<close>, set \<open>B_DIRTY\<close>.\<close>

definition buf_data :: "nat \<Rightarrow> 'a bio_state_scheme \<Rightarrow> byte list" where
  "buf_data i s = b_data (bufs s ! i)"

definition set_data :: "nat \<Rightarrow> byte list \<Rightarrow> 'a bio_state_scheme \<Rightarrow> 'a bio_state_scheme" where
  "set_data i d s = s\<lparr>bufs := (bufs s)[i := (bufs s ! i)\<lparr>b_data := d\<rparr>]\<rparr>"

definition mark_dirty :: "nat \<Rightarrow> 'a bio_state_scheme \<Rightarrow> 'a bio_state_scheme" where
  "mark_dirty i s = s\<lparr>bufs := (bufs s)[i := (bufs s ! i)\<lparr>b_dirty := True\<rparr>]\<rparr>"

section \<open>Invariant and abstraction\<close>

definition holds_block :: "buf \<Rightarrow> nat \<Rightarrow> bool" where
  "holds_block b n \<longleftrightarrow> b_dev b = 1 \<and> b_sector b = n"

definition bio_inv :: "'a bio_state_scheme \<Rightarrow> bool" where
  "bio_inv s \<longleftrightarrow>
     length (bufs s) = NBUF \<and> distinct (lru s) \<and> set (lru s) = {..<NBUF} \<and>
     (\<forall>b \<in> set (bufs s). length (b_data b) = BSIZE) \<and>
     (\<forall>d \<in> set (memdisk s). length d = BSIZE) \<and>
     (\<forall>i < NBUF. \<forall>j < NBUF. \<forall>n. holds_block (bufs s ! i) n \<and> holds_block (bufs s ! j) n \<longrightarrow> i = j) \<and>
     (\<forall>b \<in> set (bufs s). b_busy b \<or> b_valid b \<or> b_dirty b \<longrightarrow> b_dev b = 1 \<and> b_sector b < length (memdisk s)) \<and>
     (\<forall>b \<in> set (bufs s). b_busy b \<or> b_dirty b \<longrightarrow> b_valid b) \<and>
     (\<forall>b \<in> set (bufs s). b_valid b \<and> \<not> b_dirty b \<and> \<not> b_busy b \<longrightarrow> b_data b = memdisk s ! b_sector b)"

definition busyS :: "'a bio_state_scheme \<Rightarrow> nat set" where
  "busyS s = b_sector ` {b \<in> set (bufs s). b_busy b}"

definition dirtyS :: "'a bio_state_scheme \<Rightarrow> nat set" where
  "dirtyS s = b_sector ` {b \<in> set (bufs s). b_dirty b}"

definition view :: "'a bio_state_scheme \<Rightarrow> nat \<Rightarrow> byte list" where
  "view s n =
     (case find_index (\<lambda>b. b_valid b \<and> holds_block b n) (bufs s) of
        Some i \<Rightarrow> b_data (bufs s ! i)
      | None \<Rightarrow> memdisk s ! n)"

text \<open>\<open>has_buf s i n\<close>: buffer \<open>i\<close> is held by a caller and caches sector \<open>n\<close>.\<close>

definition has_buf :: "'a bio_state_scheme \<Rightarrow> nat \<Rightarrow> nat \<Rightarrow> bool" where
  "has_buf s i n \<longleftrightarrow> i < NBUF \<and> b_busy (bufs s ! i) \<and> holds_block (bufs s ! i) n"

text \<open>The parts of the invariant, by index.\<close>

lemma bio_invD:
  assumes "bio_inv s"
  shows "length (bufs s) = NBUF" "distinct (lru s)" "set (lru s) = {..<NBUF}"
    and "i < NBUF \<Longrightarrow> length (b_data (bufs s ! i)) = BSIZE"
    and "n < length (memdisk s) \<Longrightarrow> length (memdisk s ! n) = BSIZE"
    and "i < NBUF \<Longrightarrow> j < NBUF \<Longrightarrow> holds_block (bufs s ! i) n \<Longrightarrow> holds_block (bufs s ! j) n \<Longrightarrow> i = j"
    and "i < NBUF \<Longrightarrow> b_busy (bufs s ! i) \<or> b_valid (bufs s ! i) \<or> b_dirty (bufs s ! i) \<Longrightarrow>
      holds_block (bufs s ! i) (b_sector (bufs s ! i)) \<and> b_sector (bufs s ! i) < length (memdisk s)"
    and "i < NBUF \<Longrightarrow> b_busy (bufs s ! i) \<or> b_dirty (bufs s ! i) \<Longrightarrow> b_valid (bufs s ! i)"
    and "i < NBUF \<Longrightarrow> b_valid (bufs s ! i) \<Longrightarrow> \<not> b_dirty (bufs s ! i) \<Longrightarrow> \<not> b_busy (bufs s ! i) \<Longrightarrow>
      b_data (bufs s ! i) = memdisk s ! b_sector (bufs s ! i)"
  using assms unfolding bio_inv_def holds_block_def by (auto simp: all_set_conv_all_nth)

lemma bio_invI:
  assumes "length (bufs s) = NBUF" "distinct (lru s)" "set (lru s) = {..<NBUF}"
    and "\<And>i. i < NBUF \<Longrightarrow> length (b_data (bufs s ! i)) = BSIZE"
    and "\<And>n. n < length (memdisk s) \<Longrightarrow> length (memdisk s ! n) = BSIZE"
    and "\<And>i j n. i < NBUF \<Longrightarrow> j < NBUF \<Longrightarrow> holds_block (bufs s ! i) n \<Longrightarrow> holds_block (bufs s ! j) n \<Longrightarrow> i = j"
    and "\<And>i. i < NBUF \<Longrightarrow> b_busy (bufs s ! i) \<or> b_valid (bufs s ! i) \<or> b_dirty (bufs s ! i) \<Longrightarrow>
      holds_block (bufs s ! i) (b_sector (bufs s ! i)) \<and> b_sector (bufs s ! i) < length (memdisk s)"
    and "\<And>i. i < NBUF \<Longrightarrow> b_busy (bufs s ! i) \<or> b_dirty (bufs s ! i) \<Longrightarrow> b_valid (bufs s ! i)"
    and "\<And>i. i < NBUF \<Longrightarrow> b_valid (bufs s ! i) \<Longrightarrow> \<not> b_dirty (bufs s ! i) \<Longrightarrow> \<not> b_busy (bufs s ! i) \<Longrightarrow>
      b_data (bufs s ! i) = memdisk s ! b_sector (bufs s ! i)"
  shows "bio_inv s"
  unfolding bio_inv_def
proof (intro conjI)
  show "\<forall>i < NBUF. \<forall>j < NBUF. \<forall>n. holds_block (bufs s ! i) n \<and> holds_block (bufs s ! j) n \<longrightarrow> i = j"
    using assms(6) by blast
qed (use assms in \<open>auto simp: all_set_conv_all_nth holds_block_def\<close>)

lemma view_cached:
  assumes "bio_inv s" "i < NBUF" "b_valid (bufs s ! i)" "holds_block (bufs s ! i) n"
  shows "view s n = b_data (bufs s ! i)"
proof -
  have "\<exists>j. find_index (\<lambda>b. b_valid b \<and> holds_block b n) (bufs s) = Some j"
    using assms bio_invD(1) [OF assms(1)] by (intro find_index_ex [of "bufs s ! i"]) auto
  then obtain j where j: "find_index (\<lambda>b. b_valid b \<and> holds_block b n) (bufs s) = Some j" by blast
  from find_index_SomeD [OF j] bio_invD(1) [OF assms(1)]
  have "j = i" by (intro bio_invD(6) [OF assms(1), of j i n]) (use assms in auto)
  with j show ?thesis by (simp add: view_def)
qed

lemma view_uncached:
  assumes "\<And>i. i < length (bufs s) \<Longrightarrow> holds_block (bufs s ! i) n \<Longrightarrow> \<not> b_valid (bufs s ! i)"
  shows "view s n = memdisk s ! n"
proof -
  have "find_index (\<lambda>b. b_valid b \<and> holds_block b n) (bufs s) = None"
    using assms by (fastforce simp: in_set_conv_nth find_index_None)
  then show ?thesis by (simp add: view_def)
qed

lemma busyS_iff: "bio_inv s \<Longrightarrow> n \<in> busyS s \<longleftrightarrow> (\<exists>i. has_buf s i n)"
  using bio_invD(1,7) unfolding busyS_def has_buf_def
  by (fastforce simp: in_set_conv_nth holds_block_def)

lemma dirtyS_iff:
  "bio_inv s \<Longrightarrow> n \<in> dirtyS s \<longleftrightarrow> (\<exists>i < NBUF. b_dirty (bufs s ! i) \<and> holds_block (bufs s ! i) n)"
  using bio_invD(1,7) unfolding dirtyS_def
  by (fastforce simp: in_set_conv_nth holds_block_def)

section \<open>Replacing one buffer\<close>

text \<open>The state in which buffer \<open>i\<close> has become \<open>b\<close>, as all operations leave it.\<close>

definition upd_buf :: "nat \<Rightarrow> buf \<Rightarrow> 'a bio_state_scheme \<Rightarrow> 'a bio_state_scheme" where
  "upd_buf i b s = s\<lparr>bufs := (bufs s)[i := b]\<rparr>"

lemma upd_buf_simps [simp]:
  "memdisk (upd_buf i b s) = memdisk s" "writes (upd_buf i b s) = writes s" "lru (upd_buf i b s) = lru s"
  "bio_state.more (upd_buf i b s) = bio_state.more s" "length (bufs (upd_buf i b s)) = length (bufs s)"
  "i < length (bufs s) \<Longrightarrow> bufs (upd_buf i b s) ! i = b"
  "j \<noteq> i \<Longrightarrow> bufs (upd_buf i b s) ! j = bufs s ! j"
  by (simp_all add: upd_buf_def)

lemma bufs_upd_nth:
  "i < length (bufs s) \<Longrightarrow> bufs (upd_buf i b s) ! j = (if j = i then b else bufs s ! j)"
  by (simp add: upd_buf_def)

text \<open>What a buffer may become while its caller holds it: it keeps caching sector \<open>n\<close>.\<close>

lemma upd_buf_inv:
  assumes "bio_inv s" "i < NBUF" "length (b_data b) = BSIZE" "holds_block b n" "n < length (memdisk s)"
    and "\<And>j. j < NBUF \<Longrightarrow> j \<noteq> i \<Longrightarrow> \<not> holds_block (bufs s ! j) n"
    and "b_valid b" "b_busy b \<or> b_dirty b \<or> b_data b = memdisk s ! n"
  shows "bio_inv (upd_buf i b s)"
proof -
  note inv = bio_invD [OF assms(1)]
  have n: "b_sector b = n" using assms(4) by (simp add: holds_block_def)
  have i: "i < length (bufs s)" using assms(2) inv(1) by simp
  have uniq: "holds_block b m \<Longrightarrow> m = n" for m using n by (simp add: holds_block_def)
  show ?thesis
  proof (rule bio_invI)
    fix j k m
    assume "j < NBUF" "k < NBUF" "holds_block (bufs (upd_buf i b s) ! j) m" "holds_block (bufs (upd_buf i b s) ! k) m"
    then show "j = k"
      using inv(6) [of j k m] assms(6) uniq by (auto simp: bufs_upd_nth [OF i] split: if_splits)
  qed (use inv assms n in \<open>auto simp: bufs_upd_nth [OF i]\<close>)
qed

lemma view_upd_buf:
  assumes "bio_inv s" "bio_inv (upd_buf i b s)" "i < NBUF" "b_valid b" "holds_block b n"
    and "holds_block (bufs s ! i) n \<or> \<not> b_valid (bufs s ! i)
      \<or> b_data (bufs s ! i) = memdisk s ! b_sector (bufs s ! i)"
    and "\<And>j. j < NBUF \<Longrightarrow> j \<noteq> i \<Longrightarrow> \<not> holds_block (bufs s ! j) n"
  shows "view (upd_buf i b s) = (view s)(n := b_data b)"
proof
  fix m
  note inv = bio_invD [OF assms(1)]
  have i: "i < length (bufs s)" using assms(3) inv(1) by simp
  show "view (upd_buf i b s) m = ((view s)(n := b_data b)) m"
  proof (cases "m = n")
    case True
    then show ?thesis using view_cached [OF assms(2,3), of n] assms(4,5) i by simp
  next
    case False
    then have nb: "\<not> holds_block b m" using assms(5) by (simp add: holds_block_def)
    show ?thesis
    proof (cases "\<exists>j < NBUF. j \<noteq> i \<and> b_valid (bufs s ! j) \<and> holds_block (bufs s ! j) m")
      case True
      then obtain j where j: "j < NBUF" "j \<noteq> i" "b_valid (bufs s ! j)" "holds_block (bufs s ! j) m" by blast
      then have "view (upd_buf i b s) m = b_data (bufs s ! j)"
        using view_cached [OF assms(2) j(1), of m] by simp
      moreover have "view s m = b_data (bufs s ! j)" using view_cached [OF assms(1) j(1,3,4)] .
      ultimately show ?thesis using False by simp
    next
      case none: False
      have "view (upd_buf i b s) m = memdisk s ! m"
        by (subst view_uncached) (use none nb inv(1) in \<open>auto simp: bufs_upd_nth [OF i] split: if_splits\<close>)
      moreover have "view s m = memdisk s ! m"
      proof (cases "b_valid (bufs s ! i) \<and> holds_block (bufs s ! i) m")
        case True
        then have "view s m = b_data (bufs s ! i)" using view_cached [OF assms(1,3)] by simp
        with True False assms(6) show ?thesis by (auto simp: holds_block_def)
      next
        case False
        then show ?thesis using view_uncached [of s m] none inv(1) by auto
      qed
      ultimately show ?thesis using False by simp
    qed
  qed
qed

lemma flagged_upd_buf:
  assumes "i < NBUF" "length (bufs s) = NBUF" "holds_block b n" "P (bufs s ! i) \<Longrightarrow> holds_block (bufs s ! i) n"
    and "\<And>j. j < NBUF \<Longrightarrow> j \<noteq> i \<Longrightarrow> \<not> holds_block (bufs s ! j) n"
  shows "(\<exists>j < NBUF. P (bufs (upd_buf i b s) ! j) \<and> holds_block (bufs (upd_buf i b s) ! j) m) \<longleftrightarrow>
    (if m = n then P b else \<exists>j < NBUF. P (bufs s ! j) \<and> holds_block (bufs s ! j) m)"
proof (cases "m = n")
  case True
  then show ?thesis using assms by (auto simp: bufs_upd_nth)
next
  case False
  then have nb: "\<not> holds_block b m" "P (bufs s ! i) \<Longrightarrow> \<not> holds_block (bufs s ! i) m"
    using assms(3,4) by (auto simp: holds_block_def)
  have "(\<exists>j < NBUF. P (bufs (upd_buf i b s) ! j) \<and> holds_block (bufs (upd_buf i b s) ! j) m) \<longleftrightarrow>
      (\<exists>j < NBUF. j \<noteq> i \<and> P (bufs s ! j) \<and> holds_block (bufs s ! j) m)"
    using nb(1) assms(1,2) by (metis bufs_upd_nth)
  also have "\<dots> \<longleftrightarrow> (\<exists>j < NBUF. P (bufs s ! j) \<and> holds_block (bufs s ! j) m)" using nb(2) by blast
  finally show ?thesis using False by simp
qed

lemma busyS_upd_buf:
  assumes "bio_inv s" "bio_inv (upd_buf i b s)" "i < NBUF" "holds_block b n"
    and "b_busy (bufs s ! i) \<Longrightarrow> holds_block (bufs s ! i) n"
    and "\<And>j. j < NBUF \<Longrightarrow> j \<noteq> i \<Longrightarrow> \<not> holds_block (bufs s ! j) n"
  shows "busyS (upd_buf i b s) = (if b_busy b then insert n (busyS s) else busyS s - {n})"
  using flagged_upd_buf [of i s b n b_busy] assms bio_invD(1) [OF assms(1)]
  unfolding set_eq_iff busyS_iff [OF assms(1)] busyS_iff [OF assms(2)] has_buf_def
  by (auto simp: busyS_iff [OF assms(1)] has_buf_def)

lemma dirtyS_upd_buf:
  assumes "bio_inv s" "bio_inv (upd_buf i b s)" "i < NBUF" "holds_block b n"
    and "b_dirty (bufs s ! i) \<Longrightarrow> holds_block (bufs s ! i) n"
    and "\<And>j. j < NBUF \<Longrightarrow> j \<noteq> i \<Longrightarrow> \<not> holds_block (bufs s ! j) n"
  shows "dirtyS (upd_buf i b s) = (if b_dirty b then insert n (dirtyS s) else dirtyS s - {n})"
  using flagged_upd_buf [of i s b n b_dirty] assms bio_invD(1) [OF assms(1)]
  unfolding set_eq_iff dirtyS_iff [OF assms(1)] dirtyS_iff [OF assms(2)]
  by (auto simp: dirtyS_iff [OF assms(1)])

section \<open>The operations in terms of the abstraction\<close>

lemma find_SomeD: "find P xs = Some x \<Longrightarrow> x \<in> set xs \<and> P x"
  by (auto simp: find_Some_iff)

text \<open>The buffer \<open>bread\<close> ends up with: either the one that cached the block, or a recycled one that
  was neither busy nor dirty.\<close>

definition bread_buf :: "'a bio_state_scheme \<Rightarrow> nat \<Rightarrow> nat \<Rightarrow> buf \<Rightarrow> bool" where
  "bread_buf s n i b \<longleftrightarrow>
     i < NBUF \<and> b_busy b \<and> b_valid b \<and> holds_block b n \<and> n < length (memdisk s) \<and> b_data b = view s n \<and>
     \<not> b_busy (bufs s ! i) \<and>
     (holds_block (bufs s ! i) n \<and> b_dirty b = b_dirty (bufs s ! i) \<or> \<not> b_dirty b \<and> \<not> b_dirty (bufs s ! i)) \<and>
     (\<forall>j < NBUF. j \<noteq> i \<longrightarrow> \<not> holds_block (bufs s ! j) n)"

lemma iderw_fill:
  assumes "i < NBUF" "length (bufs s) = NBUF" "b_busy b" "\<not> b_valid b" "\<not> b_dirty b" "holds_block b n"
    and "res_bind (iderw i (upd_buf i b s)) (\<lambda>s. Inr (i, s)) = Inr (k, s')"
  shows "k = i \<and> n < length (memdisk s) \<and>
    s' = upd_buf i (b\<lparr>b_data := memdisk s ! n, b_valid := True\<rparr>) s"
  using assms
  by (auto simp: iderw_def res_simps upd_buf_def holds_block_def Let_def split: if_splits)

lemma bread_Inr:
  assumes inv: "bio_inv s" and br: "bread 1 n s = Inr (i, s')"
  shows "\<exists>b. s' = upd_buf i b s \<and> bread_buf s n i b"
proof (cases "find (\<lambda>i. b_dev (bufs s ! i) = 1 \<and> b_sector (bufs s ! i) = n) (lru s)")
  case (Some k)
  note I = bio_invD [OF inv]
  define c where "c = bufs s ! k"
  from find_SomeD [OF Some] I(3) have k: "k < NBUF" "holds_block c n"
    by (auto simp: holds_block_def c_def)
  have others: "\<forall>j < NBUF. j \<noteq> k \<longrightarrow> \<not> holds_block (bufs s ! j) n"
    using I(6) k unfolding c_def by blast
  have nb: "\<not> b_busy c" using br Some by (auto simp: bread_def bget_def c_def Let_def split: if_splits)
  show ?thesis
  proof (cases "b_valid c")
    case True
    have "i = k \<and> s' = upd_buf k (c\<lparr>b_busy := True\<rparr>) s"
      using br Some nb True I(1) k(1)
      by (auto simp: bread_def bget_def c_def upd_buf_def Let_def)
    moreover have "view s n = b_data c" using view_cached [OF inv k(1)] True k(2) by (simp add: c_def)
    moreover have "n < length (memdisk s)" using I(7) [OF k(1)] True k(2) by (auto simp: c_def holds_block_def)
    ultimately show ?thesis
      using k nb True others by (intro exI [of _ "c\<lparr>b_busy := True\<rparr>"]) (auto simp: bread_buf_def holds_block_def c_def)
  next
    case False
    have d: "\<not> b_dirty c" using I(8) [OF k(1)] False by (auto simp: c_def)
    have "res_bind (iderw k (upd_buf k (c\<lparr>b_busy := True\<rparr>) s)) (\<lambda>s. Inr (k, s)) = Inr (i, s')"
      using br Some nb False I(1) k(1) by (auto simp: bread_def bget_def c_def upd_buf_def Let_def)
    from iderw_fill [OF k(1) I(1) _ _ _ _ this, of n] False d k(2) have
      r: "i = k" "n < length (memdisk s)" "s' = upd_buf k (c\<lparr>b_busy := True, b_data := memdisk s ! n, b_valid := True\<rparr>) s"
      by (auto simp: holds_block_def)
    have "view s n = memdisk s ! n"
      by (rule view_uncached) (use False others k(1) I(1) in \<open>auto simp: c_def\<close>)
    then show ?thesis
      using r k nb d others
      by (intro exI [of _ "c\<lparr>b_busy := True, b_data := memdisk s ! n, b_valid := True\<rparr>"])
        (auto simp: bread_buf_def holds_block_def c_def)
  qed
next
  case None
  note I = bio_invD [OF inv]
  from None I(3) have others: "\<forall>j < NBUF. \<not> holds_block (bufs s ! j) n"
    by (auto simp: find_None_iff holds_block_def)
  from br None obtain k where
    k: "find (\<lambda>i. \<not> b_busy (bufs s ! i) \<and> \<not> b_dirty (bufs s ! i)) (rev (lru s)) = Some k"
    by (auto simp: bread_def bget_def split: option.splits)
  define c where "c = bufs s ! k"
  from find_SomeD [OF k] I(3) have kc: "k < NBUF" "\<not> b_busy c" "\<not> b_dirty c" by (auto simp: c_def)
  define c1 where "c1 = c\<lparr>b_dev := 1, b_sector := n, b_busy := True, b_valid := False, b_dirty := False\<rparr>"
  have "res_bind (iderw k (upd_buf k c1 s)) (\<lambda>s. Inr (k, s)) = Inr (i, s')"
    using br None k I(1) kc(1) by (auto simp: bread_def bget_def c_def c1_def upd_buf_def Let_def)
  from iderw_fill [OF kc(1) I(1) _ _ _ _ this, of n] have
    r: "i = k" "n < length (memdisk s)" "s' = upd_buf k (c1\<lparr>b_data := memdisk s ! n, b_valid := True\<rparr>) s"
    by (auto simp: c1_def holds_block_def)
  have "view s n = memdisk s ! n"
    by (rule view_uncached) (use others I(1) in auto)
  then show ?thesis
    using r kc others
    by (intro exI [of _ "c1\<lparr>b_data := memdisk s ! n, b_valid := True\<rparr>"])
      (auto simp: bread_buf_def holds_block_def c_def c1_def)
qed

lemma bread_buf_effect:
  assumes inv: "bio_inv s" and b: "bread_buf s n i b"
  shows "bio_inv (upd_buf i b s)" "has_buf (upd_buf i b s) i n" "view (upd_buf i b s) = view s"
    and "busyS (upd_buf i b s) = insert n (busyS s)" "dirtyS (upd_buf i b s) = dirtyS s"
    and "n \<notin> busyS s" "n < length (memdisk s)" "has_buf s j m \<Longrightarrow> j \<noteq> i \<and> has_buf (upd_buf i b s) j m"
proof -
  note I = bio_invD [OF inv]
  from b have
    i: "i < NBUF" "i < length (bufs s)" "b_busy b" "b_valid b" "holds_block b n" "n < length (memdisk s)"
       "b_data b = view s n" "\<not> b_busy (bufs s ! i)"
       "\<And>j. j < NBUF \<Longrightarrow> j \<noteq> i \<Longrightarrow> \<not> holds_block (bufs s ! j) n"
    and d: "holds_block (bufs s ! i) n \<and> b_dirty b = b_dirty (bufs s ! i) \<or> \<not> b_dirty b \<and> \<not> b_dirty (bufs s ! i)"
    using I(1) by (auto simp: bread_buf_def)
  have len: "length (view s n) = BSIZE"
    using I(1,4,5) i(6) by (auto simp: view_def find_index_Some split: option.splits)
  show inv': "bio_inv (upd_buf i b s)"
    by (rule upd_buf_inv [OF inv i(1) _ i(5,6)]) (use i len in auto)
  show "has_buf (upd_buf i b s) i n" using i by (simp add: has_buf_def)
  have clean: "holds_block (bufs s ! i) n \<or> \<not> b_valid (bufs s ! i)
      \<or> b_data (bufs s ! i) = memdisk s ! b_sector (bufs s ! i)"
    using I(9) [OF i(1)] d i(8) by blast
  show "view (upd_buf i b s) = view s"
    using view_upd_buf [OF inv inv' i(1,4,5) clean i(9)] i(7) by auto
  show "busyS (upd_buf i b s) = insert n (busyS s)"
    using busyS_upd_buf [OF inv inv' i(1,5) _ i(9)] i(3,8) by auto
  have dn: "n \<in> dirtyS s \<longleftrightarrow> holds_block (bufs s ! i) n \<and> b_dirty (bufs s ! i)"
    unfolding dirtyS_iff [OF inv] using i(1,9) by blast
  show "dirtyS (upd_buf i b s) = dirtyS s"
  proof -
    have "b_dirty (bufs s ! i) \<Longrightarrow> holds_block (bufs s ! i) n" using d by blast
    from dirtyS_upd_buf [OF inv inv' i(1,5) this i(9)] d dn show ?thesis by (cases "b_dirty b") auto
  qed
  show "n \<notin> busyS s"
    unfolding busyS_iff [OF inv] has_buf_def using i(8,9) by blast
  show "n < length (memdisk s)" by (rule i(6))
  show "has_buf s j m \<Longrightarrow> j \<noteq> i \<and> has_buf (upd_buf i b s) j m"
    using i(8) unfolding has_buf_def by (metis upd_buf_simps(7))
qed

text \<open>\<open>bread\<close> returns whenever the block is free to take and some buffer is unpinned.\<close>

lemma pinned_card:
  assumes inv: "bio_inv s" and full: "\<forall>i < NBUF. b_busy (bufs s ! i) \<or> b_dirty (bufs s ! i)"
  shows "card (busyS s \<union> dirtyS s) = NBUF"
proof -
  note I = bio_invD [OF inv]
  have "busyS s \<union> dirtyS s = (\<lambda>i. b_sector (bufs s ! i)) ` {..<NBUF}"
    using full I(1) unfolding busyS_def dirtyS_def by (fastforce simp: in_set_conv_nth)
  moreover have "inj_on (\<lambda>i. b_sector (bufs s ! i)) {..<NBUF}"
    using full I(6,7) by (intro inj_onI) (metis lessThan_iff)
  ultimately show ?thesis by (simp add: card_image)
qed

lemma bread_succeeds:
  assumes inv: "bio_inv s" and n: "n < length (memdisk s)" "n \<notin> busyS s"
    and room: "n \<in> dirtyS s \<or> card (busyS s \<union> dirtyS s) < NBUF"
  shows "\<exists>i s'. bread 1 n s = Inr (i, s')"
proof (cases "find (\<lambda>i. b_dev (bufs s ! i) = 1 \<and> b_sector (bufs s ! i) = n) (lru s)")
  case (Some k)
  note I = bio_invD [OF inv]
  from find_SomeD [OF Some] I(3) have k: "k < NBUF" "b_dev (bufs s ! k) = 1" "b_sector (bufs s ! k) = n" by auto
  have "\<not> b_busy (bufs s ! k)"
    using n(2) k unfolding busyS_iff [OF inv] by (auto simp: has_buf_def holds_block_def)
  moreover have "b_dirty (bufs s ! k) \<Longrightarrow> b_valid (bufs s ! k)" using I(8) [OF k(1)] by simp
  ultimately show ?thesis
    using Some k n(1) I(1)
    by (cases "b_valid (bufs s ! k)") (auto simp: bread_def bget_def iderw_def Let_def)
next
  case None
  note I = bio_invD [OF inv]
  have "n \<notin> dirtyS s"
    using None I(3) unfolding dirtyS_iff [OF inv] by (auto simp: find_None_iff holds_block_def)
  with room pinned_card [OF inv] obtain k where "k < NBUF" "\<not> b_busy (bufs s ! k)" "\<not> b_dirty (bufs s ! k)"
    by force
  then have "find (\<lambda>i. \<not> b_busy (bufs s ! i) \<and> \<not> b_dirty (bufs s ! i)) (rev (lru s)) \<noteq> None"
    using I(3) by (auto simp: find_None_iff)
  then obtain j where
    j: "find (\<lambda>i. \<not> b_busy (bufs s ! i) \<and> \<not> b_dirty (bufs s ! i)) (rev (lru s)) = Some j" by auto
  from find_SomeD [OF j] I(1,3) have "j < length (bufs s)" by auto
  with None j n(1) show ?thesis by (auto simp: bread_def bget_def iderw_def Let_def)
qed

lemma has_buf_others:
  assumes "bio_inv s" "has_buf s i n"
  shows "i < NBUF" "i < length (bufs s)" "b_busy (bufs s ! i)" "b_valid (bufs s ! i)" "holds_block (bufs s ! i) n"
    "n < length (memdisk s)" "view s n = b_data (bufs s ! i)"
    "\<And>j. j < NBUF \<Longrightarrow> j \<noteq> i \<Longrightarrow> \<not> holds_block (bufs s ! j) n"
proof -
  note I = bio_invD [OF assms(1)]
  show i: "i < NBUF" "b_busy (bufs s ! i)" "holds_block (bufs s ! i) n"
    using assms(2) by (simp_all add: has_buf_def)
  show "i < length (bufs s)" using i(1) I(1) by simp
  show v: "b_valid (bufs s ! i)" using I(8) i by blast
  show "n < length (memdisk s)" using I(7) [OF i(1)] i by (auto simp: holds_block_def)
  show "view s n = b_data (bufs s ! i)" by (rule view_cached [OF assms(1) i(1) v i(3)])
  show "\<And>j. j < NBUF \<Longrightarrow> j \<noteq> i \<Longrightarrow> \<not> holds_block (bufs s ! j) n" using I(6) i by blast
qed

lemma has_buf_upd:
  assumes "bio_inv s" "has_buf s i n" "b_busy b" "holds_block b n"
  shows "has_buf (upd_buf i b s) j m \<longleftrightarrow> has_buf s j m"
  using has_buf_others [OF assms(1,2)] assms(3,4)
  by (auto simp: has_buf_def bufs_upd_nth holds_block_def)

lemma set_data_effect:
  assumes inv: "bio_inv s" and hb: "has_buf s i n" and len: "length d = BSIZE"
  shows "bio_inv (set_data i d s)" "view (set_data i d s) = (view s)(n := d)"
    "busyS (set_data i d s) = busyS s" "dirtyS (set_data i d s) = dirtyS s"
    "has_buf (set_data i d s) j m \<longleftrightarrow> has_buf s j m" "memdisk (set_data i d s) = memdisk s"
    "writes (set_data i d s) = writes s" "bio_state.more (set_data i d s) = bio_state.more s"
proof -
  define b where "b = (bufs s ! i)\<lparr>b_data := d\<rparr>"
  have eq: "set_data i d s = upd_buf i b s" by (simp add: set_data_def upd_buf_def b_def)
  note h = has_buf_others [OF inv hb]
  have b: "b_busy b" "b_valid b" "holds_block b n" "b_data b = d" "b_dirty b = b_dirty (bufs s ! i)"
    using h by (simp_all add: b_def holds_block_def)
  show inv': "bio_inv (set_data i d s)"
    unfolding eq by (rule upd_buf_inv [OF inv h(1) _ b(3) h(6,8)]) (use b len in auto)
  show "view (set_data i d s) = (view s)(n := d)"
    using view_upd_buf [OF inv _ h(1) b(2,3) _ h(8)] inv' h(5) b(4) by (simp add: eq)
  have nb: "n \<in> busyS s" unfolding busyS_iff [OF inv] using hb by blast
  show "busyS (set_data i d s) = busyS s"
    using busyS_upd_buf [OF inv _ h(1) b(3) _ h(8)] inv' h(5) b(1) nb by (auto simp: eq)
  have "n \<in> dirtyS s \<longleftrightarrow> b_dirty (bufs s ! i)"
    unfolding dirtyS_iff [OF inv] using h by blast
  then show "dirtyS (set_data i d s) = dirtyS s"
    using dirtyS_upd_buf [OF inv _ h(1) b(3) _ h(8)] inv' h(5) b(5) by (auto simp: eq)
  show "has_buf (set_data i d s) j m \<longleftrightarrow> has_buf s j m"
    unfolding eq by (rule has_buf_upd [OF inv hb b(1,3)])
qed (simp_all add: set_data_def)

lemma mark_dirty_effect:
  assumes inv: "bio_inv s" and hb: "has_buf s i n"
  shows "bio_inv (mark_dirty i s)" "view (mark_dirty i s) = view s"
    "busyS (mark_dirty i s) = busyS s" "dirtyS (mark_dirty i s) = insert n (dirtyS s)"
    "has_buf (mark_dirty i s) j m \<longleftrightarrow> has_buf s j m" "memdisk (mark_dirty i s) = memdisk s"
    "writes (mark_dirty i s) = writes s" "bio_state.more (mark_dirty i s) = bio_state.more s"
proof -
  define b where "b = (bufs s ! i)\<lparr>b_dirty := True\<rparr>"
  have eq: "mark_dirty i s = upd_buf i b s" by (simp add: mark_dirty_def upd_buf_def b_def)
  note h = has_buf_others [OF inv hb]
  have b: "b_busy b" "b_valid b" "holds_block b n" "b_data b = b_data (bufs s ! i)" "b_dirty b"
    using h by (simp_all add: b_def holds_block_def)
  show inv': "bio_inv (mark_dirty i s)"
    unfolding eq by (rule upd_buf_inv [OF inv h(1) _ b(3) h(6,8)]) (use b bio_invD(4) [OF inv h(1)] in auto)
  show "view (mark_dirty i s) = view s"
    using view_upd_buf [OF inv _ h(1) b(2,3) _ h(8)] inv' h(5,7) b(4) by (simp add: eq fun_upd_idem)
  have nb: "n \<in> busyS s" unfolding busyS_iff [OF inv] using hb by blast
  show "busyS (mark_dirty i s) = busyS s"
    using busyS_upd_buf [OF inv _ h(1) b(3) _ h(8)] inv' h(5) b(1) nb by (auto simp: eq)
  show "dirtyS (mark_dirty i s) = insert n (dirtyS s)"
    using dirtyS_upd_buf [OF inv _ h(1) b(3) _ h(8)] inv' h(5) b(5) by (auto simp: eq)
  show "has_buf (mark_dirty i s) j m \<longleftrightarrow> has_buf s j m"
    unfolding eq by (rule has_buf_upd [OF inv hb b(1,3)])
qed (simp_all add: mark_dirty_def)

text \<open>\<open>bwrite\<close> makes the disk agree with the view.\<close>

lemma bwrite_eq:
  assumes inv: "bio_inv s" and hb: "has_buf s i n"
  shows "bwrite i s = Inr ((upd_buf i ((bufs s ! i)\<lparr>b_dirty := False\<rparr>) s)
    \<lparr>memdisk := (memdisk s)[n := view s n], writes := writes s @ [(n, view s n)]\<rparr>)"
proof -
  note h = has_buf_others [OF inv hb]
  have "(bufs s)[i := (bufs s ! i)\<lparr>b_dirty := False, b_valid := True\<rparr>] =
      (bufs s)[i := (bufs s ! i)\<lparr>b_dirty := False\<rparr>]"
    using h(4) by (cases "bufs s ! i") simp
  then show ?thesis
    using h by (cases s) (auto simp: bwrite_def iderw_def upd_buf_def holds_block_def Let_def)
qed

lemma bwrite_effect:
  assumes inv: "bio_inv s" and hb: "has_buf s i n"
  shows "\<exists>s'. bwrite i s = Inr s' \<and> bio_inv s' \<and> view s' = view s \<and> busyS s' = busyS s \<and>
    dirtyS s' = dirtyS s - {n} \<and> (\<forall>j m. has_buf s' j m \<longleftrightarrow> has_buf s j m) \<and>
    memdisk s' = (memdisk s)[n := view s n] \<and> writes s' = writes s @ [(n, view s n)] \<and>
    bio_state.more s' = bio_state.more s"
proof -
  note h = has_buf_others [OF inv hb] and I = bio_invD [OF inv]
  define b where "b = (bufs s ! i)\<lparr>b_dirty := False\<rparr>"
  define s1 where "s1 = upd_buf i b s"
  define s' where "s' = s1\<lparr>memdisk := (memdisk s)[n := view s n], writes := writes s @ [(n, view s n)]\<rparr>"
  have b: "b_busy b" "b_valid b" "holds_block b n" "b_data b = b_data (bufs s ! i)" "\<not> b_dirty b"
    using h by (simp_all add: b_def holds_block_def)
  have inv1: "bio_inv s1"
    unfolding s1_def by (rule upd_buf_inv [OF inv h(1) _ b(3) h(6,8)]) (use b I(4) [OF h(1)] in auto)
  have bs: "bufs s' = bufs s1" by (simp add: s'_def)
  have inv': "bio_inv s'"
  proof (rule bio_invI, unfold bs)
    fix j assume j: "j < NBUF" "b_valid (bufs s1 ! j)" "\<not> b_dirty (bufs s1 ! j)" "\<not> b_busy (bufs s1 ! j)"
    then have "j \<noteq> i" using b(1) h(2) by (auto simp: s1_def)
    then have "\<not> holds_block (bufs s1 ! j) n" using h(8) j(1) by (simp add: s1_def)
    then have "b_sector (bufs s1 ! j) \<noteq> n" using bio_invD(7) [OF inv1 j(1)] j(2) by (auto simp: holds_block_def)
    then show "b_data (bufs s1 ! j) = memdisk s' ! b_sector (bufs s1 ! j)"
      using bio_invD(9) [OF inv1 j] by (simp add: s'_def s1_def)
  qed (use bio_invD(1-4,6-8) [OF inv1] I(4,5) h(1,6,7) in
      \<open>auto simp: s'_def nth_list_update s1_def\<close>)
  have v1: "view s1 = view s"
    using view_upd_buf [OF inv _ h(1) b(2,3) _ h(8)] inv1 h(5,7) b(4) by (simp add: s1_def fun_upd_idem)
  have "view s' m = view s m" for m
  proof (cases "m = n")
    case True
    then have "view s' m = b_data (bufs s' ! i)"
      using view_cached [OF inv' h(1), of m] b h(2) by (simp add: bs s1_def)
    with True show ?thesis using b(4) h(2,7) by (simp add: bs s1_def)
  next
    case False
    then have "view s' m = view s1 m"
      unfolding view_def s'_def by (simp add: s1_def split: option.split)
    then show ?thesis by (simp add: v1)
  qed
  moreover have "busyS s' = busyS s"
  proof -
    have "n \<in> busyS s" unfolding busyS_iff [OF inv] using hb by blast
    then have "busyS s1 = busyS s"
      using busyS_upd_buf [OF inv _ h(1) b(3) _ h(8)] inv1 h(5) b(1) by (auto simp: s1_def)
    then show ?thesis by (simp add: busyS_def bs)
  qed
  moreover have "dirtyS s' = dirtyS s - {n}"
  proof -
    have "dirtyS s1 = dirtyS s - {n}"
      using dirtyS_upd_buf [OF inv _ h(1) b(3) _ h(8)] inv1 h(5) b(5) by (auto simp: s1_def)
    then show ?thesis by (simp add: dirtyS_def bs)
  qed
  moreover have "has_buf s' j m \<longleftrightarrow> has_buf s j m" for j m
    using has_buf_upd [OF inv hb b(1,3), of j m] by (simp add: has_buf_def bs s1_def)
  moreover have "bwrite i s = Inr s'"
    using bwrite_eq [OF inv hb] by (simp add: s'_def s1_def b_def)
  ultimately show ?thesis using inv' by (auto simp: s'_def s1_def)
qed

lemma lru_irrelevant:
  "view (s\<lparr>lru := l\<rparr>) = view s" "busyS (s\<lparr>lru := l\<rparr>) = busyS s" "dirtyS (s\<lparr>lru := l\<rparr>) = dirtyS s"
  "has_buf (s\<lparr>lru := l\<rparr>) = has_buf s" "bio_state.more (s\<lparr>lru := l\<rparr>) = bio_state.more s"
  by (simp_all add: view_def busyS_def dirtyS_def has_buf_def fun_eq_iff split: option.split)

lemma bio_inv_lru: "bio_inv s \<Longrightarrow> distinct l \<Longrightarrow> set l = {..<NBUF} \<Longrightarrow> bio_inv (s\<lparr>lru := l\<rparr>)"
  by (simp add: bio_inv_def)

lemma brelse_effect:
  assumes inv: "bio_inv s" and hb: "has_buf s i n" and clean: "n \<in> dirtyS s \<or> view s n = memdisk s ! n"
  shows "\<exists>s'. brelse i s = Inr s' \<and> bio_inv s' \<and> view s' = view s \<and> busyS s' = busyS s - {n} \<and>
    dirtyS s' = dirtyS s \<and> (\<forall>j m. j \<noteq> i \<longrightarrow> has_buf s' j m = has_buf s j m) \<and>
    memdisk s' = memdisk s \<and> writes s' = writes s \<and> bio_state.more s' = bio_state.more s"
proof -
  note h = has_buf_others [OF inv hb] and I = bio_invD [OF inv]
  define b where "b = (bufs s ! i)\<lparr>b_busy := False\<rparr>"
  define s1 where "s1 = upd_buf i b s"
  have b: "\<not> b_busy b" "b_valid b" "holds_block b n" "b_data b = b_data (bufs s ! i)" "b_dirty b = b_dirty (bufs s ! i)"
    using h by (simp_all add: b_def holds_block_def)
  have d: "n \<in> dirtyS s \<longleftrightarrow> b_dirty (bufs s ! i)"
    unfolding dirtyS_iff [OF inv] using h by blast
  have inv1: "bio_inv s1"
    unfolding s1_def by (rule upd_buf_inv [OF inv h(1) _ b(3) h(6,8)]) (use b I(4) [OF h(1)] clean d h(7) in auto)
  have v: "view s1 = view s"
    using view_upd_buf [OF inv _ h(1) b(2,3) _ h(8)] inv1 h(5,7) b(4) by (simp add: s1_def fun_upd_idem)
  have bs: "busyS s1 = busyS s - {n}"
    using busyS_upd_buf [OF inv _ h(1) b(3) _ h(8)] inv1 h(5) b(1) by (auto simp: s1_def)
  have ds: "dirtyS s1 = dirtyS s"
    using dirtyS_upd_buf [OF inv _ h(1) b(3) _ h(8)] inv1 h(5) b(5) d by (auto simp: s1_def)
  have hs: "j \<noteq> i \<Longrightarrow> has_buf s1 j m = has_buf s j m" for j m by (simp add: has_buf_def s1_def)
  define s' where "s' = s1\<lparr>lru := i # remove1 i (lru s)\<rparr>"
  have "brelse i s = Inr s'"
    using h(3) by (simp add: brelse_def s'_def s1_def upd_buf_def b_def Let_def)
  moreover have "bio_inv s'"
    unfolding s'_def using I(2,3) h(1) by (intro bio_inv_lru [OF inv1]) auto
  ultimately show ?thesis
    using v bs ds hs by (auto simp: s'_def lru_irrelevant) (simp_all add: s1_def)
qed

lemma bread_effect:
  assumes inv: "bio_inv s" and br: "bread 1 n s = Inr (i, s')"
  shows "bio_inv s' \<and> has_buf s' i n \<and> view s' = view s \<and> buf_data i s' = view s n \<and>
    busyS s' = insert n (busyS s) \<and> dirtyS s' = dirtyS s \<and> n \<notin> busyS s \<and> n < length (memdisk s) \<and>
    (\<forall>j m. has_buf s j m \<longrightarrow> j \<noteq> i \<and> has_buf s' j m) \<and>
    memdisk s' = memdisk s \<and> writes s' = writes s \<and> bio_state.more s' = bio_state.more s"
proof -
  from bread_Inr [OF assms] obtain b where b: "s' = upd_buf i b s" "bread_buf s n i b" by blast
  note e = bread_buf_effect [OF inv b(2)]
  have "buf_data i s' = view s n"
    using has_buf_others(7) [OF e(1,2)] e(3) by (simp add: buf_data_def b(1))
  then show ?thesis using e(1-7) e(8) by (simp add: b(1))
qed

section \<open>The contract of a block cache\<close>

text \<open>
  What a client may assume of the cache: reading a block gives it exclusively and shows its
  view, writing makes the disk agree with the view, releasing is allowed once the disk
  agrees or the block is pinned. \<open>rest\<close> is the part of the state the cache never touches.
\<close>

locale block_cache =
  fixes inv :: "'s \<Rightarrow> bool"
    and blk :: "'s \<Rightarrow> nat \<Rightarrow> byte list"
    and busy :: "'s \<Rightarrow> nat set"
    and dirty :: "'s \<Rightarrow> nat set"
    and disk :: "'s \<Rightarrow> byte list list"
    and wlog :: "'s \<Rightarrow> (nat \<times> byte list) list"
    and hbuf :: "'s \<Rightarrow> nat \<Rightarrow> nat \<Rightarrow> bool"
    and rest :: "'s \<Rightarrow> 'r"
    and rd :: "nat \<Rightarrow> 's \<Rightarrow> (nat \<times> 's) res"
    and wrt :: "nat \<Rightarrow> 's \<Rightarrow> 's res"
    and rel :: "nat \<Rightarrow> 's \<Rightarrow> 's res"
    and dat :: "nat \<Rightarrow> 's \<Rightarrow> byte list"
    and setd :: "nat \<Rightarrow> byte list \<Rightarrow> 's \<Rightarrow> 's"
    and bsize :: nat
    and cap :: nat
  assumes rd_effect: "inv s \<Longrightarrow> rd n s = Inr (i, s') \<Longrightarrow>
      inv s' \<and> hbuf s' i n \<and> blk s' = blk s \<and> dat i s' = blk s n \<and>
      busy s' = insert n (busy s) \<and> dirty s' = dirty s \<and> n \<notin> busy s \<and> n < length (disk s) \<and>
      (\<forall>j m. hbuf s j m \<longrightarrow> j \<noteq> i \<and> hbuf s' j m) \<and>
      disk s' = disk s \<and> wlog s' = wlog s \<and> rest s' = rest s"
    and rd_total: "inv s \<Longrightarrow> n < length (disk s) \<Longrightarrow> n \<notin> busy s \<Longrightarrow>
      n \<in> dirty s \<or> card (busy s \<union> dirty s) < cap \<Longrightarrow> \<exists>i s'. rd n s = Inr (i, s')"
    and setd_effect: "inv s \<Longrightarrow> hbuf s i n \<Longrightarrow> length d = bsize \<Longrightarrow>
      inv (setd i d s) \<and> blk (setd i d s) = (blk s)(n := d) \<and> busy (setd i d s) = busy s \<and>
      dirty (setd i d s) = dirty s \<and> hbuf (setd i d s) = hbuf s \<and> disk (setd i d s) = disk s \<and>
      wlog (setd i d s) = wlog s \<and> rest (setd i d s) = rest s"
    and wrt_effect: "inv s \<Longrightarrow> hbuf s i n \<Longrightarrow>
      \<exists>s'. wrt i s = Inr s' \<and> inv s' \<and> blk s' = blk s \<and> busy s' = busy s \<and> dirty s' = dirty s - {n} \<and>
        (\<forall>j m. hbuf s' j m \<longleftrightarrow> hbuf s j m) \<and> disk s' = (disk s)[n := blk s n] \<and>
        wlog s' = wlog s @ [(n, blk s n)] \<and> rest s' = rest s"
    and rel_effect: "inv s \<Longrightarrow> hbuf s i n \<Longrightarrow> n \<in> dirty s \<or> blk s n = disk s ! n \<Longrightarrow>
      \<exists>s'. rel i s = Inr s' \<and> inv s' \<and> blk s' = blk s \<and> busy s' = busy s - {n} \<and> dirty s' = dirty s \<and>
        (\<forall>j m. j \<noteq> i \<longrightarrow> hbuf s' j m = hbuf s j m) \<and> disk s' = disk s \<and> wlog s' = wlog s \<and> rest s' = rest s"
    and idle_view: "inv s \<Longrightarrow> n \<notin> busy s \<Longrightarrow> n \<notin> dirty s \<Longrightarrow> blk s n = disk s ! n"
    and inv_len: "inv s \<Longrightarrow> n < length (disk s) \<Longrightarrow> length (blk s n) = bsize"
    and hbuf_len: "inv s \<Longrightarrow> hbuf s i n \<Longrightarrow> n < length (disk s) \<and> n \<in> busy s \<and> dat i s = blk s n"
begin

text \<open>Two idioms of the callers: look at a block, and overwrite a block on the disk.\<close>

definition peek :: "nat \<Rightarrow> 's \<Rightarrow> (byte list \<times> 's) res" where
  "peek n s = res_bind (rd n s) (\<lambda>(i, s). res_bind (rel i s) (\<lambda>s'. Inr (dat i s, s')))"

definition overwrite :: "nat \<Rightarrow> (byte list \<Rightarrow> byte list) \<Rightarrow> 's \<Rightarrow> 's res" where
  "overwrite n f s = res_bind (rd n s) (\<lambda>(i, s).
     res_bind (wrt i (setd i (f (dat i s)) s)) (\<lambda>s. rel i s))"

definition copy :: "nat \<Rightarrow> nat \<Rightarrow> 's \<Rightarrow> 's res" where
  "copy src dst s = res_bind (rd src s) (\<lambda>(l, s). res_bind (rd dst s) (\<lambda>(d, s).
     res_bind (wrt d (setd d (dat l s) s)) (\<lambda>s. res_bind (rel l s) (rel d))))"

text \<open>States that differ at most in which buffers hold what.\<close>

definition same :: "'s \<Rightarrow> 's \<Rightarrow> bool" where
  "same s s' \<longleftrightarrow> inv s' \<and> blk s' = blk s \<and> busy s' = busy s \<and> dirty s' = dirty s \<and>
     disk s' = disk s \<and> wlog s' = wlog s \<and> rest s' = rest s \<and> (\<forall>j m. hbuf s j m \<longrightarrow> hbuf s' j m)"

lemma peek_effect:
  assumes "inv s" "n < length (disk s)" "n \<notin> busy s" "n \<in> dirty s \<or> card (busy s \<union> dirty s) < cap"
  shows "\<exists>s'. peek n s = Inr (blk s n, s') \<and> same s s'"
proof -
  from rd_total [OF assms] obtain i s1 where r: "rd n s = Inr (i, s1)" by blast
  note e = rd_effect [OF assms(1) r]
  have "n \<in> dirty s1 \<or> blk s1 n = disk s1 ! n" using idle_view [OF assms(1,3)] e by auto
  then obtain s2 where "rel i s1 = Inr s2" "inv s2" "blk s2 = blk s1" "busy s2 = busy s1 - {n}"
    "dirty s2 = dirty s1" "\<forall>j m. j \<noteq> i \<longrightarrow> hbuf s2 j m = hbuf s1 j m" "disk s2 = disk s1"
    "wlog s2 = wlog s1" "rest s2 = rest s1"
    using rel_effect [of s1 i n] e by blast
  with r e assms(3) show ?thesis by (auto simp: peek_def same_def)
qed

lemma overwrite_effect:
  assumes "inv s" "n < length (disk s)" "n \<notin> busy s" "n \<in> dirty s \<or> card (busy s \<union> dirty s) < cap"
    and "length (f (blk s n)) = bsize"
  shows "\<exists>s'. overwrite n f s = Inr s' \<and> inv s' \<and> blk s' = (blk s)(n := f (blk s n)) \<and> busy s' = busy s \<and>
    dirty s' = dirty s - {n} \<and> disk s' = (disk s)[n := f (blk s n)] \<and>
    wlog s' = wlog s @ [(n, f (blk s n))] \<and> rest s' = rest s \<and> (\<forall>j m. hbuf s j m \<longrightarrow> hbuf s' j m)"
proof -
  from rd_total [OF assms(1-4)] obtain i s1 where r: "rd n s = Inr (i, s1)" by blast
  note e = rd_effect [OF assms(1) r]
  define d where "d = f (blk s n)"
  define s2 where "s2 = setd i d s1"
  have e2: "inv s2" "blk s2 = (blk s1)(n := d)" "busy s2 = busy s1" "dirty s2 = dirty s1" "hbuf s2 = hbuf s1"
    "disk s2 = disk s1" "wlog s2 = wlog s1" "rest s2 = rest s1"
    using setd_effect [of s1 i n d] e assms(5) by (simp_all add: s2_def d_def)
  have hb: "hbuf s2 i n" using e e2(5) by simp
  from wrt_effect [OF e2(1) hb] obtain s3 where
    s3: "wrt i s2 = Inr s3" "inv s3" "blk s3 = blk s2" "busy s3 = busy s2" "dirty s3 = dirty s2 - {n}"
      "\<forall>j m. hbuf s3 j m \<longleftrightarrow> hbuf s2 j m" "disk s3 = (disk s2)[n := blk s2 n]"
      "wlog s3 = wlog s2 @ [(n, blk s2 n)]" "rest s3 = rest s2" by blast
  have "hbuf s3 i n" "blk s3 n = disk s3 ! n" using s3 hb e2 e by auto
  then obtain s4 where s4: "rel i s3 = Inr s4" "inv s4" "blk s4 = blk s3" "busy s4 = busy s3 - {n}"
    "dirty s4 = dirty s3" "\<forall>j m. j \<noteq> i \<longrightarrow> hbuf s4 j m = hbuf s3 j m" "disk s4 = disk s3"
    "wlog s4 = wlog s3" "rest s4 = rest s3"
    using rel_effect [OF s3(2)] by blast
  have "overwrite n f s = Inr s4" using r e s3(1) s4(1) by (simp add: overwrite_def s2_def d_def)
  with s4 s3 e2 e assms(3) show ?thesis by (auto simp: d_def)
qed

lemma copy_effect:
  assumes "inv s" "src < length (disk s)" "dst < length (disk s)" "src \<noteq> dst" "src \<notin> busy s" "dst \<notin> busy s"
    and "src \<in> dirty s \<or> card (busy s \<union> dirty s) < cap"
    and "dst \<in> dirty s \<or> card (insert src (busy s) \<union> dirty s) < cap"
  shows "\<exists>s'. copy src dst s = Inr s' \<and> inv s' \<and> blk s' = (blk s)(dst := blk s src) \<and> busy s' = busy s \<and>
    dirty s' = dirty s - {dst} \<and> disk s' = (disk s)[dst := blk s src] \<and>
    wlog s' = wlog s @ [(dst, blk s src)] \<and> rest s' = rest s"
proof -
  from rd_total [OF assms(1,2,5,7)] obtain l s1 where r1: "rd src s = Inr (l, s1)" by blast
  note e1 = rd_effect [OF assms(1) r1]
  have "\<exists>d s2. rd dst s1 = Inr (d, s2)"
    using e1 assms by (intro rd_total) auto
  then obtain d s2 where r2: "rd dst s1 = Inr (d, s2)" by blast
  note e2 = rd_effect [OF _ r2]
  have E2: "inv s2" "hbuf s2 d dst" "blk s2 = blk s" "busy s2 = insert dst (insert src (busy s))"
    "dirty s2 = dirty s" "d \<noteq> l" "hbuf s2 l src" "disk s2 = disk s" "wlog s2 = wlog s" "rest s2 = rest s"
    using e1 e2 by auto
  have dl: "dat l s2 = blk s src" using hbuf_len [OF E2(1,7)] E2(3) by simp
  define s3 where "s3 = setd d (blk s src) s2"
  have "length (blk s src) = bsize" using inv_len assms(1,2) by blast
  then have E3: "inv s3" "blk s3 = (blk s)(dst := blk s src)" "busy s3 = busy s2" "dirty s3 = dirty s"
    "hbuf s3 = hbuf s2" "disk s3 = disk s" "wlog s3 = wlog s" "rest s3 = rest s"
    using setd_effect [OF E2(1,2)] E2 by (simp_all add: s3_def)
  have h3: "hbuf s3 d dst" "hbuf s3 l src" using E2 E3(5) by simp_all
  from wrt_effect [OF E3(1) h3(1)] obtain s4 where
    s4: "wrt d s3 = Inr s4" "inv s4" "blk s4 = blk s3" "busy s4 = busy s3" "dirty s4 = dirty s3 - {dst}"
      "\<forall>j m. hbuf s4 j m \<longleftrightarrow> hbuf s3 j m" "disk s4 = (disk s3)[dst := blk s3 dst]"
      "wlog s4 = wlog s3 @ [(dst, blk s3 dst)]" "rest s4 = rest s3" by blast
  have "src \<in> dirty s4 \<or> blk s4 src = disk s4 ! src"
    using idle_view [OF assms(1,5)] s4 E3 assms(4) by auto
  moreover have "hbuf s4 l src" using h3 s4(6) by simp
  ultimately obtain s5 where
    s5: "rel l s4 = Inr s5" "inv s5" "blk s5 = blk s4" "busy s5 = busy s4 - {src}" "dirty s5 = dirty s4"
      "\<forall>j m. j \<noteq> l \<longrightarrow> hbuf s5 j m = hbuf s4 j m" "disk s5 = disk s4" "wlog s5 = wlog s4" "rest s5 = rest s4"
    using rel_effect [OF s4(2)] by blast
  have "hbuf s5 d dst" "blk s5 dst = disk s5 ! dst"
    using h3 s4 s5 E2(6) E3 assms(3) by auto
  then obtain s6 where
    s6: "rel d s5 = Inr s6" "inv s6" "blk s6 = blk s5" "busy s6 = busy s5 - {dst}" "dirty s6 = dirty s5"
      "disk s6 = disk s5" "wlog s6 = wlog s5" "rest s6 = rest s5"
    using rel_effect [OF s5(2)] by blast
  have "copy src dst s = Inr s6"
    using r1 r2 s4(1) s5(1) s6(1) dl by (simp add: copy_def s3_def)
  with s6 s5 s4 E3 E2 assms(5,6) show ?thesis by auto
qed

end

lemma view_idle: "bio_inv s \<Longrightarrow> n \<notin> busyS s \<Longrightarrow> n \<notin> dirtyS s \<Longrightarrow> view s n = memdisk s ! n"
proof (cases "\<exists>i < NBUF. b_valid (bufs s ! i) \<and> holds_block (bufs s ! i) n")
  case True
  assume inv: "bio_inv s" and n: "n \<notin> busyS s" "n \<notin> dirtyS s"
  from True obtain i where i: "i < NBUF" "b_valid (bufs s ! i)" "holds_block (bufs s ! i) n" by blast
  have "\<not> b_busy (bufs s ! i)" using n(1) i unfolding busyS_iff [OF inv] has_buf_def by blast
  moreover have "\<not> b_dirty (bufs s ! i)" using n(2) i unfolding dirtyS_iff [OF inv] by blast
  ultimately show ?thesis
    using view_cached [OF inv i] bio_invD(9) [OF inv i(1,2)] i(3) by (simp add: holds_block_def)
qed (auto intro: view_uncached simp: bio_invD(1))

lemma view_length: "bio_inv s \<Longrightarrow> n < length (memdisk s) \<Longrightarrow> length (view s n) = BSIZE"
proof -
  assume inv: "bio_inv s" and "n < length (memdisk s)"
  then show ?thesis
    using bio_invD(1,4,5) [OF inv] by (auto simp: view_def find_index_Some split: option.splits)
qed

lemma has_buf_facts:
  "bio_inv s \<Longrightarrow> has_buf s i n \<Longrightarrow> n < length (memdisk s) \<and> n \<in> busyS s \<and> buf_data i s = view s n"
  using has_buf_others(6,7) busyS_iff by (fastforce simp: buf_data_def)

lemma set_data_facts:
  "bio_inv s \<Longrightarrow> has_buf s i n \<Longrightarrow> length d = BSIZE \<Longrightarrow>
    bio_inv (set_data i d s) \<and> view (set_data i d s) = (view s)(n := d) \<and> busyS (set_data i d s) = busyS s \<and>
    dirtyS (set_data i d s) = dirtyS s \<and> has_buf (set_data i d s) = has_buf s \<and>
    memdisk (set_data i d s) = memdisk s \<and> writes (set_data i d s) = writes s \<and>
    bio_state.more (set_data i d s) = bio_state.more s"
  by (simp add: set_data_effect fun_eq_iff)

interpretation bc: block_cache bio_inv view busyS dirtyS memdisk writes has_buf bio_state.more
  "bread 1" bwrite brelse buf_data set_data BSIZE NBUF
  by unfold_locales
    (rule bread_effect bread_succeeds bwrite_effect brelse_effect view_idle view_length has_buf_facts
       set_data_facts; assumption)+

end
