(* ===== verification/Log.thy ===== *)
theory Log
  imports Bio
begin

text \<open>
  \<open>kernel/log.c\<close> (and \<open>readsb\<close> of \<open>kernel/fs.c\<close>, which \<open>initlog\<close> calls): the write-ahead log. A
  transaction's blocks are copied to the log area by \<open>log_write\<close>, which also pins them in the
  buffer cache; \<open>commit_trans\<close> writes the header block (the commit point), installs the blocks at
  their home locations and erases the header; \<open>recover_from_log\<close> repeats the installation
  after a crash. The main result is crash atomicity: whatever prefix of the disk writes of
  \<open>commit_trans\<close> reaches the disk, recovery produces either the state before the transaction or
  the state after it.
\<close>

section \<open>State\<close>

definition LOGSIZE :: nat where "LOGSIZE = 10"

text \<open>\<open>struct superblock\<close> (\<open>include/fs.h\<close>).\<close>

record superblock =
  sb_size :: nat
  sb_nblocks :: nat
  sb_ninodes :: nat
  sb_nlog :: nat

text \<open>\<open>struct log\<close> with its \<open>struct logheader\<close>; the sector numbers are kept as the 32-bit patterns
  the comparisons and the disk use.\<close>

record log_state = bio_state +
  lg_start :: nat
  lg_size :: int
  lg_busy :: bool
  lg_dev :: nat
  lg_n :: int
  lg_sector :: "nat list"

text \<open>The block of the log that holds the \<open>i\<close>th logged block: \<open>log.start+i+1\<close>, passed as a \<open>uint\<close>.\<close>

definition log_block :: "'a log_state_scheme \<Rightarrow> nat \<Rightarrow> nat" where
  "log_block s i = (lg_start s + i + 1) mod 2 ^ 32"

section \<open>Operations\<close>

definition dec_superblock :: "byte list \<Rightarrow> superblock" where
  "dec_superblock d = \<lparr>sb_size = get_u32 0 d, sb_nblocks = get_u32 4 d, sb_ninodes = get_u32 8 d, sb_nlog = get_u32 12 d\<rparr>"

definition readsb :: "nat \<Rightarrow> 'a bio_state_scheme \<Rightarrow> (superblock \<times> 'a bio_state_scheme) res" where
  "readsb dev s = res_bind (bread dev 1 s) (\<lambda>(b, s).
     let sb = dec_superblock (buf_data b s) in res_bind (brelse b s) (\<lambda>s. Inr (sb, s)))"

text \<open>\<open>hb->n = n; for (i = 0; i < n; i++) hb->sector[i] = sector[i]\<close>, and the reverse.\<close>

definition put_head :: "int \<Rightarrow> nat list \<Rightarrow> byte list \<Rightarrow> byte list" where
  "put_head n secs d = fold (\<lambda>i d. put_u32 (4 + 4 * i) (secs ! i) d) [0..<nat n] (put_u32 0 (u32_of_int n) d)"

definition get_head :: "nat \<Rightarrow> byte list \<Rightarrow> nat list \<Rightarrow> nat list" where
  "get_head n d secs = fold (\<lambda>i xs. xs[i := get_u32 (4 + 4 * i) d]) [0..<n] secs"

fun install_loop :: "nat \<Rightarrow> nat \<Rightarrow> 'a log_state_scheme \<Rightarrow> 'a log_state_scheme res" where
  "install_loop 0 tail s = Inr s"
| "install_loop (Suc k) tail s =
     res_bind (bread (lg_dev s) (log_block s tail) s) (\<lambda>(lbuf, s).
     res_bind (bread (lg_dev s) (lg_sector s ! tail) s) (\<lambda>(dbuf, s).
     res_bind (bwrite dbuf (set_data dbuf (buf_data lbuf s) s)) (\<lambda>s.
     res_bind (brelse lbuf s) (\<lambda>s.
     res_bind (brelse dbuf s) (install_loop k (Suc tail))))))"

definition install_trans :: "'a log_state_scheme \<Rightarrow> 'a log_state_scheme res" where
  "install_trans s = install_loop (nat (lg_n s)) 0 s"

text \<open>A header that claims more than \<open>LOGSIZE\<close> blocks makes \<open>read_head\<close> write past \<open>log.lh.sector\<close>.\<close>

definition read_head :: "'a log_state_scheme \<Rightarrow> 'a log_state_scheme res" where
  "read_head s = res_bind (bread (lg_dev s) (lg_start s) s) (\<lambda>(b, s).
     let d = buf_data b s; n = int_of_u32 (get_u32 0 d)
     in if n > int LOGSIZE then Inl (Undefined ''read_head'')
        else brelse b (s\<lparr>lg_n := n, lg_sector := get_head (nat n) d (lg_sector s)\<rparr>))"

definition write_head :: "'a log_state_scheme \<Rightarrow> 'a log_state_scheme res" where
  "write_head s = res_bind (bread (lg_dev s) (lg_start s) s) (\<lambda>(b, s).
     res_bind (bwrite b (set_data b (put_head (lg_n s) (lg_sector s) (buf_data b s)) s)) (\<lambda>s. brelse b s))"

definition recover_from_log :: "'a log_state_scheme \<Rightarrow> 'a log_state_scheme res" where
  "recover_from_log s = res_bind (read_head s) (\<lambda>s. res_bind (install_trans s) (\<lambda>s.
     write_head (s\<lparr>lg_n := 0\<rparr>)))"

definition initlog :: "'a log_state_scheme \<Rightarrow> 'a log_state_scheme res" where
  "initlog s = res_bind (readsb ROOTDEV s) (\<lambda>(sb, s).
     recover_from_log (s\<lparr>lg_start := (sb_size sb + 2 ^ 32 - sb_nlog sb) mod 2 ^ 32,
       lg_size := int_of_u32 (sb_nlog sb), lg_dev := ROOTDEV\<rparr>))"

definition begin_trans :: "'a log_state_scheme \<Rightarrow> 'a log_state_scheme res" where
  "begin_trans s = (if lg_busy s then Inl (Sleeps ''log'') else Inr (s\<lparr>lg_busy := True\<rparr>))"

definition commit_trans :: "'a log_state_scheme \<Rightarrow> 'a log_state_scheme res" where
  "commit_trans s =
     res_bind
       (if lg_n s > 0 then
          res_bind (write_head s) (\<lambda>s. res_bind (install_trans s) (\<lambda>s. write_head (s\<lparr>lg_n := 0\<rparr>)))
        else Inr s)
       (\<lambda>s. Inr (s\<lparr>lg_busy := False\<rparr>))"

definition log_write :: "nat \<Rightarrow> 'a log_state_scheme \<Rightarrow> 'a log_state_scheme res" where
  "log_write b s =
     (if lg_n s \<ge> int LOGSIZE \<or> lg_n s \<ge> lg_size s - 1 then Inl (Panic ''too big a transaction'')
      else if \<not> lg_busy s then Inl (Panic ''write outside of trans'')
      else
        let sec = b_sector (bufs s ! b);
            i = (case find_index (\<lambda>x. x = sec) (take (nat (lg_n s)) (lg_sector s)) of
                   Some i \<Rightarrow> i | None \<Rightarrow> nat (lg_n s));
            s = s\<lparr>lg_sector := (lg_sector s)[i := sec]\<rparr>
        in res_bind (bread (b_dev (bufs s ! b)) (log_block s i) s) (\<lambda>(lbuf, s).
           res_bind (bwrite lbuf (set_data lbuf (buf_data b s) s)) (\<lambda>s.
           res_bind (brelse lbuf s) (\<lambda>s.
             let s = (if int i = lg_n s then s\<lparr>lg_n := lg_n s + 1\<rparr> else s) in Inr (mark_dirty b s)))))"

section \<open>The header block\<close>

lemma put_head_fold:
  assumes "4 + 4 * n \<le> length d"
  shows "length (fold (\<lambda>i d. put_u32 (4 + 4 * i) (secs ! i) d) [0..<n] d) = length d"
    and "get_u32 0 (fold (\<lambda>i d. put_u32 (4 + 4 * i) (secs ! i) d) [0..<n] d) = get_u32 0 d"
    and "j < n \<Longrightarrow> get_u32 (4 + 4 * j) (fold (\<lambda>i d. put_u32 (4 + 4 * i) (secs ! i) d) [0..<n] d) = secs ! j mod 2 ^ 32"
  using assms
proof (induction n)
  case (Suc n)
  {
    case 1
    then show ?case using Suc by simp
  next
    case 2
    then show ?case using Suc by (simp add: layout_simps)
  next
    case 3
    then show ?case
      using Suc by (cases "j = n") (simp_all add: layout_simps)
  }
qed simp_all

lemma length_put_head:
  "length d = BSIZE \<Longrightarrow> n \<le> int LOGSIZE \<Longrightarrow> length (put_head n secs d) = BSIZE"
  unfolding put_head_def by (subst put_head_fold(1)) (auto simp: BSIZE_def LOGSIZE_def)

lemma head_n_put:
  assumes "length d = BSIZE" "0 \<le> n" "n \<le> int LOGSIZE"
  shows "int_of_u32 (get_u32 0 (put_head n secs d)) = n"
proof -
  have "get_u32 0 (put_head n secs d) = nat n"
    unfolding put_head_def
    by (subst put_head_fold(2)) (use assms in \<open>auto simp: BSIZE_def LOGSIZE_def layout_simps\<close>)
  with assms show ?thesis by (simp add: LOGSIZE_def)
qed

lemma head_sector_put:
  assumes "length d = BSIZE" "0 \<le> n" "n \<le> int LOGSIZE" "j < nat n" "secs ! j < 2 ^ 32"
  shows "get_u32 (4 + 4 * j) (put_head n secs d) = secs ! j"
  unfolding put_head_def
  by (subst put_head_fold(3)) (use assms in \<open>auto simp: BSIZE_def LOGSIZE_def\<close>)

lemma length_get_head [simp]: "length (get_head n d secs) = length secs"
  unfolding get_head_def by (induction n) auto

lemma nth_get_head: "n \<le> length secs \<Longrightarrow> j < length secs \<Longrightarrow>
  get_head n d secs ! j = (if j < n then get_u32 (4 + 4 * j) d else secs ! j)"
proof (induction n)
  case (Suc n)
  have "get_head (Suc n) d secs = (get_head n d secs)[n := get_u32 (4 + 4 * n) d]"
    by (simp add: get_head_def)
  then show ?case using Suc by (auto simp: nth_list_update less_Suc_eq)
qed (simp add: get_head_def)

section \<open>Disk writes\<close>

definition apply_writes :: "(nat \<times> byte list) list \<Rightarrow> byte list list \<Rightarrow> byte list list" where
  "apply_writes ws d = fold (\<lambda>(n, b) d. d[n := b]) ws d"

lemma apply_writes_simps [simp]:
  "apply_writes [] d = d" "apply_writes ((n, b) # ws) d = apply_writes ws (d[n := b])"
  "apply_writes (us @ vs) d = apply_writes vs (apply_writes us d)"
  by (simp_all add: apply_writes_def)

lemma length_apply_writes [simp]: "length (apply_writes ws d) = length d"
  by (induction ws arbitrary: d) auto

lemma apply_writes_nth:
  "n < length d \<Longrightarrow> apply_writes ws d ! n = (case map_of (rev ws) n of Some b \<Rightarrow> b | None \<Rightarrow> d ! n)"
proof (induction ws arbitrary: d rule: rev_induct)
  case (snoc w ws)
  obtain m b where "w = (m, b)" by fastforce
  with snoc show ?case by (auto simp: nth_list_update)
qed simp

lemma apply_writes_other: "n \<notin> fst ` set ws \<Longrightarrow> apply_writes ws d ! n = d ! n"
proof (induction ws arbitrary: d)
  case (Cons w ws)
  then show ?case by (cases w) auto
qed simp

text \<open>Repeating a sequence of writes over any part of it that was done before changes nothing.\<close>

lemma apply_writes_redo: "apply_writes ws (apply_writes (take k ws) d) = apply_writes ws d"
proof (rule nth_equalityI)
  fix n assume "n < length (apply_writes ws (apply_writes (take k ws) d))"
  then have n: "n < length d" by simp
  show "apply_writes ws (apply_writes (take k ws) d) ! n = apply_writes ws d ! n"
  proof (cases "n \<in> fst ` set ws")
    case True
    then have "\<exists>b. map_of (rev ws) n = Some b"
      by (metis image_set map_of_eq_None_iff not_None_eq rev_map set_rev)
    then show ?thesis using n by (auto simp: apply_writes_nth)
  next
    case False
    then have "n \<notin> fst ` set (take k ws)" using set_take_subset [of k ws] by auto
    with False show ?thesis by (simp add: apply_writes_other)
  qed
qed simp

section \<open>The operations as uses of the block cache\<close>

text \<open>The cache leaves the fields of the log alone.\<close>

lemma log_fields_more:
  assumes "bio_state.more s' = bio_state.more s"
  shows "lg_start s' = lg_start s" "lg_size s' = lg_size s" "lg_busy s' = lg_busy s" "lg_dev s' = lg_dev s"
    "lg_n s' = lg_n s" "lg_sector s' = lg_sector s" "log_state.more s' = log_state.more s"
  using assms by (cases s; cases s'; simp)+

lemma bread_more: "bread dev n s = Inr (i, s') \<Longrightarrow> bio_state.more s' = bio_state.more s"
  by (auto simp: bread_def bget_def iderw_def res_simps Let_def split: option.splits if_splits)

lemma write_head_overwrite:
  assumes "lg_dev s = 1"
  shows "write_head s = bc.overwrite (lg_start s) (put_head (lg_n s) (lg_sector s)) s"
proof -
  have keep: "bread 1 (lg_start s) s = Inr (b, s1) \<Longrightarrow> lg_n s1 = lg_n s \<and> lg_sector s1 = lg_sector s" for b s1
    using log_fields_more(5,6) bread_more by blast
  show ?thesis
    unfolding write_head_def bc.overwrite_def assms
  proof (rule res_bind_cong [OF refl])
    fix x assume "bread 1 (lg_start s) s = Inr x"
    then show "(case x of (b, s) \<Rightarrow> res_bind (bwrite b (set_data b (put_head (lg_n s) (lg_sector s) (buf_data b s)) s)) (brelse b)) =
      (case x of (i, sa) \<Rightarrow> res_bind (bwrite i (set_data i (put_head (lg_n s) (lg_sector s) (buf_data i sa)) sa)) (brelse i))"
      using keep by (cases x) simp
  qed
qed

lemma install_loop_copy:
  assumes "lg_dev s = 1"
  shows "install_loop (Suc k) tail s =
    res_bind (bc.copy (log_block s tail) (lg_sector s ! tail) s) (install_loop k (Suc tail))"
proof -
  have keep: "bread 1 (log_block s tail) s = Inr x \<Longrightarrow> lg_dev (snd x) = 1 \<and> lg_sector (snd x) = lg_sector s" for x
    using assms log_fields_more(4,6) bread_more by (metis prod.collapse)
  show ?thesis
    by (simp add: bc.copy_def res_bind_assoc split_beta assms del: One_nat_def)
      (rule res_bind_cong, simp, use keep in \<open>auto simp: case_prod_unfold\<close>)
qed

section \<open>Installing a logged transaction\<close>

text \<open>The geometry of the log: where it is, and that it fits on the disk.\<close>

definition log_geom :: "'a log_state_scheme \<Rightarrow> bool" where
  "log_geom s \<longleftrightarrow> lg_dev s = 1 \<and> 0 < lg_size s \<and> lg_start s + nat (lg_size s) \<le> length (memdisk s) \<and>
     length (memdisk s) < 2 ^ 31 \<and> length (lg_sector s) = LOGSIZE"

definition in_log :: "'a log_state_scheme \<Rightarrow> nat \<Rightarrow> bool" where
  "in_log s n \<longleftrightarrow> lg_start s \<le> n \<and> n < lg_start s + nat (lg_size s)"

text \<open>The blocks the log has place for, besides its header: \<open>log_write\<close> panics when either bound is reached.\<close>

definition lcap :: "'a log_state_scheme \<Rightarrow> nat" where
  "lcap s = min LOGSIZE (nat (lg_size s) - 1)"

lemma lcap_le: "lcap s \<le> LOGSIZE"
  by (simp add: lcap_def)

lemma log_block_eq: "log_geom s \<Longrightarrow> i < lcap s \<Longrightarrow> log_block s i = lg_start s + i + 1"
  unfolding log_block_def by (rule mod_less) (auto simp: log_geom_def lcap_def)

lemma in_log_block:
  "log_geom s \<Longrightarrow> i < lcap s \<Longrightarrow> in_log s (lg_start s + i + 1) \<and> lg_start s + i + 1 < length (memdisk s)"
  by (auto simp: log_geom_def in_log_def lcap_def)

lemma in_log_start: "log_geom s \<Longrightarrow> in_log s (lg_start s) \<and> lg_start s < length (memdisk s)"
  by (auto simp: log_geom_def in_log_def)

definition home_ok :: "'a log_state_scheme \<Rightarrow> nat \<Rightarrow> bool" where
  "home_ok s n \<longleftrightarrow> n < length (memdisk s) \<and> \<not> in_log s n"

lemma log_geom_cong:
  assumes "bio_state.more s' = bio_state.more s" "length (memdisk s') = length (memdisk s)"
  shows "log_geom s' = log_geom s" "in_log s' = in_log s" "log_block s' = log_block s" "home_ok s' = home_ok s"
    "lcap s' = lcap s"
  using log_fields_more [OF assms(1)] assms(2)
  by (auto simp: log_geom_def in_log_def log_block_def home_ok_def lcap_def fun_eq_iff)

text \<open>The writes that install the logged blocks \<open>tail, \<dots>, tail + k - 1\<close>.\<close>

definition home_writes :: "'a log_state_scheme \<Rightarrow> nat \<Rightarrow> nat \<Rightarrow> (nat \<times> byte list) list" where
  "home_writes s tail k =
     map (\<lambda>i. (lg_sector s ! i, memdisk s ! (lg_start s + i + 1))) [tail..<tail + k]"

lemma home_writes_step:
  "home_writes s tail (Suc k) =
     (lg_sector s ! tail, memdisk s ! (lg_start s + tail + 1)) # home_writes s (Suc tail) k"
  by (simp add: home_writes_def upt_conv_Cons del: upt_Suc)

lemma install_loop_effect:
  assumes "bio_inv s" "log_geom s" "busyS s = {}" "tail + k \<le> lcap s"
    and "\<And>i. tail \<le> i \<Longrightarrow> i < tail + k \<Longrightarrow> home_ok s (lg_sector s ! i)"
    and "\<And>n. n \<in> dirtyS s \<Longrightarrow> \<not> in_log s n"
    and "card (dirtyS s) < NBUF"
    and "\<And>i. tail \<le> i \<Longrightarrow> i < tail + k \<Longrightarrow> lg_sector s ! i \<in> dirtyS s \<or> card (dirtyS s) + 1 < NBUF"
  shows "\<exists>s'. install_loop k tail s = Inr s' \<and> bio_inv s' \<and> busyS s' = {} \<and>
    dirtyS s' = dirtyS s - {lg_sector s ! i | i. tail \<le> i \<and> i < tail + k} \<and>
    memdisk s' = apply_writes (home_writes s tail k) (memdisk s) \<and>
    writes s' = writes s @ home_writes s tail k \<and> bio_state.more s' = bio_state.more s"
  using assms
proof (induction k arbitrary: tail s)
  case 0
  then show ?case by (auto simp: home_writes_def)
next
  case (Suc k)
  define src where "src = lg_start s + tail + 1"
  define dst where "dst = lg_sector s ! tail"
  have t: "tail < lcap s" using Suc.prems(4) by simp
  have dev: "lg_dev s = 1" using Suc.prems(2) by (simp add: log_geom_def)
  have src: "src < length (memdisk s)" "in_log s src" "log_block s tail = src"
    using in_log_block [OF Suc.prems(2) t] log_block_eq [OF Suc.prems(2) t] by (simp_all add: src_def)
  have dst: "dst < length (memdisk s)" "\<not> in_log s dst"
    using Suc.prems(5) [of tail] by (auto simp: home_ok_def dst_def)
  have vsrc: "view s src = memdisk s ! src"
    using view_idle [OF Suc.prems(1)] Suc.prems(3,6) src(2) by blast
  have fin: "finite (dirtyS s)" by (simp add: dirtyS_def)
  have "dst \<in> dirtyS s \<or> card (insert src (busyS s) \<union> dirtyS s) < NBUF"
    using Suc.prems(8) [of tail] Suc.prems(3) fin by (auto simp: dst_def card_insert_if)
  then obtain s1 where s1: "bc.copy src dst s = Inr s1" "bio_inv s1" "busyS s1 = {}" "dirtyS s1 = dirtyS s - {dst}"
      "memdisk s1 = (memdisk s)[dst := view s src]" "writes s1 = writes s @ [(dst, view s src)]"
      "bio_state.more s1 = bio_state.more s"
    using bc.copy_effect [OF Suc.prems(1) src(1) dst(1)] Suc.prems(3,7) src(2) dst(2) by auto
  note f = log_fields_more [OF s1(7)]
  have len: "length (memdisk s1) = length (memdisk s)" using s1(5) by simp
  note g = log_geom_cong [OF s1(7) len]
  have card1: "card (dirtyS s1) \<le> card (dirtyS s)" using fin s1(4) by (simp add: card_Diff1_le)
  have same_log: "memdisk s1 ! (lg_start s + i + 1) = memdisk s ! (lg_start s + i + 1)" if "i < lcap s" for i
    using in_log_block [OF Suc.prems(2) that] dst(2) s1(5) by (metis nth_list_update_neq)
  have hw: "home_writes s1 (Suc tail) k = home_writes s (Suc tail) k"
    using same_log Suc.prems(4) by (auto simp: home_writes_def f)
  have room: "lg_sector s1 ! i \<in> dirtyS s1 \<or> card (dirtyS s1) + 1 < NBUF"
    if "Suc tail \<le> i" "i < Suc tail + k" for i
  proof (cases "lg_sector s ! i \<in> dirtyS s")
    case True
    show ?thesis
    proof (cases "lg_sector s ! i = dst")
      case eq: True
      with True fin have "card (dirtyS s1) + 1 = card (dirtyS s)"
        unfolding s1(4) by (metis Suc_eq_plus1 card_Suc_Diff1)
      with Suc.prems(7) show ?thesis by simp
    next
      case False
      with True show ?thesis by (simp add: s1(4) f(6))
    qed
  next
    case False
    then have "card (dirtyS s) + 1 < NBUF" using Suc.prems(8) [of i] that by simp
    with card1 show ?thesis by simp
  qed
  obtain s' where s': "install_loop k (Suc tail) s1 = Inr s'" "bio_inv s'" "busyS s' = {}"
      "dirtyS s' = dirtyS s1 - {lg_sector s1 ! i | i. Suc tail \<le> i \<and> i < Suc tail + k}"
      "memdisk s' = apply_writes (home_writes s1 (Suc tail) k) (memdisk s1)"
      "writes s' = writes s1 @ home_writes s1 (Suc tail) k" "bio_state.more s' = bio_state.more s1"
  proof -
    have "log_geom s1" "Suc tail + k \<le> lcap s1" "card (dirtyS s1) < NBUF"
      using g(1,5) Suc.prems(2,4,7) card1 by auto
    moreover have "home_ok s1 (lg_sector s1 ! i)" if "Suc tail \<le> i" "i < Suc tail + k" for i
      using Suc.prems(5) [of i] that by (simp add: g(4) f(6))
    moreover have "\<not> in_log s1 n" if "n \<in> dirtyS s1" for n
      using Suc.prems(6) that s1(4) by (simp add: g(2))
    ultimately show ?thesis using Suc.IH [OF s1(2) _ s1(3), of "Suc tail"] room that by blast
  qed
  have rng: "{lg_sector s ! i | i. tail \<le> i \<and> i < tail + Suc k} =
      insert dst {lg_sector s ! i | i. Suc tail \<le> i \<and> i < Suc tail + k}"
    unfolding dst_def by (auto simp: le_less Suc_le_eq)
  have "install_loop (Suc k) tail s = Inr s'"
    using install_loop_copy [OF dev, of k tail] s1(1) s'(1) src(3) by (simp add: dst_def)
  with s' s1 hw f rng vsrc show ?case
    by (auto simp: home_writes_step src_def dst_def)
qed

section \<open>Recovery\<close>

text \<open>The cache does not look at the fields of the log.\<close>

lemma bio_log_fields [simp]:
  "bio_inv (s\<lparr>lg_n := n\<rparr>) = bio_inv s" "bio_inv (s\<lparr>lg_sector := xs\<rparr>) = bio_inv s" "bio_inv (s\<lparr>lg_busy := b\<rparr>) = bio_inv s"
  "view (s\<lparr>lg_n := n\<rparr>) = view s" "view (s\<lparr>lg_sector := xs\<rparr>) = view s" "view (s\<lparr>lg_busy := b\<rparr>) = view s"
  "busyS (s\<lparr>lg_n := n\<rparr>) = busyS s" "busyS (s\<lparr>lg_sector := xs\<rparr>) = busyS s" "busyS (s\<lparr>lg_busy := b\<rparr>) = busyS s"
  "dirtyS (s\<lparr>lg_n := n\<rparr>) = dirtyS s" "dirtyS (s\<lparr>lg_sector := xs\<rparr>) = dirtyS s" "dirtyS (s\<lparr>lg_busy := b\<rparr>) = dirtyS s"
  "has_buf (s\<lparr>lg_n := n\<rparr>) = has_buf s" "has_buf (s\<lparr>lg_sector := xs\<rparr>) = has_buf s" "has_buf (s\<lparr>lg_busy := b\<rparr>) = has_buf s"
  by (simp_all add: bio_inv_def view_def busyS_def dirtyS_def has_buf_def fun_eq_iff split: option.split)

lemma log_geom_fields [simp]:
  "log_geom (s\<lparr>lg_n := n\<rparr>) = log_geom s" "log_geom (s\<lparr>lg_busy := b\<rparr>) = log_geom s"
  "length xs = length (lg_sector s) \<Longrightarrow> log_geom (s\<lparr>lg_sector := xs\<rparr>) = log_geom s"
  "in_log (s\<lparr>lg_n := n\<rparr>) = in_log s" "in_log (s\<lparr>lg_sector := xs\<rparr>) = in_log s" "in_log (s\<lparr>lg_busy := b\<rparr>) = in_log s"
  "home_ok (s\<lparr>lg_n := n\<rparr>) = home_ok s" "home_ok (s\<lparr>lg_sector := xs\<rparr>) = home_ok s" "home_ok (s\<lparr>lg_busy := b\<rparr>) = home_ok s"
  "home_writes (s\<lparr>lg_n := n\<rparr>) = home_writes s" "home_writes (s\<lparr>lg_busy := b\<rparr>) = home_writes s"
  "log_block (s\<lparr>lg_n := n\<rparr>) = log_block s" "log_block (s\<lparr>lg_sector := xs\<rparr>) = log_block s"
  "lcap (s\<lparr>lg_n := n\<rparr>) = lcap s" "lcap (s\<lparr>lg_sector := xs\<rparr>) = lcap s" "lcap (s\<lparr>lg_busy := b\<rparr>) = lcap s"
  by (auto simp: log_geom_def in_log_def home_ok_def home_writes_def log_block_def lcap_def fun_eq_iff)

lemma brelse_log_fields:
  "brelse b (s\<lparr>lg_n := n, lg_sector := xs\<rparr>) = res_bind (brelse b s) (\<lambda>s. Inr (s\<lparr>lg_n := n, lg_sector := xs\<rparr>))"
  by (cases s) (simp add: brelse_def Let_def)

text \<open>The header block as the log finds it on the disk.\<close>

definition disk_head :: "'a log_state_scheme \<Rightarrow> byte list" where
  "disk_head s = memdisk s ! lg_start s"

definition head_n :: "byte list \<Rightarrow> int" where
  "head_n d = int_of_u32 (get_u32 0 d)"

lemma read_head_effect:
  assumes "bio_inv s" "log_geom s" "busyS s = {}" "dirtyS s = {}" "head_n (disk_head s) \<le> int LOGSIZE"
  shows "\<exists>s1. bc.same s s1 \<and> read_head s =
    Inr (s1\<lparr>lg_n := head_n (disk_head s),
           lg_sector := get_head (nat (head_n (disk_head s))) (disk_head s) (lg_sector s)\<rparr>)"
proof -
  have st: "lg_start s < length (memdisk s)" "lg_dev s = 1"
    using in_log_start [OF assms(2)] assms(2) by (auto simp: log_geom_def)
  have v: "view s (lg_start s) = disk_head s"
    using view_idle [OF assms(1)] assms(3,4) by (simp add: disk_head_def)
  obtain s1 where s1: "bc.peek (lg_start s) s = Inr (disk_head s, s1)" "bc.same s s1"
    using bc.peek_effect [OF assms(1) st(1)] assms(3,4) v by (auto simp: NBUF_def)
  from s1(1) obtain b s0 where b: "bread 1 (lg_start s) s = Inr (b, s0)" "brelse b s0 = Inr s1"
      "buf_data b s0 = disk_head s"
    unfolding bc.peek_def by (auto simp: res_simps)
  have "lg_sector s0 = lg_sector s" using log_fields_more(6) [OF bread_more [OF b(1)]] .
  then have "read_head s = Inr (s1\<lparr>lg_n := head_n (disk_head s),
      lg_sector := get_head (nat (head_n (disk_head s))) (disk_head s) (lg_sector s)\<rparr>)"
    using b st(2) assms(5) unfolding read_head_def
    by (simp add: Let_def head_n_def brelse_log_fields)
  with s1(2) show ?thesis by blast
qed

lemma write_head_effect:
  assumes "bio_inv s" "log_geom s" "busyS s = {}" "lg_start s \<notin> dirtyS s" "card (dirtyS s) < NBUF" "lg_n s \<le> int LOGSIZE"
  shows "\<exists>s'. write_head s = Inr s' \<and> bio_inv s' \<and> busyS s' = {} \<and> dirtyS s' = dirtyS s \<and>
    view s' = (view s)(lg_start s := put_head (lg_n s) (lg_sector s) (disk_head s)) \<and>
    memdisk s' = (memdisk s)[lg_start s := put_head (lg_n s) (lg_sector s) (disk_head s)] \<and>
    writes s' = writes s @ [(lg_start s, put_head (lg_n s) (lg_sector s) (disk_head s))] \<and>
    bio_state.more s' = bio_state.more s"
proof -
  have st: "lg_start s < length (memdisk s)" "lg_dev s = 1"
    using in_log_start [OF assms(2)] assms(2) by (auto simp: log_geom_def)
  have v: "view s (lg_start s) = disk_head s"
    using view_idle [OF assms(1)] assms(3,4) by (simp add: disk_head_def)
  have len: "length (disk_head s) = BSIZE" using view_length [OF assms(1) st(1)] v by simp
  show ?thesis
    using bc.overwrite_effect [OF assms(1) st(1), of "put_head (lg_n s) (lg_sector s)"] assms(3-6) v len
      length_put_head [OF len assms(6)]
    unfolding write_head_overwrite [OF st(2)] by auto
qed

text \<open>What a header says: the home locations of the logged blocks.\<close>

definition head_homes :: "byte list \<Rightarrow> nat list" where
  "head_homes d = map (\<lambda>i. get_u32 (4 + 4 * i) d) [0..<nat (head_n d)]"

definition redo_writes :: "'a log_state_scheme \<Rightarrow> (nat \<times> byte list) list" where
  "redo_writes s = map (\<lambda>i. (get_u32 (4 + 4 * i) (disk_head s), memdisk s ! (lg_start s + i + 1)))
     [0..<nat (head_n (disk_head s))]"

lemma recover_effect:
  assumes "bio_inv s" "log_geom s" "busyS s = {}" "dirtyS s = {}" "head_n (disk_head s) \<le> int (lcap s)"
    and "\<And>x. x \<in> set (head_homes (disk_head s)) \<Longrightarrow> home_ok s x"
  shows "\<exists>s' secs. recover_from_log s = Inr s' \<and> bio_inv s' \<and> busyS s' = {} \<and> dirtyS s' = {} \<and>
    memdisk s' = (apply_writes (redo_writes s) (memdisk s))[lg_start s := put_head 0 secs (disk_head s)] \<and>
    lg_n s' = 0 \<and> log_geom s' \<and> lg_start s' = lg_start s \<and> lg_size s' = lg_size s \<and> lg_busy s' = lg_busy s \<and>
    log_state.more s' = log_state.more s"
proof -
  define n where "n = nat (head_n (disk_head s))"
  define secs where "secs = get_head n (disk_head s) (lg_sector s)"
  obtain s1 where s1: "bc.same s s1" "read_head s = Inr (s1\<lparr>lg_n := head_n (disk_head s), lg_sector := secs\<rparr>)"
    using read_head_effect [OF assms(1-4)] assms(5) lcap_le [of s] by (auto simp: n_def secs_def)
  define s2 where "s2 = s1\<lparr>lg_n := head_n (disk_head s), lg_sector := secs\<rparr>"
  have e1: "bio_inv s1" "view s1 = view s" "busyS s1 = {}" "dirtyS s1 = {}" "memdisk s1 = memdisk s"
      "bio_state.more s1 = bio_state.more s"
    using s1(1) assms(3,4) by (simp_all add: bc.same_def)
  note f1 = log_fields_more [OF e1(6)]
  have len: "length secs = LOGSIZE" using assms(2) by (simp add: secs_def log_geom_def)
  have n: "n \<le> lcap s" "n \<le> LOGSIZE" using assms(5) lcap_le [of s] by (simp_all add: n_def)
  note g1 = log_geom_cong [OF e1(6), unfolded e1(5), OF refl]
  have "length secs = length (lg_sector s1)" using assms(2) f1(6) len by (simp add: log_geom_def)
  then have geom2: "log_geom s2" using assms(2) by (simp add: s2_def g1)
  have sec: "i < n \<Longrightarrow> secs ! i = get_u32 (4 + 4 * i) (disk_head s)" for i
    using n len by (simp add: secs_def nth_get_head)
  have hw: "home_writes s2 0 n = redo_writes s"
    by (auto simp: home_writes_def redo_writes_def s2_def e1 f1 sec n_def [symmetric])
  have homes: "i < n \<Longrightarrow> home_ok s2 (secs ! i)" for i
    using assms(6) [of "secs ! i"] sec by (auto simp: s2_def g1 head_homes_def n_def)
  obtain s3 where s3: "install_loop n 0 s2 = Inr s3" "bio_inv s3" "busyS s3 = {}" "dirtyS s3 = {}"
      "memdisk s3 = apply_writes (redo_writes s) (memdisk s)" "bio_state.more s3 = bio_state.more s2"
    using install_loop_effect [of s2 0 n] e1 geom2 n homes hw by (auto simp: s2_def NBUF_def g1)
  define s4 where "s4 = s3\<lparr>lg_n := 0\<rparr>"
  note f3 = log_fields_more [OF s3(6)]
  have "log_geom s3"
    using log_geom_cong(1) [OF s3(6)] geom2 s3(5) e1(5) by (simp add: s2_def)
  then have geom4: "log_geom s4" by (simp add: s4_def)
  have start4: "lg_start s4 = lg_start s" "lg_size s4 = lg_size s" "lg_busy s4 = lg_busy s" "log_state.more s4 = log_state.more s"
    by (simp_all add: s4_def f3 s2_def f1)
  have notin: "lg_start s \<notin> fst ` set (redo_writes s)"
    using assms(6) in_log_start [OF assms(2)] by (fastforce simp: redo_writes_def head_homes_def home_ok_def)
  have head4: "disk_head s4 = disk_head s"
    using apply_writes_other [OF notin] start4 by (simp add: disk_head_def s4_def s3(5))
  obtain s5 where s5: "write_head s4 = Inr s5" "bio_inv s5" "busyS s5 = {}" "dirtyS s5 = {}"
      "memdisk s5 = (memdisk s4)[lg_start s4 := put_head 0 (lg_sector s4) (disk_head s4)]"
      "bio_state.more s5 = bio_state.more s4"
    using write_head_effect [of s4] s3 geom4 by (auto simp: s4_def NBUF_def)
  note f5 = log_fields_more [OF s5(6)]
  have "recover_from_log s = Inr s5"
    using s1(2) s3(1) s5(1)
    by (simp add: recover_from_log_def install_trans_def s2_def [symmetric] s4_def) (simp add: s2_def n_def)
  moreover have "log_geom s5" using log_geom_cong(1) [OF s5(6)] geom4 s5(5) by simp
  ultimately show ?thesis
    using s5 f5 start4 head4 by (auto simp: s4_def s3(5))
qed

section \<open>The invariant of a running transaction\<close>

definition logged :: "'a log_state_scheme \<Rightarrow> nat list" where
  "logged s = take (nat (lg_n s)) (lg_sector s)"

text \<open>
  Between system calls and inside them: the pinned blocks are exactly the logged ones, the
  header on the disk is empty, and the log holds the current content of every logged block
  that nobody is changing.
\<close>

definition log_inv :: "'a log_state_scheme \<Rightarrow> bool" where
  "log_inv s \<longleftrightarrow> bio_inv s \<and> log_geom s \<and> 0 \<le> lg_n s \<and> lg_n s \<le> int (lcap s) \<and>
     distinct (logged s) \<and> (\<forall>x \<in> set (logged s). home_ok s x) \<and> dirtyS s = set (logged s) \<and>
     head_n (disk_head s) = 0 \<and> (\<forall>m \<in> busyS s. \<not> in_log s m) \<and>
     (\<forall>i < nat (lg_n s). lg_sector s ! i \<notin> busyS s \<longrightarrow>
        memdisk s ! (lg_start s + i + 1) = view s (lg_sector s ! i)) \<and>
     (0 < lg_n s \<longrightarrow> lg_busy s)"

lemma log_invD:
  assumes "log_inv s"
  shows "bio_inv s" "log_geom s" "0 \<le> lg_n s" "lg_n s \<le> int LOGSIZE" "distinct (logged s)"
    "x \<in> set (logged s) \<Longrightarrow> home_ok s x" "dirtyS s = set (logged s)" "head_n (disk_head s) = 0"
    "m \<in> busyS s \<Longrightarrow> \<not> in_log s m"
    "i < nat (lg_n s) \<Longrightarrow> lg_sector s ! i \<notin> busyS s \<Longrightarrow>
      memdisk s ! (lg_start s + i + 1) = view s (lg_sector s ! i)"
    "0 < lg_n s \<Longrightarrow> lg_busy s" "lg_n s \<le> int (lcap s)"
  using assms lcap_le [of s] by (auto simp: log_inv_def)

lemma logged_facts:
  assumes "log_inv s"
  shows "length (logged s) = nat (lg_n s)" "i < nat (lg_n s) \<Longrightarrow> logged s ! i = lg_sector s ! i"
    "set (logged s) = {lg_sector s ! i | i. i < nat (lg_n s)}" "card (dirtyS s) = nat (lg_n s)"
proof -
  have l: "nat (lg_n s) \<le> length (lg_sector s)"
    using log_invD(2,4) [OF assms] by (simp add: log_geom_def)
  then show "length (logged s) = nat (lg_n s)" by (simp add: logged_def)
  then show "card (dirtyS s) = nat (lg_n s)"
    using log_invD(5,7) [OF assms] distinct_card by metis
  show "i < nat (lg_n s) \<Longrightarrow> logged s ! i = lg_sector s ! i" by (simp add: logged_def)
  show "set (logged s) = {lg_sector s ! i | i. i < nat (lg_n s)}"
    unfolding logged_def nth_image [OF l, symmetric] by auto
qed

section \<open>Committing\<close>

text \<open>The disk writes of a commit: the header, the blocks at home, the erased header.\<close>

definition commit_head :: "'a log_state_scheme \<Rightarrow> byte list" where
  "commit_head s = put_head (lg_n s) (lg_sector s) (disk_head s)"

definition commit_writes :: "'a log_state_scheme \<Rightarrow> (nat \<times> byte list) list" where
  "commit_writes s = (lg_start s, commit_head s) # home_writes s 0 (nat (lg_n s)) @
     [(lg_start s, put_head 0 (lg_sector s) (commit_head s))]"

lemma commit_effect:
  assumes inv: "log_inv s" and quiet: "busyS s = {}" and n: "0 < lg_n s" "lg_n s < int NBUF"
  shows "\<exists>s'. commit_trans s = Inr s' \<and> bio_inv s' \<and> busyS s' = {} \<and> dirtyS s' = {} \<and>
    memdisk s' = apply_writes (commit_writes s) (memdisk s) \<and> writes s' = writes s @ commit_writes s \<and>
    lg_n s' = 0 \<and> \<not> lg_busy s' \<and> lg_start s' = lg_start s \<and> lg_size s' = lg_size s \<and> log_geom s' \<and>
    lg_sector s' = lg_sector s \<and> log_state.more s' = log_state.more s"
proof -
  note I = log_invD [OF inv] and L = logged_facts [OF inv]
  define k where "k = nat (lg_n s)"
  have k: "k \<le> lcap s" "card (dirtyS s) = k" "k < NBUF" using I(12) L(4) n by (auto simp: k_def)
  have start: "in_log s (lg_start s)" "lg_start s < length (memdisk s)" using in_log_start [OF I(2)] by auto
  have dl: "x \<in> dirtyS s \<Longrightarrow> \<not> in_log s x" for x using I(6,7) by (auto simp: home_ok_def)
  obtain s1 where s1: "write_head s = Inr s1" "bio_inv s1" "busyS s1 = {}" "dirtyS s1 = dirtyS s"
      "memdisk s1 = (memdisk s)[lg_start s := commit_head s]"
      "writes s1 = writes s @ [(lg_start s, commit_head s)]" "bio_state.more s1 = bio_state.more s"
    using write_head_effect [OF I(1,2) quiet _ _ I(4)] dl start(1) k by (auto simp: commit_head_def)
  note f1 = log_fields_more [OF s1(7)]
  have len1: "length (memdisk s1) = length (memdisk s)" using s1(5) by simp
  note g1 = log_geom_cong [OF s1(7) len1]
  have hw: "home_writes s1 0 k = home_writes s 0 k"
    using s1(5) by (auto simp: home_writes_def f1)
  have homes: "i < k \<Longrightarrow> home_ok s (lg_sector s ! i) \<and> lg_sector s ! i \<in> dirtyS s" for i
    using I(6,7) L(3) by (auto simp: k_def)
  have dk: "dirtyS s = {lg_sector s ! i | i. i < k}" using I(7) L(3) by (simp add: k_def)
  have "\<exists>s2. install_loop k 0 s1 = Inr s2 \<and> bio_inv s2 \<and> busyS s2 = {} \<and>
      dirtyS s2 = dirtyS s1 - {lg_sector s1 ! i | i. 0 \<le> i \<and> i < 0 + k} \<and>
      memdisk s2 = apply_writes (home_writes s1 0 k) (memdisk s1) \<and>
      writes s2 = writes s1 @ home_writes s1 0 k \<and> bio_state.more s2 = bio_state.more s1"
    by (rule install_loop_effect [OF s1(2) _ s1(3)])
      (use I(2) k homes dl in \<open>auto simp: g1 f1 s1(4)\<close>)
  then obtain s2 where s2: "install_loop k 0 s1 = Inr s2" "bio_inv s2" "busyS s2 = {}" "dirtyS s2 = {}"
      "memdisk s2 = apply_writes (home_writes s 0 k) (memdisk s1)"
      "writes s2 = writes s1 @ home_writes s 0 k" "bio_state.more s2 = bio_state.more s1"
    using dk by (auto simp: hw f1 s1(4))
  define s3 where "s3 = s2\<lparr>lg_n := 0\<rparr>"
  note f2 = log_fields_more [OF s2(7)]
  have "length (memdisk s2) = length (memdisk s1)" using s2(5) by simp
  then have geom3: "log_geom s3" using log_geom_cong(1) [OF s2(7)] g1(1) I(2) by (simp add: s3_def)
  have "lg_start s \<notin> fst ` set (home_writes s 0 k)"
    using homes start(1) by (auto simp: home_writes_def home_ok_def)
  then have head3: "disk_head s3 = commit_head s"
    using apply_writes_other s1(5) start(2) by (simp add: disk_head_def s3_def f2 f1 s2(5))
  obtain s4 where s4: "write_head s3 = Inr s4" "bio_inv s4" "busyS s4 = {}" "dirtyS s4 = {}"
      "memdisk s4 = (memdisk s2)[lg_start s := put_head 0 (lg_sector s) (commit_head s)]"
      "writes s4 = writes s2 @ [(lg_start s, put_head 0 (lg_sector s) (commit_head s))]"
      "bio_state.more s4 = bio_state.more s3"
    using write_head_effect [of s3] s2 geom3 head3 by (auto simp: s3_def NBUF_def f1 f2)
  note f4 = log_fields_more [OF s4(7)]
  have geom4: "log_geom s4" using log_geom_cong(1) [OF s4(7)] geom3 s4(5) by (simp add: s3_def)
  have "commit_trans s = Inr (s4\<lparr>lg_busy := False\<rparr>)"
    using n(1) s1(1) s2(1) s4(1) f1(5)
    by (simp add: commit_trans_def install_trans_def s3_def k_def)
  then show ?thesis
    using s4 geom4 f4 f2 f1 s2 s1
    by (auto simp: commit_writes_def s3_def k_def)
qed

text \<open>After the commit the disk holds, at home, what the transaction saw.\<close>

lemma commit_homes:
  assumes inv: "log_inv s" and quiet: "busyS s = {}" and x: "home_ok s x"
  shows "apply_writes (commit_writes s) (memdisk s) ! x = view s x"
proof -
  note I = log_invD [OF inv] and L = logged_facts [OF inv]
  have ns: "x \<noteq> lg_start s" using in_log_start [OF I(2)] x by (auto simp: home_ok_def)
  have xl: "x < length (memdisk s)" using x by (simp add: home_ok_def)
  define W where "W = home_writes s 0 (nat (lg_n s))"
  have eq: "apply_writes (commit_writes s) (memdisk s) ! x = apply_writes W (memdisk s) ! x"
    using ns xl by (simp add: commit_writes_def W_def [symmetric] apply_writes_nth split: option.split)
  show ?thesis
  proof (cases "x \<in> dirtyS s")
    case True
    then obtain i where i: "i < nat (lg_n s)" "x = lg_sector s ! i" using I(7) L(3) by auto
    have "map fst W = logged s"
      by (rule nth_equalityI) (auto simp: W_def home_writes_def L(1,2))
    then have dist: "distinct (map fst (rev W))" using I(5) by (simp add: rev_map [symmetric])
    have "(x, memdisk s ! (lg_start s + i + 1)) \<in> set (rev W)"
      using i by (auto simp: W_def home_writes_def)
    then have "map_of (rev W) x = Some (memdisk s ! (lg_start s + i + 1))"
      using dist by (rule map_of_is_SomeI [rotated])
    then show ?thesis using eq xl I(10) [OF i(1)] quiet i(2) by (simp add: apply_writes_nth)
  next
    case False
    then have "x \<notin> fst ` set W" using I(7) L(3) by (auto simp: W_def home_writes_def)
    then show ?thesis using eq view_idle [OF I(1)] False quiet by (simp add: apply_writes_other)
  qed
qed

section \<open>Crashes\<close>

text \<open>The machine after a restart with the disk \<open>d\<close>: the memory is gone, the cache is freshly
  initialised and \<open>initlog\<close> has found the log where it was.\<close>

definition crash_boot :: "'a log_state_scheme \<Rightarrow> byte list list \<Rightarrow> 'a log_state_scheme" where
  "crash_boot s d =
     binit (s\<lparr>memdisk := d, writes := [], lg_n := 0, lg_busy := False, lg_sector := replicate LOGSIZE 0\<rparr>)"

lemma binit_effect:
  assumes "\<forall>x \<in> set (memdisk s). length x = BSIZE"
  shows "bio_inv (binit s)" "busyS (binit s) = {}" "dirtyS (binit s) = {}"
proof -
  have l: "lru (binit s) = rev [0..<NBUF]" unfolding binit_def by (simp add: fold_Cons_rev)
  have d: "b_dev buf_init \<noteq> 1" by (simp add: buf_init_def)
  show "bio_inv (binit s)"
  proof (rule bio_invI)
    show "distinct (lru (binit s))" "set (lru (binit s)) = {..<NBUF}" by (auto simp: l)
  qed (use assms d in \<open>auto simp: binit_def buf_init_def holds_block_def\<close>)
  show "busyS (binit s) = {}" "dirtyS (binit s) = {}"
    by (auto simp: busyS_def dirtyS_def binit_def buf_init_def)
qed

lemma crash_boot_facts:
  assumes "log_geom s" "length d = length (memdisk s)" "\<forall>x \<in> set d. length x = BSIZE"
  shows "bio_inv (crash_boot s d)" "log_geom (crash_boot s d)" "busyS (crash_boot s d) = {}"
    "dirtyS (crash_boot s d) = {}" "memdisk (crash_boot s d) = d" "lg_start (crash_boot s d) = lg_start s"
    "home_ok (crash_boot s d) = home_ok s" "lcap (crash_boot s d) = lcap s"
  using assms binit_effect [of "s\<lparr>memdisk := d, writes := [], lg_n := 0, lg_busy := False, lg_sector := replicate LOGSIZE 0\<rparr>"]
  by (simp_all add: crash_boot_def) (simp_all add: log_geom_def home_ok_def in_log_def lcap_def fun_eq_iff binit_def)

lemma apply_writes_lengths:
  "(\<And>n b. (n, b) \<in> set ws \<Longrightarrow> length b = BSIZE) \<Longrightarrow> \<forall>x \<in> set d. length x = BSIZE \<Longrightarrow>
    \<forall>x \<in> set (apply_writes ws d). length x = BSIZE"
proof (induction ws arbitrary: d)
  case (Cons w ws)
  obtain n b where w: "w = (n, b)" by fastforce
  have "\<forall>x \<in> set (d[n := b]). length x = BSIZE"
    using Cons.prems w set_update_subset_insert [of d n b] by auto
  then have "\<forall>x \<in> set (apply_writes ws (d[n := b])). length x = BSIZE"
    using Cons.prems(1) by (intro Cons.IH) auto
  then show ?case by (simp add: w)
qed simp

lemma commit_writes_lengths:
  assumes "log_inv s" "(n, b) \<in> set (commit_writes s)"
  shows "length b = BSIZE"
proof -
  note I = log_invD [OF assms(1)]
  have len: "x < length (memdisk s) \<Longrightarrow> length (memdisk s ! x) = BSIZE" for x by (rule bio_invD(5) [OF I(1)])
  have h: "length (disk_head s) = BSIZE" using len in_log_start [OF I(2)] by (simp add: disk_head_def)
  then have c: "length (commit_head s) = BSIZE" using length_put_head I(4) by (simp add: commit_head_def)
  have "i < nat (lg_n s) \<Longrightarrow> length (memdisk s ! (lg_start s + i + 1)) = BSIZE" for i
    using in_log_block [OF I(2), of i] I(12) len by auto
  with assms(2) c length_put_head [OF c, of 0] show ?thesis
    by (auto simp: commit_writes_def home_writes_def)
qed

lemma recover_empty:
  assumes "log_geom s" "length d = length (memdisk s)" "\<forall>x \<in> set d. length x = BSIZE"
    and "head_n (d ! lg_start s) = 0"
  shows "\<exists>r. recover_from_log (crash_boot s d) = Inr r \<and> (\<forall>x. home_ok s x \<longrightarrow> memdisk r ! x = d ! x) \<and>
    head_n (disk_head r) = 0"
proof -
  define b where "b = crash_boot s d"
  note B = crash_boot_facts [OF assms(1-3), folded b_def]
  have h: "disk_head b = d ! lg_start s" by (simp add: disk_head_def B)
  have st: "lg_start s < length d" "in_log s (lg_start s)" using in_log_start [OF assms(1)] assms(2) by auto
  have len: "length (disk_head b) = BSIZE" using assms(3) st(1) by (simp add: h)
  obtain r secs where r: "recover_from_log b = Inr r"
      "memdisk r = (apply_writes (redo_writes b) d)[lg_start s := put_head 0 secs (disk_head b)]" "lg_start r = lg_start s"
    using recover_effect [OF B(1-4)] assms(4) by (auto simp: head_homes_def h B)
  have "redo_writes b = []" using assms(4) by (simp add: redo_writes_def h)
  moreover have "home_ok s x \<Longrightarrow> lg_start s \<noteq> x" for x using st(2) by (auto simp: home_ok_def)
  ultimately have "home_ok s x \<Longrightarrow> memdisk r ! x = d ! x" for x using r(2) by simp
  moreover have "head_n (disk_head r) = 0"
    using r(2,3) st(1) head_n_put [OF len, of 0] by (simp add: disk_head_def head_n_def)
  ultimately show ?thesis using r(1) unfolding b_def by blast
qed

lemma recover_committed:
  assumes inv: "log_inv s" and quiet: "busyS s = {}" and j: "j \<le> nat (lg_n s)"
    and d: "d = apply_writes (take j (home_writes s 0 (nat (lg_n s)))) ((memdisk s)[lg_start s := commit_head s])"
  shows "\<exists>r. recover_from_log (crash_boot s d) = Inr r \<and> (\<forall>x. home_ok s x \<longrightarrow> memdisk r ! x = view s x) \<and>
    head_n (disk_head r) = 0"
proof -
  note I = log_invD [OF inv] and L = logged_facts [OF inv]
  define n where "n = nat (lg_n s)"
  define W where "W = home_writes s 0 n"
  define D1 where "D1 = (memdisk s)[lg_start s := commit_head s]"
  define b where "b = crash_boot s d"
  have dW: "d = apply_writes (take j W) D1" by (simp add: d W_def D1_def n_def)
  have st: "in_log s (lg_start s)" "lg_start s < length (memdisk s)" using in_log_start [OF I(2)] by auto
  have len: "\<forall>x \<in> set (memdisk s). length x = BSIZE" using bio_invD(5) [OF I(1)] by (auto simp: in_set_conv_nth)
  have dpre: "d = apply_writes (take (Suc j) (commit_writes s)) (memdisk s)"
    using j by (simp add: commit_writes_def dW D1_def W_def n_def home_writes_def)
  have dl: "length d = length (memdisk s)" by (simp add: dpre)
  have dlen: "\<forall>x \<in> set d. length x = BSIZE"
    unfolding dpre by (rule apply_writes_lengths [OF _ len])
      (use commit_writes_lengths [OF inv] in_set_takeD in metis)
  note B = crash_boot_facts [OF I(2) dl dlen, folded b_def]
  have homes: "i < n \<Longrightarrow> home_ok s (lg_sector s ! i)" for i using I(6) L(3) by (auto simp: n_def)
  have nolog: "in_log s x \<Longrightarrow> x \<notin> fst ` set (take j W)" for x
    using homes by (auto simp: W_def home_writes_def home_ok_def dest!: in_set_takeD)
  have h: "disk_head b = commit_head s"
    using apply_writes_other [OF nolog [OF st(1)]] st(2) by (simp add: disk_head_def B dW D1_def)
  have hl: "length (disk_head s) = BSIZE" using len st(2) by (simp add: disk_head_def)
  have hn: "head_n (disk_head b) = lg_n s"
    using head_n_put [OF hl I(3,4)] by (simp add: h commit_head_def head_n_def)
  have hs: "i < n \<Longrightarrow> get_u32 (4 + 4 * i) (disk_head b) = lg_sector s ! i" for i
    using head_sector_put [OF hl I(3,4), of i "lg_sector s"] homes [of i] I(2)
    by (auto simp: h commit_head_def n_def home_ok_def log_geom_def)
  have "i < n \<Longrightarrow> d ! (lg_start s + i + 1) = memdisk s ! (lg_start s + i + 1)" for i
    using in_log_block [OF I(2), of i] I(12) apply_writes_other [OF nolog] by (auto simp: dW D1_def n_def)
  then have redo: "redo_writes b = W"
    by (auto simp: redo_writes_def W_def home_writes_def hn n_def [symmetric] hs B)
  have hk: "\<And>x. x \<in> set (head_homes (disk_head b)) \<Longrightarrow> home_ok b x"
    using homes by (auto simp: head_homes_def hn n_def [symmetric] hs B)
  obtain r secs where r: "recover_from_log b = Inr r"
      "memdisk r = (apply_writes W d)[lg_start s := put_head 0 secs (disk_head b)]" "lg_start r = lg_start s"
    using recover_effect [OF B(1-4) _ hk] I(12) by (auto simp: hn redo B)
  have "apply_writes W d = apply_writes W D1" unfolding dW by (rule apply_writes_redo)
  moreover have "home_ok s x \<Longrightarrow> lg_start s \<noteq> x" for x using st(1) by (auto simp: home_ok_def)
  ultimately have "memdisk r ! x = view s x" if "home_ok s x" for x
    using commit_homes [OF inv quiet that] r(2) that
    by (simp add: commit_writes_def D1_def W_def n_def)
  moreover have "head_n (disk_head r) = 0"
    using r(2,3) st(2) dl head_n_put [of "disk_head b" 0] dlen B
    by (simp add: disk_head_def head_n_def)
  ultimately show ?thesis using r(1) unfolding b_def by blast
qed

lemma commit_crash:
  assumes "log_inv s" "busyS s = {}"
  shows "\<exists>r. recover_from_log (crash_boot s (apply_writes (take k (commit_writes s)) (memdisk s))) = Inr r \<and>
      ((\<forall>x. home_ok s x \<longrightarrow> memdisk r ! x = memdisk s ! x) \<or> (\<forall>x. home_ok s x \<longrightarrow> memdisk r ! x = view s x)) \<and>
      head_n (disk_head r) = 0"
proof -
  note I = log_invD [OF assms(1)]
  define n where "n = nat (lg_n s)"
  define W where "W = home_writes s 0 n"
  have lW: "length W = n" by (simp add: W_def home_writes_def)
  have len: "\<forall>x \<in> set (memdisk s). length x = BSIZE" using bio_invD(5) [OF I(1)] by (auto simp: in_set_conv_nth)
  consider "k = 0" | j where "k = Suc j" "j \<le> n" | "n + 2 \<le> k"
    by (metis Suc_leI add_2_eq_Suc' not0_implies_Suc not_less_eq_eq)
  then show ?thesis
  proof cases
    case 1
    then show ?thesis
      using recover_empty [OF I(2) refl len] I(8) by (fastforce simp: disk_head_def)
  next
    case 2
    then have "apply_writes (take k (commit_writes s)) (memdisk s) =
        apply_writes (take j W) ((memdisk s)[lg_start s := commit_head s])"
      using lW by (simp add: commit_writes_def W_def n_def)
    with recover_committed [OF assms(1,2), of j] 2(2) show ?thesis
      by (fastforce simp: W_def n_def)
  next
    case 3
    define d where "d = apply_writes (commit_writes s) (memdisk s)"
    have full: "apply_writes (take k (commit_writes s)) (memdisk s) = d"
      using 3 lW by (simp add: d_def commit_writes_def W_def n_def)
    have "\<forall>x \<in> set d. length x = BSIZE"
      unfolding d_def using apply_writes_lengths [OF commit_writes_lengths [OF assms(1)] len] .
    moreover have "head_n (d ! lg_start s) = 0"
    proof -
      have "length (commit_head s) = BSIZE"
        using commit_writes_lengths [OF assms(1), of "lg_start s"] by (simp add: commit_writes_def)
      then show ?thesis
        using in_log_start [OF I(2)] head_n_put [of "commit_head s" 0]
        by (simp add: d_def commit_writes_def head_n_def)
    qed
    ultimately obtain r where "recover_from_log (crash_boot s d) = Inr r" "head_n (disk_head r) = 0"
        "\<forall>x. home_ok s x \<longrightarrow> memdisk r ! x = d ! x"
      using recover_empty [OF I(2), of d] by (auto simp: d_def)
    then show ?thesis using commit_homes [OF assms(1,2)] unfolding full by (auto simp: d_def)
  qed
qed

text \<open>C2: Crash atomicity. Let a transaction be ready to commit. Whatever number of the disk writes
  of \<open>commit_trans\<close> have reached the disk when the machine stops, recovery after the restart
  succeeds and leaves at every home location either the block from before the transaction,
  or the block the transaction wrote, the same choice for all blocks; and it leaves an empty log.\<close>

theorem commit_crash_atomic:
  assumes "log_inv s" "busyS s = {}" "0 < lg_n s" "lg_n s < int NBUF"
  shows "\<exists>s'. commit_trans s = Inr s' \<and> writes s' = writes s @ commit_writes s \<and>
    (\<forall>k. \<exists>r. recover_from_log (crash_boot s (apply_writes (take k (commit_writes s)) (memdisk s))) = Inr r \<and>
      ((\<forall>x. home_ok s x \<longrightarrow> memdisk r ! x = memdisk s ! x) \<or> (\<forall>x. home_ok s x \<longrightarrow> memdisk r ! x = view s x)) \<and>
      head_n (disk_head r) = 0)"
  using commit_effect [OF assms] commit_crash [OF assms(1,2)] by blast

text \<open>A disk of 14 blocks whose log starts at block 2, with a transaction that has rewritten block 1.\<close>

definition demo_log :: log_state where
  "demo_log = \<lparr>memdisk = (replicate 14 (replicate BSIZE 0))[3 := replicate BSIZE 7], writes = [],
     bufs = (replicate NBUF buf_init)[0 := \<lparr>b_busy = False, b_valid = True, b_dirty = True, b_dev = 1, b_sector = 1,
       b_data = replicate BSIZE 7\<rparr>], lru = [0..<NBUF],
     lg_start = 2, lg_size = 10, lg_busy = True, lg_dev = 1, lg_n = 1, lg_sector = 1 # replicate 9 0\<rparr>"

lemma demo_log_inv: "log_inv demo_log" "busyS demo_log = {}" "lg_n demo_log = 1"
proof -
  have b: "bufs demo_log ! i = (if i = 0 then \<lparr>b_busy = False, b_valid = True, b_dirty = True, b_dev = 1, b_sector = 1,
       b_data = replicate BSIZE 7\<rparr> else buf_init)" if "i < NBUF" for i
    using that by (simp add: demo_log_def)
  have bi: "b_dev buf_init \<noteq> 1" "\<not> b_busy buf_init" "\<not> b_dirty buf_init" "\<not> b_valid buf_init"
      "length (b_data buf_init) = BSIZE"
    by (simp_all add: buf_init_def)
  have len: "length (bufs demo_log) = NBUF" by (simp add: demo_log_def)
  have m: "memdisk demo_log ! i = (if i = 3 then replicate BSIZE 7 else replicate BSIZE 0)" if "i < 14" for i
    using that by (simp add: demo_log_def)
  have ml: "length (memdisk demo_log) = 14" by (simp add: demo_log_def)
  have inv: "bio_inv demo_log"
  proof (rule bio_invI)
    show "distinct (lru demo_log)" "set (lru demo_log) = {..<NBUF}" by (auto simp: demo_log_def)
  qed (use b bi len m ml in \<open>auto simp: holds_block_def split: if_splits\<close>)
  show q: "busyS demo_log = {}"
    using b bi len by (auto simp: busyS_def in_set_conv_nth split: if_splits)
  show n: "lg_n demo_log = 1" by (simp add: demo_log_def)
  have d: "dirtyS demo_log = {1}"
  proof -
    have "(\<exists>i < NBUF. b_dirty (bufs demo_log ! i) \<and> holds_block (bufs demo_log ! i) n) \<longleftrightarrow> n = 1" for n
    proof
      assume "n = 1"
      then show "\<exists>i < NBUF. b_dirty (bufs demo_log ! i) \<and> holds_block (bufs demo_log ! i) n"
        using b [of 0] by (intro exI [of _ 0]) (simp add: holds_block_def NBUF_def)
    qed (use b bi in \<open>auto simp: holds_block_def split: if_splits\<close>)
    then show ?thesis unfolding set_eq_iff dirtyS_iff [OF inv] by simp
  qed
  have v: "view demo_log 1 = replicate BSIZE 7"
    using view_cached [OF inv, of 0 1] b [of 0] by (simp add: holds_block_def NBUF_def)
  have h: "head_n (disk_head demo_log) = 0"
  proof -
    have "slice 0 4 (replicate BSIZE (0 :: byte)) = replicate 4 0" by (simp add: slice_def BSIZE_def)
    then have "get_u32 0 (replicate BSIZE 0) = 0" by (simp add: get_u32_def numeral_eq_Suc)
    moreover have "disk_head demo_log = replicate BSIZE 0" using m [of 2] by (simp add: disk_head_def demo_log_def)
    ultimately show ?thesis by (simp add: head_n_def)
  qed
  show "log_inv demo_log"
    unfolding log_inv_def using inv q n d v h m [of 3] ml
    by (auto simp: logged_def log_geom_def lcap_def LOGSIZE_def home_ok_def in_log_def demo_log_def)
qed

theorem commit_crash_atomic_witness:
  "log_inv demo_log \<and> busyS demo_log = {} \<and> 0 < lg_n demo_log \<and> lg_n demo_log < int NBUF \<and>
    (\<exists>s'. commit_trans demo_log = Inr s' \<and> writes s' = writes demo_log @ commit_writes demo_log)"
  using commit_crash_atomic [OF demo_log_inv(1,2)] demo_log_inv by (auto simp: NBUF_def)

end
