(* ===== verification/Transaction.thy ===== *)
theory Transaction
  imports Log
begin

text \<open>
  The use of the log by the file system: between \<open>begin_trans\<close> and \<open>commit_trans\<close>, blocks are read
  with \<open>bread\<close>, changed in their buffers, passed to \<open>log_write\<close> and released. The lemmas show that
  this protocol keeps \<open>log_inv\<close>, and what it does to the home blocks (\<open>hv\<close>); the locale
  \<open>tx_store\<close> packages them as the contract the file system is verified against, \<open>tx\<close>
  interprets it. The theorems of the file are the life of a transaction: it starts, it is
  never half visible, it ends with its blocks at home.
\<close>

section \<open>Home blocks\<close>

text \<open>The content of a block as a transaction sees it; blocks of the log itself are not part of it.\<close>

definition hv :: "'a log_state_scheme \<Rightarrow> nat \<Rightarrow> byte list" where
  "hv s n = (if in_log s n then [] else view s n)"

text \<open>Writes that stay inside the log and leave its header alone.\<close>

definition log_only :: "'a log_state_scheme \<Rightarrow> (nat \<times> byte list) list \<Rightarrow> bool" where
  "log_only s ws \<longleftrightarrow> (\<forall>(n, b) \<in> set ws. in_log s n \<and> n \<noteq> lg_start s \<and> length b = BSIZE)"

text \<open>What every operation of a transaction keeps: the geometry, and the disk outside the log.\<close>

definition tx_frame :: "'a log_state_scheme \<Rightarrow> 'b log_state_scheme \<Rightarrow> bool" where
  "tx_frame s s' \<longleftrightarrow> lg_start s' = lg_start s \<and> lg_size s' = lg_size s \<and> lg_busy s' = lg_busy s \<and>
     lg_dev s' = lg_dev s \<and>
     (\<exists>ws. writes s' = writes s @ ws \<and> memdisk s' = apply_writes ws (memdisk s) \<and> log_only s ws)"

text \<open>A transaction can have as many blocks as both the buffer cache and the log hold, less one: \<open>log_write\<close> checks for a full log before it
  looks whether the block is logged already.\<close>

definition tx_cap :: "'a log_state_scheme \<Rightarrow> nat" where
  "tx_cap s = min NBUF (lcap s)"

lemma tx_cap_le: "n < tx_cap s \<Longrightarrow> n < NBUF" "n < tx_cap s \<Longrightarrow> n < lcap s"
  by (simp_all add: tx_cap_def)

lemma tx_cap_more: "bio_state.more s' = bio_state.more s \<Longrightarrow> tx_cap s' = tx_cap s"
  using log_fields_more(2) [of s' s] by (simp add: tx_cap_def lcap_def)

lemma tx_cap_fields [simp]: "tx_cap (s\<lparr>lg_n := n\<rparr>) = tx_cap s" "tx_cap (s\<lparr>lg_busy := b\<rparr>) = tx_cap s"
  by (simp_all add: tx_cap_def)

lemma tx_frame_cap: "tx_frame s s' \<Longrightarrow> tx_cap s' = tx_cap s" "tx_frame s s' \<Longrightarrow> lcap s' = lcap s"
  by (simp_all add: tx_frame_def tx_cap_def lcap_def)

lemma tx_frame_disk: "tx_frame s s' \<Longrightarrow> length (memdisk s') = length (memdisk s)"
  by (auto simp: tx_frame_def)

lemma tx_frame_home:
  assumes "tx_frame s s'"
  shows "in_log s' = in_log s" "home_ok s' = home_ok s" "lg_busy s' = lg_busy s"
  using assms tx_frame_disk [OF assms] by (auto simp: tx_frame_def in_log_def home_ok_def fun_eq_iff)

lemma tx_frame_refl [simp]: "tx_frame s s" by (simp add: tx_frame_def log_only_def)

lemma tx_frame_trans [trans]: "tx_frame s s' \<Longrightarrow> tx_frame s' s'' \<Longrightarrow> tx_frame s s''"
proof -
  assume a: "tx_frame s s'" and b: "tx_frame s' s''"
  from a obtain ws where ws: "writes s' = writes s @ ws" "memdisk s' = apply_writes ws (memdisk s)" "log_only s ws"
    by (auto simp: tx_frame_def)
  from b obtain vs where vs: "writes s'' = writes s' @ vs" "memdisk s'' = apply_writes vs (memdisk s')" "log_only s' vs"
    by (auto simp: tx_frame_def)
  have "log_only s (ws @ vs)"
    using ws(3) vs(3) tx_frame_home(1) [OF a] a by (auto simp: log_only_def tx_frame_def)
  then have "\<exists>us. writes s'' = writes s @ us \<and> memdisk s'' = apply_writes us (memdisk s) \<and> log_only s us"
    using ws vs by (intro exI [of _ "ws @ vs"]) simp
  with a b show ?thesis by (simp add: tx_frame_def)
qed

lemma tx_frame_more:
  "bio_state.more s' = bio_state.more s \<Longrightarrow> memdisk s' = memdisk s \<Longrightarrow> writes s' = writes s \<Longrightarrow> tx_frame s s'"
  using log_fields_more(1-4) [of s' s] by (simp add: tx_frame_def log_only_def)

text \<open>A buffer may be released when the log agrees with it.\<close>

definition synced :: "'a log_state_scheme \<Rightarrow> nat \<Rightarrow> bool" where
  "synced s n \<longleftrightarrow> (\<forall>i < nat (lg_n s). lg_sector s ! i = n \<longrightarrow> memdisk s ! (lg_start s + i + 1) = view s n) \<and>
     (n \<in> dirtyS s \<or> view s n = memdisk s ! n)"

lemma idle_synced: "log_inv s \<Longrightarrow> n \<notin> busyS s \<Longrightarrow> synced s n"
  using log_invD(10) [of s] view_idle [OF log_invD(1)] unfolding synced_def by blast

section \<open>The protocol keeps the invariant\<close>

lemma log_inv_cache:
  assumes inv: "log_inv s" and bio: "bio_inv s'" and m: "bio_state.more s' = bio_state.more s"
    and d: "dirtyS s' = dirtyS s" and disk: "memdisk s' = memdisk s"
    and b: "\<And>n. n \<in> busyS s' \<Longrightarrow> \<not> in_log s n"
    and v: "\<And>n. n \<notin> busyS s' \<Longrightarrow> synced s n \<and> view s' n = view s n"
  shows "log_inv s'"
proof -
  note I = log_invD [OF inv] and f = log_fields_more [OF m]
  have g: "log_geom s'" "in_log s' = in_log s" "home_ok s' = home_ok s" "lcap s' = lcap s"
    using log_geom_cong [OF m] disk I(2) by auto
  have lg: "logged s' = logged s" by (simp add: logged_def f)
  have old: "memdisk s ! (lg_start s + i + 1) = view s' (lg_sector s ! i)"
    if "i < nat (lg_n s)" "lg_sector s ! i \<notin> busyS s'" for i
    using v [OF that(2)] that(1) by (auto simp: synced_def)
  show ?thesis
    unfolding log_inv_def
    using bio g I b old by (auto simp: lg f d disk disk_head_def)
qed

lemma tx_bread:
  assumes inv: "log_inv s" and n: "home_ok s n" "n \<notin> busyS s" and room: "card (busyS s \<union> dirtyS s) < NBUF"
  shows "\<exists>i s'. bread 1 n s = Inr (i, s') \<and> log_inv s' \<and> has_buf s' i n \<and> buf_data i s' = hv s n \<and> hv s' = hv s \<and>
    busyS s' = insert n (busyS s) \<and> dirtyS s' = dirtyS s \<and> (\<forall>j m. has_buf s j m \<longrightarrow> j \<noteq> i \<and> has_buf s' j m) \<and>
    bio_state.more s' = bio_state.more s \<and> memdisk s' = memdisk s \<and> writes s' = writes s \<and> synced s' n"
proof -
  note I = log_invD [OF inv]
  have len: "n < length (memdisk s)" "\<not> in_log s n" using n(1) by (auto simp: home_ok_def)
  obtain i s' where r: "bread 1 n s = Inr (i, s')" using bread_succeeds [OF I(1) len(1) n(2)] room by blast
  note e = bread_effect [OF I(1) r]
  have m: "bio_state.more s' = bio_state.more s" and d: "memdisk s' = memdisk s" using e by auto
  note f = log_fields_more [OF m]
  have "log_inv s'"
    by (rule log_inv_cache [OF inv _ m _ d]) (use e I(9) len(2) idle_synced [OF inv] in auto)
  moreover have "hv s' = hv s" "buf_data i s' = hv s n"
    using e len(2) log_geom_cong(2) [OF m] d by (auto simp: hv_def fun_eq_iff)
  moreover have "synced s' n" using idle_synced [OF inv n(2)] e by (simp add: synced_def f)
  ultimately show ?thesis using r e by blast
qed

lemma tx_set_data:
  assumes inv: "log_inv s" and hb: "has_buf s i n" and len: "length d = BSIZE"
  shows "log_inv (set_data i d s)" "hv (set_data i d s) = (hv s)(n := d)" "busyS (set_data i d s) = busyS s"
    "dirtyS (set_data i d s) = dirtyS s" "has_buf (set_data i d s) = has_buf s"
    "bio_state.more (set_data i d s) = bio_state.more s" "memdisk (set_data i d s) = memdisk s"
    "writes (set_data i d s) = writes s"
proof -
  note I = log_invD [OF inv]
  have e: "bio_inv (set_data i d s)" "view (set_data i d s) = (view s)(n := d)" "busyS (set_data i d s) = busyS s"
    "dirtyS (set_data i d s) = dirtyS s" "has_buf (set_data i d s) = has_buf s" "memdisk (set_data i d s) = memdisk s"
    "bio_state.more (set_data i d s) = bio_state.more s"
    using set_data_facts [OF I(1) hb len] by auto
  have nb: "n \<in> busyS s" using busyS_iff [OF I(1)] hb by blast
  show "log_inv (set_data i d s)"
    by (rule log_inv_cache [OF inv e(1,7,4,6)]) (use e I(9) nb idle_synced [OF inv] in auto)
  show "hv (set_data i d s) = (hv s)(n := d)"
    using e(2) log_geom_cong(2) [OF e(7)] e(6) I(9) [OF nb] by (auto simp: hv_def fun_eq_iff)
qed (use set_data_facts [OF log_invD(1) [OF inv] hb len] in auto)

lemma tx_brelse:
  assumes inv: "log_inv s" and hb: "has_buf s i n" and sy: "synced s n"
  shows "\<exists>s'. brelse i s = Inr s' \<and> log_inv s' \<and> hv s' = hv s \<and> busyS s' = busyS s - {n} \<and> dirtyS s' = dirtyS s \<and>
    (\<forall>j m. j \<noteq> i \<longrightarrow> has_buf s' j m = has_buf s j m) \<and> bio_state.more s' = bio_state.more s \<and> memdisk s' = memdisk s \<and>
    writes s' = writes s"
proof -
  note I = log_invD [OF inv]
  from sy have "n \<in> dirtyS s \<or> view s n = memdisk s ! n" by (simp add: synced_def)
  from brelse_effect [OF I(1) hb this] obtain s' where s': "brelse i s = Inr s'" "bio_inv s'" "view s' = view s"
      "busyS s' = busyS s - {n}" "dirtyS s' = dirtyS s" "\<forall>j m. j \<noteq> i \<longrightarrow> has_buf s' j m = has_buf s j m"
      "memdisk s' = memdisk s" "bio_state.more s' = bio_state.more s" "writes s' = writes s" by blast
  have "log_inv s'"
    by (rule log_inv_cache [OF inv s'(2,8,5,7)]) (use s' I(9) sy idle_synced [OF inv] in auto)
  moreover have "hv s' = hv s"
    using s'(3) log_geom_cong(2) [OF s'(8)] s'(7) by (auto simp: hv_def fun_eq_iff)
  ultimately show ?thesis using s' by blast
qed

section \<open>Logging a block\<close>

text \<open>The slot \<open>log_write\<close> uses for sector \<open>n\<close>, and the header after it.\<close>

definition log_slot :: "'a log_state_scheme \<Rightarrow> nat \<Rightarrow> nat" where
  "log_slot s n = (case find_index (\<lambda>x. x = n) (logged s) of Some i \<Rightarrow> i | None \<Rightarrow> nat (lg_n s))"

lemma log_slot_facts:
  assumes inv: "log_inv s" and n: "lg_n s < int (lcap s)"
  shows "log_slot s n < lcap s" "log_slot s n \<le> nat (lg_n s)"
    "int (log_slot s n) = lg_n s \<longleftrightarrow> n \<notin> set (logged s)"
    "n \<in> set (logged s) \<Longrightarrow> (lg_sector s)[log_slot s n := n] = lg_sector s"
    "n \<notin> set (logged s) \<Longrightarrow> take (Suc (nat (lg_n s))) ((lg_sector s)[log_slot s n := n]) = logged s @ [n]"
proof -
  note I = log_invD [OF inv] and L = logged_facts [OF inv]
  have len: "length (lg_sector s) = LOGSIZE" using I(2) by (simp add: log_geom_def)
  have found: "\<exists>i. find_index (\<lambda>x. x = n) (logged s) = Some i \<and> i < nat (lg_n s) \<and> lg_sector s ! i = n"
    if mem: "n \<in> set (logged s)"
  proof -
    obtain i where i: "find_index (\<lambda>x. x = n) (logged s) = Some i" using find_index_ex [OF mem, of "\<lambda>x. x = n"] by auto
    then show ?thesis using find_index_SomeD(1,2) [OF i] L(1) L(2) [of i] by simp
  qed
  have none: "find_index (\<lambda>x. x = n) (logged s) = None" if "n \<notin> set (logged s)"
    using that by (auto simp: find_index_None)
  show "log_slot s n < lcap s" "log_slot s n \<le> nat (lg_n s)"
    using found none n I(3,4) by (cases "n \<in> set (logged s)"; auto simp: log_slot_def)+
  show "int (log_slot s n) = lg_n s \<longleftrightarrow> n \<notin> set (logged s)"
    using found none I(3) by (cases "n \<in> set (logged s)") (auto simp: log_slot_def)
  show "n \<in> set (logged s) \<Longrightarrow> (lg_sector s)[log_slot s n := n] = lg_sector s"
    using found by (auto simp: log_slot_def)
  show "n \<notin> set (logged s) \<Longrightarrow> take (Suc (nat (lg_n s))) ((lg_sector s)[log_slot s n := n]) = logged s @ [n]"
    using none n I(3) len lcap_le [of s] by (simp add: log_slot_def take_Suc_conv_app_nth logged_def)
qed

text \<open>\<open>log_write\<close> as an overwrite of one log block, followed by the bookkeeping.\<close>

lemma log_write_overwrite:
  assumes inv: "log_inv s" and hb: "has_buf s i n" and b: "lg_busy s" and c: "lg_n s < int (lcap s)"
  defines "L \<equiv> lg_start s + log_slot s n + 1"
  defines "s1 \<equiv> s\<lparr>lg_sector := (lg_sector s)[log_slot s n := n]\<rparr>"
  shows "log_write i s = res_bind (bc.overwrite L (\<lambda>_. view s n) s1) (\<lambda>s'.
    Inr (mark_dirty i (if int (log_slot s n) = lg_n s' then s'\<lparr>lg_n := lg_n s' + 1\<rparr> else s')))"
proof -
  note I = log_invD [OF inv] and S = log_slot_facts [OF inv c, of n]
  have sec: "b_sector (bufs s ! i) = n" "b_dev (bufs s ! i) = 1" using hb by (auto simp: has_buf_def holds_block_def)
  have guard: "\<not> (int LOGSIZE \<le> lg_n s \<or> lg_size s - 1 \<le> lg_n s)" using c I(2) by (auto simp: log_geom_def lcap_def)
  have Leq: "log_block s1 (log_slot s n) = L"
    using log_block_eq [OF I(2) S(1)] by (simp add: L_def s1_def)
  have hb1: "bio_inv s1" "has_buf s1 i n" "view s1 = view s" using I(1) hb by (simp_all add: s1_def)
  have dat: "buf_data i s2 = view s n" if "bread 1 L s1 = Inr (k, s2)" for k s2
    using bread_effect [OF hb1(1) that] hb1(2,3) has_buf_facts [of s2 i n] by simp
  have "log_write i s = res_bind (bread 1 L s1) (\<lambda>(lbuf, r).
      res_bind (bwrite lbuf (set_data lbuf (buf_data i r) r)) (\<lambda>r. res_bind (brelse lbuf r) (\<lambda>s'.
        Inr (mark_dirty i (if int (log_slot s n) = lg_n s' then s'\<lparr>lg_n := lg_n s' + 1\<rparr> else s')))))"
    using guard b sec Leq unfolding log_write_def
    by (simp add: Let_def s1_def log_slot_def logged_def)
  also have "\<dots> = res_bind (bc.overwrite L (\<lambda>_. view s n) s1) (\<lambda>s'.
      Inr (mark_dirty i (if int (log_slot s n) = lg_n s' then s'\<lparr>lg_n := lg_n s' + 1\<rparr> else s')))"
    unfolding bc.overwrite_def res_bind_assoc
    by (rule res_bind_cong [OF refl]) (use dat in \<open>auto simp: res_bind_assoc split: prod.split\<close>)
  finally show ?thesis .
qed

lemma tx_log_write:
  assumes inv: "log_inv s" and hb: "has_buf s i n" and b: "lg_busy s" and cap: "card (busyS s \<union> dirtyS s) < tx_cap s"
  shows "\<exists>s'. log_write i s = Inr s' \<and> log_inv s' \<and> hv s' = hv s \<and> busyS s' = busyS s \<and> dirtyS s' = insert n (dirtyS s) \<and>
    (\<forall>j m. has_buf s j m \<longrightarrow> has_buf s' j m) \<and> synced s' n \<and> tx_frame s s' \<and> log_state.more s' = log_state.more s \<and>
    (\<forall>x. home_ok s x \<longrightarrow> memdisk s' ! x = memdisk s ! x)"
proof -
  note I = log_invD [OF inv] and Lf = logged_facts [OF inv]
  have "card (dirtyS s) \<le> card (busyS s \<union> dirtyS s)" by (intro card_mono) (auto simp: busyS_def dirtyS_def)
  then have c: "lg_n s < int (lcap s)" using tx_cap_le(2) [OF cap] Lf(4) I(3) by simp
  have room: "card (busyS s \<union> dirtyS s) < NBUF" by (rule tx_cap_le(1) [OF cap])
  note S = log_slot_facts [OF inv c, of n]
  define L where "L = lg_start s + log_slot s n + 1"
  define s1 where "s1 = s\<lparr>lg_sector := (lg_sector s)[log_slot s n := n]\<rparr>"
  have L: "in_log s L" "L < length (memdisk s)" using in_log_block [OF I(2) S(1)] by (auto simp: L_def)
  have nfacts: "n < length (memdisk s)" "n \<in> busyS s" using has_buf_facts [OF I(1) hb] by auto
  have nh: "home_ok s n" using I(9) [OF nfacts(2)] nfacts(1) by (simp add: home_ok_def)
  have len: "length (view s n) = BSIZE" using view_length [OF I(1) nfacts(1)] .
  have nd: "x \<in> dirtyS s \<Longrightarrow> \<not> in_log s x" for x using I(6,7) by (auto simp: home_ok_def)
  have "\<exists>s2. bc.overwrite L (\<lambda>_. view s n) s1 = Inr s2 \<and> bio_inv s2 \<and>
      view s2 = (view s1)(L := view s n) \<and> busyS s2 = busyS s1 \<and>
      dirtyS s2 = dirtyS s1 - {L} \<and> memdisk s2 = (memdisk s1)[L := view s n] \<and>
      writes s2 = writes s1 @ [(L, view s n)] \<and> bio_state.more s2 = bio_state.more s1 \<and>
      (\<forall>j m. has_buf s1 j m \<longrightarrow> has_buf s2 j m)"
    by (rule bc.overwrite_effect) (use I(1,9) L len room in \<open>auto simp: s1_def\<close>)
  then obtain s2 where s2: "bc.overwrite L (\<lambda>_. view s n) s1 = Inr s2" "bio_inv s2"
      "view s2 = (view s)(L := view s n)" "busyS s2 = busyS s" "dirtyS s2 = dirtyS s"
      "memdisk s2 = (memdisk s)[L := view s n]" "bio_state.more s2 = bio_state.more s1"
      "\<forall>j m. has_buf s j m \<longrightarrow> has_buf s2 j m" "writes s2 = writes s @ [(L, view s n)]"
    using nd L(1) by (auto simp: s1_def)
  note f2 = log_fields_more [OF s2(7)]
  define new where "new = (n \<notin> set (logged s))"
  define s3 where "s3 = (if new then s2\<lparr>lg_n := lg_n s + 1\<rparr> else s2)"
  define s' where "s' = mark_dirty i s3"
  have s3: "bio_inv s3" "view s3 = view s2" "busyS s3 = busyS s" "dirtyS s3 = dirtyS s" "memdisk s3 = memdisk s2"
      "has_buf s3 = has_buf s2" "lg_start s3 = lg_start s" "lg_size s3 = lg_size s" "lg_busy s3 = lg_busy s"
      "lg_dev s3 = lg_dev s" "log_state.more s3 = log_state.more s"
      "lg_sector s3 = (lg_sector s)[log_slot s n := n]" "lg_n s3 = (if new then lg_n s + 1 else lg_n s)"
      "writes s3 = writes s @ [(L, view s n)]"
    using s2 f2 by (simp_all add: s3_def s1_def)
  have hb3: "has_buf s3 i n" using s2(8) hb s3(6) by simp
  note md = mark_dirty_effect [OF s3(1) hb3, folded s'_def] and f' = log_fields_more [OF md(8)]
  have frame: "tx_frame s s'" unfolding tx_frame_def
    by (intro conjI exI [of _ "[(L, view s n)]"]) (use s3 f' md(6,7) s2(6) L(1) len in \<open>simp_all add: log_only_def L_def\<close>)
  note fh = tx_frame_home [OF frame]
  have run: "log_write i s = Inr s'"
    unfolding log_write_overwrite [OF inv hb b c, folded L_def s1_def]
    using s2(1) S(3) f2(5) by (simp add: s'_def s3_def s1_def new_def)
  have lg: "logged s' = (if new then logged s @ [n] else logged s)"
    using S(4,5) I(3) f' s3 by (auto simp: logged_def new_def nat_add_distrib)
  have vw: "x \<noteq> L \<Longrightarrow> view s' x = view s x" for x using md(2) s3(2) s2(3) by simp
  have disk: "memdisk s' = (memdisk s)[L := view s n]" using md(6) s3(5) s2(6) by simp
  have nL: "n \<noteq> L" using nh L(1) by (auto simp: home_ok_def)
  have vn: "view s' n = view s n" using vw nL by simp
  have sect: "lg_sector s' = (lg_sector s)[log_slot s n := n]" "lg_n s' = (if new then lg_n s + 1 else lg_n s)"
      "lg_start s' = lg_start s" "lg_busy s'"
    using f' s3(7,9,12,13) b by simp_all
  have slen: "length (lg_sector s) = LOGSIZE" using I(2) by (simp add: log_geom_def)
  have slot: "log_slot s n < nat (lg_n s')" "lg_sector s' ! log_slot s n = n" "0 \<le> lg_n s'" "lg_n s' \<le> int (lcap s)"
    using S(1,2,3) I(3) c slen lcap_le [of s] by (auto simp: sect new_def)
  have dist: "distinct (logged s')" using lg I(5) by (auto simp: new_def)
  have at: "lg_sector s' ! k = n \<longleftrightarrow> k = log_slot s n" if "k < nat (lg_n s')" for k
  proof -
    have "length (logged s') = nat (lg_n s')" using slot(3,4) slen lcap_le [of s] by (simp add: logged_def sect(1))
    moreover have "logged s' ! k = lg_sector s' ! k" "logged s' ! log_slot s n = n"
      using that slot by (simp_all add: logged_def)
    ultimately show ?thesis using dist that slot(1) by (metis nth_eq_iff_index_eq)
  qed
  have other: "k < nat (lg_n s) \<and> lg_sector s' ! k = lg_sector s ! k \<and>
      memdisk s' ! (lg_start s + k + 1) = memdisk s ! (lg_start s + k + 1)"
    if "k < nat (lg_n s')" "k \<noteq> log_slot s n" for k
    using that S(3) I(3) by (auto simp: sect disk L_def new_def split: if_splits)
  have geom: "log_geom s'" using I(2) frame sect(1) tx_frame_disk [OF frame] by (simp add: log_geom_def tx_frame_def)
  have homes: "home_ok s x" if "x \<in> set (logged s')" for x
    using that lg nh I(6) by (auto split: if_splits)
  have dirty: "dirtyS s' = insert n (dirtyS s)" using md(4) s3(4) by simp
  have dl: "dirtyS s' = set (logged s')" using dirty lg I(7) by (auto simp: new_def)
  have slotL: "memdisk s' ! (lg_start s + log_slot s n + 1) = view s n" using L(2) by (simp add: disk L_def)
  have content: "memdisk s' ! (lg_start s + k + 1) = view s' (lg_sector s' ! k)"
    if k: "k < nat (lg_n s')" "lg_sector s' ! k \<notin> busyS s'" for k
  proof -
    have "lg_sector s' ! k \<noteq> n" using k(2) nfacts(2) md(3) s3(3) by auto
    then have ks: "k \<noteq> log_slot s n" using slot(2) by auto
    note o = other [OF k(1) ks]
    have "lg_sector s ! k \<in> set (logged s)" using o Lf(3) by auto
    then have "lg_sector s ! k \<noteq> L" using I(6) L(1) by (auto simp: home_ok_def)
    then show ?thesis using o I(10) [of k] k(2) md(3) s3(3) vw by simp
  qed
  have hd: "disk_head s' = disk_head s" using disk sect(3) L_def by (simp add: disk_head_def)
  have inv': "log_inv s'"
    unfolding log_inv_def
    using md(1,3) geom slot(3,4) dist homes dl hd I(8,9) content sect(3,4) s3(3) by (simp add: fh tx_frame_cap(2) [OF frame])
  have "synced s' n"
    unfolding synced_def using at slotL vn dirty by (simp add: sect(3))
  moreover have "hv s' = hv s"
  proof
    show "hv s' x = hv s x" for x using vw [of x] L(1) by (cases "x = L") (simp_all add: hv_def fh)
  qed
  moreover have "home_ok s x \<Longrightarrow> memdisk s' ! x = memdisk s ! x" for x
    using L(1) by (simp add: disk home_ok_def) (metis nth_list_update_neq)
  ultimately show ?thesis
    using run inv' frame dirty md(3,5) s3(3,6,11) s2(8) f'(7) by auto
qed

section \<open>Reading and updating one block\<close>

text \<open>
  \<open>eff s T s'\<close>: from \<open>s\<close> to \<open>s'\<close> the transaction has logged blocks of \<open>T\<close> only and holds the same
  buffers as before. \<open>room s T\<close>: the buffer cache can take the blocks of \<open>T\<close> besides those it
  already has to keep.
\<close>

definition eff :: "'a log_state_scheme \<Rightarrow> nat set \<Rightarrow> 'a log_state_scheme \<Rightarrow> bool" where
  "eff s T s' \<longleftrightarrow> log_inv s' \<and> tx_frame s s' \<and> busyS s' = busyS s \<and> dirtyS s \<subseteq> dirtyS s' \<and>
     dirtyS s' \<subseteq> dirtyS s \<union> T \<and> (\<forall>j m. has_buf s j m \<longrightarrow> has_buf s' j m)"

definition room :: "'a log_state_scheme \<Rightarrow> nat set \<Rightarrow> bool" where
  "room s T \<longleftrightarrow> log_inv s \<and> lg_busy s \<and> finite T \<and> card (busyS s \<union> dirtyS s \<union> T) < tx_cap s"

lemma fin_sets [simp]: "finite (busyS s)" "finite (dirtyS s)"
  by (simp_all add: busyS_def dirtyS_def)

lemma eff_refl: "log_inv s \<Longrightarrow> eff s T s" by (simp add: eff_def)

lemma eff_trans: "eff s T s' \<Longrightarrow> eff s' U s'' \<Longrightarrow> eff s (T \<union> U) s''"
  unfolding eff_def using tx_frame_trans by blast

lemma eff_mono: "eff s T s' \<Longrightarrow> T \<subseteq> U \<Longrightarrow> eff s U s'"
  unfolding eff_def by blast

lemma eff_trans_same: "eff s T s' \<Longrightarrow> eff s' T s'' \<Longrightarrow> eff s T s''"
  using eff_trans [of s T s' T s''] by simp

lemma eff_frame: "eff s T s' \<Longrightarrow> tx_frame s s'" by (simp add: eff_def)

lemma eff_home:
  assumes "eff s T s'"
  shows "home_ok s' = home_ok s" "busyS s' = busyS s" "lg_busy s' = lg_busy s" "in_log s' = in_log s"
  using assms tx_frame_home [OF eff_frame [OF assms]] by (simp_all add: eff_def)

lemma room_eff:
  assumes "room s T" "eff s T s'"
  shows "room s' T"
proof -
  have "busyS s' \<union> dirtyS s' \<union> T \<subseteq> busyS s \<union> dirtyS s \<union> T" using assms(2) by (auto simp: eff_def)
  then have "card (busyS s' \<union> dirtyS s' \<union> T) \<le> card (busyS s \<union> dirtyS s \<union> T)"
    using assms(1) by (intro card_mono) (auto simp: room_def)
  with assms show ?thesis using tx_frame_cap(1) [OF eff_frame [OF assms(2)]] by (simp add: room_def eff_def tx_frame_def)
qed

lemma room_mono: "room s T \<Longrightarrow> U \<subseteq> T \<Longrightarrow> room s U"
proof -
  assume r: "room s T" and U: "U \<subseteq> T"
  then have "card (busyS s \<union> dirtyS s \<union> U) \<le> card (busyS s \<union> dirtyS s \<union> T)"
    by (intro card_mono) (auto simp: room_def)
  with r U show ?thesis by (auto simp: room_def intro: finite_subset)
qed

lemma room_card: "room s T \<Longrightarrow> card (busyS s \<union> dirtyS s) < NBUF"
  using room_mono [of s T "{}"] by (simp add: room_def tx_cap_def)

lemma tx_peek:
  assumes inv: "log_inv s" and n: "home_ok s n" "n \<notin> busyS s" and room: "card (busyS s \<union> dirtyS s) < NBUF"
  shows "\<exists>i s1 s'. bread 1 n s = Inr (i, s1) \<and> buf_data i s1 = hv s n \<and> brelse i s1 = Inr s' \<and> eff s {} s' \<and>
    hv s' = hv s \<and> bio_state.more s1 = bio_state.more s \<and> bio_state.more s' = bio_state.more s"
proof -
  obtain i s1 where s1: "bread 1 n s = Inr (i, s1)" "log_inv s1" "has_buf s1 i n" "buf_data i s1 = hv s n"
      "hv s1 = hv s" "busyS s1 = insert n (busyS s)" "dirtyS s1 = dirtyS s"
      "\<forall>j m. has_buf s j m \<longrightarrow> j \<noteq> i \<and> has_buf s1 j m" "bio_state.more s1 = bio_state.more s"
      "memdisk s1 = memdisk s" "synced s1 n" "writes s1 = writes s"
    using tx_bread [OF assms] by blast
  obtain s' where s': "brelse i s1 = Inr s'" "log_inv s'" "hv s' = hv s1" "busyS s' = busyS s1 - {n}" "dirtyS s' = dirtyS s1"
      "\<forall>j m. j \<noteq> i \<longrightarrow> has_buf s' j m = has_buf s1 j m" "bio_state.more s' = bio_state.more s1" "memdisk s' = memdisk s1"
      "writes s' = writes s1"
    using tx_brelse [OF s1(2,3,11)] by blast
  have "tx_frame s s'" using tx_frame_more [of s' s] s1 s' by simp
  then have "eff s {} s'" using s1 s' n(2) by (auto simp: eff_def)
  then show ?thesis using s1 s' by auto
qed

text \<open>The idiom \<open>bp = bread(..); modify bp->data; log_write(bp); brelse(bp)\<close>.\<close>

definition log_update :: "nat \<Rightarrow> (byte list \<Rightarrow> byte list) \<Rightarrow> 'a log_state_scheme \<Rightarrow> 'a log_state_scheme res" where
  "log_update n f s = res_bind (bread 1 n s) (\<lambda>(b, s).
     res_bind (log_write b (set_data b (f (buf_data b s)) s)) (brelse b))"

lemma tx_held_update:
  assumes rm: "card (busyS s \<union> dirtyS s) < tx_cap s" "lg_busy s" "log_inv s" and hb: "has_buf s i n" and len: "length d = BSIZE"
  shows "\<exists>s1 s'. log_write i (set_data i d s) = Inr s1 \<and> brelse i s1 = Inr s' \<and> log_inv s' \<and> tx_frame s s' \<and>
    busyS s' = busyS s - {n} \<and> dirtyS s' = insert n (dirtyS s) \<and> (\<forall>j m. j \<noteq> i \<longrightarrow> has_buf s j m \<longrightarrow> has_buf s' j m) \<and>
    hv s' = (hv s)(n := d) \<and> log_state.more s' = log_state.more s"
proof -
  note sd = tx_set_data [OF rm(3) hb len]
  have "has_buf (set_data i d s) i n" "lg_busy (set_data i d s)" "card (busyS (set_data i d s) \<union> dirtyS (set_data i d s)) < tx_cap (set_data i d s)"
    using hb rm log_fields_more(3) [OF sd(6)] tx_cap_more [OF sd(6)] by (simp_all add: sd)
  from tx_log_write [OF sd(1) this] obtain s1 where s1: "log_write i (set_data i d s) = Inr s1" "log_inv s1"
      "hv s1 = (hv s)(n := d)" "busyS s1 = busyS s" "dirtyS s1 = insert n (dirtyS s)"
      "\<forall>j m. has_buf s j m \<longrightarrow> has_buf s1 j m" "synced s1 n" "tx_frame (set_data i d s) s1"
      "log_state.more s1 = log_state.more (set_data i d s)"
    unfolding sd by blast
  have "has_buf s1 i n" using s1(6) hb by blast
  from tx_brelse [OF s1(2) this s1(7)] obtain s' where
    s': "brelse i s1 = Inr s'" "log_inv s'" "hv s' = hv s1" "busyS s' = busyS s1 - {n}" "dirtyS s' = dirtyS s1"
      "\<forall>j m. j \<noteq> i \<longrightarrow> has_buf s' j m = has_buf s1 j m" "bio_state.more s' = bio_state.more s1" "memdisk s' = memdisk s1"
      "writes s' = writes s1"
    by blast
  have "tx_frame s (set_data i d s)" by (rule tx_frame_more [OF sd(6-8)])
  also note s1(8)
  also have "tx_frame s1 s'" by (rule tx_frame_more [OF s'(7-9)])
  finally show ?thesis
    using s1 s' log_fields_more(7) [OF sd(6)] log_fields_more(7) [OF s'(7)] by auto
qed

lemma tx_update:
  assumes rm: "room s T" and n: "home_ok s n" "n \<notin> busyS s" "n \<in> T" and len: "length (f (hv s n)) = BSIZE"
  shows "\<exists>s'. log_update n f s = Inr s' \<and> eff s T s' \<and> hv s' = (hv s)(n := f (hv s n)) \<and>
    log_state.more s' = log_state.more s"
proof -
  from rm have inv: "log_inv s" "lg_busy s" by (simp_all add: room_def)
  obtain i s1 where s1: "bread 1 n s = Inr (i, s1)" "log_inv s1" "has_buf s1 i n" "buf_data i s1 = hv s n"
      "hv s1 = hv s" "busyS s1 = insert n (busyS s)" "dirtyS s1 = dirtyS s"
      "\<forall>j m. has_buf s j m \<longrightarrow> j \<noteq> i \<and> has_buf s1 j m" "bio_state.more s1 = bio_state.more s" "memdisk s1 = memdisk s"
      "writes s1 = writes s"
    using tx_bread [OF inv(1) n(1,2) room_card [OF rm]] by blast
  note f1 = log_fields_more [OF s1(9)]
  have "insert n (busyS s) \<union> dirtyS s \<subseteq> busyS s \<union> dirtyS s \<union> T" using n(3) by auto
  then have "card (busyS s1 \<union> dirtyS s1) < tx_cap s1"
    using rm card_mono [of "busyS s \<union> dirtyS s \<union> T" "insert n (busyS s) \<union> dirtyS s"]
    unfolding s1 room_def tx_cap_more [OF s1(9)] by (meson fin_sets finite_UnI le_less_trans)
  from tx_held_update [OF this _ s1(2,3) len] inv(2) f1(3) obtain s2 s' where
    s': "log_write i (set_data i (f (hv s n)) s1) = Inr s2" "brelse i s2 = Inr s'" "log_inv s'" "tx_frame s1 s'"
      "busyS s' = busyS s1 - {n}" "dirtyS s' = insert n (dirtyS s1)"
      "\<forall>j m. j \<noteq> i \<longrightarrow> has_buf s1 j m \<longrightarrow> has_buf s' j m"
      "hv s' = (hv s1)(n := f (hv s n))" "log_state.more s' = log_state.more s1"
    by auto
  have "tx_frame s s1" by (rule tx_frame_more [OF s1(9-11)])
  also note s'(4)
  finally have "eff s T s'" using s1 s' n by (auto simp: eff_def)
  moreover have "log_update n f s = Inr s'" unfolding log_update_def using s1 s' by simp
  ultimately show ?thesis using s1 s' f1(7) by auto
qed

text \<open>\<open>slack s B k\<close>: besides the blocks of \<open>B\<close> the transaction can log \<open>k\<close> more.\<close>

definition slack :: "'a log_state_scheme \<Rightarrow> nat set \<Rightarrow> nat \<Rightarrow> bool" where
  "slack s B k \<longleftrightarrow> log_inv s \<and> lg_busy s \<and> finite B \<and> card (busyS s \<union> dirtyS s \<union> B) + k < tx_cap s"

lemma slack_room:
  assumes "slack s B k" "finite N" "card N \<le> k"
  shows "room s (B \<union> N)"
proof -
  have "card (busyS s \<union> dirtyS s \<union> (B \<union> N)) \<le> card (busyS s \<union> dirtyS s \<union> B) + card N"
    using card_Un_le [of "busyS s \<union> dirtyS s \<union> B" N] by (simp add: Un_assoc)
  with assms show ?thesis by (simp add: slack_def room_def)
qed

lemma slack_eff:
  assumes "slack s B (j + k)" "eff s (B \<union> N) s'" "finite N" "card N \<le> j"
  shows "slack s' B k"
proof -
  have "busyS s' \<union> dirtyS s' \<union> B \<subseteq> (busyS s \<union> dirtyS s \<union> B) \<union> N" using assms(2) by (auto simp: eff_def)
  moreover have fin: "finite (busyS s \<union> dirtyS s \<union> B \<union> N)" using assms(1,3) by (simp add: slack_def)
  ultimately have "card (busyS s' \<union> dirtyS s' \<union> B) \<le> card (busyS s \<union> dirtyS s \<union> B \<union> N)" by (intro card_mono)
  also have "\<dots> \<le> card (busyS s \<union> dirtyS s \<union> B) + card N" by (rule card_Un_le)
  finally show ?thesis using assms tx_frame_cap(1) [OF eff_frame [OF assms(2)]] by (simp add: slack_def eff_def tx_frame_def)
qed

lemma slack_mono: "slack s B k \<Longrightarrow> j \<le> k \<Longrightarrow> slack s B j" by (simp add: slack_def)

lemma slackD:
  assumes "slack s B k"
  shows "log_inv s" "lg_busy s" "finite B" "card (busyS s \<union> dirtyS s) < NBUF" "card (busyS s \<union> dirtyS s) < tx_cap s"
proof -
  have "card (busyS s \<union> dirtyS s) \<le> card (busyS s \<union> dirtyS s \<union> B)"
    using assms by (intro card_mono) (auto simp: slack_def)
  with assms show "log_inv s" "lg_busy s" "finite B" "card (busyS s \<union> dirtyS s) < NBUF" "card (busyS s \<union> dirtyS s) < tx_cap s" by (simp_all add: slack_def tx_cap_def)
qed

section \<open>The contract of a transactional block store\<close>

fun apply_upds :: "(nat \<times> ('b \<Rightarrow> 'b)) list \<Rightarrow> (nat \<Rightarrow> 'b) \<Rightarrow> nat \<Rightarrow> 'b" where
  "apply_upds [] b = b"
| "apply_upds ((n, f) # us) b = apply_upds us (b(n := f (b n)))"

locale tx_store =
  fixes ready :: "'s \<Rightarrow> nat set \<Rightarrow> bool"
    and blk :: "'s \<Rightarrow> nat \<Rightarrow> byte list"
    and home :: "'s \<Rightarrow> nat \<Rightarrow> bool"
    and held :: "'s \<Rightarrow> nat set"
    and evol :: "'s \<Rightarrow> nat set \<Rightarrow> 's \<Rightarrow> bool"
    and rest :: "'s \<Rightarrow> 'r"
    and upd :: "nat \<Rightarrow> (byte list \<Rightarrow> byte list) \<Rightarrow> 's \<Rightarrow> 's res"
    and bsize :: nat
  assumes upd_effect: "ready s T \<Longrightarrow> home s n \<Longrightarrow> n \<notin> held s \<Longrightarrow> n \<in> T \<Longrightarrow> length (f (blk s n)) = bsize \<Longrightarrow>
      \<exists>s'. upd n f s = Inr s' \<and> evol s T s' \<and> blk s' = (blk s)(n := f (blk s n)) \<and> rest s' = rest s"
    and blk_len: "ready s T \<Longrightarrow> home s n \<Longrightarrow> length (blk s n) = bsize"
    and evol_refl: "ready s T \<Longrightarrow> evol s T s"
    and evol_trans: "evol s T s' \<Longrightarrow> evol s' T s'' \<Longrightarrow> evol s T s''"
    and evol_keeps: "evol s T s' \<Longrightarrow> home s' = home s \<and> held s' = held s"
    and ready_evol: "ready s T \<Longrightarrow> evol s T s' \<Longrightarrow> ready s' T"
begin

text \<open>A transaction's body, as a sequence of updates of single blocks, and what it means.\<close>

fun upds :: "(nat \<times> (byte list \<Rightarrow> byte list)) list \<Rightarrow> 's \<Rightarrow> 's res" where
  "upds [] s = Inr s"
| "upds ((n, f) # us) s = res_bind (upd n f s) (upds us)"

lemma upds_effect:
  assumes "ready s T" "\<And>n f. (n, f) \<in> set us \<Longrightarrow> home s n \<and> n \<notin> held s \<and> n \<in> T"
    and "\<And>n f d. (n, f) \<in> set us \<Longrightarrow> length d = bsize \<Longrightarrow> length (f d) = bsize"
  shows "\<exists>s'. upds us s = Inr s' \<and> evol s T s' \<and> blk s' = apply_upds us (blk s) \<and>
    rest s' = rest s"
  using assms
proof (induction us arbitrary: s)
  case Nil
  then show ?case by (auto intro: evol_refl)
next
  case (Cons u us)
  obtain n f where u: "u = (n, f)" by fastforce
  have n: "home s n" "n \<notin> held s" "n \<in> T" using Cons.prems(2) u by auto
  have "length (f (blk s n)) = bsize" using Cons.prems(3) [of n f] blk_len [OF Cons.prems(1) n(1)] u by simp
  from upd_effect [where f = f, OF Cons.prems(1) n this] obtain s1 where
    s1: "upd n f s = Inr s1" "evol s T s1" "blk s1 = (blk s)(n := f (blk s n))" "rest s1 = rest s" by blast
  have "\<exists>s'. upds us s1 = Inr s' \<and> evol s1 T s' \<and> blk s' = apply_upds us (blk s1) \<and>
      rest s' = rest s1"
    by (rule Cons.IH [OF ready_evol [OF Cons.prems(1) s1(2)]])
      (use Cons.prems(2,3) evol_keeps [OF s1(2)] in \<open>simp_all, blast+\<close>)
  then show ?case using s1 evol_trans [OF s1(2)] by (auto simp: u)
qed

end

lemma hv_length: "log_inv s \<Longrightarrow> home_ok s n \<Longrightarrow> length (hv s n) = BSIZE"
  using view_length [OF log_invD(1), of s n] by (auto simp: hv_def home_ok_def)

lemma room_inv: "room s T \<Longrightarrow> log_inv s" by (simp add: room_def)

interpretation tx: tx_store room hv home_ok busyS eff log_state.more log_update BSIZE
proof
  show "room s T \<Longrightarrow> home_ok s n \<Longrightarrow> n \<notin> busyS s \<Longrightarrow> n \<in> T \<Longrightarrow> length (f (hv s n)) = BSIZE \<Longrightarrow>
      \<exists>s'. log_update n f s = Inr s' \<and> eff s T s' \<and> hv s' = (hv s)(n := f (hv s n)) \<and>
        log_state.more s' = log_state.more s" for s :: "'a log_state_scheme" and T n f
    by (rule tx_update)
qed (auto intro: hv_length room_inv eff_refl room_eff eff_trans_same simp: eff_home)

section \<open>The life of a transaction\<close>

text \<open>At rest: no transaction is running and nobody holds a buffer.\<close>

definition tx_rest :: "'a log_state_scheme \<Rightarrow> bool" where
  "tx_rest s \<longleftrightarrow> log_inv s \<and> \<not> lg_busy s \<and> busyS s = {}"

lemma tx_restD:
  assumes "tx_rest s"
  shows "log_inv s" "\<not> lg_busy s" "busyS s = {}" "lg_n s = 0" "dirtyS s = {}" "home_ok s x \<Longrightarrow> hv s x = memdisk s ! x"
proof -
  from assms show I: "log_inv s" "\<not> lg_busy s" "busyS s = {}" by (simp_all add: tx_rest_def)
  then show n: "lg_n s = 0" using log_invD(3,11) [OF I(1)] by fastforce
  then show d: "dirtyS s = {}" using log_invD(7) [OF I(1)] by (simp add: logged_def)
  show "home_ok s x \<Longrightarrow> hv s x = memdisk s ! x"
    using view_idle [OF log_invD(1) [OF I(1)]] d I(3) by (simp add: hv_def home_ok_def)
qed

lemma begin_trans_effect:
  assumes "tx_rest s"
  shows "begin_trans s = Inr (s\<lparr>lg_busy := True\<rparr>)" "log_inv (s\<lparr>lg_busy := True\<rparr>)" "hv (s\<lparr>lg_busy := True\<rparr>) = hv s"
    "finite T \<Longrightarrow> card T < tx_cap s \<Longrightarrow> room (s\<lparr>lg_busy := True\<rparr>) T"
proof -
  note R = tx_restD [OF assms]
  show "begin_trans s = Inr (s\<lparr>lg_busy := True\<rparr>)" using R(2) by (simp add: begin_trans_def)
  show inv: "log_inv (s\<lparr>lg_busy := True\<rparr>)"
    using R(1) unfolding log_inv_def by (simp add: logged_def disk_head_def)
  show "hv (s\<lparr>lg_busy := True\<rparr>) = hv s" by (auto simp: hv_def)
  show "finite T \<Longrightarrow> card T < tx_cap s \<Longrightarrow> room (s\<lparr>lg_busy := True\<rparr>) T"
    using inv R(3,5) by (simp add: room_def)
qed

lemma tx_rest_clean:
  assumes "bio_inv s" "log_geom s" "busyS s = {}" "dirtyS s = {}" "lg_n s = 0" "\<not> lg_busy s" "head_n (disk_head s) = 0"
  shows "tx_rest s"
  using assms by (simp add: tx_rest_def log_inv_def logged_def)

lemma commit_to_rest:
  assumes inv: "log_inv s" and quiet: "busyS s = {}" and n: "lg_n s < int NBUF"
  shows "\<exists>s'. commit_trans s = Inr s' \<and> tx_rest s' \<and> home_ok s' = home_ok s \<and> log_state.more s' = log_state.more s \<and>
    (\<forall>x. home_ok s x \<longrightarrow> hv s' x = hv s x \<and> memdisk s' ! x = hv s x) \<and>
    (\<exists>ws. writes s' = writes s @ ws \<and> (ws = commit_writes s \<or> ws = []))"
proof (cases "0 < lg_n s")
  case True
  note I = log_invD [OF inv]
  from commit_effect [OF inv quiet True n] obtain s' where
    s': "commit_trans s = Inr s'" "bio_inv s'" "busyS s' = {}" "dirtyS s' = {}"
      "memdisk s' = apply_writes (commit_writes s) (memdisk s)" "writes s' = writes s @ commit_writes s"
      "lg_n s' = 0" "\<not> lg_busy s'" "lg_start s' = lg_start s" "lg_size s' = lg_size s" "log_geom s'"
      "log_state.more s' = log_state.more s" by blast
  have h: "home_ok s' = home_ok s" "in_log s' = in_log s"
    using s'(5,9,10) by (auto simp: home_ok_def in_log_def fun_eq_iff)
  have lc: "length (commit_head s) = BSIZE"
    using commit_writes_lengths [OF inv, of "lg_start s"] by (simp add: commit_writes_def)
  have "head_n (disk_head s') = 0"
    using in_log_start [OF I(2)] head_n_put [OF lc, of 0]
    by (simp add: disk_head_def s'(5,9) commit_writes_def head_n_def)
  then have R: "tx_rest s'" using tx_rest_clean s' by blast
  have "memdisk s' ! x = hv s x" if "home_ok s x" for x
    using commit_homes [OF inv quiet that] that s'(5) by (simp add: hv_def home_ok_def)
  then show ?thesis using s'(1,6,12) R h tx_restD(6) [OF R] by auto
next
  case False
  then have z: "lg_n s = 0" using log_invD(3) [OF inv] by simp
  define s' where "s' = s\<lparr>lg_busy := False\<rparr>"
  have c: "commit_trans s = Inr s'" using False by (simp add: commit_trans_def s'_def)
  have R: "tx_rest s'"
    using inv quiet z unfolding tx_rest_def log_inv_def s'_def by (simp add: logged_def disk_head_def)
  have "hv s' = hv s" by (auto simp: hv_def s'_def)
  then show ?thesis using c R tx_restD(6) [OF R] by (auto simp: s'_def)
qed

text \<open>A whole transaction: begin, update blocks, commit.\<close>

definition transact :: "(nat \<times> (byte list \<Rightarrow> byte list)) list \<Rightarrow> 'a log_state_scheme \<Rightarrow> 'a log_state_scheme res" where
  "transact us s = res_bind (begin_trans s) (\<lambda>s. res_bind (tx.upds us s) commit_trans)"

lemma crash_boot_cong:
  assumes "lg_start s' = lg_start s" "lg_size s' = lg_size s" "lg_dev s' = lg_dev s" "log_state.more s' = log_state.more s"
  shows "crash_boot s' d = crash_boot s d"
  using assms by (cases s; cases s') (simp add: crash_boot_def binit_def)

text \<open>A crash in the middle of the body of a transaction, when only the log area has been written,
  loses the transaction and nothing else.\<close>

lemma body_crash:
  assumes R: "tx_rest s" and ws: "log_only s ws"
  shows "\<exists>r. recover_from_log (crash_boot s (apply_writes (take k ws) (memdisk s))) = Inr r \<and>
    (\<forall>x. home_ok s x \<longrightarrow> memdisk r ! x = hv s x) \<and> head_n (disk_head r) = 0"
proof -
  note I = log_invD [OF tx_restD(1) [OF R]]
  define d where "d = apply_writes (take k ws) (memdisk s)"
  have sub: "(n, b) \<in> set (take k ws) \<Longrightarrow> in_log s n \<and> n \<noteq> lg_start s \<and> length b = BSIZE" for n b
    using ws by (auto simp: log_only_def dest: in_set_takeD)
  have "\<forall>x \<in> set (memdisk s). length x = BSIZE" using bio_invD(5) [OF I(1)] by (auto simp: in_set_conv_nth)
  then have len: "\<forall>x \<in> set d. length x = BSIZE" unfolding d_def by (rule apply_writes_lengths [rotated]) (use sub in blast)
  have same: "x \<notin> fst ` set (take k ws) \<Longrightarrow> d ! x = memdisk s ! x" for x
    unfolding d_def by (rule apply_writes_other)
  have "head_n (d ! lg_start s) = 0"
    using I(8) same [of "lg_start s"] sub by (fastforce simp: disk_head_def)
  from recover_empty [OF I(2) _ len this] obtain r where
    r: "recover_from_log (crash_boot s d) = Inr r" "\<forall>x. home_ok s x \<longrightarrow> memdisk r ! x = d ! x" "head_n (disk_head r) = 0"
    by (auto simp: d_def)
  have "memdisk r ! x = hv s x" if "home_ok s x" for x
  proof -
    have "x \<notin> fst ` set (take k ws)" using sub that by (auto simp: home_ok_def)
    then show ?thesis using r(2) that same tx_restD(6) [OF R] by simp
  qed
  then show ?thesis using r unfolding d_def by blast
qed

text \<open>The whole story for any body that obeys the protocol: it commits, and a crash at any point leaves
  all of the old blocks or all of the new ones.\<close>

lemma body_atomic:
  assumes R: "tx_rest s" and e: "eff (s\<lparr>lg_busy := True\<rparr>) T s1" and room: "room (s\<lparr>lg_busy := True\<rparr>) T"
    and more: "log_state.more s1 = log_state.more s"
  shows "\<exists>s2 W. commit_trans s1 = Inr s2 \<and> tx_rest s2 \<and> writes s2 = writes s @ W \<and> home_ok s2 = home_ok s \<and>
    log_state.more s2 = log_state.more s \<and>
    (\<forall>x. home_ok s x \<longrightarrow> hv s2 x = hv s1 x \<and> memdisk s2 ! x = hv s1 x) \<and>
    (\<forall>k. \<exists>r. recover_from_log (crash_boot s (apply_writes (take k W) (memdisk s))) = Inr r \<and>
      ((\<forall>x. home_ok s x \<longrightarrow> memdisk r ! x = hv s x) \<or> (\<forall>x. home_ok s x \<longrightarrow> memdisk r ! x = hv s1 x)) \<and>
      head_n (disk_head r) = 0)"
proof -
  note I = log_invD [OF tx_restD(1) [OF R]]
  have inv1: "log_inv s1" "busyS s1 = {}" "home_ok s1 = home_ok s"
    using e tx_restD(3) [OF R] eff_home(1) [OF e] by (simp_all add: eff_def)
  from e obtain ws where ws: "writes s1 = writes s @ ws" "memdisk s1 = apply_writes ws (memdisk s)" "log_only s ws"
      "lg_start s1 = lg_start s" "lg_size s1 = lg_size s" "lg_dev s1 = lg_dev s"
    by (auto simp: eff_def tx_frame_def log_only_def)
  have cb: "crash_boot s1 = crash_boot s" by (rule ext) (rule crash_boot_cong [OF ws(4-6) more])
  have "lg_n s1 < int NBUF"
    using room_card [OF room_eff [OF room e]] logged_facts(4) [OF inv1(1)] inv1(2) by simp
  from commit_to_rest [OF inv1(1,2) this] obtain s2 cs where
    s2: "commit_trans s1 = Inr s2" "tx_rest s2" "home_ok s2 = home_ok s" "log_state.more s2 = log_state.more s"
      "\<forall>x. home_ok s x \<longrightarrow> hv s2 x = hv s1 x \<and> memdisk s2 ! x = hv s1 x"
      "writes s2 = writes s @ ws @ cs" "cs = commit_writes s1 \<or> cs = []"
    using ws(1) more inv1(3) by auto
  have crash: "\<exists>r. recover_from_log (crash_boot s (apply_writes (take k (ws @ cs)) (memdisk s))) = Inr r \<and>
      ((\<forall>x. home_ok s x \<longrightarrow> memdisk r ! x = hv s x) \<or> (\<forall>x. home_ok s x \<longrightarrow> memdisk r ! x = hv s1 x)) \<and>
      head_n (disk_head r) = 0" for k
  proof (cases "k \<le> length ws \<or> cs = []")
    case True
    then have "take k (ws @ cs) = take k ws" by auto
    then show ?thesis using body_crash [OF R ws(3), of k] by auto
  next
    case False
    then have cs: "cs = commit_writes s1" and k: "length ws < k" using s2(7) by auto
    have d: "apply_writes (take k (ws @ cs)) (memdisk s) = apply_writes (take (k - length ws) (commit_writes s1)) (memdisk s1)"
      using k by (simp add: ws(2) cs)
    have old: "memdisk s1 ! x = hv s x" if "home_ok s x" for x
      using apply_writes_other [of x ws "memdisk s"] ws(2,3) that tx_restD(6) [OF R that]
      by (fastforce simp: log_only_def home_ok_def)
    have new: "view s1 x = hv s1 x" if "home_ok s x" for x
      using that inv1(3) by (metis hv_def home_ok_def)
    show ?thesis
      using commit_crash [OF inv1(1,2), of "k - length ws"] old new unfolding d cb inv1(3) by auto
  qed
  show ?thesis using s2 crash by (intro exI [of _ s2] exI [of _ "ws @ cs"]) auto
qed

text \<open>C1: Atomic, durable transactions. From rest, a sequence of updates of fewer distinct home blocks than \<open>tx_cap\<close> (nine, with the log of ten
  blocks that \<open>mkfs\<close> makes) runs as a transaction to the end, leaves exactly the updated blocks on the disk, and
  if the machine stops after any number of its disk writes, recovery brings back all of the old
  blocks or all of the new ones.\<close>

theorem transaction_crash_atomic:
  assumes R: "tx_rest s" and us: "\<And>n f. (n, f) \<in> set us \<Longrightarrow> home_ok s n"
      "\<And>n f d. (n, f) \<in> set us \<Longrightarrow> length d = BSIZE \<Longrightarrow> length (f d) = BSIZE"
    and few: "card (fst ` set us) < tx_cap s"
  shows "\<exists>s' W. transact us s = Inr s' \<and> tx_rest s' \<and> writes s' = writes s @ W \<and>
    (\<forall>x. home_ok s x \<longrightarrow> memdisk s' ! x = apply_upds us (hv s) x) \<and>
    (\<forall>k. \<exists>r. recover_from_log (crash_boot s (apply_writes (take k W) (memdisk s))) = Inr r \<and>
      ((\<forall>x. home_ok s x \<longrightarrow> memdisk r ! x = hv s x) \<or>
       (\<forall>x. home_ok s x \<longrightarrow> memdisk r ! x = apply_upds us (hv s) x)) \<and>
      head_n (disk_head r) = 0)"
proof -
  define T where "T = fst ` set us"
  define s0 where "s0 = s\<lparr>lg_busy := True\<rparr>"
  note B = begin_trans_effect [OF R, folded s0_def]
  have rm: "room s0 T" using B(4) few by (simp add: T_def)
  have h0: "home_ok s0 = home_ok s" "busyS s0 = {}" using tx_restD(3) [OF R] by (simp_all add: s0_def)
  have ok: "(n, f) \<in> set us \<Longrightarrow> home_ok s0 n \<and> n \<notin> busyS s0 \<and> n \<in> T" for n f
    using us(1) h0 by (force simp: T_def)
  have "\<exists>s1. tx.upds us s0 = Inr s1 \<and> eff s0 T s1 \<and> hv s1 = apply_upds us (hv s0) \<and>
      log_state.more s1 = log_state.more s0"
    by (rule tx.upds_effect [OF rm]) (use ok us(2) in blast)+
  then obtain s1 where s1: "tx.upds us s0 = Inr s1" "eff s0 T s1" "hv s1 = apply_upds us (hv s0)"
      "log_state.more s1 = log_state.more s0" by blast
  have "log_state.more s1 = log_state.more s" using s1(4) by (simp add: s0_def)
  from body_atomic [OF R s1(2) [unfolded s0_def] rm [unfolded s0_def] this] obtain s2 W where
    s2: "commit_trans s1 = Inr s2" "tx_rest s2" "writes s2 = writes s @ W"
      "\<forall>x. home_ok s x \<longrightarrow> hv s2 x = hv s1 x \<and> memdisk s2 ! x = hv s1 x"
      "\<forall>k. \<exists>r. recover_from_log (crash_boot s (apply_writes (take k W) (memdisk s))) = Inr r \<and>
      ((\<forall>x. home_ok s x \<longrightarrow> memdisk r ! x = hv s x) \<or> (\<forall>x. home_ok s x \<longrightarrow> memdisk r ! x = hv s1 x)) \<and>
      head_n (disk_head r) = 0"
    by blast
  have "transact us s = Inr s2" unfolding transact_def B(1) using s1(1) s2(1) by simp
  then show ?thesis using s2 s1(3) B(3) by auto
qed

text \<open>A freshly booted machine with an empty disk of 13 blocks, the last ten of them the log.\<close>

definition demo_rest :: log_state where
  "demo_rest = binit \<lparr>memdisk = replicate 13 (replicate BSIZE 0), writes = [], bufs = [], lru = [],
     lg_start = 3, lg_size = 10, lg_busy = False, lg_dev = 1, lg_n = 0, lg_sector = replicate LOGSIZE 0\<rparr>"

lemma demo_rest_facts: "tx_rest demo_rest" "home_ok demo_rest n \<longleftrightarrow> n < 3" "tx_cap demo_rest = 9"
proof -
  define s :: log_state where "s = \<lparr>memdisk = replicate 13 (replicate BSIZE 0), writes = [], bufs = [], lru = [],
     lg_start = 3, lg_size = 10, lg_busy = False, lg_dev = 1, lg_n = 0, lg_sector = replicate LOGSIZE 0\<rparr>"
  have d: "demo_rest = binit s" by (simp add: demo_rest_def s_def)
  have b: "bio_inv demo_rest" "busyS demo_rest = {}" "dirtyS demo_rest = {}"
    unfolding d by (rule binit_effect; simp add: s_def)+
  have f: "memdisk demo_rest = replicate 13 (replicate BSIZE 0)" "lg_start demo_rest = 3" "lg_size demo_rest = 10"
    "lg_dev demo_rest = 1" "lg_n demo_rest = 0" "\<not> lg_busy demo_rest" "length (lg_sector demo_rest) = LOGSIZE"
    by (simp_all add: d s_def binit_def)
  have "slice 0 4 (replicate BSIZE (0 :: byte)) = replicate 4 0" by (simp add: slice_def BSIZE_def)
  then have "get_u32 0 (replicate BSIZE 0) = 0" by (simp add: get_u32_def numeral_eq_Suc)
  then have "head_n (disk_head demo_rest) = 0" by (simp add: disk_head_def head_n_def f)
  then show "tx_rest demo_rest" using b f by (intro tx_rest_clean) (auto simp: log_geom_def LOGSIZE_def)
  show "home_ok demo_rest n \<longleftrightarrow> n < 3" by (auto simp: home_ok_def in_log_def f)
  show "tx_cap demo_rest = 9" by (simp add: tx_cap_def lcap_def f NBUF_def LOGSIZE_def)
qed

theorem transaction_crash_atomic_witness:
  "\<exists>s' W. transact [(0, \<lambda>d. replicate BSIZE 7), (2, put_u32 8 5)] demo_rest = Inr s' \<and> tx_rest s' \<and>
    writes s' = writes demo_rest @ W \<and> memdisk s' ! 0 = replicate BSIZE 7"
proof -
  let ?us = "[(0 :: nat, \<lambda>d. replicate BSIZE 7), (2, put_u32 8 5)]"
  have "\<exists>s' W. transact ?us demo_rest = Inr s' \<and> tx_rest s' \<and> writes s' = writes demo_rest @ W \<and>
    (\<forall>x. home_ok demo_rest x \<longrightarrow> memdisk s' ! x = apply_upds ?us (hv demo_rest) x) \<and>
    (\<forall>k. \<exists>r. recover_from_log (crash_boot demo_rest (apply_writes (take k W) (memdisk demo_rest))) = Inr r \<and>
      ((\<forall>x. home_ok demo_rest x \<longrightarrow> memdisk r ! x = hv demo_rest x) \<or>
       (\<forall>x. home_ok demo_rest x \<longrightarrow> memdisk r ! x = apply_upds ?us (hv demo_rest) x)) \<and>
      head_n (disk_head r) = 0)"
    by (rule transaction_crash_atomic [OF demo_rest_facts(1)])
      (auto simp: demo_rest_facts(2,3) BSIZE_def)
  then show ?thesis using demo_rest_facts(2) [of 0] by fastforce
qed

end
