(* ===== verification/Fs_Blocks.thy ===== *)
theory Fs_Blocks
  imports Transaction
begin

unbundle bit_operations_syntax

text \<open>
  The block layer of \<open>kernel/fs.c\<close>: \<open>readsb\<close> (defined in theory Log), \<open>bzero\<close>, \<open>balloc\<close>, \<open>bfree\<close>
  and the bitmap statistics \<open>get_number_of_used_blocks\<close>. \<open>used s b\<close> reads the bitmap bit of block \<open>b\<close>.
  The lemmas say which bit an operation finds and changes, and that no block other than the
  bitmap block and the allocated block is touched. Two results are about failures: a full
  bitmap panics, and the statistics count only the blocks whose number is a multiple of eight.
\<close>

declare One_nat_def [simp del]

section \<open>Layout\<close>

definition BPB :: nat where "BPB = BSIZE * 8"
definition IPB :: nat where "IPB = 16"

text \<open>\<open>BBLOCK\<close> and \<open>IBLOCK\<close> are passed as \<open>uint\<close>.\<close>

definition BBLOCK :: "nat \<Rightarrow> nat \<Rightarrow> nat" where
  "BBLOCK b ninodes = (b div BPB + ninodes div IPB + 3) mod 2 ^ 32"

definition IBLOCK :: "nat \<Rightarrow> nat" where
  "IBLOCK i = (i div IPB + 2) mod 2 ^ 32"

text \<open>\<open>data[bi/8] & m\<close>, \<open>data[bi/8] |= m\<close> and \<open>data[bi/8] &= ~m\<close> with \<open>m = 1 << (bi % 8)\<close>.\<close>

definition bm_and :: "byte list \<Rightarrow> nat \<Rightarrow> byte" where
  "bm_and d bi = d ! (bi div 8) AND push_bit (bi mod 8) 1"

definition bm_set :: "nat \<Rightarrow> byte list \<Rightarrow> byte list" where
  "bm_set bi d = d[bi div 8 := d ! (bi div 8) OR push_bit (bi mod 8) 1]"

definition bm_clear :: "nat \<Rightarrow> byte list \<Rightarrow> byte list" where
  "bm_clear bi d = d[bi div 8 := d ! (bi div 8) AND NOT (push_bit (bi mod 8) 1)]"

section \<open>Operations\<close>

definition bzero :: "nat \<Rightarrow> nat \<Rightarrow> 'a log_state_scheme \<Rightarrow> 'a log_state_scheme res" where
  "bzero dev bno s = res_bind (bread dev bno s) (\<lambda>(bp, s).
     res_bind (log_write bp (set_data bp (replicate BSIZE 0) s)) (\<lambda>s. brelse bp s))"

text \<open>The outer loop runs over the starts \<open>b\<close> of the bitmap blocks, the inner one over the bits of one.\<close>

definition bm_starts :: "nat \<Rightarrow> nat list" where
  "bm_starts sz = map (\<lambda>i. i * BPB) [0..<(sz + BPB - 1) div BPB]"

fun balloc_loop :: "nat \<Rightarrow> superblock \<Rightarrow> nat list \<Rightarrow> 'a log_state_scheme \<Rightarrow> (nat \<times> 'a log_state_scheme) res" where
  "balloc_loop dev sb [] s = Inl (Panic ''balloc: out of blocks'')"
| "balloc_loop dev sb (b # bs) s =
     res_bind (bread dev (BBLOCK b (sb_ninodes sb)) s) (\<lambda>(bp, s).
       case find (\<lambda>bi. bm_and (buf_data bp s) bi = 0) [0..<min BPB (sb_size sb - b)] of
         Some bi \<Rightarrow>
           res_bind (log_write bp (set_data bp (bm_set bi (buf_data bp s)) s)) (\<lambda>s.
           res_bind (brelse bp s) (\<lambda>s.
           res_bind (bzero dev (b + bi) s) (\<lambda>s. Inr (b + bi, s))))
       | None \<Rightarrow> res_bind (brelse bp s) (balloc_loop dev sb bs))"

definition balloc :: "nat \<Rightarrow> 'a log_state_scheme \<Rightarrow> (nat \<times> 'a log_state_scheme) res" where
  "balloc dev s = res_bind (readsb dev s) (\<lambda>(sb, s). balloc_loop dev sb (bm_starts (sb_size sb)) s)"

definition bfree :: "nat \<Rightarrow> nat \<Rightarrow> 'a log_state_scheme \<Rightarrow> 'a log_state_scheme res" where
  "bfree dev b s = res_bind (readsb dev s) (\<lambda>(sb, s).
     res_bind (bread dev (BBLOCK b (sb_ninodes sb)) s) (\<lambda>(bp, s).
       let bi = b mod BPB
       in if bm_and (buf_data bp s) bi = 0 then Inl (Panic ''freeing free block'')
          else res_bind (log_write bp (set_data bp (bm_clear bi (buf_data bp s)) s)) (\<lambda>s. brelse bp s)))"

text \<open>\<open>get_number_of_used_blocks\<close>: the test is \<open>(data[bi/8] & m) == 1\<close>.\<close>

fun used_blocks_loop :: "nat \<Rightarrow> superblock \<Rightarrow> nat list \<Rightarrow> nat \<Rightarrow> 'a log_state_scheme \<Rightarrow> (nat \<times> 'a log_state_scheme) res" where
  "used_blocks_loop dev sb [] n s = Inr (n, s)"
| "used_blocks_loop dev sb (b # bs) n s =
     res_bind (bread dev (BBLOCK b (sb_ninodes sb)) s) (\<lambda>(bp, s).
       let n = n + length (filter (\<lambda>bi. bm_and (buf_data bp s) bi = 1) [0..<min BPB (sb_size sb - b)])
       in res_bind (brelse bp s) (used_blocks_loop dev sb bs n))"

definition get_number_of_used_blocks :: "nat \<Rightarrow> 'a log_state_scheme \<Rightarrow> (nat \<times> 'a log_state_scheme) res" where
  "get_number_of_used_blocks dev s = res_bind (readsb dev s) (\<lambda>(sb, s).
     used_blocks_loop dev sb (bm_starts (sb_size sb)) 0 s)"

section \<open>Bits of the bitmap\<close>

lemma bm_and_bit: "bm_and d bi \<noteq> 0 \<longleftrightarrow> bit (d ! (bi div 8)) (bi mod 8)"
  unfolding bm_and_def by (simp add: bit_iff_and_push_bit_not_eq_0)

lemma bm_and_one: "bm_and d bi = 1 \<longleftrightarrow> bi mod 8 = 0 \<and> bit (d ! (bi div 8)) 0"
proof -
  have eq: "bm_and d bi = (if bit (d ! (bi div 8)) (bi mod 8) then push_bit (bi mod 8) 1 else 0)"
    unfolding bm_and_def by (rule bit_eqI) (auto simp: bit_simps)
  have "push_bit k (1 :: byte) = 1 \<longleftrightarrow> k = 0" if "k < 8" for k
  proof
    assume "push_bit k (1 :: byte) = 1"
    then have "bit (push_bit k (1 :: byte)) k \<longleftrightarrow> bit (1 :: byte) k" by simp
    with that show "k = 0" by (simp add: bit_simps)
  qed simp
  then show ?thesis unfolding eq by auto
qed

lemma bm_and_set:
  assumes "bi div 8 < length d"
  shows "bm_and (bm_set bi d) bj \<noteq> 0 \<longleftrightarrow> bj = bi \<or> bm_and d bj \<noteq> 0"
proof (cases "bj div 8 = bi div 8")
  case True
  then have "bj = bi \<longleftrightarrow> bj mod 8 = bi mod 8" by (metis div_mult_mod_eq)
  then show ?thesis
    using assms True unfolding bm_and_bit
    by (auto simp: bm_set_def bit_simps)
next
  case False
  then show ?thesis using assms unfolding bm_and_bit by (auto simp: bm_set_def)
qed

lemma bm_and_clear:
  assumes "bi div 8 < length d"
  shows "bm_and (bm_clear bi d) bj \<noteq> 0 \<longleftrightarrow> bj \<noteq> bi \<and> bm_and d bj \<noteq> 0"
proof (cases "bj div 8 = bi div 8")
  case True
  then have "bj = bi \<longleftrightarrow> bj mod 8 = bi mod 8" by (metis div_mult_mod_eq)
  then show ?thesis
    using assms True unfolding bm_and_bit
    by (auto simp: bm_clear_def bit_simps)
next
  case False
  then show ?thesis using assms unfolding bm_and_bit by (auto simp: bm_clear_def)
qed

lemma length_bm [simp]: "length (bm_set bi d) = length d" "length (bm_clear bi d) = length d"
  by (simp_all add: bm_set_def bm_clear_def)

section \<open>The bitmap of a state\<close>

definition sbof :: "'a log_state_scheme \<Rightarrow> superblock" where
  "sbof s = dec_superblock (hv s 1)"

definition bmblk :: "'a log_state_scheme \<Rightarrow> nat \<Rightarrow> nat" where
  "bmblk s b = BBLOCK b (sb_ninodes (sbof s))"

definition bmS :: "'a log_state_scheme \<Rightarrow> nat set" where
  "bmS s = bmblk s ` {..<sb_size (sbof s)}"

definition used :: "'a log_state_scheme \<Rightarrow> nat \<Rightarrow> bool" where
  "used s b \<longleftrightarrow> bm_and (hv s (bmblk s b)) (b mod BPB) \<noteq> 0"

text \<open>The metadata blocks: the unused block 0, the superblock, the inodes and the bitmap.\<close>

definition metaS :: "'a log_state_scheme \<Rightarrow> nat set" where
  "metaS s = insert 0 (insert 1 (IBLOCK ` {..<sb_ninodes (sbof s)} \<union> bmS s))"

text \<open>A well-formed file-system image: the metadata lies outside the log, and the blocks that the bitmap
  calls free are not metadata. \<open>mkfs\<close> leaves the blocks of the log free in the bitmap: then they lie behind every
  home block, so that \<open>balloc\<close> reaches them only when the home blocks are used up.\<close>

definition bm_geom :: "'a log_state_scheme \<Rightarrow> bool" where
  "bm_geom s \<longleftrightarrow> log_inv s \<and>
     sb_size (sbof s) div BPB + sb_ninodes (sbof s) div IPB + 3 < length (memdisk s) \<and>
     (\<forall>x \<in> metaS s. home_ok s x) \<and>
     (\<forall>b < sb_size (sbof s). \<not> used s b \<longrightarrow> b \<notin> metaS s \<and> (\<forall>c. home_ok s c \<and> b \<le> c \<longrightarrow> home_ok s b))"

text \<open>The buffers the caller holds are not the allocator's business.\<close>

definition held_ok :: "'a log_state_scheme \<Rightarrow> bool" where
  "held_ok s \<longleftrightarrow> (\<forall>x \<in> busyS s. x \<noteq> 1 \<and> x \<notin> bmS s \<and> (x < sb_size (sbof s) \<longrightarrow> used s x))"

lemma bmblk_eq:
  assumes "bm_geom s" "b < sb_size (sbof s)"
  shows "bmblk s b = b div BPB + sb_ninodes (sbof s) div IPB + 3"
proof -
  have "b div BPB \<le> sb_size (sbof s) div BPB" using assms(2) by (simp add: div_le_mono)
  moreover have "length (memdisk s) < 2 ^ 31" using assms(1) log_invD(2) by (auto simp: bm_geom_def log_geom_def)
  ultimately show ?thesis using assms(1) by (simp add: bmblk_def BBLOCK_def bm_geom_def)
qed

lemma bm_geom_home:
  assumes "bm_geom s"
  shows "home_ok s 1" "x \<in> metaS s \<Longrightarrow> home_ok s x" "b < sb_size (sbof s) \<Longrightarrow> bmblk s b \<in> bmS s"
    "bmS s \<subseteq> metaS s" "1 \<in> metaS s" "1 \<notin> bmS s"
proof -
  show "home_ok s 1" "x \<in> metaS s \<Longrightarrow> home_ok s x" "b < sb_size (sbof s) \<Longrightarrow> bmblk s b \<in> bmS s"
    "bmS s \<subseteq> metaS s" "1 \<in> metaS s"
    using assms by (auto simp: bm_geom_def metaS_def bmS_def)
  show "1 \<notin> bmS s" using bmblk_eq [OF assms] by (fastforce simp: bmS_def)
qed

lemma finite_bmS [simp]: "finite (bmS s)" by (simp add: bmS_def)

lemma used_block: "b = i * BPB \<Longrightarrow> bi < BPB \<Longrightarrow> b + bi < sb_size (sbof s) \<Longrightarrow>
  bmblk s (b + bi) = bmblk s b \<and> (used s (b + bi) \<longleftrightarrow> bm_and (hv s (bmblk s b)) bi \<noteq> 0)"
  by (simp add: used_def bmblk_def BBLOCK_def)

text \<open>Changing one bitmap bit and data blocks changes exactly that bit.\<close>

lemma bitmap_upd:
  assumes g: "bm_geom s" and n: "n < sb_size (sbof s)" and fr: "tx_frame s s'" and inv: "log_inv s'"
    and bm: "hv s' (bmblk s n) = d" and len: "length (hv s (bmblk s n)) = BSIZE"
    and oth: "\<And>x. x \<in> metaS s \<Longrightarrow> x \<noteq> bmblk s n \<Longrightarrow> hv s' x = hv s x"
    and bits: "\<And>bj. bm_and d bj \<noteq> 0 \<longleftrightarrow> (if bj = n mod BPB then v else bm_and (hv s (bmblk s n)) bj \<noteq> 0)"
    and ok: "\<not> v \<Longrightarrow> home_ok s n \<and> n \<notin> metaS s"
  shows "sbof s' = sbof s" "bmS s' = bmS s" "metaS s' = metaS s" "bm_geom s'"
    "b < sb_size (sbof s) \<Longrightarrow> used s' b \<longleftrightarrow> (if b = n then v else used s b)"
proof -
  note H = bm_geom_home [OF g] and F = tx_frame_home [OF fr]
  have "1 \<noteq> bmblk s n" using H(3) [OF n] H(6) by auto
  then show sb: "sbof s' = sbof s" using oth [OF H(5)] by (simp add: sbof_def)
  then show bm': "bmS s' = bmS s" "metaS s' = metaS s" by (auto simp: bmS_def metaS_def bmblk_def)
  have us: "used s' b \<longleftrightarrow> (if b = n then v else used s b)" if b: "b < sb_size (sbof s)" for b
  proof (cases "bmblk s b = bmblk s n")
    case True
    then have dv: "b div BPB = n div BPB" using bmblk_eq [OF g] n b by simp
    have "b = n" if "b mod BPB = n mod BPB" using dv that by (metis div_mult_mod_eq)
    then show ?thesis using bm bits True by (auto simp: used_def bmblk_def sb)
  next
    case False
    have "bmblk s b \<in> metaS s" using H(3) [OF b] H(4) by blast
    then show ?thesis using oth [OF _ False] False by (auto simp: used_def bmblk_def sb)
  qed
  then show "b < sb_size (sbof s) \<Longrightarrow> used s' b \<longleftrightarrow> (if b = n then v else used s b)" for b .
  show "bm_geom s'"
    unfolding bm_geom_def sb bm' F tx_frame_disk [OF fr] using inv g us ok by (auto simp: bm_geom_def split: if_splits)
qed

section \<open>Effects\<close>

lemma readsb_effect:
  assumes "bm_geom s" "1 \<notin> busyS s" "card (busyS s \<union> dirtyS s) < NBUF"
  shows "\<exists>s'. readsb 1 s = Inr (sbof s, s') \<and> eff s {} s' \<and> hv s' = hv s \<and> bio_state.more s' = bio_state.more s"
  using tx_peek [OF _ bm_geom_home(1) [OF assms(1)] assms(2,3)] assms(1)
  unfolding readsb_def bm_geom_def sbof_def by fastforce

text \<open>Reading a bitmap block in the loop of \<open>balloc\<close>.\<close>

lemma bitmap_peek:
  assumes "bm_geom s" "held_ok s" "card (busyS s \<union> dirtyS s) < NBUF" "b < sb_size (sbof s)"
  shows "\<exists>i s1 s'. bread 1 (bmblk s b) s = Inr (i, s1) \<and> buf_data i s1 = hv s (bmblk s b) \<and> brelse i s1 = Inr s' \<and>
    eff s {} s' \<and> hv s' = hv s \<and> bio_state.more s1 = bio_state.more s \<and> bio_state.more s' = bio_state.more s"
proof (rule tx_peek)
  have "bmblk s b \<in> bmS s" using assms(4) by (simp add: bmS_def)
  then show "home_ok s (bmblk s b)" "bmblk s b \<notin> busyS s"
    using assms(2) bm_geom_home(2,4) [OF assms(1)] by (auto simp: held_ok_def)
qed (use assms in \<open>auto simp: bm_geom_def\<close>)

lemma eff_same:
  assumes "eff s T s'" "hv s' = hv s"
  shows "sbof s' = sbof s" "bmblk s' = bmblk s" "bmS s' = bmS s" "metaS s' = metaS s" "used s' = used s"
    "bm_geom s \<Longrightarrow> bm_geom s'" "held_ok s \<Longrightarrow> held_ok s'"
proof -
  show sb: "sbof s' = sbof s" using assms(2) by (simp add: sbof_def)
  show b: "bmblk s' = bmblk s" by (simp add: bmblk_def sb fun_eq_iff)
  show m: "bmS s' = bmS s" "metaS s' = metaS s" by (simp_all add: bmS_def metaS_def sb b)
  show u: "used s' = used s" by (simp add: used_def b assms(2) fun_eq_iff)
  have "log_inv s'" "length (memdisk s') = length (memdisk s)"
    using assms(1) tx_frame_disk [OF eff_frame [OF assms(1)]] by (simp_all add: eff_def)
  then show "bm_geom s \<Longrightarrow> bm_geom s'" by (simp add: bm_geom_def sb m u eff_home [OF assms(1)])
  show "held_ok s \<Longrightarrow> held_ok s'" by (simp add: held_ok_def sb m u eff_home [OF assms(1)])
qed

text \<open>Changes outside the superblock and the bitmap leave the allocator's view alone.\<close>

lemma bitmap_same:
  assumes g: "bm_geom s" and e: "eff s T s'" and same: "\<And>x. x = 1 \<or> x \<in> bmS s \<Longrightarrow> hv s' x = hv s x"
  shows "sbof s' = sbof s" "bmblk s' = bmblk s" "bmS s' = bmS s" "metaS s' = metaS s"
    "b < sb_size (sbof s) \<Longrightarrow> used s' b = used s b" "bm_geom s'" "held_ok s \<Longrightarrow> held_ok s'"
proof -
  show sb: "sbof s' = sbof s" using same by (simp add: sbof_def)
  show b: "bmblk s' = bmblk s" by (simp add: bmblk_def sb fun_eq_iff)
  show m: "bmS s' = bmS s" "metaS s' = metaS s" by (simp_all add: bmS_def metaS_def sb b)
  have u: "b < sb_size (sbof s) \<Longrightarrow> used s' b = used s b" for b
    using same bm_geom_home(3) [OF g] by (simp add: used_def b)
  then show "b < sb_size (sbof s) \<Longrightarrow> used s' b = used s b" .
  have "log_inv s'" "length (memdisk s') = length (memdisk s)"
    using e tx_frame_disk [OF eff_frame [OF e]] by (simp_all add: eff_def)
  then show "bm_geom s'" using g u by (simp add: bm_geom_def sb m eff_home [OF e])
  show "held_ok s \<Longrightarrow> held_ok s'" using u by (simp add: held_ok_def sb m eff_home [OF e])
qed

lemma iblock_meta:
  assumes "bm_geom s" "i < sb_ninodes (sbof s)"
  shows "IBLOCK i \<in> metaS s" "IBLOCK i \<noteq> 1" "IBLOCK i \<notin> bmS s" "home_ok s (IBLOCK i)"
proof -
  show m: "IBLOCK i \<in> metaS s" using assms(2) by (simp add: metaS_def)
  then show "home_ok s (IBLOCK i)" by (rule bm_geom_home(2) [OF assms(1)])
  have "length (memdisk s) < 2 ^ 31" using assms(1) log_invD(2) by (auto simp: bm_geom_def log_geom_def)
  moreover have "i div IPB \<le> sb_ninodes (sbof s) div IPB" using assms(2) by (simp add: div_le_mono)
  ultimately have eq: "IBLOCK i = i div IPB + 2" using assms(1) by (simp add: IBLOCK_def bm_geom_def)
  then show "IBLOCK i \<noteq> 1" by simp
  show "IBLOCK i \<notin> bmS s"
    using eq bmblk_eq [OF assms(1)] \<open>i div IPB \<le> sb_ninodes (sbof s) div IPB\<close> by (auto simp: bmS_def)
qed

lemma bzero_update: "bzero 1 n s = log_update n (\<lambda>_. replicate BSIZE 0) s"
  unfolding bzero_def log_update_def by (rule res_bind_cong) auto

text \<open>Marking block \<open>n\<close> and zeroing it.\<close>

lemma alloc_block:
  assumes g: "bm_geom s" "held_ok s" and sl: "slack s (bmS s) 1" and n: "n < sb_size (sbof s)" "\<not> used s n" "home_ok s n"
  shows "\<exists>s1 s'. log_update (bmblk s n) (bm_set (n mod BPB)) s = Inr s1 \<and> bzero 1 n s1 = Inr s' \<and>
    eff s (bmS s \<union> {n}) s' \<and> bm_geom s' \<and> sbof s' = sbof s \<and> bmS s' = bmS s \<and> metaS s' = metaS s \<and>
    (\<forall>b < sb_size (sbof s). used s' b \<longleftrightarrow> b = n \<or> used s b) \<and>
    hv s' = (hv s)(bmblk s n := bm_set (n mod BPB) (hv s (bmblk s n)), n := replicate BSIZE 0) \<and>
    log_state.more s' = log_state.more s"
proof -
  note H = bm_geom_home [OF g(1)]
  have inv: "log_inv s" using g(1) by (simp add: bm_geom_def)
  have m: "bmblk s n \<in> bmS s" "home_ok s (bmblk s n)" "bmblk s n \<notin> busyS s"
    using H(2-4) n(1) g(2) by (auto simp: held_ok_def)
  have len: "length (hv s (bmblk s n)) = BSIZE" by (rule hv_length [OF inv m(2)])
  have nn: "home_ok s n" "n \<notin> metaS s" "n \<notin> busyS s" using g n by (auto simp: bm_geom_def held_ok_def)
  have rm: "room s (bmS s \<union> {n})" using slack_room [OF sl, of "{n}"] by simp
  have ln: "length (bm_set (n mod BPB) (hv s (bmblk s n))) = BSIZE" using len by simp
  have "\<exists>s1. log_update (bmblk s n) (bm_set (n mod BPB)) s = Inr s1 \<and> eff s (bmS s \<union> {n}) s1 \<and>
      hv s1 = (hv s)(bmblk s n := bm_set (n mod BPB) (hv s (bmblk s n))) \<and> log_state.more s1 = log_state.more s"
    by (rule tx_update [OF rm m(2,3)]) (use m(1) ln in simp_all)
  then obtain s1 where s1: "log_update (bmblk s n) (bm_set (n mod BPB)) s = Inr s1" "eff s (bmS s \<union> {n}) s1"
      "hv s1 = (hv s)(bmblk s n := bm_set (n mod BPB) (hv s (bmblk s n)))" "log_state.more s1 = log_state.more s"
    by blast
  have "\<exists>s'. log_update n (\<lambda>_. replicate BSIZE 0) s1 = Inr s' \<and> eff s1 (bmS s \<union> {n}) s' \<and>
      hv s' = (hv s1)(n := replicate BSIZE 0) \<and> log_state.more s' = log_state.more s1"
    by (rule tx_update [OF room_eff [OF rm s1(2)]]) (use nn eff_home [OF s1(2)] in simp_all)
  then obtain s' where s': "log_update n (\<lambda>_. replicate BSIZE 0) s1 = Inr s'" "eff s1 (bmS s \<union> {n}) s'"
      "hv s' = (hv s1)(n := replicate BSIZE 0)" "log_state.more s' = log_state.more s1" by blast
  have e: "eff s (bmS s \<union> {n}) s'" using eff_trans_same [OF s1(2) s'(2)] .
  have nb: "bmblk s n \<noteq> n" using m(1) nn(2) H(4) by auto
  have hv': "hv s' = (hv s)(bmblk s n := bm_set (n mod BPB) (hv s (bmblk s n)), n := replicate BSIZE 0)"
    by (simp add: s'(3) s1(3))
  have inv': "log_inv s'" using e by (simp add: eff_def)
  have "n mod BPB div 8 < length (hv s (bmblk s n))"
    using len by (simp add: BPB_def less_mult_imp_div_less BSIZE_def)
  note bits = bm_and_set [OF this]
  have p1: "hv s' (bmblk s n) = bm_set (n mod BPB) (hv s (bmblk s n))" using nb by (simp add: hv')
  have p2: "hv s' x = hv s x" if "x \<in> metaS s" "x \<noteq> bmblk s n" for x using that nn(2) by (auto simp: hv')
  have p3: "bm_and (bm_set (n mod BPB) (hv s (bmblk s n))) bj \<noteq> 0 \<longleftrightarrow>
      (if bj = n mod BPB then True else bm_and (hv s (bmblk s n)) bj \<noteq> 0)" for bj
    by (simp add: bits)
  have p4: "home_ok s n \<and> n \<notin> metaS s" if "\<not> True" using that by simp
  note U = bitmap_upd [OF g(1) n(1) eff_frame [OF e] inv' p1 len p2 p3 p4]
  have "sbof s' = sbof s" "bmS s' = bmS s" "metaS s' = metaS s" "bm_geom s'" by (rule U; assumption)+
  moreover have "\<forall>b < sb_size (sbof s). used s' b \<longleftrightarrow> b = n \<or> used s b" using U(5) by simp
  ultimately show ?thesis using s1 s' e hv' by (auto simp: bzero_update)
qed

lemma bm_starts_split: "map (\<lambda>i. i * BPB) [j..<k] = (if j < k then j * BPB # map (\<lambda>i. i * BPB) [Suc j..<k] else [])"
  by (simp add: upt_conv_Cons)

lemma balloc_loop_step:
  assumes "bread dev (BBLOCK b (sb_ninodes sb)) s = Inr (i, s1)"
    and "find (\<lambda>bi. bm_and (buf_data i s1) bi = 0) [0..<min BPB (sb_size sb - b)] = Some bi" "dev = 1"
    and "log_update (BBLOCK b (sb_ninodes sb)) (bm_set bi) s = Inr s2" "bzero 1 (b + bi) s2 = Inr s'"
  shows "balloc_loop dev sb (b # bs) s = Inr (b + bi, s')"
proof -
  have "res_bind (log_write i (set_data i (bm_set bi (buf_data i s1)) s1)) (brelse i) = Inr s2"
    using assms(1,3,4) by (simp add: log_update_def)
  then obtain s3 where "log_write i (set_data i (bm_set bi (buf_data i s1)) s1) = Inr s3" "brelse i s3 = Inr s2"
    by (auto simp: res_simps)
  then show ?thesis using assms by simp
qed

lemma balloc_loop_effect:
  assumes "bm_geom s" "held_ok s" "slack s (bmS s) 1"
    and "\<And>b. b < j * BPB \<Longrightarrow> b < sb_size (sbof s) \<Longrightarrow> used s b"
    and "\<exists>b < sb_size (sbof s). home_ok s b \<and> \<not> used s b"
  shows "\<exists>n s'. balloc_loop 1 (sbof s) (map (\<lambda>i. i * BPB) [j..<(sb_size (sbof s) + BPB - 1) div BPB]) s = Inr (n, s') \<and>
    n < sb_size (sbof s) \<and> \<not> used s n \<and> home_ok s n \<and> (\<forall>b < n. used s b) \<and>
    eff s (bmS s \<union> {n}) s' \<and> bm_geom s' \<and> sbof s' = sbof s \<and> bmS s' = bmS s \<and> metaS s' = metaS s \<and>
    (\<forall>b < sb_size (sbof s). used s' b \<longleftrightarrow> b = n \<or> used s b) \<and>
    hv s' = (hv s)(bmblk s n := bm_set (n mod BPB) (hv s (bmblk s n)), n := replicate BSIZE 0) \<and>
    log_state.more s' = log_state.more s"
  using assms
proof (induction "(sb_size (sbof s) + BPB - 1) div BPB - j" arbitrary: j s)
  case 0
  from "0.prems"(5) obtain b where b: "b < sb_size (sbof s)" "\<not> used s b" by blast
  have "sb_size (sbof s) \<le> (sb_size (sbof s) + BPB - 1) div BPB * BPB"
    using div_mult_mod_eq [of "sb_size (sbof s) + BPB - 1" BPB] mod_less_divisor [of BPB "sb_size (sbof s) + BPB - 1"]
    by (simp add: BPB_def BSIZE_def)
  also have "\<dots> \<le> j * BPB" using "0.hyps" by simp
  finally show ?case using b "0.prems"(4) by fastforce
next
  case (Suc k)
  define K where "K = (sb_size (sbof s) + BPB - 1) div BPB"
  define b where "b = j * BPB"
  have jK: "j < K" using Suc.hyps(2) by (simp add: K_def)
  have "b + BPB \<le> K * BPB" using mult_le_mono1 [of "Suc j" K BPB] jK by (simp add: b_def)
  moreover have "K * BPB \<le> sb_size (sbof s) + BPB - 1" unfolding K_def by (rule div_times_less_eq_dividend)
  ultimately have bs: "b < sb_size (sbof s)" by (simp add: BPB_def BSIZE_def)
  note g = Suc.prems(1,2) and sl = slackD [OF Suc.prems(3)]
  obtain i s1 s2 where r: "bread 1 (bmblk s b) s = Inr (i, s1)" "buf_data i s1 = hv s (bmblk s b)" "brelse i s1 = Inr s2"
      "eff s {} s2" "hv s2 = hv s" "bio_state.more s2 = bio_state.more s"
    using bitmap_peek [OF g sl(4) bs] by blast
  define P where "P = (\<lambda>bi. bm_and (hv s (bmblk s b)) bi = 0)"
  have P: "P bi \<longleftrightarrow> \<not> used s (b + bi)" "bmblk s (b + bi) = bmblk s b" "(b + bi) mod BPB = bi"
    if "bi < min BPB (sb_size (sbof s) - b)" for bi
    using used_block [of b j bi s] that bs by (auto simp: P_def b_def less_diff_conv)
  have split: "map (\<lambda>i. i * BPB) [j..<K] = b # map (\<lambda>i. i * BPB) [Suc j..<K]"
    using jK by (simp add: upt_conv_Cons b_def)
  show ?case
  proof (cases "find P [0..<min BPB (sb_size (sbof s) - b)]")
    case None
    then have full: "used s (b + bi)" if "bi < BPB" "b + bi < sb_size (sbof s)" for bi
      using that P(1) [of bi] by (auto simp: find_None_iff)
    have run: "balloc_loop 1 (sbof s) (b # bs') s = balloc_loop 1 (sbof s) bs' s2" for bs'
      using r None unfolding P_def bmblk_def by simp
    note E = eff_same [OF r(4,5)] and mr = log_fields_more(7) [OF r(6)]
    have "used s2 c" if "c < Suc j * BPB" "c < sb_size (sbof s2)" for c
    proof (cases "c < b")
      case True
      then show ?thesis using Suc.prems(4) that E(1,5) by (simp add: b_def)
    next
      case False
      then show ?thesis using full [of "c - b"] that E(1,5) by (simp add: b_def)
    qed
    moreover have "slack s2 (bmS s2) 1"
      using slack_eff [of s "bmS s" 0 1 "{}" s2] eff_mono [OF r(4)] Suc.prems(3) E(3) by simp
    ultimately have "\<exists>n s'. balloc_loop 1 (sbof s2) (map (\<lambda>i. i * BPB) [Suc j..<(sb_size (sbof s2) + BPB - 1) div BPB]) s2 = Inr (n, s') \<and>
      n < sb_size (sbof s2) \<and> \<not> used s2 n \<and> home_ok s2 n \<and> (\<forall>b < n. used s2 b) \<and>
      eff s2 (bmS s2 \<union> {n}) s' \<and> bm_geom s' \<and> sbof s' = sbof s2 \<and> bmS s' = bmS s2 \<and> metaS s' = metaS s2 \<and>
      (\<forall>b < sb_size (sbof s2). used s' b \<longleftrightarrow> b = n \<or> used s2 b) \<and>
      hv s' = (hv s2)(bmblk s2 n := bm_set (n mod BPB) (hv s2 (bmblk s2 n)), n := replicate BSIZE 0) \<and>
      log_state.more s' = log_state.more s2"
      using Suc.hyps(2) Suc.prems(5) g E eff_home(1) [OF r(4)] by (intro Suc.hyps(1)) auto
    then obtain n s' where n: "balloc_loop 1 (sbof s) (map (\<lambda>i. i * BPB) [Suc j..<K]) s2 = Inr (n, s')"
      "n < sb_size (sbof s)" "\<not> used s n" "\<forall>b < n. used s b" "eff s2 (bmS s \<union> {n}) s'" "bm_geom s'" "sbof s' = sbof s" "home_ok s n"
      "bmS s' = bmS s" "metaS s' = metaS s" "\<forall>b < sb_size (sbof s). used s' b \<longleftrightarrow> b = n \<or> used s b"
      "hv s' = (hv s)(bmblk s n := bm_set (n mod BPB) (hv s (bmblk s n)), n := replicate BSIZE 0)"
      "log_state.more s' = log_state.more s"
      unfolding E r(5) mr K_def eff_home(1) [OF r(4)] by blast
    have "eff s (bmS s \<union> {n}) s'" using eff_trans [OF r(4) n(5)] by simp
    with n show ?thesis unfolding K_def [symmetric] split run by blast
  next
    case (Some bi)
    then have bi: "bi < min BPB (sb_size (sbof s) - b)" "P bi" "\<forall>c < bi. \<not> P c"
      by (auto simp: find_Some_iff)
    define n where "n = b + bi"
    have nf: "n < sb_size (sbof s)" "\<not> used s n" "n mod BPB = bi" "bmblk s n = bmblk s b"
      using bi P [OF bi(1)] by (auto simp: n_def)
    have first: "used s c" if "c < n" for c
    proof (cases "c < b")
      case True
      then show ?thesis using Suc.prems(4) [of c] bs by (simp add: b_def)
    next
      case False
      have "c - b < bi" using False that by (simp add: n_def)
      then show ?thesis using P(1) [of "c - b"] bi False by simp
    qed
    from Suc.prems(5) obtain c where c: "home_ok s c" "\<not> used s c" by blast
    have ho: "home_ok s n" using g(1) nf(1,2) c first [of c] unfolding bm_geom_def by (meson not_le)
    from alloc_block [OF g Suc.prems(3) nf(1,2) ho] obtain s3 s' where
      s': "log_update (bmblk s n) (bm_set (n mod BPB)) s = Inr s3" "bzero 1 n s3 = Inr s'"
        "eff s (bmS s \<union> {n}) s'" "bm_geom s'" "sbof s' = sbof s" "bmS s' = bmS s" "metaS s' = metaS s"
        "\<forall>b < sb_size (sbof s). used s' b \<longleftrightarrow> b = n \<or> used s b"
        "hv s' = (hv s)(bmblk s n := bm_set (n mod BPB) (hv s (bmblk s n)), n := replicate BSIZE 0)"
        "log_state.more s' = log_state.more s" by blast
    have "balloc_loop 1 (sbof s) (b # map (\<lambda>i. i * BPB) [Suc j..<K]) s = Inr (n, s')"
      unfolding n_def
      by (rule balloc_loop_step [where i = i and ?s1.0 = s1 and ?s2.0 = s3])
        (use r(1,2) Some s'(1,2) nf(3,4) in \<open>simp_all add: bmblk_def P_def n_def\<close>)
    with s' nf ho first show ?thesis unfolding K_def [symmetric] split by blast
  qed
qed

text \<open>What \<open>balloc\<close> leaves behind when it has taken block \<open>n\<close>.\<close>

definition allocated :: "'a log_state_scheme \<Rightarrow> nat \<Rightarrow> 'a log_state_scheme \<Rightarrow> bool" where
  "allocated s n s' \<longleftrightarrow> n < sb_size (sbof s) \<and> \<not> used s n \<and> home_ok s n \<and>
    eff s (bmS s \<union> {n}) s' \<and> bm_geom s' \<and> sbof s' = sbof s \<and> bmS s' = bmS s \<and> metaS s' = metaS s \<and>
    (\<forall>b < sb_size (sbof s). used s' b \<longleftrightarrow> b = n \<or> used s b) \<and>
    hv s' = (hv s)(bmblk s n := bm_set (n mod BPB) (hv s (bmblk s n)), n := replicate BSIZE 0) \<and>
    log_state.more s' = log_state.more s"

lemma balloc_effect:
  assumes g: "bm_geom s" "held_ok s" and sl: "slack s (bmS s) 1" and free: "\<exists>b < sb_size (sbof s). home_ok s b \<and> \<not> used s b"
  shows "\<exists>n s'. balloc 1 s = Inr (n, s') \<and> allocated s n s' \<and> (\<forall>b < n. used s b)"
proof -
  note S = slackD [OF sl]
  have "1 \<notin> busyS s" using g(2) by (auto simp: held_ok_def)
  from readsb_effect [OF g(1) this S(4)] obtain s1 where
    s1: "readsb 1 s = Inr (sbof s, s1)" "eff s {} s1" "hv s1 = hv s" "bio_state.more s1 = bio_state.more s" by blast
  note E = eff_same [OF s1(2,3)] and mr = log_fields_more(7) [OF s1(4)]
  have "slack s1 (bmS s1) 1"
    using slack_eff [of s "bmS s" 0 1 "{}" s1] eff_mono [OF s1(2)] sl E(3) by simp
  from balloc_loop_effect [OF E(6) [OF g(1)] E(7) [OF g(2)] this, of 0] free
  obtain n s' where n: "balloc_loop 1 (sbof s) (bm_starts (sb_size (sbof s))) s1 = Inr (n, s')"
      "n < sb_size (sbof s)" "\<not> used s n" "\<forall>b < n. used s b" "eff s1 (bmS s \<union> {n}) s'" "bm_geom s'" "sbof s' = sbof s" "home_ok s n"
      "bmS s' = bmS s" "metaS s' = metaS s" "\<forall>b < sb_size (sbof s). used s' b \<longleftrightarrow> b = n \<or> used s b"
      "hv s' = (hv s)(bmblk s n := bm_set (n mod BPB) (hv s (bmblk s n)), n := replicate BSIZE 0)"
      "log_state.more s' = log_state.more s"
    unfolding E s1(3) mr bm_starts_def eff_home(1) [OF s1(2)] by auto
  have "eff s (bmS s \<union> {n}) s'" using eff_trans [OF s1(2) n(5)] by simp
  moreover have "balloc 1 s = Inr (n, s')" using s1(1) n(1) by (simp add: balloc_def)
  ultimately show ?thesis using n by (auto simp: allocated_def)
qed

lemma balloc_loop_full:
  assumes "bm_geom s" "held_ok s" "card (busyS s \<union> dirtyS s) < NBUF" "\<And>b. b < sb_size (sbof s) \<Longrightarrow> used s b"
    and "K \<le> (sb_size (sbof s) + BPB - 1) div BPB"
  shows "balloc_loop 1 (sbof s) (map (\<lambda>i. i * BPB) [j..<K]) s = Inl (Panic ''balloc: out of blocks'')"
  using assms
proof (induction "K - j" arbitrary: j s)
  case (Suc k)
  then have jK: "j < K" by simp
  have "(j + 1) * BPB \<le> (sb_size (sbof s) + BPB - 1) div BPB * BPB" using jK Suc.prems(5) by (intro mult_le_mono1) simp
  also have "\<dots> \<le> sb_size (sbof s) + BPB - 1" by (rule div_times_less_eq_dividend)
  finally have bs: "j * BPB < sb_size (sbof s)" by (simp add: BPB_def BSIZE_def)
  obtain i s1 s2 where r: "bread 1 (bmblk s (j * BPB)) s = Inr (i, s1)" "buf_data i s1 = hv s (bmblk s (j * BPB))"
      "brelse i s1 = Inr s2" "eff s {} s2" "hv s2 = hv s"
    using bitmap_peek [OF Suc.prems(1-3) bs] by blast
  note E = eff_same [OF r(4,5)]
  have d: "dirtyS s2 = dirtyS s" using r(4) by (auto simp: eff_def)
  have "find (\<lambda>bi. bm_and (buf_data i s1) bi = 0) [0..<min BPB (sb_size (sbof s) - j * BPB)] = None"
    using used_block [of "j * BPB" j _ s] Suc.prems(4) bs by (auto simp: find_None_iff r(2) less_diff_conv add.commute)
  then have "balloc_loop 1 (sbof s) (j * BPB # bs') s = balloc_loop 1 (sbof s) bs' s2" for bs'
    using r unfolding bmblk_def by simp
  moreover have "balloc_loop 1 (sbof s2) (map (\<lambda>i. i * BPB) [Suc j..<K]) s2 = Inl (Panic ''balloc: out of blocks'')"
    using Suc.hyps(2) Suc.prems E d eff_home(2) [OF r(4)] by (intro Suc.hyps(1)) auto
  ultimately show ?case using jK E(1) by (simp add: upt_conv_Cons)
qed simp

lemma balloc_first_fit_full:
  assumes "bm_geom s" "held_ok s" "slack s (bmS s) 1" "\<forall>b < sb_size (sbof s). used s b"
  shows "balloc 1 s = Inl (Panic ''balloc: out of blocks'')"
proof -
  note S = slackD [OF assms(3)]
  have "1 \<notin> busyS s" using assms(2) by (auto simp: held_ok_def)
  from readsb_effect [OF assms(1) this S(4)] obtain s1 where
    s1: "readsb 1 s = Inr (sbof s, s1)" "eff s {} s1" "hv s1 = hv s" by blast
  note E = eff_same [OF s1(2,3)]
  have "card (busyS s1 \<union> dirtyS s1) < NBUF" using S(4) s1(2) by (auto simp: eff_def)
  from balloc_loop_full [OF E(6) [OF assms(1)] E(7) [OF assms(2)] this _ order_refl, of 0] assms(4)
  show ?thesis by (simp add: balloc_def s1(1) bm_starts_def E)
qed

text \<open>C30: The block allocator is first fit and touches nothing else. If some home block is free, \<open>balloc\<close>
  returns the lowest free block, which is a home block (the blocks of the log may be free in the bitmap as well), marks it in the bitmap, leaves it zeroed and changes no other
  bit and no other block; if no block at all is free it panics.\<close>

theorem balloc_first_fit:
  assumes "bm_geom s" "held_ok s" "slack s (bmS s) 1"
  shows "if \<forall>b < sb_size (sbof s). used s b then balloc 1 s = Inl (Panic ''balloc: out of blocks'')
    else (\<exists>b < sb_size (sbof s). home_ok s b \<and> \<not> used s b) \<longrightarrow>
      (\<exists>n s'. balloc 1 s = Inr (n, s') \<and> \<not> used s n \<and> home_ok s n \<and> (\<forall>b < n. used s b) \<and> bm_geom s' \<and>
      hv s' n = replicate BSIZE 0 \<and> (\<forall>b < sb_size (sbof s). used s' b \<longleftrightarrow> b = n \<or> used s b) \<and>
      (\<forall>x. x \<noteq> n \<and> x \<noteq> bmblk s n \<longrightarrow> hv s' x = hv s x))"
proof (cases "\<forall>b < sb_size (sbof s). used s b")
  case True
  then show ?thesis using balloc_first_fit_full [OF assms] by simp
next
  case False
  show ?thesis unfolding if_not_P [OF False]
  proof
    assume "\<exists>b < sb_size (sbof s). home_ok s b \<and> \<not> used s b"
    then obtain n s' where n: "balloc 1 s = Inr (n, s')" "allocated s n s'" "\<forall>b < n. used s b"
      using balloc_effect [OF assms] by blast
    then show "\<exists>n s'. balloc 1 s = Inr (n, s') \<and> \<not> used s n \<and> home_ok s n \<and> (\<forall>b < n. used s b) \<and> bm_geom s' \<and>
        hv s' n = replicate BSIZE 0 \<and> (\<forall>b < sb_size (sbof s). used s' b \<longleftrightarrow> b = n \<or> used s b) \<and>
        (\<forall>x. x \<noteq> n \<and> x \<noteq> bmblk s n \<longrightarrow> hv s' x = hv s x)"
      unfolding allocated_def by (intro exI [of _ n] exI [of _ s']) simp
  qed
qed

lemma bfree_effect:
  assumes g: "bm_geom s" "held_ok s" and sl: "slack s (bmS s) 0" and b: "b < sb_size (sbof s)" "used s b" "home_ok s b" "b \<notin> metaS s"
  shows "\<exists>s'. bfree 1 b s = Inr s' \<and> eff s (bmS s) s' \<and> bm_geom s' \<and> sbof s' = sbof s \<and> bmS s' = bmS s \<and> metaS s' = metaS s \<and>
    (\<forall>c < sb_size (sbof s). used s' c \<longleftrightarrow> c \<noteq> b \<and> used s c) \<and>
    hv s' = (hv s)(bmblk s b := bm_clear (b mod BPB) (hv s (bmblk s b))) \<and> log_state.more s' = log_state.more s"
proof -
  note S = slackD [OF sl]
  have "1 \<notin> busyS s" using g(2) by (auto simp: held_ok_def)
  from readsb_effect [OF g(1) this S(4)] obtain s1 where
    s1: "readsb 1 s = Inr (sbof s, s1)" "eff s {} s1" "hv s1 = hv s" "bio_state.more s1 = bio_state.more s" by blast
  note E = eff_same [OF s1(2,3)] and mr = log_fields_more(7) [OF s1(4)]
  have rm: "room s1 (bmS s)" using slack_room [OF sl, of "{}"] room_eff eff_mono [OF s1(2)] by fastforce
  have inv1: "log_inv s1" using s1(2) by (simp add: eff_def)
  have m: "bmblk s b \<in> bmS s" "home_ok s1 (bmblk s b)" "bmblk s b \<notin> busyS s1"
    using bm_geom_home(2-4) [OF g(1)] b(1) g(2) eff_home [OF s1(2)] by (auto simp: held_ok_def)
  have len: "length (hv s (bmblk s b)) = BSIZE" using hv_length [OF inv1 m(2)] s1(3) by simp
  have "\<exists>s'. log_update (bmblk s b) (bm_clear (b mod BPB)) s1 = Inr s' \<and> eff s1 (bmS s) s' \<and>
      hv s' = (hv s1)(bmblk s b := bm_clear (b mod BPB) (hv s1 (bmblk s b))) \<and> log_state.more s' = log_state.more s1"
    by (rule tx_update [OF rm m(2,3,1)]) (simp add: s1(3) len)
  then obtain s' where s': "log_update (bmblk s b) (bm_clear (b mod BPB)) s1 = Inr s'" "eff s1 (bmS s) s'"
      "hv s' = (hv s)(bmblk s b := bm_clear (b mod BPB) (hv s (bmblk s b)))" "log_state.more s' = log_state.more s"
    unfolding s1(3) mr by blast
  obtain i s2 where r: "bread 1 (bmblk s b) s1 = Inr (i, s2)" "buf_data i s2 = hv s (bmblk s b)"
    using tx_bread [OF inv1 m(2,3) room_card [OF rm]] s1(3) by auto
  have "bm_and (buf_data i s2) (b mod BPB) \<noteq> 0" using b(2) r(2) by (simp add: used_def)
  then have run: "bfree 1 b s = Inr s'"
    using s1(1) r s'(1) unfolding bfree_def by (simp add: log_update_def bmblk_def Let_def)
  have e: "eff s (bmS s) s'" using eff_trans [OF s1(2) s'(2)] by simp
  have inv': "log_inv s'" using e by (simp add: eff_def)
  have "b mod BPB div 8 < length (hv s (bmblk s b))"
    using len by (simp add: BPB_def less_mult_imp_div_less BSIZE_def)
  note bits = bm_and_clear [OF this]
  have p1: "hv s' (bmblk s b) = bm_clear (b mod BPB) (hv s (bmblk s b))" by (simp add: s'(3))
  have p2: "hv s' x = hv s x" if "x \<in> metaS s" "x \<noteq> bmblk s b" for x using that by (auto simp: s'(3))
  have p3: "bm_and (bm_clear (b mod BPB) (hv s (bmblk s b))) bj \<noteq> 0 \<longleftrightarrow>
      (if bj = b mod BPB then False else bm_and (hv s (bmblk s b)) bj \<noteq> 0)" for bj
    by (simp add: bits)
  have p4: "home_ok s b \<and> b \<notin> metaS s" if "\<not> False" using b by simp
  note U = bitmap_upd [OF g(1) b(1) eff_frame [OF e] inv' p1 len p2 p3 p4]
  have "sbof s' = sbof s" "bmS s' = bmS s" "metaS s' = metaS s" "bm_geom s'" by (rule U; assumption)+
  moreover have "\<forall>c < sb_size (sbof s). used s' c \<longleftrightarrow> c \<noteq> b \<and> used s c" using U(5) by simp
  ultimately show ?thesis using run e s'(3,4) by blast
qed

text \<open>Clearing a bit that was just set gives the bitmap block back.\<close>

lemma bm_clear_set:
  assumes "bm_and d bi = 0"
  shows "bm_clear bi (bm_set bi d) = d"
proof (cases "bi div 8 < length d")
  case True
  have "(d ! (bi div 8) OR push_bit (bi mod 8) 1) AND NOT (push_bit (bi mod 8) 1) = d ! (bi div 8)"
    using assms bm_and_bit [of d bi] by (intro bit_eqI) (auto simp: bit_simps)
  with True show ?thesis by (simp add: bm_clear_def bm_set_def)
qed (simp add: bm_clear_def bm_set_def list_update_beyond)

lemma held_ok_allocated:
  assumes "allocated s n s'" "held_ok s"
  shows "held_ok s'"
  using assms eff_home(2) [of s "bmS s \<union> {n}" s'] by (auto simp: allocated_def held_ok_def)

text \<open>A block that was allocated can be freed, and then every block but the (zeroed) allocated one
  has its old content, the bitmap included.\<close>

theorem balloc_bfree_roundtrip:
  assumes g: "bm_geom s" "held_ok s" and sl: "slack s (bmS s) 1" and free: "\<exists>b < sb_size (sbof s). home_ok s b \<and> \<not> used s b"
    and a: "balloc 1 s = Inr (n, s1)"
  shows "\<exists>s2. bfree 1 n s1 = Inr s2 \<and> bm_geom s2 \<and> hv s2 = (hv s)(n := replicate BSIZE 0)"
proof -
  from balloc_effect [OF g sl free] a have al: "allocated s n s1" by auto
  then have A: "n < sb_size (sbof s)" "\<not> used s n" "eff s (bmS s \<union> {n}) s1" "bm_geom s1" "sbof s1 = sbof s" "bmS s1 = bmS s"
      "metaS s1 = metaS s" "used s1 n"
      "hv s1 = (hv s)(bmblk s n := bm_set (n mod BPB) (hv s (bmblk s n)), n := replicate BSIZE 0)"
    by (auto simp: allocated_def)
  have n: "home_ok s n" "n \<notin> metaS s" using g(1) al by (auto simp: bm_geom_def allocated_def)
  have b1: "bmblk s1 = bmblk s" using A(5) by (simp add: bmblk_def fun_eq_iff)
  have nb: "bmblk s n \<noteq> n" using bm_geom_home(3) [OF g(1) A(1)] bm_geom_home(4) [OF g(1)] n(2) by auto
  have "slack s1 (bmS s1) 0" using slack_eff [of s "bmS s" 1 0 "{n}" s1] sl A(3,6) by simp
  from bfree_effect [OF A(4) held_ok_allocated [OF al g(2)] this, of n] A n eff_home(1) [OF A(3)]
  obtain s2 where s2: "bfree 1 n s1 = Inr s2" "bm_geom s2"
      "hv s2 = (hv s1)(bmblk s n := bm_clear (n mod BPB) (hv s1 (bmblk s n)))"
    by (auto simp: b1)
  have "bm_and (hv s (bmblk s n)) (n mod BPB) = 0" using A(2) by (simp add: used_def)
  then have "hv s2 = (hv s)(n := replicate BSIZE 0)"
    using nb by (auto simp: s2(3) A(9) bm_clear_set)
  with s2 show ?thesis by blast
qed

text \<open>Freeing a block whose bit is clear panics.\<close>

theorem bfree_free_panics:
  assumes g: "bm_geom s" "held_ok s" and rm: "card (busyS s \<union> dirtyS s) < NBUF" and b: "b < sb_size (sbof s)" "\<not> used s b"
  shows "bfree 1 b s = Inl (Panic ''freeing free block'')"
proof -
  have "1 \<notin> busyS s" using g(2) by (auto simp: held_ok_def)
  from readsb_effect [OF g(1) this rm] obtain s1 where
    s1: "readsb 1 s = Inr (sbof s, s1)" "eff s {} s1" "hv s1 = hv s" by blast
  note E = eff_same [OF s1(2,3)]
  have "card (busyS s1 \<union> dirtyS s1) < NBUF" using rm s1(2) by (auto simp: eff_def)
  from bitmap_peek [OF E(6) [OF g(1)] E(7) [OF g(2)] this, of b] b(1) obtain i s2 where
    "bread 1 (bmblk s b) s1 = Inr (i, s2)" "buf_data i s2 = hv s (bmblk s b)" by (auto simp: E s1(3))
  then show ?thesis using s1(1) b(2) by (simp add: bfree_def used_def bmblk_def Let_def)
qed

section \<open>The statistics\<close>

lemma count_block:
  assumes "b = i * BPB"
  shows "length (filter (\<lambda>bi. bm_and (hv s (bmblk s b)) bi = 1) [0..<min BPB (sb_size (sbof s) - b)]) =
    card {c. i * BPB \<le> c \<and> c < i * BPB + BPB \<and> c < sb_size (sbof s) \<and> c mod 8 = 0 \<and> used s c}"
proof -
  let ?A = "{bi. bi < min BPB (sb_size (sbof s) - b) \<and> bm_and (hv s (bmblk s b)) bi = 1}"
  have "length (filter (\<lambda>bi. bm_and (hv s (bmblk s b)) bi = 1) [0..<min BPB (sb_size (sbof s) - b)]) = card ?A"
    by (subst distinct_card [symmetric]) (auto intro: arg_cong [of _ _ card])
  also have "\<dots> = card ((+) b ` ?A)" by (simp add: card_image)
  also have "(+) b ` ?A = {c. i * BPB \<le> c \<and> c < i * BPB + BPB \<and> c < sb_size (sbof s) \<and> c mod 8 = 0 \<and> used s c}"
  proof -
    have key: "bm_and (hv s (bmblk s b)) bi = 1 \<longleftrightarrow> (b + bi) mod 8 = 0 \<and> used s (b + bi)"
      if "bi < BPB" "b + bi < sb_size (sbof s)" for bi
    proof -
      have "(b + bi) mod 8 = bi mod 8" unfolding assms by (simp add: BPB_def mod_add_eq [symmetric])
      then show ?thesis
        using used_block [OF assms that] bm_and_bit [of "hv s (bmblk s b)" bi] by (auto simp: bm_and_one)
    qed
    show ?thesis
    proof (intro set_eqI iffI)
      fix c assume c: "c \<in> {c. i * BPB \<le> c \<and> c < i * BPB + BPB \<and> c < sb_size (sbof s) \<and> c mod 8 = 0 \<and> used s c}"
      then have "c - b < BPB" using assms by (auto simp: algebra_simps)
      with c show "c \<in> (+) b ` ?A"
        using key [of "c - b"] assms by (intro image_eqI [of _ _ "c - b"]) auto
    qed (use key assms in \<open>auto simp: less_diff_conv add.commute\<close>)
  qed
  finally show ?thesis .
qed

text \<open>The blocks below \<open>c\<close> that the statistics count.\<close>

definition counted :: "'a log_state_scheme \<Rightarrow> nat \<Rightarrow> nat set" where
  "counted s c = {b. b < c \<and> b < sb_size (sbof s) \<and> b mod 8 = 0 \<and> used s b}"

lemma counted_step:
  "card {c. i * BPB \<le> c \<and> c < i * BPB + BPB \<and> c < sb_size (sbof s) \<and> c mod 8 = 0 \<and> used s c} + card (counted s (i * BPB)) =
    card (counted s (i * BPB + BPB))"
proof -
  have "counted s (i * BPB + BPB) = counted s (i * BPB) \<union>
      {c. i * BPB \<le> c \<and> c < i * BPB + BPB \<and> c < sb_size (sbof s) \<and> c mod 8 = 0 \<and> used s c}"
    by (auto simp: counted_def)
  moreover have "card (counted s (i * BPB) \<union>
      {c. i * BPB \<le> c \<and> c < i * BPB + BPB \<and> c < sb_size (sbof s) \<and> c mod 8 = 0 \<and> used s c}) = card (counted s (i * BPB)) +
      card {c. i * BPB \<le> c \<and> c < i * BPB + BPB \<and> c < sb_size (sbof s) \<and> c mod 8 = 0 \<and> used s c}"
    by (rule card_Un_disjoint) (auto simp: counted_def)
  ultimately show ?thesis by simp
qed

lemma used_blocks_loop_effect:
  assumes "bm_geom s" "held_ok s" "card (busyS s \<union> dirtyS s) < NBUF" "j \<le> K"
    and "K = (sb_size (sbof s) + BPB - 1) div BPB"
  shows "\<exists>s'. used_blocks_loop 1 (sbof s) (map (\<lambda>i. i * BPB) [j..<K]) (card (counted s (j * BPB))) s =
    Inr (card (counted s (K * BPB)), s') \<and> eff s {} s' \<and> hv s' = hv s"
  using assms
proof (induction "K - j" arbitrary: j s)
  case 0
  then show ?case using eff_refl [of s "{}"] by (auto simp: bm_geom_def)
next
  case (Suc k)
  then have jK: "j < K" by simp
  have "(j + 1) * BPB \<le> K * BPB" using jK by (intro mult_le_mono1) simp
  also have "\<dots> \<le> sb_size (sbof s) + BPB - 1" unfolding Suc.prems(5) by (rule div_times_less_eq_dividend)
  finally have bs: "j * BPB < sb_size (sbof s)" by (simp add: BPB_def BSIZE_def)
  obtain i s1 s2 where r: "bread 1 (bmblk s (j * BPB)) s = Inr (i, s1)" "buf_data i s1 = hv s (bmblk s (j * BPB))"
      "brelse i s1 = Inr s2" "eff s {} s2" "hv s2 = hv s"
    using bitmap_peek [OF Suc.prems(1-3) bs] by blast
  note E = eff_same [OF r(4,5)]
  have d: "dirtyS s2 = dirtyS s" using r(4) by (auto simp: eff_def)
  have c2: "counted s2 = counted s" by (simp add: counted_def E fun_eq_iff)
  have "used_blocks_loop 1 (sbof s) (j * BPB # bs') (card (counted s (j * BPB))) s =
      used_blocks_loop 1 (sbof s) bs' (card (counted s (j * BPB + BPB))) s2" for bs'
    using r count_block [of "j * BPB" j s] counted_step [of j s] unfolding bmblk_def
    by (simp add: Let_def add.commute)
  moreover have "\<exists>s'. used_blocks_loop 1 (sbof s2) (map (\<lambda>i. i * BPB) [Suc j..<K]) (card (counted s2 (Suc j * BPB))) s2 =
      Inr (card (counted s2 (K * BPB)), s') \<and> eff s2 {} s' \<and> hv s' = hv s2"
    using Suc.hyps(2) Suc.prems E d eff_home(2) [OF r(4)] by (intro Suc.hyps(1)) auto
  ultimately show ?case
    using jK E(1) c2 r(5) eff_trans_same [OF r(4)] by (auto simp: upt_conv_Cons add.commute simp del: used_blocks_loop.simps)
qed

lemma starts_cover: "sz \<le> (sz + BPB - 1) div BPB * BPB"
  using div_mult_mod_eq [of "sz + BPB - 1" BPB] mod_less_divisor [of BPB "sz + BPB - 1"]
  by (simp add: BPB_def BSIZE_def)

text \<open>\<open>get_number_of_used_blocks\<close> returns the number of used blocks whose number is a multiple of
  eight: the test \<open>== 1\<close> misses every block whose bit is not the lowest of its byte.\<close>

theorem used_blocks_count:
  assumes g: "bm_geom s" "held_ok s" and rm: "card (busyS s \<union> dirtyS s) < NBUF"
  shows "\<exists>s'. get_number_of_used_blocks 1 s = Inr (card {b. b < sb_size (sbof s) \<and> b mod 8 = 0 \<and> used s b}, s') \<and>
    hv s' = hv s"
proof -
  have "1 \<notin> busyS s" using g(2) by (auto simp: held_ok_def)
  from readsb_effect [OF g(1) this rm] obtain s1 where
    s1: "readsb 1 s = Inr (sbof s, s1)" "eff s {} s1" "hv s1 = hv s" by blast
  note E = eff_same [OF s1(2,3)]
  have "card (busyS s1 \<union> dirtyS s1) < NBUF" using rm s1(2) by (auto simp: eff_def)
  from used_blocks_loop_effect [OF E(6) [OF g(1)] E(7) [OF g(2)] this le0 refl]
  obtain s' where s': "used_blocks_loop 1 (sbof s) (bm_starts (sb_size (sbof s))) 0 s1 =
      Inr (card (counted s1 ((sb_size (sbof s) + BPB - 1) div BPB * BPB)), s')" "hv s' = hv s1"
    by (auto simp: E bm_starts_def counted_def)
  have "counted s1 ((sb_size (sbof s) + BPB - 1) div BPB * BPB) = {b. b < sb_size (sbof s) \<and> b mod 8 = 0 \<and> used s b}"
    using starts_cover [of "sb_size (sbof s)"] by (auto simp: counted_def E)
  then show ?thesis using s1 s' by (simp add: get_number_of_used_blocks_def)
qed

section \<open>A small image\<close>

text \<open>
  Twenty blocks: the superblock, one block of 16 inodes, the bitmap in block 4, data blocks 5 to
  8 and a log of eleven blocks. Inode 1 is the root directory (in block 6), inode 2 is a file
  of five bytes (in block 5); blocks 7 and 8 are free.
\<close>

definition pad_block :: "byte list \<Rightarrow> byte list" where
  "pad_block xs = xs @ replicate (BSIZE - length xs) 0"

definition demo_img :: "byte list list" where
  "demo_img = map pad_block
    ([[], le_enc 4 20 @ le_enc 4 4 @ le_enc 4 16 @ le_enc 4 11,
      replicate 64 0 @
      (le_enc 2 1 @ replicate 4 0 @ le_enc 2 1 @ le_enc 4 32 @ le_enc 4 6 @ replicate 48 0) @
      (le_enc 2 2 @ replicate 4 0 @ le_enc 2 1 @ le_enc 4 5 @ le_enc 4 5 @ replicate 48 0),
      [], [0x7F, 0xFE, 0x0F], [104, 101, 108, 108, 111],
      (le_enc 2 1 @ [46] @ replicate 13 0) @ (le_enc 2 2 @ [97] @ replicate 13 0), [], []] @ replicate 11 [])"

text \<open>The machine just after \<open>begin_trans\<close> on this image.\<close>

definition demo_tx :: "'a \<Rightarrow> 'a log_state_scheme" where
  "demo_tx x = binit \<lparr>memdisk = demo_img, writes = [], bufs = [], lru = [], lg_start = 9, lg_size = 11, lg_busy = True,
     lg_dev = 1, lg_n = 0, lg_sector = replicate LOGSIZE 0, \<dots> = x\<rparr>"

lemma demo_img_blocks:
  "length demo_img = 20" "demo_img ! 1 = pad_block (le_enc 4 20 @ le_enc 4 4 @ le_enc 4 16 @ le_enc 4 11)"
  "demo_img ! 4 = pad_block [0x7F, 0xFE, 0x0F]" "demo_img ! 5 = pad_block [104, 101, 108, 108, 111]" "demo_img ! 9 = pad_block []"
  "\<forall>x \<in> set demo_img. length x = BSIZE"
  by (simp_all add: demo_img_def pad_block_def BSIZE_def)

lemma demo_tx_inv:
  "log_inv (demo_tx x)" "busyS (demo_tx x) = {}" "dirtyS (demo_tx x) = {}" "lg_busy (demo_tx x)"
  "home_ok (demo_tx x) n \<longleftrightarrow> n < 9" "n < 9 \<Longrightarrow> hv (demo_tx x) n = demo_img ! n" "log_state.more (demo_tx x) = x"
proof -
  define s where "s = demo_tx x"
  have b: "bio_inv s" "busyS s = {}" "dirtyS s = {}"
    unfolding s_def demo_tx_def by (rule binit_effect; simp add: demo_img_blocks)+
  have f: "memdisk s = demo_img" "lg_start s = 9" "lg_size s = 11" "lg_dev s = 1" "lg_n s = 0" "lg_busy s"
    "length (lg_sector s) = LOGSIZE" "log_state.more s = x"
    by (simp_all add: s_def demo_tx_def binit_def)
  have "slice 0 4 (pad_block []) = replicate 4 0" by (simp add: slice_def BSIZE_def pad_block_def)
  then have "get_u32 0 (pad_block []) = 0" by (simp add: get_u32_def numeral_eq_Suc)
  then have h: "head_n (disk_head s) = 0" by (simp add: disk_head_def head_n_def f demo_img_blocks)
  have inv: "log_inv s"
    unfolding log_inv_def using b h by (simp add: logged_def f log_geom_def LOGSIZE_def demo_img_blocks)
  have ho: "home_ok s n \<longleftrightarrow> n < 9" by (auto simp: home_ok_def in_log_def f demo_img_blocks)
  show "log_inv (demo_tx x)" "busyS (demo_tx x) = {}" "dirtyS (demo_tx x) = {}" "lg_busy (demo_tx x)"
    "home_ok (demo_tx x) n \<longleftrightarrow> n < 9" "log_state.more (demo_tx x) = x"
    using inv b f ho by (simp_all add: s_def)
  show "hv (demo_tx x) n = demo_img ! n" if "n < 9"
    using view_idle [OF b(1), of n] b(2,3) that f by (simp add: s_def [symmetric] hv_def in_log_def)
qed

lemma demo_tx_sb: "sbof (demo_tx x) = \<lparr>sb_size = 20, sb_nblocks = 4, sb_ninodes = 16, sb_nlog = 11\<rparr>"
proof -
  have "slice 0 4 (demo_img ! 1) = le_enc 4 20" "slice 4 4 (demo_img ! 1) = le_enc 4 4"
    "slice 8 4 (demo_img ! 1) = le_enc 4 16" "slice 12 4 (demo_img ! 1) = le_enc 4 11"
    by (simp_all add: demo_img_blocks slice_def pad_block_def)
  then show ?thesis by (simp add: sbof_def demo_tx_inv dec_superblock_def get_u32_def)
qed

lemma nat_lt_20: "b < (20 :: nat) \<Longrightarrow> b \<in> {0, 1, 2, 3, 4, 5, 6, 7, 8, 9, 10, 11, 12, 13, 14, 15, 16, 17, 18, 19}"
  unfolding insert_iff empty_iff by arith

lemma demo_tx_bitmap:
  "b < 20 \<Longrightarrow> bmblk (demo_tx x) b = 4" "b < 20 \<Longrightarrow> used (demo_tx x) b \<longleftrightarrow> b \<noteq> 7 \<and> b \<noteq> 8"
  "bmS (demo_tx x) = {4}" "metaS (demo_tx x) = {0, 1, 2, 4}"
proof -
  show blk: "b < 20 \<Longrightarrow> bmblk (demo_tx x) b = 4" for b
    by (simp add: bmblk_def demo_tx_sb BBLOCK_def BPB_def BSIZE_def IPB_def)
  then show bm: "bmS (demo_tx x) = {4}" by (auto simp: bmS_def demo_tx_sb intro!: image_eqI [of _ _ 0])
  have "IBLOCK ` {..<16} = {2}" by (auto simp: IBLOCK_def IPB_def intro!: image_eqI [of _ _ 0])
  then show "metaS (demo_tx x) = {0, 1, 2, 4}" by (auto simp: metaS_def bm demo_tx_sb)
  have bits: "take 3 (demo_img ! 4) = [0x7F, 0xFE, 0x0F]" by (simp add: demo_img_blocks pad_block_def)
  have "demo_img ! 4 ! k = [0x7F, 0xFE, 0x0F] ! k" if "k < 3" for k using that bits by (metis nth_take)
  moreover assume b: "b < 20"
  ultimately have "used (demo_tx x) b \<longleftrightarrow> bm_and [0x7F, 0xFE, 0x0F] b \<noteq> 0"
    by (simp add: used_def blk demo_tx_inv BPB_def BSIZE_def bm_and_def)
  also have "\<dots> \<longleftrightarrow> b \<noteq> 7 \<and> b \<noteq> 8"
    using nat_lt_20 [OF b] by (elim insertE emptyE; simp add: bm_and_def One_nat_def)
  finally show "used (demo_tx x) b \<longleftrightarrow> b \<noteq> 7 \<and> b \<noteq> 8" .
qed

lemma demo_tx_cap: "tx_cap (demo_tx x) = 10"
  by (simp add: tx_cap_def lcap_def demo_tx_def binit_def NBUF_def LOGSIZE_def)

lemma demo_tx_geom: "bm_geom (demo_tx x)" "held_ok (demo_tx x)" "k < 9 \<Longrightarrow> slack (demo_tx x) (bmS (demo_tx x)) k"
  "card (busyS (demo_tx x) \<union> dirtyS (demo_tx x)) < NBUF"
proof -
  have "length (memdisk (demo_tx x)) = 20" by (simp add: demo_tx_def binit_def demo_img_blocks)
  then show "bm_geom (demo_tx x)"
    by (auto simp: bm_geom_def demo_tx_inv demo_tx_bitmap demo_tx_sb BPB_def BSIZE_def IPB_def)
qed (simp_all add: held_ok_def slack_def demo_tx_inv demo_tx_bitmap demo_tx_cap NBUF_def)

lemma demo_tx_free: "\<exists>b < sb_size (sbof (demo_tx x)). home_ok (demo_tx x) b \<and> \<not> used (demo_tx x) b"
  using demo_tx_bitmap(2) [of 7 x] by (intro exI [of _ 7]) (simp add: demo_tx_sb demo_tx_inv)

theorem balloc_first_fit_witness:
  "\<exists>s'. balloc 1 (demo_tx ()) = Inr (7, s') \<and> hv s' 7 = replicate BSIZE 0"
proof -
  have no: "\<not> (\<forall>b < sb_size (sbof (demo_tx ())). used (demo_tx ()) b)"
    using demo_tx_bitmap(2) [of 7 "()"] by (auto simp: demo_tx_sb intro!: exI [of _ 7])
  obtain n s' where n: "balloc 1 (demo_tx ()) = Inr (n, s')" "\<not> used (demo_tx ()) n" "\<forall>b < n. used (demo_tx ()) b"
      "hv s' n = replicate BSIZE 0"
    using balloc_first_fit [OF demo_tx_geom(1,2) demo_tx_geom(3) [of 1 "()"]] no demo_tx_free [of "()"] by (auto split: if_splits)
  have "\<not> 7 < n" using n(3) demo_tx_bitmap(2) [of 7 "()"] by auto
  then have "n = 7" using n(2) demo_tx_bitmap(2) [of n "()"] by auto
  with n show ?thesis by auto
qed

theorem balloc_bfree_roundtrip_witness:
  "\<exists>n s1 s2. balloc 1 (demo_tx ()) = Inr (n, s1) \<and> bfree 1 n s1 = Inr s2 \<and> hv s2 = (hv (demo_tx ()))(n := replicate BSIZE 0)"
proof -
  obtain n s1 where a: "balloc 1 (demo_tx ()) = Inr (n, s1)"
    using balloc_effect [OF demo_tx_geom(1,2) demo_tx_geom(3) [of 1 "()"] demo_tx_free] by auto
  from balloc_bfree_roundtrip [OF demo_tx_geom(1,2) demo_tx_geom(3) demo_tx_free a] a show ?thesis by fastforce
qed

theorem bfree_free_panics_witness: "bfree 1 8 (demo_tx ()) = Inl (Panic ''freeing free block'')"
  by (rule bfree_free_panics [OF demo_tx_geom(1,2,4)]) (simp_all add: demo_tx_sb demo_tx_bitmap)

text \<open>On the small image 18 blocks are in use, and the routine reports two.\<close>

theorem used_blocks_count_witness:
  "card {b. b < sb_size (sbof (demo_tx ())) \<and> used (demo_tx ()) b} = 18 \<and>
    (\<exists>s'. get_number_of_used_blocks 1 (demo_tx ()) = Inr (2, s'))"
proof
  have u: "b < 20 \<and> used (demo_tx ()) b \<longleftrightarrow> b < 20 \<and> b \<noteq> 7 \<and> b \<noteq> 8" for b using demo_tx_bitmap(2) [of b "()"] by auto
  have "{b. b < 20 \<and> used (demo_tx ()) b} = {..<20} - {7, 8}" unfolding u by auto
  then show "card {b. b < sb_size (sbof (demo_tx ())) \<and> used (demo_tx ()) b} = 18" by (simp add: demo_tx_sb)
  have "{b. b < 20 \<and> b mod 8 = 0 \<and> used (demo_tx ()) b} = {0, 16}"
  proof -
    have "b < 20 \<and> b mod 8 = 0 \<and> used (demo_tx ()) b \<longleftrightarrow> b = 0 \<or> b = 16" for b
      using demo_tx_bitmap(2) [of b "()"] by (cases "b < 20"; simp; presburger)
    then show ?thesis by auto
  qed
  with used_blocks_count [OF demo_tx_geom(1,2,4), of "()"]
  show "\<exists>s'. get_number_of_used_blocks 1 (demo_tx ()) = Inr (2, s')" by (auto simp: demo_tx_sb)
qed

end
