(* ===== verification/Fs_Inode.thy ===== *)
theory Fs_Inode
  imports Fs_Blocks
begin

text \<open>
  The inode layer of \<open>kernel/fs.c\<close>: the inode cache (\<open>iget\<close>, \<open>idup\<close>, \<open>ilock\<close>, \<open>iunlock\<close>, \<open>iput\<close>),
  on-disk inodes (\<open>ialloc\<close>, \<open>iupdate\<close>), and file contents (\<open>bmap\<close>, \<open>itrunc\<close>, \<open>readi\<close>, \<open>writei\<close>). Cached inodes
  are indices into the table \<open>icache\<close>; a null \<open>struct inode *\<close> is any index past its end. The
  operations are those of one process: waiting for a locked inode is the outcome \<open>Sleeps\<close>, and
  the spin lock \<open>icache.lock\<close>, which only brackets the critical sections, is left out.
\<close>

section \<open>State\<close>

definition NINODE :: nat where "NINODE = 50"
definition NDIRECT :: nat where "NDIRECT = 12"
definition NINDIRECT :: nat where "NINDIRECT = BSIZE div 4"
definition MAXFILE :: nat where "MAXFILE = NDIRECT + NINDIRECT"
definition NDEV :: int where "NDEV = 10"
definition T_DIR :: int where "T_DIR = 1"
definition T_FILE :: int where "T_FILE = 2"
definition T_DEV :: int where "T_DEV = 3"
definition DINODE_SIZE :: nat where "DINODE_SIZE = 64"

text \<open>\<open>struct inode\<close>, with the two bits of \<open>flags\<close> as fields.\<close>

record inode =
  i_dev :: nat
  i_inum :: nat
  i_ref :: int
  i_busy :: bool
  i_valid :: bool
  i_type :: int
  i_major :: int
  i_minor :: int
  i_nlink :: int
  i_size :: nat
  i_addrs :: "nat list"

record fs_state = log_state +
  icache :: "inode list"

definition upd_ip :: "nat \<Rightarrow> (inode \<Rightarrow> inode) \<Rightarrow> 'a fs_state_scheme \<Rightarrow> 'a fs_state_scheme" where
  "upd_ip ip f s = s\<lparr>icache := (icache s)[ip := f (icache s ! ip)]\<rparr>"

text \<open>\<open>struct stat\<close>.\<close>

record stat =
  st_type :: int
  st_dev :: nat
  st_ino :: nat
  st_nlink :: int
  st_size :: nat

text \<open>\<open>devsw\<close>: the read and write functions of a major device number, if any. A read function gets the
  inode and the number of bytes wanted and returns its result and the bytes it stored; a write
  function gets the bytes.\<close>

record 's devsw =
  dv_read :: "int \<Rightarrow> (nat \<Rightarrow> int \<Rightarrow> 's \<Rightarrow> (int \<times> byte list \<times> 's) res) option"
  dv_write :: "int \<Rightarrow> (nat \<Rightarrow> byte list \<Rightarrow> 's \<Rightarrow> (int \<times> 's) res) option"

section \<open>On-disk inodes\<close>

text \<open>The fields of a \<open>struct dinode\<close> at offset \<open>p\<close> of a block, copied in and out.\<close>

definition dinode_off :: "nat \<Rightarrow> nat" where
  "dinode_off inum = inum mod IPB * DINODE_SIZE"

definition load_dinode :: "nat \<Rightarrow> byte list \<Rightarrow> inode \<Rightarrow> inode" where
  "load_dinode p d ino = ino\<lparr>i_type := short_of (get_u16 p d), i_major := short_of (get_u16 (p + 2) d),
     i_minor := short_of (get_u16 (p + 4) d), i_nlink := short_of (get_u16 (p + 6) d), i_size := get_u32 (p + 8) d,
     i_addrs := map (\<lambda>k. get_u32 (p + 12 + 4 * k) d) [0..<NDIRECT + 1]\<rparr>"

definition store_dinode :: "nat \<Rightarrow> inode \<Rightarrow> byte list \<Rightarrow> byte list" where
  "store_dinode p ino d =
     (let d = put_u16 p (of_short (i_type ino)) d;
          d = put_u16 (p + 2) (of_short (i_major ino)) d;
          d = put_u16 (p + 4) (of_short (i_minor ino)) d;
          d = put_u16 (p + 6) (of_short (i_nlink ino)) d;
          d = put_u32 (p + 8) (i_size ino) d
      in fold (\<lambda>k d. put_u32 (p + 12 + 4 * k) (i_addrs ino ! k) d) [0..<NDIRECT + 1] d)"

section \<open>The inode cache\<close>

definition iget :: "nat \<Rightarrow> nat \<Rightarrow> 'a fs_state_scheme \<Rightarrow> (nat \<times> 'a fs_state_scheme) res" where
  "iget dev inum s =
     (case find_index (\<lambda>i. i_ref i > 0 \<and> i_dev i = dev \<and> i_inum i = inum) (icache s) of
        Some ip \<Rightarrow> Inr (ip, upd_ip ip (\<lambda>i. i\<lparr>i_ref := i_ref i + 1\<rparr>) s)
      | None \<Rightarrow>
          (case find_index (\<lambda>i. i_ref i = 0) (icache s) of
             None \<Rightarrow> Inl (Panic ''iget: no inodes'')
           | Some ip \<Rightarrow> Inr (ip, upd_ip ip (\<lambda>i. i\<lparr>i_dev := dev, i_inum := inum, i_ref := 1,
               i_busy := False, i_valid := False\<rparr>) s)))"

definition idup :: "nat \<Rightarrow> 'a fs_state_scheme \<Rightarrow> 'a fs_state_scheme" where
  "idup ip s = upd_ip ip (\<lambda>i. i\<lparr>i_ref := i_ref i + 1\<rparr>) s"

fun ialloc_loop :: "nat \<Rightarrow> int \<Rightarrow> nat list \<Rightarrow> 'a fs_state_scheme \<Rightarrow> (nat \<times> 'a fs_state_scheme) res" where
  "ialloc_loop dev type [] s = Inl (Panic ''ialloc: no inodes'')"
| "ialloc_loop dev type (inum # inums) s =
     res_bind (bread dev (IBLOCK inum) s) (\<lambda>(bp, s).
       let p = dinode_off inum; d = buf_data bp s
       in if short_of (get_u16 p d) = 0 then
            res_bind (log_write bp (set_data bp (put_u16 p (of_short type) (splice p (replicate DINODE_SIZE 0) d)) s)) (\<lambda>s.
            res_bind (brelse bp s) (\<lambda>s. iget dev inum s))
          else res_bind (brelse bp s) (ialloc_loop dev type inums))"

definition ialloc :: "nat \<Rightarrow> int \<Rightarrow> 'a fs_state_scheme \<Rightarrow> (nat \<times> 'a fs_state_scheme) res" where
  "ialloc dev type s = res_bind (readsb dev s) (\<lambda>(sb, s). ialloc_loop dev type [1..<sb_ninodes sb] s)"

definition iupdate :: "nat \<Rightarrow> 'a fs_state_scheme \<Rightarrow> 'a fs_state_scheme res" where
  "iupdate ip s =
     (let ino = icache s ! ip
      in res_bind (bread (i_dev ino) (IBLOCK (i_inum ino)) s) (\<lambda>(bp, s).
         res_bind (log_write bp (set_data bp (store_dinode (dinode_off (i_inum ino)) (icache s ! ip) (buf_data bp s)) s)) (\<lambda>s.
         brelse bp s)))"

definition ilock :: "nat \<Rightarrow> 'a fs_state_scheme \<Rightarrow> 'a fs_state_scheme res" where
  "ilock ip s =
     (if ip \<ge> length (icache s) \<or> i_ref (icache s ! ip) < 1 then Inl (Panic ''ilock'')
      else if i_busy (icache s ! ip) then Inl (Sleeps ''ilock'')
      else
        let s = upd_ip ip (\<lambda>i. i\<lparr>i_busy := True\<rparr>) s; ino = icache s ! ip
        in if \<not> i_valid ino then
             res_bind (bread (i_dev ino) (IBLOCK (i_inum ino)) s) (\<lambda>(bp, s).
               let s = upd_ip ip (load_dinode (dinode_off (i_inum ino)) (buf_data bp s)) s
               in res_bind (brelse bp s) (\<lambda>s.
                  let s = upd_ip ip (\<lambda>i. i\<lparr>i_valid := True\<rparr>) s
                  in if i_type (icache s ! ip) = 0 then Inl (Panic ''ilock: no type'') else Inr s))
           else Inr s)"

definition iunlock :: "nat \<Rightarrow> 'a fs_state_scheme \<Rightarrow> 'a fs_state_scheme res" where
  "iunlock ip s =
     (if ip \<ge> length (icache s) \<or> \<not> i_busy (icache s ! ip) \<or> i_ref (icache s ! ip) < 1 then Inl (Panic ''iunlock'')
      else Inr (upd_ip ip (\<lambda>i. i\<lparr>i_busy := False\<rparr>) s))"

section \<open>File contents\<close>

definition alloc_addr :: "nat \<Rightarrow> nat \<Rightarrow> 'a fs_state_scheme \<Rightarrow> (nat \<times> 'a fs_state_scheme) res" where
  "alloc_addr ip k s =
     (let addr = i_addrs (icache s ! ip) ! k
      in if addr = 0 then
           res_bind (balloc (i_dev (icache s ! ip)) s) (\<lambda>(addr, s).
             Inr (addr, upd_ip ip (\<lambda>i. i\<lparr>i_addrs := (i_addrs i)[k := addr]\<rparr>) s))
         else Inr (addr, s))"

definition bmap :: "nat \<Rightarrow> nat \<Rightarrow> 'a fs_state_scheme \<Rightarrow> (nat \<times> 'a fs_state_scheme) res" where
  "bmap ip bn s =
     (if bn < NDIRECT then alloc_addr ip bn s
      else let bn = bn - NDIRECT
        in if bn < NINDIRECT then
             res_bind (alloc_addr ip NDIRECT s) (\<lambda>(addr, s).
             res_bind (bread (i_dev (icache s ! ip)) addr s) (\<lambda>(bp, s).
               let addr = get_u32 (4 * bn) (buf_data bp s)
               in res_bind
                    (if addr = 0 then
                       res_bind (balloc (i_dev (icache s ! ip)) s) (\<lambda>(addr, s).
                       res_bind (log_write bp (set_data bp (put_u32 (4 * bn) addr (buf_data bp s)) s)) (\<lambda>s. Inr (addr, s)))
                     else Inr (addr, s)) (\<lambda>(addr, s).
                  res_bind (brelse bp s) (\<lambda>s. Inr (addr, s)))))
           else Inl (Panic ''bmap: out of range''))"

fun itrunc_direct :: "nat \<Rightarrow> nat list \<Rightarrow> 'a fs_state_scheme \<Rightarrow> 'a fs_state_scheme res" where
  "itrunc_direct ip [] s = Inr s"
| "itrunc_direct ip (k # ks) s =
     (let ino = icache s ! ip
      in if i_addrs ino ! k \<noteq> 0 then
           res_bind (bfree (i_dev ino) (i_addrs ino ! k) s) (\<lambda>s.
             itrunc_direct ip ks (upd_ip ip (\<lambda>i. i\<lparr>i_addrs := (i_addrs i)[k := 0]\<rparr>) s))
         else itrunc_direct ip ks s)"

text \<open>The indirect block's entries, read from the buffer the loop holds.\<close>

fun itrunc_indirect :: "nat \<Rightarrow> nat \<Rightarrow> nat list \<Rightarrow> 'a fs_state_scheme \<Rightarrow> 'a fs_state_scheme res" where
  "itrunc_indirect dev bp [] s = Inr s"
| "itrunc_indirect dev bp (j # js) s =
     (let a = get_u32 (4 * j) (buf_data bp s)
      in if a \<noteq> 0 then res_bind (bfree dev a s) (itrunc_indirect dev bp js)
         else itrunc_indirect dev bp js s)"

definition itrunc :: "nat \<Rightarrow> 'a fs_state_scheme \<Rightarrow> 'a fs_state_scheme res" where
  "itrunc ip s =
     res_bind (itrunc_direct ip [0..<NDIRECT] s) (\<lambda>s.
     res_bind
       (let ino = icache s ! ip; addr = i_addrs ino ! NDIRECT
        in if addr \<noteq> 0 then
             res_bind (bread (i_dev ino) addr s) (\<lambda>(bp, s).
             res_bind (itrunc_indirect (i_dev ino) bp [0..<NINDIRECT] s) (\<lambda>s.
             res_bind (brelse bp s) (\<lambda>s.
             res_bind (bfree (i_dev ino) addr s) (\<lambda>s.
               Inr (upd_ip ip (\<lambda>i. i\<lparr>i_addrs := (i_addrs i)[NDIRECT := 0]\<rparr>) s)))))
           else Inr s) (\<lambda>s.
     iupdate ip (upd_ip ip (\<lambda>i. i\<lparr>i_size := 0\<rparr>) s)))"

definition iput :: "nat \<Rightarrow> 'a fs_state_scheme \<Rightarrow> 'a fs_state_scheme res" where
  "iput ip s =
     res_bind
       (let ino = icache s ! ip
        in if i_ref ino = 1 \<and> i_valid ino \<and> i_nlink ino = 0 then
             (if i_busy ino then Inl (Panic ''iput busy'')
              else
                res_bind (itrunc ip (upd_ip ip (\<lambda>i. i\<lparr>i_busy := True\<rparr>) s)) (\<lambda>s.
                res_bind (iupdate ip (upd_ip ip (\<lambda>i. i\<lparr>i_type := 0\<rparr>) s)) (\<lambda>s.
                Inr (upd_ip ip (\<lambda>i. i\<lparr>i_busy := False, i_valid := False\<rparr>) s))))
           else Inr s)
       (\<lambda>s. Inr (upd_ip ip (\<lambda>i. i\<lparr>i_ref := i_ref i - 1\<rparr>) s))"

definition iunlockput :: "nat \<Rightarrow> 'a fs_state_scheme \<Rightarrow> 'a fs_state_scheme res" where
  "iunlockput ip s = res_bind (iunlock ip s) (iput ip)"

definition stati :: "nat \<Rightarrow> 'a fs_state_scheme \<Rightarrow> stat" where
  "stati ip s = (let ino = icache s ! ip
     in \<lparr>st_type = i_type ino, st_dev = i_dev ino, st_ino = i_inum ino, st_nlink = i_nlink ino, st_size = i_size ino\<rparr>)"

text \<open>The loop of \<open>readi\<close>, by the number \<open>r = n - tot\<close> of bytes still to read; it returns the bytes
  stored at \<open>dst\<close>.\<close>

function readi_loop :: "nat \<Rightarrow> nat \<Rightarrow> nat \<Rightarrow> 'a fs_state_scheme \<Rightarrow> (byte list \<times> 'a fs_state_scheme) res" where
  "readi_loop ip off r s =
     (if r = 0 then Inr ([], s)
      else
        let m = min r (BSIZE - off mod BSIZE)
        in res_bind (bmap ip (off div BSIZE) s) (\<lambda>(addr, s).
           res_bind (bread (i_dev (icache s ! ip)) addr s) (\<lambda>(bp, s).
             let chunk = slice (off mod BSIZE) m (buf_data bp s)
             in res_bind (brelse bp s) (\<lambda>s.
                res_bind (readi_loop ip (off + m) (r - m) s) (\<lambda>(bs, s). Inr (chunk @ bs, s))))))"
  by pat_completeness auto
termination
  by (relation "measure (\<lambda>(ip, off, r, s). r)") (auto simp: BSIZE_def)

definition readi :: "'a fs_state_scheme devsw \<Rightarrow> nat \<Rightarrow> nat \<Rightarrow> nat \<Rightarrow> 'a fs_state_scheme \<Rightarrow>
    (int \<times> byte list \<times> 'a fs_state_scheme) res" where
  "readi dv ip off n s =
     (let ino = icache s ! ip
      in if i_type ino = T_DEV then
           (if i_major ino < 0 \<or> i_major ino \<ge> NDEV then Inr (-1, [], s)
            else case dv_read dv (i_major ino) of
              None \<Rightarrow> Inr (-1, [], s)
            | Some f \<Rightarrow> f ip (int_of_u32 n) s)
         else if off > i_size ino \<or> (off + n) mod 2 ^ 32 < off then Inr (-1, [], s)
         else
           let n = (if (off + n) mod 2 ^ 32 > i_size ino then i_size ino - off else n)
           in res_bind (readi_loop ip off n s) (\<lambda>(bs, s). Inr (int_of_u32 n, bs, s)))"

function writei_loop :: "nat \<Rightarrow> byte list \<Rightarrow> nat \<Rightarrow> 'a fs_state_scheme \<Rightarrow> 'a fs_state_scheme res" where
  "writei_loop ip src off s =
     (if src = [] then Inr s
      else
        let m = min (length src) (BSIZE - off mod BSIZE)
        in res_bind (bmap ip (off div BSIZE) s) (\<lambda>(addr, s).
           res_bind (bread (i_dev (icache s ! ip)) addr s) (\<lambda>(bp, s).
           res_bind (log_write bp (set_data bp (splice (off mod BSIZE) (take m src) (buf_data bp s)) s)) (\<lambda>s.
           res_bind (brelse bp s) (writei_loop ip (drop m src) (off + m))))))"
  by pat_completeness auto
termination
  by (relation "measure (\<lambda>(ip, src, off, s). length src)") (auto simp: BSIZE_def)

definition writei :: "'a fs_state_scheme devsw \<Rightarrow> nat \<Rightarrow> byte list \<Rightarrow> nat \<Rightarrow> 'a fs_state_scheme \<Rightarrow>
    (int \<times> 'a fs_state_scheme) res" where
  "writei dv ip src off s =
     (let ino = icache s ! ip; n = length src
      in if i_type ino = T_DEV then
           (if i_major ino < 0 \<or> i_major ino \<ge> NDEV then Inr (-1, s)
            else case dv_write dv (i_major ino) of
              None \<Rightarrow> Inr (-1, s)
            | Some f \<Rightarrow> f ip src s)
         else if off > i_size ino \<or> (off + n) mod 2 ^ 32 < off then Inr (-1, s)
         else if (off + n) mod 2 ^ 32 > MAXFILE * BSIZE then Inr (-1, s)
         else
           res_bind (writei_loop ip src off s) (\<lambda>s.
           res_bind
             (if n > 0 \<and> off + n > i_size (icache s ! ip) then iupdate ip (upd_ip ip (\<lambda>i. i\<lparr>i_size := off + n\<rparr>) s)
              else Inr s)
             (\<lambda>s. Inr (int_of_u32 n, s))))"

declare readi_loop.simps [simp del] writei_loop.simps [simp del]

section \<open>The cache of inodes and the blocks below do not see each other\<close>

lemma icache_irrelevant [simp]:
  "log_inv (s\<lparr>icache := x\<rparr>) = log_inv s" "hv (s\<lparr>icache := x\<rparr>) = hv s" "busyS (s\<lparr>icache := x\<rparr>) = busyS s"
  "dirtyS (s\<lparr>icache := x\<rparr>) = dirtyS s" "home_ok (s\<lparr>icache := x\<rparr>) = home_ok s"
  "tx_frame s (s'\<lparr>icache := x\<rparr>) = tx_frame s s'" "has_buf (s\<lparr>icache := x\<rparr>) = has_buf s"
  "tx_cap (s\<lparr>icache := x\<rparr>) = tx_cap s"
  by (simp_all add: tx_cap_def lcap_def log_inv_def bio_inv_def log_geom_def logged_def home_ok_def in_log_def disk_head_def busyS_def
      dirtyS_def view_def hv_def tx_frame_def has_buf_def fun_eq_iff split: option.split)

lemma icache_irrelevant2 [simp]:
  "eff s T (s'\<lparr>icache := x\<rparr>) = eff s T s'" "slack (s\<lparr>icache := x\<rparr>) B k = slack s B k" "sbof (s\<lparr>icache := x\<rparr>) = sbof s"
  "bmblk (s\<lparr>icache := x\<rparr>) = bmblk s" "bmS (s\<lparr>icache := x\<rparr>) = bmS s" "metaS (s\<lparr>icache := x\<rparr>) = metaS s"
  "used (s\<lparr>icache := x\<rparr>) = used s" "bm_geom (s\<lparr>icache := x\<rparr>) = bm_geom s" "held_ok (s\<lparr>icache := x\<rparr>) = held_ok s"
  "memdisk (s\<lparr>icache := x\<rparr>) = memdisk s"
  by (simp_all add: eff_def slack_def sbof_def bmblk_def bmS_def metaS_def used_def bm_geom_def held_ok_def fun_eq_iff)

lemma icache_irrelevant4 [simp]: "view (s\<lparr>icache := x\<rparr>) = view s" "synced (s\<lparr>icache := x\<rparr>) = synced s"
proof -
  show v: "view (s\<lparr>icache := x\<rparr>) = view s" by (simp add: view_def fun_eq_iff split: option.split)
  show "synced (s\<lparr>icache := x\<rparr>) = synced s" by (simp add: synced_def v fun_eq_iff)
qed

lemma icache_irrelevant3 [simp]: "eff (s\<lparr>icache := x\<rparr>) T s' = eff s T s'"
  by (simp add: eff_def tx_frame_def log_only_def in_log_def)

lemma upd_ip_simps [simp]:
  "icache (upd_ip ip f s) = (icache s)[ip := f (icache s ! ip)]"
  "log_inv (upd_ip ip f s) = log_inv s" "hv (upd_ip ip f s) = hv s" "busyS (upd_ip ip f s) = busyS s"
  "dirtyS (upd_ip ip f s) = dirtyS s" "home_ok (upd_ip ip f s) = home_ok s" "eff s0 T (upd_ip ip f s) = eff s0 T s"
  "eff (upd_ip ip f s) T s1 = eff s T s1"
  "slack (upd_ip ip f s) B k = slack s B k" "sbof (upd_ip ip f s) = sbof s" "bmblk (upd_ip ip f s) = bmblk s"
  "bmS (upd_ip ip f s) = bmS s" "metaS (upd_ip ip f s) = metaS s" "used (upd_ip ip f s) = used s"
  "bm_geom (upd_ip ip f s) = bm_geom s" "held_ok (upd_ip ip f s) = held_ok s"
  by (simp_all add: upd_ip_def)

lemma fs_more: "log_state.more s' = log_state.more s \<Longrightarrow> icache s' = icache s"
  by (cases s; cases s') simp

lemma fs_more_bio: "bio_state.more s' = bio_state.more s \<Longrightarrow> icache s' = icache s"
  by (rule fs_more) (rule log_fields_more(7))

section \<open>The on-disk inode\<close>

lemma store_addrs:
  fixes p :: nat and xs :: "nat list"
  assumes "p + 12 + 4 * n \<le> length d"
  defines "f \<equiv> \<lambda>n d. fold (\<lambda>k d. put_u32 (p + 12 + 4 * k) (xs ! k) d) [0..<n] d"
  shows "length (f n d) = length d"
    "o2 + 2 \<le> p + 12 \<or> p + 12 + 4 * n \<le> o2 \<Longrightarrow> get_u16 o2 (f n d) = get_u16 o2 d"
    "o2 + 4 \<le> p + 12 \<or> p + 12 + 4 * n \<le> o2 \<Longrightarrow> get_u32 o2 (f n d) = get_u32 o2 d"
    "k < n \<Longrightarrow> get_u32 (p + 12 + 4 * k) (f n d) = xs ! k mod 2 ^ 32"
    "o2 + m \<le> p + 12 \<or> p + 12 + 4 * n \<le> o2 \<Longrightarrow> slice o2 m (f n d) = slice o2 m d"
  using assms(1)
proof (induction n)
  case (Suc n)
  have step: "f (Suc n) d = put_u32 (p + 12 + 4 * n) (xs ! n) (f n d)" by (simp add: f_def)
  have le: "p + 12 + 4 * n \<le> length d" if "p + 12 + 4 * Suc n \<le> length d" using that by simp
  {
    case 1
    then show ?case using Suc.IH(1) by (simp add: step)
  next
    case 2
    then show ?case using Suc.IH(1,2) by (auto simp: step layout_simps)
  next
    case 3
    then show ?case using Suc.IH(1,3) by (auto simp: step layout_simps)
  next
    case 4
    then show ?case using Suc.IH(1,4) by (cases "k = n") (simp_all add: step layout_simps)
  next
    case 5
    then show ?case using Suc.IH(1,5) by (auto simp: step put_u32_def slice_splice_disj)
  }
qed (simp_all add: f_def)

text \<open>The values a C inode can hold.\<close>

definition inode_range :: "inode \<Rightarrow> bool" where
  "inode_range ino \<longleftrightarrow> (\<forall>x \<in> {i_type ino, i_major ino, i_minor ino, i_nlink ino}. -32768 \<le> x \<and> x < 32768) \<and>
     i_size ino < 2 ^ 32 \<and> length (i_addrs ino) = NDIRECT + 1 \<and> (\<forall>a \<in> set (i_addrs ino). a < 2 ^ 32)"

lemma of_short_mod [simp]: "of_short x mod 65536 = of_short x" by (simp add: mod_less)

lemma length_store_dinode:
  assumes "p + DINODE_SIZE \<le> length d"
  shows "length (store_dinode p ino d) = length d"
  using assms unfolding store_dinode_def Let_def
  by (subst store_addrs(1)) (simp_all add: DINODE_SIZE_def NDIRECT_def)

text \<open>Storing an inode and loading it again gives it back; the other inodes of the block are untouched.\<close>

lemma load_store_dinode:
  assumes p: "p + DINODE_SIZE \<le> length d" and r: "inode_range ino"
  shows "load_dinode p (store_dinode p ino d) old =
    old\<lparr>i_type := i_type ino, i_major := i_major ino, i_minor := i_minor ino, i_nlink := i_nlink ino,
      i_size := i_size ino, i_addrs := i_addrs ino\<rparr>"
proof -
  define d5 where "d5 = put_u32 (p + 8) (i_size ino) (put_u16 (p + 6) (of_short (i_nlink ino)) (put_u16 (p + 4) (of_short (i_minor ino))
    (put_u16 (p + 2) (of_short (i_major ino)) (put_u16 p (of_short (i_type ino)) d))))"
  have len: "p + 12 + 4 * (NDIRECT + 1) \<le> length d5" using p by (simp add: d5_def DINODE_SIZE_def NDIRECT_def)
  have st: "store_dinode p ino d = fold (\<lambda>k d. put_u32 (p + 12 + 4 * k) (i_addrs ino ! k) d) [0..<NDIRECT + 1] d5"
    by (simp add: store_dinode_def Let_def d5_def)
  note A = store_addrs [OF len, where xs = "i_addrs ino", folded st]
  have small: "get_u16 p (store_dinode p ino d) = of_short (i_type ino)"
    "get_u16 (p + 2) (store_dinode p ino d) = of_short (i_major ino)"
    "get_u16 (p + 4) (store_dinode p ino d) = of_short (i_minor ino)"
    "get_u16 (p + 6) (store_dinode p ino d) = of_short (i_nlink ino)"
    "get_u32 (p + 8) (store_dinode p ino d) = i_size ino"
    using p r A(2) A(3) by (simp_all add: d5_def layout_simps DINODE_SIZE_def inode_range_def)
  have "map (\<lambda>k. get_u32 (p + 12 + 4 * k) (store_dinode p ino d)) [0..<NDIRECT + 1] = i_addrs ino"
  proof (rule nth_equalityI)
    fix k assume "k < length (map (\<lambda>k. get_u32 (p + 12 + 4 * k) (store_dinode p ino d)) [0..<NDIRECT + 1])"
    then have k: "k < NDIRECT + 1" by simp
    then have "i_addrs ino ! k < 2 ^ 32" using r by (simp add: inode_range_def)
    then show "map (\<lambda>k. get_u32 (p + 12 + 4 * k) (store_dinode p ino d)) [0..<NDIRECT + 1] ! k = i_addrs ino ! k"
      using k A(4) [OF k] by (simp del: upt_Suc)
  qed (use r in \<open>simp add: inode_range_def\<close>)
  then show ?thesis using r unfolding load_dinode_def small by (simp add: inode_range_def)
qed

lemma store_dinode_other:
  assumes "p + DINODE_SIZE \<le> length d" "q + m \<le> p \<or> p + DINODE_SIZE \<le> q"
  shows "slice q m (store_dinode p ino d) = slice q m d"
proof -
  define d5 where "d5 = put_u32 (p + 8) (i_size ino) (put_u16 (p + 6) (of_short (i_nlink ino)) (put_u16 (p + 4) (of_short (i_minor ino))
    (put_u16 (p + 2) (of_short (i_major ino)) (put_u16 p (of_short (i_type ino)) d))))"
  have len: "p + 12 + 4 * (NDIRECT + 1) \<le> length d5" using assms(1) by (simp add: d5_def DINODE_SIZE_def NDIRECT_def)
  have st: "store_dinode p ino d = fold (\<lambda>k d. put_u32 (p + 12 + 4 * k) (i_addrs ino ! k) d) [0..<NDIRECT + 1] d5"
    by (simp add: store_dinode_def Let_def d5_def)
  have "slice q m (store_dinode p ino d) = slice q m d5"
    unfolding st using assms by (intro store_addrs(5) [OF len]) (auto simp: DINODE_SIZE_def NDIRECT_def)
  also have "\<dots> = slice q m d"
    using assms by (auto simp: d5_def put_u32_def put_u16_def slice_splice_disj DINODE_SIZE_def)
  finally show ?thesis .
qed

section \<open>Writing an inode back\<close>

lemma dinode_off_fits: "dinode_off i + DINODE_SIZE \<le> BSIZE"
proof -
  have "i mod IPB \<le> 15" using mod_less_divisor [of IPB i] by (simp add: IPB_def)
  then show ?thesis by (simp add: dinode_off_def DINODE_SIZE_def BSIZE_def)
qed

lemma iupdate_log_update:
  assumes "i_dev (icache s ! ip) = 1"
  shows "iupdate ip s = log_update (IBLOCK (i_inum (icache s ! ip)))
    (store_dinode (dinode_off (i_inum (icache s ! ip))) (icache s ! ip)) s"
proof -
  have "icache s1 = icache s" if "bread 1 n s = Inr (b, s1)" for n b s1
    using fs_more_bio [OF bread_more [OF that]] .
  then show ?thesis
    unfolding iupdate_def log_update_def assms Let_def by (intro res_bind_cong [OF refl]) auto
qed

lemma iupdate_effect:
  assumes g: "bm_geom s" and rm: "room s T" and ino: "i_dev (icache s ! ip) = 1" "i_inum (icache s ! ip) < sb_ninodes (sbof s)"
    and b: "IBLOCK (i_inum (icache s ! ip)) \<notin> busyS s" "IBLOCK (i_inum (icache s ! ip)) \<in> T"
  defines "B \<equiv> IBLOCK (i_inum (icache s ! ip))"
  shows "\<exists>s'. iupdate ip s = Inr s' \<and> eff s T s' \<and> bm_geom s' \<and> icache s' = icache s \<and> log_state.more s' = log_state.more s \<and>
    hv s' = (hv s)(B := store_dinode (dinode_off (i_inum (icache s ! ip))) (icache s ! ip) (hv s B))"
proof -
  note M = iblock_meta [OF g ino(2), folded B_def]
  have len: "length (hv s B) = BSIZE" using hv_length [OF room_inv [OF rm] M(4)] .
  have "\<exists>s'. log_update B (store_dinode (dinode_off (i_inum (icache s ! ip))) (icache s ! ip)) s = Inr s' \<and> eff s T s' \<and>
      hv s' = (hv s)(B := store_dinode (dinode_off (i_inum (icache s ! ip))) (icache s ! ip) (hv s B)) \<and>
      log_state.more s' = log_state.more s"
    by (rule tx_update [OF rm M(4)])
      (use b len dinode_off_fits in \<open>simp_all add: B_def [symmetric] length_store_dinode\<close>)
  then obtain s' where s': "log_update B (store_dinode (dinode_off (i_inum (icache s ! ip))) (icache s ! ip)) s = Inr s'"
      "eff s T s'" "hv s' = (hv s)(B := store_dinode (dinode_off (i_inum (icache s ! ip))) (icache s ! ip) (hv s B))"
      "log_state.more s' = log_state.more s" by blast
  have "bm_geom s'"
    by (rule bitmap_same(6) [OF g s'(2)]) (use M s'(3) in auto)
  then show ?thesis using s' fs_more [OF s'(4)] iupdate_log_update [OF ino(1)] by (auto simp: B_def)
qed

lemma ilock_effect:
  assumes inv: "log_inv s" and rm: "card (busyS s \<union> dirtyS s) < NBUF"
    and ip: "ip < length (icache s)" "1 \<le> i_ref (icache s ! ip)" "\<not> i_busy (icache s ! ip)" "\<not> i_valid (icache s ! ip)"
      "i_dev (icache s ! ip) = 1"
    and b: "home_ok s (IBLOCK (i_inum (icache s ! ip)))" "IBLOCK (i_inum (icache s ! ip)) \<notin> busyS s"
  defines "ino \<equiv> load_dinode (dinode_off (i_inum (icache s ! ip))) (hv s (IBLOCK (i_inum (icache s ! ip))))
      ((icache s ! ip)\<lparr>i_busy := True\<rparr>)"
  assumes ty: "i_type ino \<noteq> 0"
  shows "\<exists>s'. ilock ip s = Inr s' \<and> eff s {} s' \<and> hv s' = hv s \<and> icache s' = (icache s)[ip := ino\<lparr>i_valid := True\<rparr>]"
proof -
  define s0 where "s0 = upd_ip ip (\<lambda>i. i\<lparr>i_busy := True\<rparr>) s"
  define B where "B = IBLOCK (i_inum (icache s ! ip))"
  define p where "p = dinode_off (i_inum (icache s ! ip))"
  have h0: "log_inv s0" "home_ok s0 B" "B \<notin> busyS s0" "card (busyS s0 \<union> dirtyS s0) < NBUF"
    using inv b rm by (simp_all add: s0_def B_def)
  obtain i s1 where s1: "bread 1 B s0 = Inr (i, s1)" "log_inv s1" "has_buf s1 i B" "buf_data i s1 = hv s0 B"
      "hv s1 = hv s0" "busyS s1 = insert B (busyS s0)" "dirtyS s1 = dirtyS s0"
      "\<forall>j m. has_buf s0 j m \<longrightarrow> j \<noteq> i \<and> has_buf s1 j m" "bio_state.more s1 = bio_state.more s0"
      "memdisk s1 = memdisk s0" "writes s1 = writes s0" "synced s1 B"
    using tx_bread [OF h0] by blast
  define s2 where "s2 = upd_ip ip (load_dinode p (buf_data i s1)) s1"
  have ic1: "icache s1 = icache s0" by (rule fs_more_bio [OF s1(9)])
  have ic2: "icache s2 = (icache s)[ip := ino]"
    using ip(1) by (simp add: s2_def ic1 s0_def ino_def s1(4) B_def p_def)
  have "synced s2 B" using s1(12) by (simp add: s2_def upd_ip_def)
  moreover have "log_inv s2" "has_buf s2 i B" using s1(2,3) by (simp_all add: s2_def upd_ip_def)
  ultimately obtain s3 where s3: "brelse i s2 = Inr s3" "log_inv s3" "hv s3 = hv s2" "busyS s3 = busyS s2 - {B}"
      "dirtyS s3 = dirtyS s2" "\<forall>j m. j \<noteq> i \<longrightarrow> has_buf s3 j m = has_buf s2 j m" "bio_state.more s3 = bio_state.more s2"
      "memdisk s3 = memdisk s2" "writes s3 = writes s2"
    using tx_brelse by blast
  have ic3: "icache s3 = (icache s)[ip := ino]" using fs_more_bio [OF s3(7)] ic2 by simp
  have "tx_frame s0 s1" by (rule tx_frame_more [OF s1(9-11)])
  moreover have "tx_frame s2 s3" by (rule tx_frame_more [OF s3(7-9)])
  ultimately have fr: "tx_frame s s3"
    using tx_frame_trans [of s s1 s3] by (auto simp: s2_def s0_def upd_ip_def tx_frame_def log_only_def in_log_def)
  have "eff s {} s3"
    using fr s3 s1 h0(3) by (auto simp: eff_def s2_def s0_def upd_ip_def)
  moreover have "hv s3 = hv s" using s3(3) s1(5) by (simp add: s2_def s0_def)
  moreover have "ilock ip s = Inr (upd_ip ip (\<lambda>i. i\<lparr>i_valid := True\<rparr>) s3)"
    using ip s1(1) s3(1) ic3 ty
    by (simp add: ilock_def Let_def s0_def [symmetric] del: upd_ip_simps)
      (simp add: s0_def B_def [symmetric] p_def [symmetric] s2_def [symmetric])
  ultimately show ?thesis using ic3 ip(1) by auto
qed

text \<open>The metadata a disk inode carries.\<close>

definition same_meta :: "inode \<Rightarrow> inode \<Rightarrow> bool" where
  "same_meta a b \<longleftrightarrow> i_type a = i_type b \<and> i_major a = i_major b \<and> i_minor a = i_minor b \<and> i_nlink a = i_nlink b \<and>
     i_size a = i_size b \<and> i_addrs a = i_addrs b"

text \<open>C29: What \<open>iupdate\<close> writes is what \<open>ilock\<close> reads: after \<open>iupdate\<close> of a cached inode, and whatever then
  becomes of the inode cache, locking an entry for the same inode that is not yet valid succeeds
  and finds the same type, device numbers, link count, size and block addresses.\<close>

theorem iupdate_ilock_roundtrip:
  assumes g: "bm_geom s" and rm: "room s {IBLOCK (i_inum (icache s ! ip))}" and q: "busyS s = {}"
    and ino: "i_dev (icache s ! ip) = 1" "i_inum (icache s ! ip) < sb_ninodes (sbof s)" "inode_range (icache s ! ip)"
      "i_type (icache s ! ip) \<noteq> 0"
    and jp: "jp < length ic" "1 \<le> i_ref (ic ! jp)" "\<not> i_busy (ic ! jp)" "\<not> i_valid (ic ! jp)"
      "i_dev (ic ! jp) = 1" "i_inum (ic ! jp) = i_inum (icache s ! ip)"
  shows "\<exists>s1 s2. iupdate ip s = Inr s1 \<and> ilock jp (s1\<lparr>icache := ic\<rparr>) = Inr s2 \<and> same_meta (icache s2 ! jp) (icache s ! ip) \<and>
    i_valid (icache s2 ! jp) \<and> i_busy (icache s2 ! jp)"
proof -
  define B where "B = IBLOCK (i_inum (icache s ! ip))"
  define p where "p = dinode_off (i_inum (icache s ! ip))"
  from iupdate_effect [OF g rm ino(1,2)] q obtain s1 where s1: "iupdate ip s = Inr s1" "eff s {B} s1"
      "bm_geom s1" "icache s1 = icache s" "hv s1 = (hv s)(B := store_dinode p (icache s ! ip) (hv s B))"
    by (auto simp: B_def p_def)
  have h: "home_ok s1 B" "busyS s1 = {}" "log_inv s1"
    using iblock_meta(4) [OF g ino(2)] eff_home [OF s1(2)] q s1(2) by (simp_all add: B_def eff_def)
  have "length (hv s B) = BSIZE" using hv_length [OF room_inv [OF rm]] iblock_meta(4) [OF g ino(2)] by (simp add: B_def)
  then have ld: "load_dinode p (hv s1 B) old = old\<lparr>i_type := i_type (icache s ! ip), i_major := i_major (icache s ! ip),
      i_minor := i_minor (icache s ! ip), i_nlink := i_nlink (icache s ! ip),
      i_size := i_size (icache s ! ip), i_addrs := i_addrs (icache s ! ip)\<rparr>" for old
    using load_store_dinode [OF _ ino(3), of p "hv s B"] dinode_off_fits [of "i_inum (icache s ! ip)"]
    by (simp add: s1(5) p_def)
  define t where "t = s1\<lparr>icache := ic\<rparr>"
  have T: "log_inv t" "home_ok t B" "busyS t = {}" "dirtyS t = dirtyS s1" "hv t = hv s1" "icache t = ic"
    using h by (simp_all add: t_def)
  have "card (busyS t \<union> dirtyS t) < NBUF" using room_card [OF room_eff [OF rm [folded B_def] s1(2)]] h(2) T(3,4) by simp
  from ilock_effect [OF T(1) this, of jp] jp T ld ino(4) obtain s2 where s2: "ilock jp t = Inr s2"
      "icache s2 = ic[jp := (load_dinode p (hv s1 B) ((ic ! jp)\<lparr>i_busy := True\<rparr>))\<lparr>i_valid := True\<rparr>]"
    by (auto simp: B_def p_def)
  then show ?thesis using s1(1) jp(1) by (intro exI [of _ s1] exI [of _ s2]) (simp add: ld same_meta_def t_def)
qed

section \<open>Reference counts\<close>

text \<open>The cache is a partial map from inodes to reference counts: every entry in use is for a
  different inode.\<close>

definition icache_ok :: "'a fs_state_scheme \<Rightarrow> bool" where
  "icache_ok s \<longleftrightarrow> length (icache s) = NINODE \<and> (\<forall>i < NINODE. 0 \<le> i_ref (icache s ! i)) \<and>
     (\<forall>i < NINODE. \<forall>j < NINODE. 0 < i_ref (icache s ! i) \<and> 0 < i_ref (icache s ! j) \<and>
        i_dev (icache s ! i) = i_dev (icache s ! j) \<and> i_inum (icache s ! i) = i_inum (icache s ! j) \<longrightarrow> i = j)"

definition islot :: "'a fs_state_scheme \<Rightarrow> nat \<times> nat \<Rightarrow> nat option" where
  "islot s k = find_index (\<lambda>i. i_ref i > 0 \<and> i_dev i = fst k \<and> i_inum i = snd k) (icache s)"

definition irefs :: "'a fs_state_scheme \<Rightarrow> nat \<times> nat \<Rightarrow> int" where
  "irefs s k = (case islot s k of Some i \<Rightarrow> i_ref (icache s ! i) | None \<Rightarrow> 0)"

lemma icache_uniq:
  "icache_ok s \<Longrightarrow> i < NINODE \<Longrightarrow> j < NINODE \<Longrightarrow> 0 < i_ref (icache s ! i) \<Longrightarrow> 0 < i_ref (icache s ! j) \<Longrightarrow>
    i_dev (icache s ! i) = i_dev (icache s ! j) \<Longrightarrow> i_inum (icache s ! i) = i_inum (icache s ! j) \<Longrightarrow> i = j"
  by (simp add: icache_ok_def)

lemma islot_Some:
  assumes "icache_ok s"
  shows "islot s k = Some i \<longleftrightarrow>
    i < NINODE \<and> 0 < i_ref (icache s ! i) \<and> i_dev (icache s ! i) = fst k \<and> i_inum (icache s ! i) = snd k"
proof
  assume a: "islot s k = Some i"
  show "i < NINODE \<and> 0 < i_ref (icache s ! i) \<and> i_dev (icache s ! i) = fst k \<and> i_inum (icache s ! i) = snd k"
    using assms find_index_SomeD(1,2) [OF a [unfolded islot_def]] by (simp add: icache_ok_def)
next
  assume i: "i < NINODE \<and> 0 < i_ref (icache s ! i) \<and> i_dev (icache s ! i) = fst k \<and> i_inum (icache s ! i) = snd k"
  have len: "length (icache s) = NINODE" using assms by (simp add: icache_ok_def)
  have "\<not> (0 < i_ref (icache s ! j) \<and> i_dev (icache s ! j) = fst k \<and> i_inum (icache s ! j) = snd k)" if "j < i" for j
    using icache_uniq [OF assms, of j i] i that by auto
  then show "islot s k = Some i" using i len by (simp add: islot_def find_index_Some)
qed

lemma irefs_eq:
  assumes "icache_ok s" "i < NINODE" "0 < i_ref (icache s ! i)"
  shows "irefs s (i_dev (icache s ! i), i_inum (icache s ! i)) = i_ref (icache s ! i)"
  using islot_Some [OF assms(1), of "(i_dev (icache s ! i), i_inum (icache s ! i))" i] assms by (simp add: irefs_def)

lemma islot_None: "icache_ok s \<Longrightarrow> islot s k = None \<longleftrightarrow> irefs s k = 0"
proof (cases "islot s k")
  case (Some i)
  assume ok: "icache_ok s"
  from Some islot_Some [OF ok, of k i] show ?thesis by (simp add: irefs_def)
qed (simp add: irefs_def)

lemma irefs_nonneg: "icache_ok s \<Longrightarrow> 0 \<le> irefs s k"
proof (cases "islot s k")
  case (Some i)
  assume ok: "icache_ok s"
  from Some islot_Some [OF ok, of k i] show ?thesis by (simp add: irefs_def)
qed (simp add: irefs_def)

text \<open>Changing the count of one entry, or turning a free entry into one for a new inode.\<close>

lemma icache_change:
  assumes ok: "icache_ok s" and i: "i < NINODE" and ref: "0 \<le> i_ref (f (icache s ! i))"
    and new: "0 < i_ref (icache s ! i) \<and> i_dev (f (icache s ! i)) = i_dev (icache s ! i) \<and> i_inum (f (icache s ! i)) = i_inum (icache s ! i)
      \<or> i_ref (icache s ! i) = 0 \<and> islot s (i_dev (f (icache s ! i)), i_inum (f (icache s ! i))) = None"
  defines "k \<equiv> (i_dev (f (icache s ! i)), i_inum (f (icache s ! i)))"
  shows "icache_ok (upd_ip i f s)" "irefs (upd_ip i f s) = (irefs s)(k := i_ref (f (icache s ! i)))"
proof -
  have len: "length (icache s) = NINODE" using ok by (simp add: icache_ok_def)
  have other: "j = i" if "j < NINODE" "0 < i_ref (icache s ! j)" "i_dev (icache s ! j) = fst k" "i_inum (icache s ! j) = snd k" for j
    using new islot_Some [OF ok, of k j] islot_Some [OF ok, of k i] i that by (auto simp: k_def)
  have nth: "icache (upd_ip i f s) ! j = (if j = i then f (icache s ! i) else icache s ! j)" for j
    using i len by simp
  show ok': "icache_ok (upd_ip i f s)"
    unfolding icache_ok_def nth using ok ref other i len
    by (auto simp: icache_ok_def k_def)
  show "irefs (upd_ip i f s) = (irefs s)(k := i_ref (f (icache s ! i)))"
  proof
    fix k'
    show "irefs (upd_ip i f s) k' = ((irefs s)(k := i_ref (f (icache s ! i)))) k'"
    proof (cases "k' = k")
      case True
      show ?thesis
      proof (cases "0 < i_ref (f (icache s ! i))")
        case True
        then show ?thesis using irefs_eq [OF ok' i] \<open>k' = k\<close> by (simp add: nth k_def del: upd_ip_simps(1))
      next
        case False
        have "islot (upd_ip i f s) k = None"
        proof (rule ccontr)
          assume "islot (upd_ip i f s) k \<noteq> None"
          then obtain j where "islot (upd_ip i f s) k = Some j" by auto
          then have j: "j < NINODE" "0 < i_ref (icache (upd_ip i f s) ! j)" "i_dev (icache (upd_ip i f s) ! j) = fst k"
              "i_inum (icache (upd_ip i f s) ! j) = snd k"
            using islot_Some [OF ok', of k j] by auto
          show False
          proof (cases "j = i")
            case True
            then show ?thesis using j(2) False by (simp add: nth del: upd_ip_simps(1))
          next
            case False
            then show ?thesis using j other [of j] by (simp add: nth del: upd_ip_simps(1))
          qed
        qed
        then show ?thesis using True False ref by (simp add: irefs_def)
      qed
    next
      case False
      have "islot (upd_ip i f s) k' = Some j \<longleftrightarrow> islot s k' = Some j" for j
        using False new unfolding islot_Some [OF ok'] islot_Some [OF ok]
        by (cases "j = i") (auto simp: nth k_def simp del: upd_ip_simps(1))
      then have eq: "islot (upd_ip i f s) k' = islot s k'" by (metis not_None_eq)
      moreover have "j \<noteq> i" if "islot s k' = Some j" for j
        using that False new unfolding islot_Some [OF ok] by (auto simp: k_def)
      ultimately show ?thesis using False by (auto simp: irefs_def nth simp del: upd_ip_simps(1) split: option.split)
    qed
  qed
qed

lemma iget_cases:
  assumes ok: "icache_ok s"
  shows "iget dev inum s = (case islot s (dev, inum) of
      Some ip \<Rightarrow> Inr (ip, upd_ip ip (\<lambda>i. i\<lparr>i_ref := i_ref i + 1\<rparr>) s)
    | None \<Rightarrow> (case find_index (\<lambda>i. i_ref i = 0) (icache s) of
        None \<Rightarrow> Inl (Panic ''iget: no inodes'')
      | Some ip \<Rightarrow> Inr (ip, upd_ip ip (\<lambda>i. i\<lparr>i_dev := dev, i_inum := inum, i_ref := 1, i_busy := False, i_valid := False\<rparr>) s)))"
  by (simp add: iget_def islot_def)

lemma iget_effect:
  assumes ok: "icache_ok s" and r: "iget dev inum s = Inr (ip, s')"
  shows "icache_ok s'" "irefs s' = (irefs s)((dev, inum) := irefs s (dev, inum) + 1)" "ip < NINODE"
    "i_dev (icache s' ! ip) = dev" "i_inum (icache s' ! ip) = inum" "islot s' (dev, inum) = Some ip"
    "\<And>j. j \<noteq> ip \<Longrightarrow> icache s' ! j = icache s ! j"
    "hv s' = hv s" "\<exists>f. s' = upd_ip ip f s"
    "0 < irefs s (dev, inum) \<Longrightarrow> islot s (dev, inum) = Some ip \<and> icache s' ! ip = (icache s ! ip)\<lparr>i_ref := i_ref (icache s ! ip) + 1\<rparr>"
    "irefs s (dev, inum) = 0 \<Longrightarrow> \<not> i_busy (icache s' ! ip) \<and> \<not> i_valid (icache s' ! ip)"
proof -
  have len: "length (icache s) = NINODE" using ok by (simp add: icache_ok_def)
  have "\<exists>f. ip < NINODE \<and> s' = upd_ip ip f s \<and> i_dev (f (icache s ! ip)) = dev \<and> i_inum (f (icache s ! ip)) = inum \<and>
      i_ref (f (icache s ! ip)) = irefs s (dev, inum) + 1 \<and>
      (0 < i_ref (icache s ! ip) \<and> i_dev (icache s ! ip) = dev \<and> i_inum (icache s ! ip) = inum \<and> f (icache s ! ip) = (icache s ! ip)\<lparr>i_ref := i_ref (icache s ! ip) + 1\<rparr> \<or>
       i_ref (icache s ! ip) = 0 \<and> islot s (dev, inum) = None \<and> \<not> i_busy (f (icache s ! ip)) \<and> \<not> i_valid (f (icache s ! ip)))"
  proof (cases "islot s (dev, inum)")
    case (Some j)
    with r have j: "j = ip" "s' = upd_ip ip (\<lambda>i. i\<lparr>i_ref := i_ref i + 1\<rparr>) s" by (auto simp: iget_cases [OF ok])
    have "ip < NINODE \<and> 0 < i_ref (icache s ! ip) \<and> i_dev (icache s ! ip) = dev \<and> i_inum (icache s ! ip) = inum"
      using Some islot_Some [OF ok, of "(dev, inum)" ip] j(1) by simp
    then show ?thesis using j Some by (intro exI [of _ "\<lambda>i. i\<lparr>i_ref := i_ref i + 1\<rparr>"]) (simp add: irefs_def)
  next
    case None
    with r obtain j where j: "find_index (\<lambda>i. i_ref i = 0) (icache s) = Some j"
      by (auto simp: iget_cases [OF ok] split: option.splits)
    define f where "f = (\<lambda>i. i\<lparr>i_dev := dev, i_inum := inum, i_ref := 1, i_busy := False, i_valid := False\<rparr> :: inode)"
    have "ip = j" "s' = upd_ip ip f s" using r None j by (auto simp: iget_cases [OF ok] f_def)
    then show ?thesis
      using find_index_SomeD(1,2) [OF j] len None by (intro exI [of _ f]) (simp add: f_def irefs_def)
  qed
  then obtain f where f: "ip < NINODE" "s' = upd_ip ip f s" "i_dev (f (icache s ! ip)) = dev" "i_inum (f (icache s ! ip)) = inum"
      "i_ref (f (icache s ! ip)) = irefs s (dev, inum) + 1"
      "0 < i_ref (icache s ! ip) \<and> i_dev (icache s ! ip) = dev \<and> i_inum (icache s ! ip) = inum \<and> f (icache s ! ip) = (icache s ! ip)\<lparr>i_ref := i_ref (icache s ! ip) + 1\<rparr> \<or>
       i_ref (icache s ! ip) = 0 \<and> islot s (dev, inum) = None \<and> \<not> i_busy (f (icache s ! ip)) \<and> \<not> i_valid (f (icache s ! ip))" by blast
  have nn: "0 \<le> irefs s k" for k by (rule irefs_nonneg [OF ok])
  have C: "icache_ok s'" "irefs s' = (irefs s)((dev, inum) := irefs s (dev, inum) + 1)"
  proof -
    have ref: "0 \<le> i_ref (f (icache s ! ip))" using f(5) nn [of "(dev, inum)"] by simp
    have new: "0 < i_ref (icache s ! ip) \<and> i_dev (f (icache s ! ip)) = i_dev (icache s ! ip) \<and> i_inum (f (icache s ! ip)) = i_inum (icache s ! ip)
      \<or> i_ref (icache s ! ip) = 0 \<and> islot s (i_dev (f (icache s ! ip)), i_inum (f (icache s ! ip))) = None"
      using f(6) unfolding f(3,4) by (elim disjE) (simp_all only: simp_thms)
    show "icache_ok s'" "irefs s' = (irefs s)((dev, inum) := irefs s (dev, inum) + 1)"
      using icache_change [where f = f, OF ok f(1) ref new] unfolding f(2-5) by (simp_all only:)
  qed
  have ip': "icache s' ! ip = f (icache s ! ip)" using f(1,2) len by simp
  show "icache_ok s'" "irefs s' = (irefs s)((dev, inum) := irefs s (dev, inum) + 1)" "ip < NINODE"
    "i_dev (icache s' ! ip) = dev" "i_inum (icache s' ! ip) = inum"
    using C f(1,3,4) ip' by simp_all
  show "islot s' (dev, inum) = Some ip"
    using islot_Some [OF C(1), of "(dev, inum)" ip] f(1,3-5) ip' nn [of "(dev, inum)"] by simp
  show "\<And>j. j \<noteq> ip \<Longrightarrow> icache s' ! j = icache s ! j" "hv s' = hv s" using f(2) by simp_all
  show "\<exists>f. s' = upd_ip ip f s" using f(2) by blast
  show "0 < irefs s (dev, inum) \<Longrightarrow> islot s (dev, inum) = Some ip \<and> icache s' ! ip = (icache s ! ip)\<lparr>i_ref := i_ref (icache s ! ip) + 1\<rparr>"
    using f(1,6) ip' islot_Some [OF ok, of "(dev, inum)" ip] by (auto simp: irefs_def)
  show "irefs s (dev, inum) = 0 \<Longrightarrow> \<not> i_busy (icache s' ! ip) \<and> \<not> i_valid (icache s' ! ip)"
    using f(6) ip' irefs_eq [OF ok f(1)] by auto
qed

text \<open>The inode cache counts references. In a consistent cache, \<open>iget\<close> panics exactly when the
  inode is not cached and every entry is in use; otherwise it returns the one entry for the
  inode, adds one to the inode's count, leaves all other counts alone and keeps the cache
  consistent (no inode ever has two entries in use).\<close>

theorem iget_counts:
  assumes ok: "icache_ok s"
  shows "if irefs s (dev, inum) = 0 \<and> (\<forall>i < NINODE. i_ref (icache s ! i) \<noteq> 0) then iget dev inum s = Inl (Panic ''iget: no inodes'')
    else \<exists>ip s'. iget dev inum s = Inr (ip, s') \<and> icache_ok s' \<and> islot s' (dev, inum) = Some ip \<and>
      irefs s' = (irefs s)((dev, inum) := irefs s (dev, inum) + 1)"
proof -
  have len: "length (icache s) = NINODE" using ok by (simp add: icache_ok_def)
  have none: "islot s (dev, inum) = None \<longleftrightarrow> irefs s (dev, inum) = 0"
    by (rule islot_None [OF ok])
  have full: "find_index (\<lambda>i. i_ref i = 0) (icache s) = None \<longleftrightarrow> (\<forall>i < NINODE. i_ref (icache s ! i) \<noteq> 0)"
    using len by (simp add: find_index_None all_set_conv_all_nth)
  show ?thesis
  proof (cases "irefs s (dev, inum) = 0 \<and> (\<forall>i < NINODE. i_ref (icache s ! i) \<noteq> 0)")
    case True
    then have "iget dev inum s = Inl (Panic ''iget: no inodes'')"
      using none full by (simp add: iget_cases [OF ok])
    with True show ?thesis by simp
  next
    case False
    then obtain ip s' where r: "iget dev inum s = Inr (ip, s')"
      using none full by (auto simp: iget_cases [OF ok] split: option.splits)
    then have "\<exists>ip s'. iget dev inum s = Inr (ip, s') \<and> icache_ok s' \<and> islot s' (dev, inum) = Some ip \<and>
        irefs s' = (irefs s)((dev, inum) := irefs s (dev, inum) + 1)"
      using iget_effect(1,2,6) [OF ok r] by blast
    with False show ?thesis by (simp only: if_False)
  qed
qed

section \<open>Witnesses\<close>

text \<open>The small image inside a transaction, with inode 2 cached and locked in entry 0, and the same
  inode cached but not yet read in a fresh cache.\<close>

definition demo_ino :: inode where
  "demo_ino = \<lparr>i_dev = 1, i_inum = 2, i_ref = 1, i_busy = True, i_valid = True, i_type = 2, i_major = 0, i_minor = 0,
     i_nlink = 1, i_size = 5, i_addrs = 5 # replicate 12 0\<rparr>"

definition demo_free :: inode where
  "demo_free = \<lparr>i_dev = 0, i_inum = 0, i_ref = 0, i_busy = False, i_valid = False, i_type = 0, i_major = 0, i_minor = 0,
     i_nlink = 0, i_size = 0, i_addrs = replicate 13 0\<rparr>"

definition demo_fs :: fs_state where
  "demo_fs = demo_tx (fs_state.fields (demo_ino # replicate 49 demo_free))"

lemma fs_more_icache: "log_state.more s = fs_state.fields l \<Longrightarrow> icache s = l"
  by (cases s) (simp add: fs_state.defs)

lemma demo_fs_icache: "icache demo_fs = demo_ino # replicate 49 demo_free" "icache demo_fs ! 0 = demo_ino"
proof -
  show "icache demo_fs = demo_ino # replicate 49 demo_free" unfolding demo_fs_def by (rule fs_more_icache) (rule demo_tx_inv(7))
  then show "icache demo_fs ! 0 = demo_ino" by simp
qed

lemma demo_fs_state:
  "bm_geom demo_fs" "busyS demo_fs = {}" "dirtyS demo_fs = {}" "sb_ninodes (sbof demo_fs) = 16" "bmS demo_fs = {4}"
  "k + card T < 10 \<Longrightarrow> finite T \<Longrightarrow> slack demo_fs T k" "log_inv demo_fs" "home_ok demo_fs b \<longleftrightarrow> b < 9"
  "b < 9 \<Longrightarrow> hv demo_fs b = demo_img ! b" "b < 20 \<Longrightarrow> used demo_fs b \<longleftrightarrow> b \<noteq> 7 \<and> b \<noteq> 8" "metaS demo_fs = {0, 1, 2, 4}"
  "sb_size (sbof demo_fs) = 20"
  by (simp_all add: demo_fs_def demo_tx_geom demo_tx_inv demo_tx_sb demo_tx_bitmap demo_tx_cap slack_def)

theorem iupdate_ilock_roundtrip_witness:
  "\<exists>s1 s2. iupdate 0 demo_fs = Inr s1 \<and>
    ilock 0 (s1\<lparr>icache := [demo_ino\<lparr>i_busy := False, i_valid := False, i_size := 77\<rparr>]\<rparr>) = Inr s2 \<and> i_size (icache s2 ! 0) = 5"
proof -
  have ino: "i_dev (icache demo_fs ! 0) = 1" "i_inum (icache demo_fs ! 0) < sb_ninodes (sbof demo_fs)"
      "inode_range (icache demo_fs ! 0)" "i_type (icache demo_fs ! 0) \<noteq> 0"
    by (simp_all add: demo_fs_icache demo_fs_state demo_ino_def inode_range_def NDIRECT_def nth_Cons')
  have rm: "room demo_fs {IBLOCK (i_inum (icache demo_fs ! 0))}"
    using slack_room [OF demo_fs_state(6) [of 1 "{IBLOCK (i_inum (icache demo_fs ! 0))}"], of "{}"] by (simp add: NBUF_def)
  from iupdate_ilock_roundtrip [OF demo_fs_state(1) rm demo_fs_state(2) ino,
      of 0 "[demo_ino\<lparr>i_busy := False, i_valid := False, i_size := 77\<rparr>]"]
  show ?thesis by (auto simp: demo_fs_icache demo_ino_def same_meta_def)
qed

theorem iget_counts_witness:
  "\<exists>s'. iget 1 2 demo_fs = Inr (0, s') \<and> irefs s' (1, 2) = 2 \<and> icache_ok s'"
proof -
  have ok: "icache_ok demo_fs"
    by (auto simp: icache_ok_def demo_fs_icache NINODE_def nth_Cons' demo_ino_def demo_free_def)
  have ref: "islot demo_fs (1, 2) = Some 0" "irefs demo_fs (1, 2) = 1"
    using islot_Some [OF ok, of "(1, 2)" 0] by (simp_all add: demo_fs_icache demo_ino_def irefs_def NINODE_def)
  obtain ip s' where r: "iget 1 2 demo_fs = Inr (ip, s')" "icache_ok s'" "irefs s' (1, 2) = 2"
    using iget_counts [OF ok, of 1 2] ref by auto
  have "ip = 0" using iget_effect(10) [OF ok r(1)] ref by simp
  with r show ?thesis by auto
qed

end
