(* ===== verification/Fs_File.thy ===== *)
theory Fs_File
  imports Fs_Inode
begin

text \<open>
  What \<open>bmap\<close>, \<open>readi\<close> and \<open>writei\<close> do to the content of a file. \<open>faddr\<close> is the block that holds the
  \<open>bn\<close>th block of a file, \<open>fbyte\<close> its \<open>i\<close>th byte; \<open>blocks_ok\<close> says that the block addresses of a file are
  distinct allocated data blocks. The theorems: \<open>readi\<close> returns the bytes of the file; \<open>writei\<close>
  changes exactly the bytes it is given, extends the size, allocates what is missing, and
  fits into a transaction.
\<close>

section \<open>The blocks of a file\<close>

definition faddr :: "'a log_state_scheme \<Rightarrow> inode \<Rightarrow> nat \<Rightarrow> nat" where
  "faddr s ino bn =
     (if bn < NDIRECT then i_addrs ino ! bn
      else if i_addrs ino ! NDIRECT = 0 then 0
      else get_u32 (4 * (bn - NDIRECT)) (hv s (i_addrs ino ! NDIRECT)))"

definition datablk :: "'a log_state_scheme \<Rightarrow> nat \<Rightarrow> bool" where
  "datablk s x \<longleftrightarrow> x < sb_size (sbof s) \<and> used s x \<and> home_ok s x \<and> x \<notin> metaS s"

definition blocks_ok :: "'a log_state_scheme \<Rightarrow> inode \<Rightarrow> bool" where
  "blocks_ok s ino \<longleftrightarrow> i_dev ino = 1 \<and> length (i_addrs ino) = NDIRECT + 1 \<and>
     (i_addrs ino ! NDIRECT \<noteq> 0 \<longrightarrow> datablk s (i_addrs ino ! NDIRECT)) \<and>
     (\<forall>bn < MAXFILE. faddr s ino bn \<noteq> 0 \<longrightarrow> datablk s (faddr s ino bn) \<and> faddr s ino bn \<noteq> i_addrs ino ! NDIRECT) \<and>
     (\<forall>bn < MAXFILE. \<forall>bm < MAXFILE. faddr s ino bn \<noteq> 0 \<and> faddr s ino bn = faddr s ino bm \<longrightarrow> bn = bm)"

lemma blocks_okD:
  assumes "blocks_ok s ino"
  shows "i_dev ino = 1" "length (i_addrs ino) = NDIRECT + 1" "i_addrs ino ! NDIRECT \<noteq> 0 \<Longrightarrow> datablk s (i_addrs ino ! NDIRECT)"
    "bn < MAXFILE \<Longrightarrow> faddr s ino bn \<noteq> 0 \<Longrightarrow> datablk s (faddr s ino bn)"
    "bn < MAXFILE \<Longrightarrow> faddr s ino bn \<noteq> 0 \<Longrightarrow> faddr s ino bn \<noteq> i_addrs ino ! NDIRECT"
    "bn < MAXFILE \<Longrightarrow> bm < MAXFILE \<Longrightarrow> faddr s ino bn \<noteq> 0 \<Longrightarrow> faddr s ino bn = faddr s ino bm \<Longrightarrow> bn = bm"
  using assms unfolding blocks_ok_def by blast+

definition nfree :: "'a log_state_scheme \<Rightarrow> nat" where
  "nfree s = card {b. b < sb_size (sbof s) \<and> home_ok s b \<and> \<not> used s b}"

lemma nfree_allocated: "allocated s n s' \<Longrightarrow> nfree s = Suc (nfree s')"
proof -
  assume a: "allocated s n s'"
  then have "home_ok s' = home_ok s" by (auto simp: allocated_def intro: eff_home)
  with a have "{b. b < sb_size (sbof s) \<and> home_ok s b \<and> \<not> used s b} = insert n {b. b < sb_size (sbof s') \<and> home_ok s' b \<and> \<not> used s' b}"
    by (auto simp: allocated_def)
  moreover have "n \<notin> {b. b < sb_size (sbof s') \<and> home_ok s' b \<and> \<not> used s' b}" using a by (auto simp: allocated_def)
  ultimately show ?thesis by (simp add: nfree_def)
qed

lemma nfree_pos: "0 < nfree s \<Longrightarrow> \<exists>b < sb_size (sbof s). home_ok s b \<and> \<not> used s b"
  by (auto simp: nfree_def card_gt_0_iff)

text \<open>An allocation does not touch the blocks in use.\<close>

lemma allocated_keeps:
  assumes g: "bm_geom s" and a: "allocated s n s'" and x: "datablk s x"
  shows "hv s' x = hv s x" "datablk s' x" "x \<noteq> n"
proof -
  have A: "n < sb_size (sbof s)" "\<not> used s n" "eff s (bmS s \<union> {n}) s'" "sbof s' = sbof s" "metaS s' = metaS s"
      "\<forall>b < sb_size (sbof s). used s' b \<longleftrightarrow> b = n \<or> used s b"
      "hv s' = (hv s)(bmblk s n := bm_set (n mod BPB) (hv s (bmblk s n)), n := replicate BSIZE 0)"
    using a by (auto simp: allocated_def)
  show "x \<noteq> n" using x A(2) by (auto simp: datablk_def)
  moreover have "x \<noteq> bmblk s n" using x bm_geom_home(3) [OF g A(1)] bm_geom_home(4) [OF g] by (auto simp: datablk_def)
  ultimately show "hv s' x = hv s x" by (simp add: A(7))
  show "datablk s' x" using x A(4-6) eff_home(1) [OF A(3)] by (simp add: datablk_def)
qed

lemma allocated_datablk:
  assumes g: "bm_geom s" and a: "allocated s n s'"
  shows "datablk s' n" "hv s' n = replicate BSIZE 0" "n \<noteq> 0" "n < 2 ^ 32" "\<not> datablk s n"
proof -
  have A: "n < sb_size (sbof s)" "\<not> used s n" "eff s (bmS s \<union> {n}) s'" "sbof s' = sbof s" "metaS s' = metaS s" "used s' n"
      "hv s' n = replicate BSIZE 0"
    using a by (auto simp: allocated_def)
  have n: "home_ok s n" "n \<notin> metaS s" using g a by (auto simp: bm_geom_def allocated_def)
  then show "datablk s' n" using A eff_home(1) [OF A(3)] by (simp add: datablk_def)
  show "hv s' n = replicate BSIZE 0" by (rule A(7))
  show "n \<noteq> 0" using n(2) by (auto simp: metaS_def)
  have "length (memdisk s) < 2 ^ 31" using g log_invD(2) by (auto simp: bm_geom_def log_geom_def)
  then show "n < 2 ^ 32" using n(1) by (simp add: home_ok_def)
  show "\<not> datablk s n" using A(2) by (simp add: datablk_def)
qed

lemma get_u32_zeros: "off + 4 \<le> m \<Longrightarrow> get_u32 off (replicate m 0) = 0"
proof -
  assume "off + 4 \<le> m"
  then have "slice off 4 (replicate m (0 :: byte)) = replicate 4 0" by (simp add: slice_def)
  then show ?thesis by (simp add: get_u32_def numeral_eq_Suc)
qed

lemma blocks_ok_cong:
  assumes "\<And>bn. bn < MAXFILE \<Longrightarrow> faddr s' ino bn = faddr s ino bn" "\<And>x. datablk s x \<Longrightarrow> datablk s' x" "blocks_ok s ino"
  shows "blocks_ok s' ino"
  using assms unfolding blocks_ok_def by auto

section \<open>Mapping a block that exists\<close>

lemma indirect_bound: "bn < MAXFILE \<Longrightarrow> \<not> bn < NDIRECT \<Longrightarrow> bn - NDIRECT < NINDIRECT \<and> 4 * (bn - NDIRECT) + 4 \<le> BSIZE"
  by (auto simp: MAXFILE_def NINDIRECT_def NDIRECT_def BSIZE_def)

lemma bmap_mapped:
  assumes inv: "log_inv s" and ok: "blocks_ok s (icache s ! ip)" and bn: "bn < MAXFILE" "faddr s (icache s ! ip) bn \<noteq> 0"
    and q: "busyS s = {}" and rm: "card (dirtyS s) < NBUF"
  shows "\<exists>s'. bmap ip bn s = Inr (faddr s (icache s ! ip) bn, s') \<and> eff s {} s' \<and> hv s' = hv s \<and>
    bio_state.more s' = bio_state.more s"
proof (cases "bn < NDIRECT")
  case True
  then show ?thesis using bn(2) eff_refl [OF inv] by (auto simp: bmap_def alloc_addr_def faddr_def Let_def)
next
  case False
  note O = blocks_okD [OF ok]
  define ind where "ind = i_addrs (icache s ! ip) ! NDIRECT"
  have i: "ind \<noteq> 0" "faddr s (icache s ! ip) bn = get_u32 (4 * (bn - NDIRECT)) (hv s ind)"
    using bn(2) False by (auto simp: faddr_def ind_def split: if_splits)
  have "home_ok s ind" using O(3) i(1) by (simp add: datablk_def ind_def)
  from tx_peek [OF inv this] q rm obtain b s1 s' where r: "bread 1 ind s = Inr (b, s1)" "buf_data b s1 = hv s ind"
      "brelse b s1 = Inr s'" "eff s {} s'" "hv s' = hv s" "bio_state.more s' = bio_state.more s"
    by auto
  have "bmap ip bn s = Inr (faddr s (icache s ! ip) bn, s')"
    using False indirect_bound [OF bn(1) False] i O(1) r bn(2)
    by (simp add: bmap_def alloc_addr_def Let_def ind_def [symmetric])
  with r show ?thesis by blast
qed

section \<open>Mapping a block that may have to be allocated\<close>

text \<open>\<open>grown s ip s' N\<close>: the file of inode \<open>ip\<close> may have gained blocks; the blocks it had are where they
  were and hold what they held, and nothing but the bitmap and the blocks of \<open>N\<close> was logged.\<close>

definition grown :: "'a fs_state_scheme \<Rightarrow> nat \<Rightarrow> 'a fs_state_scheme \<Rightarrow> nat set \<Rightarrow> bool" where
  "grown s ip s' N \<longleftrightarrow> finite N \<and> eff s (bmS s \<union> N) s' \<and> bm_geom s' \<and> sbof s' = sbof s \<and> bmS s' = bmS s \<and> metaS s' = metaS s \<and>
     length (icache s') = length (icache s) \<and>
     (\<exists>as. icache s' = (icache s)[ip := (icache s ! ip)\<lparr>i_addrs := as\<rparr>]) \<and> blocks_ok s' (icache s' ! ip) \<and>
     (\<forall>bn < MAXFILE. faddr s (icache s ! ip) bn \<noteq> 0 \<longrightarrow> faddr s' (icache s' ! ip) bn = faddr s (icache s ! ip) bn) \<and>
     (\<forall>x. datablk s x \<longrightarrow> datablk s' x) \<and> fs_state.more s' = fs_state.more s"

lemma grownD:
  assumes "grown s ip s' N"
  shows "finite N" "eff s (bmS s \<union> N) s'" "bm_geom s'" "sbof s' = sbof s" "bmS s' = bmS s" "metaS s' = metaS s"
    "blocks_ok s' (icache s' ! ip)" "length (icache s') = length (icache s)"
    "bn < MAXFILE \<Longrightarrow> faddr s (icache s ! ip) bn \<noteq> 0 \<Longrightarrow> faddr s' (icache s' ! ip) bn = faddr s (icache s ! ip) bn"
    "datablk s x \<Longrightarrow> datablk s' x" "fs_state.more s' = fs_state.more s"
    "ip < length (icache s) \<Longrightarrow> \<exists>as. icache s' ! ip = (icache s ! ip)\<lparr>i_addrs := as\<rparr>"
    "j \<noteq> ip \<Longrightarrow> icache s' ! j = icache s ! j" "busyS s' = busyS s"
  using assms eff_home(2) unfolding grown_def by auto

lemma grown_trans:
  assumes "grown s ip s1 N" "grown s1 ip s2 M"
  shows "grown s ip s2 (N \<union> M)"
proof -
  note A = grownD [OF assms(1)] and B = grownD [OF assms(2)]
  have "eff s (bmS s \<union> (N \<union> M)) s2" using eff_trans [OF A(2) B(2)] A(5) by (simp add: Un_ac)
  moreover have "\<exists>as. icache s2 = (icache s)[ip := (icache s ! ip)\<lparr>i_addrs := as\<rparr>]"
  proof (cases "ip < length (icache s)")
    case True
    from assms(1) obtain as where as: "icache s1 = (icache s)[ip := (icache s ! ip)\<lparr>i_addrs := as\<rparr>]" by (auto simp: grown_def)
    from assms(2) obtain bs where "icache s2 = (icache s1)[ip := (icache s1 ! ip)\<lparr>i_addrs := bs\<rparr>]" by (auto simp: grown_def)
    then have "icache s2 = (icache s)[ip := (icache s ! ip)\<lparr>i_addrs := bs\<rparr>]" using as True by simp
    then show ?thesis by blast
  next
    case False
    then show ?thesis using assms by (auto simp: grown_def list_update_beyond)
  qed
  moreover have "faddr s2 (icache s2 ! ip) bn = faddr s (icache s ! ip) bn" if "bn < MAXFILE" "faddr s (icache s ! ip) bn \<noteq> 0" for bn
    using A(9) [OF that] B(9) [of bn] that by simp
  ultimately show ?thesis using A B unfolding grown_def by auto
qed

lemma fs_more_more: "log_state.more s' = log_state.more s \<Longrightarrow> fs_state.more s' = fs_state.more s"
  by (cases s; cases s') simp

lemma upd_ip_more [simp]: "fs_state.more (upd_ip ip f s) = fs_state.more s" by (simp add: upd_ip_def)

lemma faddr_upd_ip [simp]: "faddr (upd_ip ip f s) = faddr s" "datablk (upd_ip ip f s) = datablk s"
  by (simp_all add: faddr_def datablk_def fun_eq_iff)

lemma blocks_ok_upd_ip [simp]: "blocks_ok (upd_ip ip f s) = blocks_ok s"
  by (simp add: blocks_ok_def fun_eq_iff)

text \<open>Allocating a direct block or the indirect block.\<close>

lemma alloc_addr_effect:
  assumes g: "bm_geom s" and ok: "blocks_ok s (icache s ! ip)" and q: "busyS s = {}" and sl: "slack s (bmS s) 1" and fr: "0 < nfree s"
    and k: "k \<le> NDIRECT" "i_addrs (icache s ! ip) ! k = 0" and ip: "ip < length (icache s)"
  shows "\<exists>a s'. alloc_addr ip k s = Inr (a, s') \<and> grown s ip s' {a} \<and> a \<noteq> 0 \<and> i_addrs (icache s' ! ip) ! k = a \<and>
    datablk s' a \<and> \<not> datablk s a \<and> hv s' a = replicate BSIZE 0 \<and> (\<forall>x. datablk s x \<longrightarrow> hv s' x = hv s x) \<and> nfree s = Suc (nfree s') \<and>
    (\<forall>j \<noteq> k. i_addrs (icache s' ! ip) ! j = i_addrs (icache s ! ip) ! j) \<and>
    (\<forall>bn < MAXFILE. bn \<noteq> k \<or> k = NDIRECT \<longrightarrow> faddr s' (icache s' ! ip) bn = faddr s (icache s ! ip) bn)"
proof -
  note O = blocks_okD [OF ok]
  have "held_ok s" using q by (simp add: held_ok_def)
  from balloc_effect [OF g this sl nfree_pos [OF fr]] obtain a s1 where r: "balloc 1 s = Inr (a, s1)" and al: "allocated s a s1"
    by blast
  have A: "eff s (bmS s \<union> {a}) s1" "bm_geom s1" "sbof s1 = sbof s" "bmS s1 = bmS s" "metaS s1 = metaS s"
      "log_state.more s1 = log_state.more s"
    using al by (auto simp: allocated_def)
  note D = allocated_datablk [OF g al] and K = allocated_keeps [OF g al]
  have ic: "icache s1 = icache s" by (rule fs_more [OF A(6)])
  define s' where "s' = upd_ip ip (\<lambda>i. i\<lparr>i_addrs := (i_addrs i)[k := a]\<rparr>) s1"
  define ino where "ino = icache s ! ip"
  define ino' where "ino' = ino\<lparr>i_addrs := (i_addrs ino)[k := a]\<rparr>"
  have run: "alloc_addr ip k s = Inr (a, s')"
    using r k(2) O(1) by (simp add: alloc_addr_def Let_def s'_def)
  have ic': "icache s' = (icache s)[ip := ino']" "icache s' ! ip = ino'"
    using ip by (simp_all add: s'_def ic ino'_def ino_def)
  have lenk: "k < length (i_addrs ino)" using O(2) k(1) by (simp add: ino_def)
  have fa: "faddr s1 ino' bn = (if bn = k \<and> k \<noteq> NDIRECT then a else faddr s ino bn)" if "bn < MAXFILE" for bn
  proof (cases "k = NDIRECT")
    case True
    have z: "i_addrs ino ! NDIRECT = 0" using k(2) True by (simp add: ino_def)
    show ?thesis
      using True lenk D(2,3) z indirect_bound [OF that] by (auto simp: faddr_def ino'_def get_u32_zeros nth_list_update)
  next
    case False
    then have kd: "k < NDIRECT" using k(1) by simp
    have "hv s1 (i_addrs ino ! NDIRECT) = hv s (i_addrs ino ! NDIRECT)" if "i_addrs ino ! NDIRECT \<noteq> 0"
      using K(1) [OF O(3)] that by (simp add: ino_def)
    then show ?thesis using kd lenk by (auto simp: faddr_def ino'_def nth_list_update)
  qed
  have blocks: "blocks_ok s1 ino'"
  proof -
    have db: "datablk s1 (faddr s1 ino' bn)" "faddr s1 ino' bn \<noteq> i_addrs ino' ! NDIRECT" if bn: "bn < MAXFILE" "faddr s1 ino' bn \<noteq> 0" for bn
    proof -
      show "datablk s1 (faddr s1 ino' bn)"
        using fa [OF bn(1)] bn O(4) [of bn] K(2) D(1) by (auto simp: ino_def split: if_splits)
      show "faddr s1 ino' bn \<noteq> i_addrs ino' ! NDIRECT"
      proof (cases "k = NDIRECT")
        case True
        then have "faddr s1 ino' bn = faddr s ino bn" "i_addrs ino' ! NDIRECT = a" using fa [OF bn(1)] lenk by (simp_all add: ino'_def)
        then show ?thesis using O(4) [of bn] bn K(3) by (auto simp: ino_def)
      next
        case False
        then have "i_addrs ino' ! NDIRECT = i_addrs ino ! NDIRECT" by (simp add: ino'_def)
        moreover have "a \<noteq> i_addrs ino ! NDIRECT" using O(3) K(3) D(3) by (cases "i_addrs ino ! NDIRECT = 0") (auto simp: ino_def)
        ultimately show ?thesis using fa [OF bn(1)] bn O(5) [of bn] by (auto simp: ino_def split: if_splits)
      qed
    qed
    have inj: "bn = bm" if "bn < MAXFILE" "bm < MAXFILE" "faddr s1 ino' bn \<noteq> 0" "faddr s1 ino' bn = faddr s1 ino' bm" for bn bm
    proof -
      have "faddr s ino b \<noteq> a" if "b < MAXFILE" for b
        using O(4) [OF that] D(3) K(3) by (auto simp: ino_def)
      then show ?thesis using that fa O(6) [of bn bm] by (auto simp: ino_def split: if_splits)
    qed
    have "i_dev ino' = 1" "length (i_addrs ino') = NDIRECT + 1" using O(1,2) by (simp_all add: ino'_def ino_def)
    moreover have "datablk s1 (i_addrs ino' ! NDIRECT)" if "i_addrs ino' ! NDIRECT \<noteq> 0"
      using that D(1) O(3) K(2) lenk by (auto simp: ino'_def ino_def nth_list_update split: if_splits)
    ultimately show ?thesis using db inj unfolding blocks_ok_def by blast
  qed
  have "grown s ip s' {a}"
    unfolding grown_def ic'(2)
  proof (intro conjI)
    show "\<exists>as. icache s' = (icache s)[ip := (icache s ! ip)\<lparr>i_addrs := as\<rparr>]" using ic'(1) by (auto simp: ino'_def ino_def)
    show "\<forall>bn < MAXFILE. faddr s (icache s ! ip) bn \<noteq> 0 \<longrightarrow> faddr s' ino' bn = faddr s (icache s ! ip) bn"
    proof (intro allI impI)
      fix bn assume bn: "bn < MAXFILE" "faddr s (icache s ! ip) bn \<noteq> 0"
      have "bn \<noteq> k \<or> k = NDIRECT" using bn k by (auto simp: faddr_def split: if_splits)
      then show "faddr s' ino' bn = faddr s (icache s ! ip) bn" using fa [OF bn(1)] by (auto simp: s'_def ino_def)
    qed
  qed (use A K blocks fs_more_more [OF A(6)] ic'(1) in \<open>simp_all add: s'_def\<close>)
  moreover have "nfree s = Suc (nfree s')" using nfree_allocated [OF al] by (simp add: nfree_def s'_def)
  moreover have "\<forall>bn < MAXFILE. bn \<noteq> k \<or> k = NDIRECT \<longrightarrow> faddr s' (icache s' ! ip) bn = faddr s (icache s ! ip) bn"
    using fa ic'(2) by (auto simp: s'_def ino_def)
  ultimately show ?thesis
    using run D K lenk ic'(2) by (intro exI [of _ a] exI [of _ s']) (simp add: s'_def ino'_def ino_def ip)
qed

text \<open>Allocating a block through the indirect block, which the caller holds.\<close>

lemma slack_insert: "slack s B (Suc k) \<Longrightarrow> slack s (insert x B) k"
proof -
  assume a: "slack s B (Suc k)"
  have "card (busyS s \<union> dirtyS s \<union> insert x B) \<le> Suc (card (busyS s \<union> dirtyS s \<union> B))" by (simp add: card_insert_le_m1)
  with a show ?thesis by (simp add: slack_def)
qed

lemma slack_subset:
  assumes "slack s B k" "A \<subseteq> B"
  shows "slack s A k"
proof -
  have "card (busyS s \<union> dirtyS s \<union> A) \<le> card (busyS s \<union> dirtyS s \<union> B)"
    using assms by (intro card_mono) (auto simp: slack_def)
  with assms show ?thesis by (auto simp: slack_def intro: finite_subset)
qed

lemma bmap_indirect_new:
  assumes g: "bm_geom s" and ok: "blocks_ok s (icache s ! ip)" and q: "busyS s = {}" and fr: "0 < nfree s" and ip: "ip < length (icache s)"
    and ind: "i_addrs (icache s ! ip) ! NDIRECT = ind" "ind \<noteq> 0" and sl: "slack s (insert ind (bmS s)) 1"
    and bn: "bn < MAXFILE" "\<not> bn < NDIRECT" "faddr s (icache s ! ip) bn = 0"
  shows "\<exists>a s'. bmap ip bn s = Inr (a, s') \<and> grown s ip s' {ind, a} \<and> a \<noteq> 0 \<and> faddr s' (icache s' ! ip) bn = a \<and>
    hv s' a = replicate BSIZE 0 \<and> (\<forall>x. datablk s x \<and> x \<noteq> ind \<longrightarrow> hv s' x = hv s x) \<and> nfree s = Suc (nfree s') \<and>
    icache s' = icache s \<and> \<not> datablk s a"
proof -
  note O = blocks_okD [OF ok] and S = slackD [OF sl] and IB = indirect_bound [OF bn(1,2)]
  define k where "k = bn - NDIRECT"
  have di: "datablk s ind" using O(3) ind by simp
  have h: "home_ok s ind" "ind \<notin> metaS s" "used s ind" using di by (auto simp: datablk_def)
  have q': "card (busyS s \<union> dirtyS s) < NBUF" by (rule S(4))
  obtain i s1 where s1: "bread 1 ind s = Inr (i, s1)" "log_inv s1" "has_buf s1 i ind" "buf_data i s1 = hv s ind"
      "hv s1 = hv s" "busyS s1 = insert ind (busyS s)" "dirtyS s1 = dirtyS s" "bio_state.more s1 = bio_state.more s"
      "memdisk s1 = memdisk s" "writes s1 = writes s"
    using tx_bread [OF S(1) h(1) _ q'] q by auto
  have ic1: "icache s1 = icache s" by (rule fs_more_bio [OF s1(8)])
  have fr1: "tx_frame s s1" by (rule tx_frame_more [OF s1(8-10)])
  note F1 = tx_frame_home [OF fr1]
  have sb1: "sbof s1 = sbof s" "bmblk s1 = bmblk s" "bmS s1 = bmS s" "metaS s1 = metaS s" "used s1 = used s"
    by (simp_all add: sbof_def s1(5) bmblk_def bmS_def metaS_def used_def fun_eq_iff)
  have g1: "bm_geom s1" using g s1(2) F1 tx_frame_disk [OF fr1] by (simp add: bm_geom_def sb1)
  have held1: "held_ok s1"
    using h bm_geom_home(4,5) [OF g] q unfolding held_ok_def s1(6) sb1 by auto
  have sl1: "slack s1 (insert ind (bmS s)) 1"
    using sl s1(2,6,7) F1(3) q tx_frame_cap(1) [OF fr1] by (simp add: slack_def insert_commute)
  have "slack s1 (bmS s1) 1" using slack_subset [OF sl1] by (simp add: sb1 subset_insertI)
  moreover have "\<exists>b < sb_size (sbof s1). home_ok s1 b \<and> \<not> used s1 b" using nfree_pos [OF fr] by (simp add: sb1 F1(2))
  ultimately obtain a s2 where r2: "balloc 1 s1 = Inr (a, s2)" and al: "allocated s1 a s2"
    using balloc_effect [OF g1 held1] by blast
  have A: "eff s1 (bmS s \<union> {a}) s2" "bm_geom s2" "sbof s2 = sbof s" "bmS s2 = bmS s" "metaS s2 = metaS s"
      "log_state.more s2 = log_state.more s1"
    using al by (auto simp: allocated_def sb1)
  note D = allocated_datablk [OF g1 al] and K = allocated_keeps [OF g1 al]
  have dk: "datablk s1 = datablk s" by (simp add: datablk_def fun_eq_iff sb1 F1)
  have ic2: "icache s2 = icache s" using fs_more [OF A(6)] ic1 by simp
  have hb2: "has_buf s2 i ind" using A(1) s1(3) by (auto simp: eff_def)
  have inv2: "log_inv s2" using A(1) by (simp add: eff_def)
  have hv2: "hv s2 ind = hv s ind" using K(1) [of ind] di dk s1(5) by simp
  have bd2: "buf_data i s2 = hv s ind"
    using has_buf_facts [OF log_invD(1) [OF inv2] hb2] hv2 log_invD(9) [OF inv2, of ind] by (simp add: hv_def)
  have len: "length (hv s ind) = BSIZE" by (rule hv_length [OF S(1) h(1)])
  define d where "d = put_u32 (4 * k) a (hv s ind)"
  have ld: "length d = BSIZE" using len IB by (simp add: d_def k_def)
  have e2: "eff s1 (insert ind (bmS s) \<union> {a}) s2" by (rule eff_mono [OF A(1)]) auto
  have "slack s2 (insert ind (bmS s)) 0" using slack_eff [of s1 "insert ind (bmS s)" 1 0 "{a}" s2] sl1 e2 by simp
  note S2 = slackD [OF this]
  from tx_held_update [OF S2(5,2,1) hb2 ld] obtain s3 s' where s': "log_write i (set_data i d s2) = Inr s3" "brelse i s3 = Inr s'"
      "log_inv s'" "tx_frame s2 s'" "busyS s' = busyS s2 - {ind}" "dirtyS s' = insert ind (dirtyS s2)"
      "\<forall>j m. j \<noteq> i \<longrightarrow> has_buf s2 j m \<longrightarrow> has_buf s' j m" "hv s' = (hv s2)(ind := d)" "log_state.more s' = log_state.more s2"
    by blast
  have ic': "icache s' = icache s" using fs_more [OF s'(9)] ic2 by simp
  have fr': "tx_frame s s'" using tx_frame_trans [OF tx_frame_trans [OF fr1 eff_frame [OF A(1)]] s'(4)] .
  have no: "\<not> has_buf s j m" for j m using q busyS_iff [OF log_invD(1) [OF S(1)]] by blast
  have e: "eff s (bmS s \<union> {ind, a}) s'"
    using s'(3,5,6) fr' A(1) s1(6,7) q no unfolding eff_def by auto
  have sb': "sbof s' = sbof s" "bmS s' = bmS s" "metaS s' = metaS s" "bm_geom s'"
    "b < sb_size (sbof s) \<Longrightarrow> used s' b = used s2 b" for b
  proof -
    have "hv s' x = hv s2 x" if "x = 1 \<or> x \<in> bmS s" for x
      using that h(2) bm_geom_home(4,5) [OF g] by (auto simp: s'(8))
    note same = this
    have w1: "sbof s' = sbof s2" using same by (simp add: sbof_def)
    then have w2: "bmblk s' = bmblk s2" by (simp add: bmblk_def fun_eq_iff)
    have "used s' b = used s2 b" if "b < sb_size (sbof s)" for b
      using same bm_geom_home(3) [OF A(2), of b] that by (simp add: used_def w2 A)
    note w = w1 w2 this
    from w show eq: "sbof s' = sbof s" "bmS s' = bmS s" "metaS s' = metaS s"
      "b < sb_size (sbof s) \<Longrightarrow> used s' b = used s2 b" for b
      using A(3-5) by (auto simp: bmS_def metaS_def)
    show "bm_geom s'"
      using A(2) s'(3) w(3) tx_frame_home [OF s'(4)] tx_frame_disk [OF s'(4)] unfolding bm_geom_def eq A(3,5) by auto
  qed
  have dk': "datablk s' x \<longleftrightarrow> datablk s2 x" for x
    using sb' A(3,5) tx_frame_home(2) [OF s'(4)] by (auto simp: datablk_def)
  define ino where "ino = icache s ! ip"
  have a: "a \<noteq> 0" "a \<noteq> ind" "a < 2 ^ 32" "datablk s' a" "hv s' a = replicate BSIZE 0" "\<not> datablk s a"
    using D K(3) [of ind] di dk dk' by (auto simp: s'(8))
  have fa: "faddr s' ino bm = (if bm = bn then a else faddr s ino bm)" if "bm < MAXFILE" for bm
  proof (cases "bm < NDIRECT")
    case True
    then show ?thesis using bn(2) by (auto simp: faddr_def)
  next
    case False
    have iff: "bm = bn \<longleftrightarrow> bm - NDIRECT = k" using False bn(2) by (auto simp: k_def)
    have "get_u32 (4 * (bm - NDIRECT)) d = (if bm - NDIRECT = k then a else get_u32 (4 * (bm - NDIRECT)) (hv s ind))"
    proof (cases "bm - NDIRECT = k")
      case True
      then show ?thesis using len IB a(3) by (simp add: d_def layout_simps k_def)
    next
      case ne: False
      then have "4 * (bm - NDIRECT) + 4 \<le> 4 * k \<or> 4 * k + 4 \<le> 4 * (bm - NDIRECT)" by linarith
      then show ?thesis using ne len IB get_put_disj(1) [of "4 * k" "hv s ind" "4 * (bm - NDIRECT)" a]
        by (simp add: d_def k_def)
    qed
    then show ?thesis using False bn(2) ind s'(8) iff by (simp add: faddr_def ino_def)
  qed
  have blocks: "blocks_ok s' ino"
  proof -
    have mono: "datablk s x \<Longrightarrow> datablk s' x" for x using K(2) dk dk' by simp
    have "faddr s ino b \<noteq> a" if "b < MAXFILE" for b using O(4) [OF that] a(1,6) by (auto simp: ino_def)
    then show ?thesis
      using O fa mono a ind unfolding blocks_ok_def ino_def [symmetric] by auto
  qed
  have run: "bmap ip bn s = Inr (a, s')"
    using bn IB ind O(1) s1(1,4) r2 bd2 s'(1,2) ic1
    by (simp add: bmap_def alloc_addr_def Let_def faddr_def d_def k_def)
  have "grown s ip s' {ind, a}"
    unfolding grown_def ic'
  proof (intro conjI)
    show "\<exists>as. icache s = (icache s)[ip := (icache s ! ip)\<lparr>i_addrs := as\<rparr>]"
      by (rule exI [of _ "i_addrs (icache s ! ip)"]) simp
    show "fs_state.more s' = fs_state.more s"
      using fs_more_more [OF s'(9)] fs_more_more [OF A(6)] fs_more_more [OF log_fields_more(7) [OF s1(8)]] by simp
  qed (use e sb' blocks fa bn(3) K(2) dk dk' in \<open>auto simp: ino_def\<close>)
  moreover have "nfree s = Suc (nfree s')"
  proof -
    have "nfree s = nfree s1" by (simp add: nfree_def sb1 F1(2))
    moreover have "nfree s' = nfree s2" using sb'(1,5) A(3) tx_frame_home(2) [OF s'(4)] by (auto simp: nfree_def intro!: arg_cong [of _ _ card])
    ultimately show ?thesis using nfree_allocated [OF al] by simp
  qed
  moreover have "datablk s x \<and> x \<noteq> ind \<longrightarrow> hv s' x = hv s x" for x
    using K(1) [of x] dk s1(5) by (simp add: s'(8))
  ultimately show ?thesis using run a fa [OF bn(1)] ic' by (auto simp: ino_def)
qed

text \<open>\<open>bmap\<close> in general.\<close>

definition bmapped :: "'a fs_state_scheme \<Rightarrow> nat \<Rightarrow> nat \<Rightarrow> nat \<Rightarrow> 'a fs_state_scheme \<Rightarrow> nat set \<Rightarrow> bool" where
  "bmapped s ip bn a s' N \<longleftrightarrow> grown s ip s' N \<and> card N \<le> 2 \<and> a \<in> N \<and> a \<noteq> 0 \<and> faddr s' (icache s' ! ip) bn = a \<and>
     (\<forall>x. datablk s x \<and> x \<noteq> i_addrs (icache s ! ip) ! NDIRECT \<longrightarrow> hv s' x = hv s x) \<and>
     (faddr s (icache s ! ip) bn = 0 \<longrightarrow> hv s' a = replicate BSIZE 0) \<and> nfree s \<le> nfree s' + 2 \<and>
     (\<forall>x \<in> N. datablk s x \<longrightarrow> x = i_addrs (icache s ! ip) ! NDIRECT \<or> x = faddr s (icache s ! ip) bn)"

lemma faddr_hv: "hv s' = hv s \<Longrightarrow> faddr s' = faddr s" by (simp add: faddr_def fun_eq_iff)

lemma grown_same:
  assumes g: "bm_geom s" and ok: "blocks_ok s (icache s ! ip)" and e: "eff s {} s'" and h: "hv s' = hv s"
    and m: "bio_state.more s' = bio_state.more s" and N: "finite N"
  shows "grown s ip s' N" "datablk s' = datablk s" "nfree s' = nfree s" "icache s' = icache s"
proof -
  note E = eff_same [OF e h]
  have ic: "icache s' = icache s" by (rule fs_more_bio [OF m])
  show d: "datablk s' = datablk s" by (simp add: datablk_def fun_eq_iff E eff_home [OF e])
  show "nfree s' = nfree s" by (simp add: nfree_def E eff_home(1) [OF e])
  show "icache s' = icache s" by (rule ic)
  have "blocks_ok s' (icache s ! ip)" using ok by (simp add: blocks_ok_def d faddr_hv [OF h])
  moreover have "\<exists>as. icache s = (icache s)[ip := (icache s ! ip)\<lparr>i_addrs := as\<rparr>]"
    by (rule exI [of _ "i_addrs (icache s ! ip)"]) simp
  ultimately show "grown s ip s' N"
    unfolding grown_def ic
    using N eff_mono [OF e] E g d fs_more_more [OF log_fields_more(7) [OF m]] by (auto simp: faddr_hv [OF h])
qed

lemma bmap_after_alloc:
  assumes "\<not> bn < NDIRECT" "alloc_addr ip NDIRECT s = Inr (a, s1)" "i_addrs (icache s1 ! ip) ! NDIRECT = a" "a \<noteq> 0" "bn < MAXFILE"
  shows "bmap ip bn s = bmap ip bn s1"
proof -
  have "alloc_addr ip NDIRECT s1 = Inr (a, s1)" using assms(3,4) by (simp add: alloc_addr_def Let_def)
  then show ?thesis using assms(1,2) by (simp add: bmap_def Let_def)
qed

lemma bmap_effect:
  assumes g: "bm_geom s" and ok: "blocks_ok s (icache s ! ip)" and q: "busyS s = {}" and sl: "slack s (bmS s) 2" and fr: "2 \<le> nfree s"
    and ip: "ip < length (icache s)" and bn: "bn < MAXFILE"
  shows "\<exists>a s' N. bmap ip bn s = Inr (a, s') \<and> bmapped s ip bn a s' N"
proof -
  note O = blocks_okD [OF ok] and S = slackD [OF sl]
  define ino where "ino = icache s ! ip"
  define ind where "ind = i_addrs ino ! NDIRECT"
  have sl1: "slack s (bmS s) 1" using slack_mono [OF sl] by simp
  show ?thesis
  proof (cases "faddr s ino bn = 0")
    case False
    have "card (dirtyS s) < NBUF" using S(4) q by simp
    from bmap_mapped [OF S(1) ok bn False [unfolded ino_def] q this] obtain s' where
      r: "bmap ip bn s = Inr (faddr s ino bn, s')" "eff s {} s'" "hv s' = hv s" "bio_state.more s' = bio_state.more s"
      unfolding ino_def by blast
    note G = grown_same [OF g ok r(2-4), of "{faddr s ino bn}"]
    have "bmapped s ip bn (faddr s ino bn) s' {faddr s ino bn}"
      using G r(3) False by (simp add: bmapped_def ino_def faddr_hv [OF r(3)])
    with r(1) show ?thesis by blast
  next
    case zero: True
    show ?thesis
    proof (cases "bn < NDIRECT")
      case True
      then have k: "bn \<le> NDIRECT" "i_addrs (icache s ! ip) ! bn = 0" using zero by (auto simp: faddr_def ino_def)
      from alloc_addr_effect [OF g ok q sl1 _ k ip] fr obtain a s' where
        r: "alloc_addr ip bn s = Inr (a, s')" "grown s ip s' {a}" "a \<noteq> 0" "i_addrs (icache s' ! ip) ! bn = a" "\<not> datablk s a"
          "hv s' a = replicate BSIZE 0" "\<forall>x. datablk s x \<longrightarrow> hv s' x = hv s x" "nfree s = Suc (nfree s')"
        by auto
      have "bmapped s ip bn a s' {a}" using r True by (simp add: bmapped_def faddr_def)
      then show ?thesis using r(1) True by (auto simp: bmap_def)
    next
      case nd: False
      show ?thesis
      proof (cases "ind = 0")
        case False
        have "slack s (insert ind (bmS s)) 1" using slack_insert [of s "bmS s" 1 ind] sl by (simp add: numeral_2_eq_2 One_nat_def)
        from bmap_indirect_new [OF g ok q _ ip _ False this bn nd] fr zero obtain a s' where
          r: "bmap ip bn s = Inr (a, s')" "grown s ip s' {ind, a}" "a \<noteq> 0" "faddr s' (icache s' ! ip) bn = a" "hv s' a = replicate BSIZE 0"
            "\<forall>x. datablk s x \<and> x \<noteq> ind \<longrightarrow> hv s' x = hv s x" "nfree s = Suc (nfree s')" "\<not> datablk s a"
          by (auto simp: ind_def ino_def)
        have "card {ind, a} \<le> 2" by (simp add: card_insert_if)
        then have "bmapped s ip bn a s' {ind, a}" using r zero by (auto simp: bmapped_def ind_def ino_def)
        with r(1) show ?thesis by blast
      next
        case True
        then have k: "NDIRECT \<le> NDIRECT" "i_addrs (icache s ! ip) ! NDIRECT = 0" by (auto simp: ind_def ino_def)
        from alloc_addr_effect [OF g ok q sl1 _ k ip] fr obtain i s1 where
          r: "alloc_addr ip NDIRECT s = Inr (i, s1)" "grown s ip s1 {i}" "i \<noteq> 0" "i_addrs (icache s1 ! ip) ! NDIRECT = i" "\<not> datablk s i"
            "\<forall>x. datablk s x \<longrightarrow> hv s1 x = hv s x" "nfree s = Suc (nfree s1)"
            "\<forall>b < MAXFILE. faddr s1 (icache s1 ! ip) b = faddr s (icache s ! ip) b"
          by auto
        note G = grownD [OF r(2)]
        have ip1: "ip < length (icache s1)" using ip G(8) by simp
        have "slack s (insert i (bmS s)) 1" using slack_insert [of s "bmS s" 1 i] sl by (simp add: numeral_2_eq_2 One_nat_def)
        then have "slack s1 (insert i (bmS s1)) 1"
          using slack_eff [of s "insert i (bmS s)" 0 1 "{}" s1] eff_mono [OF G(2), of "insert i (bmS s)"] G(5) by simp
        from bmap_indirect_new [OF G(3,7) _ _ ip1 r(4,3) this bn nd] q G(14) fr r(7,8) bn zero obtain a s' where
          r': "bmap ip bn s1 = Inr (a, s')" "grown s1 ip s' {i, a}" "a \<noteq> 0" "faddr s' (icache s' ! ip) bn = a" "hv s' a = replicate BSIZE 0"
            "\<forall>x. datablk s1 x \<and> x \<noteq> i \<longrightarrow> hv s' x = hv s1 x" "nfree s1 = Suc (nfree s')" "\<not> datablk s1 a"
          by (auto simp: ino_def)
        have gr: "grown s ip s' {i, a}" using grown_trans [OF r(2) r'(2)] by (simp add: insert_commute)
        have na: "\<not> datablk s a" using r'(8) G(10) by blast
        have keep: "hv s' x = hv s x" if "datablk s x" for x
          using that r(5,6) r'(6) G(10) [OF that] by auto
        have "card {i, a} \<le> 2" by (simp add: card_insert_if)
        then have "bmapped s ip bn a s' {i, a}" using gr r' keep r(5,7) na by (auto simp: bmapped_def)
        moreover have "bmap ip bn s = Inr (a, s')" using bmap_after_alloc [OF nd r(1,4,3) bn] r'(1) by simp
        ultimately show ?thesis by blast
      qed
    qed
  qed
qed

section \<open>Reading\<close>

definition fbyte :: "'a log_state_scheme \<Rightarrow> inode \<Rightarrow> nat \<Rightarrow> byte" where
  "fbyte s ino i = hv s (faddr s ino (i div BSIZE)) ! (i mod BSIZE)"

text \<open>The blocks that hold the bytes \<open>off, \<dots>, off + r - 1\<close> exist.\<close>

definition mapped :: "'a log_state_scheme \<Rightarrow> inode \<Rightarrow> nat \<Rightarrow> nat \<Rightarrow> bool" where
  "mapped s ino off r \<longleftrightarrow> (\<forall>i. off \<le> i \<and> i < off + r \<longrightarrow> i div BSIZE < MAXFILE \<and> faddr s ino (i div BSIZE) \<noteq> 0)"

lemma chunk_bytes:
  assumes "m \<le> BSIZE - off mod BSIZE" "length (hv s (faddr s ino (off div BSIZE))) = BSIZE"
  shows "slice (off mod BSIZE) m (hv s (faddr s ino (off div BSIZE))) = map (fbyte s ino) [off..<off + m]"
proof (rule nth_equalityI)
  have b: "off mod BSIZE < BSIZE" by (simp add: BSIZE_def)
  show "length (slice (off mod BSIZE) m (hv s (faddr s ino (off div BSIZE)))) = length (map (fbyte s ino) [off..<off + m])"
    using assms b by simp
  fix i assume "i < length (slice (off mod BSIZE) m (hv s (faddr s ino (off div BSIZE))))"
  then have i: "i < m" "off mod BSIZE + i < BSIZE" using assms by auto
  have "off + i = off div BSIZE * BSIZE + (off mod BSIZE + i)" by simp
  then have "(off + i) div BSIZE = off div BSIZE" "(off + i) mod BSIZE = off mod BSIZE + i"
    using i(2) by (metis add.commute add_cancel_right_left div_less div_mult_self1_is_m div_mult_self3 less_nat_zero_code not_less_zero zero_less_iff_neq_zero,
        metis mod_less mod_mult_self3)
  then show "slice (off mod BSIZE) m (hv s (faddr s ino (off div BSIZE))) ! i = map (fbyte s ino) [off..<off + m] ! i"
    using i assms(2) by (simp add: fbyte_def)
qed

lemma readi_loop_effect:
  assumes "bm_geom s" "blocks_ok s (icache s ! ip)" "busyS s = {}" "card (dirtyS s) < NBUF" "mapped s (icache s ! ip) off r"
  shows "\<exists>s'. readi_loop ip off r s = Inr (map (fbyte s (icache s ! ip)) [off..<off + r], s') \<and> eff s {} s' \<and> hv s' = hv s \<and>
    bio_state.more s' = bio_state.more s"
  using assms
proof (induction r arbitrary: off s rule: less_induct)
  case (less r)
  define ino where "ino = icache s ! ip"
  have inv: "log_inv s" using less.prems(1) by (simp add: bm_geom_def)
  show ?case
  proof (cases "r = 0")
    case True
    then show ?thesis using eff_refl [OF inv] by (auto simp: readi_loop.simps)
  next
    case False
    define m where "m = min r (BSIZE - off mod BSIZE)"
    have m: "0 < m" "m \<le> r" "m \<le> BSIZE - off mod BSIZE" using False by (auto simp: m_def BSIZE_def)
    define a where "a = faddr s ino (off div BSIZE)"
    have a: "off div BSIZE < MAXFILE" "a \<noteq> 0" using less.prems(5) False by (auto simp: mapped_def a_def ino_def)
    from bmap_mapped [OF inv less.prems(2) a(1) _ less.prems(3,4)] a(2) obtain s1 where
      s1: "bmap ip (off div BSIZE) s = Inr (a, s1)" "eff s {} s1" "hv s1 = hv s" "bio_state.more s1 = bio_state.more s"
      unfolding a_def ino_def by blast
    note G1 = grown_same [OF less.prems(1,2) s1(2-4), of "{}"]
    have da: "datablk s a" using blocks_okD(4) [OF less.prems(2) a(1)] a(2) by (simp add: a_def ino_def)
    have h1: "log_inv s1" "home_ok s1 a" "busyS s1 = {}" "dirtyS s1 = dirtyS s"
      using s1(2) da eff_home [OF s1(2)] less.prems(3) by (auto simp: eff_def datablk_def)
    from tx_peek [OF h1(1,2)] h1 less.prems(4) obtain b s2 s3 where
      s3: "bread 1 a s1 = Inr (b, s2)" "buf_data b s2 = hv s a" "brelse b s2 = Inr s3" "eff s1 {} s3" "hv s3 = hv s1"
        "bio_state.more s3 = bio_state.more s1"
      using s1(3) by auto
    have e3: "eff s {} s3" "hv s3 = hv s" "bio_state.more s3 = bio_state.more s"
      using eff_trans_same [OF s1(2) s3(4)] s3(5,6) s1(3,4) by auto
    note G3 = grown_same [OF less.prems(1,2) e3, of "{}"]
    have len: "length (hv s a) = BSIZE" using hv_length [OF inv] da by (simp add: datablk_def)
    have "mapped s ino (off + m) (r - m)" using less.prems(5) m by (auto simp: mapped_def ino_def)
    then have "mapped s3 (icache s3 ! ip) (off + m) (r - m)"
      by (simp add: mapped_def faddr_hv [OF e3(2)] G3(4) ino_def)
    moreover have "card (dirtyS s3) < NBUF" "busyS s3 = {}"
      using e3(1) less.prems(3,4) eff_home(2) [OF e3(1)] by (auto simp: eff_def)
    ultimately obtain s' where s': "readi_loop ip (off + m) (r - m) s3 = Inr (map (fbyte s3 (icache s3 ! ip)) [off + m..<off + m + (r - m)], s')"
        "eff s3 {} s'" "hv s' = hv s3" "bio_state.more s' = bio_state.more s3"
      using less.IH [of "r - m" s3 "off + m"] m False grownD(3,7) [OF G3(1)] by auto
    have fb: "fbyte s3 (icache s3 ! ip) = fbyte s ino"
      by (simp add: fbyte_def fun_eq_iff faddr_hv [OF e3(2)] e3(2) G3(4) ino_def)
    have dev: "i_dev (icache s1 ! ip) = 1" using blocks_okD(1) [OF less.prems(2)] G1(4) by simp
    have ck: "slice (off mod BSIZE) m (hv s a) = map (fbyte s ino) [off..<off + m]"
      using chunk_bytes [OF m(3), of s ino] len by (simp add: a_def)
    have "readi_loop ip off r s = Inr (map (fbyte s ino) [off..<off + m] @ map (fbyte s ino) [off + m..<off + m + (r - m)], s')"
      using False s1(1) s3(1-3) dev s'(1) ck fb
      by (subst readi_loop.simps) (simp add: Let_def m_def [symmetric])
    also have "map (fbyte s ino) [off..<off + m] @ map (fbyte s ino) [off + m..<off + m + (r - m)] = map (fbyte s ino) [off..<off + r]"
      using m(2) upt_add_eq_append [of off "off + m" "r - m"] by simp
    finally show ?thesis
      using eff_trans_same [OF e3(1) s'(2)] s'(3,4) e3(2,3) by (auto simp: ino_def)
  qed
qed

text \<open>A file between operations: its blocks are sound, and every block below its size exists.\<close>

definition file_ok :: "'a log_state_scheme \<Rightarrow> inode \<Rightarrow> bool" where
  "file_ok s ino \<longleftrightarrow> blocks_ok s ino \<and> i_size ino \<le> MAXFILE * BSIZE \<and> mapped s ino 0 (i_size ino)"

lemma MAXFILE_bytes: "MAXFILE * BSIZE = 274432" by (simp add: MAXFILE_def NDIRECT_def NINDIRECT_def BSIZE_def)

lemma u32_wrap:
  assumes "off < 2 ^ 32" "n < 2 ^ 32"
  shows "(off + n) mod 2 ^ 32 < off \<longleftrightarrow> 2 ^ 32 \<le> off + (n :: nat)"
proof (cases "2 ^ 32 \<le> off + n")
  case True
  then have "(off + n) mod 2 ^ 32 = off + n - 2 ^ 32" using assms by (simp add: mod_if)
  then show ?thesis using True assms by simp
qed (use assms in \<open>simp add: not_le\<close>)

lemma readi_effect:
  assumes g: "bm_geom s" and ok: "file_ok s (icache s ! ip)" and q: "busyS s = {}" and rm: "card (dirtyS s) < NBUF"
    and ty: "i_type (icache s ! ip) \<noteq> T_DEV" and lt: "off + n < 2 ^ 32" "off \<le> i_size (icache s ! ip)"
  shows "\<exists>s'. readi dv ip off n s =
        Inr (int (min n (i_size (icache s ! ip) - off)), map (fbyte s (icache s ! ip)) [off..<min (off + n) (i_size (icache s ! ip))], s') \<and>
      hv s' = hv s \<and> icache s' = icache s \<and> eff s {} s'"
proof -
  define ino where "ino = icache s ! ip"
  have F: "blocks_ok s ino" "i_size ino \<le> MAXFILE * BSIZE" "mapped s ino 0 (i_size ino)"
    using ok by (simp_all add: file_ok_def ino_def)
  note L = lt [folded ino_def]
  have nw: "\<not> (off + n) mod 2 ^ 32 < off" using L by simp
  define r where "r = min n (i_size ino - off)"
  have "mapped s ino off r" using F(3) L by (auto simp: mapped_def r_def)
  then obtain s' where s': "readi_loop ip off r s = Inr (map (fbyte s ino) [off..<off + r], s')" "hv s' = hv s"
      "bio_state.more s' = bio_state.more s" "eff s {} s'"
    using readi_loop_effect [OF g F(1) [unfolded ino_def] q rm, of off r] by (auto simp: ino_def)
  have r31: "r < 2 ^ 31" using F(2) by (simp add: r_def MAXFILE_bytes)
  have "readi dv ip off n s = Inr (int r, map (fbyte s ino) [off..<off + r], s')"
  proof (cases "i_size ino < off + n")
    case True
    then have "r = i_size ino - off" using L by (simp add: r_def)
    then show ?thesis using ty s'(1) True L r31 by (simp add: readi_def Let_def ino_def [symmetric])
  next
    case le: False
    then have "r = n" using L by (simp add: r_def)
    then show ?thesis using ty s'(1) le L r31 by (simp add: readi_def Let_def ino_def [symmetric])
  qed
  moreover have "off + r = min (off + n) (i_size ino)" using L by (simp add: r_def)
  ultimately show ?thesis using s'(2,4) fs_more_bio [OF s'(3)] by (auto simp: r_def ino_def)
qed

text \<open>\<open>readi\<close> on a file that is not a device: reading inside the file returns exactly the bytes of
  the file, cut at its end; an offset past the end (or one that wraps around with the length) is
  an error; the disk and the inode stay as they are.\<close>

theorem readi_bytes:
  assumes g: "bm_geom s" and ok: "file_ok s (icache s ! ip)" and q: "busyS s = {}" and rm: "card (dirtyS s) < NBUF"
    and ty: "i_type (icache s ! ip) \<noteq> T_DEV" and off: "off < 2 ^ 32" "n < 2 ^ 32"
  shows "if i_size (icache s ! ip) < off \<or> 2 ^ 32 \<le> off + n then readi dv ip off n s = Inr (-1, [], s)
    else \<exists>s'. readi dv ip off n s =
        Inr (int (min n (i_size (icache s ! ip) - off)), map (fbyte s (icache s ! ip)) [off..<min (off + n) (i_size (icache s ! ip))], s') \<and>
      hv s' = hv s \<and> icache s' = icache s"
proof (cases "i_size (icache s ! ip) < off \<or> 2 ^ 32 \<le> off + n")
  case True
  then have "readi dv ip off n s = Inr (-1, [], s)" using ty u32_wrap [OF off] by (simp add: readi_def Let_def)
  with True show ?thesis by simp
next
  case False
  with readi_effect [OF g ok q rm ty, of off n dv] show ?thesis by auto
qed

section \<open>Writing\<close>

lemma write_block:
  assumes g: "bm_geom s" and ok: "blocks_ok s (icache s ! ip)" and q: "busyS s = {}" and bn: "bn < MAXFILE"
    and a: "faddr s (icache s ! ip) bn = a" "a \<noteq> 0" "a \<in> N" "finite N" and rm: "room s (bmS s \<union> N)" and len: "length (f (hv s a)) = BSIZE"
  shows "\<exists>s'. log_update a f s = Inr s' \<and> grown s ip s' N \<and> hv s' = (hv s)(a := f (hv s a)) \<and> icache s' = icache s \<and> nfree s' = nfree s \<and>
    (\<forall>bm < MAXFILE. faddr s' (icache s ! ip) bm = faddr s (icache s ! ip) bm)"
proof -
  note O = blocks_okD [OF ok]
  have da: "datablk s a" using O(4) [OF bn] a by simp
  have "\<exists>s'. log_update a f s = Inr s' \<and> eff s (bmS s \<union> N) s' \<and> hv s' = (hv s)(a := f (hv s a)) \<and>
      log_state.more s' = log_state.more s"
    by (rule tx_update [OF rm]) (use da q a len in \<open>auto simp: datablk_def\<close>)
  then obtain s' where s': "log_update a f s = Inr s'" "eff s (bmS s \<union> N) s'" "hv s' = (hv s)(a := f (hv s a))"
      "log_state.more s' = log_state.more s" by blast
  have ic: "icache s' = icache s" by (rule fs_more [OF s'(4)])
  have same: "hv s' x = hv s x" if "x = 1 \<or> x \<in> bmS s" for x
    using that da bm_geom_home(4,5) [OF g] by (auto simp: s'(3) datablk_def)
  note B = bitmap_same [OF g s'(2) same]
  have dk: "datablk s' x \<longleftrightarrow> datablk s x" for x using B(1,4,5) eff_home(1) [OF s'(2)] by (auto simp: datablk_def)
  have fa: "faddr s' (icache s ! ip) bm = faddr s (icache s ! ip) bm" for bm
    using O(5) [OF bn] a by (auto simp: faddr_def s'(3))
  have "blocks_ok s' (icache s ! ip)" using ok by (simp add: blocks_ok_def fa dk)
  moreover have "\<exists>as. icache s = (icache s)[ip := (icache s ! ip)\<lparr>i_addrs := as\<rparr>]"
    by (rule exI [of _ "i_addrs (icache s ! ip)"]) simp
  ultimately have "grown s ip s' N"
    unfolding grown_def ic using a(4) s'(2) B fa dk fs_more_more [OF s'(4)] by auto
  moreover have "nfree s' = nfree s" using B(1,5) eff_home(1) [OF s'(2)] by (auto simp: nfree_def intro!: arg_cong [of _ _ card])
  ultimately show ?thesis using s' ic fa by blast
qed

definition nspan :: "nat \<Rightarrow> nat \<Rightarrow> nat" where
  "nspan off r = (if r = 0 then 0 else Suc ((off + r - 1) div BSIZE - off div BSIZE))"

lemma nspan_step:
  assumes "0 < r" "m = min r (BSIZE - off mod BSIZE)"
  shows "nspan off r = Suc (nspan (off + m) (r - m))"
proof (cases "r \<le> BSIZE - off mod BSIZE")
  case True
  then have "off + r - 1 = off div BSIZE * BSIZE + (off mod BSIZE + r - 1)" "off mod BSIZE + r - 1 < BSIZE"
    using assms(1) mod_less_divisor [of BSIZE off] div_mult_mod_eq [of off BSIZE] by (auto simp: BSIZE_def)
  then have "(off + r - 1) div BSIZE = off div BSIZE" by (simp add: BSIZE_def)
  then show ?thesis using True assms by (simp add: nspan_def)
next
  case False
  then have m: "m = BSIZE - off mod BSIZE" "m < r" using assms(2) by auto
  have e: "off + m = (off div BSIZE + 1) * BSIZE"
  proof -
    have "off mod BSIZE < BSIZE" by (simp add: BSIZE_def)
    moreover have "off = off div BSIZE * BSIZE + off mod BSIZE" by simp
    ultimately have "off + m = off div BSIZE * BSIZE + BSIZE" using m(1) by arith
    then show ?thesis by (simp add: add_mult_distrib)
  qed
  then have "(off + m) div BSIZE = off div BSIZE + 1" by (simp add: BSIZE_def)
  moreover have "off div BSIZE + 1 \<le> (off + r - 1) div BSIZE"
    using div_le_mono [of "off + m" "off + r - 1" BSIZE] m(2) calculation by simp
  ultimately show ?thesis using m by (simp add: nspan_def)
qed

text \<open>What a write of \<open>src\<close> at \<open>off\<close> has done to the file and to everybody else.\<close>

definition wrote :: "'a fs_state_scheme \<Rightarrow> nat \<Rightarrow> byte list \<Rightarrow> nat \<Rightarrow> 'a fs_state_scheme \<Rightarrow> nat set \<Rightarrow> bool" where
  "wrote s ip src off s' N \<longleftrightarrow> grown s ip s' N \<and> mapped s' (icache s' ! ip) off (length src) \<and>
     (\<forall>i. i div BSIZE < MAXFILE \<longrightarrow>
        (if off \<le> i \<and> i < off + length src then fbyte s' (icache s' ! ip) i = src ! (i - off)
         else faddr s (icache s ! ip) (i div BSIZE) \<noteq> 0 \<longrightarrow> fbyte s' (icache s' ! ip) i = fbyte s (icache s ! ip) i)) \<and>
     (\<forall>x. datablk s x \<and> x \<noteq> i_addrs (icache s ! ip) ! NDIRECT \<and> (\<forall>bn < MAXFILE. x \<noteq> faddr s (icache s ! ip) bn) \<longrightarrow> hv s' x = hv s x)"

lemma wrote_nil: "log_inv s \<Longrightarrow> bm_geom s \<Longrightarrow> blocks_ok s (icache s ! ip) \<Longrightarrow> wrote s ip [] off s {}"
  using grown_same(1) [of s ip s "{}"] eff_refl [of s "{}"] by (auto simp: wrote_def mapped_def)

text \<open>One iteration of the loop of \<open>writei\<close>.\<close>

lemma div_block: "off mod BSIZE + j < BSIZE \<Longrightarrow> (off + j) div BSIZE = off div BSIZE \<and> (off + j) mod BSIZE = off mod BSIZE + j"
proof -
  assume a: "off mod BSIZE + j < BSIZE"
  define q where "q = off div BSIZE"
  have off: "off = BSIZE * q + off mod BSIZE" by (simp add: q_def)
  have dv: "(off + j) div BSIZE = q"
  proof (rule div_nat_eqI)
    show "BSIZE * q \<le> off + j" using off by arith
    show "off + j < BSIZE * Suc q" using off a by (simp only: mult_Suc_right)
  qed
  have "(off + j) mod BSIZE = off + j - BSIZE * q" using minus_mult_div_eq_mod [of "off + j" BSIZE] dv by simp
  also have "\<dots> = off mod BSIZE + j" using off by arith
  finally show ?thesis using dv by (simp add: q_def)
qed

lemma in_chunk:
  assumes "m \<le> BSIZE - off mod BSIZE" "i div BSIZE = off div BSIZE"
  shows "off \<le> i \<and> i < off + m \<longleftrightarrow> off mod BSIZE \<le> i mod BSIZE \<and> i mod BSIZE < off mod BSIZE + m"
proof -
  have "i = off div BSIZE * BSIZE + i mod BSIZE" "off = off div BSIZE * BSIZE + off mod BSIZE"
    using div_mult_mod_eq [of i BSIZE] assms(2) by simp_all
  then show ?thesis by linarith
qed

lemma write_iter:
  assumes g: "bm_geom s" and ok: "blocks_ok s (icache s ! ip)" and q: "busyS s = {}" and sl: "slack s (bmS s) 2" and fr: "2 \<le> nfree s"
    and ip: "ip < length (icache s)" and bn: "off div BSIZE < MAXFILE" and c: "chunk \<noteq> []" "length chunk \<le> BSIZE - off mod BSIZE"
  shows "\<exists>a s1 s' N. bmap ip (off div BSIZE) s = Inr (a, s1) \<and> i_dev (icache s1 ! ip) = 1 \<and> log_update a (splice (off mod BSIZE) chunk) s1 = Inr s' \<and>
    wrote s ip chunk off s' N \<and> card N \<le> 2 \<and> nfree s \<le> nfree s' + 2"
proof -
  from bmap_effect [OF g ok q sl fr ip bn] obtain a s1 N where
    b: "bmap ip (off div BSIZE) s = Inr (a, s1)" and m: "bmapped s ip (off div BSIZE) a s1 N" by blast
  define ino where "ino = icache s ! ip"
  define ino1 where "ino1 = icache s1 ! ip"
  have M: "grown s ip s1 N" "card N \<le> 2" "a \<in> N" "a \<noteq> 0" "faddr s1 ino1 (off div BSIZE) = a"
      "\<And>x. datablk s x \<Longrightarrow> x \<noteq> i_addrs ino ! NDIRECT \<Longrightarrow> hv s1 x = hv s x"
      "faddr s ino (off div BSIZE) = 0 \<Longrightarrow> hv s1 a = replicate BSIZE 0" "nfree s \<le> nfree s1 + 2"
      "\<And>x. x \<in> N \<Longrightarrow> datablk s x \<Longrightarrow> x = i_addrs ino ! NDIRECT \<or> x = faddr s ino (off div BSIZE)"
    using m by (auto simp: bmapped_def ino_def ino1_def)
  note G = grownD [OF M(1)] and O = blocks_okD [OF ok]
  have rm1: "room s1 (bmS s1 \<union> N)"
    using room_eff [OF slack_room [OF sl G(1) M(2)] G(2)] G(5) by simp
  have da: "datablk s1 a" using blocks_okD(4) [OF G(7) bn] M(4,5) by (simp add: ino1_def)
  have inv1: "log_inv s1" using G(2) by (simp add: eff_def)
  have len: "length (hv s1 a) = BSIZE" using hv_length [OF inv1] da by (simp add: datablk_def)
  have fit: "off mod BSIZE + length chunk \<le> BSIZE" using c(2) mod_less_divisor [of BSIZE off] by (simp add: BSIZE_def)
  have q1: "busyS s1 = {}" using q G(14) by simp
  have "length (splice (off mod BSIZE) chunk (hv s1 a)) = BSIZE" using len fit by simp
  from write_block [where f = "splice (off mod BSIZE) chunk", OF G(3,7) q1 bn M(5) [unfolded ino1_def] M(4,3) G(1) rm1 this] obtain s' where
    s': "log_update a (splice (off mod BSIZE) chunk) s1 = Inr s'" "grown s1 ip s' N"
      "hv s' = (hv s1)(a := splice (off mod BSIZE) chunk (hv s1 a))" "icache s' = icache s1" "nfree s' = nfree s1"
      "\<forall>bm < MAXFILE. faddr s' ino1 bm = faddr s1 ino1 bm"
    unfolding ino1_def by blast
  have gr: "grown s ip s' N" using grown_trans [OF M(1) s'(2)] by simp
  have byte: "fbyte s' ino1 i = (if off \<le> i \<and> i < off + length chunk then chunk ! (i - off) else fbyte s1 ino1 i)" if i: "i div BSIZE < MAXFILE" for i
  proof (cases "faddr s1 ino1 (i div BSIZE) = a")
    case True
    then have id: "i div BSIZE = off div BSIZE"
      using blocks_okD(6) [OF G(7) bn i] M(4,5) by (simp add: ino1_def)
    have "off mod BSIZE \<le> i mod BSIZE \<Longrightarrow> i mod BSIZE - off mod BSIZE = i - off"
    proof -
      have "i = off div BSIZE * BSIZE + i mod BSIZE" "off = off div BSIZE * BSIZE + off mod BSIZE"
        using div_mult_mod_eq [of i BSIZE] id by simp_all
      then show ?thesis by arith
    qed
    moreover have "i mod BSIZE < BSIZE" by (simp add: BSIZE_def)
    ultimately show ?thesis
      using in_chunk [OF c(2) id] i True s'(6) len fit by (auto simp: fbyte_def s'(3) nth_splice)
  next
    case False
    then have "\<not> (off \<le> i \<and> i < off + length chunk)"
      using M(5) div_block [of off "i - off"] fit by auto
    then show ?thesis using False i s'(6) by (auto simp: fbyte_def s'(3))
  qed
  have old: "fbyte s1 ino1 i = fbyte s ino i" if "i div BSIZE < MAXFILE" "faddr s ino (i div BSIZE) \<noteq> 0" for i
  proof -
    have "faddr s1 ino1 (i div BSIZE) = faddr s ino (i div BSIZE)" using G(9) [of "i div BSIZE"] that by (simp add: ino_def ino1_def)
    moreover have "hv s1 (faddr s ino (i div BSIZE)) = hv s (faddr s ino (i div BSIZE))"
      using M(6) O(4,5) [of "i div BSIZE"] that by (simp add: ino_def)
    ultimately show ?thesis by (simp add: fbyte_def)
  qed
  have "mapped s' ino1 off (length chunk)"
  proof -
    have "i div BSIZE = off div BSIZE" if "off \<le> i" "i < off + length chunk" for i
      using div_block [of off "i - off"] that fit by simp
    then show ?thesis using bn M(4,5) s'(6) by (auto simp: mapped_def)
  qed
  moreover have "hv s' x = hv s x" if "datablk s x" "x \<noteq> i_addrs ino ! NDIRECT" "\<forall>bn < MAXFILE. x \<noteq> faddr s ino bn" for x
    using M(6) [OF that(1,2)] M(3) M(9) [of a] that bn by (auto simp: s'(3))
  moreover have "\<forall>i. i div BSIZE < MAXFILE \<longrightarrow> (if off \<le> i \<and> i < off + length chunk then fbyte s' ino1 i = chunk ! (i - off)
      else faddr s ino (i div BSIZE) \<noteq> 0 \<longrightarrow> fbyte s' ino1 i = fbyte s ino i)"
    using byte old by simp
  ultimately have "wrote s ip chunk off s' N"
    unfolding wrote_def using gr s'(4) by (simp add: ino1_def [symmetric] ino_def [symmetric])
  moreover have "i_dev (icache s1 ! ip) = 1" using blocks_okD(1) [OF G(7)] .
  ultimately show ?thesis using b s'(1,5) M(2,8) by auto
qed

lemma wroteD:
  assumes "wrote s ip src off s' N"
  shows "grown s ip s' N" "mapped s' (icache s' ! ip) off (length src)"
    "i div BSIZE < MAXFILE \<Longrightarrow> off \<le> i \<Longrightarrow> i < off + length src \<Longrightarrow> fbyte s' (icache s' ! ip) i = src ! (i - off)"
    "i div BSIZE < MAXFILE \<Longrightarrow> \<not> (off \<le> i \<and> i < off + length src) \<Longrightarrow> faddr s (icache s ! ip) (i div BSIZE) \<noteq> 0 \<Longrightarrow>
      fbyte s' (icache s' ! ip) i = fbyte s (icache s ! ip) i"
    "datablk s x \<Longrightarrow> x \<noteq> i_addrs (icache s ! ip) ! NDIRECT \<Longrightarrow> (\<And>bn. bn < MAXFILE \<Longrightarrow> x \<noteq> faddr s (icache s ! ip) bn) \<Longrightarrow>
      hv s' x = hv s x"
  using assms unfolding wrote_def by (auto split: if_splits)

lemma slack_wrote:
  assumes "slack s (bmS s) (j + k)" "grown s ip s' N" "card N \<le> j"
  shows "slack s' (bmS s') k"
  using slack_eff [OF assms(1) grownD(2) [OF assms(2)] grownD(1) [OF assms(2)] assms(3)] grownD(5) [OF assms(2)] by simp

lemma writei_loop_step:
  assumes "src \<noteq> []" "m = min (length src) (BSIZE - off mod BSIZE)" "bmap ip (off div BSIZE) s = Inr (a, s1)" "i_dev (icache s1 ! ip) = 1"
    and "log_update a (splice (off mod BSIZE) (take m src)) s1 = Inr s2"
  shows "writei_loop ip src off s = writei_loop ip (drop m src) (off + m) s2"
proof -
  from assms(5) obtain b s3 where b: "bread 1 a s1 = Inr (b, s3)" by (auto simp: log_update_def res_simps)
  with assms(5) obtain s4 where "log_write b (set_data b (splice (off mod BSIZE) (take m src) (buf_data b s3)) s3) = Inr s4" "brelse b s4 = Inr s2"
    by (auto simp: log_update_def res_simps)
  with b assms(1-4) show ?thesis
    by (subst writei_loop.simps) (simp add: Let_def assms(2) [symmetric])
qed

lemma writei_loop_effect:
  assumes "bm_geom s" "blocks_ok s (icache s ! ip)" "busyS s = {}" "slack s (bmS s) (2 * nspan off (length src))"
    "2 * nspan off (length src) \<le> nfree s" "ip < length (icache s)" "off + length src \<le> MAXFILE * BSIZE"
  shows "\<exists>s' N. writei_loop ip src off s = Inr s' \<and> grown s ip s' N \<and> card N \<le> 2 * nspan off (length src) \<and>
    mapped s' (icache s' ! ip) off (length src) \<and>
    (\<forall>i. i div BSIZE < MAXFILE \<longrightarrow> off \<le> i \<and> i < off + length src \<longrightarrow> fbyte s' (icache s' ! ip) i = src ! (i - off)) \<and>
    (\<forall>i. i div BSIZE < MAXFILE \<longrightarrow> \<not> (off \<le> i \<and> i < off + length src) \<longrightarrow> faddr s (icache s ! ip) (i div BSIZE) \<noteq> 0 \<longrightarrow>
       fbyte s' (icache s' ! ip) i = fbyte s (icache s ! ip) i)"
  using assms
proof (induction "length src" arbitrary: src off s rule: less_induct)
  case less
  have inv: "log_inv s" using less.prems(1) by (simp add: bm_geom_def)
  show ?case
  proof (cases "src = []")
    case True
    have "grown s ip s {}" using wroteD(1) [OF wrote_nil [OF inv less.prems(1,2), of off]] .
    with True show ?thesis by (intro exI [of _ s] exI [of _ "{}"]) (auto simp: writei_loop.simps mapped_def)
  next
    case False
    define m where "m = min (length src) (BSIZE - off mod BSIZE)"
    define c where "c = take m src"
    define rest where "rest = drop m src"
    have m: "0 < m" "m \<le> length src" "m \<le> BSIZE - off mod BSIZE" using False by (auto simp: m_def BSIZE_def)
    have sp: "nspan off (length src) = Suc (nspan (off + m) (length rest))"
      using nspan_step [of "length src" m off] False by (simp add: m_def rest_def)
    have lc: "length c = m" "c \<noteq> []" "length rest = length src - m" using m by (auto simp: c_def rest_def)
    have bn: "off div BSIZE < MAXFILE"
      using less.prems(7) False by (intro less_mult_imp_div_less) (cases src, auto)
    have s2: "slack s (bmS s) 2" using slack_mono [OF less.prems(4), of 2] sp by simp
    have f2: "2 \<le> nfree s" using less.prems(5) sp by simp
    have cl: "length c \<le> BSIZE - off mod BSIZE" using m lc by simp
    from write_iter [OF less.prems(1-3) s2 f2 less.prems(6) bn lc(2) cl] obtain a s1 s' N where
      w: "bmap ip (off div BSIZE) s = Inr (a, s1)" "i_dev (icache s1 ! ip) = 1" "log_update a (splice (off mod BSIZE) c) s1 = Inr s'"
        "wrote s ip c off s' N" "card N \<le> 2" "nfree s \<le> nfree s' + 2" by blast
    note W = wroteD [OF w(4)] and G = grownD [OF wroteD(1) [OF w(4)]]
    have "slack s (bmS s) (2 + 2 * nspan (off + m) (length rest))" using less.prems(4) sp by simp
    then have sl': "slack s' (bmS s') (2 * nspan (off + m) (length rest))" by (rule slack_wrote [OF _ W(1) w(5)])
    have nf: "2 * nspan (off + m) (length rest) \<le> nfree s'" using less.prems(5) sp w(6) by simp
    have lt: "length rest < length src" "off + m + length rest \<le> MAXFILE * BSIZE" using m lc less.prems(7) by auto
    have q': "busyS s' = {}" "ip < length (icache s')" using G(8,14) less.prems(3,6) by simp_all
    from less.hyps [OF lt(1) G(3,7) q'(1) sl' nf q'(2) lt(2)] obtain s'' M where r: "writei_loop ip rest (off + m) s' = Inr s''" "grown s' ip s'' M"
        "card M \<le> 2 * nspan (off + m) (length rest)" "mapped s'' (icache s'' ! ip) (off + m) (length rest)"
        "\<And>i. i div BSIZE < MAXFILE \<Longrightarrow> off + m \<le> i \<Longrightarrow> i < off + m + length rest \<Longrightarrow> fbyte s'' (icache s'' ! ip) i = rest ! (i - (off + m))"
        "\<And>i. i div BSIZE < MAXFILE \<Longrightarrow> \<not> (off + m \<le> i \<and> i < off + m + length rest) \<Longrightarrow> faddr s' (icache s' ! ip) (i div BSIZE) \<noteq> 0 \<Longrightarrow>
          fbyte s'' (icache s'' ! ip) i = fbyte s' (icache s' ! ip) i"
      by blast
    note G2 = grownD [OF r(2)]
    have run: "writei_loop ip src off s = Inr s''"
      using writei_loop_step [OF False m_def w(1,2), folded c_def rest_def, OF w(3)] r(1) by simp
    have gr: "grown s ip s'' (N \<union> M)" by (rule grown_trans [OF W(1) r(2)])
    have cd: "card (N \<union> M) \<le> 2 * nspan off (length src)"
      using card_Un_le [of N M] w(5) r(3) sp by simp
    have mp: "faddr s' (icache s' ! ip) (i div BSIZE) \<noteq> 0 \<and> i div BSIZE < MAXFILE" if "off \<le> i" "i < off + m" for i
      using W(2) that lc(1) by (auto simp: mapped_def)
    have "mapped s'' (icache s'' ! ip) off (length src)"
      unfolding mapped_def
    proof (intro allI impI)
      fix i assume i: "off \<le> i \<and> i < off + length src"
      show "i div BSIZE < MAXFILE \<and> faddr s'' (icache s'' ! ip) (i div BSIZE) \<noteq> 0"
      proof (cases "i < off + m")
        case True
        then show ?thesis using mp [of i] i G2(9) [of "i div BSIZE"] by simp
      next
        case False
        then show ?thesis using r(4) i lc m by (auto simp: mapped_def)
      qed
    qed
    moreover have "fbyte s'' (icache s'' ! ip) i = src ! (i - off)" if i: "i div BSIZE < MAXFILE" "off \<le> i" "i < off + length src" for i
    proof (cases "i < off + m")
      case True
      then have "fbyte s'' (icache s'' ! ip) i = fbyte s' (icache s' ! ip) i" using r(6) [OF i(1)] mp [of i] i by simp
      also have "\<dots> = c ! (i - off)" using W(3) [OF i(1,2)] True lc by simp
      finally show ?thesis using True i by (simp add: c_def)
    next
      case False
      then have "fbyte s'' (icache s'' ! ip) i = rest ! (i - (off + m))" using r(5) [OF i(1)] i lc m by simp
      then show ?thesis using False m by (simp add: rest_def)
    qed
    moreover have "fbyte s'' (icache s'' ! ip) i = fbyte s (icache s ! ip) i"
      if i: "i div BSIZE < MAXFILE" "\<not> (off \<le> i \<and> i < off + length src)" "faddr s (icache s ! ip) (i div BSIZE) \<noteq> 0" for i
    proof -
      have "faddr s' (icache s' ! ip) (i div BSIZE) \<noteq> 0" using G(9) [OF i(1,3)] i(3) by simp
      then have "fbyte s'' (icache s'' ! ip) i = fbyte s' (icache s' ! ip) i" using r(6) [OF i(1)] i(2) lc m by auto
      then show ?thesis using W(4) [OF i(1) _ i(3)] i(2) lc m by auto
    qed
    ultimately show ?thesis using run gr cd by blast
  qed
qed

text \<open>Changes to metadata blocks outside the bitmap do not show in a file.\<close>

lemma file_meta_change:
  assumes g: "bm_geom s" and ok: "blocks_ok s ino" and e: "eff s T s'" and x: "x \<in> metaS s" "x \<noteq> 1" "x \<notin> bmS s"
    and h: "hv s' = (hv s)(x := d)"
  shows "blocks_ok s' ino" "bn < MAXFILE \<Longrightarrow> faddr s' ino bn = faddr s ino bn"
    "i div BSIZE < MAXFILE \<Longrightarrow> faddr s ino (i div BSIZE) \<noteq> 0 \<Longrightarrow> fbyte s' ino i = fbyte s ino i"
proof -
  note O = blocks_okD [OF ok]
  have same: "hv s' y = hv s y" if "y = 1 \<or> y \<in> bmS s" for y using that x by (auto simp: h)
  note B = bitmap_same [OF g e same]
  have dk: "datablk s' y \<longleftrightarrow> datablk s y" for y using B(1,4,5) eff_home(1) [OF e] by (auto simp: datablk_def)
  have dh: "datablk s y \<Longrightarrow> hv s' y = hv s y" for y using x by (auto simp: h datablk_def)
  have fa: "faddr s' ino bn = faddr s ino bn" for bn using dh [OF O(3)] by (auto simp: faddr_def)
  then show "bn < MAXFILE \<Longrightarrow> faddr s' ino bn = faddr s ino bn" by simp
  show "blocks_ok s' ino" using ok by (simp add: blocks_ok_def fa dk)
  show "i div BSIZE < MAXFILE \<Longrightarrow> faddr s ino (i div BSIZE) \<noteq> 0 \<Longrightarrow> fbyte s' ino i = fbyte s ino i"
    using dh O(4) by (simp add: fbyte_def fa)
qed

lemma mapped_union:
  assumes a: "mapped s ino 0 a" and b: "mapped s ino off n" and le: "off \<le> a"
  shows "mapped s ino 0 (max a (off + n))"
  unfolding mapped_def
proof (intro allI impI)
  fix i assume "0 \<le> i \<and> i < 0 + max a (off + n)"
  then consider "i < a" | "off \<le> i" "i < off + n" using le by fastforce
  then show "i div BSIZE < MAXFILE \<and> faddr s ino (i div BSIZE) \<noteq> 0"
    by cases (use a b in \<open>auto simp: mapped_def\<close>)
qed

lemma blocks_ok_size [simp]: "blocks_ok s (ino\<lparr>i_size := z\<rparr>) = blocks_ok s ino" "faddr s (ino\<lparr>i_size := z\<rparr>) = faddr s ino"
  "fbyte s (ino\<lparr>i_size := z\<rparr>) = fbyte s ino" "mapped s (ino\<lparr>i_size := z\<rparr>) = mapped s ino"
  by (simp_all add: blocks_ok_def faddr_def fbyte_def mapped_def fun_eq_iff)

lemma fbyte_upd_ip [simp]: "fbyte (upd_ip ip f s) = fbyte s" "mapped (upd_ip ip f s) = mapped s"
  by (simp_all add: fbyte_def mapped_def fun_eq_iff)

lemma room_upd_ip [simp]: "room (upd_ip ip f s) T = room s T" by (simp add: room_def upd_ip_def log_state.defs)

text \<open>What \<open>writei\<close> needs of the machine: a transaction with room for the blocks of the write (two per
  block: the block and the indirect block), the bitmap and the inode, and as many free blocks.\<close>

definition write_ready :: "'a fs_state_scheme \<Rightarrow> nat \<Rightarrow> nat \<Rightarrow> nat \<Rightarrow> bool" where
  "write_ready s ip off n \<longleftrightarrow> bm_geom s \<and> busyS s = {} \<and> ip < length (icache s) \<and> i_inum (icache s ! ip) < sb_ninodes (sbof s) \<and>
     slack s (insert (IBLOCK (i_inum (icache s ! ip))) (bmS s)) (2 * nspan off n) \<and> 2 * nspan off n \<le> nfree s"

lemma writei_effect:
  assumes rd: "write_ready s ip off (length src)" and ok: "file_ok s (icache s ! ip)" and ty: "i_type (icache s ! ip) \<noteq> T_DEV"
    and off: "off \<le> i_size (icache s ! ip)" "off + length src \<le> MAXFILE * BSIZE"
  defines "ino \<equiv> icache s ! ip"
  shows "\<exists>s'. writei dv ip src off s = Inr (int (length src), s') \<and> bm_geom s' \<and> busyS s' = {} \<and> card (dirtyS s') < NBUF \<and>
    file_ok s' (icache s' ! ip) \<and> i_size (icache s' ! ip) = max (i_size ino) (off + length src) \<and> i_type (icache s' ! ip) = i_type ino \<and>
    (\<exists>as. icache s' = (icache s)[ip := ino\<lparr>i_addrs := as, i_size := max (i_size ino) (off + length src)\<rparr>]) \<and>
    (\<forall>i < i_size (icache s' ! ip). fbyte s' (icache s' ! ip) i = (if off \<le> i \<and> i < off + length src then src ! (i - off) else fbyte s ino i))"
proof -
  have R: "bm_geom s" "busyS s = {}" "ip < length (icache s)" "i_inum ino < sb_ninodes (sbof s)"
      "slack s (insert (IBLOCK (i_inum ino)) (bmS s)) (2 * nspan off (length src))" "2 * nspan off (length src) \<le> nfree s"
    using rd by (simp_all add: write_ready_def ino_def)
  define B where "B = IBLOCK (i_inum ino)"
  have F: "blocks_ok s ino" "i_size ino \<le> MAXFILE * BSIZE" "mapped s ino 0 (i_size ino)"
    using ok by (simp_all add: file_ok_def ino_def)
  have sl: "slack s (bmS s) (2 * nspan off (length src))" by (rule slack_subset [OF R(5)]) auto
  from writei_loop_effect [OF R(1) F(1) [unfolded ino_def] R(2) sl R(6,3) off(2)] obtain s1 N where
    w: "writei_loop ip src off s = Inr s1" "grown s ip s1 N" "card N \<le> 2 * nspan off (length src)" "mapped s1 (icache s1 ! ip) off (length src)"
      "\<And>i. i div BSIZE < MAXFILE \<Longrightarrow> off \<le> i \<Longrightarrow> i < off + length src \<Longrightarrow> fbyte s1 (icache s1 ! ip) i = src ! (i - off)"
      "\<And>i. i div BSIZE < MAXFILE \<Longrightarrow> \<not> (off \<le> i \<and> i < off + length src) \<Longrightarrow> faddr s ino (i div BSIZE) \<noteq> 0 \<Longrightarrow>
         fbyte s1 (icache s1 ! ip) i = fbyte s ino i"
    unfolding ino_def by blast
  note G = grownD [OF w(2)]
  define ino1 where "ino1 = icache s1 ! ip"
  obtain as where ics: "icache s1 = (icache s)[ip := ino\<lparr>i_addrs := as\<rparr>]" using w(2) by (auto simp: grown_def ino_def)
  then have as: "ino1 = ino\<lparr>i_addrs := as\<rparr>" using R(3) by (simp add: ino1_def)
  have old: "mapped s1 ino1 0 (i_size ino)"
    using F(3) G(9) by (auto simp: mapped_def ino_def ino1_def)
  define z where "z = max (i_size ino) (off + length src)"
  have mz: "mapped s1 ino1 0 z" using mapped_union [OF old w(4) [folded ino1_def] off(1) [folded ino_def]] by (simp add: z_def)
  have zM: "z \<le> MAXFILE * BSIZE" using F(2) off(2) by (simp add: z_def)
  have inz: "i div BSIZE < MAXFILE \<and> faddr s1 ino1 (i div BSIZE) \<noteq> 0" if "i < z" for i using mz that by (simp add: mapped_def)
  have bytes: "fbyte s1 ino1 i = (if off \<le> i \<and> i < off + length src then src ! (i - off) else fbyte s ino i)" if i: "i < z" for i
  proof (cases "off \<le> i \<and> i < off + length src")
    case True
    then show ?thesis using w(5) inz [OF i] by (simp add: ino1_def)
  next
    case False
    then have "i < i_size ino" using i off(1) by (auto simp: z_def ino_def)
    then have "faddr s ino (i div BSIZE) \<noteq> 0" using F(3) by (simp add: mapped_def)
    with w(6) [of i] inz [OF i] False show ?thesis unfolding ino1_def by (simp add: if_not_P del: de_Morgan_conj)
  qed
  have e1: "eff s (insert B (bmS s) \<union> N) s1" by (rule eff_mono [OF G(2)]) auto
  have "slack s (insert B (bmS s)) (2 * nspan off (length src) + 0)" using R(5) by (simp add: B_def)
  from slack_eff [OF this e1 G(1) w(3)] have sl1: "slack s1 (insert B (bmS s)) 0" .
  have rm1: "room s1 (insert B (bmS s))" using slack_room [OF sl1, of "{}"] by simp
  have bz1: "busyS s1 = {}" using G(14) R(2) by simp
  have n31: "int_of_u32 (length src) = int (length src)" using off(2) by (simp add: MAXFILE_bytes)
  have guards: "\<not> (i_size ino < off \<or> (off + length src) mod 2 ^ 32 < off)" "\<not> MAXFILE * BSIZE < (off + length src) mod 2 ^ 32"
    using off by (simp_all add: ino_def MAXFILE_bytes)
  have blk1: "blocks_ok s1 ino1" using G(7) by (simp add: ino1_def)
  show ?thesis
  proof (cases "src \<noteq> [] \<and> i_size ino < off + length src")
    case True
    define s2 where "s2 = upd_ip ip (\<lambda>i. i\<lparr>i_size := off + length src\<rparr>) s1"
    have ip1: "ip < length (icache s1)" using R(3) G(8) by simp
    have ic2: "icache s2 ! ip = ino1\<lparr>i_size := off + length src\<rparr>" using ip1 by (simp add: s2_def ino1_def)
    have zz: "z = off + length src" using True by (simp add: z_def)
    have num: "i_dev (icache s2 ! ip) = 1" "i_inum (icache s2 ! ip) = i_inum ino"
      using blocks_okD(1) [OF blk1] by (simp_all add: ic2 as)
    have "bm_geom s2" "room s2 (insert B (bmS s))" "i_inum (icache s2 ! ip) < sb_ninodes (sbof s2)"
        "IBLOCK (i_inum (icache s2 ! ip)) \<notin> busyS s2" "IBLOCK (i_inum (icache s2 ! ip)) \<in> insert B (bmS s)"
      using G(3,4) rm1 R(4) bz1 num(2) by (simp_all add: s2_def B_def del: upd_ip_simps(1))
    from iupdate_effect [OF this(1,2) num(1) this(3-5)] obtain s3 where s3: "iupdate ip s2 = Inr s3" "eff s2 (insert B (bmS s)) s3"
        "bm_geom s3" "icache s3 = icache s2"
        "hv s3 = (hv s2)(B := store_dinode (dinode_off (i_inum ino)) (icache s2 ! ip) (hv s2 B))"
      unfolding num B_def by blast
    have B3: "B \<in> metaS s2" "B \<noteq> 1" "B \<notin> bmS s2"
      using iblock_meta [OF G(3), of "i_inum ino"] R(4) G(4) by (simp_all add: B_def s2_def)
    have ok2: "blocks_ok s2 (icache s2 ! ip)" unfolding ic2 using blk1 by (simp add: s2_def)
    note M = file_meta_change [OF \<open>bm_geom s2\<close> ok2 s3(2) B3 s3(5)]
    have ic3: "icache s3 ! ip = ino1\<lparr>i_size := off + length src\<rparr>" using s3(4) ic2 by simp
    have f23: "faddr s2 (icache s2 ! ip) = faddr s1 ino1" unfolding ic2 by (simp add: s2_def)
    have b23: "fbyte s2 (icache s2 ! ip) = fbyte s1 ino1" unfolding ic2 by (simp add: s2_def)
    have fa3: "faddr s3 (icache s3 ! ip) bn = faddr s1 ino1 bn" if "bn < MAXFILE" for bn
      using M(2) [OF that] f23 s3(4) by simp
    have fb3: "fbyte s3 (icache s3 ! ip) i = fbyte s1 ino1 i" if "i < z" for i
      using M(3) [of i] inz [OF that] f23 b23 s3(4) by simp
    have ok3: "file_ok s3 (icache s3 ! ip)"
    proof -
      have "mapped s3 (icache s3 ! ip) 0 z" using inz fa3 by (simp add: mapped_def)
      moreover have "blocks_ok s3 (icache s3 ! ip)" using M(1) s3(4) by simp
      moreover have "i_size (icache s3 ! ip) = z" by (simp add: ic3 zz)
      ultimately show ?thesis using zM by (simp add: file_ok_def)
    qed
    have run: "writei dv ip src off s = Inr (int (length src), s3)"
      using ty guards w(1) True s3(1) n31 as unfolding writei_def
      by (simp add: Let_def ino_def [symmetric] ino1_def [symmetric] s2_def)
    have "busyS s3 = {}" "card (dirtyS s3) < NBUF"
      using eff_home(2) [OF s3(2)] bz1 room_card [OF room_eff [OF _ s3(2)]] rm1 by (simp_all add: s2_def)
    moreover have "\<exists>as. icache s3 = (icache s)[ip := ino\<lparr>i_addrs := as, i_size := z\<rparr>]"
      using R(3) by (intro exI [of _ as]) (simp add: s3(4) s2_def ics zz)
    ultimately show ?thesis
      using run s3(3) ok3 fb3 bytes zz by (intro exI [of _ s3]) (simp add: ic3 as z_def)
  next
    case False
    then have zz: "z = i_size ino" using off(1) by (auto simp: z_def ino_def)
    have run: "writei dv ip src off s = Inr (int (length src), s1)"
      using ty guards w(1) False n31 as unfolding writei_def
      by (auto simp: Let_def ino_def [symmetric] ino1_def [symmetric])
    have "file_ok s1 ino1" using blk1 mz F(2) by (simp add: file_ok_def as zz)
    moreover have "\<exists>as. icache s1 = (icache s)[ip := ino\<lparr>i_addrs := as, i_size := z\<rparr>]"
      by (intro exI [of _ as]) (simp add: ics zz)
    ultimately show ?thesis
      using run G(3) bz1 bytes zz room_card [OF rm1] by (intro exI [of _ s1]) (simp add: ino1_def [symmetric] as z_def)
  qed
qed

text \<open>C3: What is written is what is read back: inside a transaction with room, \<open>writei\<close> of bytes that start
  within the file and end within \<open>MAXFILE\<close> blocks returns their number, the file has grown to hold
  them, bytes outside the range are untouched, and \<open>readi\<close> of the range then returns those bytes.\<close>

theorem writei_readi_roundtrip:
  assumes rd: "write_ready s ip off (length src)" and ok: "file_ok s (icache s ! ip)" and ty: "i_type (icache s ! ip) \<noteq> T_DEV"
    and off: "off \<le> i_size (icache s ! ip)" "off + length src \<le> MAXFILE * BSIZE"
  shows "\<exists>s1 s2. writei dv ip src off s = Inr (int (length src), s1) \<and> readi dv ip off (length src) s1 = Inr (int (length src), src, s2) \<and>
    file_ok s1 (icache s1 ! ip) \<and> i_size (icache s1 ! ip) = max (i_size (icache s ! ip)) (off + length src) \<and>
    (\<forall>i < i_size (icache s ! ip). i < off \<or> off + length src \<le> i \<longrightarrow> fbyte s1 (icache s1 ! ip) i = fbyte s (icache s ! ip) i)"
proof -
  from writei_effect [OF rd ok ty off] obtain s1 where s1: "writei dv ip src off s = Inr (int (length src), s1)" "bm_geom s1"
      "busyS s1 = {}" "card (dirtyS s1) < NBUF" "file_ok s1 (icache s1 ! ip)"
      "i_size (icache s1 ! ip) = max (i_size (icache s ! ip)) (off + length src)" "i_type (icache s1 ! ip) = i_type (icache s ! ip)"
      "\<forall>i < i_size (icache s1 ! ip). fbyte s1 (icache s1 ! ip) i = (if off \<le> i \<and> i < off + length src then src ! (i - off) else fbyte s (icache s ! ip) i)"
    by blast
  have o: "off + length src < 2 ^ 32" "off \<le> i_size (icache s1 ! ip)" using off s1(6) by (simp_all add: MAXFILE_bytes)
  have ty1: "i_type (icache s1 ! ip) \<noteq> T_DEV" using ty s1(7) by simp
  have "map (fbyte s1 (icache s1 ! ip)) [off..<off + length src] = src"
    by (rule nth_equalityI) (use s1(6,8) in auto)
  moreover have "min (off + length src) (i_size (icache s1 ! ip)) = off + length src"
    "min (length src) (i_size (icache s1 ! ip) - off) = length src" using s1(6) by auto
  ultimately obtain s2 where "readi dv ip off (length src) s1 = Inr (int (length src), src, s2)"
    using readi_effect [OF s1(2,5,3,4) ty1 o, of dv] by auto
  then show ?thesis using s1(1,5,6,8) by (intro exI [of _ s1] exI [of _ s2]) auto
qed

text \<open>\<open>writei\<close> refuses, without changing anything, a write that starts past the end of the file or
  would end past the largest file size, also when the end wraps around in 32 bits.\<close>

theorem writei_rejects:
  assumes "i_type (icache s ! ip) \<noteq> T_DEV" and off: "off < 2 ^ 32" "length src < 2 ^ 32"
    and bad: "i_size (icache s ! ip) < off \<or> MAXFILE * BSIZE < off + length src"
  shows "writei dv ip src off s = Inr (-1, s)"
proof (cases "2 ^ 32 \<le> off + length src")
  case True
  then show ?thesis using assms(1) u32_wrap [OF off] by (simp add: writei_def Let_def)
next
  case False
  then have "(off + length src) mod 2 ^ 32 = off + length src" by simp
  then show ?thesis using assms(1) bad by (auto simp: writei_def Let_def)
qed

section \<open>Witnesses\<close>

abbreviation "no_dev \<equiv> \<lparr>dv_read = (\<lambda>_. None), dv_write = (\<lambda>_. None)\<rparr>"

lemma demo_fs_file: "file_ok demo_fs (icache demo_fs ! 0)"
  "i < 5 \<Longrightarrow> fbyte demo_fs (icache demo_fs ! 0) i = [104, 101, 108, 108, 111] ! i"
proof -
  have dk: "datablk demo_fs 5" by (simp add: datablk_def demo_fs_state)
  have fa: "faddr demo_fs demo_ino b = (if b = 0 then 5 else 0)" if "b < MAXFILE" for b
    using that by (auto simp: faddr_def demo_ino_def NDIRECT_def MAXFILE_def NINDIRECT_def BSIZE_def nth_Cons')
  have "blocks_ok demo_fs demo_ino"
    unfolding blocks_ok_def using fa dk
    by (auto simp: demo_ino_def NDIRECT_def nth_Cons')
  moreover have "mapped demo_fs demo_ino 0 5" by (auto simp: mapped_def fa MAXFILE_def NDIRECT_def BSIZE_def)
  ultimately show "file_ok demo_fs (icache demo_fs ! 0)"
    by (simp add: file_ok_def demo_fs_icache demo_ino_def MAXFILE_bytes)
  show "fbyte demo_fs (icache demo_fs ! 0) i = [104, 101, 108, 108, 111] ! i" if "i < 5"
    using that fa [of 0] by (simp add: fbyte_def demo_fs_icache MAXFILE_def NDIRECT_def BSIZE_def demo_fs_state demo_img_blocks pad_block_def nth_Cons')
qed

theorem readi_bytes_witness:
  "\<exists>s'. readi no_dev 0 1 100 demo_fs = Inr (4, [101, 108, 108, 111], s')"
proof -
  have ty: "i_type (icache demo_fs ! 0) \<noteq> T_DEV" "i_size (icache demo_fs ! 0) = 5"
    by (simp_all add: demo_fs_icache demo_ino_def T_DEV_def)
  have "map (fbyte demo_fs (icache demo_fs ! 0)) [1..<5] = [101, 108, 108, 111]"
    by (simp add: upt_rec demo_fs_file)
  with readi_bytes [OF demo_fs_state(1) demo_fs_file(1) demo_fs_state(2) _ ty(1), of 1 100 no_dev]
  show ?thesis by (auto simp: demo_fs_state ty NBUF_def)
qed

lemma demo_fs_ready: "write_ready demo_fs 0 3 4"
proof -
  have "IBLOCK 2 = 2" by (simp add: IBLOCK_def IPB_def)
  moreover have "nspan 3 4 = 1" by (simp add: nspan_def BSIZE_def)
  moreover have "nfree demo_fs = 2"
  proof -
    have "{b. b < 20 \<and> home_ok demo_fs b \<and> \<not> used demo_fs b} = {7, 8}" using demo_fs_state(8,10) by auto
    then show ?thesis by (simp add: nfree_def demo_fs_state)
  qed
  ultimately show ?thesis
    by (simp add: write_ready_def demo_fs_state demo_fs_icache demo_ino_def NBUF_def)
qed

theorem writei_readi_roundtrip_witness:
  "\<exists>s1 s2. writei no_dev 0 [1, 2, 3, 4] 3 demo_fs = Inr (4, s1) \<and> readi no_dev 0 3 4 s1 = Inr (4, [1, 2, 3, 4], s2) \<and>
    i_size (icache s1 ! 0) = 7"
proof -
  have ty: "i_type (icache demo_fs ! 0) \<noteq> T_DEV" "i_size (icache demo_fs ! 0) = 5"
    by (simp_all add: demo_fs_icache demo_ino_def T_DEV_def)
  have "write_ready demo_fs 0 3 (length [1, 2, 3, 4 :: byte])" using demo_fs_ready by (simp add: numeral_eq_Suc)
  moreover have "length [1, 2, 3, 4 :: byte] = 4" by (simp add: numeral_eq_Suc)
  ultimately show ?thesis
    using writei_readi_roundtrip [OF _ demo_fs_file(1) ty(1), of 3 "[1, 2, 3, 4]" no_dev]
    by (force simp add: ty MAXFILE_bytes simp del: list.size)
qed

theorem writei_rejects_witness: "writei no_dev 0 [1] 9 demo_fs = Inr (-1, demo_fs)"
  by (rule writei_rejects) (simp_all add: demo_fs_icache demo_ino_def T_DEV_def)

end
