(* ===== verification/Kstring.thy ===== *)
theory Kstring
  imports Xv6_Prelude
begin

unbundle bit_operations_syntax

text \<open>
  \<open>kernel/string.c\<close>: the byte-string primitives of the kernel, over an explicit memory, a
  function from addresses to bytes, so that overlapping source and destination areas are
  visible. The lemmas say what each routine leaves in memory; \<open>memmove\<close> is correct for every
  overlap. The user-space copy of the routines is in theory Ustring.
\<close>

type_synonym memory = "nat \<Rightarrow> byte"

section \<open>Operations\<close>

text \<open>\<open>rep stosb\<close> and \<open>rep stosl\<close> (\<open>include/x86.h\<close>).\<close>

fun stosb :: "memory \<Rightarrow> nat \<Rightarrow> byte \<Rightarrow> nat \<Rightarrow> memory" where
  "stosb m a c 0 = m"
| "stosb m a c (Suc n) = stosb (m(a := c)) (Suc a) c n"

definition store32 :: "memory \<Rightarrow> nat \<Rightarrow> u32 \<Rightarrow> memory" where
  "store32 m a w =
     m(a := ucast w, a + 1 := ucast (drop_bit 8 w),
       a + 2 := ucast (drop_bit 16 w), a + 3 := ucast (drop_bit 24 w))"

fun stosl :: "memory \<Rightarrow> nat \<Rightarrow> u32 \<Rightarrow> nat \<Rightarrow> memory" where
  "stosl m a w 0 = m"
| "stosl m a w (Suc n) = stosl (store32 m a w) (a + 4) w n"

definition memset :: "memory \<Rightarrow> nat \<Rightarrow> u32 \<Rightarrow> nat \<Rightarrow> memory" where
  "memset m dst c n =
     (if dst mod 4 = 0 \<and> n mod 4 = 0
      then (let c = c AND 0xFF
            in stosl m dst (push_bit 24 c OR push_bit 16 c OR push_bit 8 c OR c) (n div 4))
      else stosb m dst (ucast c) n)"

fun memcmp :: "memory \<Rightarrow> nat \<Rightarrow> nat \<Rightarrow> nat \<Rightarrow> int" where
  "memcmp m s1 s2 0 = 0"
| "memcmp m s1 s2 (Suc n) =
     (if m s1 \<noteq> m s2 then uint (m s1) - uint (m s2) else memcmp m (Suc s1) (Suc s2) n)"

text \<open>The two loops of \<open>memmove\<close>: \<open>while (n-- > 0) *--d = *--s\<close> and \<open>while (n-- > 0) *d++ = *s++\<close>.\<close>

fun move_down :: "memory \<Rightarrow> nat \<Rightarrow> nat \<Rightarrow> nat \<Rightarrow> memory" where
  "move_down m d s 0 = m"
| "move_down m d s (Suc n) = move_down (m(d - 1 := m (s - 1))) (d - 1) (s - 1) n"

fun move_up :: "memory \<Rightarrow> nat \<Rightarrow> nat \<Rightarrow> nat \<Rightarrow> memory" where
  "move_up m d s 0 = m"
| "move_up m d s (Suc n) = move_up (m(d := m s)) (Suc d) (Suc s) n"

definition memmove :: "memory \<Rightarrow> nat \<Rightarrow> nat \<Rightarrow> nat \<Rightarrow> memory" where
  "memmove m dst src n =
     (if src < dst \<and> src + n > dst then move_down m (dst + n) (src + n) n
      else move_up m dst src n)"

definition memcpy :: "memory \<Rightarrow> nat \<Rightarrow> nat \<Rightarrow> nat \<Rightarrow> memory" where
  "memcpy m dst src n = memmove m dst src n"

fun strncmp :: "memory \<Rightarrow> nat \<Rightarrow> nat \<Rightarrow> nat \<Rightarrow> int" where
  "strncmp m p q 0 = 0"
| "strncmp m p q (Suc n) =
     (if m p \<noteq> 0 \<and> m p = m q then strncmp m (Suc p) (Suc q) n
      else uint (m p) - uint (m q))"

text \<open>The first loop of \<open>strncpy\<close> returns the memory, \<open>s\<close> and \<open>n\<close> as it leaves them.\<close>

function strncpy_copy :: "memory \<Rightarrow> nat \<Rightarrow> nat \<Rightarrow> int \<Rightarrow> memory \<times> nat \<times> int" where
  "strncpy_copy m s t n =
     (if n > 0 then
        (if m t \<noteq> 0 then strncpy_copy (m(s := m t)) (Suc s) (Suc t) (n - 1)
         else (m(s := m t), Suc s, n - 1))
      else (m, s, n - 1))"
  by pat_completeness auto
termination by (relation "measure (\<lambda>(m, s, t, n). nat n)") auto

function strncpy_pad :: "memory \<Rightarrow> nat \<Rightarrow> int \<Rightarrow> memory" where
  "strncpy_pad m s n = (if n > 0 then strncpy_pad (m(s := 0)) (Suc s) (n - 1) else m)"
  by pat_completeness auto
termination by (relation "measure (\<lambda>(m, s, n). nat n)") auto

definition strncpy :: "memory \<Rightarrow> nat \<Rightarrow> nat \<Rightarrow> int \<Rightarrow> memory" where
  "strncpy m s t n = (case strncpy_copy m s t n of (m1, s1, n1) \<Rightarrow> strncpy_pad m1 s1 n1)"

text \<open>The loop \<open>while (--n > 0 && (*s++ = *t++) != 0)\<close> of \<open>safestrcpy\<close>; it returns \<open>s\<close>.\<close>

function safestrcpy_copy :: "memory \<Rightarrow> nat \<Rightarrow> nat \<Rightarrow> int \<Rightarrow> memory \<times> nat" where
  "safestrcpy_copy m s t n =
     (if n - 1 > 0 then
        (if m t \<noteq> 0 then safestrcpy_copy (m(s := m t)) (Suc s) (Suc t) (n - 1)
         else (m(s := m t), Suc s))
      else (m, s))"
  by pat_completeness auto
termination by (relation "measure (\<lambda>(m, s, t, n). nat n)") auto

definition safestrcpy :: "memory \<Rightarrow> nat \<Rightarrow> nat \<Rightarrow> int \<Rightarrow> memory" where
  "safestrcpy m s t n =
     (if n \<le> 0 then m else (case safestrcpy_copy m s t n of (m1, s1) \<Rightarrow> m1(s1 := 0)))"

text \<open>\<open>strlen\<close> and \<open>strcpy\<close> run until they meet a NUL; without one they do not return.\<close>

partial_function (option) strlen_loop :: "memory \<Rightarrow> nat \<Rightarrow> nat \<Rightarrow> nat option" where
  "strlen_loop m s n = (if m (s + n) = 0 then Some n else strlen_loop m s (Suc n))"

definition strlen :: "memory \<Rightarrow> nat \<Rightarrow> nat option" where
  "strlen m s = strlen_loop m s 0"

partial_function (option) strcpy :: "memory \<Rightarrow> nat \<Rightarrow> nat \<Rightarrow> memory option" where
  "strcpy m dst src =
     (if m src = 0 then Some (m(dst := 0))
      else strcpy (m(dst := m src)) (Suc dst) (Suc src))"

declare strncpy_copy.simps [simp del] strncpy_pad.simps [simp del] safestrcpy_copy.simps [simp del]

section \<open>Filling and moving memory\<close>

lemma stosb_fills: "stosb m a c n x = (if a \<le> x \<and> x < a + n then c else m x)"
  by (induction n arbitrary: m a) auto

text \<open>A word whose four bytes agree fills memory bytewise.\<close>

lemma store32_const:
  assumes "ucast w = c" "ucast (drop_bit 8 w) = c" "ucast (drop_bit 16 w) = c" "ucast (drop_bit 24 w) = c"
  shows "store32 m a w x = (if a \<le> x \<and> x < a + 4 then c else m x)"
  using assms by (auto simp: store32_def)

lemma stosl_const:
  assumes "ucast w = c" "ucast (drop_bit 8 w) = c" "ucast (drop_bit 16 w) = c" "ucast (drop_bit 24 w) = c"
  shows "stosl m a w n x = (if a \<le> x \<and> x < a + 4 * n then c else m x)"
  using assms by (induction n arbitrary: m a) (auto simp: store32_const)

lemma move_down_correct:
  "s < d \<Longrightarrow> n \<le> s \<Longrightarrow> move_down m d s n x = (if d - n \<le> x \<and> x < d then m (x - (d - s)) else m x)"
proof (induction n arbitrary: m d s)
  case (Suc n)
  have "move_down (m(d - 1 := m (s - 1))) (d - 1) (s - 1) n x =
      (if d - 1 - n \<le> x \<and> x < d - 1 then (m(d - 1 := m (s - 1))) (x - (d - 1 - (s - 1)))
       else (m(d - 1 := m (s - 1))) x)"
    using Suc.prems by (intro Suc.IH) auto
  with Suc.prems show ?case by (cases "x = d - 1") auto
qed simp

lemma move_up_correct:
  "d \<le> s \<or> s + n \<le> d \<Longrightarrow> move_up m d s n x = (if d \<le> x \<and> x < d + n then m (s + (x - d)) else m x)"
proof (induction n arbitrary: m d s)
  case (Suc n)
  have IH: "move_up (m(d := m s)) (Suc d) (Suc s) n x =
      (if Suc d \<le> x \<and> x < Suc d + n then (m(d := m s)) (Suc s + (x - Suc d)) else (m(d := m s)) x)"
    using Suc.prems by (intro Suc.IH) auto
  have "Suc d \<le> x \<Longrightarrow> x < Suc d + n \<Longrightarrow> Suc s + (x - Suc d) \<noteq> d"
    using Suc.prems by auto
  with IH show ?case by (cases "x = d") (auto simp: Suc_diff_Suc)
qed auto

section \<open>Comparing and copying strings\<close>

text \<open>\<open>string_at m p xs\<close>: a NUL-terminated string with the bytes \<open>xs\<close> stands at \<open>p\<close>.\<close>

definition string_at :: "memory \<Rightarrow> nat \<Rightarrow> byte list \<Rightarrow> bool" where
  "string_at m p xs \<longleftrightarrow> 0 \<notin> set xs \<and> map m [p..<p + length xs] = xs \<and> m (p + length xs) = 0"

lemma string_at_Nil [simp]: "string_at m p [] \<longleftrightarrow> m p = 0"
  by (simp add: string_at_def)

lemma string_at_Cons [simp]:
  "string_at m p (x # xs) \<longleftrightarrow> x \<noteq> 0 \<and> m p = x \<and> string_at m (Suc p) xs"
  by (auto simp: string_at_def upt_conv_Cons simp del: upt_Suc)

text \<open>The same comparison on byte lists, where reading past the end of a list reads a NUL; the
  file system uses it on name fields.\<close>

fun hd0 :: "byte list \<Rightarrow> byte" where
  "hd0 [] = 0"
| "hd0 (x # xs) = x"

fun strncmp_l :: "byte list \<Rightarrow> byte list \<Rightarrow> nat \<Rightarrow> int" where
  "strncmp_l p q 0 = 0"
| "strncmp_l p q (Suc n) =
     (if hd0 p \<noteq> 0 \<and> hd0 p = hd0 q then strncmp_l (tl p) (tl q) n
      else uint (hd0 p) - uint (hd0 q))"

lemma strncmp_list: "strncmp m p q n = strncmp_l (map m [p..<p + n]) (map m [q..<q + n]) n"
proof (induction n arbitrary: p q)
  case (Suc n)
  have "map m [r..<r + Suc n] = m r # map m [Suc r..<Suc r + n]" for r
    by (simp add: upt_conv_Cons del: upt_Suc)
  with Suc show ?case by (simp del: upt_Suc add_Suc_right add_Suc)
qed simp

text \<open>The string a field of at most \<open>n\<close> bytes holds: the bytes before the first NUL.\<close>

definition cstr :: "byte list \<Rightarrow> byte list" where
  "cstr xs = takeWhile (\<lambda>b. b \<noteq> 0) xs"

lemma cstr_simps [simp]: "cstr [] = []" "cstr (x # xs) = (if x = 0 then [] else x # cstr xs)"
  by (simp_all add: cstr_def)

lemma cstr_take: "hd0 (cstr xs) = (if xs = [] then 0 else hd xs)"
  by (cases xs) auto

lemma strncmp_l_0_iff: "strncmp_l p q n = 0 \<longleftrightarrow> cstr (take n p) = cstr (take n q)"
proof (induction p q n rule: strncmp_l.induct)
  case (2 p q n)
  then show ?case by (cases p; cases q) (auto simp: word_uint_eq_iff [symmetric] uint_0_iff)
qed simp

lemma strlen_loop_string:
  "string_at m (p + n) xs \<Longrightarrow> strlen_loop m p n = Some (n + length xs)"
proof (induction xs arbitrary: n)
  case Nil
  then show ?case by (subst strlen_loop.simps) simp
next
  case (Cons x xs)
  then show ?case by (subst strlen_loop.simps) auto
qed

lemma strncpy_pad_eq: "strncpy_pad m s n x = (if s \<le> x \<and> int x < int s + n then 0 else m x)"
proof (induction "nat n" arbitrary: m s n)
  case (Suc k)
  then have "strncpy_pad (m(s := 0)) (Suc s) (n - 1) x =
      (if Suc s \<le> x \<and> int x < int (Suc s) + (n - 1) then 0 else (m(s := 0)) x)"
    by simp
  with Suc(2) show ?case by (subst strncpy_pad.simps) auto
qed (subst strncpy_pad.simps, auto)

lemma safestrcpy_copy_bound:
  assumes "safestrcpy_copy m s t n = (m1, s1)" "0 < n"
  shows "s \<le> s1 \<and> int s1 < int s + n \<and> (\<forall>x. x < s \<or> s1 \<le> x \<longrightarrow> m1 x = m x)"
  using assms
proof (induction "nat n" arbitrary: m s t n)
  case (Suc k)
  show ?case
  proof (cases "n - 1 > 0 \<and> m t \<noteq> 0")
    case True
    with Suc.prems have rec: "safestrcpy_copy (m(s := m t)) (Suc s) (Suc t) (n - 1) = (m1, s1)"
      by (simp add: safestrcpy_copy.simps [of m s t n])
    have "Suc s \<le> s1 \<and> int s1 < int (Suc s) + (n - 1)
        \<and> (\<forall>x. x < Suc s \<or> s1 \<le> x \<longrightarrow> m1 x = (m(s := m t)) x)"
      by (rule Suc.hyps(1) [OF _ rec]) (use True Suc.hyps(2) in auto)
    then show ?thesis by auto
  next
    case False
    with Suc.prems show ?thesis
      by (auto simp: safestrcpy_copy.simps [of m s t n] split: if_splits)
  qed
qed simp

text \<open>\<open>strncpy\<close> on byte lists: the string cut at \<open>n\<close> bytes and padded with NULs to \<open>n\<close> bytes.\<close>

definition strncpy_l :: "byte list \<Rightarrow> nat \<Rightarrow> byte list" where
  "strncpy_l t n = (let u = cstr (take n t) in u @ replicate (n - length u) 0)"

lemma length_cstr_le: "length (cstr xs) \<le> length xs"
  by (induction xs) auto

lemma length_strncpy_l [simp]: "length (strncpy_l t n) = n"
  using length_cstr_le [of "take n t"] by (simp add: strncpy_l_def Let_def)

lemma cstr_append_zeros: "0 \<notin> set xs \<Longrightarrow> cstr (xs @ replicate k 0) = xs"
  by (induction xs) (auto, cases k, auto)

lemma zero_not_in_cstr [simp]: "0 \<notin> set (cstr xs)"
  by (induction xs) auto

lemma cstr_strncpy_l [simp]: "cstr (strncpy_l t n) = cstr (take n t)"
  by (simp add: strncpy_l_def Let_def cstr_append_zeros)

lemma strncpy_l_Suc:
  "strncpy_l t (Suc n) = (if hd0 t = 0 then replicate (Suc n) 0 else hd0 t # strncpy_l (tl t) n)"
  by (cases t) (auto simp: strncpy_l_def Let_def)

lemma strncpy_copy_pad:
  assumes "t + n \<le> s \<or> s + n \<le> t"
  shows "(case strncpy_copy m s t (int n) of (m1, s1, n1) \<Rightarrow> strncpy_pad m1 s1 n1) x =
    (if s \<le> x \<and> x < s + n then strncpy_l (map m [t..<t + n]) n ! (x - s) else m x)"
  using assms
proof (induction n arbitrary: m s t)
  case 0
  then show ?case by (auto simp: strncpy_copy.simps [of m s t] strncpy_pad_eq)
next
  case (Suc n)
  have step: "map m [t..<t + Suc n] = m t # map m [Suc t..<Suc t + n]"
    by (simp add: upt_conv_Cons del: upt_Suc)
  have same: "map (m(s := m t)) [Suc t..<Suc t + n] = map m [Suc t..<Suc t + n]"
    using Suc.prems by auto
  show ?case
  proof (cases "m t = 0")
    case True
    then show ?thesis
      unfolding step by (auto simp: strncpy_copy.simps [of m s t] strncpy_pad_eq strncpy_l_Suc nth_Cons'
          simp del: upt_Suc)
  next
    case False
    have "(case strncpy_copy (m(s := m t)) (Suc s) (Suc t) (int n) of (m1, s1, n1) \<Rightarrow> strncpy_pad m1 s1 n1) x =
        (if Suc s \<le> x \<and> x < Suc s + n
         then strncpy_l (map (m(s := m t)) [Suc t..<Suc t + n]) n ! (x - Suc s) else (m(s := m t)) x)"
      using Suc.prems by (intro Suc.IH) auto
    then have "(case strncpy_copy (m(s := m t)) (Suc s) (Suc t) (int n) of (m1, s1, n1) \<Rightarrow> strncpy_pad m1 s1 n1) x =
        (if Suc s \<le> x \<and> x < Suc s + n
         then strncpy_l (map m [Suc t..<Suc t + n]) n ! (x - Suc s) else (m(s := m t)) x)"
      by (simp only: same)
    moreover have "strncpy_copy m s t (int (Suc n)) = strncpy_copy (m(s := m t)) (Suc s) (Suc t) (int n)"
      using False by (simp add: strncpy_copy.simps [of m s t])
    ultimately show ?thesis
      using False unfolding step
      by (auto simp: strncpy_l_Suc nth_Cons' Suc_diff_Suc simp del: upt_Suc of_nat_Suc)
  qed
qed

section \<open>What the routines guarantee\<close>

lemma bit_low_byte: "bit (c AND 0xFF :: u32) i \<longleftrightarrow> i < 8 \<and> bit c i"
proof -
  have "(0xFF :: u32) = mask 8" by (simp add: mask_eq_exp_minus_1)
  then have "bit (c AND 0xFF) i \<longleftrightarrow> bit c i \<and> bit (mask 8 :: u32) i" by (simp only: bit_and_iff)
  then show ?thesis by (auto simp: bit_mask_iff dest: bit_imp_le_length)
qed

lemma byte_of_fill_word:
  "ucast ((push_bit 24 w OR push_bit 16 w OR push_bit 8 w OR w) :: u32) = (ucast w :: byte)"
  "ucast (drop_bit 8 (push_bit 24 w OR push_bit 16 w OR push_bit 8 w OR w) :: u32) = (ucast w :: byte)"
  "ucast (drop_bit 16 (push_bit 24 w OR push_bit 16 w OR push_bit 8 w OR w) :: u32) = (ucast w :: byte)"
  "ucast (drop_bit 24 (push_bit 24 w OR push_bit 16 w OR push_bit 8 w OR w) :: u32) = (ucast w :: byte)"
  if "w = c AND 0xFF" for w c :: u32
proof -
  have m: "bit w i \<longleftrightarrow> i < 8 \<and> bit c i" for i
    using that by (simp add: bit_low_byte)
  show "ucast ((push_bit 24 w OR push_bit 16 w OR push_bit 8 w OR w) :: u32) = (ucast w :: byte)"
  "ucast (drop_bit 8 (push_bit 24 w OR push_bit 16 w OR push_bit 8 w OR w) :: u32) = (ucast w :: byte)"
  "ucast (drop_bit 16 (push_bit 24 w OR push_bit 16 w OR push_bit 8 w OR w) :: u32) = (ucast w :: byte)"
  "ucast (drop_bit 24 (push_bit 24 w OR push_bit 16 w OR push_bit 8 w OR w) :: u32) = (ucast w :: byte)"
    by (auto simp: bit_eq_iff bit_simps m)
qed

lemma memset_apply:
  "memset m dst c n x = (if dst \<le> x \<and> x < dst + n then ucast c else m x)"
proof (cases "dst mod 4 = 0 \<and> n mod 4 = 0")
  case True
  define w where "w = c AND 0xFF"
  have c: "ucast w = (ucast c :: byte)"
    by (rule bit_eqI) (auto simp: w_def bit_unsigned_iff bit_low_byte)
  have "4 * (n div 4) = n" using True by presburger
  with True show ?thesis
    using stosl_const [OF byte_of_fill_word [OF w_def], of m dst "n div 4" x]
    by (simp add: memset_def Let_def w_def [symmetric] c)
next
  case False
  then show ?thesis by (auto simp: memset_def stosb_fills)
qed

text \<open>\<open>memset\<close> sets exactly the \<open>n\<close> bytes from \<open>dst\<close> to the low byte of \<open>c\<close>, whether it takes
  the word-wise path (aligned address and length) or the byte-wise one.\<close>

theorem memset_fills:
  "memset m dst c n x = (if dst \<le> x \<and> x < dst + n then ucast c else m x)"
  by (rule memset_apply)

text \<open>\<open>memmove\<close> copies \<open>n\<close> bytes from \<open>src\<close> to \<open>dst\<close> and changes no other byte, for every overlap
  of the two areas.\<close>

theorem memmove_correct:
  "memmove m dst src n x = (if dst \<le> x \<and> x < dst + n then m (src + (x - dst)) else m x)"
proof (cases "src < dst \<and> src + n > dst")
  case True
  then show ?thesis by (auto simp: memmove_def move_down_correct add.commute)
next
  case False
  then have "dst \<le> src \<or> src + n \<le> dst" by auto
  with False show ?thesis by (simp only: memmove_def move_up_correct if_False)
qed

text \<open>\<open>safestrcpy\<close> with a positive length leaves a NUL among the \<open>n\<close> bytes of the destination
  and writes nowhere else.\<close>

theorem safestrcpy_terminated:
  assumes "0 < n"
  shows "(\<exists>k. int k < n \<and> safestrcpy m s t n (s + k) = 0) \<and>
    (\<forall>x. x < s \<or> int s + n \<le> int x \<longrightarrow> safestrcpy m s t n x = m x)"
proof -
  obtain m1 s1 where eq: "safestrcpy_copy m s t n = (m1, s1)" by fastforce
  from safestrcpy_copy_bound [OF eq assms] have
    b: "s \<le> s1" "int s1 < int s + n" "\<And>x. x < s \<or> s1 \<le> x \<Longrightarrow> m1 x = m x" by auto
  have res: "safestrcpy m s t n = m1(s1 := 0)" using assms eq by (simp add: safestrcpy_def)
  show ?thesis
  proof
    show "\<exists>k. int k < n \<and> safestrcpy m s t n (s + k) = 0"
      using b by (intro exI [of _ "s1 - s"]) (auto simp: res)
    show "\<forall>x. x < s \<or> int s + n \<le> int x \<longrightarrow> safestrcpy m s t n x = m x"
      using b by (auto simp: res)
  qed
qed

theorem safestrcpy_terminated_witness:
  "(\<exists>k. int k < 2 \<and> safestrcpy (\<lambda>_. 65) 100 0 2 (100 + k) = 0) \<and>
    safestrcpy (\<lambda>_. 65) 100 0 2 102 = 65"
  using safestrcpy_terminated [of 2 "\<lambda>_. 65" 100 0] by simp

text \<open>\<open>strlen\<close> returns, and returns the length, wherever a NUL-terminated string stands.\<close>

theorem strlen_string: "string_at m p xs \<Longrightarrow> strlen m p = Some (length xs)"
  using strlen_loop_string [of m p 0 xs] by (simp add: strlen_def)

theorem strlen_string_witness:
  "strlen ((\<lambda>_. 0)(7 := 97, 8 := 98)) 7 = Some (length [97, 98 :: byte])"
  by (rule strlen_string) simp

end
