(* ===== verification/Fs_Dir.thy ===== *)
theory Fs_Dir
  imports Fs_File Kstring
begin

text \<open>
  The directory and path layers of \<open>kernel/fs.c\<close>: \<open>namecmp\<close>, \<open>dirlookup\<close>, \<open>dirlink\<close>, \<open>skipelem\<close>, \<open>namex\<close>,
  \<open>namei\<close> and \<open>nameiparent\<close>, and the disk statistics \<open>get_inodes_used\<close> and \<open>show_disk_free\<close>. A path is the
  list of its bytes before the terminating NUL; the \<open>name\<close> buffer of \<open>DIRSIZ\<close> bytes is a byte list
  that the operations take and return. The lemmas relate directories to the list of their entries
  (\<open>dir_find\<close>) and paths to the list of their elements (\<open>elements\<close>).
\<close>

section \<open>Directories\<close>

definition DIRSIZ :: nat where "DIRSIZ = 14"
definition DIRENT_SIZE :: nat where "DIRENT_SIZE = 16"
definition ROOTINO :: nat where "ROOTINO = 1"

text \<open>The two fields of a \<open>struct dirent\<close>, and its bytes.\<close>

definition de_inum :: "byte list \<Rightarrow> nat" where "de_inum de = get_u16 0 de"
definition de_name :: "byte list \<Rightarrow> byte list" where "de_name de = slice 2 DIRSIZ de"
definition mk_dirent :: "nat \<Rightarrow> byte list \<Rightarrow> byte list" where "mk_dirent inum name = le_enc 2 inum @ name"

definition namecmp :: "byte list \<Rightarrow> byte list \<Rightarrow> int" where
  "namecmp s t = strncmp_l s t DIRSIZ"

text \<open>The loop of \<open>dirlookup\<close> from offset \<open>off\<close> of a directory of \<open>sz\<close> bytes (\<open>dp->size\<close>: the directory is
  locked, and \<open>readi\<close> does not change it). It returns the entry of the inode cache and the offset
  for \<open>*poff\<close>.\<close>

function dirlookup_loop :: "'a fs_state_scheme devsw \<Rightarrow> nat \<Rightarrow> byte list \<Rightarrow> nat \<Rightarrow> nat \<Rightarrow> 'a fs_state_scheme \<Rightarrow>
    ((nat \<times> nat) option \<times> 'a fs_state_scheme) res" where
  "dirlookup_loop dv dp name sz off s =
     (if off < sz then
        res_bind (readi dv dp off DIRENT_SIZE s) (\<lambda>(n, de, s).
          if n \<noteq> int DIRENT_SIZE then Inl (Panic ''dirlink read'')
          else if de_inum de = 0 then dirlookup_loop dv dp name sz (off + DIRENT_SIZE) s
          else if namecmp name (de_name de) = 0 then
            res_bind (iget (i_dev (icache s ! dp)) (de_inum de) s) (\<lambda>(ip, s). Inr (Some (ip, off), s))
          else dirlookup_loop dv dp name sz (off + DIRENT_SIZE) s)
      else Inr (None, s))"
  by pat_completeness auto
termination
  by (relation "measure (\<lambda>(dv, dp, name, sz, off, s). sz - off)") (auto simp: DIRENT_SIZE_def)

definition dirlookup :: "'a fs_state_scheme devsw \<Rightarrow> nat \<Rightarrow> byte list \<Rightarrow> 'a fs_state_scheme \<Rightarrow>
    ((nat \<times> nat) option \<times> 'a fs_state_scheme) res" where
  "dirlookup dv dp name s =
     (if i_type (icache s ! dp) \<noteq> T_DIR then Inl (Panic ''dirlookup not DIR'')
      else dirlookup_loop dv dp name (i_size (icache s ! dp)) 0 s)"

text \<open>The second loop of \<open>dirlink\<close>: the offset of the first free entry, or of the end.\<close>

function dirlink_slot :: "'a fs_state_scheme devsw \<Rightarrow> nat \<Rightarrow> nat \<Rightarrow> nat \<Rightarrow> 'a fs_state_scheme \<Rightarrow> (nat \<times> 'a fs_state_scheme) res" where
  "dirlink_slot dv dp sz off s =
     (if off < sz then
        res_bind (readi dv dp off DIRENT_SIZE s) (\<lambda>(n, de, s).
          if n \<noteq> int DIRENT_SIZE then Inl (Panic ''dirlink read'')
          else if de_inum de = 0 then Inr (off, s)
          else dirlink_slot dv dp sz (off + DIRENT_SIZE) s)
      else Inr (off, s))"
  by pat_completeness auto
termination
  by (relation "measure (\<lambda>(dv, dp, sz, off, s). sz - off)") (auto simp: DIRENT_SIZE_def)

definition dirlink :: "'a fs_state_scheme devsw \<Rightarrow> nat \<Rightarrow> byte list \<Rightarrow> nat \<Rightarrow> 'a fs_state_scheme \<Rightarrow> (int \<times> 'a fs_state_scheme) res" where
  "dirlink dv dp name inum s =
     res_bind (dirlookup dv dp name s) (\<lambda>(r, s).
       case r of
         Some (ip, _) \<Rightarrow> res_bind (iput ip s) (\<lambda>s. Inr (-1, s))
       | None \<Rightarrow>
           res_bind (dirlink_slot dv dp (i_size (icache s ! dp)) 0 s) (\<lambda>(off, s).
           res_bind (writei dv dp (mk_dirent inum (strncpy_l name DIRSIZ)) off s) (\<lambda>(n, s).
             if n \<noteq> int DIRENT_SIZE then Inl (Panic ''dirlink'') else Inr (0, s))))"

declare dirlookup_loop.simps [simp del] dirlink_slot.simps [simp del]

section \<open>Paths\<close>

definition slash :: byte where "slash = 47"

definition skipelem :: "byte list \<Rightarrow> byte list \<Rightarrow> (byte list \<times> byte list) option" where
  "skipelem path name =
     (let path = dropWhile (\<lambda>c. c = slash) path
      in if path = [] then None
         else
           let s = takeWhile (\<lambda>c. c \<noteq> slash) path;
               path = dropWhile (\<lambda>c. c \<noteq> slash) path;
               name = (if length s \<ge> DIRSIZ then splice 0 (take DIRSIZ s) name else splice 0 (s @ [0]) name)
           in Some (dropWhile (\<lambda>c. c = slash) path, name))"

lemma length_dropWhile_less: "xs \<noteq> [] \<Longrightarrow> P (hd xs) \<Longrightarrow> length (dropWhile P xs) < length xs"
  by (cases xs) (auto simp: le_imp_less_Suc length_dropWhile_le)

lemma skipelem_shorter: "skipelem path name = Some (rest, name') \<Longrightarrow> length rest < length path"
proof -
  assume a: "skipelem path name = Some (rest, name')"
  define p where "p = dropWhile (\<lambda>c. c = slash) path"
  from a have p: "p \<noteq> []" and r: "rest = dropWhile (\<lambda>c. c = slash) (dropWhile (\<lambda>c. c \<noteq> slash) p)"
    by (auto simp: skipelem_def Let_def p_def split: if_splits)
  have "hd p \<noteq> slash" using hd_dropWhile [of "\<lambda>c. c = slash" path] p by (simp add: p_def)
  then have "length (dropWhile (\<lambda>c. c \<noteq> slash) p) < length p" using p by (intro length_dropWhile_less)
  moreover have "length p \<le> length path" by (simp add: p_def length_dropWhile_le)
  moreover have "length rest \<le> length (dropWhile (\<lambda>c. c \<noteq> slash) p)" by (simp add: r length_dropWhile_le)
  ultimately show ?thesis by simp
qed

text \<open>The loop of \<open>namex\<close> at inode \<open>ip\<close>. It returns the inode, if any, and the \<open>name\<close> buffer.\<close>

function namex_loop :: "'a fs_state_scheme devsw \<Rightarrow> byte list \<Rightarrow> bool \<Rightarrow> byte list \<Rightarrow> nat \<Rightarrow> 'a fs_state_scheme \<Rightarrow>
    (nat option \<times> byte list \<times> 'a fs_state_scheme) res" where
  "namex_loop dv path parent name ip s =
     (case skipelem path name of
        None \<Rightarrow>
          if parent then res_bind (iput ip s) (\<lambda>s. Inr (None, name, s))
          else Inr (Some ip, name, s)
      | Some (rest, name1) \<Rightarrow>
          res_bind (ilock ip s) (\<lambda>s.
            if i_type (icache s ! ip) \<noteq> T_DIR then res_bind (iunlockput ip s) (\<lambda>s. Inr (None, name1, s))
            else if parent \<and> rest = [] then res_bind (iunlock ip s) (\<lambda>s. Inr (Some ip, name1, s))
            else
              res_bind (dirlookup dv ip name1 s) (\<lambda>(r, s).
                case r of
                  None \<Rightarrow> res_bind (iunlockput ip s) (\<lambda>s. Inr (None, name1, s))
                | Some (nxt, _) \<Rightarrow>
                    res_bind (iunlockput ip s) (\<lambda>s. namex_loop dv rest parent name1 nxt s))))"
  by pat_completeness auto
termination
  by (relation "measure (\<lambda>(dv, path, parent, name, ip, s). length path)") (auto dest: skipelem_shorter)

text \<open>\<open>cwd\<close> is \<open>proc->cwd\<close>.\<close>

definition namex :: "'a fs_state_scheme devsw \<Rightarrow> nat \<Rightarrow> byte list \<Rightarrow> bool \<Rightarrow> byte list \<Rightarrow> 'a fs_state_scheme \<Rightarrow>
    (nat option \<times> byte list \<times> 'a fs_state_scheme) res" where
  "namex dv cwd path parent name s =
     res_bind (if path \<noteq> [] \<and> hd path = slash then iget ROOTDEV ROOTINO s else Inr (cwd, idup cwd s)) (\<lambda>(ip, s).
       namex_loop dv path parent name ip s)"

declare namex_loop.simps [simp del]

text \<open>The local buffer of \<open>namei\<close> is not initialised; its contents are an argument.\<close>

definition namei :: "'a fs_state_scheme devsw \<Rightarrow> nat \<Rightarrow> byte list \<Rightarrow> byte list \<Rightarrow> 'a fs_state_scheme \<Rightarrow>
    (nat option \<times> 'a fs_state_scheme) res" where
  "namei dv cwd junk path s = res_bind (namex dv cwd path False junk s) (\<lambda>(r, _, s). Inr (r, s))"

definition nameiparent :: "'a fs_state_scheme devsw \<Rightarrow> nat \<Rightarrow> byte list \<Rightarrow> byte list \<Rightarrow> 'a fs_state_scheme \<Rightarrow>
    (nat option \<times> byte list \<times> 'a fs_state_scheme) res" where
  "nameiparent dv cwd path name s = namex dv cwd path True name s"

section \<open>Disk statistics\<close>

fun inodes_used_loop :: "nat list \<Rightarrow> int \<Rightarrow> 'a log_state_scheme \<Rightarrow> (int \<times> 'a log_state_scheme) res" where
  "inodes_used_loop [] i s = Inr (i, s)"
| "inodes_used_loop (inum # inums) i s =
     res_bind (bread 1 (IBLOCK inum) s) (\<lambda>(bp, s).
       if short_of (get_u16 (dinode_off inum) (buf_data bp s)) = 0 then res_bind (brelse bp s) (\<lambda>s. Inr (i, s))
       else res_bind (brelse bp s) (inodes_used_loop inums (i + 1)))"

definition get_inodes_used :: "int \<Rightarrow> 'a log_state_scheme \<Rightarrow> (int \<times> 'a log_state_scheme) res" where
  "get_inodes_used max_inodes s = res_bind (readsb 1 s) (\<lambda>(sb, s). inodes_used_loop [1..<sb_ninodes sb] 0 s)"

text \<open>What \<open>show_disk_free\<close> prints: the numbers, in the order of the lines. The last two divide an
  \<open>int\<close> converted to \<open>uint\<close> by a \<open>uint\<close>, which traps for an empty superblock.\<close>

definition show_disk_free :: "'a log_state_scheme \<Rightarrow> (int list \<times> 'a log_state_scheme) res" where
  "show_disk_free s =
     res_bind (readsb 1 s) (\<lambda>(sb, s).
     res_bind (get_number_of_used_blocks 1 s) (\<lambda>(used_blocks, s).
     res_bind (get_inodes_used (int_of_u32 (sb_ninodes sb)) s) (\<lambda>(inodes_used, s).
       if sb_size sb = 0 \<or> sb_ninodes sb = 0 then Inl (Undefined ''division by zero'')
       else Inr (map (\<lambda>n. int_of_u32 (u32_of_int n))
         [int (sb_size sb), int (sb_nblocks sb), int (sb_ninodes sb), int (sb_nlog sb), int BSIZE,
          int (sb_size sb div BPB + 1), int used_blocks, int (sb_size sb) - int used_blocks,
          inodes_used, int (sb_ninodes sb) - inodes_used,
          int (u32_of_int (int used_blocks * 100) div sb_size sb), int (u32_of_int (inodes_used * 100) div sb_ninodes sb)], s))))"

definition df :: "'a log_state_scheme \<Rightarrow> (int \<times> int list \<times> 'a log_state_scheme) res" where
  "df s = res_bind (show_disk_free s) (\<lambda>(out, s). Inr (0, out, s))"

section \<open>Paths as lists of elements\<close>

text \<open>The reference view of a path: its maximal non-empty runs of bytes other than the slash.\<close>

fun split_slash :: "byte list \<Rightarrow> byte list list" where
  "split_slash [] = [[]]"
| "split_slash (c # cs) = (if c = slash then [] # split_slash cs else (c # hd (split_slash cs)) # tl (split_slash cs))"

definition elements :: "byte list \<Rightarrow> byte list list" where
  "elements p = filter (\<lambda>e. e \<noteq> []) (split_slash p)"

lemma split_slash_nonempty [simp]: "split_slash p \<noteq> []" by (cases p) auto

lemma split_slash_run:
  "split_slash p = takeWhile (\<lambda>c. c \<noteq> slash) p #
    (case dropWhile (\<lambda>c. c \<noteq> slash) p of [] \<Rightarrow> [] | _ # cs \<Rightarrow> split_slash cs)"
  by (induction p) auto

lemma elements_slash [simp]: "elements [] = []" "elements (slash # p) = elements p"
  by (simp_all add: elements_def)

lemma elements_skip [simp]: "elements (dropWhile (\<lambda>c. c = slash) p) = elements p"
  by (induction p) (auto simp: elements_def)

lemma elements_run:
  assumes "p \<noteq> []" "hd p \<noteq> slash"
  shows "elements p = takeWhile (\<lambda>c. c \<noteq> slash) p # elements (dropWhile (\<lambda>c. c \<noteq> slash) p)"
proof -
  have "takeWhile (\<lambda>c. c \<noteq> slash) p \<noteq> []" using assms by (cases p) auto
  moreover have "filter (\<lambda>e. e \<noteq> []) (case dropWhile (\<lambda>c. c \<noteq> slash) p of [] \<Rightarrow> [] | _ # cs \<Rightarrow> split_slash cs) =
      elements (dropWhile (\<lambda>c. c \<noteq> slash) p)"
  proof (cases "dropWhile (\<lambda>c. c \<noteq> slash) p")
    case (Cons c cs)
    then have "c = slash" using hd_dropWhile [of "\<lambda>c. c \<noteq> slash" p] by auto
    with Cons show ?thesis by (simp add: elements_def)
  next
    case Nil
    then show ?thesis by (simp only: list.case filter.simps elements_slash)
  qed
  ultimately show ?thesis by (simp add: elements_def [of p] split_slash_run [of p])
qed

lemma cstr_no_nul: "0 \<notin> set xs \<Longrightarrow> cstr xs = xs" by (induction xs) auto

lemma cstr_until_nul: "0 \<notin> set xs \<Longrightarrow> cstr (xs @ 0 # ys) = xs" by (induction xs) auto

text \<open>C28: \<open>skipelem\<close> takes the elements of a path off one by one: it returns 0 exactly when there is none
  left; otherwise the returned path has the remaining elements (and is empty exactly when there
  are none), and the \<open>name\<close> buffer holds the element, cut at \<open>DIRSIZ\<close> bytes and NUL-terminated when
  shorter.\<close>

theorem skipelem_elements:
  assumes "length name = DIRSIZ" "0 \<notin> set path"
  shows "case elements path of
      [] \<Rightarrow> skipelem path name = None
    | e # es \<Rightarrow> \<exists>rest name'. skipelem path name = Some (rest, name') \<and> elements rest = es \<and> (rest = [] \<longleftrightarrow> es = []) \<and>
        length name' = DIRSIZ \<and> cstr name' = take DIRSIZ e"
proof -
  define p where "p = dropWhile (\<lambda>c. c = slash) path"
  have el: "elements path = elements p" by (simp add: p_def)
  show ?thesis
  proof (cases "p = []")
    case True
    then show ?thesis by (simp add: el skipelem_def Let_def p_def [symmetric])
  next
    case False
    then have hd: "hd p \<noteq> slash" using hd_dropWhile [of "\<lambda>c. c = slash" path] by (simp add: p_def)
    define e where "e = takeWhile (\<lambda>c. c \<noteq> slash) p"
    define q where "q = dropWhile (\<lambda>c. c = slash) (dropWhile (\<lambda>c. c \<noteq> slash) p)"
    have ps: "elements path = e # elements q" using elements_run [OF False hd] by (simp add: el e_def q_def)
    have q: "q = [] \<longleftrightarrow> elements q = []"
    proof
      assume q0: "elements q = []"
      show "q = []"
      proof (rule ccontr)
        assume "q \<noteq> []"
        moreover from this have "hd q \<noteq> slash" using hd_dropWhile [of "\<lambda>c. c = slash" "dropWhile (\<lambda>c. c \<noteq> slash) p"] by (simp add: q_def)
        ultimately show False using elements_run [of q] q0 by simp
      qed
    qed simp
    have nul: "0 \<notin> set e" using assms(2) by (auto simp: e_def p_def dest!: set_takeWhileD set_dropWhileD)
    define name' where "name' = (if length e \<ge> DIRSIZ then splice 0 (take DIRSIZ e) name else splice 0 (e @ [0]) name)"
    have "cstr name' = take DIRSIZ e" "length name' = DIRSIZ"
      using nul assms(1) cstr_no_nul [of "take DIRSIZ e"] cstr_until_nul [of e]
      by (auto simp: name'_def splice_def dest: in_set_takeD)
    moreover have "skipelem path name = Some (q, name')"
      using False by (simp add: skipelem_def Let_def p_def [symmetric] e_def [symmetric] name'_def q_def)
    ultimately show ?thesis using q by (simp add: ps)
  qed
qed

theorem skipelem_elements_witness:
  "elements [slash, slash, 97, slash, slash, 98, 98] = [[97], [98, 98]] \<and>
    (\<exists>rest name'. skipelem [slash, slash, 97, slash, slash, 98, 98] (replicate 14 1) = Some (rest, name') \<and>
      elements rest = [[98, 98]] \<and> cstr name' = [97])"
proof -
  have e: "elements [slash, slash, 97, slash, slash, 98, 98] = [[97], [98, 98]]" by (simp add: elements_def slash_def)
  with skipelem_elements [of "replicate 14 1" "[slash, slash, 97, slash, slash, 98, 98]"]
  show ?thesis by (auto simp: DIRSIZ_def slash_def)
qed

section \<open>Directories as lists of entries\<close>

text \<open>\<open>fs_same s s'\<close>: the disk and the inodes are as they were; only buffers were recycled.\<close>

definition fs_same :: "'a fs_state_scheme \<Rightarrow> 'a fs_state_scheme \<Rightarrow> bool" where
  "fs_same s s' \<longleftrightarrow> eff s {} s' \<and> hv s' = hv s \<and> icache s' = icache s"

lemma fs_same_trans: "fs_same s s' \<Longrightarrow> fs_same s' s'' \<Longrightarrow> fs_same s s''"
  unfolding fs_same_def using eff_trans_same [of s "{}" s' s''] by auto

lemma fs_sameD:
  assumes "fs_same s s'"
  shows "bm_geom s \<Longrightarrow> bm_geom s'" "file_ok s' ino = file_ok s ino" "fbyte s' = fbyte s" "busyS s' = busyS s"
    "dirtyS s' = dirtyS s" "hv s' = hv s" "icache s' = icache s" "nfree s' = nfree s" "sbof s' = sbof s"
proof -
  have A: "eff s {} s'" "hv s' = hv s" "icache s' = icache s" using assms by (simp_all add: fs_same_def)
  note E = eff_same [OF A(1,2)]
  have d: "datablk s' = datablk s" by (simp add: datablk_def fun_eq_iff E eff_home [OF A(1)])
  show "bm_geom s \<Longrightarrow> bm_geom s'" "hv s' = hv s" "icache s' = icache s" "sbof s' = sbof s" "busyS s' = busyS s"
    using E A eff_home(2) [OF A(1)] by simp_all
  show "dirtyS s' = dirtyS s" using A(1) by (auto simp: eff_def)
  show "fbyte s' = fbyte s" by (simp add: fbyte_def fun_eq_iff faddr_hv [OF A(2)] A(2))
  show "file_ok s' ino = file_ok s ino"
    by (simp add: file_ok_def blocks_ok_def mapped_def d faddr_hv [OF A(2)])
  show "nfree s' = nfree s" by (simp add: nfree_def E eff_home(1) [OF A(1)])
qed

text \<open>A locked directory between operations, ready to be read.\<close>

definition dir_ready :: "'a fs_state_scheme \<Rightarrow> nat \<Rightarrow> bool" where
  "dir_ready s dp \<longleftrightarrow> bm_geom s \<and> file_ok s (icache s ! dp) \<and> busyS s = {} \<and> card (dirtyS s) < NBUF \<and>
     i_type (icache s ! dp) = T_DIR \<and> DIRENT_SIZE dvd i_size (icache s ! dp)"

lemma dir_ready_same: "fs_same s s' \<Longrightarrow> dir_ready s dp \<Longrightarrow> dir_ready s' dp"
  by (auto simp: dir_ready_def fs_sameD)

definition dir_entry :: "'a log_state_scheme \<Rightarrow> inode \<Rightarrow> nat \<Rightarrow> byte list" where
  "dir_entry s ino k = map (fbyte s ino) [DIRENT_SIZE * k..<DIRENT_SIZE * k + DIRENT_SIZE]"

definition dir_match :: "'a log_state_scheme \<Rightarrow> inode \<Rightarrow> byte list \<Rightarrow> nat \<Rightarrow> bool" where
  "dir_match s ino name k \<longleftrightarrow> de_inum (dir_entry s ino k) \<noteq> 0 \<and> cstr (take DIRSIZ name) = cstr (de_name (dir_entry s ino k))"

text \<open>The first entry in use for a name: its index and inode number.\<close>

definition dir_find :: "'a log_state_scheme \<Rightarrow> inode \<Rightarrow> byte list \<Rightarrow> (nat \<times> nat) option" where
  "dir_find s ino name = map_option (\<lambda>k. (k, de_inum (dir_entry s ino k)))
     (List.find (dir_match s ino name) [0..<i_size ino div DIRENT_SIZE])"

lemma dir_same:
  assumes "fs_same s s'"
  shows "dir_entry s' = dir_entry s" "dir_match s' = dir_match s" "dir_find s' = dir_find s"
proof -
  show e: "dir_entry s' = dir_entry s" by (simp add: fs_sameD [OF assms] dir_entry_def fun_eq_iff)
  then show m: "dir_match s' = dir_match s" by (simp add: dir_match_def fun_eq_iff)
  show "dir_find s' = dir_find s" by (simp add: dir_find_def fun_eq_iff e m)
qed

lemma readi_entry:
  assumes R: "dir_ready s dp" and k: "DIRENT_SIZE * k < i_size (icache s ! dp)"
  shows "\<exists>s'. readi dv dp (DIRENT_SIZE * k) DIRENT_SIZE s = Inr (int DIRENT_SIZE, dir_entry s (icache s ! dp) k, s') \<and> fs_same s s'"
proof -
  define ino where "ino = icache s ! dp"
  have F: "bm_geom s" "file_ok s ino" "busyS s = {}" "card (dirtyS s) < NBUF" "i_type ino \<noteq> T_DEV" "DIRENT_SIZE dvd i_size ino"
    using R by (simp_all add: dir_ready_def ino_def T_DIR_def T_DEV_def)
  from F(6) obtain n where n: "i_size ino = DIRENT_SIZE * n" by (elim dvdE)
  have "i_size ino \<le> MAXFILE * BSIZE" using F(2) by (simp add: file_ok_def)
  moreover have fit: "DIRENT_SIZE * k + DIRENT_SIZE \<le> i_size ino" using k n by (simp add: ino_def [symmetric] DIRENT_SIZE_def)
  ultimately have lt: "DIRENT_SIZE * k + DIRENT_SIZE < 2 ^ 32" "DIRENT_SIZE * k \<le> i_size ino" by (simp_all add: MAXFILE_bytes)
  have "min DIRENT_SIZE (i_size ino - DIRENT_SIZE * k) = DIRENT_SIZE" "min (DIRENT_SIZE * k + DIRENT_SIZE) (i_size ino) = DIRENT_SIZE * k + DIRENT_SIZE"
    using fit by simp_all
  with readi_effect [OF F(1) F(2-5) [unfolded ino_def] lt [unfolded ino_def], of dv] show ?thesis
    by (auto simp: ino_def dir_entry_def fs_same_def)
qed

lemma name_match: "namecmp name (de_name de) = 0 \<longleftrightarrow> cstr (take DIRSIZ name) = cstr (de_name de)"
  by (simp add: namecmp_def strncmp_l_0_iff de_name_def slice_def)

lemma dirlookup_loop_effect:
  assumes "dir_ready s dp" "icache s ! dp = ino" "i_size ino = DIRENT_SIZE * n" "k \<le> n"
  shows "\<exists>s'. fs_same s s' \<and> dirlookup_loop dv dp name (i_size ino) (DIRENT_SIZE * k) s =
    (case List.find (dir_match s ino name) [k..<n] of
       None \<Rightarrow> Inr (None, s')
     | Some j \<Rightarrow> res_bind (iget (i_dev ino) (de_inum (dir_entry s ino j)) s') (\<lambda>(ip, s''). Inr (Some (ip, DIRENT_SIZE * j), s'')))"
  using assms
proof (induction "n - k" arbitrary: k s)
  case 0
  have "fs_same s s" using 0 eff_refl [of s] by (simp add: fs_same_def dir_ready_def bm_geom_def)
  with 0 show ?case by (intro exI [of _ s]) (simp add: dirlookup_loop.simps [of dv dp])
next
  case (Suc m)
  then have k: "k < n" by simp
  have lt: "DIRENT_SIZE * k < i_size ino" using k Suc.prems(3) by (simp add: DIRENT_SIZE_def)
  obtain s1 where s1: "readi dv dp (DIRENT_SIZE * k) DIRENT_SIZE s = Inr (int DIRENT_SIZE, dir_entry s ino k, s1)" "fs_same s s1"
    using readi_entry [OF Suc.prems(1), of k dv] lt Suc.prems(2) by auto
  have off: "DIRENT_SIZE * k + DIRENT_SIZE = DIRENT_SIZE * Suc k" by simp
  have ic: "icache s1 ! dp = ino" using fs_sameD(7) [OF s1(2)] Suc.prems(2) by simp
  have up: "[k..<n] = k # [Suc k..<n]" using k by (simp add: upt_conv_Cons)
  have m: "m = n - Suc k" using Suc.hyps(2) by simp
  show ?case
  proof (cases "dir_match s ino name k")
    case True
    then have "dirlookup_loop dv dp name (i_size ino) (DIRENT_SIZE * k) s =
        res_bind (iget (i_dev ino) (de_inum (dir_entry s ino k)) s1) (\<lambda>(ip, s''). Inr (Some (ip, DIRENT_SIZE * k), s''))"
      using lt s1(1) ic by (simp add: dirlookup_loop.simps [of dv dp] name_match dir_match_def)
    then show ?thesis using s1(2) True by (intro exI [of _ s1]) (simp add: up)
  next
    case False
    then have "dirlookup_loop dv dp name (i_size ino) (DIRENT_SIZE * k) s = dirlookup_loop dv dp name (i_size ino) (DIRENT_SIZE * Suc k) s1"
      using lt s1(1) off
      by (auto simp: dirlookup_loop.simps [of dv dp name "i_size ino" "DIRENT_SIZE * k"] name_match dir_match_def simp del: mult_Suc_right)
    moreover obtain s2 where "fs_same s1 s2" "dirlookup_loop dv dp name (i_size ino) (DIRENT_SIZE * Suc k) s1 =
      (case List.find (dir_match s1 ino name) [Suc k..<n] of
         None \<Rightarrow> Inr (None, s2)
       | Some j \<Rightarrow> res_bind (iget (i_dev ino) (de_inum (dir_entry s1 ino j)) s2) (\<lambda>(ip, s''). Inr (Some (ip, DIRENT_SIZE * j), s'')))"
      using Suc.hyps(1) [OF m dir_ready_same [OF s1(2) Suc.prems(1)] ic Suc.prems(3) Suc_leI [OF k]] by blast
    ultimately show ?thesis
      using False fs_same_trans [OF s1(2)] unfolding dir_same [OF s1(2)] by (intro exI [of _ s2]) (simp add: up)
  qed
qed

lemma dirlookup_effect:
  assumes R: "dir_ready s dp"
  shows "\<exists>s'. fs_same s s' \<and> dirlookup dv dp name s =
    (case dir_find s (icache s ! dp) name of
       None \<Rightarrow> Inr (None, s')
     | Some (k, inum) \<Rightarrow> res_bind (iget (i_dev (icache s ! dp)) inum s') (\<lambda>(ip, s''). Inr (Some (ip, DIRENT_SIZE * k), s'')))"
proof -
  have "DIRENT_SIZE dvd i_size (icache s ! dp)" using R by (simp add: dir_ready_def)
  then obtain n where n: "i_size (icache s ! dp) = DIRENT_SIZE * n" by (elim dvdE)
  have d: "i_size (icache s ! dp) div DIRENT_SIZE = n" by (simp add: n DIRENT_SIZE_def)
  from dirlookup_loop_effect [OF R refl n, of 0 dv name] obtain s' where s': "fs_same s s'"
      "dirlookup dv dp name s = (case List.find (dir_match s (icache s ! dp) name) [0..<n] of
       None \<Rightarrow> Inr (None, s')
     | Some j \<Rightarrow> res_bind (iget (i_dev (icache s ! dp)) (de_inum (dir_entry s (icache s ! dp) j)) s') (\<lambda>(ip, s''). Inr (Some (ip, DIRENT_SIZE * j), s'')))"
    using R by (auto simp: dirlookup_def dir_ready_def)
  then show ?thesis
    by (intro exI [of _ s']) (simp add: dir_find_def d split: option.split)
qed

text \<open>\<open>dirlookup\<close> searches the entries of a directory in order. When no entry in use has the name (both
  cut at \<open>DIRSIZ\<close> bytes) it returns 0; otherwise it returns the cached inode, by \<open>iget\<close>, of the
  first such entry, with the offset of the entry. The disk and the directory stay as they are.\<close>

theorem dirlookup_finds:
  assumes "dir_ready s dp"
  shows "\<exists>s'. hv s' = hv s \<and> icache s' = icache s \<and> dirlookup dv dp name s =
    (case dir_find s (icache s ! dp) name of
       None \<Rightarrow> Inr (None, s')
     | Some (k, inum) \<Rightarrow> res_bind (iget (i_dev (icache s ! dp)) inum s') (\<lambda>(ip, s''). Inr (Some (ip, DIRENT_SIZE * k), s'')))"
  using dirlookup_effect [OF assms, of dv name] by (auto dest: fs_sameD(6,7))

section \<open>Linking\<close>

text \<open>The entry \<open>dirlink\<close> writes to: the first free one, or a new one at the end.\<close>

definition dir_slot :: "'a log_state_scheme \<Rightarrow> inode \<Rightarrow> nat" where
  "dir_slot s ino = (let n = i_size ino div DIRENT_SIZE
     in case List.find (\<lambda>k. de_inum (dir_entry s ino k) = 0) [0..<n] of Some k \<Rightarrow> k | None \<Rightarrow> n)"

lemma find_upt_Some:
  "List.find P [a..<b] = Some k \<longleftrightarrow> a \<le> k \<and> k < b \<and> P k \<and> (\<forall>j. a \<le> j \<and> j < k \<longrightarrow> \<not> P j)"
proof (induction "b - a" arbitrary: a)
  case (Suc m)
  then have "[a..<b] = a # [Suc a..<b]" by (simp add: upt_conv_Cons)
  then show ?case using Suc(1) [of "Suc a"] Suc(2) by (auto simp: Suc_le_eq) (metis Suc_leI le_neq_implies_less)
qed auto

lemma find_upt_None: "List.find P [a..<b] = None \<longleftrightarrow> (\<forall>k. a \<le> k \<and> k < b \<longrightarrow> \<not> P k)"
  by (auto simp: find_None_iff)

lemma dirlink_slot_effect:
  assumes "dir_ready s dp" "icache s ! dp = ino" "i_size ino = DIRENT_SIZE * n" "k \<le> n"
  shows "\<exists>s'. fs_same s s' \<and> dirlink_slot dv dp (i_size ino) (DIRENT_SIZE * k) s =
    Inr (DIRENT_SIZE * (case List.find (\<lambda>k. de_inum (dir_entry s ino k) = 0) [k..<n] of Some j \<Rightarrow> j | None \<Rightarrow> n), s')"
  using assms
proof (induction "n - k" arbitrary: k s)
  case 0
  have "fs_same s s" using 0 eff_refl [of s] by (simp add: fs_same_def dir_ready_def bm_geom_def)
  with 0 show ?case by (intro exI [of _ s]) (simp add: dirlink_slot.simps [of dv dp])
next
  case (Suc m)
  then have k: "k < n" by simp
  have lt: "DIRENT_SIZE * k < i_size ino" using k Suc.prems(3) by (simp add: DIRENT_SIZE_def)
  obtain s1 where s1: "readi dv dp (DIRENT_SIZE * k) DIRENT_SIZE s = Inr (int DIRENT_SIZE, dir_entry s ino k, s1)" "fs_same s s1"
    using readi_entry [OF Suc.prems(1), of k dv] lt Suc.prems(2) by auto
  have off: "DIRENT_SIZE * k + DIRENT_SIZE = DIRENT_SIZE * Suc k" by simp
  have ic: "icache s1 ! dp = ino" using fs_sameD(7) [OF s1(2)] Suc.prems(2) by simp
  have up: "[k..<n] = k # [Suc k..<n]" using k by (simp add: upt_conv_Cons)
  have m: "m = n - Suc k" using Suc.hyps(2) by simp
  show ?case
  proof (cases "de_inum (dir_entry s ino k) = 0")
    case True
    then show ?thesis using s1 lt by (intro exI [of _ s1]) (simp add: up dirlink_slot.simps [of dv dp])
  next
    case False
    then have "dirlink_slot dv dp (i_size ino) (DIRENT_SIZE * k) s = dirlink_slot dv dp (i_size ino) (DIRENT_SIZE * Suc k) s1"
      using lt s1(1) off by (simp add: dirlink_slot.simps [of dv dp "i_size ino" "DIRENT_SIZE * k"] del: mult_Suc_right)
    moreover obtain s2 where "fs_same s1 s2" "dirlink_slot dv dp (i_size ino) (DIRENT_SIZE * Suc k) s1 =
        Inr (DIRENT_SIZE * (case List.find (\<lambda>k. de_inum (dir_entry s1 ino k) = 0) [Suc k..<n] of Some j \<Rightarrow> j | None \<Rightarrow> n), s2)"
      using Suc.hyps(1) [OF m dir_ready_same [OF s1(2) Suc.prems(1)] ic Suc.prems(3) Suc_leI [OF k]] by blast
    ultimately show ?thesis
      using False fs_same_trans [OF s1(2)] unfolding dir_same [OF s1(2)] by (intro exI [of _ s2]) (simp add: up)
  qed
qed

lemma dirent_fields:
  assumes "inum < 65536" "length name = DIRSIZ"
  shows "de_inum (mk_dirent inum name) = inum" "de_name (mk_dirent inum name) = name" "length (mk_dirent inum name) = DIRENT_SIZE"
  using assms le_dec_enc [of inum 2]
  by (simp_all add: de_inum_def de_name_def mk_dirent_def get_u16_def slice_def DIRSIZ_def DIRENT_SIZE_def)

text \<open>Overwriting entry \<open>k\<close> of a directory, or appending it, where the name was not yet in use and the
  entry was free.\<close>

lemma dir_find_insert:
  assumes n: "i_size ino = DIRENT_SIZE * n" "i_size ino' = DIRENT_SIZE * max n (Suc k)" "k \<le> n"
    and new: "dir_find s ino name = None" and free: "k < n \<longrightarrow> de_inum (dir_entry s ino k) = 0"
    and ent: "dir_entry s' ino' k = mk_dirent inum (strncpy_l name DIRSIZ)" "\<And>j. j < n \<Longrightarrow> j \<noteq> k \<Longrightarrow> dir_entry s' ino' j = dir_entry s ino j"
    and inum: "0 < inum" "inum < 65536"
  shows "dir_find s' ino' name = Some (k, inum)"
    "cstr (take DIRSIZ name2) \<noteq> cstr (take DIRSIZ name) \<Longrightarrow> dir_find s' ino' name2 = dir_find s ino name2"
proof -
  note F = dirent_fields [OF inum(2) length_strncpy_l]
  have d: "i_size ino div DIRENT_SIZE = n" "i_size ino' div DIRENT_SIZE = max n (Suc k)" by (simp_all add: n DIRENT_SIZE_def)
  have self: "dir_match s' ino' nm k \<longleftrightarrow> cstr (take DIRSIZ nm) = cstr (take DIRSIZ name)" for nm
    using inum(1) by (simp add: dir_match_def ent(1) F)
  have other: "dir_match s' ino' nm j = dir_match s ino nm j" if "j < n" "j \<noteq> k" for j nm
    using ent(2) [OF that] by (simp add: dir_match_def)
  have no: "\<not> dir_match s ino name j" if "j < n" for j
    using new that by (simp add: dir_find_def d find_upt_None)
  have "List.find (dir_match s' ino' name) [0..<max n (Suc k)] = Some k"
    using self no other n(3) by (simp add: find_upt_Some)
  then show "dir_find s' ino' name = Some (k, inum)" by (simp add: dir_find_def d ent(1) F)
  assume ne: "cstr (take DIRSIZ name2) \<noteq> cstr (take DIRSIZ name)"
  have nk: "\<not> dir_match s' ino' name2 k" using self ne by simp
  have nk0: "\<not> dir_match s ino name2 k" if "k < n" using free that by (simp add: dir_match_def)
  have iff: "j < max n (Suc k) \<and> dir_match s' ino' name2 j \<longleftrightarrow> j < n \<and> dir_match s ino name2 j" for j
    using nk nk0 other [of j name2] n(3) by (cases "j = k") auto
  have "List.find (dir_match s' ino' name2) [0..<max n (Suc k)] = Some j \<longleftrightarrow> List.find (dir_match s ino name2) [0..<n] = Some j" for j
    unfolding find_upt_Some using iff n(3) by (meson le0 less_trans)
  then have eq: "List.find (dir_match s' ino' name2) [0..<max n (Suc k)] = List.find (dir_match s ino name2) [0..<n]"
    by (metis not_None_eq)
  have "dir_entry s' ino' j = dir_entry s ino j" if "List.find (dir_match s ino name2) [0..<n] = Some j" for j
    using that ent(2) [of j] nk0 by (auto simp: find_upt_Some)
  then show "dir_find s' ino' name2 = dir_find s ino name2"
    by (cases "List.find (dir_match s ino name2) [0..<n]") (simp_all add: dir_find_def d eq)
qed

lemma write_ready_same:
  assumes "fs_same s s'" "write_ready s ip off n"
  shows "write_ready s' ip off n"
proof -
  note S = fs_sameD [OF assms(1)]
  define B where "B = insert (IBLOCK (i_inum (icache s ! ip))) (bmS s)"
  have e: "eff s (B \<union> {}) s'" by (rule eff_mono [of s "{}"]) (use assms(1) in \<open>auto simp: fs_same_def\<close>)
  have "slack s B (0 + 2 * nspan off n)" using assms(2) by (simp add: write_ready_def B_def)
  from slack_eff [OF this e] have "slack s' (insert (IBLOCK (i_inum (icache s ! ip))) (bmS s)) (2 * nspan off n)"
    by (simp add: B_def)
  moreover have "bmS s' = bmS s" using assms(1) eff_same(3) [of s "{}" s'] by (simp add: fs_same_def)
  ultimately show ?thesis using assms(2) S by (simp add: write_ready_def)
qed

lemma dirlink_effect:
  assumes R: "dir_ready s dp" and inum: "0 < inum" "inum < 65536" and new: "dir_find s (icache s ! dp) name = None"
  defines "k \<equiv> dir_slot s (icache s ! dp)"
  assumes W: "write_ready s dp (DIRENT_SIZE * k) DIRENT_SIZE" and fit: "DIRENT_SIZE * k + DIRENT_SIZE \<le> MAXFILE * BSIZE"
  shows "\<exists>s'. dirlink dv dp name inum s = Inr (0, s') \<and> dir_ready s' dp \<and>
    dir_find s' (icache s' ! dp) name = Some (k, inum) \<and> i_dev (icache s' ! dp) = i_dev (icache s ! dp) \<and>
    (\<forall>name2. cstr (take DIRSIZ name2) \<noteq> cstr (take DIRSIZ name) \<longrightarrow>
      dir_find s' (icache s' ! dp) name2 = dir_find s (icache s ! dp) name2)"
proof -
  define ino where "ino = icache s ! dp"
  define src where "src = mk_dirent inum (strncpy_l name DIRSIZ)"
  have "DIRENT_SIZE dvd i_size ino" using R by (simp add: dir_ready_def ino_def)
  then obtain n where n: "i_size ino = DIRENT_SIZE * n" by (elim dvdE)
  have d: "i_size ino div DIRENT_SIZE = n" by (simp add: n DIRENT_SIZE_def)
  note F = dirent_fields [OF inum(2) length_strncpy_l [of name], folded src_def]
  have kn: "k \<le> n" and free: "k < n \<longrightarrow> de_inum (dir_entry s ino k) = 0"
    by (auto simp: k_def dir_slot_def d find_upt_Some ino_def [symmetric] split: option.splits)
  from dirlookup_effect [OF R, of dv name] obtain s1 where s1: "dirlookup dv dp name s = Inr (None, s1)" "fs_same s s1"
    using new by auto
  note R1 = dir_ready_same [OF s1(2) R] and ic1 = fs_sameD(7) [OF s1(2)]
  from dirlink_slot_effect [OF R1, of ino n 0 dv] obtain s2 where s2: "fs_same s1 s2"
      "dirlink_slot dv dp (i_size ino) 0 s1 = Inr (DIRENT_SIZE * k, s2)"
    using n by (auto simp: ic1 ino_def dir_same [OF s1(2)] k_def dir_slot_def d [unfolded ino_def] split: option.splits)
  note S2 = fs_same_trans [OF s1(2) s2(1)]
  have ic2: "icache s2 = icache s" by (rule fs_sameD(7) [OF S2])
  have off: "DIRENT_SIZE * k \<le> i_size ino" using kn n by (simp add: DIRENT_SIZE_def)
  have W2: "write_ready s2 dp (DIRENT_SIZE * k) (length src)" using write_ready_same [OF S2 W] F(3) by simp
  have R2: "dir_ready s2 dp" by (rule dir_ready_same [OF S2 R])
  then have ok2: "file_ok s2 (icache s2 ! dp)" "i_type (icache s2 ! dp) \<noteq> T_DEV" "DIRENT_SIZE * k \<le> i_size (icache s2 ! dp)"
      "DIRENT_SIZE * k + length src \<le> MAXFILE * BSIZE"
    using off fit F(3) by (simp_all add: dir_ready_def ic2 ino_def T_DIR_def T_DEV_def)
  define z where "z = max (i_size ino) (DIRENT_SIZE * k + DIRENT_SIZE)"
  from writei_effect [OF W2 ok2] obtain s3 as where s3: "writei dv dp src (DIRENT_SIZE * k) s2 = Inr (int DIRENT_SIZE, s3)"
      "bm_geom s3" "busyS s3 = {}" "card (dirtyS s3) < NBUF" "file_ok s3 (icache s3 ! dp)"
      "icache s3 = (icache s)[dp := ino\<lparr>i_addrs := as, i_size := z\<rparr>]" "i_size (icache s3 ! dp) = z" "i_type (icache s3 ! dp) = i_type ino"
      "\<forall>i < z. fbyte s3 (icache s3 ! dp) i =
        (if DIRENT_SIZE * k \<le> i \<and> i < DIRENT_SIZE * k + DIRENT_SIZE then src ! (i - DIRENT_SIZE * k) else fbyte s ino i)"
    unfolding ic2 ino_def [symmetric] F(3) z_def fs_sameD(3) [OF S2] by metis
  have zn: "z = DIRENT_SIZE * max n (Suc k)" by (simp add: z_def n max_def DIRENT_SIZE_def)
  have R3: "dir_ready s3 dp" using s3(2-5,7,8) R by (simp add: dir_ready_def zn ino_def)
  have dp: "dp < length (icache s)" using W by (simp add: write_ready_def)
  have "dir_entry s3 (icache s3 ! dp) k = src"
  proof (rule nth_equalityI)
    show "dir_entry s3 (icache s3 ! dp) k ! i = src ! i" if "i < length (dir_entry s3 (icache s3 ! dp) k)" for i
      using that s3(9) by (simp add: dir_entry_def z_def)
  qed (simp add: dir_entry_def F(3))
  moreover have "dir_entry s3 (icache s3 ! dp) j = dir_entry s ino j" if j: "j < n" "j \<noteq> k" for j
  proof (rule nth_equalityI)
    fix i assume "i < length (dir_entry s3 (icache s3 ! dp) j)"
    then have i: "i < DIRENT_SIZE" by (simp add: dir_entry_def)
    have "DIRENT_SIZE * j + i < z" "\<not> (DIRENT_SIZE * k \<le> DIRENT_SIZE * j + i \<and> DIRENT_SIZE * j + i < DIRENT_SIZE * k + DIRENT_SIZE)"
      using i j by (auto simp: zn DIRENT_SIZE_def max_def)
    then show "dir_entry s3 (icache s3 ! dp) j ! i = dir_entry s ino j ! i" using s3(9) i by (auto simp: dir_entry_def)
  qed (simp add: dir_entry_def)
  ultimately have I: "dir_find s3 (icache s3 ! dp) name = Some (k, inum)"
      "\<And>name2. cstr (take DIRSIZ name2) \<noteq> cstr (take DIRSIZ name) \<Longrightarrow> dir_find s3 (icache s3 ! dp) name2 = dir_find s ino name2"
    using dir_find_insert [OF n _ kn new [folded ino_def] free, of "icache s3 ! dp" s3 inum] inum s3(7) zn unfolding src_def by blast+
  have "dirlink dv dp name inum s = Inr (0, s3)"
    using s1(1) s2(2) s3(1) by (simp add: dirlink_def ic1 ino_def [symmetric] src_def)
  then show ?thesis using R3 I dp s3(6) by (auto simp: ino_def)
qed

text \<open>C26: A name linked is found: in a directory where a new name fits, \<open>dirlink\<close> succeeds, \<open>dirlookup\<close> of
  that name then gets the inode linked, and what a lookup of any other name finds is unchanged.\<close>

theorem dirlink_dirlookup:
  assumes R: "dir_ready s dp" and inum: "0 < inum" "inum < 65536" and new: "dir_find s (icache s ! dp) name = None"
    and W: "write_ready s dp (DIRENT_SIZE * dir_slot s (icache s ! dp)) DIRENT_SIZE"
      "DIRENT_SIZE * dir_slot s (icache s ! dp) + DIRENT_SIZE \<le> MAXFILE * BSIZE"
  shows "\<exists>s1 s2. dirlink dv dp name inum s = Inr (0, s1) \<and> fs_same s1 s2 \<and>
    dirlookup dv dp name s1 = res_bind (iget (i_dev (icache s ! dp)) inum s2)
      (\<lambda>(ip, s3). Inr (Some (ip, DIRENT_SIZE * dir_slot s (icache s ! dp)), s3)) \<and>
    (\<forall>name2. cstr (take DIRSIZ name2) \<noteq> cstr (take DIRSIZ name) \<longrightarrow>
      dir_find s1 (icache s1 ! dp) name2 = dir_find s (icache s ! dp) name2)"
proof -
  from dirlink_effect [OF R inum new W] obtain s1 where s1: "dirlink dv dp name inum s = Inr (0, s1)" "dir_ready s1 dp"
      "dir_find s1 (icache s1 ! dp) name = Some (dir_slot s (icache s ! dp), inum)" "i_dev (icache s1 ! dp) = i_dev (icache s ! dp)"
      "\<forall>name2. cstr (take DIRSIZ name2) \<noteq> cstr (take DIRSIZ name) \<longrightarrow>
        dir_find s1 (icache s1 ! dp) name2 = dir_find s (icache s ! dp) name2" by blast
  from dirlookup_effect [OF s1(2), of dv name] obtain s2 where "fs_same s1 s2"
      "dirlookup dv dp name s1 = res_bind (iget (i_dev (icache s ! dp)) inum s2)
      (\<lambda>(ip, s3). Inr (Some (ip, DIRENT_SIZE * dir_slot s (icache s ! dp)), s3))"
    using s1(3,4) by auto
  then show ?thesis using s1(1,5) by blast
qed

text \<open>A name in use is refused: \<open>dirlink\<close> then only takes and drops a reference.\<close>

lemma dirlink_existing:
  assumes R: "dir_ready s dp" and old: "dir_find s (icache s ! dp) name = Some (k, inum)"
  shows "\<exists>s1. fs_same s s1 \<and> dirlink dv dp name j s =
    res_bind (iget (i_dev (icache s ! dp)) inum s1) (\<lambda>(ip, s2). res_bind (iput ip s2) (\<lambda>s3. Inr (-1, s3)))"
  using dirlookup_effect [OF R, of dv name] old by (auto simp: dirlink_def res_bind_assoc case_prod_unfold)

section \<open>Witnesses\<close>

text \<open>The small image again, with the root directory locked in entry 0 of the inode cache.\<close>

definition demo_root :: inode where
  "demo_root = \<lparr>i_dev = 1, i_inum = 1, i_ref = 1, i_busy = True, i_valid = True, i_type = 1, i_major = 0, i_minor = 0,
     i_nlink = 1, i_size = 32, i_addrs = 6 # replicate 12 0\<rparr>"

definition demo_dir :: fs_state where
  "demo_dir = demo_tx (fs_state.fields (demo_root # replicate 49 demo_free))"

lemma demo_dir_icache: "icache demo_dir = demo_root # replicate 49 demo_free" "icache demo_dir ! 0 = demo_root"
proof -
  show "icache demo_dir = demo_root # replicate 49 demo_free" unfolding demo_dir_def by (rule fs_more_icache) (rule demo_tx_inv(7))
  then show "icache demo_dir ! 0 = demo_root" by simp
qed

lemma demo_dir_state:
  "bm_geom demo_dir" "busyS demo_dir = {}" "dirtyS demo_dir = {}" "sb_ninodes (sbof demo_dir) = 16" "bmS demo_dir = {4}"
  "k + card T < 10 \<Longrightarrow> finite T \<Longrightarrow> slack demo_dir T k" "home_ok demo_dir b \<longleftrightarrow> b < 9"
  "b < 9 \<Longrightarrow> hv demo_dir b = demo_img ! b" "b < 20 \<Longrightarrow> used demo_dir b \<longleftrightarrow> b \<noteq> 7 \<and> b \<noteq> 8" "metaS demo_dir = {0, 1, 2, 4}"
  "sb_size (sbof demo_dir) = 20"
  by (simp_all add: demo_dir_def demo_tx_geom demo_tx_inv demo_tx_sb demo_tx_bitmap demo_tx_cap slack_def)

lemma demo_dir_ready: "dir_ready demo_dir 0" "dir_entry demo_dir demo_root 0 = mk_dirent 1 (46 # replicate 13 0)"
  "dir_entry demo_dir demo_root 1 = mk_dirent 2 (97 # replicate 13 0)"
proof -
  have dk: "datablk demo_dir 6" by (simp add: datablk_def demo_dir_state)
  have fa: "faddr demo_dir demo_root b = (if b = 0 then 6 else 0)" if "b < MAXFILE" for b
    using that by (auto simp: faddr_def demo_root_def NDIRECT_def MAXFILE_def NINDIRECT_def BSIZE_def nth_Cons')
  have "blocks_ok demo_dir demo_root"
    unfolding blocks_ok_def using fa dk by (auto simp: demo_root_def NDIRECT_def nth_Cons')
  moreover have "mapped demo_dir demo_root 0 32" by (auto simp: mapped_def fa MAXFILE_def NDIRECT_def BSIZE_def)
  ultimately have "file_ok demo_dir (icache demo_dir ! 0)"
    by (simp add: file_ok_def demo_dir_icache demo_root_def MAXFILE_bytes)
  then show "dir_ready demo_dir 0"
    by (simp add: dir_ready_def demo_dir_state demo_dir_icache demo_root_def T_DIR_def DIRENT_SIZE_def NBUF_def)
  have img: "take 32 (hv demo_dir 6) = mk_dirent 1 (46 # replicate 13 0) @ mk_dirent 2 (97 # replicate 13 0)"
    by (simp add: demo_dir_state demo_img_def pad_block_def mk_dirent_def)
  have len: "32 \<le> length (hv demo_dir 6)" by (simp add: demo_dir_state demo_img_def pad_block_def BSIZE_def)
  have "dir_entry demo_dir demo_root k = slice (16 * k) 16 (take 32 (hv demo_dir 6))" if "k < 2" for k
  proof (rule nth_equalityI)
    show "length (dir_entry demo_dir demo_root k) = length (slice (16 * k) 16 (take 32 (hv demo_dir 6)))"
      using that len by (simp add: dir_entry_def DIRENT_SIZE_def)
    fix i assume "i < length (dir_entry demo_dir demo_root k)"
    then have i: "i < 16" by (simp add: dir_entry_def DIRENT_SIZE_def)
    have "(16 * k + i) div BSIZE = 0" "(16 * k + i) mod BSIZE = 16 * k + i" using that i by (simp_all add: BSIZE_def)
    then have "dir_entry demo_dir demo_root k ! i = hv demo_dir 6 ! (16 * k + i)"
      using i fa [of 0] by (simp add: dir_entry_def DIRENT_SIZE_def fbyte_def MAXFILE_def NDIRECT_def)
    also have "\<dots> = slice (16 * k) 16 (take 32 (hv demo_dir 6)) ! i" using that i len by simp
    finally show "dir_entry demo_dir demo_root k ! i = slice (16 * k) 16 (take 32 (hv demo_dir 6)) ! i" .
  qed
  from this [of 0] this [of 1]
  show "dir_entry demo_dir demo_root 0 = mk_dirent 1 (46 # replicate 13 0)" "dir_entry demo_dir demo_root 1 = mk_dirent 2 (97 # replicate 13 0)"
    by (simp_all add: img slice_def mk_dirent_def)
qed

lemma demo_dir_find: "dir_find demo_dir demo_root [97] = Some (1, 2)" "dir_find demo_dir demo_root [98] = None"
  "dir_slot demo_dir demo_root = 2"
proof -
  have F: "de_inum (mk_dirent 1 (46 # replicate 13 0)) = 1" "de_name (mk_dirent 1 (46 # replicate 13 0)) = 46 # replicate 13 0"
      "de_inum (mk_dirent 2 (97 # replicate 13 0)) = 2" "de_name (mk_dirent 2 (97 # replicate 13 0)) = 97 # replicate 13 0"
    using dirent_fields [of 1 "46 # replicate 13 0"] dirent_fields [of 2 "97 # replicate 13 0"] by (simp_all add: DIRSIZ_def)
  have n: "i_size demo_root div DIRENT_SIZE = 2" by (simp add: demo_root_def DIRENT_SIZE_def)
  have up: "[0..<2] = [0, 1 :: nat]" by (simp add: upt_rec)
  note E = demo_dir_ready(2,3)
  have M: "dir_match demo_dir demo_root nm 0 \<longleftrightarrow> cstr (take 14 nm) = [46]" "dir_match demo_dir demo_root nm 1 \<longleftrightarrow> cstr (take 14 nm) = [97]" for nm
    unfolding dir_match_def E F using cstr_append_zeros [of "[]" 13] by (simp_all add: DIRSIZ_def)
  show "dir_find demo_dir demo_root [97] = Some (1, 2)" "dir_find demo_dir demo_root [98] = None"
    unfolding dir_find_def n up by (simp_all add: M E F del: One_nat_def)
  show "dir_slot demo_dir demo_root = 2" unfolding dir_slot_def n Let_def up by (simp add: E F del: One_nat_def)
qed

theorem dirlookup_finds_witness:
  "\<exists>s'. dirlookup no_dev 0 [97] demo_dir = res_bind (iget 1 2 s') (\<lambda>(ip, s''). Inr (Some (ip, 16), s''))"
proof -
  have "i_dev demo_root = 1" by (simp add: demo_root_def)
  with dirlookup_finds [OF demo_dir_ready(1), of no_dev "[97]"] show ?thesis
    by (auto simp: demo_dir_icache demo_dir_find DIRENT_SIZE_def)
qed

theorem dirlink_dirlookup_witness:
  "\<exists>s1 s2. dirlink no_dev 0 [98] 7 demo_dir = Inr (0, s1) \<and>
    dirlookup no_dev 0 [98] s1 = res_bind (iget 1 7 s2) (\<lambda>(ip, s3). Inr (Some (ip, 32), s3)) \<and>
    dir_find s1 (icache s1 ! 0) [97] = Some (1, 2)"
proof -
  have "nfree demo_dir = 2"
  proof -
    have "{b. b < 20 \<and> home_ok demo_dir b \<and> \<not> used demo_dir b} = {7, 8}" using demo_dir_state(7,9) by auto
    then show ?thesis by (simp add: nfree_def demo_dir_state)
  qed
  moreover have "nspan 32 16 = 1" "IBLOCK 1 = 2" by (simp_all add: nspan_def BSIZE_def IBLOCK_def IPB_def)
  ultimately have W: "write_ready demo_dir 0 32 16"
    by (simp add: write_ready_def demo_dir_state demo_dir_icache demo_root_def NBUF_def)
  have dev: "i_dev demo_root = 1" by (simp add: demo_root_def)
  have ne: "cstr (take DIRSIZ [97]) \<noteq> cstr (take DIRSIZ [98])" by (simp add: DIRSIZ_def)
  from dirlink_dirlookup [OF demo_dir_ready(1), of 7 "[98]" no_dev] W ne
  show ?thesis
    by (auto simp: demo_dir_icache demo_dir_find DIRENT_SIZE_def MAXFILE_bytes dev)
qed

end
