(* ===== verification/Kalloc.thy ===== *)
theory Kalloc
  imports Kstring
begin

text \<open>
  \<open>kernel/kalloc.c\<close>: the physical page allocator. A free page carries the address of the next
  free page in its first eight bytes, so the free list lives in the memory it manages. The
  locale \<open>page_allocator\<close> is what the rest of the kernel relies on (pages come from a pool and go
  back to it); \<open>ka\<close> interprets it for \<open>kalloc\<close> and \<open>kfree\<close>.
\<close>

section \<open>State\<close>

definition PGSIZE :: nat where "PGSIZE = 4096"
definition PHYSTOP :: nat where "PHYSTOP = 0xE000000"
definition KERNBASE_N :: nat where "KERNBASE_N = 0xFFFFFFFF80000000"

text \<open>\<open>kmem\<close>, the memory behind it, and the linker's symbol \<open>end\<close>. The spin lock around the list
  operations is the subject of theory Spinlock; the operations here are its critical sections.\<close>

record kmem =
  use_lock :: bool
  freelist :: nat
  km_mem :: memory
  km_end :: nat

definition load_ptr :: "memory \<Rightarrow> nat \<Rightarrow> nat" where
  "load_ptr m a = le_dec (map m [a..<a + 8])"

definition store_ptr :: "memory \<Rightarrow> nat \<Rightarrow> nat \<Rightarrow> memory" where
  "store_ptr m a v = (\<lambda>x. if a \<le> x \<and> x < a + 8 then le_enc 8 v ! (x - a) else m x)"

text \<open>\<open>v2p\<close> on 64-bit addresses, and \<open>PGROUNDUP\<close> (\<open>include/memlayout.h\<close>, \<open>include/mmu.h\<close>).\<close>

definition v2p :: "nat \<Rightarrow> nat" where
  "v2p a = (a + (2 ^ 64 - KERNBASE_N)) mod 2 ^ 64"

definition PGROUNDUP :: "nat \<Rightarrow> nat" where
  "PGROUNDUP a = (a + PGSIZE - 1) div PGSIZE * PGSIZE"

section \<open>Operations\<close>

definition kfree :: "nat \<Rightarrow> kmem \<Rightarrow> kmem res" where
  "kfree v s =
     (if v mod PGSIZE \<noteq> 0 \<or> v < km_end s \<or> v2p v \<ge> PHYSTOP then Inl (Panic ''kfree'')
      else let m1 = memset (km_mem s) v 1 PGSIZE; m2 = store_ptr m1 v (freelist s)
        in Inr (s\<lparr>km_mem := m2, freelist := v\<rparr>))"

definition kalloc :: "kmem \<Rightarrow> nat \<times> kmem" where
  "kalloc s =
     (let r = freelist s
      in if r \<noteq> 0 then (r, s\<lparr>freelist := load_ptr (km_mem s) r\<rparr>) else (r, s))"

function freerange_loop :: "nat \<Rightarrow> nat \<Rightarrow> kmem \<Rightarrow> kmem res" where
  "freerange_loop p vend s =
     (if p + PGSIZE \<le> vend then res_bind (kfree p s) (freerange_loop (p + PGSIZE) vend) else Inr s)"
  by pat_completeness auto
termination by (relation "measure (\<lambda>(p, vend, s). vend - p)") (auto simp: PGSIZE_def)

definition freerange :: "nat \<Rightarrow> nat \<Rightarrow> kmem \<Rightarrow> kmem res" where
  "freerange vstart vend s = freerange_loop (PGROUNDUP vstart) vend s"

definition kinit1 :: "nat \<Rightarrow> nat \<Rightarrow> kmem \<Rightarrow> kmem res" where
  "kinit1 vstart vend s = freerange vstart vend (s\<lparr>use_lock := False\<rparr>)"

definition kinit2 :: "nat \<Rightarrow> nat \<Rightarrow> kmem \<Rightarrow> kmem res" where
  "kinit2 vstart vend s = res_bind (freerange vstart vend s) (\<lambda>s. Inr (s\<lparr>use_lock := True\<rparr>))"

declare freerange_loop.simps [simp del]

section \<open>The contract of a page allocator\<close>

locale page_allocator =
  fixes alloc :: "'s \<Rightarrow> nat \<times> 's"
    and dealloc :: "nat \<Rightarrow> 's \<Rightarrow> 's res"
    and pool :: "'s \<Rightarrow> nat list \<Rightarrow> bool"
    and valid :: "'s \<Rightarrow> nat \<Rightarrow> bool"
  assumes alloc_empty: "pool s [] \<Longrightarrow> alloc s = (0, s)"
    and alloc_page: "pool s (p # ps) \<Longrightarrow> \<exists>s'. alloc s = (p, s') \<and> pool s' ps \<and> valid s' = valid s"
    and dealloc_page: "pool s ps \<Longrightarrow> valid s p \<Longrightarrow> p \<notin> set ps \<Longrightarrow>
      \<exists>s'. dealloc p s = Inr s' \<and> pool s' (p # ps) \<and> valid s' = valid s"
    and dealloc_invalid: "p < 2 ^ 64 \<Longrightarrow> \<not> valid s p \<Longrightarrow> \<exists>msg. dealloc p s = Inl (Panic msg)"
    and pool_pages: "pool s ps \<Longrightarrow> distinct ps \<and> 0 \<notin> set ps \<and> (\<forall>p \<in> set ps. valid s p)"
begin

text \<open>The client's view: a run of allocations, and giving pages back.\<close>

fun alloc_many :: "nat \<Rightarrow> 's \<Rightarrow> nat list \<times> 's" where
  "alloc_many 0 s = ([], s)"
| "alloc_many (Suc n) s =
     (let (p, s1) = alloc s; (ps, s2) = alloc_many n s1 in (p # ps, s2))"

fun dealloc_many :: "nat list \<Rightarrow> 's \<Rightarrow> 's res" where
  "dealloc_many [] s = Inr s"
| "dealloc_many (p # ps) s = res_bind (dealloc p s) (dealloc_many ps)"

lemma alloc_many_pool:
  "pool s ps \<Longrightarrow> n \<le> length ps \<Longrightarrow>
    \<exists>s'. alloc_many n s = (take n ps, s') \<and> pool s' (drop n ps) \<and> valid s' = valid s"
proof (induction n arbitrary: s ps)
  case (Suc n)
  then obtain p qs where ps: "ps = p # qs" "n \<le> length qs" by (cases ps) auto
  from alloc_page Suc.prems(1) obtain s1 where
    s1: "alloc s = (p, s1)" "pool s1 qs" "valid s1 = valid s" unfolding ps by blast
  from Suc.IH [OF s1(2) ps(2)] s1 ps show ?case by auto
qed auto

lemma alloc_never_twice:
  assumes "pool s ps" "n \<le> length ps"
  shows "distinct (fst (alloc_many n s)) \<and> 0 \<notin> set (fst (alloc_many n s))
    \<and> (\<forall>p \<in> set (fst (alloc_many n s)). valid s p)"
proof -
  from alloc_many_pool [OF assms] have eq: "fst (alloc_many n s) = take n ps" by auto
  from pool_pages [OF assms(1)] show ?thesis
    unfolding eq by (auto simp: distinct_take dest!: in_set_takeD)
qed

lemma dealloc_many_pool:
  "pool s ps \<Longrightarrow> distinct qs \<Longrightarrow> set qs \<inter> set ps = {} \<Longrightarrow> (\<forall>q \<in> set qs. valid s q) \<Longrightarrow>
    \<exists>s'. dealloc_many qs s = Inr s' \<and> pool s' (rev qs @ ps) \<and> valid s' = valid s"
proof (induction qs arbitrary: s ps)
  case (Cons q qs)
  then obtain s1 where s1: "dealloc q s = Inr s1" "pool s1 (q # ps)" "valid s1 = valid s"
    using dealloc_page [of s ps q] by auto
  have "\<exists>s'. dealloc_many qs s1 = Inr s' \<and> pool s' (rev qs @ q # ps) \<and> valid s' = valid s1"
    using Cons.prems s1(3) by (intro Cons.IH [OF s1(2)]) auto
  with s1 show ?case by auto
qed simp

lemma alloc_dealloc_pool:
  assumes "pool s ps" "n \<le> length ps"
  shows "\<exists>s'. dealloc_many (rev (fst (alloc_many n s))) (snd (alloc_many n s)) = Inr s' \<and> pool s' ps"
proof -
  from alloc_many_pool [OF assms] obtain s1 where
    s1: "alloc_many n s = (take n ps, s1)" "pool s1 (drop n ps)" "valid s1 = valid s" by blast
  from pool_pages [OF assms(1)] have d: "distinct (take n ps @ drop n ps)" "\<forall>p \<in> set ps. valid s p"
    by auto
  then have "\<exists>s'. dealloc_many (rev (take n ps)) s1 = Inr s' \<and> pool s' (rev (rev (take n ps)) @ drop n ps)
      \<and> valid s' = valid s1"
    using s1 unfolding distinct_append
    by (intro dealloc_many_pool) (auto dest: in_set_takeD)
  with s1 show ?thesis by auto
qed

end

section \<open>The free list in memory\<close>

definition page_ok :: "nat \<Rightarrow> nat \<Rightarrow> bool" where
  "page_ok e p \<longleftrightarrow> p mod PGSIZE = 0 \<and> e \<le> p \<and> v2p p < PHYSTOP \<and> p < 2 ^ 64"

fun chain :: "memory \<Rightarrow> nat \<Rightarrow> nat list \<Rightarrow> bool" where
  "chain m h [] \<longleftrightarrow> h = 0"
| "chain m h (p # ps) \<longleftrightarrow> h = p \<and> chain m (load_ptr m p) ps"

definition free_pool :: "kmem \<Rightarrow> nat list \<Rightarrow> bool" where
  "free_pool s ps \<longleftrightarrow> 0 < km_end s \<and> distinct ps \<and>
     (\<forall>p \<in> set ps. page_ok (km_end s) p) \<and> chain (km_mem s) (freelist s) ps"

lemma load_store_ptr: "v < 2 ^ 64 \<Longrightarrow> load_ptr (store_ptr m a v) a = v"
proof -
  assume "v < 2 ^ 64"
  have "map (store_ptr m a v) [a..<a + 8] = le_enc 8 v"
    by (rule nth_equalityI) (auto simp: store_ptr_def)
  with \<open>v < 2 ^ 64\<close> show ?thesis by (simp add: load_ptr_def)
qed

lemma load_ptr_cong: "(\<And>x. a \<le> x \<Longrightarrow> x < a + 8 \<Longrightarrow> m x = m' x) \<Longrightarrow> load_ptr m a = load_ptr m' a"
  unfolding load_ptr_def by (rule arg_cong [of _ _ le_dec]) auto

lemma chain_cong:
  "(\<And>p x. p \<in> set ps \<Longrightarrow> p \<le> x \<Longrightarrow> x < p + 8 \<Longrightarrow> m x = m' x) \<Longrightarrow> chain m h ps = chain m' h ps"
proof (induction ps arbitrary: h)
  case (Cons p ps)
  then have "load_ptr m p = load_ptr m' p" by (intro load_ptr_cong) auto
  moreover have "chain m (load_ptr m' p) ps = chain m' (load_ptr m' p) ps"
    using Cons.prems by (intro Cons.IH) auto
  ultimately show ?case by simp
qed simp

lemma pages_disjoint:
  assumes "p mod PGSIZE = 0" "q mod PGSIZE = 0" "p \<noteq> q" "p \<le> x" "x < p + PGSIZE"
  shows "\<not> (q \<le> x \<and> x < q + PGSIZE)"
proof
  assume q: "q \<le> x \<and> x < q + PGSIZE"
  obtain i j where ij: "p = PGSIZE * i" "q = PGSIZE * j"
    using assms(1,2) by (metis mult_div_mod_eq add_0_right)
  with assms(4,5) have "x div PGSIZE = i"
    by (intro div_nat_eqI) (auto simp: algebra_simps)
  moreover from ij q have "x div PGSIZE = j"
    by (intro div_nat_eqI) (auto simp: algebra_simps)
  ultimately show False using ij assms(3) by simp
qed

lemma kfree_mem:
  assumes "kfree v s = Inr s'"
  shows "x < v \<or> v + PGSIZE \<le> x \<Longrightarrow> km_mem s' x = km_mem s x"
    and "v + 8 \<le> x \<Longrightarrow> x < v + PGSIZE \<Longrightarrow> km_mem s' x = 1"
  using assms by (auto simp: kfree_def memset_apply store_ptr_def PGSIZE_def split: if_splits)

lemma kfree_pool:
  assumes "free_pool s ps" "page_ok (km_end s) v" "v \<notin> set ps"
  shows "\<exists>s'. kfree v s = Inr s' \<and> free_pool s' (v # ps) \<and> km_end s' = km_end s"
proof -
  define m2 where "m2 = store_ptr (memset (km_mem s) v 1 PGSIZE) v (freelist s)"
  define s' where "s' = s\<lparr>km_mem := m2, freelist := v\<rparr>"
  have ok: "kfree v s = Inr s'"
    using assms(2) by (simp add: kfree_def page_ok_def s'_def m2_def)
  have "freelist s < 2 ^ 64" using assms(1) by (cases ps) (auto simp: free_pool_def page_ok_def)
  then have next_v: "load_ptr m2 v = freelist s" by (simp add: m2_def load_store_ptr)
  have "chain m2 (freelist s) ps = chain (km_mem s) (freelist s) ps"
  proof (rule chain_cong)
    fix p x assume p: "p \<in> set ps" "p \<le> x" "x < p + 8"
    have pp: "p mod PGSIZE = 0" using assms(1) p(1) by (auto simp: free_pool_def page_ok_def)
    have "\<not> (v \<le> x \<and> x < v + PGSIZE)"
      by (rule pages_disjoint [of p]) (use assms p pp in \<open>auto simp: page_ok_def PGSIZE_def\<close>)
    then have "x < v \<or> v + PGSIZE \<le> x" by auto
    then have "km_mem s' x = km_mem s x" by (rule kfree_mem(1) [OF ok])
    then show "m2 x = km_mem s x" by (simp add: s'_def)
  qed
  then have "free_pool s' (v # ps)"
    using assms next_v by (auto simp: free_pool_def s'_def)
  with ok show ?thesis by (auto simp: s'_def)
qed

lemma kalloc_pool:
  assumes "free_pool s (p # ps)"
  shows "\<exists>s'. kalloc s = (p, s') \<and> free_pool s' ps \<and> km_end s' = km_end s \<and> km_mem s' = km_mem s"
proof -
  have "p = freelist s" "p \<noteq> 0"
    using assms by (auto simp: free_pool_def page_ok_def)
  then show ?thesis using assms by (auto simp: kalloc_def free_pool_def Let_def)
qed

lemma kalloc_empty: "free_pool s [] \<Longrightarrow> kalloc s = (0, s)"
  by (simp add: kalloc_def free_pool_def)


interpretation ka: page_allocator kalloc kfree free_pool "\<lambda>s. page_ok (km_end s)"
proof
  fix s assume "free_pool s []" then show "kalloc s = (0, s)" by (rule kalloc_empty)
next
  fix s p ps assume "free_pool s (p # ps)"
  then show "\<exists>s'. kalloc s = (p, s') \<and> free_pool s' ps \<and> page_ok (km_end s') = page_ok (km_end s)"
    using kalloc_pool by fastforce
next
  fix s :: kmem and ps p assume "free_pool s ps" "page_ok (km_end s) p" "p \<notin> set ps"
  then show "\<exists>s'. kfree p s = Inr s' \<and> free_pool s' (p # ps) \<and> page_ok (km_end s') = page_ok (km_end s)"
    using kfree_pool by fastforce
next
  fix s :: kmem and p assume "p < 2 ^ 64" "\<not> page_ok (km_end s) p"
  then have "kfree p s = Inl (Panic ''kfree'')" by (auto simp: kfree_def page_ok_def)
  then show "\<exists>msg. kfree p s = Inl (Panic msg)" by blast
next
  fix s ps assume "free_pool s ps"
  then show "distinct ps \<and> 0 \<notin> set ps \<and> (\<forall>p \<in> set ps. page_ok (km_end s) p)"
    by (auto simp: free_pool_def page_ok_def)
qed

text \<open>The pages \<open>freerange\<close> visits.\<close>

definition range_pages :: "nat \<Rightarrow> nat \<Rightarrow> nat list" where
  "range_pages p vend = map (\<lambda>i. p + i * PGSIZE) [0..<(vend - p) div PGSIZE]"

lemma range_pages_step:
  "range_pages p vend = (if p + PGSIZE \<le> vend then p # range_pages (p + PGSIZE) vend else [])"
proof (cases "p + PGSIZE \<le> vend")
  case True
  then have d: "(vend - p) div PGSIZE = Suc ((vend - (p + PGSIZE)) div PGSIZE)"
    using le_div_geq [of PGSIZE "vend - p"] by (simp add: PGSIZE_def)
  have "range_pages p vend = map (\<lambda>i. p + i * PGSIZE) (0 # map Suc [0..<(vend - (p + PGSIZE)) div PGSIZE])"
    unfolding range_pages_def d by (simp add: map_Suc_upt upt_conv_Cons del: upt_Suc)
  with True show ?thesis by (simp add: range_pages_def comp_def)
next
  case False
  then have "(vend - p) div PGSIZE = 0" by (intro div_less) (simp add: PGSIZE_def)
  with False show ?thesis by (simp add: range_pages_def)
qed

lemma freerange_loop_dealloc: "freerange_loop p vend s = ka.dealloc_many (range_pages p vend) s"
proof (induction p vend s rule: freerange_loop.induct)
  case (1 p vend s)
  then show ?case
    by (subst freerange_loop.simps, subst range_pages_step) (auto intro: res_bind_cong)
qed

section \<open>What the allocator guarantees\<close>

text \<open>A run of \<open>kalloc\<close> calls.\<close>

fun kalloc_many :: "nat \<Rightarrow> kmem \<Rightarrow> nat list \<times> kmem" where
  "kalloc_many 0 s = ([], s)"
| "kalloc_many (Suc n) s = (let (p, s1) = kalloc s; (ps, s2) = kalloc_many n s1 in (p # ps, s2))"

lemma kalloc_many_eq: "kalloc_many n s = ka.alloc_many n s"
  by (induction n arbitrary: s) auto

text \<open>C31: \<open>n\<close> calls of \<open>kalloc\<close> on a free list of at least \<open>n\<close> pages return \<open>n\<close> different non-null
  pages, each aligned and inside the managed range.\<close>

theorem kalloc_distinct:
  assumes "free_pool s ps" "n \<le> length ps"
  shows "distinct (fst (kalloc_many n s)) \<and> 0 \<notin> set (fst (kalloc_many n s))
    \<and> (\<forall>p \<in> set (fst (kalloc_many n s)). page_ok (km_end s) p)"
  unfolding kalloc_many_eq by (rule ka.alloc_never_twice [OF assms])

text \<open>\<open>kfree\<close> of an allocated page puts it at the head of the free list, overwrites the rest of
  the page with ones, and touches no byte outside the page.\<close>

theorem kfree_correct:
  assumes "free_pool s ps" "page_ok (km_end s) v" "v \<notin> set ps"
  shows "\<exists>s'. kfree v s = Inr s' \<and> free_pool s' (v # ps) \<and> kalloc s' = (v, s'\<lparr>freelist := freelist s\<rparr>) \<and>
    (\<forall>x. v + 8 \<le> x \<and> x < v + PGSIZE \<longrightarrow> km_mem s' x = 1) \<and>
    (\<forall>x. x < v \<or> v + PGSIZE \<le> x \<longrightarrow> km_mem s' x = km_mem s x)"
proof -
  from kfree_pool [OF assms] obtain s' where s': "kfree v s = Inr s'" "free_pool s' (v # ps)" by blast
  have "freelist s < 2 ^ 64" using assms(1) by (cases ps) (auto simp: free_pool_def page_ok_def)
  then have "load_ptr (km_mem s') v = freelist s" "freelist s' = v"
    using s'(1) by (auto simp: kfree_def load_store_ptr Let_def split: if_splits)
  moreover have "v \<noteq> 0" using ka.pool_pages [OF s'(2)] by simp
  ultimately have "kalloc s' = (v, s'\<lparr>freelist := freelist s\<rparr>)" by (simp add: kalloc_def)
  with s' kfree_mem [OF s'(1)] show ?thesis by blast
qed

text \<open>\<open>kinit1\<close> on an empty list makes every whole page of the range available, and nothing
  else: the free list is exactly the aligned pages between its bounds.\<close>

theorem kinit1_frees_range:
  assumes "free_pool s []" "km_end s \<le> vstart" "KERNBASE_N \<le> vstart" "vend \<le> KERNBASE_N + PHYSTOP"
  shows "\<exists>s'. kinit1 vstart vend s = Inr s' \<and>
    free_pool s' (rev (range_pages (PGROUNDUP vstart) vend)) \<and> \<not> use_lock s'"
proof -
  define s0 where "s0 = s\<lparr>use_lock := False\<rparr>"
  define q where "q = PGROUNDUP vstart"
  have q: "q mod PGSIZE = 0" "vstart \<le> q" by (simp_all add: q_def PGROUNDUP_def) (simp add: PGSIZE_def)
  have s0: "free_pool s0 []" using assms(1) by (simp add: s0_def free_pool_def)
  have ok: "page_ok (km_end s0) p" if p: "p \<in> set (range_pages q vend)" for p
  proof -
    from p obtain i where i: "p = q + i * PGSIZE" "i < (vend - q) div PGSIZE"
      unfolding range_pages_def by fastforce
    from i(2) have "Suc i * PGSIZE \<le> vend - q"
      by (metis Suc_leI div_times_less_eq_dividend le_trans mult_le_mono1)
    then have lim: "p + PGSIZE \<le> vend" using i(1) by (simp add: PGSIZE_def)
    have base: "KERNBASE_N \<le> p" using q(2) assms(3) i(1) by simp
    then have "p + (2 ^ 64 - KERNBASE_N) = (p - KERNBASE_N) + 2 ^ 64" by (simp add: KERNBASE_N_def)
    moreover have "p - KERNBASE_N < 2 ^ 64" using lim assms(4) by (simp add: PHYSTOP_def PGSIZE_def)
    ultimately have "v2p p = p - KERNBASE_N" by (simp add: v2p_def)
    then show ?thesis
      using q i(1) lim base assms(2,4)
      by (auto simp: page_ok_def s0_def KERNBASE_N_def PHYSTOP_def PGSIZE_def)
  qed
  have dist: "distinct (range_pages q vend)"
    by (auto simp: range_pages_def distinct_map inj_on_def PGSIZE_def)
  obtain s' where "ka.dealloc_many (range_pages q vend) s0 = Inr s'" "free_pool s' (rev (range_pages q vend) @ [])"
    using ka.dealloc_many_pool [OF s0 dist] ok by auto
  moreover have "use_lock s' = use_lock s0" if "ka.dealloc_many ps s0 = Inr s'" for ps s0 s'
    using that by (induction ps arbitrary: s0) (auto simp: res_simps kfree_def Let_def split: if_splits)
  ultimately show ?thesis
    by (auto simp: kinit1_def freerange_def freerange_loop_dealloc s0_def q_def)
qed

section \<open>Witnesses\<close>

text \<open>A machine whose kernel ends at the first page, with no free page yet.\<close>

definition kmem0 :: kmem where
  "kmem0 = \<lparr>use_lock = True, freelist = 0, km_mem = (\<lambda>_. 0), km_end = KERNBASE_N\<rparr>"

lemma kmem0_pool: "free_pool kmem0 []"
  by (simp add: free_pool_def kmem0_def KERNBASE_N_def)

theorem kinit1_frees_range_witness:
  "\<exists>s'. kinit1 KERNBASE_N (KERNBASE_N + 3 * PGSIZE) kmem0 = Inr s' \<and>
    free_pool s' (rev (range_pages (PGROUNDUP KERNBASE_N) (KERNBASE_N + 3 * PGSIZE))) \<and> \<not> use_lock s'"
  by (rule kinit1_frees_range [OF kmem0_pool])
    (simp_all add: kmem0_def PGSIZE_def PHYSTOP_def)

lemma page_ok_first: "page_ok (km_end kmem0) KERNBASE_N"
  by (simp add: page_ok_def kmem0_def KERNBASE_N_def PGSIZE_def v2p_def PHYSTOP_def)

theorem kfree_correct_witness:
  "\<exists>s'. kfree KERNBASE_N kmem0 = Inr s' \<and> free_pool s' [KERNBASE_N] \<and>
    kalloc s' = (KERNBASE_N, s'\<lparr>freelist := freelist kmem0\<rparr>) \<and>
    (\<forall>x. KERNBASE_N + 8 \<le> x \<and> x < KERNBASE_N + PGSIZE \<longrightarrow> km_mem s' x = 1) \<and>
    (\<forall>x. x < KERNBASE_N \<or> KERNBASE_N + PGSIZE \<le> x \<longrightarrow> km_mem s' x = km_mem kmem0 x)"
  by (rule kfree_correct [OF kmem0_pool page_ok_first]) simp

theorem kalloc_distinct_witness:
  "\<exists>s. free_pool s [KERNBASE_N] \<and> distinct (fst (kalloc_many 1 s)) \<and> 0 \<notin> set (fst (kalloc_many 1 s))
    \<and> (\<forall>p \<in> set (fst (kalloc_many 1 s)). page_ok (km_end s) p)"
proof -
  obtain s where s: "free_pool s [KERNBASE_N]"
    using kfree_pool [OF kmem0_pool page_ok_first] by auto
  from kalloc_distinct [OF s, of 1] s show ?thesis by auto
qed

end
