(* ===== verification/Spinlock.thy ===== *)
theory Spinlock
  imports Xv6_Prelude
begin

text \<open>
  \<open>kernel/spinlock.c\<close>: interrupt-disable nesting (\<open>pushcli\<close>, \<open>popcli\<close>) and the spin locks built on
  it. \<open>acquire\<close> and \<open>release\<close> are first whole operations of one CPU; the relation \<open>lock_step\<close>
  then takes them apart at every point where another CPU can interfere (the \<open>xchg\<close>
  attempts and the writes of the debugging field \<open>cpu\<close>), for any number of CPUs that compete
  for one lock. Mutual exclusion, and that \<open>holding\<close> answers for the right CPU, are
  invariants of the reachable states.
\<close>

section \<open>State\<close>

text \<open>The fields of \<open>struct cpu\<close> the file uses, and the CPU's interrupt flag \<open>FL_IF\<close>.\<close>

record cpu =
  ncli :: int
  intena :: bool
  fl_if :: bool

text \<open>\<open>struct spinlock\<close>; \<open>lk_cpu = None\<close> is the null pointer. \<open>lk_pcs\<close> is the recorded call stack.\<close>

record spinlock =
  locked :: bool
  lk_name :: string
  lk_cpu :: "nat option"
  lk_pcs :: "u64 list"

section \<open>Operations\<close>

definition initlock :: "spinlock \<Rightarrow> string \<Rightarrow> spinlock" where
  "initlock lk name = lk\<lparr>lk_name := name, locked := False, lk_cpu := None\<rparr>"

definition pushcli :: "cpu \<Rightarrow> cpu" where
  "pushcli c =
     (let eflags = fl_if c; c1 = c\<lparr>fl_if := False\<rparr>; c2 = c1\<lparr>ncli := ncli c1 + 1\<rparr>
      in if ncli c1 = 0 then c2\<lparr>intena := eflags\<rparr> else c2)"

definition popcli :: "cpu \<Rightarrow> cpu res" where
  "popcli c =
     (if fl_if c then Inl (Panic ''popcli - interruptible'')
      else let c1 = c\<lparr>ncli := ncli c - 1\<rparr>
        in if ncli c1 < 0 then Inl (Panic ''popcli'')
        else if ncli c1 = 0 \<and> intena c1 then Inr (c1\<lparr>fl_if := True\<rparr>)
        else Inr c1)"

definition holding :: "nat \<Rightarrow> spinlock \<Rightarrow> bool" where
  "holding i lk \<longleftrightarrow> locked lk \<and> lk_cpu lk = Some i"

text \<open>\<open>getstackpcs\<close> follows the chain of saved frame pointers; \<open>rd\<close> reads a word of kernel memory.
  It stops at a pointer outside the kernel and zero-fills the rest of the ten entries.\<close>

definition KERNBASE :: u64 where
  "KERNBASE = 0xFFFFFFFF80000000"

fun stack_walk :: "(u64 \<Rightarrow> u64) \<Rightarrow> u64 \<Rightarrow> nat \<Rightarrow> u64 list" where
  "stack_walk rd ebp 0 = []"
| "stack_walk rd ebp (Suc k) =
     (if ebp = 0 \<or> ebp < KERNBASE \<or> ebp = 0xffffffff then []
      else rd (ebp + 8) # stack_walk rd (rd ebp) k)"

definition getstackpcs :: "(u64 \<Rightarrow> u64) \<Rightarrow> u64 \<Rightarrow> u64 list" where
  "getstackpcs rd ebp =
     (let pcs = stack_walk rd ebp 10 in pcs @ replicate (10 - length pcs) 0)"

text \<open>\<open>acquire\<close> on CPU \<open>i\<close> with frame pointer \<open>ebp\<close>. When another CPU holds the lock the \<open>xchg\<close>
  loop keeps spinning: that outcome is \<open>Sleeps\<close>.\<close>

definition acquire :: "(u64 \<Rightarrow> u64) \<Rightarrow> u64 \<Rightarrow> nat \<Rightarrow> cpu \<Rightarrow> spinlock \<Rightarrow> (cpu \<times> spinlock) res" where
  "acquire rd ebp i c lk =
     (let c1 = pushcli c
      in if holding i lk then Inl (Panic ''acquire'')
      else if locked lk then Inl (Sleeps ''spin'')
      else Inr (c1, lk\<lparr>locked := True, lk_cpu := Some i, lk_pcs := getstackpcs rd ebp\<rparr>))"

definition release :: "nat \<Rightarrow> cpu \<Rightarrow> spinlock \<Rightarrow> (cpu \<times> spinlock) res" where
  "release i c lk =
     (if \<not> holding i lk then Inl (Panic ''release'')
      else let lk1 = lk\<lparr>lk_pcs := (lk_pcs lk)[0 := 0], lk_cpu := None, locked := False\<rparr>
        in res_bind (popcli c) (\<lambda>c1. Inr (c1, lk1)))"

section \<open>Interrupt nesting\<close>

text \<open>What the kernel keeps between \<open>pushcli\<close> and \<open>popcli\<close>: a positive depth means interrupts are
  off.\<close>

definition cpu_ok :: "cpu \<Rightarrow> bool" where
  "cpu_ok c \<longleftrightarrow> 0 \<le> ncli c \<and> (0 < ncli c \<longrightarrow> \<not> fl_if c)"

lemma pushcli_ok [simp]: "cpu_ok c \<Longrightarrow> cpu_ok (pushcli c) \<and> 0 < ncli (pushcli c) \<and> \<not> fl_if (pushcli c)"
  by (auto simp: pushcli_def cpu_ok_def Let_def)

lemma popcli_pushcli:
  assumes "cpu_ok c"
  shows "\<exists>b. popcli (pushcli c) = Inr (c\<lparr>intena := b\<rparr>)"
proof (cases "ncli c = 0")
  case True
  then have "popcli (pushcli c) = Inr (c\<lparr>intena := fl_if c\<rparr>)"
    by (cases "fl_if c") (simp_all add: popcli_def pushcli_def Let_def)
  then show ?thesis by blast
next
  case False
  with assms have "popcli (pushcli c) = Inr c"
    by (simp add: popcli_def pushcli_def Let_def cpu_ok_def)
  then show ?thesis by (intro exI [of _ "intena c"]) simp
qed

lemma popcli_ok: "cpu_ok c \<Longrightarrow> popcli c = Inr c' \<Longrightarrow> cpu_ok c'"
  by (auto simp: popcli_def cpu_ok_def Let_def split: if_splits)

section \<open>Many CPUs and one lock\<close>

text \<open>
  Where a CPU is in its use of the lock: outside, in the \<open>xchg\<close> loop, past a successful \<open>xchg\<close>
  but before \<open>lk->cpu = cpu\<close>, in its critical section, or in \<open>release\<close> between clearing
  \<open>lk->cpu\<close> and the \<open>xchg\<close> that frees the lock.
\<close>

datatype lock_pc = Outside | Spinning | Won | Critical | Leaving

record lock_sys =
  ls_pc :: "nat \<Rightarrow> lock_pc"
  ls_cpu :: "nat \<Rightarrow> cpu"
  ls_lock :: spinlock

definition lock_init :: "(nat \<Rightarrow> cpu) \<Rightarrow> spinlock \<Rightarrow> lock_sys" where
  "lock_init cs lk = \<lparr>ls_pc = (\<lambda>_. Outside), ls_cpu = cs, ls_lock = initlock lk ''lock''\<rparr>"

inductive lock_step :: "lock_sys \<Rightarrow> lock_sys \<Rightarrow> bool" where
  enter: "ls_pc s i = Outside \<Longrightarrow> \<not> holding i (ls_lock s) \<Longrightarrow>
    lock_step s (s\<lparr>ls_pc := (ls_pc s)(i := Spinning), ls_cpu := (ls_cpu s)(i := pushcli (ls_cpu s i))\<rparr>)"
| spin: "ls_pc s i = Spinning \<Longrightarrow> locked (ls_lock s) \<Longrightarrow> lock_step s s"
| win: "ls_pc s i = Spinning \<Longrightarrow> \<not> locked (ls_lock s) \<Longrightarrow>
    lock_step s (s\<lparr>ls_pc := (ls_pc s)(i := Won), ls_lock := (ls_lock s)\<lparr>locked := True\<rparr>\<rparr>)"
| record_cpu: "ls_pc s i = Won \<Longrightarrow>
    lock_step s (s\<lparr>ls_pc := (ls_pc s)(i := Critical), ls_lock := (ls_lock s)\<lparr>lk_cpu := Some i\<rparr>\<rparr>)"
| leave: "ls_pc s i = Critical \<Longrightarrow> holding i (ls_lock s) \<Longrightarrow>
    lock_step s (s\<lparr>ls_pc := (ls_pc s)(i := Leaving), ls_lock := (ls_lock s)\<lparr>lk_cpu := None\<rparr>\<rparr>)"
| unlock: "ls_pc s i = Leaving \<Longrightarrow> popcli (ls_cpu s i) = Inr c \<Longrightarrow>
    lock_step s (s\<lparr>ls_pc := (ls_pc s)(i := Outside), ls_cpu := (ls_cpu s)(i := c),
      ls_lock := (ls_lock s)\<lparr>locked := False\<rparr>\<rparr>)"

inductive lock_reachable :: "(nat \<Rightarrow> cpu) \<Rightarrow> spinlock \<Rightarrow> lock_sys \<Rightarrow> bool" for cs lk where
  start: "lock_reachable cs lk (lock_init cs lk)"
| step: "lock_reachable cs lk s \<Longrightarrow> lock_step s t \<Longrightarrow> lock_reachable cs lk t"

definition owns :: "lock_pc \<Rightarrow> bool" where
  "owns p \<longleftrightarrow> p \<in> {Won, Critical, Leaving}"

text \<open>The lock word is set exactly while one CPU owns the lock, the field \<open>cpu\<close> names a CPU exactly
  while it is in its critical section, and CPUs in or near it have interrupts off.\<close>

definition lock_inv :: "lock_sys \<Rightarrow> bool" where
  "lock_inv s \<longleftrightarrow>
     (locked (ls_lock s) \<longleftrightarrow> (\<exists>i. owns (ls_pc s i))) \<and>
     (\<forall>i j. owns (ls_pc s i) \<and> owns (ls_pc s j) \<longrightarrow> i = j) \<and>
     (\<forall>i. lk_cpu (ls_lock s) = Some i \<longleftrightarrow> ls_pc s i = Critical) \<and>
     (\<forall>i. cpu_ok (ls_cpu s i)) \<and>
     (\<forall>i. ls_pc s i \<noteq> Outside \<longrightarrow> 0 < ncli (ls_cpu s i))"

lemma owns_simps [simp]:
  "owns Won" "owns Critical" "owns Leaving" "\<not> owns Outside" "\<not> owns Spinning"
  by (simp_all add: owns_def)

lemma lock_inv_init: "(\<And>i. cpu_ok (cs i)) \<Longrightarrow> lock_inv (lock_init cs lk)"
  by (simp add: lock_inv_def lock_init_def initlock_def)

lemma lock_invE:
  assumes "lock_inv s"
  shows "locked (ls_lock s) \<longleftrightarrow> (\<exists>i. owns (ls_pc s i))"
    and "owns (ls_pc s i) \<Longrightarrow> owns (ls_pc s j) \<Longrightarrow> i = j"
    and "lk_cpu (ls_lock s) = Some i \<longleftrightarrow> ls_pc s i = Critical"
    and "cpu_ok (ls_cpu s i)"
    and "ls_pc s i \<noteq> Outside \<Longrightarrow> 0 < ncli (ls_cpu s i)"
  using assms unfolding lock_inv_def by blast+

lemma lock_invI:
  assumes "locked (ls_lock s) \<longleftrightarrow> (\<exists>i. owns (ls_pc s i))"
    and "\<And>i j. owns (ls_pc s i) \<Longrightarrow> owns (ls_pc s j) \<Longrightarrow> i = j"
    and "\<And>i. lk_cpu (ls_lock s) = Some i \<longleftrightarrow> ls_pc s i = Critical"
    and "\<And>i. cpu_ok (ls_cpu s i)"
    and "\<And>i. ls_pc s i \<noteq> Outside \<Longrightarrow> 0 < ncli (ls_cpu s i)"
  shows "lock_inv s"
  using assms unfolding lock_inv_def by blast

lemma lock_step_inv: "lock_step s t \<Longrightarrow> lock_inv s \<Longrightarrow> lock_inv t"
proof (induction rule: lock_step.induct)
  case (enter s i)
  note inv = lock_invE [OF enter.prems]

  show ?case
  proof (rule lock_invI)
    show "locked (ls_lock (s\<lparr>ls_pc := (ls_pc s)(i := Spinning), ls_cpu := (ls_cpu s)(i := pushcli (ls_cpu s i))\<rparr>)) =
      (\<exists>j. owns (ls_pc (s\<lparr>ls_pc := (ls_pc s)(i := Spinning), ls_cpu := (ls_cpu s)(i := pushcli (ls_cpu s i))\<rparr>) j))"
      using inv(1) enter(1) by (simp, metis owns_simps(4))
  qed (use inv enter(1) in \<open>auto split: if_splits\<close>)
next
  case (win s i)
  note inv = lock_invE [OF win.prems]
  show ?case
    by (rule lock_invI) (use inv win(1,2) in \<open>auto split: if_splits\<close>)
next
  case (record_cpu s i)
  note inv = lock_invE [OF record_cpu.prems]
  have other: "j \<noteq> i \<Longrightarrow> \<not> owns (ls_pc s j)" for j using inv(2) [of i j] record_cpu(1) by auto
  have lk: "locked (ls_lock s)" using inv(1) record_cpu(1) owns_simps(1) by metis
  show ?case
    by (rule lock_invI)
      (use lk inv(4,5) record_cpu(1) other in \<open>auto split: if_splits dest: other\<close>)
next
  case (leave s i)
  note inv = lock_invE [OF leave.prems]
  have other: "j \<noteq> i \<Longrightarrow> \<not> owns (ls_pc s j)" for j using inv(2) [of i j] leave(1) by auto
  have lk: "locked (ls_lock s)" using inv(1) leave(1) owns_simps(2) by metis
  show ?case
    by (rule lock_invI)
      (use lk inv(4,5) leave(1) other in \<open>auto split: if_splits dest: other\<close>)
next
  case (unlock s i c)
  note inv = lock_invE [OF unlock.prems]
  have other: "j \<noteq> i \<Longrightarrow> \<not> owns (ls_pc s j)" for j using inv(2) [of i j] unlock(1) by auto
  have c: "cpu_ok c" using popcli_ok inv(4) unlock(2) by blast
  show ?case
    by (rule lock_invI)
      (use inv(3-5) unlock(1) other c in \<open>auto split: if_splits dest: other\<close>)
qed

lemma lock_reachable_inv:
  assumes "lock_reachable cs lk s" "\<And>i. cpu_ok (cs i)"
  shows "lock_inv s"
  using assms by (induction rule: lock_reachable.induct) (auto intro: lock_inv_init lock_step_inv)

section \<open>What the locks guarantee\<close>

text \<open>The zeroed structures the kernel starts from, with interrupts enabled.\<close>

definition cpu_zero :: cpu where
  "cpu_zero = \<lparr>ncli = 0, intena = False, fl_if = True\<rparr>"

definition lock_zero :: spinlock where
  "lock_zero = \<lparr>locked = False, lk_name = '''', lk_cpu = None, lk_pcs = replicate 10 0\<rparr>"

lemma reach_critical:
  "\<exists>s. lock_reachable (\<lambda>_. cpu_zero) lock_zero s \<and> ls_pc s 1 = Critical"
proof -
  define s0 where "s0 = lock_init (\<lambda>_. cpu_zero) lock_zero"
  define s1 where "s1 = s0\<lparr>ls_pc := (ls_pc s0)(1 := Spinning), ls_cpu := (ls_cpu s0)(1 := pushcli (ls_cpu s0 1))\<rparr>"
  define s2 where "s2 = s1\<lparr>ls_pc := (ls_pc s1)(1 := Won), ls_lock := (ls_lock s1)\<lparr>locked := True\<rparr>\<rparr>"
  define s3 where "s3 = s2\<lparr>ls_pc := (ls_pc s2)(1 := Critical), ls_lock := (ls_lock s2)\<lparr>lk_cpu := Some 1\<rparr>\<rparr>"
  have "lock_reachable (\<lambda>_. cpu_zero) lock_zero s0" unfolding s0_def by (rule lock_reachable.start)
  moreover have "lock_step s0 s1"
    unfolding s1_def by (rule lock_step.enter) (simp_all add: s0_def lock_init_def holding_def initlock_def)
  moreover have "lock_step s1 s2"
    unfolding s2_def by (rule lock_step.win) (simp_all add: s1_def s0_def lock_init_def initlock_def)
  moreover have "lock_step s2 s3"
    unfolding s3_def by (rule lock_step.record_cpu) (simp add: s2_def)
  ultimately have "lock_reachable (\<lambda>_. cpu_zero) lock_zero s3" by (blast intro: lock_reachable.step)
  moreover have "ls_pc s3 1 = Critical" by (simp add: s3_def)
  ultimately show ?thesis by blast
qed

text \<open>C8: Two CPUs are never in the critical section of one lock at the same time, whatever the
  interleaving of the \<open>xchg\<close> attempts and the other steps; and a CPU in its critical section
  has interrupts disabled.\<close>

theorem spinlock_mutual_exclusion:
  assumes "lock_reachable cs lk s" "\<And>i. cpu_ok (cs i)" "ls_pc s i = Critical"
  shows "(ls_pc s j = Critical \<longrightarrow> i = j) \<and> \<not> fl_if (ls_cpu s i)"
proof -
  note inv = lock_invE [OF lock_reachable_inv [OF assms(1,2)]]
  from assms(3) inv(2) [of i j] have "ls_pc s j = Critical \<longrightarrow> i = j" by auto
  moreover from assms(3) inv(4,5) have "\<not> fl_if (ls_cpu s i)"
    unfolding cpu_ok_def by (metis lock_pc.distinct(5))
  ultimately show ?thesis by blast
qed

theorem spinlock_mutual_exclusion_witness:
  "\<exists>s. lock_reachable (\<lambda>_. cpu_zero) lock_zero s \<and> ls_pc s 1 = Critical \<and>
    (ls_pc s 2 = Critical \<longrightarrow> 1 = (2 :: nat)) \<and> \<not> fl_if (ls_cpu s 1)"
proof -
  obtain s where s: "lock_reachable (\<lambda>_. cpu_zero) lock_zero s" "ls_pc s 1 = Critical"
    using reach_critical by blast
  have ok: "cpu_ok cpu_zero" by (simp add: cpu_zero_def cpu_ok_def)
  show ?thesis
    using spinlock_mutual_exclusion [OF s(1) ok s(2), of 2] s by blast
qed

text \<open>\<open>holding\<close> is true for a CPU exactly while that CPU is in its critical section, so the
  \<open>panic\<close> checks in \<open>acquire\<close> and \<open>release\<close> never fire for a CPU that brackets them correctly.\<close>

theorem holding_iff_critical:
  assumes "lock_reachable cs lk s" "\<And>i. cpu_ok (cs i)"
  shows "holding i (ls_lock s) \<longleftrightarrow> ls_pc s i = Critical"
  using lock_invE(1,3) [OF lock_reachable_inv [OF assms]] owns_simps(2) by (metis holding_def)

theorem holding_iff_critical_witness:
  "\<exists>s. lock_reachable (\<lambda>_. cpu_zero) lock_zero s \<and> holding 1 (ls_lock s) \<and> \<not> holding 2 (ls_lock s)"
proof -
  obtain s where s: "lock_reachable (\<lambda>_. cpu_zero) lock_zero s" "ls_pc s 1 = Critical"
    using reach_critical by blast
  have ok: "cpu_ok cpu_zero" by (simp add: cpu_zero_def cpu_ok_def)
  from holding_iff_critical [OF s(1) ok, of 1] s(2) have "holding 1 (ls_lock s)" by simp
  moreover from this have "\<not> holding 2 (ls_lock s)" by (simp add: holding_def)
  ultimately show ?thesis using s(1) by blast
qed

text \<open>\<open>acquire\<close> of a free lock followed by \<open>release\<close> succeeds, frees the lock again and gives the
  CPU back its nesting depth and its interrupt flag.\<close>

theorem acquire_release:
  assumes "cpu_ok c" "\<not> locked lk"
  shows "\<exists>c1 lk1 c2 lk2. acquire rd ebp i c lk = Inr (c1, lk1) \<and> holding i lk1 \<and> \<not> fl_if c1 \<and>
    release i c1 lk1 = Inr (c2, lk2) \<and> \<not> locked lk2 \<and> ncli c2 = ncli c \<and> fl_if c2 = fl_if c"
proof -
  define lk1 where "lk1 = lk\<lparr>locked := True, lk_cpu := Some i, lk_pcs := getstackpcs rd ebp\<rparr>"
  have a: "acquire rd ebp i c lk = Inr (pushcli c, lk1)"
    using assms(2) by (simp add: acquire_def holding_def lk1_def Let_def)
  obtain b where p: "popcli (pushcli c) = Inr (c\<lparr>intena := b\<rparr>)"
    using popcli_pushcli [OF assms(1)] by blast
  have r: "release i (pushcli c) lk1 =
      Inr (c\<lparr>intena := b\<rparr>, lk1\<lparr>lk_pcs := (lk_pcs lk1)[0 := 0], lk_cpu := None, locked := False\<rparr>)"
    by (simp add: release_def holding_def lk1_def p Let_def)
  show ?thesis
    by (rule exI [of _ "pushcli c"], rule exI [of _ lk1], rule exI [of _ "c\<lparr>intena := b\<rparr>"],
        rule exI [of _ "lk1\<lparr>lk_pcs := (lk_pcs lk1)[0 := 0], lk_cpu := None, locked := False\<rparr>"])
      (use a r assms(1) in \<open>simp add: holding_def lk1_def\<close>)
qed

theorem acquire_release_witness:
  "\<exists>c1 lk1 c2 lk2.
    acquire (\<lambda>_. 0) 0 1 cpu_zero (initlock lock_zero ''kmem'') = Inr (c1, lk1) \<and> holding 1 lk1 \<and> \<not> fl_if c1 \<and>
    release 1 c1 lk1 = Inr (c2, lk2) \<and> \<not> locked lk2 \<and> ncli c2 = ncli cpu_zero \<and> fl_if c2 = fl_if cpu_zero"
  by (rule acquire_release) (simp_all add: cpu_zero_def cpu_ok_def initlock_def)

text \<open>\<open>getstackpcs\<close> always produces ten entries, whatever the memory holds.\<close>

theorem getstackpcs_length: "length (getstackpcs rd ebp) = 10"
proof -
  have "length (stack_walk rd e k) \<le> k" for e k
    by (induction rd e k rule: stack_walk.induct) auto
  then show ?thesis by (simp add: getstackpcs_def Let_def)
qed

end
