(* ===== verification/Kernel.thy ===== *)
theory Kernel
  imports Fs_Dir Kalloc Spinlock
begin

text \<open>
  The state of the kernel above the file system (\<open>struct proc\<close>, \<open>struct file\<close>, \<open>struct pipe\<close> and the
  tables that hold them) and the operations of \<open>kernel/proc.c\<close> that only touch the process table:
  \<open>wakeup\<close>, \<open>sleep\<close>, \<open>kill\<close>, \<open>chpr\<close>, \<open>yield\<close>, \<open>sched\<close>, \<open>scheduler\<close> and the listings \<open>procdump\<close>, \<open>ps\<close> and
  \<open>get_processes_info\<close>. Pointers to table entries are indices. The per-CPU variable \<open>proc\<close> is the
  argument \<open>me\<close>; the lock \<open>ptable.lock\<close>, which brackets every operation, is the subject of theory
  Spinlock and left out here.
\<close>

section \<open>State\<close>

definition NPROC :: nat where "NPROC = 64"
definition NOFILE :: nat where "NOFILE = 16"
definition NFILE :: nat where "NFILE = 100"
definition KSTACKSIZE :: nat where "KSTACKSIZE = 4096"
definition PIPESIZE :: nat where "PIPESIZE = 1024"

datatype procstate = UNUSED | EMBRYO | SLEEPING | RUNNABLE | RUNNING | ZOMBIE

text \<open>The addresses processes sleep on: fields of a pipe (by the page that holds it), a process
  structure, the tick counter, the read index of the console, a disk buffer.\<close>

datatype chan = Ch_null | Ch_nread nat | Ch_nwrite nat | Ch_proc nat | Ch_ticks | Ch_input | Ch_buf nat

record trapframe =
  tf_eax :: u64
  tf_rbx :: u64
  tf_rcx :: u64
  tf_rdx :: u64
  tf_rbp :: u64
  tf_rsi :: u64
  tf_rdi :: u64
  tf_r8 :: u64
  tf_r9 :: u64
  tf_r10 :: u64
  tf_r11 :: u64
  tf_r12 :: u64
  tf_r13 :: u64
  tf_r14 :: u64
  tf_r15 :: u64
  tf_trapno :: u64
  tf_err :: u64
  tf_eip :: u64
  tf_cs :: u64
  tf_eflags :: u64
  tf_esp :: u64
  tf_ds :: u64

record kcontext =
  c_r15 :: u64
  c_r14 :: u64
  c_r13 :: u64
  c_r12 :: u64
  c_r11 :: u64
  c_rbx :: u64
  c_ebp :: u64
  c_eip :: u64

record proc =
  p_sz :: nat
  p_pgdir :: nat
  p_kstack :: nat
  p_state :: procstate
  p_pid :: int
  p_parent :: "nat option"
  p_tf :: trapframe
  p_context :: kcontext
  p_chan :: chan
  p_killed :: bool
  p_ofile :: "nat option list"
  p_cwd :: "nat option"
  p_name :: "byte list"
  p_priority :: int

datatype filetype = FD_NONE | FD_PIPE | FD_INODE

record kfile =
  f_type :: filetype
  f_ref :: int
  f_readable :: bool
  f_writable :: bool
  f_pipe :: nat
  f_ip :: nat
  f_off :: nat

record pipe =
  pp_data :: "byte list"
  pp_nread :: u32
  pp_nwrite :: u32
  pp_readopen :: bool
  pp_writeopen :: bool

text \<open>The whole kernel: the file system, physical memory and its free pages, the table of open files,
  the pipes (each in a page of its own), the process table, the tick counter and the kernel's
  third-level page table.\<close>

record kernel = fs_state +
  km :: kmem
  ftable :: "kfile list"
  pipes :: "nat \<Rightarrow> pipe"
  ptable :: "proc list"
  initproc :: nat
  nextpid :: int
  ticks :: u32
  kpdpt :: nat

definition upd_proc :: "nat \<Rightarrow> (proc \<Rightarrow> proc) \<Rightarrow> kernel \<Rightarrow> kernel" where
  "upd_proc i f s = s\<lparr>ptable := (ptable s)[i := f (ptable s ! i)]\<rparr>"

section \<open>Sleeping and waking\<close>

definition wakeup1 :: "chan \<Rightarrow> kernel \<Rightarrow> kernel" where
  "wakeup1 chan s = s\<lparr>ptable := map (\<lambda>p. if p_state p = SLEEPING \<and> p_chan p = chan then p\<lparr>p_state := RUNNABLE\<rparr> else p) (ptable s)\<rparr>"

definition wakeup :: "chan \<Rightarrow> kernel \<Rightarrow> kernel" where
  "wakeup chan s = wakeup1 chan s"

text \<open>\<open>sleep\<close> up to the switch to the scheduler, and what it does when it returns. \<open>proc == 0\<close> and
  \<open>lk == 0\<close> are the argument values \<open>None\<close> and \<open>False\<close>.\<close>

definition sleep :: "nat option \<Rightarrow> bool \<Rightarrow> chan \<Rightarrow> kernel \<Rightarrow> kernel res" where
  "sleep me lk chan s =
     (case me of
        None \<Rightarrow> Inl (Panic ''sleep'')
      | Some i \<Rightarrow>
          if \<not> lk then Inl (Panic ''sleep without lk'')
          else Inr (upd_proc i (\<lambda>p. p\<lparr>p_chan := chan, p_state := SLEEPING\<rparr>) s))"

definition sleep_return :: "nat \<Rightarrow> kernel \<Rightarrow> kernel" where
  "sleep_return i s = upd_proc i (\<lambda>p. p\<lparr>p_chan := Ch_null\<rparr>) s"

definition kill :: "int \<Rightarrow> kernel \<Rightarrow> int \<times> kernel" where
  "kill pid s =
     (case find_index (\<lambda>p. p_pid p = pid) (ptable s) of
        Some i \<Rightarrow>
          let s = upd_proc i (\<lambda>p. p\<lparr>p_killed := True\<rparr>) s
          in (0, if p_state (ptable s ! i) = SLEEPING then upd_proc i (\<lambda>p. p\<lparr>p_state := RUNNABLE\<rparr>) s else s)
      | None \<Rightarrow> (-1, s))"

definition chpr :: "int \<Rightarrow> int \<Rightarrow> kernel \<Rightarrow> int \<times> kernel" where
  "chpr pid priority s =
     (case find_index (\<lambda>p. p_pid p = pid) (ptable s) of
        Some i \<Rightarrow> (0, upd_proc i (\<lambda>p. p\<lparr>p_priority := priority\<rparr>) s)
      | None \<Rightarrow> (0, s))"

section \<open>The scheduler\<close>

text \<open>One iteration of the outer loop of \<open>scheduler\<close>, from entry \<open>i\<close> of the table: the first runnable
  process from there on, then the inner loop for the one with the smallest priority value.\<close>

definition highP_step :: "proc list \<Rightarrow> nat \<Rightarrow> nat \<Rightarrow> nat" where
  "highP_step tab p1 h =
     (if p_state (tab ! p1) \<noteq> RUNNABLE then h
      else if p_priority (tab ! h) > p_priority (tab ! p1) then p1 else h)"

definition highP :: "proc list \<Rightarrow> nat \<Rightarrow> nat" where
  "highP tab p = fold (highP_step tab) [0..<length tab] p"

definition sched_pick :: "proc list \<Rightarrow> nat \<Rightarrow> nat option" where
  "sched_pick ps i = map_option (highP ps) (List.find (\<lambda>p. p_state (ps ! p) = RUNNABLE) [i..<length ps])"

text \<open>Dispatching the chosen process, as far as its table entry goes (\<open>switchuvm\<close>, which panics without
  a page table, and \<open>swtch\<close> load the registers).\<close>

definition dispatch :: "nat \<Rightarrow> kernel \<Rightarrow> kernel res" where
  "dispatch i s =
     (if p_pgdir (ptable s ! i) = 0 then Inl (Panic ''switchuvm: no pgdir'')
      else Inr (upd_proc i (\<lambda>p. p\<lparr>p_state := RUNNING\<rparr>) s))"

text \<open>The pass over the table from entry \<open>i\<close>, for at most \<open>fuel\<close> dispatches; \<open>run\<close> is what a chosen process
  does until it comes back to the scheduler. The scan goes on after the process that ran, which may
  be before the entry the scan had reached. The result lists the processes in the order they ran.\<close>

function sched_pass :: "(nat \<Rightarrow> kernel \<Rightarrow> kernel) \<Rightarrow> nat \<Rightarrow> nat \<Rightarrow> kernel \<Rightarrow> (nat list \<times> kernel) res" where
  "sched_pass run 0 i s = Inr ([], s)"
| "sched_pass run (Suc fuel) i s =
     (case sched_pick (ptable s) i of
        None \<Rightarrow> Inr ([], s)
      | Some p \<Rightarrow>
          res_bind (dispatch p s) (\<lambda>s.
          res_bind (sched_pass run fuel (Suc p) (run p s)) (\<lambda>(ps, s). Inr (p # ps, s))))"
  by pat_completeness auto
termination by (relation "measure (\<lambda>(run, fuel, i, s). fuel)") auto

text \<open>The checks of \<open>sched\<close> before it switches to the scheduler: CPU \<open>c\<close> of number \<open>i\<close>, the lock of the
  process table, the state of the process. It returns the saved \<open>intena\<close>.\<close>

definition sched :: "nat \<Rightarrow> cpu \<Rightarrow> spinlock \<Rightarrow> proc \<Rightarrow> bool res" where
  "sched i c lk p =
     (if \<not> holding i lk then Inl (Panic ''sched ptable.lock'')
      else if ncli c \<noteq> 1 then Inl (Panic ''sched locks'')
      else if p_state p = RUNNING then Inl (Panic ''sched running'')
      else if fl_if c then Inl (Panic ''sched interruptible'')
      else Inr (intena c))"

definition yield :: "nat \<Rightarrow> kernel \<Rightarrow> kernel" where
  "yield me s = upd_proc me (\<lambda>p. p\<lparr>p_state := RUNNABLE\<rparr>) s"

section \<open>Listings\<close>

fun state_name :: "procstate \<Rightarrow> string" where
  "state_name UNUSED = ''unused''"
| "state_name EMBRYO = ''embryo''"
| "state_name SLEEPING = ''sleep ''"
| "state_name RUNNABLE = ''runble''"
| "state_name RUNNING = ''run   ''"
| "state_name ZOMBIE = ''zombie''"

text \<open>The lines of \<open>procdump\<close>: pid, state, name and, for a sleeper, its call stack up to the first 0
  (\<open>rd\<close> reads kernel memory).\<close>

definition procdump :: "(u64 \<Rightarrow> u64) \<Rightarrow> kernel \<Rightarrow> (int \<times> string \<times> byte list \<times> u64 list) list" where
  "procdump rd s =
     map (\<lambda>p. (p_pid p, state_name (p_state p), cstr (p_name p),
        if p_state p = SLEEPING then takeWhile (\<lambda>pc. pc \<noteq> 0) (getstackpcs rd (c_ebp (p_context p))) else []))
       (filter (\<lambda>p. p_state p \<noteq> UNUSED) (ptable s))"

text \<open>\<open>p->parent->pid\<close>; a null parent is an access outside the object.\<close>

definition ppid :: "kernel \<Rightarrow> proc \<Rightarrow> int res" where
  "ppid s p = (case p_parent p of None \<Rightarrow> Inl (Undefined ''parent'') | Some q \<Rightarrow> Inr (p_pid (ptable s ! q)))"

fun ps_lines :: "kernel \<Rightarrow> proc list \<Rightarrow> (int \<times> string \<times> int \<times> byte list \<times> int option) list res" where
  "ps_lines s [] = Inr []"
| "ps_lines s (p # ps) =
     res_bind
       (if p_state p = SLEEPING \<or> p_state p = RUNNING \<or> p_state p = RUNNABLE then
          res_bind (if p_pid p = 1 then Inr 1 else ppid s p) (\<lambda>pp.
            Inr [(p_pid p, if p_state p = SLEEPING then ''SLEEPING'' else if p_state p = RUNNING then ''RUNNING'' else ''RUNNABLE'',
              pp, cstr (p_name p), if p_state p = SLEEPING then None else Some (p_priority p))])
        else Inr [])
       (\<lambda>l. res_bind (ps_lines s ps) (\<lambda>ls. Inr (l @ ls)))"

definition ps :: "kernel \<Rightarrow> (int \<times> (int \<times> string \<times> int \<times> byte list \<times> int option) list) res" where
  "ps s = res_bind (ps_lines s (ptable s)) (\<lambda>ls. Inr (192, ls))"

record process_info =
  pi_pid :: int
  pi_ppid :: int
  pi_state :: procstate
  pi_sz :: nat
  pi_name :: "byte list"

text \<open>The loop of \<open>get_processes_info\<close> over the entries from \<open>i\<close> on; the entries of the caller's table
  for unused processes are left as they are. The size is cut to 32 bits.\<close>

fun processes_info_loop :: "kernel \<Rightarrow> nat list \<Rightarrow> int \<Rightarrow> process_info list \<Rightarrow> (int \<times> process_info list) res" where
  "processes_info_loop s [] count tab = Inr (count, tab)"
| "processes_info_loop s (i # is) count tab =
     (let p = ptable s ! i
      in if p_state p = UNUSED then processes_info_loop s is count tab
         else
           res_bind (if i = 0 then Inr 0 else ppid s p) (\<lambda>pp.
             processes_info_loop s is (count + 1)
               (tab[i := \<lparr>pi_pid = p_pid p, pi_ppid = pp, pi_state = p_state p, pi_sz = p_sz p mod 2 ^ 32, pi_name = take 16 (p_name p)\<rparr>])))"

definition get_processes_info :: "kernel \<Rightarrow> process_info list \<Rightarrow> (int \<times> process_info list) res" where
  "get_processes_info s tab = processes_info_loop s [0..<length (ptable s)] 0 tab"

section \<open>Choosing a process\<close>

lemma highP_fold:
  assumes "p_state (tab ! p) = RUNNABLE"
  defines "r \<equiv> \<lambda>qs p. fold (highP_step tab) qs p"
  shows "p_state (tab ! r qs p) = RUNNABLE \<and> r qs p \<in> insert p (set qs) \<and>
    (\<forall>q \<in> insert p (set qs). p_state (tab ! q) = RUNNABLE \<longrightarrow> p_priority (tab ! r qs p) \<le> p_priority (tab ! q))"
  using assms(1)
proof (induction qs arbitrary: p)
  case (Cons q qs)
  have st: "p_state (tab ! highP_step tab q p) = RUNNABLE" "highP_step tab q p \<in> {p, q}"
    "p_priority (tab ! highP_step tab q p) \<le> p_priority (tab ! p)"
    "p_state (tab ! q) = RUNNABLE \<Longrightarrow> p_priority (tab ! highP_step tab q p) \<le> p_priority (tab ! q)"
    using Cons.prems by (auto simp: highP_step_def)
  have r: "r (q # qs) p = r qs (highP_step tab q p)" by (simp add: r_def)
  show ?case unfolding r using Cons.IH [OF st(1)] st by force
qed (simp add: r_def)

lemma highP_props:
  assumes "p_state (tab ! p) = RUNNABLE" "p < length tab"
  shows "p_state (tab ! highP tab p) = RUNNABLE" "highP tab p < length tab"
    "q < length tab \<Longrightarrow> p_state (tab ! q) = RUNNABLE \<Longrightarrow> p_priority (tab ! highP tab p) \<le> p_priority (tab ! q)"
  using highP_fold [OF assms(1), of "[0..<length tab]"] assms(2) by (auto simp: highP_def)

lemma sched_pick_Some:
  assumes "sched_pick tab i = Some p"
  shows "p < length tab" "p_state (tab ! p) = RUNNABLE" "q < length tab \<Longrightarrow> p_state (tab ! q) = RUNNABLE \<Longrightarrow> p_priority (tab ! p) \<le> p_priority (tab ! q)"
proof -
  from assms obtain r where r: "List.find (\<lambda>p. p_state (tab ! p) = RUNNABLE) [i..<length tab] = Some r" "p = highP tab r"
    by (auto simp: sched_pick_def)
  then have "p_state (tab ! r) = RUNNABLE" "r < length tab" by (auto simp: find_upt_Some)
  note H = highP_props [OF this]
  show "p < length tab" "p_state (tab ! p) = RUNNABLE" "q < length tab \<Longrightarrow> p_state (tab ! q) = RUNNABLE \<Longrightarrow> p_priority (tab ! p) \<le> p_priority (tab ! q)"
    using H r(2) by simp_all
qed

text \<open>C38: The scheduler never idles while there is work, and it respects priorities: a pass from the start
  of the table finds a process exactly when one is runnable, and the process found is runnable and
  no runnable process has a smaller priority value.\<close>

theorem scheduler_picks_highest:
  "case sched_pick tab 0 of
     None \<Rightarrow> \<not> (\<exists>p \<in> set tab. p_state p = RUNNABLE)
   | Some i \<Rightarrow> i < length tab \<and> p_state (tab ! i) = RUNNABLE \<and>
       (\<forall>q < length tab. p_state (tab ! q) = RUNNABLE \<longrightarrow> p_priority (tab ! i) \<le> p_priority (tab ! q))"
proof (cases "sched_pick tab 0")
  case None
  then have "\<forall>k < length tab. p_state (tab ! k) \<noteq> RUNNABLE" by (simp add: sched_pick_def find_upt_None)
  then show ?thesis using None by (auto simp: in_set_conv_nth)
next
  case (Some i)
  then show ?thesis using sched_pick_Some [OF Some] by simp
qed

lemma upd_proc_simps [simp]:
  "ptable (upd_proc i f s) = (ptable s)[i := f (ptable s ! i)]" "length (ptable (upd_proc i f s)) = length (ptable s)"
  "icache (upd_proc i f s) = icache s" "km (upd_proc i f s) = km s" "ftable (upd_proc i f s) = ftable s"
  "pipes (upd_proc i f s) = pipes s" "initproc (upd_proc i f s) = initproc s" "nextpid (upd_proc i f s) = nextpid s"
  "ticks (upd_proc i f s) = ticks s"
  by (simp_all add: upd_proc_def)

text \<open>No wakeup is lost: a process that has gone to sleep on a channel is runnable after the next
  \<open>wakeup\<close> of that channel, and no process sleeping elsewhere is disturbed.\<close>

lemma sleep_wakeup:
  assumes "sleep (Some i) True chan s = Inr s1" "i < length (ptable s)"
  shows "p_state (ptable (wakeup chan s1) ! i) = RUNNABLE"
    "j < length (ptable s) \<Longrightarrow> j \<noteq> i \<Longrightarrow> p_state (ptable s ! j) = SLEEPING \<Longrightarrow> p_chan (ptable s ! j) \<noteq> chan \<Longrightarrow>
      ptable (wakeup chan s1) ! j = ptable s ! j"
  using assms by (auto simp: sleep_def wakeup_def wakeup1_def upd_proc_def nth_list_update)

section \<open>A small machine\<close>

text \<open>A kernel state for the witnesses: one running process, all other tables empty.\<close>

definition demo_tf :: trapframe where
  "demo_tf = \<lparr>tf_eax = 0, tf_rbx = 0, tf_rcx = 0, tf_rdx = 0, tf_rbp = 0, tf_rsi = 0, tf_rdi = 0, tf_r8 = 0, tf_r9 = 0,
     tf_r10 = 0, tf_r11 = 0, tf_r12 = 0, tf_r13 = 0, tf_r14 = 0, tf_r15 = 0, tf_trapno = 0, tf_err = 0, tf_eip = 0,
     tf_cs = 0, tf_eflags = 0, tf_esp = 0, tf_ds = 0\<rparr>"

definition demo_proc :: proc where
  "demo_proc = \<lparr>p_sz = 0, p_pgdir = 0, p_kstack = 0, p_state = UNUSED, p_pid = 0, p_parent = None, p_tf = demo_tf,
     p_context = \<lparr>c_r15 = 0, c_r14 = 0, c_r13 = 0, c_r12 = 0, c_r11 = 0, c_rbx = 0, c_ebp = 0, c_eip = 0\<rparr>,
     p_chan = Ch_null, p_killed = False, p_ofile = replicate NOFILE None, p_cwd = None, p_name = replicate 16 0, p_priority = 0\<rparr>"

definition demo_file :: kfile where
  "demo_file = \<lparr>f_type = FD_NONE, f_ref = 0, f_readable = False, f_writable = False, f_pipe = 0, f_ip = 0, f_off = 0\<rparr>"

definition demo_pipe :: pipe where
  "demo_pipe = \<lparr>pp_data = replicate PIPESIZE 0, pp_nread = 0, pp_nwrite = 0, pp_readopen = True, pp_writeopen = True\<rparr>"

definition demo_kernel :: kernel where
  "demo_kernel = \<lparr>memdisk = [], writes = [], bufs = [], lru = [], lg_start = 0, lg_size = 0, lg_busy = False, lg_dev = 0, lg_n = 0,
     lg_sector = [], icache = replicate NINODE demo_free, km = kmem0, ftable = replicate NFILE demo_file, pipes = (\<lambda>_. demo_pipe),
     ptable = demo_proc\<lparr>p_state := RUNNING, p_pid := 1, p_sz := 4096, p_priority := 10\<rparr> # replicate (NPROC - 1) demo_proc,
     initproc = 0, nextpid = 2, ticks = 0, kpdpt = KERNBASE_N\<rparr>"

text \<open>With processes of priority 10 and 5 ready, the pass that starts at the first of them picks the second.\<close>

theorem scheduler_picks_highest_witness:
  "sched_pick [demo_proc, demo_proc\<lparr>p_state := RUNNABLE, p_priority := 10\<rparr>, demo_proc\<lparr>p_state := RUNNABLE, p_priority := 5\<rparr>] 0 = Some 2 \<and>
   (p_priority (demo_proc\<lparr>p_state := RUNNABLE, p_priority := 5\<rparr>) \<le> p_priority (demo_proc\<lparr>p_state := RUNNABLE, p_priority := 10\<rparr>))"
proof -
  let ?t = "[demo_proc, demo_proc\<lparr>p_state := RUNNABLE, p_priority := 10\<rparr>, demo_proc\<lparr>p_state := RUNNABLE, p_priority := 5\<rparr>]"
  have pick: "sched_pick ?t 0 = Some 2" by (simp add: sched_pick_def highP_def highP_step_def demo_proc_def upt_rec)
  have "p_state (?t ! 1) = RUNNABLE" "p_priority (?t ! 2) \<le> p_priority (?t ! 1)"
    using scheduler_picks_highest [of ?t] pick by simp_all
  then show ?thesis using pick by simp
qed

end
