(* ===== verification/Ring.thy ===== *)
theory Ring
  imports Xv6_Prelude
begin

text \<open>
  Ring buffers with free-running 32-bit indices, as the pipes and the console use them: the element with
  index \<open>i\<close> is at position \<open>i mod N\<close> of an array of \<open>N\<close> elements, and the indices wrap around at \<open>2 ^ 32\<close>. As
  \<open>N\<close> divides \<open>2 ^ 32\<close> the positions do not notice.
\<close>

definition ring :: "nat \<Rightarrow> 'a list \<Rightarrow> u32 \<Rightarrow> nat \<Rightarrow> 'a list" where
  "ring N d a n = map (\<lambda>k. d ! (unat (a + of_nat k) mod N)) [0..<n]"

lemma length_ring [simp]: "length (ring N d a n) = n"
  by (simp add: ring_def)

lemma ring_0 [simp]: "ring N d a 0 = []"
  by (simp add: ring_def)

lemma ring_pos:
  assumes "N dvd 2 ^ 32"
  shows "unat (a + of_nat k :: u32) mod N = (unat a + k) mod N"
proof -
  have "unat (a + of_nat k :: u32) = (unat a + k) mod 2 ^ 32"
    by (simp add: unat_word_ariths unat_of_nat take_bit_eq_mod mod_add_right_eq)
  then show ?thesis using assms by (simp add: mod_mod_cancel)
qed

lemma ring_distinct: "k < N \<Longrightarrow> j < N \<Longrightarrow> (a + k) mod N = (a + j) mod N \<Longrightarrow> k = j" for a k j N :: nat
proof (induction k j rule: linorder_wlog)
  case (le k j)
  then have "N dvd (a + j) - (a + k)" using mod_eq_dvd_iff_nat [of "a + k" "a + j" N] by simp
  then have "N dvd j - k" by simp
  then show ?case using le by (auto dest: dvd_imp_le)
next
  case (sym k j)
  then show ?case by metis
qed

lemma of_unat_eq: "of_nat (unat x) = (x :: u32)" by simp

lemma word_count_put:
  assumes "unat (w - r :: u32) < 2 ^ 32 - 1"
  shows "unat (w + 1 - r) = Suc (unat (w - r))"
proof -
  have "w + 1 - r = (w - r) + 1" by simp
  then have "unat (w + 1 - r) = (unat (w - r) + unat (1 :: u32)) mod 2 ^ 32" using unat_word_ariths(1) [of "w - r" 1] by (simp only: word_size) simp
  then show ?thesis using assms by simp
qed

lemma word_count_get:
  assumes "r \<noteq> (w :: u32)"
  shows "unat (w - r) = Suc (unat (w - (r + 1)))"
proof -
  have "w - r \<noteq> 0" using assms by simp
  then have "0 < unat (w - r)" by (simp add: unat_gt_0)
  moreover have "unat (w - (r + 1)) = unat (w - r) - 1"
    using unat_minus_one [OF \<open>w - r \<noteq> 0\<close>] by (simp add: diff_diff_eq)
  ultimately show ?thesis by simp
qed

text \<open>Storing at the index after the last element, and reading from the front.\<close>

lemma ring_put:
  assumes "N dvd 2 ^ 32" "length d = N" "n < N"
  shows "ring N (d[unat (a + of_nat n) mod N := c]) a (Suc n) = ring N d a n @ [c]"
proof -
  have N: "0 < N" using assms(3) by simp
  have "d[(unat a + n) mod N := c] ! ((unat a + k) mod N) = d ! ((unat a + k) mod N)" if "k < n" for k
  proof -
    have "(unat a + n) mod N \<noteq> (unat a + k) mod N" using ring_distinct [of n N k "unat a"] that assms(3) by auto
    then show ?thesis by simp
  qed
  moreover have "d[(unat a + n) mod N := c] ! ((unat a + n) mod N) = c" using N assms(2) by simp
  ultimately show ?thesis unfolding ring_def ring_pos [OF assms(1)] by simp
qed

lemma ring_Suc: "ring N d a (Suc n) = d ! (unat a mod N) # ring N d (a + 1) n"
  by (simp add: ring_def map_upt_Suc add.assoc del: upt_Suc)

lemma ring_append: "ring N d a (m + n) = ring N d a m @ ring N d (a + of_nat m) n"
proof (induction m arbitrary: a)
  case (Suc m)
  have "a + 1 + of_nat m = a + of_nat (Suc m)" by simp
  moreover have "ring N d (a + 1) (m + n) = ring N d (a + 1) m @ ring N d (a + 1 + of_nat m) n" by (rule Suc)
  ultimately have "ring N d (a + 1) (m + n) = ring N d (a + 1) m @ ring N d (a + of_nat (Suc m)) n" by (simp only:)
  then show ?case by (simp only: add_Suc ring_Suc append_Cons)
qed simp

lemma ring_nth: "k < n \<Longrightarrow> ring N d a n ! k = d ! (unat (a + of_nat k) mod N)"
  by (simp add: ring_def)

end
