(* ===== verification/Pipe.thy ===== *)
theory Pipe
  imports Kernel Ring
begin

text \<open>
  \<open>kernel/pipe.c\<close>: \<open>pipewrite\<close>, \<open>piperead\<close> and \<open>pipeclose\<close> (\<open>pipealloc\<close> is with the file table). The
  counters \<open>nread\<close> and \<open>nwrite\<close> are 32-bit words that wrap around. A call that goes to sleep returns
  \<open>Blocked\<close> with the number of bytes already transferred, and is resumed from there. The locale
  \<open>bounded_fifo\<close> is the contract of a bounded first-in first-out buffer; \<open>pq\<close> interprets it for the
  ring buffer, and the property of the file is that every interleaving of reads and writes
  delivers the bytes in order, each once.
\<close>

section \<open>Operations\<close>

datatype pipe_ret = Return int | Blocked nat

definition upd_pipe :: "nat \<Rightarrow> (pipe \<Rightarrow> pipe) \<Rightarrow> kernel \<Rightarrow> kernel" where
  "upd_pipe p f s = s\<lparr>pipes := (pipes s)(p := f (pipes s p))\<rparr>"

definition pipeclose :: "nat \<Rightarrow> bool \<Rightarrow> kernel \<Rightarrow> kernel res" where
  "pipeclose p writable s =
     (let s = (if writable then wakeup (Ch_nread p) (upd_pipe p (\<lambda>q. q\<lparr>pp_writeopen := False\<rparr>) s)
               else wakeup (Ch_nwrite p) (upd_pipe p (\<lambda>q. q\<lparr>pp_readopen := False\<rparr>) s))
      in if \<not> pp_readopen (pipes s p) \<and> \<not> pp_writeopen (pipes s p)
         then res_bind (kfree p (km s)) (\<lambda>k. Inr (s\<lparr>km := k\<rparr>))
         else Inr s)"

definition pipe_full :: "pipe \<Rightarrow> bool" where
  "pipe_full q \<longleftrightarrow> pp_nwrite q = pp_nread q + of_nat PIPESIZE"

definition pipe_put :: "byte \<Rightarrow> pipe \<Rightarrow> pipe" where
  "pipe_put c q = q\<lparr>pp_data := (pp_data q)[unat (pp_nwrite q) mod PIPESIZE := c], pp_nwrite := pp_nwrite q + 1\<rparr>"

text \<open>The loop of \<open>pipewrite\<close> over the bytes still to write; \<open>i\<close> counts those written.\<close>

fun pipewrite_loop :: "nat \<Rightarrow> nat \<Rightarrow> byte list \<Rightarrow> nat \<Rightarrow> int \<Rightarrow> kernel \<Rightarrow> (pipe_ret \<times> kernel) res" where
  "pipewrite_loop me p [] i n s = Inr (Return n, wakeup (Ch_nread p) s)"
| "pipewrite_loop me p (c # cs) i n s =
     (if pipe_full (pipes s p) then
        (if \<not> pp_readopen (pipes s p) \<or> p_killed (ptable s ! me) then Inr (Return (-1), s)
         else res_bind (sleep (Some me) True (Ch_nwrite p) (wakeup (Ch_nread p) s)) (\<lambda>s. Inr (Blocked i, s)))
      else pipewrite_loop me p cs (Suc i) n (upd_pipe p (pipe_put c) s))"

text \<open>\<open>pipewrite (p, addr, n)\<close> from byte \<open>i\<close> on; \<open>addr\<close> lists the bytes at \<open>addr\<close> (none for a negative \<open>n\<close>).\<close>

definition pipewrite :: "nat \<Rightarrow> nat \<Rightarrow> byte list \<Rightarrow> nat \<Rightarrow> int \<Rightarrow> kernel \<Rightarrow> (pipe_ret \<times> kernel) res" where
  "pipewrite me p addr i n s = pipewrite_loop me p (drop i (take (nat n) addr)) i n s"

definition pipe_get :: "pipe \<Rightarrow> byte \<times> pipe" where
  "pipe_get q = (pp_data q ! (unat (pp_nread q) mod PIPESIZE), q\<lparr>pp_nread := pp_nread q + 1\<rparr>)"

text \<open>The copy loop of \<open>piperead\<close>, with \<open>r\<close> bytes still wanted; it returns the bytes stored.\<close>

fun piperead_loop :: "nat \<Rightarrow> nat \<Rightarrow> kernel \<Rightarrow> byte list \<times> kernel" where
  "piperead_loop p 0 s = ([], s)"
| "piperead_loop p (Suc r) s =
     (if pp_nread (pipes s p) = pp_nwrite (pipes s p) then ([], s)
      else
        let (c, q) = pipe_get (pipes s p);
            (cs, s) = piperead_loop p r (upd_pipe p (\<lambda>_. q) s)
        in (c # cs, s))"

definition piperead :: "nat \<Rightarrow> nat \<Rightarrow> int \<Rightarrow> kernel \<Rightarrow> (pipe_ret \<times> byte list \<times> kernel) res" where
  "piperead me p n s =
     (if pp_nread (pipes s p) = pp_nwrite (pipes s p) \<and> pp_writeopen (pipes s p) then
        (if p_killed (ptable s ! me) then Inr (Return (-1), [], s)
         else res_bind (sleep (Some me) True (Ch_nread p) s) (\<lambda>s. Inr (Blocked 0, [], s)))
      else
        let (cs, s) = piperead_loop p (nat n) s
        in Inr (Return (int (length cs)), cs, wakeup (Ch_nwrite p) s))"

section \<open>Bounded queues\<close>

datatype 'a fop = Put 'a | Get

locale bounded_fifo =
  fixes full :: "'s \<Rightarrow> bool" and empty :: "'s \<Rightarrow> bool" and put :: "'a \<Rightarrow> 's \<Rightarrow> 's" and get :: "'s \<Rightarrow> 'a \<times> 's"
    and ok :: "'s \<Rightarrow> bool" and queue :: "'s \<Rightarrow> 'a list" and cap :: nat
  assumes full_iff: "ok s \<Longrightarrow> full s \<longleftrightarrow> length (queue s) = cap"
    and empty_iff: "ok s \<Longrightarrow> empty s \<longleftrightarrow> queue s = []"
    and bounded: "ok s \<Longrightarrow> length (queue s) \<le> cap"
    and put_ok: "ok s \<Longrightarrow> \<not> full s \<Longrightarrow> ok (put c s) \<and> queue (put c s) = queue s @ [c]"
    and get_ok: "ok s \<Longrightarrow> \<not> empty s \<Longrightarrow> ok (snd (get s)) \<and> queue s = fst (get s) # queue (snd (get s))"
begin

text \<open>Running a sequence of operations, those that the guards refuse left out: the final state, what
  went in and what came out.\<close>

fun run :: "'a fop list \<Rightarrow> 's \<Rightarrow> 's \<times> 'a list \<times> 'a list" where
  "run [] s = (s, [], [])"
| "run (Put c # xs) s = (if full s then run xs s else let (s', i, out) = run xs (put c s) in (s', c # i, out))"
| "run (Get # xs) s = (if empty s then run xs s else let (s', i, out) = run xs (snd (get s)) in (s', i, fst (get s) # out))"

lemma run_fifo: "ok s \<Longrightarrow> run xs s = (s', i, out) \<Longrightarrow> ok s' \<and> queue s @ i = out @ queue s'"
proof (induction xs s arbitrary: i out rule: run.induct)
  case (2 c xs s)
  then show ?case using put_ok [of s c] by (auto split: if_splits prod.splits)
next
  case (3 xs s)
  then show ?case using get_ok [of s] by (auto split: if_splits prod.splits)
qed auto

text \<open>Filling: the bytes that fit go in, in order.\<close>

fun put_all :: "'a list \<Rightarrow> 's \<Rightarrow> 's \<times> nat" where
  "put_all [] s = (s, 0)"
| "put_all (c # cs) s = (if full s then (s, 0) else let (s', k) = put_all cs (put c s) in (s', Suc k))"

lemma put_all_fills:
  assumes "ok s"
  shows "ok (fst (put_all cs s)) \<and> snd (put_all cs s) = min (length cs) (cap - length (queue s)) \<and>
    queue (fst (put_all cs s)) = queue s @ take (snd (put_all cs s)) cs"
  using assms
proof (induction cs arbitrary: s)
  case (Cons c cs)
  show ?case
  proof (cases "full s")
    case True
    then show ?thesis using full_iff [OF Cons.prems] Cons.prems by simp
  next
    case False
    note P = put_ok [OF Cons.prems False, of c]
    have "length (queue s) < cap" using full_iff [OF Cons.prems] bounded [OF Cons.prems] False by linarith
    then show ?thesis using Cons.IH [of "put c s"] P False by (auto simp: split_beta)
  qed
qed simp

text \<open>Draining: up to \<open>n\<close> elements come out, in order.\<close>

fun get_many :: "nat \<Rightarrow> 's \<Rightarrow> 'a list \<times> 's" where
  "get_many 0 s = ([], s)"
| "get_many (Suc n) s = (if empty s then ([], s) else let (cs, s') = get_many n (snd (get s)) in (fst (get s) # cs, s'))"

lemma get_many_drains:
  assumes "ok s"
  shows "ok (snd (get_many n s)) \<and> fst (get_many n s) = take n (queue s) \<and> queue (snd (get_many n s)) = drop n (queue s)"
  using assms
proof (induction n arbitrary: s)
  case (Suc n)
  show ?case
  proof (cases "empty s")
    case True
    then show ?thesis using empty_iff [OF Suc.prems] Suc.prems by simp
  next
    case False
    note G = get_ok [OF Suc.prems False]
    from Suc.IH [of "snd (get s)"] G False show ?thesis by (auto simp: split_beta)
  qed
qed simp

end

section \<open>The ring buffer is a bounded queue\<close>

definition pipe_ok :: "pipe \<Rightarrow> bool" where
  "pipe_ok q \<longleftrightarrow> length (pp_data q) = PIPESIZE \<and> unat (pp_nwrite q - pp_nread q) \<le> PIPESIZE"

definition pipe_queue :: "pipe \<Rightarrow> byte list" where
  "pipe_queue q = ring PIPESIZE (pp_data q) (pp_nread q) (unat (pp_nwrite q - pp_nread q))"

lemma length_pipe_queue [simp]: "length (pipe_queue q) = unat (pp_nwrite q - pp_nread q)"
  by (simp add: pipe_queue_def)

lemma PIPESIZE_dvd: "PIPESIZE dvd 2 ^ 32" by (simp add: PIPESIZE_def)

lemma pipe_put_ok:
  assumes ok: "pipe_ok q" and nf: "\<not> pipe_full q"
  shows "pipe_ok (pipe_put c q)" "pipe_queue (pipe_put c q) = pipe_queue q @ [c]"
proof -
  define n where "n = unat (pp_nwrite q - pp_nread q)"
  have n: "n < PIPESIZE"
  proof (rule ccontr)
    assume "\<not> n < PIPESIZE"
    then have "unat (pp_nwrite q - pp_nread q) = PIPESIZE" using ok by (simp add: pipe_ok_def n_def)
    then have "pp_nwrite q - pp_nread q = of_nat PIPESIZE" using of_unat_eq by metis
    then show False using nf by (simp add: pipe_full_def eq_diff_eq add.commute diff_eq_eq)
  qed
  have cnt: "unat (pp_nwrite q + 1 - pp_nread q) = Suc n"
    using word_count_put [of "pp_nwrite q" "pp_nread q"] n by (simp add: n_def PIPESIZE_def)
  then show "pipe_ok (pipe_put c q)" using ok n by (simp add: pipe_ok_def pipe_put_def)
  have w: "pp_nwrite q = pp_nread q + of_nat n" by (simp add: n_def)
  have len: "length (pp_data q) = PIPESIZE" using ok by (simp add: pipe_ok_def)
  have "pipe_queue (pipe_put c q) = ring PIPESIZE ((pp_data q)[unat (pp_nread q + of_nat n) mod PIPESIZE := c]) (pp_nread q) (Suc n)"
    using cnt by (simp add: pipe_queue_def pipe_put_def flip: w)
  then show "pipe_queue (pipe_put c q) = pipe_queue q @ [c]"
    unfolding ring_put [OF PIPESIZE_dvd len n] by (simp add: pipe_queue_def n_def)
qed

lemma pipe_get_ok:
  assumes ok: "pipe_ok q" and ne: "pp_nread q \<noteq> pp_nwrite q"
  shows "pipe_ok (snd (pipe_get q))" "pipe_queue q = fst (pipe_get q) # pipe_queue (snd (pipe_get q))"
proof -
  note cnt = word_count_get [OF ne]
  then show "pipe_ok (snd (pipe_get q))" using ok by (simp add: pipe_ok_def pipe_get_def)
  show "pipe_queue q = fst (pipe_get q) # pipe_queue (snd (pipe_get q))"
    unfolding pipe_queue_def cnt ring_Suc by (simp add: pipe_get_def)
qed

interpretation pq: bounded_fifo pipe_full "\<lambda>q. pp_nread q = pp_nwrite q" pipe_put pipe_get pipe_ok pipe_queue PIPESIZE
proof unfold_locales
  fix q assume ok: "pipe_ok q"
  show "pipe_full q \<longleftrightarrow> length (pipe_queue q) = PIPESIZE"
  proof
    assume "pipe_full q"
    then show "length (pipe_queue q) = PIPESIZE" by (simp add: pipe_full_def PIPESIZE_def)
  next
    assume "length (pipe_queue q) = PIPESIZE"
    then have "pp_nwrite q - pp_nread q = of_nat PIPESIZE" using of_unat_eq by (metis length_pipe_queue)
    then show "pipe_full q" by (simp add: pipe_full_def diff_eq_eq add.commute)
  qed
  show "pp_nread q = pp_nwrite q \<longleftrightarrow> pipe_queue q = []" by (auto simp: pipe_queue_def ring_def unat_eq_0)
  show "length (pipe_queue q) \<le> PIPESIZE" using ok by (simp add: pipe_ok_def)
  show "\<not> pipe_full q \<Longrightarrow> pipe_ok (pipe_put c q) \<and> pipe_queue (pipe_put c q) = pipe_queue q @ [c]" for c
    using pipe_put_ok [OF ok] by simp
  show "pp_nread q \<noteq> pp_nwrite q \<Longrightarrow> pipe_ok (snd (pipe_get q)) \<and> pipe_queue q = fst (pipe_get q) # pipe_queue (snd (pipe_get q))"
    using pipe_get_ok [OF ok] by simp
qed

section \<open>The operations on the kernel state\<close>

lemma pipes_frame [simp]:
  "pipes (wakeup ch s) = pipes s" "pipes (wakeup1 ch s) = pipes s" "pipes (upd_pipe p f s) = (pipes s)(p := f (pipes s p))"
  "ptable (upd_pipe p f s) = ptable s" "km (upd_pipe p f s) = km s" "ftable (upd_pipe p f s) = ftable s"
  "icache (upd_pipe p f s) = icache s" "ftable (wakeup ch s) = ftable s" "km (wakeup ch s) = km s"
  by (simp_all add: wakeup_def wakeup1_def upd_pipe_def)

lemma pipe_put_fields [simp]:
  "pp_nwrite (pipe_put c q) = pp_nwrite q + 1" "pp_nread (pipe_put c q) = pp_nread q"
  "pp_readopen (pipe_put c q) = pp_readopen q" "pp_writeopen (pipe_put c q) = pp_writeopen q"
  by (simp_all add: pipe_put_def)

lemma pipes_sleep: "sleep me lk ch s = Inr s' \<Longrightarrow> pipes s' = pipes s"
  by (auto simp: sleep_def split: option.splits if_splits)

text \<open>\<open>pipewrite\<close> stores what fits: \<open>k\<close> bytes go to the end of the queue. It then has either written
  everything, or it is full and asleep with the count of bytes written, or it is full and gives up
  because nobody reads or the process was killed.\<close>

lemma pipewrite_loop_effect:
  assumes "pipe_ok (pipes s p)"
  shows "\<exists>out s'. pipewrite_loop me p cs i n s = Inr (out, s') \<and>
    pipes s' = (pipes s)(p := fst (pq.put_all cs (pipes s p))) \<and>
    (let k = snd (pq.put_all cs (pipes s p))
     in if k = length cs then out = Return n
        else pipe_full (pipes s' p) \<and>
          out = (if pp_readopen (pipes s p) \<and> \<not> p_killed (ptable s ! me) then Blocked (i + k) else Return (-1)))"
  using assms
proof (induction cs arbitrary: i s)
  case (Cons c cs)
  show ?case
  proof (cases "pipe_full (pipes s p)")
    case True
    then show ?thesis by (simp add: sleep_def)
  next
    case False
    define s1 where "s1 = upd_pipe p (pipe_put c) s"
    define q where "q = pipe_put c (pipes s p)"
    have p1: "pipes s1 = (pipes s)(p := q)" "pipes s1 p = q" "ptable s1 = ptable s" "pp_readopen q = pp_readopen (pipes s p)"
      by (simp_all add: s1_def q_def)
    have "pipe_ok (pipes s1 p)" using pipe_put_ok(1) [OF Cons.prems False] by (simp add: p1 q_def)
    from Cons.IH [OF this, of "Suc i"] obtain out s' where s': "pipewrite_loop me p cs (Suc i) n s1 = Inr (out, s')"
        "pipes s' = (pipes s)(p := fst (pq.put_all cs q))"
        "let k = snd (pq.put_all cs q)
         in if k = length cs then out = Return n
            else pipe_full (pipes s' p) \<and>
              out = (if pp_readopen (pipes s p) \<and> \<not> p_killed (ptable s ! me) then Blocked (Suc i + k) else Return (-1))"
      unfolding p1(2-4) unfolding p1(1) fun_upd_upd by blast
    have "pq.put_all (c # cs) (pipes s p) = (fst (pq.put_all cs q), Suc (snd (pq.put_all cs q)))"
      using False by (simp add: q_def split_beta)
    then show ?thesis
      using False s' by (intro exI [of _ out] exI [of _ s']) (auto simp: s1_def [symmetric] Let_def simp del: pq.put_all.simps split: if_splits)
  qed
qed simp

lemma piperead_loop_effect:
  "piperead_loop p r s = (fst (pq.get_many r (pipes s p)), s\<lparr>pipes := (pipes s)(p := snd (pq.get_many r (pipes s p)))\<rparr>)"
proof (induction r arbitrary: s)
  case (Suc r)
  show ?case
  proof (cases "pp_nread (pipes s p) = pp_nwrite (pipes s p)")
    case False
    define s1 where "s1 = upd_pipe p (\<lambda>_. snd (pipe_get (pipes s p))) s"
    have p1: "pipes s1 = (pipes s)(p := snd (pipe_get (pipes s p)))" "s1\<lparr>pipes := f\<rparr> = s\<lparr>pipes := f\<rparr>" for f
      by (simp_all add: s1_def upd_pipe_def)
    have "piperead_loop p r s1 = (fst (pq.get_many r (snd (pipe_get (pipes s p)))), s\<lparr>pipes := (pipes s)(p := snd (pq.get_many r (snd (pipe_get (pipes s p)))))\<rparr>)"
      using Suc.IH [of s1] unfolding p1(2) unfolding p1(1) fun_upd_upd fun_upd_same .
    moreover have "piperead_loop p (Suc r) s = (fst (pipe_get (pipes s p)) # fst (piperead_loop p r s1), snd (piperead_loop p r s1))"
      using False by (simp add: split_beta s1_def)
    moreover have "pq.get_many (Suc r) (pipes s p) = (fst (pipe_get (pipes s p)) # fst (pq.get_many r (snd (pipe_get (pipes s p)))),
        snd (pq.get_many r (snd (pipe_get (pipes s p)))))"
      using False by (simp add: split_beta)
    ultimately show ?thesis by (simp only: fst_conv snd_conv)
  qed simp
qed simp

text \<open>The life of a pipe \<open>p\<close> under any schedule: calls of \<open>pipewrite\<close> (new or resumed) and \<open>piperead\<close> by any
  process, and anything else that leaves the pipe's own structure alone. The second and third components
  record all bytes ever stored and all bytes ever delivered.\<close>

inductive pipe_step :: "nat \<Rightarrow> kernel \<times> byte list \<times> byte list \<Rightarrow> kernel \<times> byte list \<times> byte list \<Rightarrow> bool" for p where
  stored: "pipewrite me p addr i n s = Inr (out, s') \<Longrightarrow> k = unat (pp_nwrite (pipes s' p) - pp_nwrite (pipes s p)) \<Longrightarrow>
    pipe_step p (s, w, r) (s', w @ take k (drop i (take (nat n) addr)), r)"
| fetched: "piperead me p n s = Inr (out, cs, s') \<Longrightarrow> pipe_step p (s, w, r) (s', w, r @ cs)"
| unrelated: "pipes s' p = pipes s p \<Longrightarrow> pipe_step p (s, w, r) (s', w, r)"

definition pipe_inv :: "nat \<Rightarrow> kernel \<times> byte list \<times> byte list \<Rightarrow> bool" where
  "pipe_inv p = (\<lambda>(s, w, r). pipe_ok (pipes s p) \<and> w = r @ pipe_queue (pipes s p))"

lemma put_all_count:
  assumes "pipe_ok q"
  shows "pp_nwrite (fst (pq.put_all cs q)) - pp_nwrite q = of_nat (snd (pq.put_all cs q))"
  using assms
proof (induction cs arbitrary: q)
  case (Cons c cs)
  show ?case
  proof (cases "pipe_full q")
    case False
    from Cons.IH [OF pipe_put_ok(1) [OF Cons.prems False], of c] False show ?thesis
      by (simp add: split_beta diff_eq_eq add_ac)
  qed simp
qed simp

lemma pipe_step_inv: "pipe_step p x y \<Longrightarrow> pipe_inv p x \<Longrightarrow> pipe_inv p y"
proof (induction rule: pipe_step.induct)
  case (stored me addr i n s out s' k w r)
  then have ok: "pipe_ok (pipes s p)" and w: "w = r @ pipe_queue (pipes s p)" by (simp_all add: pipe_inv_def)
  define cs where "cs = drop i (take (nat n) addr)"
  define q where "q = pq.put_all cs (pipes s p)"
  have s': "pipes s' p = fst q"
    using pipewrite_loop_effect [OF ok, of me cs i n] stored(1) by (auto simp: pipewrite_def cs_def q_def)
  note P = pq.put_all_fills [OF ok, of cs, folded q_def]
  have "snd q \<le> PIPESIZE" using P by (simp add: min_def split: if_splits)
  then have "k = snd q"
    using stored(2) put_all_count [OF ok, of cs] by (simp add: s' q_def [symmetric] unat_of_nat PIPESIZE_def take_bit_nat_eq_self)
  then show ?case using P w by (simp add: pipe_inv_def s' cs_def)
next
  case (fetched me n s out cs s' w r)
  then have ok: "pipe_ok (pipes s p)" and w: "w = r @ pipe_queue (pipes s p)" by (simp_all add: pipe_inv_def)
  consider "pipes s' = pipes s" "cs = []"
    | "cs = fst (pq.get_many (nat n) (pipes s p))" "pipes s' p = snd (pq.get_many (nat n) (pipes s p))"
  proof (cases "pp_nread (pipes s p) = pp_nwrite (pipes s p) \<and> pp_writeopen (pipes s p)")
    case True
    then have "pipes s' = pipes s" "cs = []"
      using fetched(1) by (auto simp: piperead_def sleep_def split: if_splits)
    then show ?thesis using that(1) by blast
  next
    case False
    then show ?thesis using fetched(1) that(2) by (auto simp: piperead_def piperead_loop_effect simp del: piperead_loop.simps)
  qed
  then show ?case
  proof cases
    case 2
    then show ?thesis using pq.get_many_drains [OF ok, of "nat n"] ok w by (simp add: pipe_inv_def)
  qed (use ok w in \<open>simp add: pipe_inv_def\<close>)
next
  case (unrelated s' s w r)
  then show ?case by (simp add: pipe_inv_def)
qed

text \<open>C6: A pipe is a bounded first-in first-out channel: from an empty pipe and under any interleaving of
  reads, writes and resumed writes, for any number of wrap-arounds of the 32-bit counters, the bytes
  delivered so far followed by those still in the buffer are exactly the bytes stored so far, in order,
  and the buffer never holds more than \<open>PIPESIZE\<close> bytes.\<close>

theorem pipe_fifo:
  assumes "(pipe_step p)\<^sup>*\<^sup>* (s0, [], []) (s, w, r)" "pipe_ok (pipes s0 p)" "pipe_queue (pipes s0 p) = []"
  shows "w = r @ pipe_queue (pipes s p) \<and> length (pipe_queue (pipes s p)) \<le> PIPESIZE"
proof -
  have "pipe_inv p (s, w, r)"
    using assms(1)
  proof (induction "(s, w, r)" arbitrary: s w r rule: rtranclp_induct)
    case base
    then show ?case using assms(2,3) by (simp add: pipe_inv_def)
  next
    case (step y)
    then show ?case using pipe_step_inv by (cases y) blast
  qed
  then show ?thesis using pq.bounded by (simp add: pipe_inv_def)
qed

text \<open>Three bytes go in, two come out, one is left.\<close>

theorem pipe_fifo_witness:
  "\<exists>s w r. (pipe_step 7)\<^sup>*\<^sup>* (demo_kernel, [], []) (s, w, r) \<and> w = [1, 2, 3] \<and> r = [1, 2] \<and> pipe_queue (pipes s 7) = [3]"
proof -
  have ok: "pipe_ok (pipes demo_kernel 7)" and q0: "pipe_queue (pipes demo_kernel 7) = []"
    by (simp_all add: demo_kernel_def demo_pipe_def pipe_ok_def pipe_queue_def)
  define cs where "cs = [1, 2, 3 :: byte]"
  have len: "length cs = 3" "drop 0 (take (nat 3) cs) = cs" by (simp_all add: cs_def)
  define q where "q = pq.put_all cs (pipes demo_kernel 7)"
  have Q: "pipe_ok (fst q)" "snd q = 3" "pipe_queue (fst q) = [1, 2, 3]"
    using pq.put_all_fills [OF ok, of cs, folded q_def] q0 len by (simp_all add: PIPESIZE_def) (simp add: cs_def)
  obtain s1 where s1: "pipewrite 0 7 cs 0 3 demo_kernel = Inr (Return 3, s1)" "pipes s1 7 = fst q"
    using pipewrite_loop_effect [OF ok, of 0 cs 0 3, folded q_def] Q(2) len unfolding pipewrite_def by (auto simp: Let_def)
  have k: "3 = unat (pp_nwrite (pipes s1 7) - pp_nwrite (pipes demo_kernel 7))"
    using put_all_count [OF ok, of cs, folded q_def] Q(2) s1(2) by simp
  have st1: "pipe_step 7 (demo_kernel, [], []) (s1, [1, 2, 3], [])"
    using pipe_step.stored [OF s1(1) k, of "[]" "[]"] by (simp add: cs_def)
  have ne: "pp_nread (pipes s1 7) \<noteq> pp_nwrite (pipes s1 7)" using pq.empty_iff [OF Q(1)] Q(3) s1(2) by simp
  define s2 where "s2 = wakeup (Ch_nwrite 7) (snd (piperead_loop 7 2 s1))"
  have g: "fst (pq.get_many 2 (fst q)) = [1, 2]"
    using pq.get_many_drains [OF Q(1), of 2] Q(3) by simp
  have rd: "piperead 0 7 2 s1 = Inr (Return 2, [1, 2], s2)"
    unfolding piperead_def piperead_loop_effect s2_def using ne g by (simp add: s1(2))
  have st2: "pipe_step 7 (s1, [1, 2, 3], []) (s2, [1, 2, 3], [1, 2])"
    using pipe_step.fetched [OF rd, of "[1, 2, 3]" "[]"] by simp
  have star: "(pipe_step 7)\<^sup>*\<^sup>* (demo_kernel, [], []) (s2, [1, 2, 3], [1, 2])"
    using st1 st2 by (meson converse_rtranclp_into_rtranclp rtranclp.rtrancl_refl)
  from pipe_fifo [OF star ok q0] have "pipe_queue (pipes s2 7) = [3]" by simp
  with star show ?thesis by blast
qed

end
