(* ===== verification/Files.thy ===== *)
theory Files
  imports Pipe
begin

text \<open>
  \<open>kernel/file.c\<close>, the table of open files, and \<open>pipealloc\<close> of \<open>kernel/pipe.c\<close>. \<open>dv\<close> is the table of device
  functions \<open>devsw\<close>; a read or write of a pipe may return \<open>Blocked\<close>. The lemmas show that reference
  counts are kept, that \<open>pipealloc\<close> creates both ends of a fresh pipe or nothing, and that \<open>filewrite\<close>
  splits a long write into transactions that cover it exactly.
\<close>

section \<open>Operations\<close>

definition upd_file :: "nat \<Rightarrow> (kfile \<Rightarrow> kfile) \<Rightarrow> kernel \<Rightarrow> kernel" where
  "upd_file f g s = s\<lparr>ftable := (ftable s)[f := g (ftable s ! f)]\<rparr>"

definition filealloc :: "kernel \<Rightarrow> nat option \<times> kernel" where
  "filealloc s =
     (case find_index (\<lambda>f. f_ref f = 0) (ftable s) of
        Some f \<Rightarrow> (Some f, upd_file f (\<lambda>x. x\<lparr>f_ref := 1\<rparr>) s)
      | None \<Rightarrow> (None, s))"

definition filedup :: "nat \<Rightarrow> kernel \<Rightarrow> kernel res" where
  "filedup f s =
     (if f_ref (ftable s ! f) < 1 then Inl (Panic ''filedup'')
      else Inr (upd_file f (\<lambda>x. x\<lparr>f_ref := f_ref x + 1\<rparr>) s))"

definition fileclose :: "nat \<Rightarrow> kernel \<Rightarrow> kernel res" where
  "fileclose f s =
     (if f_ref (ftable s ! f) < 1 then Inl (Panic ''fileclose'')
      else
        let s = upd_file f (\<lambda>x. x\<lparr>f_ref := f_ref x - 1\<rparr>) s
        in if f_ref (ftable s ! f) > 0 then Inr s
           else
             let ff = ftable s ! f; s = upd_file f (\<lambda>x. x\<lparr>f_ref := 0, f_type := FD_NONE\<rparr>) s
             in (case f_type ff of
                   FD_PIPE \<Rightarrow> pipeclose (f_pipe ff) (f_writable ff) s
                 | FD_INODE \<Rightarrow> res_bind (begin_trans s) (\<lambda>s. res_bind (iput (f_ip ff) s) commit_trans)
                 | FD_NONE \<Rightarrow> Inr s))"

definition filestat :: "nat \<Rightarrow> kernel \<Rightarrow> (int \<times> stat option \<times> kernel) res" where
  "filestat f s =
     (let x = ftable s ! f
      in if f_type x = FD_INODE then
           res_bind (ilock (f_ip x) s) (\<lambda>s.
             let st = stati (f_ip x) s in res_bind (iunlock (f_ip x) s) (\<lambda>s. Inr (0, Some st, s)))
         else Inr (-1, None, s))"

definition fileread :: "kernel devsw \<Rightarrow> nat \<Rightarrow> nat \<Rightarrow> int \<Rightarrow> kernel \<Rightarrow> (pipe_ret \<times> byte list \<times> kernel) res" where
  "fileread dv me f n s =
     (let x = ftable s ! f
      in if \<not> f_readable x then Inr (Return (-1), [], s)
         else if f_type x = FD_PIPE then piperead me (f_pipe x) n s
         else if f_type x = FD_INODE then
           res_bind (ilock (f_ip x) s) (\<lambda>s.
           res_bind (readi dv (f_ip x) (f_off x) (u32_of_int n) s) (\<lambda>(r, bs, s).
             let s = (if r > 0 then upd_file f (\<lambda>y. y\<lparr>f_off := (f_off y + nat r) mod 2 ^ 32\<rparr>) s else s)
             in res_bind (iunlock (f_ip x) s) (\<lambda>s. Inr (Return r, bs, s))))
         else Inl (Panic ''fileread''))"

definition write_max :: int where
  "write_max = int ((LOGSIZE - 1 - 1 - 2) div 2 * BSIZE)"

text \<open>The loop of \<open>filewrite\<close> for a file on disk, from byte \<open>i\<close> on; \<open>addr\<close> lists the bytes to write. It
  returns the final value of \<open>i\<close>.\<close>

function filewrite_loop :: "kernel devsw \<Rightarrow> nat \<Rightarrow> byte list \<Rightarrow> int \<Rightarrow> int \<Rightarrow> kernel \<Rightarrow> (int \<times> kernel) res" where
  "filewrite_loop dv f addr i n s =
     (if i < n then
        let n1 = min (n - i) write_max; ip = f_ip (ftable s ! f)
        in res_bind (begin_trans s) (\<lambda>s.
           res_bind (ilock ip s) (\<lambda>s.
           res_bind (writei dv ip (slice (nat i) (nat n1) addr) (f_off (ftable s ! f)) s) (\<lambda>(r, s).
             let s = (if r > 0 then upd_file f (\<lambda>y. y\<lparr>f_off := (f_off y + nat r) mod 2 ^ 32\<rparr>) s else s)
             in res_bind (iunlock ip s) (\<lambda>s.
                res_bind (commit_trans s) (\<lambda>s.
                  if r < 0 then Inr (i, s)
                  else if r \<noteq> n1 then Inl (Panic ''short filewrite'')
                  else filewrite_loop dv f addr (i + r) n s)))))
      else Inr (i, s))"
  by pat_completeness auto
termination
  by (relation "measure (\<lambda>(dv, f, addr, i, n, s). nat (n - i))") (auto simp: write_max_def LOGSIZE_def BSIZE_def)

declare filewrite_loop.simps [simp del]

definition filewrite :: "kernel devsw \<Rightarrow> nat \<Rightarrow> nat \<Rightarrow> byte list \<Rightarrow> int \<Rightarrow> kernel \<Rightarrow> (pipe_ret \<times> kernel) res" where
  "filewrite dv me f addr n s =
     (let x = ftable s ! f
      in if \<not> f_writable x then Inr (Return (-1), s)
         else if f_type x = FD_PIPE then pipewrite me (f_pipe x) addr 0 n s
         else if f_type x = FD_INODE then
           res_bind (filewrite_loop dv f addr 0 n s) (\<lambda>(i, s). Inr (Return (if i = n then n else -1), s))
         else Inl (Panic ''filewrite''))"

text \<open>\<open>pipealloc\<close>: the return value and the two file pointers. When it fails, \<open>p\<close> is always 0, so that
  its \<open>kfree\<close> is never reached.\<close>

definition pipealloc :: "kernel \<Rightarrow> (int \<times> nat option \<times> nat option \<times> kernel) res" where
  "pipealloc s =
     (case filealloc s of
        (None, s) \<Rightarrow> Inr (-1, None, None, s)
      | (Some f0, s) \<Rightarrow>
          (case filealloc s of
             (None, s) \<Rightarrow> res_bind (fileclose f0 s) (\<lambda>s. Inr (-1, Some f0, None, s))
           | (Some f1, s) \<Rightarrow>
               (case kalloc (km s) of (p, k) \<Rightarrow>
                  let s = s\<lparr>km := k\<rparr>
                  in if p = 0 then
                       res_bind (fileclose f0 s) (\<lambda>s. res_bind (fileclose f1 s) (\<lambda>s. Inr (-1, Some f0, Some f1, s)))
                     else
                       let s = upd_pipe p (\<lambda>q. q\<lparr>pp_readopen := True, pp_writeopen := True, pp_nwrite := 0, pp_nread := 0\<rparr>) s;
                           s = upd_file f0 (\<lambda>x. x\<lparr>f_type := FD_PIPE, f_readable := True, f_writable := False, f_pipe := p\<rparr>) s;
                           s = upd_file f1 (\<lambda>x. x\<lparr>f_type := FD_PIPE, f_readable := False, f_writable := True, f_pipe := p\<rparr>) s
                       in Inr (0, Some f0, Some f1, s))))"

section \<open>Reference counts\<close>

text \<open>What holds of the table between operations: counts are not negative, and a free entry has no type.\<close>

definition ftable_ok :: "kernel \<Rightarrow> bool" where
  "ftable_ok s \<longleftrightarrow> (\<forall>x \<in> set (ftable s). 0 \<le> f_ref x \<and> (f_ref x = 0 \<longrightarrow> f_type x = FD_NONE))"

lemma upd_file_simps [simp]:
  "ftable (upd_file f g s) = (ftable s)[f := g (ftable s ! f)]" "km (upd_file f g s) = km s" "pipes (upd_file f g s) = pipes s"
  "ptable (upd_file f g s) = ptable s" "icache (upd_file f g s) = icache s" "nextpid (upd_file f g s) = nextpid s"
  "initproc (upd_file f g s) = initproc s"
  by (simp_all add: upd_file_def)

lemma upd_file_upd_file: "f < length (ftable s) \<Longrightarrow> upd_file f g (upd_file f h s) = upd_file f (\<lambda>x. g (h x)) s"
  by (simp add: upd_file_def)

lemma upd_file_id: "g (ftable s ! f) = ftable s ! f \<Longrightarrow> upd_file f g s = s"
  by (simp add: upd_file_def)

text \<open>A reference taken with \<open>filedup\<close> is given back by \<open>fileclose\<close> without a trace.\<close>

theorem filedup_fileclose:
  assumes "f < length (ftable s)" "1 \<le> f_ref (ftable s ! f)"
  shows "\<exists>s1. filedup f s = Inr s1 \<and> f_ref (ftable s1 ! f) = f_ref (ftable s ! f) + 1 \<and> fileclose f s1 = Inr s"
proof -
  define s1 where "s1 = upd_file f (\<lambda>x. x\<lparr>f_ref := f_ref x + 1\<rparr>) s"
  have "upd_file f (\<lambda>x. x\<lparr>f_ref := f_ref x - 1\<rparr>) s1 = s"
    unfolding s1_def using upd_file_upd_file [OF assms(1)] upd_file_id by simp
  then have "fileclose f s1 = Inr s" using assms by (simp add: fileclose_def Let_def s1_def)
  then show ?thesis using assms by (auto simp: filedup_def s1_def)
qed

theorem filedup_fileclose_witness:
  "\<exists>s1. filedup 0 (upd_file 0 (\<lambda>x. x\<lparr>f_ref := 2\<rparr>) demo_kernel) = Inr s1 \<and> f_ref (ftable s1 ! 0) = 3 \<and>
    fileclose 0 s1 = Inr (upd_file 0 (\<lambda>x. x\<lparr>f_ref := 2\<rparr>) demo_kernel)"
proof -
  have len: "0 < length (ftable demo_kernel)" by (simp add: demo_kernel_def NFILE_def)
  with filedup_fileclose [of 0 "upd_file 0 (\<lambda>x. x\<lparr>f_ref := 2\<rparr>) demo_kernel"] show ?thesis by auto
qed

section \<open>Creating a pipe\<close>

text \<open>\<open>filealloc\<close> followed by the \<open>fileclose\<close> of the failure path.\<close>

lemma filealloc_Some:
  assumes "filealloc s = (Some f, s')"
  shows "f < length (ftable s)" "f_ref (ftable s ! f) = 0" "s' = upd_file f (\<lambda>x. x\<lparr>f_ref := 1\<rparr>) s"
  using assms by (auto simp: filealloc_def find_index_Some split: option.splits)

lemma filealloc_None: "filealloc s = (None, s') \<longleftrightarrow> s' = s \<and> (\<forall>f < length (ftable s). f_ref (ftable s ! f) \<noteq> 0)"
proof (cases "find_index (\<lambda>f. f_ref f = 0) (ftable s)")
  case None
  then have "\<forall>f < length (ftable s). f_ref (ftable s ! f) \<noteq> 0" by (simp add: find_index_None all_set_conv_all_nth)
  with None show ?thesis by (simp add: filealloc_def) blast
next
  case (Some f)
  from find_index_SomeD(1,2) [OF Some] Some show ?thesis by (auto simp: filealloc_def)
qed

lemma fileclose_fresh:
  assumes "ftable_ok s" "f < length (ftable s)" "f_ref (ftable s ! f) = 0"
  shows "fileclose f (upd_file f (\<lambda>x. x\<lparr>f_ref := 1\<rparr>) s) = Inr s"
proof -
  have ty: "f_type (ftable s ! f) = FD_NONE" using assms by (auto simp: ftable_ok_def)
  have "upd_file f (\<lambda>x. x\<lparr>f_ref := 0, f_type := FD_NONE\<rparr>) (upd_file f (\<lambda>x. x\<lparr>f_ref := f_ref x - 1\<rparr>) (upd_file f (\<lambda>x. x\<lparr>f_ref := 1\<rparr>) s)) = s"
    using assms(2,3) ty by (simp add: upd_file_upd_file) (rule upd_file_id, simp)
  then show ?thesis using assms(2) ty by (simp add: fileclose_def Let_def)
qed

lemma upd_file_commute: "f \<noteq> g \<Longrightarrow> upd_file f u (upd_file g v s) = upd_file g v (upd_file f u s)"
  by (simp add: upd_file_def list_update_swap)

text \<open>C33: \<open>pipealloc\<close> is all or nothing. It succeeds exactly when a page and two file entries are free; then the
  two files are different, were free before, are the read end and the write end of the pipe in that
  page, and the pipe is open at both ends and empty. When it fails it returns -1 and every table is as
  before: no page and no file entry leaks.\<close>

theorem pipealloc_all_or_nothing:
  assumes ok: "ftable_ok s" and pool: "free_pool (km s) pages"
  defines "free \<equiv> {f. f < length (ftable s) \<and> f_ref (ftable s ! f) = 0}"
  shows "if pages \<noteq> [] \<and> 2 \<le> card free then
      \<exists>a b s'. pipealloc s = Inr (0, Some a, Some b, s') \<and> a \<noteq> b \<and> a \<in> free \<and> b \<in> free \<and>
        free_pool (km s') (tl pages) \<and> pipe_queue (pipes s' (hd pages)) = [] \<and>
        pp_readopen (pipes s' (hd pages)) \<and> pp_writeopen (pipes s' (hd pages)) \<and>
        ftable s' ! a = (ftable s ! a)\<lparr>f_ref := 1, f_type := FD_PIPE, f_readable := True, f_writable := False, f_pipe := hd pages\<rparr> \<and>
        ftable s' ! b = (ftable s ! b)\<lparr>f_ref := 1, f_type := FD_PIPE, f_readable := False, f_writable := True, f_pipe := hd pages\<rparr> \<and>
        (\<forall>f. f \<noteq> a \<and> f \<noteq> b \<longrightarrow> ftable s' ! f = ftable s ! f)
    else \<exists>f0 f1. pipealloc s = Inr (-1, f0, f1, s)"
proof -
  have fin: "finite free" by (simp add: free_def)
  show ?thesis
  proof (cases "filealloc s")
    case (Pair r0 s0)
    show ?thesis
    proof (cases r0)
      case None
      then have "free = {}" "s0 = s" using Pair by (auto simp: filealloc_None free_def)
      then show ?thesis using Pair None by (simp add: pipealloc_def)
    next
      case (Some a)
      note A = filealloc_Some [OF Pair [unfolded Some]]
      have af: "a \<in> free" using A by (simp add: free_def)
      have free0: "{f. f < length (ftable s0) \<and> f_ref (ftable s0 ! f) = 0} = free - {a}"
        using A by (auto simp: free_def nth_list_update)
      show ?thesis
      proof (cases "filealloc s0")
        case (Pair r1 s1)
        show ?thesis
        proof (cases r1)
          case None
          then have s1: "s1 = s0" "free - {a} = {}" using Pair free0 by (auto simp: filealloc_None)
          have "fileclose a s1 = Inr s" using fileclose_fresh [OF ok A(1,2)] A(3) s1(1) by simp
          moreover have "card free \<le> 1" using s1(2) card_mono [of "{a}" free] by auto
          ultimately show ?thesis using \<open>filealloc s = (r0, s0)\<close> Some Pair None by (simp add: pipealloc_def)
        next
          case (Some b)
          note B = filealloc_Some [OF Pair [unfolded Some]]
          have bf: "b \<in> free" "b \<noteq> a" using B(1,2) free0 by auto
          have c2: "2 \<le> card free" using af bf card_mono [of free "{a, b}"] fin by auto
          have k1: "km s1 = km s" using A(3) B(3) by simp
          have fa: "filealloc s = (Some a, s0)" using \<open>filealloc s = (r0, s0)\<close> \<open>r0 = Some a\<close> by simp
          have fb: "filealloc s0 = (Some b, s1)" using Pair Some by simp
          show ?thesis
          proof (cases pages)
            case Nil
            then have k: "kalloc (km s1) = (0, km s)" using pool kalloc_empty k1 by simp
            have id: "s1\<lparr>km := km s\<rparr> = s1" using k1 [symmetric] by simp
            have len: "b < length (ftable s)" "f_ref (ftable s ! b) = 0" using bf by (simp_all add: free_def)
            define t where "t = upd_file b (\<lambda>x. x\<lparr>f_ref := 1\<rparr>) s"
            have okt: "ftable_ok t"
              using ok by (auto simp: ftable_ok_def t_def dest: subsetD [OF set_update_subset_insert])
            have "s1 = upd_file a (\<lambda>x. x\<lparr>f_ref := 1\<rparr>) t" using A(3) B(3) bf(2) by (simp add: t_def upd_file_commute)
            then have "fileclose a s1 = Inr t" using fileclose_fresh [OF okt, of a] A(1,2) bf(2) by (simp add: t_def)
            moreover have "fileclose b t = Inr s" using fileclose_fresh [OF ok len] by (simp add: t_def)
            ultimately show ?thesis using Nil fa fb k id by (simp add: pipealloc_def)
          next
            case (Cons p ps)
            then obtain k' where k': "kalloc (km s1) = (p, k')" "free_pool k' ps" using kalloc_pool [of "km s1" p ps] pool k1 by auto
            have p0: "p \<noteq> 0" using ka.pool_pages [OF pool] Cons by auto
            show ?thesis
              using Cons c2 fa fb k' p0 A B bf af
              by (simp add: pipealloc_def Let_def pipe_queue_def free_def nth_list_update)
          qed
        qed
      qed
    qed
  qed
qed

theorem pipealloc_all_or_nothing_witness:
  "(\<exists>f0 f1. pipealloc demo_kernel = Inr (-1, f0, f1, demo_kernel)) \<and>
    (\<exists>k a b s'. pipealloc (demo_kernel\<lparr>km := k\<rparr>) = Inr (0, Some a, Some b, s') \<and> a \<noteq> b \<and> f_pipe (ftable s' ! a) = KERNBASE_N)"
proof
  have len: "length (ftable demo_kernel) = 100" by (simp add: demo_kernel_def NFILE_def)
  have free: "f_ref (ftable demo_kernel ! f) = 0" if "f < 100" for f using that by (simp add: demo_kernel_def demo_file_def NFILE_def)
  have ok: "ftable_ok (demo_kernel\<lparr>km := k\<rparr>)" "ftable_ok demo_kernel" for k
    by (simp_all add: ftable_ok_def demo_kernel_def demo_file_def)
  have km: "km demo_kernel = kmem0" by (simp add: demo_kernel_def)
  from pipealloc_all_or_nothing [OF ok(2), of "[]"] kmem0_pool km
  show "\<exists>f0 f1. pipealloc demo_kernel = Inr (-1, f0, f1, demo_kernel)" by simp
  obtain k where k: "free_pool k [KERNBASE_N]" using kfree_pool [OF kmem0_pool page_ok_first] by auto
  have "{f. f < 100 \<and> f_ref (ftable demo_kernel ! f) = 0} = {..<100}" using free by auto
  then have c: "2 \<le> card {f. f < length (ftable (demo_kernel\<lparr>km := k\<rparr>)) \<and> f_ref (ftable (demo_kernel\<lparr>km := k\<rparr>) ! f) = 0}"
    by (simp add: len)
  have "free_pool (km (demo_kernel\<lparr>km := k\<rparr>)) [KERNBASE_N]" using k by simp
  from pipealloc_all_or_nothing [OF ok(1) this] c obtain a b s' where
    "pipealloc (demo_kernel\<lparr>km := k\<rparr>) = Inr (0, Some a, Some b, s')" "a \<noteq> b" "f_pipe (ftable s' ! a) = KERNBASE_N"
    by auto
  then show "\<exists>k a b s'. pipealloc (demo_kernel\<lparr>km := k\<rparr>) = Inr (0, Some a, Some b, s') \<and> a \<noteq> b \<and> f_pipe (ftable s' ! a) = KERNBASE_N"
    by blast
qed

end
