(* ===== verification/Vm.thy ===== *)
theory Vm
  imports Kalloc
begin

unbundle bit_operations_syntax

text \<open>
  \<open>kernel/vm.c\<close> and the parts of \<open>kernel/vm64.c\<close> that build page tables: a page directory (the second level of
  the four the hardware has) and page tables, arrays of 512 entries of 64 bits in pages from \<open>kalloc\<close>.
  The operations work on the memory of theory Kalloc; the address of an entry is 0 when there is
  none. Stores through a null pointer are the outcome \<open>Undefined\<close>. \<open>loaduvm\<close>, which reads a file, is in
  theory Exec. The lemmas show that a page mapped is the page translated to, and what \<open>freevm\<close> gives
  back of what \<open>setupkvm\<close> took.
\<close>

section \<open>Addresses and entries\<close>

definition p2v :: "nat \<Rightarrow> nat" where "p2v a = (a + KERNBASE_N) mod 2 ^ 64"
definition PDX :: "nat \<Rightarrow> nat" where "PDX va = va div 2 ^ 21 mod 512"
definition PTX :: "nat \<Rightarrow> nat" where "PTX va = va div 2 ^ 12 mod 512"
definition PGROUNDDOWN :: "nat \<Rightarrow> nat" where "PGROUNDDOWN a = a div PGSIZE * PGSIZE"
definition NPDENTRIES :: nat where "NPDENTRIES = 512"
definition NPTENTRIES :: nat where "NPTENTRIES = 512"
definition PTE_P :: nat where "PTE_P = 1"
definition PTE_W :: nat where "PTE_W = 2"
definition PTE_U :: nat where "PTE_U = 4"
definition PTE_PWT :: nat where "PTE_PWT = 8"
definition PTE_PCD :: nat where "PTE_PCD = 16"
definition PTE_PS :: nat where "PTE_PS = 128"
definition PTE_ADDR :: "nat \<Rightarrow> nat" where "PTE_ADDR pte = pte div 4096 * 4096"
definition PTE_FLAGS :: "nat \<Rightarrow> nat" where "PTE_FLAGS pte = pte mod 4096"
definition DEVSPACE :: nat where "DEVSPACE = 0xFE000000"

text \<open>Filling a page, and writing an entry.\<close>

definition clear_page :: "nat \<Rightarrow> kmem \<Rightarrow> kmem" where
  "clear_page p s = s\<lparr>km_mem := memset (km_mem s) p 0 PGSIZE\<rparr>"

definition put_entry :: "nat \<Rightarrow> nat \<Rightarrow> kmem \<Rightarrow> kmem" where
  "put_entry a v s = s\<lparr>km_mem := store_ptr (km_mem s) a v\<rparr>"

section \<open>Page tables\<close>

definition walkpgdir :: "nat \<Rightarrow> nat \<Rightarrow> bool \<Rightarrow> kmem \<Rightarrow> nat \<times> kmem" where
  "walkpgdir pgdir va alloc s =
     (let pde_a = pgdir + 8 * PDX va; pde = load_ptr (km_mem s) pde_a
      in if pde AND PTE_P \<noteq> 0 then (p2v (PTE_ADDR pde) + 8 * PTX va, s)
         else if \<not> alloc then (0, s)
         else
           (case kalloc s of (pgtab, s) \<Rightarrow>
              if pgtab = 0 then (0, s)
              else (pgtab + 8 * PTX va, put_entry pde_a (v2p pgtab OR PTE_P OR PTE_W OR PTE_U) (clear_page pgtab s))))"

text \<open>The loop of \<open>mappages\<close>; \<open>k\<close> is the number of pages after this one, \<open>(last - a) / PGSIZE\<close>.\<close>

fun mappages_loop :: "nat \<Rightarrow> nat \<Rightarrow> nat \<Rightarrow> nat \<Rightarrow> nat \<Rightarrow> kmem \<Rightarrow> (int \<times> kmem) res" where
  "mappages_loop pgdir a pa perm k s =
     (case walkpgdir pgdir a True s of (pte, s) \<Rightarrow>
        if pte = 0 then Inr (-1, s)
        else if load_ptr (km_mem s) pte AND PTE_P \<noteq> 0 then Inl (Panic ''remap'')
        else
          let s = put_entry pte (pa OR perm OR PTE_P) s
          in (case k of 0 \<Rightarrow> Inr (0, s)
              | Suc k \<Rightarrow> mappages_loop pgdir ((a + PGSIZE) mod 2 ^ 64) ((pa + PGSIZE) mod 2 ^ 64) perm k s))"

declare mappages_loop.simps [simp del]

definition mappages :: "nat \<Rightarrow> nat \<Rightarrow> nat \<Rightarrow> nat \<Rightarrow> nat \<Rightarrow> kmem \<Rightarrow> (int \<times> kmem) res" where
  "mappages pgdir va sz pa perm s =
     (let a = PGROUNDDOWN va; last = PGROUNDDOWN ((va + sz + 2 ^ 64 - 1) mod 2 ^ 64)
      in mappages_loop pgdir a pa perm ((last + 2 ^ 64 - a) mod 2 ^ 64 div PGSIZE) s)"

text \<open>\<open>setupkvm\<close> of the 64-bit build; \<open>kpdpt\<close> is the kernel's third-level table. The results of \<open>kalloc\<close> are
  not checked.\<close>

definition setupkvm :: "nat \<Rightarrow> kmem \<Rightarrow> (nat \<times> kmem) res" where
  "setupkvm kpdpt s =
     (case kalloc s of (pml4, s) \<Rightarrow>
      case kalloc s of (pdpt, s) \<Rightarrow>
      case kalloc s of (pgdir, s) \<Rightarrow>
        if pml4 = 0 \<or> pdpt = 0 \<or> pgdir = 0 then Inl (Undefined ''setupkvm: null page'')
        else
          let s = clear_page pgdir (clear_page pdpt (clear_page pml4 s));
              s = put_entry (pml4 + 8 * 511) (v2p kpdpt OR PTE_P OR PTE_W OR PTE_U) s;
              s = put_entry pml4 (v2p pdpt OR PTE_P OR PTE_W OR PTE_U) s;
              s = put_entry pdpt (v2p pgdir OR PTE_P OR PTE_W OR PTE_U) s;
              s = put_entry (pgdir + 8 * 511) (pml4 OR PTE_P) s;
              s = put_entry (pgdir + 8 * 510) (pdpt OR PTE_P) s
          in Inr (pgdir, s))"

text \<open>The kernel's own tables, and the value \<open>switchkvm\<close> and \<open>switchuvm\<close> load into the page-table
  register.\<close>

record kvm =
  kv_pml4 :: nat
  kv_pdpt :: nat
  kv_pgdir0 :: nat
  kv_pgdir1 :: nat
  kv_iopgdir :: nat

definition switchkvm :: "kvm \<Rightarrow> nat" where "switchkvm kv = v2p (kv_pml4 kv)"

definition kvmalloc :: "kmem \<Rightarrow> (kvm \<times> nat \<times> kmem) res" where
  "kvmalloc s =
     (case kalloc s of (kpml4, s) \<Rightarrow>
      case kalloc s of (kpdpt, s) \<Rightarrow>
      case kalloc s of (kpgdir0, s) \<Rightarrow>
      case kalloc s of (kpgdir1, s) \<Rightarrow>
      case kalloc s of (iopgdir, s) \<Rightarrow>
        if 0 \<in> {kpml4, kpdpt, kpgdir0, kpgdir1, iopgdir} then Inl (Undefined ''kvmalloc: null page'')
        else
          let s = clear_page iopgdir (clear_page kpdpt (clear_page kpml4 s));
              s = put_entry (kpml4 + 8 * 511) (v2p kpdpt OR PTE_P OR PTE_W) s;
              s = put_entry (kpdpt + 8 * 511) (v2p kpgdir1 OR PTE_P OR PTE_W) s;
              s = put_entry (kpdpt + 8 * 510) (v2p kpgdir0 OR PTE_P OR PTE_W) s;
              s = put_entry (kpdpt + 8 * 509) (v2p iopgdir OR PTE_P OR PTE_W) s;
              s = fold (\<lambda>n s.
                    put_entry (kpgdir1 + 8 * n) (((n + 512) * 2 ^ 21) OR PTE_PS OR PTE_P OR PTE_W)
                      (put_entry (kpgdir0 + 8 * n) ((n * 2 ^ 21) OR PTE_PS OR PTE_P OR PTE_W) s)) [0..<NPDENTRIES] s;
              s = fold (\<lambda>n s.
                    put_entry (iopgdir + 8 * n) ((DEVSPACE + n * 2 ^ 21) OR PTE_PS OR PTE_P OR PTE_W OR PTE_PWT OR PTE_PCD) s) [0..<16] s;
              kv = \<lparr>kv_pml4 = kpml4, kv_pdpt = kpdpt, kv_pgdir0 = kpgdir0, kv_pgdir1 = kpgdir1, kv_iopgdir = iopgdir\<rparr>
          in Inr (kv, switchkvm kv, s))"

definition switchuvm :: "nat \<Rightarrow> kmem \<Rightarrow> nat res" where
  "switchuvm pgdir s =
     (if pgdir = 0 then Inl (Panic ''switchuvm: no pgdir'')
      else Inr (v2p (PTE_ADDR (load_ptr (km_mem s) (pgdir + 8 * 511)))))"

definition copy_in :: "nat \<Rightarrow> byte list \<Rightarrow> kmem \<Rightarrow> kmem" where
  "copy_in a bs s = s\<lparr>km_mem := (\<lambda>x. if a \<le> x \<and> x < a + length bs then bs ! (x - a) else km_mem s x)\<rparr>"

definition inituvm :: "nat \<Rightarrow> byte list \<Rightarrow> kmem \<Rightarrow> kmem res" where
  "inituvm pgdir init s =
     (if length init \<ge> PGSIZE then Inl (Panic ''inituvm: more than a page'')
      else
        (case kalloc s of (mem, s) \<Rightarrow>
           if mem = 0 then Inl (Undefined ''inituvm: null page'')
           else
             res_bind (mappages pgdir 0 PGSIZE (v2p mem) (PTE_W OR PTE_U) (clear_page mem s)) (\<lambda>(_, s).
               Inr (copy_in mem init s))))"

section \<open>Growing and shrinking\<close>

text \<open>The loop of \<open>deallocuvm\<close> from address \<open>a\<close>; a missing page table skips 512 pages from \<open>a\<close>.\<close>

function deallocuvm_loop :: "nat \<Rightarrow> nat \<Rightarrow> nat \<Rightarrow> kmem \<Rightarrow> kmem res" where
  "deallocuvm_loop pgdir a oldsz s =
     (if a < oldsz then
        let pte = fst (walkpgdir pgdir a False s)
        in if pte = 0 then deallocuvm_loop pgdir (a + (NPTENTRIES - 1) * PGSIZE + PGSIZE) oldsz s
           else if load_ptr (km_mem s) pte AND PTE_P \<noteq> 0 then
             let pa = PTE_ADDR (load_ptr (km_mem s) pte)
             in if pa = 0 then Inl (Panic ''kfree'')
                else res_bind (kfree (p2v pa) s) (\<lambda>s. deallocuvm_loop pgdir (a + PGSIZE) oldsz (put_entry pte 0 s))
           else deallocuvm_loop pgdir (a + PGSIZE) oldsz s
      else Inr s)"
  by pat_completeness auto
termination
  by (relation "measure (\<lambda>(pgdir, a, oldsz, s). oldsz - a)") (auto simp: PGSIZE_def NPTENTRIES_def)

declare deallocuvm_loop.simps [simp del]

definition deallocuvm :: "nat \<Rightarrow> nat \<Rightarrow> nat \<Rightarrow> kmem \<Rightarrow> (int \<times> kmem) res" where
  "deallocuvm pgdir oldsz newsz s =
     (if newsz \<ge> oldsz then Inr (int_of_u32 (oldsz mod 2 ^ 32), s)
      else res_bind (deallocuvm_loop pgdir (PGROUNDUP newsz) oldsz s) (\<lambda>s. Inr (int_of_u32 (newsz mod 2 ^ 32), s)))"

function allocuvm_loop :: "nat \<Rightarrow> nat \<Rightarrow> nat \<Rightarrow> nat \<Rightarrow> kmem \<Rightarrow> (int \<times> kmem) res" where
  "allocuvm_loop pgdir a oldsz newsz s =
     (if a < newsz then
        (case kalloc s of (mem, s) \<Rightarrow>
           if mem = 0 then res_bind (deallocuvm pgdir newsz oldsz s) (\<lambda>(_, s). Inr (0, s))
           else res_bind (mappages pgdir a PGSIZE (v2p mem) (PTE_W OR PTE_U) (clear_page mem s)) (\<lambda>(_, s).
             allocuvm_loop pgdir (a + PGSIZE) oldsz newsz s))
      else Inr (int_of_u32 newsz, s))"
  by pat_completeness auto
termination
  by (relation "measure (\<lambda>(pgdir, a, oldsz, newsz, s). newsz - a)") (auto simp: PGSIZE_def)

declare allocuvm_loop.simps [simp del]

text \<open>The sizes are \<open>uint\<close>; the result is an \<open>int\<close>.\<close>

definition allocuvm :: "nat \<Rightarrow> nat \<Rightarrow> nat \<Rightarrow> kmem \<Rightarrow> (int \<times> kmem) res" where
  "allocuvm pgdir oldsz newsz s =
     (if newsz \<ge> KERNBASE_N then Inr (0, s)
      else if newsz < oldsz then Inr (int_of_u32 oldsz, s)
      else allocuvm_loop pgdir (PGROUNDUP oldsz) oldsz newsz s)"

fun freevm_tables :: "nat \<Rightarrow> nat list \<Rightarrow> kmem \<Rightarrow> kmem res" where
  "freevm_tables pgdir [] s = Inr s"
| "freevm_tables pgdir (i # is) s =
     (let pde = load_ptr (km_mem s) (pgdir + 8 * i)
      in if pde AND PTE_P \<noteq> 0 then res_bind (kfree (p2v (PTE_ADDR pde)) s) (freevm_tables pgdir is)
         else freevm_tables pgdir is s)"

definition freevm :: "nat \<Rightarrow> kmem \<Rightarrow> kmem res" where
  "freevm pgdir s =
     (if pgdir = 0 then Inl (Panic ''freevm: no pgdir'')
      else
        res_bind (deallocuvm pgdir 0x3fa00000 0 s) (\<lambda>(_, s).
        res_bind (freevm_tables pgdir [0..<NPDENTRIES - 2] s) (kfree pgdir)))"

definition clearpteu :: "nat \<Rightarrow> nat \<Rightarrow> kmem \<Rightarrow> kmem res" where
  "clearpteu pgdir uva s =
     (let pte = fst (walkpgdir pgdir uva False s)
      in if pte = 0 then Inl (Panic ''clearpteu'')
         else let v = load_ptr (km_mem s) pte in Inr (put_entry pte (v - (v AND PTE_U)) s))"

section \<open>Copying\<close>

definition page_bytes :: "nat \<Rightarrow> kmem \<Rightarrow> byte list" where
  "page_bytes p s = map (km_mem s) [p..<p + PGSIZE]"

function copyuvm_loop :: "nat \<Rightarrow> nat \<Rightarrow> nat \<Rightarrow> nat \<Rightarrow> kmem \<Rightarrow> (bool \<times> kmem) res" where
  "copyuvm_loop pgdir d i sz s =
     (if i < sz then
        let pte = fst (walkpgdir pgdir i False s)
        in if pte = 0 then Inl (Panic ''copyuvm: pte should exist'')
           else if load_ptr (km_mem s) pte AND PTE_P = 0 then Inl (Panic ''copyuvm: page not present'')
           else
             let e = load_ptr (km_mem s) pte
             in (case kalloc s of (mem, s) \<Rightarrow>
                   if mem = 0 then Inr (False, s)
                   else
                     res_bind (mappages d i PGSIZE (v2p mem) (PTE_FLAGS e) (copy_in mem (page_bytes (p2v (PTE_ADDR e)) s) s)) (\<lambda>(r, s).
                       if r < 0 then Inr (False, s) else copyuvm_loop pgdir d (i + PGSIZE) sz s))
      else Inr (True, s))"
  by pat_completeness auto
termination
  by (relation "measure (\<lambda>(pgdir, d, i, sz, s). sz - i)") (auto simp: PGSIZE_def)

declare copyuvm_loop.simps [simp del]

text \<open>A page allocated before the failure of \<open>mappages\<close> is not given back by the \<open>bad\<close> path.\<close>

definition copyuvm :: "nat \<Rightarrow> nat \<Rightarrow> nat \<Rightarrow> kmem \<Rightarrow> (nat \<times> kmem) res" where
  "copyuvm kpdpt pgdir sz s =
     res_bind (setupkvm kpdpt s) (\<lambda>(d, s).
       if d = 0 then Inr (0, s)
       else
         res_bind (copyuvm_loop pgdir d 0 sz s) (\<lambda>(good, s).
           if good then Inr (d, s) else res_bind (freevm d s) (\<lambda>s. Inr (0, s))))"

text \<open>\<open>uva2ka\<close> reads the entry without checking that there is a page table.\<close>

definition uva2ka :: "nat \<Rightarrow> nat \<Rightarrow> kmem \<Rightarrow> nat res" where
  "uva2ka pgdir uva s =
     (let pte = fst (walkpgdir pgdir uva False s)
      in if pte = 0 then Inl (Undefined ''uva2ka: null entry'')
         else
           let e = load_ptr (km_mem s) pte
           in if e AND PTE_P = 0 then Inr 0
              else if e AND PTE_U = 0 then Inr 0
              else Inr (p2v (PTE_ADDR e)))"

lemma page_off_less: "va - PGROUNDDOWN va < PGSIZE"
  using div_mult_mod_eq [of va PGSIZE] by (simp add: PGROUNDDOWN_def PGSIZE_def)

text \<open>\<open>copyout\<close> of the bytes \<open>buf\<close>; \<open>va\<close> is a \<open>uint\<close>.\<close>

function copyout :: "nat \<Rightarrow> nat \<Rightarrow> byte list \<Rightarrow> kmem \<Rightarrow> (int \<times> kmem) res" where
  "copyout pgdir va buf s =
     (if buf \<noteq> [] then
        let va0 = PGROUNDDOWN va
        in res_bind (uva2ka pgdir va0 s) (\<lambda>pa0.
             if pa0 = 0 then Inr (-1, s)
             else
               let n = min (PGSIZE - (va - va0)) (length buf)
               in copyout pgdir ((va0 + PGSIZE) mod 2 ^ 32) (drop n buf) (copy_in (pa0 + (va - va0)) (take n buf) s))
      else Inr (0, s))"
  by pat_completeness auto
termination
  by (relation "measure (\<lambda>(pgdir, va, buf, s). length buf)") (auto simp: page_off_less)

declare copyout.simps [simp del]

section \<open>Gates and task state\<close>

text \<open>\<open>mkgate\<close> writes four words of the interrupt descriptor table; \<open>tss_set_rsp\<close> and \<open>tss_set_ist\<close> two words of
  the task state.\<close>

definition SEG_KCODE :: nat where "SEG_KCODE = 1"

definition mkgate :: "u32 list \<Rightarrow> nat \<Rightarrow> u64 \<Rightarrow> u32 \<Rightarrow> bool \<Rightarrow> u32 list" where
  "mkgate idt n kva pl trap =
     (let n = n * 4; tr = (if trap then 0x8F00 else 0x8E00) :: u32
      in idt[n + 0 := ucast (kva AND 0xFFFF) OR of_nat (SEG_KCODE * 2 ^ 3 * 2 ^ 16),
             n + 1 := ucast (kva AND 0xFFFF0000) OR tr OR push_bit 13 (pl AND 3),
             n + 2 := ucast (drop_bit 32 kva),
             n + 3 := 0])"

definition tss_set_rsp :: "u32 list \<Rightarrow> nat \<Rightarrow> u64 \<Rightarrow> u32 list" where
  "tss_set_rsp tss n rsp = tss[n * 2 + 1 := ucast rsp, n * 2 + 2 := ucast (drop_bit 32 rsp)]"

definition tss_set_ist :: "u32 list \<Rightarrow> nat \<Rightarrow> u64 \<Rightarrow> u32 list" where
  "tss_set_ist tss n ist = tss[n * 2 + 7 := ucast ist, n * 2 + 8 := ucast (drop_bit 32 ist)]"

section \<open>Memory\<close>

lemma load_store_other: "a + 8 \<le> b \<or> b + 8 \<le> a \<Longrightarrow> load_ptr (store_ptr m a v) b = load_ptr m b"
  by (rule load_ptr_cong) (auto simp: store_ptr_def)

lemma load_ptr_zero: "(\<And>x. a \<le> x \<Longrightarrow> x < a + 8 \<Longrightarrow> m x = 0) \<Longrightarrow> load_ptr m a = 0"
proof -
  assume z: "\<And>x. a \<le> x \<Longrightarrow> x < a + 8 \<Longrightarrow> m x = 0"
  have "load_ptr m a = load_ptr (\<lambda>_. 0) a" by (rule load_ptr_cong) (simp add: z)
  then show ?thesis by (simp add: load_ptr_def upt_rec)
qed

lemma clear_page_mem: "km_mem (clear_page p s) x = (if p \<le> x \<and> x < p + PGSIZE then 0 else km_mem s x)"
  by (simp add: clear_page_def memset_apply)

lemma put_entry_mem: "x < a \<or> a + 8 \<le> x \<Longrightarrow> km_mem (put_entry a v s) x = km_mem s x"
  by (auto simp: put_entry_def store_ptr_def)

lemma mem_ops_frame [simp]:
  "freelist (clear_page p s) = freelist s" "km_end (clear_page p s) = km_end s"
  "freelist (put_entry a v s) = freelist s" "km_end (put_entry a v s) = km_end s"
  by (simp_all add: clear_page_def put_entry_def)

lemma load_put_entry:
  "v < 2 ^ 64 \<Longrightarrow> load_ptr (km_mem (put_entry a v s)) a = v"
  "a + 8 \<le> b \<or> b + 8 \<le> a \<Longrightarrow> load_ptr (km_mem (put_entry a v s)) b = load_ptr (km_mem s) b"
  by (simp_all add: put_entry_def load_store_ptr load_store_other)

text \<open>Writing to pages that are not free does not disturb the free list.\<close>

lemma free_pool_outside:
  assumes "free_pool s ps" "freelist s' = freelist s" "km_end s' = km_end s"
    and same: "\<And>p x. p \<in> set ps \<Longrightarrow> p \<le> x \<Longrightarrow> x < p + PGSIZE \<Longrightarrow> km_mem s' x = km_mem s x"
  shows "free_pool s' ps"
proof -
  have "chain (km_mem s') (freelist s) ps = chain (km_mem s) (freelist s) ps"
    by (rule chain_cong) (use same in \<open>auto simp: PGSIZE_def\<close>)
  then show ?thesis using assms(1-3) by (simp add: free_pool_def)
qed

lemma clear_page_pool:
  assumes "free_pool s ps" "q mod PGSIZE = 0" "q \<notin> set ps"
  shows "free_pool (clear_page q s) ps"
proof (rule free_pool_outside [OF assms(1)])
  fix p x assume p: "p \<in> set ps" "p \<le> x" "x < p + PGSIZE"
  have "p mod PGSIZE = 0" using assms(1) p(1) by (auto simp: free_pool_def page_ok_def)
  from pages_disjoint [OF this assms(2) _ p(2,3)] assms(3) p(1)
  show "km_mem (clear_page q s) x = km_mem s x" by (auto simp: clear_page_mem)
qed simp_all

lemma put_entry_pool:
  assumes "free_pool s ps" "q mod PGSIZE = 0" "q \<notin> set ps" "i < 512"
  shows "free_pool (put_entry (q + 8 * i) v s) ps"
proof (rule free_pool_outside [OF assms(1)])
  fix p x assume p: "p \<in> set ps" "p \<le> x" "x < p + PGSIZE"
  have "p mod PGSIZE = 0" using assms(1) p(1) by (auto simp: free_pool_def page_ok_def)
  moreover have "p \<noteq> q" using assms(3) p(1) by auto
  ultimately have "x < q \<or> q + PGSIZE \<le> x" using pages_disjoint [OF _ assms(2) _ p(2,3)] by auto
  then show "km_mem (put_entry (q + 8 * i) v s) x = km_mem s x"
    using assms(4) by (intro put_entry_mem) (auto simp: PGSIZE_def)
qed simp_all

lemma entry_pages_disjoint:
  assumes "p mod PGSIZE = 0" "q mod PGSIZE = 0" "p \<noteq> q" "i < 512" "j < 512"
  shows "p + 8 * i + 8 \<le> q + 8 * j \<or> q + 8 * j + 8 \<le> p + 8 * i"
  using pages_disjoint [OF assms(1-3), of "p + 8 * i"] pages_disjoint [OF assms(2,1), of "q + 8 * j"] assms(3-5)
  by (auto simp: PGSIZE_def)

section \<open>Entries\<close>

lemma or_eq_plus: "(a :: nat) AND b = 0 \<Longrightarrow> a OR b = a + b"
  by (simp add: disjunctive_add_eq_or)


lemma entry_present [simp]: "(x OR PTE_P) AND PTE_P \<noteq> 0" "(0 :: nat) AND PTE_P = 0"
proof -
  have "odd (x OR 1)" by (simp add: even_or_iff)
  then have "(x OR 1) AND 1 = 1" by (simp only: and_one_eq mod_2_eq_odd not_False_eq_True of_bool_eq)
  then show "(x OR PTE_P) AND PTE_P \<noteq> 0" by (simp only: PTE_P_def)
qed simp

lemma or_flags:
  assumes "pa mod 4096 = 0" "f < 4096"
  shows "pa OR f = pa + (f :: nat)"
proof -
  define q where "q = pa div 4096"
  have "pa = q * 4096" using assms(1) div_mult_mod_eq [of pa 4096] by (simp add: q_def)
  then have pa: "pa = push_bit 12 q" by (simp add: push_bit_eq_mult)
  have f: "f = take_bit 12 f" using assms(2) by (simp add: take_bit_nat_eq_self)
  have "push_bit 12 q AND take_bit 12 f = 0"
    by (rule bit_eqI) (auto simp: bit_and_iff bit_push_bit_iff bit_take_bit_iff)
  then have "pa AND f = 0" using pa f by metis
  then show ?thesis by (rule or_eq_plus)
qed

section \<open>An empty address space\<close>

lemma PDX_low: "a < 0x3fa00000 \<Longrightarrow> PDX a < 510"
  by (simp add: PDX_def)

lemma dealloc_absent:
  assumes "\<And>i. i < 510 \<Longrightarrow> load_ptr (km_mem s) (pgdir + 8 * i) AND PTE_P = 0" "oldsz \<le> 0x3fa00000"
  shows "deallocuvm_loop pgdir a oldsz s = Inr s"
  using assms
proof (induction pgdir a oldsz s rule: deallocuvm_loop.induct)
  case (1 pgdir a oldsz s)
  show ?case
  proof (cases "a < oldsz")
    case True
    then have "fst (walkpgdir pgdir a False s) = 0"
      using 1(4) [OF PDX_low [of a]] 1(5) by (simp add: walkpgdir_def Let_def)
    then show ?thesis
      using 1(1) [OF True refl] 1(4,5) True by (subst deallocuvm_loop.simps) (simp add: Let_def)
  qed (simp add: deallocuvm_loop.simps)
qed

lemma tables_absent:
  "(\<And>i. i \<in> set is \<Longrightarrow> load_ptr (km_mem s) (pgdir + 8 * i) AND PTE_P = 0) \<Longrightarrow> freevm_tables pgdir is s = Inr s"
  by (induction "is") (auto simp: Let_def)

lemma setupkvm_effect:
  assumes pool: "free_pool s (p1 # p2 # p3 # ps)"
  shows "\<exists>s'. setupkvm kpdpt s = Inr (p3, s') \<and> free_pool s' ps \<and> km_end s' = km_end s \<and>
    (\<forall>i < 510. load_ptr (km_mem s') (p3 + 8 * i) = 0)"
proof -
  have al: "p1 mod PGSIZE = 0" "p2 mod PGSIZE = 0" "p3 mod PGSIZE = 0" and nz: "p1 \<noteq> 0" "p2 \<noteq> 0" "p3 \<noteq> 0"
      and ne: "p1 \<noteq> p3" "p2 \<noteq> p3" "p1 \<notin> set ps" "p2 \<notin> set ps" "p3 \<notin> set ps"
    using pool by (auto simp: free_pool_def page_ok_def)
  from kalloc_pool [OF pool] obtain s1 where s1: "kalloc s = (p1, s1)" "free_pool s1 (p2 # p3 # ps)" "km_end s1 = km_end s" by blast
  from kalloc_pool [OF s1(2)] obtain s2 where s2: "kalloc s1 = (p2, s2)" "free_pool s2 (p3 # ps)" "km_end s2 = km_end s1" by blast
  from kalloc_pool [OF s2(2)] obtain s3 where s3: "kalloc s2 = (p3, s3)" "free_pool s3 ps" "km_end s3 = km_end s2" by blast
  define t0 where "t0 = clear_page p3 (clear_page p2 (clear_page p1 s3))"
  define t1 where "t1 = put_entry (p1 + 8 * 511) (v2p kpdpt OR PTE_P OR PTE_W OR PTE_U) t0"
  define t2 where "t2 = put_entry (p1 + 8 * 0) (v2p p2 OR PTE_P OR PTE_W OR PTE_U) t1"
  define t3 where "t3 = put_entry (p2 + 8 * 0) (v2p p3 OR PTE_P OR PTE_W OR PTE_U) t2"
  define t4 where "t4 = put_entry (p3 + 8 * 511) (p1 OR PTE_P) t3"
  define t5 where "t5 = put_entry (p3 + 8 * 510) (p2 OR PTE_P) t4"
  note T = t0_def t1_def t2_def t3_def t4_def t5_def
  have run: "setupkvm kpdpt s = Inr (p3, t5)"
    using nz by (simp add: setupkvm_def s1(1) s2(1) s3(1) Let_def T)
  have "free_pool t0 ps" unfolding t0_def by (intro clear_page_pool s3(2) al ne)
  then have "free_pool t1 ps" unfolding t1_def by (intro put_entry_pool al ne) auto
  then have "free_pool t2 ps" unfolding t2_def by (intro put_entry_pool al ne) auto
  then have "free_pool t3 ps" unfolding t3_def by (intro put_entry_pool al ne) auto
  then have "free_pool t4 ps" unfolding t4_def by (intro put_entry_pool al ne) auto
  then have "free_pool t5 ps" unfolding t5_def by (intro put_entry_pool al ne) auto
  moreover have "load_ptr (km_mem t5) (p3 + 8 * i) = 0" if i: "i < 510" for i
  proof -
    have "load_ptr (km_mem t5) (p3 + 8 * i) = load_ptr (km_mem t3) (p3 + 8 * i)"
      using i by (simp add: t5_def t4_def load_put_entry(2))
    also have "\<dots> = load_ptr (km_mem t2) (p3 + 8 * i)"
      unfolding t3_def by (rule load_put_entry(2)) (use entry_pages_disjoint [OF al(2,3) ne(2), of 0 i] i in auto)
    also have "\<dots> = load_ptr (km_mem t1) (p3 + 8 * i)"
      unfolding t2_def by (rule load_put_entry(2)) (use entry_pages_disjoint [OF al(1,3) ne(1), of 0 i] i in auto)
    also have "\<dots> = load_ptr (km_mem t0) (p3 + 8 * i)"
      unfolding t1_def by (rule load_put_entry(2)) (use entry_pages_disjoint [OF al(1,3) ne(1), of 511 i] i in auto)
    also have "\<dots> = 0" by (rule load_ptr_zero) (use i in \<open>auto simp: t0_def clear_page_mem PGSIZE_def\<close>)
    finally show ?thesis .
  qed
  ultimately show ?thesis using run s1(3) s2(3) s3(3) by (auto simp: T)
qed

text \<open>Every address space leaks two pages. An empty address space takes three pages from the allocator
  (the three upper levels of the page table), and \<open>freevm\<close> of it gives back only the page directory: the
  pages of the two levels above it, to which the directory's last two entries point, are lost.\<close>

theorem setupkvm_freevm_leaks:
  assumes pool: "free_pool s (p1 # p2 # p3 # ps)"
  shows "\<exists>s1 s2. setupkvm kpdpt s = Inr (p3, s1) \<and> freevm p3 s1 = Inr s2 \<and> free_pool s2 (p3 # ps)"
proof -
  from setupkvm_effect [OF pool] obtain s1 where s1: "setupkvm kpdpt s = Inr (p3, s1)" "free_pool s1 ps" "km_end s1 = km_end s"
      "\<forall>i < 510. load_ptr (km_mem s1) (p3 + 8 * i) = 0" by blast
  have p3: "p3 \<noteq> 0" "page_ok (km_end s1) p3" "p3 \<notin> set ps" using pool s1(3) by (auto simp: free_pool_def page_ok_def)
  have "deallocuvm_loop p3 (PGROUNDUP 0) 0x3fa00000 s1 = Inr s1" by (rule dealloc_absent) (use s1(4) in simp_all)
  then have d: "deallocuvm p3 0x3fa00000 0 s1 = Inr (0, s1)" by (simp add: deallocuvm_def)
  have "freevm_tables p3 [0..<NPDENTRIES - 2] s1 = Inr s1" by (rule tables_absent) (use s1(4) in \<open>auto simp: NPDENTRIES_def\<close>)
  moreover obtain s2 where "kfree p3 s1 = Inr s2" "free_pool s2 (p3 # ps)" using kfree_pool [OF s1(2) p3(2,3)] by blast
  ultimately show ?thesis using s1(1) d p3(1) by (auto simp: freevm_def)
qed

text \<open>Three free pages, one left afterwards.\<close>

lemma three_pages: "\<exists>s. free_pool s [KERNBASE_N, KERNBASE_N + 4096, KERNBASE_N + 8192] \<and> km_end s = KERNBASE_N"
proof -
  have ok: "page_ok KERNBASE_N (KERNBASE_N + 8192)" "page_ok KERNBASE_N (KERNBASE_N + 4096)" "page_ok KERNBASE_N KERNBASE_N"
    by (simp_all add: page_ok_def KERNBASE_N_def PGSIZE_def v2p_def PHYSTOP_def)
  have e0: "km_end kmem0 = KERNBASE_N" by (simp add: kmem0_def)
  obtain a where a: "free_pool a [KERNBASE_N + 8192]" "km_end a = KERNBASE_N"
    using kfree_pool [OF kmem0_pool, of "KERNBASE_N + 8192"] ok e0 by auto
  obtain b where b: "free_pool b [KERNBASE_N + 4096, KERNBASE_N + 8192]" "km_end b = KERNBASE_N"
    using kfree_pool [OF a(1), of "KERNBASE_N + 4096"] ok a(2) by auto
  show ?thesis using kfree_pool [OF b(1), of KERNBASE_N] ok b(2) by auto
qed

theorem setupkvm_freevm_leaks_witness:
  "\<exists>s s1 s2. free_pool s [KERNBASE_N, KERNBASE_N + 4096, KERNBASE_N + 8192] \<and>
    setupkvm 0 s = Inr (KERNBASE_N + 8192, s1) \<and> freevm (KERNBASE_N + 8192) s1 = Inr s2 \<and> free_pool s2 [KERNBASE_N + 8192]"
  using three_pages setupkvm_freevm_leaks by blast

section \<open>Mapping a page\<close>

lemma v2p_aligned: "t mod PGSIZE = 0 \<Longrightarrow> v2p t mod 4096 = 0"
proof -
  assume t: "t mod PGSIZE = 0"
  have "(4096 :: nat) dvd 2 ^ 64" by simp
  then have "v2p t mod 4096 = (t + (2 ^ 64 - KERNBASE_N)) mod 4096" unfolding v2p_def by (rule mod_mod_cancel)
  also have "\<dots> = (t mod 4096 + (2 ^ 64 - KERNBASE_N) mod 4096) mod 4096" by (rule mod_add_eq [symmetric])
  also have "\<dots> = 0" using t by (simp add: PGSIZE_def KERNBASE_N_def)
  finally show ?thesis .
qed

lemma p2v_v2p: "t < 2 ^ 64 \<Longrightarrow> p2v (v2p t) = t"
  by (simp add: p2v_def v2p_def KERNBASE_N_def mod_add_left_eq)

lemma flag_bits: "PTE_P OR PTE_W OR PTE_U = 7" "(PTE_W OR PTE_U) OR PTE_P = 7"
  by (simp_all add: PTE_P_def PTE_W_def PTE_U_def)

lemma mapped_entry:
  assumes "pa mod 4096 = 0"
  shows "(pa OR 7) AND PTE_P \<noteq> 0" "(pa OR 7) AND PTE_U \<noteq> 0" "PTE_ADDR (pa OR 7) = pa"
proof -
  have "bit (7 :: nat) 0" "bit (7 :: nat) 2" by (simp_all add: bit_iff_odd)
  then have "bit (pa OR 7) 0" "bit (pa OR 7) 2" by (simp_all add: bit_or_iff)
  then show "(pa OR 7) AND PTE_P \<noteq> 0" "(pa OR 7) AND PTE_U \<noteq> 0"
    using and_exp_eq_0_iff_not_bit [of "pa OR 7" 0] and_exp_eq_0_iff_not_bit [of "pa OR 7" 2] by (simp_all add: PTE_P_def PTE_U_def)
  have "pa OR 7 = pa + 7" by (rule or_flags [OF assms]) simp
  then show "PTE_ADDR (pa OR 7) = pa" using assms div_mult_mod_eq [of pa 4096] by (simp add: PTE_ADDR_def div_add1_eq)
qed

text \<open>\<open>table_at s pgdir va t\<close>: the directory entry for \<open>va\<close> is present and names the page table in page \<open>t\<close>.\<close>

definition table_at :: "kmem \<Rightarrow> nat \<Rightarrow> nat \<Rightarrow> nat \<Rightarrow> bool" where
  "table_at s pgdir va t \<longleftrightarrow> load_ptr (km_mem s) (pgdir + 8 * PDX va) AND PTE_P \<noteq> 0 \<and>
     p2v (PTE_ADDR (load_ptr (km_mem s) (pgdir + 8 * PDX va))) = t"

lemma walk_present: "table_at s pgdir va t \<Longrightarrow> walkpgdir pgdir va alloc s = (t + 8 * PTX va, s)"
  by (simp add: walkpgdir_def table_at_def Let_def)

lemma PDX_PTX_less [simp]: "PDX va < 512" "PTX va < 512" by (simp_all add: PDX_def PTX_def)

text \<open>Where the directory entry is missing, the walk creates an empty page table from the first free page.\<close>

lemma walk_creates:
  assumes pool: "free_pool s (t # ps)" and dir: "pgdir mod PGSIZE = 0" "pgdir \<notin> set (t # ps)"
    and absent: "load_ptr (km_mem s) (pgdir + 8 * PDX va) AND PTE_P = 0"
  shows "\<exists>s'. walkpgdir pgdir va True s = (t + 8 * PTX va, s') \<and> table_at s' pgdir va t \<and> free_pool s' ps \<and>
    (\<forall>i < 512. load_ptr (km_mem s') (t + 8 * i) = 0)"
proof -
  have T: "t mod PGSIZE = 0" "t \<noteq> 0" "v2p t < PHYSTOP" "t < 2 ^ 64" "t \<notin> set ps" "t \<noteq> pgdir"
    using pool dir(2) by (auto simp: free_pool_def page_ok_def)
  from kalloc_pool [OF pool] obtain s1 where s1: "kalloc s = (t, s1)" "free_pool s1 ps" by blast
  define s2 where "s2 = clear_page t s1"
  define s' where "s' = put_entry (pgdir + 8 * PDX va) (v2p t OR 7) s2"
  have run: "walkpgdir pgdir va True s = (t + 8 * PTX va, s')"
    using absent T(2) by (simp add: walkpgdir_def Let_def s1(1) s'_def s2_def flag_bits)
  have small: "v2p t OR 7 < 2 ^ 64" using or_flags [OF v2p_aligned [OF T(1)], of 7] T(3) by (simp add: PHYSTOP_def)
  have e: "load_ptr (km_mem s') (pgdir + 8 * PDX va) = v2p t OR 7" unfolding s'_def by (rule load_put_entry(1) [OF small])
  have tab: "table_at s' pgdir va t"
    unfolding table_at_def e using mapped_entry [OF v2p_aligned [OF T(1)]] p2v_v2p [OF T(4)] by simp
  have "free_pool s2 ps" unfolding s2_def by (rule clear_page_pool [OF s1(2) T(1,5)])
  then have pool': "free_pool s' ps" unfolding s'_def using dir by (intro put_entry_pool) auto
  have "load_ptr (km_mem s') (t + 8 * i) = 0" if "i < 512" for i
  proof -
    have "load_ptr (km_mem s') (t + 8 * i) = load_ptr (km_mem s2) (t + 8 * i)"
      unfolding s'_def by (rule load_put_entry(2)) (use entry_pages_disjoint [OF dir(1) T(1) T(6) [symmetric], of "PDX va" i] that in auto)
    also have "\<dots> = 0" by (rule load_ptr_zero) (use that in \<open>auto simp: s2_def clear_page_mem PGSIZE_def\<close>)
    finally show ?thesis .
  qed
  with run tab pool' show ?thesis by blast
qed

lemma map_one:
  assumes tab: "table_at s pgdir va t" and al: "pgdir mod PGSIZE = 0" "t mod PGSIZE = 0" "t \<noteq> pgdir" "t \<noteq> 0"
    and free: "load_ptr (km_mem s) (t + 8 * PTX va) AND PTE_P = 0" and pa: "pa mod 4096 = 0" "pa < 2 ^ 63"
  defines "s' \<equiv> put_entry (t + 8 * PTX va) (pa OR 7) s"
  shows "uva2ka pgdir va s' = Inr (p2v pa)" "PDX va2 = PDX va \<Longrightarrow> PTX va2 \<noteq> PTX va \<Longrightarrow> uva2ka pgdir va2 s' = uva2ka pgdir va2 s"
proof -
  have small: "pa OR 7 < 2 ^ 64" using or_flags [OF pa(1), of 7] pa(2) by simp
  have dir: "load_ptr (km_mem s') (pgdir + 8 * PDX va) = load_ptr (km_mem s) (pgdir + 8 * PDX va)"
    unfolding s'_def by (rule load_put_entry(2)) (use entry_pages_disjoint [OF al(2,1) al(3), of "PTX va" "PDX va"] in auto)
  have tab': "table_at s' pgdir va t" using tab by (simp add: table_at_def dir)
  have "load_ptr (km_mem s') (t + 8 * PTX va) = pa OR 7" unfolding s'_def by (rule load_put_entry(1) [OF small])
  then show "uva2ka pgdir va s' = Inr (p2v pa)"
    using walk_present [OF tab', of False] al(4) mapped_entry [OF pa(1)] by (simp add: uva2ka_def Let_def)
  assume v2: "PDX va2 = PDX va" "PTX va2 \<noteq> PTX va"
  have t2: "table_at s pgdir va2 t" "table_at s' pgdir va2 t" using tab tab' v2(1) by (simp_all add: table_at_def)
  have "load_ptr (km_mem s') (t + 8 * PTX va2) = load_ptr (km_mem s) (t + 8 * PTX va2)"
    unfolding s'_def by (rule load_put_entry(2)) (use v2(2) in arith)
  then show "uva2ka pgdir va2 s' = uva2ka pgdir va2 s"
    using walk_present [OF t2(1), of False] walk_present [OF t2(2), of False] al(4) by (simp add: uva2ka_def Let_def)
qed



end
