(* ===== verification/Fs_Frame.thy ===== *)
theory Fs_Frame
  imports Fs_Dir
begin

text \<open>
  What the file system leaves alone: no operation of the buffer cache, the log, the block allocator or the
  inode layer changes the part of the kernel state above the inode cache. The collection \<open>fs_frame\<close>
  holds one fact per operation; the theories of the kernel proper use it to see through calls of the
  file system.
\<close>

named_theorems fs_frame \<open>operations of the file system keep the rest of the kernel\<close>

section \<open>Buffers and log\<close>

lemma bio_frame:
  "bwrite i s = Inr s' \<Longrightarrow> bio_state.more s' = bio_state.more s"
  "brelse i s = Inr s' \<Longrightarrow> bio_state.more s' = bio_state.more s"
  "bio_state.more (set_data i dat s) = bio_state.more s" "bio_state.more (mark_dirty i s) = bio_state.more s"
  by (auto simp: bwrite_def brelse_def iderw_def set_data_def mark_dirty_def Let_def split: if_splits)

lemma log_frame:
  "bread dev n s = Inr (i, s') \<Longrightarrow> log_state.more s' = log_state.more s"
  "bwrite i s = Inr s' \<Longrightarrow> log_state.more s' = log_state.more s"
  "brelse i s = Inr s' \<Longrightarrow> log_state.more s' = log_state.more s"
  using log_fields_more(7) [OF bread_more] log_fields_more(7) [OF bio_frame(1)] log_fields_more(7) [OF bio_frame(2)] by blast+

lemma log_frame_upd [simp]: "log_state.more (set_data i dat s) = log_state.more s" "log_state.more (mark_dirty i s) = log_state.more s"
  by (rule log_fields_more(7), rule bio_frame)+

lemma log_write_frame: "log_write b s = Inr s' \<Longrightarrow> log_state.more s' = log_state.more s"
  by (auto simp: log_write_def Let_def res_simps dest!: log_frame split: if_splits option.splits)

lemma write_head_frame: "write_head s = Inr s' \<Longrightarrow> log_state.more s' = log_state.more s"
  by (auto simp: write_head_def res_simps dest!: log_frame)

lemma install_loop_frame: "install_loop k n s = Inr s' \<Longrightarrow> log_state.more s' = log_state.more s"
proof (induction k arbitrary: n s)
  case (Suc k)
  from Suc(2) show ?case by (auto simp: res_simps dest!: log_frame Suc(1))
qed simp

lemma trans_frame:
  "begin_trans s = Inr s' \<Longrightarrow> log_state.more s' = log_state.more s"
  "commit_trans s = Inr s' \<Longrightarrow> log_state.more s' = log_state.more s"
  by (auto simp: begin_trans_def commit_trans_def install_trans_def res_simps dest!: write_head_frame install_loop_frame split: if_splits)

lemma readsb_frame: "readsb dev s = Inr (sb, s') \<Longrightarrow> log_state.more s' = log_state.more s"
  by (auto simp: readsb_def res_simps Let_def dest!: log_frame)

lemmas block_frame = log_frame log_write_frame readsb_frame

lemma bzero_frame: "bzero dev n s = Inr s' \<Longrightarrow> log_state.more s' = log_state.more s"
  by (auto simp: bzero_def res_simps dest!: block_frame)

lemma balloc_loop_frame: "balloc_loop dev sb bs s = Inr (b, s') \<Longrightarrow> log_state.more s' = log_state.more s"
proof (induction bs arbitrary: s)
  case (Cons b0 bs)
  from Cons(2) show ?case by (auto simp: res_simps dest!: block_frame bzero_frame Cons(1) split: option.splits)
qed simp

lemma balloc_frame: "balloc dev s = Inr (b, s') \<Longrightarrow> log_state.more s' = log_state.more s"
  by (auto simp: balloc_def res_simps dest!: readsb_frame balloc_loop_frame)

lemma bfree_frame: "bfree dev n s = Inr s' \<Longrightarrow> log_state.more s' = log_state.more s"
  by (auto simp: bfree_def Let_def res_simps dest!: block_frame split: if_splits)

section \<open>Inodes\<close>

lemma more_of_log: "log_state.more s' = log_state.more s \<Longrightarrow> fs_state.more s' = fs_state.more s"
  by (rule fs_more_more)

lemma inode_block_frame [fs_frame]:
  fixes s :: "'a fs_state_scheme"
  shows "bread dev n s = Inr (i, s') \<Longrightarrow> fs_state.more s' = fs_state.more s"
    "brelse i s = Inr s' \<Longrightarrow> fs_state.more s' = fs_state.more s"
    "log_write i s = Inr s' \<Longrightarrow> fs_state.more s' = fs_state.more s"
    "readsb dev s = Inr (sb, s') \<Longrightarrow> fs_state.more s' = fs_state.more s"
    "balloc dev s = Inr (n, s') \<Longrightarrow> fs_state.more s' = fs_state.more s"
    "bfree dev n s = Inr s' \<Longrightarrow> fs_state.more s' = fs_state.more s"
    "begin_trans s = Inr s' \<Longrightarrow> fs_state.more s' = fs_state.more s"
    "commit_trans s = Inr s' \<Longrightarrow> fs_state.more s' = fs_state.more s"
  by (auto intro!: more_of_log dest: block_frame balloc_frame bfree_frame trans_frame)

lemma inode_upd_frame [simp]:
  "fs_state.more (set_data i dat s) = fs_state.more s" "fs_state.more (mark_dirty i s) = fs_state.more s"
  by (rule more_of_log, simp)+

lemma iget_frame [fs_frame]: "iget dev n s = Inr (i, s') \<Longrightarrow> fs_state.more s' = fs_state.more s"
  by (auto simp: iget_def split: option.splits)

lemma idup_frame [simp]: "fs_state.more (idup ip s) = fs_state.more s" by (simp add: idup_def)

lemma iupdate_frame [fs_frame]: "iupdate ip s = Inr s' \<Longrightarrow> fs_state.more s' = fs_state.more s"
  by (auto simp: iupdate_def Let_def res_simps dest!: fs_frame)

lemma ilock_frame [fs_frame]: "ilock ip s = Inr s' \<Longrightarrow> fs_state.more s' = fs_state.more s"
  by (auto simp: ilock_def Let_def res_simps dest!: fs_frame split: if_splits)

lemma iunlock_frame [fs_frame]: "iunlock ip s = Inr s' \<Longrightarrow> fs_state.more s' = fs_state.more s"
  by (auto simp: iunlock_def split: if_splits)

lemma ialloc_loop_frame: "ialloc_loop dev ty is s = Inr (ip, s') \<Longrightarrow> fs_state.more s' = fs_state.more s"
proof (induction "is" arbitrary: s)
  case (Cons inum inums)
  from Cons(2) show ?case by (auto simp: res_simps Let_def dest!: fs_frame Cons(1) split: if_splits)
qed simp

lemma ialloc_frame [fs_frame]: "ialloc dev ty s = Inr (ip, s') \<Longrightarrow> fs_state.more s' = fs_state.more s"
  by (auto simp: ialloc_def res_simps dest!: fs_frame ialloc_loop_frame)

lemma alloc_addr_frame [fs_frame]: "alloc_addr ip k s = Inr (a, s') \<Longrightarrow> fs_state.more s' = fs_state.more s"
  by (auto simp: alloc_addr_def Let_def res_simps dest!: fs_frame split: if_splits)

lemma bmap_frame [fs_frame]: "bmap ip bn s = Inr (a, s') \<Longrightarrow> fs_state.more s' = fs_state.more s"
  by (auto simp: bmap_def Let_def res_simps dest!: fs_frame split: if_splits)

lemma itrunc_direct_frame: "itrunc_direct ip ks s = Inr s' \<Longrightarrow> fs_state.more s' = fs_state.more s"
proof (induction ks arbitrary: s)
  case (Cons k ks)
  from Cons(2) show ?case by (auto simp: res_simps Let_def dest!: fs_frame Cons(1) split: if_splits)
qed simp

lemma itrunc_indirect_frame: "itrunc_indirect dev bp js s = Inr s' \<Longrightarrow> fs_state.more s' = fs_state.more s"
proof (induction js arbitrary: s)
  case (Cons j js)
  from Cons(2) show ?case by (auto simp: res_simps Let_def dest!: fs_frame Cons(1) split: if_splits)
qed simp

lemma itrunc_frame [fs_frame]: "itrunc ip s = Inr s' \<Longrightarrow> fs_state.more s' = fs_state.more s"
  by (auto simp: itrunc_def Let_def res_simps dest!: fs_frame itrunc_direct_frame itrunc_indirect_frame split: if_splits)

lemma iput_frame [fs_frame]: "iput ip s = Inr s' \<Longrightarrow> fs_state.more s' = fs_state.more s"
  by (auto simp: iput_def Let_def res_simps dest!: fs_frame split: if_splits)

lemma iunlockput_frame [fs_frame]: "iunlockput ip s = Inr s' \<Longrightarrow> fs_state.more s' = fs_state.more s"
  by (auto simp: iunlockput_def res_simps dest!: fs_frame)

section \<open>Contents, directories and paths\<close>

text \<open>Reads and writes of a device file go to the driver in the device switch, which is an argument of the
  model: \<open>dev_frame\<close> says that the drivers too leave the rest of the kernel alone.\<close>

definition dev_frame :: "'a fs_state_scheme devsw \<Rightarrow> bool" where
  "dev_frame dv \<longleftrightarrow>
     (\<forall>m f ip n s r bs s'. dv_read dv m = Some f \<longrightarrow> f ip n s = Inr (r, bs, s') \<longrightarrow> fs_state.more s' = fs_state.more s) \<and>
     (\<forall>m f ip src s r s'. dv_write dv m = Some f \<longrightarrow> f ip src s = Inr (r, s') \<longrightarrow> fs_state.more s' = fs_state.more s)"

lemma dev_frameD:
  "dev_frame dv \<Longrightarrow> dv_read dv m = Some f \<Longrightarrow> f ip n s = Inr (r, bs, s') \<Longrightarrow> fs_state.more s' = fs_state.more s"
  "dev_frame dv \<Longrightarrow> dv_write dv m = Some g \<Longrightarrow> g ip src s = Inr (r, s') \<Longrightarrow> fs_state.more s' = fs_state.more s"
  unfolding dev_frame_def by blast+

lemma dev_frame_none: "dev_frame no_dev" by (simp add: dev_frame_def)

lemma readi_loop_frame: "readi_loop ip off r s = Inr (bs, s') \<Longrightarrow> fs_state.more s' = fs_state.more s"
proof (induction r arbitrary: off s bs rule: less_induct)
  case (less r)
  show ?case
  proof (cases "r = 0")
    case False
    then have lt: "r - min r (BSIZE - off mod BSIZE) < r" by (simp add: BSIZE_def)
    from less.prems False show ?thesis
      by (subst (asm) readi_loop.simps) (auto simp: Let_def res_simps dest!: fs_frame less.IH [OF lt])
  qed (use less.prems in \<open>subst (asm) readi_loop.simps, simp\<close>)
qed

lemma readi_frame [fs_frame]: "readi dv ip off n s = Inr (r, bs, s') \<Longrightarrow> dev_frame dv \<Longrightarrow> fs_state.more s' = fs_state.more s"
  by (auto simp: readi_def Let_def res_simps dest: dev_frameD(1) dest!: readi_loop_frame split: if_splits option.splits)

lemma writei_loop_frame: "writei_loop ip src off s = Inr s' \<Longrightarrow> fs_state.more s' = fs_state.more s"
proof (induction "length src" arbitrary: src off s rule: less_induct)
  case less
  show ?case
  proof (cases "src = []")
    case False
    then have lt: "length (drop (min (length src) (BSIZE - off mod BSIZE)) src) < length src" by (simp add: BSIZE_def)
    from less.prems False show ?thesis
      by (subst (asm) writei_loop.simps) (auto simp: Let_def res_simps dest!: fs_frame less.hyps [OF lt])
  qed (use less.prems in \<open>subst (asm) writei_loop.simps, simp\<close>)
qed

lemma writei_frame [fs_frame]: "writei dv ip src off s = Inr (r, s') \<Longrightarrow> dev_frame dv \<Longrightarrow> fs_state.more s' = fs_state.more s"
  by (auto simp: writei_def Let_def res_simps dest: dev_frameD(2) dest!: writei_loop_frame iupdate_frame split: if_splits option.splits)

lemma dirlookup_loop_frame:
  "dirlookup_loop dv dp name sz off s = Inr (r, s') \<Longrightarrow> dev_frame dv \<Longrightarrow> fs_state.more s' = fs_state.more s"
proof (induction "sz - off" arbitrary: off s rule: less_induct)
  case less
  show ?case
  proof (cases "off < sz")
    case True
    then have lt: "sz - (off + DIRENT_SIZE) < sz - off" by (simp add: DIRENT_SIZE_def)
    from less.prems True show ?thesis
      by (subst (asm) dirlookup_loop.simps) (auto simp: res_simps dest!: fs_frame less.hyps [OF lt] split: if_splits)
  qed (use less.prems in \<open>subst (asm) dirlookup_loop.simps, simp\<close>)
qed

lemma dirlookup_frame [fs_frame]: "dirlookup dv dp name s = Inr (r, s') \<Longrightarrow> dev_frame dv \<Longrightarrow> fs_state.more s' = fs_state.more s"
  by (auto simp: dirlookup_def dest: dirlookup_loop_frame split: if_splits)

lemma dirlink_slot_frame:
  "dirlink_slot dv dp sz off s = Inr (r, s') \<Longrightarrow> dev_frame dv \<Longrightarrow> fs_state.more s' = fs_state.more s"
proof (induction "sz - off" arbitrary: off s rule: less_induct)
  case less
  show ?case
  proof (cases "off < sz")
    case True
    then have lt: "sz - (off + DIRENT_SIZE) < sz - off" by (simp add: DIRENT_SIZE_def)
    from less.prems True show ?thesis
      by (subst (asm) dirlink_slot.simps) (auto simp: res_simps dest!: fs_frame less.hyps [OF lt] split: if_splits)
  qed (use less.prems in \<open>subst (asm) dirlink_slot.simps, simp\<close>)
qed

lemma dirlink_frame [fs_frame]: "dirlink dv dp name n s = Inr (r, s') \<Longrightarrow> dev_frame dv \<Longrightarrow> fs_state.more s' = fs_state.more s"
  by (auto simp: dirlink_def res_simps dest!: fs_frame dirlink_slot_frame split: option.splits if_splits)

lemma namex_loop_frame:
  "namex_loop dv path par name ip s = Inr (r, nm, s') \<Longrightarrow> dev_frame dv \<Longrightarrow> fs_state.more s' = fs_state.more s"
proof (induction "length path" arbitrary: path name ip s rule: less_induct)
  case less
  show ?case
  proof (cases "skipelem path name")
    case None
    with less.prems show ?thesis
      by (subst (asm) namex_loop.simps) (auto simp: res_simps dest!: fs_frame split: if_splits)
  next
    case (Some p)
    obtain rest name1 where p: "p = (rest, name1)" by (cases p)
    then have lt: "length rest < length path" using skipelem_shorter Some by blast
    note IH = less.hyps [OF lt]
    from less.prems Some p show ?thesis
      by (subst (asm) namex_loop.simps) (auto simp: res_simps dest!: fs_frame IH split: if_splits option.splits)
  qed
qed

lemma namex_frame [fs_frame]:
  "namex dv cwd path par name s = Inr (r, nm, s') \<Longrightarrow> dev_frame dv \<Longrightarrow> fs_state.more s' = fs_state.more s"
  by (auto simp: namex_def res_simps dest!: fs_frame namex_loop_frame split: if_splits)

lemma namei_frame [fs_frame]:
  "namei dv cwd junk path s = Inr (r, s') \<Longrightarrow> dev_frame dv \<Longrightarrow> fs_state.more s' = fs_state.more s"
  "nameiparent dv cwd path name s = Inr (r, nm, s') \<Longrightarrow> dev_frame dv \<Longrightarrow> fs_state.more s' = fs_state.more s"
  by (auto simp: namei_def nameiparent_def res_simps dest!: namex_frame)

end
