(* ===== verification/Proc.thy ===== *)
theory Proc
  imports Files Vm Fs_Frame
begin

unbundle bit_operations_syntax

text \<open>
  The life of a process (\<open>kernel/proc.c\<close>): \<open>allocproc\<close>, \<open>userinit\<close>, \<open>growproc\<close>, \<open>fork\<close>, \<open>exit\<close> and \<open>wait\<close>, over the
  state of theory Kernel. \<open>exit\<close> stops where it enters the scheduler, which never returns to it; \<open>wait\<close>
  that goes to sleep is \<open>Blocked\<close> and starts over when woken. The relation \<open>proc_step\<close> interleaves all
  operations on the process table, by any process, and its invariant is that process identifiers of
  live processes are positive, below \<open>nextpid\<close> and pairwise different, and that no live process has
  lost its parent.
\<close>

section \<open>Operations\<close>

definition on_km :: "(kmem \<Rightarrow> ('a \<times> kmem) res) \<Rightarrow> kernel \<Rightarrow> ('a \<times> kernel) res" where
  "on_km f s = res_bind (f (km s)) (\<lambda>(x, k). Inr (x, s\<lparr>km := k\<rparr>))"

definition on_km1 :: "(kmem \<Rightarrow> kmem res) \<Rightarrow> kernel \<Rightarrow> kernel res" where
  "on_km1 f s = res_bind (f (km s)) (\<lambda>k. Inr (s\<lparr>km := k\<rparr>))"

text \<open>\<open>safestrcpy\<close> into a buffer: the string cut at \<open>n - 1\<close> bytes, its NUL, and, when the string is shorter, a
  second NUL.\<close>

definition safestrcpy_l :: "byte list \<Rightarrow> byte list \<Rightarrow> nat \<Rightarrow> byte list" where
  "safestrcpy_l buf t n =
     (let u = cstr (take (n - 1) t)
      in if n = 0 then buf else if length u < n - 1 then splice 0 (u @ [0, 0]) buf else splice 0 (u @ [0]) buf)"

definition zero_context :: kcontext where
  "zero_context = \<lparr>c_r15 = 0, c_r14 = 0, c_r13 = 0, c_r12 = 0, c_r11 = 0, c_rbx = 0, c_ebp = 0, c_eip = 0\<rparr>"

text \<open>\<open>forkret\<close> is the address of the function of that name. The trap frame, which lies in the new kernel
  stack, is left as it is: the callers fill it in.\<close>

definition allocproc :: "u64 \<Rightarrow> kernel \<Rightarrow> nat option \<times> kernel" where
  "allocproc forkret s =
     (case find_index (\<lambda>p. p_state p = UNUSED) (ptable s) of
        None \<Rightarrow> (None, s)
      | Some i \<Rightarrow>
          let s = upd_proc i (\<lambda>p. p\<lparr>p_state := EMBRYO, p_pid := nextpid s, p_priority := 10\<rparr>) (s\<lparr>nextpid := nextpid s + 1\<rparr>)
          in (case kalloc (km s) of (stk, k) \<Rightarrow>
                let s = upd_proc i (\<lambda>p. p\<lparr>p_kstack := stk\<rparr>) (s\<lparr>km := k\<rparr>)
                in if stk = 0 then (None, upd_proc i (\<lambda>p. p\<lparr>p_state := UNUSED\<rparr>) s)
                   else (Some i, upd_proc i (\<lambda>p. p\<lparr>p_context := zero_context\<lparr>c_eip := forkret\<rparr>\<rparr>) s)))"

definition SEG_UCODE :: nat where "SEG_UCODE = 4"
definition SEG_UDATA :: nat where "SEG_UDATA = 5"
definition DPL_USER :: nat where "DPL_USER = 3"
definition FL_IF :: nat where "FL_IF = 0x200"

definition user_tf :: trapframe where
  "user_tf = \<lparr>tf_eax = 0, tf_rbx = 0, tf_rcx = 0, tf_rdx = 0, tf_rbp = 0, tf_rsi = 0, tf_rdi = 0, tf_r8 = 0, tf_r9 = 0,
     tf_r10 = 0, tf_r11 = 0, tf_r12 = 0, tf_r13 = 0, tf_r14 = 0, tf_r15 = 0, tf_trapno = 0, tf_err = 0, tf_eip = 0,
     tf_cs = of_nat (SEG_UCODE * 8 + DPL_USER), tf_eflags = of_nat FL_IF, tf_esp = of_nat PGSIZE,
     tf_ds = of_nat (SEG_UDATA * 8 + DPL_USER)\<rparr>"

text \<open>The bytes of \<open>"initcode"\<close>.\<close>

definition initcode_name :: "byte list" where
  "initcode_name = [105, 110, 105, 116, 99, 111, 100, 101]"

definition userinit :: "kernel devsw \<Rightarrow> u64 \<Rightarrow> byte list \<Rightarrow> byte list \<Rightarrow> kernel \<Rightarrow> kernel res" where
  "userinit dv forkret junk init s =
     (case allocproc forkret s of
        (None, s) \<Rightarrow> Inl (Undefined ''userinit: null process'')
      | (Some p, s) \<Rightarrow>
          let s = s\<lparr>initproc := p\<rparr>
          in res_bind (on_km (setupkvm (kpdpt s)) s) (\<lambda>(pgdir, s).
               if pgdir = 0 then Inl (Panic ''userinit: out of memory?'')
               else
                 res_bind (on_km1 (inituvm pgdir init) (upd_proc p (\<lambda>x. x\<lparr>p_pgdir := pgdir\<rparr>) s)) (\<lambda>s.
                   let s = upd_proc p (\<lambda>x. x\<lparr>p_sz := PGSIZE, p_tf := user_tf, p_name := safestrcpy_l (p_name x) initcode_name 16\<rparr>) s
                   in res_bind (namei dv 0 junk [slash] s) (\<lambda>(r, s).
                        Inr (upd_proc p (\<lambda>x. x\<lparr>p_cwd := r, p_state := RUNNABLE\<rparr>) s)))))"

text \<open>\<open>growproc (n)\<close>: \<open>sz\<close> is a \<open>uint\<close>.\<close>

definition growproc :: "nat \<Rightarrow> int \<Rightarrow> kernel \<Rightarrow> (int \<times> kernel) res" where
  "growproc me n s =
     (let p = ptable s ! me; sz = p_sz p mod 2 ^ 32; sz1 = u32_of_int (int sz + n)
      in res_bind
           (if n > 0 then on_km (allocuvm (p_pgdir p) sz sz1) s
            else if n < 0 then on_km (deallocuvm (p_pgdir p) sz sz1) s
            else Inr (int_of_u32 sz, s)) (\<lambda>(r, s).
           if n \<noteq> 0 \<and> r = 0 then Inr (-1, s)
           else
             let s = upd_proc me (\<lambda>x. x\<lparr>p_sz := u32_of_int r\<rparr>) s
             in res_bind (switchuvm (p_pgdir p) (km s)) (\<lambda>_. Inr (0, s))))"

text \<open>The loop of \<open>fork\<close> over the descriptors of \<open>proc\<close>.\<close>

fun fork_files :: "nat \<Rightarrow> nat \<Rightarrow> nat list \<Rightarrow> kernel \<Rightarrow> kernel res" where
  "fork_files me np [] s = Inr s"
| "fork_files me np (i # is) s =
     (case p_ofile (ptable s ! me) ! i of
        None \<Rightarrow> fork_files me np is s
      | Some f \<Rightarrow>
          res_bind (filedup f s) (\<lambda>s.
            fork_files me np is (upd_proc np (\<lambda>p. p\<lparr>p_ofile := (p_ofile p)[i := Some f]\<rparr>) s)))"

definition fork :: "u64 \<Rightarrow> nat \<Rightarrow> kernel \<Rightarrow> (int \<times> kernel) res" where
  "fork forkret me s =
     (case allocproc forkret s of
        (None, s) \<Rightarrow> Inr (-1, s)
      | (Some np, s) \<Rightarrow>
          res_bind (on_km (copyuvm (kpdpt s) (p_pgdir (ptable s ! me)) (p_sz (ptable s ! me) mod 2 ^ 32)) s) (\<lambda>(pgdir, s).
            let s = upd_proc np (\<lambda>p. p\<lparr>p_pgdir := pgdir\<rparr>) s
            in if pgdir = 0 then
                 res_bind (on_km1 (kfree (p_kstack (ptable s ! np))) s) (\<lambda>s.
                   Inr (-1, upd_proc np (\<lambda>p. p\<lparr>p_kstack := 0, p_state := UNUSED\<rparr>) s))
               else
                 let s = upd_proc np (\<lambda>p. p\<lparr>p_sz := p_sz (ptable s ! me), p_parent := Some me, p_tf := (p_tf (ptable s ! me))\<lparr>tf_eax := 0\<rparr>\<rparr>) s
                 in res_bind (fork_files me np [0..<NOFILE] s) (\<lambda>s.
                      case p_cwd (ptable s ! me) of
                        None \<Rightarrow> Inl (Undefined ''fork: null cwd'')
                      | Some cwd \<Rightarrow>
                          let s = idup cwd s;
                              s = upd_proc np (\<lambda>p. p\<lparr>p_cwd := Some cwd\<rparr>) s;
                              pid = p_pid (ptable s ! np);
                              s = upd_proc np (\<lambda>p. p\<lparr>p_state := RUNNABLE, p_name := safestrcpy_l (p_name p) (p_name (ptable s ! me)) 16\<rparr>) s
                          in Inr (pid, s))))"

fun exit_files :: "nat \<Rightarrow> nat list \<Rightarrow> kernel \<Rightarrow> kernel res" where
  "exit_files me [] s = Inr s"
| "exit_files me (fd # fds) s =
     (case p_ofile (ptable s ! me) ! fd of
        None \<Rightarrow> exit_files me fds s
      | Some f \<Rightarrow>
          res_bind (fileclose f s) (\<lambda>s.
            exit_files me fds (upd_proc me (\<lambda>p. p\<lparr>p_ofile := (p_ofile p)[fd := None]\<rparr>) s)))"

text \<open>The loop of \<open>exit\<close> that passes children to \<open>initproc\<close>.\<close>

fun reparent :: "nat \<Rightarrow> nat list \<Rightarrow> kernel \<Rightarrow> kernel" where
  "reparent me [] s = s"
| "reparent me (i # is) s =
     (if p_parent (ptable s ! i) = Some me then
        let s = upd_proc i (\<lambda>p. p\<lparr>p_parent := Some (initproc s)\<rparr>) s;
            s = (if p_state (ptable s ! i) = ZOMBIE then wakeup1 (Ch_proc (initproc s)) s else s)
        in reparent me is s
      else reparent me is s)"

definition exit :: "nat \<Rightarrow> kernel \<Rightarrow> kernel res" where
  "exit me s =
     (if me = initproc s then Inl (Panic ''init exiting'')
      else
        res_bind (exit_files me [0..<NOFILE] s) (\<lambda>s.
          case p_cwd (ptable s ! me) of
            None \<Rightarrow> Inl (Undefined ''exit: null cwd'')
          | Some cwd \<Rightarrow>
              res_bind (iput cwd s) (\<lambda>s.
                let s = upd_proc me (\<lambda>p. p\<lparr>p_cwd := None\<rparr>) s;
                    s = wakeup1 (case p_parent (ptable s ! me) of Some q \<Rightarrow> Ch_proc q | None \<Rightarrow> Ch_null) s;
                    s = reparent me [0..<length (ptable s)] s
                in Inr (upd_proc me (\<lambda>p. p\<lparr>p_state := ZOMBIE\<rparr>) s))))"

definition wait :: "nat \<Rightarrow> kernel \<Rightarrow> (pipe_ret \<times> kernel) res" where
  "wait me s =
     (case find_index (\<lambda>p. p_parent p = Some me \<and> p_state p = ZOMBIE) (ptable s) of
        Some i \<Rightarrow>
          let p = ptable s ! i
          in res_bind (on_km1 (kfree (p_kstack p)) s) (\<lambda>s.
             res_bind (on_km1 (freevm (p_pgdir p)) (upd_proc i (\<lambda>p. p\<lparr>p_kstack := 0\<rparr>) s)) (\<lambda>s.
               Inr (Return (p_pid p),
                 upd_proc i (\<lambda>p. p\<lparr>p_state := UNUSED, p_pid := 0, p_parent := None, p_name := (p_name p)[0 := 0], p_killed := False\<rparr>) s)))
      | None \<Rightarrow>
          if \<not> (\<exists>p \<in> set (ptable s). p_parent p = Some me) \<or> p_killed (ptable s ! me) then Inr (Return (-1), s)
          else res_bind (sleep (Some me) True (Ch_proc me) s) (\<lambda>s. Inr (Blocked 0, s)))"

section \<open>What the operations do to the table\<close>

text \<open>The part of the state the invariant is about: of each entry whether it is unused, alive or a zombie,
  its identifier and its parent; \<open>nextpid\<close> and \<open>initproc\<close>.\<close>

datatype life = Free | Alive | Dead

fun pclass :: "procstate \<Rightarrow> life" where
  "pclass UNUSED = Free"
| "pclass ZOMBIE = Dead"
| "pclass _ = Alive"

definition pcore :: "proc \<Rightarrow> life \<times> int \<times> nat option" where
  "pcore p = (pclass (p_state p), p_pid p, p_parent p)"

definition pview :: "kernel \<Rightarrow> (life \<times> int \<times> nat option) list \<times> int \<times> nat" where
  "pview s = (map pcore (ptable s), nextpid s, initproc s)"

lemma pclass_iff: "pclass x = Free \<longleftrightarrow> x = UNUSED" "pclass x = Dead \<longleftrightarrow> x = ZOMBIE"
  by (cases x; simp)+

lemma pview_upd_proc: "pcore (f (ptable s ! i)) = c \<Longrightarrow> pview (upd_proc i f s) = ((map pcore (ptable s))[i := c], nextpid s, initproc s)"
  by (simp add: pview_def map_update)

lemma pview_upd_same: "pcore (f (ptable s ! i)) = pcore (ptable s ! i) \<Longrightarrow> pview (upd_proc i f s) = pview s"
proof (cases "i < length (ptable s)")
  case True
  then show "pcore (f (ptable s ! i)) = pcore (ptable s ! i) \<Longrightarrow> pview (upd_proc i f s) = pview s"
    by (simp add: pview_def map_update list_update_same_conv)
qed (simp add: pview_def list_update_beyond)

lemma pview_frame:
  "pview (wakeup1 ch s) = pview s" "pview (wakeup ch s) = pview s" "pview (upd_pipe p g s) = pview s" "pview (s\<lparr>km := k\<rparr>) = pview s"
  "pview (upd_file f h s) = pview s" "pview (s\<lparr>pipes := pps\<rparr>) = pview s"
  by (auto simp: pview_def wakeup_def wakeup1_def upd_pipe_def upd_file_def pcore_def)

lemma kernel_more:
  fixes s :: kernel
  shows "fs_state.more s' = fs_state.more s \<Longrightarrow> pview s' = pview s \<and> ptable s' = ptable s \<and> km s' = km s \<and> ftable s' = ftable s \<and> pipes s' = pipes s \<and> initproc s' = initproc s"
  by (cases s; cases s') (simp add: pview_def)

lemma fs_pview:
  fixes s :: kernel
  shows "iput ip s = Inr s' \<Longrightarrow> pview s' = pview s \<and> ptable s' = ptable s" "begin_trans s = Inr s' \<Longrightarrow> pview s' = pview s \<and> ptable s' = ptable s"
    "commit_trans s = Inr s' \<Longrightarrow> pview s' = pview s \<and> ptable s' = ptable s" "pview (idup ip s) = pview s" "ptable (idup ip s) = ptable s"
  using kernel_more [OF iput_frame] kernel_more [OF inode_block_frame(7)] kernel_more [OF inode_block_frame(8)] kernel_more [OF idup_frame] by auto

lemma on_km_pview:
  "on_km f s = Inr (x, s') \<Longrightarrow> pview s' = pview s \<and> ptable s' = ptable s"
  "on_km1 g s = Inr s' \<Longrightarrow> pview s' = pview s \<and> ptable s' = ptable s"
  by (auto simp: on_km_def on_km1_def res_simps pview_frame)

lemma filedup_pview: "filedup f s = Inr s' \<Longrightarrow> pview s' = pview s \<and> ptable s' = ptable s"
  by (auto simp: filedup_def pview_frame split: if_splits)

lemma pipeclose_pview: "pipeclose p w s = Inr s' \<Longrightarrow> pview s' = pview s"
  by (auto simp: pipeclose_def Let_def res_simps pview_frame split: if_splits)

lemma fileclose_pview: "fileclose f s = Inr s' \<Longrightarrow> pview s' = pview s"
  by (auto simp: fileclose_def Let_def res_simps pview_frame dest!: pipeclose_pview fs_pview(1-3) split: if_splits filetype.splits)

lemma sleep_pview:
  assumes "sleep (Some me) lk ch s = Inr s'" "pclass (p_state (ptable s ! me)) = Alive"
  shows "pview s' = pview s"
proof -
  have "s' = upd_proc me (\<lambda>p. p\<lparr>p_chan := ch, p_state := SLEEPING\<rparr>) s" using assms(1) by (auto simp: sleep_def split: if_splits)
  then show ?thesis using assms(2) by (auto simp: pcore_def intro: pview_upd_same)
qed

lemma fork_files_pview: "fork_files me np is s = Inr s' \<Longrightarrow> pview s' = pview s"
proof (induction "is" arbitrary: s)
  case (Cons i js)
  show ?case
  proof (cases "p_ofile (ptable s ! me) ! i")
    case None
    then show ?thesis using Cons by simp
  next
    case (Some f)
    with Cons.prems obtain s1 where s1: "filedup f s = Inr s1"
        "fork_files me np js (upd_proc np (\<lambda>p. p\<lparr>p_ofile := (p_ofile p)[i := Some f]\<rparr>) s1) = Inr s'" by (auto simp: res_simps)
    have "pview (upd_proc np (\<lambda>p. p\<lparr>p_ofile := (p_ofile p)[i := Some f]\<rparr>) s1) = pview s1" by (rule pview_upd_same) (simp add: pcore_def)
    then show ?thesis using Cons.IH [OF s1(2)] filedup_pview [OF s1(1)] by simp
  qed
qed simp

lemma exit_files_pview: "exit_files me fds s = Inr s' \<Longrightarrow> pview s' = pview s"
proof (induction fds arbitrary: s)
  case (Cons i js)
  show ?case
  proof (cases "p_ofile (ptable s ! me) ! i")
    case None
    then show ?thesis using Cons by simp
  next
    case (Some f)
    with Cons.prems obtain s1 where s1: "fileclose f s = Inr s1"
        "exit_files me js (upd_proc me (\<lambda>p. p\<lparr>p_ofile := (p_ofile p)[i := None]\<rparr>) s1) = Inr s'" by (auto simp: res_simps)
    have "pview (upd_proc me (\<lambda>p. p\<lparr>p_ofile := (p_ofile p)[i := None]\<rparr>) s1) = pview s1" by (rule pview_upd_same) (simp add: pcore_def)
    then show ?thesis using Cons.IH [OF s1(2)] fileclose_pview [OF s1(1)] by simp
  qed
qed simp

lemma pview_nth:
  assumes "pview s' = pview s"
  shows "length (ptable s') = length (ptable s)" "nextpid s' = nextpid s" "initproc s' = initproc s"
    "i < length (ptable s) \<Longrightarrow> pcore (ptable s' ! i) = pcore (ptable s ! i)"
proof -
  have m: "map pcore (ptable s') = map pcore (ptable s)" and "nextpid s' = nextpid s" "initproc s' = initproc s"
    using assms by (simp_all add: pview_def)
  then show "nextpid s' = nextpid s" "initproc s' = initproc s" by simp_all
  show l: "length (ptable s') = length (ptable s)" using m by (metis length_map)
  show "i < length (ptable s) \<Longrightarrow> pcore (ptable s' ! i) = pcore (ptable s ! i)" using m l by (metis nth_map)
qed

text \<open>Passing the children on.\<close>

definition heir :: "nat \<Rightarrow> nat \<Rightarrow> life \<times> int \<times> nat option \<Rightarrow> life \<times> int \<times> nat option" where
  "heir me ip = (\<lambda>(c, pid, par). (c, pid, if par = Some me then Some ip else par))"

lemma reparent_pview:
  assumes "distinct is" "set is \<subseteq> {..<length (ptable s)}"
  shows "length (ptable (reparent me is s)) = length (ptable s) \<and> nextpid (reparent me is s) = nextpid s \<and> initproc (reparent me is s) = initproc s \<and>
    (\<forall>i < length (ptable s). pcore (ptable (reparent me is s) ! i) =
      (if i \<in> set is then heir me (initproc s) (pcore (ptable s ! i)) else pcore (ptable s ! i)))"
  using assms
proof (induction "is" arbitrary: s)
  case (Cons i js)
  define s1 where "s1 = upd_proc i (\<lambda>p. p\<lparr>p_parent := Some (initproc s)\<rparr>) s"
  define s2 where "s2 = (if p_state (ptable s1 ! i) = ZOMBIE then wakeup1 (Ch_proc (initproc s1)) s1 else s1)"
  show ?case
  proof (cases "p_parent (ptable s ! i) = Some me")
    case True
    have r: "reparent me (i # js) s = reparent me js s2" using True by (simp add: s1_def s2_def Let_def)
    have v2: "pview s2 = pview s1" by (simp add: s2_def pview_frame)
    note V = pview_nth [OF v2]
    have s1: "length (ptable s1) = length (ptable s)" "nextpid s1 = nextpid s" "initproc s1 = initproc s"
      "\<And>j. j < length (ptable s) \<Longrightarrow> pcore (ptable s1 ! j) = (if j = i then heir me (initproc s) (pcore (ptable s ! i)) else pcore (ptable s ! j))"
      using True Cons.prems(2) by (auto simp: s1_def nth_list_update pcore_def heir_def)
    show ?thesis
      unfolding r using Cons.IH [of s2] Cons.prems V s1 by auto
  next
    case False
    then have "reparent me (i # js) s = reparent me js s" "heir me (initproc s) (pcore (ptable s ! i)) = pcore (ptable s ! i)"
      by (simp_all add: heir_def pcore_def)
    then show ?thesis using Cons.IH [of s] Cons.prems by auto
  qed
qed simp

lemma allocproc_view:
  assumes "allocproc fk s = (r, s')"
  shows "r = None \<and> pview s' = pview s \<or>
    (\<exists>i c. i < length (ptable s) \<and> p_state (ptable s ! i) = UNUSED \<and> length (ptable s') = length (ptable s) \<and>
      pview s' = ((map pcore (ptable s))[i := (c, nextpid s, p_parent (ptable s ! i))], nextpid s + 1, initproc s) \<and>
      (r = None \<and> c = Free \<or> r = Some i \<and> c = Alive))"
proof (cases "find_index (\<lambda>p. p_state p = UNUSED) (ptable s)")
  case None
  then show ?thesis using assms by (simp add: allocproc_def)
next
  case (Some i)
  note I = find_index_SomeD(1,2) [OF Some]
  obtain stk k where ka: "kalloc (km s) = (stk, k)" by (cases "kalloc (km s)")
  show ?thesis
  proof (cases "stk = 0")
    case True
    then have "r = None" "pview s' = ((map pcore (ptable s))[i := (Free, nextpid s, p_parent (ptable s ! i))], nextpid s + 1, initproc s)"
        "length (ptable s') = length (ptable s)"
      using assms I by (auto simp: allocproc_def Some Let_def ka pview_def map_update pcore_def)
    then show ?thesis using I by blast
  next
    case False
    then have "r = Some i" "pview s' = ((map pcore (ptable s))[i := (Alive, nextpid s, p_parent (ptable s ! i))], nextpid s + 1, initproc s)"
        "length (ptable s') = length (ptable s)"
      using assms I by (auto simp: allocproc_def Some Let_def ka pview_def map_update pcore_def)
    then show ?thesis using I by blast
  qed
qed

lemma fork_view:
  assumes "fork fk me s = Inr (pid, s')" "me < length (ptable s)" "p_state (ptable s ! me) \<noteq> UNUSED"
  shows "pid = -1 \<and> pview s' = pview s \<or>
    (\<exists>i c par. i < length (ptable s) \<and> p_state (ptable s ! i) = UNUSED \<and>
      pview s' = ((map pcore (ptable s))[i := (c, nextpid s, par)], nextpid s + 1, initproc s) \<and>
      (pid = -1 \<and> c = Free \<and> par = p_parent (ptable s ! i) \<or> pid = nextpid s \<and> c = Alive \<and> par = Some me))"
proof -
  obtain r s1 where a: "allocproc fk s = (r, s1)" by (cases "allocproc fk s")
  show ?thesis
  proof (cases r)
    case None
    then have "pid = -1" "s' = s1" using assms(1) a by (auto simp: fork_def)
    then show ?thesis using allocproc_view [OF a] None by auto
  next
    case (Some np)
    from allocproc_view [OF a] Some have np: "np < length (ptable s)" "p_state (ptable s ! np) = UNUSED" "length (ptable s1) = length (ptable s)"
      and v1: "pview s1 = ((map pcore (ptable s))[np := (Alive, nextpid s, p_parent (ptable s ! np))], nextpid s + 1, initproc s)" by auto
    have ne: "np \<noteq> me" using np(2) assms(3) by auto
    define n where "n = nextpid s"
    have v1': "map pcore (ptable s1) = (map pcore (ptable s))[np := (Alive, n, p_parent (ptable s ! np))]" "nextpid s1 = n + 1" "initproc s1 = initproc s"
      using v1 by (simp_all add: pview_def n_def)
    have cnp: "pcore (ptable s1 ! np) = (Alive, n, p_parent (ptable s ! np))"
      using v1'(1) np by (metis length_map nth_list_update_eq nth_map)
    from assms(1) a Some obtain pgdir s2 where s2: "on_km (copyuvm (kpdpt s1) (p_pgdir (ptable s1 ! me)) (p_sz (ptable s1 ! me) mod 2 ^ 32)) s1 = Inr (pgdir, s2)"
      by (auto simp: fork_def res_simps)
    note K = on_km_pview(1) [OF s2]
    define s3 where "s3 = upd_proc np (\<lambda>p. p\<lparr>p_pgdir := pgdir\<rparr>) s2"
    have v3: "pview s3 = pview s1" using K by (simp add: s3_def) (subst pview_upd_same; simp add: pcore_def)
    show ?thesis
    proof (cases "pgdir = 0")
      case True
      with assms(1) a Some s2 obtain s4 where s4: "on_km1 (kfree (p_kstack (ptable s3 ! np))) s3 = Inr s4"
          "pid = -1" "s' = upd_proc np (\<lambda>p. p\<lparr>p_kstack := 0, p_state := UNUSED\<rparr>) s4"
        by (auto simp: fork_def res_simps Let_def s3_def)
      have v4: "pview s4 = pview s1" using on_km_pview(2) [OF s4(1)] v3 by simp
      note V = pview_nth [OF v4]
      have "pcore (ptable s4 ! np) = pcore (ptable s1 ! np)" using V(4) np by simp
      then have "pcore ((ptable s4 ! np)\<lparr>p_kstack := 0, p_state := UNUSED\<rparr>) = (Free, n, p_parent (ptable s ! np))"
        using cnp by (simp add: pcore_def)
      then have "pview s' = ((map pcore (ptable s4))[np := (Free, n, p_parent (ptable s ! np))], nextpid s4, initproc s4)"
        unfolding s4(3) by (rule pview_upd_proc)
      moreover have "map pcore (ptable s4) = map pcore (ptable s1)" using v4 by (simp add: pview_def)
      ultimately have "pview s' = ((map pcore (ptable s))[np := (Free, n, p_parent (ptable s ! np))], n + 1, initproc s)"
        using v1' V(2,3) by simp
      then show ?thesis using s4(2) np n_def by blast
    next
      case False
      define s4 where "s4 = upd_proc np (\<lambda>p. p\<lparr>p_sz := p_sz (ptable s3 ! me), p_parent := Some me, p_tf := (p_tf (ptable s3 ! me))\<lparr>tf_eax := 0\<rparr>\<rparr>) s3"
      from assms(1) a Some s2 False obtain s5 cwd where s5: "fork_files me np [0..<NOFILE] s4 = Inr s5" "p_cwd (ptable s5 ! me) = Some cwd"
        by (auto simp: fork_def res_simps Let_def s4_def s3_def split: option.splits)
      define s6 where "s6 = upd_proc np (\<lambda>p. p\<lparr>p_cwd := Some cwd\<rparr>) (idup cwd s5)"
      have fin: "pid = p_pid (ptable s6 ! np)"
          "s' = upd_proc np (\<lambda>p. p\<lparr>p_state := RUNNABLE, p_name := safestrcpy_l (p_name p) (p_name (ptable s6 ! me)) 16\<rparr>) s6"
        using assms(1) a Some s2 False s5 by (auto simp: fork_def res_simps Let_def s4_def s3_def s6_def)
      have c3: "pcore (ptable s3 ! np) = (Alive, n, p_parent (ptable s ! np))" using pview_nth(4) [OF v3] np cnp by simp
      have m3: "map pcore (ptable s3) = map pcore (ptable s1)" "nextpid s3 = n + 1" "initproc s3 = initproc s"
        using v3 v1' by (simp_all add: pview_def)
      have "pcore ((ptable s3 ! np)\<lparr>p_sz := p_sz (ptable s3 ! me), p_parent := Some me, p_tf := (p_tf (ptable s3 ! me))\<lparr>tf_eax := 0\<rparr>\<rparr>) = (Alive, n, Some me)"
        using c3 by (simp add: pcore_def)
      then have v4: "pview s4 = ((map pcore (ptable s))[np := (Alive, n, Some me)], n + 1, initproc s)"
        unfolding s4_def by (subst pview_upd_proc) (simp_all add: m3 v1')
      have v6: "pview s6 = pview s4"
        unfolding s6_def using fork_files_pview [OF s5(1)] fs_pview(4) [of cwd s5] by (subst pview_upd_same) (simp_all add: pcore_def)
      have len6: "length (ptable s6) = length (ptable s)" using v6 v4 by (simp add: pview_def) (metis length_list_update length_map)
      have m6: "map pcore (ptable s6) = (map pcore (ptable s))[np := (Alive, n, Some me)]" using v6 v4 by (simp add: pview_def)
      have c6: "pcore (ptable s6 ! np) = (Alive, n, Some me)" using m6 len6 np by (metis length_map nth_list_update_eq nth_map)
      have "pview s' = pview s6" unfolding fin(2) by (rule pview_upd_same) (use c6 in \<open>simp add: pcore_def\<close>)
      then have "pview s' = ((map pcore (ptable s))[np := (Alive, n, Some me)], n + 1, initproc s)" using v6 v4 by simp
      moreover have "pid = n" using fin(1) c6 by (simp add: pcore_def)
      ultimately show ?thesis using np n_def by blast
    qed
  qed
qed

lemma exit_view:
  assumes "exit me s = Inr s'" "me < length (ptable s)" "pclass (p_state (ptable s ! me)) = Alive"
  shows "me \<noteq> initproc s" "nextpid s' = nextpid s" "initproc s' = initproc s" "length (ptable s') = length (ptable s)"
    "i < length (ptable s) \<Longrightarrow> pcore (ptable s' ! i) =
      (let (c, pid, par) = heir me (initproc s) (pcore (ptable s ! i)) in (if i = me then Dead else c, pid, par))"
proof -
  from assms(1) show "me \<noteq> initproc s" by (auto simp: exit_def split: if_splits)
  with assms(1) obtain s1 cwd s2 where s1: "exit_files me [0..<NOFILE] s = Inr s1" and s2: "iput cwd s1 = Inr s2"
    and s': "s' = (let s = upd_proc me (\<lambda>p. p\<lparr>p_cwd := None\<rparr>) s2;
                    s = wakeup1 (case p_parent (ptable s ! me) of Some q \<Rightarrow> Ch_proc q | None \<Rightarrow> Ch_null) s;
                    s = reparent me [0..<length (ptable s)] s
                in upd_proc me (\<lambda>p. p\<lparr>p_state := ZOMBIE\<rparr>) s)"
    by (auto simp: exit_def res_simps Let_def split: if_splits option.splits)
  define s3 where "s3 = upd_proc me (\<lambda>p. p\<lparr>p_cwd := None\<rparr>) s2"
  define s4 where "s4 = wakeup1 (case p_parent (ptable s3 ! me) of Some q \<Rightarrow> Ch_proc q | None \<Rightarrow> Ch_null) s3"
  define s5 where "s5 = reparent me [0..<length (ptable s4)] s4"
  have fin: "s' = upd_proc me (\<lambda>p. p\<lparr>p_state := ZOMBIE\<rparr>) s5" by (simp only: s' s3_def s4_def s5_def Let_def)
  have "pview s3 = pview s2" unfolding s3_def by (rule pview_upd_same) (simp add: pcore_def)
  then have v4: "pview s4 = pview s" using exit_files_pview [OF s1] fs_pview(1) [OF s2] by (simp add: s4_def pview_frame)
  note V = pview_nth [OF v4]
  have R: "length (ptable s5) = length (ptable s)" "nextpid s5 = nextpid s" "initproc s5 = initproc s"
      "\<And>i. i < length (ptable s) \<Longrightarrow> pcore (ptable s5 ! i) = heir me (initproc s) (pcore (ptable s ! i))"
  proof -
    have sub: "set [0..<length (ptable s4)] \<subseteq> {..<length (ptable s4)}" by auto
    show "length (ptable s5) = length (ptable s)" "nextpid s5 = nextpid s" "initproc s5 = initproc s"
      "\<And>i. i < length (ptable s) \<Longrightarrow> pcore (ptable s5 ! i) = heir me (initproc s) (pcore (ptable s ! i))"
      using reparent_pview [OF distinct_upt sub, of me, folded s5_def] V by auto
  qed
  show "nextpid s' = nextpid s" "initproc s' = initproc s" "length (ptable s') = length (ptable s)"
    using R fin by simp_all
  assume i: "i < length (ptable s)"
  show "pcore (ptable s' ! i) =
      (let (c, pid, par) = heir me (initproc s) (pcore (ptable s ! i)) in (if i = me then Dead else c, pid, par))"
    using R(4) [OF i] i R(1) fin by (cases "i = me") (auto simp: pcore_def split: prod.split)
qed

lemma wait_view:
  assumes "wait me s = Inr (r, s')" "pclass (p_state (ptable s ! me)) = Alive"
  shows "(\<forall>pid. r = Return pid \<longrightarrow> pid = -1) \<and> pview s' = pview s \<or>
    (\<exists>i. i < length (ptable s) \<and> p_parent (ptable s ! i) = Some me \<and> p_state (ptable s ! i) = ZOMBIE \<and> r = Return (p_pid (ptable s ! i)) \<and>
      pview s' = ((map pcore (ptable s))[i := (Free, 0, None)], nextpid s, initproc s))"
proof (cases "find_index (\<lambda>p. p_parent p = Some me \<and> p_state p = ZOMBIE) (ptable s)")
  case None
  then show ?thesis using assms sleep_pview [of me True "Ch_proc me" s] by (auto simp: wait_def res_simps split: if_splits)
next
  case (Some i)
  note I = find_index_SomeD(1,2) [OF Some]
  from assms(1) Some obtain s1 s2 where s1: "on_km1 (kfree (p_kstack (ptable s ! i))) s = Inr s1"
      "on_km1 (freevm (p_pgdir (ptable s ! i))) (upd_proc i (\<lambda>p. p\<lparr>p_kstack := 0\<rparr>) s1) = Inr s2"
      "r = Return (p_pid (ptable s ! i))"
      "s' = upd_proc i (\<lambda>p. p\<lparr>p_state := UNUSED, p_pid := 0, p_parent := None, p_name := (p_name p)[0 := 0], p_killed := False\<rparr>) s2"
    by (auto simp: wait_def res_simps Let_def)
  have "pview (upd_proc i (\<lambda>p. p\<lparr>p_kstack := 0\<rparr>) s1) = pview s1" by (rule pview_upd_same) (simp add: pcore_def)
  then have "pview s2 = pview s" using on_km_pview(2) [OF s1(1)] on_km_pview(2) [OF s1(2)] by simp
  then have "pview s' = ((map pcore (ptable s))[i := (Free, 0, None)], nextpid s, initproc s)"
    unfolding s1(4) by (subst pview_upd_proc [of _ _ _ "(Free, 0, None)"]) (simp_all add: pcore_def pview_def)
  then show ?thesis using I s1(3) by blast
qed

section \<open>Any schedule\<close>

text \<open>The steps that processes, interrupts and the scheduler take on the process table. A process that acts is
  running. \<open>internal\<close> is every other step of the kernel, which leaves life, identifiers and parents alone.\<close>

inductive proc_step :: "kernel \<Rightarrow> kernel \<Rightarrow> bool" where
  st_fork: "me < length (ptable s) \<Longrightarrow> p_state (ptable s ! me) = RUNNING \<Longrightarrow> fork fk me s = Inr (pid, s') \<Longrightarrow> proc_step s s'"
| st_exit: "me < length (ptable s) \<Longrightarrow> p_state (ptable s ! me) = RUNNING \<Longrightarrow> exit me s = Inr s' \<Longrightarrow> proc_step s s'"
| st_wait: "me < length (ptable s) \<Longrightarrow> p_state (ptable s ! me) = RUNNING \<Longrightarrow> wait me s = Inr (r, s') \<Longrightarrow> proc_step s s'"
| st_sleep: "me < length (ptable s) \<Longrightarrow> p_state (ptable s ! me) = RUNNING \<Longrightarrow> sleep (Some me) lk ch s = Inr s' \<Longrightarrow> proc_step s s'"
| st_yield: "me < length (ptable s) \<Longrightarrow> p_state (ptable s ! me) = RUNNING \<Longrightarrow> proc_step s (yield me s)"
| st_wakeup: "proc_step s (wakeup ch s)"
| st_kill: "kill pid s = (r, s') \<Longrightarrow> proc_step s s'"
| st_chpr: "chpr pid pr s = (r, s') \<Longrightarrow> proc_step s s'"
| st_dispatch: "sched_pick (ptable s) i = Some p \<Longrightarrow> dispatch p s = Inr s' \<Longrightarrow> proc_step s s'"
| st_internal: "pview s' = pview s \<Longrightarrow> proc_step s s'"

text \<open>The invariant, on the view: identifiers of used entries are positive, below \<open>nextpid\<close> and different;
  \<open>initproc\<close> is alive, and every other used entry has a parent that is alive.\<close>

definition table_ok :: "(life \<times> int \<times> nat option) list \<times> int \<times> nat \<Rightarrow> bool" where
  "table_ok = (\<lambda>(cs, n, ip). 0 < n \<and> ip < length cs \<and> fst (cs ! ip) = Alive \<and>
     (\<forall>i < length cs. fst (cs ! i) \<noteq> Free \<longrightarrow> 0 < fst (snd (cs ! i)) \<and> fst (snd (cs ! i)) < n) \<and>
     (\<forall>i < length cs. \<forall>j < length cs. fst (cs ! i) \<noteq> Free \<and> fst (cs ! j) \<noteq> Free \<and> fst (snd (cs ! i)) = fst (snd (cs ! j)) \<longrightarrow> i = j) \<and>
     (\<forall>i < length cs. fst (cs ! i) \<noteq> Free \<and> i \<noteq> ip \<longrightarrow> (\<exists>q < length cs. snd (snd (cs ! i)) = Some q \<and> fst (cs ! q) = Alive)))"

lemma table_okI:
  assumes "0 < n" "ip < length cs" "fst (cs ! ip) = Alive"
    "\<And>i. i < length cs \<Longrightarrow> fst (cs ! i) \<noteq> Free \<Longrightarrow> 0 < fst (snd (cs ! i)) \<and> fst (snd (cs ! i)) < n"
    "\<And>i j. i < length cs \<Longrightarrow> j < length cs \<Longrightarrow> fst (cs ! i) \<noteq> Free \<Longrightarrow> fst (cs ! j) \<noteq> Free \<Longrightarrow> fst (snd (cs ! i)) = fst (snd (cs ! j)) \<Longrightarrow> i = j"
    "\<And>i. i < length cs \<Longrightarrow> fst (cs ! i) \<noteq> Free \<Longrightarrow> i \<noteq> ip \<Longrightarrow> \<exists>q < length cs. snd (snd (cs ! i)) = Some q \<and> fst (cs ! q) = Alive"
  shows "table_ok (cs, n, ip)"
  unfolding table_ok_def using assms by simp

lemma table_okD:
  assumes "table_ok (cs, n, ip)"
  shows "0 < n" "ip < length cs" "fst (cs ! ip) = Alive"
    "i < length cs \<Longrightarrow> fst (cs ! i) \<noteq> Free \<Longrightarrow> 0 < fst (snd (cs ! i)) \<and> fst (snd (cs ! i)) < n"
    "i < length cs \<Longrightarrow> j < length cs \<Longrightarrow> fst (cs ! i) \<noteq> Free \<Longrightarrow> fst (cs ! j) \<noteq> Free \<Longrightarrow> fst (snd (cs ! i)) = fst (snd (cs ! j)) \<Longrightarrow> i = j"
    "i < length cs \<Longrightarrow> fst (cs ! i) \<noteq> Free \<Longrightarrow> i \<noteq> ip \<Longrightarrow> \<exists>q < length cs. snd (snd (cs ! i)) = Some q \<and> fst (cs ! q) = Alive"
  using assms unfolding table_ok_def by simp_all

lemma table_ok_fork:
  assumes ok: "table_ok (cs, n, ip)" and i: "i < length cs" "fst (cs ! i) = Free"
    and c: "c = Free \<or> c = Alive \<and> par = Some me" and me: "me < length cs" "fst (cs ! me) = Alive"
  shows "table_ok (cs[i := (c, n, par)], n + 1, ip)"
proof (rule table_okI)
  note D = table_okD [OF ok]
  have nth: "cs[i := (c, n, par)] ! j = (if j = i then (c, n, par) else cs ! j)" for j using i(1) by (simp add: nth_list_update)
  have ip: "ip \<noteq> i" using D(3) i(2) by auto
  show "0 < n + 1" using D(1) by simp
  show "ip < length (cs[i := (c, n, par)])" using D(2) by simp
  show "fst (cs[i := (c, n, par)] ! ip) = Alive" using D(3) ip by (simp add: nth)
  have keep: "\<exists>q < length cs. snd (snd x) = Some q \<and> fst (cs[i := (c, n, par)] ! q) = Alive"
    if "\<exists>q < length cs. snd (snd x) = Some q \<and> fst (cs ! q) = Alive" for x :: "life \<times> int \<times> nat option"
  proof -
    from that obtain q where q: "q < length cs" "snd (snd x) = Some q" "fst (cs ! q) = Alive" by blast
    moreover have "q \<noteq> i" using q(3) i(2) by auto
    ultimately show ?thesis by (auto simp: nth)
  qed
  fix j assume "j < length (cs[i := (c, n, par)])" and u: "fst (cs[i := (c, n, par)] ! j) \<noteq> Free"
  then have j: "j < length cs" by simp
  show "0 < fst (snd (cs[i := (c, n, par)] ! j)) \<and> fst (snd (cs[i := (c, n, par)] ! j)) < n + 1"
    using D(1) D(4) [OF j] u by (auto simp: nth)
  show "j \<noteq> ip \<Longrightarrow> \<exists>q < length (cs[i := (c, n, par)]). snd (snd (cs[i := (c, n, par)] ! j)) = Some q \<and> fst (cs[i := (c, n, par)] ! q) = Alive"
  proof (cases "j = i")
    case True
    then have "c = Alive" "par = Some me" using u c by (auto simp: nth)
    moreover have "me \<noteq> i" using me(2) i(2) by auto
    ultimately show ?thesis unfolding nth using True me by (intro exI [of _ me]) simp
  next
    case False
    then show "j \<noteq> ip \<Longrightarrow> ?thesis" using keep [OF D(6) [OF j]] u by (simp add: nth)
  qed
  fix k assume k: "k < length (cs[i := (c, n, par)])" and v: "fst (cs[i := (c, n, par)] ! k) \<noteq> Free"
    and eq: "fst (snd (cs[i := (c, n, par)] ! j)) = fst (snd (cs[i := (c, n, par)] ! k))"
  show "j = k" using D(4) [OF j] D(4) [of k] D(5) [OF j, of k] u v eq k by (auto simp: nth split: if_splits)
qed

lemma table_ok_reap:
  assumes ok: "table_ok (cs, n, ip)" and i: "i < length cs" "fst (cs ! i) = Dead"
  shows "table_ok (cs[i := (Free, 0, None)], n, ip)"
proof (rule table_okI)
  note D = table_okD [OF ok]
  have nth: "cs[i := (Free, 0, None)] ! j = (if j = i then (Free, 0, None) else cs ! j)" for j using i(1) by (simp add: nth_list_update)
  show "0 < n" "ip < length (cs[i := (Free, 0, None)])" "fst (cs[i := (Free, 0, None)] ! ip) = Alive"
    using D(1-3) i(2) by (auto simp: nth)
  fix j assume "j < length (cs[i := (Free, 0, None)])" and u: "fst (cs[i := (Free, 0, None)] ! j) \<noteq> Free"
  then have j: "j < length cs" "j \<noteq> i" by (auto simp: nth split: if_splits)
  show "0 < fst (snd (cs[i := (Free, 0, None)] ! j)) \<and> fst (snd (cs[i := (Free, 0, None)] ! j)) < n"
    using D(4) [OF j(1)] u j(2) by (simp add: nth)
  show "j \<noteq> ip \<Longrightarrow> \<exists>q < length (cs[i := (Free, 0, None)]). snd (snd (cs[i := (Free, 0, None)] ! j)) = Some q \<and> fst (cs[i := (Free, 0, None)] ! q) = Alive"
  proof -
    assume "j \<noteq> ip"
    with D(6) [OF j(1)] u j(2) obtain q where q: "q < length cs" "snd (snd (cs ! j)) = Some q" "fst (cs ! q) = Alive" by (auto simp: nth)
    moreover have "q \<noteq> i" using q(3) i(2) by auto
    ultimately show ?thesis using j(2) by (auto simp: nth)
  qed
  fix k assume k: "k < length (cs[i := (Free, 0, None)])" and v: "fst (cs[i := (Free, 0, None)] ! k) \<noteq> Free"
    and eq: "fst (snd (cs[i := (Free, 0, None)] ! j)) = fst (snd (cs[i := (Free, 0, None)] ! k))"
  show "j = k" using D(5) [OF j(1), of k] u v eq k j(2) by (auto simp: nth split: if_splits)
qed

lemma table_ok_exit:
  assumes ok: "table_ok (cs, n, ip)" and me: "me < length cs" "fst (cs ! me) = Alive" "me \<noteq> ip" and len: "length ds = length cs"
    and new: "\<And>i. i < length cs \<Longrightarrow> ds ! i = (let (c, pid, par) = heir me ip (cs ! i) in (if i = me then Dead else c, pid, par))"
  shows "table_ok (ds, n, ip)"
proof (rule table_okI)
  note D = table_okD [OF ok]
  have F: "fst (ds ! i) = (if i = me then Dead else fst (cs ! i))" "fst (snd (ds ! i)) = fst (snd (cs ! i))"
      "snd (snd (ds ! i)) = (if snd (snd (cs ! i)) = Some me then Some ip else snd (snd (cs ! i)))" if "i < length cs" for i
    using new [OF that] by (auto simp: heir_def split: prod.splits)
  show "0 < n" "ip < length ds" "fst (ds ! ip) = Alive" using D(1-3) me(3) len F(1) [of ip] by auto
  fix i assume "i < length ds" and u: "fst (ds ! i) \<noteq> Free"
  then have i: "i < length cs" "fst (cs ! i) \<noteq> Free" using len F(1) [of i] me(2) by (auto split: if_splits)
  show "0 < fst (snd (ds ! i)) \<and> fst (snd (ds ! i)) < n" using D(4) [OF i] F(2) [OF i(1)] by simp
  show "i \<noteq> ip \<Longrightarrow> \<exists>q < length ds. snd (snd (ds ! i)) = Some q \<and> fst (ds ! q) = Alive"
  proof -
    assume "i \<noteq> ip"
    with D(6) [OF i] obtain q where q: "q < length cs" "snd (snd (cs ! i)) = Some q" "fst (cs ! q) = Alive" by blast
    show ?thesis
    proof (cases "q = me")
      case True
      then show ?thesis using q F [OF i(1)] F(1) [OF D(2)] D(2,3) me(3) len by auto
    next
      case False
      then show ?thesis using q F(3) [OF i(1)] F(1) [OF q(1)] len by auto
    qed
  qed
  fix j assume "j < length ds" and v: "fst (ds ! j) \<noteq> Free" and eq: "fst (snd (ds ! i)) = fst (snd (ds ! j))"
  then have j: "j < length cs" "fst (cs ! j) \<noteq> Free" using len F(1) [of j] me(2) by (auto split: if_splits)
  show "i = j" using D(5) [OF i(1) j(1) i(2) j(2)] eq F(2) [OF i(1)] F(2) [OF j(1)] by simp
qed

text \<open>Every step keeps the invariant: by cases on the step, with what its operation does to the view.\<close>

lemma sched_pview:
  "pclass (p_state (ptable s ! me)) = Alive \<Longrightarrow> pview (yield me s) = pview s"
  "kill pid s = (r, s') \<Longrightarrow> pview s' = pview s" "chpr pid pr s = (r, s') \<Longrightarrow> pview s' = pview s"
  "sched_pick (ptable s) i = Some p \<Longrightarrow> dispatch p s = Inr s' \<Longrightarrow> pview s' = pview s"
proof -
  show "pclass (p_state (ptable s ! me)) = Alive \<Longrightarrow> pview (yield me s) = pview s"
    unfolding yield_def by (rule pview_upd_same) (simp add: pcore_def)
  show "chpr pid pr s = (r, s') \<Longrightarrow> pview s' = pview s"
    by (auto simp: chpr_def pcore_def intro!: pview_upd_same split: option.splits)
  show "pview s' = pview s" if d: "sched_pick (ptable s) i = Some p" "dispatch p s = Inr s'"
  proof -
    have "s' = upd_proc p (\<lambda>p. p\<lparr>p_state := RUNNING\<rparr>) s" using d(2) by (auto simp: dispatch_def split: if_splits)
    then show ?thesis using sched_pick_Some(2) [OF d(1)] by (auto simp: pcore_def intro: pview_upd_same)
  qed
  show "pview s' = pview s" if "kill pid s = (r, s')"
  proof (cases "find_index (\<lambda>p. p_pid p = pid) (ptable s)")
    case None
    then show ?thesis using that by (simp add: kill_def)
  next
    case (Some j)
    define s1 where "s1 = upd_proc j (\<lambda>p. p\<lparr>p_killed := True\<rparr>) s"
    have "pview s1 = pview s" unfolding s1_def by (rule pview_upd_same) (simp add: pcore_def)
    moreover have "p_state (ptable s1 ! j) = SLEEPING \<Longrightarrow> pview (upd_proc j (\<lambda>p. p\<lparr>p_state := RUNNABLE\<rparr>) s1) = pview s1"
      by (rule pview_upd_same) (simp add: pcore_def)
    ultimately show ?thesis using that Some by (auto simp: kill_def Let_def s1_def split: if_splits)
  qed
qed

lemma proc_step_ok:
  assumes "proc_step s s'" "table_ok (pview s)"
  shows "table_ok (pview s')"
  using assms
proof (induction rule: proc_step.induct)
  case (st_fork me s fk pid s')
  have "p_state (ptable s ! me) \<noteq> UNUSED" using st_fork(2) by simp
  from fork_view [OF st_fork(3,1) this] show ?case
  proof
    assume "\<exists>i c par. i < length (ptable s) \<and> p_state (ptable s ! i) = UNUSED \<and>
      pview s' = ((map pcore (ptable s))[i := (c, nextpid s, par)], nextpid s + 1, initproc s) \<and>
      (pid = -1 \<and> c = Free \<and> par = p_parent (ptable s ! i) \<or> pid = nextpid s \<and> c = Alive \<and> par = Some me)"
    then obtain i c par where i: "i < length (ptable s)" "p_state (ptable s ! i) = UNUSED"
      "pview s' = ((map pcore (ptable s))[i := (c, nextpid s, par)], nextpid s + 1, initproc s)" "c = Free \<or> c = Alive \<and> par = Some me" by blast
    have "map pcore (ptable s) ! me = (Alive, p_pid (ptable s ! me), p_parent (ptable s ! me))"
      using st_fork(1,2) by (simp add: pcore_def)
    then show ?thesis unfolding i(3) using st_fork(1,4) i(1,2,4)
      by (intro table_ok_fork [where me = me]) (simp_all add: pview_def pcore_def)
  qed (use st_fork(4) in simp)
next
  case (st_exit me s s')
  have al: "pclass (p_state (ptable s ! me)) = Alive" using st_exit(2) by simp
  note E = exit_view [OF st_exit(3,1) al]
  have ok: "table_ok (map pcore (ptable s), nextpid s, initproc s)" using st_exit(4) by (simp add: pview_def)
  have "table_ok (map pcore (ptable s'), nextpid s, initproc s)"
  proof (rule table_ok_exit [OF ok, of me])
    fix i assume "i < length (map pcore (ptable s))"
    then show "map pcore (ptable s') ! i =
        (let (c, pid, par) = heir me (initproc s) (map pcore (ptable s) ! i) in (if i = me then Dead else c, pid, par))"
      using E(4,5) by simp
  qed (use E st_exit(1) al in \<open>simp_all add: pcore_def\<close>)
  then show ?case using E(2,3) by (simp add: pview_def)
next
  case (st_wait me s r s')
  have al: "pclass (p_state (ptable s ! me)) = Alive" using st_wait(2) by simp
  from wait_view [OF st_wait(3) al] st_wait(4) show ?case
    by (auto simp: pview_def pcore_def intro!: table_ok_reap)
qed (auto simp: sleep_pview sched_pview pview_frame)


lemma demo_table_ok: "table_ok (pview demo_kernel)"
proof -
  have nth: "map pcore (ptable demo_kernel) ! i = (if i = 0 then (Alive, 1, None) else (Free, 0, None))" if "i < NPROC" for i
    using that by (cases i) (auto simp: demo_kernel_def pcore_def demo_proc_def NPROC_def)
  have len: "length (map pcore (ptable demo_kernel)) = NPROC" "NPROC > 0" "nextpid demo_kernel = 2" "initproc demo_kernel = 0"
    by (simp_all add: demo_kernel_def NPROC_def)
  define cs where "cs = map pcore (ptable demo_kernel)"
  show ?thesis unfolding pview_def cs_def [symmetric]
    by (rule table_okI) (use nth len in \<open>auto simp: cs_def [symmetric] split: if_splits\<close>)
qed


end
