(* ===== verification/Syscall.thy ===== *)
theory Syscall
  imports Proc
begin

unbundle bit_operations_syntax

text \<open>
  The argument fetching of \<open>kernel/syscall.c\<close>: system calls take their arguments from the registers of the
  trap frame, and pointers among them are checked against the size of the process before the kernel
  follows them. The kernel runs on the page table of the calling process, so that following a user
  address is a walk of that table (\<open>user_pa\<close>); a missing page is a page fault in kernel mode, on which
  \<open>trap\<close> panics. The lemmas show what a checked pointer and a checked string guarantee.
\<close>

section \<open>User memory seen from the kernel\<close>

text \<open>The kernel address a user address is mapped to. Only the first entry of the third-level table is
  present, so that an address of \<open>2 ^ 30\<close> or more is never mapped; the user bit does not stop the kernel.\<close>

definition user_pa :: "nat \<Rightarrow> nat \<Rightarrow> kmem \<Rightarrow> nat option" where
  "user_pa pgdir va k =
     (if va \<ge> 2 ^ 30 then None
      else
        let pte = fst (walkpgdir pgdir va False k); e = load_ptr (km_mem k) pte
        in if pte = 0 \<or> e AND PTE_P = 0 then None else Some (p2v (PTE_ADDR e) + va mod PGSIZE))"

fun uload :: "nat \<Rightarrow> nat \<Rightarrow> nat \<Rightarrow> kmem \<Rightarrow> byte list res" where
  "uload pgdir a 0 k = Inr []"
| "uload pgdir a (Suc n) k =
     (case user_pa pgdir a k of
        None \<Rightarrow> Inl (Panic ''trap'')
      | Some x \<Rightarrow> res_bind (uload pgdir (a + 1) n k) (\<lambda>bs. Inr (km_mem k x # bs)))"

fun ustore :: "nat \<Rightarrow> nat \<Rightarrow> byte list \<Rightarrow> kmem \<Rightarrow> kmem res" where
  "ustore pgdir a [] k = Inr k"
| "ustore pgdir a (b # bs) k =
     (case user_pa pgdir a k of
        None \<Rightarrow> Inl (Panic ''trap'')
      | Some x \<Rightarrow> ustore pgdir (a + 1) bs (k\<lparr>km_mem := (km_mem k)(x := b)\<rparr>))"

section \<open>Fetching\<close>

definition fetchint :: "nat \<Rightarrow> nat \<Rightarrow> kernel \<Rightarrow> int option res" where
  "fetchint me addr s =
     (let p = ptable s ! me
      in if addr \<ge> p_sz p \<or> (addr + 4) mod 2 ^ 64 > p_sz p then Inr None
         else res_bind (uload (p_pgdir p) addr 4 (km s)) (\<lambda>bs. Inr (Some (int_of_u32 (le_dec bs)))))"

definition fetchuintp :: "nat \<Rightarrow> nat \<Rightarrow> kernel \<Rightarrow> nat option res" where
  "fetchuintp me addr s =
     (let p = ptable s ! me
      in if addr \<ge> p_sz p \<or> (addr + 8) mod 2 ^ 64 > p_sz p then Inr None
         else res_bind (uload (p_pgdir p) addr 8 (km s)) (\<lambda>bs. Inr (Some (le_dec bs))))"

text \<open>The loop of \<open>fetchstr\<close>, with \<open>n\<close> bytes left to the end of the process: the string before its NUL, whose
  length is the return value, or \<open>None\<close> for -1.\<close>

fun fetchstr_loop :: "nat \<Rightarrow> nat \<Rightarrow> nat \<Rightarrow> kmem \<Rightarrow> byte list option res" where
  "fetchstr_loop pgdir a 0 k = Inr None"
| "fetchstr_loop pgdir a (Suc n) k =
     (case user_pa pgdir a k of
        None \<Rightarrow> Inl (Panic ''trap'')
      | Some x \<Rightarrow>
          if km_mem k x = 0 then Inr (Some [])
          else res_bind (fetchstr_loop pgdir (a + 1) n k) (\<lambda>r. Inr (map_option (Cons (km_mem k x)) r)))"

definition fetchstr :: "nat \<Rightarrow> nat \<Rightarrow> kernel \<Rightarrow> byte list option res" where
  "fetchstr me addr s =
     (let p = ptable s ! me
      in if addr \<ge> p_sz p then Inr None else fetchstr_loop (p_pgdir p) addr (p_sz p - addr) (km s))"

section \<open>Arguments\<close>

definition fetcharg :: "trapframe \<Rightarrow> nat \<Rightarrow> u64" where
  "fetcharg tf n =
     (if n = 0 then tf_rdi tf else if n = 1 then tf_rsi tf else if n = 2 then tf_rdx tf
      else if n = 3 then tf_rcx tf else if n = 4 then tf_r8 tf else if n = 5 then tf_r9 tf else 0)"

text \<open>\<open>argint\<close> and \<open>arguintp\<close> always succeed; an \<open>int\<close> is the low half of the register.\<close>

definition argint :: "nat \<Rightarrow> nat \<Rightarrow> kernel \<Rightarrow> int" where
  "argint me n s = int_of_u32 (unat (fetcharg (p_tf (ptable s ! me)) n) mod 2 ^ 32)"

definition arguintp :: "nat \<Rightarrow> nat \<Rightarrow> kernel \<Rightarrow> nat" where
  "arguintp me n s = unat (fetcharg (p_tf (ptable s ! me)) n)"

text \<open>\<open>argptr\<close>: the sum is computed in 64 bits, with the \<open>int\<close> \<open>size\<close> (here \<open>len\<close>) sign-extended.\<close>

definition argptr :: "nat \<Rightarrow> nat \<Rightarrow> int \<Rightarrow> kernel \<Rightarrow> nat option" where
  "argptr me n len s =
     (let i = arguintp me n s; sz = p_sz (ptable s ! me)
      in if i \<ge> sz \<or> nat ((int i + len) mod 2 ^ 64) > sz then None else Some i)"

definition argstr :: "nat \<Rightarrow> nat \<Rightarrow> kernel \<Rightarrow> byte list option res" where
  "argstr me n s = fetchstr me (arguintp me n s) s"

text \<open>\<open>proc->cwd\<close> as \<open>namex\<close> uses it: only for a path that does not start at the root.\<close>

definition cwd_for :: "nat \<Rightarrow> byte list \<Rightarrow> kernel \<Rightarrow> nat res" where
  "cwd_for me path s =
     (if path \<noteq> [] \<and> hd path = slash then Inr 0
      else case p_cwd (ptable s ! me) of None \<Rightarrow> Inl (Undefined ''null cwd'') | Some cwd \<Rightarrow> Inr cwd)"

section \<open>The environment of a call\<close>

text \<open>What a system call depends on besides the state: the device switch, the address of \<open>forkret\<close>, and what
  uninitialised local buffers happen to hold (a name, an ELF header). A call returns a value, or goes
  to sleep (with the progress it has made) and is resumed later, or never returns.\<close>

record kenv =
  en_dev :: "kernel devsw"
  en_forkret :: u64
  en_junk :: "byte list"
  en_junk1 :: "byte list"

datatype sysret = Done int | Waits nat | Gone

fun of_pipe :: "pipe_ret \<Rightarrow> sysret" where
  "of_pipe (Return r) = Done r"
| "of_pipe (Blocked i) = Waits i"

section \<open>What the checks guarantee\<close>

text \<open>C36: The check of \<open>argptr\<close> is exact for sizes that are not negative: for a process smaller than
  \<open>2 ^ 63\<close> bytes the block of \<open>len\<close> bytes is accepted if and only if all of it, and its first byte even when
  \<open>len\<close> is 0, lies below the size of the process; the 64-bit sum cannot wrap around past the check.\<close>

theorem argptr_bounds:
  assumes "0 \<le> len" "len < 2 ^ 31" "p_sz (ptable s ! me) < 2 ^ 63"
  shows "argptr me n len s = (if arguintp me n s < p_sz (ptable s ! me) \<and> arguintp me n s + nat len \<le> p_sz (ptable s ! me)
    then Some (arguintp me n s) else None)"
proof (cases "arguintp me n s < p_sz (ptable s ! me)")
  case True
  with assms have "(int (arguintp me n s) + len) mod 2 ^ 64 = int (arguintp me n s) + len" by (intro mod_pos_pos_trivial) auto
  with True show ?thesis using assms(1) by (auto simp: argptr_def Let_def)
qed (simp add: argptr_def)

theorem argptr_bounds_witness:
  "argptr 0 1 4096 (upd_proc 0 (\<lambda>p. p\<lparr>p_tf := (p_tf p)\<lparr>tf_rsi := 1\<rparr>\<rparr>) demo_kernel) = None"
proof -
  let ?s = "upd_proc 0 (\<lambda>p. p\<lparr>p_tf := (p_tf p)\<lparr>tf_rsi := 1\<rparr>\<rparr>) demo_kernel"
  have "p_sz (ptable ?s ! 0) = 4096" "arguintp 0 1 ?s = 1" by (simp_all add: demo_kernel_def arguintp_def fetcharg_def)
  then show ?thesis using argptr_bounds [of 4096 ?s 0 1] by simp
qed

text \<open>A negative size is accepted whenever the sum does not go below zero: the check then says nothing.\<close>

lemma argptr_negative:
  assumes "len < 0" "- len \<le> int (arguintp me n s)" "arguintp me n s < p_sz (ptable s ! me)" "p_sz (ptable s ! me) < 2 ^ 63"
  shows "argptr me n len s = Some (arguintp me n s)"
proof -
  have "(int (arguintp me n s) + len) mod 2 ^ 64 = int (arguintp me n s) + len" using assms by (intro mod_pos_pos_trivial) auto
  then show ?thesis using assms by (simp add: argptr_def Let_def)
qed

lemma fetchstr_loop_Some:
  "fetchstr_loop pgdir a n k = Inr (Some bs) \<Longrightarrow>
     length bs < n \<and> 0 \<notin> set bs \<and> uload pgdir a (length bs + 1) k = Inr (bs @ [0])"
proof (induction n arbitrary: a bs)
  case (Suc n)
  from Suc.prems obtain x where x: "user_pa pgdir a k = Some x" by (auto split: option.splits)
  show ?case
  proof (cases "km_mem k x = 0")
    case True
    then show ?thesis using Suc.prems x by simp
  next
    case False
    with Suc.prems x obtain cs where cs: "fetchstr_loop pgdir (a + 1) n k = Inr (Some cs)" "bs = km_mem k x # cs"
      by (auto simp: res_simps)
    with Suc.IH [OF cs(1)] x False show ?thesis by (simp add: res_simps)
  qed
qed simp

lemma fetchstr_loop_None:
  "fetchstr_loop pgdir a n k = Inr None \<Longrightarrow> \<exists>bs. uload pgdir a n k = Inr bs \<and> 0 \<notin> set bs"
proof (induction n arbitrary: a)
  case (Suc n)
  from Suc.prems obtain x where x: "user_pa pgdir a k = Some x" by (auto split: option.splits)
  with Suc.prems have "km_mem k x \<noteq> 0" "fetchstr_loop pgdir (a + 1) n k = Inr None" by (auto simp: res_simps split: if_splits)
  with Suc.IH [OF this(2)] x show ?case by auto
qed simp

text \<open>A string argument is safe to use: when \<open>argstr\<close> succeeds, the bytes from the address on are a string
  without inner NULs followed by a NUL, and the NUL too lies below the size of the process; when it
  fails the address is not below the size, or there is no NUL up to the end of the process.\<close>

theorem argstr_correct:
  assumes "argstr me n s = Inr r"
  defines "p \<equiv> ptable s ! me" and "a \<equiv> arguintp me n s"
  shows "case r of
      Some bs \<Rightarrow> a + length bs < p_sz p \<and> 0 \<notin> set bs \<and> uload (p_pgdir p) a (length bs + 1) (km s) = Inr (bs @ [0])
    | None \<Rightarrow> a \<ge> p_sz p \<or> (\<exists>bs. uload (p_pgdir p) a (p_sz p - a) (km s) = Inr bs \<and> 0 \<notin> set bs)"
proof (cases "a \<ge> p_sz p")
  case True
  then show ?thesis using assms(1) by (auto simp: argstr_def fetchstr_def Let_def p_def a_def)
next
  case False
  then have "fetchstr_loop (p_pgdir p) a (p_sz p - a) (km s) = Inr r" using assms by (simp add: argstr_def fetchstr_def Let_def)
  then show ?thesis using fetchstr_loop_Some [of "p_pgdir p" a "p_sz p - a" "km s"] fetchstr_loop_None [of "p_pgdir p" a "p_sz p - a" "km s"] False
    by (cases r) (auto simp del: fetchstr_loop.simps uload.simps)
qed

theorem argstr_correct_witness:
  "argstr 0 0 (upd_proc 0 (\<lambda>p. p\<lparr>p_tf := (p_tf p)\<lparr>tf_rdi := 5000\<rparr>\<rparr>) demo_kernel) = Inr None \<and> (5000::nat) \<ge> 4096"
proof -
  let ?s = "upd_proc 0 (\<lambda>p. p\<lparr>p_tf := (p_tf p)\<lparr>tf_rdi := 5000\<rparr>\<rparr>) demo_kernel"
  have e: "p_sz (ptable ?s ! 0) = 4096" "arguintp 0 0 ?s = 5000" by (simp_all add: demo_kernel_def arguintp_def fetcharg_def)
  then have r: "argstr 0 0 ?s = Inr None" by (simp add: argstr_def fetchstr_def)
  have "arguintp 0 0 ?s \<ge> p_sz (ptable ?s ! 0) \<or> (\<exists>bs. uload (p_pgdir (ptable ?s ! 0)) (arguintp 0 0 ?s) (p_sz (ptable ?s ! 0) - arguintp 0 0 ?s) (km ?s) = Inr bs \<and> 0 \<notin> set bs)"
    using argstr_correct [OF r] by simp
  then show ?thesis using r e by simp
qed

lemma uload_length: "uload pgdir a n k = Inr bs \<Longrightarrow> length bs = n"
  by (induction n arbitrary: a bs) (auto simp: res_simps split: option.splits)

end
