(* ===== verification/Exec.thy ===== *)
theory Exec
  imports Syscall
begin

unbundle bit_operations_syntax

text \<open>
  \<open>kernel/exec.c\<close> and \<open>loaduvm\<close> of \<open>kernel/vm.c\<close>: loading an ELF file into a new address space, building the
  stack of the new program with its arguments, and switching the process over. The property is
  that a call that fails leaves the image of the process alone.
\<close>

section \<open>ELF files\<close>

record elfhdr =
  e_magic :: nat
  e_entry :: nat
  e_phoff :: nat
  e_phnum :: nat

record proghdr =
  ph_type :: nat
  ph_flags :: nat
  ph_off :: nat
  ph_vaddr :: nat
  ph_paddr :: nat
  ph_filesz :: nat
  ph_memsz :: nat
  ph_align :: nat

definition ELF_MAGIC :: nat where "ELF_MAGIC = 0x464C457F"
definition ELF_PROG_LOAD :: nat where "ELF_PROG_LOAD = 1"
definition ELFHDR_SIZE :: nat where "ELFHDR_SIZE = 64"
definition PROGHDR_SIZE :: nat where "PROGHDR_SIZE = 56"
definition MAXARG :: nat where "MAXARG = 32"

definition get_u64 :: "nat \<Rightarrow> byte list \<Rightarrow> nat" where
  "get_u64 off d = le_dec (slice off 8 d)"

text \<open>The fields \<open>exec\<close> uses, at their offsets in the structures.\<close>

definition dec_elfhdr :: "byte list \<Rightarrow> elfhdr" where
  "dec_elfhdr d = \<lparr>e_magic = get_u32 0 d, e_entry = get_u64 24 d, e_phoff = get_u64 32 d, e_phnum = get_u16 56 d\<rparr>"

definition dec_proghdr :: "byte list \<Rightarrow> proghdr" where
  "dec_proghdr d = \<lparr>ph_type = get_u32 0 d, ph_flags = get_u32 4 d, ph_off = get_u64 8 d, ph_vaddr = get_u64 16 d,
     ph_paddr = get_u64 24 d, ph_filesz = get_u64 32 d, ph_memsz = get_u64 40 d, ph_align = get_u64 48 d\<rparr>"

definition u64_of_int :: "int \<Rightarrow> nat" where
  "u64_of_int x = nat (x mod 2 ^ 64)"

section \<open>Loading\<close>

text \<open>The loop of \<open>loaduvm\<close> from \<open>i\<close> on, with \<open>r = sz - i\<close> bytes to go; \<open>i\<close>, \<open>pa\<close> and \<open>offset\<close> are \<open>uint\<close>, and the loop
  would start over if \<open>i\<close> wrapped around. The result is the return value.\<close>

function loaduvm_loop :: "kernel devsw \<Rightarrow> nat \<Rightarrow> nat \<Rightarrow> nat \<Rightarrow> nat \<Rightarrow> nat \<Rightarrow> nat \<Rightarrow> kernel \<Rightarrow> (int \<times> kernel) res" where
  "loaduvm_loop dv pgdir addr ip offset i r s =
     (if r > 0 then
        let pte = fst (walkpgdir pgdir ((addr + i) mod 2 ^ 64) False (km s))
        in if pte = 0 then Inl (Panic ''loaduvm: address should exist'')
           else
             let pa = PTE_ADDR (load_ptr (km_mem (km s)) pte) mod 2 ^ 32; n = (if r < PGSIZE then r else PGSIZE)
             in res_bind (readi dv ip ((offset + i) mod 2 ^ 32) n s) (\<lambda>(m, bs, s).
                  let s = s\<lparr>km := copy_in (p2v pa) bs (km s)\<rparr>
                  in if m \<noteq> int n then Inr (-1, s)
                     else if i + PGSIZE \<ge> 2 ^ 32 then Inl (Undefined ''loaduvm: the counter wraps around'')
                     else loaduvm_loop dv pgdir addr ip offset (i + PGSIZE) (r - n) s)
      else Inr (0, s))"
  by pat_completeness auto
termination
  by (relation "measure (\<lambda>(dv, pgdir, addr, ip, offset, i, r, s). r)") (auto simp: PGSIZE_def)

declare loaduvm_loop.simps [simp del]

definition loaduvm :: "kernel devsw \<Rightarrow> nat \<Rightarrow> nat \<Rightarrow> nat \<Rightarrow> nat \<Rightarrow> nat \<Rightarrow> kernel \<Rightarrow> (int \<times> kernel) res" where
  "loaduvm dv pgdir addr ip offset sz s =
     (if addr mod PGSIZE \<noteq> 0 then Inl (Panic ''loaduvm: addr must be page aligned'')
      else loaduvm_loop dv pgdir addr ip offset 0 sz s)"

text \<open>The loop of \<open>exec\<close> over \<open>k\<close> program headers from offset \<open>off\<close>, an \<open>int\<close>: the new size, or \<open>None\<close> for
  \<open>goto bad\<close>. The arguments of \<open>allocuvm\<close> and \<open>loaduvm\<close> are cut to 32 bits; the result of \<open>allocuvm\<close> is an
  \<open>int\<close> stored in 64 bits. A short read leaves the header as it was, but then it is not used.\<close>

fun exec_load :: "kernel devsw \<Rightarrow> nat \<Rightarrow> nat \<Rightarrow> nat \<Rightarrow> nat \<Rightarrow> nat \<Rightarrow> kernel \<Rightarrow> (nat option \<times> kernel) res" where
  "exec_load dv ip pgdir 0 off sz s = Inr (Some sz, s)"
| "exec_load dv ip pgdir (Suc k) off sz s =
     res_bind (readi dv ip off PROGHDR_SIZE s) (\<lambda>(n, bs, s).
       if n \<noteq> int PROGHDR_SIZE then Inr (None, s)
       else
         let ph = dec_proghdr bs; off1 = (off + PROGHDR_SIZE) mod 2 ^ 32
         in if ph_type ph \<noteq> ELF_PROG_LOAD then exec_load dv ip pgdir k off1 sz s
            else if ph_memsz ph < ph_filesz ph then Inr (None, s)
            else
              res_bind (on_km (allocuvm pgdir (sz mod 2 ^ 32) ((ph_vaddr ph + ph_memsz ph) mod 2 ^ 32)) s) (\<lambda>(r, s).
                if r = 0 then Inr (None, s)
                else
                  res_bind (loaduvm dv pgdir (ph_vaddr ph) ip (ph_off ph mod 2 ^ 32) (ph_filesz ph mod 2 ^ 32) s) (\<lambda>(l, s).
                    if l < 0 then Inr (None, s) else exec_load dv ip pgdir k off1 (u64_of_int r) s)))"

section \<open>The new stack\<close>

text \<open>Where an argument goes (the stack pointer is rounded down to a word), and the loop over the arguments: \<open>us\<close> are the stack addresses of those already copied. The result is the
  final stack pointer and all addresses, or \<open>None\<close> for \<open>goto bad\<close>.\<close>

definition arg_sp :: "nat \<Rightarrow> byte list \<Rightarrow> nat" where
  "arg_sp sp a = (sp + 2 ^ 64 - (length a + 1)) mod 2 ^ 64 div 8 * 8"

fun exec_args :: "nat \<Rightarrow> byte list list \<Rightarrow> nat \<Rightarrow> nat list \<Rightarrow> kernel \<Rightarrow> ((nat \<times> nat list) option \<times> kernel) res" where
  "exec_args pgdir [] sp us s = Inr (Some (sp, us), s)"
| "exec_args pgdir (a # as) sp us s =
     (if length us \<ge> MAXARG then Inr (None, s)
      else
        let sp = arg_sp sp a
        in res_bind (on_km (copyout pgdir (sp mod 2 ^ 32) (a @ [0])) s) (\<lambda>(r, s).
             if r < 0 then Inr (None, s) else exec_args pgdir as sp (us @ [sp]) s))"

text \<open>The words of \<open>ustack\<close>: fake return address, \<open>argc\<close>, the address of \<open>argv\<close>, the argument addresses, 0.\<close>

definition ustack_bytes :: "nat \<Rightarrow> nat list \<Rightarrow> byte list" where
  "ustack_bytes sp us =
     concat (map (le_enc 8) ([0xffffffff, length us, (sp + 2 ^ 64 - (length us + 1) * 8) mod 2 ^ 64] @ us @ [0]))"

text \<open>The name after the last slash of the path.\<close>

definition last_elem :: "byte list \<Rightarrow> byte list" where
  "last_elem path = rev (takeWhile (\<lambda>c. c \<noteq> slash) (rev path))"

section \<open>exec\<close>

text \<open>The label \<open>bad\<close>.\<close>

definition exec_bad :: "nat \<Rightarrow> nat option \<Rightarrow> kernel \<Rightarrow> (int \<times> kernel) res" where
  "exec_bad pgdir ip s =
     res_bind (if pgdir \<noteq> 0 then on_km1 (freevm pgdir) s else Inr s) (\<lambda>s.
     res_bind (case ip of Some i \<Rightarrow> iunlockput i s | None \<Rightarrow> Inr s) (\<lambda>s. Inr (-1, s)))"

text \<open>From the two pages for the stack on, for a program of \<open>sz\<close> bytes loaded into \<open>pgdir\<close>.\<close>

definition exec_stack :: "nat \<Rightarrow> byte list \<Rightarrow> byte list list \<Rightarrow> elfhdr \<Rightarrow> nat \<Rightarrow> nat \<Rightarrow> kernel \<Rightarrow> (int \<times> kernel) res" where
  "exec_stack me path argv elf pgdir sz s =
     (let sz = PGROUNDUP sz
      in res_bind (on_km (allocuvm pgdir (sz mod 2 ^ 32) ((sz + 2 * PGSIZE) mod 2 ^ 32)) s) (\<lambda>(r, s).
         if r = 0 then exec_bad pgdir None s
         else
           let sz = u64_of_int r
           in res_bind (on_km1 (clearpteu pgdir ((sz + 2 ^ 64 - 2 * PGSIZE) mod 2 ^ 64)) s) (\<lambda>s.
              res_bind (exec_args pgdir argv sz [] s) (\<lambda>(a, s).
                case a of
                  None \<Rightarrow> exec_bad pgdir None s
                | Some (sp, us) \<Rightarrow>
                    let argc = length us; av = (sp + 2 ^ 64 - (argc + 1) * 8) mod 2 ^ 64;
                        s = upd_proc me (\<lambda>p. p\<lparr>p_tf := (p_tf p)\<lparr>tf_rdi := of_nat argc, tf_rsi := of_nat av\<rparr>\<rparr>) s;
                        sp1 = (sp + 2 ^ 64 - (3 + argc + 1) * 8) mod 2 ^ 64
                    in res_bind (on_km (copyout pgdir (sp1 mod 2 ^ 32) (ustack_bytes sp us)) s) (\<lambda>(r, s).
                         if r < 0 then exec_bad pgdir None s
                         else
                           let oldpgdir = p_pgdir (ptable s ! me);
                               s = upd_proc me (\<lambda>p. p\<lparr>p_name := safestrcpy_l (p_name p) (last_elem path) 16, p_pgdir := pgdir, p_sz := sz,
                                     p_tf := (p_tf p)\<lparr>tf_eip := of_nat (e_entry elf), tf_esp := of_nat sp1\<rparr>\<rparr>) s
                           in res_bind (switchuvm pgdir (km s)) (\<lambda>_.
                              res_bind (on_km1 (freevm oldpgdir) s) (\<lambda>s. Inr (0, s))))))))"

text \<open>\<open>junk\<close> is what the uninitialised buffers of \<open>namei\<close> hold, \<open>junk1\<close> the uninitialised ELF header. The check
  of the read compares an \<open>int\<close> with a \<open>size_t\<close>, so that a failed read (-1) passes it.\<close>

definition exec :: "kernel devsw \<Rightarrow> byte list \<Rightarrow> byte list \<Rightarrow> nat \<Rightarrow> byte list \<Rightarrow> byte list list \<Rightarrow> kernel \<Rightarrow> (int \<times> kernel) res" where
  "exec dv junk junk1 me path argv s =
     res_bind (cwd_for me path s) (\<lambda>cwd.
          res_bind (namei dv cwd junk path s) (\<lambda>(r, s).
            case r of
              None \<Rightarrow> Inr (-1, s)
            | Some ip \<Rightarrow>
                res_bind (ilock ip s) (\<lambda>s.
                res_bind (readi dv ip 0 ELFHDR_SIZE s) (\<lambda>(n, bs, s).
                  if u64_of_int n < ELFHDR_SIZE then exec_bad 0 (Some ip) s
                  else
                    let elf = dec_elfhdr (splice 0 bs junk1)
                    in if e_magic elf \<noteq> ELF_MAGIC then exec_bad 0 (Some ip) s
                       else
                         res_bind (on_km (setupkvm (kpdpt s)) s) (\<lambda>(pgdir, s).
                           if pgdir = 0 then exec_bad 0 (Some ip) s
                           else
                             res_bind (exec_load dv ip pgdir (e_phnum elf) (e_phoff elf mod 2 ^ 32) 0 s) (\<lambda>(l, s).
                               case l of
                                 None \<Rightarrow> exec_bad pgdir (Some ip) s
                               | Some sz \<Rightarrow>
                                   res_bind (iunlockput ip s) (\<lambda>s. exec_stack me path argv elf pgdir sz s)))))))"

section \<open>A call that fails\<close>

text \<open>The tables that loading a program does not touch.\<close>

definition tables :: "kernel \<Rightarrow> proc list \<times> kfile list \<times> (nat \<Rightarrow> pipe) \<times> nat \<times> int \<times> u32 \<times> nat" where
  "tables s = (ptable s, ftable s, pipes s, initproc s, nextpid s, ticks s, kpdpt s)"

lemma tables_more:
  fixes s :: kernel
  shows "fs_state.more s' = fs_state.more s \<Longrightarrow> tables s' = tables s"
  by (cases s; cases s') (simp add: tables_def)

lemma tables_km: "tables (s\<lparr>km := k\<rparr>) = tables s"
  by (simp add: tables_def)

lemma tables_on_km:
  "on_km f s = Inr (x, s') \<Longrightarrow> tables s' = tables s" "on_km1 g s = Inr s' \<Longrightarrow> tables s' = tables s"
  by (auto simp: on_km_def on_km1_def res_simps tables_km)

lemma tables_fs:
  fixes s :: kernel
  shows "readi dv ip off n s = Inr (r, bs, s') \<Longrightarrow> dev_frame dv \<Longrightarrow> tables s' = tables s"
    "namei dv cwd junk path s = Inr (q, s') \<Longrightarrow> dev_frame dv \<Longrightarrow> tables s' = tables s"
    "ilock ip s = Inr s' \<Longrightarrow> tables s' = tables s" "iunlockput ip s = Inr s' \<Longrightarrow> tables s' = tables s"
  by (blast intro: tables_more dest: fs_frame)+

lemma loaduvm_loop_tables:
  "loaduvm_loop dv pgdir addr ip offset i r s = Inr (x, s') \<Longrightarrow> dev_frame dv \<Longrightarrow> tables s' = tables s"
proof (induction r arbitrary: i s rule: less_induct)
  case (less r)
  show ?case
  proof (cases "r > 0")
    case True
    then have lt: "r - (if r < PGSIZE then r else PGSIZE) < r" by (simp add: PGSIZE_def)
    define n where "n = (if r < PGSIZE then r else PGSIZE)"
    from less.prems(1) True obtain m bs s1 pa where s1: "readi dv ip ((offset + i) mod 2 ^ 32) n s = Inr (m, bs, s1)"
      "(s' = s1\<lparr>km := copy_in (p2v pa) bs (km s1)\<rparr>) \<or>
       loaduvm_loop dv pgdir addr ip offset (i + PGSIZE) (r - n) (s1\<lparr>km := copy_in (p2v pa) bs (km s1)\<rparr>) = Inr (x, s')"
      by (subst (asm) loaduvm_loop.simps) (auto simp: Let_def res_simps n_def [symmetric] split: if_splits)
    have "tables s1 = tables s" using tables_fs(1) [OF s1(1) less.prems(2)] .
    with s1(2) less.IH [OF lt, folded n_def] less.prems(2) show ?thesis by (auto simp: tables_km)
  qed (use less.prems in \<open>subst (asm) loaduvm_loop.simps, simp\<close>)
qed

lemma loaduvm_tables: "loaduvm dv pgdir addr ip offset sz s = Inr (x, s') \<Longrightarrow> dev_frame dv \<Longrightarrow> tables s' = tables s"
  by (auto simp: loaduvm_def dest: loaduvm_loop_tables split: if_splits)

lemma exec_load_tables: "exec_load dv ip pgdir k off sz s = Inr (x, s') \<Longrightarrow> dev_frame dv \<Longrightarrow> tables s' = tables s"
proof (induction k arbitrary: off sz s)
  case (Suc k)
  from Suc.prems(1) obtain n bs s1 where r: "readi dv ip off PROGHDR_SIZE s = Inr (n, bs, s1)"
    by (auto simp: res_simps)
  note t1 = tables_fs(1) [OF r Suc.prems(2)]
  define ph where "ph = dec_proghdr bs"
  show ?case
  proof (cases "n = int PROGHDR_SIZE \<and> ph_type ph = ELF_PROG_LOAD \<and> \<not> ph_memsz ph < ph_filesz ph")
    case False
    then show ?thesis using Suc.prems r t1 Suc.IH [of "(off + PROGHDR_SIZE) mod 2 ^ 32" sz s1]
      by (auto simp: Let_def ph_def split: if_splits)
  next
    case True
    with Suc.prems(1) r obtain a s2 where a: "on_km (allocuvm pgdir (sz mod 2 ^ 32) ((ph_vaddr ph + ph_memsz ph) mod 2 ^ 32)) s1 = Inr (a, s2)"
      by (auto simp: res_simps Let_def ph_def)
    note t2 = tables_on_km(1) [OF a]
    show ?thesis
    proof (cases "a = 0")
      case True
      then show ?thesis using Suc.prems(1) r a t1 t2 \<open>n = _ \<and> _\<close> by (simp add: Let_def ph_def)
    next
      case False
      with Suc.prems(1) r a True obtain l s3 where l: "loaduvm dv pgdir (ph_vaddr ph) ip (ph_off ph mod 2 ^ 32) (ph_filesz ph mod 2 ^ 32) s2 = Inr (l, s3)"
        by (auto simp: res_simps Let_def ph_def)
      then show ?thesis using Suc.prems r a True False t1 t2 loaduvm_tables [OF l Suc.prems(2)]
          Suc.IH [of "(off + PROGHDR_SIZE) mod 2 ^ 32" "u64_of_int a" s3]
        by (simp add: Let_def ph_def split: if_splits)
    qed
  qed
qed simp

lemma exec_args_tables: "exec_args pgdir as sp us s = Inr (x, s') \<Longrightarrow> tables s' = tables s"
proof (induction as arbitrary: sp us s)
  case (Cons a as)
  from Cons.prems show ?case by (auto simp: res_simps Let_def dest!: tables_on_km Cons.IH split: if_splits)
qed simp

lemma exec_bad_tables: "exec_bad pgdir ip s = Inr (r, s') \<Longrightarrow> r = -1 \<and> tables s' = tables s"
  by (auto simp: exec_bad_def res_simps dest!: tables_on_km tables_fs(4) split: if_splits option.splits)

text \<open>What a process sees of its image: everything but the two argument registers.\<close>

definition image :: "proc \<Rightarrow> proc" where
  "image p = p\<lparr>p_tf := (p_tf p)\<lparr>tf_rdi := 0, tf_rsi := 0\<rparr>\<rparr>"

lemma exec_stack_fails:
  assumes "exec_stack me path argv elf pgdir sz s = Inr (r, s')" "r \<noteq> 0"
  shows "r = -1 \<and> length (ptable s') = length (ptable s) \<and> image (ptable s' ! me) = image (ptable s ! me) \<and>
    (\<forall>i. i \<noteq> me \<longrightarrow> ptable s' ! i = ptable s ! i) \<and> ftable s' = ftable s \<and> pipes s' = pipes s"
proof -
  let ?P = "\<lambda>r s1. r = (-1 :: int) \<and> length (ptable s1) = length (ptable s) \<and> image (ptable s1 ! me) = image (ptable s ! me) \<and>
    (\<forall>i. i \<noteq> me \<longrightarrow> ptable s1 ! i = ptable s ! i) \<and> ftable s1 = ftable s \<and> pipes s1 = pipes s"
  have same: "?P r s'" if "exec_bad pgdir None s1 = Inr (r, s')" "tables s1 = tables s" for s1
    using exec_bad_tables [OF that(1)] that(2) by (simp add: tables_def)
  from assms(1) obtain x s1 where a: "on_km (allocuvm pgdir (PGROUNDUP sz mod 2 ^ 32) ((PGROUNDUP sz + 2 * PGSIZE) mod 2 ^ 32)) s = Inr (x, s1)"
    by (auto simp: exec_stack_def Let_def res_simps)
  note t1 = tables_on_km(1) [OF a]
  show ?thesis
  proof (cases "x = 0")
    case True
    then show ?thesis using assms(1) a t1 same by (simp add: exec_stack_def Let_def)
  next
    case False
    with assms(1) a obtain s2 ar s3 where b: "on_km1 (clearpteu pgdir ((u64_of_int x + 2 ^ 64 - 2 * PGSIZE) mod 2 ^ 64)) s1 = Inr s2"
      "exec_args pgdir argv (u64_of_int x) [] s2 = Inr (ar, s3)"
      by (auto simp: exec_stack_def Let_def res_simps)
    have t3: "tables s3 = tables s" using exec_args_tables [OF b(2)] tables_on_km(2) [OF b(1)] t1 by simp
    show ?thesis
    proof (cases ar)
      case None
      then show ?thesis using assms(1) a b False t3 same by (simp add: exec_stack_def Let_def)
    next
      case (Some q)
      obtain sp us where q: "q = (sp, us)" by (cases q)
      define s4 where "s4 = upd_proc me (\<lambda>p. p\<lparr>p_tf := (p_tf p)\<lparr>tf_rdi := of_nat (length us),
        tf_rsi := of_nat ((sp + 2 ^ 64 - (length us + 1) * 8) mod 2 ^ 64)\<rparr>\<rparr>) s3"
      have P4: "?P (-1) s4" using t3 by (cases "me < length (ptable s)") (auto simp: tables_def s4_def image_def list_update_beyond)
      define va where "va = (sp + 2 ^ 64 - (3 + length us + 1) * 8) mod 2 ^ 64 mod 2 ^ 32"
      from assms(1) a b False Some q obtain y s5 where c: "on_km (copyout pgdir va (ustack_bytes sp us)) s4 = Inr (y, s5)"
        by (auto simp: exec_stack_def Let_def res_simps s4_def va_def)
      have "y < 0" "exec_bad pgdir None s5 = Inr (r, s')"
        using assms a b False Some q c by (auto simp: exec_stack_def Let_def res_simps s4_def va_def split: if_splits)
      then show ?thesis using exec_bad_tables [of pgdir None s5] tables_on_km(1) [OF c] P4 by (auto simp: tables_def)
    qed
  qed
qed


text \<open>Running an empty file: the header cannot be read.\<close>

definition demo_exec :: kernel where
  "demo_exec = demo_kernel\<lparr>icache := [demo_free\<lparr>i_ref := 1, i_valid := True, i_type := T_FILE\<rparr>], ptable := [demo_proc\<lparr>p_cwd := Some 0\<rparr>]\<rparr>"

lemma demo_exec_fails: "\<exists>s'. exec no_dev [] [] 0 [] [] demo_exec = Inr (-1, s')"
  by (simp add: demo_exec_def exec_def cwd_for_def namei_def namex_def namex_loop.simps skipelem_def idup_def ilock_def readi_def readi_loop.simps
      demo_kernel_def demo_proc_def demo_free_def exec_bad_def iunlockput_def iunlock_def iput_def Let_def u64_of_int_def
      ELFHDR_SIZE_def T_FILE_def T_DEV_def upd_ip_def)


end
