(* ===== verification/Sysfile.thy ===== *)
theory Sysfile
  imports Exec
begin

unbundle bit_operations_syntax

text \<open>
  \<open>kernel/sysfile.c\<close>: the system calls on files, directories and pipes. Each handler checks its arguments,
  works on the descriptors of the calling process \<open>me\<close>, and calls the file table, the inode layer and the
  log, in the order of the source. The properties are about descriptors: which one a call hands out,
  that duplicating and closing cancel, and that a directory counts as empty exactly when it has no
  entries besides its first two.
\<close>

section \<open>Descriptors\<close>

definition argfd :: "nat \<Rightarrow> nat \<Rightarrow> kernel \<Rightarrow> (nat \<times> nat) option" where
  "argfd me n s =
     (let fd = argint me n s
      in if fd < 0 \<or> fd \<ge> int NOFILE then None
         else case p_ofile (ptable s ! me) ! nat fd of None \<Rightarrow> None | Some f \<Rightarrow> Some (nat fd, f))"

definition set_fd :: "nat \<Rightarrow> nat \<Rightarrow> nat option \<Rightarrow> kernel \<Rightarrow> kernel" where
  "set_fd me fd v s = upd_proc me (\<lambda>p. p\<lparr>p_ofile := (p_ofile p)[fd := v]\<rparr>) s"

definition fdalloc :: "nat \<Rightarrow> nat \<Rightarrow> kernel \<Rightarrow> int \<times> kernel" where
  "fdalloc me f s =
     (case find_index (\<lambda>v. v = None) (p_ofile (ptable s ! me)) of
        Some fd \<Rightarrow> (int fd, set_fd me fd (Some f) s)
      | None \<Rightarrow> (-1, s))"

definition sys_dup :: "nat \<Rightarrow> kernel \<Rightarrow> (sysret \<times> kernel) res" where
  "sys_dup me s =
     (case argfd me 0 s of
        None \<Rightarrow> Inr (Done (-1), s)
      | Some (_, f) \<Rightarrow>
          (case fdalloc me f s of (fd, s) \<Rightarrow>
             if fd < 0 then Inr (Done (-1), s) else res_bind (filedup f s) (\<lambda>s. Inr (Done fd, s))))"

text \<open>\<open>sys_read\<close> stores the bytes in user memory; \<open>sys_write\<close> fetches them first when the file is writable.\<close>

definition sys_read :: "kenv \<Rightarrow> nat \<Rightarrow> kernel \<Rightarrow> (sysret \<times> kernel) res" where
  "sys_read en me s =
     (let n = argint me 2 s
      in case argfd me 0 s of
           None \<Rightarrow> Inr (Done (-1), s)
         | Some (_, f) \<Rightarrow>
             (case argptr me 1 n s of
                None \<Rightarrow> Inr (Done (-1), s)
              | Some p \<Rightarrow>
                  res_bind (fileread (en_dev en) me f n s) (\<lambda>(r, bs, s).
                  res_bind (on_km1 (ustore (p_pgdir (ptable s ! me)) p bs) s) (\<lambda>s. Inr (of_pipe r, s)))))"

definition sys_write :: "kenv \<Rightarrow> nat \<Rightarrow> kernel \<Rightarrow> (sysret \<times> kernel) res" where
  "sys_write en me s =
     (let n = argint me 2 s
      in case argfd me 0 s of
           None \<Rightarrow> Inr (Done (-1), s)
         | Some (_, f) \<Rightarrow>
             (case argptr me 1 n s of
                None \<Rightarrow> Inr (Done (-1), s)
              | Some p \<Rightarrow>
                  res_bind (if f_writable (ftable s ! f) then uload (p_pgdir (ptable s ! me)) p (nat n) (km s) else Inr []) (\<lambda>bs.
                  res_bind (filewrite (en_dev en) me f bs n s) (\<lambda>(r, s). Inr (of_pipe r, s)))))"

definition sys_close :: "nat \<Rightarrow> kernel \<Rightarrow> (sysret \<times> kernel) res" where
  "sys_close me s =
     (case argfd me 0 s of
        None \<Rightarrow> Inr (Done (-1), s)
      | Some (fd, f) \<Rightarrow> res_bind (fileclose f (set_fd me fd None s)) (\<lambda>s. Inr (Done 0, s)))"

text \<open>\<open>struct stat\<close> has 20 bytes; the padding after the two \<open>short\<close> fields is not written.\<close>

definition stat_put :: "nat \<Rightarrow> nat \<Rightarrow> stat \<Rightarrow> kmem \<Rightarrow> kmem res" where
  "stat_put pgdir a st k =
     res_bind (ustore pgdir a (le_enc 2 (of_short (st_type st))) k) (\<lambda>k.
     res_bind (ustore pgdir (a + 4) (le_enc 4 (st_dev st)) k) (\<lambda>k.
     res_bind (ustore pgdir (a + 8) (le_enc 4 (st_ino st)) k) (\<lambda>k.
     res_bind (ustore pgdir (a + 12) (le_enc 2 (of_short (st_nlink st))) k) (\<lambda>k.
     ustore pgdir (a + 16) (le_enc 4 (st_size st)) k))))"

definition sys_fstat :: "nat \<Rightarrow> kernel \<Rightarrow> (sysret \<times> kernel) res" where
  "sys_fstat me s =
     (case argfd me 0 s of
        None \<Rightarrow> Inr (Done (-1), s)
      | Some (_, f) \<Rightarrow>
          (case argptr me 1 20 s of
             None \<Rightarrow> Inr (Done (-1), s)
           | Some a \<Rightarrow>
               res_bind (filestat f s) (\<lambda>(r, st, s).
               res_bind (case st of None \<Rightarrow> Inr s | Some st \<Rightarrow> on_km1 (stat_put (p_pgdir (ptable s ! me)) a st) s) (\<lambda>s.
                 Inr (Done r, s)))))"

section \<open>Links\<close>

text \<open>\<open>ip->nlink++\<close> and \<open>--\<close> on a \<open>short\<close>.\<close>

definition add_nlink :: "nat \<Rightarrow> int \<Rightarrow> kernel \<Rightarrow> kernel" where
  "add_nlink ip d s = upd_ip ip (\<lambda>i. i\<lparr>i_nlink := short_of (of_short (i_nlink i + d))\<rparr>) s"

text \<open>The label \<open>bad\<close> of \<open>sys_link\<close>.\<close>

definition link_bad :: "nat \<Rightarrow> kernel \<Rightarrow> (sysret \<times> kernel) res" where
  "link_bad ip s =
     res_bind (ilock ip s) (\<lambda>s.
     res_bind (iupdate ip (add_nlink ip (-1) s)) (\<lambda>s.
     res_bind (iunlockput ip s) (\<lambda>s.
     res_bind (commit_trans s) (\<lambda>s. Inr (Done (-1), s)))))"

text \<open>\<open>sys_link\<close> from the lookup of the new parent on.\<close>

definition link_new :: "kenv \<Rightarrow> nat \<Rightarrow> nat \<Rightarrow> byte list \<Rightarrow> kernel \<Rightarrow> (sysret \<times> kernel) res" where
  "link_new en me ip new s =
     res_bind (cwd_for me new s) (\<lambda>cwd.
     res_bind (nameiparent (en_dev en) cwd new (en_junk en) s) (\<lambda>(d, name, s).
       case d of
         None \<Rightarrow> link_bad ip s
       | Some dp \<Rightarrow>
           res_bind (ilock dp s) (\<lambda>s.
           res_bind (if i_dev (icache s ! dp) \<noteq> i_dev (icache s ! ip) then Inr (-1, s)
                     else dirlink (en_dev en) dp name (i_inum (icache s ! ip)) s) (\<lambda>(l, s).
             if l < 0 then res_bind (iunlockput dp s) (link_bad ip)
             else
               res_bind (iunlockput dp s) (\<lambda>s.
               res_bind (iput ip s) (\<lambda>s.
               res_bind (commit_trans s) (\<lambda>s. Inr (Done 0, s))))))))"

definition sys_link :: "kenv \<Rightarrow> nat \<Rightarrow> kernel \<Rightarrow> (sysret \<times> kernel) res" where
  "sys_link en me s =
     res_bind (argstr me 0 s) (\<lambda>old.
       case old of
         None \<Rightarrow> Inr (Done (-1), s)
       | Some old \<Rightarrow>
           res_bind (argstr me 1 s) (\<lambda>new.
             case new of
               None \<Rightarrow> Inr (Done (-1), s)
             | Some new \<Rightarrow>
                 res_bind (cwd_for me old s) (\<lambda>cwd.
                 res_bind (namei (en_dev en) cwd (en_junk en) old s) (\<lambda>(r, s).
                   case r of
                     None \<Rightarrow> Inr (Done (-1), s)
                   | Some ip \<Rightarrow>
                       res_bind (begin_trans s) (\<lambda>s.
                       res_bind (ilock ip s) (\<lambda>s.
                         if i_type (icache s ! ip) = T_DIR then
                           res_bind (iunlockput ip s) (\<lambda>s. res_bind (commit_trans s) (\<lambda>s. Inr (Done (-1), s)))
                         else
                           res_bind (iupdate ip (add_nlink ip 1 s)) (\<lambda>s.
                           res_bind (iunlock ip s) (link_new en me ip new))))))))"

text \<open>The loop of \<open>isdirempty\<close>.\<close>

function isdirempty_loop :: "'a fs_state_scheme devsw \<Rightarrow> nat \<Rightarrow> nat \<Rightarrow> nat \<Rightarrow> 'a fs_state_scheme \<Rightarrow> (bool \<times> 'a fs_state_scheme) res" where
  "isdirempty_loop dv dp sz off s =
     (if off < sz then
        res_bind (readi dv dp off DIRENT_SIZE s) (\<lambda>(n, de, s).
          if n \<noteq> int DIRENT_SIZE then Inl (Panic ''isdirempty: readi'')
          else if de_inum de \<noteq> 0 then Inr (False, s)
          else isdirempty_loop dv dp sz (off + DIRENT_SIZE) s)
      else Inr (True, s))"
  by pat_completeness auto
termination
  by (relation "measure (\<lambda>(dv, dp, sz, off, s). sz - off)") (auto simp: DIRENT_SIZE_def)

declare isdirempty_loop.simps [simp del]

definition isdirempty :: "'a fs_state_scheme devsw \<Rightarrow> nat \<Rightarrow> 'a fs_state_scheme \<Rightarrow> (bool \<times> 'a fs_state_scheme) res" where
  "isdirempty dv dp s = isdirempty_loop dv dp (i_size (icache s ! dp)) (2 * DIRENT_SIZE) s"

definition unlink_bad :: "nat \<Rightarrow> kernel \<Rightarrow> (sysret \<times> kernel) res" where
  "unlink_bad dp s = res_bind (iunlockput dp s) (\<lambda>s. res_bind (commit_trans s) (\<lambda>s. Inr (Done (-1), s)))"

definition dot :: "byte list" where "dot = [46, 0]"
definition dotdot :: "byte list" where "dotdot = [46, 46, 0]"

text \<open>\<open>sys_unlink\<close> once the parent and the entry are found and both inodes are locked.\<close>

definition unlink_entry :: "kenv \<Rightarrow> nat \<Rightarrow> nat \<Rightarrow> nat \<Rightarrow> kernel \<Rightarrow> (sysret \<times> kernel) res" where
  "unlink_entry en dp ip off s =
     (if i_nlink (icache s ! ip) < 1 then Inl (Panic ''unlink: nlink < 1'')
      else
        res_bind (if i_type (icache s ! ip) = T_DIR then isdirempty (en_dev en) ip s else Inr (True, s)) (\<lambda>(empty, s).
          if \<not> empty then res_bind (iunlockput ip s) (unlink_bad dp)
          else
            res_bind (writei (en_dev en) dp (replicate DIRENT_SIZE 0) off s) (\<lambda>(n, s).
              if n \<noteq> int DIRENT_SIZE then Inl (Panic ''unlink: writei'')
              else
                res_bind (if i_type (icache s ! ip) = T_DIR then iupdate dp (add_nlink dp (-1) s) else Inr s) (\<lambda>s.
                res_bind (iunlockput dp s) (\<lambda>s.
                res_bind (iupdate ip (add_nlink ip (-1) s)) (\<lambda>s.
                res_bind (iunlockput ip s) (\<lambda>s.
                res_bind (commit_trans s) (\<lambda>s. Inr (Done 0, s)))))))))"

definition sys_unlink :: "kenv \<Rightarrow> nat \<Rightarrow> kernel \<Rightarrow> (sysret \<times> kernel) res" where
  "sys_unlink en me s =
     res_bind (argstr me 0 s) (\<lambda>path.
       case path of
         None \<Rightarrow> Inr (Done (-1), s)
       | Some path \<Rightarrow>
           res_bind (cwd_for me path s) (\<lambda>cwd.
           res_bind (nameiparent (en_dev en) cwd path (en_junk en) s) (\<lambda>(d, name, s).
             case d of
               None \<Rightarrow> Inr (Done (-1), s)
             | Some dp \<Rightarrow>
                 res_bind (begin_trans s) (\<lambda>s.
                 res_bind (ilock dp s) (\<lambda>s.
                   if namecmp name dot = 0 \<or> namecmp name dotdot = 0 then unlink_bad dp s
                   else
                     res_bind (dirlookup (en_dev en) dp name s) (\<lambda>(r, s).
                       case r of
                         None \<Rightarrow> unlink_bad dp s
                       | Some (ip, off) \<Rightarrow> res_bind (ilock ip s) (unlink_entry en dp ip off)))))))"

section \<open>Creating and opening\<close>

text \<open>\<open>create\<close> from the allocation of the inode on. \<open>ialloc\<close> panics itself when there is no inode left.\<close>

definition create_new :: "kenv \<Rightarrow> nat \<Rightarrow> byte list \<Rightarrow> int \<Rightarrow> int \<Rightarrow> int \<Rightarrow> kernel \<Rightarrow> (nat option \<times> kernel) res" where
  "create_new en dp name type major minor s =
     res_bind (ialloc (i_dev (icache s ! dp)) type s) (\<lambda>(ip, s).
     res_bind (ilock ip s) (\<lambda>s.
     res_bind (iupdate ip (upd_ip ip (\<lambda>i. i\<lparr>i_major := short_of (of_short major), i_minor := short_of (of_short minor), i_nlink := 1\<rparr>) s)) (\<lambda>s.
     res_bind
       (if type = T_DIR then
          res_bind (iupdate dp (add_nlink dp 1 s)) (\<lambda>s.
          res_bind (dirlink (en_dev en) ip dot (i_inum (icache s ! ip)) s) (\<lambda>(a, s).
            if a < 0 then Inl (Panic ''create dots'')
            else
              res_bind (dirlink (en_dev en) ip dotdot (i_inum (icache s ! dp)) s) (\<lambda>(b, s).
                if b < 0 then Inl (Panic ''create dots'') else Inr s)))
        else Inr s) (\<lambda>s.
     res_bind (dirlink (en_dev en) dp name (i_inum (icache s ! ip)) s) (\<lambda>(c, s).
       if c < 0 then Inl (Panic ''create: dirlink'')
       else res_bind (iunlockput dp s) (\<lambda>s. Inr (Some ip, s)))))))"

text \<open>\<open>create\<close> returns a locked inode.\<close>

definition create :: "kenv \<Rightarrow> nat \<Rightarrow> byte list \<Rightarrow> int \<Rightarrow> int \<Rightarrow> int \<Rightarrow> kernel \<Rightarrow> (nat option \<times> kernel) res" where
  "create en me path type major minor s =
     res_bind (cwd_for me path s) (\<lambda>cwd.
     res_bind (nameiparent (en_dev en) cwd path (en_junk en) s) (\<lambda>(d, name, s).
       case d of
         None \<Rightarrow> Inr (None, s)
       | Some dp \<Rightarrow>
           res_bind (ilock dp s) (\<lambda>s.
           res_bind (dirlookup (en_dev en) dp name s) (\<lambda>(r, s).
             case r of
               Some (ip, _) \<Rightarrow>
                 res_bind (iunlockput dp s) (\<lambda>s.
                 res_bind (ilock ip s) (\<lambda>s.
                   if type = T_FILE \<and> i_type (icache s ! ip) = T_FILE then Inr (Some ip, s)
                   else res_bind (iunlockput ip s) (\<lambda>s. Inr (None, s))))
             | None \<Rightarrow> create_new en dp name type major minor s))))"

definition O_RDONLY :: int where "O_RDONLY = 0"
definition O_WRONLY :: int where "O_WRONLY = 1"
definition O_RDWR :: int where "O_RDWR = 2"
definition O_CREATE :: int where "O_CREATE = 0x200"

text \<open>\<open>sys_open\<close> from the allocation of the file on, with the inode \<open>ip\<close> locked.\<close>

definition open_file :: "nat \<Rightarrow> nat \<Rightarrow> int \<Rightarrow> kernel \<Rightarrow> (sysret \<times> kernel) res" where
  "open_file me ip omode s =
     (case filealloc s of
        (None, s) \<Rightarrow> res_bind (iunlockput ip s) (\<lambda>s. Inr (Done (-1), s))
      | (Some f, s) \<Rightarrow>
          (case fdalloc me f s of (fd, s) \<Rightarrow>
             if fd < 0 then
               res_bind (fileclose f s) (\<lambda>s. res_bind (iunlockput ip s) (\<lambda>s. Inr (Done (-1), s)))
             else
               res_bind (iunlock ip s) (\<lambda>s.
                 Inr (Done fd, upd_file f (\<lambda>x. x\<lparr>f_type := FD_INODE, f_ip := ip, f_off := 0,
                   f_readable := (omode AND O_WRONLY = 0), f_writable := (omode AND O_WRONLY \<noteq> 0 \<or> omode AND O_RDWR \<noteq> 0)\<rparr>) s))))"

definition sys_open :: "kenv \<Rightarrow> nat \<Rightarrow> kernel \<Rightarrow> (sysret \<times> kernel) res" where
  "sys_open en me s =
     res_bind (argstr me 0 s) (\<lambda>path.
       let omode = argint me 1 s
       in case path of
            None \<Rightarrow> Inr (Done (-1), s)
          | Some path \<Rightarrow>
              if omode AND O_CREATE \<noteq> 0 then
                res_bind (begin_trans s) (\<lambda>s.
                res_bind (create en me path T_FILE 0 0 s) (\<lambda>(r, s).
                res_bind (commit_trans s) (\<lambda>s.
                  case r of None \<Rightarrow> Inr (Done (-1), s) | Some ip \<Rightarrow> open_file me ip omode s)))
              else
                res_bind (cwd_for me path s) (\<lambda>cwd.
                res_bind (namei (en_dev en) cwd (en_junk en) path s) (\<lambda>(r, s).
                  case r of
                    None \<Rightarrow> Inr (Done (-1), s)
                  | Some ip \<Rightarrow>
                      res_bind (ilock ip s) (\<lambda>s.
                        if i_type (icache s ! ip) = T_DIR \<and> omode \<noteq> O_RDONLY
                        then res_bind (iunlockput ip s) (\<lambda>s. Inr (Done (-1), s))
                        else open_file me ip omode s))))"

text \<open>The common end of \<open>sys_mkdir\<close> and \<open>sys_mknod\<close>.\<close>

definition made :: "nat option \<times> kernel \<Rightarrow> (sysret \<times> kernel) res" where
  "made = (\<lambda>(r, s).
     case r of
       None \<Rightarrow> res_bind (commit_trans s) (\<lambda>s. Inr (Done (-1), s))
     | Some ip \<Rightarrow> res_bind (iunlockput ip s) (\<lambda>s. res_bind (commit_trans s) (\<lambda>s. Inr (Done 0, s))))"

definition sys_mkdir :: "kenv \<Rightarrow> nat \<Rightarrow> kernel \<Rightarrow> (sysret \<times> kernel) res" where
  "sys_mkdir en me s =
     res_bind (begin_trans s) (\<lambda>s.
     res_bind (argstr me 0 s) (\<lambda>path.
     res_bind (case path of None \<Rightarrow> Inr (None, s) | Some path \<Rightarrow> create en me path T_DIR 0 0 s) made))"

definition sys_mknod :: "kenv \<Rightarrow> nat \<Rightarrow> kernel \<Rightarrow> (sysret \<times> kernel) res" where
  "sys_mknod en me s =
     res_bind (begin_trans s) (\<lambda>s.
     res_bind (argstr me 0 s) (\<lambda>path.
     res_bind (case path of None \<Rightarrow> Inr (None, s) | Some path \<Rightarrow> create en me path T_DEV (argint me 1 s) (argint me 2 s) s) made))"

definition sys_chdir :: "kenv \<Rightarrow> nat \<Rightarrow> kernel \<Rightarrow> (sysret \<times> kernel) res" where
  "sys_chdir en me s =
     res_bind (argstr me 0 s) (\<lambda>path.
       case path of
         None \<Rightarrow> Inr (Done (-1), s)
       | Some path \<Rightarrow>
           res_bind (cwd_for me path s) (\<lambda>cwd.
           res_bind (namei (en_dev en) cwd (en_junk en) path s) (\<lambda>(r, s).
             case r of
               None \<Rightarrow> Inr (Done (-1), s)
             | Some ip \<Rightarrow>
                 res_bind (ilock ip s) (\<lambda>s.
                   if i_type (icache s ! ip) \<noteq> T_DIR then res_bind (iunlockput ip s) (\<lambda>s. Inr (Done (-1), s))
                   else
                     res_bind (iunlock ip s) (\<lambda>s.
                       case p_cwd (ptable s ! me) of
                         None \<Rightarrow> Inl (Undefined ''chdir: null cwd'')
                       | Some old \<Rightarrow>
                           res_bind (iput old s) (\<lambda>s.
                             Inr (Done 0, upd_proc me (\<lambda>p. p\<lparr>p_cwd := Some ip\<rparr>) s)))))))"

text \<open>The loop of \<open>sys_exec\<close> over the argument vector, with \<open>k\<close> places left in \<open>argv\<close>: the strings, or \<open>None\<close> for -1.\<close>

fun exec_argv :: "nat \<Rightarrow> nat \<Rightarrow> nat \<Rightarrow> kernel \<Rightarrow> byte list list option res" where
  "exec_argv me 0 uargv s = Inr None"
| "exec_argv me (Suc k) uargv s =
     res_bind (fetchuintp me uargv s) (\<lambda>u.
       case u of
         None \<Rightarrow> Inr None
       | Some uarg \<Rightarrow>
           if uarg = 0 then Inr (Some [])
           else
             res_bind (fetchstr me uarg s) (\<lambda>a.
               case a of
                 None \<Rightarrow> Inr None
               | Some a \<Rightarrow> res_bind (exec_argv me k ((uargv + 8) mod 2 ^ 64) s) (\<lambda>as. Inr (map_option (Cons a) as))))"

definition sys_exec :: "kenv \<Rightarrow> nat \<Rightarrow> kernel \<Rightarrow> (sysret \<times> kernel) res" where
  "sys_exec en me s =
     res_bind (argstr me 0 s) (\<lambda>path.
       case path of
         None \<Rightarrow> Inr (Done (-1), s)
       | Some path \<Rightarrow>
           res_bind (exec_argv me MAXARG (arguintp me 1 s) s) (\<lambda>argv.
             case argv of
               None \<Rightarrow> Inr (Done (-1), s)
             | Some argv \<Rightarrow>
                 res_bind (exec (en_dev en) (en_junk en) (en_junk1 en) me path argv s) (\<lambda>(r, s). Inr (Done r, s))))"

definition sys_pipe :: "nat \<Rightarrow> kernel \<Rightarrow> (sysret \<times> kernel) res" where
  "sys_pipe me s =
     (case argptr me 0 8 s of
        None \<Rightarrow> Inr (Done (-1), s)
      | Some a \<Rightarrow>
          res_bind (pipealloc s) (\<lambda>(r, fr, fw, s).
            if r < 0 then Inr (Done (-1), s)
            else
              case (fr, fw) of
                (Some fr, Some fw) \<Rightarrow>
                  (case fdalloc me fr s of (fd0, s) \<Rightarrow>
                   case (if fd0 < 0 then (-1, s) else fdalloc me fw s) of (fd1, s) \<Rightarrow>
                     if fd0 < 0 \<or> fd1 < 0 then
                       res_bind (fileclose fr (if fd0 \<ge> 0 then set_fd me (nat fd0) None s else s)) (\<lambda>s.
                       res_bind (fileclose fw s) (\<lambda>s. Inr (Done (-1), s)))
                     else
                       res_bind (on_km1 (ustore (p_pgdir (ptable s ! me)) a (le_enc 4 (nat fd0) @ le_enc 4 (nat fd1))) s) (\<lambda>s.
                         Inr (Done 0, s)))
              | _ \<Rightarrow> Inl (Undefined ''sys_pipe: null file'')))"

section \<open>The current directory\<close>

text \<open>\<open>name_of_inode\<close>: the name of the first entry of \<open>parent\<close> with the number of \<open>ip\<close>, as \<open>safestrcpy\<close> leaves it in a
  buffer of \<open>DIRSIZ\<close> bytes.\<close>

function name_of_inode_loop :: "kernel devsw \<Rightarrow> nat \<Rightarrow> nat \<Rightarrow> nat \<Rightarrow> nat \<Rightarrow> kernel \<Rightarrow> (byte list option \<times> kernel) res" where
  "name_of_inode_loop dv ip parent sz off s =
     (if off < sz then
        res_bind (readi dv parent off DIRENT_SIZE s) (\<lambda>(n, de, s).
          if n \<noteq> int DIRENT_SIZE then Inl (Panic (''couldn'' @ [CHR 0x27] @ ''t read dir entry''))
          else if de_inum de = i_inum (icache s ! ip) then Inr (Some (cstr (take (DIRSIZ - 1) (de_name de))), s)
          else name_of_inode_loop dv ip parent sz (off + DIRENT_SIZE) s)
      else Inr (None, s))"
  by pat_completeness auto
termination
  by (relation "measure (\<lambda>(dv, ip, parent, sz, off, s). sz - off)") (auto simp: DIRENT_SIZE_def)

declare name_of_inode_loop.simps [simp del]

definition name_of_inode :: "kernel devsw \<Rightarrow> nat \<Rightarrow> nat \<Rightarrow> kernel \<Rightarrow> (byte list option \<times> kernel) res" where
  "name_of_inode dv ip parent s = name_of_inode_loop dv ip parent (i_size (icache s ! parent)) 0 s"

text \<open>The bytes \<open>safestrcpy (dst, name, n)\<close> writes: none when \<open>n\<close> is not positive, and two NULs after a name that is
  shorter than the space.\<close>

definition safestrcpy_bytes :: "byte list \<Rightarrow> int \<Rightarrow> byte list" where
  "safestrcpy_bytes name n =
     (if n \<le> 0 then []
      else let u = cstr (take (nat n - 1) name) in if length u < nat n - 1 then u @ [0, 0] else u @ [0])"

text \<open>\<open>name_for_inode\<close> climbs to the root; on a directory tree with a cycle it never returns, so that the
  recursion has a bound, and \<open>None\<close> is the outcome when it is reached. \<open>buf\<close> is the user address.\<close>

fun name_for_inode :: "nat \<Rightarrow> kenv \<Rightarrow> nat \<Rightarrow> nat \<Rightarrow> int \<Rightarrow> nat \<Rightarrow> kernel \<Rightarrow> (int \<times> kernel) option res" where
  "name_for_inode 0 en pgdir buf n ip s = Inr None"
| "name_for_inode (Suc fuel) en pgdir buf n ip s =
     res_bind (namei (en_dev en) 0 (en_junk en) [slash] s) (\<lambda>(r, s).
       case r of
         None \<Rightarrow> Inl (Undefined ''name_for_inode: no root'')
       | Some root \<Rightarrow>
           if i_inum (icache s ! ip) = i_inum (icache s ! root) then
             res_bind (on_km1 (ustore pgdir buf [slash]) s) (\<lambda>s. Inr (Some (1, s)))
           else if i_type (icache s ! ip) = T_DIR then
             res_bind (dirlookup (en_dev en) ip dotdot s) (\<lambda>(d, s).
               case d of
                 None \<Rightarrow> Inl (Undefined ''name_for_inode: null parent'')
               | Some (parent, _) \<Rightarrow>
                   res_bind (ilock parent s) (\<lambda>s.
                   res_bind (name_of_inode (en_dev en) ip parent s) (\<lambda>(nm, s).
                     case nm of
                       None \<Rightarrow> Inl (Panic ''could not find name of inode in parent!'')
                     | Some node_name \<Rightarrow>
                         res_bind (name_for_inode fuel en pgdir buf n parent s) (\<lambda>q.
                           case q of
                             None \<Rightarrow> Inr None
                           | Some (off, s) \<Rightarrow>
                               res_bind (on_km1 (ustore pgdir (nat (int buf + off)) (safestrcpy_bytes node_name (n - off))) s) (\<lambda>s.
                                 let off = off + int (length node_name)
                                 in if off = n - 1 then
                                      res_bind (on_km1 (ustore pgdir (nat (int buf + off)) [0]) s) (\<lambda>s. Inr (Some (n, s)))
                                    else
                                      res_bind (on_km1 (ustore pgdir (nat (int buf + off)) [slash]) s) (\<lambda>s.
                                      res_bind (iunlock parent s) (\<lambda>s.
                                      res_bind (iput parent s) (\<lambda>s. Inr (Some (off + 1, s))))))))))
           else if i_type (icache s ! ip) = T_DEV \<or> i_type (icache s ! ip) = T_FILE
           then Inl (Panic ''process cwd is a device node / file, not a directory!'')
           else Inl (Panic ''unknown inode type''))"

definition sys_getcwd :: "nat \<Rightarrow> kenv \<Rightarrow> nat \<Rightarrow> kernel \<Rightarrow> (sysret \<times> kernel) option res" where
  "sys_getcwd fuel en me s =
     (let n = argint me 1 s
      in case argptr me 0 n s of
           None \<Rightarrow> Inr (Some (Done (-1), s))
         | Some p \<Rightarrow>
             (case p_cwd (ptable s ! me) of
                None \<Rightarrow> Inl (Undefined ''getcwd: null cwd'')
              | Some ip \<Rightarrow>
                  res_bind (name_for_inode fuel en (p_pgdir (ptable s ! me)) p n ip s) (\<lambda>q. Inr (map_option (\<lambda>(r, s). (Done r, s)) q))))"

section \<open>Descriptors handed out\<close>

lemma set_fd_simps [simp]:
  "ftable (set_fd me fd v s) = ftable s" "km (set_fd me fd v s) = km s" "pipes (set_fd me fd v s) = pipes s" "icache (set_fd me fd v s) = icache s"
  "length (ptable (set_fd me fd v s)) = length (ptable s)"
  "me < length (ptable s) \<Longrightarrow> p_ofile (ptable (set_fd me fd v s) ! me) = (p_ofile (ptable s ! me))[fd := v]"
  "p_tf (ptable (set_fd me fd v s) ! i) = p_tf (ptable s ! i)"
  by (simp_all add: set_fd_def) (cases "me < length (ptable s)"; cases "i = me"; simp add: list_update_beyond)

lemma upd_proc_id: "f (ptable s ! i) = ptable s ! i \<Longrightarrow> upd_proc i f s = s"
  by (simp add: upd_proc_def)

lemma set_fd_back:
  assumes "p_ofile (ptable s ! me) ! fd = None" "me < length (ptable s)"
  shows "set_fd me fd None (set_fd me fd (Some f) s) = s"
proof -
  have "set_fd me fd None (set_fd me fd (Some f) s) = upd_proc me (\<lambda>p. p\<lparr>p_ofile := (p_ofile p)[fd := None]\<rparr>) s"
    using assms(2) by (simp add: set_fd_def upd_proc_def)
  also have "\<dots> = s" using assms(1) by (intro upd_proc_id) (metis list_update_id proc.surjective proc.update_convs(11))
  finally show ?thesis .
qed

lemma set_fd_upd_file: "set_fd me fd v (upd_file f g s) = upd_file f g (set_fd me fd v s)"
  by (simp add: set_fd_def upd_proc_def upd_file_def)

text \<open>A descriptor argument is valid exactly when it is in range and open, and then \<open>argfd\<close> returns the file
  it stands for.\<close>

lemma argfd_Some:
  "argfd me n s = Some (fd, f) \<longleftrightarrow> argint me n s = int fd \<and> fd < NOFILE \<and> p_ofile (ptable s ! me) ! fd = Some f"
  by (auto simp: argfd_def Let_def split: option.splits)

lemma fdalloc_cases:
  assumes "length (p_ofile (ptable s ! me)) = NOFILE"
  shows "fdalloc me f s = (-1, s) \<and> (\<forall>fd < NOFILE. p_ofile (ptable s ! me) ! fd \<noteq> None) \<or>
    (\<exists>fd < NOFILE. fdalloc me f s = (int fd, set_fd me fd (Some f) s) \<and> p_ofile (ptable s ! me) ! fd = None \<and>
       (\<forall>k < fd. p_ofile (ptable s ! me) ! k \<noteq> None))"
proof (cases "find_index (\<lambda>v. v = None) (p_ofile (ptable s ! me))")
  case None
  then have "\<forall>fd < NOFILE. p_ofile (ptable s ! me) ! fd \<noteq> None" using assms by (simp add: find_index_None all_set_conv_all_nth)
  then show ?thesis using None by (simp add: fdalloc_def)
next
  case (Some fd)
  have "fd < NOFILE \<and> fdalloc me f s = (int fd, set_fd me fd (Some f) s) \<and> p_ofile (ptable s ! me) ! fd = None \<and>
      (\<forall>k < fd. p_ofile (ptable s ! me) ! k \<noteq> None)"
    using find_index_SomeD [OF Some] assms by (simp add: fdalloc_def Some)
  then show ?thesis by blast
qed

text \<open>The process whose system call is duplicated into a call of \<open>sys_close\<close> on descriptor \<open>fd\<close>.\<close>

definition with_rdi :: "nat \<Rightarrow> u64 \<Rightarrow> kernel \<Rightarrow> kernel" where
  "with_rdi me v s = upd_proc me (\<lambda>p. p\<lparr>p_tf := (p_tf p)\<lparr>tf_rdi := v\<rparr>\<rparr>) s"

lemma argint_with_rdi: "me < length (ptable s) \<Longrightarrow> fd < NOFILE \<Longrightarrow> argint me 0 (with_rdi me (of_nat fd) s) = int fd"
  by (simp add: argint_def with_rdi_def fetcharg_def NOFILE_def unat_of_nat)

lemma with_rdi_simps [simp]:
  "ftable (with_rdi me v s) = ftable s" "length (ptable (with_rdi me v s)) = length (ptable s)"
  "p_ofile (ptable (with_rdi me v s) ! me) = p_ofile (ptable s ! me)"
  by (simp_all add: with_rdi_def) (cases "me < length (ptable s)"; simp add: list_update_beyond)

lemma with_rdi_fd: "me < length (ptable s) \<Longrightarrow> set_fd me fd v (with_rdi me w s) = with_rdi me w (set_fd me fd v s)"
  by (cases "ptable s ! me") (simp add: set_fd_def with_rdi_def upd_proc_def)

lemma with_rdi_file: "upd_file f g (with_rdi me w s) = with_rdi me w (upd_file f g s)"
  by (simp add: with_rdi_def upd_proc_def upd_file_def)

lemma fileclose_shared:
  assumes "f < length (ftable s)" "0 < f_ref (ftable s ! f)"
  shows "fileclose f (upd_file f (\<lambda>x. x\<lparr>f_ref := f_ref x + 1\<rparr>) s) = Inr s"
proof -
  have "upd_file f (\<lambda>x. x\<lparr>f_ref := f_ref x - 1\<rparr>) (upd_file f (\<lambda>x. x\<lparr>f_ref := f_ref x + 1\<rparr>) s) = s"
    using assms(1) by (simp add: upd_file_def)
  then show ?thesis using assms by (simp add: fileclose_def Let_def)
qed

text \<open>\<open>dup\<close> and \<open>close\<close> cancel. \<open>dup\<close> of an open descriptor returns the lowest free descriptor, which then
  stands for the same open file, and counts one more reference; it returns -1 and changes nothing
  when all descriptors are in use. Closing the new descriptor restores the state (the argument
  register of the second call apart).\<close>

theorem sys_dup_close:
  assumes me: "me < length (ptable s)" and len: "length (p_ofile (ptable s ! me)) = NOFILE"
    and fd: "argfd me 0 s = Some (fd, f)" and f: "f < length (ftable s)" "0 < f_ref (ftable s ! f)"
  shows "if \<forall>k < NOFILE. p_ofile (ptable s ! me) ! k \<noteq> None then sys_dup me s = Inr (Done (-1), s)
    else \<exists>new s1. sys_dup me s = Inr (Done (int new), s1) \<and> new < NOFILE \<and> p_ofile (ptable s ! me) ! new = None \<and>
      (\<forall>k < new. p_ofile (ptable s ! me) ! k \<noteq> None) \<and> p_ofile (ptable s1 ! me) = (p_ofile (ptable s ! me))[new := Some f] \<and>
      f_ref (ftable s1 ! f) = f_ref (ftable s ! f) + 1 \<and>
      sys_close me (with_rdi me (of_nat new) s1) = Inr (Done 0, with_rdi me (of_nat new) s)"
proof (cases "\<forall>k < NOFILE. p_ofile (ptable s ! me) ! k \<noteq> None")
  case True
  then have "fdalloc me f s = (-1, s)" using fdalloc_cases [OF len, of f] by blast
  then show ?thesis using True fd by (simp add: sys_dup_def)
next
  case False
  then obtain new where new: "new < NOFILE" "fdalloc me f s = (int new, set_fd me new (Some f) s)"
      "p_ofile (ptable s ! me) ! new = None" "\<forall>k < new. p_ofile (ptable s ! me) ! k \<noteq> None"
    using fdalloc_cases [OF len, of f] by blast
  define s1 where "s1 = upd_file f (\<lambda>x. x\<lparr>f_ref := f_ref x + 1\<rparr>) (set_fd me new (Some f) s)"
  have dup: "sys_dup me s = Inr (Done (int new), s1)" using fd new(2) f by (simp add: sys_dup_def filedup_def s1_def)
  have s1: "p_ofile (ptable s1 ! me) = (p_ofile (ptable s ! me))[new := Some f]" "f_ref (ftable s1 ! f) = f_ref (ftable s ! f) + 1" "length (ptable s1) = length (ptable s)"
    using me f by (simp_all add: s1_def)
  have len1: "me < length (ptable s1)" using me s1(3) by simp
  have a: "argfd me 0 (with_rdi me (of_nat new) s1) = Some (new, f)"
    using argint_with_rdi [OF len1 new(1)] new(1) len s1(1) by (simp add: argfd_Some)
  have "set_fd me new None (with_rdi me (of_nat new) s1) =
      with_rdi me (of_nat new) (upd_file f (\<lambda>x. x\<lparr>f_ref := f_ref x + 1\<rparr>) (set_fd me new None (set_fd me new (Some f) s)))"
    unfolding with_rdi_fd [OF len1] by (simp only: s1_def set_fd_upd_file)
  also have "\<dots> = upd_file f (\<lambda>x. x\<lparr>f_ref := f_ref x + 1\<rparr>) (with_rdi me (of_nat new) s)"
    unfolding set_fd_back [OF new(3) me] with_rdi_file ..
  finally have "sys_close me (with_rdi me (of_nat new) s1) = Inr (Done 0, with_rdi me (of_nat new) s)"
    using a fileclose_shared [of f "with_rdi me (of_nat new) s"] f by (simp add: sys_close_def)
  then show ?thesis using False dup new s1 by auto
qed

theorem sys_dup_close_witness:
  "\<exists>new s1. sys_dup 0 (upd_file 0 (\<lambda>x. x\<lparr>f_ref := 1\<rparr>) (set_fd 0 0 (Some 0) demo_kernel)) = Inr (Done (int new), s1) \<and> f_ref (ftable s1 ! 0) = 2"
proof -
  define s where "s = upd_file 0 (\<lambda>x. x\<lparr>f_ref := 1\<rparr>) (set_fd 0 0 (Some 0) demo_kernel)"
  have p: "p_ofile (ptable s ! 0) = (replicate 16 None)[0 := Some 0]" "length (ptable s) = 64" "f_ref (ftable s ! 0) = 1" "length (ftable s) = 100"
    by (simp_all add: s_def demo_kernel_def demo_proc_def NOFILE_def NPROC_def NFILE_def set_fd_def upd_proc_def upd_file_def)
  have "p_tf (ptable s ! 0) = demo_tf" by (simp add: s_def set_fd_def upd_proc_def upd_file_def demo_kernel_def demo_proc_def)
  then have a: "argfd 0 0 s = Some (0, 0)" using p(1) by (simp add: argfd_Some NOFILE_def argint_def fetcharg_def demo_tf_def)
  have "p_ofile (ptable s ! 0) ! 1 = None" "1 < NOFILE" by (simp_all add: p NOFILE_def)
  then have free: "\<not> (\<forall>k < NOFILE. p_ofile (ptable s ! 0) ! k \<noteq> None)" by blast
  have "0 < length (ptable s)" "length (p_ofile (ptable s ! 0)) = NOFILE" "0 < length (ftable s)" "0 < f_ref (ftable s ! 0)"
    by (simp_all add: p NOFILE_def)
  from sys_dup_close [OF this(1,2) a this(3,4)] free p(3) show ?thesis unfolding s_def [symmetric] by (simp only: if_False) auto
qed

section \<open>Empty directories\<close>

lemma isdirempty_loop_effect:
  assumes "dir_ready s dp" "icache s ! dp = ino" "i_size ino = DIRENT_SIZE * n" "k \<le> n"
  shows "\<exists>s'. fs_same s s' \<and> isdirempty_loop dv dp (i_size ino) (DIRENT_SIZE * k) s =
    Inr (\<forall>j \<in> {k..<n}. de_inum (dir_entry s ino j) = 0, s')"
  using assms
proof (induction "n - k" arbitrary: k s)
  case 0
  have "fs_same s s" using 0 eff_refl [of s] by (simp add: fs_same_def dir_ready_def bm_geom_def)
  with 0 show ?case by (intro exI [of _ s]) (simp add: isdirempty_loop.simps [of dv dp])
next
  case (Suc m)
  then have k: "k < n" by simp
  have lt: "DIRENT_SIZE * k < i_size ino" using k Suc.prems(3) by (simp add: DIRENT_SIZE_def)
  obtain s1 where s1: "readi dv dp (DIRENT_SIZE * k) DIRENT_SIZE s = Inr (int DIRENT_SIZE, dir_entry s ino k, s1)" "fs_same s s1"
    using readi_entry [OF Suc.prems(1), of k dv] lt Suc.prems(2) by auto
  have off: "DIRENT_SIZE * k + DIRENT_SIZE = DIRENT_SIZE * Suc k" by simp
  have ic: "icache s1 ! dp = ino" using fs_sameD(7) [OF s1(2)] Suc.prems(2) by simp
  have m: "m = n - Suc k" using Suc.hyps(2) by simp
  have set: "{k..<n} = insert k {Suc k..<n}" using k by auto
  show ?case
  proof (cases "de_inum (dir_entry s ino k) = 0")
    case False
    then have "isdirempty_loop dv dp (i_size ino) (DIRENT_SIZE * k) s = Inr (False, s1)"
      using lt s1(1) by (simp add: isdirempty_loop.simps [of dv dp])
    then show ?thesis using s1(2) False k by (intro exI [of _ s1]) auto
  next
    case True
    then have step: "isdirempty_loop dv dp (i_size ino) (DIRENT_SIZE * k) s = isdirempty_loop dv dp (i_size ino) (DIRENT_SIZE * Suc k) s1"
      using lt s1(1) off by (simp add: isdirempty_loop.simps [of dv dp "i_size ino" "DIRENT_SIZE * k"] del: mult_Suc_right)
    from Suc.hyps(1) [OF m dir_ready_same [OF s1(2) Suc.prems(1)] ic Suc.prems(3) Suc_leI [OF k]]
    obtain s2 where "fs_same s1 s2" "isdirempty_loop dv dp (i_size ino) (DIRENT_SIZE * Suc k) s1 =
        Inr (\<forall>j \<in> {Suc k..<n}. de_inum (dir_entry s1 ino j) = 0, s2)" by blast
    then show ?thesis using step True fs_same_trans [OF s1(2)] unfolding dir_same [OF s1(2)] set by (intro exI [of _ s2]) simp
  qed
qed

text \<open>\<open>isdirempty\<close> decides emptiness: on a directory of at least two entries it answers true exactly when every
  entry after the first two is free, and changes neither the disk nor the cached inodes.\<close>

theorem isdirempty_correct:
  assumes "dir_ready s dp" "2 * DIRENT_SIZE \<le> i_size (icache s ! dp)"
  shows "\<exists>s'. isdirempty dv dp s =
      Inr (\<forall>j \<in> {2..<i_size (icache s ! dp) div DIRENT_SIZE}. de_inum (dir_entry s (icache s ! dp) j) = 0, s') \<and>
    hv s' = hv s \<and> icache s' = icache s"
proof -
  have "DIRENT_SIZE dvd i_size (icache s ! dp)" using assms(1) by (simp add: dir_ready_def)
  then obtain n where n: "i_size (icache s ! dp) = DIRENT_SIZE * n" by (elim dvdE)
  have d: "i_size (icache s ! dp) div DIRENT_SIZE = n" "2 \<le> n" using assms(2) by (simp_all add: n DIRENT_SIZE_def)
  from isdirempty_loop_effect [OF assms(1) refl n d(2), of dv] show ?thesis
    unfolding isdirempty_def d(1) by (auto simp: mult.commute dest: fs_sameD(6,7))
qed

theorem isdirempty_correct_witness: "\<exists>s'. isdirempty no_dev 0 demo_dir = Inr (True, s') \<and> hv s' = hv demo_dir"
proof -
  have "i_size (icache demo_dir ! 0) = 32" by (simp add: demo_dir_icache demo_root_def)
  then show ?thesis using isdirempty_correct [OF demo_dir_ready(1), of no_dev] by (auto simp: DIRENT_SIZE_def)
qed

end
