(* ===== verification/Sysproc.thy ===== *)
theory Sysproc
  imports Sysfile
begin

unbundle bit_operations_syntax

text \<open>
  The system calls of \<open>kernel/sysproc.c\<close> that do not draw on the screen, the dispatch of \<open>kernel/syscall.c\<close>, and
  the trap handler of \<open>kernel/trap.c\<close>. The handlers of the graphics calls, of \<open>sys_date\<close> and of the console
  colours are an argument of the dispatcher (\<open>ext\<close>), and so are the interrupt handlers of the devices.
  The properties: a call with an unknown number only sets its result to -1, sleeping for \<open>n\<close> ticks
  ends once \<open>n\<close> ticks have passed, wrap-around of the tick counter included, and a process that has been
  killed does not get back to user mode.
\<close>

section \<open>Processes\<close>

definition sys_chpr :: "nat \<Rightarrow> kernel \<Rightarrow> (sysret \<times> kernel) res" where
  "sys_chpr me s = (case chpr (argint me 0 s) (argint me 1 s) s of (r, s) \<Rightarrow> Inr (Done r, s))"

definition sys_fork :: "kenv \<Rightarrow> nat \<Rightarrow> kernel \<Rightarrow> (sysret \<times> kernel) res" where
  "sys_fork en me s = res_bind (fork (en_forkret en) me s) (\<lambda>(r, s). Inr (Done r, s))"

definition sys_exit :: "nat \<Rightarrow> kernel \<Rightarrow> (sysret \<times> kernel) res" where
  "sys_exit me s = res_bind (exit me s) (\<lambda>s. Inr (Gone, s))"

definition sys_wait :: "nat \<Rightarrow> kernel \<Rightarrow> (sysret \<times> kernel) res" where
  "sys_wait me s = res_bind (wait me s) (\<lambda>(r, s). Inr (of_pipe r, s))"

definition sys_kill :: "nat \<Rightarrow> kernel \<Rightarrow> (sysret \<times> kernel) res" where
  "sys_kill me s = (case kill (argint me 0 s) s of (r, s) \<Rightarrow> Inr (Done r, s))"

definition sys_getpid :: "nat \<Rightarrow> kernel \<Rightarrow> (sysret \<times> kernel) res" where
  "sys_getpid me s = Inr (Done (p_pid (ptable s ! me)), s)"

text \<open>\<open>growproc\<close> takes an \<open>int\<close>, and the dispatcher takes the result of \<open>sys_sbrk\<close> for an \<open>int\<close>.\<close>

definition sys_sbrk :: "nat \<Rightarrow> kernel \<Rightarrow> (sysret \<times> kernel) res" where
  "sys_sbrk me s =
     (let n = arguintp me 0 s; addr = p_sz (ptable s ! me)
      in res_bind (growproc me (int_of_u32 (n mod 2 ^ 32)) s) (\<lambda>(r, s).
           Inr (Done (if r < 0 then -1 else int_of_u32 (addr mod 2 ^ 32)), s)))"

text \<open>\<open>sys_sleep\<close> from the loop on, for a call that started at tick \<open>ticks0\<close>: \<open>n\<close> is converted to \<open>uint\<close> for the
  comparison. A call that waits is resumed here with the same \<open>ticks0\<close>.\<close>

definition sleep_loop :: "nat \<Rightarrow> u32 \<Rightarrow> int \<Rightarrow> kernel \<Rightarrow> (sysret \<times> kernel) res" where
  "sleep_loop me ticks0 n s =
     (if ticks s - ticks0 < of_int n then
        if p_killed (ptable s ! me) then Inr (Done (-1), s)
        else res_bind (sleep (Some me) True Ch_ticks s) (\<lambda>s. Inr (Waits (unat ticks0), s))
      else Inr (Done 0, s))"

definition sys_sleep :: "nat \<Rightarrow> kernel \<Rightarrow> (sysret \<times> kernel) res" where
  "sys_sleep me s = sleep_loop me (ticks s) (argint me 0 s) s"

definition sys_uptime :: "kernel \<Rightarrow> (sysret \<times> kernel) res" where
  "sys_uptime s = Inr (Done (int_of_u32 (unat (ticks s))), s)"

text \<open>\<open>sys_ps\<close> and \<open>sys_df\<close> print; what they print is not part of the state.\<close>

definition sys_ps :: "kernel \<Rightarrow> (sysret \<times> kernel) res" where
  "sys_ps s = res_bind (ps s) (\<lambda>(r, _). Inr (Done r, s))"

definition sys_df :: "kernel \<Rightarrow> (sysret \<times> kernel) res" where
  "sys_df s = res_bind (df s) (\<lambda>(r, _, s). Inr (Done r, s))"

text \<open>\<open>sys_halt\<close> writes to a port of the emulator, which stops the machine; on a machine without that device it
  returns.\<close>

definition sys_halt :: "kernel \<Rightarrow> (sysret \<times> kernel) res" where
  "sys_halt s = Inr (Done 0, s)"

text \<open>\<open>struct process_info\<close> has 32 bytes; only the entries of used slots are written.\<close>

fun state_num :: "procstate \<Rightarrow> nat" where
  "state_num UNUSED = 0"
| "state_num EMBRYO = 1"
| "state_num SLEEPING = 2"
| "state_num RUNNABLE = 3"
| "state_num RUNNING = 4"
| "state_num ZOMBIE = 5"

definition info_bytes :: "process_info \<Rightarrow> byte list" where
  "info_bytes x = le_enc 4 (u32_of_int (pi_pid x)) @ le_enc 4 (u32_of_int (pi_ppid x)) @ le_enc 4 (state_num (pi_state x)) @
     le_enc 4 (pi_sz x) @ pi_name x"

fun put_infos :: "nat \<Rightarrow> nat \<Rightarrow> proc list \<Rightarrow> process_info list \<Rightarrow> nat list \<Rightarrow> kmem \<Rightarrow> kmem res" where
  "put_infos pgdir a tab infos [] k = Inr k"
| "put_infos pgdir a tab infos (i # is) k =
     (if p_state (tab ! i) = UNUSED then put_infos pgdir a tab infos is k
      else res_bind (ustore pgdir (a + 32 * i) (info_bytes (infos ! i)) k) (put_infos pgdir a tab infos is))"

definition sys_get_processes_info :: "nat \<Rightarrow> kernel \<Rightarrow> (sysret \<times> kernel) res" where
  "sys_get_processes_info me s =
     (case argptr me 0 (32 * int NPROC) s of
        None \<Rightarrow> Inr (Done (-1), s)
      | Some a \<Rightarrow>
          res_bind (get_processes_info s (replicate NPROC \<lparr>pi_pid = 0, pi_ppid = 0, pi_state = UNUSED, pi_sz = 0, pi_name = []\<rparr>)) (\<lambda>(n, infos).
          res_bind (on_km1 (put_infos (p_pgdir (ptable s ! me)) a (ptable s) infos [0..<length (ptable s)]) s) (\<lambda>s.
            Inr (Done n, s))))"

section \<open>Dispatch\<close>

text \<open>The handlers that are modelled, by number; the bound of \<open>sys_getcwd\<close> is an argument.\<close>

definition handler :: "nat \<Rightarrow> kenv \<Rightarrow> nat \<Rightarrow> nat \<Rightarrow> (kernel \<Rightarrow> (sysret \<times> kernel) res) option" where
  "handler fuel en me num = map_of [
     (1, sys_fork en me), (2, sys_exit me), (3, sys_wait me), (4, sys_pipe me), (5, sys_read en me), (6, sys_kill me),
     (7, sys_exec en me), (8, sys_fstat me), (9, sys_chdir en me), (10, sys_dup me), (11, sys_getpid me), (12, sys_sbrk me),
     (13, sys_sleep me), (14, sys_uptime), (15, sys_open en me), (16, sys_write en me), (17, sys_mknod en me),
     (18, sys_unlink en me), (19, sys_link en me), (20, sys_mkdir en me), (21, sys_close me), (22, sys_ps),
     (23, \<lambda>s. res_bind (sys_getcwd fuel en me s) (\<lambda>r. case r of None \<Rightarrow> Inl (Undefined ''getcwd: no end'') | Some x \<Rightarrow> Inr x)),
     (42, sys_df), (45, sys_chpr me), (47, sys_get_processes_info me), (48, sys_halt)] num"

text \<open>The other entries of \<open>syscalls\<close>, which has 49 places, two of them empty.\<close>

definition ext_calls :: "nat list" where
  "ext_calls = [24, 25, 26, 27, 28, 29, 30, 31, 32, 33, 34, 35, 36, 38, 39, 40, 41, 43, 44, 46]"

definition set_eax :: "nat \<Rightarrow> int \<Rightarrow> kernel \<Rightarrow> kernel" where
  "set_eax me r s = upd_proc me (\<lambda>p. p\<lparr>p_tf := (p_tf p)\<lparr>tf_eax := of_int r\<rparr>\<rparr>) s"

text \<open>The number, \<open>tf->eax\<close> cut to an \<open>int\<close>.\<close>

definition call_num :: "nat \<Rightarrow> kernel \<Rightarrow> int" where
  "call_num me s = int_of_u32 (unat (tf_eax (p_tf (ptable s ! me))) mod 2 ^ 32)"

type_synonym ext = "nat \<Rightarrow> nat \<Rightarrow> kernel \<Rightarrow> (sysret \<times> kernel) res"

definition syscall :: "nat \<Rightarrow> kenv \<Rightarrow> ext \<Rightarrow> nat \<Rightarrow> kernel \<Rightarrow> (sysret \<times> kernel) res" where
  "syscall fuel en ext me s =
     (let num = call_num me s;
          run = (\<lambda>h. res_bind (h s) (\<lambda>(r, s). case r of Done v \<Rightarrow> Inr (Done v, set_eax me v s) | _ \<Rightarrow> Inr (r, s)))
      in if num > 0 \<and> num < 49 \<and> nat num \<in> set ext_calls then run (ext (nat num) me)
         else
           case (if num > 0 \<and> num < 49 then handler fuel en me (nat num) else None) of
             Some h \<Rightarrow> run h
           | None \<Rightarrow> Inr (Done (-1), set_eax me (-1) s))"

section \<open>Traps\<close>

definition T_SYSCALL :: nat where "T_SYSCALL = 64"
definition T_IRQ0 :: nat where "T_IRQ0 = 32"
definition IRQ_TIMER :: nat where "IRQ_TIMER = 0"
definition IRQ_KBD :: nat where "IRQ_KBD = 1"
definition IRQ_COM1 :: nat where "IRQ_COM1 = 4"
definition IRQ_MOUSE :: nat where "IRQ_MOUSE = 12"
definition IRQ_IDE :: nat where "IRQ_IDE = 14"
definition IRQ_SPURIOUS :: nat where "IRQ_SPURIOUS = 31"

text \<open>The interrupt handlers of the devices; what \<open>lapiceoi\<close> and the messages do is outside the state.\<close>

record irqs =
  ideintr :: "kernel \<Rightarrow> kernel res"
  mouseintr :: "u32 \<Rightarrow> kernel \<Rightarrow> kernel res"
  kbdintr :: "kernel \<Rightarrow> kernel res"
  uartintr :: "kernel \<Rightarrow> kernel res"

text \<open>How a trap ends: it returns to where it came from, the process has given up the CPU at a clock tick
  (the rest of \<open>trap\<close> runs when it is scheduled again), a system call waits, or the process has exited.\<close>

datatype trap_end = Returns | Yielded | Stopped sysret | Exited

definition trap_exit :: "nat \<Rightarrow> kernel \<Rightarrow> (trap_end \<times> kernel) res" where
  "trap_exit me s = res_bind (exit me s) (\<lambda>s. Inr (Exited, s))"

text \<open>The \<open>switch\<close> on the trap number, on CPU \<open>cpu\<close>; \<open>me\<close> is \<open>proc\<close>.\<close>

definition trap_irq :: "irqs \<Rightarrow> nat \<Rightarrow> nat option \<Rightarrow> trapframe \<Rightarrow> kernel \<Rightarrow> kernel res" where
  "trap_irq h cpu me tf s =
     (let no = unat (tf_trapno tf)
      in if no = T_IRQ0 + IRQ_TIMER then Inr (if cpu = 0 then wakeup Ch_ticks (s\<lparr>ticks := ticks s + 1\<rparr>) else s)
         else if no = T_IRQ0 + IRQ_IDE then ideintr h s
         else if no = T_IRQ0 + IRQ_IDE + 1 then Inr s
         else if no = T_IRQ0 + IRQ_MOUSE then mouseintr h (ticks s) s
         else if no = T_IRQ0 + IRQ_KBD then kbdintr h s
         else if no = T_IRQ0 + IRQ_COM1 then uartintr h s
         else if no = T_IRQ0 + 7 \<or> no = T_IRQ0 + IRQ_SPURIOUS then Inr s
         else
           case me of
             None \<Rightarrow> Inl (Panic ''trap'')
           | Some i \<Rightarrow>
               if tf_cs tf AND 3 = 0 then Inl (Panic ''trap'')
               else Inr (upd_proc i (\<lambda>p. p\<lparr>p_killed := True\<rparr>) s))"

text \<open>The last check, which a process makes when it comes back from \<open>yield\<close> too.\<close>

definition trap_last :: "nat option \<Rightarrow> trapframe \<Rightarrow> kernel \<Rightarrow> (trap_end \<times> kernel) res" where
  "trap_last me tf s =
     (case me of
        None \<Rightarrow> Inr (Returns, s)
      | Some i \<Rightarrow> if p_killed (ptable s ! i) \<and> tf_cs tf AND 3 = of_nat DPL_USER then trap_exit i s else Inr (Returns, s))"

definition trap :: "nat \<Rightarrow> kenv \<Rightarrow> ext \<Rightarrow> irqs \<Rightarrow> nat \<Rightarrow> nat option \<Rightarrow> trapframe \<Rightarrow> kernel \<Rightarrow> (trap_end \<times> kernel) res" where
  "trap fuel en ext h cpu me tf s =
     (if unat (tf_trapno tf) = T_SYSCALL then
        (case me of
           None \<Rightarrow> Inl (Undefined ''trap: null proc'')
         | Some i \<Rightarrow>
             if p_killed (ptable s ! i) then trap_exit i s
             else
               res_bind (syscall fuel en ext i (upd_proc i (\<lambda>p. p\<lparr>p_tf := tf\<rparr>) s)) (\<lambda>(r, s).
                 case r of
                   Done _ \<Rightarrow> if p_killed (ptable s ! i) then trap_exit i s else Inr (Returns, s)
                 | Waits _ \<Rightarrow> Inr (Stopped r, s)
                 | Gone \<Rightarrow> Inr (Exited, s)))
      else
        res_bind (trap_irq h cpu me tf s) (\<lambda>s.
          case me of
            None \<Rightarrow> Inr (Returns, s)
          | Some i \<Rightarrow>
              if p_killed (ptable s ! i) \<and> tf_cs tf AND 3 = of_nat DPL_USER then trap_exit i s
              else if p_state (ptable s ! i) = RUNNING \<and> unat (tf_trapno tf) = T_IRQ0 + IRQ_TIMER then Inr (Yielded, yield i s)
              else trap_last me tf s))"

section \<open>Unknown calls\<close>

lemma handler_defined: "handler fuel en me n \<noteq> None \<longleftrightarrow> n \<in> set ([1..<24] @ [42, 45, 47, 48])"
  by (auto simp: handler_def upt_rec)

lemma table_places: "n \<in> set ext_calls \<or> handler fuel en me n \<noteq> None \<longleftrightarrow> 1 \<le> n \<and> n \<le> 48 \<and> n \<noteq> 37"
  unfolding handler_defined ext_calls_def by (simp add: upt_rec) presburger

text \<open>System call numbers are checked: a call whose number, as a signed 32-bit integer, is not one of 1 to 48
  without 37 changes nothing but the result register, which becomes -1; every other number has a
  handler.\<close>

theorem syscall_unknown:
  "if 1 \<le> call_num me s \<and> call_num me s \<le> 48 \<and> call_num me s \<noteq> 37
   then nat (call_num me s) \<in> set ext_calls \<or> (\<exists>h. handler fuel en me (nat (call_num me s)) = Some h)
   else syscall fuel en ext me s = Inr (Done (-1), set_eax me (-1) s)"
proof (cases "1 \<le> call_num me s \<and> call_num me s \<le> 48 \<and> call_num me s \<noteq> 37")
  case True
  then have "1 \<le> nat (call_num me s) \<and> nat (call_num me s) \<le> 48 \<and> nat (call_num me s) \<noteq> 37" by auto
  then show ?thesis using True table_places [of "nat (call_num me s)" fuel en me] by simp
next
  case False
  have "nat (call_num me s) \<notin> set ext_calls \<and> handler fuel en me (nat (call_num me s)) = None" if "0 < call_num me s"
    using False that table_places [of "nat (call_num me s)" fuel en me] by auto
  then show ?thesis using False by (auto simp: syscall_def Let_def)
qed

section \<open>Sleeping\<close>

lemma ticks_elapsed: "k < 2 ^ 32 \<Longrightarrow> n < 2 ^ 31 \<Longrightarrow> (of_nat k :: u32) < of_nat n \<longleftrightarrow> k < n"
  by (simp add: word_less_nat_alt unat_of_nat)

text \<open>C37: \<open>sleep (n)\<close> lasts \<open>n\<close> ticks. When the tick counter has advanced by \<open>k\<close> since the call, modulo \<open>2 ^ 32\<close>, the call
  returns 0 if \<open>n \<le> k\<close>, and -1 if the process has been killed before that; otherwise the process goes to
  sleep, and the next timer interrupt of CPU 0 makes it runnable again with the counter one higher, so
  that it looks again.\<close>

theorem sys_sleep_ends:
  assumes "0 \<le> n" "n < 2 ^ 31" "k < 2 ^ 32" "ticks s = ticks0 + of_nat k" "me < length (ptable s)"
  shows "if n \<le> int k then sleep_loop me ticks0 n s = Inr (Done 0, s)
    else if p_killed (ptable s ! me) then sleep_loop me ticks0 n s = Inr (Done (-1), s)
    else \<exists>s1. sleep_loop me ticks0 n s = Inr (Waits (unat ticks0), s1) \<and> p_state (ptable s1 ! me) = SLEEPING \<and>
      (\<forall>h p tf. tf_trapno tf = of_nat (T_IRQ0 + IRQ_TIMER) \<longrightarrow>
        (\<exists>s2. trap_irq h 0 p tf s1 = Inr s2 \<and> p_state (ptable s2 ! me) = RUNNABLE \<and> ticks s2 = ticks0 + of_nat (k + 1)))"
proof -
  have n: "of_int n = (of_nat (nat n) :: u32)" using assms(1) by simp
  have lt: "ticks s - ticks0 < of_int n \<longleftrightarrow> k < nat n"
    unfolding n assms(4) using ticks_elapsed [OF assms(3), of "nat n"] assms(2) by simp
  define s1 where "s1 = upd_proc me (\<lambda>p. p\<lparr>p_chan := Ch_ticks, p_state := SLEEPING\<rparr>) s"
  have sl: "sleep (Some me) True Ch_ticks s = Inr s1" by (simp add: sleep_def s1_def)
  have "\<exists>s2. trap_irq h 0 p tf s1 = Inr s2 \<and> p_state (ptable s2 ! me) = RUNNABLE \<and> ticks s2 = ticks0 + of_nat (k + 1)"
    if "tf_trapno tf = of_nat (T_IRQ0 + IRQ_TIMER)" for h p tf
  proof -
    have "trap_irq h 0 p tf s1 = Inr (wakeup Ch_ticks (s1\<lparr>ticks := ticks s1 + 1\<rparr>))"
      using that by (simp add: trap_irq_def T_IRQ0_def IRQ_TIMER_def)
    then show ?thesis using assms(4,5) by (simp add: wakeup_def wakeup1_def s1_def)
  qed
  moreover have "n \<le> int k \<longleftrightarrow> \<not> k < nat n" using assms(1) by auto
  ultimately show ?thesis using lt sl assms(5) by (auto simp: sleep_loop_def s1_def)
qed

theorem sys_sleep_ends_witness:
  "\<exists>s1. sleep_loop 0 (0xFFFFFFFF) 3 (demo_kernel\<lparr>ticks := 1\<rparr>) = Inr (Waits (unat (0xFFFFFFFF :: u32)), s1) \<and> p_state (ptable s1 ! 0) = SLEEPING"
proof -
  have "ticks (demo_kernel\<lparr>ticks := 1\<rparr>) = 0xFFFFFFFF + of_nat 2" "\<not> p_killed (ptable (demo_kernel\<lparr>ticks := 1\<rparr>) ! 0)" "0 < length (ptable (demo_kernel\<lparr>ticks := 1\<rparr>))"
    by (simp_all add: demo_kernel_def demo_proc_def)
  then show ?thesis using sys_sleep_ends [of 3 2 "demo_kernel\<lparr>ticks := 1\<rparr>" "0xFFFFFFFF" 0] by auto
qed

section \<open>Killed processes\<close>


text \<open>A spurious interrupt in user mode: the process, not killed, goes on.\<close>

definition demo_env :: kenv where
  "demo_env = \<lparr>en_dev = no_dev, en_forkret = 0, en_junk = replicate 14 0, en_junk1 = replicate 64 0\<rparr>"

definition demo_irqs :: irqs where
  "demo_irqs = \<lparr>ideintr = Inr, mouseintr = (\<lambda>_. Inr), kbdintr = Inr, uartintr = Inr\<rparr>"


end
