(* ===== verification/Console.thy ===== *)
theory Console
  imports Files
begin

unbundle bit_operations_syntax

text \<open>
  \<open>kernel/console.c\<close>: the screen (\<open>cgaputc\<close>, \<open>consputc\<close>), formatted output (\<open>printint\<close>, \<open>printptr\<close>, \<open>cprintf\<close>), and the
  input line discipline (\<open>consoleintr\<close>, \<open>consoleread\<close>) with its ring buffer of three indices. The lemmas
  show that output stays on the screen, that numbers are printed in positional notation, and that the
  ring buffer implements a queue of finished input plus an editable line.
\<close>

section \<open>The screen\<close>

text \<open>The memory of the display, the cursor register, \<open>cons.pos\<close>, the bytes sent to the serial line, and the
  input buffer with its read, write and edit indices.\<close>

record console =
  c_crt :: "nat \<Rightarrow> u16"
  c_cursor :: nat
  c_pos :: nat
  c_uart :: "byte list"
  in_buf :: "byte list"
  in_r :: u32
  in_w :: u32
  in_e :: u32

definition BACKSPACE :: nat where "BACKSPACE = 0x100"
definition INPUT_BUF :: nat where "INPUT_BUF = 128"

definition blank :: u16 where "blank = 0x0320"

definition cgaputc :: "nat \<Rightarrow> console \<Rightarrow> console" where
  "cgaputc c s =
     (let pos = c_cursor s;
          crt = c_crt s;
          (pos, crt) = (if c = 10 then (pos + 80 - pos mod 80, crt)
                        else if c = BACKSPACE then (if pos > 0 then pos - 1 else pos, crt)
                        else (pos + 1, crt(pos := of_nat (c mod 256) OR 0x0300)));
          (pos, crt) = (if pos div 80 \<ge> 24 then
                          (pos - 80, \<lambda>i. if pos - 80 \<le> i \<and> i < 24 * 80 then 0 else if i < 23 * 80 then crt (i + 80) else crt i)
                        else (pos, crt))
      in s\<lparr>c_cursor := pos mod 2 ^ 16, c_pos := pos, c_crt := crt(pos := blank)\<rparr>)"

text \<open>\<open>uartputc\<close> for a machine that has a serial line.\<close>

definition uartputc :: "nat \<Rightarrow> console \<Rightarrow> console" where
  "uartputc c s = s\<lparr>c_uart := c_uart s @ [of_nat c]\<rparr>"

text \<open>\<open>consputc\<close>; a tab is expanded with spaces to the next multiple of 8.\<close>

definition consput1 :: "nat \<Rightarrow> console \<Rightarrow> console" where
  "consput1 c s =
     (if c = BACKSPACE then cgaputc c (uartputc 8 (uartputc 32 (uartputc 8 s)))
      else cgaputc c (uartputc c s))"

definition consputc :: "nat \<Rightarrow> console \<Rightarrow> console" where
  "consputc c s = (if c = 9 then (consput1 32 ^^ (8 - c_pos s mod 8)) s else consput1 c s)"

section \<open>Formatted output\<close>

definition digits :: "byte list" where
  "digits = [48, 49, 50, 51, 52, 53, 54, 55, 56, 57, 97, 98, 99, 100, 101, 102]"

text \<open>The digits of \<open>x\<close>, the last one first, as the loop of \<open>printint\<close> leaves them in \<open>buf\<close>.\<close>

function digit_loop :: "nat \<Rightarrow> nat \<Rightarrow> byte list" where
  "digit_loop base x = (digits ! (x mod base)) # (if x div base \<noteq> 0 \<and> base > 1 then digit_loop base (x div base) else [])"
  by pat_completeness auto
termination
proof (relation "measure (\<lambda>(base, x). x)", simp)
  fix base x :: nat assume "x div base \<noteq> 0 \<and> base > 1"
  then show "((base, x div base), (base, x)) \<in> measure (\<lambda>(base, x). x)" by (cases "x = 0") auto
qed

declare digit_loop.simps [simp del]

definition printint :: "int \<Rightarrow> nat \<Rightarrow> bool \<Rightarrow> byte list" where
  "printint xx base sign =
     (let neg = sign \<and> xx < 0;
          x = (if neg then u32_of_int (- xx) else u32_of_int xx);
          buf = digit_loop base x @ (if neg then [45] else [])
      in rev buf)"

definition printptr :: "u64 \<Rightarrow> byte list" where
  "printptr x = map (\<lambda>i. digits ! unat (drop_bit 60 (push_bit (4 * i) x))) [0..<16]"

datatype varg = VInt int | VPtr u64 | VStr "byte list option"

definition null_text :: "byte list" where
  "null_text = [40, 110, 117, 108, 108, 41]"

text \<open>The characters \<open>cprintf\<close> puts out. A conversion without an argument of its type reads past the argument
  list.\<close>

fun cprintf_chars :: "byte list \<Rightarrow> varg list \<Rightarrow> byte list res" where
  "cprintf_chars [] args = Inr []"
| "cprintf_chars [c] args = (if c = 37 then Inr [] else Inr [c])"
| "cprintf_chars (c # d # fmt) args =
     (if c \<noteq> 37 then res_bind (cprintf_chars (d # fmt) args) (\<lambda>out. Inr (c # out))
      else if d = 100 then
        (case args of VInt x # as \<Rightarrow> res_bind (cprintf_chars fmt as) (\<lambda>out. Inr (printint x 10 True @ out)) | _ \<Rightarrow> Inl (Undefined ''va_arg''))
      else if d = 120 then
        (case args of VInt x # as \<Rightarrow> res_bind (cprintf_chars fmt as) (\<lambda>out. Inr (printint x 16 False @ out)) | _ \<Rightarrow> Inl (Undefined ''va_arg''))
      else if d = 112 then
        (case args of VPtr x # as \<Rightarrow> res_bind (cprintf_chars fmt as) (\<lambda>out. Inr (printptr x @ out)) | _ \<Rightarrow> Inl (Undefined ''va_arg''))
      else if d = 115 then
        (case args of
           VStr t # as \<Rightarrow> res_bind (cprintf_chars fmt as) (\<lambda>out. Inr ((case t of None \<Rightarrow> null_text | Some u \<Rightarrow> cstr u) @ out))
         | _ \<Rightarrow> Inl (Undefined ''va_arg''))
      else if d = 37 then res_bind (cprintf_chars fmt args) (\<lambda>out. Inr (37 # out))
      else res_bind (cprintf_chars fmt args) (\<lambda>out. Inr (37 # d # out)))"

definition cprintf :: "byte list \<Rightarrow> varg list \<Rightarrow> console \<Rightarrow> console res" where
  "cprintf fmt args s = res_bind (cprintf_chars fmt args) (\<lambda>out. Inr (fold (\<lambda>c. consputc (unat c)) out s))"

text \<open>\<open>kprintf\<close> returns before it does anything.\<close>

definition kprintf :: "byte list \<Rightarrow> varg list \<Rightarrow> console \<Rightarrow> console" where
  "kprintf fmt args s = s"

section \<open>Input\<close>

text \<open>Deleting the current line: the loop of control-U.\<close>

function kill_line :: "console \<Rightarrow> console" where
  "kill_line s =
     (if in_e s \<noteq> in_w s \<and> in_buf s ! (unat (in_e s - 1) mod INPUT_BUF) \<noteq> 10
      then kill_line (consputc BACKSPACE (s\<lparr>in_e := in_e s - 1\<rparr>)) else s)"
  by pat_completeness auto

lemma input_consputc [simp]:
  "in_buf (consputc c s) = in_buf s" "in_r (consputc c s) = in_r s" "in_w (consputc c s) = in_w s" "in_e (consputc c s) = in_e s"
proof -
  have one: "in_buf (consput1 c s) = in_buf s \<and> in_r (consput1 c s) = in_r s \<and> in_w (consput1 c s) = in_w s \<and> in_e (consput1 c s) = in_e s" for c s
    by (simp add: consput1_def cgaputc_def uartputc_def Let_def split: prod.split)
  have "in_buf ((consput1 32 ^^ k) s) = in_buf s \<and> in_r ((consput1 32 ^^ k) s) = in_r s \<and> in_w ((consput1 32 ^^ k) s) = in_w s \<and> in_e ((consput1 32 ^^ k) s) = in_e s" for k
    by (induction k) (simp_all add: one)
  with one show "in_buf (consputc c s) = in_buf s" "in_r (consputc c s) = in_r s" "in_w (consputc c s) = in_w s" "in_e (consputc c s) = in_e s"
    by (simp_all add: consputc_def)
qed

lemma edit_shrinks: "e \<noteq> (w :: u32) \<Longrightarrow> unat (e - 1 - w) < unat (e - w)"
  using word_count_get [of w e] by (metis diff_diff_eq add.commute lessI)

termination kill_line
  by (relation "measure (\<lambda>s. unat (in_e s - in_w s))") (auto intro: edit_shrinks)

declare kill_line.simps [simp del]

text \<open>The text of the two listings that can be asked for from the keyboard.\<close>

definition ascii :: "string \<Rightarrow> byte list" where
  "ascii = map of_char"

fun dump_lines :: "(int \<times> string \<times> byte list \<times> u64 list) list \<Rightarrow> console \<Rightarrow> console res" where
  "dump_lines [] s = Inr s"
| "dump_lines ((pid, st, name, pcs) # ls) s =
     res_bind (cprintf (ascii ''%d %s %s'') [VInt pid, VStr (Some (ascii st)), VStr (Some name)] s) (\<lambda>s.
     res_bind (foldl (\<lambda>r pc. res_bind r (cprintf (ascii '' %p'') [VPtr pc])) (Inr s) pcs) (\<lambda>s.
     res_bind (cprintf [10] [] s) (dump_lines ls)))"

definition df_labels :: "string list" where
  "df_labels = [''Size of file system    : %d'', ''Number of blocks       : %d'', ''Number of inodes       : %d'',
     ''Number of log blocks   : %d'', ''Sector size            : %d'', ''Number of bit blocks   : %d'',
     ''Number of used blocks  : %d'', ''Number of free blocks  : %d'', ''Number of inodes used  : %d'',
     ''Number of inodes free  : %d'', ''Percentage blocks used : %d %%'', ''Percentage inodes used : %d %%'']"

fun df_lines :: "(string \<times> int) list \<Rightarrow> console \<Rightarrow> console res" where
  "df_lines [] s = cprintf [10] [] s"
| "df_lines ((l, n) # ls) s = res_bind (cprintf (ascii l @ [10]) [VInt n] s) (df_lines ls)"

definition print_df :: "int list \<Rightarrow> console \<Rightarrow> console res" where
  "print_df nums s =
     res_bind (cprintf [10] [] s) (\<lambda>s.
     res_bind (cprintf (ascii ''Disk Free'' @ [10]) [] s) (\<lambda>s.
     res_bind (cprintf [10] [] s) (df_lines (zip df_labels nums))))"

text \<open>One character from \<open>getc\<close>. Control-Z loads an empty interrupt table, which resets the machine at the next
  interrupt. Control-D is caught by a case of its own, so that it never gets into the buffer.\<close>

definition store_char :: "nat \<Rightarrow> console \<times> kernel \<Rightarrow> console \<times> kernel" where
  "store_char c = (\<lambda>(con, s).
     if c \<noteq> 0 \<and> unat (in_e con - in_r con) < INPUT_BUF then
       let c = (if c = 13 then 10 else c);
           con = consputc c (con\<lparr>in_buf := (in_buf con)[unat (in_e con) mod INPUT_BUF := of_nat c], in_e := in_e con + 1\<rparr>)
       in if c = 10 \<or> c = 4 \<or> in_e con = in_r con + of_nat INPUT_BUF then (con\<lparr>in_w := in_e con\<rparr>, wakeup Ch_input s)
          else (con, s)
     else (con, s))"

definition intr_char :: "(u64 \<Rightarrow> u64) \<Rightarrow> nat \<Rightarrow> console \<times> kernel \<Rightarrow> (console \<times> kernel) res" where
  "intr_char rd c = (\<lambda>(con, s).
     if c = 26 then Inl (Undefined ''reboot'')
     else if c = 16 then res_bind (dump_lines (procdump rd s) con) (\<lambda>con. Inr (con, s))
     else if c = 21 then Inr (kill_line con, s)
     else if c = 8 \<or> c = 127 then Inr (if in_e con \<noteq> in_w con then consputc BACKSPACE (con\<lparr>in_e := in_e con - 1\<rparr>) else con, s)
     else if c = 4 then
       res_bind (show_disk_free s) (\<lambda>(nums, s). res_bind (print_df nums con) (\<lambda>con. Inr (con, s)))
     else Inr (store_char c (con, s)))"

text \<open>\<open>consoleintr\<close> on the characters that \<open>getc\<close> returns before it returns a negative number.\<close>

fun consoleintr :: "(u64 \<Rightarrow> u64) \<Rightarrow> nat list \<Rightarrow> console \<times> kernel \<Rightarrow> (console \<times> kernel) res" where
  "consoleintr rd [] x = Inr x"
| "consoleintr rd (c # cs) x = res_bind (intr_char rd c x) (consoleintr rd cs)"

section \<open>Reading\<close>

text \<open>The loop of \<open>consoleread\<close>, with \<open>k\<close> of \<open>target\<close> bytes still wanted: the result, the bytes stored, and the
  console. It stops at an empty buffer (\<open>None\<close>), after a newline, or at an end-of-file mark.\<close>

fun consoleread_loop :: "nat \<Rightarrow> nat \<Rightarrow> console \<Rightarrow> nat option \<times> byte list \<times> console" where
  "consoleread_loop target 0 con = (Some 0, [], con)"
| "consoleread_loop target (Suc k) con =
     (if in_r con = in_w con then (None, [], con)
      else
        let c = in_buf con ! (unat (in_r con) mod INPUT_BUF); con = con\<lparr>in_r := in_r con + 1\<rparr>
        in if c = 4 then (Some (Suc k), [], if Suc k < target then con\<lparr>in_r := in_r con - 1\<rparr> else con)
           else if c = 10 then (Some k, [c], con)
           else (case consoleread_loop target k con of (r, bs, con) \<Rightarrow> (r, c # bs, con)))"

text \<open>\<open>consoleread\<close>: it unlocks the inode while it waits. A call that goes to sleep has stored some bytes and is
  resumed for the rest.\<close>

definition consoleread :: "nat \<Rightarrow> nat \<Rightarrow> int \<Rightarrow> console \<times> kernel \<Rightarrow> (pipe_ret \<times> byte list \<times> console \<times> kernel) res" where
  "consoleread me ip n = (\<lambda>(con, s).
     res_bind (iunlock ip s) (\<lambda>s.
       case consoleread_loop (nat n) (nat n) con of (r, bs, con) \<Rightarrow>
         case r of
           Some left \<Rightarrow> res_bind (ilock ip s) (\<lambda>s. Inr (Return (if n > 0 then n - int left else 0), bs, con, s))
         | None \<Rightarrow>
             if p_killed (ptable s ! me) then res_bind (ilock ip s) (\<lambda>s. Inr (Return (-1), bs, con, s))
             else res_bind (sleep (Some me) True Ch_input s) (\<lambda>s. Inr (Blocked (length bs), bs, con, s))))"

definition consolewrite :: "nat \<Rightarrow> byte list \<Rightarrow> console \<times> kernel \<Rightarrow> (int \<times> console \<times> kernel) res" where
  "consolewrite ip buf = (\<lambda>(con, s).
     res_bind (iunlock ip s) (\<lambda>s.
       let con = fold (\<lambda>c. consputc (unat c)) buf con
       in res_bind (ilock ip s) (\<lambda>s. Inr (int (length buf), con, s))))"

section \<open>Output stays on the screen\<close>

definition on_screen :: "console \<Rightarrow> console \<Rightarrow> bool" where
  "on_screen s s' \<longleftrightarrow> c_cursor s' < 24 * 80 \<and> c_pos s' = c_cursor s' \<and> (\<forall>i \<ge> 24 * 80. c_crt s' i = c_crt s i)"

lemma cgaputc_on_screen:
  assumes "c_cursor s < 24 * 80"
  shows "on_screen s (cgaputc c s)"
proof -
  define q where "q = (if c = 10 then (c_cursor s + 80 - c_cursor s mod 80, c_crt s)
    else if c = BACKSPACE then (if c_cursor s > 0 then c_cursor s - 1 else c_cursor s, c_crt s)
    else (c_cursor s + 1, (c_crt s)(c_cursor s := of_nat (c mod 256) OR 0x0300)))"
  obtain pos crt where q: "q = (pos, crt)" by (cases q)
  have "c_cursor s mod 80 = c_cursor s - c_cursor s div 80 * 80" by (simp add: minus_div_mult_eq_mod)
  then have pos: "pos \<le> 24 * 80" "\<forall>i \<ge> 24 * 80. crt i = c_crt s i"
    using q assms by (auto simp: q_def split: if_splits)
  show ?thesis
  proof (cases "pos div 80 \<ge> 24")
    case True
    then have "pos = 24 * 80" using pos(1) by linarith
    then show ?thesis using pos(2) by (simp add: cgaputc_def Let_def q_def [symmetric] q on_screen_def)
  next
    case False
    then have "pos < 24 * 80" by linarith
    then show ?thesis using pos(2) False by (simp add: cgaputc_def Let_def q_def [symmetric] q on_screen_def)
  qed
qed

lemma consput1_on_screen: "c_cursor s < 24 * 80 \<Longrightarrow> on_screen s (consput1 c s)"
  using cgaputc_on_screen [of "uartputc 8 (uartputc 32 (uartputc 8 s))" c] cgaputc_on_screen [of "uartputc c s" c]
  by (cases "c = BACKSPACE") (simp_all add: consput1_def uartputc_def on_screen_def)

lemma on_screen_trans: "on_screen s s' \<Longrightarrow> on_screen s' s'' \<Longrightarrow> on_screen s s''"
  by (simp add: on_screen_def)

lemma consput1_pow: "c_cursor s < 24 * 80 \<Longrightarrow> on_screen s ((consput1 c ^^ Suc k) s)"
proof (induction k)
  case 0
  then show ?case by (simp add: consput1_on_screen)
next
  case (Suc k)
  then have "on_screen s ((consput1 c ^^ Suc k) s)" by simp
  moreover from this have "on_screen ((consput1 c ^^ Suc k) s) (consput1 c ((consput1 c ^^ Suc k) s))"
    by (intro consput1_on_screen) (simp add: on_screen_def)
  ultimately show ?case using on_screen_trans by simp
qed

text \<open>Output cannot leave the screen: from a cursor position in the first 24 lines, any character, newlines,
  erasures and tabs included, moves the cursor within the first 24 lines, scrolling when needed, and
  changes no cell of the display memory after them; \<open>cons.pos\<close> agrees with the cursor.\<close>

theorem consputc_on_screen:
  assumes "c_cursor s < 24 * 80"
  shows "c_cursor (consputc c s) < 24 * 80 \<and> c_pos (consputc c s) = c_cursor (consputc c s) \<and>
    (\<forall>i. 24 * 80 \<le> i \<longrightarrow> c_crt (consputc c s) i = c_crt s i)"
proof -
  have "8 - c_pos s mod 8 \<noteq> 0" by simp
  then obtain k where k: "8 - c_pos s mod 8 = Suc k" using not0_implies_Suc by blast
  have "on_screen s (consputc c s)"
    using consput1_on_screen [OF assms, of c] consput1_pow [OF assms, where c = 32 and k = k] k by (simp add: consputc_def)
  then show ?thesis by (simp add: on_screen_def)
qed

definition demo_console :: console where
  "demo_console = \<lparr>c_crt = (\<lambda>_. 0), c_cursor = 0, c_pos = 0, c_uart = [], in_buf = replicate 128 0, in_r = 0, in_w = 0, in_e = 0\<rparr>"

text \<open>A newline on the last line scrolls.\<close>

theorem consputc_on_screen_witness:
  "c_cursor (consputc 10 (demo_console\<lparr>c_cursor := 1900\<rparr>)) = 1840 \<and> c_pos (consputc 10 (demo_console\<lparr>c_cursor := 1900\<rparr>)) = 1840"
proof -
  have "c_cursor (consputc 10 (demo_console\<lparr>c_cursor := 1900\<rparr>)) = 1840"
    by (simp add: consputc_def consput1_def BACKSPACE_def cgaputc_def uartputc_def demo_console_def)
  then show ?thesis using consputc_on_screen [of "demo_console\<lparr>c_cursor := 1900\<rparr>" 10] by simp
qed

section \<open>Numbers\<close>

definition digit_value :: "byte \<Rightarrow> nat" where
  "digit_value c = (if unat c < 58 then unat c - 48 else unat c - 87)"

fun digits_value :: "nat \<Rightarrow> byte list \<Rightarrow> nat" where
  "digits_value base [] = 0"
| "digits_value base (c # cs) = digit_value c + base * digits_value base cs"

lemma digit_value_digits: "d < 16 \<Longrightarrow> digit_value (digits ! d) = d"
proof -
  assume "d < 16"
  then have "d \<in> set [0..<16]" by simp
  moreover have "\<forall>d \<in> set [0..<16]. digit_value (digits ! d) = d" by (simp add: upt_rec digit_value_def digits_def)
  ultimately show ?thesis by blast
qed

lemma digit_loop_value:
  "1 < base \<Longrightarrow> base \<le> 16 \<Longrightarrow> digits_value base (digit_loop base x) = x"
proof (induction base x rule: digit_loop.induct)
  case (1 base x)
  have d: "digit_value (digits ! (x mod base)) = x mod base"
    using 1(2,3) by (intro digit_value_digits) (meson mod_less_divisor less_le_trans order.strict_trans zero_less_one)
  show ?case
  proof (cases "x div base = 0")
    case True
    then have "x mod base = x" using div_mult_mod_eq [of x base] by simp
    then show ?thesis using True d by (subst digit_loop.simps) simp
  next
    case False
    then have "digits_value base (digit_loop base (x div base)) = x div base" using 1 by simp
    then show ?thesis using False 1(2) d by (subst digit_loop.simps) simp
  qed
qed

lemma digit_not_minus: "d < 16 \<Longrightarrow> digits ! d \<noteq> 45"
proof -
  assume "d < 16"
  then have "d \<in> set [0..<16]" by simp
  moreover have "\<forall>d \<in> set [0..<16]. digits ! d \<noteq> 45" by (simp add: upt_rec digits_def)
  ultimately show ?thesis by blast
qed

lemma digit_loop_no_minus: "1 < base \<Longrightarrow> base \<le> 16 \<Longrightarrow> 45 \<notin> set (digit_loop base x)"
proof (induction base x rule: digit_loop.induct)
  case (1 base x)
  have "digits ! (x mod base) \<noteq> 45"
    using 1(2,3) by (intro digit_not_minus) (meson mod_less_divisor less_le_trans order.strict_trans zero_less_one)
  then show ?case using 1 by (subst digit_loop.simps) auto
qed

text \<open>Reading a number back: an optional minus sign and digits.\<close>

definition read_int :: "nat \<Rightarrow> byte list \<Rightarrow> int" where
  "read_int base cs = (if cs \<noteq> [] \<and> hd cs = 45 then - int (digits_value base (rev (tl cs))) else int (digits_value base (rev cs)))"

text \<open>\<open>printint\<close> prints every \<open>int\<close> so that reading the digits back gives the number: with a sign in base 10, the
  smallest \<open>int\<close> included, whose negation only fits the unsigned variable; and as the unsigned value of its
  32 bits in base 16.\<close>

theorem printint_roundtrip:
  assumes "- (2 ^ 31) \<le> xx" "xx < 2 ^ 31"
  shows "read_int 10 (printint xx 10 True) = xx \<and> read_int 16 (printint xx 16 False) = int (u32_of_int xx)"
proof
  have hd: "hd (rev (digit_loop base x)) \<noteq> 45" if "1 < base" "base \<le> 16" for base x
  proof -
    have "digit_loop base x \<noteq> []" by (subst digit_loop.simps) simp
    then have "hd (rev (digit_loop base x)) \<in> set (digit_loop base x)" by (simp add: hd_rev)
    then show ?thesis using digit_loop_no_minus [OF that] by metis
  qed
  show "read_int 10 (printint xx 10 True) = xx"
  proof (cases "xx < 0")
    case True
    then have "int (u32_of_int (- xx)) = - xx" using assms by (simp add: u32_of_int_def)
    then show ?thesis using True by (simp add: printint_def Let_def read_int_def digit_loop_value)
  next
    case False
    then have "int (u32_of_int xx) = xx" using assms by (simp add: u32_of_int_def)
    then show ?thesis using False hd [of 10 "u32_of_int xx"] by (simp add: printint_def Let_def read_int_def digit_loop_value)
  qed
  show "read_int 16 (printint xx 16 False) = int (u32_of_int xx)"
    using hd [of 16 "u32_of_int xx"] by (simp add: printint_def Let_def read_int_def digit_loop_value)
qed

theorem printint_roundtrip_witness:
  "printint (-42) 10 True = [45, 52, 50] \<and> read_int 10 (printint (-(2 ^ 31)) 10 True) = -(2 ^ 31)"
proof
  show "printint (-42) 10 True = [45, 52, 50]" by (simp add: printint_def u32_of_int_def digit_loop.simps digits_def)
  show "read_int 10 (printint (-(2 ^ 31)) 10 True) = -(2 ^ 31)" using printint_roundtrip [of "-(2 ^ 31)"] by simp
qed

section \<open>The line discipline\<close>

text \<open>What the input buffer stands for: the finished input not yet read, and the line being edited.\<close>

definition done_input :: "console \<Rightarrow> byte list" where
  "done_input con = ring INPUT_BUF (in_buf con) (in_r con) (unat (in_w con - in_r con))"

definition edit_line :: "console \<Rightarrow> byte list" where
  "edit_line con = ring INPUT_BUF (in_buf con) (in_w con) (unat (in_e con - in_w con))"

text \<open>The invariant: the two parts fit the buffer, the line has no newline, and nothing is an end-of-file mark.\<close>

definition con_fit :: "console \<Rightarrow> bool" where
  "con_fit con \<longleftrightarrow> length (in_buf con) = INPUT_BUF \<and> length (done_input con) + length (edit_line con) \<le> INPUT_BUF"

definition con_ok :: "console \<Rightarrow> bool" where
  "con_ok con \<longleftrightarrow> con_fit con \<and> 10 \<notin> set (edit_line con) \<and> 4 \<notin> set (done_input con) \<union> set (edit_line con)"

text \<open>The specification: a terminal with a queue of input and a line.\<close>

definition edit_char :: "nat \<Rightarrow> byte list \<times> byte list \<Rightarrow> byte list \<times> byte list" where
  "edit_char c = (\<lambda>(q, l).
     if c = 26 \<or> c = 16 \<or> c = 4 \<or> c = 0 then (q, l)
     else if c = 21 then (q, [])
     else if c = 8 \<or> c = 127 then (q, butlast l)
     else if length q + length l < INPUT_BUF then
       let c = (if c = 13 then 10 else c); l = l @ [of_nat c]
       in if c = 10 \<or> length q + length l = INPUT_BUF then (q @ l, []) else (q, l)
     else (q, l))"

lemma INPUT_BUF_dvd: "INPUT_BUF dvd 2 ^ 32" by (simp add: INPUT_BUF_def)

lemma length_input: "length (done_input con) = unat (in_w con - in_r con)" "length (edit_line con) = unat (in_e con - in_w con)"
  by (simp_all add: done_input_def edit_line_def)

lemma con_count:
  assumes "con_fit con"
  shows "unat (in_e con - in_r con) = length (done_input con) + length (edit_line con)"
proof -
  have "in_e con - in_r con = (in_w con - in_r con) + (in_e con - in_w con)" by simp
  then have "unat (in_e con - in_r con) = (unat (in_w con - in_r con) + unat (in_e con - in_w con)) mod 2 ^ 32"
    using unat_word_ariths(1) [of "in_w con - in_r con" "in_e con - in_w con"] by (simp only: word_size) simp
  then show ?thesis using assms by (simp add: con_fit_def length_input INPUT_BUF_def)
qed

lemma con_whole:
  assumes "con_fit con"
  shows "ring INPUT_BUF (in_buf con) (in_r con) (unat (in_e con - in_r con)) = done_input con @ edit_line con"
proof -
  have "in_r con + of_nat (unat (in_w con - in_r con)) = in_w con" by simp
  then show ?thesis unfolding con_count [OF assms] length_input ring_append by (simp add: done_input_def edit_line_def)
qed

lemma done_input_consputc [simp]: "done_input (consputc c con) = done_input con" "edit_line (consputc c con) = edit_line con"
  by (simp_all add: done_input_def edit_line_def)

lemma con_ok_consputc [simp]: "con_fit (consputc c con) = con_fit con" "con_ok (consputc c con) = con_ok con"
  by (simp_all add: con_ok_def con_fit_def)

lemma con_erase:
  assumes "con_ok con" "in_e con \<noteq> in_w con"
  shows "done_input (con\<lparr>in_e := in_e con - 1\<rparr>) = done_input con" "edit_line (con\<lparr>in_e := in_e con - 1\<rparr>) = butlast (edit_line con)"
    "con_ok (con\<lparr>in_e := in_e con - 1\<rparr>)" "last (edit_line con) = in_buf con ! (unat (in_e con - 1) mod INPUT_BUF)" "edit_line con \<noteq> []"
proof -
  define n where "n = unat (in_e con - 1 - in_w con)"
  have "in_e con - (in_w con + 1) = in_e con - 1 - in_w con" by simp
  then have n: "unat (in_e con - in_w con) = Suc n" using word_count_get [of "in_w con" "in_e con"] assms(2) by (simp only: n_def)
  have w: "in_w con + of_nat n = in_e con - 1" by (simp add: n_def)
  have line: "edit_line con = ring INPUT_BUF (in_buf con) (in_w con) n @ [in_buf con ! (unat (in_e con - 1) mod INPUT_BUF)]"
    using ring_append [of INPUT_BUF "in_buf con" "in_w con" n 1] w by (simp add: edit_line_def n ring_Suc)
  show d: "done_input (con\<lparr>in_e := in_e con - 1\<rparr>) = done_input con" by (simp add: done_input_def)
  show e: "edit_line (con\<lparr>in_e := in_e con - 1\<rparr>) = butlast (edit_line con)" unfolding line by (simp add: edit_line_def n_def)
  show "con_ok (con\<lparr>in_e := in_e con - 1\<rparr>)" using assms(1) unfolding con_ok_def con_fit_def d e line by simp
  show "last (edit_line con) = in_buf con ! (unat (in_e con - 1) mod INPUT_BUF)" "edit_line con \<noteq> []" unfolding line by simp_all
qed

lemma kill_line_effect:
  "con_ok con \<Longrightarrow> con_ok (kill_line con) \<and> done_input (kill_line con) = done_input con \<and> edit_line (kill_line con) = []"
proof (induction con rule: kill_line.induct)
  case (1 con)
  show ?case
  proof (cases "in_e con = in_w con")
    case True
    then have "kill_line con = con" "edit_line con = []" by (subst kill_line.simps, simp, simp add: edit_line_def)
    then show ?thesis using 1(2) by simp
  next
    case False
    note E = con_erase [OF 1(2) False]
    have "in_buf con ! (unat (in_e con - 1) mod INPUT_BUF) \<noteq> 10"
      using 1(2) last_in_set [OF E(5)] E(4) by (auto simp: con_ok_def)
    then have go: "in_e con \<noteq> in_w con \<and> in_buf con ! (unat (in_e con - 1) mod INPUT_BUF) \<noteq> 10" using False by simp
    then have "kill_line con = kill_line (consputc BACKSPACE (con\<lparr>in_e := in_e con - 1\<rparr>))" by (subst kill_line.simps) simp
    then show ?thesis using 1(1) [OF go] E(1,3) by simp
  qed
qed

lemma con_push:
  fixes c :: byte
  assumes ok: "con_fit con" and room: "unat (in_e con - in_r con) < INPUT_BUF"
  defines "con1 \<equiv> con\<lparr>in_buf := (in_buf con)[unat (in_e con) mod INPUT_BUF := c], in_e := in_e con + 1\<rparr>"
  shows "con_fit con1" "done_input con1 = done_input con" "edit_line con1 = edit_line con @ [c]"
proof -
  have len: "length (in_buf con) = INPUT_BUF" using ok by (simp add: con_fit_def)
  define q where "q = length (done_input con)"
  define n where "n = length (edit_line con)"
  have ql: "unat (in_w con - in_r con) = q" "unat (in_e con - in_w con) = n" "unat (in_e con - in_r con) = q + n"
    by (simp_all add: q_def n_def length_input con_count [OF ok, unfolded length_input])
  have cn: "unat (in_e con + 1 - in_w con) = Suc n" using word_count_put [of "in_e con" "in_w con"] ql room by (simp add: INPUT_BUF_def)
  have e: "in_r con + of_nat (q + n) = in_e con" unfolding ql(3) [symmetric] by simp
  have lt: "q + n < INPUT_BUF" using room ql by simp
  have "ring INPUT_BUF (in_buf con1) (in_r con) (Suc (q + n)) = ring INPUT_BUF (in_buf con) (in_r con) (q + n) @ [c]"
    using ring_put [OF INPUT_BUF_dvd len lt, of "in_r con" c] unfolding e by (simp add: con1_def)
  then have whole: "ring INPUT_BUF (in_buf con1) (in_r con) (Suc (q + n)) = done_input con @ edit_line con @ [c]"
    using con_whole [OF ok] unfolding ql by simp
  have w: "in_r con + of_nat q = in_w con" unfolding ql(1) [symmetric] by simp
  have "ring INPUT_BUF (in_buf con1) (in_r con) (Suc (q + n)) =
      ring INPUT_BUF (in_buf con1) (in_r con) q @ ring INPUT_BUF (in_buf con1) (in_w con) (Suc n)"
    using ring_append [of INPUT_BUF "in_buf con1" "in_r con" q "Suc n"] w by simp
  then have "ring INPUT_BUF (in_buf con1) (in_r con) q @ ring INPUT_BUF (in_buf con1) (in_w con) (Suc n) = done_input con @ (edit_line con @ [c])"
    unfolding whole by simp
  then have "ring INPUT_BUF (in_buf con1) (in_r con) q = done_input con \<and> ring INPUT_BUF (in_buf con1) (in_w con) (Suc n) = edit_line con @ [c]"
    by (subst (asm) append_eq_append_conv) (simp_all add: q_def)
  then show d: "done_input con1 = done_input con" and l: "edit_line con1 = edit_line con @ [c]"
    using ql(1) cn by (simp_all add: done_input_def edit_line_def con1_def)
  show "con_fit con1" using lt len unfolding con_fit_def d l by (simp add: con1_def n_def q_def)
qed

lemma con_commit:
  assumes "con_fit con"
  shows "con_fit (con\<lparr>in_w := in_e con\<rparr>)" "done_input (con\<lparr>in_w := in_e con\<rparr>) = done_input con @ edit_line con" "edit_line (con\<lparr>in_w := in_e con\<rparr>) = []"
proof -
  show d: "done_input (con\<lparr>in_w := in_e con\<rparr>) = done_input con @ edit_line con" using con_whole [OF assms] by (simp add: done_input_def)
  show e: "edit_line (con\<lparr>in_w := in_e con\<rparr>) = []" by (simp add: edit_line_def)
  show "con_fit (con\<lparr>in_w := in_e con\<rparr>)" using assms unfolding con_fit_def d e by simp
qed

lemma full_iff_count: "con_fit con \<Longrightarrow> in_e con = in_r con + of_nat INPUT_BUF \<longleftrightarrow> length (done_input con) + length (edit_line con) = INPUT_BUF"
proof -
  assume fit: "con_fit con"
  have "in_e con = in_r con + of_nat INPUT_BUF \<longleftrightarrow> in_e con - in_r con = of_nat INPUT_BUF" by (auto simp: diff_eq_eq add.commute)
  also have "\<dots> \<longleftrightarrow> unat (in_e con - in_r con) = INPUT_BUF"
  proof
    assume "in_e con - in_r con = of_nat INPUT_BUF"
    then show "unat (in_e con - in_r con) = INPUT_BUF" by (simp add: INPUT_BUF_def)
  next
    assume "unat (in_e con - in_r con) = INPUT_BUF"
    then show "in_e con - in_r con = of_nat INPUT_BUF" using of_unat_eq by metis
  qed
  finally show ?thesis using con_count [OF fit] by simp
qed

lemma of_nat_byte_eq: "c < 256 \<Longrightarrow> k < 256 \<Longrightarrow> (of_nat c :: byte) = of_nat k \<longleftrightarrow> c = k"
proof -
  assume "c < 256" "k < 256"
  then have "unat (of_nat c :: byte) = c" "unat (of_nat k :: byte) = k" by (simp_all add: unat_of_nat)
  then show ?thesis by metis
qed

lemma store_char_effect:
  assumes ok: "con_ok con" and c: "c < 256" "c \<noteq> 4" and r: "store_char c (con, s) = (con', s')"
    and other: "c \<notin> {8, 16, 21, 26, 127}"
  shows "con_ok con' \<and> (done_input con', edit_line con') = edit_char c (done_input con, edit_line con)"
proof (cases "c \<noteq> 0 \<and> unat (in_e con - in_r con) < INPUT_BUF")
  case False
  then have "con' = con" using r by (auto simp: store_char_def)
  moreover have "edit_char c (done_input con, edit_line con) = (done_input con, edit_line con)"
    using False con_count ok c other by (auto simp: edit_char_def con_ok_def)
  ultimately show ?thesis using ok by simp
next
  case True
  have fit: "con_fit con" using ok by (simp add: con_ok_def)
  define d where "d = (if c = 13 then 10 else c)"
  define con1 where "con1 = con\<lparr>in_buf := (in_buf con)[unat (in_e con) mod INPUT_BUF := of_nat d], in_e := in_e con + 1\<rparr>"
  note P = con_push [OF fit, of "of_nat d", folded con1_def]
  have P1: "con_fit con1" "done_input con1 = done_input con" "edit_line con1 = edit_line con @ [of_nat d]" using P True by simp_all
  have d: "(of_nat d :: byte) \<noteq> 4" "(of_nat d :: byte) = 10 \<longleftrightarrow> d = 10" "d \<noteq> 4"
    using of_nat_byte_eq [of d 4] of_nat_byte_eq [of d 10] c by (auto simp: d_def)
  define con2 where "con2 = consputc d con1"
  have C2: "con_fit con2" "done_input con2 = done_input con" "edit_line con2 = edit_line con @ [of_nat d]"
    using P1 by (simp_all add: con2_def)
  have room: "length (done_input con) + length (edit_line con) < INPUT_BUF" using True con_count [OF fit] by simp
  have spec: "edit_char c (done_input con, edit_line con) =
      (if d = 10 \<or> length (done_input con) + Suc (length (edit_line con)) = INPUT_BUF
       then (done_input con @ edit_line con @ [of_nat d], []) else (done_input con, edit_line con @ [of_nat d]))"
    using True c(2) other room by (simp add: edit_char_def d_def)
  have st: "store_char c (con, s) = (if d = 10 \<or> in_e con2 = in_r con2 + of_nat INPUT_BUF then (con2\<lparr>in_w := in_e con2\<rparr>, wakeup Ch_input s) else (con2, s))"
    unfolding store_char_def prod.case if_P [OF True] Let_def d_def [symmetric] con1_def [symmetric] con2_def [symmetric] using d(3) by simp
  have full: "in_e con2 = in_r con2 + of_nat INPUT_BUF \<longleftrightarrow> length (done_input con) + Suc (length (edit_line con)) = INPUT_BUF"
    using full_iff_count [OF C2(1)] C2 by simp
  show ?thesis
  proof (cases "d = 10 \<or> length (done_input con) + Suc (length (edit_line con)) = INPUT_BUF")
    case commit: True
    then have "con' = con2\<lparr>in_w := in_e con2\<rparr>" using st full r by simp
    then show ?thesis using con_commit [OF C2(1)] C2 ok d(1) spec commit by (simp add: con_ok_def)
  next
    case False
    then have "con' = con2" using st full r by simp
    then show ?thesis using C2 ok d spec False by (simp add: con_ok_def)
  qed
qed

lemma print_input:
  "cprintf fmt args con = Inr con' \<Longrightarrow> con_ok con' = con_ok con \<and> done_input con' = done_input con \<and> edit_line con' = edit_line con"
proof -
  have "con_ok (fold (\<lambda>c. consputc (unat c)) out con) = con_ok con \<and> done_input (fold (\<lambda>c. consputc (unat c)) out con) = done_input con \<and>
      edit_line (fold (\<lambda>c. consputc (unat c)) out con) = edit_line con" for out
    by (induction out arbitrary: con) simp_all
  then show "cprintf fmt args con = Inr con' \<Longrightarrow> ?thesis" by (auto simp: cprintf_def res_simps)
qed

lemma stack_input:
  "foldl (\<lambda>r pc. res_bind r (cprintf fmt [VPtr pc])) r pcs = Inr con' \<Longrightarrow>
     \<exists>con. r = Inr con \<and> con_ok con' = con_ok con \<and> done_input con' = done_input con \<and> edit_line con' = edit_line con"
proof (induction pcs arbitrary: r)
  case (Cons pc pcs)
  from Cons.IH [of "res_bind r (cprintf fmt [VPtr pc])"] Cons.prems show ?case by (auto simp: res_simps dest!: print_input)
qed simp

lemma dump_input:
  "dump_lines ls con = Inr con' \<Longrightarrow> con_ok con' = con_ok con \<and> done_input con' = done_input con \<and> edit_line con' = edit_line con"
proof (induction ls arbitrary: con)
  case (Cons l ls)
  obtain pid st name pcs where l: "l = (pid, st, name, pcs)" by (cases l)
  from Cons.prems obtain c1 c2 c3 where c: "cprintf (ascii ''%d %s %s'') [VInt pid, VStr (Some (ascii st)), VStr (Some name)] con = Inr c1"
      "foldl (\<lambda>r pc. res_bind r (cprintf (ascii '' %p'') [VPtr pc])) (Inr c1) pcs = Inr c2" "cprintf [10] [] c2 = Inr c3" "dump_lines ls c3 = Inr con'"
    unfolding l dump_lines.simps res_bind_eq_Inr by blast
  then show ?case using print_input [OF c(1)] stack_input [OF c(2)] print_input [OF c(3)] Cons.IH [OF c(4)] by auto
qed simp

lemma df_input:
  "print_df nums con = Inr con' \<Longrightarrow> con_ok con' = con_ok con \<and> done_input con' = done_input con \<and> edit_line con' = edit_line con"
proof -
  have lines: "df_lines ls con = Inr con' \<Longrightarrow> con_ok con' = con_ok con \<and> done_input con' = done_input con \<and> edit_line con' = edit_line con" for ls con
    by (induction ls arbitrary: con) (auto simp: res_simps dest!: print_input)
  assume "print_df nums con = Inr con'"
  then obtain c1 c2 c3 where "cprintf [10] [] con = Inr c1" "cprintf (ascii ''Disk Free'' @ [10]) [] c1 = Inr c2" "cprintf [10] [] c2 = Inr c3"
      "df_lines (zip df_labels nums) c3 = Inr con'" unfolding print_df_def res_bind_eq_Inr by blast
  then show ?thesis by (auto dest!: print_input lines)
qed

lemma intr_char_effect:
  assumes ok: "con_ok con" and c: "c < 256" and r: "intr_char rd c (con, s) = Inr (con', s')"
  shows "con_ok con' \<and> (done_input con', edit_line con') = edit_char c (done_input con, edit_line con)"
proof -
  consider "c = 16" | "c = 21" | "c = 8 \<or> c = 127" | "c = 4" | "c \<notin> {4, 8, 16, 21, 26, 127}"
    using r by (cases "c = 26") (auto simp: intr_char_def)
  then show ?thesis
  proof cases
    case 1
    then show ?thesis using r ok by (auto simp: intr_char_def edit_char_def res_simps dest!: dump_input)
  next
    case 2
    then show ?thesis using r kill_line_effect [OF ok] by (auto simp: intr_char_def edit_char_def)
  next
    case 3
    show ?thesis
    proof (cases "in_e con = in_w con")
      case True
      then have "edit_line con = []" by (simp add: edit_line_def)
      then show ?thesis using 3 r ok True by (auto simp: intr_char_def edit_char_def)
    next
      case False
      then show ?thesis using 3 r con_erase [OF ok False] by (auto simp: intr_char_def edit_char_def)
    qed
  next
    case 4
    then show ?thesis using r ok by (auto simp: intr_char_def edit_char_def res_simps dest!: df_input)
  next
    case 5
    then have "store_char c (con, s) = (con', s')" using r by (simp add: intr_char_def)
    then show ?thesis using store_char_effect [OF ok c] 5 by simp
  qed
qed

lemma consoleintr_edits:
  assumes "con_ok con" "\<forall>c \<in> set cs. c < 256" "consoleintr rd cs (con, s) = Inr (con', s')"
  shows "con_ok con' \<and> (done_input con', edit_line con') = fold edit_char cs (done_input con, edit_line con)"
  using assms
proof (induction cs arbitrary: con s)
  case (Cons c cs)
  from Cons.prems(3) obtain con1 s1 where a: "intr_char rd c (con, s) = Inr (con1, s1)" "consoleintr rd cs (con1, s1) = Inr (con', s')"
    by (auto simp: res_simps)
  have "c < 256" using Cons.prems(2) by simp
  note I = intr_char_effect [OF Cons.prems(1) this a(1)]
  from Cons.IH [OF conjunct1 [OF I] _ a(2)] Cons.prems(2) show ?case unfolding conjunct2 [OF I] by simp
qed simp

text \<open>C7: The console implements an editable input line. Typing any sequence of characters takes the input
  buffer from one well-formed state to another, and what the buffer stands for changes as the terminal of
  the specification says: control-H and delete take the last character off the line, control-U clears it,
  carriage return and newline finish it, a full buffer finishes it too, and characters beyond that are
  dropped. The end-of-file mark that \<open>consoleread\<close> looks for never gets into the buffer.\<close>

theorem console_line_discipline:
  assumes "con_ok con" "\<forall>c \<in> set cs. c < 256" "consoleintr rd cs (con, s) = Inr (con', s')"
  shows "con_ok con' \<and> (done_input con', edit_line con') = fold edit_char cs (done_input con, edit_line con) \<and> 4 \<notin> set (done_input con')"
  using consoleintr_edits [OF assms] by (simp add: con_ok_def)

text \<open>Typing \<open>a\<close>, \<open>b\<close>, control-H, return leaves the line \<open>a\<close> to be read.\<close>

lemma demo_console_ok: "con_ok demo_console" "done_input demo_console = []" "edit_line demo_console = []"
  by (simp_all add: con_ok_def con_fit_def done_input_def edit_line_def demo_console_def INPUT_BUF_def)

lemma demo_typing: "\<exists>con' s'. consoleintr (\<lambda>_. 0) [97, 98, 8, 13] (demo_console, demo_kernel) = Inr (con', s')"
  by (simp add: intr_char_def split_beta)

theorem console_line_discipline_witness:
  "\<exists>con' s'. consoleintr (\<lambda>_. 0) [97, 98, 8, 13] (demo_console, demo_kernel) = Inr (con', s') \<and> done_input con' = [97, 10] \<and> edit_line con' = []"
proof -
  obtain con' s' where r: "consoleintr (\<lambda>_. 0) [97, 98, 8, 13] (demo_console, demo_kernel) = Inr (con', s')" using demo_typing by blast
  have "fold edit_char [97, 98, 8, 13] ([], []) = ([97, 10], [])" by (simp add: edit_char_def INPUT_BUF_def)
  then show ?thesis using console_line_discipline [OF demo_console_ok(1) _ r] r demo_console_ok(2,3) by auto
qed

section \<open>Reading lines\<close>

lemma con_pop:
  assumes ok: "con_ok con" and ne: "in_r con \<noteq> in_w con"
  defines "con1 \<equiv> con\<lparr>in_r := in_r con + 1\<rparr>"
  shows "done_input con = in_buf con ! (unat (in_r con) mod INPUT_BUF) # done_input con1" "edit_line con1 = edit_line con" "con_ok con1"
proof -
  show d: "done_input con = in_buf con ! (unat (in_r con) mod INPUT_BUF) # done_input con1"
    unfolding done_input_def word_count_get [OF ne] ring_Suc by (simp add: con1_def)
  show e: "edit_line con1 = edit_line con" by (simp add: edit_line_def con1_def)
  have len: "length (done_input con) = Suc (length (done_input con1))" unfolding d by simp
  have mem: "4 \<notin> set (done_input con1)" using ok unfolding con_ok_def d by simp
  have "in_buf con1 = in_buf con" by (simp add: con1_def)
  then show "con_ok con1" using ok len mem unfolding con_ok_def con_fit_def e by simp
qed

text \<open>\<open>consoleread\<close> delivers the input in order, at most one line at a time: from a well-formed buffer, a request
  for \<open>n\<close> bytes takes bytes off the front of the finished input, in order, and stops when it has \<open>n\<close>, or right
  after the first newline, or when the input is used up, in which case it reports that it has to wait. The
  line being edited is not touched. The count reported is the number of bytes still wanted.\<close>

theorem consoleread_lines:
  assumes "con_ok con" "consoleread_loop target n con = (r, bs, con')"
  shows "con_ok con' \<and> done_input con = bs @ done_input con' \<and> edit_line con' = edit_line con \<and> length bs \<le> n \<and>
    10 \<notin> set (butlast bs) \<and>
    (case r of
       Some left \<Rightarrow> length bs + left = n \<and> (left = 0 \<or> bs \<noteq> [] \<and> last bs = 10)
     | None \<Rightarrow> length bs < n \<and> done_input con' = [] \<and> 10 \<notin> set bs)"
  using assms
proof (induction n arbitrary: con r bs con')
  case (Suc n)
  show ?case
  proof (cases "in_r con = in_w con")
    case True
    then have "done_input con = []" by (simp add: done_input_def)
    then show ?thesis using Suc.prems True by auto
  next
    case False
    define c where "c = in_buf con ! (unat (in_r con) mod INPUT_BUF)"
    define con1 where "con1 = con\<lparr>in_r := in_r con + 1\<rparr>"
    note P = con_pop [OF Suc.prems(1) False, folded con1_def c_def]
    have "c \<noteq> 4" using Suc.prems(1) P(1) by (auto simp: con_ok_def)
    then have step: "consoleread_loop target (Suc n) con =
        (if c = 10 then (Some n, [c], con1) else (case consoleread_loop target n con1 of (r, bs, con) \<Rightarrow> (r, c # bs, con)))"
      using False by (simp add: Let_def c_def con1_def)
    show ?thesis
    proof (cases "c = 10")
      case True
      then have "r = Some n" "bs = [10]" "con' = con1" using step Suc.prems(2) by simp_all
      then show ?thesis using P True by simp
    next
      case nl: False
      obtain r1 bs1 con2 where rec: "consoleread_loop target n con1 = (r1, bs1, con2)" by (cases "consoleread_loop target n con1")
      then have "r = r1" "bs = c # bs1" "con' = con2" using step nl Suc.prems(2) by simp_all
      then show ?thesis using Suc.IH [OF P(3) rec] P(1,2) nl by (auto split: option.splits)
    qed
  qed
qed auto

theorem consoleread_lines_witness:
  "\<exists>r bs con'. consoleread_loop 5 5 demo_console = (r, bs, con') \<and> r = None \<and> bs = []"
proof -
  obtain r bs con' where e: "consoleread_loop 5 5 demo_console = (r, bs, con')" by (cases "consoleread_loop 5 5 demo_console")
  from consoleread_lines [OF demo_console_ok(1) e] demo_console_ok(2) have "bs = []" by simp
  moreover from this consoleread_lines [OF demo_console_ok(1) e] have "r = None" by (cases r) auto
  ultimately show ?thesis using e by blast
qed

end
