(* ===== verification/Msg.thy ===== *)
theory Msg
  imports Xv6_Prelude
begin

text \<open>
  The messages of \<open>include/msg.h\<close>, which the keyboard and mouse drivers send to the window manager and the window manager to the
  windows.
\<close>

definition M_KEY_UP :: int where "M_KEY_UP = 1"
definition M_KEY_DOWN :: int where "M_KEY_DOWN = 2"
definition M_MOUSE_MOVE :: int where "M_MOUSE_MOVE = 3"
definition M_MOUSE_DOWN :: int where "M_MOUSE_DOWN = 4"
definition M_MOUSE_UP :: int where "M_MOUSE_UP = 5"
definition M_MOUSE_LEFT_CLICK :: int where "M_MOUSE_LEFT_CLICK = 6"
definition M_MOUSE_RIGHT_CLICK :: int where "M_MOUSE_RIGHT_CLICK = 7"
definition M_MOUSE_DBCLICK :: int where "M_MOUSE_DBCLICK = 8"
definition WM_WINDOW_CLOSE :: int where "WM_WINDOW_CLOSE = 100"
definition WM_WINDOW_MINIMIZE :: int where "WM_WINDOW_MINIMIZE = 101"
definition WM_WINDOW_MAXIMIZE :: int where "WM_WINDOW_MAXIMIZE = 102"
definition WM_WINDOW_INVALIDATE :: int where "WM_WINDOW_INVALIDATE = 105"

text \<open>\<open>message\<close>, with the parameters the sender has set; the others are indeterminate.\<close>

record message =
  msg_type :: int
  params :: "int list"

definition param :: "nat \<Rightarrow> message \<Rightarrow> int" where
  "param i m = (if i < length (params m) then params m ! i else 0)"

lemmas msg_types = M_KEY_UP_def M_KEY_DOWN_def M_MOUSE_MOVE_def M_MOUSE_DOWN_def M_MOUSE_UP_def M_MOUSE_LEFT_CLICK_def
  M_MOUSE_RIGHT_CLICK_def M_MOUSE_DBCLICK_def WM_WINDOW_CLOSE_def WM_WINDOW_MINIMIZE_def WM_WINDOW_MAXIMIZE_def WM_WINDOW_INVALIDATE_def

end
