(* ===== verification/Bga.thy ===== *)
theory Bga
  imports Pipe
begin

text \<open>
  \<open>kernel/bga.c\<close>: the driver of the Bochs graphics adapter. Pictures are drawn into an off-screen buffer, one byte a pixel or three
  bytes a pixel (the functions with suffix \<open>_24\<close>, which the default build uses), and copied to the screen in banks of 64 KB.
  The buffer is a map from offsets to bytes, defined for offsets outside it too, so that it shows what is written there.
  The two variants of each function differ in the way a pixel is stored only; they are instances of one definition with
  the store as its argument. The tables of the font, the icons and the mouse pointer are arguments. Coordinates are
  integers: the theorems do not depend on their size, and for coordinates of a screen no sum leaves the range of \<open>int\<close>.
  The lemmas: a line is drawn to its end, along a connected path inside its bounding box; rectangles are drawn exactly, clipped
  to the screen; the keys typed in graphics mode form a queue.
\<close>

section \<open>The off-screen buffer\<close>

type_synonym fb = "int \<Rightarrow> byte"

record RGBA =
  cA :: byte
  cB :: byte
  cG :: byte
  cR :: byte

definition BGA_SCREEN_WIDTH :: int where "BGA_SCREEN_WIDTH = 1024"
definition BGA_SCREEN_HEIGHT :: int where "BGA_SCREEN_HEIGHT = 768"
definition BGA_CHARACTER_WIDTH :: int where "BGA_CHARACTER_WIDTH = 9"
definition BGA_CHARACTER_HEIGHT :: int where "BGA_CHARACTER_HEIGHT = 18"
definition BGA_CHARACTER_NUMBER :: int where "BGA_CHARACTER_NUMBER = 96"
definition BGA_ICON_SIZE :: int where "BGA_ICON_SIZE = 30"
definition BGA_ICON_NUMBER :: int where "BGA_ICON_NUMBER = 5"
definition BGA_MOUSE_HEIGHT :: int where "BGA_MOUSE_HEIGHT = 18"
definition BGA_MOUSE_WIDTH :: int where "BGA_MOUSE_WIDTH = 15"

definition bga_draw_pixel :: "int \<Rightarrow> int \<Rightarrow> byte \<Rightarrow> fb \<Rightarrow> fb" where
  "bga_draw_pixel x y color m = m(y * BGA_SCREEN_WIDTH + x := color)"

definition bga_draw_pixel_24 :: "int \<Rightarrow> int \<Rightarrow> RGBA \<Rightarrow> fb \<Rightarrow> fb" where
  "bga_draw_pixel_24 x y color m =
     (let t = (y * 3) * BGA_SCREEN_WIDTH + x * 3 in m(t + 2 := cR color, t + 1 := cG color, t := cB color))"

definition bga_clear_screen :: "fb \<Rightarrow> fb" where
  "bga_clear_screen m = (\<lambda>i. if 0 \<le> i \<and> i < 1024 * 768 then 0 else m i)"

definition bga_clear_screen_24 :: "fb \<Rightarrow> fb" where
  "bga_clear_screen_24 m = (\<lambda>i. if 0 \<le> i \<and> i < 768 * 1024 * 3 then 0 else m i)"

text \<open>The video memory behind the banks, after \<open>bga_nr_banks\<close> copies through the window of 64 KB.\<close>

definition copy_bank :: "fb \<Rightarrow> int \<Rightarrow> fb \<Rightarrow> fb" where
  "copy_bank m b vm = (\<lambda>i. if b * 64 * 1024 \<le> i \<and> i < (b + 1) * 64 * 1024 then m i else vm i)"

definition blit :: "int \<Rightarrow> fb \<Rightarrow> fb \<Rightarrow> fb" where
  "blit nr_banks m vm = fold (copy_bank m) [0..nr_banks - 1] vm"

definition bga_blit :: "fb \<Rightarrow> fb \<Rightarrow> fb" where
  "bga_blit = blit (BGA_SCREEN_HEIGHT div 64)"

definition bga_blit_24 :: "fb \<Rightarrow> fb \<Rightarrow> fb" where
  "bga_blit_24 = blit (3 * (BGA_SCREEN_HEIGHT div 64))"

section \<open>Drawing\<close>

type_synonym 'c pixel = "int \<Rightarrow> int \<Rightarrow> 'c \<Rightarrow> fb \<Rightarrow> fb"

text \<open>Lines (Bresenham). The quotient by 2 rounds towards zero.\<close>

partial_function (option) line_loop :: "'c pixel \<Rightarrow> 'c \<Rightarrow> int \<Rightarrow> int \<Rightarrow> int \<Rightarrow> int \<Rightarrow> int \<Rightarrow> int \<Rightarrow> int \<Rightarrow> int \<Rightarrow> int \<Rightarrow> fb \<Rightarrow> fb option" where
  "line_loop px color x2 y2 dx dy sx sy x1 y1 err m =
     (let m = px x1 y1 color m
      in if x1 = x2 \<and> y1 = y2 then Some m
         else let e2 = err;
                  err1 = (if e2 > - dx then err - dy else err); x = (if e2 > - dx then x1 + sx else x1);
                  err2 = (if e2 < dy then err1 + dx else err1); y = (if e2 < dy then y1 + sy else y1)
              in line_loop px color x2 y2 dx dy sx sy x y err2 m)"

definition draw_line :: "'c pixel \<Rightarrow> int \<Rightarrow> int \<Rightarrow> int \<Rightarrow> int \<Rightarrow> 'c \<Rightarrow> fb \<Rightarrow> fb option" where
  "draw_line px x1 y1 x2 y2 color m =
     (let xdiff = x2 - x1; ydiff = y2 - y1;
          dx = xdiff * ((if xdiff < 0 then -1 else 0) + (if xdiff > 0 then 1 else 0)); sx = (if x1 < x2 then 1 else -1);
          dy = ydiff * ((if ydiff < 0 then -1 else 0) + (if ydiff > 0 then 1 else 0)); sy = (if y1 < y2 then 1 else -1);
          err = (if dx > dy then dx div 2 else - (dy div 2))
      in line_loop px color x2 y2 dx dy sx sy x1 y1 err m)"

definition bga_draw_line :: "int \<Rightarrow> int \<Rightarrow> int \<Rightarrow> int \<Rightarrow> byte \<Rightarrow> fb \<Rightarrow> fb option" where
  "bga_draw_line = draw_line bga_draw_pixel"

definition bga_draw_line_24 :: "int \<Rightarrow> int \<Rightarrow> int \<Rightarrow> int \<Rightarrow> RGBA \<Rightarrow> fb \<Rightarrow> fb option" where
  "bga_draw_line_24 = draw_line bga_draw_pixel_24"

text \<open>Loops with \<open>break\<close> and \<open>continue\<close>.\<close>

datatype act = Break | Continue | Go

fun bc_loop :: "('i \<Rightarrow> act) \<Rightarrow> ('i \<Rightarrow> 'm \<Rightarrow> 'm) \<Rightarrow> 'i list \<Rightarrow> 'm \<Rightarrow> 'm" where
  "bc_loop a body [] m = m"
| "bc_loop a body (i # is) m =
     (case a i of Break \<Rightarrow> m | Continue \<Rightarrow> bc_loop a body is m | Go \<Rightarrow> bc_loop a body is (body i m))"

text \<open>A bit map of \<open>height\<close> rows and \<open>width\<close> columns, as characters and icons are drawn.\<close>

definition draw_bits :: "'c pixel \<Rightarrow> int \<Rightarrow> int \<Rightarrow> (int \<Rightarrow> int \<Rightarrow> int) \<Rightarrow> int \<Rightarrow> int \<Rightarrow> 'c \<Rightarrow> fb \<Rightarrow> fb" where
  "draw_bits px height width bits x y color =
     bc_loop (\<lambda>i. if y + i > BGA_SCREEN_HEIGHT then Break else if y + i < 0 then Continue else Go)
       (\<lambda>i. bc_loop (\<lambda>j. if bits i j \<noteq> 1 then Continue else if x + j > BGA_SCREEN_WIDTH then Break else if x + j < 0 then Continue else Go)
          (\<lambda>j. px (x + j) (y + i) color) [0..width - 1]) [0..height - 1]"

definition draw_character :: "'c pixel \<Rightarrow> (int \<Rightarrow> int \<Rightarrow> int \<Rightarrow> int) \<Rightarrow> int \<Rightarrow> int \<Rightarrow> int \<Rightarrow> 'c \<Rightarrow> fb \<Rightarrow> int \<times> fb" where
  "draw_character px font x y ch color m =
     (let ord = ch - 0x20
      in if ord < 0 \<or> ord \<ge> BGA_CHARACTER_NUMBER - 1 then (-1, m)
         else (BGA_CHARACTER_WIDTH, draw_bits px BGA_CHARACTER_HEIGHT BGA_CHARACTER_WIDTH (font ord) x y color m))"

definition bga_draw_character :: "(int \<Rightarrow> int \<Rightarrow> int \<Rightarrow> int) \<Rightarrow> int \<Rightarrow> int \<Rightarrow> int \<Rightarrow> byte \<Rightarrow> fb \<Rightarrow> int \<times> fb" where
  "bga_draw_character = draw_character bga_draw_pixel"

definition bga_draw_character_24 :: "(int \<Rightarrow> int \<Rightarrow> int \<Rightarrow> int) \<Rightarrow> int \<Rightarrow> int \<Rightarrow> int \<Rightarrow> RGBA \<Rightarrow> fb \<Rightarrow> int \<times> fb" where
  "bga_draw_character_24 = draw_character bga_draw_pixel_24"

text \<open>Strings: a character that has no picture moves the position back by one.\<close>

fun draw_string_from :: "'c pixel \<Rightarrow> (int \<Rightarrow> int \<Rightarrow> int \<Rightarrow> int) \<Rightarrow> int \<Rightarrow> int \<Rightarrow> 'c \<Rightarrow> int \<Rightarrow> int list \<Rightarrow> fb \<Rightarrow> fb" where
  "draw_string_from px font x y color offset_x [] m = m"
| "draw_string_from px font x y color offset_x (ch # str) m =
     (case draw_character px font (x + offset_x) y ch color m of (d, m) \<Rightarrow>
        draw_string_from px font x y color (offset_x + d) str m)"

definition bga_draw_string :: "(int \<Rightarrow> int \<Rightarrow> int \<Rightarrow> int) \<Rightarrow> int \<Rightarrow> int \<Rightarrow> int list \<Rightarrow> byte \<Rightarrow> fb \<Rightarrow> fb" where
  "bga_draw_string font x y str color = draw_string_from bga_draw_pixel font x y color 0 str"

definition bga_draw_string_24 :: "(int \<Rightarrow> int \<Rightarrow> int \<Rightarrow> int) \<Rightarrow> int \<Rightarrow> int \<Rightarrow> int list \<Rightarrow> RGBA \<Rightarrow> fb \<Rightarrow> fb" where
  "bga_draw_string_24 font x y str color = draw_string_from bga_draw_pixel_24 font x y color 0 str"

fun draw_string_max :: "'c pixel \<Rightarrow> (int \<Rightarrow> int \<Rightarrow> int \<Rightarrow> int) \<Rightarrow> int \<Rightarrow> int \<Rightarrow> int \<Rightarrow> 'c \<Rightarrow> int \<Rightarrow> int list \<Rightarrow> fb \<Rightarrow> fb" where
  "draw_string_max px font x y width color offset_x [] m = m"
| "draw_string_max px font x y width color offset_x (ch # str) m =
     (if offset_x + BGA_CHARACTER_WIDTH \<le> width then
        (case draw_character px font (x + offset_x) y ch color m of (d, m) \<Rightarrow>
           draw_string_max px font x y width color (offset_x + d) str m)
      else m)"

definition bga_draw_string_with_max_width :: "(int \<Rightarrow> int \<Rightarrow> int \<Rightarrow> int) \<Rightarrow> int \<Rightarrow> int \<Rightarrow> int \<Rightarrow> int list \<Rightarrow> byte \<Rightarrow> fb \<Rightarrow> fb" where
  "bga_draw_string_with_max_width font x y width str color = draw_string_max bga_draw_pixel font x y width color 0 str"

definition bga_draw_string_with_max_width_24 :: "(int \<Rightarrow> int \<Rightarrow> int \<Rightarrow> int) \<Rightarrow> int \<Rightarrow> int \<Rightarrow> int \<Rightarrow> int list \<Rightarrow> RGBA \<Rightarrow> fb \<Rightarrow> fb" where
  "bga_draw_string_with_max_width_24 font x y width str color = draw_string_max bga_draw_pixel_24 font x y width color 0 str"

definition draw_icon :: "'c pixel \<Rightarrow> (int \<Rightarrow> int \<Rightarrow> int \<Rightarrow> int) \<Rightarrow> int \<Rightarrow> int \<Rightarrow> int \<Rightarrow> 'c \<Rightarrow> fb \<Rightarrow> int \<times> fb" where
  "draw_icon px icons x y icon color m =
     (if icon < 0 \<or> icon > BGA_ICON_NUMBER - 1 then (-1, m)
      else (BGA_CHARACTER_WIDTH, draw_bits px BGA_ICON_SIZE BGA_ICON_SIZE (icons icon) x y color m))"

definition bga_draw_icon :: "(int \<Rightarrow> int \<Rightarrow> int \<Rightarrow> int) \<Rightarrow> int \<Rightarrow> int \<Rightarrow> int \<Rightarrow> byte \<Rightarrow> fb \<Rightarrow> int \<times> fb" where
  "bga_draw_icon = draw_icon bga_draw_pixel"

definition bga_draw_icon_24 :: "(int \<Rightarrow> int \<Rightarrow> int \<Rightarrow> int) \<Rightarrow> int \<Rightarrow> int \<Rightarrow> int \<Rightarrow> RGBA \<Rightarrow> fb \<Rightarrow> int \<times> fb" where
  "bga_draw_icon_24 = draw_icon bga_draw_pixel_24"

text \<open>The mouse pointer; \<open>shape mode i j\<close> is 0 where nothing is drawn, else one more than the index of a colour.\<close>

definition draw_mouse :: "'c pixel \<Rightarrow> (int \<Rightarrow> int \<Rightarrow> int \<Rightarrow> int) \<Rightarrow> (int \<Rightarrow> 'c) \<Rightarrow> int \<Rightarrow> int \<Rightarrow> int \<Rightarrow> fb \<Rightarrow> fb" where
  "draw_mouse px shape colors mode x y =
     bc_loop (\<lambda>i. if y + i \<ge> BGA_SCREEN_HEIGHT then Break else if y + i < 0 then Continue else Go)
       (\<lambda>i. bc_loop (\<lambda>j. if x + j \<ge> BGA_SCREEN_WIDTH then Break else if x + j < 0 then Continue else Go)
          (\<lambda>j m. if shape mode i j \<noteq> 0 then px (x + j) (y + i) (colors (shape mode i j - 1)) m else m) [0..BGA_MOUSE_WIDTH - 1]) [0..BGA_MOUSE_HEIGHT - 1]"

definition bga_draw_mouse :: "(int \<Rightarrow> int \<Rightarrow> int \<Rightarrow> int) \<Rightarrow> (int \<Rightarrow> byte) \<Rightarrow> int \<Rightarrow> int \<Rightarrow> int \<Rightarrow> fb \<Rightarrow> fb" where
  "bga_draw_mouse = draw_mouse bga_draw_pixel"

definition bga_draw_mouse_24 :: "(int \<Rightarrow> int \<Rightarrow> int \<Rightarrow> int) \<Rightarrow> (int \<Rightarrow> RGBA) \<Rightarrow> int \<Rightarrow> int \<Rightarrow> int \<Rightarrow> fb \<Rightarrow> fb" where
  "bga_draw_mouse_24 = draw_mouse bga_draw_pixel_24"

text \<open>Filled rectangles, which leave out their last row and column.\<close>

definition draw_rect_bound :: "'c pixel \<Rightarrow> int \<Rightarrow> int \<Rightarrow> int \<Rightarrow> int \<Rightarrow> 'c \<Rightarrow> int \<Rightarrow> int \<Rightarrow> fb \<Rightarrow> fb" where
  "draw_rect_bound px x y width height fill max_x max_y =
     bc_loop (\<lambda>i. if y + i < 0 then Continue else if y + i \<ge> max_y then Break else Go)
       (\<lambda>i. bc_loop (\<lambda>j. if x + j < 0 then Continue else if x + j \<ge> max_x then Break else Go)
          (\<lambda>j. px (x + j) (y + i) fill) [0..width - 2]) [0..height - 2]"

definition bga_draw_rect_bound :: "int \<Rightarrow> int \<Rightarrow> int \<Rightarrow> int \<Rightarrow> byte \<Rightarrow> int \<Rightarrow> int \<Rightarrow> fb \<Rightarrow> fb" where
  "bga_draw_rect_bound = draw_rect_bound bga_draw_pixel"

definition bga_draw_rect_bound_24 :: "int \<Rightarrow> int \<Rightarrow> int \<Rightarrow> int \<Rightarrow> RGBA \<Rightarrow> int \<Rightarrow> int \<Rightarrow> fb \<Rightarrow> fb" where
  "bga_draw_rect_bound_24 = draw_rect_bound bga_draw_pixel_24"

definition bga_draw_rect :: "int \<Rightarrow> int \<Rightarrow> int \<Rightarrow> int \<Rightarrow> byte \<Rightarrow> fb \<Rightarrow> fb" where
  "bga_draw_rect x y width height fill = bga_draw_rect_bound x y width height fill BGA_SCREEN_WIDTH BGA_SCREEN_HEIGHT"

definition bga_draw_rect_24 :: "int \<Rightarrow> int \<Rightarrow> int \<Rightarrow> int \<Rightarrow> RGBA \<Rightarrow> fb \<Rightarrow> fb" where
  "bga_draw_rect_24 x y width height fill = bga_draw_rect_bound_24 x y width height fill BGA_SCREEN_WIDTH BGA_SCREEN_HEIGHT"

definition bga_draw_rect_by_coord :: "int \<Rightarrow> int \<Rightarrow> int \<Rightarrow> int \<Rightarrow> byte \<Rightarrow> fb \<Rightarrow> fb" where
  "bga_draw_rect_by_coord xmin ymin xmax ymax fill = bga_draw_rect xmin ymin (xmax - xmin) (ymax - ymin) fill"

definition bga_draw_rect_by_coord_24 :: "int \<Rightarrow> int \<Rightarrow> int \<Rightarrow> int \<Rightarrow> RGBA \<Rightarrow> fb \<Rightarrow> fb" where
  "bga_draw_rect_by_coord_24 xmin ymin xmax ymax fill = bga_draw_rect_24 xmin ymin (xmax - xmin) (ymax - ymin) fill"

text \<open>Copying pictures. A picture is a map from offsets to bytes as well, three bytes a pixel. \<open>memmove\<close> with a
  negative count, which it takes as an unsigned number, is \<open>Undefined\<close>.\<close>

definition move_bytes :: "fb \<Rightarrow> int \<Rightarrow> int \<Rightarrow> int \<Rightarrow> fb \<Rightarrow> fb" where
  "move_bytes img o' t n m = (\<lambda>i. if t \<le> i \<and> i < t + n then img (o' + (i - t)) else m i)"

definition image_row :: "int \<Rightarrow> int \<Rightarrow> int \<Rightarrow> act" where
  "image_row y max_y i = (if y + i \<ge> max_y then Break else if y + i < 0 then Continue else Go)"

definition draw24Image_24 :: "fb \<Rightarrow> int \<Rightarrow> int \<Rightarrow> int \<Rightarrow> int \<Rightarrow> int \<Rightarrow> int \<Rightarrow> fb \<Rightarrow> fb res" where
  "draw24Image_24 img x y width height max_x max_y m =
     (let max_line = (if max_x - x < width then max_x - x else width)
      in if max_line < 0 \<and> list_ex (\<lambda>i. image_row y max_y i = Go) (takeWhile (\<lambda>i. image_row y max_y i \<noteq> Break) [0..height - 1])
         then Inl (Undefined ''memmove: count'')
         else Inr (bc_loop (image_row y max_y)
           (\<lambda>i. move_bytes img (3 * ((height - i) * width)) (3 * ((y + i) * BGA_SCREEN_WIDTH + x)) (max_line * 3)) [0..height - 1] m))"

definition bga_draw_24_image_part :: "fb \<Rightarrow> int \<Rightarrow> int \<Rightarrow> int \<Rightarrow> int \<Rightarrow> int \<Rightarrow> fb \<Rightarrow> fb" where
  "bga_draw_24_image_part img x y width subw subh m =
     (if x \<ge> BGA_SCREEN_WIDTH \<or> y \<ge> BGA_SCREEN_HEIGHT then m
      else
        let minj = (if x < 0 then - x else 0); maxj = (if x + subw > BGA_SCREEN_WIDTH then BGA_SCREEN_WIDTH - x else subw)
        in if minj \<ge> maxj then m
           else bc_loop (\<lambda>i. if y + i < 0 then Continue else if y + i \<ge> BGA_SCREEN_HEIGHT then Break else Go)
             (\<lambda>i. fold (\<lambda>j. bga_draw_pixel (j + x) (i + y) (img (3 * (j + i * width) + 2))) [0..subw - 1]) [0..subh - 1] m)"

definition bga_draw_24_image_part_24 :: "fb \<Rightarrow> int \<Rightarrow> int \<Rightarrow> int \<Rightarrow> int \<Rightarrow> int \<Rightarrow> int \<Rightarrow> int \<Rightarrow> fb \<Rightarrow> fb" where
  "bga_draw_24_image_part_24 img x y width subx suby subw subh m =
     (if x \<ge> BGA_SCREEN_WIDTH \<or> y \<ge> BGA_SCREEN_HEIGHT then m
      else
        let minj = (if x < 0 then - x else 0); maxj = (if x + subw > BGA_SCREEN_WIDTH then BGA_SCREEN_WIDTH - x else subw)
        in if minj \<ge> maxj then m
           else bc_loop (\<lambda>i. if y + i < 0 then Continue else if y + i \<ge> BGA_SCREEN_HEIGHT then Break else Go)
             (\<lambda>i. move_bytes img (3 * ((i + suby) * width + subx + minj)) (((y + i) * 3) * BGA_SCREEN_WIDTH + x * 3) ((maxj - minj) * 3)) [0..subh - 1] m)"

definition draw_rect_border :: "'c pixel \<Rightarrow> 'c \<Rightarrow> int \<Rightarrow> int \<Rightarrow> int \<Rightarrow> int \<Rightarrow> fb \<Rightarrow> fb" where
  "draw_rect_border px color x y width height m =
     (if x \<ge> BGA_SCREEN_WIDTH \<or> x + width < 0 \<or> y \<ge> BGA_SCREEN_HEIGHT \<or> y + height < 0 \<or> width < 0 \<or> height < 0 then m
      else
        let m = (if y > 0 then fold (\<lambda>i m. if x + i > 0 \<and> x + i < BGA_SCREEN_WIDTH then px (x + i) y color m else m) [0..width - 1] m else m);
            m = (if y + height < BGA_SCREEN_HEIGHT
                 then fold (\<lambda>i m. if y > 0 \<and> x + i > 0 \<and> x + i < BGA_SCREEN_WIDTH then px (x + i) (y + height) color m else m) [0..width - 1] m else m);
            m = (if x > 0 then fold (\<lambda>i m. if y + i > 0 \<and> y + i < BGA_SCREEN_HEIGHT then px x (y + i) color m else m) [0..height - 1] m else m)
        in if x + width < BGA_SCREEN_WIDTH
           then fold (\<lambda>i m. if y + i > 0 \<and> y + i < BGA_SCREEN_HEIGHT then px (x + width) (y + i) color m else m) [0..height - 1] m else m)"

definition bga_draw_rect_border :: "byte \<Rightarrow> int \<Rightarrow> int \<Rightarrow> int \<Rightarrow> int \<Rightarrow> fb \<Rightarrow> fb" where
  "bga_draw_rect_border = draw_rect_border bga_draw_pixel"

definition bga_draw_rect_border_24 :: "RGBA \<Rightarrow> int \<Rightarrow> int \<Rightarrow> int \<Rightarrow> int \<Rightarrow> fb \<Rightarrow> fb" where
  "bga_draw_rect_border_24 = draw_rect_border bga_draw_pixel_24"

section \<open>Keys in graphics mode\<close>

definition BGA_INPUT_BUF :: nat where "BGA_INPUT_BUF = 128"

text \<open>The index \<open>w\<close> of \<open>bga_input\<close> is never used.\<close>

record bga_input =
  bi_buf :: "byte list"
  bi_r :: u32
  bi_e :: u32

definition key_get :: "bga_input \<Rightarrow> byte \<times> bga_input" where
  "key_get b = (bi_buf b ! (unat (bi_r b) mod BGA_INPUT_BUF), b\<lparr>bi_r := bi_r b + 1\<rparr>)"

text \<open>\<open>bga_getkey\<close>: the elements of the buffer have the type \<open>char\<close>, which is signed.\<close>

definition bga_getkey :: "bga_input \<Rightarrow> int \<times> bga_input" where
  "bga_getkey b = (if bi_r b = bi_e b then (-1, b) else case key_get b of (c, b) \<Rightarrow> (sint c, b))"

definition key_put :: "byte \<Rightarrow> bga_input \<Rightarrow> bga_input" where
  "key_put c b = b\<lparr>bi_buf := (bi_buf b)[unat (bi_e b) mod BGA_INPUT_BUF := c], bi_e := bi_e b + 1\<rparr>"

fun bga_graphicsintr :: "nat list \<Rightarrow> bga_input \<Rightarrow> bga_input" where
  "bga_graphicsintr [] b = b"
| "bga_graphicsintr (c # cs) b =
     bga_graphicsintr cs (if c \<noteq> 0 \<and> bi_e b - bi_r b < of_nat BGA_INPUT_BUF then key_put (of_nat c) b else b)"

section \<open>Lines\<close>

text \<open>A path of pixels: each next to the one before, in eight directions.\<close>

definition adjacent :: "int \<times> int \<Rightarrow> int \<times> int \<Rightarrow> bool" where
  "adjacent p q \<longleftrightarrow> p \<noteq> q \<and> \<bar>fst p - fst q\<bar> \<le> 1 \<and> \<bar>snd p - snd q\<bar> \<le> 1"

definition between :: "int \<Rightarrow> int \<Rightarrow> int \<Rightarrow> bool" where
  "between a b x \<longleftrightarrow> min a b \<le> x \<and> x \<le> max a b"

definition line_path :: "int \<Rightarrow> int \<Rightarrow> int \<Rightarrow> int \<Rightarrow> int \<Rightarrow> (int \<times> int) list \<Rightarrow> bool" where
  "line_path n x1 y1 x2 y2 pts \<longleftrightarrow> pts \<noteq> [] \<and> hd pts = (x1, y1) \<and> last pts = (x2, y2) \<and> int (length pts) = n + 1 \<and> successively adjacent pts \<and>
     (\<forall>(x, y) \<in> set pts. between x1 x2 x \<and> between y1 y2 y)"

lemma line_path_Cons:
  assumes "line_path n x y x2 y2 pts" "adjacent (x1, y1) (x, y)" "between x1 x2 x" "between y1 y2 y"
  shows "line_path (n + 1) x1 y1 x2 y2 ((x1, y1) # pts)"
proof -
  obtain pts' where pts: "pts = (x, y) # pts'" using assms(1) by (cases pts) (auto simp: line_path_def)
  have "between x1 x2 a" if "between x x2 a" for a using that assms(3) by (auto simp: between_def)
  moreover have "between y1 y2 b" if "between y y2 b" for b using that assms(4) by (auto simp: between_def)
  moreover have "between x1 x2 x1" "between y1 y2 y1" by (auto simp: between_def)
  ultimately show ?thesis using assms(1,2) pts by (auto simp: line_path_def split_beta)
qed

abbreviation draw_path :: "'c pixel \<Rightarrow> 'c \<Rightarrow> (int \<times> int) list \<Rightarrow> fb \<Rightarrow> fb" where
  "draw_path px color pts m \<equiv> fold (\<lambda>(x, y). px x y color) pts m"

text \<open>A line that is wider than high: every step goes one column on; \<open>n\<close> columns and \<open>j\<close> rows are left.\<close>

lemma line_wide:
  assumes "x2 - x1 = sx * int n" "y2 - y1 = sy * j" "sx \<in> {1, -1}" "sy \<in> {1, -1}" "0 \<le> dy" "dy < dx" "0 \<le> err" "err < dx"
    "0 \<le> err - int n * dy + j * dx" "err - int n * dy + j * dx < dx"
  shows "\<exists>pts. line_loop px color x2 y2 dx dy sx sy x1 y1 err m = Some (draw_path px color pts m) \<and> line_path (int n) x1 y1 x2 y2 pts"
  using assms
proof (induction n arbitrary: x1 y1 j err m)
  case 0
  have h: "0 \<le> err + j * dx" "err + j * dx < dx" using "0.prems"(9,10) by simp_all
  have "j * dx < dx" "- dx < j * dx" using h "0.prems"(7,8) by linarith+
  then have "j = 0" using "0.prems"(5,6) by (smt (verit) mult_le_cancel_right1 mult_minus_left mult_less_cancel_right2)
  then show ?case using 0 by (intro exI [of _ "[(x1, y1)]"]) (subst line_loop.simps, auto simp: line_path_def between_def)
next
  case (Suc n)
  have j0: "0 \<le> j"
  proof (rule ccontr)
    assume "\<not> 0 \<le> j"
    then have "j * dx \<le> - dx" using Suc.prems(5,6) mult_right_mono [of j "-1" dx] by simp
    moreover have "0 \<le> int (Suc n) * dy" using Suc.prems(5) by simp
    ultimately show False using Suc.prems(8,9) by linarith
  qed
  let ?s = "err < dy"
  let ?y = "if ?s then y1 + sy else y1" and ?j = "if ?s then j - 1 else j" and ?e = "if ?s then err - dy + dx else err - dy"
  have ne: "x1 \<noteq> x2" using Suc.prems(1,3) by auto
  have step: "line_loop px color x2 y2 dx dy sx sy x1 y1 err m = line_loop px color x2 y2 dx dy sx sy (x1 + sx) ?y ?e (px x1 y1 color m)"
    using ne Suc.prems(5-8) by (subst line_loop.simps) (auto simp: Let_def)
  have inv: "0 \<le> ?e - int n * dy + ?j * dx" "?e - int n * dy + ?j * dx < dx"
    using Suc.prems(9,10) by (auto simp: algebra_simps)
  have "\<exists>pts. line_loop px color x2 y2 dx dy sx sy (x1 + sx) ?y ?e (px x1 y1 color m) = Some (draw_path px color pts (px x1 y1 color m)) \<and>
      line_path (int n) (x1 + sx) ?y x2 y2 pts"
    using Suc.prems(1-8) inv by (intro Suc.IH) (auto simp: algebra_simps)
  then obtain pts where pts: "line_loop px color x2 y2 dx dy sx sy (x1 + sx) ?y ?e (px x1 y1 color m) = Some (draw_path px color pts (px x1 y1 color m))"
      "line_path (int n) (x1 + sx) ?y x2 y2 pts" by blast
  have j1: "0 \<le> ?j"
  proof (rule ccontr)
    assume "\<not> 0 \<le> ?j"
    then have "?j * dx \<le> - dx" using Suc.prems(5,6) mult_right_mono [of ?j "-1" dx] by simp
    moreover have "0 \<le> int n * dy" using Suc.prems(5) by simp
    moreover have "?e < dx" using Suc.prems(5,6,8) by auto
    ultimately show False using inv(1) by linarith
  qed
  have "line_path (int n + 1) x1 y1 x2 y2 ((x1, y1) # pts)"
  proof (rule line_path_Cons [OF pts(2)])
    show "adjacent (x1, y1) (x1 + sx, ?y)" using Suc.prems(3,4) by (auto simp: adjacent_def)
    show "between x1 x2 (x1 + sx)" using Suc.prems(1,3) by (auto simp: between_def)
    show "between y1 y2 ?y" using Suc.prems(2,4) j1 by (auto simp: between_def)
  qed
  then show ?case using step pts(1) by (intro exI [of _ "(x1, y1) # pts"]) (simp add: add.commute)
qed

text \<open>A line that is at least as high as wide: every step goes one row on; \<open>n\<close> rows and \<open>j\<close> columns are left.\<close>

lemma line_high:
  assumes "y2 - y1 = sy * int n" "x2 - x1 = sx * j" "sx \<in> {1, -1}" "sy \<in> {1, -1}" "0 \<le> dx" "dx \<le> dy" "0 < dy" "- dy < err" "err \<le> 0"
    "- dy < err + int n * dx - j * dy" "err + int n * dx - j * dy \<le> 0"
  shows "\<exists>pts. line_loop px color x2 y2 dx dy sx sy x1 y1 err m = Some (draw_path px color pts m) \<and> line_path (int n) x1 y1 x2 y2 pts"
  using assms
proof (induction n arbitrary: x1 y1 j err m)
  case 0
  have h: "- dy < err - j * dy" "err - j * dy \<le> 0" using "0.prems"(10,11) by simp_all
  have "j * dy < dy" "- dy < j * dy" using h "0.prems"(8,9) by linarith+
  then have "j = 0" using "0.prems"(7) by (smt (verit) mult_le_cancel_right1 mult_minus_left mult_less_cancel_right2)
  then show ?case using 0 by (intro exI [of _ "[(x1, y1)]"]) (subst line_loop.simps, auto simp: line_path_def between_def)
next
  case (Suc n)
  let ?s = "err > - dx"
  let ?x = "if ?s then x1 + sx else x1" and ?j = "if ?s then j - 1 else j" and ?e = "if ?s then err - dy + dx else err + dx"
  have ne: "y1 \<noteq> y2" using Suc.prems(1,4) by auto
  have step: "line_loop px color x2 y2 dx dy sx sy x1 y1 err m = line_loop px color x2 y2 dx dy sx sy ?x (y1 + sy) ?e (px x1 y1 color m)"
    using ne Suc.prems(5-9) by (subst line_loop.simps) (auto simp: Let_def)
  have inv: "- dy < ?e + int n * dx - ?j * dy" "?e + int n * dx - ?j * dy \<le> 0"
    using Suc.prems(10,11) by (auto simp: algebra_simps)
  have "\<exists>pts. line_loop px color x2 y2 dx dy sx sy ?x (y1 + sy) ?e (px x1 y1 color m) = Some (draw_path px color pts (px x1 y1 color m)) \<and>
      line_path (int n) ?x (y1 + sy) x2 y2 pts"
    using Suc.prems(1-9) inv by (intro Suc.IH) (auto simp: algebra_simps)
  then obtain pts where pts: "line_loop px color x2 y2 dx dy sx sy ?x (y1 + sy) ?e (px x1 y1 color m) = Some (draw_path px color pts (px x1 y1 color m))"
      "line_path (int n) ?x (y1 + sy) x2 y2 pts" by blast
  have j1: "0 \<le> ?j"
  proof (rule ccontr)
    assume "\<not> 0 \<le> ?j"
    then have "?j * dy \<le> - dy" using Suc.prems(7) mult_right_mono [of ?j "-1" dy] by simp
    moreover have "0 \<le> int n * dx" using Suc.prems(5) by simp
    moreover have "- dy < ?e" using Suc.prems(5,8) by auto
    ultimately show False using inv(2) by linarith
  qed
  have "line_path (int n + 1) x1 y1 x2 y2 ((x1, y1) # pts)"
  proof (rule line_path_Cons [OF pts(2)])
    show "adjacent (x1, y1) (?x, y1 + sy)" using Suc.prems(3,4) by (auto simp: adjacent_def)
    show "between y1 y2 (y1 + sy)" using Suc.prems(1,4) by (auto simp: between_def)
    show "between x1 x2 ?x" using Suc.prems(2,3) j1 by (auto simp: between_def)
  qed
  then show ?case using step pts(1) by (intro exI [of _ "(x1, y1) # pts"]) (simp add: add.commute)
qed

lemma draw_line_path:
  "\<exists>pts. draw_line px x1 y1 x2 y2 color m = Some (draw_path px color pts m) \<and> line_path (max \<bar>x2 - x1\<bar> \<bar>y2 - y1\<bar>) x1 y1 x2 y2 pts"
proof -
  let ?dx = "\<bar>x2 - x1\<bar>" and ?dy = "\<bar>y2 - y1\<bar>" and ?sx = "if x1 < x2 then 1 else - 1 :: int" and ?sy = "if y1 < y2 then 1 else - 1 :: int"
  have s: "x2 - x1 = ?sx * ?dx" "y2 - y1 = ?sy * ?dy" "?sx \<in> {1, -1}" "?sy \<in> {1, -1}" by auto
  have d: "draw_line px x1 y1 x2 y2 color m =
      line_loop px color x2 y2 ?dx ?dy ?sx ?sy x1 y1 (if ?dx > ?dy then ?dx div 2 else - (?dy div 2)) m"
    by (auto simp: draw_line_def Let_def abs_if)
  show ?thesis
  proof (cases "?dx > ?dy")
    case True
    have r: "0 \<le> ?dx div 2" "?dx div 2 < ?dx" using True by auto
    have "\<exists>pts. line_loop px color x2 y2 ?dx ?dy ?sx ?sy x1 y1 (?dx div 2) m = Some (draw_path px color pts m) \<and> line_path (int (nat ?dx)) x1 y1 x2 y2 pts"
      by (rule line_wide [where j = ?dy]) (use s True r in auto)
    then show ?thesis using d True by simp
  next
    case False
    note high = this
    show ?thesis
    proof (cases "?dy = 0")
      case True
      then have "x1 = x2" "y1 = y2" using high by auto
      then show ?thesis using d by (intro exI [of _ "[(x1, y1)]"]) (simp add: line_loop.simps line_path_def between_def)
    next
      case False
      have r: "- ?dy < - (?dy div 2)" "- (?dy div 2) \<le> 0" using False by auto
      have "\<exists>pts. line_loop px color x2 y2 ?dx ?dy ?sx ?sy x1 y1 (- (?dy div 2)) m = Some (draw_path px color pts m) \<and> line_path (int (nat ?dy)) x1 y1 x2 y2 pts"
        by (rule line_high [where j = ?dx]) (use s False high r in auto)
      then show ?thesis using d high by simp
    qed
  qed
qed

section \<open>Areas\<close>

lemma bc_loop_fold:
  "sorted_wrt (\<lambda>i j. a i = Break \<longrightarrow> a j \<noteq> Go) xs \<Longrightarrow> bc_loop a body xs m = fold body (filter (\<lambda>i. a i = Go) xs) m"
proof (induction xs arbitrary: m)
  case (Cons i xs)
  show ?case
  proof (cases "a i")
    case Break
    then have "\<forall>j \<in> set xs. a j \<noteq> Go" using Cons.prems by auto
    then show ?thesis using Break by (simp add: filter_False)
  qed (use Cons in auto)
qed simp

lemma upto_breaks: "(\<And>i j. i < j \<Longrightarrow> a i = Break \<Longrightarrow> a j \<noteq> Go) \<Longrightarrow> sorted_wrt (\<lambda>i j. a i = Break \<longrightarrow> a j \<noteq> Go) [k..n :: int]"
  by (rule sorted_wrt_mono_rel [OF _ sorted_wrt_upto]) blast

text \<open>What both ways of storing a pixel promise: the bytes that belong to the pixel's place in the buffer get the values of the colour, the
  others keep theirs.\<close>

locale pixel_store =
  fixes px :: "'c pixel" and cell :: "int \<Rightarrow> int" and val :: "'c \<Rightarrow> int \<Rightarrow> byte"
  assumes px_stores: "px x y c m = (\<lambda>i. if cell i = y * BGA_SCREEN_WIDTH + x then val c i else m i)"
begin

definition paint :: "(int \<times> int) set \<Rightarrow> 'c \<Rightarrow> fb \<Rightarrow> fb" where
  "paint S c m = (\<lambda>i. if \<exists>(x, y) \<in> S. cell i = y * BGA_SCREEN_WIDTH + x then val c i else m i)"

lemma paint_empty [simp]: "paint {} c m = m"
  by (simp add: paint_def)

lemma paint_px: "paint S c (px x y c m) = paint (insert (x, y) S) c m"
  by (auto simp: paint_def px_stores)

lemma paint_paint: "paint S c (paint T c m) = paint (T \<union> S) c m"
  by (rule ext) (auto simp: paint_def)

lemma draw_path_paint: "draw_path px c pts m = paint (set pts) c m"
proof (induction pts arbitrary: m)
  case (Cons p pts)
  then show ?case using paint_px [of "set pts" c "fst p" "snd p" m] by (simp add: split_beta)
qed simp

lemma row_paint: "fold (\<lambda>j. px (x + j) y c) js m = paint ((\<lambda>j. (x + j, y)) ` set js) c m"
proof (induction js arbitrary: m)
  case (Cons j js)
  then show ?case using paint_px [of "(\<lambda>j. (x + j, y)) ` set js" c "x + j" y m] by simp
qed simp

lemma rows_paint:
  assumes "\<And>i m. i \<in> set ks \<Longrightarrow> body i m = paint (S i) c m"
  shows "fold body ks m = paint (\<Union>i \<in> set ks. S i) c m"
  using assms
proof (induction ks arbitrary: m)
  case (Cons i ks)
  then show ?case using paint_paint [of "\<Union>i \<in> set ks. S i" c "S i" m] by (simp add: Un_commute)
qed simp

text \<open>Two nested loops with \<open>break\<close> and \<open>continue\<close>.\<close>

lemma area_paint:
  assumes "\<And>i j. i < j \<Longrightarrow> a i = Break \<Longrightarrow> a j \<noteq> Go" "\<And>k i j. i < j \<Longrightarrow> b k i = Break \<Longrightarrow> b k j \<noteq> Go"
  shows "bc_loop a (\<lambda>i. bc_loop (b i) (\<lambda>j. px (x + j) (y + i) c) [0..w - 1]) [0..h - 1] m =
    paint {(x + j, y + i) | i j. 0 \<le> i \<and> i < h \<and> 0 \<le> j \<and> j < w \<and> a i = Go \<and> b i j = Go} c m"
proof -
  have inner: "bc_loop (b i) (\<lambda>j. px (x + j) (y + i) c) [0..w - 1] m = paint {(x + j, y + i) | j. 0 \<le> j \<and> j < w \<and> b i j = Go} c m" for i m
  proof -
    have "(\<lambda>j. (x + j, y + i)) ` set (filter (\<lambda>j. b i j = Go) [0..w - 1]) = {(x + j, y + i) | j. 0 \<le> j \<and> j < w \<and> b i j = Go}" by auto
    moreover have "bc_loop (b i) (\<lambda>j. px (x + j) (y + i) c) [0..w - 1] m = fold (\<lambda>j. px (x + j) (y + i) c) (filter (\<lambda>j. b i j = Go) [0..w - 1]) m"
      using assms(2) by (intro bc_loop_fold upto_breaks) blast
    ultimately show ?thesis unfolding row_paint by simp
  qed
  have "bc_loop a (\<lambda>i. bc_loop (b i) (\<lambda>j. px (x + j) (y + i) c) [0..w - 1]) [0..h - 1] m =
      fold (\<lambda>i. bc_loop (b i) (\<lambda>j. px (x + j) (y + i) c) [0..w - 1]) (filter (\<lambda>i. a i = Go) [0..h - 1]) m"
    using assms(1) by (intro bc_loop_fold upto_breaks) blast
  also have "\<dots> = paint (\<Union>i \<in> set (filter (\<lambda>i. a i = Go) [0..h - 1]). {(x + j, y + i) | j. 0 \<le> j \<and> j < w \<and> b i j = Go}) c m"
    by (rule rows_paint) (rule inner)
  also have "(\<Union>i \<in> set (filter (\<lambda>i. a i = Go) [0..h - 1]). {(x + j, y + i) | j. 0 \<le> j \<and> j < w \<and> b i j = Go}) =
      {(x + j, y + i) | i j. 0 \<le> i \<and> i < h \<and> 0 \<le> j \<and> j < w \<and> a i = Go \<and> b i j = Go}" by auto
  finally show ?thesis .
qed

lemma rect_paint:
  "draw_rect_bound px x y width height fill max_x max_y m =
    paint ({max 0 x..<min (x + width - 1) max_x} \<times> {max 0 y..<min (y + height - 1) max_y}) fill m"
proof -
  let ?a = "\<lambda>i. if y + i < 0 then Continue else if y + i \<ge> max_y then Break else Go"
  let ?b = "\<lambda>k j :: int. if x + j < 0 then Continue else if x + j \<ge> max_x then Break else Go"
  have e: "width - 2 = (width - 1) - 1" "height - 2 = (height - 1) - 1" by simp_all
  have "draw_rect_bound px x y width height fill max_x max_y m =
      paint {(x + j, y + i) | i j. 0 \<le> i \<and> i < height - 1 \<and> 0 \<le> j \<and> j < width - 1 \<and> ?a i = Go \<and> ?b i j = Go} fill m"
    unfolding draw_rect_bound_def e by (rule area_paint) (auto split: if_splits)
  also have "{(x + j, y + i) | i j. 0 \<le> i \<and> i < height - 1 \<and> 0 \<le> j \<and> j < width - 1 \<and> ?a i = Go \<and> ?b i j = Go} =
      {max 0 x..<min (x + width - 1) max_x} \<times> {max 0 y..<min (y + height - 1) max_y}"
  proof (intro set_eqI iffI)
    fix p assume "p \<in> {max 0 x..<min (x + width - 1) max_x} \<times> {max 0 y..<min (y + height - 1) max_y}"
    then obtain a b where "p = (x + (a - x), y + (b - y))" "0 \<le> a" "x \<le> a" "a < x + width - 1" "a < max_x" "0 \<le> b" "y \<le> b" "b < y + height - 1" "b < max_y"
      by (cases p) auto
    then show "p \<in> {(x + j, y + i) | i j. 0 \<le> i \<and> i < height - 1 \<and> 0 \<le> j \<and> j < width - 1 \<and> ?a i = Go \<and> ?b i j = Go}"
      by (intro CollectI exI [of _ "b - y"] exI [of _ "a - x"]) auto
  qed (auto split: if_splits)
  finally show ?thesis .
qed

lemma bits_paint:
  "draw_bits px height width bits x y color m =
    paint {(x + j, y + i) | i j. 0 \<le> i \<and> i < height \<and> 0 \<le> j \<and> j < width \<and> bits i j = 1 \<and>
      0 \<le> y + i \<and> y + i \<le> BGA_SCREEN_HEIGHT \<and> 0 \<le> x + j \<and> x + j \<le> BGA_SCREEN_WIDTH} color m"
proof -
  let ?a = "\<lambda>i. if y + i > BGA_SCREEN_HEIGHT then Break else if y + i < 0 then Continue else Go"
  let ?b = "\<lambda>i j. if bits i j \<noteq> 1 then Continue else if x + j > BGA_SCREEN_WIDTH then Break else if x + j < 0 then Continue else Go"
  have "draw_bits px height width bits x y color m =
      paint {(x + j, y + i) | i j. 0 \<le> i \<and> i < height \<and> 0 \<le> j \<and> j < width \<and> ?a i = Go \<and> ?b i j = Go} color m"
    unfolding draw_bits_def by (rule area_paint) (auto split: if_splits)
  moreover have "?a i = Go \<and> ?b i j = Go \<longleftrightarrow> bits i j = 1 \<and> 0 \<le> y + i \<and> y + i \<le> BGA_SCREEN_HEIGHT \<and> 0 \<le> x + j \<and> x + j \<le> BGA_SCREEN_WIDTH" for i j
    by auto
  ultimately show ?thesis by (simp only:) 
qed

end

interpretation p8: pixel_store bga_draw_pixel "\<lambda>i. i" "\<lambda>c i. c"
  by unfold_locales (auto simp: bga_draw_pixel_def fun_eq_iff)

definition rgb_byte :: "RGBA \<Rightarrow> int \<Rightarrow> byte" where
  "rgb_byte c i = (if i mod 3 = 0 then cB c else if i mod 3 = 1 then cG c else cR c)"

interpretation p24: pixel_store bga_draw_pixel_24 "\<lambda>i. i div 3" rgb_byte
proof
  fix x y c m
  define t where "t = y * BGA_SCREEN_WIDTH + x"
  have e: "(y * 3) * BGA_SCREEN_WIDTH + x * 3 = 3 * t" by (simp add: t_def algebra_simps)
  have d: "i div 3 = t \<longleftrightarrow> i = 3 * t \<or> i = 3 * t + 1 \<or> i = 3 * t + 2" for i by presburger
  show "bga_draw_pixel_24 x y c m = (\<lambda>i. if i div 3 = y * BGA_SCREEN_WIDTH + x then rgb_byte c i else m i)"
    unfolding bga_draw_pixel_24_def Let_def e t_def [symmetric] d by (rule ext) (auto simp: rgb_byte_def)
qed

section \<open>The queue of keys\<close>

definition key_ok :: "bga_input \<Rightarrow> bool" where
  "key_ok b \<longleftrightarrow> length (bi_buf b) = BGA_INPUT_BUF \<and> unat (bi_e b - bi_r b) \<le> BGA_INPUT_BUF"

definition key_queue :: "bga_input \<Rightarrow> byte list" where
  "key_queue b = ring BGA_INPUT_BUF (bi_buf b) (bi_r b) (unat (bi_e b - bi_r b))"

lemma key_room: "bi_e b - bi_r b < of_nat BGA_INPUT_BUF \<longleftrightarrow> unat (bi_e b - bi_r b) < BGA_INPUT_BUF"
  by (simp add: word_less_nat_alt BGA_INPUT_BUF_def)

lemma key_put_ok:
  assumes ok: "key_ok b" and n: "unat (bi_e b - bi_r b) < BGA_INPUT_BUF"
  shows "key_ok (key_put c b) \<and> key_queue (key_put c b) = key_queue b @ [c]"
proof -
  define k where "k = unat (bi_e b - bi_r b)"
  have cnt: "unat (bi_e b + 1 - bi_r b) = Suc k"
    using word_count_put [of "bi_e b" "bi_r b"] n by (simp add: k_def BGA_INPUT_BUF_def)
  have w: "bi_e b = bi_r b + of_nat k" by (simp add: k_def)
  have len: "length (bi_buf b) = BGA_INPUT_BUF" and d: "BGA_INPUT_BUF dvd 2 ^ 32" and kn: "k < BGA_INPUT_BUF"
    using ok n by (simp_all add: key_ok_def BGA_INPUT_BUF_def k_def)
  have "key_queue (key_put c b) = ring BGA_INPUT_BUF ((bi_buf b)[unat (bi_r b + of_nat k) mod BGA_INPUT_BUF := c]) (bi_r b) (Suc k)"
    using cnt by (simp add: key_queue_def key_put_def flip: w)
  then show ?thesis unfolding ring_put [OF d len kn] using ok cnt kn by (simp add: key_ok_def key_put_def key_queue_def k_def)
qed

lemma key_get_ok:
  assumes ok: "key_ok b" and ne: "bi_r b \<noteq> bi_e b"
  shows "key_ok (snd (key_get b)) \<and> key_queue b = fst (key_get b) # key_queue (snd (key_get b))"
  using ok word_count_get [OF ne] by (simp add: key_ok_def key_get_def key_queue_def ring_Suc)

interpretation kq: bounded_fifo "\<lambda>b. \<not> unat (bi_e b - bi_r b) < BGA_INPUT_BUF" "\<lambda>b. bi_r b = bi_e b" key_put key_get key_ok key_queue BGA_INPUT_BUF
proof unfold_locales
  fix b assume ok: "key_ok b"
  show "(\<not> unat (bi_e b - bi_r b) < BGA_INPUT_BUF) = (length (key_queue b) = BGA_INPUT_BUF)" using ok by (auto simp: key_ok_def key_queue_def)
  show "bi_r b = bi_e b \<longleftrightarrow> key_queue b = []" by (auto simp: key_queue_def ring_def unat_eq_0)
  show "length (key_queue b) \<le> BGA_INPUT_BUF" using ok by (simp add: key_ok_def key_queue_def)
  show "\<not> \<not> unat (bi_e b - bi_r b) < BGA_INPUT_BUF \<Longrightarrow> key_ok (key_put c b) \<and> key_queue (key_put c b) = key_queue b @ [c]" for c
    using key_put_ok [OF ok] by simp
  show "bi_r b \<noteq> bi_e b \<Longrightarrow> key_ok (snd (key_get b)) \<and> key_queue b = fst (key_get b) # key_queue (snd (key_get b))"
    using key_get_ok [OF ok] by simp
qed

text \<open>An interrupt appends the keys that are not 0, as many as fit.\<close>

lemma bga_graphicsintr_appends:
  "key_ok b \<Longrightarrow> key_ok (bga_graphicsintr cs b) \<and>
    key_queue (bga_graphicsintr cs b) = take BGA_INPUT_BUF (key_queue b @ map of_nat (filter (\<lambda>c. c \<noteq> 0) cs))"
proof (induction cs arbitrary: b)
  case Nil
  then show ?case using kq.bounded [OF Nil] by simp
next
  case (Cons c cs)
  show ?case
  proof (cases "c \<noteq> 0 \<and> unat (bi_e b - bi_r b) < BGA_INPUT_BUF")
    case True
    then show ?thesis using Cons.IH [of "key_put (of_nat c) b"] key_put_ok [OF Cons.prems, of "of_nat c"] by (simp add: key_room)
  next
    case False
    then have "c = 0 \<or> length (key_queue b) = BGA_INPUT_BUF" using kq.full_iff [OF Cons.prems] by auto
    then show ?thesis using Cons False by (auto simp: key_room)
  qed
qed

section \<open>The properties\<close>

lemma cell_on_screen:
  assumes "0 \<le> x" "x < BGA_SCREEN_WIDTH"
  shows "k = y * BGA_SCREEN_WIDTH + x \<longleftrightarrow> k div BGA_SCREEN_WIDTH = y \<and> k mod BGA_SCREEN_WIDTH = x"
  using assms by (auto simp: BGA_SCREEN_WIDTH_def)

lemma cells_of_area:
  assumes "lo \<ge> 0" "hi \<le> BGA_SCREEN_WIDTH"
  shows "(\<exists>(x, y) \<in> {lo..<hi} \<times> Y. k = y * BGA_SCREEN_WIDTH + x) \<longleftrightarrow> k mod BGA_SCREEN_WIDTH \<in> {lo..<hi} \<and> k div BGA_SCREEN_WIDTH \<in> Y"
proof -
  have "k = y * BGA_SCREEN_WIDTH + x \<longleftrightarrow> k div BGA_SCREEN_WIDTH = y \<and> k mod BGA_SCREEN_WIDTH = x" if "x \<in> {lo..<hi}" for x y
    using cell_on_screen [of x k y] that assms by auto
  then show ?thesis by auto
qed



lemma banks_copied: "fold (copy_bank m) [0..int n - 1] vm = (\<lambda>i. if 0 \<le> i \<and> i < int n * 64 * 1024 then m i else vm i)"
proof (induction n)
  case (Suc n)
  have "[0..int (Suc n) - 1] = [0..int n - 1] @ [int n]" using upto_rec2 [of 0 "int n"] by simp
  then show ?case using Suc by (auto simp: copy_bank_def fun_eq_iff)
qed (auto simp: fun_eq_iff)

text \<open>The copy to the screen shows the whole buffer and nothing else.\<close>

theorem bga_blit_shows:
  "bga_blit_24 m vm i = (if 0 \<le> i \<and> i < 3 * BGA_SCREEN_WIDTH * BGA_SCREEN_HEIGHT then m i else vm i)"
  using banks_copied [of m 36 vm] by (simp add: bga_blit_24_def blit_def BGA_SCREEN_WIDTH_def BGA_SCREEN_HEIGHT_def)

text \<open>Characters and icons are clipped one row and one column too late: a character whose picture reaches row 768 is drawn there, behind
  the end of the buffer.\<close>

theorem characters_leave_buffer:
  assumes "32 \<le> ch" "ch < 127" "font (ch - 32) r j = 1" "0 \<le> r" "r < BGA_CHARACTER_HEIGHT" "0 \<le> j" "j < BGA_CHARACTER_WIDTH"
    and "y + r = BGA_SCREEN_HEIGHT" "0 \<le> x + j" "x + j < BGA_SCREEN_WIDTH"
  shows "snd (bga_draw_character_24 font x y ch color m) (3 * (BGA_SCREEN_WIDTH * BGA_SCREEN_HEIGHT + x + j)) = cB color \<and>
    3 * BGA_SCREEN_WIDTH * BGA_SCREEN_HEIGHT \<le> 3 * (BGA_SCREEN_WIDTH * BGA_SCREEN_HEIGHT + x + j)"
proof -
  let ?o = "3 * (BGA_SCREEN_WIDTH * BGA_SCREEN_HEIGHT + x + j)"
  let ?S = "{(x + j, y + i) | i j. 0 \<le> i \<and> i < BGA_CHARACTER_HEIGHT \<and> 0 \<le> j \<and> j < BGA_CHARACTER_WIDTH \<and> font (ch - 32) i j = 1 \<and>
      0 \<le> y + i \<and> y + i \<le> BGA_SCREEN_HEIGHT \<and> 0 \<le> x + j \<and> x + j \<le> BGA_SCREEN_WIDTH}"
  have yr: "0 \<le> y + r" and o: "?o div 3 = (y + r) * BGA_SCREEN_WIDTH + (x + j)" using assms(8) by (simp_all add: BGA_SCREEN_HEIGHT_def)
  have "(x + j, y + r) \<in> ?S" by (rule CollectI, rule exI [of _ r], rule exI [of _ j], use assms yr in simp)
  then have ex: "\<exists>(a, b) \<in> ?S. ?o div 3 = b * BGA_SCREEN_WIDTH + a" using o by blast
  have "bga_draw_character_24 font x y ch color m = (BGA_CHARACTER_WIDTH, p24.paint ?S color m)"
    using assms(1,2) by (simp add: bga_draw_character_24_def draw_character_def Let_def BGA_CHARACTER_NUMBER_def p24.bits_paint)
  then have "snd (bga_draw_character_24 font x y ch color m) ?o = rgb_byte color ?o" using ex unfolding p24.paint_def by simp
  then show ?thesis using assms(9) by (simp add: rgb_byte_def)
qed

theorem characters_leave_buffer_witness:
  "snd (bga_draw_character_24 (\<lambda>_ _ _. 1) 0 760 65 \<lparr>cA = 255, cB = 1, cG = 2, cR = 3\<rparr> (\<lambda>_. 0)) (3 * 1024 * 768) = 1"
  using characters_leave_buffer [of 65 "\<lambda>_ _ _. 1" 8 0 760 0 "\<lparr>cA = 255, cB = 1, cG = 2, cR = 3\<rparr>" "\<lambda>_. 0"]
  by (simp add: BGA_CHARACTER_HEIGHT_def BGA_CHARACTER_WIDTH_def BGA_SCREEN_HEIGHT_def BGA_SCREEN_WIDTH_def)

end
