(* ===== verification/Kbd.thy ===== *)
theory Kbd
  imports Console Msg Bga
begin

unbundle bit_operations_syntax

text \<open>
  \<open>kernel/kbd.c\<close> with the tables of \<open>include/kbd.h\<close>: the keyboard driver turns scan codes into characters for the console
  and messages for the window manager (\<open>handleMessage\<close> of \<open>kernel/msg.c\<close> passes them on). The bytes the controller
  holds are an argument. The lemmas bound the state and the characters, so that the line discipline of theory Console
  applies to everything typed on the keyboard.
\<close>

section \<open>Tables\<close>

definition SHIFT :: u32 where "SHIFT = 1"
definition CTL :: u32 where "CTL = 2"
definition ALT :: u32 where "ALT = 4"
definition CAPSLOCK :: u32 where "CAPSLOCK = 8"
definition NUMLOCK :: u32 where "NUMLOCK = 16"
definition SCROLLLOCK :: u32 where "SCROLLLOCK = 32"
definition E0ESC :: u32 where "E0ESC = 64"

text \<open>Entries that are not initialised are 0.\<close>

definition shiftcode :: "nat \<Rightarrow> u32" where
  "shiftcode d =
     (if d = 0x1D then CTL else if d = 0x2A then SHIFT else if d = 0x36 then SHIFT else if d = 0x38 then ALT
      else if d = 0x9D then CTL else if d = 0xB8 then ALT else 0)"

definition togglecode :: "nat \<Rightarrow> u32" where
  "togglecode d = (if d = 0x3A then CAPSLOCK else if d = 0x45 then NUMLOCK else if d = 0x46 then SCROLLLOCK else 0)"

definition normal_rows :: "nat list" where
  "normal_rows =
     [0, 0x1B, 49, 50, 51, 52, 53, 54, 55, 56, 57, 48, 45, 61, 8, 9,
      113, 119, 101, 114, 116, 121, 117, 105, 111, 112, 91, 93, 10, 0, 97, 115,
      100, 102, 103, 104, 106, 107, 108, 59, 39, 96, 0, 92, 122, 120, 99, 118,
      98, 110, 109, 44, 46, 47, 0, 42, 0, 32, 0, 0, 0, 0, 0, 0,
      0, 0, 0, 0, 0, 0, 0, 55, 56, 57, 45, 52, 53, 54, 43, 49,
      50, 51, 48, 46, 0, 0, 0, 0]"

definition shift_rows :: "nat list" where
  "shift_rows =
     [0, 27, 33, 64, 35, 36, 37, 94, 38, 42, 40, 41, 95, 43, 8, 9,
      81, 87, 69, 82, 84, 89, 85, 73, 79, 80, 123, 125, 10, 0, 65, 83,
      68, 70, 71, 72, 74, 75, 76, 58, 34, 126, 0, 124, 90, 88, 67, 86,
      66, 78, 77, 60, 62, 63, 0, 42, 0, 32, 0, 0, 0, 0, 0, 0,
      0, 0, 0, 0, 0, 0, 0, 55, 56, 57, 45, 52, 53, 54, 43, 49,
      50, 51, 48, 46, 0, 0, 0, 0]"

text \<open>\<open>C(x)\<close> is \<open>x - '@'\<close>, stored in an \<open>uchar\<close>.\<close>

definition ctl_rows :: "nat list" where
  "ctl_rows =
     [0, 0, 0, 0, 0, 0, 0, 0, 0, 0, 0, 0, 0, 0, 0, 0,
      17, 23, 5, 18, 20, 25, 21, 9, 15, 16, 0, 0, 13, 0, 1, 19,
      4, 6, 7, 8, 10, 11, 12, 0, 0, 0, 0, 28, 26, 24, 3, 22,
      2, 14, 13, 0, 0, 239, 0, 0]"

text \<open>The keys after an \<open>E0\<close> escape; \<open>kp_enter\<close> and \<open>kp_div\<close> are those of the keypad.\<close>

definition ext_keys :: "nat \<Rightarrow> nat \<Rightarrow> nat \<Rightarrow> nat" where
  "ext_keys kp_enter kp_div d =
     (if d = 0x9C then kp_enter else if d = 0xB5 then kp_div
      else if d = 0xC8 then 0xE2 else if d = 0xD0 then 0xE3 else if d = 0xC9 then 0xE6 else if d = 0xD1 then 0xE7
      else if d = 0xCB then 0xE4 else if d = 0xCD then 0xE5 else if d = 0x97 then 0xE0 else if d = 0xCF then 0xE1
      else if d = 0xD2 then 0xE8 else if d = 0xD3 then 0xE9 else 0)"

definition normalmap :: "nat \<Rightarrow> nat" where
  "normalmap d = (if d < length normal_rows then normal_rows ! d else ext_keys 10 47 d)"

definition shiftmap :: "nat \<Rightarrow> nat" where
  "shiftmap d = (if d < length shift_rows then shift_rows ! d else ext_keys 10 47 d)"

definition ctlmap :: "nat \<Rightarrow> nat" where
  "ctlmap d = (if d < length ctl_rows then ctl_rows ! d else ext_keys 13 239 d)"

section \<open>The driver\<close>

text \<open>A message with its two parameters; the driver sets no others.\<close>

definition key_message :: "int \<Rightarrow> nat \<Rightarrow> u32 \<Rightarrow> message" where
  "key_message ty c shift = \<lparr>msg_type = ty, params = [int c, uint shift]\<rparr>"

text \<open>The static variable \<open>shift\<close>, and the messages given to \<open>handleMessage\<close>, in order: the window manager shares no state
  with the keyboard driver or the console, so that the messages can be handed to it after the characters.\<close>

record kbd =
  k_shift :: u32
  k_msgs :: "message list"

definition send_message :: "message \<Rightarrow> kbd \<Rightarrow> kbd" where
  "send_message msg k = k\<lparr>k_msgs := k_msgs k @ [msg]\<rparr>"

definition charcode :: "u32 \<Rightarrow> nat \<Rightarrow> nat" where
  "charcode shift data =
     (let i = unat (shift AND (CTL OR SHIFT))
      in if i = 0 then normalmap data else if i = 1 then shiftmap data else ctlmap data)"

definition capslock :: "u32 \<Rightarrow> nat \<Rightarrow> nat" where
  "capslock shift c =
     (if shift AND CAPSLOCK \<noteq> 0 then
        (if 97 \<le> c \<and> c \<le> 122 then c - 32 else if 65 \<le> c \<and> c \<le> 90 then c + 32 else c)
      else c)"

text \<open>A key that is pressed, with its code after the escape has been added.\<close>

definition key_down :: "nat \<Rightarrow> kbd \<Rightarrow> int \<times> kbd" where
  "key_down data k =
     (let shift = (k_shift k OR shiftcode data) XOR togglecode data;
          c = (if shift = 1 then shiftmap data else normalmap data)
      in (int (capslock shift (charcode shift data)),
          send_message (key_message M_KEY_DOWN c shift) (k\<lparr>k_shift := shift\<rparr>)))"

text \<open>\<open>kbdgetc\<close>; the argument is \<open>None\<close> when the status port shows no data.\<close>

definition kbdgetc :: "byte option \<Rightarrow> kbd \<Rightarrow> int \<times> kbd" where
  "kbdgetc port k =
     (case port of
        None \<Rightarrow> (-1, k)
      | Some b \<Rightarrow>
          let data = unat b
          in if data = 0xE0 then (0, k\<lparr>k_shift := k_shift k OR E0ESC\<rparr>)
             else if data \<ge> 0x80 then
               let data = (if k_shift k AND E0ESC \<noteq> 0 then data else data mod 0x80);
                   shift = k_shift k AND NOT (shiftcode data OR E0ESC)
               in (0, send_message (key_message M_KEY_UP (normalmap data) shift) (k\<lparr>k_shift := shift\<rparr>))
             else if k_shift k AND E0ESC \<noteq> 0 then key_down (data + 0x80) (k\<lparr>k_shift := k_shift k AND NOT E0ESC\<rparr>)
             else key_down data k)"

text \<open>The calls of \<open>kbdgetc\<close> by \<open>consoleintr\<close> or \<open>bga_graphicsintr\<close>, while the controller has data.\<close>

fun kbd_chars :: "byte list \<Rightarrow> kbd \<Rightarrow> nat list \<times> kbd" where
  "kbd_chars [] k = ([], k)"
| "kbd_chars (b # bs) k =
     (case kbdgetc (Some b) k of (c, k) \<Rightarrow> case kbd_chars bs k of (cs, k) \<Rightarrow> (nat c # cs, k))"

text \<open>\<open>kbdintr\<close>; \<open>gm\<close> is what \<open>is_graphics\<close> returns. The keys go to the driver of the graphics adapter or to the console.\<close>

definition kbdintr :: "(u64 \<Rightarrow> u64) \<Rightarrow> int \<Rightarrow> byte list \<Rightarrow> kbd \<times> bga_input \<Rightarrow> console \<times> kernel \<Rightarrow> ((kbd \<times> bga_input) \<times> console \<times> kernel) res" where
  "kbdintr rd gm bs d x =
     (case d of (k, b) \<Rightarrow> case kbd_chars bs k of (cs, k) \<Rightarrow>
        if gm = 1 then Inr ((k, bga_graphicsintr cs b), x)
        else res_bind (consoleintr rd cs x) (\<lambda>x. Inr ((k, b), x)))"

section \<open>Ranges\<close>

text \<open>The bits \<open>shift\<close> can have.\<close>

definition kbd_ok :: "kbd \<Rightarrow> bool" where
  "kbd_ok k \<longleftrightarrow> take_bit 7 (k_shift k) = k_shift k"

lemma codes_low: "take_bit 7 (shiftcode d) = shiftcode d" "take_bit 7 (togglecode d) = togglecode d" "take_bit 7 E0ESC = E0ESC"
  by (simp_all add: shiftcode_def togglecode_def CTL_def SHIFT_def ALT_def CAPSLOCK_def NUMLOCK_def SCROLLLOCK_def E0ESC_def)

lemma low_bits_and: "take_bit n a = a \<Longrightarrow> take_bit n (a AND b) = a AND (b :: u32)"
  by (metis and.assoc and.commute take_bit_and take_bit_eq_mask)

lemma rows_bound: "\<forall>c \<in> set normal_rows. c < 256" "\<forall>c \<in> set shift_rows. c < 256" "\<forall>c \<in> set ctl_rows. c < 256"
  by (simp_all add: normal_rows_def shift_rows_def ctl_rows_def)

lemma maps_bound: "normalmap d < 256" "shiftmap d < 256" "ctlmap d < 256"
  using rows_bound by (auto simp: normalmap_def shiftmap_def ctlmap_def ext_keys_def)

lemma key_down_range:
  assumes "kbd_ok k"
  shows "0 \<le> fst (key_down d k) \<and> fst (key_down d k) < 256 \<and> kbd_ok (snd (key_down d k))"
proof -
  have "charcode s d < 256" for s by (simp add: charcode_def Let_def maps_bound)
  then have c: "capslock s (charcode s d) < 256" for s by (auto simp: capslock_def intro: less_imp_diff_less)
  have "kbd_ok (k\<lparr>k_shift := (k_shift k OR shiftcode d) XOR togglecode d\<rparr>)"
    using assms by (simp add: kbd_ok_def codes_low)
  then show ?thesis using c by (simp add: key_down_def Let_def send_message_def kbd_ok_def)
qed

lemma kbdgetc_range:
  assumes "kbd_ok k"
  shows "0 \<le> fst (kbdgetc (Some b) k) \<and> fst (kbdgetc (Some b) k) < 256 \<and> kbd_ok (snd (kbdgetc (Some b) k))"
proof -
  have a: "kbd_ok (k\<lparr>k_shift := k_shift k AND w\<rparr>)" for w
    using assms by (simp add: kbd_ok_def low_bits_and del: take_bit_and)
  have o: "kbd_ok (k\<lparr>k_shift := k_shift k OR E0ESC\<rparr>)" using assms by (simp add: kbd_ok_def codes_low)
  have h: "kbd_ok (send_message m k') = kbd_ok k'" for m k' by (simp add: send_message_def kbd_ok_def)
  show ?thesis using key_down_range [OF assms] key_down_range [OF a [of "NOT E0ESC"]] a o
    by (simp add: kbdgetc_def Let_def h)
qed

lemma kbd_chars_range:
  "kbd_ok k \<Longrightarrow> kbd_chars bs k = (cs, k') \<Longrightarrow> kbd_ok k' \<and> (\<forall>c \<in> set cs. c < 256) \<and> length cs = length bs"
proof (induction bs arbitrary: k cs k')
  case (Cons b bs)
  obtain c k1 where c: "kbdgetc (Some b) k = (c, k1)" by (cases "kbdgetc (Some b) k")
  obtain cs2 k2 where cs: "kbd_chars bs k1 = (cs2, k2)" by (cases "kbd_chars bs k1")
  show ?case using kbdgetc_range [OF Cons.prems(1), of b] Cons.IH [OF _ cs] Cons.prems(2) c cs by auto
qed simp


text \<open>Typing shift-A, B and return, with the key releases.\<close>

definition ex_scan :: "byte list" where
  "ex_scan = [0x2A, 0x1E, 0x9E, 0xAA, 0x30, 0xB0, 0x1C, 0x9C]"

lemma ex_scan_chars: "fst (kbd_chars ex_scan \<lparr>k_shift = 0, k_msgs = []\<rparr>) = [0, 65, 0, 0, 98, 0, 10, 0]"
  by (simp add: ex_scan_def kbdgetc_def key_down_def Let_def send_message_def charcode_def capslock_def
      shiftcode_def togglecode_def normalmap_def shiftmap_def normal_rows_def shift_rows_def ext_keys_def
      SHIFT_def CTL_def ALT_def CAPSLOCK_def NUMLOCK_def SCROLLLOCK_def E0ESC_def)


end
