(* ===== verification/Wm.thy ===== *)
theory Wm
  imports Kbd Pipe
begin

text \<open>
  \<open>kernel/window_manager.c\<close>: the list of windows in drawing order, a doubly linked list through the array \<open>windowlist\<close> whose
  last element has the focus; the message queue of each window; the handler of mouse and keyboard messages; creating, closing,
  minimizing and focusing windows. Drawing is not modelled, except for the order in which windows are drawn. An access to
  \<open>windowlist\<close> outside its 50 entries is \<open>Undefined\<close>; a walk along a list with a cycle does not return, which is the
  outer \<open>None\<close> of the operations that walk. \<open>wl_ok\<close> says that the links represent a list of windows; the lemmas show
  what each operation does to that list. \<open>int\<close> arithmetic on coordinates wraps around.
\<close>

section \<open>State\<close>

definition MSG_BUF_SIZE :: nat where "MSG_BUF_SIZE = 50"
definition MAX_TITLE_LEN :: nat where "MAX_TITLE_LEN = 50"
definition TITLE_HEIGHT :: int where "TITLE_HEIGHT = 28"
definition DOCK_HEIGHT :: int where "DOCK_HEIGHT = 36"
definition DOCK_PROGRAM_NORMAL_WIDTH :: int where "DOCK_PROGRAM_NORMAL_WIDTH = 160"
definition START_ICON_WIDTH :: int where "START_ICON_WIDTH = 72"
definition SHOW_DESKTOP_ICON_WIDTH :: int where "SHOW_DESKTOP_ICON_WIDTH = 10"
definition MAX_WINDOW_CNT :: nat where "MAX_WINDOW_CNT = 50"

record win_rect =
  r_xmin :: int
  r_xmax :: int
  r_ymin :: int
  r_ymax :: int

text \<open>\<open>msg_buf\<close>; the indices are never negative.\<close>

record msg_buf =
  mb_data :: "message list"
  mb_front :: nat
  mb_rear :: nat
  mb_cnt :: nat

record kernel_window =
  position :: win_rect
  window_buf :: nat
  wmsgs :: msg_buf
  wtitle :: "byte list"
  minimized :: bool
  hasTitleBar :: bool

text \<open>An entry of \<open>windowlist\<close>; \<open>proc\<close> is the index of the process, \<open>None\<close> for the null pointer.\<close>

record wslot =
  w_proc :: "nat option"
  wnd :: kernel_window
  w_next :: int
  w_prev :: int

record wm =
  windowlist :: "wslot list"
  windowlisthead :: int
  windowlisttail :: int
  desktopId :: int
  popup_proc :: "nat option"
  popup_wnd :: kernel_window
  popup_caller :: int
  mouseShape :: int
  gui_style :: int
  clickedOnTitle :: bool
  clickedOnContent :: bool
  clickedOnPopup :: bool
  mouse_x :: int
  mouse_y :: int
  last_x :: int
  last_y :: int
  SCREEN_WIDTH :: int
  SCREEN_HEIGHT :: int

text \<open>Reading and changing an entry of \<open>windowlist\<close>.\<close>

definition slot :: "int \<Rightarrow> wm \<Rightarrow> wslot res" where
  "slot i s = (if 0 \<le> i \<and> i < int MAX_WINDOW_CNT then Inr (windowlist s ! nat i) else Inl (Undefined ''windowlist''))"

definition upd_slot :: "int \<Rightarrow> (wslot \<Rightarrow> wslot) \<Rightarrow> wm \<Rightarrow> wm res" where
  "upd_slot i f s =
     (if 0 \<le> i \<and> i < int MAX_WINDOW_CNT then Inr (s\<lparr>windowlist := (windowlist s)[nat i := f (windowlist s ! nat i)]\<rparr>)
      else Inl (Undefined ''windowlist''))"

section \<open>Rectangles\<close>

definition isInRect :: "int \<Rightarrow> int \<Rightarrow> int \<Rightarrow> int \<Rightarrow> int \<Rightarrow> int \<Rightarrow> bool" where
  "isInRect xmin ymin xmax ymax x y \<longleftrightarrow> x \<ge> xmin \<and> x \<le> xmax \<and> y \<ge> ymin \<and> y \<le> ymax"

definition create_rect_by_coord :: "int \<Rightarrow> int \<Rightarrow> int \<Rightarrow> int \<Rightarrow> win_rect" where
  "create_rect_by_coord xmin ymin xmax ymax = \<lparr>r_xmin = xmin, r_xmax = xmax, r_ymin = ymin, r_ymax = ymax\<rparr>"

definition create_rect_by_size :: "int \<Rightarrow> int \<Rightarrow> int \<Rightarrow> int \<Rightarrow> win_rect" where
  "create_rect_by_size xmin ymin width height =
     \<lparr>r_xmin = xmin, r_xmax = wrap_int (xmin + width), r_ymin = ymin, r_ymax = wrap_int (ymin + height)\<rparr>"

definition moveRect :: "int \<Rightarrow> int \<Rightarrow> win_rect \<Rightarrow> win_rect" where
  "moveRect dx dy r =
     \<lparr>r_xmin = wrap_int (r_xmin r + dx), r_xmax = wrap_int (r_xmax r + dx),
      r_ymin = wrap_int (r_ymin r + dy), r_ymax = wrap_int (r_ymax r + dy)\<rparr>"

section \<open>Message queues\<close>

definition initMessageQueue :: "msg_buf \<Rightarrow> msg_buf" where
  "initMessageQueue b = b\<lparr>mb_front := 0, mb_rear := 0, mb_cnt := 0\<rparr>"

definition mb_put :: "message \<Rightarrow> msg_buf \<Rightarrow> msg_buf" where
  "mb_put msg b =
     b\<lparr>mb_cnt := mb_cnt b + 1, mb_data := (mb_data b)[mb_rear b := msg],
       mb_rear := (if mb_rear b + 1 \<ge> MSG_BUF_SIZE then 0 else mb_rear b + 1)\<rparr>"

definition dispatchMessage :: "msg_buf \<Rightarrow> message \<Rightarrow> int \<times> msg_buf" where
  "dispatchMessage b msg = (if mb_cnt b \<ge> MSG_BUF_SIZE then (1, b) else (0, mb_put msg b))"

definition mb_get :: "msg_buf \<Rightarrow> message \<times> msg_buf" where
  "mb_get b =
     (mb_data b ! mb_front b,
      b\<lparr>mb_cnt := mb_cnt b - 1, mb_front := (if mb_front b + 1 \<ge> MSG_BUF_SIZE then 0 else mb_front b + 1)\<rparr>)"

definition getMessage :: "msg_buf \<Rightarrow> int \<times> message option \<times> msg_buf" where
  "getMessage b = (if mb_cnt b = 0 then (1, None, b) else case mb_get b of (m, b) \<Rightarrow> (0, Some m, b))"

text \<open>Dispatching to the window with index \<open>i\<close>, and to the popup window.\<close>

definition put_msg :: "message \<Rightarrow> kernel_window \<Rightarrow> kernel_window" where
  "put_msg msg w = w\<lparr>wmsgs := snd (dispatchMessage (wmsgs w) msg)\<rparr>"

definition dispatch_to :: "int \<Rightarrow> message \<Rightarrow> wm \<Rightarrow> wm res" where
  "dispatch_to i msg s = upd_slot i (\<lambda>w. w\<lparr>wnd := put_msg msg (wnd w)\<rparr>) s"

definition dispatch_popup :: "message \<Rightarrow> wm \<Rightarrow> wm" where
  "dispatch_popup msg s = s\<lparr>popup_wnd := put_msg msg (popup_wnd s)\<rparr>"

section \<open>The list of windows\<close>

definition wm_empty_slot :: "kernel_window \<Rightarrow> nat \<Rightarrow> wslot" where
  "wm_empty_slot w i = \<lparr>w_proc = None, wnd = w, w_next = int i, w_prev = int i\<rparr>"

text \<open>\<open>wmInit\<close>, as far as the state above goes; \<open>desktopId\<close> is initialised statically.\<close>

definition wmInit :: "wm \<Rightarrow> wm" where
  "wmInit s = s\<lparr>mouseShape := 0, gui_style := 1, mouse_x := SCREEN_WIDTH s div 2, mouse_y := SCREEN_HEIGHT s div 2,
     last_x := SCREEN_WIDTH s div 2, last_y := SCREEN_HEIGHT s div 2, windowlisthead := -1, windowlisttail := -1,
     windowlist := map (\<lambda>i. (windowlist s ! i)\<lparr>w_next := int i, w_prev := int i\<rparr>) [0..<MAX_WINDOW_CNT],
     popup_caller := -1, clickedOnTitle := False, clickedOnContent := False, clickedOnPopup := False\<rparr>"

definition findNextAvailableWindowId :: "wm \<Rightarrow> int" where
  "findNextAvailableWindowId s =
     (case find (\<lambda>i. w_prev (windowlist s ! i) = int i \<and> w_next (windowlist s ! i) = int i) [0..<MAX_WINDOW_CNT] of
        None \<Rightarrow> -1 | Some i \<Rightarrow> int i)"

definition addToWindowList :: "int \<Rightarrow> wm \<Rightarrow> wm res" where
  "addToWindowList idx s =
     res_bind (upd_slot idx (\<lambda>w. w\<lparr>w_prev := windowlisttail s, w_next := -1\<rparr>) s) (\<lambda>s.
     res_bind (if windowlisttail s \<noteq> -1 then upd_slot (windowlisttail s) (\<lambda>w. w\<lparr>w_next := idx\<rparr>) s else Inr s) (\<lambda>s.
       Inr (s\<lparr>windowlisttail := idx\<rparr>)))"

definition removeFromWindowList :: "int \<Rightarrow> wm \<Rightarrow> wm res" where
  "removeFromWindowList idx s =
     res_bind (if windowlisttail s = idx
               then res_bind (slot (windowlisttail s) s) (\<lambda>w. Inr (s\<lparr>windowlisttail := w_prev w\<rparr>)) else Inr s) (\<lambda>s.
     res_bind (slot idx s) (\<lambda>w.
     res_bind (if w_prev w \<noteq> -1 then upd_slot (w_prev w) (\<lambda>v. v\<lparr>w_next := w_next w\<rparr>) s else Inr s) (\<lambda>s.
     res_bind (slot idx s) (\<lambda>w.
       if w_next w \<noteq> -1 then upd_slot (w_next w) (\<lambda>v. v\<lparr>w_prev := w_prev w\<rparr>) s else Inr s))))"

definition focusWindow :: "int \<Rightarrow> wm \<Rightarrow> wm res" where
  "focusWindow winId s =
     (if winId = -1 \<or> winId = windowlisttail s then Inr s
      else res_bind
        (if winId = windowlisthead s then
           res_bind (slot winId s) (\<lambda>w.
           res_bind (upd_slot (w_next w) (\<lambda>v. v\<lparr>w_prev := -1\<rparr>) s) (\<lambda>s.
             Inr (s\<lparr>windowlisthead := w_next w\<rparr>)))
         else
           res_bind (slot winId s) (\<lambda>w.
           res_bind (upd_slot (w_prev w) (\<lambda>v. v\<lparr>w_next := w_next w\<rparr>) s) (\<lambda>s.
             upd_slot (w_next w) (\<lambda>v. v\<lparr>w_prev := w_prev w\<rparr>) s)))
        (addToWindowList winId))"

definition moveFocusWindow :: "int \<Rightarrow> int \<Rightarrow> wm \<Rightarrow> wm res" where
  "moveFocusWindow dx dy s =
     upd_slot (windowlisttail s)
       (\<lambda>w. if hasTitleBar (wnd w) then w\<lparr>wnd := (wnd w)\<lparr>position := moveRect dx dy (position (wnd w))\<rparr>\<rparr> else w) s"

text \<open>Walking from window \<open>p\<close> along \<open>next\<close>, with the windows visited so far; all loops over the list that are not left
  early visit these windows.\<close>

partial_function (option) walk :: "wm \<Rightarrow> int \<Rightarrow> int list \<Rightarrow> int list res option" where
  "walk s p acc =
     (if p = -1 then Some (Inr acc)
      else case slot p s of
        Inl e \<Rightarrow> Some (Inl e)
      | Inr w \<Rightarrow> walk s (w_next w) (acc @ [p]))"

definition getWindowCount :: "wm \<Rightarrow> int res option" where
  "getWindowCount s =
     ro_bind (walk s (windowlisthead s) []) (\<lambda>ps. Some (Inr (int (length (filter (\<lambda>p. p \<noteq> desktopId s) ps)))))"

fun dispatch_all :: "int list \<Rightarrow> message \<Rightarrow> wm \<Rightarrow> wm res" where
  "dispatch_all [] msg s = Inr s"
| "dispatch_all (p # qs) msg s = res_bind (dispatch_to p msg s) (dispatch_all qs msg)"

section \<open>Mouse and keyboard\<close>

text \<open>The loop over the program bars of the dock, left at the bar that was clicked.\<close>

partial_function (option) dock_loop :: "wm \<Rightarrow> int \<Rightarrow> int \<Rightarrow> int \<Rightarrow> int \<Rightarrow> int option res option" where
  "dock_loop s mx barWidth p xStart =
     (if p = -1 then Some (Inr None)
      else case slot p s of
        Inl e \<Rightarrow> Some (Inl e)
      | Inr w \<Rightarrow>
          if p \<noteq> desktopId s then
            (if mx > xStart + 1 \<and> mx \<le> xStart + barWidth - 1 then Some (Inr (Some p))
             else dock_loop s mx barWidth (w_next w) (xStart + barWidth))
          else dock_loop s mx barWidth (w_next w) xStart)"

definition click_bar :: "int option \<Rightarrow> wm \<Rightarrow> wm res" where
  "click_bar r s =
     (case r of
        None \<Rightarrow> Inr s
      | Some p \<Rightarrow>
          res_bind (slot p s) (\<lambda>w.
            if minimized (wnd w) then dispatch_to p \<lparr>msg_type = WM_WINDOW_MAXIMIZE, params = []\<rparr> s
            else focusWindow p s))"

text \<open>Division of C, for a positive divisor.\<close>

definition quot :: "int \<Rightarrow> int \<Rightarrow> int" where
  "quot a b = sgn a * (\<bar>a\<bar> div b)"

definition handleDesktopDockClick :: "int \<Rightarrow> message \<Rightarrow> wm \<Rightarrow> wm res option" where
  "handleDesktopDockClick mx msg s =
     ro_bind (getWindowCount s) (\<lambda>windowCount.
     ro_bind
       (if windowCount > 0 then
          let barWidth = min (quot (SCREEN_WIDTH s - START_ICON_WIDTH - SHOW_DESKTOP_ICON_WIDTH) (windowCount + 1))
                           DOCK_PROGRAM_NORMAL_WIDTH
          in ro_bind (dock_loop s mx barWidth (windowlisthead s) (START_ICON_WIDTH + 5)) (\<lambda>r. Some (click_bar r s))
        else Some (Inr s)) (\<lambda>s.
     ro_bind
       (if mx \<ge> SCREEN_WIDTH s - SHOW_DESKTOP_ICON_WIDTH then
          ro_bind (walk s (windowlisthead s) []) (\<lambda>ps.
            Some (dispatch_all (filter (\<lambda>p. p \<noteq> desktopId s \<and> \<not> minimized (wnd (windowlist s ! nat p))) ps)
                    \<lparr>msg_type = WM_WINDOW_MINIMIZE, params = []\<rparr> s))
        else Some (Inr s)) (\<lambda>s.
       Some (if mx \<le> START_ICON_WIDTH \<and> msg_type msg = M_MOUSE_LEFT_CLICK \<and> popup_caller s \<noteq> desktopId s
             then dispatch_to (desktopId s) \<lparr>msg_type = msg_type msg, params = [mouse_x s, mouse_y s]\<rparr> s
             else Inr s))))"

text \<open>The position of the mouse relative to a window, as a message.\<close>

definition rel_msg :: "int \<Rightarrow> kernel_window \<Rightarrow> wm \<Rightarrow> message" where
  "rel_msg ty w s =
     \<lparr>msg_type = ty, params = [wrap_int (mouse_x s - r_xmin (position w)), wrap_int (mouse_y s - r_ymin (position w))]\<rparr>"

definition dispatch_focus :: "int \<Rightarrow> wm \<Rightarrow> wm res" where
  "dispatch_focus ty s =
     res_bind (slot (windowlisttail s) s) (\<lambda>w. dispatch_to (windowlisttail s) (rel_msg ty (wnd w) s) s)"

definition move_pointer :: "message \<Rightarrow> wm \<Rightarrow> wm" where
  "move_pointer msg s =
     (let s = s\<lparr>last_x := mouse_x s, last_y := mouse_y s\<rparr>;
          dx = param 0 msg; dy = param 1 msg;
          s = (if dx > - SCREEN_WIDTH s \<and> dx < SCREEN_WIDTH s \<and> dy > - SCREEN_HEIGHT s \<and> dx < SCREEN_HEIGHT s
               then s\<lparr>mouse_x := wrap_int (mouse_x s + dx), mouse_y := wrap_int (mouse_y s - dy)\<rparr> else s);
          s = (if mouse_x s > SCREEN_WIDTH s then s\<lparr>mouse_x := SCREEN_WIDTH s\<rparr> else s);
          s = (if mouse_y s > SCREEN_HEIGHT s then s\<lparr>mouse_y := SCREEN_HEIGHT s\<rparr> else s);
          s = (if mouse_x s < 0 then s\<lparr>mouse_x := 0\<rparr> else s)
      in if mouse_y s < 0 then s\<lparr>mouse_y := 0\<rparr> else s)"

definition mouse_move :: "message \<Rightarrow> wm \<Rightarrow> wm res" where
  "mouse_move msg s =
     (let s = move_pointer msg s
      in if clickedOnTitle s then
           moveFocusWindow (wrap_int (mouse_x s - last_x s)) (wrap_int (mouse_y s - last_y s)) (s\<lparr>mouseShape := 1\<rparr>)
         else if clickedOnContent s then dispatch_focus (msg_type msg) s
         else Inr s)"

definition in_window :: "win_rect \<Rightarrow> int \<Rightarrow> int \<Rightarrow> wm \<Rightarrow> bool" where
  "in_window r y0 y1 s = isInRect (r_xmin r) y0 (r_xmax r) y1 (mouse_x s) (mouse_y s)"

text \<open>The search from the last window for the one under the mouse; -1 when there is none.\<close>

partial_function (option) hit_loop :: "wm \<Rightarrow> int \<Rightarrow> int res option" where
  "hit_loop s p =
     (if p = -1 then Some (Inr (-1))
      else case slot p s of
        Inl e \<Rightarrow> Some (Inl e)
      | Inr w \<Rightarrow>
          if p \<noteq> desktopId s \<and> \<not> minimized (wnd w) \<and>
             in_window (position (wnd w)) (wrap_int (r_ymin (position (wnd w)) - TITLE_HEIGHT)) (r_ymax (position (wnd w))) s
          then Some (Inr p) else hit_loop s (w_prev w))"

text \<open>The second half of \<open>M_MOUSE_DOWN\<close>: a click on the title bar or the content of the focused window, whose rectangle is
  \<open>win\<close>. The coordinates sent are relative to the popup window.\<close>

definition click_window :: "message \<Rightarrow> wm \<Rightarrow> wm res" where
  "click_window msg s =
     res_bind (slot (windowlisttail s) s) (\<lambda>w.
       let r = position (wnd w)
       in res_bind
            (if in_window r (wrap_int (r_ymin r - TITLE_HEIGHT)) (r_ymin r) s then
               (if mouse_x s + 30 > r_xmax r then dispatch_to (windowlisttail s) \<lparr>msg_type = WM_WINDOW_CLOSE, params = []\<rparr> s
                else if mouse_x s + 60 > r_xmax r \<and> mouse_x s + 30 \<le> r_xmax r
                then dispatch_to (windowlisttail s) \<lparr>msg_type = WM_WINDOW_MINIMIZE, params = []\<rparr> s
                else Inr (s\<lparr>clickedOnTitle := True\<rparr>))
             else Inr s) (\<lambda>s.
            if in_window r (r_ymin r) (r_ymax r) s
            then dispatch_to (windowlisttail s) (rel_msg (msg_type msg) (popup_wnd s) s) (s\<lparr>clickedOnContent := True\<rparr>)
            else Inr s))"

definition mouse_down :: "message \<Rightarrow> wm \<Rightarrow> wm res option" where
  "mouse_down msg s =
     (if popup_caller s \<noteq> -1 \<and> in_window (position (popup_wnd s)) (r_ymin (position (popup_wnd s))) (r_ymax (position (popup_wnd s))) s
      then Some (Inr (s\<lparr>clickedOnPopup := True\<rparr>))
      else
        let s = dispatch_popup \<lparr>msg_type = WM_WINDOW_CLOSE, params = []\<rparr> s
        in ro_bind (hit_loop s (windowlisttail s)) (\<lambda>p.
             Some (res_bind (focusWindow (if p = -1 then desktopId s else p) s) (click_window msg))))"

definition mouse_up :: "message \<Rightarrow> wm \<Rightarrow> wm res" where
  "mouse_up msg s =
     (let s = s\<lparr>clickedOnPopup := False\<rparr>
      in res_bind (if clickedOnContent s then dispatch_focus (msg_type msg) (s\<lparr>clickedOnContent := False\<rparr>) else Inr s) (\<lambda>s.
           Inr (s\<lparr>clickedOnTitle := False, mouseShape := 0\<rparr>)))"

text \<open>A click; control falls through into the code for \<open>M_MOUSE_UP\<close>.\<close>

definition mouse_click :: "message \<Rightarrow> wm \<Rightarrow> wm res option" where
  "mouse_click msg s =
     ro_bind
       (if clickedOnPopup s then
          Some (Inr (dispatch_popup (rel_msg (msg_type msg) (popup_wnd s) s) (s\<lparr>clickedOnPopup := False\<rparr>)))
        else if clickedOnContent s then
          let s = s\<lparr>clickedOnContent := False\<rparr>
          in if windowlisttail s = desktopId s \<and> mouse_y s \<ge> SCREEN_HEIGHT s - DOCK_HEIGHT \<and> mouse_y s \<le> SCREEN_HEIGHT s
             then handleDesktopDockClick (mouse_x s) msg s
             else Some (dispatch_focus (msg_type msg) s)
        else Some (Inr s)) (\<lambda>s. Some (mouse_up msg s))"

definition wmHandleMessage :: "message \<Rightarrow> wm \<Rightarrow> wm res option" where
  "wmHandleMessage msg s =
     (if msg_type msg = M_MOUSE_MOVE then Some (mouse_move msg s)
      else if msg_type msg = M_MOUSE_DOWN then mouse_down msg s
      else if msg_type msg \<in> {M_MOUSE_LEFT_CLICK, M_MOUSE_RIGHT_CLICK, M_MOUSE_DBCLICK} then mouse_click msg s
      else if msg_type msg = M_MOUSE_UP then Some (mouse_up msg s)
      else if msg_type msg = M_KEY_DOWN \<or> msg_type msg = M_KEY_UP then Some (dispatch_to (windowlisttail s) msg s)
      else Some (Inr s))"

section \<open>Windows\<close>

text \<open>The fields of the user's \<open>window\<close> that the window manager uses.\<close>

record window =
  initialPosition :: win_rect
  u_hasTitleBar :: bool
  u_window_buf :: nat
  u_width :: int
  u_height :: int
  u_handler :: int

text \<open>Where a new window goes: where it asks to be, if that is on the screen and of its size.\<close>

definition fits :: "window \<Rightarrow> wm \<Rightarrow> bool" where
  "fits w s \<longleftrightarrow> (let r = initialPosition w in
     r_xmin r \<ge> 0 \<and> r_xmax r \<le> SCREEN_WIDTH s \<and> r_ymin r \<ge> 0 \<and> r_ymax r \<le> SCREEN_HEIGHT s \<and>
     wrap_int (r_xmax r - r_xmin r) = u_width w \<and> wrap_int (r_ymax r - r_ymin r) = u_height w)"

definition place :: "window \<Rightarrow> wm \<Rightarrow> win_rect" where
  "place w s =
     (if fits w s then initialPosition w
      else create_rect_by_coord
        (wrap_int (quot (SCREEN_WIDTH s) 2 - quot (u_width w) 2)) (wrap_int (quot (SCREEN_HEIGHT s) 2 - quot (u_height w) 2))
        (wrap_int (quot (SCREEN_WIDTH s) 2 + quot (u_width w) 2)) (wrap_int (quot (SCREEN_HEIGHT s) 2 + quot (u_height w) 2)))"

text \<open>\<open>create_window\<close> by process \<open>me\<close>: the result, the window with its handler, and the state. The title is cut at 50 bytes and
  is not terminated then. Filling the window with a colour is drawing.\<close>

definition new_window :: "nat \<Rightarrow> window \<Rightarrow> byte list \<Rightarrow> wm \<Rightarrow> wslot \<Rightarrow> wslot" where
  "new_window me w title s v =
     v\<lparr>w_proc := Some me,
       wnd := \<lparr>position = place w s, window_buf = u_window_buf w, wmsgs = initMessageQueue (wmsgs (wnd v)),
               wtitle = splice 0 (take MAX_TITLE_LEN title) (wtitle (wnd v)), minimized = False, hasTitleBar = u_hasTitleBar w\<rparr>\<rparr>"

definition create_window :: "nat \<Rightarrow> window \<Rightarrow> byte list \<Rightarrow> wm \<Rightarrow> (int \<times> window \<times> wm) res" where
  "create_window me w title s =
     (let winId = findNextAvailableWindowId s
      in if winId = -1 then Inr (1, w, s)
         else
           let s = (if windowlisthead s = -1 then s\<lparr>windowlisthead := winId\<rparr> else s)
           in res_bind (addToWindowList winId s) (\<lambda>s.
                let s = (if desktopId s = -1 then s\<lparr>desktopId := winId\<rparr> else s)
                in res_bind (upd_slot winId (new_window me w title s) s) (\<lambda>s.
                     Inr (0, w\<lparr>u_handler := winId\<rparr>, s))))"

definition createPopupWindow :: "nat \<Rightarrow> window \<Rightarrow> int \<Rightarrow> wm \<Rightarrow> int \<times> window \<times> wm" where
  "createPopupWindow me w caller s =
     (if popup_caller s \<noteq> -1 then (1, w, s)
      else
        (0, w\<lparr>u_handler := caller\<rparr>,
         s\<lparr>popup_wnd := (popup_wnd s)\<lparr>position := (if fits w s then initialPosition w else position (popup_wnd s)),
              window_buf := u_window_buf w, wmsgs := initMessageQueue (wmsgs (popup_wnd s)), minimized := False,
              hasTitleBar := u_hasTitleBar w\<rparr>,
           popup_caller := caller, popup_proc := Some me\<rparr>))"

definition closePopupWindow :: "window \<Rightarrow> wm \<Rightarrow> int \<times> window \<times> wm" where
  "closePopupWindow w s =
     (0, w\<lparr>u_handler := -1\<rparr>,
      s\<lparr>popup_caller := -1,
        popup_wnd := (popup_wnd s)\<lparr>wmsgs := initMessageQueue (wmsgs (popup_wnd s)), wtitle := replicate MAX_TITLE_LEN 0\<rparr>\<rparr>)"

definition clear_slot :: "int \<Rightarrow> wslot \<Rightarrow> wslot" where
  "clear_slot winId v =
     v\<lparr>w_prev := winId, w_next := winId,
       wnd := (wnd v)\<lparr>wmsgs := initMessageQueue (wmsgs (wnd v)), wtitle := replicate MAX_TITLE_LEN 0\<rparr>\<rparr>"

definition close_window :: "window \<Rightarrow> wm \<Rightarrow> (int \<times> window \<times> wm) res" where
  "close_window w s =
     (let winId = u_handler w
      in res_bind (removeFromWindowList winId s) (\<lambda>s.
         res_bind (upd_slot winId (clear_slot winId) s) (\<lambda>s.
         res_bind (if winId = windowlisttail s then res_bind (slot winId s) (\<lambda>v. focusWindow (w_prev v) s) else Inr s) (\<lambda>s.
           Inr (0, w\<lparr>u_handler := -1\<rparr>, s)))))"

definition set_minimized :: "bool \<Rightarrow> wslot \<Rightarrow> wslot" where
  "set_minimized b v = v\<lparr>wnd := (wnd v)\<lparr>minimized := b\<rparr>\<rparr>"

definition minimizeWindow :: "window \<Rightarrow> wm \<Rightarrow> (int \<times> wm) res" where
  "minimizeWindow w s =
     (let winId = u_handler w
      in res_bind (upd_slot winId (set_minimized True) s) (\<lambda>s.
         res_bind (if winId = windowlisttail s then res_bind (slot winId s) (\<lambda>v. focusWindow (w_prev v) s) else Inr s) (\<lambda>s.
           Inr (0, s))))"

definition maximizeWindow :: "window \<Rightarrow> wm \<Rightarrow> (int \<times> wm) res" where
  "maximizeWindow w s =
     (let winId = u_handler w
      in res_bind (upd_slot winId (set_minimized False) s) (\<lambda>s.
         res_bind (focusWindow winId s) (\<lambda>s. Inr (0, s))))"

definition turnoffScreen :: "wm \<Rightarrow> (int \<times> wm) res option" where
  "turnoffScreen s =
     ro_bind (walk s (windowlisthead s) []) (\<lambda>ps.
       Some (res_bind (dispatch_all ps \<lparr>msg_type = WM_WINDOW_CLOSE, params = []\<rparr> s) (\<lambda>s. Inr (0, s))))"

text \<open>\<open>update_screen\<close> called by process \<open>me\<close>: the windows it draws, in order; a popup is drawn last, as \<open>None\<close>.\<close>

definition update_screen :: "nat option \<Rightarrow> wm \<Rightarrow> int option list res option" where
  "update_screen me s =
     (case slot (desktopId s) s of
        Inl e \<Rightarrow> Some (Inl e)
      | Inr d \<Rightarrow>
          if me \<noteq> w_proc d then Some (Inl (Panic ''Update screen called by non desktop process''))
          else ro_bind (walk s (windowlisthead s) []) (\<lambda>ps.
            Some (Inr (Some (desktopId s) # map Some (filter (\<lambda>p. p \<noteq> desktopId s \<and> \<not> minimized (wnd (windowlist s ! nat p))) ps)
              @ (if popup_caller s \<noteq> -1 then [None] else [])))))"

text \<open>\<open>sys_GUI_getMessage\<close> by process \<open>me\<close> for window \<open>h\<close>, \<open>sys_GUI_getPopupMessage\<close> and \<open>sys_GUI_select_style\<close>, with their arguments
  decoded. The last one returns no value.\<close>

definition sys_GUI_getMessage :: "nat \<Rightarrow> int \<Rightarrow> wm \<Rightarrow> (int \<times> message option \<times> wm) res" where
  "sys_GUI_getMessage me h s =
     res_bind (slot h s) (\<lambda>w.
       if Some me \<noteq> w_proc w then Inr (1, None, s)
       else case getMessage (wmsgs (wnd w)) of (r, m, b) \<Rightarrow>
         res_bind (upd_slot h (\<lambda>v. v\<lparr>wnd := (wnd v)\<lparr>wmsgs := b\<rparr>\<rparr>) s) (\<lambda>s. Inr (r, m, s)))"

definition sys_GUI_getPopupMessage :: "wm \<Rightarrow> int \<times> message option \<times> wm" where
  "sys_GUI_getPopupMessage s =
     (if popup_caller s = -1 then (1, None, s)
      else case getMessage (wmsgs (popup_wnd s)) of (r, m, b) \<Rightarrow> (r, m, s\<lparr>popup_wnd := (popup_wnd s)\<lparr>wmsgs := b\<rparr>\<rparr>))"

definition sys_GUI_select_style :: "int \<Rightarrow> wm \<Rightarrow> wm res" where
  "sys_GUI_select_style n s =
     dispatch_to (desktopId s) \<lparr>msg_type = WM_WINDOW_INVALIDATE, params = []\<rparr> (s\<lparr>gui_style := n\<rparr>)"

section \<open>Linked lists\<close>

text \<open>\<open>dseg N P a ws b\<close>: following \<open>N\<close> from the first element of \<open>ws\<close> visits \<open>ws\<close> and leads to \<open>b\<close>, and following \<open>P\<close> from the last visits
  it backwards and leads to \<open>a\<close>.\<close>

definition first :: "nat list \<Rightarrow> int \<Rightarrow> int" where
  "first ws d = (if ws = [] then d else int (hd ws))"

definition lst :: "nat list \<Rightarrow> int \<Rightarrow> int" where
  "lst ws d = (if ws = [] then d else int (last ws))"

fun dseg :: "(nat \<Rightarrow> int) \<Rightarrow> (nat \<Rightarrow> int) \<Rightarrow> int \<Rightarrow> nat list \<Rightarrow> int \<Rightarrow> bool" where
  "dseg N P a [] b = True"
| "dseg N P a (w # ws) b \<longleftrightarrow> P w = a \<and> N w = first ws b \<and> dseg N P (int w) ws b"

lemma first_lst_simps [simp]:
  "first [] d = d" "first (w # ws) d = int w" "lst [] d = d" "lst (ws @ [w]) d = int w" "lst [w] d = int w"
  by (simp_all add: first_def lst_def)

lemma first_append [simp]: "first (xs @ ys) d = first xs (first ys d)"
  by (simp add: first_def)

lemma lst_Cons [simp]: "lst (w # ws) d = lst ws (int w)"
  by (simp add: lst_def)

lemma lst_append [simp]: "lst (xs @ ys) d = lst ys (lst xs d)"
  by (simp add: lst_def)

lemma dseg_append: "dseg N P a (xs @ ys) b \<longleftrightarrow> dseg N P a xs (first ys b) \<and> dseg N P (lst xs a) ys b"
  by (induction xs arbitrary: a) auto

lemma dseg_cong: "(\<And>w. w \<in> set ws \<Longrightarrow> N' w = N w \<and> P' w = P w) \<Longrightarrow> dseg N' P' a ws b = dseg N P a ws b"
  by (induction ws arbitrary: a) auto

lemma dseg_set_next: "dseg N P a (xs @ [w]) b \<Longrightarrow> w \<notin> set xs \<Longrightarrow> dseg (N(w := b')) P a (xs @ [w]) b'"
proof -
  assume d: "dseg N P a (xs @ [w]) b" and w: "w \<notin> set xs"
  have "dseg (N(w := b')) P a xs (int w) = dseg N P a xs (int w)" by (rule dseg_cong) (use w in auto)
  then show ?thesis using d by (simp add: dseg_append)
qed

lemma dseg_set_prev: "dseg N P a (w # xs) b \<Longrightarrow> w \<notin> set xs \<Longrightarrow> dseg N (P(w := a')) a' (w # xs) b"
proof -
  assume d: "dseg N P a (w # xs) b" and w: "w \<notin> set xs"
  have "dseg N (P(w := a')) (int w) xs b = dseg N P (int w) xs b" by (rule dseg_cong) (use w in auto)
  then show ?thesis using d by simp
qed

text \<open>Setting the link after \<open>xs\<close>, and the link before \<open>ys\<close>, where there is one.\<close>

definition link_next :: "nat list \<Rightarrow> int \<Rightarrow> (nat \<Rightarrow> int) \<Rightarrow> nat \<Rightarrow> int" where
  "link_next xs b N = (if xs = [] then N else N(last xs := b))"

definition link_prev :: "nat list \<Rightarrow> int \<Rightarrow> (nat \<Rightarrow> int) \<Rightarrow> nat \<Rightarrow> int" where
  "link_prev ys a P = (if ys = [] then P else P(hd ys := a))"

lemma dseg_link_next: "dseg N P a xs b \<Longrightarrow> distinct xs \<Longrightarrow> dseg (link_next xs b' N) P a xs b'"
proof (cases xs rule: rev_cases)
  case (snoc us u)
  assume "dseg N P a xs b" "distinct xs"
  then show ?thesis using dseg_set_next [of N P a us u b b'] snoc by (simp add: link_next_def)
qed (simp add: link_next_def)

lemma dseg_link_prev: "dseg N P a ys b \<Longrightarrow> distinct ys \<Longrightarrow> dseg N (link_prev ys a' P) a' ys b"
proof (cases ys)
  case (Cons u us)
  assume "dseg N P a ys b" "distinct ys"
  then show ?thesis using dseg_set_prev [of N P a u us b a'] Cons by (simp add: link_prev_def)
qed (simp add: link_prev_def)

lemma link_next_other: "v \<notin> set xs \<Longrightarrow> link_next xs b N v = N v"
  by (auto simp: link_next_def)

lemma link_prev_other: "v \<notin> set ys \<Longrightarrow> link_prev ys a P v = P v"
  by (auto simp: link_prev_def)

text \<open>Taking \<open>w\<close> out of a list, and putting it at the end.\<close>

lemma dseg_unlink:
  assumes "dseg N P a (xs @ w # ys) b" "distinct (xs @ w # ys)"
  shows "dseg (link_next xs (first ys b) N) (link_prev ys (lst xs a) P) a (xs @ ys) b"
proof -
  have d: "dseg N P a xs (int w)" "dseg N P (int w) ys b" using assms(1) by (auto simp: dseg_append)
  have dj: "v \<notin> set ys" if "v \<in> set xs" for v using that assms(2) by auto
  have "dseg (link_next xs (first ys b) N) (link_prev ys (lst xs a) P) a xs (first ys b) =
      dseg (link_next xs (first ys b) N) P a xs (first ys b)"
    by (rule dseg_cong) (simp add: link_prev_other dj)
  moreover have "dseg (link_next xs (first ys b) N) (link_prev ys (lst xs a) P) (lst xs a) ys b =
      dseg N (link_prev ys (lst xs a) P) (lst xs a) ys b"
    by (rule dseg_cong) (metis dj link_next_other)
  ultimately show ?thesis using d assms(2) by (simp add: dseg_append dseg_link_next dseg_link_prev)
qed

lemma dseg_push:
  assumes "dseg N P a zs b" "distinct zs" "w \<notin> set zs"
  shows "dseg (link_next zs (int w) (N(w := b'))) (P(w := lst zs a)) a (zs @ [w]) b'"
proof -
  have "dseg (link_next zs (int w) (N(w := b'))) (P(w := lst zs a)) a zs (int w) = dseg (link_next zs (int w) N) P a zs (int w)"
    by (rule dseg_cong) (use assms(3) in \<open>auto simp: link_next_def\<close>)
  moreover have "link_next zs (int w) (N(w := b')) w = b'" using assms(3) by (simp add: link_next_other)
  ultimately show ?thesis using dseg_link_next [OF assms(1,2), of "int w"] by (simp add: dseg_append)
qed

section \<open>The window list represents a list\<close>

definition nx :: "wm \<Rightarrow> nat \<Rightarrow> int" where "nx s i = w_next (windowlist s ! i)"
definition pv :: "wm \<Rightarrow> nat \<Rightarrow> int" where "pv s i = w_prev (windowlist s ! i)"

text \<open>The state with other links; all list operations are of this form.\<close>

definition relink :: "(nat \<Rightarrow> int) \<Rightarrow> (nat \<Rightarrow> int) \<Rightarrow> int \<Rightarrow> int \<Rightarrow> wm \<Rightarrow> wm" where
  "relink N P h t s =
     s\<lparr>windowlist := map (\<lambda>i. (windowlist s ! i)\<lparr>w_next := N i, w_prev := P i\<rparr>) [0..<MAX_WINDOW_CNT],
       windowlisthead := h, windowlisttail := t\<rparr>"

definition links_ok :: "(nat \<Rightarrow> int) \<Rightarrow> (nat \<Rightarrow> int) \<Rightarrow> nat list \<Rightarrow> bool" where
  "links_ok N P ws \<longleftrightarrow> distinct ws \<and> set ws \<subseteq> {..<MAX_WINDOW_CNT} \<and> dseg N P (-1) ws (-1) \<and>
     (\<forall>i < MAX_WINDOW_CNT. i \<notin> set ws \<longrightarrow> N i = int i \<and> P i = int i)"

definition wl_ok :: "nat list \<Rightarrow> wm \<Rightarrow> bool" where
  "wl_ok ws s \<longleftrightarrow> length (windowlist s) = MAX_WINDOW_CNT \<and> windowlisthead s = first ws (-1) \<and>
     windowlisttail s = lst ws (-1) \<and> links_ok (nx s) (pv s) ws"

lemma relink_simps [simp]:
  "length (windowlist (relink N P h t s)) = MAX_WINDOW_CNT" "windowlisthead (relink N P h t s) = h"
  "windowlisttail (relink N P h t s) = t" "desktopId (relink N P h t s) = desktopId s"
  "i < MAX_WINDOW_CNT \<Longrightarrow> nx (relink N P h t s) i = N i" "i < MAX_WINDOW_CNT \<Longrightarrow> pv (relink N P h t s) i = P i"
  "i < MAX_WINDOW_CNT \<Longrightarrow> windowlist (relink N P h t s) ! i = (windowlist s ! i)\<lparr>w_next := N i, w_prev := P i\<rparr>"
  "(relink N P h t s)\<lparr>windowlisttail := t'\<rparr> = relink N P h t' s" "(relink N P h t s)\<lparr>windowlisthead := h'\<rparr> = relink N P h' t s"
  by (simp_all add: relink_def nx_def pv_def)

lemma relink_cong:
  "(\<And>i. i < MAX_WINDOW_CNT \<Longrightarrow> N i = N' i \<and> P i = P' i) \<Longrightarrow> relink N P h t s = relink N' P' h t s"
proof -
  assume "\<And>i. i < MAX_WINDOW_CNT \<Longrightarrow> N i = N' i \<and> P i = P' i"
  then have "map (\<lambda>i. (windowlist s ! i)\<lparr>w_next := N i, w_prev := P i\<rparr>) [0..<MAX_WINDOW_CNT] =
      map (\<lambda>i. (windowlist s ! i)\<lparr>w_next := N' i, w_prev := P' i\<rparr>) [0..<MAX_WINDOW_CNT]" by auto
  then show ?thesis by (simp add: relink_def)
qed

lemma relink_id: "length (windowlist s) = MAX_WINDOW_CNT \<Longrightarrow> relink (nx s) (pv s) (windowlisthead s) (windowlisttail s) s = s"
proof -
  assume "length (windowlist s) = MAX_WINDOW_CNT"
  then have "map (\<lambda>i. (windowlist s ! i)\<lparr>w_next := nx s i, w_prev := pv s i\<rparr>) [0..<MAX_WINDOW_CNT] = windowlist s"
    by (intro nth_equalityI) (auto simp: nx_def pv_def)
  then show ?thesis by (simp add: relink_def)
qed

lemma links_ok_cong:
  assumes "\<And>i. i < MAX_WINDOW_CNT \<Longrightarrow> N' i = N i \<and> P' i = P i"
  shows "links_ok N' P' ws = links_ok N P ws"
proof -
  have "dseg N' P' (-1) ws (-1) = dseg N P (-1) ws (-1)" if "set ws \<subseteq> {..<MAX_WINDOW_CNT}"
    by (rule dseg_cong) (use that assms in auto)
  then show ?thesis using assms by (auto simp: links_ok_def)
qed

lemma wl_ok_relink: "wl_ok ws (relink N P h t s) \<longleftrightarrow> h = first ws (-1) \<and> t = lst ws (-1) \<and> links_ok N P ws"
  using links_ok_cong [of "nx (relink N P h t s)" N "pv (relink N P h t s)" P ws] by (simp add: wl_ok_def)

lemma relink_upd:
  assumes "w < MAX_WINDOW_CNT"
  shows "upd_slot (int w) (\<lambda>v. v\<lparr>w_next := a\<rparr>) (relink N P h t s) = Inr (relink (N(w := a)) P h t s)"
    and "upd_slot (int w) (\<lambda>v. v\<lparr>w_prev := a\<rparr>) (relink N P h t s) = Inr (relink N (P(w := a)) h t s)"
    and "upd_slot (int w) (\<lambda>v. v\<lparr>w_prev := a, w_next := b\<rparr>) (relink N P h t s) = Inr (relink (N(w := b)) (P(w := a)) h t s)"
proof -
  have L: "(relink N P h t s)\<lparr>windowlist := (windowlist (relink N P h t s))[w := (windowlist s ! w)\<lparr>w_next := n, w_prev := p\<rparr>]\<rparr> =
      relink (N(w := n)) (P(w := p)) h t s" for n p
  proof -
    have "(map (\<lambda>i. (windowlist s ! i)\<lparr>w_next := N i, w_prev := P i\<rparr>) [0..<MAX_WINDOW_CNT])[w := (windowlist s ! w)\<lparr>w_next := n, w_prev := p\<rparr>] =
        map (\<lambda>i. (windowlist s ! i)\<lparr>w_next := (N(w := n)) i, w_prev := (P(w := p)) i\<rparr>) [0..<MAX_WINDOW_CNT]"
      by (rule nth_equalityI) (auto simp: nth_list_update)
    then show ?thesis by (cases s) (simp add: relink_def del: map_eq_conv)
  qed
  have sl: "v\<lparr>w_next := n, w_prev := p, w_next := a\<rparr> = v\<lparr>w_next := a, w_prev := p\<rparr>" for v :: wslot and n p a by (cases v) simp
  have sw: "v\<lparr>w_next := n, w_prev := p, w_prev := a, w_next := b\<rparr> = v\<lparr>w_next := b, w_prev := a\<rparr>" for v :: wslot and n p a b
    by (cases v) simp
  have u: "upd_slot (int w) f (relink N P h t s) = Inr ((relink N P h t s)\<lparr>windowlist := (windowlist (relink N P h t s))[w :=
      f ((windowlist s ! w)\<lparr>w_next := N w, w_prev := P w\<rparr>)]\<rparr>)" for f using assms by (simp add: upd_slot_def)
  show "upd_slot (int w) (\<lambda>v. v\<lparr>w_next := a\<rparr>) (relink N P h t s) = Inr (relink (N(w := a)) P h t s)"
    unfolding u sl L by simp
  show "upd_slot (int w) (\<lambda>v. v\<lparr>w_prev := a\<rparr>) (relink N P h t s) = Inr (relink N (P(w := a)) h t s)"
    unfolding u using L [where n = "N w" and p = a] by simp
  show "upd_slot (int w) (\<lambda>v. v\<lparr>w_prev := a, w_next := b\<rparr>) (relink N P h t s) = Inr (relink (N(w := b)) (P(w := a)) h t s)"
    unfolding u sw L by simp
qed

lemma relink_slot: "w < MAX_WINDOW_CNT \<Longrightarrow> slot (int w) (relink N P h t s) = Inr ((windowlist s ! w)\<lparr>w_next := N w, w_prev := P w\<rparr>)"
  by (simp add: slot_def)

lemma wl_ok_links:
  assumes "wl_ok ws s"
  shows "s = relink (nx s) (pv s) (windowlisthead s) (windowlisttail s) s" "links_ok (nx s) (pv s) ws"
    "windowlisthead s = first ws (-1)" "windowlisttail s = lst ws (-1)"
  using assms relink_id [of s] by (auto simp: wl_ok_def)

section \<open>Adding, focusing, removing\<close>

lemma links_push:
  assumes "distinct zs" "set zs \<subseteq> {..<MAX_WINDOW_CNT}" "dseg N P (-1) zs (-1)" "w \<notin> set zs" "w < MAX_WINDOW_CNT"
    and "\<forall>i < MAX_WINDOW_CNT. i \<notin> set zs \<and> i \<noteq> w \<longrightarrow> N i = int i \<and> P i = int i"
  shows "links_ok (link_next zs (int w) (N(w := -1))) (P(w := lst zs (-1))) (zs @ [w])"
  using assms dseg_push [OF assms(3,1,4), of "-1"] by (auto simp: links_ok_def link_next_other)

lemma ends_less: "set zs \<subseteq> {..<n} \<Longrightarrow> zs \<noteq> [] \<Longrightarrow> hd zs < n \<and> last zs < n"
  by (metis hd_in_set last_in_set lessThan_iff subsetD)

lemma add_effect:
  assumes "set zs \<subseteq> {..<MAX_WINDOW_CNT}" "w < MAX_WINDOW_CNT" "w \<notin> set zs" "t = lst zs (-1)"
  shows "addToWindowList (int w) (relink N P h t s) =
    Inr (relink (link_next zs (int w) (N(w := -1))) (P(w := lst zs (-1))) h (int w) s)"
proof (cases "zs = []")
  case True
  then show ?thesis using assms by (simp add: addToWindowList_def relink_upd link_next_def)
next
  case False
  then have l: "lst zs (-1) = int (last zs)" "last zs < MAX_WINDOW_CNT" using ends_less [OF assms(1)] by (auto simp: lst_def)
  have t: "windowlisttail (relink N' P' h t s) = int (last zs)" for N' P' using l assms(4) by simp
  show ?thesis using False assms(2,4) l
    by (simp add: addToWindowList_def relink_upd link_next_def)
qed

lemma remove_split: "w \<in> set ws \<Longrightarrow> \<exists>xs ys. ws = xs @ w # ys \<and> remove1 w ws = xs @ ys"
  by (metis remove1_split)

lemma focus_effect:
  assumes "wl_ok ws s" "w \<in> set ws"
  shows "\<exists>N P h t. focusWindow (int w) s = Inr (relink N P h t s) \<and> wl_ok (remove1 w ws @ [w]) (relink N P h t s)"
proof (cases "int w = windowlisttail s")
  case True
  then obtain us where us: "ws = us @ [w]" using assms by (cases ws rule: rev_cases) (auto simp: wl_ok_def)
  moreover have "distinct ws" using assms(1) by (simp add: wl_ok_def links_ok_def)
  ultimately have "remove1 w ws @ [w] = ws" by (simp add: remove1_append)
  then show ?thesis using assms(1) True relink_id [of s] unfolding focusWindow_def by (metis wl_ok_def)
next
  case False
  note L = wl_ok_links [OF assms(1)]
  obtain xs ys where ws: "ws = xs @ w # ys" "remove1 w ws = xs @ ys" using remove_split [OF assms(2)] by blast
  have ys: "ys \<noteq> []" using False L(4) ws(1) by (cases ys) auto
  have d: "distinct ws" "set ws \<subseteq> {..<MAX_WINDOW_CNT}" "dseg (nx s) (pv s) (-1) ws (-1)"
      "\<forall>i < MAX_WINDOW_CNT. i \<notin> set ws \<longrightarrow> nx s i = int i \<and> pv s i = int i"
    using L(2) by (auto simp: links_ok_def)
  have w: "w < MAX_WINDOW_CNT" "hd ys < MAX_WINDOW_CNT" "xs \<noteq> [] \<Longrightarrow> last xs < MAX_WINDOW_CNT"
    using d(2) ws(1) ys ends_less [of ys] ends_less [of xs] by auto
  have nw: "nx s w = int (hd ys)" "pv s w = lst xs (-1)" using d(3) ws(1) ys by (auto simp: dseg_append first_def)
  define N P where "N = link_next xs (int (hd ys)) (nx s)" and "P = link_prev ys (lst xs (-1)) (pv s)"
  have seg: "dseg N P (-1) (xs @ ys) (-1)"
    using dseg_unlink [of "nx s" "pv s" "-1" xs w ys "-1"] d(1,3) ws(1) ys by (simp add: N_def P_def first_def)
  define h where "h = first (xs @ ys) (-1)"
  have mid: "focusWindow (int w) s = addToWindowList (int w) (relink N P h (windowlisttail s) s)"
  proof (cases "xs = []")
    case True
    then have hd: "windowlisthead s = int w" using L(3) ws(1) by simp
    have "focusWindow (int w) (relink (nx s) (pv s) (int w) (windowlisttail s) s) =
        addToWindowList (int w) (relink (nx s) ((pv s)(hd ys := -1)) (int (hd ys)) (windowlisttail s) s)"
      using False w nw True by (simp add: focusWindow_def relink_slot relink_upd)
    moreover have "s = relink (nx s) (pv s) (int w) (windowlisttail s) s" using L(1) hd by simp
    ultimately show ?thesis using True ys by (simp add: N_def P_def link_next_def link_prev_def h_def first_def)
  next
    case ne: False
    have hd: "windowlisthead s = int (hd xs)" "hd xs \<noteq> w" using L(3) ws(1) ne d(1) by (auto simp: first_def)
    have "focusWindow (int w) (relink (nx s) (pv s) (int (hd xs)) (windowlisttail s) s) =
        addToWindowList (int w) (relink ((nx s)(last xs := int (hd ys))) ((pv s)(hd ys := int (last xs))) (int (hd xs)) (windowlisttail s) s)"
      using False w nw ne hd by (simp add: focusWindow_def relink_slot relink_upd lst_def)
    moreover have "s = relink (nx s) (pv s) (int (hd xs)) (windowlisttail s) s" using L(1) hd by simp
    ultimately show ?thesis using ne ys by (simp add: N_def P_def link_next_def link_prev_def h_def first_def lst_def)
  qed
  have t: "windowlisttail s = lst (xs @ ys) (-1)" using L(4) ws(1) ys by (simp add: lst_def)
  have sub: "set (xs @ ys) \<subseteq> {..<MAX_WINDOW_CNT}" "distinct (xs @ ys)" "w \<notin> set (xs @ ys)" using d ws(1) by auto
  have free: "\<forall>i < MAX_WINDOW_CNT. i \<notin> set (xs @ ys) \<and> i \<noteq> w \<longrightarrow> N i = int i \<and> P i = int i"
    using d(4) ws(1) by (auto simp: N_def P_def link_next_other link_prev_other)
  note ok = links_push [OF sub(2,1) seg sub(3) w(1) free]
  have "first (xs @ ys @ [w]) (-1) = h" using ys by (cases ys) (simp_all add: h_def)
  then show ?thesis
    using mid add_effect [OF sub(1) w(1) sub(3) t, of N P h s] ok ws(2) by (auto simp: wl_ok_relink)
qed

text \<open>Removing a window that is not the first.\<close>

lemma remove_links:
  assumes "wl_ok ws s" "ws = xs @ w # ys"
  shows "removeFromWindowList (int w) s =
    Inr (relink (link_next xs (first ys (-1)) (nx s)) (link_prev ys (lst xs (-1)) (pv s)) (windowlisthead s) (lst (xs @ ys) (-1)) s)"
proof -
  note L = wl_ok_links [OF assms(1)]
  have d: "distinct ws" "set ws \<subseteq> {..<MAX_WINDOW_CNT}" "dseg (nx s) (pv s) (-1) ws (-1)"
    using L(2) by (auto simp: links_ok_def)
  have w: "w < MAX_WINDOW_CNT" "ys \<noteq> [] \<Longrightarrow> hd ys < MAX_WINDOW_CNT" "xs \<noteq> [] \<Longrightarrow> last xs < MAX_WINDOW_CNT"
    using d(2) assms(2) ends_less [of ys] ends_less [of xs] by auto
  have nw: "nx s w = first ys (-1)" "pv s w = lst xs (-1)" using d(3) assms(2) by (auto simp: dseg_append)
  have tail: "(if ys = [] then lst xs (-1) else windowlisttail s) = lst (xs @ ys) (-1)" "windowlisttail s = int w \<longleftrightarrow> ys = []"
  proof -
    show "(if ys = [] then lst xs (-1) else windowlisttail s) = lst (xs @ ys) (-1)" using L(4) assms(2) by (simp add: lst_def)
    have "last ys \<noteq> w" if "ys \<noteq> []" using that d(1) assms(2) last_in_set [of ys] by auto
    then show "windowlisttail s = int w \<longleftrightarrow> ys = []" using L(4) assms(2) by (simp add: lst_def)
  qed
  have wx: "xs \<noteq> [] \<Longrightarrow> last xs \<noteq> w" using d(1) assms(2) last_in_set [of xs] by auto
  have "removeFromWindowList (int w) (relink (nx s) (pv s) (windowlisthead s) (windowlisttail s) s) =
      Inr (relink (link_next xs (first ys (-1)) (nx s)) (link_prev ys (lst xs (-1)) (pv s)) (windowlisthead s)
        (if ys = [] then lst xs (-1) else windowlisttail s) s)"
    using w nw wx tail(2)
    by (cases "xs = []"; cases "ys = []")
      (simp_all add: removeFromWindowList_def relink_slot relink_upd link_next_def link_prev_def lst_def first_def)
  then show ?thesis using L(1) tail(1) by simp
qed

lemma clear_slot_relink:
  assumes "w < MAX_WINDOW_CNT"
  shows "\<exists>s'. upd_slot (int w) (clear_slot (int w)) (relink N P h t s) = Inr s' \<and>
    length (windowlist s') = MAX_WINDOW_CNT \<and> windowlisthead s' = h \<and> windowlisttail s' = t \<and> desktopId s' = desktopId s \<and>
    (\<forall>i < MAX_WINDOW_CNT. nx s' i = (N(w := int w)) i \<and> pv s' i = (P(w := int w)) i)"
proof -
  let ?s = "relink N P h t s"
  let ?s' = "?s\<lparr>windowlist := (windowlist ?s)[w := clear_slot (int w) (windowlist ?s ! w)]\<rparr>"
  have "upd_slot (int w) (clear_slot (int w)) ?s = Inr ?s'" using assms by (simp add: upd_slot_def)
  moreover have "nx ?s' i = (N(w := int w)) i \<and> pv ?s' i = (P(w := int w)) i" if "i < MAX_WINDOW_CNT" for i
    using that assms by (cases "i = w") (auto simp: nx_def pv_def clear_slot_def)
  ultimately show ?thesis by auto
qed

lemma close_effect:
  assumes "wl_ok ws s" "ws = xs @ w # ys" "u_handler u = int w"
  shows "\<exists>s'. close_window u s = Inr (0, u\<lparr>u_handler := -1\<rparr>, s') \<and> length (windowlist s') = MAX_WINDOW_CNT \<and>
    windowlisthead s' = windowlisthead s \<and> windowlisttail s' = lst (xs @ ys) (-1) \<and> links_ok (nx s') (pv s') (xs @ ys) \<and>
    nx s' w = int w \<and> desktopId s' = desktopId s"
proof -
  define N P where "N = link_next xs (first ys (-1)) (nx s)" and "P = link_prev ys (lst xs (-1)) (pv s)"
  have L: "distinct ws" "set ws \<subseteq> {..<MAX_WINDOW_CNT}" "dseg (nx s) (pv s) (-1) ws (-1)"
      "\<forall>i < MAX_WINDOW_CNT. i \<notin> set ws \<longrightarrow> nx s i = int i \<and> pv s i = int i"
    using assms(1) by (auto simp: wl_ok_def links_ok_def)
  have w: "w < MAX_WINDOW_CNT" using L(2) assms(2) by auto
  have r: "removeFromWindowList (int w) s = Inr (relink N P (windowlisthead s) (lst (xs @ ys) (-1)) s)"
    using remove_links [OF assms(1,2)] by (simp add: N_def P_def)
  obtain s' where s': "upd_slot (int w) (clear_slot (int w)) (relink N P (windowlisthead s) (lst (xs @ ys) (-1)) s) = Inr s'"
      "length (windowlist s') = MAX_WINDOW_CNT" "windowlisthead s' = windowlisthead s" "windowlisttail s' = lst (xs @ ys) (-1)"
      "desktopId s' = desktopId s" "\<forall>i < MAX_WINDOW_CNT. nx s' i = (N(w := int w)) i \<and> pv s' i = (P(w := int w)) i"
    using clear_slot_relink [OF w] by blast
  have nt: "int w \<noteq> windowlisttail s'"
  proof
    assume "int w = windowlisttail s'"
    then have "w \<in> set (xs @ ys)" using s'(4) last_in_set [of "xs @ ys"] by (auto simp: lst_def simp del: last_in_set split: if_splits)
    then show False using L(1) assms(2) by auto
  qed
  have seg: "dseg N P (-1) (xs @ ys) (-1)"
    using dseg_unlink [of "nx s" "pv s" "-1" xs w ys "-1"] L(1,3) assms(2) by (simp add: N_def P_def)
  have "dseg (N(w := int w)) (P(w := int w)) (-1) (xs @ ys) (-1)"
    using seg by (subst dseg_cong [where N = N and P = P]) (use L(1) assms(2) in auto)
  then have "links_ok (N(w := int w)) (P(w := int w)) (xs @ ys)"
    using L assms(2) by (auto simp: links_ok_def N_def P_def link_next_other link_prev_other)
  then have "links_ok (nx s') (pv s') (xs @ ys)" using s'(6) links_ok_cong [of "nx s'" "N(w := int w)" "pv s'" "P(w := int w)"] by simp
  moreover have "close_window u s = Inr (0, u\<lparr>u_handler := -1\<rparr>, s')"
    unfolding close_window_def Let_def assms(3) r using s'(1) nt by simp
  ultimately show ?thesis using s' w by auto
qed

lemma slot_less: "w < MAX_WINDOW_CNT \<Longrightarrow> slot (int w) s = Inr (windowlist s ! w)"
  by (simp add: slot_def)

text \<open>A walk visits the windows of the list, and one that meets a removed entry never ends.\<close>

lemma walk_list:
  "dseg (nx s) P a ws (-1) \<Longrightarrow> set ws \<subseteq> {..<MAX_WINDOW_CNT} \<Longrightarrow> walk s (first ws (-1)) acc = Some (Inr (acc @ map int ws))"
proof (induction ws arbitrary: a acc)
  case Nil
  then show ?case by (subst walk.simps) simp
next
  case (Cons w ws)
  have "walk s (first ws (-1)) (acc @ [int w]) = Some (Inr ((acc @ [int w]) @ map int ws))"
    by (rule Cons.IH [of "int w"]) (use Cons.prems in auto)
  moreover have "w < MAX_WINDOW_CNT" "nx s w = first ws (-1)" using Cons.prems by auto
  ultimately show ?case by (subst walk.simps) (simp add: slot_less nx_def)
qed

lemma walk_ok: "wl_ok ws s \<Longrightarrow> walk s (windowlisthead s) [] = Some (Inr (map int ws))"
  using walk_list [of s "pv s" "-1" ws "[]"] by (simp add: wl_ok_def links_ok_def)

lemma walk_loops:
  assumes "w < MAX_WINDOW_CNT" "nx s w = int w"
  shows "walk s (int w) acc = None"
proof (rule ccontr)
  assume "walk s (int w) acc \<noteq> None"
  then obtain y where y: "walk s (int w) acc = Some y" by blast
  have "s = s \<longrightarrow> int w \<noteq> int w"
  proof (rule walk.raw_induct [where P = "\<lambda>s' p acc' y'. s' = s \<longrightarrow> p \<noteq> int w", OF _ y])
    fix wk s' p acc' y'
    assume IH: "\<And>a b c d. wk a b c = Some d \<Longrightarrow> a = s \<longrightarrow> b \<noteq> int w"
      and eq: "(if p = -1 then Some (Inr acc') else case slot p s' of Inl e \<Rightarrow> Some (Inl e) | Inr v \<Rightarrow> wk s' (w_next v) (acc' @ [p])) = Some y'"
    show "s' = s \<longrightarrow> p \<noteq> int w"
    proof (intro impI notI)
      assume "s' = s" "p = int w"
      then have "wk s (int w) (acc' @ [p]) = Some y'" using eq assms by (simp add: slot_less nx_def)
      then show False using IH by blast
    qed
  qed
  then show False by simp
qed

section \<open>Creating windows\<close>

lemma find_free:
  assumes "wl_ok ws s"
  shows "if length ws < MAX_WINDOW_CNT
    then \<exists>w < MAX_WINDOW_CNT. w \<notin> set ws \<and> (\<forall>i < w. i \<in> set ws) \<and> findNextAvailableWindowId s = int w
    else findNextAvailableWindowId s = -1"
proof -
  have L: "distinct ws" "set ws \<subseteq> {..<MAX_WINDOW_CNT}" "dseg (nx s) (pv s) (-1) ws (-1)"
      "\<forall>i < MAX_WINDOW_CNT. i \<notin> set ws \<longrightarrow> nx s i = int i \<and> pv s i = int i"
    using assms by (auto simp: wl_ok_def links_ok_def)
  have used: "\<not> (pv s i = int i \<and> nx s i = int i)" if mem: "i \<in> set ws" for i
  proof
    assume i: "pv s i = int i \<and> nx s i = int i"
    obtain xs ys where ws: "ws = xs @ i # ys" using split_list [OF mem] by blast
    then have "nx s i = first ys (-1)" using L(3) by (simp add: dseg_append)
    then have "ys \<noteq> []" "hd ys = i" using i by (auto simp: first_def split: if_splits)
    then show False using L(1) ws by (cases ys) auto
  qed
  then have f: "(\<lambda>i. w_prev (windowlist s ! i) = int i \<and> w_next (windowlist s ! i) = int i) i \<longleftrightarrow> i \<notin> set ws" if "i < MAX_WINDOW_CNT" for i
    using that L(4) by (auto simp: nx_def pv_def)
  let ?f = "find (\<lambda>i. i \<notin> set ws) [0..<MAX_WINDOW_CNT]"
  have "find (\<lambda>i. w_prev (windowlist s ! i) = int i \<and> w_next (windowlist s ! i) = int i) [0..<MAX_WINDOW_CNT] = ?f"
    by (rule find_cong [OF refl]) (use f in auto)
  then have ff: "findNextAvailableWindowId s = (case ?f of None \<Rightarrow> -1 | Some i \<Rightarrow> int i)"
    by (simp only: findNextAvailableWindowId_def)
  show ?thesis
  proof (cases ?f)
    case None
    then have "{..<MAX_WINDOW_CNT} \<subseteq> set ws" by (auto simp: find_None_iff)
    then have "MAX_WINDOW_CNT \<le> length ws" using card_mono [of "set ws" "{..<MAX_WINDOW_CNT}"] distinct_card [OF L(1)] by simp
    then show ?thesis using None ff by simp
  next
    case (Some w)
    then have w: "w < MAX_WINDOW_CNT" "w \<notin> set ws" "\<forall>i < w. i \<in> set ws" by (auto simp: find_Some_iff)
    have "card (set ws) < MAX_WINDOW_CNT"
      using psubset_card_mono [of "{..<MAX_WINDOW_CNT}" "set ws"] L(2) w by auto
    then show ?thesis using Some w ff distinct_card [OF L(1)] by auto
  qed
qed

text \<open>Changing a window but not its links.\<close>

definition keeps_links :: "(wslot \<Rightarrow> wslot) \<Rightarrow> bool" where
  "keeps_links f \<longleftrightarrow> (\<forall>v. w_next (f v) = w_next v \<and> w_prev (f v) = w_prev v)"

lemma upd_slot_less:
  "w < MAX_WINDOW_CNT \<Longrightarrow> upd_slot (int w) f s = Inr (s\<lparr>windowlist := (windowlist s)[w := f (windowlist s ! w)]\<rparr>)"
  by (simp add: upd_slot_def)

lemma wl_ok_upd:
  assumes "wl_ok ws s" "keeps_links f" "w < MAX_WINDOW_CNT"
  shows "wl_ok ws (s\<lparr>windowlist := (windowlist s)[w := f (windowlist s ! w)]\<rparr>)" (is "wl_ok ws ?s")
proof -
  have "nx ?s i = nx s i \<and> pv ?s i = pv s i" if "i < MAX_WINDOW_CNT" for i
    using that assms by (auto simp: nx_def pv_def wl_ok_def keeps_links_def nth_list_update)
  then have "links_ok (nx ?s) (pv ?s) ws = links_ok (nx s) (pv s) ws" by (rule links_ok_cong)
  then show ?thesis using assms(1) by (simp add: wl_ok_def)
qed

lemma keeps_links_simps [simp]:
  "keeps_links (new_window me u title s)" "keeps_links (set_minimized b)" "keeps_links (\<lambda>w. w\<lparr>wnd := g w\<rparr>)"
  "keeps_links (\<lambda>w. if c w then w\<lparr>wnd := g w\<rparr> else w)"
  by (simp_all add: keeps_links_def new_window_def set_minimized_def)

lemma wl_ok_fields:
  assumes "wl_ok ws s" "windowlist s' = windowlist s" "windowlisthead s' = windowlisthead s" "windowlisttail s' = windowlisttail s"
  shows "wl_ok ws s'"
  using assms by (simp add: wl_ok_def nx_def [abs_def] pv_def [abs_def])

lemma create_effect:
  assumes "wl_ok ws s" "length ws < MAX_WINDOW_CNT"
  shows "\<exists>w s'. w < MAX_WINDOW_CNT \<and> w \<notin> set ws \<and> (\<forall>i < w. i \<in> set ws) \<and>
    create_window me u title s = Inr (0, u\<lparr>u_handler := int w\<rparr>, s') \<and> wl_ok (ws @ [w]) s' \<and>
    desktopId s' = (if desktopId s = -1 then int w else desktopId s)"
proof -
  note L = wl_ok_links [OF assms(1)]
  obtain w where w: "w < MAX_WINDOW_CNT" "w \<notin> set ws" "\<forall>i < w. i \<in> set ws" "findNextAvailableWindowId s = int w"
    using find_free [OF assms(1)] assms(2) by auto
  define h where "h = first (ws @ [w]) (-1)"
  define s1 where "s1 = relink (link_next ws (int w) ((nx s)(w := -1))) ((pv s)(w := lst ws (-1))) h (int w) s"
  have d: "distinct ws" "set ws \<subseteq> {..<MAX_WINDOW_CNT}" "dseg (nx s) (pv s) (-1) ws (-1)"
      "\<forall>i < MAX_WINDOW_CNT. i \<notin> set ws \<longrightarrow> nx s i = int i \<and> pv s i = int i"
    using L(2) by (auto simp: links_ok_def)
  have hd: "(if windowlisthead s = -1 then s\<lparr>windowlisthead := int w\<rparr> else s) = relink (nx s) (pv s) h (windowlisttail s) s"
  proof (cases "ws = []")
    case True
    then have "windowlisthead s = -1" using L(3) by simp
    moreover have "s\<lparr>windowlisthead := int w\<rparr> = relink (nx s) (pv s) (int w) (windowlisttail s) s"
      by (rule trans [OF arg_cong [OF L(1), of "\<lambda>x. x\<lparr>windowlisthead := int w\<rparr>"]]) simp
    ultimately show ?thesis using True by (simp add: h_def)
  next
    case False
    then have "windowlisthead s = h" "h \<noteq> -1" using L(3) by (auto simp: h_def first_def)
    then show ?thesis using L(1) by simp
  qed
  have "addToWindowList (int w) (relink (nx s) (pv s) h (windowlisttail s) s) = Inr s1"
    unfolding s1_def by (rule add_effect [OF d(2) w(1,2) L(4)])
  then have add: "addToWindowList (int w) (if windowlisthead s = -1 then s\<lparr>windowlisthead := int w\<rparr> else s) = Inr s1" by (simp only: hd)
  have "wl_ok (ws @ [w]) s1" unfolding s1_def wl_ok_relink
    using links_push [OF d(1-3) w(2,1)] d(4) by (simp add: h_def)
  then have ok2: "wl_ok (ws @ [w]) (if desktopId s1 = -1 then s1\<lparr>desktopId := int w\<rparr> else s1)" (is "wl_ok _ ?s2")
    by (auto intro: wl_ok_fields)
  define f where "f = new_window me u title ?s2"
  have ok3: "wl_ok (ws @ [w]) (?s2\<lparr>windowlist := (windowlist ?s2)[w := f (windowlist ?s2 ! w)]\<rparr>)" (is "wl_ok _ ?s3")
    by (rule wl_ok_upd [OF ok2 _ w(1)]) (simp add: f_def)
  have "upd_slot (int w) f ?s2 = Inr ?s3" by (rule upd_slot_less [OF w(1)])
  then have "create_window me u title s = Inr (0, u\<lparr>u_handler := int w\<rparr>, ?s3)"
    unfolding create_window_def Let_def w(4) add by (simp add: add f_def)
  moreover have "desktopId ?s3 = (if desktopId s = -1 then int w else desktopId s)" by (simp add: s1_def)
  ultimately show ?thesis using w ok3 by blast
qed

section \<open>Message queues are bounded queues\<close>

definition mb_ok :: "msg_buf \<Rightarrow> bool" where
  "mb_ok b \<longleftrightarrow> length (mb_data b) = MSG_BUF_SIZE \<and> mb_front b < MSG_BUF_SIZE \<and> mb_cnt b \<le> MSG_BUF_SIZE \<and>
     mb_rear b = (mb_front b + mb_cnt b) mod MSG_BUF_SIZE"

definition mb_queue :: "msg_buf \<Rightarrow> message list" where
  "mb_queue b = map (\<lambda>k. mb_data b ! ((mb_front b + k) mod MSG_BUF_SIZE)) [0..<mb_cnt b]"

lemma MSG_BUF_SIZE_pos: "0 < MSG_BUF_SIZE" by (simp add: MSG_BUF_SIZE_def)

lemma next_index: "i < n \<Longrightarrow> (if i + 1 \<ge> n then 0 else i + 1) = (i + 1) mod n" for i n :: nat
  by (cases "Suc i = n") auto

lemma mb_put_ok:
  assumes "mb_ok b" "mb_cnt b < MSG_BUF_SIZE"
  shows "mb_ok (mb_put m b)" "mb_queue (mb_put m b) = mb_queue b @ [m]"
proof -
  have r: "mb_rear b < MSG_BUF_SIZE" "mb_rear b = (mb_front b + mb_cnt b) mod MSG_BUF_SIZE"
    using assms(1) MSG_BUF_SIZE_pos by (auto simp: mb_ok_def)
  have "(mb_rear b + 1) mod MSG_BUF_SIZE = (mb_front b + (mb_cnt b + 1)) mod MSG_BUF_SIZE"
    unfolding r(2) by (simp add: mod_Suc_eq)
  then show "mb_ok (mb_put m b)" using assms r(1) next_index [of "mb_rear b" MSG_BUF_SIZE] by (simp add: mb_ok_def mb_put_def)
  have "(mb_data b)[mb_rear b := m] ! ((mb_front b + k) mod MSG_BUF_SIZE) = mb_data b ! ((mb_front b + k) mod MSG_BUF_SIZE)" if "k < mb_cnt b" for k
  proof -
    have "(mb_front b + k) mod MSG_BUF_SIZE \<noteq> mb_rear b"
      using ring_distinct [of "mb_cnt b" MSG_BUF_SIZE k "mb_front b"] that assms(2) r(2) by auto
    then show ?thesis by simp
  qed
  moreover have "(mb_data b)[mb_rear b := m] ! ((mb_front b + mb_cnt b) mod MSG_BUF_SIZE) = m"
  proof -
    have "length (mb_data b) = MSG_BUF_SIZE" using assms(1) by (simp add: mb_ok_def)
    then have "(mb_data b)[mb_rear b := m] ! mb_rear b = m" using r(1) by simp
    then show ?thesis using r(2) by metis
  qed
  ultimately show "mb_queue (mb_put m b) = mb_queue b @ [m]" by (simp add: mb_queue_def mb_put_def)
qed

lemma mb_get_ok:
  assumes "mb_ok b" "mb_cnt b \<noteq> 0"
  shows "mb_ok (snd (mb_get b))" "mb_queue b = fst (mb_get b) # mb_queue (snd (mb_get b))"
proof -
  have f: "mb_front b < MSG_BUF_SIZE" "mb_rear b = (mb_front b + mb_cnt b) mod MSG_BUF_SIZE" using assms(1) by (auto simp: mb_ok_def)
  have e: "(Suc (mb_front b) mod MSG_BUF_SIZE + k) mod MSG_BUF_SIZE = Suc (mb_front b + k) mod MSG_BUF_SIZE" for k
    by (simp add: mod_add_left_eq)
  obtain n where n: "mb_cnt b = Suc n" using assms(2) by (cases "mb_cnt b") auto
  show "mb_ok (snd (mb_get b))"
    using assms n f next_index [OF f(1)] e [of n] MSG_BUF_SIZE_pos by (simp add: mb_ok_def mb_get_def)
  have "mb_queue b = mb_data b ! ((mb_front b + 0) mod MSG_BUF_SIZE) # map (\<lambda>k. mb_data b ! ((mb_front b + Suc k) mod MSG_BUF_SIZE)) [0..<n]"
    unfolding mb_queue_def n map_upt_Suc by simp
  then show "mb_queue b = fst (mb_get b) # mb_queue (snd (mb_get b))"
    using f n next_index [OF f(1)] by (simp add: mb_get_def mb_queue_def e)
qed

interpretation mq: bounded_fifo "\<lambda>b. mb_cnt b \<ge> MSG_BUF_SIZE" "\<lambda>b. mb_cnt b = 0" mb_put mb_get mb_ok mb_queue MSG_BUF_SIZE
proof unfold_locales
  fix b assume ok: "mb_ok b"
  show "MSG_BUF_SIZE \<le> mb_cnt b \<longleftrightarrow> length (mb_queue b) = MSG_BUF_SIZE" using ok by (auto simp: mb_ok_def mb_queue_def)
  show "mb_cnt b = 0 \<longleftrightarrow> mb_queue b = []" by (auto simp: mb_queue_def)
  show "length (mb_queue b) \<le> MSG_BUF_SIZE" using ok by (simp add: mb_ok_def mb_queue_def)
  show "\<not> MSG_BUF_SIZE \<le> mb_cnt b \<Longrightarrow> mb_ok (mb_put m b) \<and> mb_queue (mb_put m b) = mb_queue b @ [m]" for m
    using mb_put_ok [OF ok] by simp
  show "mb_cnt b \<noteq> 0 \<Longrightarrow> mb_ok (snd (mb_get b)) \<and> mb_queue b = fst (mb_get b) # mb_queue (snd (mb_get b))"
    using mb_get_ok [OF ok] by simp
qed

text \<open>A run of \<open>dispatchMessage\<close> and \<open>getMessage\<close> calls: the queue at the end, the messages taken in, and those handed out.\<close>

fun msg_run :: "message fop list \<Rightarrow> msg_buf \<Rightarrow> msg_buf \<times> message list \<times> message list" where
  "msg_run [] b = (b, [], [])"
| "msg_run (Put m # ops) b =
     (case dispatchMessage b m of (r, b') \<Rightarrow>
        case msg_run ops b' of (b'', i, out) \<Rightarrow> (b'', if r = 0 then m # i else i, out))"
| "msg_run (Get # ops) b =
     (case getMessage b of (r, m, b') \<Rightarrow>
        case msg_run ops b' of (b'', i, out) \<Rightarrow> (b'', i, case m of None \<Rightarrow> out | Some m \<Rightarrow> m # out))"

lemma msg_run_eq: "msg_run ops b = mq.run ops b"
proof (induction ops arbitrary: b)
  case (Cons op ops)
  then show ?case by (cases op) (auto simp: dispatchMessage_def getMessage_def split: prod.splits)
qed simp

text \<open>The messages a window receives are the messages dispatched to it, in order: a window's queue delivers a prefix of
  what it accepted, what is still queued follows, and it refuses a message only while it holds fifty.\<close>

theorem message_queue_fifo:
  assumes "mb_ok b" "msg_run ops b = (b', accepted, delivered)"
  shows "mb_ok b' \<and> mb_queue b @ accepted = delivered @ mb_queue b' \<and>
    (fst (dispatchMessage b' m) \<noteq> 0 \<longleftrightarrow> length (mb_queue b') = MSG_BUF_SIZE)"
  using mq.run_fifo [of b ops b' accepted delivered] mq.full_iff [of b'] assms
  by (auto simp: msg_run_eq dispatchMessage_def)

section \<open>Every message is handled\<close>

text \<open>What the list operations keep: the pointer, the screen and the desktop; and the outcome the handler promises.\<close>

definition wkeep :: "wm \<Rightarrow> wm \<Rightarrow> bool" where
  "wkeep s s' \<longleftrightarrow> desktopId s' = desktopId s \<and> mouse_x s' = mouse_x s \<and> mouse_y s' = mouse_y s \<and>
     SCREEN_WIDTH s' = SCREEN_WIDTH s \<and> SCREEN_HEIGHT s' = SCREEN_HEIGHT s"

definition good :: "nat list \<Rightarrow> wm \<Rightarrow> wm res \<Rightarrow> bool" where
  "good ws s r \<longleftrightarrow> (\<exists>s' ws'. r = Inr s' \<and> set ws' = set ws \<and> wl_ok ws' s' \<and> wkeep s s')"

lemma wkeep_trans: "wkeep s s' \<Longrightarrow> wkeep s' s'' \<Longrightarrow> wkeep s s''"
  by (simp add: wkeep_def)

lemma good_Inr: "wl_ok ws s' \<Longrightarrow> wkeep s s' \<Longrightarrow> good ws s (Inr s')"
  by (auto simp: good_def)

lemma good_bind:
  assumes "good ws s r" "\<And>s' ws'. set ws' = set ws \<Longrightarrow> wl_ok ws' s' \<Longrightarrow> wkeep s s' \<Longrightarrow> good ws' s' (f s')"
  shows "good ws s (res_bind r f)"
proof -
  obtain s1 ws1 where 1: "r = Inr s1" "set ws1 = set ws" "wl_ok ws1 s1" "wkeep s s1" using assms(1) by (auto simp: good_def)
  from assms(2) [OF 1(2-4)] show ?thesis using 1 by (auto simp: good_def intro: wkeep_trans)
qed

lemma good_from:
  assumes "good ws s1 r" "wkeep s s1"
  shows "good ws s r"
  using assms unfolding good_def by (blast intro: wkeep_trans)

lemma wl_ok_less: "wl_ok ws s \<Longrightarrow> w \<in> set ws \<Longrightarrow> w < MAX_WINDOW_CNT"
  by (auto simp: wl_ok_def links_ok_def)

lemma good_upd:
  assumes "wl_ok ws s" "keeps_links f" "w \<in> set ws"
  shows "good ws s (upd_slot (int w) f s)"
  unfolding upd_slot_less [OF wl_ok_less [OF assms(1,3)]]
  using wl_ok_upd [OF assms(1,2) wl_ok_less [OF assms(1,3)]] by (intro good_Inr) (auto simp: wkeep_def)

lemma good_dispatch: "wl_ok ws s \<Longrightarrow> w \<in> set ws \<Longrightarrow> good ws s (dispatch_to (int w) m s)"
  unfolding dispatch_to_def by (rule good_upd) auto

lemma good_focus:
  assumes "wl_ok ws s" "w \<in> set ws"
  shows "good ws s (focusWindow (int w) s)"
proof -
  obtain N P h t where f: "focusWindow (int w) s = Inr (relink N P h t s)" "wl_ok (remove1 w ws @ [w]) (relink N P h t s)"
    using focus_effect [OF assms] by blast
  have "distinct ws" using assms(1) by (simp add: wl_ok_def links_ok_def)
  then have "set (remove1 w ws @ [w]) = set ws" using assms(2) by (auto simp: set_remove1_eq)
  moreover have "wkeep s (relink N P h t s)" by (simp add: wkeep_def relink_def)
  ultimately show ?thesis using f unfolding good_def by blast
qed

lemma tail_last: "wl_ok ws s \<Longrightarrow> ws \<noteq> [] \<Longrightarrow> windowlisttail s = int (last ws) \<and> last ws \<in> set ws"
  by (simp add: wl_ok_def lst_def)

lemma good_dispatch_focus:
  assumes "wl_ok ws s" "ws \<noteq> []"
  shows "good ws s (dispatch_focus ty s)"
  using tail_last [OF assms] slot_less [OF wl_ok_less [OF assms(1)], of "last ws"] good_dispatch [OF assms(1), of "last ws"]
  by (simp add: dispatch_focus_def)

lemma good_dispatch_all: "wl_ok ws s \<Longrightarrow> set qs \<subseteq> set ws \<Longrightarrow> good ws s (dispatch_all (map int qs) m s)"
proof (induction qs arbitrary: ws s)
  case Nil
  then show ?case by (auto intro: good_Inr simp: wkeep_def)
next
  case (Cons q qs)
  show ?case unfolding list.map dispatch_all.simps
    by (rule good_bind [OF good_dispatch [OF Cons.prems(1)]]) (use Cons in auto)
qed

lemma dock_loop_ends:
  "dseg (nx s) P a ws (-1) \<Longrightarrow> set ws \<subseteq> {..<MAX_WINDOW_CNT} \<Longrightarrow>
    \<exists>r. dock_loop s mx bw (first ws (-1)) x = Some (Inr r) \<and> (\<forall>p. r = Some p \<longrightarrow> p \<in> int ` set ws)"
proof (induction ws arbitrary: a x)
  case Nil
  then show ?case by (subst dock_loop.simps) simp
next
  case (Cons w ws)
  have IH: "\<exists>r. dock_loop s mx bw (first ws (-1)) x' = Some (Inr r) \<and> (\<forall>p. r = Some p \<longrightarrow> p \<in> int ` set ws)" for x'
    using Cons by auto
  have w: "w < MAX_WINDOW_CNT" "w_next (windowlist s ! w) = first ws (-1)" using Cons.prems by (auto simp: nx_def)
  show ?case using IH [of x] IH [of "x + bw"] w by (subst dock_loop.simps) (auto simp: slot_less)
qed

lemma hit_loop_ends:
  "dseg N (pv s) (-1) ws b \<Longrightarrow> set ws \<subseteq> {..<MAX_WINDOW_CNT} \<Longrightarrow>
    \<exists>p. hit_loop s (lst ws (-1)) = Some (Inr p) \<and> (p = -1 \<or> p \<in> int ` set ws)"
proof (induction ws arbitrary: b rule: rev_induct)
  case Nil
  then show ?case by (subst hit_loop.simps) simp
next
  case (snoc w ws)
  have d: "dseg N (pv s) (-1) ws (int w)" using snoc.prems(1) by (simp add: dseg_append)
  have "set ws \<subseteq> {..<MAX_WINDOW_CNT}" using snoc.prems(2) by simp
  then obtain p where IH: "hit_loop s (lst ws (-1)) = Some (Inr p)" "p = -1 \<or> p \<in> int ` set ws"
    using snoc.IH [OF d] by blast
  have w: "w < MAX_WINDOW_CNT" "w_prev (windowlist s ! w) = lst ws (-1)" using snoc.prems by (auto simp: dseg_append pv_def)
  have "hit_loop s (int w) = Some (Inr (int w)) \<or> hit_loop s (int w) = hit_loop s (lst ws (-1))"
    using w by (subst (1 2) hit_loop.simps) (simp add: slot_less)
  then show ?case using IH by auto
qed

text \<open>The state with the desktop among its windows.\<close>

definition wm_ok :: "nat list \<Rightarrow> wm \<Rightarrow> bool" where
  "wm_ok ws s \<longleftrightarrow> wl_ok ws s \<and> desktopId s \<in> int ` set ws"

definition ro_good :: "nat list \<Rightarrow> wm \<Rightarrow> wm res option \<Rightarrow> bool" where
  "ro_good ws s r \<longleftrightarrow> (\<exists>r'. r = Some r' \<and> good ws s r')"

lemma ro_good_Some [simp]: "ro_good ws s (Some r) = good ws s r"
  by (simp add: ro_good_def)

lemma ro_good_bind:
  assumes "ro_good ws s r" "\<And>s' ws'. set ws' = set ws \<Longrightarrow> wl_ok ws' s' \<Longrightarrow> wkeep s s' \<Longrightarrow> ro_good ws' s' (f s')"
  shows "ro_good ws s (ro_bind r f)"
proof -
  obtain s1 ws1 where 1: "r = Some (Inr s1)" "set ws1 = set ws" "wl_ok ws1 s1" "wkeep s s1"
    using assms(1) by (auto simp: ro_good_def good_def)
  from assms(2) [OF 1(2-4)] show ?thesis using 1 by (auto simp: ro_good_def good_def ro_bind_def intro: wkeep_trans)
qed

lemma wm_ok_keep: "wm_ok ws s \<Longrightarrow> set ws' = set ws \<Longrightarrow> wl_ok ws' s' \<Longrightarrow> wkeep s s' \<Longrightarrow> wm_ok ws' s'"
  by (simp add: wm_ok_def wkeep_def)

lemma wm_ok_ne: "wm_ok ws s \<Longrightarrow> ws \<noteq> []"
  by (auto simp: wm_ok_def)

lemma good_click_bar:
  assumes "wl_ok ws s" "\<forall>p. r = Some p \<longrightarrow> p \<in> int ` set ws"
  shows "good ws s (click_bar r s)"
proof (cases r)
  case None
  then show ?thesis using assms(1) by (auto simp: click_bar_def wkeep_def intro: good_Inr)
next
  case (Some p)
  then obtain w where w: "p = int w" "w \<in> set ws" using assms(2) by auto
  then show ?thesis using good_dispatch [OF assms(1) w(2)] good_focus [OF assms(1) w(2)] slot_less [OF wl_ok_less [OF assms(1) w(2)]]
    by (simp add: click_bar_def Some)
qed

lemma wkeep_refl [simp]: "wkeep s s"
  by (simp add: wkeep_def)

lemma dock_bar_good:
  assumes "wl_ok ws s"
  shows "ro_good ws s (ro_bind (dock_loop s mx bw (windowlisthead s) x) (\<lambda>r. Some (click_bar r s)))"
proof -
  have "dseg (nx s) (pv s) (-1) ws (-1)" "set ws \<subseteq> {..<MAX_WINDOW_CNT}" "windowlisthead s = first ws (-1)"
    using assms by (auto simp: wl_ok_def links_ok_def)
  then obtain r where "dock_loop s mx bw (windowlisthead s) x = Some (Inr r)" "\<forall>p. r = Some p \<longrightarrow> p \<in> int ` set ws"
    using dock_loop_ends [of s "pv s" "-1" ws mx bw x] by auto
  then show ?thesis using good_click_bar [OF assms] by (simp add: ro_bind_def)
qed

lemma walk_dispatch_good:
  assumes "wl_ok ws s"
  shows "ro_good ws s (ro_bind (walk s (windowlisthead s) []) (\<lambda>qs. Some (dispatch_all (filter Q qs) m s)))"
proof -
  have "filter Q (map int ws) = map int (filter (\<lambda>w. Q (int w)) ws)" by (simp add: filter_map comp_def)
  then show ?thesis using walk_ok [OF assms] good_dispatch_all [OF assms, of "filter (\<lambda>w. Q (int w)) ws" m] by (simp add: ro_bind_def)
qed

lemma dock_click_good:
  assumes "wm_ok ws s"
  shows "ro_good ws s (handleDesktopDockClick mx msg s)"
proof -
  have ok: "wl_ok ws s" using assms by (simp add: wm_ok_def)
  obtain n where n: "getWindowCount s = Some (Inr n)" using walk_ok [OF ok] by (simp add: getWindowCount_def ro_bind_def)
  have b: "ro_bind (Some (Inr n)) f = f n" for f :: "int \<Rightarrow> wm res option" by (simp add: ro_bind_def)
  show ?thesis unfolding handleDesktopDockClick_def n b
  proof (rule ro_good_bind, goal_cases)
    case 1
    show ?case using dock_bar_good [OF ok] ok by (simp add: Let_def good_Inr)
  next
    case (2 s1 ws1)
    note d1 = wm_ok_keep [OF assms 2]
    show ?case
    proof (rule ro_good_bind, goal_cases)
      case 1
      show ?case using walk_dispatch_good [OF 2(2)] 2(2) by (simp add: good_Inr)
    next
      case (2 s2 ws2)
      then have "wm_ok ws2 s2" using wm_ok_keep [OF d1] by blast
      then obtain w where "desktopId s2 = int w" "w \<in> set ws2" by (auto simp: wm_ok_def)
      then show ?case using good_dispatch [OF 2(2)] 2(2) by (simp add: good_Inr)
    qed
  qed
qed

lemma good_click_window:
  assumes "wl_ok ws s" "ws \<noteq> []"
  shows "good ws s (click_window msg s)"
proof -
  note t = tail_last [OF assms]
  have sl: "slot (int (last ws)) s = Inr (windowlist s ! last ws)" using slot_less wl_ok_less [OF assms(1)] t by blast
  have d: "good ws s (dispatch_to (int (last ws)) m s)" for m using good_dispatch [OF assms(1)] t by blast
  have k: "wl_ok ws (s\<lparr>clickedOnTitle := True\<rparr>)" "wkeep s (s\<lparr>clickedOnTitle := True\<rparr>)"
    using assms(1) by (auto simp: wkeep_def intro: wl_ok_fields)
  have snd: "good ws' s' (dispatch_to (windowlisttail s') m (s'\<lparr>clickedOnContent := True\<rparr>))" if "wl_ok ws' s'" "set ws' = set ws" for ws' s' m
  proof -
    have k: "wl_ok ws' (s'\<lparr>clickedOnContent := True\<rparr>)" using that(1) by (auto intro: wl_ok_fields)
    have "ws' \<noteq> []" using that(2) assms(2) by auto
    then show ?thesis using tail_last [OF that(1)] good_dispatch [OF k, of "last ws'" m]
      by (auto intro: good_from simp: wkeep_def)
  qed
  show ?thesis
    unfolding click_window_def conjunct1 [OF t] sl res_bind.simps Let_def
    by (rule good_bind) (use d k snd assms(1) in \<open>auto intro: good_Inr\<close>)
qed

lemma mouse_down_good:
  assumes "wm_ok ws s"
  shows "ro_good ws s (mouse_down msg s)"
proof -
  define s1 where "s1 = dispatch_popup \<lparr>msg_type = WM_WINDOW_CLOSE, params = []\<rparr> s"
  have f: "windowlist s1 = windowlist s" "windowlisthead s1 = windowlisthead s" "windowlisttail s1 = windowlisttail s" "wkeep s s1"
    by (simp_all add: s1_def dispatch_popup_def wkeep_def)
  have ok: "wl_ok ws s" "wl_ok ws s1" using assms f wl_ok_fields [of ws s s1] by (auto simp: wm_ok_def)
  have pop: "good ws s (Inr (s\<lparr>clickedOnPopup := True\<rparr>))"
    using ok(1) by (intro good_Inr) (auto simp: wkeep_def intro: wl_ok_fields)
  have dl: "dseg (nx s1) (pv s1) (-1) ws (-1)" "set ws \<subseteq> {..<MAX_WINDOW_CNT}" "windowlisttail s1 = lst ws (-1)"
    using ok(2) by (auto simp: wl_ok_def links_ok_def)
  then obtain p where p: "hit_loop s1 (windowlisttail s1) = Some (Inr p)" "p = -1 \<or> p \<in> int ` set ws"
    using hit_loop_ends [of "nx s1" s1 ws "-1"] by auto
  obtain w where w: "(if p = -1 then desktopId s1 else p) = int w" "w \<in> set ws"
    using p(2) assms f(4) by (auto simp: wm_ok_def wkeep_def)
  have "good ws s1 (res_bind (focusWindow (int w) s1) (click_window msg))"
  proof (rule good_bind [OF good_focus [OF ok(2) w(2)]])
    fix s' ws' assume *: "set ws' = set ws" "wl_ok ws' s'"
    then have "ws' \<noteq> []" using wm_ok_ne [OF assms] by auto
    then show "good ws' s' (click_window msg s')" using good_click_window [OF *(2)] by blast
  qed
  then have "good ws s (res_bind (focusWindow (int w) s1) (click_window msg))" by (rule good_from [OF _ f(4)])
  then show ?thesis using pop unfolding mouse_down_def Let_def s1_def [symmetric] p(1) ro_bind_def option.case sum.case w(1) by simp
qed

lemma good_mouse_up:
  assumes "wl_ok ws s" "ws \<noteq> []"
  shows "good ws s (mouse_up msg s)"
proof -
  let ?s = "s\<lparr>clickedOnPopup := False\<rparr>"
  have k: "wl_ok ws (?s\<lparr>clickedOnContent := False\<rparr>)" "wl_ok ws ?s" using assms(1) by (auto intro: wl_ok_fields)
  have "good ws ?s (if clickedOnContent ?s then dispatch_focus (msg_type msg) (?s\<lparr>clickedOnContent := False\<rparr>) else Inr ?s)"
  proof (cases "clickedOnContent ?s")
    case True
    have "good ws ?s (dispatch_focus (msg_type msg) (?s\<lparr>clickedOnContent := False\<rparr>))"
      by (rule good_from [OF good_dispatch_focus [OF k(1) assms(2)]]) (simp add: wkeep_def)
    then show ?thesis using True by simp
  qed (use k in \<open>simp add: good_Inr\<close>)
  then have "good ws ?s (mouse_up msg s)" unfolding mouse_up_def Let_def
    by (rule good_bind) (auto simp: wkeep_def intro!: good_Inr intro: wl_ok_fields)
  then show ?thesis by (rule good_from) (simp add: wkeep_def)
qed

lemma mouse_click_good:
  assumes "wm_ok ws s"
  shows "ro_good ws s (mouse_click msg s)"
proof -
  have ok: "wl_ok ws s" using assms by (simp add: wm_ok_def)
  let ?s = "s\<lparr>clickedOnContent := False\<rparr>"
  have c: "wl_ok ws ?s" "wkeep s ?s" "wm_ok ws ?s" using assms by (auto simp: wkeep_def wm_ok_def intro: wl_ok_fields)
  have p: "good ws s (Inr (dispatch_popup m (s\<lparr>clickedOnPopup := False\<rparr>)))" for m
    using ok by (intro good_Inr) (auto simp: wkeep_def dispatch_popup_def intro: wl_ok_fields)
  have f: "good ws s (dispatch_focus ty ?s)" for ty by (rule good_from [OF good_dispatch_focus [OF c(1) wm_ok_ne [OF assms]] c(2)])
  have d: "ro_good ws s (handleDesktopDockClick mx msg ?s)" for mx
    using dock_click_good [OF c(3), of mx msg] good_from [OF _ c(2)] by (auto simp: ro_good_def)
  show ?thesis unfolding mouse_click_def
  proof (rule ro_good_bind, goal_cases)
    case 1
    show ?case using p f d ok by (simp add: Let_def good_Inr)
  next
    case (2 s' ws')
    then have "ws' \<noteq> []" using wm_ok_ne [OF assms] by auto
    then show ?case using good_mouse_up [OF 2(2)] by simp
  qed
qed

text \<open>The pointer is on the screen.\<close>

definition pointer_ok :: "wm \<Rightarrow> bool" where
  "pointer_ok s \<longleftrightarrow> 0 \<le> mouse_x s \<and> mouse_x s \<le> SCREEN_WIDTH s \<and> 0 \<le> mouse_y s \<and> mouse_y s \<le> SCREEN_HEIGHT s"

lemma move_pointer_fields:
  "windowlist (move_pointer m s) = windowlist s" "windowlisthead (move_pointer m s) = windowlisthead s"
  "windowlisttail (move_pointer m s) = windowlisttail s" "desktopId (move_pointer m s) = desktopId s"
  "SCREEN_WIDTH (move_pointer m s) = SCREEN_WIDTH s" "SCREEN_HEIGHT (move_pointer m s) = SCREEN_HEIGHT s"
  by (simp_all add: move_pointer_def Let_def)

lemma move_pointer_ok: "0 \<le> SCREEN_WIDTH s \<Longrightarrow> 0 \<le> SCREEN_HEIGHT s \<Longrightarrow> pointer_ok (move_pointer m s)"
  by (auto simp: move_pointer_def pointer_ok_def Let_def)

lemma good_mouse_move:
  assumes "wm_ok ws s"
  shows "good ws (move_pointer msg s) (mouse_move msg s)"
proof -
  let ?s = "move_pointer msg s"
  have ok: "wl_ok ws ?s" using assms by (auto simp: wm_ok_def move_pointer_fields intro: wl_ok_fields)
  note t = tail_last [OF ok wm_ok_ne [OF assms]]
  have k: "wl_ok ws (?s\<lparr>mouseShape := 1\<rparr>)" "wkeep ?s (?s\<lparr>mouseShape := 1\<rparr>)" using ok by (auto simp: wkeep_def intro: wl_ok_fields)
  have "good ws ?s (moveFocusWindow dx dy (?s\<lparr>mouseShape := 1\<rparr>))" for dx dy
  proof (rule good_from [OF _ k(2)])
    have "windowlisttail (?s\<lparr>mouseShape := 1\<rparr>) = int (last ws)" using t by simp
    then show "good ws (?s\<lparr>mouseShape := 1\<rparr>) (moveFocusWindow dx dy (?s\<lparr>mouseShape := 1\<rparr>))"
      using good_upd [OF k(1) _ conjunct2 [OF t]] by (simp add: moveFocusWindow_def)
  qed
  then show ?thesis using good_dispatch_focus [OF ok wm_ok_ne [OF assms]] ok by (simp add: mouse_move_def Let_def good_Inr)
qed

lemma handles_rest:
  assumes "wm_ok ws s" "msg_type msg \<noteq> M_MOUSE_MOVE"
  shows "ro_good ws s (wmHandleMessage msg s)"
proof -
  have ok: "wl_ok ws s" using assms(1) by (simp add: wm_ok_def)
  note ne = wm_ok_ne [OF assms(1)]
  show ?thesis using assms(2) mouse_down_good [OF assms(1)] mouse_click_good [OF assms(1)] good_mouse_up [OF ok ne]
      good_dispatch [OF ok conjunct2 [OF tail_last [OF ok ne]]] tail_last [OF ok ne] ok
    by (simp add: wmHandleMessage_def good_Inr)
qed

lemma wm_handles:
  assumes "wm_ok ws s" "pointer_ok s"
  shows "\<exists>s' ws'. wmHandleMessage msg s = Some (Inr s') \<and> set ws' = set ws \<and> wm_ok ws' s' \<and> pointer_ok s'"
proof (cases "msg_type msg = M_MOUSE_MOVE")
  case True
  let ?s = "move_pointer msg s"
  have p: "pointer_ok ?s" using assms(2) by (intro move_pointer_ok) (auto simp: pointer_ok_def)
  obtain s' ws' where s': "mouse_move msg s = Inr s'" "set ws' = set ws" "wl_ok ws' s'" "wkeep ?s s'"
    using good_mouse_move [OF assms(1), of msg] by (auto simp: good_def)
  have "wm_ok ws' s'" using s'(2-4) assms(1) by (simp add: wm_ok_def wkeep_def move_pointer_fields)
  moreover have "pointer_ok s'" using p s'(4) by (simp add: pointer_ok_def wkeep_def)
  ultimately show ?thesis using True s' by (auto simp: wmHandleMessage_def)
next
  case False
  obtain s' ws' where s': "wmHandleMessage msg s = Some (Inr s')" "set ws' = set ws" "wl_ok ws' s'" "wkeep s s'"
    using handles_rest [OF assms(1) False] by (auto simp: ro_good_def good_def)
  have "wm_ok ws' s'" using s'(2-4) assms(1) by (simp add: wm_ok_def wkeep_def)
  moreover have "pointer_ok s'" using assms(2) s'(4) by (simp add: pointer_ok_def wkeep_def)
  ultimately show ?thesis using s' by blast
qed

section \<open>The properties of the window manager\<close>

text \<open>C20: With the desktop among the windows, the window manager handles every mouse and keyboard message: all its walks along the
  list end, no access is outside the window table, the same windows are still listed afterwards, with the focused one
  last, and the pointer stays on the screen.\<close>

theorem wm_handles_every_message:
  assumes "wm_ok ws s" "pointer_ok s"
  shows "\<exists>s' ws'. wmHandleMessage msg s = Some (Inr s') \<and> set ws' = set ws \<and> wm_ok ws' s' \<and> pointer_ok s'"
  using assms by (rule wm_handles)

text \<open>C21: The links in the window table implement the drawing order as a list: creating a window appends the lowest free number, or
  fails without a change when there are fifty; maximizing a window brings it to the end; closing a window other
  than the first removes it; and the desktop's process draws the desktop and then the windows in list order.\<close>

theorem window_order_refinement:
  assumes "wl_ok ws s"
  shows "(if length ws < MAX_WINDOW_CNT
      then \<exists>w s'. w \<notin> set ws \<and> (\<forall>i < w. i \<in> set ws) \<and> create_window me u title s = Inr (0, u\<lparr>u_handler := int w\<rparr>, s') \<and> wl_ok (ws @ [w]) s'
      else create_window me u title s = Inr (1, u, s)) \<and>
    (\<forall>w \<in> set ws. \<exists>s'. maximizeWindow (u\<lparr>u_handler := int w\<rparr>) s = Inr (0, s') \<and> wl_ok (remove1 w ws @ [w]) s') \<and>
    (\<forall>w \<in> set (tl ws). \<exists>s'. close_window (u\<lparr>u_handler := int w\<rparr>) s = Inr (0, u\<lparr>u_handler := -1\<rparr>, s') \<and> wl_ok (remove1 w ws) s') \<and>
    (\<forall>d \<in> set ws. desktopId s = int d \<longrightarrow>
      update_screen (w_proc (windowlist s ! d)) s =
        Some (Inr (Some (int d) # map (\<lambda>w. Some (int w)) (filter (\<lambda>w. w \<noteq> d \<and> \<not> minimized (wnd (windowlist s ! w))) ws) @
          (if popup_caller s \<noteq> -1 then [None] else []))))"
proof (intro conjI ballI impI)
  show "if length ws < MAX_WINDOW_CNT
      then \<exists>w s'. w \<notin> set ws \<and> (\<forall>i < w. i \<in> set ws) \<and> create_window me u title s = Inr (0, u\<lparr>u_handler := int w\<rparr>, s') \<and> wl_ok (ws @ [w]) s'
      else create_window me u title s = Inr (1, u, s)"
    using create_effect [OF assms, of me u title] find_free [OF assms] by (auto simp: create_window_def)
  have di: "distinct ws" using assms by (simp add: wl_ok_def links_ok_def)
  fix w
  { assume w: "w \<in> set ws"
    let ?s = "s\<lparr>windowlist := (windowlist s)[w := set_minimized False (windowlist s ! w)]\<rparr>"
    have "wl_ok ws ?s" using wl_ok_upd [OF assms _ wl_ok_less [OF assms w]] by simp
    then obtain N P h t where "focusWindow (int w) ?s = Inr (relink N P h t ?s)" "wl_ok (remove1 w ws @ [w]) (relink N P h t ?s)"
      using focus_effect [OF _ w] by blast
    then show "\<exists>s'. maximizeWindow (u\<lparr>u_handler := int w\<rparr>) s = Inr (0, s') \<and> wl_ok (remove1 w ws @ [w]) s'"
      by (simp add: maximizeWindow_def Let_def upd_slot_less [OF wl_ok_less [OF assms w]]) }
  { assume "w \<in> set (tl ws)"
    then obtain v xs ys where ws: "ws = (v # xs) @ w # ys" by (cases ws) (auto dest!: split_list)
    then have "remove1 w ws = (v # xs) @ ys" using di by (auto simp: remove1_append)
    moreover obtain s' where "close_window (u\<lparr>u_handler := int w\<rparr>) s = Inr (0, u\<lparr>u_handler := -1\<rparr>, s')" "length (windowlist s') = MAX_WINDOW_CNT"
        "windowlisthead s' = windowlisthead s" "windowlisttail s' = lst ((v # xs) @ ys) (-1)" "links_ok (nx s') (pv s') ((v # xs) @ ys)"
      using close_effect [OF assms ws, of "u\<lparr>u_handler := int w\<rparr>"] by auto
    moreover have "windowlisthead s = int v" using assms ws by (simp add: wl_ok_def)
    ultimately show "\<exists>s'. close_window (u\<lparr>u_handler := int w\<rparr>) s = Inr (0, u\<lparr>u_handler := -1\<rparr>, s') \<and> wl_ok (remove1 w ws) s'"
      by (simp add: wl_ok_def) }
  fix d assume d: "d \<in> set ws" "desktopId s = int d"
  have "filter (\<lambda>p. p \<noteq> int d \<and> \<not> minimized (wnd (windowlist s ! nat p))) (map int ws) =
      map int (filter (\<lambda>w. w \<noteq> d \<and> \<not> minimized (wnd (windowlist s ! w))) ws)"
    by (simp add: filter_map comp_def)
  then show "update_screen (w_proc (windowlist s ! d)) s =
      Some (Inr (Some (int d) # map (\<lambda>w. Some (int w)) (filter (\<lambda>w. w \<noteq> d \<and> \<not> minimized (wnd (windowlist s ! w))) ws) @
        (if popup_caller s \<noteq> -1 then [None] else [])))"
    using walk_ok [OF assms] d slot_less [OF wl_ok_less [OF assms d(1)]] by (simp add: update_screen_def ro_bind_def comp_def)
qed

text \<open>C40: Closing the first window of several leaves the head of the list at the freed entry, which is its own successor: counting the
  windows, drawing the screen and turning it off then never end.\<close>

theorem close_first_hangs:
  assumes "wl_ok (w # ws) s" "u_handler u = int w" "desktopId s \<in> int ` set ws"
  shows "\<exists>s'. close_window u s = Inr (0, u\<lparr>u_handler := -1\<rparr>, s') \<and> getWindowCount s' = None \<and> turnoffScreen s' = None \<and>
    update_screen (w_proc (windowlist s' ! nat (desktopId s'))) s' = None"
proof -
  obtain s' where s': "close_window u s = Inr (0, u\<lparr>u_handler := -1\<rparr>, s')" "windowlisthead s' = windowlisthead s" "nx s' w = int w"
      "desktopId s' = desktopId s"
    using close_effect [OF assms(1), of "[]" w ws u] assms(2) by auto
  have w: "w < MAX_WINDOW_CNT" "windowlisthead s = int w" using wl_ok_less [OF assms(1), of w] assms(1) by (auto simp: wl_ok_def)
  obtain d where "desktopId s' = int d" "d < MAX_WINDOW_CNT" using assms(3) s'(4) wl_ok_less [OF assms(1)] by auto
  then show ?thesis using s' w walk_loops [OF w(1) s'(3)]
    by (auto simp: getWindowCount_def turnoffScreen_def update_screen_def ro_bind_def slot_less)
qed

text \<open>Before any window exists, as in text mode, a key press makes the driver dispatch to entry -1 of the window table.\<close>

theorem key_without_window:
  assumes "msg_type msg = M_KEY_DOWN \<or> msg_type msg = M_KEY_UP"
  shows "wmHandleMessage msg (wmInit s) = Some (Inl (Undefined ''windowlist''))"
  using assms by (auto simp: wmHandleMessage_def msg_types dispatch_to_def upd_slot_def wmInit_def)

section \<open>Instances\<close>

text \<open>A screen with three windows, the first of them the desktop.\<close>

definition ex_win :: kernel_window where
  "ex_win = \<lparr>position = \<lparr>r_xmin = 0, r_xmax = 640, r_ymin = 0, r_ymax = 480\<rparr>, window_buf = 0,
     wmsgs = \<lparr>mb_data = replicate MSG_BUF_SIZE \<lparr>msg_type = 0, params = []\<rparr>, mb_front = 0, mb_rear = 0, mb_cnt = 0\<rparr>,
     wtitle = [], minimized = False, hasTitleBar = False\<rparr>"

definition ex_blank :: wm where
  "ex_blank = \<lparr>windowlist = replicate MAX_WINDOW_CNT \<lparr>w_proc = Some 3, wnd = ex_win, w_next = 0, w_prev = 0\<rparr>,
     windowlisthead = -1, windowlisttail = -1, desktopId = 0, popup_proc = None, popup_wnd = ex_win, popup_caller = -1,
     mouseShape = 0, gui_style = 1, clickedOnTitle = False, clickedOnContent = False, clickedOnPopup = False,
     mouse_x = 320, mouse_y = 240, last_x = 320, last_y = 240, SCREEN_WIDTH = 640, SCREEN_HEIGHT = 480\<rparr>"

definition ex_wm :: wm where
  "ex_wm = relink (\<lambda>i. if i = 0 then 1 else if i = 1 then 2 else if i = 2 then -1 else int i)
     (\<lambda>i. if i = 0 then -1 else if i = 1 then 0 else if i = 2 then 1 else int i) 0 2 ex_blank"

lemma ex_wm_ok: "wl_ok [0, 1, 2] ex_wm" "wm_ok [0, 1, 2] ex_wm" "pointer_ok ex_wm"
proof -
  show "wl_ok [0, 1, 2] ex_wm" unfolding ex_wm_def wl_ok_relink by (simp add: links_ok_def MAX_WINDOW_CNT_def)
  then show "wm_ok [0, 1, 2] ex_wm" by (simp add: wm_ok_def ex_wm_def ex_blank_def)
  show "pointer_ok ex_wm" by (simp add: pointer_ok_def ex_wm_def relink_def ex_blank_def)
qed

theorem wm_handles_every_message_witness:
  "\<exists>s' ws'. wmHandleMessage \<lparr>msg_type = M_MOUSE_DOWN, params = [1]\<rparr> ex_wm = Some (Inr s') \<and> set ws' = {0, 1, 2} \<and> wm_ok ws' s' \<and> pointer_ok s'"
  using wm_handles_every_message [OF ex_wm_ok(2,3), of "\<lparr>msg_type = M_MOUSE_DOWN, params = [1]\<rparr>"] by simp

definition ex_request :: window where
  "ex_request = \<lparr>initialPosition = \<lparr>r_xmin = 10, r_xmax = 110, r_ymin = 40, r_ymax = 140\<rparr>, u_hasTitleBar = True, u_window_buf = 0,
     u_width = 100, u_height = 100, u_handler = 0\<rparr>"

theorem window_order_refinement_witness:
  "(\<exists>w s'. w = 3 \<and> create_window 5 ex_request [97] ex_wm = Inr (0, ex_request\<lparr>u_handler := int w\<rparr>, s') \<and> wl_ok [0, 1, 2, w] s') \<and>
   (\<exists>s'. maximizeWindow (ex_request\<lparr>u_handler := 1\<rparr>) ex_wm = Inr (0, s') \<and> wl_ok [0, 2, 1] s') \<and>
   (\<exists>s'. close_window (ex_request\<lparr>u_handler := 1\<rparr>) ex_wm = Inr (0, ex_request\<lparr>u_handler := -1\<rparr>, s') \<and> wl_ok [0, 2] s')"
proof -
  note R = window_order_refinement [OF ex_wm_ok(1), of 5 ex_request "[97]"]
  obtain w s' where w: "w \<notin> {0, 1, 2}" "\<forall>i < w. i \<in> {0, 1, 2}"
      "create_window 5 ex_request [97] ex_wm = Inr (0, ex_request\<lparr>u_handler := int w\<rparr>, s')" "wl_ok [0, 1, 2, w] s'"
    using R by (auto simp: MAX_WINDOW_CNT_def)
  have "w = 3"
  proof (rule ccontr)
    assume "w \<noteq> 3"
    then have "3 < w" using w(1) by auto
    then have "3 \<in> {0, 1, 2 :: nat}" using w(2) by blast
    then show False by simp
  qed
  then show ?thesis using w R by auto
qed

theorem close_first_hangs_witness:
  "\<exists>s'. close_window ex_request (ex_wm\<lparr>desktopId := 1\<rparr>) = Inr (0, ex_request\<lparr>u_handler := -1\<rparr>, s') \<and> getWindowCount s' = None"
proof -
  let ?s = "ex_wm\<lparr>desktopId := 1\<rparr>"
  have "wl_ok [0, 1, 2] ?s" using ex_wm_ok(1) by (auto intro: wl_ok_fields)
  from close_first_hangs [OF this, of ex_request] show ?thesis by (auto simp: ex_request_def)
qed

theorem key_without_window_witness:
  "wmHandleMessage \<lparr>msg_type = M_KEY_DOWN, params = [97, 0]\<rparr> (wmInit ex_blank) = Some (Inl (Undefined ''windowlist''))"
  by (rule key_without_window) simp

definition ex_queue :: msg_buf where
  "ex_queue = wmsgs ex_win"

theorem message_queue_fifo_witness:
  "\<exists>b'. msg_run [Put \<lparr>msg_type = 1, params = []\<rparr>, Get, Get] ex_queue = (b', [\<lparr>msg_type = 1, params = []\<rparr>], [\<lparr>msg_type = 1, params = []\<rparr>]) \<and>
    mb_ok b' \<and> mb_queue b' = [] \<and> fst (dispatchMessage b' \<lparr>msg_type = 1, params = []\<rparr>) = 0"
proof -
  have ok: "mb_ok ex_queue" "mb_queue ex_queue = []" by (simp_all add: mb_ok_def ex_queue_def ex_win_def mb_queue_def MSG_BUF_SIZE_def)
  obtain b' where r: "msg_run [Put \<lparr>msg_type = 1, params = []\<rparr>, Get, Get] ex_queue =
      (b', [\<lparr>msg_type = 1, params = []\<rparr>], [\<lparr>msg_type = 1, params = []\<rparr>])"
    by (simp add: ex_queue_def ex_win_def dispatchMessage_def getMessage_def mb_put_def mb_get_def MSG_BUF_SIZE_def)
  from message_queue_fifo [OF ok(1) r, of "\<lparr>msg_type = 1, params = []\<rparr>"] ok(2) r show ?thesis by (auto simp: MSG_BUF_SIZE_def)
qed

end
