(* ===== verification/Mouse.thy ===== *)
theory Mouse
  imports Wm
begin

unbundle bit_operations_syntax

text \<open>
  \<open>kernel/mouse.c\<close>: the mouse driver collects packets of three bytes and turns them into messages for the window manager. The
  bytes the controller holds and the tick count are arguments. The lemmas bound the movements a packet can carry and
  show which message each packet gives; a long press released without movement sends a message that was never filled in.
\<close>

section \<open>State\<close>

text \<open>\<open>packet\<close>, \<open>count\<close>, \<open>recovery\<close>, \<open>lastbtn\<close>, \<open>lastdowntick\<close> and \<open>lastclicktick\<close>; the two tick counts are only used
  converted to \<open>uint\<close>.\<close>

record mouse =
  x_sgn :: bool
  y_sgn :: bool
  x_mov :: int
  y_mov :: int
  l_btn :: bool
  r_btn :: bool
  m_btn :: bool
  x_overflow :: bool
  y_overflow :: bool
  p_tick :: u32
  mcount :: nat
  recovery :: int
  lastbtn :: nat
  lastdowntick :: u32
  lastclicktick :: u32

section \<open>Operations\<close>

text \<open>\<open>sgn ? (0xffffff00 | (mov & 0xff)) : (mov & 0xff)\<close> as an \<open>int\<close>.\<close>

definition movement :: "bool \<Rightarrow> int \<Rightarrow> int" where
  "movement neg mov = (if neg then mov mod 256 - 256 else mov mod 256)"

definition buttons :: "mouse \<Rightarrow> nat" where
  "buttons m = of_bool (l_btn m) + 2 * of_bool (r_btn m) + 4 * of_bool (m_btn m)"

definition genMouseUpMessage :: "nat \<Rightarrow> message" where
  "genMouseUpMessage btns = \<lparr>msg_type = M_MOUSE_UP, params = [int btns]\<rparr>"

text \<open>\<open>genMouseMessage\<close>: the messages it hands to \<open>handleMessage\<close>, in order.\<close>

definition genMouseMessage :: "mouse \<Rightarrow> (message list \<times> mouse) res" where
  "genMouseMessage m =
     (if x_overflow m \<or> y_overflow m then Inr ([], m)
      else
        let x = movement (x_sgn m) (x_mov m); y = movement (y_sgn m) (y_mov m);
            m = m\<lparr>x_mov := x, y_mov := y\<rparr>; btns = buttons m
        in if x \<noteq> 0 \<or> y \<noteq> 0 then
             Inr ((if btns \<noteq> lastbtn m then [genMouseUpMessage btns] else []) @
                    [\<lparr>msg_type = M_MOUSE_MOVE, params = [x, y, int btns]\<rparr>],
                  m\<lparr>lastdowntick := -1000, lastclicktick := -1000, lastbtn := btns\<rparr>)
           else if btns \<noteq> 0 then
             Inr ([\<lparr>msg_type = M_MOUSE_DOWN, params = [int btns]\<rparr>], m\<lparr>lastdowntick := p_tick m, lastbtn := btns\<rparr>)
           else if p_tick m - lastdowntick m < 30 then
             let ty = (if odd (lastbtn m) then M_MOUSE_LEFT_CLICK else M_MOUSE_RIGHT_CLICK)
             in if p_tick m - lastclicktick m < 60
                then Inr ([\<lparr>msg_type = M_MOUSE_DBCLICK, params = []\<rparr>], m\<lparr>lastclicktick := -1000, lastbtn := btns\<rparr>)
                else Inr ([\<lparr>msg_type = ty, params = []\<rparr>], m\<lparr>lastclicktick := p_tick m, lastbtn := btns\<rparr>)
           else Inl (Undefined ''genMouseMessage: msg''))"

definition set_flags :: "byte \<Rightarrow> mouse \<Rightarrow> mouse" where
  "set_flags b m =
     m\<lparr>y_overflow := bit b 7, x_overflow := bit b 6, y_sgn := bit b 5, x_sgn := bit b 4,
       m_btn := bit b 2, r_btn := bit b 1, l_btn := bit b 0\<rparr>"

text \<open>One round of the loop of \<open>mouseintr\<close> for the byte \<open>b\<close>.\<close>

definition mouse_byte :: "u32 \<Rightarrow> byte \<Rightarrow> mouse \<Rightarrow> (message list \<times> mouse) res" where
  "mouse_byte tick b m =
     (let m = m\<lparr>mcount := mcount m + 1,
                recovery := (if recovery m = 0 \<and> b = 0 then 1 else if recovery m = 1 \<and> b = 0 then 2 else if b = 12 then 0 else -1)\<rparr>;
          m = (if mcount m = 1 then (if bit b 3 then set_flags b m else m\<lparr>mcount := 0\<rparr>)
               else if mcount m = 2 then m\<lparr>x_mov := uint b\<rparr>
               else if mcount m = 3 then m\<lparr>y_mov := uint b, p_tick := tick\<rparr>
               else m\<lparr>mcount := 0\<rparr>)
      in if recovery m = 2 then Inr ([], m\<lparr>mcount := 0, recovery := -1\<rparr>)
         else if mcount m = 3 then genMouseMessage (m\<lparr>mcount := 0\<rparr>)
         else Inr ([], m))"

fun mouseintr :: "u32 \<Rightarrow> byte list \<Rightarrow> mouse \<Rightarrow> (message list \<times> mouse) res" where
  "mouseintr tick [] m = Inr ([], m)"
| "mouseintr tick (b # bs) m =
     res_bind (mouse_byte tick b m) (\<lambda>(ms, m). res_bind (mouseintr tick bs m) (\<lambda>(ms', m). Inr (ms @ ms', m)))"

text \<open>The window manager on the messages of the mouse.\<close>

definition handleMessage :: "message \<Rightarrow> wm \<Rightarrow> (int \<times> wm) res option" where
  "handleMessage msg s = ro_bind (wmHandleMessage msg s) (\<lambda>s. Some (Inr (0, s)))"

text \<open>The messages of a driver, handled in order.\<close>

fun wm_messages :: "message list \<Rightarrow> wm \<Rightarrow> wm res option" where
  "wm_messages [] s = Some (Inr s)"
| "wm_messages (m # ms) s = ro_bind (handleMessage m s) (\<lambda>(_, s). wm_messages ms s)"

section \<open>Packets\<close>

lemma movement_range: "- 256 \<le> movement neg x \<and> movement neg x \<le> 255"
  by (simp add: movement_def) (smt (verit) pos_mod_bound pos_mod_sign)

lemma movement_byte: "movement neg (uint (b :: byte)) = (if neg then uint b - 256 else uint b)"
  using uint_bounded [of b] by (simp add: movement_def)

definition moves_ok :: "message list \<Rightarrow> bool" where
  "moves_ok ms \<longleftrightarrow> (\<forall>m \<in> set ms. msg_type m = M_MOUSE_MOVE \<longrightarrow>
     - 256 \<le> param 0 m \<and> param 0 m \<le> 255 \<and> - 256 \<le> param 1 m \<and> param 1 m \<le> 255)"

lemma genMouseMessage_moves: "genMouseMessage m = Inr (ms, m') \<Longrightarrow> moves_ok ms \<and> mcount m' = mcount m"
  using movement_range by (auto simp: genMouseMessage_def Let_def moves_ok_def genMouseUpMessage_def msg_types param_def split: if_splits)

lemma mouse_byte_moves: "mcount m < 3 \<Longrightarrow> mouse_byte tick b m = Inr (ms, m') \<Longrightarrow> moves_ok ms \<and> mcount m' < 3"
  using genMouseMessage_moves
  by (fastforce simp: mouse_byte_def Let_def moves_ok_def set_flags_def split: if_splits)

lemma moves_ok_append: "moves_ok (ms @ ms') \<longleftrightarrow> moves_ok ms \<and> moves_ok ms'"
  by (auto simp: moves_ok_def)

lemma mouseintr_moves: "mcount m < 3 \<Longrightarrow> mouseintr tick bs m = Inr (ms, m') \<Longrightarrow> moves_ok ms \<and> mcount m' < 3"
proof (induction bs arbitrary: m ms)
  case (Cons b bs)
  then obtain ms1 m1 ms2 where 1: "mouse_byte tick b m = Inr (ms1, m1)" "mouseintr tick bs m1 = Inr (ms2, m')" "ms = ms1 @ ms2"
    by (auto simp: res_simps)
  then show ?case using mouse_byte_moves [OF Cons.prems(1) 1(1)] Cons.IH [OF _ 1(2)] by (simp add: moves_ok_append)
qed (simp add: moves_ok_def)

lemma wm_messages_ok:
  "wm_ok ws s \<Longrightarrow> pointer_ok s \<Longrightarrow> \<exists>s' ws'. wm_messages ms s = Some (Inr s') \<and> set ws' = set ws \<and> wm_ok ws' s' \<and> pointer_ok s'"
proof (induction ms arbitrary: ws s)
  case (Cons m ms)
  obtain s1 ws1 where 1: "wmHandleMessage m s = Some (Inr s1)" "set ws1 = set ws" "wm_ok ws1 s1" "pointer_ok s1"
    using wm_handles [OF Cons.prems, of m] by blast
  then show ?case using Cons.IH [OF 1(3,4)] by (auto simp: ro_bind_def handleMessage_def)
qed auto


text \<open>A packet without movement and buttons that arrives 30 or more ticks after the last button press, as the release of a button
  held that long does, hands a message to the window manager that was never filled in.\<close>

theorem long_press_garbage:
  assumes "\<not> x_overflow m" "\<not> y_overflow m" "movement (x_sgn m) (x_mov m) = 0" "movement (y_sgn m) (y_mov m) = 0"
    and "buttons m = 0" "\<not> p_tick m - lastdowntick m < 30"
  shows "genMouseMessage m = Inl (Undefined ''genMouseMessage: msg'')"
  using assms by (simp add: genMouseMessage_def Let_def buttons_def)

section \<open>Instances\<close>

definition ex_mouse :: mouse where
  "ex_mouse = \<lparr>x_sgn = False, y_sgn = False, x_mov = 0, y_mov = 0, l_btn = False, r_btn = False, m_btn = False,
     x_overflow = False, y_overflow = False, p_tick = 100, mcount = 0, recovery = -1, lastbtn = 1, lastdowntick = 50, lastclicktick = -1000\<rparr>"

theorem long_press_garbage_witness: "genMouseMessage ex_mouse = Inl (Undefined ''genMouseMessage: msg'')"
  by (rule long_press_garbage) (simp_all add: ex_mouse_def movement_def buttons_def)

text \<open>The packet for 5 to the right and 1 down, with no button.\<close>

lemma ex_packet:
  "\<exists>m'. mouseintr 7 [0x28, 5, 0xFF] ex_mouse =
    Inr ([\<lparr>msg_type = M_MOUSE_UP, params = [0]\<rparr>, \<lparr>msg_type = M_MOUSE_MOVE, params = [5, -1, 0]\<rparr>], m')"
  by (simp add: mouse_byte_def Let_def ex_mouse_def set_flags_def genMouseMessage_def movement_def buttons_def genMouseUpMessage_def bit_numeral_rec)


end
