(* ===== verification/Ustring.thy ===== *)
theory Ustring
  imports Kstring
begin

text \<open>
  The user-space C library below the programs: \<open>ulib/libc/string/string.c\<close>, \<open>ulib/libc/string/ctype.c\<close> and the number
  conversions of \<open>ulib/libc/stdlib/stdlib.c\<close> (but for \<open>ftoa\<close>, which computes with floating-point numbers). Routines that
  write strings act on an explicit memory, as in theory Kstring; a loop that runs until it meets a NUL is
  a partial function, with \<open>None\<close> for a run that never meets one. The lemmas say what each routine does to a
  NUL-terminated string; \<open>umemmove\<close>, unlike the kernel's \<open>memmove\<close>, is correct only when the destination
  does not start inside the source.
\<close>

section \<open>Strings\<close>

partial_function (option) ustrcpy :: "memory \<Rightarrow> nat \<Rightarrow> nat \<Rightarrow> memory option" where
  "ustrcpy m dst src =
     (let m' = m(dst := m src) in if m src \<noteq> 0 then ustrcpy m' (Suc dst) (Suc src) else Some m')"

partial_function (option) ustrcmp :: "memory \<Rightarrow> nat \<Rightarrow> nat \<Rightarrow> int option" where
  "ustrcmp m p q =
     (if m p \<noteq> 0 \<and> m p = m q then ustrcmp m (Suc p) (Suc q) else Some (uint (m p) - uint (m q)))"

partial_function (option) ustrlen_loop :: "memory \<Rightarrow> nat \<Rightarrow> nat \<Rightarrow> nat option" where
  "ustrlen_loop m s n = (if m (s + n) \<noteq> 0 then ustrlen_loop m s (Suc n) else Some n)"

definition ustrlen :: "memory \<Rightarrow> nat \<Rightarrow> nat option" where
  "ustrlen m s = ustrlen_loop m s 0"

text \<open>\<open>strncpy\<close> and \<open>strncmp\<close> have the loops of the kernel's routines.\<close>

definition ustrncpy :: "memory \<Rightarrow> nat \<Rightarrow> nat \<Rightarrow> int \<Rightarrow> memory" where
  "ustrncpy m s t n = (case strncpy_copy m s t n of (m, s, n) \<Rightarrow> strncpy_pad m s n)"

fun ustrncmp :: "memory \<Rightarrow> nat \<Rightarrow> nat \<Rightarrow> nat \<Rightarrow> int" where
  "ustrncmp m p q 0 = 0"
| "ustrncmp m p q (Suc n) =
     (if m p \<noteq> 0 \<and> m p = m q then ustrncmp m (Suc p) (Suc q) n else uint (m p) - uint (m q))"

definition umemset :: "memory \<Rightarrow> nat \<Rightarrow> u32 \<Rightarrow> nat \<Rightarrow> memory" where
  "umemset m dst c n = stosb m dst (ucast c) n"

text \<open>\<open>strchr\<close>; 0 is the null pointer.\<close>

partial_function (option) ustrchr :: "memory \<Rightarrow> nat \<Rightarrow> byte \<Rightarrow> nat option" where
  "ustrchr m s c = (if m s = 0 then Some 0 else if m s = c then Some s else ustrchr m (Suc s) c)"

definition umemmove :: "memory \<Rightarrow> nat \<Rightarrow> nat \<Rightarrow> int \<Rightarrow> memory" where
  "umemmove m vdst vsrc n = move_up m vdst vsrc (nat n)"

text \<open>The second loop of \<open>strcat\<close>, with the NUL that ends the result.\<close>

partial_function (option) ustrcat_copy :: "memory \<Rightarrow> nat \<Rightarrow> nat \<Rightarrow> nat \<Rightarrow> memory option" where
  "ustrcat_copy m d src j =
     (if m (src + j) \<noteq> 0 then ustrcat_copy (m(d + j := m (src + j))) d src (Suc j) else Some (m(d + j := 0)))"

definition ustrcat :: "memory \<Rightarrow> nat \<Rightarrow> nat \<Rightarrow> memory option" where
  "ustrcat m dest src = (case ustrlen_loop m dest 0 of None \<Rightarrow> None | Some i \<Rightarrow> ustrcat_copy m (dest + i) src 0)"

section \<open>Character classes\<close>

text \<open>A \<open>char\<close> is signed.\<close>

definition isdigit :: "byte \<Rightarrow> bool" where
  "isdigit c \<longleftrightarrow> 0x30 \<le> sint c \<and> sint c \<le> 0x39"

definition TAB :: int where "TAB = 0x09"
definition LF :: int where "LF = 0x0A"
definition VT :: int where "VT = 0x0B"
definition FF :: int where "FF = 0x0C"
definition CR :: int where "CR = 0x0D"
definition SPACE :: int where "SPACE = 0x20"

definition isspace :: "int \<Rightarrow> bool" where
  "isspace c \<longleftrightarrow> c = TAB \<or> c = LF \<or> c = VT \<or> c = FF \<or> c = CR \<or> c = SPACE"

definition isblank :: "int \<Rightarrow> bool" where
  "isblank c \<longleftrightarrow> c = TAB \<or> c = SPACE"

section \<open>Numbers\<close>

text \<open>\<open>atoi\<close> on the bytes of a string: the loop stops at the first byte that is no digit, a NUL at the latest.
  The sums of an \<open>int\<close> that is too large wrap around.\<close>

fun atoi_loop :: "int \<Rightarrow> byte list \<Rightarrow> int" where
  "atoi_loop n [] = n"
| "atoi_loop n (c # cs) = (if 48 \<le> sint c \<and> sint c \<le> 57 then atoi_loop (wrap_int (n * 10 + sint c - 48)) cs else n)"

definition atoi :: "byte list \<Rightarrow> int" where
  "atoi s = atoi_loop 0 s"

text \<open>The loop of \<open>reverse\<close>, on an array.\<close>

function reverse_loop :: "'a list \<Rightarrow> nat \<Rightarrow> nat \<Rightarrow> 'a list" where
  "reverse_loop xs i j =
     (if i < j then reverse_loop ((xs[i := xs ! j])[j := xs ! i]) (Suc i) (j - 1) else xs)"
  by pat_completeness auto
termination by (relation "measure (\<lambda>(xs, i, j). j - i)") auto

definition reverse :: "'a list \<Rightarrow> nat \<Rightarrow> 'a list" where
  "reverse str len = (if len = 0 then str else reverse_loop str 0 (len - 1))"

declare reverse_loop.simps [simp del]

text \<open>The digit loop of \<open>int2str\<close>, last digit first; \<open>%\<close> and \<open>/\<close> of C round towards zero, so that a negative number
  gives the characters below \<open>'0'\<close>.\<close>

function int2str_loop :: "int \<Rightarrow> byte list" where
  "int2str_loop x =
     (if x \<noteq> 0 then of_int (sgn x * (\<bar>x\<bar> mod 10) + 48) # int2str_loop (sgn x * (\<bar>x\<bar> div 10)) else [])"
  by pat_completeness auto
termination
proof (relation "measure (\<lambda>x. nat \<bar>x\<bar>)")
  fix x :: int assume "x \<noteq> 0"
  then have "\<bar>x\<bar> div 10 < \<bar>x\<bar>" by (intro int_div_less_self) auto
  then show "(sgn x * (\<bar>x\<bar> div 10), x) \<in> measure (\<lambda>x. nat \<bar>x\<bar>)"
    using \<open>x \<noteq> 0\<close> by (simp add: abs_mult)
qed simp

declare int2str_loop.simps [simp del]

text \<open>What \<open>int2str\<close> leaves at \<open>str\<close>; its result is the length without the NUL.\<close>

definition int2str :: "int \<Rightarrow> int \<Rightarrow> byte list" where
  "int2str x d =
     (let s = int2str_loop x; s = s @ replicate (nat d - length s) 48
      in reverse s (length s) @ [0])"

definition itoa_digits :: "byte list" where
  "itoa_digits = [48, 49, 50, 51, 52, 53, 54, 55, 56, 57, 65, 66, 67, 68, 69, 70]"

function itoa_loop :: "nat \<Rightarrow> nat \<Rightarrow> byte list" where
  "itoa_loop base x =
     (itoa_digits ! (x mod base)) # (if x div base \<noteq> 0 \<and> base > 1 then itoa_loop base (x div base) else [])"
  by pat_completeness auto
termination by (relation "measure (\<lambda>(base, x). x)") (auto simp: div_less_dividend intro!: div_less_dividend gr0I)

declare itoa_loop.simps [simp del]

text \<open>\<open>itoa\<close>, for the bases its digits are enough for: the bytes it stores at \<open>str\<close>. The local \<open>buf\<close> has 16 bytes.\<close>

definition itoa :: "int \<Rightarrow> nat \<Rightarrow> bool \<Rightarrow> byte list res" where
  "itoa xx base sg =
     (if base < 2 \<or> 16 < base then Inl (Undefined ''itoa: base'')
      else
        let neg = sg \<and> xx < 0;
            x = nat ((if neg then - xx else xx) mod 2 ^ 32);
            buf = itoa_loop base x @ (if neg then [45] else [])
        in if length buf > 16 then Inl (Undefined ''itoa: buf'') else Inr (rev buf @ [0]))"

section \<open>What the string routines do\<close>

lemma string_at_cong:
  assumes "string_at m p xs" "\<And>x. p \<le> x \<Longrightarrow> x \<le> p + length xs \<Longrightarrow> m' x = m x"
  shows "string_at m' p xs"
proof -
  have "map m' [p..<p + length xs] = map m [p..<p + length xs]" using assms(2) by auto
  moreover have "m' (p + length xs) = m (p + length xs)" using assms(2) by simp
  ultimately show ?thesis using assms(1) unfolding string_at_def by metis
qed

lemma ustrcpy_string:
  assumes "string_at m src xs" "dst + length xs < src \<or> src + length xs < dst"
  shows "\<exists>m'. ustrcpy m dst src = Some m' \<and> string_at m' dst xs \<and>
    (\<forall>x. x < dst \<or> dst + length xs < x \<longrightarrow> m' x = m x)"
  using assms
proof (induction xs arbitrary: m dst src)
  case Nil
  then show ?case by (subst ustrcpy.simps) (auto simp: Let_def)
next
  case (Cons c cs)
  let ?m = "m(dst := m src)"
  have "string_at ?m (Suc src) cs" using Cons.prems by (auto intro: string_at_cong)
  moreover have "Suc dst + length cs < Suc src \<or> Suc src + length cs < Suc dst" using Cons.prems by auto
  ultimately obtain m' where m': "ustrcpy ?m (Suc dst) (Suc src) = Some m'" "string_at m' (Suc dst) cs"
      "\<forall>x. x < Suc dst \<or> Suc dst + length cs < x \<longrightarrow> m' x = ?m x"
    using Cons.IH [of ?m "Suc src" "Suc dst"] by blast
  have "m' dst = c" using m'(3) Cons.prems(1) by simp
  moreover have "ustrcpy m dst src = Some m'" using m'(1) Cons.prems(1) by (subst ustrcpy.simps) (auto simp: Let_def)
  ultimately show ?case using m' Cons.prems(1) by auto
qed

fun strcmp_l :: "byte list \<Rightarrow> byte list \<Rightarrow> int" where
  "strcmp_l [] ys = - uint (hd0 ys)"
| "strcmp_l (x # xs) ys = (if x \<noteq> 0 \<and> x = hd0 ys then strcmp_l xs (tl ys) else uint x - uint (hd0 ys))"

lemma ustrcmp_string:
  "string_at m p xs \<Longrightarrow> string_at m q ys \<Longrightarrow> ustrcmp m p q = Some (strcmp_l xs ys)"
proof (induction xs arbitrary: p q ys)
  case Nil
  then show ?case by (subst ustrcmp.simps) (cases ys, auto)
next
  case (Cons x xs)
  then show ?case by (subst ustrcmp.simps) (cases ys, auto)
qed

lemma strcmp_l_0_iff: "0 \<notin> set xs \<Longrightarrow> 0 \<notin> set ys \<Longrightarrow> strcmp_l xs ys = 0 \<longleftrightarrow> xs = ys"
proof (induction xs arbitrary: ys)
  case Nil
  then show ?case by (cases ys) (auto simp: uint_0_iff)
next
  case (Cons x xs)
  then show ?case by (cases ys) (auto simp: word_uint_eq_iff [symmetric] uint_0_iff)
qed

lemma ustrlen_loop_string: "string_at m (p + n) xs \<Longrightarrow> ustrlen_loop m p n = Some (n + length xs)"
proof (induction xs arbitrary: n)
  case Nil
  then show ?case by (subst ustrlen_loop.simps) simp
next
  case (Cons x xs)
  then show ?case by (subst ustrlen_loop.simps) auto
qed

lemma ustrcat_copy_string:
  assumes "string_at m (src + j) ys" "d + j + length ys < src \<or> src + j + length ys < d"
  shows "\<exists>m'. ustrcat_copy m d src j = Some m' \<and> string_at m' (d + j) ys \<and>
    (\<forall>x. x < d + j \<or> d + j + length ys < x \<longrightarrow> m' x = m x)"
  using assms
proof (induction ys arbitrary: m j)
  case Nil
  then show ?case by (subst ustrcat_copy.simps) auto
next
  case (Cons c cs)
  let ?m = "m(d + j := m (src + j))"
  have "string_at ?m (src + Suc j) cs" using Cons.prems by (auto intro: string_at_cong)
  moreover have "d + Suc j + length cs < src \<or> src + Suc j + length cs < d" using Cons.prems by auto
  ultimately obtain m' where m': "ustrcat_copy ?m d src (Suc j) = Some m'" "string_at m' (d + Suc j) cs"
      "\<forall>x. x < d + Suc j \<or> d + Suc j + length cs < x \<longrightarrow> m' x = ?m x"
    using Cons.IH [of ?m "Suc j"] by blast
  have "m' (d + j) = c" using m'(3) Cons.prems(1) by simp
  moreover have "ustrcat_copy m d src j = Some m'" using m'(1) Cons.prems(1) by (subst ustrcat_copy.simps) auto
  ultimately show ?case using m' Cons.prems(1) by auto
qed

lemma string_at_append: "string_at m p (xs @ ys) \<longleftrightarrow>
    0 \<notin> set xs \<and> map m [p..<p + length xs] = xs \<and> string_at m (p + length xs) ys"
proof (induction xs arbitrary: p)
  case (Cons x xs)
  then show ?case by (auto simp: upt_conv_Cons simp del: upt_Suc)
qed simp

text \<open>\<open>strcat\<close> appends the string at \<open>src\<close>, when the room behind \<open>dest\<close> does not reach it.\<close>

lemma ustrcat_string:
  assumes "string_at m dest xs" "string_at m src ys"
    and "dest + length xs + length ys < src \<or> src + length ys < dest"
  shows "\<exists>m'. ustrcat m dest src = Some m' \<and> string_at m' dest (xs @ ys) \<and>
    (\<forall>x. x < dest + length xs \<or> dest + length xs + length ys < x \<longrightarrow> m' x = m x)"
proof -
  obtain m' where m': "ustrcat_copy m (dest + length xs) src 0 = Some m'" "string_at m' (dest + length xs) ys"
      "\<forall>x. x < dest + length xs \<or> dest + length xs + length ys < x \<longrightarrow> m' x = m x"
    using ustrcat_copy_string [of m src 0 ys "dest + length xs"] assms by auto
  have "map m' [dest..<dest + length xs] = map m [dest..<dest + length xs]" using m'(3) by auto
  also have "\<dots> = xs" using assms(1) by (simp add: string_at_def)
  finally have "string_at m' dest (xs @ ys)" using m'(2) assms(1) by (simp add: string_at_append) (simp add: string_at_def)
  then show ?thesis using m' assms(1) ustrlen_loop_string [of m dest 0 xs] by (simp add: ustrcat_def)
qed

text \<open>\<open>memmove\<close> of the user library copies upwards: right when the areas do not overlap or the data moves down, and
  a smear of the first byte when it moves up by one.\<close>

lemma umemmove_correct:
  "dst \<le> src \<or> int src + n \<le> int dst \<Longrightarrow>
    umemmove m dst src n x = (if dst \<le> x \<and> int x < int dst + n then m (src + (x - dst)) else m x)"
  by (cases n) (use move_up_correct in \<open>auto simp: umemmove_def\<close>)

lemma move_up_smears: "move_up m (Suc s) s n x = (if s < x \<and> x \<le> s + n then m s else m x)"
  by (induction n arbitrary: m s) auto

section \<open>What the conversions do\<close>

lemma reverse_loop_nth:
  assumes "i + j < length xs \<or> j < length xs" "j < length xs" "k < length xs"
  shows "reverse_loop xs i j ! k = (if i \<le> k \<and> k \<le> j then xs ! (i + j - k) else xs ! k)"
  using assms
proof (induction xs i j rule: reverse_loop.induct)
  case (1 xs i j)
  show ?case
  proof (cases "i < j")
    case True
    let ?ys = "(xs[i := xs ! j])[j := xs ! i]"
    have "reverse_loop ?ys (Suc i) (j - 1) ! k =
        (if Suc i \<le> k \<and> k \<le> j - 1 then ?ys ! (Suc i + (j - 1) - k) else ?ys ! k)"
      using 1 True by auto
    moreover have "reverse_loop xs i j = reverse_loop ?ys (Suc i) (j - 1)"
      using True by (subst reverse_loop.simps) simp
    ultimately show ?thesis using True 1(2-) by (auto simp: nth_list_update)
  next
    case False
    then have "i \<le> k \<and> k \<le> j \<Longrightarrow> k = i + j - k" by linarith
    with False show ?thesis by (subst reverse_loop.simps) auto
  qed
qed

lemma length_reverse_loop [simp]: "length (reverse_loop xs i j) = length xs"
proof (induction xs i j rule: reverse_loop.induct)
  case (1 xs i j)
  then show ?case by (subst reverse_loop.simps) simp
qed

lemma reverse_rev: "len \<le> length xs \<Longrightarrow> reverse xs len = rev (take len xs) @ drop len xs"
proof (cases "len = 0")
  case False
  assume len: "len \<le> length xs"
  show ?thesis
  proof (rule nth_equalityI)
    show "length (reverse xs len) = length (rev (take len xs) @ drop len xs)" using len by (simp add: reverse_def)
    fix k assume "k < length (reverse xs len)"
    then have k: "k < length xs" by (simp add: reverse_def split: if_splits)
    have "reverse_loop xs 0 (len - 1) ! k = (if k \<le> len - 1 then xs ! (len - 1 - k) else xs ! k)"
      using reverse_loop_nth [of 0 "len - 1" xs k] len False k by simp
    also have "\<dots> = (rev (take len xs) @ drop len xs) ! k"
      using len False k by (auto simp: nth_append rev_nth min_def)
    finally show "reverse xs len ! k = (rev (take len xs) @ drop len xs) ! k" using False by (simp add: reverse_def)
  qed
qed (simp add: reverse_def)

lemma itoa_digit: "d < 10 \<Longrightarrow> itoa_digits ! d = of_nat (48 + d)"
proof -
  assume "d < 10"
  then have "d \<in> set [0..<10]" by simp
  moreover have "\<forall>d \<in> set [0..<10]. itoa_digits ! d = of_nat (48 + d)" by (simp add: upt_rec itoa_digits_def)
  ultimately show ?thesis by blast
qed

lemma sint_digit: "d < 10 \<Longrightarrow> sint (of_nat (48 + d) :: byte) = 48 + int d"
proof -
  assume "d < 10"
  then have "d \<in> set [0..<10]" by simp
  moreover have "\<forall>d \<in> set [0..<10]. sint (of_nat (48 + d) :: byte) = 48 + int d" by (simp add: upt_rec)
  ultimately show ?thesis by blast
qed

lemma atoi_digit:
  assumes "d < 10" "0 \<le> n" "n * 10 + int d < 2 ^ 31"
  shows "atoi_loop n (of_nat (48 + d) # cs) = atoi_loop (n * 10 + int d) cs"
  using assms wrap_int_id [of "n * 10 + int d"] sint_digit [of d] by (simp add: algebra_simps del: of_nat_add)

lemma atoi_itoa_loop: "x < 2 ^ 31 \<Longrightarrow> atoi_loop 0 (rev (itoa_loop 10 x) @ cs) = atoi_loop (int x) cs"
proof (induction x arbitrary: cs rule: less_induct)
  case (less x)
  have d: "itoa_digits ! (x mod 10) = of_nat (48 + x mod 10)" by (rule itoa_digit) simp
  have x: "int (x div 10) * 10 + int (x mod 10) = int x" by presburger
  show ?case
  proof (cases "x div 10 = 0")
    case True
    then show ?thesis using d atoi_digit [of "x mod 10" 0 cs] less.prems x
      by (subst itoa_loop.simps) simp
  next
    case False
    then have "atoi_loop 0 (rev (itoa_loop 10 (x div 10)) @ (of_nat (48 + x mod 10) # cs)) =
        atoi_loop (int (x div 10)) (of_nat (48 + x mod 10) # cs)"
      using less by simp
    also have "\<dots> = atoi_loop (int x) cs" using atoi_digit [of "x mod 10" "int (x div 10)" cs] less.prems x by simp
    finally show ?thesis using False d by (subst itoa_loop.simps) simp
  qed
qed

lemma length_itoa_loop: "x < base ^ k \<Longrightarrow> 0 < k \<Longrightarrow> 1 < base \<Longrightarrow> length (itoa_loop base x) \<le> k"
proof (induction k arbitrary: x)
  case (Suc k)
  have "x div base < base ^ k" using Suc.prems by (simp add: less_mult_imp_div_less mult.commute)
  then show ?case using Suc by (subst itoa_loop.simps) (cases k, auto)
qed simp

text \<open>\<open>itoa\<close> in base 10 never overflows its buffer, and \<open>atoi\<close> reads a number that is not negative back; in base 2
  the buffer overflows from \<open>2 ^ 16\<close> on.\<close>

theorem itoa_atoi:
  assumes "0 \<le> x" "x < 2 ^ 31"
  shows "\<exists>s. itoa x 10 sg = Inr s \<and> atoi s = x"
proof -
  have l: "length (itoa_loop 10 (nat x)) \<le> 10" by (rule length_itoa_loop) (use assms in auto)
  have "atoi_loop 0 (rev (itoa_loop 10 (nat x)) @ [0]) = x"
    using atoi_itoa_loop [of "nat x" "[0]"] assms by simp
  then show ?thesis using assms l by (simp add: itoa_def Let_def atoi_def)
qed

end
