(* ===== verification/Hashtable.thy ===== *)
theory Hashtable
  imports Ustring
begin

unbundle bit_operations_syntax

text \<open>
  \<open>ulib/libc/stdlib/hashtable.c\<close>: the hash table from strings to strings that holds the environment of the shells.
  Open addressing with linear probing: the search runs from the slot of the hash until it meets the key or an
  empty slot, and in a full table without the key it would run forever. Strings are the lists of their bytes
  without the NUL. Whether \<open>malloc\<close> succeeds is an argument of the operations that allocate. The invariant
  \<open>ht_inv\<close> says that the search finds every filled slot and that at most half of the slots are filled; under it
  every operation terminates and the table behaves as a finite map (\<open>ht_abs\<close>).
\<close>

section \<open>State\<close>

text \<open>\<open>ht_entry\<close>, with the string in \<open>value\<close>, and \<open>struct ht\<close>.\<close>

record ht_entry =
  e_key :: "byte list option"
  e_value :: "byte list"

record ht =
  ht_entries :: "ht_entry list"
  ht_capacity :: nat
  ht_length_f :: int

definition INITIAL_CAPACITY :: nat where "INITIAL_CAPACITY = 16"
definition VALUE_SIZE :: nat where "VALUE_SIZE = 128"
definition ENTRY_SIZE :: nat where "ENTRY_SIZE = 136"

section \<open>Operations\<close>

definition empty_entry :: ht_entry where
  "empty_entry = \<lparr>e_key = None, e_value = []\<rparr>"

text \<open>\<open>calloc\<close> of \<open>n\<close> entries; \<open>ok\<close> is whether \<open>malloc\<close> succeeds. The size is an \<open>int\<close>; when it overflows the block is
  smaller than the array.\<close>

definition calloc_entries :: "bool \<Rightarrow> nat \<Rightarrow> ht_entry list option res" where
  "calloc_entries ok n =
     (if n * ENTRY_SIZE \<ge> 2 ^ 31 then Inl (Undefined ''calloc: size'')
      else Inr (if ok then Some (replicate n empty_entry) else None))"

definition ht_create :: "bool \<Rightarrow> bool \<Rightarrow> ht option res" where
  "ht_create ok1 ok2 =
     (if \<not> ok1 then Inr None
      else res_bind (calloc_entries ok2 INITIAL_CAPACITY) (\<lambda>es.
        Inr (case es of None \<Rightarrow> None
             | Some es \<Rightarrow> Some \<lparr>ht_entries = es, ht_capacity = INITIAL_CAPACITY, ht_length_f = 0\<rparr>)))"

text \<open>The blocks \<open>ht_destroy\<close> frees before the two of the table itself: the copies of the keys.\<close>

definition ht_destroy :: "ht \<Rightarrow> byte list list" where
  "ht_destroy t = List.map_filter (\<lambda>i. e_key (ht_entries t ! i)) [0..<ht_capacity t]"

definition FNV_OFFSET :: u64 where "FNV_OFFSET = 14695981039346656037"
definition FNV_PRIME :: u64 where "FNV_PRIME = 1099511628211"

definition hash_step :: "u64 \<Rightarrow> byte \<Rightarrow> u64" where
  "hash_step h c = (h XOR ucast c) * FNV_PRIME"

definition hash_key :: "byte list \<Rightarrow> u64" where
  "hash_key key = foldl hash_step FNV_OFFSET key"

definition ht_index :: "byte list \<Rightarrow> nat \<Rightarrow> nat" where
  "ht_index key capacity = unat (hash_key key AND of_nat (capacity - 1))"

text \<open>The search of \<open>ht_get\<close> and \<open>ht_set_entry\<close> from slot \<open>index\<close>: the slot where it ends, and whether it holds the key.\<close>

partial_function (option) ht_probe :: "byte list \<Rightarrow> ht_entry list \<Rightarrow> nat \<Rightarrow> nat \<Rightarrow> (nat \<times> bool) option" where
  "ht_probe key entries capacity index =
     (case e_key (entries ! index) of
        None \<Rightarrow> Some (index, False)
      | Some k \<Rightarrow>
          if strcmp_l key k = 0 then Some (index, True)
          else ht_probe key entries capacity (if capacity \<le> Suc index then 0 else Suc index))"

definition ht_get :: "ht \<Rightarrow> byte list \<Rightarrow> byte list option option" where
  "ht_get t key =
     (case ht_probe key (ht_entries t) (ht_capacity t) (ht_index key (ht_capacity t)) of
        None \<Rightarrow> None
      | Some (i, found) \<Rightarrow> Some (if found then Some (e_value (ht_entries t ! i)) else None))"

text \<open>\<open>strcpy\<close> into the 128 bytes of \<open>value\<close>.\<close>

definition set_value :: "byte list \<Rightarrow> nat \<Rightarrow> ht_entry list \<Rightarrow> ht_entry list res" where
  "set_value value i entries =
     (if length value < VALUE_SIZE then Inr (entries[i := (entries ! i)\<lparr>e_value := value\<rparr>])
      else Inl (Undefined ''ht_set: value''))"

text \<open>\<open>ht_set_entry\<close>; \<open>plength\<close> is \<open>None\<close> for the null pointer. \<open>strdup\<close> writes the copy before anyone looks at the
  result of \<open>malloc\<close>. The outer \<open>None\<close> is a search that does not end.\<close>

definition ht_set_entry :: "bool \<Rightarrow> ht_entry list \<Rightarrow> nat \<Rightarrow> byte list \<Rightarrow> byte list \<Rightarrow> int option \<Rightarrow>
    (byte list \<times> ht_entry list \<times> int option) res option" where
  "ht_set_entry ok entries capacity key value plength =
     (case ht_probe key entries capacity (ht_index key capacity) of
        None \<Rightarrow> None
      | Some (i, True) \<Rightarrow> Some (res_bind (set_value value i entries) (\<lambda>es. Inr (key, es, plength)))
      | Some (i, False) \<Rightarrow>
          if plength \<noteq> None \<and> \<not> ok then Some (Inl (Undefined ''strdup: null''))
          else Some (res_bind (set_value value i (entries[i := (entries ! i)\<lparr>e_key := Some key\<rparr>])) (\<lambda>es.
                 Inr (key, es, map_option (\<lambda>n. n + 1) plength))))"

text \<open>The loop of \<open>ht_expand\<close> over the old entries.\<close>

fun expand_loop :: "ht_entry list \<Rightarrow> nat \<Rightarrow> ht_entry list \<Rightarrow> ht_entry list res option" where
  "expand_loop [] new_capacity new_entries = Some (Inr new_entries)"
| "expand_loop (e # es) new_capacity new_entries =
     (case e_key e of
        None \<Rightarrow> expand_loop es new_capacity new_entries
      | Some k \<Rightarrow>
          (case ht_set_entry True new_entries new_capacity k (e_value e) None of
             None \<Rightarrow> None
           | Some (Inl err) \<Rightarrow> Some (Inl err)
           | Some (Inr (_, new_entries, _)) \<Rightarrow> expand_loop es new_capacity new_entries))"

definition ht_expand :: "bool \<Rightarrow> ht \<Rightarrow> (bool \<times> ht) res option" where
  "ht_expand ok t =
     (let new_capacity = wrap_int (2 * int (ht_capacity t))
      in if new_capacity < int (ht_capacity t) then Some (Inr (False, t))
      else case calloc_entries ok (nat new_capacity) of
        Inl err \<Rightarrow> Some (Inl err)
      | Inr None \<Rightarrow> Some (Inr (False, t))
      | Inr (Some new_entries) \<Rightarrow>
          (case expand_loop (take (ht_capacity t) (ht_entries t)) (nat new_capacity) new_entries of
             None \<Rightarrow> None
           | Some (Inl err) \<Rightarrow> Some (Inl err)
           | Some (Inr es) \<Rightarrow> Some (Inr (True, t\<lparr>ht_entries := es, ht_capacity := nat new_capacity\<rparr>))))"

text \<open>\<open>ht_set\<close> for a value that is not the null pointer; \<open>ok1\<close> and \<open>ok2\<close> are the answers of \<open>malloc\<close> to \<open>calloc\<close> and \<open>strdup\<close>.
  It returns the key of the entry, \<open>None\<close> for \<open>NULL\<close>.\<close>

definition ht_set_here :: "bool \<Rightarrow> ht \<Rightarrow> byte list \<Rightarrow> byte list \<Rightarrow> (byte list option \<times> ht) res option" where
  "ht_set_here ok t key value =
     (case ht_set_entry ok (ht_entries t) (ht_capacity t) key value (Some (ht_length_f t)) of
        None \<Rightarrow> None
      | Some (Inl err) \<Rightarrow> Some (Inl err)
      | Some (Inr (k, es, n)) \<Rightarrow> Some (Inr (Some k, t\<lparr>ht_entries := es, ht_length_f := the n\<rparr>)))"

definition ht_set :: "bool \<Rightarrow> bool \<Rightarrow> ht \<Rightarrow> byte list \<Rightarrow> byte list \<Rightarrow> (byte list option \<times> ht) res option" where
  "ht_set ok1 ok2 t key value =
     (if ht_length_f t \<ge> int (ht_capacity t div 2) then
        (case ht_expand ok1 t of
           None \<Rightarrow> None
         | Some (Inl err) \<Rightarrow> Some (Inl err)
         | Some (Inr (False, t)) \<Rightarrow> Some (Inr (None, t))
         | Some (Inr (True, t)) \<Rightarrow> ht_set_here ok2 t key value)
      else ht_set_here ok2 t key value)"

definition ht_length :: "ht \<Rightarrow> int" where
  "ht_length t = ht_length_f t"

text \<open>\<open>hti\<close>, without the pointer to the table, which is an argument.\<close>

record hti =
  it_key :: "byte list"
  it_value :: "byte list"
  it_index :: nat

definition ht_iterator :: hti where
  "ht_iterator = \<lparr>it_key = [], it_value = [], it_index = 0\<rparr>"

function ht_next :: "ht \<Rightarrow> hti \<Rightarrow> bool \<times> hti" where
  "ht_next t it =
     (if it_index it < ht_capacity t then
        (let i = it_index it; it = it\<lparr>it_index := Suc i\<rparr>
         in case e_key (ht_entries t ! i) of
              Some k \<Rightarrow> (True, it\<lparr>it_key := k, it_value := e_value (ht_entries t ! i)\<rparr>)
            | None \<Rightarrow> ht_next t it)
      else (False, it))"
  by pat_completeness auto
termination by (relation "measure (\<lambda>(t, it). ht_capacity t - it_index it)") auto

declare ht_next.simps [simp del]

section \<open>Searching\<close>

definition ht_filled :: "ht_entry list \<Rightarrow> nat" where
  "ht_filled es = length (filter (\<lambda>e. e_key e \<noteq> None) es)"

definition key_at :: "ht_entry list \<Rightarrow> nat \<Rightarrow> byte list option" where
  "key_at es i = e_key (es ! i)"

definition next_slot :: "nat \<Rightarrow> nat \<Rightarrow> nat" where
  "next_slot cap i = (if cap \<le> Suc i then 0 else Suc i)"

lemma ht_probe_step:
  "ht_probe key es cap i =
     (case key_at es i of None \<Rightarrow> Some (i, False)
      | Some k \<Rightarrow> if strcmp_l key k = 0 then Some (i, True) else ht_probe key es cap (next_slot cap i))"
  unfolding key_at_def next_slot_def by (rule ht_probe.simps)

lemma next_slot_less: "i < cap \<Longrightarrow> next_slot cap i < cap"
  by (auto simp: next_slot_def)

lemma ht_index_less: "j < 64 \<Longrightarrow> ht_index key (2 ^ j) < 2 ^ j"
proof -
  assume j: "j < 64"
  have "of_nat (2 ^ j - 1) = (mask j :: u64)" by (simp add: mask_eq_exp_minus_1 of_nat_diff)
  then have "hash_key key AND of_nat (2 ^ j - 1) = take_bit j (hash_key key)" by (simp only: take_bit_eq_mask)
  then show ?thesis by (simp add: ht_index_def unsigned_take_bit_eq)
qed

text \<open>Distance, going round, from slot \<open>i\<close> to slot \<open>j\<close>.\<close>

definition slot_dist :: "nat \<Rightarrow> nat \<Rightarrow> nat \<Rightarrow> nat" where
  "slot_dist cap i j = (if i \<le> j then j - i else cap + j - i)"

lemma slot_dist_next:
  "i < cap \<Longrightarrow> j < cap \<Longrightarrow> i \<noteq> j \<Longrightarrow> slot_dist cap (next_slot cap i) j < slot_dist cap i j"
  by (auto simp: slot_dist_def next_slot_def)

text \<open>With an empty slot the search ends.\<close>

lemma ht_probe_ends:
  assumes "i < cap" "j < cap" "key_at es j = None"
  shows "\<exists>r b. ht_probe key es cap i = Some (r, b) \<and> r < cap"
  using assms(1)
proof (induction "slot_dist cap i j" arbitrary: i rule: less_induct)
  case less
  show ?case
  proof (cases "key_at es i")
    case None
    then show ?thesis using less.prems by (subst ht_probe_step) auto
  next
    case (Some k)
    then have "i \<noteq> j" using assms(3) by auto
    then have "\<exists>r b. ht_probe key es cap (next_slot cap i) = Some (r, b) \<and> r < cap"
      using less slot_dist_next [OF less.prems assms(2)] next_slot_less by blast
    then show ?thesis using Some less.prems by (subst ht_probe_step) auto
  qed
qed

lemma ht_probe_induct:
  assumes "ht_probe key es cap i = Some (r, b)"
    and "\<And>i. key_at es i = None \<Longrightarrow> P i i False"
    and "\<And>i k. key_at es i = Some k \<Longrightarrow> strcmp_l key k = 0 \<Longrightarrow> P i i True"
    and "\<And>i k r b. key_at es i = Some k \<Longrightarrow> strcmp_l key k \<noteq> 0 \<Longrightarrow> P (next_slot cap i) r b \<Longrightarrow> P i r b"
  shows "P i r b"
proof -
  have "key = key' \<longrightarrow> es = es' \<longrightarrow> cap = cap' \<longrightarrow> P i (fst rb) (snd rb)"
    if "ht_probe key' es' cap' i = Some rb" for key' es' cap' i rb
  proof (rule ht_probe.raw_induct [OF _ that])
    fix pr key' es' cap' i rb
    assume IH: "\<And>a b c d y. pr a b c d = Some y \<Longrightarrow> key = a \<longrightarrow> es = b \<longrightarrow> cap = c \<longrightarrow> P d (fst y) (snd y)"
      and eq: "(case e_key (es' ! i) of None \<Rightarrow> Some (i, False)
        | Some k \<Rightarrow> if strcmp_l key' k = 0 then Some (i, True)
            else pr key' es' cap' (if cap' \<le> Suc i then 0 else Suc i)) = Some rb"
    show "key = key' \<longrightarrow> es = es' \<longrightarrow> cap = cap' \<longrightarrow> P i (fst rb) (snd rb)"
    proof (intro impI)
      assume [symmetric, simp]: "key = key'" "es = es'" "cap = cap'"
      show "P i (fst rb) (snd rb)"
      proof (cases "key_at es i")
        case None
        then show ?thesis using eq assms(2) [OF None] by (auto simp: key_at_def)
      next
        case (Some k)
        show ?thesis
        proof (cases "strcmp_l key k = 0")
          case True
          then show ?thesis using eq assms(3) [OF Some] Some by (auto simp: key_at_def)
        next
          case False
          then have "pr key es cap (next_slot cap i) = Some rb" using eq Some unfolding key_at_def next_slot_def by auto
          then have "P (next_slot cap i) (fst rb) (snd rb)" using IH by blast
          then show ?thesis by (rule assms(4) [OF Some False])
        qed
      qed
    qed
  qed
  from this [OF assms(1)] show ?thesis by simp
qed

text \<open>The slot where a search ends: it is in the table, it holds the key or is empty.\<close>

lemma ht_probe_key:
  "ht_probe key es cap i = Some (r, b) \<Longrightarrow>
    (if b then \<exists>k. key_at es r = Some k \<and> strcmp_l key k = 0 else key_at es r = None)"
  by (erule ht_probe_induct) auto

lemma ht_probe_less: "ht_probe key es cap i = Some (r, b) \<Longrightarrow> i < cap \<longrightarrow> r < cap"
  by (erule ht_probe_induct) (auto simp: next_slot_less)

text \<open>Filling an empty slot \<open>j\<close> does not disturb a search that finds its key, and a search that ended there finds its
  own key there afterwards.\<close>

lemma ht_probe_fill_other:
  assumes "ht_probe key es cap i = Some (r, True)" "key_at es j = None"
    and "\<And>l. l \<noteq> j \<Longrightarrow> key_at es' l = key_at es l"
  shows "ht_probe key es' cap i = Some (r, True)"
proof -
  have "True \<longrightarrow> ht_probe key es' cap i = Some (r, True)"
    using assms(1)
  proof (rule ht_probe_induct [where P = "\<lambda>i r b. b \<longrightarrow> ht_probe key es' cap i = Some (r, True)"])
    fix i assume "key_at es i = None"
    show "False \<longrightarrow> ht_probe key es' cap i = Some (i, True)" by simp
  next
    fix i k assume *: "key_at es i = Some k" "strcmp_l key k = 0"
    then have "key_at es' i = Some k" using assms(2,3) by (metis option.distinct(1))
    then show "True \<longrightarrow> ht_probe key es' cap i = Some (i, True)" using * by (subst ht_probe_step) simp
  next
    fix i k r b assume *: "key_at es i = Some k" "strcmp_l key k \<noteq> 0"
      "b \<longrightarrow> ht_probe key es' cap (next_slot cap i) = Some (r, True)"
    then have "key_at es' i = Some k" using assms(2,3) by (metis option.distinct(1))
    then show "b \<longrightarrow> ht_probe key es' cap i = Some (r, True)" using * by (subst ht_probe_step) simp
  qed
  then show ?thesis by simp
qed

lemma ht_probe_fill_self:
  assumes "ht_probe key es cap i = Some (j, False)" "key_at es' j = Some k0" "strcmp_l key k0 = 0"
    and "\<And>l. l \<noteq> j \<Longrightarrow> key_at es' l = key_at es l"
  shows "ht_probe key es' cap i = Some (j, True)"
proof -
  have j: "key_at es j = None" using ht_probe_key [OF assms(1)] by simp
  have "\<not> False \<and> j = j \<longrightarrow> ht_probe key es' cap i = Some (j, True)"
    using assms(1)
  proof (rule ht_probe_induct [where P = "\<lambda>i r b. \<not> b \<and> r = j \<longrightarrow> ht_probe key es' cap i = Some (r, True)"])
    fix i assume "key_at es i = None"
    show "\<not> False \<and> i = j \<longrightarrow> ht_probe key es' cap i = Some (i, True)"
      using assms(2,3) by (subst ht_probe_step) auto
  next
    fix i k r b assume *: "key_at es i = Some k" "strcmp_l key k \<noteq> 0"
      "\<not> b \<and> r = j \<longrightarrow> ht_probe key es' cap (next_slot cap i) = Some (r, True)"
    then have "i \<noteq> j" using j by auto
    then have "key_at es' i = Some k" using assms(4) * by simp
    then show "\<not> b \<and> r = j \<longrightarrow> ht_probe key es' cap i = Some (r, True)" using * by (subst ht_probe_step) simp
  qed simp
  then show ?thesis by simp
qed

lemma ht_probe_cong:
  assumes "\<And>l. key_at es' l = key_at es l"
  shows "ht_probe key es' cap i = Some (r, b) \<longleftrightarrow> ht_probe key es cap i = Some (r, b)"
proof -
  have "ht_probe key es2 cap i = Some (r, b)" if "ht_probe key es1 cap i = Some (r, b)" "\<And>l. key_at es2 l = key_at es1 l" for es1 es2
    using that(1)
  proof (rule ht_probe_induct)
    fix i k r b assume "key_at es1 i = Some k" "strcmp_l key k \<noteq> 0" "ht_probe key es2 cap (next_slot cap i) = Some (r, b)"
    then show "ht_probe key es2 cap i = Some (r, b)" using that(2) by (subst ht_probe_step) simp
  qed (subst ht_probe_step, simp add: that(2))+
  then show ?thesis using assms by metis
qed

section \<open>The invariant and the abstract map\<close>

text \<open>The array: its keys and values are C strings that fit, and the search for each key ends at its slot.\<close>

definition es_inv :: "ht_entry list \<Rightarrow> nat \<Rightarrow> bool" where
  "es_inv es cap \<longleftrightarrow> length es = cap \<and> (\<exists>j < 31. cap = 2 ^ j) \<and>
     (\<forall>i < cap. \<forall>k. key_at es i = Some k \<longrightarrow>
        0 \<notin> set k \<and> length (e_value (es ! i)) < VALUE_SIZE \<and> ht_probe k es cap (ht_index k cap) = Some (i, True))"

definition ht_inv :: "ht \<Rightarrow> bool" where
  "ht_inv t \<longleftrightarrow> es_inv (ht_entries t) (ht_capacity t) \<and> 16 \<le> ht_capacity t \<and>
     ht_length_f t = int (ht_filled (ht_entries t)) \<and> 2 * ht_filled (ht_entries t) \<le> ht_capacity t"

text \<open>The map a table stands for.\<close>

definition es_abs :: "ht_entry list \<Rightarrow> byte list \<Rightarrow> byte list option" where
  "es_abs es k = map_option e_value (find (\<lambda>e. e_key e = Some k) es)"

definition ht_abs :: "ht \<Rightarrow> byte list \<Rightarrow> byte list option" where
  "ht_abs t = es_abs (ht_entries t)"

lemma es_inv_index: "es_inv es cap \<Longrightarrow> ht_index k cap < cap"
proof -
  assume "es_inv es cap"
  then obtain j where "j < 31" "cap = 2 ^ j" by (auto simp: es_inv_def)
  then show ?thesis using ht_index_less [of j k] by simp
qed

lemma es_inv_slot:
  assumes "es_inv es cap" "i < cap" "key_at es i = Some k"
  shows "0 \<notin> set k" "length (e_value (es ! i)) < VALUE_SIZE" "ht_probe k es cap (ht_index k cap) = Some (i, True)"
  using assms by (auto simp: es_inv_def)

lemma es_abs_None: "length es = cap \<Longrightarrow> es_abs es k = None \<longleftrightarrow> (\<forall>i < cap. key_at es i \<noteq> Some k)"
  by (auto simp: es_abs_def find_None_iff key_at_def in_set_conv_nth)

lemma es_abs_slot:
  assumes "es_inv es cap" "i < cap" "key_at es i = Some k"
  shows "es_abs es k = Some (e_value (es ! i))"
proof -
  have len: "length es = cap" using assms(1) by (simp add: es_inv_def)
  then obtain e where e: "find (\<lambda>e. e_key e = Some k) es = Some e"
    using es_abs_None [of es cap k] assms(2,3) by (cases "find (\<lambda>e. e_key e = Some k) es") (auto simp: es_abs_def)
  then obtain i' where i': "i' < cap" "key_at es i' = Some k" "e = es ! i'"
    using len by (auto simp: find_Some_iff key_at_def)
  have "i' = i" using es_inv_slot(3) [OF assms] es_inv_slot(3) [OF assms(1) i'(1,2)] by simp
  then show ?thesis using e i' by (simp add: es_abs_def)
qed

lemma ht_filled_less: "ht_filled es < length es \<Longrightarrow> \<exists>j < length es. key_at es j = None"
proof (rule ccontr)
  assume *: "ht_filled es < length es" "\<not> (\<exists>j < length es. key_at es j = None)"
  then have "\<forall>e \<in> set es. e_key e \<noteq> None" by (auto simp: in_set_conv_nth key_at_def)
  then have "filter (\<lambda>e. e_key e \<noteq> None) es = es" by (simp add: filter_id_conv)
  then show False using * by (simp add: ht_filled_def)
qed

text \<open>The search in a table with room: it ends, in the slot of the key or in an empty one.\<close>

lemma ht_probe_total:
  assumes "es_inv es cap" "ht_filled es < cap" "0 \<notin> set key"
  shows "\<exists>i < cap. (es_abs es key \<noteq> None \<and> key_at es i = Some key \<and> ht_probe key es cap (ht_index key cap) = Some (i, True)) \<or>
    (es_abs es key = None \<and> key_at es i = None \<and> ht_probe key es cap (ht_index key cap) = Some (i, False))"
proof -
  have len: "length es = cap" using assms(1) by (simp add: es_inv_def)
  obtain j where j: "j < cap" "key_at es j = None" using ht_filled_less [of es] assms(2) len by auto
  obtain i b where i: "ht_probe key es cap (ht_index key cap) = Some (i, b)" "i < cap"
    using ht_probe_ends [OF es_inv_index [OF assms(1)] j] by blast
  have "b \<Longrightarrow> key_at es i = Some key"
    using ht_probe_key [OF i(1)] es_inv_slot(1) [OF assms(1) i(2)] assms(3) by (auto simp: strcmp_l_0_iff)
  moreover have "\<not> b \<Longrightarrow> key_at es i = None" using ht_probe_key [OF i(1)] by simp
  moreover have "\<not> b \<Longrightarrow> es_abs es key = None"
    using i(1) es_inv_slot(3) [OF assms(1), of _ key] by (auto simp: es_abs_None [OF len])
  moreover have "b \<Longrightarrow> es_abs es key \<noteq> None" using calculation(1) i(2) by (auto simp: es_abs_None [OF len])
  ultimately show ?thesis using i by (cases b) auto
qed

section \<open>Setting an entry\<close>

lemma length_filter_update:
  "i < length xs \<Longrightarrow> length (filter P (xs[i := x])) + (if P (xs ! i) then 1 else 0) =
    length (filter P xs) + (if P x then 1 else 0)"
proof (induction xs arbitrary: i)
  case (Cons a xs)
  then show ?case by (cases i) auto
qed simp

text \<open>The array after slot \<open>i\<close>, where the search for \<open>key\<close> ended, got the key and the value.\<close>

lemma es_inv_put:
  assumes inv: "es_inv es cap" and i: "i < cap" and kv: "0 \<notin> set key" "length value < VALUE_SIZE"
    and pr: "ht_probe key es cap (ht_index key cap) = Some (i, b)"
    and slot: "key_at es i = (if b then Some key else None)"
    and e: "e_key e = Some key" "e_value e = value"
  shows "es_inv (es[i := e]) cap" (is "es_inv ?es cap")
proof -
  have len: "length es = cap" using inv by (simp add: es_inv_def)
  have ka: "key_at ?es l = (if l = i then Some key else key_at es l)" for l
    using i len e by (simp add: key_at_def)
  have self: "ht_probe key ?es cap (ht_index key cap) = Some (i, True)"
  proof (cases b)
    case True
    then show ?thesis using pr slot ka ht_probe_cong [of ?es es] by auto
  next
    case False
    then show ?thesis using pr ka strcmp_l_0_iff [OF kv(1) kv(1)] by (intro ht_probe_fill_self [of key es _ _ i ?es key]) auto
  qed
  have other: "ht_probe k ?es cap (ht_index k cap) = Some (l, True)" if "l < cap" "l \<noteq> i" "key_at es l = Some k" for k l
  proof (cases b)
    case True
    then show ?thesis using es_inv_slot(3) [OF inv that(1,3)] slot ka ht_probe_cong [of ?es es] by auto
  next
    case False
    then show ?thesis using es_inv_slot(3) [OF inv that(1,3)] slot ka
      by (intro ht_probe_fill_other [of k es cap _ l i ?es]) auto
  qed
  have "0 \<notin> set k \<and> length (e_value (?es ! l)) < VALUE_SIZE \<and> ht_probe k ?es cap (ht_index k cap) = Some (l, True)"
    if "l < cap" "key_at ?es l = Some k" for l k
  proof (cases "l = i")
    case True
    then show ?thesis using that self kv e len ka by auto
  next
    case False
    then have "key_at es l = Some k" using that(2) ka by simp
    then show ?thesis using False other [OF that(1)] es_inv_slot [OF inv that(1)] by simp
  qed
  then show ?thesis using inv len by (simp add: es_inv_def)
qed

lemma es_abs_put:
  assumes inv: "es_inv es cap" "es_inv (es[i := e]) cap" and i: "i < cap"
    and slot: "key_at es i = Some key \<or> key_at es i = None"
    and e: "e_key e = Some key" "e_value e = value"
  shows "es_abs (es[i := e]) = (es_abs es)(key \<mapsto> value)"
proof
  fix k
  have len: "length es = cap" using inv by (simp add: es_inv_def)
  have ka: "key_at (es[i := e]) l = (if l = i then Some key else key_at es l)" for l
    using i len e by (simp add: key_at_def)
  show "es_abs (es[i := e]) k = ((es_abs es)(key \<mapsto> value)) k"
  proof (cases "k = key")
    case True
    then show ?thesis using es_abs_slot [OF inv(2) i, of key] ka i len e by simp
  next
    case False
    show ?thesis
    proof (cases "\<exists>l < cap. key_at es l = Some k")
      case True
      then obtain l where l: "l < cap" "key_at es l = Some k" by blast
      then have "l \<noteq> i" using slot False by auto
      then show ?thesis using es_abs_slot [OF inv(1) l] es_abs_slot [OF inv(2) l(1), of k] l(2) ka False by simp
    next
      case None: False
      then have "es_abs es k = None" "es_abs (es[i := e]) k = None"
        using False ka len by (auto simp: es_abs_None [where cap = cap])
      then show ?thesis using False by simp
    qed
  qed
qed

lemma ht_set_entry_effect:
  assumes "es_inv es cap" "ht_filled es < cap" "0 \<notin> set key" "length value < VALUE_SIZE"
    and "plength = None \<or> ok \<or> es_abs es key \<noteq> None"
  shows "\<exists>es'. ht_set_entry ok es cap key value plength =
      Some (Inr (key, es', if es_abs es key = None then map_option (\<lambda>n. n + 1) plength else plength)) \<and>
    es_inv es' cap \<and> es_abs es' = (es_abs es)(key \<mapsto> value) \<and>
    ht_filled es' = ht_filled es + (if es_abs es key = None then 1 else 0)"
proof -
  have len: "length es = cap" using assms(1) by (simp add: es_inv_def)
  obtain i b where i: "i < cap" "ht_probe key es cap (ht_index key cap) = Some (i, b)"
      "key_at es i = (if b then Some key else None)" "b \<longleftrightarrow> es_abs es key \<noteq> None"
    using ht_probe_total [OF assms(1-3)] by (metis option.distinct(1))
  define e where "e = (es ! i)\<lparr>e_key := Some key, e_value := value\<rparr>"
  have e: "e_key e = Some key" "e_value e = value" by (simp_all add: e_def)
  have inv: "es_inv (es[i := e]) cap" by (rule es_inv_put [OF assms(1) i(1) assms(3,4) i(2,3) e])
  have abs: "es_abs (es[i := e]) = (es_abs es)(key \<mapsto> value)"
    using es_abs_put [OF assms(1) inv i(1) _ e] i(3) by (cases b) auto
  have fill: "ht_filled (es[i := e]) = ht_filled es + (if es_abs es key = None then 1 else 0)"
    using length_filter_update [of i es "\<lambda>e. e_key e \<noteq> None" e] i e len by (auto simp: ht_filled_def key_at_def)
  have "ht_set_entry ok es cap key value plength =
      Some (Inr (key, es[i := e], if es_abs es key = None then map_option (\<lambda>n. n + 1) plength else plength))"
  proof (cases b)
    case True
    then have "(es ! i)\<lparr>e_value := value\<rparr> = e" using i(3) by (simp add: e_def key_at_def)
    then show ?thesis using True i assms(4) by (auto simp: ht_set_entry_def set_value_def)
  next
    case False
    then show ?thesis using i assms(4,5) len by (auto simp: ht_set_entry_def set_value_def e_def)
  qed
  then show ?thesis using inv abs fill by blast
qed

section \<open>Growing the table\<close>

definition ht_keys :: "ht_entry list \<Rightarrow> byte list list" where
  "ht_keys es = List.map_filter e_key es"

lemma ht_keys_simps [simp]:
  "ht_keys [] = []" "ht_keys (e # es) = (case e_key e of None \<Rightarrow> ht_keys es | Some k \<Rightarrow> k # ht_keys es)"
  by (simp_all add: ht_keys_def List.map_filter_simps split: option.split)

lemma set_ht_keys: "k \<in> set (ht_keys es) \<longleftrightarrow> (\<exists>e \<in> set es. e_key e = Some k)"
  by (induction es) (auto split: option.splits)

lemma ht_filled_simps [simp]:
  "ht_filled [] = 0" "ht_filled (e # es) = (if e_key e = None then ht_filled es else Suc (ht_filled es))"
  by (simp_all add: ht_filled_def)

lemma es_abs_simps:
  "es_abs [] k = None" "es_abs (e # es) k = (if e_key e = Some k then Some (e_value e) else es_abs es k)"
  by (simp_all add: es_abs_def)

lemma es_abs_ht_keys: "es_abs es k = None \<longleftrightarrow> k \<notin> set (ht_keys es)"
  by (induction es) (auto simp: es_abs_simps split: option.split)

lemma es_inv_distinct:
  assumes "es_inv es cap"
  shows "distinct (ht_keys es)"
proof -
  have "distinct (ht_keys xs)"
    if "\<And>i j k. i < length xs \<Longrightarrow> j < length xs \<Longrightarrow> e_key (xs ! i) = Some k \<Longrightarrow> e_key (xs ! j) = Some k \<Longrightarrow> i = j" for xs
    using that
  proof (induction xs)
    case (Cons e xs)
    have IH: "distinct (ht_keys xs)"
    proof (rule Cons.IH)
      fix i j k assume "i < length xs" "j < length xs" "e_key (xs ! i) = Some k" "e_key (xs ! j) = Some k"
      then show "i = j" using Cons.prems [of "Suc i" "Suc j" k] by simp
    qed
    have "k \<notin> set (ht_keys xs)" if "e_key e = Some k" for k
    proof
      assume "k \<in> set (ht_keys xs)"
      then obtain e' where "e' \<in> set xs" "e_key e' = Some k" by (auto simp: set_ht_keys)
      then obtain j where "j < length xs" "e_key (xs ! j) = Some k" by (metis in_set_conv_nth)
      then show False using Cons.prems [of 0 "Suc j" k] that by simp
    qed
    then show ?case using IH by (auto split: option.split)
  qed simp
  moreover have "i = j" if "i < length es" "j < length es" "e_key (es ! i) = Some k" "e_key (es ! j) = Some k" for i j k
    using that assms es_inv_slot(3) [OF assms, of i k] es_inv_slot(3) [OF assms, of j k]
    by (auto simp: key_at_def es_inv_def)
  ultimately show ?thesis by blast
qed

definition entry_ok :: "ht_entry \<Rightarrow> bool" where
  "entry_ok e \<longleftrightarrow> (\<forall>k. e_key e = Some k \<longrightarrow> 0 \<notin> set k \<and> length (e_value e) < VALUE_SIZE)"

lemma expand_loop_effect:
  assumes "es_inv ns cap" "ht_filled ns + ht_filled es < cap" "\<forall>e \<in> set es. entry_ok e"
    and "distinct (ht_keys es)" "\<forall>k \<in> set (ht_keys es). es_abs ns k = None"
  shows "\<exists>ns'. expand_loop es cap ns = Some (Inr ns') \<and> es_inv ns' cap \<and>
    ht_filled ns' = ht_filled ns + ht_filled es \<and> es_abs ns' = es_abs ns ++ es_abs es"
  using assms
proof (induction es arbitrary: ns)
  case Nil
  then show ?case by (auto simp: es_abs_simps map_add_def)
next
  case (Cons e es)
  show ?case
  proof (cases "e_key e")
    case None
    then have "es_abs (e # es) = es_abs es" by (auto simp: es_abs_simps)
    then show ?thesis using Cons None by simp
  next
    case (Some k)
    have k: "0 \<notin> set k" "length (e_value e) < VALUE_SIZE" "es_abs ns k = None" "k \<notin> set (ht_keys es)"
      using Cons.prems Some by (auto simp: entry_ok_def)
    obtain ns1 where n1: "ht_set_entry True ns cap k (e_value e) None = Some (Inr (k, ns1, None))"
        "es_inv ns1 cap" "es_abs ns1 = (es_abs ns)(k \<mapsto> e_value e)" "ht_filled ns1 = Suc (ht_filled ns)"
      using ht_set_entry_effect [of ns cap k "e_value e" None True] Cons.prems k Some by auto
    have "\<exists>ns'. expand_loop es cap ns1 = Some (Inr ns') \<and> es_inv ns' cap \<and>
        ht_filled ns' = ht_filled ns1 + ht_filled es \<and> es_abs ns' = es_abs ns1 ++ es_abs es"
      using Cons.prems Some n1 k by (intro Cons.IH) auto
    moreover have "es_abs ns1 ++ es_abs es = es_abs ns ++ es_abs (e # es)"
    proof
      fix k'
      show "(es_abs ns1 ++ es_abs es) k' = (es_abs ns ++ es_abs (e # es)) k'"
        using n1(3) Some k(4) by (auto simp: map_add_def es_abs_simps es_abs_ht_keys [symmetric] split: option.split)
    qed
    ultimately show ?thesis using Some n1 by auto
  qed
qed

lemma es_inv_replicate: "j < 31 \<Longrightarrow> es_inv (replicate (2 ^ j) empty_entry) (2 ^ j)"
  by (auto simp: es_inv_def key_at_def empty_entry_def)

lemma es_abs_replicate: "es_abs (replicate n empty_entry) = Map.empty"
proof
  fix k show "es_abs (replicate n empty_entry) k = None" by (induction n) (auto simp: es_abs_simps empty_entry_def)
qed

lemma ht_filled_replicate: "ht_filled (replicate n empty_entry) = 0"
  by (induction n) (auto simp: empty_entry_def)

lemma es_inv_entry_ok: "es_inv es cap \<Longrightarrow> \<forall>e \<in> set es. entry_ok e"
  by (auto simp: es_inv_def entry_ok_def in_set_conv_nth key_at_def)

text \<open>The sizes for which the \<open>int\<close> computed in \<open>calloc\<close> does not overflow.\<close>

definition ht_roomy :: "ht \<Rightarrow> bool" where
  "ht_roomy t \<longleftrightarrow> 2 * ht_capacity t * ENTRY_SIZE < 2 ^ 31"

lemma ht_expand_effect:
  assumes "ht_inv t" "ht_roomy t"
  shows "ht_expand False t = Some (Inr (False, t))"
    and "\<exists>t'. ht_expand True t = Some (Inr (True, t')) \<and> ht_inv t' \<and> ht_abs t' = ht_abs t \<and>
      ht_capacity t' = 2 * ht_capacity t \<and> ht_length_f t' = ht_length_f t"
proof -
  define cap es where "cap = ht_capacity t" and "es = ht_entries t"
  have inv: "es_inv es cap" "16 \<le> cap" "2 * ht_filled es \<le> cap" "ht_length_f t = int (ht_filled es)" "length es = cap"
    using assms(1) by (auto simp: ht_inv_def cap_def es_def es_inv_def)
  have room: "2 * cap * 136 < 2 ^ 31" using assms(2) by (simp add: ht_roomy_def cap_def ENTRY_SIZE_def)
  obtain j where j: "cap = 2 ^ j" "j < 31" using inv(1) by (auto simp: es_inv_def)
  have "Suc j < 31"
  proof (rule ccontr)
    assume "\<not> Suc j < 31"
    then have "(2::nat) ^ 30 \<le> 2 ^ j" by (intro power_increasing) auto
    then show False using room j by simp
  qed
  then have j2: "2 * cap = 2 ^ Suc j" "Suc j < 31" using j by simp_all
  have w: "wrap_int (2 * int cap) = 2 * int cap" using room by (intro wrap_int_id) auto
  show "ht_expand False t = Some (Inr (False, t))"
    using room w by (simp add: ht_expand_def Let_def calloc_entries_def cap_def ENTRY_SIZE_def nat_mult_distrib)
  have n: "es_inv (replicate (2 * cap) empty_entry) (2 * cap)" unfolding j2(1) by (rule es_inv_replicate [OF j2(2)])
  obtain ns where ns: "expand_loop es (2 * cap) (replicate (2 * cap) empty_entry) = Some (Inr ns)" "es_inv ns (2 * cap)"
      "ht_filled ns = ht_filled es" "es_abs ns = es_abs es"
    using expand_loop_effect [OF n, of es] inv es_inv_entry_ok [OF inv(1)] es_inv_distinct [OF inv(1)]
    by (auto simp: ht_filled_replicate es_abs_replicate)
  have "ht_expand True t = Some (Inr (True, t\<lparr>ht_entries := ns, ht_capacity := 2 * cap\<rparr>))"
    using room w ns(1) inv(5)
    by (simp add: ht_expand_def Let_def calloc_entries_def cap_def es_def ENTRY_SIZE_def nat_mult_distrib)
  then show "\<exists>t'. ht_expand True t = Some (Inr (True, t')) \<and> ht_inv t' \<and> ht_abs t' = ht_abs t \<and>
      ht_capacity t' = 2 * ht_capacity t \<and> ht_length_f t' = ht_length_f t"
    using ns inv by (auto simp: ht_inv_def ht_abs_def cap_def es_def)
qed

section \<open>The table as a map\<close>

lemma ht_create_effect:
  "\<exists>t. ht_create True True = Inr (Some t) \<and> ht_inv t \<and> ht_abs t = Map.empty \<and> ht_length_f t = 0 \<and> ht_capacity t = 16"
  using es_inv_replicate [of 4]
  by (auto simp: ht_create_def calloc_entries_def INITIAL_CAPACITY_def ENTRY_SIZE_def ht_inv_def ht_abs_def
      es_abs_replicate ht_filled_replicate)

lemma ht_set_here_effect:
  assumes "ht_inv t" "2 * ht_filled (ht_entries t) + 2 \<le> ht_capacity t" "0 \<notin> set key" "length value < VALUE_SIZE"
  shows "if ht_abs t key = None \<and> \<not> ok then ht_set_here ok t key value = Some (Inl (Undefined ''strdup: null''))
    else \<exists>t'. ht_set_here ok t key value = Some (Inr (Some key, t')) \<and> ht_inv t' \<and> ht_abs t' = (ht_abs t)(key \<mapsto> value) \<and>
      ht_capacity t' = ht_capacity t \<and> ht_length_f t' = ht_length_f t + (if ht_abs t key = None then 1 else 0)"
proof (cases "ht_abs t key = None \<and> \<not> ok")
  case True
  then obtain i where "ht_probe key (ht_entries t) (ht_capacity t) (ht_index key (ht_capacity t)) = Some (i, False)"
    using ht_probe_total [of "ht_entries t" "ht_capacity t" key] assms by (auto simp: ht_inv_def ht_abs_def)
  then show ?thesis using True by (simp add: ht_set_here_def ht_set_entry_def)
next
  case False
  then obtain es where "ht_set_entry ok (ht_entries t) (ht_capacity t) key value (Some (ht_length_f t)) =
        Some (Inr (key, es, if ht_abs t key = None then Some (ht_length_f t + 1) else Some (ht_length_f t)))"
      "es_inv es (ht_capacity t)" "es_abs es = (ht_abs t)(key \<mapsto> value)"
      "ht_filled es = ht_filled (ht_entries t) + (if ht_abs t key = None then 1 else 0)"
    using ht_set_entry_effect [of "ht_entries t" "ht_capacity t" key "value" "Some (ht_length_f t)" ok] assms
    by (auto simp: ht_inv_def ht_abs_def)
  then show ?thesis using False assms(1,2) by (auto simp: ht_set_here_def ht_inv_def ht_abs_def)
qed

lemma ht_set_effect:
  assumes inv: "ht_inv t" "ht_roomy t" and kv: "0 \<notin> set key" "length value < VALUE_SIZE"
  shows "if ht_length_f t \<ge> int (ht_capacity t div 2) \<and> \<not> ok1 then ht_set ok1 ok2 t key value = Some (Inr (None, t))
    else if ht_abs t key = None \<and> \<not> ok2 then ht_set ok1 ok2 t key value = Some (Inl (Undefined ''strdup: null''))
    else \<exists>t'. ht_set ok1 ok2 t key value = Some (Inr (Some key, t')) \<and> ht_inv t' \<and> ht_abs t' = (ht_abs t)(key \<mapsto> value) \<and>
      ht_length_f t' = ht_length_f t + (if ht_abs t key = None then 1 else 0) \<and>
      ht_capacity t' = (if ht_length_f t \<ge> int (ht_capacity t div 2) then 2 * ht_capacity t else ht_capacity t)"
proof (cases "ht_length_f t \<ge> int (ht_capacity t div 2)")
  case True
  show ?thesis
  proof (cases ok1)
    case ok: True
    obtain t1 where t1: "ht_expand True t = Some (Inr (True, t1))" "ht_inv t1" "ht_abs t1 = ht_abs t"
        "ht_capacity t1 = 2 * ht_capacity t" "ht_length_f t1 = ht_length_f t"
      using ht_expand_effect(2) [OF inv] by blast
    have "2 * ht_filled (ht_entries t1) + 2 \<le> ht_capacity t1" using t1 inv(1) by (auto simp: ht_inv_def)
    note here = ht_set_here_effect [OF t1(2) this kv, of ok2, unfolded t1(3-5)]
    have "ht_set ok1 ok2 t key value = ht_set_here ok2 t1 key value" using True ok t1(1) by (simp add: ht_set_def)
    then show ?thesis using here True ok by (cases "ht_abs t key = None \<and> \<not> ok2") (auto split: if_splits)
  next
    case False
    then show ?thesis using True ht_expand_effect(1) [OF inv] by (simp add: ht_set_def)
  qed
next
  case False
  then have "2 * ht_filled (ht_entries t) + 2 \<le> ht_capacity t" using inv(1) by (auto simp: ht_inv_def)
  note here = ht_set_here_effect [OF inv(1) this kv, of ok2]
  have "ht_set ok1 ok2 t key value = ht_set_here ok2 t key value" using False by (simp add: ht_set_def)
  then show ?thesis using here False by (cases "ht_abs t key = None \<and> \<not> ok2") (auto split: if_splits)
qed

text \<open>
  The interface the users of the table rely on: a get always returns, with the value of the key; a put always returns,
  and changes the value of its key only, as long as the budget \<open>n\<close> of puts lasts.
\<close>

locale string_map =
  fixes inv :: "nat \<Rightarrow> 't \<Rightarrow> bool" and abs :: "'t \<Rightarrow> byte list \<Rightarrow> byte list option"
    and get :: "'t \<Rightarrow> byte list \<Rightarrow> byte list option option"
    and put :: "'t \<Rightarrow> byte list \<Rightarrow> byte list \<Rightarrow> (byte list option \<times> 't) res option"
  assumes get_abs: "inv n t \<Longrightarrow> 0 \<notin> set k \<Longrightarrow> get t k = Some (abs t k)"
    and put_abs: "inv (Suc n) t \<Longrightarrow> 0 \<notin> set k \<Longrightarrow> length v < VALUE_SIZE \<Longrightarrow>
      \<exists>t'. put t k v = Some (Inr (Some k, t')) \<and> inv n t' \<and> abs t' = (abs t)(k \<mapsto> v)"

primrec put_all :: "('t \<Rightarrow> byte list \<Rightarrow> byte list \<Rightarrow> (byte list option \<times> 't) res option) \<Rightarrow>
    (byte list \<times> byte list) list \<Rightarrow> 't \<Rightarrow> 't res option" where
  "put_all put [] t = Some (Inr t)"
| "put_all put (kv # kvs) t =
     (case put t (fst kv) (snd kv) of
        None \<Rightarrow> None
      | Some (Inl err) \<Rightarrow> Some (Inl err)
      | Some (Inr (_, t)) \<Rightarrow> put_all put kvs t)"

definition pair_ok :: "byte list \<times> byte list \<Rightarrow> bool" where
  "pair_ok kv \<longleftrightarrow> 0 \<notin> set (fst kv) \<and> length (snd kv) < VALUE_SIZE"

context string_map
begin

lemma put_all_abs:
  "inv (length kvs + n) t \<Longrightarrow> \<forall>kv \<in> set kvs. pair_ok kv \<Longrightarrow>
    \<exists>t'. put_all put kvs t = Some (Inr t') \<and> inv n t' \<and> abs t' = abs t ++ map_of (rev kvs)"
proof (induction kvs arbitrary: t)
  case (Cons kv kvs)
  obtain k v where kv: "kv = (k, v)" by (cases kv)
  obtain t1 where t1: "put t k v = Some (Inr (Some k, t1))" "inv (length kvs + n) t1" "abs t1 = (abs t)(k \<mapsto> v)"
    using put_abs [of "length kvs + n" t k v] Cons.prems by (auto simp: kv pair_ok_def)
  have "\<forall>kv \<in> set kvs. pair_ok kv" using Cons.prems(2) by simp
  then obtain t' where "put_all put kvs t1 = Some (Inr t')" "inv n t'" "abs t' = abs t1 ++ map_of (rev kvs)"
    using Cons.IH [OF t1(2)] by blast
  then show ?case using t1 by (simp add: kv)
qed simp

lemma put_all_get:
  assumes "inv (length kvs + n) t" "\<forall>kv \<in> set kvs. pair_ok kv" "0 \<notin> set k"
  shows "\<exists>t'. put_all put kvs t = Some (Inr t') \<and> get t' k = Some ((abs t ++ map_of (rev kvs)) k)"
  using put_all_abs [OF assms(1,2)] get_abs assms(3) by metis

end

text \<open>The budget: half a million entries.\<close>

definition ht_budget :: "nat \<Rightarrow> ht \<Rightarrow> bool" where
  "ht_budget n t \<longleftrightarrow> ht_inv t \<and> ht_capacity t \<le> max 16 (8 * nat (ht_length_f t)) \<and> nat (ht_length_f t) + n \<le> 2 ^ 19"

lemma ht_get_abs:
  assumes "es_inv (ht_entries t) (ht_capacity t)" "ht_filled (ht_entries t) < ht_capacity t" "0 \<notin> set k"
  shows "ht_get t k = Some (ht_abs t k)"
proof -
  obtain i where "i < ht_capacity t" "(ht_abs t k \<noteq> None \<and> key_at (ht_entries t) i = Some k \<and>
        ht_probe k (ht_entries t) (ht_capacity t) (ht_index k (ht_capacity t)) = Some (i, True)) \<or>
      (ht_abs t k = None \<and> ht_probe k (ht_entries t) (ht_capacity t) (ht_index k (ht_capacity t)) = Some (i, False))"
    using ht_probe_total [OF assms] unfolding ht_abs_def by blast
  then show ?thesis using es_abs_slot [OF assms(1), of i k] by (auto simp: ht_get_def ht_abs_def)
qed

interpretation htm: string_map ht_budget ht_abs ht_get "ht_set True True"
proof
  fix n t and k v :: "byte list"
  { assume b: "ht_budget n t" and k: "0 \<notin> set k"
    then show "ht_get t k = Some (ht_abs t k)" by (intro ht_get_abs) (auto simp: ht_budget_def ht_inv_def) }
  { assume b: "ht_budget (Suc n) t" and kv: "0 \<notin> set k" "length v < VALUE_SIZE"
    then have f: "ht_inv t" "ht_roomy t" by (auto simp: ht_budget_def ht_roomy_def ENTRY_SIZE_def)
    obtain t' where t': "ht_set True True t k v = Some (Inr (Some k, t'))" "ht_inv t'" "ht_abs t' = (ht_abs t)(k \<mapsto> v)"
        "ht_length_f t' = ht_length_f t + (if ht_abs t k = None then 1 else 0)"
        "ht_capacity t' = (if ht_length_f t \<ge> int (ht_capacity t div 2) then 2 * ht_capacity t else ht_capacity t)"
      using ht_set_effect [OF f kv, of True True] by auto
    have l: "ht_length_f t = int (ht_filled (ht_entries t))" "16 \<le> ht_capacity t" using f(1) by (auto simp: ht_inv_def)
    have len: "nat (ht_length_f t') \<le> Suc (nat (ht_length_f t))" "nat (ht_length_f t) \<le> nat (ht_length_f t')"
      using t'(4) l(1) by auto
    have "ht_capacity t' \<le> max 16 (8 * nat (ht_length_f t'))"
    proof (cases "ht_length_f t \<ge> int (ht_capacity t div 2)")
      case True
      then show ?thesis using t'(5) l len by auto
    next
      case False
      then have "ht_capacity t' \<le> max 16 (8 * nat (ht_length_f t))" using t'(5) b by (simp add: ht_budget_def)
      also have "\<dots> \<le> max 16 (8 * nat (ht_length_f t'))" using len by (intro max.mono) auto
      finally show ?thesis .
    qed
    then have "ht_budget n t'" using t'(2) b len by (auto simp: ht_budget_def)
    then show "\<exists>t'. ht_set True True t k v = Some (Inr (Some k, t')) \<and> ht_budget n t' \<and> ht_abs t' = (ht_abs t)(k \<mapsto> v)"
      using t' by blast }
qed

section \<open>Iterating\<close>

text \<open>The pairs of a table in the order of the slots, and what a loop of \<open>ht_next\<close> visits.\<close>

definition ht_pairs :: "ht_entry list \<Rightarrow> (byte list \<times> byte list) list" where
  "ht_pairs es = List.map_filter (\<lambda>e. map_option (\<lambda>k. (k, e_value e)) (e_key e)) es"

lemma ht_pairs_simps [simp]:
  "ht_pairs [] = []"
  "ht_pairs (e # es) = (case e_key e of None \<Rightarrow> ht_pairs es | Some k \<Rightarrow> (k, e_value e) # ht_pairs es)"
  by (simp_all add: ht_pairs_def List.map_filter_simps split: option.split)

fun ht_walk :: "nat \<Rightarrow> ht \<Rightarrow> hti \<Rightarrow> (byte list \<times> byte list) list option" where
  "ht_walk 0 t it = None"
| "ht_walk (Suc n) t it =
     (case ht_next t it of
        (False, _) \<Rightarrow> Some []
      | (True, it) \<Rightarrow> map_option ((#) (it_key it, it_value it)) (ht_walk n t it))"

lemma ht_next_drop:
  assumes "length (ht_entries t) = ht_capacity t"
  shows "case ht_next t it of
      (False, it') \<Rightarrow> ht_pairs (drop (it_index it) (ht_entries t)) = []
    | (True, it') \<Rightarrow> it_index it < it_index it' \<and> it_index it' \<le> ht_capacity t \<and>
        ht_pairs (drop (it_index it) (ht_entries t)) = (it_key it', it_value it') # ht_pairs (drop (it_index it') (ht_entries t))"
  using assms
proof (induction t it rule: ht_next.induct)
  case (1 t it)
  let ?i = "it_index it"
  show ?case
  proof (cases "?i < ht_capacity t")
    case True
    then have d: "drop ?i (ht_entries t) = ht_entries t ! ?i # drop (Suc ?i) (ht_entries t)"
      using 1(2) by (simp add: Cons_nth_drop_Suc)
    show ?thesis
    proof (cases "e_key (ht_entries t ! ?i)")
      case None
      then have "ht_next t it = ht_next t (it\<lparr>it_index := Suc ?i\<rparr>)" using True by (subst ht_next.simps) (simp add: Let_def)
      then show ?thesis using 1(1) [OF True refl refl None 1(2)] d None by (auto split: prod.splits bool.splits)
    next
      case (Some k)
      then have "ht_next t it = (True, it\<lparr>it_index := Suc ?i, it_key := k, it_value := e_value (ht_entries t ! ?i)\<rparr>)"
        using True by (subst ht_next.simps) (simp add: Let_def)
      then show ?thesis using d Some True by simp
    qed
  next
    case False
    then show ?thesis using 1(2) by (subst ht_next.simps) simp
  qed
qed

lemma ht_walk_drop:
  assumes "length (ht_entries t) = ht_capacity t" "it_index it \<le> ht_capacity t" "ht_capacity t < it_index it + n"
  shows "ht_walk n t it = Some (ht_pairs (drop (it_index it) (ht_entries t)))"
  using assms(2,3)
proof (induction n arbitrary: it)
  case 0
  then show ?case by simp
next
  case (Suc n)
  obtain b it' where n: "ht_next t it = (b, it')" by (cases "ht_next t it")
  show ?case using ht_next_drop [OF assms(1), of it] n Suc by (cases b) auto
qed

section \<open>The properties\<close>

text \<open>A search in a table that \<open>ht_create\<close> and \<open>ht_set\<close> built always ends, with the value of the key in the map the table
  stands for, \<open>NULL\<close> for a key it does not have: at least half of the slots are empty, so that no search can run
  round the table forever.\<close>

theorem ht_get_terminates:
  assumes "ht_inv t" "0 \<notin> set key"
  shows "ht_get t key = Some (ht_abs t key)"
proof -
  have f: "es_inv (ht_entries t) (ht_capacity t)" "ht_filled (ht_entries t) < ht_capacity t"
    using assms(1) by (auto simp: ht_inv_def)
  show ?thesis using ht_get_abs [OF f assms(2)] .
qed

text \<open>C24: \<open>ht_set\<close> refines the update of a finite map, the growing of the table included: when a needed larger array cannot
  be had it returns \<open>NULL\<close> and the table is as before; when the copy of a new key cannot be had, \<open>strdup\<close> writes
  through the null pointer; otherwise the map changes at the key only, the length counts its keys, and the
  invariant is kept.\<close>

theorem ht_set_refines_map:
  assumes "ht_inv t" "ht_roomy t" "0 \<notin> set key" "length value < VALUE_SIZE"
  shows "if ht_length t \<ge> int (ht_capacity t div 2) \<and> \<not> ok1 then ht_set ok1 ok2 t key value = Some (Inr (None, t))
    else if ht_abs t key = None \<and> \<not> ok2 then ht_set ok1 ok2 t key value = Some (Inl (Undefined ''strdup: null''))
    else \<exists>t'. ht_set ok1 ok2 t key value = Some (Inr (Some key, t')) \<and> ht_inv t' \<and> ht_abs t' = (ht_abs t)(key \<mapsto> value) \<and>
      ht_length t' = ht_length t + (if ht_abs t key = None then 1 else 0)"
  using ht_set_effect [OF assms, of ok1 ok2] unfolding ht_length_def
  by (cases "ht_length_f t \<ge> int (ht_capacity t div 2) \<and> \<not> ok1"; cases "ht_abs t key = None \<and> \<not> ok2") (auto split: if_splits)

text \<open>A new table filled by any sequence of at most \<open>2 ^ 19\<close> puts answers every get with the last value put for the key.\<close>

theorem ht_put_get_roundtrip:
  assumes "length kvs \<le> 2 ^ 19" "\<forall>kv \<in> set kvs. 0 \<notin> set (fst kv) \<and> length (snd kv) < VALUE_SIZE" "0 \<notin> set k"
  shows "\<exists>t t'. ht_create True True = Inr (Some t) \<and> put_all (ht_set True True) kvs t = Some (Inr t') \<and>
    ht_get t' k = Some (map_of (rev kvs) k)"
proof -
  obtain t where t: "ht_create True True = Inr (Some t)" "ht_inv t" "ht_abs t = Map.empty" "ht_length_f t = 0" "ht_capacity t = 16"
    using ht_create_effect by blast
  then have "ht_budget (length kvs + 0) t" using assms(1) by (simp add: ht_budget_def)
  moreover have "\<forall>kv \<in> set kvs. pair_ok kv" using assms(2) by (simp add: pair_ok_def)
  ultimately show ?thesis using htm.put_all_get [of kvs 0 t k] t assms(3) by auto
qed

text \<open>The iterator visits every pair of the table once, in the order of the slots, and then ends.\<close>

theorem ht_iterates_all:
  assumes "ht_inv t"
  shows "ht_walk (Suc (ht_capacity t)) t ht_iterator = Some (ht_pairs (ht_entries t)) \<and> distinct (map fst (ht_pairs (ht_entries t))) \<and>
    map_of (ht_pairs (ht_entries t)) = ht_abs t"
proof -
  have len: "length (ht_entries t) = ht_capacity t" using assms by (simp add: ht_inv_def es_inv_def)
  have "map fst (ht_pairs es) = ht_keys es" for es by (induction es) (auto split: option.split)
  moreover have "map_of (ht_pairs es) = es_abs es" for es
  proof
    fix k show "map_of (ht_pairs es) k = es_abs es k" by (induction es) (auto simp: es_abs_simps split: option.split)
  qed
  ultimately show ?thesis
    using ht_walk_drop [OF len, of ht_iterator "Suc (ht_capacity t)"] es_inv_distinct [of "ht_entries t"] assms
    by (auto simp: ht_iterator_def ht_inv_def ht_abs_def)
qed

text \<open>Instances: a table with \<open>PATH\<close> set to \<open>/bin\<close>.\<close>

definition ex_table :: ht where
  "ex_table = \<lparr>ht_entries = (replicate 16 empty_entry)[ht_index [80, 65, 84, 72] 16 := \<lparr>e_key = Some [80, 65, 84, 72], e_value = [47, 98, 105, 110]\<rparr>],
     ht_capacity = 16, ht_length_f = 1\<rparr>"

lemma ex_table_inv: "ht_inv ex_table" "ht_abs ex_table = [[80, 65, 84, 72] \<mapsto> [47, 98, 105, 110]]"
proof -
  let ?k = "[80, 65, 84, 72] :: byte list" and ?i = "ht_index [80, 65, 84, 72] 16"
  let ?e = "\<lparr>e_key = Some ?k, e_value = [47, 98, 105, 110]\<rparr>"
  have i: "?i < 16" using ht_index_less [of 4 ?k] by simp
  have r: "es_inv (replicate 16 empty_entry) 16" using es_inv_replicate [of 4] by simp
  have p: "ht_probe ?k (replicate 16 empty_entry) 16 ?i = Some (?i, False)"
    using i by (subst ht_probe.simps) (simp add: empty_entry_def)
  have inv: "es_inv ((replicate 16 empty_entry)[?i := ?e]) 16"
    by (rule es_inv_put [OF r i _ _ p, of "[47, 98, 105, 110]"]) (use i in \<open>auto simp: key_at_def empty_entry_def VALUE_SIZE_def\<close>)
  have "ht_filled ((replicate 16 empty_entry)[?i := ?e]) = 1"
    using length_filter_update [of ?i "replicate 16 empty_entry" "\<lambda>e. e_key e \<noteq> None" ?e] i ht_filled_replicate [of 16]
    by (simp add: ht_filled_def empty_entry_def)
  then show "ht_inv ex_table" using inv by (simp add: ht_inv_def ex_table_def)
  show "ht_abs ex_table = [?k \<mapsto> [47, 98, 105, 110]]"
    using es_abs_put [OF r inv i] i es_abs_replicate [of 16] by (simp add: ht_abs_def ex_table_def key_at_def empty_entry_def)
qed

theorem ht_get_terminates_witness: "ht_get ex_table [80, 65, 84, 72] = Some (Some [47, 98, 105, 110])"
  using ht_get_terminates [OF ex_table_inv(1), of "[80, 65, 84, 72]"] by (simp add: ex_table_inv(2))

theorem ht_set_refines_map_witness:
  "\<exists>t'. ht_set True True ex_table [65] [66] = Some (Inr (Some [65], t')) \<and> ht_inv t' \<and>
    ht_abs t' = [[80, 65, 84, 72] \<mapsto> [47, 98, 105, 110], [65] \<mapsto> [66]] \<and> ht_length t' = 2"
proof -
  have "ht_roomy ex_table" by (simp add: ht_roomy_def ex_table_def ENTRY_SIZE_def)
  from ht_set_refines_map [OF ex_table_inv(1) this, of "[65]" "[66]" True True] show ?thesis
    by (simp add: ex_table_inv(2) VALUE_SIZE_def ht_length_def) (simp add: ex_table_def)
qed

theorem ht_put_get_roundtrip_witness:
  "\<exists>t t'. ht_create True True = Inr (Some t) \<and> put_all (ht_set True True) [([65], [66]), ([67], [68]), ([65], [69])] t = Some (Inr t') \<and>
    ht_get t' [65] = Some (Some [69])"
  using ht_put_get_roundtrip [of "[([65], [66]), ([67], [68]), ([65], [69])]" "[65]"] by (simp add: VALUE_SIZE_def)

theorem ht_iterates_all_witness:
  "ht_walk 17 ex_table ht_iterator = Some (ht_pairs (ht_entries ex_table)) \<and>
    map_of (ht_pairs (ht_entries ex_table)) = [[80, 65, 84, 72] \<mapsto> [47, 98, 105, 110]]"
proof -
  have "Suc (ht_capacity ex_table) = 17" by (simp add: ex_table_def)
  then show ?thesis using ht_iterates_all [OF ex_table_inv(1)] by (simp add: ex_table_inv(2))
qed

end
