(* ===== verification/Ustdio.thy ===== *)
theory Ustdio
  imports Ustring
begin

text \<open>
  Formatted output of the user library: \<open>ulib/libc/stdio/printf.c\<close> and \<open>ulib/libc/stdio/sprintf.c\<close>. Formats are lists of bytes
  without the NUL, the variable arguments a list of values, the output the list of bytes written to the
  descriptor. \<open>va_arg\<close> with no argument left, or of another type than was passed, is \<open>Undefined\<close>, and so is
  storing outside one of the fixed buffers.
\<close>

section \<open>Arguments\<close>

text \<open>A \<open>double\<close> stands for the text \<open>ftoa\<close> makes of it, which computes with floating-point numbers.\<close>

datatype parg = P_int int | P_str "byte list option" | P_double "byte list"

text \<open>\<open>va_arg(ap, int)\<close>, \<open>va_arg(ap, char*)\<close> with the replacement of the null pointer, and \<open>va_arg(ap, double)\<close>.\<close>

fun arg_int :: "parg list \<Rightarrow> (int \<times> parg list) res" where
  "arg_int (P_int n # as) = Inr (n, as)"
| "arg_int _ = Inl (Undefined ''va_arg'')"

definition null_text :: "byte list" where
  "null_text = [40, 110, 117, 108, 108, 41]"

fun arg_str :: "parg list \<Rightarrow> (byte list \<times> parg list) res" where
  "arg_str (P_str (Some s) # as) = Inr (s, as)"
| "arg_str (P_str None # as) = Inr (null_text, as)"
| "arg_str _ = Inl (Undefined ''va_arg'')"

fun arg_double :: "parg list \<Rightarrow> (byte list \<times> parg list) res" where
  "arg_double (P_double v # as) = Inr (v, as)"
| "arg_double _ = Inl (Undefined ''va_arg'')"

section \<open>printf\<close>

text \<open>The local variables of \<open>printf\<close>: \<open>state == '%'\<close>, \<open>justified == 2\<close>, \<open>prefix\<close>, the arguments left, and the output.\<close>

record pstate =
  p_pct :: bool
  p_right :: bool
  p_prefix :: "byte list"
  p_args :: "parg list"
  p_out :: "byte list"

definition uputc :: "byte list \<Rightarrow> pstate \<Rightarrow> pstate" where
  "uputc bs s = s\<lparr>p_out := p_out s @ bs\<rparr>"

text \<open>\<open>printint\<close> of \<open>printf.c\<close> for base 16, whose digits always fit its buffer.\<close>

definition uprintint :: "int \<Rightarrow> nat \<Rightarrow> bool \<Rightarrow> byte list" where
  "uprintint xx base sg =
     (let neg = sg \<and> xx < 0; x = nat ((if neg then - xx else xx) mod 2 ^ 32)
      in rev (itoa_loop base x @ (if neg then [45] else [])))"

text \<open>The text \<open>v\<close> with its padding: to the width in \<open>prefix\<close>, if there is one.\<close>

definition padded :: "byte list \<Rightarrow> pstate \<Rightarrow> byte list" where
  "padded v s =
     (let fill_out = atoi (p_prefix s) - int (length v);
          fill = if p_prefix s \<noteq> [] then replicate (nat fill_out) 32 else []
      in if p_right s then fill @ v else v @ fill)"

text \<open>The loop of \<open>printf\<close> over the rest of the format.\<close>

function printf_loop :: "byte list \<Rightarrow> pstate \<Rightarrow> pstate res" where
  "printf_loop [] s = Inr s"
| "printf_loop (c # cs) s =
     (if \<not> p_pct s then
        (if c = 37 then printf_loop cs (s\<lparr>p_pct := True, p_prefix := []\<rparr>)
         else printf_loop cs (uputc [c] s))
      else if c = 100 then
        res_bind (arg_int (p_args s)) (\<lambda>(n, as).
          res_bind (itoa n 10 False) (\<lambda>v.
            printf_loop cs (uputc (padded (butlast v) s) (s\<lparr>p_pct := False, p_args := as\<rparr>))))
      else if c = 120 \<or> c = 112 then
        res_bind (arg_int (p_args s)) (\<lambda>(n, as). printf_loop cs (uputc (uprintint n 16 True) (s\<lparr>p_args := as\<rparr>)))
      else if c = 115 then
        res_bind (arg_str (p_args s)) (\<lambda>(v, as).
          printf_loop cs (uputc (padded v s) (s\<lparr>p_pct := False, p_args := as\<rparr>)))
      else if c = 99 then
        res_bind (arg_int (p_args s)) (\<lambda>(n, as). printf_loop cs (uputc [of_int n] (s\<lparr>p_args := as\<rparr>)))
      else if c = 102 then
        res_bind (arg_double (p_args s)) (\<lambda>(v, as). Inr (uputc v (s\<lparr>p_args := as\<rparr>)))
      else if c = 45 then printf_loop cs (s\<lparr>p_right := False\<rparr>)
      else if c = 37 then printf_loop cs (uputc [c] s)
      else if \<not> isdigit c then printf_loop cs (uputc [c] (s\<lparr>p_pct := False\<rparr>))
      else let ds = takeWhile isdigit (c # cs)
           in if length ds \<ge> 10 then Inl (Undefined ''printf: prefix'')
              else printf_loop (dropWhile isdigit cs) (s\<lparr>p_prefix := ds\<rparr>))"
  by pat_completeness auto
termination by (relation "measure (\<lambda>(cs, s). length cs)") (auto simp: le_imp_less_Suc length_dropWhile_le)

declare printf_loop.simps(2) [simp del]

text \<open>What \<open>printf (fd, fmt, ...)\<close> writes to \<open>fd\<close>.\<close>

definition uprintf :: "byte list \<Rightarrow> parg list \<Rightarrow> byte list res" where
  "uprintf fmt as =
     res_bind (printf_loop fmt \<lparr>p_pct = False, p_right = True, p_prefix = [], p_args = as, p_out = []\<rparr>)
       (\<lambda>s. Inr (p_out s))"

section \<open>sprintf\<close>

text \<open>\<open>sprintint\<close> in base 10.\<close>

definition sprintint :: "int \<Rightarrow> byte list" where
  "sprintint xx = uprintint xx 10 True"

text \<open>The loop of \<open>sprintf\<close>: \<open>pct\<close> is \<open>state == '%'\<close>, \<open>acc\<close> the bytes in \<open>return_str\<close>. The directives other than \<open>%d\<close> and \<open>%s\<close>
  print nothing and take no argument.\<close>

fun sprintf_loop :: "byte list \<Rightarrow> bool \<Rightarrow> parg list \<Rightarrow> byte list \<Rightarrow> byte list res" where
  "sprintf_loop [] pct as acc = (if length acc < 256 then Inr acc else Inl (Undefined ''sprintf: return_str''))"
| "sprintf_loop (c # cs) pct as acc =
     (if \<not> pct then
        (if c = 37 then sprintf_loop cs True as acc else sprintf_loop cs False as (acc @ [c]))
      else if c = 100 then res_bind (arg_int as) (\<lambda>(n, as). sprintf_loop cs False as (acc @ sprintint n))
      else if c = 115 then res_bind (arg_str as) (\<lambda>(v, as). sprintf_loop cs False as (acc @ v))
      else sprintf_loop cs False as acc)"

text \<open>The string \<open>sprintf\<close> leaves at \<open>str\<close>; its length is the result.\<close>

definition sprintf :: "byte list \<Rightarrow> parg list \<Rightarrow> byte list res" where
  "sprintf fmt as = sprintf_loop fmt False as []"

section \<open>What is printed\<close>

text \<open>A format as a list of its parts.\<close>

datatype piece = Lit "byte list" | Str "byte list" | Num int

primrec piece_fmt :: "piece \<Rightarrow> byte list" where
  "piece_fmt (Lit bs) = bs"
| "piece_fmt (Str v) = [37, 115]"
| "piece_fmt (Num n) = [37, 100]"

primrec piece_arg :: "piece \<Rightarrow> parg list" where
  "piece_arg (Lit bs) = []"
| "piece_arg (Str v) = [P_str (Some v)]"
| "piece_arg (Num n) = [P_int n]"

text \<open>The text a part stands for; \<open>num\<close> is how numbers are written.\<close>

primrec piece_text :: "(int \<Rightarrow> byte list) \<Rightarrow> piece \<Rightarrow> byte list" where
  "piece_text num (Lit bs) = bs"
| "piece_text num (Str v) = v"
| "piece_text num (Num n) = num n"

definition piece_ok :: "piece \<Rightarrow> bool" where
  "piece_ok p \<longleftrightarrow> (case p of Lit bs \<Rightarrow> 37 \<notin> set bs | _ \<Rightarrow> True)"

definition fmt_of :: "piece list \<Rightarrow> byte list" where "fmt_of ps = concat (map piece_fmt ps)"
definition args_of :: "piece list \<Rightarrow> parg list" where "args_of ps = concat (map piece_arg ps)"
definition text_of :: "(int \<Rightarrow> byte list) \<Rightarrow> piece list \<Rightarrow> byte list" where
  "text_of num ps = concat (map (piece_text num) ps)"

lemma sprintf_loop_lit:
  "37 \<notin> set bs \<Longrightarrow> sprintf_loop (bs @ cs) False as acc = sprintf_loop cs False as (acc @ bs)"
  by (induction bs arbitrary: acc) auto

lemma sprintf_loop_pieces:
  "\<forall>p \<in> set ps. piece_ok p \<Longrightarrow>
    sprintf_loop (fmt_of ps) False (args_of ps) acc =
      (if length (acc @ text_of sprintint ps) < 256 then Inr (acc @ text_of sprintint ps) else Inl (Undefined ''sprintf: return_str''))"
proof (induction ps arbitrary: acc)
  case (Cons p ps)
  then show ?case by (cases p) (simp_all add: fmt_of_def args_of_def text_of_def sprintf_loop_lit piece_ok_def)
qed (simp add: fmt_of_def args_of_def text_of_def)

lemma printf_loop_lit:
  "37 \<notin> set bs \<Longrightarrow> \<not> p_pct s \<Longrightarrow> printf_loop (bs @ cs) s = printf_loop cs (uputc bs s)"
proof (induction bs arbitrary: s)
  case (Cons b bs)
  then show ?case by (subst append_Cons, subst printf_loop.simps(2)) (simp add: uputc_def)
qed (simp add: uputc_def)

text \<open>How \<open>printf\<close> writes an \<open>int\<close>: as the unsigned number of its 32 bits.\<close>

definition udec :: "int \<Rightarrow> byte list" where
  "udec n = rev (itoa_loop 10 (nat (n mod 2 ^ 32)))"

lemma itoa_udec: "itoa n 10 False = Inr (udec n @ [0])"
proof -
  have "length (itoa_loop 10 (nat (n mod 2 ^ 32))) \<le> 10" by (rule length_itoa_loop) (auto simp: nat_less_iff)
  then show ?thesis by (simp add: itoa_def udec_def Let_def)
qed

lemma printf_loop_pieces:
  "\<forall>p \<in> set ps. piece_ok p \<Longrightarrow> \<not> p_pct s \<Longrightarrow> p_args s = args_of ps \<Longrightarrow>
    \<exists>s'. printf_loop (fmt_of ps) s = Inr s' \<and> p_out s' = p_out s @ text_of udec ps"
proof (induction ps arbitrary: s)
  case Nil
  then show ?case by (simp add: fmt_of_def text_of_def)
next
  case (Cons p ps)
  show ?case
  proof (cases p)
    case (Lit bs)
    then have "printf_loop (fmt_of (p # ps)) s = printf_loop (fmt_of ps) (uputc bs s)"
      using Cons.prems by (simp add: fmt_of_def piece_ok_def printf_loop_lit)
    moreover have "\<exists>s'. printf_loop (fmt_of ps) (uputc bs s) = Inr s' \<and> p_out s' = p_out (uputc bs s) @ text_of udec ps"
      using Cons.prems Lit by (intro Cons.IH) (auto simp: uputc_def args_of_def)
    ultimately show ?thesis using Lit by (simp add: uputc_def text_of_def)
  next
    case (Str v)
    let ?s = "uputc v (s\<lparr>p_prefix := [], p_pct := False, p_args := args_of ps\<rparr>)"
    have "printf_loop (fmt_of (p # ps)) s = printf_loop (fmt_of ps) ?s"
      using Cons.prems Str by (simp add: fmt_of_def args_of_def printf_loop.simps(2) uputc_def padded_def)
    moreover have "\<exists>s'. printf_loop (fmt_of ps) ?s = Inr s' \<and> p_out s' = p_out ?s @ text_of udec ps"
      using Cons.prems by (intro Cons.IH) (auto simp: uputc_def)
    ultimately show ?thesis using Str by (simp add: uputc_def text_of_def)
  next
    case (Num n)
    let ?s = "uputc (udec n) (s\<lparr>p_prefix := [], p_pct := False, p_args := args_of ps\<rparr>)"
    have "printf_loop (fmt_of (p # ps)) s = printf_loop (fmt_of ps) ?s"
      using Cons.prems Num by (simp add: fmt_of_def args_of_def printf_loop.simps(2) uputc_def padded_def itoa_udec)
    moreover have "\<exists>s'. printf_loop (fmt_of ps) ?s = Inr s' \<and> p_out s' = p_out ?s @ text_of udec ps"
      using Cons.prems by (intro Cons.IH) (auto simp: uputc_def)
    ultimately show ?thesis using Num by (simp add: uputc_def text_of_def)
  qed
qed

text \<open>For a format of literal text, \<open>%s\<close> and \<open>%d\<close>, \<open>sprintf\<close> makes the text with the arguments in place, numbers in signed
  decimal, when it fits in 255 bytes, and overflows its buffer otherwise; \<open>printf\<close> writes the same text, but numbers in
  unsigned decimal.\<close>

theorem printf_renders:
  assumes "\<forall>p \<in> set ps. piece_ok p"
  shows "sprintf (fmt_of ps) (args_of ps) =
      (if length (text_of sprintint ps) < 256 then Inr (text_of sprintint ps) else Inl (Undefined ''sprintf: return_str'')) \<and>
    uprintf (fmt_of ps) (args_of ps) = Inr (text_of udec ps)"
proof
  show "sprintf (fmt_of ps) (args_of ps) =
      (if length (text_of sprintint ps) < 256 then Inr (text_of sprintint ps) else Inl (Undefined ''sprintf: return_str''))"
    using sprintf_loop_pieces [OF assms, of "[]"] by (simp add: sprintf_def)
  let ?s = "\<lparr>p_pct = False, p_right = True, p_prefix = [], p_args = args_of ps, p_out = []\<rparr>"
  show "uprintf (fmt_of ps) (args_of ps) = Inr (text_of udec ps)"
    using printf_loop_pieces [OF assms, of ?s] by (auto simp: uprintf_def)
qed

text \<open>The instance \<open>"a%d"\<close> with the argument -1.\<close>

theorem printf_renders_witness:
  "sprintf [97, 37, 100] [P_int (-1)] = Inr [97, 45, 49] \<and>
    uprintf [97, 37, 100] [P_int (-1)] = Inr [97, 52, 50, 57, 52, 57, 54, 55, 50, 57, 53]"
proof -
  have d: "udec (-1) = [52, 50, 57, 52, 57, 54, 55, 50, 57, 53]" "sprintint (-1) = [45, 49]"
    by (simp_all add: udec_def sprintint_def uprintint_def itoa_loop.simps itoa_digits_def)
  show ?thesis using printf_renders [of "[Lit [97], Num (-1)]"]
    by (simp add: piece_ok_def fmt_of_def args_of_def text_of_def d)
qed

end
