(* ===== verification/Shell.thy ===== *)
theory Shell
  imports Hashtable Ustdio
begin

text \<open>
  The shell: \<open>shell_lib/parser.c\<close> (tokenizer and recursive-descent parser), the environment and command dispatch of
  \<open>shell_lib/executor.c\<close> and \<open>shell_lib/command_registry.c\<close>, the variable commands of \<open>shell_lib/builtin_commands_impl.c\<close>, and
  the main loop of \<open>user/shells/bash2.c\<close>. Strings and tokens are lists of bytes without the NUL, so that \<open>strcmp\<close>
  answers 0 exactly for equal lists; the parser's position in the token array is the list of the tokens
  from there on. The fixed-size arrays (256 tokens of 1024 bytes, 64 arguments, 4096 bytes of a subshell) are
  kept: storing outside one is \<open>Undefined\<close>. The code does not check that its \<open>malloc\<close> calls succeed, and neither
  does the model of the parser.
\<close>

section \<open>Tokens\<close>

definition space :: "byte \<Rightarrow> bool" where
  "space c \<longleftrightarrow> isspace (sint c)"

text \<open>\<open>; & | < > ( )\<close>\<close>

definition special :: "byte \<Rightarrow> bool" where
  "special c \<longleftrightarrow> c = 59 \<or> c = 38 \<or> c = 124 \<or> c = 60 \<or> c = 62 \<or> c = 40 \<or> c = 41"

text \<open>The inner loop over a word; \<open>*)\<close> ends it.\<close>

fun tok_word :: "byte list \<Rightarrow> byte list \<times> byte list" where
  "tok_word [] = ([], [])"
| "tok_word (c # cs) =
     (if space c \<or> special c then ([], c # cs)
      else if c = 42 \<and> hd0 cs = 41 then ([42, 41], tl cs)
      else case tok_word cs of (w, r) \<Rightarrow> (c # w, r))"

text \<open>The token that starts with \<open>c\<close>, which is no white space, and the rest of the input.\<close>

definition next_token :: "byte \<Rightarrow> byte list \<Rightarrow> byte list \<times> byte list" where
  "next_token c cs =
     (if special c then
        (if (c = 59 \<or> c = 38 \<or> c = 124 \<or> c = 62) \<and> hd0 cs = c then ([c, c], tl cs) else ([c], cs))
      else if c = 34 \<or> c = 39 then (takeWhile (\<lambda>x. x \<noteq> c) cs, tl (dropWhile (\<lambda>x. x \<noteq> c) cs))
      else tok_word (c # cs))"

lemma length_tok_word: "length (snd (tok_word cs)) \<le> length cs"
  by (induction cs rule: tok_word.induct) (auto split: prod.split)

lemma length_next_token:
  assumes "\<not> space c"
  shows "length (snd (next_token c cs)) \<le> length cs"
proof -
  have "length (tl (dropWhile (\<lambda>x. x \<noteq> c) cs)) \<le> length cs"
    using length_dropWhile_le [of "\<lambda>x. x \<noteq> c" cs] by simp
  moreover have "length (snd (tok_word (c # cs))) \<le> length cs" if "\<not> special c"
    using that assms length_tok_word [of cs] by (auto split: prod.split)
  ultimately show ?thesis by (auto simp: next_token_def)
qed

text \<open>The loop of \<open>tokenize\<close> with \<open>n\<close> tokens stored.\<close>

function tok_loop :: "byte list \<Rightarrow> nat \<Rightarrow> byte list list res" where
  "tok_loop p n =
     (case dropWhile space p of
        [] \<Rightarrow> if n < 256 then Inr [] else Inl (Undefined ''tokens'')
      | c # cs \<Rightarrow>
          (case next_token c cs of (t, rest) \<Rightarrow>
             if n \<ge> 256 \<or> length t \<ge> 1024 then Inl (Undefined ''token'')
             else res_bind (tok_loop rest (Suc n)) (\<lambda>ts. Inr (t # ts))))"
  by pat_completeness auto
termination
proof (relation "measure (\<lambda>(p, n). length p)")
  fix p :: "byte list" and n c cs t rest x y
  assume d: "dropWhile space p = c # cs" and "(t, rest) = next_token c cs"
  have "\<not> space c" using d by (metis hd_dropWhile list.distinct(1) list.sel(1))
  moreover have "length (c # cs) \<le> length p" using length_dropWhile_le [of space p] d by simp
  ultimately show "((rest, Suc n), p, n) \<in> measure (\<lambda>(p, n). length p)"
    using length_next_token [of c cs] \<open>(t, rest) = next_token c cs\<close> [symmetric] by simp
qed simp

declare tok_loop.simps [simp del]

definition tokenize :: "byte list \<Rightarrow> byte list list res" where
  "tokenize input = tok_loop input 0"

section \<open>Commands\<close>

datatype command_type_t = CMD_SIMPLE | CMD_IF | CMD_WHILE | CMD_FOR | CMD_CASE | CMD_SUBSHELL | CMD_AND | CMD_OR | CMD_SEQUENCE

text \<open>\<open>command_t\<close>, with the fields the parser sets; \<open>None\<close> is a null pointer.\<close>

datatype command_t = Command
  (c_type: command_type_t) (c_command: "byte list option") (c_args: "byte list list option")
  (c_input: "byte list option") (c_output: "byte list option") (c_append: bool) (c_background: bool)
  (c_next: "command_t option") (c_then: "command_t option") (c_else: "command_t option")

text \<open>The operators and the words at which \<open>parse_simple\<close> stops: \<open>if while for then else fi do done ; | && ||\<close>.\<close>

definition stop_words :: "byte list list" where
  "stop_words = [[105, 102], [119, 104, 105, 108, 101], [102, 111, 114], [116, 104, 101, 110], [101, 108, 115, 101],
     [102, 105], [100, 111], [100, 111, 110, 101], [59], [124], [38, 38], [124, 124]]"

section \<open>Parser\<close>

text \<open>What \<open>parse_simple\<close> collects: arguments, input file, output file with its mode, background flag.\<close>

record simple =
  s_args :: "byte list list"
  s_input :: "byte list option"
  s_output :: "byte list option"
  s_append :: bool
  s_background :: bool

fun simple_loop :: "byte list list \<Rightarrow> simple \<Rightarrow> simple \<times> byte list list" where
  "simple_loop [] s = (s, [])"
| "simple_loop (t # ts) s =
     (if t \<in> set stop_words then (s, t # ts)
      else if t = [38] then simple_loop ts (s\<lparr>s_background := True\<rparr>)
      else if t = [60] then
        (case ts of [] \<Rightarrow> (s, []) | f # ts \<Rightarrow> simple_loop ts (s\<lparr>s_input := Some f\<rparr>))
      else if t = [62] \<or> t = [62, 62] then
        (case ts of [] \<Rightarrow> (s, []) | f # ts \<Rightarrow> simple_loop ts (s\<lparr>s_output := Some f, s_append := (t = [62, 62])\<rparr>))
      else simple_loop ts (s\<lparr>s_args := s_args s @ [t]\<rparr>))"

definition simple_init :: simple where
  "simple_init = \<lparr>s_args = [], s_input = None, s_output = None, s_append = False, s_background = False\<rparr>"

text \<open>\<open>parse_subshell\<close>: the tokens up to the matching parenthesis, each followed by a space; \<open>None\<close> when it is missing.\<close>

fun sub_loop :: "byte list list \<Rightarrow> nat \<Rightarrow> byte list \<Rightarrow> (byte list \<times> byte list list) option res" where
  "sub_loop [] nested buffer = Inr None"
| "sub_loop (t # ts) nested buffer =
     (let nested = (if t = [40] then nested + 1 else if t = [41] then nested - 1 else nested)
      in if nested = 0 then Inr (Some (buffer, ts))
         else if length (buffer @ t @ [32]) \<ge> 4096 then Inl (Undefined ''buffer'')
         else sub_loop ts nested (buffer @ t @ [32]))"

fun redir_loop :: "byte list list \<Rightarrow> simple \<Rightarrow> simple \<times> byte list list" where
  "redir_loop [] s = (s, [])"
| "redir_loop (t # ts) s =
     (if t = [60] then (case ts of [] \<Rightarrow> (s, []) | f # ts \<Rightarrow> redir_loop ts (s\<lparr>s_input := Some f\<rparr>))
      else if t = [62] \<or> t = [62, 62] then
        (case ts of [] \<Rightarrow> (s, []) | f # ts \<Rightarrow> redir_loop ts (s\<lparr>s_output := Some f, s_append := (t = [62, 62])\<rparr>))
      else (s, t # ts))"

definition mk_simple :: "byte list option \<Rightarrow> simple \<Rightarrow> command_t" where
  "mk_simple command s =
     Command CMD_SIMPLE command (Some (s_args s)) (s_input s) (s_output s) (s_append s) (s_background s) None None None"

text \<open>\<open>"sh"\<close> and \<open>"-c"\<close>\<close>

definition parse_subshell :: "byte list list \<Rightarrow> (command_t option \<times> byte list list) res" where
  "parse_subshell ts =
     res_bind (sub_loop ts 1 []) (\<lambda>r. case r of
        None \<Rightarrow> Inr (None, [])
      | Some (buffer, ts) \<Rightarrow>
          (case redir_loop ts (simple_init\<lparr>s_args := [[115, 104], [45, 99], buffer]\<rparr>) of
             (s, ts) \<Rightarrow> Inr (Some (mk_simple (Some buffer) s), ts)))"

text \<open>\<open>parse_simple\<close>; \<open>tokens[count]\<close> is the null pointer.\<close>

definition parse_simple :: "byte list list \<Rightarrow> (command_t option \<times> byte list list) res" where
  "parse_simple ts =
     (case ts of
        [] \<Rightarrow> Inl (Undefined ''strcmp: null'')
      | t # ts' \<Rightarrow>
          if t = [40] then parse_subshell ts'
          else case simple_loop ts simple_init of (s, rest) \<Rightarrow>
            if length (s_args s) \<ge> 64 then Inl (Undefined ''args'')
            else Inr (Some (mk_simple (if s_args s = [] then None else Some (hd (s_args s))) s), rest))"

lemma length_simple_loop: "length (snd (simple_loop ts s)) \<le> length ts"
proof (induction ts s rule: simple_loop.induct)
  case (2 t ts s)
  then show ?case by (cases ts) (auto simp: le_SucI)
qed simp

lemma length_sub_loop: "sub_loop ts n b = Inr (Some (b', ts')) \<Longrightarrow> length ts' \<le> length ts"
proof (induction ts n b rule: sub_loop.induct)
  case (2 t ts n b)
  then show ?case by (auto simp: Let_def split: if_splits)
qed simp

lemma length_redir_loop: "length (snd (redir_loop ts s)) \<le> length ts"
proof (induction ts s rule: redir_loop.induct)
  case (2 t ts s)
  then show ?case by (cases ts) (auto simp: le_SucI)
qed simp

lemma length_parse_simple:
  assumes "parse_simple ts = Inr (c, rest)"
  shows "length rest \<le> length ts"
proof (cases ts)
  case (Cons t ts')
  show ?thesis
  proof (cases "t = [40]")
    case True
    then have p: "parse_subshell ts' = Inr (c, rest)" using assms Cons by (simp add: parse_simple_def)
    then obtain r where r: "sub_loop ts' 1 [] = Inr r" by (auto simp: parse_subshell_def res_simps)
    show ?thesis
    proof (cases r)
      case None
      then show ?thesis using p r by (simp add: parse_subshell_def)
    next
      case (Some bu)
      obtain b us where "bu = (b, us)" by (cases bu)
      with r Some have s: "sub_loop ts' 1 [] = Inr (Some (b, us))" by simp
      define s0 where "s0 = simple_init\<lparr>s_args := [[115, 104], [45, 99], b]\<rparr>"
      have "rest = snd (redir_loop us s0)"
        using p unfolding parse_subshell_def s res_bind.simps option.case prod.case s0_def [symmetric]
        by (cases "redir_loop us s0") simp
      then show ?thesis using length_redir_loop [of us s0] length_sub_loop [OF s] Cons by simp
    qed
  next
    case False
    then show ?thesis using assms Cons length_simple_loop [of ts simple_init]
      by (auto simp: parse_simple_def split: prod.splits if_splits)
  qed
qed (use assms in \<open>simp add: parse_simple_def\<close>)

definition set_next :: "command_t option \<Rightarrow> command_t \<Rightarrow> command_t" where
  "set_next n c = (case c of Command ty cmd as i out app bg _ th el \<Rightarrow> Command ty cmd as i out app bg n th el)"

text \<open>The loop of \<open>parse_pipeline\<close> links each command to the next.\<close>

function parse_pipeline :: "byte list list \<Rightarrow> (command_t option \<times> byte list list) res" where
  "parse_pipeline ts =
     res_bind (parse_simple ts) (\<lambda>(c, rest).
       case rest of
         [] \<Rightarrow> Inr (c, rest)
       | t # rest' \<Rightarrow>
           if t = [124] then
             (case c of
                None \<Rightarrow> Inl (Undefined ''current->next'')
              | Some c \<Rightarrow> res_bind (parse_pipeline rest') (\<lambda>(n, r). Inr (Some (set_next n c), r)))
           else Inr (c, rest))"
  by pat_completeness auto
termination
  by (relation "measure length") (auto dest!: length_parse_simple)

declare parse_pipeline.simps [simp del]

lemma length_parse_pipeline: "parse_pipeline ts = Inr (c, rest) \<Longrightarrow> length rest \<le> length ts"
proof (induction ts arbitrary: c rest rule: parse_pipeline.induct)
  case (1 ts)
  obtain c1 r1 where r1: "parse_simple ts = Inr (c1, r1)"
    using 1(2) by (subst (asm) parse_pipeline.simps) (auto simp: res_simps)
  note l = length_parse_simple [OF r1]
  show ?case
  proof (cases "\<exists>r2. r1 = [124] # r2")
    case True
    then obtain r2 where r2: "r1 = [124] # r2" by blast
    then obtain c2 n where "c1 = Some c2" "parse_pipeline r2 = Inr (n, rest)"
      using 1(2) r1 by (subst (asm) parse_pipeline.simps) (auto simp: res_simps split: option.splits)
    then have "length rest \<le> length r2" using 1(1) [OF r1 refl r2 refl] by simp
    then show ?thesis using l r2 by simp
  next
    case False
    then have "rest = r1" using 1(2) r1
      by (subst (asm) parse_pipeline.simps) (auto split: list.splits if_splits)
    then show ?thesis using l by simp
  qed
qed

definition mk_branch :: "command_type_t \<Rightarrow> command_t option \<Rightarrow> command_t option \<Rightarrow> command_t" where
  "mk_branch ty th el = Command ty None None None None False False None th el"

function parse_command :: "byte list list \<Rightarrow> (command_t option \<times> byte list list) res" where
  "parse_command ts =
     (if ts = [] then Inr (None, [])
      else res_bind (parse_pipeline ts) (\<lambda>(cmd, rest).
        case rest of
          [] \<Rightarrow> Inr (cmd, rest)
        | t # rest' \<Rightarrow>
            if t = [59] then
              res_bind (parse_command rest') (\<lambda>(el, r). Inr (Some (mk_branch CMD_SEQUENCE cmd el), r))
            else if t = [38, 38] \<or> t = [124, 124] then
              res_bind (parse_command rest') (\<lambda>(el, r).
                Inr (Some (mk_branch (if t = [38, 38] then CMD_AND else CMD_OR) cmd el), r))
            else Inr (cmd, rest)))"
  by pat_completeness auto
termination
  by (relation "measure length") (auto dest!: length_parse_pipeline)

declare parse_command.simps [simp del]

definition parse_input :: "byte list \<Rightarrow> command_t option res" where
  "parse_input input =
     res_bind (tokenize input) (\<lambda>ts. res_bind (parse_command ts) (\<lambda>(cmd, _). Inr cmd))"

section \<open>Environment and commands\<close>

text \<open>\<open>environmentVariables2\<close>; \<open>ok\<close> are the answers of \<open>malloc\<close>: for the table, its array, a larger array, the key.
  The outer \<open>None\<close> is a call that does not return. \<open>overwrite\<close> is not used.\<close>

record malloc_ok =
  m_table :: bool
  m_array :: bool
  m_grow :: bool
  m_key :: bool

definition setenv :: "malloc_ok \<Rightarrow> byte list \<Rightarrow> byte list \<Rightarrow> int \<Rightarrow> ht option \<Rightarrow> ht option res option" where
  "setenv ok name value overwrite env =
     (case (case env of None \<Rightarrow> ht_create (m_table ok) (m_array ok) | Some t \<Rightarrow> Inr (Some t)) of
        Inl e \<Rightarrow> Some (Inl e)
      | Inr None \<Rightarrow> Some (Inr None)
      | Inr (Some t) \<Rightarrow>
          (case ht_set (m_grow ok) (m_key ok) t name value of
             None \<Rightarrow> None
           | Some (Inl e) \<Rightarrow> Some (Inl e)
           | Some (Inr (_, t)) \<Rightarrow> Some (Inr (Some t))))"

definition unsetenv :: "malloc_ok \<Rightarrow> byte list \<Rightarrow> ht option \<Rightarrow> ht option res option" where
  "unsetenv ok name env = setenv ok name [] 1 env"

definition getenv :: "byte list \<Rightarrow> ht option \<Rightarrow> byte list option option" where
  "getenv name env = (case env of None \<Rightarrow> Some (Some []) | Some t \<Rightarrow> ht_get t name)"

text \<open>\<open>show_env_variables\<close> prints \<open>key=value\<close> lines.\<close>

definition show_env_variables :: "ht option \<Rightarrow> byte list res option" where
  "show_env_variables env =
     (case env of
        None \<Rightarrow> Some (Inr [])
      | Some t \<Rightarrow>
          (case ht_walk (Suc (ht_capacity t)) t ht_iterator of
             None \<Rightarrow> None
           | Some kvs \<Rightarrow>
               Some (foldr (\<lambda>(k, v) r.
                 res_bind (uprintf [37, 115, 61, 37, 115, 10] [P_str (Some k), P_str (Some v)]) (\<lambda>a.
                   res_bind r (\<lambda>b. Inr (a @ b)))) kvs (Inr []))))"

text \<open>\<open>cmd_export\<close>: the arguments after the first, joined by spaces, cut at the first \<open>=\<close>, with the quotes around the value
  removed. The result is what is printed; \<open>setenv\<close> always returns 0.\<close>

definition joined :: "byte list list \<Rightarrow> byte list" where
  "joined as = concat (map (\<lambda>a. a @ [32]) (butlast as)) @ (if as = [] then [] else last as)"

definition unquote :: "byte list \<Rightarrow> byte list" where
  "unquote v =
     (if length v \<ge> 2 \<and> ((hd v = 34 \<and> last v = 34) \<or> (hd v = 39 \<and> last v = 39)) then tl (butlast v) else v)"

definition cmd_export :: "malloc_ok \<Rightarrow> byte list list \<Rightarrow> ht option \<Rightarrow> (string \<times> ht option) res option" where
  "cmd_export ok args env =
     (case args of
        _ # a # as \<Rightarrow>
          (let assignment = joined (a # as)
           in if 61 \<notin> set assignment then Some (Inr (''export: invalid format (use VAR=value)'', env))
              else case setenv ok (takeWhile (\<lambda>c. c \<noteq> 61) assignment)
                       (unquote (tl (dropWhile (\<lambda>c. c \<noteq> 61) assignment))) 1 env of
                     None \<Rightarrow> None
                   | Some (Inl e) \<Rightarrow> Some (Inl e)
                   | Some (Inr env) \<Rightarrow> Some (Inr ([], env)))
      | _ \<Rightarrow> Some (Inr (''export: missing variable assignment'', env)))"

definition cmd_unset :: "malloc_ok \<Rightarrow> byte list list \<Rightarrow> ht option \<Rightarrow> (string \<times> ht option) res option" where
  "cmd_unset ok args env =
     (case args of
        _ # a # as \<Rightarrow>
          (case unsetenv ok a env of
             None \<Rightarrow> None
           | Some (Inl e) \<Rightarrow> Some (Inl e)
           | Some (Inr env) \<Rightarrow> Some (Inr ([], env)))
      | _ \<Rightarrow> Some (Inr (''unset: missing variable name'', env)))"

text \<open>The registry: \<open>None\<close> before \<open>init_command_registry\<close>; a handler is named by a string.\<close>

definition MAX_COMMANDS :: nat where "MAX_COMMANDS = 50"

type_synonym registry = "(byte list \<times> string) list option"

definition register_command :: "byte list \<Rightarrow> string \<Rightarrow> registry \<Rightarrow> int \<times> registry" where
  "register_command name func reg =
     (case reg of
        None \<Rightarrow> (-1, reg)
      | Some cs \<Rightarrow> if length cs \<ge> MAX_COMMANDS then (-1, reg) else (0, Some (cs @ [(name, func)])))"

definition lookup_command :: "byte list \<Rightarrow> registry \<Rightarrow> string option" where
  "lookup_command name reg =
     (case reg of None \<Rightarrow> None | Some cs \<Rightarrow> map_option snd (find (\<lambda>c. fst c = name) cs))"

text \<open>\<open>help cd exit kill export unset env pwd\<close>\<close>

definition builtin_commands :: "(byte list \<times> string) list" where
  "builtin_commands =
     [([104, 101, 108, 112], ''cmd_help''), ([99, 100], ''cmd_cd''), ([101, 120, 105, 116], ''cmd_exit''),
      ([107, 105, 108, 108], ''cmd_kill''), ([101, 120, 112, 111, 114, 116], ''cmd_export''),
      ([117, 110, 115, 101, 116], ''cmd_unset''), ([101, 110, 118], ''cmd_env''), ([112, 119, 100], ''cmd_pwd'')]"

definition register_builtin_commands :: "registry \<Rightarrow> registry" where
  "register_builtin_commands reg = foldl (\<lambda>r (n, f). snd (register_command n f r)) reg builtin_commands"

text \<open>What \<open>execute_command\<close> does: nothing, calling a handler, or running a program in a child process.\<close>

datatype action = A_none | A_builtin string "byte list list" | A_spawn "byte list" "byte list list"

definition PATH_name :: "byte list" where "PATH_name = [80, 65, 84, 72]"

definition execute_command :: "ht option \<Rightarrow> registry \<Rightarrow> command_t option \<Rightarrow> action res option" where
  "execute_command env reg cmd =
     (case cmd of
        None \<Rightarrow> Some (Inr A_none)
      | Some cmd \<Rightarrow>
          (case getenv PATH_name env of
             None \<Rightarrow> None
           | Some path \<Rightarrow>
               (case c_args cmd of
                  None \<Rightarrow> Some (Inl (Undefined ''cmd->args''))
                | Some [] \<Rightarrow> Some (Inr A_none)
                | Some (a # as) \<Rightarrow>
                    (case lookup_command a reg of
                       Some f \<Rightarrow> Some (Inr (A_builtin f (a # as)))
                     | None \<Rightarrow>
                         Some (res_bind (sprintf [37, 115, 37, 115] [P_str path, P_str (Some a)]) (\<lambda>total_path.
                           Inr (A_spawn total_path (a # as))))))))"

text \<open>What \<open>shell_loop\<close> does with one line of input; \<open>"exit"\<close> ends it.\<close>

datatype line_result = Quit | Acts action

definition shell_line :: "ht option \<Rightarrow> registry \<Rightarrow> byte list \<Rightarrow> line_result res option" where
  "shell_line env reg input =
     (if input = [] then Some (Inr (Acts A_none))
      else case parse_input input of
        Inl e \<Rightarrow> Some (Inl e)
      | Inr None \<Rightarrow> Some (Inr (Acts A_none))
      | Inr (Some cmd) \<Rightarrow>
          if c_type cmd = CMD_SIMPLE \<and> c_command cmd = None then Some (Inr (Acts A_none))
          else if c_type cmd = CMD_SIMPLE \<and> c_command cmd = Some [101, 120, 105, 116] then Some (Inr Quit)
          else map_option (\<lambda>r. res_bind r (\<lambda>a. Inr (Acts a))) (execute_command env reg (Some cmd)))"

section \<open>The tokenizer reads back what is written\<close>

definition plain_word :: "byte list \<Rightarrow> bool" where
  "plain_word w \<longleftrightarrow> w \<noteq> [] \<and> length w < 1024 \<and> (\<forall>c \<in> set w. c \<noteq> 0 \<and> \<not> space c \<and> \<not> special c) \<and> hd w \<noteq> 34 \<and> hd w \<noteq> 39"

definition op_tokens :: "byte list list" where
  "op_tokens = [[59], [124], [38], [60], [62], [40], [41], [38, 38], [124, 124], [62, 62], [59, 59]]"

definition token_ok :: "byte list \<Rightarrow> bool" where
  "token_ok t \<longleftrightarrow> plain_word t \<or> t \<in> set op_tokens"

text \<open>The line with a space after every token.\<close>

definition spaced :: "byte list list \<Rightarrow> byte list" where
  "spaced ts = concat (map (\<lambda>t. t @ [32]) ts)"

lemma space_32 [simp]: "space 32"
  by (simp add: space_def isspace_def SPACE_def)

lemma special_imp: "special c \<Longrightarrow> \<not> space c"
  by (auto simp: special_def space_def isspace_def TAB_def LF_def VT_def FF_def CR_def SPACE_def)

lemma tok_word_plain: "\<forall>c \<in> set w. \<not> space c \<and> \<not> special c \<Longrightarrow> tok_word (w @ 32 # r) = (w, 32 # r)"
proof (induction w)
  case (Cons c w)
  have "hd0 (w @ 32 # r) \<noteq> 41" using Cons.prems by (cases w) (auto simp: special_def)
  then show ?case using Cons by simp
qed simp

lemma op_token_shape:
  "t \<in> set op_tokens \<Longrightarrow>
    \<exists>c. special c \<and> (t = [c] \<or> t = [c, c] \<and> (c = 59 \<or> c = 38 \<or> c = 124 \<or> c = 62))"
  unfolding op_tokens_def special_def by (elim set_ConsD [THEN disjE]) auto

lemma next_token_ok:
  assumes "token_ok t"
  shows "\<exists>c cs. t = c # cs \<and> \<not> space c \<and> next_token c (cs @ 32 # r) = (t, 32 # r) \<and> length t < 1024"
proof (cases "plain_word t")
  case True
  then obtain c cs where t: "t = c # cs" by (cases t) (auto simp: plain_word_def)
  then have "tok_word (c # cs @ 32 # r) = (t, 32 # r)"
    using True tok_word_plain [of t r] by (simp add: plain_word_def del: tok_word.simps)
  then show ?thesis using True t by (simp add: next_token_def plain_word_def del: tok_word.simps)
next
  case False
  then have "t \<in> set op_tokens" using assms by (simp add: token_ok_def)
  then obtain c where c: "special c" "t = [c] \<or> t = [c, c] \<and> (c = 59 \<or> c = 38 \<or> c = 124 \<or> c = 62)"
    using op_token_shape by blast
  have "c \<noteq> 32" using c(1) by (auto simp: special_def)
  then have "next_token c (32 # r) = ([c], 32 # r)" using c(1) by (simp add: next_token_def)
  moreover have "next_token c (c # 32 # r) = ([c, c], 32 # r)" if "c = 59 \<or> c = 38 \<or> c = 124 \<or> c = 62"
    using that c(1) by (simp add: next_token_def)
  ultimately show ?thesis using c(2) special_imp [OF c(1)] by auto
qed

lemma tok_loop_space: "tok_loop (32 # p) n = tok_loop p n"
  by (subst tok_loop.simps) (simp add: tok_loop.simps [of p])

lemma tok_loop_spaced:
  "\<forall>t \<in> set ts. token_ok t \<Longrightarrow> n + length ts < 256 \<Longrightarrow> tok_loop (spaced ts) n = Inr ts"
proof (induction ts arbitrary: n)
  case Nil
  then show ?case by (subst tok_loop.simps) (simp add: spaced_def)
next
  case (Cons t ts)
  obtain c cs where t: "t = c # cs" "\<not> space c" "next_token c (cs @ 32 # spaced ts) = (t, 32 # spaced ts)" "length t < 1024"
    using next_token_ok [of t "spaced ts"] Cons.prems by auto
  have sp: "spaced (t # ts) = c # (cs @ 32 # spaced ts)" using t(1) by (simp add: spaced_def)
  have "tok_loop (spaced ts) (Suc n) = Inr ts" using Cons by simp
  then show ?case unfolding sp using t Cons.prems by (subst tok_loop.simps) (simp add: tok_loop_space)
qed

section \<open>The parser reads back what is written\<close>

text \<open>Command lines as data: simple commands with redirections, pipelines of them, and pipelines joined by \<open>;\<close>, \<open>&&\<close> and
  \<open>||\<close>; their tokens, and the command trees they stand for.\<close>

definition simple_tokens :: "simple \<Rightarrow> byte list list" where
  "simple_tokens s =
     s_args s @ (case s_input s of None \<Rightarrow> [] | Some f \<Rightarrow> [[60], f]) @
     (case s_output s of None \<Rightarrow> [] | Some f \<Rightarrow> [if s_append s then [62, 62] else [62], f]) @
     (if s_background s then [[38]] else [])"

definition simple_ok :: "simple \<Rightarrow> bool" where
  "simple_ok s \<longleftrightarrow> s_args s \<noteq> [] \<and> length (s_args s) < 64 \<and>
     (\<forall>w \<in> set (s_args s). plain_word w \<and> w \<notin> set stop_words) \<and>
     (\<forall>f. s_input s = Some f \<longrightarrow> plain_word f) \<and> (\<forall>f. s_output s = Some f \<longrightarrow> plain_word f) \<and>
     (s_output s = None \<longrightarrow> \<not> s_append s)"

datatype sline = Pipeline "simple list" | Joined command_type_t "simple list" sline

fun pipe_tokens :: "simple list \<Rightarrow> byte list list" where
  "pipe_tokens [] = []"
| "pipe_tokens [s] = simple_tokens s"
| "pipe_tokens (s # ss) = simple_tokens s @ [124] # pipe_tokens ss"

definition join_token :: "command_type_t \<Rightarrow> byte list" where
  "join_token ty = (if ty = CMD_SEQUENCE then [59] else if ty = CMD_AND then [38, 38] else [124, 124])"

fun line_tokens :: "sline \<Rightarrow> byte list list" where
  "line_tokens (Pipeline ss) = pipe_tokens ss"
| "line_tokens (Joined ty ss l) = pipe_tokens ss @ join_token ty # line_tokens l"

definition pipe_ok :: "simple list \<Rightarrow> bool" where
  "pipe_ok ss \<longleftrightarrow> ss \<noteq> [] \<and> (\<forall>s \<in> set ss. simple_ok s)"

fun line_ok :: "sline \<Rightarrow> bool" where
  "line_ok (Pipeline ss) \<longleftrightarrow> pipe_ok ss"
| "line_ok (Joined ty ss l) \<longleftrightarrow> ty \<in> {CMD_SEQUENCE, CMD_AND, CMD_OR} \<and> pipe_ok ss \<and> line_ok l"

definition simple_tree :: "simple \<Rightarrow> command_t" where
  "simple_tree s = mk_simple (Some (hd (s_args s))) s"

fun pipe_tree :: "simple list \<Rightarrow> command_t option" where
  "pipe_tree [] = None"
| "pipe_tree [s] = Some (simple_tree s)"
| "pipe_tree (s # ss) = Some (set_next (pipe_tree ss) (simple_tree s))"

fun line_tree :: "sline \<Rightarrow> command_t option" where
  "line_tree (Pipeline ss) = pipe_tree ss"
| "line_tree (Joined ty ss l) = Some (mk_branch ty (pipe_tree ss) (line_tree l))"

lemma plain_word_not_op:
  assumes "plain_word w"
  shows "w \<noteq> [38]" "w \<noteq> [60]" "w \<noteq> [62]" "w \<noteq> [62, 62]" "w \<noteq> [40]"
proof -
  have "\<not> special (hd w)" using assms by (simp add: plain_word_def)
  then show "w \<noteq> [38]" "w \<noteq> [60]" "w \<noteq> [62]" "w \<noteq> [62, 62]" "w \<noteq> [40]" by (auto simp: special_def)
qed

lemma stop_words_ops: "[38] \<notin> set stop_words" "[60] \<notin> set stop_words" "[62] \<notin> set stop_words" "[62, 62] \<notin> set stop_words"
  "[124] \<in> set stop_words" "[59] \<in> set stop_words" "[38, 38] \<in> set stop_words" "[124, 124] \<in> set stop_words"
  by (simp_all add: stop_words_def)

lemma simple_loop_args:
  "\<forall>w \<in> set ws. plain_word w \<and> w \<notin> set stop_words \<Longrightarrow>
    simple_loop (ws @ ts) s = simple_loop ts (s\<lparr>s_args := s_args s @ ws\<rparr>)"
  by (induction ws arbitrary: s) (auto simp: plain_word_not_op)

definition ends_at :: "byte list list \<Rightarrow> bool" where
  "ends_at ts \<longleftrightarrow> (ts = [] \<or> hd ts \<in> set stop_words)"

lemma simple_loop_end: "ends_at ts \<Longrightarrow> simple_loop ts s = (s, ts)"
  by (cases ts) (auto simp: ends_at_def)

lemma simple_loop_tokens:
  assumes "simple_ok s" "ends_at rest"
  shows "simple_loop (simple_tokens s @ rest) simple_init = (s, rest)"
proof -
  obtain as i out app bg where s: "s = \<lparr>s_args = as, s_input = i, s_output = out, s_append = app, s_background = bg\<rparr>" by (cases s)
  have e: "simple_loop rest u = (u, rest)" for u by (rule simple_loop_end [OF assms(2)])
  have ws: "\<forall>w \<in> set as. plain_word w \<and> w \<notin> set stop_words" and app: "out = None \<Longrightarrow> \<not> app" using assms(1) by (auto simp: simple_ok_def s)
  show ?thesis unfolding simple_tokens_def append_assoc
    using app by (cases i; cases out; cases bg; cases app)
      (simp_all add: s simple_loop_args [OF ws] simple_init_def stop_words_ops e)
qed

lemma parse_simple_tokens:
  assumes "simple_ok s" "ends_at rest"
  shows "parse_simple (simple_tokens s @ rest) = Inr (Some (simple_tree s), rest)"
proof -
  obtain w ws where w: "s_args s = w # ws" using assms(1) by (cases "s_args s") (auto simp: simple_ok_def)
  then obtain ts where ts: "simple_tokens s @ rest = w # ts" by (simp add: simple_tokens_def)
  have "w \<noteq> [40]" using assms(1) w by (auto simp: simple_ok_def plain_word_not_op)
  moreover have "length (s_args s) < 64" using assms(1) by (simp add: simple_ok_def)
  ultimately show ?thesis
    using simple_loop_tokens [OF assms] w unfolding parse_simple_def ts by (simp add: simple_tree_def del: simple_loop.simps)
qed

lemma parse_pipeline_tokens:
  assumes "pipe_ok ss" "ends_at rest" "rest = [] \<or> hd rest \<noteq> [124]"
  shows "parse_pipeline (pipe_tokens ss @ rest) = Inr (pipe_tree ss, rest)"
  using assms
proof (induction ss rule: pipe_tokens.induct)
  case (2 s)
  then have "parse_simple (simple_tokens s @ rest) = Inr (Some (simple_tree s), rest)"
    by (intro parse_simple_tokens) (auto simp: pipe_ok_def)
  then show ?case using 2(3) by (subst parse_pipeline.simps) (auto split: list.split)
next
  case (3 s s2 ss)
  have IH: "parse_pipeline (pipe_tokens (s2 # ss) @ rest) = Inr (pipe_tree (s2 # ss), rest)"
    using 3 by (auto simp: pipe_ok_def)
  have "parse_simple (simple_tokens s @ [124] # pipe_tokens (s2 # ss) @ rest) = Inr (Some (simple_tree s), [124] # pipe_tokens (s2 # ss) @ rest)"
    using 3(2) by (intro parse_simple_tokens) (auto simp: pipe_ok_def ends_at_def stop_words_ops)
  then show ?case using IH by (subst parse_pipeline.simps) simp
qed (simp add: pipe_ok_def)

lemma pipe_tokens_Nil: "pipe_ok ss \<Longrightarrow> pipe_tokens ss \<noteq> []"
  by (cases ss rule: pipe_tokens.cases) (auto simp: pipe_ok_def simple_tokens_def simple_ok_def)

lemma parse_command_tokens: "line_ok l \<Longrightarrow> parse_command (line_tokens l) = Inr (line_tree l, [])"
proof (induction l)
  case (Pipeline ss)
  then show ?case using parse_pipeline_tokens [of ss "[]"] pipe_tokens_Nil [of ss]
    by (subst parse_command.simps) (simp add: ends_at_def)
next
  case (Joined ty ss l)
  have "parse_pipeline (pipe_tokens ss @ join_token ty # line_tokens l) = Inr (pipe_tree ss, join_token ty # line_tokens l)"
    using Joined.prems by (intro parse_pipeline_tokens) (auto simp: ends_at_def join_token_def stop_words_ops)
  then show ?case using Joined pipe_tokens_Nil [of ss]
    by (subst parse_command.simps) (auto simp: join_token_def)
qed

lemma op_token_ok: "t \<in> set op_tokens \<Longrightarrow> token_ok t"
  by (simp add: token_ok_def)

lemma simple_tokens_ok: "simple_ok s \<Longrightarrow> t \<in> set (simple_tokens s) \<Longrightarrow> token_ok t"
  by (auto simp: simple_tokens_def simple_ok_def token_ok_def op_tokens_def split: option.splits if_splits)

lemma pipe_tokens_ok: "pipe_ok ss \<Longrightarrow> t \<in> set (pipe_tokens ss) \<Longrightarrow> token_ok t"
proof (induction ss rule: pipe_tokens.induct)
  case (3 s s2 ss)
  then show ?case by (auto simp: pipe_ok_def simple_tokens_ok op_token_ok op_tokens_def)
qed (auto simp: pipe_ok_def simple_tokens_ok)

lemma line_tokens_ok: "line_ok l \<Longrightarrow> t \<in> set (line_tokens l) \<Longrightarrow> token_ok t"
proof (induction l)
  case (Joined ty ss l)
  have "token_ok (join_token ty)" by (rule op_token_ok) (simp add: join_token_def op_tokens_def)
  then show ?case using Joined pipe_tokens_ok [of ss t] by auto
qed (simp add: pipe_tokens_ok)

lemma parse_input_tokens:
  assumes "line_ok l" "length (line_tokens l) < 256"
  shows "parse_input (spaced (line_tokens l)) = Inr (line_tree l)"
  using tok_loop_spaced [of "line_tokens l" 0] assms line_tokens_ok [OF assms(1)] parse_command_tokens [OF assms(1)]
  by (simp add: parse_input_def tokenize_def)

text \<open>C25: The parser reads every command line back: writing the tokens of a line of pipelines joined by \<open>;\<close>, \<open>&&\<close> and \<open>||\<close>, with
  redirections and background marks, and parsing the text gives the tree of the line, joined to the right.\<close>

theorem parse_input_roundtrip:
  assumes "line_ok l" "length (line_tokens l) < 256"
  shows "parse_input (spaced (line_tokens l)) = Inr (line_tree l)"
  using assms by (rule parse_input_tokens)

text \<open>C39: A line that joins commands by \<open>;\<close>, \<open>&&\<close> or \<open>||\<close> is parsed, but running it reads through the null pointer: the node for the
  operator has no argument array and \<open>execute_command\<close> looks at the first argument before anything else.\<close>

theorem joined_lines_fail:
  assumes "line_ok (Joined ty ss l)" "length (line_tokens (Joined ty ss l)) < 256" "getenv PATH_name env \<noteq> None"
  shows "shell_line env reg (spaced (line_tokens (Joined ty ss l))) = Some (Inl (Undefined ''cmd->args''))"
proof -
  have "spaced (line_tokens (Joined ty ss l)) \<noteq> []" by (simp add: spaced_def)
  moreover have "ty \<noteq> CMD_SIMPLE" using assms(1) by auto
  ultimately show ?thesis using parse_input_tokens [OF assms(1,2)] assms(3)
    by (auto simp: shell_line_def execute_command_def mk_branch_def)
qed

lemma sprintf_two: "length (a @ b) < 256 \<Longrightarrow> sprintf [37, 115, 37, 115] [P_str (Some a), P_str (Some b)] = Inr (a @ b)"
  by (simp add: sprintf_def)

lemma pipe_tree_first:
  assumes "pipe_ok ss"
  shows "\<exists>c. pipe_tree ss = Some c \<and> c_type c = CMD_SIMPLE \<and> c_command c = Some (hd (s_args (hd ss))) \<and> c_args c = Some (s_args (hd ss))"
  using assms by (cases ss rule: pipe_tree.cases) (auto simp: pipe_ok_def simple_tree_def mk_simple_def set_next_def)

text \<open>Of a pipeline the shell runs the first command only, and without its redirections: it spawns the program that \<open>PATH\<close>
  and the first word name together, with the words as arguments, unless the word is the name of a built-in command.\<close>

theorem shell_runs_first:
  assumes "pipe_ok ss" "length (pipe_tokens ss) < 256" "getenv PATH_name env = Some (Some path)"
    and "hd (s_args (hd ss)) \<noteq> [101, 120, 105, 116]" "length (path @ hd (s_args (hd ss))) < 256"
  shows "shell_line env reg (spaced (pipe_tokens ss)) =
    Some (Inr (Acts (case lookup_command (hd (s_args (hd ss))) reg of
      Some f \<Rightarrow> A_builtin f (s_args (hd ss))
    | None \<Rightarrow> A_spawn (path @ hd (s_args (hd ss))) (s_args (hd ss)))))"
proof -
  obtain c where c: "pipe_tree ss = Some c" "c_type c = CMD_SIMPLE" "c_command c = Some (hd (s_args (hd ss)))" "c_args c = Some (s_args (hd ss))"
    using pipe_tree_first [OF assms(1)] by blast
  obtain w ws where w: "s_args (hd ss) = w # ws"
    using assms(1) by (cases ss; cases "s_args (hd ss)") (auto simp: pipe_ok_def simple_ok_def)
  have "parse_input (spaced (pipe_tokens ss)) = Inr (Some c)"
    using parse_input_tokens [of "Pipeline ss"] assms(1,2) c(1) by simp
  moreover have "spaced (pipe_tokens ss) \<noteq> []" using pipe_tokens_Nil [OF assms(1)] by (cases "pipe_tokens ss") (auto simp: spaced_def)
  ultimately show ?thesis using assms(3-5) c w sprintf_two [of path w]
    by (auto simp: shell_line_def execute_command_def split: option.split)
qed

definition all_ok :: malloc_ok where
  "all_ok = \<lparr>m_table = True, m_array = True, m_grow = True, m_key = True\<rparr>"

lemma all_ok_simps: "m_table all_ok = True" "m_array all_ok = True" "m_grow all_ok = True" "m_key all_ok = True"
  by (simp_all add: all_ok_def)

definition env_ok :: "nat \<Rightarrow> ht option \<Rightarrow> bool" where
  "env_ok n env \<longleftrightarrow> (case env of None \<Rightarrow> n \<le> 2 ^ 19 | Some t \<Rightarrow> ht_budget n t)"

lemma setenv_effect:
  assumes "env_ok (Suc n) env" "0 \<notin> set name" "length value < VALUE_SIZE"
  shows "\<exists>t. setenv all_ok name value ov env = Some (Inr (Some t)) \<and> env_ok n (Some t) \<and>
    ht_abs t = (case env of None \<Rightarrow> Map.empty | Some t0 \<Rightarrow> ht_abs t0)(name \<mapsto> value)"
proof -
  obtain t0 where t0: "(case env of None \<Rightarrow> ht_create True True | Some t \<Rightarrow> Inr (Some t)) = Inr (Some t0)" "ht_budget (Suc n) t0"
      "ht_abs t0 = (case env of None \<Rightarrow> Map.empty | Some t0 \<Rightarrow> ht_abs t0)"
  proof (cases env)
    case None
    then show ?thesis using that ht_create_effect assms(1) by (auto simp: env_ok_def ht_budget_def)
  next
    case (Some t)
    then show ?thesis using that assms(1) by (auto simp: env_ok_def)
  qed
  obtain t where t: "ht_set True True t0 name value = Some (Inr (Some name, t))" "ht_budget n t" "ht_abs t = (ht_abs t0)(name \<mapsto> value)"
    using htm.put_abs [OF t0(2) assms(2,3)] by blast
  have "setenv all_ok name value ov env = Some (Inr (Some t))"
    unfolding setenv_def all_ok_simps t0(1) by (simp add: t(1))
  then show ?thesis using t t0(3) by (auto simp: env_ok_def)
qed

text \<open>After \<open>setenv\<close> (whatever \<open>overwrite\<close> is) \<open>getenv\<close> returns the value and every other variable is as before; after
  \<open>unsetenv\<close> the variable is still set, to the empty string.\<close>

theorem setenv_getenv:
  assumes "env_ok (Suc n) (Some t0)" "0 \<notin> set name" "0 \<notin> set other" "length value < VALUE_SIZE"
  shows "\<exists>t t'. setenv all_ok name value ov (Some t0) = Some (Inr (Some t)) \<and>
      getenv other (Some t) = (if other = name then Some (Some value) else getenv other (Some t0)) \<and>
      unsetenv all_ok name (Some t0) = Some (Inr (Some t')) \<and>
      getenv other (Some t') = (if other = name then Some (Some []) else getenv other (Some t0))"
proof -
  have g: "getenv other (Some t) = Some (ht_abs t other)" if "env_ok m (Some t)" for m t
    using that htm.get_abs [of m t other] assms(3) by (simp add: getenv_def env_ok_def)
  obtain t where t: "setenv all_ok name value ov (Some t0) = Some (Inr (Some t))" "env_ok n (Some t)" "ht_abs t = (ht_abs t0)(name \<mapsto> value)"
    using setenv_effect [OF assms(1,2,4), of ov] by auto
  obtain t' where t': "setenv all_ok name [] 1 (Some t0) = Some (Inr (Some t'))" "env_ok n (Some t')" "ht_abs t' = (ht_abs t0)(name \<mapsto> [])"
    using setenv_effect [OF assms(1,2), of "[]" 1] by (auto simp: VALUE_SIZE_def)
  show ?thesis using t t' g [OF t(2)] g [OF t'(2)] g [OF assms(1)] by (auto simp: unsetenv_def)
qed

section \<open>Instances\<close>

text \<open>\<open>ls -l > out ; wc\<close>, and \<open>ls | wc\<close>.\<close>

definition ex_ls :: simple where
  "ex_ls = simple_init\<lparr>s_args := [[108, 115], [45, 108]], s_output := Some [111, 117, 116]\<rparr>"

definition ex_wc :: simple where
  "ex_wc = simple_init\<lparr>s_args := [[119, 99]]\<rparr>"

lemma ex_simple_ok: "simple_ok ex_ls" "simple_ok ex_wc"
  by (simp_all add: ex_ls_def ex_wc_def simple_ok_def simple_init_def plain_word_def special_def space_def isspace_def
      TAB_def LF_def VT_def FF_def CR_def SPACE_def stop_words_def)

theorem parse_input_roundtrip_witness:
  "parse_input [108, 115, 32, 45, 108, 32, 62, 32, 111, 117, 116, 32, 59, 32, 119, 99, 32] =
    Inr (Some (mk_branch CMD_SEQUENCE (Some (simple_tree ex_ls)) (Some (simple_tree ex_wc))))"
proof -
  have "line_ok (Joined CMD_SEQUENCE [ex_ls] (Pipeline [ex_wc]))" using ex_simple_ok by (simp add: pipe_ok_def)
  from parse_input_roundtrip [OF this] show ?thesis
    by (simp add: spaced_def simple_tokens_def join_token_def ex_ls_def ex_wc_def simple_init_def)
qed

lemma ex_env: "env_ok 5 (Some ex_table)" "getenv PATH_name (Some ex_table) = Some (Some [47, 98, 105, 110])"
proof -
  show e: "env_ok 5 (Some ex_table)" using ex_table_inv by (simp add: env_ok_def ht_budget_def ex_table_def)
  show "getenv PATH_name (Some ex_table) = Some (Some [47, 98, 105, 110])"
    using htm.get_abs [of 5 ex_table PATH_name] e ex_table_inv(2) by (simp add: getenv_def env_ok_def PATH_name_def)
qed

theorem joined_lines_fail_witness:
  "shell_line (Some ex_table) None [108, 115, 32, 45, 108, 32, 62, 32, 111, 117, 116, 32, 59, 32, 119, 99, 32] =
    Some (Inl (Undefined ''cmd->args''))"
proof -
  have "line_ok (Joined CMD_SEQUENCE [ex_ls] (Pipeline [ex_wc]))" using ex_simple_ok by (simp add: pipe_ok_def)
  from joined_lines_fail [OF this, of "Some ex_table" None] show ?thesis
    by (simp add: ex_env spaced_def simple_tokens_def join_token_def ex_ls_def ex_wc_def simple_init_def)
qed

theorem shell_runs_first_witness:
  "shell_line (Some ex_table) None [108, 115, 32, 45, 108, 32, 62, 32, 111, 117, 116, 32, 124, 32, 119, 99, 32] =
    Some (Inr (Acts (A_spawn [47, 98, 105, 110, 108, 115] [[108, 115], [45, 108]])))"
proof -
  have "pipe_ok [ex_ls, ex_wc]" using ex_simple_ok by (simp add: pipe_ok_def)
  from shell_runs_first [OF this _ ex_env(2), of None] show ?thesis
    by (simp add: spaced_def simple_tokens_def ex_ls_def ex_wc_def simple_init_def lookup_command_def)
qed

theorem setenv_getenv_witness:
  "\<exists>t t'. setenv all_ok [65] [66] 0 (Some ex_table) = Some (Inr (Some t)) \<and> getenv [65] (Some t) = Some (Some [66]) \<and>
    unsetenv all_ok [65] (Some ex_table) = Some (Inr (Some t')) \<and> getenv [65] (Some t') = Some (Some [])"
  using setenv_getenv [of 4 ex_table "[65]" "[65]" "[66]" 0] ex_env(1) by (simp add: VALUE_SIZE_def)

end
