(* ===== verification/Links.thy ===== *)
theory Links
  imports Xv6_Prelude
begin

text \<open>
  Chains of pointers, as relations between the function that follows a pointer and the list of the nodes it passes: the free
  list of \<open>malloc\<close> and the request queue of the disk driver are such chains.
\<close>

text \<open>\<open>linked h xs\<close>: every element of \<open>xs\<close> but the last points to the next.\<close>

abbreviation linked :: "(nat \<Rightarrow> nat) \<Rightarrow> nat list \<Rightarrow> bool" where
  "linked h \<equiv> successively (\<lambda>a b. h a = b)"

lemma linked_upd [simp]: "a \<notin> set (butlast xs) \<Longrightarrow> linked (h(a := v)) xs \<longleftrightarrow> linked h xs"
proof (induction xs)
  case (Cons x xs)
  then show ?case by (cases xs) auto
qed simp

lemma linked_split: "linked h (xs @ a # ys) \<longleftrightarrow> linked h (xs @ [a]) \<and> linked h (a # ys)"
  by (cases ys) (auto simp: successively_append_iff)

lemma linked_hd: "linked h (a # ys) \<Longrightarrow> ys \<noteq> [] \<Longrightarrow> h a = hd ys"
  by (cases ys) auto

lemma linked_Cons: "ys \<noteq> [] \<Longrightarrow> linked h (a # ys) \<longleftrightarrow> h a = hd ys \<and> linked h ys"
  by (cases ys) auto

end
