(* ===== verification/Umalloc.thy ===== *)
theory Umalloc
  imports Links
begin

text \<open>
  \<open>ulib/libc/stdlib/umalloc.c\<close>: \<open>malloc\<close> and \<open>free\<close> of user programs (after Kernighan and Ritchie). The free blocks form a circular
  list in the order of their addresses, linked through headers of 16 bytes in front of each block, with the static object
  \<open>base\<close> as a block of size 0; sizes count headers. The state has the two fields of a header at every address. Whether
  \<open>sbrk\<close> grants a request is an argument. A walk round the list may not end, which is \<open>None\<close>. \<open>um_inv\<close> says that the list is
  circular and sorted and that free blocks and the blocks handed out lie side by side in the heap; the theorems: \<open>malloc\<close>
  and \<open>free\<close> return, keep it, and leave the blocks handed out alone.
\<close>

section \<open>Operations\<close>

definition HS :: nat where "HS = 16"

record um =
  hptr :: "nat \<Rightarrow> nat"
  hsize :: "nat \<Rightarrow> nat"
  base :: nat
  freep :: nat
  brk :: nat

definition set_ptr :: "nat \<Rightarrow> nat \<Rightarrow> um \<Rightarrow> um" where
  "set_ptr a v s = s\<lparr>hptr := (hptr s)(a := v)\<rparr>"

definition set_size :: "nat \<Rightarrow> nat \<Rightarrow> um \<Rightarrow> um" where
  "set_size a v s = s\<lparr>hsize := (hsize s)(a := v mod 2 ^ 32)\<rparr>"

text \<open>The loop of \<open>free\<close> for the place of the block at \<open>bp\<close>.\<close>

partial_function (option) free_find :: "um \<Rightarrow> nat \<Rightarrow> nat \<Rightarrow> nat option" where
  "free_find s bp p =
     (if bp > p \<and> bp < hptr s p then Some p
      else if p \<ge> hptr s p \<and> (bp > p \<or> bp < hptr s p) then Some p
      else free_find s bp (hptr s p))"

definition free_link :: "nat \<Rightarrow> nat \<Rightarrow> um \<Rightarrow> um" where
  "free_link bp p s =
     (let s = (if bp + HS * hsize s bp = hptr s p
               then let s = set_size bp (hsize s bp + hsize s (hptr s p)) s in set_ptr bp (hptr s (hptr s p)) s
               else set_ptr bp (hptr s p) s);
          s = (if p + HS * hsize s p = bp
               then let s = set_size p (hsize s p + hsize s bp) s in set_ptr p (hptr s bp) s
               else set_ptr p bp s)
      in s\<lparr>freep := p\<rparr>)"

definition free :: "nat \<Rightarrow> um \<Rightarrow> um res option" where
  "free ap s =
     (let bp = ap - HS
      in if freep s = 0 then Some (Inl (Undefined ''free: freep''))
         else case free_find s bp (freep s) of None \<Rightarrow> None | Some p \<Rightarrow> Some (Inr (free_link bp p s)))"

text \<open>\<open>sbrk\<close> takes an \<open>int\<close>; the old end of the heap is returned when the kernel grants the request.\<close>

definition sbrk :: "bool \<Rightarrow> int \<Rightarrow> um \<Rightarrow> nat option \<times> um" where
  "sbrk ok n s = (if ok then (Some (brk s), s\<lparr>brk := nat (int (brk s) + n)\<rparr>) else (None, s))"

definition morecore :: "bool \<Rightarrow> nat \<Rightarrow> um \<Rightarrow> (nat \<times> um) res option" where
  "morecore ok nu s =
     (let nu = (if nu < 4096 then 4096 else nu)
      in case sbrk ok (wrap_int (int (nu * HS))) s of
           (None, s) \<Rightarrow> Some (Inr (0, s))
         | (Some p, s) \<Rightarrow> ro_bind (free (p + HS) (set_size p nu s)) (\<lambda>s. Some (Inr (freep s, s))))"

text \<open>Taking \<open>nunits\<close> headers from the block at \<open>p\<close>.\<close>

definition take_block :: "nat \<Rightarrow> nat \<Rightarrow> nat \<Rightarrow> um \<Rightarrow> nat \<times> um" where
  "take_block nunits prevp p s =
     (let (p, s) = (if hsize s p = nunits then (p, set_ptr prevp (hptr s p) s)
                    else let s = set_size p (hsize s p - nunits) s; p = p + HS * hsize s p in (p, set_size p nunits s))
      in (p + HS, s\<lparr>freep := prevp\<rparr>))"

partial_function (option) malloc_loop :: "bool \<Rightarrow> nat \<Rightarrow> nat \<Rightarrow> nat \<Rightarrow> um \<Rightarrow> (nat \<times> um) res option" where
  "malloc_loop ok nunits prevp p s =
     (if hsize s p \<ge> nunits then Some (Inr (take_block nunits prevp p s))
      else if p = freep s then
        (case morecore ok nunits s of
           None \<Rightarrow> None
         | Some (Inl e) \<Rightarrow> Some (Inl e)
         | Some (Inr (p, s)) \<Rightarrow> if p = 0 then Some (Inr (0, s)) else malloc_loop ok nunits p (hptr s p) s)
      else malloc_loop ok nunits p (hptr s p) s)"

definition units :: "nat \<Rightarrow> nat" where
  "units nbytes = ((nbytes + HS - 1) div HS + 1) mod 2 ^ 32"

definition malloc :: "bool \<Rightarrow> nat \<Rightarrow> um \<Rightarrow> (nat \<times> um) res option" where
  "malloc ok nbytes s =
     (let s = (if freep s = 0 then set_size (base s) 0 (set_ptr (base s) (base s) (s\<lparr>freep := base s\<rparr>)) else s)
      in malloc_loop ok (units nbytes) (freep s) (hptr s (freep s)) s)"

section \<open>The circular list\<close>

lemmas um_simps = set_ptr_def set_size_def

definition circ :: "nat list \<Rightarrow> um \<Rightarrow> bool" where
  "circ L s \<longleftrightarrow> L \<noteq> [] \<and> sorted_wrt (<) L \<and> hd L = base s \<and> linked (hptr s) (L @ [base s]) \<and> freep s \<in> set L"

text \<open>The search for the place of a block.\<close>

lemma free_find_up:
  assumes "sorted_wrt (<) (q # vs)" "linked (hptr s) (q # vs @ [b])" "b \<le> q" "b < bp" "q < bp" "bp \<notin> set (q # vs)"
  shows "\<exists>ys p zs. q # vs = ys @ p # zs \<and> free_find s bp q = Some p \<and> p < bp \<and> (\<forall>z \<in> set zs. bp < z)"
  using assms
proof (induction vs arbitrary: q)
  case Nil
  then show ?case by (intro exI [of _ "[]"] exI [of _ q]) (simp add: free_find.simps)
next
  case (Cons v vs)
  have v: "hptr s q = v" "q < v" "v \<noteq> bp" using Cons.prems by auto
  show ?case
  proof (cases "bp < v")
    case True
    then have "free_find s bp q = Some q" using v Cons.prems by (simp add: free_find.simps)
    moreover have "\<forall>z \<in> set (v # vs). bp < z" using True Cons.prems(1) by auto
    ultimately show ?thesis using Cons.prems by (intro exI [of _ "[]"] exI [of _ q] exI [of _ "v # vs"]) simp
  next
    case False
    then have f: "free_find s bp q = free_find s bp v" using v by (subst free_find.simps) simp
    have "\<exists>ys p zs. v # vs = ys @ p # zs \<and> free_find s bp v = Some p \<and> p < bp \<and> (\<forall>z \<in> set zs. bp < z)"
      using Cons.prems v False by (intro Cons.IH) auto
    then show ?thesis unfolding f by (metis append_Cons)
  qed
qed

lemma free_find_wrap:
  assumes "sorted_wrt (<) (q # vs)" "linked (hptr s) (q # vs @ [b])" "b \<le> q" "b < bp" "bp < q"
  shows "free_find s bp q = free_find s bp b"
  using assms
proof (induction vs arbitrary: q)
  case Nil
  then show ?case by (subst free_find.simps) simp
next
  case (Cons v vs)
  have v: "hptr s q = v" "q < v" using Cons.prems by auto
  then have "free_find s bp q = free_find s bp v" using Cons.prems by (subst free_find.simps) simp
  then show ?case using Cons.IH [of v] Cons.prems v by auto
qed

lemma free_find_place:
  assumes "circ L s" "q \<in> set L" "base s < bp" "bp \<notin> set L"
  shows "\<exists>ys p zs. L = ys @ p # zs \<and> free_find s bp q = Some p \<and> p < bp \<and> (\<forall>z \<in> set zs. bp < z)"
proof -
  have c: "sorted_wrt (<) L" "hd L = base s" "linked (hptr s) (L @ [base s])" "L \<noteq> []" using assms(1) by (auto simp: circ_def)
  obtain us vs where L: "L = us @ q # vs" using assms(2) by (meson split_list)
  have q: "sorted_wrt (<) (q # vs)" "linked (hptr s) (q # vs @ [base s])" "base s \<le> q"
    using c linked_split [of "hptr s" us q "vs @ [base s]"] unfolding L by (auto simp: sorted_wrt_append) (cases us; auto)
  show ?thesis
  proof (cases "q < bp")
    case True
    from free_find_up [OF q assms(3) True] assms(4) L obtain ys p zs where
      "q # vs = ys @ p # zs" "free_find s bp q = Some p" "p < bp" "\<forall>z \<in> set zs. bp < z" by auto
    then show ?thesis using L by (metis append.assoc)
  next
    case False
    then have "bp < q" using assms(2,4) by (metis linorder_neqE_nat)
    then have "free_find s bp q = free_find s bp (base s)" using free_find_wrap [OF q assms(3)] by simp
    moreover obtain vs' where "L = base s # vs'" using c by (cases L) auto
    ultimately show ?thesis using free_find_up [of "base s" vs' s "base s" bp] c assms(3,4) by auto
  qed
qed

section \<open>The heap\<close>

text \<open>Blocks, given by the addresses of their headers, side by side between \<open>base\<close> and the end of the heap.\<close>

definition heap_ok :: "nat set \<Rightarrow> um \<Rightarrow> bool" where
  "heap_ok B s \<longleftrightarrow> (\<forall>a \<in> B. 0 < hsize s a \<and> base s + HS \<le> a \<and> a + HS * hsize s a \<le> brk s) \<and>
     (\<forall>a \<in> B. \<forall>b \<in> B. a < b \<longrightarrow> a + HS * hsize s a \<le> b)"

definition um_inv :: "nat list \<Rightarrow> nat set \<Rightarrow> um \<Rightarrow> bool" where
  "um_inv L A s \<longleftrightarrow> circ L s \<and> 0 < base s \<and> base s + HS \<le> brk s \<and> brk s < 2 ^ 36 \<and> hsize s (base s) = 0 \<and>
     A \<inter> set L = {} \<and> heap_ok (set L - {base s} \<union> A) s"

text \<open>Nothing inside a block of \<open>A\<close> has changed.\<close>

definition keeps :: "nat set \<Rightarrow> um \<Rightarrow> um \<Rightarrow> bool" where
  "keeps A s s' \<longleftrightarrow> (\<forall>a \<in> A. \<forall>x. a \<le> x \<and> x < a + HS * hsize s a \<longrightarrow> hptr s' x = hptr s x \<and> hsize s' x = hsize s x)"

lemma HS_pos [simp]: "0 < HS" by (simp add: HS_def)

lemma heap_ok_mono: "heap_ok B s \<Longrightarrow> C \<subseteq> B \<Longrightarrow> heap_ok C s"
  unfolding heap_ok_def by blast

lemma heap_okD:
  assumes "heap_ok B s" "a \<in> B"
  shows "0 < hsize s a" "base s + HS \<le> a" "a + HS * hsize s a \<le> brk s" "b \<in> B \<Longrightarrow> a < b \<Longrightarrow> a + HS * hsize s a \<le> b"
  using assms unfolding heap_ok_def by blast+

lemma hsize_less: "heap_ok B s \<Longrightarrow> a \<in> B \<Longrightarrow> brk s < 2 ^ 36 \<Longrightarrow> hsize s a < 2 ^ 32"
  using heap_okD(3) [of B s a] by (simp add: HS_def)

text \<open>An address inside one block is the header of no other block.\<close>

lemma inside_block:
  assumes "heap_ok B s" "a \<in> B" "b \<in> B" "a \<le> x" "x < a + HS * hsize s a"
  shows "b \<noteq> x \<or> a = b"
  using heap_okD(4) [OF assms(1,2,3)] heap_okD(1) [OF assms(1,3)] assms(4,5) by (metis le_neq_implies_less not_le)

text \<open>The block at \<open>bp\<close> joined with the block right behind it.\<close>

lemma heap_ok_join:
  assumes "heap_ok B s" "a \<in> B" "b \<in> B" "a + HS * hsize s a = b" "brk s < 2 ^ 36" "hsize s' = (hsize s)(a := hsize s a + hsize s b)"
    "base s' = base s" "brk s' = brk s"
  shows "heap_ok (B - {b}) s'"
  unfolding heap_ok_def
proof (intro conjI ballI impI)
  have ab: "a < b" "b + HS * hsize s b \<le> brk s" using heap_okD(1) [OF assms(1,2)] assms(4) heap_okD(3) [OF assms(1,3)] by (auto simp: HS_def)
  have e: "a + HS * (hsize s a + hsize s b) = b + HS * hsize s b" using assms(4) by (simp add: distrib_left)
  fix c assume c: "c \<in> B - {b}"
  show "0 < hsize s' c" "base s' + HS \<le> c" "c + HS * hsize s' c \<le> brk s'"
    using c heap_okD [OF assms(1), of c] ab e unfolding assms(6-8) by auto
  fix d assume d: "d \<in> B - {b}" and cd: "c < d"
  show "c + HS * hsize s' c \<le> d"
  proof (cases "c = a")
    case True
    have "b \<le> d" using heap_okD(4) [OF assms(1,2), of d] d cd True assms(4) by simp
    then have "b < d" using d by auto
    then have "b + HS * hsize s b \<le> d" using heap_okD(4) [OF assms(1,3), of d] d by simp
    then show ?thesis using True e unfolding assms(6) by simp
  next
    case False
    then show ?thesis using heap_okD(4) [OF assms(1), of c d] c d cd unfolding assms(6) by simp
  qed
qed

lemma join_size:
  assumes "heap_ok B s" "a \<in> B" "b \<in> B" "a + HS * hsize s a = b" "brk s < 2 ^ 36"
  shows "(hsize s a + hsize s b) mod 2 ^ 32 = hsize s a + hsize s b"
proof -
  have "a + HS * (hsize s a + hsize s b) \<le> brk s" using heap_okD(3) [OF assms(1,3)] assms(4) by (simp add: distrib_left)
  then show ?thesis using assms(5) by (simp add: HS_def)
qed

text \<open>The two halves of linking a block in: with its successor, and with its predecessor.\<close>

definition link_next :: "nat \<Rightarrow> nat \<Rightarrow> um \<Rightarrow> um" where
  "link_next bp p s =
     (if bp + HS * hsize s bp = hptr s p
      then let s = set_size bp (hsize s bp + hsize s (hptr s p)) s in set_ptr bp (hptr s (hptr s p)) s
      else set_ptr bp (hptr s p) s)"

definition link_prev :: "nat \<Rightarrow> nat \<Rightarrow> um \<Rightarrow> um" where
  "link_prev bp p s =
     (if p + HS * hsize s p = bp then let s = set_size p (hsize s p + hsize s bp) s in set_ptr p (hptr s bp) s
      else set_ptr p bp s)"

lemma free_link_halves: "free_link bp p s = (link_prev bp p (link_next bp p s))\<lparr>freep := p\<rparr>"
  unfolding free_link_def link_next_def link_prev_def Let_def ..

text \<open>The state in between: \<open>bp\<close> points on, \<open>p\<close> does not yet point to it.\<close>

lemma link_next_ok:
  assumes "linked (hptr s) (p # zs @ [base s])" "heap_ok B s" "bp \<in> B" "set zs \<subseteq> B" "\<forall>z \<in> set zs. bp < z" "p < bp" "brk s < 2 ^ 36"
    "distinct zs"
  shows "\<exists>zs' h n. link_next bp p s = s\<lparr>hptr := (hptr s)(bp := h), hsize := (hsize s)(bp := n)\<rparr> \<and> hsize s bp \<le> n \<and>
    (\<exists>us. zs = us @ zs') \<and>
    linked (hptr (link_next bp p s)) (bp # zs' @ [base s]) \<and> heap_ok (B - (set zs - set zs')) (link_next bp p s)"
proof -
  have nx: "hptr s p = hd (zs @ [base s])" using assms(1) linked_hd [of "hptr s" p "zs @ [base s]"] by simp
  have bz: "bp \<notin> set zs" "bp \<noteq> base s" using assms(5) heap_okD(2) [OF assms(2,3)] by (auto simp: HS_def)
  have z: "linked (hptr s) (zs @ [base s])" using assms(1) linked_Cons [of "zs @ [base s]"] by simp
  show ?thesis
  proof (cases "bp + HS * hsize s bp = hptr s p")
    case True
    then have "hptr s p \<noteq> base s" using heap_okD(2) [OF assms(2,3)] by (auto simp: HS_def)
    then obtain v vs where zs: "zs = v # vs" "hptr s p = v" using nx by (cases zs) auto
    have v: "v \<in> B" "bp + HS * hsize s bp = v" "v \<noteq> bp" using zs assms(4,5) True by auto
    let ?n = "hsize s bp + hsize s v"
    have eq: "link_next bp p s = s\<lparr>hptr := (hptr s)(bp := hptr s v), hsize := (hsize s)(bp := ?n)\<rparr>"
      using True zs(2) join_size [OF assms(2,3) v(1,2) assms(7)] unfolding link_next_def by (simp add: um_simps)
    have hd: "hptr s v = hd (vs @ [base s])" using z linked_hd [of "hptr s" v "vs @ [base s]"] unfolding zs by simp
    have "linked ((hptr s)(bp := hptr s v)) (vs @ [base s])"
      using z bz unfolding zs by (subst linked_upd) (auto simp: linked_Cons)
    then have "linked ((hptr s)(bp := hptr s v)) (bp # vs @ [base s])" using hd by (subst linked_Cons) simp_all
    moreover have "heap_ok (B - {v}) (link_next bp p s)"
      unfolding eq by (rule heap_ok_join [OF assms(2,3) v(1,2) assms(7)]) simp_all
    moreover have "set zs - set vs = {v}" using assms(8) zs by auto
    ultimately show ?thesis using eq zs by (intro exI [of _ vs] exI [of _ "hptr s v"] exI [of _ ?n]) auto
  next
    case False
    have eq: "link_next bp p s = s\<lparr>hptr := (hptr s)(bp := hptr s p), hsize := (hsize s)(bp := hsize s bp)\<rparr>"
      using False unfolding link_next_def by (simp add: um_simps)
    have "linked ((hptr s)(bp := hptr s p)) (zs @ [base s])" using z bz by (subst linked_upd) auto
    then have "linked ((hptr s)(bp := hptr s p)) (bp # zs @ [base s])" using nx by (subst linked_Cons) simp_all
    moreover have "heap_ok B (link_next bp p s)" unfolding eq using assms(2) by (simp add: heap_ok_def)
    ultimately show ?thesis using eq by (intro exI [of _ zs] exI [of _ "hptr s p"] exI [of _ "hsize s bp"]) auto
  qed
qed

lemma link_prev_ok:
  assumes "linked (hptr s) (ys @ [p])" "linked (hptr s) (bp # zs @ [base s])" "heap_ok B s" "bp \<in> B" "p = base s \<or> p \<in> B"
    "p < bp" "hsize s (base s) = 0" "brk s < 2 ^ 36" "bp \<notin> set ys" "p \<notin> set ys" "p \<notin> set zs" "bp \<notin> set zs" "base s \<in> set (ys @ [p])"
  shows "\<exists>ws h n C. link_prev bp p s = s\<lparr>hptr := (hptr s)(p := h), hsize := (hsize s)(p := n)\<rparr> \<and> hsize s p \<le> n \<and>
    (ws = [bp] \<and> C = B \<and> n = hsize s p \<or> ws = [] \<and> C = B - {bp} \<and> p \<noteq> base s \<and> hsize s bp \<le> n) \<and>
    linked (hptr (link_prev bp p s)) (ys @ p # ws @ zs @ [base s]) \<and> heap_ok C (link_prev bp p s)"
proof -
  have u: "linked ((hptr s)(p := h)) (ys @ [p])" for h using assms(1,10) by (subst linked_upd) auto
  have z: "linked (hptr s) (zs @ [base s])" "hptr s bp = hd (zs @ [base s])"
    using assms(2) linked_Cons [of "zs @ [base s]"] by simp_all
  have v: "linked ((hptr s)(p := h)) (zs @ [base s])" for h using z(1) assms(11) by (subst linked_upd) auto
  show ?thesis
  proof (cases "p + HS * hsize s p = bp")
    case True
    then have p: "p \<noteq> base s" "p \<in> B" using assms(5-7) by auto
    let ?n = "hsize s p + hsize s bp"
    have eq: "link_prev bp p s = s\<lparr>hptr := (hptr s)(p := hptr s bp), hsize := (hsize s)(p := ?n)\<rparr>"
      using True join_size [OF assms(3) p(2) assms(4) True assms(8)] assms(6) unfolding link_prev_def by (simp add: um_simps)
    have "linked ((hptr s)(p := hptr s bp)) (ys @ p # [] @ zs @ [base s])"
      using u [of "hptr s bp"] v [of "hptr s bp"] z(2) by (subst linked_split) (simp add: linked_Cons)
    moreover have "heap_ok (B - {bp}) (link_prev bp p s)"
      unfolding eq by (rule heap_ok_join [OF assms(3) p(2) assms(4) True assms(8)]) simp_all
    ultimately show ?thesis using eq p(1) by (intro exI [of _ "[]"] exI [of _ "hptr s bp"] exI [of _ ?n] exI [of _ "B - {bp}"]) simp
  next
    case False
    have eq: "link_prev bp p s = s\<lparr>hptr := (hptr s)(p := bp), hsize := (hsize s)(p := hsize s p)\<rparr>"
      using False unfolding link_prev_def by (simp add: um_simps)
    have "linked ((hptr s)(p := bp)) (bp # zs @ [base s])" using v [of bp] z(2) assms(6) by (subst linked_Cons) simp_all
    then have "linked ((hptr s)(p := bp)) (ys @ p # [bp] @ zs @ [base s])"
      using u [of bp] by (subst linked_split) simp
    moreover have "heap_ok B (link_prev bp p s)" unfolding eq using assms(3) by (simp add: heap_ok_def)
    ultimately show ?thesis using eq by (intro exI [of _ "[bp]"] exI [of _ bp] exI [of _ "hsize s p"] exI [of _ B]) simp
  qed
qed

lemma free_link_ok:
  assumes inv: "um_inv L A s" and bp: "bp \<in> A" and L: "L = ys @ p # zs" "p < bp" "\<forall>z \<in> set zs. bp < z"
  shows "\<exists>L'. um_inv L' (A - {bp}) (free_link bp p s) \<and> keeps (A - {bp}) s (free_link bp p s) \<and>
    (\<exists>a \<in> set L'. hsize s bp \<le> hsize (free_link bp p s) a) \<and> base (free_link bp p s) = base s \<and> brk (free_link bp p s) = brk s"
proof -
  let ?B = "set L - {base s} \<union> A"
  have c: "sorted_wrt (<) L" "hd L = base s" "linked (hptr s) (L @ [base s])" "brk s < 2 ^ 36" "hsize s (base s) = 0" "A \<inter> set L = {}" "heap_ok ?B s"
    using inv by (auto simp: um_inv_def circ_def)
  have d: "distinct L" using c(1) by (simp add: strict_sorted_iff)
  have b: "base s \<in> set (ys @ [p])" "base s \<notin> set zs" using c(2) d L(1) by (cases ys; auto)+
  have bp': "bp \<notin> set L" "bp \<in> ?B" "bp \<noteq> base s" using bp c(6) heap_okD(2) [OF c(7), of bp] by (auto simp: HS_def)
  have lk: "linked (hptr s) (ys @ [p])" "linked (hptr s) (p # zs @ [base s])"
    using c(3) linked_split [of "hptr s" ys p "zs @ [base s]"] unfolding L(1) by simp_all
  have zB: "set zs \<subseteq> ?B" and dz0: "distinct zs" using b d L(1) by auto
  let ?s1 = "link_next bp p s"
  obtain zs' us h n where s1: "?s1 = s\<lparr>hptr := (hptr s)(bp := h), hsize := (hsize s)(bp := n)\<rparr>" "hsize s bp \<le> n" "zs = us @ zs'"
      "linked (hptr ?s1) (bp # zs' @ [base s])" "heap_ok (?B - (set zs - set zs')) ?s1"
    using link_next_ok [OF lk(2) c(7) bp'(2) zB L(3) L(2) c(4) dz0] by blast
  let ?B1 = "?B - (set zs - set zs')"
  have dz: "distinct zs'" "set zs' \<subseteq> set zs" "set us \<inter> set zs' = {}" using d L(1) s1(3) by auto
  have B1: "?B1 = set (ys @ p # zs') - {base s} \<union> A" using c(6) d L(1) dz by auto
  have pB: "p = base s \<or> p \<in> ?B1" using B1 by auto
  obtain ws h' n' C where s2: "link_prev bp p ?s1 = ?s1\<lparr>hptr := (hptr ?s1)(p := h'), hsize := (hsize ?s1)(p := n')\<rparr>" "hsize ?s1 p \<le> n'"
      "ws = [bp] \<and> C = ?B1 \<and> n' = hsize ?s1 p \<or> ws = [] \<and> C = ?B1 - {bp} \<and> p \<noteq> base s \<and> hsize ?s1 bp \<le> n'"
      "linked (hptr (link_prev bp p ?s1)) (ys @ p # ws @ zs' @ [base s])" "heap_ok C (link_prev bp p ?s1)"
  proof -
    have e: "base ?s1 = base s" "brk ?s1 = brk s" "hsize ?s1 (base s) = 0" using s1(1) c(5) bp'(3) by auto
    have "hptr ?s1 = (hptr s)(bp := h)" using s1(1) by simp
    then have "linked (hptr ?s1) (ys @ [p])" using lk(1) bp'(1) L(1) linked_upd [of bp "ys @ [p]" "hptr s" h] by simp
    moreover have "bp \<in> ?B1" "bp \<notin> set ys" "p \<notin> set ys" "p \<notin> set zs'" "bp \<notin> set zs'" using B1 bp bp'(1) d L(1) dz(2) by auto
    ultimately show thesis using link_prev_ok [of ?s1 ys p bp zs' ?B1] that s1(4,5) pB L(2) b(1) c(4) unfolding e by blast
  qed
  let ?s' = "free_link bp p s" and ?L = "ys @ p # ws @ zs'"
  have s': "?s' = (link_prev bp p ?s1)\<lparr>freep := p\<rparr>" by (rule free_link_halves)
  have e: "base ?s' = base s" "brk ?s' = brk s" using s1(1) s2(1) s' by auto
  have "sorted_wrt (<) ?L" using c(1) L s1(3) s2(3) by (auto simp: sorted_wrt_append)
  moreover have "hd ?L = base s" using c(2) L(1) by (cases ys) auto
  ultimately have "circ ?L ?s'" using s2(4) e s' by (simp add: circ_def)
  moreover have "heap_ok C ?s'" using s2(5) s' by (simp add: heap_ok_def)
  moreover have "C = set ?L - {base s} \<union> (A - {bp})" "(A - {bp}) \<inter> set ?L = {}"
  proof -
    have x: "bp \<notin> set (ys @ p # zs')" "A \<inter> set (ys @ p # zs') = {}" using bp'(1) c(6) L(1) dz(2) by auto
    from s2(3) [unfolded B1] show "C = set ?L - {base s} \<union> (A - {bp})" using x(1) bp bp'(3) by (elim disjE conjE) (simp, blast)+
    from s2(3) show "(A - {bp}) \<inter> set ?L = {}" using x by (elim disjE conjE) auto
  qed
  moreover have "hsize ?s' (base s) = 0" using s2 s1(1) s' c(5) bp'(3) by auto
  ultimately have "um_inv ?L (A - {bp}) ?s'" using inv e by (simp add: um_inv_def)
  moreover have "keeps (A - {bp}) s ?s'"
  proof (unfold keeps_def, intro ballI allI impI)
    fix a x assume a: "a \<in> A - {bp}" and x: "a \<le> x \<and> x < a + HS * hsize s a"
    then have "x \<noteq> bp" using inside_block [OF c(7) _ bp'(2), of a x] by auto
    moreover have "x \<noteq> p"
    proof (cases "p = base s")
      case True
      then show ?thesis using heap_okD(2) [OF c(7), of a] a x by (auto simp: HS_def)
    next
      case False
      then have "p \<in> ?B" "a \<noteq> p" using L(1) a c(6) by auto
      then show ?thesis using inside_block [OF c(7) _ \<open>p \<in> ?B\<close>, of a x] a x by auto
    qed
    ultimately show "hptr ?s' x = hptr s x \<and> hsize ?s' x = hsize s x" using s1(1) s2(1) s' by simp
  qed
  moreover have "\<exists>a \<in> set ?L. hsize s bp \<le> hsize ?s' a"
  proof (cases "ws = []")
    case True
    then show ?thesis using s1(1,2) s2(1,3) s' by (intro bexI [of _ p]) auto
  next
    case False
    then show ?thesis using s1(1,2) s2(1,3) s' L(2) by (intro bexI [of _ bp]) auto
  qed
  ultimately show ?thesis using e by blast
qed

lemma free_ok:
  assumes "um_inv L A s" "bp \<in> A"
  shows "\<exists>s' L'. free (bp + HS) s = Some (Inr s') \<and> um_inv L' (A - {bp}) s' \<and> keeps (A - {bp}) s s' \<and>
    (\<exists>a \<in> set L'. hsize s bp \<le> hsize s' a) \<and> base s' = base s \<and> brk s' = brk s"
proof -
  have c: "circ L s" "freep s \<in> set L" "0 < base s" "sorted_wrt (<) L" "hd L = base s" "A \<inter> set L = {}" "base s + HS \<le> bp"
    using assms heap_okD(2) [of "set L - {base s} \<union> A" s bp] by (auto simp: um_inv_def circ_def)
  have "base s \<le> x" if "x \<in> set L" for x using c(4,5) that by (cases L) auto
  then have f: "freep s \<noteq> 0" using c(2,3) by force
  have "base s < bp" "bp \<notin> set L" using c(6,7) assms(2) by (auto simp: HS_def)
  then obtain ys p zs where "L = ys @ p # zs" "free_find s bp (freep s) = Some p" "p < bp" "\<forall>z \<in> set zs. bp < z"
    using free_find_place [OF c(1,2)] by blast
  then show ?thesis using free_link_ok [OF assms, of ys p zs] f unfolding free_def Let_def by auto
qed

section \<open>Allocation\<close>

lemma circ_rotate:
  assumes "circ L s" "L = us @ f # vs"
  shows "linked (hptr s) (f # vs @ us @ [f])"
proof -
  have l: "linked (hptr s) (us @ [f])" "linked (hptr s) (f # vs @ [base s])" "hd L = base s"
    using assms linked_split [of "hptr s" us f "vs @ [base s]"] by (auto simp: circ_def)
  show ?thesis
  proof (cases us)
    case Nil
    then show ?thesis using l assms(2) by simp
  next
    case (Cons u us')
    then have "u = base s" using l(3) assms(2) by simp
    then show ?thesis using l Cons linked_split [of "hptr s" "f # vs" "base s" "us' @ [f]"] by simp
  qed
qed

lemma circ_pred:
  assumes "circ L s" "q \<in> set L" "hptr s q = p" "p \<noteq> base s"
  shows "\<exists>xs ys. L = xs @ q # p # ys"
proof -
  obtain xs zs where L: "L = xs @ q # zs" using assms(2) by (meson split_list)
  then have "linked (hptr s) (q # zs @ [base s])" using assms(1) linked_split [of "hptr s" xs q "zs @ [base s]"] by (simp add: circ_def)
  then have "hptr s q = hd (zs @ [base s])" using linked_hd by blast
  then show ?thesis using L assms(3,4) by (cases zs) auto
qed

text \<open>The loop of \<open>malloc\<close> along \<open>qs\<close>, which ends at \<open>freep\<close>: it takes the first block that is large enough, or asks for more.\<close>

lemma malloc_search:
  assumes "linked (hptr s) (q # qs)" "qs \<noteq> []" "last qs = freep s" "freep s \<notin> set (butlast qs)"
  shows "(\<exists>x y. x \<in> set (q # butlast qs) \<and> y \<in> set qs \<and> hptr s x = y \<and> n \<le> hsize s y \<and> malloc_loop ok n q (hd qs) s = Some (Inr (take_block n x y s))) \<or>
    (\<forall>y \<in> set qs. hsize s y < n) \<and>
     malloc_loop ok n q (hd qs) s =
       (case morecore ok n s of
          None \<Rightarrow> None
        | Some (Inl e) \<Rightarrow> Some (Inl e)
        | Some (Inr (p, s)) \<Rightarrow> if p = 0 then Some (Inr (0, s)) else malloc_loop ok n p (hptr s p) s)"
  using assms
proof (induction qs arbitrary: q)
  case (Cons r qs)
  have q: "hptr s q = r" using Cons.prems(1) by (cases qs) auto
  show ?case
  proof (cases "n \<le> hsize s r")
    case True
    then have "malloc_loop ok n q r s = Some (Inr (take_block n q r s))" by (simp add: malloc_loop.simps)
    then show ?thesis using True q by auto
  next
    case False
    note small = this
    show ?thesis
    proof (cases "qs = []")
      case True
      then have "r = freep s" using Cons.prems(3) by simp
      then show ?thesis using small True by (subst malloc_loop.simps) auto
    next
      case False
      have r: "r \<noteq> freep s" "hptr s r = hd qs" using Cons.prems False by (auto simp: linked_Cons)
      have m: "malloc_loop ok n q r s = malloc_loop ok n r (hd qs) s" using small r by (subst malloc_loop.simps) simp
      have "linked (hptr s) (r # qs)" "last qs = freep s" "freep s \<notin> set (butlast qs)" using Cons.prems False by auto
      from Cons.IH [OF this(1) False this(2,3)] show ?thesis using m small False by auto
    qed
  qed
qed simp

lemma same_block:
  assumes "heap_ok B s" "a \<in> B" "b \<in> B" "a \<le> x" "x < a + HS * hsize s a" "b \<le> x" "x < b + HS * hsize s b"
  shows "a = b"
  using heap_okD(4) [OF assms(1,2,3)] heap_okD(4) [OF assms(1,3,2)] assms(4-7) by (metis le_trans linorder_neqE_nat not_le)

text \<open>A block split in two.\<close>

lemma heap_ok_split:
  assumes "heap_ok B s" "p \<in> B" "0 < n" "0 < m" "m + n = hsize s p" "p' = p + HS * m"
    "hsize s' = (hsize s)(p := m, p' := n)" "base s' = base s" "brk s' = brk s"
  shows "heap_ok (insert p' B) s'" "p' \<notin> B"
proof -
  have pp: "p < p'" "p' + HS * n = p + HS * hsize s p" using assms(4-6) by (auto simp: HS_def distrib_left [symmetric])
  then have in_p: "p \<le> p'" "p' < p + HS * hsize s p" using assms(3) by (auto simp: HS_def)
  show n: "p' \<notin> B" using inside_block [OF assms(1,2) _ in_p] pp by auto
  have sz: "hsize s' b = hsize s b" if "b \<in> B" "b \<noteq> p" for b using that n assms(7) by auto
  have sp: "hsize s' p = m" "hsize s' p' = n" using pp assms(7) by auto
  have le: "p + HS * m \<le> p + HS * hsize s p" using assms(5) by simp
  show "heap_ok (insert p' B) s'"
    unfolding heap_ok_def
  proof (intro conjI ballI impI)
    fix a assume a: "a \<in> insert p' B"
    show "0 < hsize s' a" using a sz sp assms(3,4) heap_okD(1) [OF assms(1), of a] by (cases "a = p"; cases "a = p'") auto
    show "base s' + HS \<le> a" using a pp heap_okD(2) [OF assms(1), of a] heap_okD(2) [OF assms(1,2)] unfolding assms(8) by (cases "a = p'") auto
    have "p + HS * m \<le> brk s" using le heap_okD(3) [OF assms(1,2)] by (rule le_trans)
    then show "a + HS * hsize s' a \<le> brk s'"
      using a sz sp pp heap_okD(3) [OF assms(1), of a] heap_okD(3) [OF assms(1,2)] unfolding assms(9) by (cases "a = p"; cases "a = p'") auto
    fix b assume b: "b \<in> insert p' B" and ab: "a < b"
    consider "a = p'" | "a \<noteq> p'" "b = p'" | "a \<noteq> p'" "b \<noteq> p'" by blast
    then show "a + HS * hsize s' a \<le> b"
    proof cases
      case 1
      then have "p < b" "b \<in> B" using ab b pp by auto
      then show ?thesis using 1 heap_okD(4) [OF assms(1,2), of b] sp pp by simp
    next
      case 2
      then have a': "a \<in> B" using a by simp
      show ?thesis
      proof (cases "a = p")
        case False
        then have "a < p"
        proof (rule_tac ccontr)
          assume "\<not> a < p"
          then have "p + HS * hsize s p \<le> a" using False heap_okD(4) [OF assms(1,2) a'] by simp
          then show False using ab 2 in_p by simp
        qed
        then show ?thesis using heap_okD(4) [OF assms(1) a' assms(2)] sz [OF a' False] 2 pp by simp
      qed (use 2 sp assms(6) in simp)
    next
      case 3
      then have "a \<in> B" "b \<in> B" using a b by auto
      then have "a + HS * hsize s a \<le> b" using heap_okD(4) [OF assms(1), of a b] ab by simp
      then show ?thesis using le_trans [OF le, of b] sz [OF \<open>a \<in> B\<close>] sp by (cases "a = p") auto
    qed
  qed
qed

lemma take_block_ok:
  assumes inv: "um_inv L A s" and L: "L = xs @ q # p # ys" and n: "0 < n" "n \<le> hsize s p" and t: "take_block n q p s = (r, s')"
  shows "\<exists>L'. um_inv L' (insert (r - HS) A) s' \<and> keeps A s s' \<and> hsize s' (r - HS) = n \<and> HS < r \<and> r - HS \<notin> A \<and> base s' = base s \<and> brk s' = brk s"
proof -
  let ?B = "set L - {base s} \<union> A"
  have c: "sorted_wrt (<) L" "hd L = base s" "linked (hptr s) (L @ [base s])" "brk s < 2 ^ 36" "hsize s (base s) = 0" "A \<inter> set L = {}" "heap_ok ?B s" "0 < base s"
    using inv by (auto simp: um_inv_def circ_def)
  have d: "distinct L" using c(1) by (simp add: strict_sorted_iff)
  have p: "p \<noteq> base s" using c(2) d L by (cases xs) auto
  then have pB: "p \<in> ?B" "p \<notin> A" using L c(6) by auto
  have qin: "x \<noteq> q" if "a \<in> A" "a \<le> x" "x < a + HS * hsize s a" for a x
  proof (cases "q = base s")
    case True
    then show ?thesis using heap_okD(2) [OF c(7), of a] that by (auto simp: HS_def)
  next
    case False
    then have "q \<in> ?B" "a \<noteq> q" using L that c(6) by auto
    then show ?thesis using inside_block [OF c(7) _ \<open>q \<in> ?B\<close>, of a x] that by auto
  qed
  show ?thesis
  proof (cases "hsize s p = n")
    case True
    then have r: "r = p + HS" "s' = s\<lparr>hptr := (hptr s)(q := hptr s p), freep := q\<rparr>" using t by (auto simp: take_block_def um_simps)
    have l: "linked (hptr s) (xs @ [q])" "linked (hptr s) (q # p # ys @ [base s])"
      using c(3) linked_split [of "hptr s" xs q "p # ys @ [base s]"] unfolding L by simp_all
    then have y: "linked (hptr s) (ys @ [base s])" "hptr s p = hd (ys @ [base s])" by (auto simp: linked_Cons)
    have "linked ((hptr s)(q := hptr s p)) (xs @ [q])" using l(1) d L by (subst linked_upd) auto
    moreover have "linked ((hptr s)(q := hptr s p)) (ys @ [base s])" using y(1) d L by (subst linked_upd) auto
    ultimately have lk: "linked ((hptr s)(q := hptr s p)) (xs @ q # ys @ [base s])"
      using y(2) by (subst linked_split) (simp add: linked_Cons)
    have "hd (xs @ q # ys) = base s" using c(2) L by (cases xs) auto
    moreover have "sorted_wrt (<) (xs @ q # ys)" using c(1) L by (auto simp: sorted_wrt_append)
    ultimately have "circ (xs @ q # ys) s'" using lk r(2) by (simp add: circ_def del: fun_upd_apply)
    moreover have "set (xs @ q # ys) - {base s} \<union> insert p A = ?B" using L d p by auto
    moreover have "heap_ok ?B s'" using c(7) r(2) by (simp add: heap_ok_def)
    moreover have "insert p A \<inter> set (xs @ q # ys) = {}" using c(6) d L by auto
    ultimately have "um_inv (xs @ q # ys) (insert p A) s'" using inv r(2) unfolding um_inv_def by simp
    moreover have "keeps A s s'" using qin r(2) by (auto simp: keeps_def)
    ultimately show ?thesis using r True pB(2) heap_okD(2) [OF c(7) pB(1)] c(8) by auto
  next
    case False
    define m where "m = hsize s p - n"
    have m: "0 < m" "m + n = hsize s p" using False n by (auto simp: m_def)
    have lt: "hsize s p < 2 ^ 32" using hsize_less [OF c(7) pB(1) c(4)] .
    let ?p = "p + HS * m"
    have r: "r = ?p + HS" "s' = s\<lparr>hsize := (hsize s)(p := m, ?p := n), freep := q\<rparr>"
      using t False m lt by (auto simp: take_block_def um_simps Let_def m_def)
    note sp = heap_ok_split [OF c(7) pB(1) n(1) m refl, of s']
    have h: "heap_ok (insert ?p ?B) s'" "?p \<notin> ?B" using sp r(2) by auto
    have pp: "p < ?p" "?p < p + HS * hsize s p" "base s < ?p" using m n(1) heap_okD(2) [OF c(7) pB(1)] by (auto simp: HS_def)
    have "circ L s'" using inv r(2) L by (auto simp: um_inv_def circ_def)
    moreover have "insert ?p A \<inter> set L = {}" using c(6) h(2) pp(3) by auto
    moreover have "set L - {base s} \<union> insert ?p A = insert ?p ?B" by auto
    moreover have "hsize s' (base s) = 0" using c(5) p pp(3) r(2) by simp
    ultimately have "um_inv L (insert ?p A) s'" using inv h(1) r(2) unfolding um_inv_def by simp
    moreover have "keeps A s s'"
    proof (unfold keeps_def, intro ballI allI impI)
      fix a x assume a: "a \<in> A" and x: "a \<le> x \<and> x < a + HS * hsize s a"
      have "\<not> (p \<le> x \<and> x < p + HS * hsize s p)" using same_block [OF c(7) _ pB(1), of a x] a x pB(2) by auto
      then have "x \<noteq> p" "x \<noteq> ?p" using pp by auto
      then show "hptr s' x = hptr s x \<and> hsize s' x = hsize s x" using r(2) by simp
    qed
    ultimately show ?thesis using r h(2) pp by auto
  qed
qed

section \<open>More memory\<close>

text \<open>A new block at the end of the heap, not yet free.\<close>

lemma grow_ok:
  assumes inv: "um_inv L A s" and n: "0 < n" "brk s + HS * n < 2 ^ 36"
    and s': "s' = s\<lparr>brk := brk s + HS * n, hsize := (hsize s)(brk s := n)\<rparr>"
  shows "um_inv L (insert (brk s) A) s'" "keeps A s s'" "brk s \<notin> A"
proof -
  let ?B = "set L - {base s} \<union> A"
  have h: "heap_ok ?B s" "base s + HS \<le> brk s" "circ L s" "A \<inter> set L = {}" "hsize s (base s) = 0" using inv by (auto simp: um_inv_def)
  have lt: "b < brk s" if "b \<in> ?B" for b using heap_okD(1,3) [OF h(1) that] by (auto simp: HS_def)
  have nb: "brk s \<notin> ?B" "brk s \<noteq> base s" using lt [of "brk s"] h(2) by (auto simp: HS_def)
  have "brk s \<notin> set L" using nb by auto
  moreover have "heap_ok (insert (brk s) ?B) s'"
    unfolding heap_ok_def
  proof (intro conjI ballI impI)
    fix a assume a: "a \<in> insert (brk s) ?B"
    show "0 < hsize s' a" "base s' + HS \<le> a" using a n(1) h(2) heap_okD(1,2) [OF h(1), of a] nb s' by auto
    show "a + HS * hsize s' a \<le> brk s'" using a heap_okD(3) [OF h(1), of a] nb s' by (cases "a = brk s") auto
    fix b assume b: "b \<in> insert (brk s) ?B" and "a < b"
    then have "a \<in> ?B" "a \<noteq> brk s" using a lt by fastforce+
    then show "a + HS * hsize s' a \<le> b"
      using heap_okD(3) [OF h(1), of a] heap_okD(4) [OF h(1), of a b] b \<open>a < b\<close> s' by auto
  qed
  moreover have "set L - {base s} \<union> insert (brk s) A = insert (brk s) ?B" by auto
  ultimately show "um_inv L (insert (brk s) A) s'" using inv n nb h s' unfolding um_inv_def circ_def by auto
  show "keeps A s s'"
  proof (unfold keeps_def, intro ballI allI impI)
    fix a x assume "a \<in> A" and "a \<le> x \<and> x < a + HS * hsize s a"
    then have "x \<noteq> brk s" using heap_okD(3) [OF h(1), of a] by auto
    then show "hptr s' x = hptr s x \<and> hsize s' x = hsize s x" using s' by simp
  qed
  show "brk s \<notin> A" using nb by auto
qed

lemma keeps_trans: "keeps A s s' \<Longrightarrow> keeps A s' s'' \<Longrightarrow> keeps A s s''"
proof (unfold keeps_def, intro ballI allI impI)
  fix a x
  assume k: "\<forall>a\<in>A. \<forall>x. a \<le> x \<and> x < a + HS * hsize s a \<longrightarrow> hptr s' x = hptr s x \<and> hsize s' x = hsize s x"
    "\<forall>a\<in>A. \<forall>x. a \<le> x \<and> x < a + HS * hsize s' a \<longrightarrow> hptr s'' x = hptr s' x \<and> hsize s'' x = hsize s' x"
    and a: "a \<in> A" "a \<le> x \<and> x < a + HS * hsize s a"
  then have "hsize s' a = hsize s a" by (metis le_less_trans le_refl)
  then show "hptr s'' x = hptr s x \<and> hsize s'' x = hsize s x" using k a by metis
qed

lemma morecore_ok:
  assumes "um_inv L A s" "0 < n" "HS * n < 2 ^ 31" "brk s < 2 ^ 35"
  shows "if ok then \<exists>s' L'. morecore ok n s = Some (Inr (freep s', s')) \<and> um_inv L' A s' \<and> keeps A s s' \<and> (\<exists>a \<in> set L'. n \<le> hsize s' a) \<and>
      base s' = base s \<and> brk s \<le> brk s' \<and> brk s' \<le> brk s + 2 ^ 31
    else morecore ok n s = Some (Inr (0, s))"
proof (cases ok)
  case True
  define m where "m = (if n < 4096 then 4096 else n)"
  have m: "n \<le> m" "0 < m" "HS * m < 2 ^ 31" "m < 2 ^ 32" using assms(2,3) by (auto simp: m_def HS_def)
  let ?s = "s\<lparr>brk := brk s + HS * m, hsize := (hsize s)(brk s := m)\<rparr>"
  have "wrap_int (int (m * HS)) = int (HS * m)" using m(3) by (subst wrap_int_id) (auto simp: HS_def)
  then have mc: "morecore ok n s = ro_bind (free (brk s + HS) ?s) (\<lambda>s. Some (Inr (freep s, s)))"
    using True m(4) unfolding morecore_def m_def [symmetric] sbrk_def Let_def by (simp add: um_simps nat_add_distrib nat_mult_distrib)
  have b: "brk s + HS * m < 2 ^ 36" using m(3) assms(4) by simp
  note g = grow_ok [OF assms(1) m(2) b refl]
  obtain s' L' where f: "free (brk s + HS) ?s = Some (Inr s')" "um_inv L' (insert (brk s) A - {brk s}) s'" "keeps (insert (brk s) A - {brk s}) ?s s'"
      "\<exists>a \<in> set L'. hsize ?s (brk s) \<le> hsize s' a" "base s' = base ?s" "brk s' = brk ?s"
    using free_ok [OF g(1), of "brk s"] by auto
  have A: "insert (brk s) A - {brk s} = A" using g(3) by auto
  have "um_inv L' A s'" "keeps A s s'" using f(2,3) g(2) keeps_trans unfolding A by blast+
  moreover have "morecore ok n s = Some (Inr (freep s', s'))" using mc f(1) by (simp add: ro_bind_def)
  moreover have "\<exists>a \<in> set L'. n \<le> hsize s' a" using f(4) m(1) by (force intro: order_trans)
  ultimately show ?thesis using True f(5,6) m(3) by auto
qed (simp add: morecore_def sbrk_def Let_def)

text \<open>A request of 2 GB or more reaches \<open>sbrk\<close> as a negative number.\<close>

lemma sbrk_negative:
  assumes "2 ^ 27 \<le> nu" "nu < 2 ^ 28"
  shows "wrap_int (int (nu * HS)) = int (nu * HS) - 2 ^ 32"
  using assms by (simp add: wrap_int_def int_of_u32_def HS_def nat_less_iff)

section \<open>The properties\<close>

lemma circ_visits:
  assumes "circ L s"
  obtains qs where "linked (hptr s) (freep s # qs)" "qs \<noteq> []" "last qs = freep s" "freep s \<notin> set (butlast qs)" "set qs = set L" "hd qs = hptr s (freep s)"
proof -
  obtain us vs where L: "L = us @ freep s # vs" using assms by (metis circ_def split_list)
  let ?qs = "vs @ us @ [freep s]"
  have l: "linked (hptr s) (freep s # ?qs)" using circ_rotate [OF assms L] .
  have "distinct L" using assms by (simp add: circ_def strict_sorted_iff)
  then have "freep s \<notin> set (butlast ?qs)" using L by (simp add: butlast_append)
  moreover have "set ?qs = set L" using L by auto
  moreover have "hd ?qs = hptr s (freep s)" using linked_hd [OF l] by simp
  ultimately show thesis using that [OF l] by simp
qed

lemma malloc_loop_fits:
  assumes "um_inv L A s" "0 < n" "\<exists>a \<in> set L. n \<le> hsize s a"
  shows "\<exists>r s' L'. malloc_loop ok n (freep s) (hptr s (freep s)) s = Some (Inr (r, s')) \<and> um_inv L' (insert (r - HS) A) s' \<and> keeps A s s' \<and>
    hsize s' (r - HS) = n \<and> HS < r \<and> r - HS \<notin> A \<and> base s' = base s \<and> brk s' = brk s"
proof -
  have c: "circ L s" "hsize s (base s) = 0" using assms(1) by (auto simp: um_inv_def)
  obtain qs where qs: "linked (hptr s) (freep s # qs)" "qs \<noteq> []" "last qs = freep s" "freep s \<notin> set (butlast qs)" "set qs = set L" "hd qs = hptr s (freep s)"
    using circ_visits [OF c(1)] .
  have "\<not> (\<forall>y \<in> set qs. hsize s y < n)" using assms(3) qs(5) by force
  then obtain x y where xy: "x \<in> set (freep s # butlast qs)" "y \<in> set qs" "hptr s x = y" "n \<le> hsize s y"
      "malloc_loop ok n (freep s) (hptr s (freep s)) s = Some (Inr (take_block n x y s))"
    using malloc_search [OF qs(1-4), of n ok] unfolding qs(6) by auto
  have "x \<in> set L" using xy(1) qs(5) c(1) by (auto simp: circ_def dest: in_set_butlastD)
  moreover have "y \<noteq> base s" using xy(4) c(2) assms(2) by auto
  ultimately obtain xs ys where "L = xs @ x # y # ys" using circ_pred [OF c(1)] xy(3) by blast
  moreover obtain r s' where "take_block n x y s = (r, s')" by fastforce
  ultimately show ?thesis using take_block_ok [OF assms(1) _ assms(2) xy(4)] xy(5) by fastforce
qed

lemma malloc_loop_ok:
  assumes "um_inv L A s" "0 < n" "HS * n < 2 ^ 31" "brk s < 2 ^ 35"
  shows "\<exists>r s' L'. malloc_loop ok n (freep s) (hptr s (freep s)) s = Some (Inr (r, s')) \<and> keeps A s s' \<and> base s' = base s \<and>
    brk s' \<le> brk s + 2 ^ 31 \<and>
    (if r = 0 then \<not> ok \<and> s' = s else um_inv L' (insert (r - HS) A) s' \<and> hsize s' (r - HS) = n \<and> HS < r \<and> r - HS \<notin> A)"
proof (cases "\<exists>a \<in> set L. n \<le> hsize s a")
  case True
  then show ?thesis using malloc_loop_fits [OF assms(1,2) True, of ok] by (metis le_add1 not_less_zero)
next
  case False
  have c: "circ L s" using assms(1) by (auto simp: um_inv_def)
  obtain qs where qs: "linked (hptr s) (freep s # qs)" "qs \<noteq> []" "last qs = freep s" "freep s \<notin> set (butlast qs)" "set qs = set L" "hd qs = hptr s (freep s)"
    using circ_visits [OF c] .
  have m: "malloc_loop ok n (freep s) (hptr s (freep s)) s =
       (case morecore ok n s of
          None \<Rightarrow> None
        | Some (Inl e) \<Rightarrow> Some (Inl e)
        | Some (Inr (p, s)) \<Rightarrow> if p = 0 then Some (Inr (0, s)) else malloc_loop ok n p (hptr s p) s)"
    using malloc_search [OF qs(1-4), of n ok] False qs(5) unfolding qs(6) by auto
  show ?thesis
  proof (cases ok)
    case True
    then obtain s1 L1 where s1: "morecore ok n s = Some (Inr (freep s1, s1))" "um_inv L1 A s1" "keeps A s s1" "\<exists>a \<in> set L1. n \<le> hsize s1 a"
        "base s1 = base s" "brk s \<le> brk s1" "brk s1 \<le> brk s + 2 ^ 31"
      using morecore_ok [OF assms, of ok] by auto
    have "base s1 \<le> freep s1" "0 < base s1" using s1(2) by (auto simp: um_inv_def circ_def) (metis hd_Cons_tl set_ConsD sorted_wrt.simps(2) less_imp_le order_refl)
    then have "malloc_loop ok n (freep s) (hptr s (freep s)) s = malloc_loop ok n (freep s1) (hptr s1 (freep s1)) s1" using m s1(1) by simp
    then show ?thesis using malloc_loop_fits [OF s1(2) assms(2) s1(4), of ok] s1(3,5,7) keeps_trans [OF s1(3)] by (metis not_less_zero)
  next
    case False
    then have "malloc_loop ok n (freep s) (hptr s (freep s)) s = Some (Inr (0, s))" using m morecore_ok [OF assms, of ok] by simp
    then show ?thesis using False by (auto simp: keeps_def)
  qed
qed

text \<open>The state a program starts in, and the states between calls; \<open>A\<close> are the headers of the blocks handed out.\<close>

definition um_ready :: "nat set \<Rightarrow> um \<Rightarrow> bool" where
  "um_ready A s \<longleftrightarrow> (\<exists>L. um_inv L A s) \<or> A = {} \<and> freep s = 0 \<and> 0 < base s \<and> base s + HS \<le> brk s \<and> brk s < 2 ^ 36"

lemma units_bounds:
  assumes "nbytes < 2 ^ 31 - 31"
  shows "0 < units nbytes" "HS * units nbytes < 2 ^ 31" "nbytes + HS \<le> HS * units nbytes"
proof -
  have "units nbytes = (nbytes + 15) div 16 + 1" using assms by (simp add: units_def HS_def)
  then show "0 < units nbytes" "HS * units nbytes < 2 ^ 31" "nbytes + HS \<le> HS * units nbytes" using assms by (simp_all add: HS_def)
qed

lemma um_start:
  assumes "freep s = 0" "0 < base s" "base s + HS \<le> brk s" "brk s < 2 ^ 36"
  shows "um_inv [base s] {} (set_size (base s) 0 (set_ptr (base s) (base s) (s\<lparr>freep := base s\<rparr>)))"
  using assms by (simp add: um_inv_def circ_def heap_ok_def um_simps)

lemma freep_pos: "um_inv L A s \<Longrightarrow> freep s \<noteq> 0"
  by (cases L) (auto simp: um_inv_def circ_def)



section \<open>Instances\<close>

text \<open>A program whose heap starts at 16384, with one block of two headers handed out.\<close>

definition ex_start :: um where
  "ex_start = \<lparr>hptr = \<lambda>_. 0, hsize = \<lambda>_. 0, base = 8192, freep = 0, brk = 16384\<rparr>"

lemma ex_start_ready: "um_ready {} ex_start"
  by (simp add: um_ready_def ex_start_def HS_def)


definition ex_heap :: um where
  "ex_heap = \<lparr>hptr = (\<lambda>_. 0)(8192 := 16384, 16384 := 8192), hsize = (\<lambda>_. 0)(16384 := 10, 16544 := 2), base = 8192, freep = 8192, brk = 16576\<rparr>"

lemma ex_heap_ready: "um_ready {16544} ex_heap"
  unfolding um_ready_def by (intro disjI1 exI [of _ "[8192, 16384]"]) (simp add: um_inv_def circ_def heap_ok_def ex_heap_def HS_def)


end
