(* ===== verification/Grep.thy ===== *)
theory Grep
  imports Ustring
begin

text \<open>
  \<open>user/grep.c\<close>: the regular-expression matcher (after Kernighan and Pike) and the loop that feeds it lines. Patterns and
  lines are lists of bytes without the NUL. \<open>items\<close> and \<open>item_lang\<close> are the reference: a pattern denotes a set of strings.
  The buffer of 1024 bytes, which the loop scans for newlines up to a NUL whatever \<open>read\<close> has filled in, is kept as it is: a
  scan past its end is \<open>Undefined\<close>.
\<close>

section \<open>The matcher\<close>

text \<open>The bytes: \<open>$\<close> 36, \<open>*\<close> 42, \<open>.\<close> 46, \<open>^\<close> 94.\<close>

function matchhere :: "byte list \<Rightarrow> byte list \<Rightarrow> bool" and matchstar :: "byte \<Rightarrow> byte list \<Rightarrow> byte list \<Rightarrow> bool" where
  "matchhere [] tx = True"
| "matchhere (r # re) tx =
     (if re \<noteq> [] \<and> hd re = 42 then matchstar r (tl re) tx
      else if r = 36 \<and> re = [] then tx = []
      else case tx of [] \<Rightarrow> False | t # ts \<Rightarrow> (r = 46 \<or> r = t) \<and> matchhere re ts)"
| "matchstar c re tx =
     (if matchhere re tx then True
      else case tx of [] \<Rightarrow> False | t # ts \<Rightarrow> (t = c \<or> c = 46) \<and> matchstar c re ts)"
  by pat_completeness auto
termination
  by (relation "inv_image (less_than <*lex*> less_than)
        (\<lambda>x. case x of Inl (re, tx) \<Rightarrow> (2 * length re, length tx) | Inr (c, re, tx) \<Rightarrow> (Suc (2 * length re), length tx))")
    (auto simp: neq_Nil_conv)

declare matchstar.simps [simp del]

fun match_loop :: "byte list \<Rightarrow> byte list \<Rightarrow> bool" where
  "match_loop re tx = (matchhere re tx \<or> (case tx of [] \<Rightarrow> False | _ # ts \<Rightarrow> match_loop re ts))"

declare match_loop.simps [simp del]

definition match :: "byte list \<Rightarrow> byte list \<Rightarrow> bool" where
  "match re tx = (case re of r # re' \<Rightarrow> if r = 94 then matchhere re' tx else match_loop re tx | [] \<Rightarrow> match_loop re tx)"

section \<open>What a pattern denotes\<close>

datatype item = One byte | Many byte

fun items :: "byte list \<Rightarrow> item list" where
  "items [] = []"
| "items [r] = (if r = 36 then [] else [One r])"
| "items (r # x # re) = (if x = 42 then Many r # items re else One r # items (x # re))"

fun anchored :: "byte list \<Rightarrow> bool" where
  "anchored [] = False"
| "anchored [r] = (r = 36)"
| "anchored (r # x # re) = (if x = 42 then anchored re else anchored (x # re))"

definition fits_byte :: "byte \<Rightarrow> byte \<Rightarrow> bool" where
  "fits_byte c x \<longleftrightarrow> c = 46 \<or> c = x"

fun item_lang :: "item list \<Rightarrow> byte list set" where
  "item_lang [] = {[]}"
| "item_lang (One c # is) = {x # u | x u. fits_byte c x \<and> u \<in> item_lang is}"
| "item_lang (Many c # is) = {xs @ u | xs u. list_all (fits_byte c) xs \<and> u \<in> item_lang is}"

text \<open>A string of the language at the start of the text, up to its end when the pattern ends in \<open>$\<close>.\<close>

definition here :: "byte list \<Rightarrow> byte list \<Rightarrow> bool" where
  "here re tx \<longleftrightarrow> (\<exists>u v. tx = u @ v \<and> u \<in> item_lang (items re) \<and> (anchored re \<longrightarrow> v = []))"

lemma here_Nil [simp]: "here [] tx"
  by (simp add: here_def)

lemma here_last: "here [r] tx \<longleftrightarrow> (if r = 36 then tx = [] else \<exists>t ts. tx = t # ts \<and> fits_byte r t)"
proof (cases "r = 36")
  case False
  have "here [r] (t # ts)" if "fits_byte r t" for t ts using False that unfolding here_def by (intro exI [of _ "[t]"] exI [of _ ts]) simp
  then show ?thesis using False by (auto simp: here_def)
qed (simp add: here_def)

lemma here_star: "here (r # 42 # re) tx \<longleftrightarrow> (\<exists>xs v. tx = xs @ v \<and> list_all (fits_byte r) xs \<and> here re v)"
proof
  assume "here (r # 42 # re) tx"
  then obtain w v where "tx = w @ v" "w \<in> item_lang (Many r # items re)" "anchored re \<longrightarrow> v = []" by (auto simp: here_def simp del: item_lang.simps)
  then obtain xs u where "tx = (xs @ u) @ v" "list_all (fits_byte r) xs" "u \<in> item_lang (items re)" "anchored re \<longrightarrow> v = []"
    by auto
  then show "\<exists>xs v. tx = xs @ v \<and> list_all (fits_byte r) xs \<and> here re v" unfolding here_def by (metis append.assoc)
next
  assume "\<exists>xs v. tx = xs @ v \<and> list_all (fits_byte r) xs \<and> here re v"
  then obtain xs u v where "tx = (xs @ u) @ v" "list_all (fits_byte r) xs" "u \<in> item_lang (items re)" "anchored re \<longrightarrow> v = []"
    unfolding here_def by auto
  then show "here (r # 42 # re) tx" unfolding here_def by (intro exI [of _ "xs @ u"] exI [of _ v]) auto
qed

lemma here_one: "x \<noteq> 42 \<Longrightarrow> here (r # x # re) tx \<longleftrightarrow> (\<exists>t ts. tx = t # ts \<and> fits_byte r t \<and> here (x # re) ts)"
proof
  assume x: "x \<noteq> 42" and "here (r # x # re) tx"
  then obtain w v where "tx = w @ v" "w \<in> item_lang (One r # items (x # re))" "anchored (x # re) \<longrightarrow> v = []"
    by (auto simp: here_def simp del: item_lang.simps)
  then obtain t u where "tx = (t # u) @ v" "fits_byte r t" "u \<in> item_lang (items (x # re))" "anchored (x # re) \<longrightarrow> v = []"
    by auto
  then show "\<exists>t ts. tx = t # ts \<and> fits_byte r t \<and> here (x # re) ts" unfolding here_def by auto
next
  assume x: "x \<noteq> 42" and "\<exists>t ts. tx = t # ts \<and> fits_byte r t \<and> here (x # re) ts"
  then obtain t u v where "tx = (t # u) @ v" "fits_byte r t" "u \<in> item_lang (items (x # re))" "anchored (x # re) \<longrightarrow> v = []"
    unfolding here_def by auto
  then show "here (r # x # re) tx" using x unfolding here_def by (intro exI [of _ "t # u"] exI [of _ v]) auto
qed

lemma star_unfold:
  "(\<exists>xs v. tx = xs @ v \<and> list_all P xs \<and> Q v) \<longleftrightarrow>
   Q tx \<or> (\<exists>t ts. tx = t # ts \<and> P t \<and> (\<exists>xs v. ts = xs @ v \<and> list_all P xs \<and> Q v))"
proof
  assume "\<exists>xs v. tx = xs @ v \<and> list_all P xs \<and> Q v"
  then obtain xs v where *: "tx = xs @ v" "list_all P xs" "Q v" by blast
  then show "Q tx \<or> (\<exists>t ts. tx = t # ts \<and> P t \<and> (\<exists>xs v. ts = xs @ v \<and> list_all P xs \<and> Q v))" by (cases xs) auto
next
  assume "Q tx \<or> (\<exists>t ts. tx = t # ts \<and> P t \<and> (\<exists>xs v. ts = xs @ v \<and> list_all P xs \<and> Q v))"
  then show "\<exists>xs v. tx = xs @ v \<and> list_all P xs \<and> Q v"
  proof (elim disjE exE conjE)
    fix t ts xs v assume "tx = t # ts" "P t" "ts = xs @ v" "list_all P xs" "Q v"
    then show ?thesis by (intro exI [of _ "t # xs"] exI [of _ v]) simp
  qed (intro exI [of _ "[]"] exI [of _ tx], simp)
qed

lemma matchhere_here:
  "matchhere re tx \<longleftrightarrow> here re tx"
  "matchstar c re tx \<longleftrightarrow> (\<exists>xs v. tx = xs @ v \<and> list_all (fits_byte c) xs \<and> here re v)"
proof (induction re tx and c re tx rule: matchhere_matchstar.induct)
  case (2 r re tx)
  then show ?case
  proof (cases re)
    case Nil
    then show ?thesis by (auto simp: here_last fits_byte_def split: list.splits)
  next
    case (Cons x re')
    show ?thesis
    proof (cases "x = 42")
      case True
      then show ?thesis using 2(1) Cons by (simp add: here_star)
    next
      case False
      then show ?thesis using 2(2) Cons by (cases tx) (auto simp: here_one fits_byte_def)
    qed
  qed
next
  case (3 c re tx)
  have f: "t = c \<or> c = 46 \<longleftrightarrow> fits_byte c t" for t by (auto simp: fits_byte_def)
  show ?case unfolding star_unfold [of tx] matchstar.simps [of c re tx] f using 3 [unfolded f] by (cases tx) simp_all
qed simp

lemma match_loop_anywhere: "match_loop re tx \<longleftrightarrow> (\<exists>a b. tx = a @ b \<and> here re b)"
proof (induction tx)
  case Nil
  then show ?case by (simp add: matchhere_here match_loop.simps [of re "[]"])
next
  case (Cons t tx)
  have "(\<exists>a b. t # tx = a @ b \<and> here re b) \<longleftrightarrow> here re (t # tx) \<or> (\<exists>a b. tx = a @ b \<and> here re b)"
    by (metis append_Cons append_Nil list.exhaust list.inject)
  then show ?case using Cons by (simp add: matchhere_here match_loop.simps [of re "t # tx"])
qed

text \<open>C27: The matcher of grep decides the language of its patterns: a pattern of bytes, dots and stars matches a text exactly when a
  string the pattern denotes occurs in it, at the start for a pattern that begins with \<open>^\<close> and at the end for one that ends in
  \<open>$\<close>.\<close>

theorem match_decides:
  "match re tx \<longleftrightarrow>
    (let start = (re \<noteq> [] \<and> hd re = 94); re' = (if start then tl re else re)
     in \<exists>a u b. tx = a @ u @ b \<and> u \<in> item_lang (items re') \<and> (if start then a = [] else True) \<and> (if anchored re' then b = [] else True))"
proof (cases "re \<noteq> [] \<and> hd re = 94")
  case True
  then show ?thesis by (cases re) (auto simp: match_def Let_def matchhere_here here_def)
next
  case False
  then have "match re tx \<longleftrightarrow> (\<exists>a b. tx = a @ b \<and> here re b)" by (cases re) (auto simp: match_def match_loop_anywhere)
  then show ?thesis using False by (auto simp: Let_def here_def)
qed

section \<open>The lines\<close>

definition BUF :: nat where "BUF = 1024"

text \<open>\<open>strchr (p, '\\n')\<close> in the buffer from index \<open>p\<close>: the index found, \<open>None\<close> when a NUL comes first.\<close>

function find_nl :: "byte list \<Rightarrow> nat \<Rightarrow> nat option res" where
  "find_nl buf p =
     (if p \<ge> length buf then Inl (Undefined ''strchr: buf'')
      else if buf ! p = 0 then Inr None
      else if buf ! p = 10 then Inr (Some p)
      else find_nl buf (Suc p))"
  by pat_completeness auto
termination by (relation "measure (\<lambda>(buf, p). length buf - p)") auto

declare find_nl.simps [simp del]

text \<open>The inner loop: what is written, and \<open>p\<close> at its end. A line that does not match keeps the NUL in place of its newline.\<close>

lemma find_nl_range: "find_nl buf p = Inr (Some q) \<Longrightarrow> p \<le> q \<and> q < length buf"
  by (induction buf p rule: find_nl.induct) (auto simp: find_nl.simps [of "buf" for buf] split: if_splits)

function lines_loop :: "byte list \<Rightarrow> byte list \<Rightarrow> nat \<Rightarrow> (byte list \<times> byte list \<times> nat) res" where
  "lines_loop pat buf p =
     (case find_nl buf p of
        Inl e \<Rightarrow> Inl e
      | Inr None \<Rightarrow> Inr ([], buf, p)
      | Inr (Some q) \<Rightarrow>
          let line = slice p (q - p) buf
          in if match pat line then res_bind (lines_loop pat buf (Suc q)) (\<lambda>(out, x). Inr (line @ [10] @ out, x))
             else lines_loop pat (buf[q := 0]) (Suc q))"
  by pat_completeness auto
termination
  by (relation "measure (\<lambda>(pat, buf, p). length buf - p)") (auto dest!: find_nl_range)

declare lines_loop.simps [simp del]

text \<open>\<open>read\<close> into a space of \<open>room\<close> bytes from a source that has its data ready in the given portions.\<close>

fun read_in :: "nat \<Rightarrow> byte list list \<Rightarrow> byte list \<times> byte list list" where
  "read_in room [] = ([], [])"
| "read_in room (c # cs) = (if length c \<le> room then (c, cs) else (take room c, drop room c # cs))"

lemma read_in_less: "read_in room cs = (d, cs') \<Longrightarrow> d \<noteq> [] \<Longrightarrow> sum_list (map length cs') < sum_list (map length cs)"
  by (cases cs) (auto split: if_splits)

text \<open>\<open>grep\<close>: what it writes to its standard output. \<open>m\<close> can become negative, and \<open>read\<close> then stores before the buffer.\<close>

function grep_loop :: "byte list \<Rightarrow> byte list list \<Rightarrow> byte list \<Rightarrow> int \<Rightarrow> (byte list \<times> byte list) res" where
  "grep_loop pat cs buf m =
     (case read_in (nat (int BUF - m)) cs of (d, cs') \<Rightarrow>
        if d = [] then Inr ([], buf)
        else if m < 0 then Inl (Undefined ''read: buf'')
        else
          let buf = splice (nat m) d buf; m = m + int (length d)
          in case lines_loop pat buf 0 of
               Inl e \<Rightarrow> Inl e
             | Inr (out, buf, p) \<Rightarrow>
                 let m = (if p = 0 then 0 else m);
                     n = (if m > 0 then m - int p else m);
                     buf = (if m > 0 then splice 0 (slice p (nat n) buf) buf else buf)
                 in res_bind (grep_loop pat cs' buf n) (\<lambda>(out', buf). Inr (out @ out', buf)))"
  by pat_completeness auto
termination by (relation "measure (\<lambda>(pat, cs, buf, m). sum_list (map length cs))") (auto dest: read_in_less [OF sym])

declare grep_loop.simps [simp del]

definition grep :: "byte list \<Rightarrow> byte list list \<Rightarrow> byte list \<Rightarrow> (byte list \<times> byte list) res" where
  "grep pat cs buf = grep_loop pat cs buf 0"

text \<open>\<open>main\<close>: what is written to which descriptor. \<open>fs\<close> gives the contents of the files that can be opened; the buffer is the same for
  all of them.\<close>

fun grep_files :: "(byte list \<Rightarrow> byte list list option) \<Rightarrow> byte list \<Rightarrow> byte list list \<Rightarrow> byte list \<Rightarrow> (nat \<times> byte list) list res" where
  "grep_files fs pat [] buf = Inr []"
| "grep_files fs pat (f # names) buf =
     (case fs f of
        None \<Rightarrow> Inr [(1, map of_char ''grep: cannot open '' @ f @ [10])]
      | Some cs \<Rightarrow> res_bind (grep pat cs buf) (\<lambda>(out, buf). res_bind (grep_files fs pat names buf) (\<lambda>rest. Inr ((1, out) # rest))))"

definition grep_main :: "byte list list \<Rightarrow> byte list list \<Rightarrow> (byte list \<Rightarrow> byte list list option) \<Rightarrow> (nat \<times> byte list) list res" where
  "grep_main argv stdin fs =
     (case tl argv of
        [] \<Rightarrow> Inr [(2, map of_char ''usage: grep pattern [file ...]'' @ [10])]
      | [pat] \<Rightarrow> res_bind (grep pat stdin (replicate BUF 0)) (\<lambda>(out, _). Inr [(1, out)])
      | pat # names \<Rightarrow> grep_files fs pat names (replicate BUF 0))"

section \<open>Which lines are written\<close>

text \<open>The complete lines of a text, without their newlines.\<close>

function full_lines :: "byte list \<Rightarrow> byte list list" where
  "full_lines xs = (if 10 \<in> set xs then takeWhile (\<lambda>x. x \<noteq> 10) xs # full_lines (tl (dropWhile (\<lambda>x. x \<noteq> 10) xs)) else [])"
  by pat_completeness auto
termination
proof (relation "measure length")
  fix xs :: "byte list" assume "10 \<in> set xs"
  then have "0 < length xs" by (cases xs) auto
  moreover have "length (tl (dropWhile (\<lambda>x. x \<noteq> 10) xs)) \<le> length xs - 1"
    using length_dropWhile_le [of "\<lambda>x. x \<noteq> 10" xs] by (simp add: diff_le_mono)
  ultimately show "(tl (dropWhile (\<lambda>x. x \<noteq> 10) xs), xs) \<in> measure length" by (simp only: in_measure)
qed simp

declare full_lines.simps [simp del]

lemma full_lines_simps:
  "10 \<notin> set l \<Longrightarrow> full_lines l = []"
  "10 \<notin> set l \<Longrightarrow> full_lines (l @ 10 # r) = l # full_lines r"
proof -
  assume l: "10 \<notin> set l"
  then show "full_lines l = []" by (simp add: full_lines.simps)
  have "\<And>x. x \<in> set l \<Longrightarrow> x \<noteq> 10" using l by auto
  then have "takeWhile (\<lambda>x. x \<noteq> 10) (l @ 10 # r) = l" "dropWhile (\<lambda>x. x \<noteq> 10) (l @ 10 # r) = 10 # r"
    by (induction l) auto
  then show "full_lines (l @ 10 # r) = l # full_lines r" by (simp add: full_lines.simps [of "l @ 10 # r"])
qed

lemma find_nl_no: "10 \<notin> set xs \<Longrightarrow> 0 \<notin> set xs \<Longrightarrow> find_nl (pre @ xs @ 0 # zs) (length pre) = Inr None"
proof (induction xs arbitrary: pre)
  case Nil
  then show ?case by (simp add: find_nl.simps)
next
  case (Cons x xs)
  have "find_nl ((pre @ [x]) @ xs @ 0 # zs) (length (pre @ [x])) = Inr None" using Cons by (intro Cons.IH) auto
  then show ?case using Cons.prems by (simp add: find_nl.simps [of _ "length pre"])
qed

lemma find_nl_yes: "10 \<notin> set xs \<Longrightarrow> 0 \<notin> set xs \<Longrightarrow> find_nl (pre @ xs @ 10 # zs) (length pre) = Inr (Some (length pre + length xs))"
proof (induction xs arbitrary: pre)
  case Nil
  then show ?case by (simp add: find_nl.simps)
next
  case (Cons x xs)
  have "find_nl ((pre @ [x]) @ xs @ 10 # zs) (length (pre @ [x])) = Inr (Some (length (pre @ [x]) + length xs))" using Cons by (intro Cons.IH) auto
  then show ?case using Cons.prems by (simp add: find_nl.simps [of _ "length pre"])
qed

definition written :: "byte list \<Rightarrow> byte list \<Rightarrow> byte list" where
  "written pat xs = concat (map (\<lambda>l. l @ [10]) (filter (match pat) (full_lines xs)))"

text \<open>The loop over the lines of a text that a NUL follows in the buffer: the matching lines are written, and \<open>p\<close> ends after the
  last newline. When every line matches the buffer is unchanged.\<close>

lemma lines_loop_written:
  "0 \<notin> set xs \<Longrightarrow> \<exists>buf' a b. lines_loop pat (pre @ xs @ 0 # zs) (length pre) = Inr (written pat xs, buf', length pre + length a) \<and>
     xs = a @ b \<and> 10 \<notin> set b \<and> length buf' = length (pre @ xs @ 0 # zs) \<and>
     (list_all (match pat) (full_lines xs) \<longrightarrow> buf' = pre @ xs @ 0 # zs)"
proof (induction "length xs" arbitrary: xs pre rule: less_induct)
  case less
  show ?case
  proof (cases "10 \<in> set xs")
    case False
    then show ?thesis using find_nl_no [of xs pre zs] less.prems by (simp add: lines_loop.simps written_def full_lines_simps)
  next
    case True
    then obtain l r where xs: "xs = l @ 10 # r" "10 \<notin> set l" using split_list_first by metis
    have nl: "find_nl (pre @ xs @ 0 # zs) (length pre) = Inr (Some (length pre + length l))"
      using find_nl_yes [of l pre "r @ 0 # zs"] xs less.prems by simp
    have line: "slice (length pre) (length l) (pre @ xs @ 0 # zs) = l" using xs by (simp add: slice_def)
    let ?x = "if match pat l then 10 else (0 :: byte)"
    have upd: "(pre @ xs @ 0 # zs)[length pre + length l := 0] = (pre @ l @ [0]) @ r @ 0 # zs"
      unfolding xs(1) by (simp add: list_update_append)
    obtain buf' a b where IH: "lines_loop pat ((pre @ l @ [?x]) @ r @ 0 # zs) (length (pre @ l @ [?x])) = Inr (written pat r, buf', length (pre @ l @ [?x]) + length a)"
       "r = a @ b" "10 \<notin> set b" "length buf' = length ((pre @ l @ [?x]) @ r @ 0 # zs)"
       "list_all (match pat) (full_lines r) \<longrightarrow> buf' = (pre @ l @ [?x]) @ r @ 0 # zs"
      using less.hyps [of r "pre @ l @ [?x]"] less.prems xs by auto
    have e: "(pre @ l @ [10]) @ r @ 0 # zs = pre @ xs @ 0 # zs" "length (pre @ l @ [?x]) = Suc (length pre + length l)" using xs by simp_all
    have w: "written pat xs = (if match pat l then l @ [10] else []) @ written pat r"
      using xs by (simp add: written_def full_lines_simps)
    have "lines_loop pat (pre @ xs @ 0 # zs) (length pre) = Inr (written pat xs, buf', length pre + length (l @ 10 # a))"
    proof (cases "match pat l")
      case True
      then have "lines_loop pat (pre @ xs @ 0 # zs) (Suc (length pre + length l)) = Inr (written pat r, buf', Suc (length pre + length l) + length a)"
        using IH(1) unfolding e(2) by (simp only: if_True e(1))
      then show ?thesis using True nl line w by (simp add: lines_loop.simps [of pat "pre @ xs @ 0 # zs" "length pre"])
    next
      case False
      then show ?thesis using IH(1) e nl line w upd by (simp add: lines_loop.simps [of pat "pre @ xs @ 0 # zs" "length pre"])
    qed
    moreover have "xs = (l @ 10 # a) @ b" using xs IH(2) by simp
    moreover have "list_all (match pat) (full_lines xs) \<longrightarrow> buf' = pre @ xs @ 0 # zs"
      using IH(5) xs by (auto simp: full_lines_simps)
    moreover have "length buf' = length (pre @ xs @ 0 # zs)" using IH(4) xs by simp
    ultimately show ?thesis using IH(3) by blast
  qed
qed

text \<open>A first \<open>read\<close> into a buffer whose bytes after the data are NUL.\<close>

lemma grep_first:
  assumes "0 \<notin> set c" "c \<noteq> []" "length c + length zs + 1 = BUF" "length old = length c"
  shows "\<exists>buf a b. c = a @ b \<and> 10 \<notin> set b \<and> length buf = BUF \<and> (list_all (match pat) (full_lines c) \<longrightarrow> buf = c @ 0 # zs) \<and>
    grep_loop pat (c # cs) (old @ 0 # zs) 0 =
       res_bind (grep_loop pat cs (splice 0 (if a = [] then [] else slice (length a) (length b) buf) buf) (int (if a = [] then 0 else length b)))
         (\<lambda>(out, buf). Inr (written pat c @ out, buf))"
proof -
  obtain buf a b where l: "lines_loop pat (c @ 0 # zs) 0 = Inr (written pat c, buf, length a)" "c = a @ b" "10 \<notin> set b"
      "length buf = length (c @ 0 # zs)" "list_all (match pat) (full_lines c) \<longrightarrow> buf = c @ 0 # zs"
    using lines_loop_written [OF assms(1), of pat "[]" zs] by auto
  have n: "int (length c) - int (length a) = int (length b)" using l(2) by simp
  have "read_in BUF (c # cs) = (c, cs)" using assms by simp
  moreover have "splice 0 c (old @ 0 # zs) = c @ 0 # zs" using assms(4) by (simp add: splice_def)
  ultimately have "grep_loop pat (c # cs) (old @ 0 # zs) 0 =
       res_bind (grep_loop pat cs (splice 0 (if a = [] then [] else slice (length a) (length b) buf) buf) (int (if a = [] then 0 else length b)))
         (\<lambda>(out, buf). Inr (written pat c @ out, buf))"
    using l(1) assms(2) n by (cases "a = []") (simp_all add: grep_loop.simps [of pat "c # cs"] splice_def)
  then show ?thesis using l assms(3) by (intro exI [of _ buf] exI [of _ a] exI [of _ b]) simp
qed

lemma grep_end: "grep_loop pat [] buf m = Inr ([], buf)"
  by (simp add: grep_loop.simps)

text \<open>From a buffer of NUL bytes, grep on an input of less than 1024 bytes that one \<open>read\<close> delivers writes exactly the complete lines
  that match the pattern, in order; a last line without newline is not looked at.\<close>

theorem grep_small_input:
  assumes "length c < BUF" "0 \<notin> set c"
  shows "\<exists>buf. grep pat [c] (replicate BUF 0) = Inr (concat (map (\<lambda>l. l @ [10]) (filter (match pat) (full_lines c))), buf)"
proof (cases "c = []")
  case True
  then show ?thesis by (simp add: grep_def grep_loop.simps full_lines.simps)
next
  case False
  define k where "k = BUF - length c - 1"
  have k: "length c + length (replicate k (0 :: byte)) + 1 = BUF" "replicate BUF (0 :: byte) = replicate (length c) 0 @ 0 # replicate k 0"
    using assms(1) by (simp_all add: k_def replicate_add [symmetric] replicate_Suc [symmetric] del: replicate_Suc)
  obtain buf and a b :: "byte list" where "grep_loop pat [c] (replicate (length c) 0 @ 0 # replicate k 0) 0 =
       res_bind (grep_loop pat [] (splice 0 (if a = [] then [] else slice (length a) (length b) buf) buf) (int (if a = [] then 0 else length b)))
         (\<lambda>(out, buf). Inr (written pat c @ out, buf))"
    using grep_first [OF assms(2) False k(1) length_replicate, where pat = pat and cs = "[]" and x1 = 0] by blast
  then show ?thesis using k(2) by (simp add: grep_def grep_end written_def)
qed

text \<open>The buffer is not cleared: after a first \<open>read\<close> of lines that all match, a shorter second one without newline leaves the rest
  of the old lines behind the new bytes, and grep writes lines made of both, which the input does not have. The count of
  bytes left becomes negative, and the next \<open>read\<close> that returns data stores them before the buffer.\<close>

theorem grep_rereads_old_lines:
  assumes "length c < BUF" "0 \<notin> set c" "c \<noteq> []" "last c = 10" "list_all (match pat) (full_lines c)"
    and "0 \<notin> set d" "d \<noteq> []" "length d < length c" "e \<noteq> []"
  shows "(\<exists>buf. grep pat [c, d] (replicate BUF 0) = Inr (written pat c @ written pat (d @ drop (length d) c), buf)) \<and>
    grep pat [c, d, e] (replicate BUF 0) = Inl (Undefined ''read: buf'')"
proof -
  define k where "k = BUF - length c - 1"
  let ?zs = "replicate k (0 :: byte)" and ?c = "d @ drop (length d) c"
  have k: "length c + length ?zs + 1 = BUF" "replicate BUF (0 :: byte) = replicate (length c) 0 @ 0 # ?zs"
    using assms(1) by (simp_all add: k_def replicate_add [symmetric] replicate_Suc [symmetric] del: replicate_Suc)
  have tail: "b = []" if "xs = a @ b" "10 \<notin> set b" "last xs = 10" for xs a b :: "byte list"
    using that last_in_set [of b] by (cases "b = []") auto
  have first: "grep_loop pat (c # cs) (replicate BUF 0) 0 = res_bind (grep_loop pat cs (c @ 0 # ?zs) 0) (\<lambda>(out, buf). Inr (written pat c @ out, buf))" for cs
  proof -
    obtain buf a b where g: "c = a @ b" "10 \<notin> set b" "buf = c @ 0 # ?zs"
      "grep_loop pat (c # cs) (replicate (length c) 0 @ 0 # ?zs) 0 =
       res_bind (grep_loop pat cs (splice 0 (if a = [] then [] else slice (length a) (length b) buf) buf) (int (if a = [] then 0 else length b)))
         (\<lambda>(out, buf). Inr (written pat c @ out, buf))"
      using grep_first [OF assms(2,3) k(1) length_replicate, where pat = pat and cs = cs and x1 = 0] assms(5) by blast
    have "b = []" using tail [OF g(1,2) assms(4)] .
    then show ?thesis using g(3,4) k(2) by (simp add: slice_def splice_def)
  qed
  have c: "0 \<notin> set ?c" "last ?c = 10" "length ?c = length c" using assms by (auto dest: in_set_dropD)
  obtain buf a b where l: "lines_loop pat (?c @ 0 # ?zs) 0 = Inr (written pat ?c, buf, length a)" "?c = a @ b" "10 \<notin> set b"
    using lines_loop_written [OF c(1), of pat "[]" ?zs] unfolding append_Nil list.size(3) add_0 by blast
  have a: "length a = length c" using tail [OF l(2,3) c(2)] l(2) c(3) by simp
  have "splice 0 d (c @ 0 # ?zs) = ?c @ 0 # ?zs" using assms(8) by (simp add: splice_def)
  moreover have "read_in BUF (d # cs) = (d, cs)" for cs using assms(1,8) by simp
  ultimately have second: "\<exists>buf. grep_loop pat (d # cs) (c @ 0 # ?zs) 0 =
      res_bind (grep_loop pat cs buf (int (length d) - int (length c))) (\<lambda>(out, buf). Inr (written pat ?c @ out, buf))" for cs
    using l(1) a assms(3,7) by (auto simp: grep_loop.simps [of pat "d # cs"] Let_def)
  obtain buf1 buf2 where b: "grep_loop pat [d] (c @ 0 # ?zs) 0 = Inr (written pat ?c, buf1)"
      "grep_loop pat [d, e] (c @ 0 # ?zs) 0 =
        res_bind (grep_loop pat [e] buf2 (int (length d) - int (length c))) (\<lambda>(out, buf). Inr (written pat ?c @ out, buf))"
    using second [of "[]"] second [of "[e]"] by (auto simp: grep_end)
  have "fst (read_in (nat (int BUF - (int (length d) - int (length c)))) [e]) \<noteq> []" using assms(8,9) by simp
  then have "grep_loop pat [e] buf2 (int (length d) - int (length c)) = Inl (Undefined ''read: buf'')"
    using assms(8) by (auto simp: grep_loop.simps [of pat "[e]"] split: prod.splits)
  then show ?thesis using first [of "[d]"] first [of "[d, e]"] b by (simp add: grep_def)
qed

section \<open>Instances\<close>

text \<open>The pattern \<open>^a.*c$\<close> and the lines \<open>abc\<close> and \<open>cab\<close>.\<close>

lemma ex_match: "match [94, 97, 46, 42, 99, 36] [97, 98, 99]" "\<not> match [94, 97, 46, 42, 99, 36] [99, 97, 98]"
  by (simp_all add: match_def matchstar.simps)

theorem grep_small_input_witness:
  "\<exists>buf. grep [94, 97, 46, 42, 99, 36] [[97, 98, 99, 10, 99, 97, 98, 10, 97]] (replicate BUF 0) = Inr ([97, 98, 99, 10], buf)"
proof -
  have "full_lines ([97, 98, 99] @ 10 # [99, 97, 98] @ 10 # [97]) = [[97, 98, 99], [99, 97, 98]]"
    by (subst full_lines_simps(2), simp, subst full_lines_simps(2), simp, subst full_lines_simps(1), simp_all)
  then show ?thesis using grep_small_input [of "[97, 98, 99, 10, 99, 97, 98, 10, 97]" "[94, 97, 46, 42, 99, 36]"] by (simp add: ex_match BUF_def)
qed

text \<open>The pattern \<open>b\<close>: the input \<open>b\<close>, \<open>b\<close>, \<open>x\<close> in two portions gives three lines \<open>b\<close>.\<close>

theorem grep_rereads_old_lines_witness:
  "(\<exists>buf. grep [98] [[98, 10, 98, 10], [120]] (replicate BUF 0) = Inr ([98, 10, 98, 10, 98, 10], buf)) \<and>
   grep [98] [[98, 10, 98, 10], [120], [98]] (replicate BUF 0) = Inl (Undefined ''read: buf'')"
proof -
  have f: "full_lines ([x] @ 10 # [98] @ 10 # []) = [[x], [98]]" if "x \<noteq> 10" for x
    using that by (subst full_lines_simps(2), simp, subst full_lines_simps(2), simp, subst full_lines_simps(1), simp_all)
  have m: "match [98] [98]" "\<not> match [98] [120]" by (simp_all add: match_def match_loop.simps)
  show ?thesis using grep_rereads_old_lines [of "[98, 10, 98, 10]" "[98]" "[120]" "[98]"] f [of 98] f [of 120] m by (simp add: written_def BUF_def)
qed

end
