(* ===== verification/Ide.thy ===== *)
theory Ide
  imports Bio Links
begin

text \<open>
  \<open>kernel/ide.c\<close>: the driver of the IDE disk, for the build whose file system is on a disk. Buffers wait for the disk in a queue
  linked through \<open>qnext\<close>; the head is the request the controller works on. A buffer is named by its address, 0 is the null
  pointer. What the status register answers to the reads of an operation, and the block the controller delivers, are
  arguments; what the driver writes to ports is recorded in \<open>io\<close>. A caller of \<open>iderw\<close> sleeps until an interrupt has
  completed its buffer: \<open>ide_step\<close> interleaves callers, interrupts and the use of buffers by their owners.
\<close>

section \<open>Operations\<close>

definition SECTOR_SIZE :: nat where "SECTOR_SIZE = 512"

datatype io_op = Outb nat nat | Outsl nat "byte list" | Insl nat "byte list" | Wakeup nat

record ide_state =
  ibufs :: "nat \<Rightarrow> buf"
  qnext :: "nat \<Rightarrow> nat"
  idequeue :: nat
  havedisk1 :: bool
  io :: "io_op list"

unbundle bit_operations_syntax

text \<open>\<open>idewait\<close> reads the status until \<open>BSY\<close> is clear and \<open>DRDY\<close> set; it spins on when the answers run out.\<close>

fun idewait :: "bool \<Rightarrow> byte list \<Rightarrow> (int \<times> byte list) res" where
  "idewait checkerr [] = Inl (Sleeps ''idewait'')"
| "idewait checkerr (r # rs) =
     (if r AND 0xc0 \<noteq> 0x40 then idewait checkerr rs
      else if checkerr \<and> r AND 0x21 \<noteq> 0 then Inr (-1, rs)
      else Inr (0, rs))"

definition out :: "io_op list \<Rightarrow> ide_state \<Rightarrow> ide_state" where
  "out es s = s\<lparr>io := io s @ es\<rparr>"

text \<open>\<open>ideinit\<close>: disk 1 is present when one of a thousand reads of its status is not 0.\<close>

definition ideinit :: "byte list \<Rightarrow> ide_state \<Rightarrow> ide_state res" where
  "ideinit rs s =
     res_bind (idewait False rs) (\<lambda>(_, rs).
       let s = out [Outb 0x1f6 (0xe0 OR push_bit 4 1)] s;
           s = (if \<exists>r \<in> set (take 1000 rs). r \<noteq> 0 then s\<lparr>havedisk1 := True\<rparr> else s)
       in Inr (out [Outb 0x1f6 (0xe0 OR push_bit 4 0)] s))"

text \<open>The port writes of \<open>idestart\<close> for one buffer; \<open>sector\<close> is an \<open>int\<close> holding an unsigned product.\<close>

definition start_ops :: "buf \<Rightarrow> io_op list" where
  "start_ops b =
     (let sector_per_block = BSIZE div SECTOR_SIZE;
          sector = b_sector b * sector_per_block mod 2 ^ 32;
          read_cmd = (if sector_per_block = 1 then 0x20 else 0xc4);
          write_cmd = (if sector_per_block = 1 then 0x30 else 0xc5)
      in [Outb 0x3f6 0, Outb 0x1f2 sector_per_block, Outb 0x1f3 (sector AND 0xff),
          Outb 0x1f4 (drop_bit 8 sector AND 0xff), Outb 0x1f5 (drop_bit 16 sector AND 0xff),
          Outb 0x1f6 (0xe0 OR push_bit 4 (b_dev b AND 1) OR (drop_bit 24 sector AND 0x0f))] @
         (if b_dirty b then [Outb 0x1f7 write_cmd, Outsl 0x1f0 (take 1024 (b_data b))] else [Outb 0x1f7 read_cmd]))"

definition idestart :: "nat \<Rightarrow> byte list \<Rightarrow> ide_state \<Rightarrow> (byte list \<times> ide_state) res" where
  "idestart b rs s =
     (if b = 0 then Inl (Panic ''idestart'')
      else res_bind (idewait False rs) (\<lambda>(_, rs). Inr (rs, out (start_ops (ibufs s b)) s)))"

text \<open>\<open>ideintr\<close> takes the head \<open>b\<close> off the queue, reads the block if one was asked for (\<open>d\<close> is what \<open>insl\<close> delivers), and hands
  the buffer back and starts the next request.\<close>

definition intr_read :: "nat \<Rightarrow> byte list \<Rightarrow> byte list \<Rightarrow> ide_state \<Rightarrow> (byte list \<times> ide_state) res" where
  "intr_read b rs d s =
     (if \<not> b_dirty (ibufs s b) then
        res_bind (idewait True rs) (\<lambda>(r, rs). Inr (rs,
          if r \<ge> 0 then out [Insl 0x1f0 d] (s\<lparr>ibufs := (ibufs s)(b := (ibufs s b)\<lparr>b_data := d\<rparr>)\<rparr>) else s))
      else Inr (rs, s))"

definition intr_finish :: "nat \<Rightarrow> byte list \<Rightarrow> ide_state \<Rightarrow> ide_state res" where
  "intr_finish b rs s =
     (let s = s\<lparr>ibufs := (ibufs s)(b := (ibufs s b)\<lparr>b_valid := True, b_dirty := False\<rparr>)\<rparr>;
          s = out [Wakeup b] s
      in if idequeue s \<noteq> 0 then res_bind (idestart (idequeue s) rs s) (\<lambda>(rs, s). Inr s) else Inr s)"

definition ideintr :: "byte list \<Rightarrow> byte list \<Rightarrow> ide_state \<Rightarrow> ide_state res" where
  "ideintr rs d s =
     (let b = idequeue s
      in if b = 0 then Inr s
         else res_bind (intr_read b rs d (s\<lparr>idequeue := qnext s b\<rparr>)) (\<lambda>(rs, s). intr_finish b rs s))"

text \<open>The pointer \<open>pp\<close> of \<open>iderw\<close> is \<open>&idequeue\<close> (\<open>None\<close>) or the address of a buffer's \<open>qnext\<close>. The walk does not end on
  a queue that is a cycle.\<close>

definition pp_get :: "nat option \<Rightarrow> ide_state \<Rightarrow> nat" where
  "pp_get pp s = (case pp of None \<Rightarrow> idequeue s | Some x \<Rightarrow> qnext s x)"

definition pp_set :: "nat option \<Rightarrow> nat \<Rightarrow> ide_state \<Rightarrow> ide_state" where
  "pp_set pp v s = (case pp of None \<Rightarrow> s\<lparr>idequeue := v\<rparr> | Some x \<Rightarrow> s\<lparr>qnext := (qnext s)(x := v)\<rparr>)"

partial_function (option) queue_end :: "ide_state \<Rightarrow> nat option \<Rightarrow> nat option option" where
  "queue_end s pp = (if pp_get pp s = 0 then Some pp else queue_end s (Some (pp_get pp s)))"

text \<open>The condition on which \<open>iderw\<close> sleeps, and \<open>iderw\<close> up to there.\<close>

definition iderw_waits :: "nat \<Rightarrow> ide_state \<Rightarrow> bool" where
  "iderw_waits b s \<longleftrightarrow> \<not> (b_valid (ibufs s b) \<and> \<not> b_dirty (ibufs s b))"

definition iderw :: "nat \<Rightarrow> byte list \<Rightarrow> ide_state \<Rightarrow> ide_state res option" where
  "iderw b rs s =
     (if \<not> b_busy (ibufs s b) then Some (Inl (Panic ''iderw: buf not busy''))
      else if b_valid (ibufs s b) \<and> \<not> b_dirty (ibufs s b) then Some (Inl (Panic ''iderw: nothing to do''))
      else if b_dev (ibufs s b) \<noteq> 0 \<and> \<not> havedisk1 s then Some (Inl (Panic ''iderw: ide disk 1 not present''))
      else let s = s\<lparr>qnext := (qnext s)(b := 0)\<rparr>
        in case queue_end s None of
             None \<Rightarrow> None
           | Some pp \<Rightarrow>
               let s = pp_set pp b s
               in Some (if idequeue s = b then res_bind (idestart b rs s) (\<lambda>(rs, s). Inr s) else Inr s))"

section \<open>The queue\<close>

definition queue :: "nat list \<Rightarrow> ide_state \<Rightarrow> bool" where
  "queue L s \<longleftrightarrow> distinct L \<and> 0 \<notin> set L \<and> idequeue s = hd (L @ [0]) \<and> linked (qnext s) (L @ [0])"

lemma out_simps [simp]:
  "ibufs (out es s) = ibufs s" "qnext (out es s) = qnext s" "idequeue (out es s) = idequeue s"
  "havedisk1 (out es s) = havedisk1 s" "io (out es s) = io s @ es"
  by (simp_all add: out_def)

lemma queue_cong:
  "idequeue s' = idequeue s \<Longrightarrow> qnext s' = qnext s \<Longrightarrow> queue L s' \<longleftrightarrow> queue L s"
  by (simp add: queue_def)

lemma queue_end_chain:
  assumes "linked (qnext s) (x # xs @ [0])" "0 \<notin> set xs"
  shows "queue_end s (Some x) = Some (Some (last (x # xs)))"
  using assms
proof (induction xs arbitrary: x)
  case Nil
  then show ?case by (subst queue_end.simps) (simp add: pp_get_def)
next
  case (Cons y xs)
  then show ?case by (subst queue_end.simps) (simp add: pp_get_def)
qed

lemma queue_end_queue:
  assumes "queue L s"
  shows "queue_end s None = Some (if L = [] then None else Some (last L))"
proof (cases L)
  case Nil
  then show ?thesis using assms by (subst queue_end.simps) (simp add: pp_get_def queue_def)
next
  case (Cons x xs)
  then have "queue_end s None = queue_end s (Some x)"
    using assms by (subst queue_end.simps) (auto simp: pp_get_def queue_def)
  then show ?thesis using assms Cons queue_end_chain [of s x xs] by (simp add: queue_def)
qed

text \<open>Appending a buffer that is not in the queue.\<close>

lemma queue_append:
  assumes q: "queue L s" and b: "b \<noteq> 0" "b \<notin> set L"
  shows "queue (L @ [b]) (pp_set (if L = [] then None else Some (last L)) b (s\<lparr>qnext := (qnext s)(b := 0)\<rparr>))"
proof (cases L rule: rev_cases)
  case Nil
  then show ?thesis using assms by (simp add: queue_def pp_set_def)
next
  case (snoc ys y)
  let ?h = "(qnext s)(b := 0, y := b)"
  have d: "distinct (ys @ [y, b])" using assms snoc by (auto simp: queue_def)
  have "linked (qnext s) (ys @ [y])" using q snoc linked_split [of "qnext s" ys y "[0]"] by (simp add: queue_def)
  then have "linked ?h (ys @ [y])" using d by (subst linked_upd, simp add: butlast_append)+ simp
  moreover have "linked ?h [y, b, 0]" using d by simp
  ultimately have "linked ?h ((ys @ [y, b]) @ [0])" using linked_split [of ?h ys y "[b, 0]"] by simp
  moreover have "idequeue s = hd (ys @ [y, b, 0])" using q snoc by (cases ys) (auto simp: queue_def)
  ultimately show ?thesis using assms d snoc by (auto simp: queue_def pp_set_def)
qed

text \<open>The three operations on the queue.\<close>

lemma iderw_queue:
  assumes q: "queue L s" and b: "b \<noteq> 0" "b \<notin> set L" and r: "iderw b rs s = Some (Inr s')"
  shows "queue (L @ [b]) s'" "ibufs s' = ibufs s" "iderw_waits b s'"
    "io s' = io s @ (if L = [] then start_ops (ibufs s b) else [])"
proof -
  define s1 where "s1 = s\<lparr>qnext := (qnext s)(b := 0)\<rparr>"
  define s2 where "s2 = pp_set (if L = [] then None else Some (last L)) b s1"
  have q1: "queue L s1"
  proof -
    have "linked (qnext s) (L @ [0])" using q by (simp add: queue_def)
    then have "linked ((qnext s)(b := 0)) (L @ [0])" using b by (subst linked_upd) simp_all
    then show ?thesis using q by (simp add: queue_def s1_def del: fun_upd_apply)
  qed
  have q2: "queue (L @ [b]) s2" using queue_append [OF q b] by (simp add: s2_def s1_def)
  have f: "ibufs s2 = ibufs s" "io s2 = io s" by (auto simp: s2_def s1_def pp_set_def)
  have i: "idequeue s2 = b \<longleftrightarrow> L = []" using q2 b by (cases L) (auto simp: queue_def)
  have w: "\<not> (b_valid (ibufs s b) \<and> \<not> b_dirty (ibufs s b))"
    and e: "(if idequeue s2 = b then res_bind (idestart b rs s2) (\<lambda>(rs, s). Inr s) else Inr s2) = Inr s'"
    using r unfolding iderw_def s1_def [symmetric] queue_end_queue [OF q1] Let_def option.case s2_def [symmetric]
    by (auto split: if_splits)
  have "s' = (if L = [] then out (start_ops (ibufs s b)) s2 else s2)"
    using e i f by (cases "L = []") (auto simp: idestart_def res_simps split: if_splits)
  then have e': "idequeue s' = idequeue s2 \<and> qnext s' = qnext s2 \<and> ibufs s' = ibufs s \<and>
    io s' = io s @ (if L = [] then start_ops (ibufs s b) else [])" using f by simp
  then show "queue (L @ [b]) s'" using q2 queue_cong [of s' s2] by simp
  show "ibufs s' = ibufs s" "iderw_waits b s'" "io s' = io s @ (if L = [] then start_ops (ibufs s b) else [])"
    using e' w by (simp_all add: iderw_waits_def)
qed

text \<open>What an interrupt does to the buffer at the head: a read that ends without an error brings the block.\<close>

definition completed :: "byte list \<Rightarrow> byte list \<Rightarrow> buf \<Rightarrow> buf" where
  "completed rs d b =
     (let b = (if \<not> b_dirty b \<and> (\<exists>rs'. idewait True rs = Inr (0, rs')) then b\<lparr>b_data := d\<rparr> else b)
      in b\<lparr>b_valid := True, b_dirty := False\<rparr>)"

lemma completed_done: "b_valid (completed rs d b)" "\<not> b_dirty (completed rs d b)"
  by (simp_all add: completed_def Let_def)

lemma idewait_result: "idewait e rs = Inr (r, rs') \<Longrightarrow> r = 0 \<or> r = -1"
  by (induction rs) (auto split: if_splits)

lemma intr_read_effect:
  assumes "intr_read b rs d s = Inr (rs', s')"
  shows "idequeue s' = idequeue s" "qnext s' = qnext s"
    "(ibufs s')(b := (ibufs s' b)\<lparr>b_valid := True, b_dirty := False\<rparr>) = (ibufs s)(b := completed rs d (ibufs s b))"
proof (atomize (full), cases "b_dirty (ibufs s b)")
  case True
  then show "idequeue s' = idequeue s \<and> qnext s' = qnext s \<and>
    (ibufs s')(b := (ibufs s' b)\<lparr>b_valid := True, b_dirty := False\<rparr>) = (ibufs s)(b := completed rs d (ibufs s b))"
    using assms by (simp add: intr_read_def completed_def)
next
  case False
  then obtain r where w: "idewait True rs = Inr (r, rs')" using assms by (auto simp: intr_read_def res_simps)
  then show "idequeue s' = idequeue s \<and> qnext s' = qnext s \<and>
    (ibufs s')(b := (ibufs s' b)\<lparr>b_valid := True, b_dirty := False\<rparr>) = (ibufs s)(b := completed rs d (ibufs s b))"
    using assms False idewait_result [OF w] by (auto simp: intr_read_def completed_def out_def)
qed

lemma intr_finish_effect:
  assumes "intr_finish b rs s = Inr s'" "idequeue s \<noteq> b"
  shows "idequeue s' = idequeue s \<and> qnext s' = qnext s \<and>
    ibufs s' = (ibufs s)(b := (ibufs s b)\<lparr>b_valid := True, b_dirty := False\<rparr>) \<and>
    io s' = io s @ Wakeup b # (if idequeue s = 0 then [] else start_ops (ibufs s (idequeue s)))"
proof (cases "idequeue s = 0")
  case True
  then show ?thesis using assms by (auto simp: intr_finish_def)
next
  case False
  then show ?thesis using assms by (auto simp: intr_finish_def idestart_def res_simps Let_def)
qed

lemma ideintr_empty: "queue [] s \<Longrightarrow> ideintr rs d s = Inr s"
  by (simp add: queue_def ideintr_def)

lemma queue_ConsD:
  assumes "queue (b # L) s"
  shows "idequeue s = b" "b \<noteq> 0" "qnext s b = hd (L @ [0])" "hd (L @ [0]) \<noteq> b" "queue L (s\<lparr>idequeue := hd (L @ [0])\<rparr>)"
    "hd (L @ [0]) = 0 \<longleftrightarrow> L = []"
  using assms by (cases L; auto simp: queue_def linked_Cons)+

lemma ideintr_queue:
  assumes q: "queue (b # L) s" and r: "ideintr rs d s = Inr s'"
  shows "queue L s' \<and> ibufs s' = (ibufs s)(b := completed rs d (ibufs s b)) \<and>
    (L \<noteq> [] \<longrightarrow> (\<exists>pre. io s' = pre @ start_ops (ibufs s (hd L))))"
proof -
  note b = queue_ConsD [OF q]
  obtain rs1 s1 where s1: "intr_read b rs d (s\<lparr>idequeue := qnext s b\<rparr>) = Inr (rs1, s1)" and s2: "intr_finish b rs1 s1 = Inr s'"
    using r b by (auto simp: ideintr_def res_simps)
  note e1 = intr_read_effect [OF s1, simplified]
  have e2: "idequeue s' = hd (L @ [0])" "qnext s' = qnext s" "ibufs s' = (ibufs s)(b := completed rs d (ibufs s b))"
    "io s' = io s1 @ Wakeup b # (if L = [] then [] else start_ops (ibufs s1 (hd L)))"
    using intr_finish_effect [OF s2] e1 b by auto
  have "L \<noteq> [] \<Longrightarrow> ibufs s1 (hd L) = ibufs s (hd L)"
    using e1(3) b(4) by (cases L) (auto simp: fun_eq_iff split: if_splits)
  then have "L \<noteq> [] \<Longrightarrow> io s' = (io s1 @ [Wakeup b]) @ start_ops (ibufs s (hd L))" using e2 by simp
  moreover have "queue L s'" using b(5) e2 by (simp add: queue_def)
  ultimately show ?thesis using e2 by blast
qed


section \<open>Callers, interrupts and owners interleaved\<close>

text \<open>\<open>W\<close> are the buffers whose owners are inside \<open>iderw\<close>; the owner of any other buffer may change it or hand it on.\<close>

inductive ide_step :: "nat set \<times> ide_state \<Rightarrow> nat set \<times> ide_state \<Rightarrow> bool" where
  Call: "b \<noteq> 0 \<Longrightarrow> b \<notin> W \<Longrightarrow> iderw b rs s = Some (Inr s') \<Longrightarrow> ide_step (W, s) (insert b W, s')"
| Intr: "ideintr rs d s = Inr s' \<Longrightarrow> ide_step (W, s) (W, s')"
| Return: "b \<in> W \<Longrightarrow> \<not> iderw_waits b s \<Longrightarrow> ide_step (W, s) (W - {b}, s)"
| Owner: "b \<notin> W \<Longrightarrow> ide_step (W, s) (W, s\<lparr>ibufs := (ibufs s)(b := x)\<rparr>)"

definition ide_ok :: "nat set \<Rightarrow> ide_state \<Rightarrow> nat list \<Rightarrow> bool" where
  "ide_ok W s L \<longleftrightarrow> queue L s \<and> set L \<subseteq> W \<and> (\<forall>b \<in> W. iderw_waits b s \<longleftrightarrow> b \<in> set L) \<and>
     (L \<noteq> [] \<longrightarrow> (\<exists>pre. io s = pre @ start_ops (ibufs s (hd L))))"

lemma ide_step_ok:
  assumes st: "ide_step (W, s) (W', s')" and ok: "ide_ok W s L"
  shows "\<exists>L'. ide_ok W' s' L'"
  using st
proof (cases rule: ide_step.cases)
  case (Call b rs)
  note c = iderw_queue [of L s b rs s']
  have b: "b \<notin> set L" using ok Call by (auto simp: ide_ok_def)
  have "\<exists>pre. io s' = pre @ start_ops (ibufs s' (hd (L @ [b])))"
    using ok c b Call by (cases "L = []") (auto simp: ide_ok_def)
  then have "ide_ok W' s' (L @ [b])" using ok c b Call by (auto simp: ide_ok_def iderw_waits_def)
  then show ?thesis by blast
next
  case (Intr rs d)
  show ?thesis
  proof (cases L)
    case Nil
    then show ?thesis using ok Intr ideintr_empty [of s rs d] by (auto simp: ide_ok_def)
  next
    case (Cons b K)
    have q: "queue (b # K) s" using ok Cons by (simp add: ide_ok_def)
    note i = ideintr_queue [OF q, of rs d s']
    have "b \<notin> set K" using q by (simp add: queue_def)
    then have "ide_ok W' s' K"
      using ok Intr Cons i completed_done [of rs d "ibufs s b"] by (cases K) (auto simp: ide_ok_def iderw_waits_def)
    then show ?thesis by blast
  qed
next
  case (Return b)
  then show ?thesis using ok by (auto simp: ide_ok_def)
next
  case (Owner b x)
  have "b \<notin> set L" using ok Owner by (auto simp: ide_ok_def)
  then have "ide_ok W' s' L" using ok Owner by (cases L) (auto simp: ide_ok_def iderw_waits_def queue_def)
  then show ?thesis by blast
qed

text \<open>C12: In every interleaving of callers of \<open>iderw\<close>, disk interrupts and owners that change their buffers, started with an empty
  queue: the chain through \<open>qnext\<close> is a list of distinct buffers, these are exactly the buffers whose callers still have to
  wait (so no caller sleeps on a request that nobody will complete), and the last command given to the controller, with
  its sector and its data, is the one for the buffer at the head of the queue.\<close>

theorem ide_queue_invariant:
  assumes "ide_step\<^sup>*\<^sup>* ({}, s0) (W, s)" "idequeue s0 = 0"
  shows "\<exists>L. queue L s \<and> set L = {b \<in> W. iderw_waits b s} \<and>
    (L \<noteq> [] \<longrightarrow> (\<exists>pre. io s = pre @ start_ops (ibufs s (hd L))))"
proof -
  have i: "ide_ok {} s0 []" using assms(2) by (simp add: ide_ok_def queue_def)
  have "\<exists>L. ide_ok (fst c) (snd c) L" if "ide_step\<^sup>*\<^sup>* ({}, s0) c" for c
    using that by induction (use i in \<open>auto dest: ide_step_ok\<close>)
  from this [OF assms(1)] have "\<exists>L. ide_ok W s L" by simp
  then show ?thesis by (auto simp: ide_ok_def)
qed

section \<open>Completion\<close>

text \<open>The status answers let both waits of an interrupt end.\<close>

definition answers :: "byte list \<Rightarrow> bool" where
  "answers rs \<longleftrightarrow> (case idewait True rs of Inl e \<Rightarrow> False | Inr (r, rs) \<Rightarrow> (\<exists>x. idewait False rs = Inr x))"

lemma idewait_False_more: "idewait True rs = Inr (r, rs') \<Longrightarrow> idewait False rs = Inr (0, rs')"
  by (induction rs) (auto split: if_splits)

lemma ideintr_total:
  assumes "answers rs"
  shows "\<exists>s'. ideintr rs d s = Inr s'"
proof -
  obtain r rs1 x where w: "idewait True rs = Inr (r, rs1)" "idewait False rs1 = Inr x"
    using assms by (auto simp: answers_def split: sum.splits prod.splits)
  note w' = idewait_False_more [OF w(1)]
  show ?thesis using w w'
    by (cases x) (simp add: ideintr_def intr_read_def intr_finish_def idestart_def Let_def)
qed

text \<open>A sequence of interrupts.\<close>

fun intrs :: "(byte list \<times> byte list) list \<Rightarrow> ide_state \<Rightarrow> ide_state res" where
  "intrs [] s = Inr s"
| "intrs ((rs, d) # is) s = res_bind (ideintr rs d s) (intrs is)"

lemma intrs_queue:
  assumes "queue (K @ L) s" "length is = length K" "\<forall>(rs, d) \<in> set is. answers rs"
  shows "\<exists>s'. intrs is s = Inr s' \<and> queue L s' \<and> (\<forall>b. b \<notin> set K \<longrightarrow> ibufs s' b = ibufs s b) \<and>
    (\<forall>i < length K. ibufs s' (K ! i) = completed (fst (is ! i)) (snd (is ! i)) (ibufs s (K ! i)))"
  using assms
proof (induction K arbitrary: s "is")
  case (Cons b K)
  then obtain rs d js where js: "is = (rs, d) # js" by (cases "is") auto
  obtain s1 where s1: "ideintr rs d s = Inr s1" using ideintr_total [of rs d s] Cons.prems js by auto
  have q: "queue (b # K @ L) s" using Cons.prems by simp
  have e: "queue (K @ L) s1" "ibufs s1 = (ibufs s)(b := completed rs d (ibufs s b))" using ideintr_queue [OF q s1] by auto
  obtain s' where s': "intrs js s1 = Inr s'" "queue L s'" "\<forall>b. b \<notin> set K \<longrightarrow> ibufs s' b = ibufs s1 b"
    "\<forall>i < length K. ibufs s' (K ! i) = completed (fst (js ! i)) (snd (js ! i)) (ibufs s1 (K ! i))"
    using Cons.IH [of s1 js] e Cons.prems js by auto
  have b: "b \<notin> set K" using q by (simp add: queue_def)
  have "ibufs s' ((b # K) ! i) = completed (fst (is ! i)) (snd (is ! i)) (ibufs s ((b # K) ! i))" if "i < length (b # K)" for i
  proof (cases i)
    case 0
    then show ?thesis using s' b e js by simp
  next
    case (Suc j)
    then have "K ! j \<noteq> b" using that b by auto
    then show ?thesis using s' e js Suc that by simp
  qed
  then show ?case using s' s1 js e by auto
qed simp



section \<open>The registers of the controller\<close>

text \<open>What a register holds after a sequence of port writes.\<close>

definition reg :: "nat \<Rightarrow> io_op list \<Rightarrow> nat" where
  "reg p es = last (0 # [v. Outb q v \<leftarrow> es, q = p])"

definition lba :: "io_op list \<Rightarrow> nat" where
  "lba es = reg 0x1f3 es + 2 ^ 8 * reg 0x1f4 es + 2 ^ 16 * reg 0x1f5 es + 2 ^ 24 * (reg 0x1f6 es mod 16)"

lemma and_low: "(x :: nat) AND 255 = x mod 256" "x AND 15 = x mod 16" "x AND 1 = x mod 2"
  using take_bit_eq_mask [of 8 x] take_bit_eq_mask [of 4 x]
  by (simp_all add: take_bit_eq_mod mask_eq_exp_minus_1 and_one_eq)

lemma drive_bits:
  fixes d y :: nat
  assumes "d < 2" "y < 16"
  shows "(0xe0 OR push_bit 4 d OR y) mod 16 = y" "(0xe0 OR push_bit 4 d OR y) div 16 mod 2 = d"
proof -
  have "d = 0 \<or> d = 1" "y = 0 \<or> y = 1 \<or> y = 2 \<or> y = 3 \<or> y = 4 \<or> y = 5 \<or> y = 6 \<or> y = 7 \<or> y = 8 \<or> y = 9 \<or> y = 10 \<or>
    y = 11 \<or> y = 12 \<or> y = 13 \<or> y = 14 \<or> y = 15" using assms by presburger+
  then show "(0xe0 OR push_bit 4 d OR y) mod 16 = y" "(0xe0 OR push_bit 4 d OR y) div 16 mod 2 = d"
    by (auto simp: push_bit_eq_mult)
qed

lemma split_28: "n mod 256 + 256 * (n div 256 mod 256) + 65536 * (n div 65536 mod 256) + 16777216 * (n div 16777216) = (n :: nat)"
proof -
  define x where "x = n div 256"
  define y where "y = x div 256"
  have d: "n div 65536 = y" "n div 16777216 = y div 256" by (simp_all add: x_def y_def div_mult2_eq [symmetric])
  have "n = 256 * x + n mod 256" "x = 256 * y + x mod 256" "y = 256 * (y div 256) + y mod 256"
    by (simp_all add: x_def y_def)
  then show ?thesis unfolding d x_def [symmetric] by linarith
qed

text \<open>The address \<open>idestart\<close> programs is that of the block: the sector registers of the controller hold twice the number of the
  block (two sectors of 512 bytes each), the drive bit is the device, the count is 2, and the command with its data is a
  write of the buffer exactly when the buffer is dirty. The registers have 28 bits, so this needs block numbers below
  \<open>2 ^ 27\<close>.\<close>

theorem idestart_registers:
  assumes "b_sector b < 2 ^ 27"
  shows "lba (start_ops b) = 2 * b_sector b \<and> reg 0x1f6 (start_ops b) div 16 mod 2 = b_dev b mod 2 \<and>
    reg 0x1f2 (start_ops b) = 2 \<and>
    (if b_dirty b then reg 0x1f7 (start_ops b) = 0xc5 \<and> last (start_ops b) = Outsl 0x1f0 (take BSIZE (b_data b))
     else last (start_ops b) = Outb 0x1f7 0xc4)"
proof -
  define n where "n = b_sector b * 2"
  have n: "n < 2 ^ 28" "n mod 2 ^ 32 = n" using assms by (simp_all add: n_def)
  have d: "n div 16777216 mod 16 = n div 16777216" using n by auto
  have bits: "(0xe0 OR push_bit 4 (b_dev b mod 2) OR (n div 16777216 mod 16)) mod 16 = n div 16777216"
    "(0xe0 OR push_bit 4 (b_dev b mod 2) OR (n div 16777216 mod 16)) div 16 mod 2 = b_dev b mod 2"
    using drive_bits [of "b_dev b mod 2" "n div 16777216 mod 16"] d by simp_all
  define cmd where "cmd = (if b_dirty b then [Outb 0x1f7 0xc5, Outsl 0x1f0 (take BSIZE (b_data b))] else [Outb 0x1f7 0xc4])"
  have e: "start_ops b = [Outb 0x3f6 0, Outb 0x1f2 2, Outb 0x1f3 (n mod 256), Outb 0x1f4 (n div 256 mod 256),
      Outb 0x1f5 (n div 65536 mod 256), Outb 0x1f6 (0xe0 OR push_bit 4 (b_dev b mod 2) OR (n div 16777216 mod 16))] @ cmd"
    using n by (simp add: start_ops_def BSIZE_def SECTOR_SIZE_def n_def [symmetric] and_low drop_bit_eq_div cmd_def)
  have c: "p \<noteq> 0x1f7 \<Longrightarrow> [v. Outb q v \<leftarrow> cmd, q = p] = []" for p by (simp add: cmd_def)
  have r: "reg 0x1f3 (start_ops b) = n mod 256" "reg 0x1f4 (start_ops b) = n div 256 mod 256"
    "reg 0x1f5 (start_ops b) = n div 65536 mod 256" "reg 0x1f2 (start_ops b) = 2"
    "reg 0x1f6 (start_ops b) = 0xe0 OR push_bit 4 (b_dev b mod 2) OR (n div 16777216 mod 16)"
    unfolding e reg_def by (simp_all add: c)
  have "lba (start_ops b) = n" unfolding lba_def r bits using split_28 [of n] by simp
  moreover have "reg 0x1f6 (start_ops b) div 16 mod 2 = b_dev b mod 2" unfolding r bits by simp
  moreover have "if b_dirty b then reg 0x1f7 (start_ops b) = 0xc5 \<and> last (start_ops b) = Outsl 0x1f0 (take BSIZE (b_data b))
     else last (start_ops b) = Outb 0x1f7 0xc4"
    unfolding e reg_def by (simp add: cmd_def)
  ultimately show ?thesis using r(4) by (simp add: n_def mult.commute)
qed


section \<open>Examples\<close>

definition ide_buf :: "bool \<Rightarrow> nat \<Rightarrow> buf" where
  "ide_buf dirty sector = \<lparr>b_busy = True, b_valid = False, b_dirty = dirty, b_dev = 0, b_sector = sector, b_data = []\<rparr>"

text \<open>Two buffers queued, a write and then a read.\<close>

definition ide_ex :: ide_state where
  "ide_ex = \<lparr>ibufs = (\<lambda>a. ide_buf (a = 1) a), qnext = (\<lambda>a. 0), idequeue = 0, havedisk1 = False, io = []\<rparr>"

lemma ide_ex_call: "iderw 1 [0x40] ide_ex = Some (Inr (out (start_ops (ide_buf True 1)) (ide_ex\<lparr>qnext := (\<lambda>a. 0)(1 := 0), idequeue := 1\<rparr>)))"
  by (simp add: iderw_def ide_ex_def ide_buf_def queue_end.simps pp_get_def pp_set_def idestart_def)

lemma ide_ex_steps: "ide_step\<^sup>*\<^sup>* ({}, ide_ex) ({1}, out (start_ops (ide_buf True 1)) (ide_ex\<lparr>qnext := (\<lambda>a. 0)(1 := 0), idequeue := 1\<rparr>))"
  using ide_step.Call [of 1 "{}", OF _ _ ide_ex_call] by auto

theorem ide_queue_invariant_witness:
  "idequeue ide_ex = 0 \<and> (\<exists>W s L. W = {1 :: nat} \<and> ide_step\<^sup>*\<^sup>* ({}, ide_ex) (W, s) \<and> queue L s \<and> set L = {b \<in> W. iderw_waits b s} \<and>
    (L \<noteq> [] \<longrightarrow> (\<exists>pre. io s = pre @ start_ops (ibufs s (hd L)))))"
proof -
  have z: "idequeue ide_ex = 0" by (simp add: ide_ex_def)
  show ?thesis using z ide_queue_invariant [OF ide_ex_steps z] ide_ex_steps by blast
qed

definition ide_ex2 :: ide_state where
  "ide_ex2 = ide_ex\<lparr>qnext := (\<lambda>a. 0)(1 := 2), idequeue := 1\<rparr>"


theorem idestart_registers_witness:
  "lba (start_ops (ide_buf True 123456789)) = 246913578 \<and> reg 0x1f7 (start_ops (ide_buf True 123456789)) = 0xc5"
  using idestart_registers [of "ide_buf True 123456789"] by (simp add: ide_buf_def)

end
