(* ===== verification/Sh.thy ===== *)
theory Sh
  imports Xv6_Prelude
begin

text \<open>
  \<open>user/sh.c\<close>: the shell \<open>init\<close> starts. The scanner and the recursive-descent parser work on positions in the line \<open>b\<close> (the
  bytes before its NUL); a command refers to its words by the positions of their first byte and of the byte after
  their last, and \<open>nulterminate\<close> puts NULs there at the end. \<open>panic\<close> prints and exits, the outcome \<open>Panic\<close>. The parsing
  functions, which call each other, carry fuel; \<open>None\<close> is a lack of fuel, and \<open>parsecmd_total\<close> shows that there is
  enough. The code does not check its \<open>malloc\<close> calls, which are taken to succeed. \<open>runcmd\<close> runs on a table of descriptors and
  yields the programs started, each with its table.
\<close>

section \<open>Scanner\<close>

text \<open>The byte at a position; the one after the last is the NUL.\<close>

definition chr :: "byte list \<Rightarrow> nat \<Rightarrow> byte" where
  "chr b s = (if s < length b then b ! s else 0)"

text \<open>Blank, tab, carriage return, newline, vertical tab; and \<open>< | > & ; ( )\<close>\<close>

definition whitespace :: "byte list" where "whitespace = [32, 9, 13, 10, 11]"
definition symbols :: "byte list" where "symbols = [60, 124, 62, 38, 59, 40, 41]"

definition skip_ws :: "byte list \<Rightarrow> nat \<Rightarrow> nat" where
  "skip_ws b s = s + length (takeWhile (\<lambda>c. c \<in> set whitespace) (drop s b))"

definition word_end :: "byte list \<Rightarrow> nat \<Rightarrow> nat" where
  "word_end b s = s + length (takeWhile (\<lambda>c. c \<notin> set whitespace \<and> c \<notin> set symbols) (drop s b))"

text \<open>\<open>gettoken\<close>: the token's kind, its first position, the position after it, and the position the scanner moves to; the
  kinds are 0, the symbol itself, \<open>+\<close> for \<open>>>\<close> and \<open>a\<close> for a word.\<close>

definition gettoken :: "byte list \<Rightarrow> nat \<Rightarrow> byte \<times> nat \<times> nat \<times> nat" where
  "gettoken b s =
     (let q = skip_ws b s; c = chr b q;
          (ret, eq) =
            (if c = 0 then (c, q)
             else if c \<in> set [124, 40, 41, 59, 38, 60] then (c, q + 1)
             else if c = 62 then (if chr b (q + 1) = 62 then (43, q + 2) else (c, q + 1))
             else (97, word_end b q))
      in (ret, q, eq, skip_ws b eq))"

definition peek :: "byte list \<Rightarrow> nat \<Rightarrow> byte list \<Rightarrow> bool \<times> nat" where
  "peek b s toks = (let s = skip_ws b s in (chr b s \<noteq> 0 \<and> chr b s \<in> set toks, s))"

text \<open>A call of \<open>gettoken\<close> for its effect on the position only.\<close>

definition skip_tok :: "byte list \<Rightarrow> nat \<Rightarrow> nat" where
  "skip_tok b s = snd (snd (snd (gettoken b s)))"

section \<open>Commands\<close>

text \<open>The five structures, over the type of words: pairs of positions as the parser leaves them, or strings.\<close>

datatype 'w cmd =
    EXEC "'w list"
  | REDIR "'w cmd" 'w nat nat
  | PIPE "'w cmd" "'w cmd"
  | LIST "'w cmd" "'w cmd"
  | BACK "'w cmd"

type_synonym span = "nat \<times> nat"

definition MAXARGS :: nat where "MAXARGS = 10"
definition O_RDONLY :: nat where "O_RDONLY = 0"
definition O_WRONLY_CREATE :: nat where "O_WRONLY_CREATE = 0x201"

text \<open>\<open>parseexec\<close> stores arguments through a pointer to the \<open>execcmd\<close> that may be wrapped in redirections by then.\<close>

primrec put_arg :: "'w \<Rightarrow> 'w cmd \<Rightarrow> 'w cmd" where
  "put_arg a (EXEC as) = EXEC (as @ [a])"
| "put_arg a (REDIR c f m fd) = REDIR (put_arg a c) f m fd"
| "put_arg a (PIPE c d) = PIPE c d"
| "put_arg a (LIST c d) = LIST c d"
| "put_arg a (BACK c) = BACK c"

section \<open>Progress of the scanner\<close>

lemma skip_ws_ge [simp]: "s \<le> skip_ws b s"
  by (simp add: skip_ws_def)

lemma skip_ws_le: "s \<le> length b \<Longrightarrow> skip_ws b s \<le> length b"
  using length_takeWhile_le [of "\<lambda>c. c \<in> set whitespace" "drop s b"] by (simp add: skip_ws_def)

lemma word_end_le: "s \<le> length b \<Longrightarrow> word_end b s \<le> length b"
  using length_takeWhile_le [of "\<lambda>c. c \<notin> set whitespace \<and> c \<notin> set symbols" "drop s b"] by (simp add: word_end_def)

lemma chr_nz: "chr b s \<noteq> 0 \<Longrightarrow> s < length b"
  by (auto simp: chr_def split: if_splits)

lemma skip_ws_stop:
  assumes "s \<le> length b"
  shows "chr b (skip_ws b s) \<notin> set whitespace"
proof (cases "skip_ws b s < length b")
  case True
  let ?n = "length (takeWhile (\<lambda>c. c \<in> set whitespace) (drop s b))"
  have "?n < length (drop s b)" using True assms by (simp add: skip_ws_def)
  from nth_length_takeWhile [OF this] show ?thesis using True assms by (simp add: skip_ws_def chr_def)
qed (simp add: chr_def whitespace_def)

lemma drop_chr: "s < length b \<Longrightarrow> drop s b = chr b s # drop (Suc s) b"
  by (simp add: chr_def Cons_nth_drop_Suc)

lemma word_end_gt: "s < length b \<Longrightarrow> chr b s \<notin> set whitespace \<Longrightarrow> chr b s \<notin> set symbols \<Longrightarrow> s < word_end b s"
  unfolding word_end_def by (subst drop_chr) simp_all

lemma gettoken_bounds:
  assumes "s \<le> length b" "gettoken b s = (t, q, eq, s')"
  shows "s \<le> q" "q \<le> eq" "eq \<le> s'" "s' \<le> length b" "t \<noteq> 0 \<Longrightarrow> q < eq"
proof -
  have q: "q = skip_ws b s" "s' = skip_ws b eq" using assms(2) by (auto simp: gettoken_def Let_def split: prod.splits)
  have w: "chr b q \<notin> set whitespace" unfolding q by (rule skip_ws_stop [OF assms(1)])
  have ql: "q \<le> length b" unfolding q by (rule skip_ws_le [OF assms(1)])
  have "q \<le> eq \<and> eq \<le> length b \<and> (t \<noteq> 0 \<longrightarrow> q < eq)"
  proof (cases "chr b q = 0")
    case True
    then show ?thesis using assms(2) q ql by (auto simp: gettoken_def Let_def)
  next
    case False
    then have "q < length b" by (rule chr_nz)
    then show ?thesis
      using assms(2) False q(1) w word_end_gt [of q b] word_end_le [of q b] chr_nz [of b "q + 1"]
      by (auto simp: gettoken_def Let_def symbols_def split: if_splits)
  qed
  then show "s \<le> q" "q \<le> eq" "eq \<le> s'" "s' \<le> length b" "t \<noteq> 0 \<Longrightarrow> q < eq"
    using q skip_ws_le [of eq b] by auto
qed

lemma peek_bounds:
  assumes "s \<le> length b" "peek b s toks = (r, s')"
  shows "s \<le> s'" "s' \<le> length b"
  using assms skip_ws_le [OF assms(1)] by (auto simp: peek_def Let_def)

lemma skip_tok_gt:
  assumes "s \<le> length b" "chr b (skip_ws b s) \<noteq> 0"
  shows "s < skip_tok b s" "skip_tok b s \<le> length b"
proof -
  obtain t q eq s' where g: "gettoken b s = (t, q, eq, s')" by (metis prod_cases4)
  have "t \<noteq> 0" using g assms(2) by (auto simp: gettoken_def Let_def split: if_splits)
  then show "s < skip_tok b s" "skip_tok b s \<le> length b"
    using gettoken_bounds [OF assms(1) g] g by (simp_all add: skip_tok_def)
qed

lemma skip_ws_idem: "s \<le> length b \<Longrightarrow> skip_ws b (skip_ws b s) = skip_ws b s"
proof (cases "skip_ws b s < length b")
  case True
  then show "s \<le> length b \<Longrightarrow> ?thesis" using skip_ws_stop [of s b] drop_chr [OF True] by (simp add: skip_ws_def [of b "skip_ws b s"])
qed (simp add: skip_ws_def [of b "skip_ws b s"])

lemma peek_True:
  assumes "peek b s toks = (True, s')"
  shows "s \<le> s'" "s' < length b" "s' < skip_tok b s'" "skip_tok b s' \<le> length b" "skip_ws b s' = s'" "chr b s' \<in> set toks"
proof -
  have p: "s' = skip_ws b s" "chr b s' \<noteq> 0" "chr b s' \<in> set toks" using assms by (auto simp: peek_def Let_def)
  show le: "s \<le> s'" "s' < length b" using p chr_nz [of b s'] by auto
  then have "s \<le> length b" by simp
  then have "skip_ws b s' = s'" using skip_ws_idem [of s b] p(1) by simp
  then show "s' < skip_tok b s'" "skip_tok b s' \<le> length b" "skip_ws b s' = s'" "chr b s' \<in> set toks"
    using skip_tok_gt [of s' b] le p by auto
qed

lemma peek_progress:
  assumes "(True, s') = peek b s toks"
  shows "s < skip_tok b s'" "s < length b" "length b - skip_tok b s' < length b - s"
  using peek_True [OF assms [symmetric]] by auto

section \<open>Parser\<close>

function back_loop :: "byte list \<Rightarrow> span cmd \<Rightarrow> nat \<Rightarrow> span cmd \<times> nat" where
  "back_loop b c s =
     (case peek b s [38] of
        (True, s) \<Rightarrow> back_loop b (BACK c) (skip_tok b s)
      | (False, s) \<Rightarrow> (c, s))"
  by pat_completeness auto
termination
  by (relation "measure (\<lambda>(b, c, s). length b - s)") (auto dest: peek_progress(3))

definition redir :: "byte \<Rightarrow> span cmd \<Rightarrow> span \<Rightarrow> span cmd" where
  "redir tok c w = (if tok = 60 then REDIR c w O_RDONLY 0 else REDIR c w O_WRONLY_CREATE 1)"

function parseredirs :: "byte list \<Rightarrow> span cmd \<Rightarrow> nat \<Rightarrow> (span cmd \<times> nat) res" where
  "parseredirs b c s =
     (case peek b s [60, 62] of
        (False, s) \<Rightarrow> Inr (c, s)
      | (True, s) \<Rightarrow>
          (case gettoken b s of (tok, _, _, s) \<Rightarrow>
           case gettoken b s of (t, q, eq, s) \<Rightarrow>
             if t \<noteq> 97 then Inl (Panic ''missing file for redirection'')
             else parseredirs b (redir tok c (q, eq)) s))"
  by pat_completeness auto
termination
proof (relation "measure (\<lambda>(b, c, s). length b - s)")
  fix b :: "byte list" and c :: "span cmd" and s r s1 tok x1 y1 x2 z1 s2 t y2 q z2 eq s3
  assume p: "(r, s1) = peek b s [60, 62]" "r = True" and "(tok, y1) = gettoken b s1" "(x1, z1) = y1" "(x2, s2) = z1"
    and "(t, y2) = gettoken b s2" "(q, z2) = y2" "(eq, s3) = z2"
  then have g: "gettoken b s1 = (tok, x1, x2, s2)" "gettoken b s2 = (t, q, eq, s3)" by simp_all
  have t: "peek b s [60, 62] = (True, s1)" using p by simp
  have "s1 < s2" "s2 \<le> length b" using peek_True(3,4) [OF t] g(1) by (simp_all add: skip_tok_def)
  then show "((b, redir tok c (q, eq), s3), b, c, s) \<in> measure (\<lambda>(b, c, s). length b - s)"
    using peek_True(1,2) [OF t] gettoken_bounds [OF _ g(2)] by simp
qed simp

function args_loop :: "byte list \<Rightarrow> span cmd \<Rightarrow> nat \<Rightarrow> nat \<Rightarrow> (span cmd \<times> nat) res" where
  "args_loop b ret argc s =
     (case peek b s [124, 41, 38, 59] of
        (True, s) \<Rightarrow> Inr (ret, s)
      | (False, s) \<Rightarrow>
          (case gettoken b s of (tok, q, eq, s) \<Rightarrow>
             if tok = 0 then Inr (ret, s)
             else if tok \<noteq> 97 then Inl (Panic ''syntax'')
             else if argc + 1 \<ge> MAXARGS then Inl (Panic ''too many args'')
             else res_bind (parseredirs b (put_arg (q, eq) ret) s) (\<lambda>(ret, s). args_loop b ret (argc + 1) s)))"
  by pat_completeness auto
termination
  by (relation "measure (\<lambda>(b, ret, argc, s). MAXARGS - argc)") auto

declare back_loop.simps [simp del] parseredirs.simps [simp del] args_loop.simps [simp del]

fun parseline :: "nat \<Rightarrow> byte list \<Rightarrow> nat \<Rightarrow> (span cmd \<times> nat) res option"
  and parsepipe :: "nat \<Rightarrow> byte list \<Rightarrow> nat \<Rightarrow> (span cmd \<times> nat) res option"
  and parseexec :: "nat \<Rightarrow> byte list \<Rightarrow> nat \<Rightarrow> (span cmd \<times> nat) res option"
  and parseblock :: "nat \<Rightarrow> byte list \<Rightarrow> nat \<Rightarrow> (span cmd \<times> nat) res option" where
  "parseline 0 b s = None"
| "parseline (Suc n) b s =
     ro_bind (parsepipe n b s) (\<lambda>(cmd, s).
       case back_loop b cmd s of (cmd, s) \<Rightarrow>
       case peek b s [59] of
         (True, s) \<Rightarrow> ro_bind (parseline n b (skip_tok b s)) (\<lambda>(right, s). Some (Inr (LIST cmd right, s)))
       | (False, s) \<Rightarrow> Some (Inr (cmd, s)))"
| "parsepipe 0 b s = None"
| "parsepipe (Suc n) b s =
     ro_bind (parseexec n b s) (\<lambda>(cmd, s).
       case peek b s [124] of
         (True, s) \<Rightarrow> ro_bind (parsepipe n b (skip_tok b s)) (\<lambda>(right, s). Some (Inr (PIPE cmd right, s)))
       | (False, s) \<Rightarrow> Some (Inr (cmd, s)))"
| "parseexec 0 b s = None"
| "parseexec (Suc n) b s =
     (case peek b s [40] of
        (True, s) \<Rightarrow> parseblock n b s
      | (False, s) \<Rightarrow> Some (res_bind (parseredirs b (EXEC []) s) (\<lambda>(ret, s). args_loop b ret 0 s)))"
| "parseblock 0 b s = None"
| "parseblock (Suc n) b s =
     (case peek b s [40] of
        (False, s) \<Rightarrow> Some (Inl (Panic ''parseblock''))
      | (True, s) \<Rightarrow>
          ro_bind (parseline n b (skip_tok b s)) (\<lambda>(cmd, s).
            case peek b s [41] of
              (False, s) \<Rightarrow> Some (Inl (Panic ''syntax - missing )''))
            | (True, s) \<Rightarrow> Some (parseredirs b cmd (skip_tok b s))))"

text \<open>\<open>nulterminate\<close> on the bytes of the line with its NUL.\<close>

primrec nulterminate :: "span cmd \<Rightarrow> byte list \<Rightarrow> byte list" where
  "nulterminate (EXEC as) m = fold (\<lambda>(q, eq) m. m[eq := 0]) as m"
| "nulterminate (REDIR c f mode fd) m = (nulterminate c m)[snd f := 0]"
| "nulterminate (PIPE c d) m = nulterminate d (nulterminate c m)"
| "nulterminate (LIST c d) m = nulterminate d (nulterminate c m)"
| "nulterminate (BACK c) m = nulterminate c m"

definition parse_fuel :: "byte list \<Rightarrow> nat" where
  "parse_fuel b = 4 * length b + 4"

text \<open>The result: the command, and the bytes its words point into.\<close>

definition parsecmd :: "byte list \<Rightarrow> (span cmd \<times> byte list) res option" where
  "parsecmd b =
     ro_bind (parseline (parse_fuel b) b 0) (\<lambda>(cmd, s).
       case peek b s [] of (_, s) \<Rightarrow>
         Some (if s \<noteq> length b then Inl (Panic ''syntax'') else Inr (cmd, nulterminate cmd (b @ [0]))))"


section \<open>Words of a command\<close>

definition wordc :: "byte \<Rightarrow> bool" where
  "wordc c \<longleftrightarrow> c \<noteq> 0 \<and> c \<notin> set whitespace \<and> c \<notin> set symbols"

text \<open>A word runs up to the first byte that cannot belong to it.\<close>

definition word_span :: "byte list \<Rightarrow> span \<Rightarrow> bool" where
  "word_span b w \<longleftrightarrow> fst w < snd w \<and> snd w \<le> length b \<and> (\<forall>i \<in> {fst w..<snd w}. wordc (chr b i)) \<and> \<not> wordc (chr b (snd w))"

definition apart :: "span \<Rightarrow> span \<Rightarrow> bool" where
  "apart v w \<longleftrightarrow> v = w \<or> snd v \<le> fst w \<or> snd w \<le> fst v"

definition within :: "byte list \<Rightarrow> nat \<Rightarrow> nat \<Rightarrow> span set \<Rightarrow> bool" where
  "within b lo hi A \<longleftrightarrow> (\<forall>w \<in> A. word_span b w \<and> lo \<le> fst w \<and> snd w \<le> hi) \<and> (\<forall>v \<in> A. \<forall>w \<in> A. apart v w)"

lemma within_mono: "within b lo hi A \<Longrightarrow> B \<subseteq> A \<Longrightarrow> lo' \<le> lo \<Longrightarrow> hi \<le> hi' \<Longrightarrow> within b lo' hi' B"
  unfolding within_def by (meson le_trans subsetD)

lemma within_Un:
  assumes "within b lo mid A" "within b mid' hi B" "mid \<le> mid'" "lo \<le> mid'" "mid \<le> hi"
  shows "within b lo hi (A \<union> B)"
proof -
  have "snd v \<le> fst w" if "v \<in> A" "w \<in> B" for v w using assms that unfolding within_def by (meson le_trans)
  then have "apart v w" if "v \<in> A \<union> B" "w \<in> A \<union> B" for v w
    using that assms(1,2) unfolding within_def apart_def by blast
  then show ?thesis using assms unfolding within_def by (meson Un_iff le_trans)
qed

lemma within_single: "word_span b w \<Longrightarrow> within b (fst w) (snd w) {w}"
  by (simp add: within_def apart_def)

lemma within_insert:
  assumes "within b lo mid A" "word_span b w" "mid \<le> fst w" "lo \<le> fst w"
  shows "within b lo (snd w) (insert w A)"
  using within_Un [OF assms(1) within_single [OF assms(2)] assms(3,4)] assms(2,3) by (simp add: word_span_def)

lemma chr_member: "0 \<notin> set b \<Longrightarrow> i < length b \<Longrightarrow> chr b i \<noteq> 0"
  by (auto simp: chr_def in_set_conv_nth)

lemma gettoken_word:
  assumes b: "0 \<notin> set b" "s \<le> length b" and g: "gettoken b s = (97, q, eq, s')"
  shows "word_span b (q, eq)"
proof -
  have e: "eq = word_end b q" using g by (auto simp: gettoken_def Let_def split: if_splits)
  let ?P = "\<lambda>c. c \<notin> set whitespace \<and> c \<notin> set symbols"
  define n where "n = length (takeWhile ?P (drop q b))"
  have eq: "eq = q + n" using e by (simp add: word_end_def n_def)
  have l: "q < eq" "eq \<le> length b" using gettoken_bounds [OF b(2) g] by auto
  have "wordc (chr b i)" if i: "q \<le> i" "i < eq" for i
  proof -
    have k: "i - q < length (takeWhile ?P (drop q b))" using i eq unfolding n_def [symmetric] by simp
    have "?P (drop q b ! (i - q))" using set_takeWhileD [OF nth_mem [OF k]] takeWhile_nth [OF k] by simp
    then show ?thesis using i l chr_member [OF b(1), of i] by (simp add: wordc_def chr_def)
  qed
  moreover have "\<not> wordc (chr b eq)"
  proof (cases "eq < length b")
    case True
    then have "n < length (drop q b)" using eq l by simp
    then show ?thesis using nth_length_takeWhile [of ?P "drop q b"] True eq l by (auto simp: n_def [symmetric] wordc_def chr_def)
  qed (simp add: wordc_def chr_def)
  ultimately show ?thesis using l by (simp add: word_span_def)
qed

section \<open>The parser stays within the line\<close>

lemma back_loop_bounds:
  "s \<le> length b \<Longrightarrow> back_loop b c s = (c', s') \<Longrightarrow> s \<le> s' \<and> s' \<le> length b \<and> set_cmd c' = set_cmd c"
proof (induction b c s rule: back_loop.induct)
  case (1 b c s)
  obtain r s1 where p: "peek b s [38] = (r, s1)" by (cases "peek b s [38]")
  show ?case
  proof (cases r)
    case True
    then have t: "peek b s [38] = (True, s1)" using p by simp
    have "s1 \<le> s' \<and> s' \<le> length b \<and> set_cmd c' = set_cmd (BACK c)"
      using 1(1) [OF t [symmetric]] 1(3) peek_True [OF t] t by (auto simp: back_loop.simps [of b c s])
    then show ?thesis using peek_True(1) [OF t] by auto
  next
    case False
    then show ?thesis using 1(2,3) p peek_bounds [OF 1(2) p] by (simp add: back_loop.simps [of b c s])
  qed
qed

lemma set_redir: "set_cmd (redir tok c w) = insert w (set_cmd c)"
  by (simp add: redir_def)

lemma parseredirs_bounds:
  assumes "0 \<notin> set b"
  shows "s \<le> length b \<Longrightarrow> lo \<le> s \<Longrightarrow> within b lo s (set_cmd c) \<Longrightarrow> parseredirs b c s = Inr (c', s') \<Longrightarrow>
    s \<le> s' \<and> s' \<le> length b \<and> within b lo s' (set_cmd c')"
  using assms
proof (induction b c s rule: parseredirs.induct)
  case (1 b c s)
  obtain r s1 where p: "peek b s [60, 62] = (r, s1)" by (cases "peek b s [60, 62]")
  show ?case
  proof (cases r)
    case False
    then show ?thesis using 1(4,5) p peek_bounds [OF 1(2) p] within_mono [of b lo s "set_cmd c" "set_cmd c'" lo s1]
      by (simp add: parseredirs.simps [of b c s])
  next
    case True
    then have t: "peek b s [60, 62] = (True, s1)" using p by simp
    obtain tok x1 x2 s2 where g: "gettoken b s1 = (tok, x1, x2, s2)" by (metis prod_cases4)
    obtain t2 q eq s3 where h: "gettoken b s2 = (t2, q, eq, s3)" by (metis prod_cases4)
    have a: "t2 = 97" and r: "parseredirs b (redir tok c (q, eq)) s3 = Inr (c', s')"
      using 1(5) t g h by (auto simp: parseredirs.simps [of b c s] split: if_splits)
    have s2: "s1 < s2" "s2 \<le> length b" using peek_True(3,4) [OF t] g by (simp_all add: skip_tok_def)
    note hb = gettoken_bounds [OF s2(2) h]
    have w: "word_span b (q, eq)" using gettoken_word [OF 1(6) s2(2)] h a by simp
    have "within b lo eq (insert (q, eq) (set_cmd c))"
      using within_insert [OF 1(4) w] peek_True(1) [OF t] s2 hb(1) 1(3) by simp
    then have w3: "within b lo s3 (set_cmd (redir tok c (q, eq)))"
      unfolding set_redir using within_mono [of b lo eq] hb(3) by blast
    have s3: "s \<le> s3" "lo \<le> s3" using peek_True(1) [OF t] s2 hb(1,2,3) 1(3) by auto
    have "s3 \<le> s' \<and> s' \<le> length b \<and> within b lo s' (set_cmd c')"
      using 1(1) [OF t [symmetric] _ g [symmetric] _ _ h [symmetric]] w3 s3 a r hb(4) 1(6) by auto
    then show ?thesis using s3 by auto
  qed
qed

lemma set_put_arg: "set_cmd (put_arg a c) \<subseteq> insert a (set_cmd c)"
  by (induction c) auto

lemma args_loop_bounds:
  assumes "0 \<notin> set b"
  shows "s \<le> length b \<Longrightarrow> lo \<le> s \<Longrightarrow> within b lo s (set_cmd c) \<Longrightarrow> args_loop b c n s = Inr (c', s') \<Longrightarrow>
    s \<le> s' \<and> s' \<le> length b \<and> within b lo s' (set_cmd c')"
  using assms
proof (induction b c n s rule: args_loop.induct)
  case (1 b c n s)
  obtain r s1 where p: "peek b s [124, 41, 38, 59] = (r, s1)" by (cases "peek b s [124, 41, 38, 59]")
  note pb = peek_bounds [OF 1(2) p]
  have w1: "within b lo s1 (set_cmd c)" using within_mono [OF 1(4) order_refl order_refl pb(1)] .
  show ?case
  proof (cases r)
    case True
    then show ?thesis using 1(5) p pb w1 by (simp add: args_loop.simps [of b c n s])
  next
    case False
    obtain tok q eq s2 where g: "gettoken b s1 = (tok, q, eq, s2)" by (metis prod_cases4)
    note gb = gettoken_bounds [OF pb(2) g]
    have e: "args_loop b c n s = (if tok = 0 then Inr (c, s2) else if tok \<noteq> 97 then Inl (Panic ''syntax'')
        else if n + 1 \<ge> MAXARGS then Inl (Panic ''too many args'')
        else res_bind (parseredirs b (put_arg (q, eq) c) s2) (\<lambda>(c, s). args_loop b c (n + 1) s))"
      using p False g by (simp add: args_loop.simps [of b c n s])
    have s2: "s \<le> s2" "lo \<le> s2" using pb gb 1(3) by auto
    show ?thesis
    proof (cases "tok = 0")
      case True
      then show ?thesis using e 1(5) gb s2 within_mono [OF w1 order_refl order_refl, of s2] by auto
    next
      case nz: False
      then obtain c3 s3 where tok: "tok = 97" "\<not> n + 1 \<ge> MAXARGS" and r: "parseredirs b (put_arg (q, eq) c) s2 = Inr (c3, s3)"
        and l: "args_loop b c3 (n + 1) s3 = Inr (c', s')"
        using 1(5) unfolding e by (auto simp: res_simps split: if_splits)
      have w: "word_span b (q, eq)" using gettoken_word [OF 1(6) pb(2)] g tok by simp
      have "within b lo eq (insert (q, eq) (set_cmd c))" using within_insert [OF w1 w] gb(1) pb 1(3) by simp
      then have "within b lo s2 (set_cmd (put_arg (q, eq) c))" by (rule within_mono [OF _ set_put_arg order_refl gb(3)])
      then have r3: "s2 \<le> s3 \<and> s3 \<le> length b \<and> within b lo s3 (set_cmd c3)" using parseredirs_bounds [OF 1(6) gb(4) s2(2) _ r] by simp
      have "s3 \<le> s' \<and> s' \<le> length b \<and> within b lo s' (set_cmd c')"
        using 1(1) [OF p [symmetric] _ g [symmetric]] False nz tok r l r3 s2 1(6) by auto
      then show ?thesis using r3 s2 by auto
    qed
  qed
qed

text \<open>What every parsing function leaves.\<close>

definition parsed :: "byte list \<Rightarrow> nat \<Rightarrow> (span cmd \<times> nat) res option \<Rightarrow> bool" where
  "parsed b s r \<longleftrightarrow> (\<forall>c s'. r = Some (Inr (c, s')) \<longrightarrow> s \<le> s' \<and> s' \<le> length b \<and> within b s s' (set_cmd c))"

lemma ro_bind_Some: "ro_bind m f = Some (Inr y) \<longleftrightarrow> (\<exists>x. m = Some (Inr x) \<and> f x = Some (Inr y))"
  by (auto simp: ro_bind_def split: option.splits sum.splits)

lemma parsed_exec:
  assumes "0 \<notin> set b" "s \<le> length b"
  shows "parsed b s (Some (res_bind (parseredirs b (EXEC []) s) (\<lambda>(ret, s). args_loop b ret 0 s)))"
proof -
  have w: "within b s s (set_cmd (EXEC [] :: span cmd))" by (simp add: within_def)
  have "s \<le> s2 \<and> s2 \<le> length b \<and> within b s s2 (set_cmd c2)"
    if r: "parseredirs b (EXEC []) s = Inr (c1, s1)" "args_loop b c1 0 s1 = Inr (c2, s2)" for c1 s1 c2 s2
    using parseredirs_bounds [OF assms order_refl w r(1)] args_loop_bounds [OF assms(1) _ _ _ r(2), of s] by auto
  then show ?thesis by (auto simp: parsed_def res_simps)
qed

lemma parsed_mono: "parsed b s r \<Longrightarrow> s0 \<le> s \<Longrightarrow> parsed b s0 r"
  unfolding parsed_def by (auto intro: within_mono [of b s _ _ _ s0])

lemma parsed_bind:
  assumes "parsed b s m" "\<And>c s1. s \<le> s1 \<Longrightarrow> s1 \<le> length b \<Longrightarrow> within b s s1 (set_cmd c) \<Longrightarrow> parsed b s (f (c, s1))"
  shows "parsed b s (ro_bind m f)"
  unfolding parsed_def
proof (intro allI impI)
  fix c s'
  assume "ro_bind m f = Some (Inr (c, s'))"
  then obtain c1 s1 where m: "m = Some (Inr (c1, s1))" and f: "f (c1, s1) = Some (Inr (c, s'))" unfolding ro_bind_Some by auto
  have "parsed b s (f (c1, s1))" using assms(1) m by (intro assms(2)) (auto simp: parsed_def)
  then show "s \<le> s' \<and> s' \<le> length b \<and> within b s s' (set_cmd c)" using f by (simp add: parsed_def)
qed

lemma parsed_ret:
  assumes "within b s s1 (set_cmd c)" "s \<le> s1" "s1 \<le> s2" "s2 \<le> length b" "s0 \<le> s"
  shows "parsed b s0 (Some (Inr (c, s2)))"
  using within_mono [OF assms(1) order_refl assms(5,3)] assms by (simp add: parsed_def)

lemma parsed_two:
  assumes "within b s s1 (set_cmd c)" "s \<le> s1" "s1 \<le> s2" "parsed b s2 m" "\<And>d. set_cmd (op c d) = set_cmd c \<union> set_cmd d"
  shows "parsed b s (ro_bind m (\<lambda>(d, s3). Some (Inr (op c d, s3))))"
proof -
  have "parsed b s (Some (Inr (op c d, s3)))" if m: "m = Some (Inr (d, s3))" for d s3
  proof -
    have d: "s2 \<le> s3" "s3 \<le> length b" "within b s2 s3 (set_cmd d)" using assms(4) m by (simp_all add: parsed_def)
    show ?thesis using within_Un [OF assms(1) d(3) assms(3)] d assms by (simp add: parsed_def)
  qed
  then show ?thesis unfolding parsed_def ro_bind_Some by fastforce
qed

lemma parse_within:
  assumes b: "0 \<notin> set b"
  shows "s \<le> length b \<Longrightarrow> parsed b s (parseline n b s)" "s \<le> length b \<Longrightarrow> parsed b s (parsepipe n b s)"
    "s \<le> length b \<Longrightarrow> parsed b s (parseexec n b s)" "s \<le> length b \<Longrightarrow> parsed b s (parseblock n b s)"
proof (induction n arbitrary: s)
  case (Suc n)
  { case 1
    have "parsed b s (case back_loop b c s1 of (c, s) \<Rightarrow> case peek b s [59] of
         (True, s) \<Rightarrow> ro_bind (parseline n b (skip_tok b s)) (\<lambda>(right, s). Some (Inr (LIST c right, s)))
       | (False, s) \<Rightarrow> Some (Inr (c, s)))"
      if c: "s \<le> s1" "s1 \<le> length b" "within b s s1 (set_cmd c)" for c s1
    proof -
      obtain c2 s2 where k: "back_loop b c s1 = (c2, s2)" by (cases "back_loop b c s1")
      have k2: "s1 \<le> s2" "s2 \<le> length b" "set_cmd c2 = set_cmd c" using back_loop_bounds [OF c(2) k] by auto
      have w2: "within b s s2 (set_cmd c2)" using within_mono [OF c(3) _ order_refl k2(1)] k2(3) by simp
      obtain r s3 where p: "peek b s2 [59] = (r, s3)" by (cases "peek b s2 [59]")
      show ?thesis
      proof (cases r)
        case True
        then have t: "peek b s2 [59] = (True, s3)" using p by simp
        have "s2 \<le> skip_tok b s3" "skip_tok b s3 \<le> length b" using peek_True [OF t] by auto
        then show ?thesis using k t parsed_two [OF w2 _ _ Suc.IH(1), of "skip_tok b s3" LIST] c(1) k2 by simp
      next
        case False
        then show ?thesis using k p parsed_ret [OF w2 _ peek_bounds(1,2) [OF k2(2) p]] c(1) k2 by simp
      qed
    qed
    then show ?case using parsed_bind [OF Suc.IH(2) [OF 1]] by simp
  next
    case 2
    have "parsed b s (case peek b s1 [124] of
         (True, s) \<Rightarrow> ro_bind (parsepipe n b (skip_tok b s)) (\<lambda>(right, s). Some (Inr (PIPE c right, s)))
       | (False, s) \<Rightarrow> Some (Inr (c, s)))"
      if c: "s \<le> s1" "s1 \<le> length b" "within b s s1 (set_cmd c)" for c s1
    proof -
      obtain r s3 where p: "peek b s1 [124] = (r, s3)" by (cases "peek b s1 [124]")
      show ?thesis
      proof (cases r)
        case True
        then have t: "peek b s1 [124] = (True, s3)" using p by simp
        have "s1 \<le> skip_tok b s3" "skip_tok b s3 \<le> length b" using peek_True [OF t] by auto
        then show ?thesis using t parsed_two [OF c(3) _ _ Suc.IH(2), of "skip_tok b s3" PIPE] c by simp
      next
        case False
        then show ?thesis using p parsed_ret [OF c(3) _ peek_bounds(1,2) [OF c(2) p]] c by simp
      qed
    qed
    then show ?case using parsed_bind [OF Suc.IH(3) [OF 2]] by simp
  next
    case 3
    obtain r s1 where p: "peek b s [40] = (r, s1)" by (cases "peek b s [40]")
    note pb = peek_bounds [OF 3 p]
    have "parsed b s1 (parseexec (Suc n) b s)" using p Suc.IH(4) [OF pb(2)] parsed_exec [OF b pb(2)] by (cases r) simp_all
    then show ?case using parsed_mono pb(1) by blast
  next
    case 4
    obtain r s1 where p: "peek b s [40] = (r, s1)" by (cases "peek b s [40]")
    show ?case
    proof (cases r)
      case True
      then have t: "peek b s [40] = (True, s1)" using p by simp
      define s2 where "s2 = skip_tok b s1"
      have s2: "s \<le> s2" "s2 \<le> length b" using peek_True [OF t] by (auto simp: s2_def)
      have "parsed b s2 (case peek b s3 [41] of (False, s) \<Rightarrow> Some (Inl (Panic ''syntax - missing )''))
            | (True, s) \<Rightarrow> Some (parseredirs b c (skip_tok b s)))"
        if c: "s2 \<le> s3" "s3 \<le> length b" "within b s2 s3 (set_cmd c)" for c s3
      proof -
        obtain r s4 where p: "peek b s3 [41] = (r, s4)" by (cases "peek b s3 [41]")
        show ?thesis
        proof (cases r)
          case True
          then have t: "peek b s3 [41] = (True, s4)" using p by simp
          have s5: "s3 \<le> skip_tok b s4" "skip_tok b s4 \<le> length b" using peek_True [OF t] by auto
          have w: "within b s2 (skip_tok b s4) (set_cmd c)" using within_mono [OF c(3) order_refl order_refl s5(1)] .
          show ?thesis using t parseredirs_bounds [OF b s5(2) _ w] s5 c(1) by (fastforce simp: parsed_def)
        qed (use p in \<open>simp add: parsed_def\<close>)
      qed
      then have "parsed b s2 (parseblock (Suc n) b s)" using parsed_bind [OF Suc.IH(1) [OF s2(2)]] t s2_def by simp
      then show ?thesis using parsed_mono s2(1) by blast
    qed (use p in \<open>simp add: parsed_def\<close>)
  }
qed (simp_all add: parsed_def)


section \<open>The parser returns\<close>

definition fueled :: "byte list \<Rightarrow> nat \<Rightarrow> nat \<Rightarrow> nat \<Rightarrow> bool" where
  "fueled b s k n \<longleftrightarrow> s \<le> length b \<and> 4 * (length b - s) + k \<le> n"

lemma fueled_less: "fueled b s k n \<Longrightarrow> s < s' \<Longrightarrow> s' \<le> length b \<Longrightarrow> k' \<le> k + 4 \<Longrightarrow> fueled b s' k' n"
  by (auto simp: fueled_def)

lemma ro_bind_None: "ro_bind m f = None \<longleftrightarrow> m = None \<or> (\<exists>x. m = Some (Inr x) \<and> f x = None)"
  by (auto simp: ro_bind_def split: option.splits sum.splits)

definition failed :: "'a res option \<Rightarrow> bool" where
  "failed r \<longleftrightarrow> (\<forall>x. r \<noteq> Some (Inr x))"

lemma failed_simps [simp]: "failed None" "failed (Some (Inl e))" "\<not> failed (Some (Inr x))"
  by (simp_all add: failed_def)

lemma ro_bind_ret_fails: "ro_bind m (\<lambda>(d, s). Some (Inr (g d s))) = r \<Longrightarrow> failed r \<Longrightarrow> m = r"
  by (auto simp: ro_bind_def split: option.splits sum.splits)

lemma ro_bind_fails:
  assumes "ro_bind m f = r" "failed r"
  shows "m = r \<or> (\<exists>x. m = Some (Inr x) \<and> f x = r)"
  using assms by (auto simp: ro_bind_def split: option.splits sum.splits)

text \<open>Where a failure of a list or a pipe comes from.\<close>

lemma parseline_fails:
  assumes "parseline (Suc n) b s = r" "failed r"
  shows "parsepipe n b s = r \<or> (\<exists>c s1 c2 s2 s3. parsepipe n b s = Some (Inr (c, s1)) \<and> back_loop b c s1 = (c2, s2) \<and>
    peek b s2 [59] = (True, s3) \<and> parseline n b (skip_tok b s3) = r)"
proof (cases "parsepipe n b s = r")
  case False
  then obtain c s1 where c: "parsepipe n b s = Some (Inr (c, s1))" using ro_bind_fails [OF assms(1) [unfolded parseline.simps] assms(2)] by auto
  obtain c2 s2 where k: "back_loop b c s1 = (c2, s2)" by (cases "back_loop b c s1")
  obtain q s3 where p: "peek b s2 [59] = (q, s3)" by (cases "peek b s2 [59]")
  have q: "q" using assms c k p by (cases q) (auto simp: ro_bind_def)
  then have "ro_bind (parseline n b (skip_tok b s3)) (\<lambda>(right, s). Some (Inr (LIST c2 right, s))) = r"
    using assms(1) c k p by (simp add: ro_bind_def [of "Some _"])
  then have "parseline n b (skip_tok b s3) = r" by (rule ro_bind_ret_fails [OF _ assms(2)])
  moreover have "peek b s2 [59] = (True, s3)" using p q by simp
  ultimately show ?thesis using c k by blast
qed simp

lemma parsepipe_fails:
  assumes "parsepipe (Suc n) b s = r" "failed r"
  shows "parseexec n b s = r \<or> (\<exists>c s1 s3. parseexec n b s = Some (Inr (c, s1)) \<and>
    peek b s1 [124] = (True, s3) \<and> parsepipe n b (skip_tok b s3) = r)"
proof (cases "parseexec n b s = r")
  case False
  then obtain c s1 where c: "parseexec n b s = Some (Inr (c, s1))" using ro_bind_fails [OF assms(1) [unfolded parsepipe.simps] assms(2)] by auto
  obtain q s3 where p: "peek b s1 [124] = (q, s3)" by (cases "peek b s1 [124]")
  have q: "q" using assms c p by (cases q) (auto simp: ro_bind_def)
  then have "ro_bind (parsepipe n b (skip_tok b s3)) (\<lambda>(right, s). Some (Inr (PIPE c right, s))) = r"
    using assms(1) c p by (simp add: ro_bind_def [of "Some _"])
  then have "parsepipe n b (skip_tok b s3) = r" by (rule ro_bind_ret_fails [OF _ assms(2)])
  moreover have "peek b s1 [124] = (True, s3)" using p q by simp
  ultimately show ?thesis using c by blast
qed simp

lemma parse_returns:
  assumes b: "0 \<notin> set b"
  shows "fueled b s 4 n \<Longrightarrow> parseline n b s \<noteq> None" "fueled b s 3 n \<Longrightarrow> parsepipe n b s \<noteq> None"
    "fueled b s 2 n \<Longrightarrow> parseexec n b s \<noteq> None" "fueled b s 1 n \<Longrightarrow> parseblock n b s \<noteq> None"
proof (induction n arbitrary: s)
  case (Suc n)
  { case 1
    then have f: "fueled b s 3 n" and l: "s \<le> length b" by (auto simp: fueled_def)
    have "parsepipe n b s \<noteq> None" by (rule Suc.IH(2) [OF f])
    moreover have "parseline n b (skip_tok b s3) \<noteq> None"
      if x: "parsepipe n b s = Some (Inr (c, s1))" "back_loop b c s1 = (c2, s2)" "peek b s2 [59] = (True, s3)" for c s1 c2 s2 s3
    proof -
      have "s \<le> s1" "s1 \<le> length b" using parse_within(2) [OF b l, of n] x(1) by (auto simp: parsed_def)
      moreover have "s1 \<le> s2" "s2 \<le> length b" using back_loop_bounds [OF _ x(2)] calculation by auto
      ultimately show ?thesis using fueled_less [OF f, of "skip_tok b s3" 4] peek_True [OF x(3)] by (intro Suc.IH(1)) auto
    qed
    ultimately show ?case using parseline_fails [of n b s None, OF _ failed_simps(1)] by metis
  next
    case 2
    then have f: "fueled b s 2 n" and l: "s \<le> length b" by (auto simp: fueled_def)
    have "parseexec n b s \<noteq> None" by (rule Suc.IH(3) [OF f])
    moreover have "parsepipe n b (skip_tok b s3) \<noteq> None"
      if x: "parseexec n b s = Some (Inr (c, s1))" "peek b s1 [124] = (True, s3)" for c s1 s3
    proof -
      have "s \<le> s1" "s1 \<le> length b" using parse_within(3) [OF b l, of n] x(1) by (auto simp: parsed_def)
      then show ?thesis using fueled_less [OF f, of "skip_tok b s3" 3] peek_True [OF x(2)] by (intro Suc.IH(2)) auto
    qed
    ultimately show ?case using parsepipe_fails [of n b s None, OF _ failed_simps(1)] by metis
  next
    case 3
    obtain r s1 where p: "peek b s [40] = (r, s1)" by (cases "peek b s [40]")
    have "fueled b s1 1 n" using 3 peek_bounds [OF _ p] by (auto simp: fueled_def)
    then show ?case using p Suc.IH(4) [of s1] by (cases r) simp_all
  next
    case 4
    obtain r s1 where p: "peek b s [40] = (r, s1)" by (cases "peek b s [40]")
    show ?case
    proof (cases r)
      case True
      then have t: "peek b s [40] = (True, s1)" using p by simp
      have "fueled b s 0 n" using 4 by (simp add: fueled_def)
      then have "parseline n b (skip_tok b s1) \<noteq> None" using fueled_less [of b s 0 n "skip_tok b s1" 4] peek_True [OF t] by (intro Suc.IH(1)) auto
      moreover have "(case x of (c, s) \<Rightarrow> case peek b s [41] of (False, s) \<Rightarrow> Some (Inl (Panic ''syntax - missing )''))
          | (True, s) \<Rightarrow> Some (parseredirs b c (skip_tok b s))) \<noteq> None" for x
        by (cases x, cases "peek b (snd x) [41]", cases "fst (peek b (snd x) [41])") simp_all
      ultimately show ?thesis using t unfolding parseblock.simps ro_bind_None by (simp only: prod.case bool.case ro_bind_None) blast
    qed (use p in simp)
  }
qed (simp_all add: fueled_def)

text \<open>The messages of the parser; that of \<open>parseblock\<close> is none of them, because \<open>parseexec\<close> has looked.\<close>

definition parse_errors :: "kerror set" where
  "parse_errors = Panic ` {''syntax'', ''too many args'', ''missing file for redirection'', ''syntax - missing )''}"

lemma parseredirs_error: "parseredirs b c s = Inl e \<Longrightarrow> e \<in> parse_errors"
proof (induction b c s rule: parseredirs.induct)
  case (1 b c s)
  obtain r s1 where p: "peek b s [60, 62] = (r, s1)" by (cases "peek b s [60, 62]")
  obtain tok x1 x2 s2 where g: "gettoken b s1 = (tok, x1, x2, s2)" by (metis prod_cases4)
  obtain t2 q eq s3 where h: "gettoken b s2 = (t2, q, eq, s3)" by (metis prod_cases4)
  show ?case
  proof (cases "r \<and> t2 = 97")
    case True
    then show ?thesis using 1(1) [OF p [symmetric] _ g [symmetric] _ _ h [symmetric]] 1(2) p g h
      by (auto simp: parseredirs.simps [of b c s])
  next
    case False
    then show ?thesis using 1(2) p g h by (cases r) (auto simp: parseredirs.simps [of b c s] parse_errors_def)
  qed
qed

lemma args_loop_error: "args_loop b c n s = Inl e \<Longrightarrow> e \<in> parse_errors"
proof (induction b c n s rule: args_loop.induct)
  case (1 b c n s)
  obtain r s1 where p: "peek b s [124, 41, 38, 59] = (r, s1)" by (cases "peek b s [124, 41, 38, 59]")
  obtain tok q eq s2 where g: "gettoken b s1 = (tok, q, eq, s2)" by (metis prod_cases4)
  show ?case
  proof (cases "\<not> r \<and> tok = 97 \<and> \<not> n + 1 \<ge> MAXARGS")
    case True
    then have e: "args_loop b c n s = res_bind (parseredirs b (put_arg (q, eq) c) s2) (\<lambda>(c, s). args_loop b c (n + 1) s)"
      using p g by (simp add: args_loop.simps [of b c n s])
    show ?thesis
    proof (cases "parseredirs b (put_arg (q, eq) c) s2")
      case (Inl f)
      then show ?thesis using e 1(2) parseredirs_error [OF Inl] by simp
    next
      case (Inr x)
      then show ?thesis using e 1 p g True by (cases x) auto
    qed
  next
    case False
    then show ?thesis using 1(2) p g by (cases r) (auto simp: args_loop.simps [of b c n s] parse_errors_def split: if_splits)
  qed
qed

lemma peek_again: "peek b s toks = (True, s1) \<Longrightarrow> peek b s1 toks = (True, s1)"
  using peek_True(5) [of b s toks s1] by (auto simp: peek_def Let_def)

lemma ro_bind_Inl: "ro_bind m f = Some (Inl e) \<longleftrightarrow> m = Some (Inl e) \<or> (\<exists>x. m = Some (Inr x) \<and> f x = Some (Inl e))"
  by (auto simp: ro_bind_def split: option.splits sum.splits)

lemma parse_error:
  "parseline n b s = Some (Inl e) \<Longrightarrow> e \<in> parse_errors" "parsepipe n b s = Some (Inl e) \<Longrightarrow> e \<in> parse_errors"
  "parseexec n b s = Some (Inl e) \<Longrightarrow> e \<in> parse_errors"
  "parseblock n b s = Some (Inl e) \<Longrightarrow> peek b s [40] = (True, s) \<Longrightarrow> e \<in> parse_errors"
proof (induction n arbitrary: s)
  case (Suc n)
  { case 1
    then show ?case using parseline_fails [of n b s "Some (Inl e)", OF _ failed_simps(2)] Suc.IH(1,2) by blast
  next
    case 2
    then show ?case using parsepipe_fails [of n b s "Some (Inl e)", OF _ failed_simps(2)] Suc.IH(2,3) by blast
  next
    case 3
    obtain r s1 where p: "peek b s [40] = (r, s1)" by (cases "peek b s [40]")
    then show ?case using 3 Suc.IH(4) [of s1] peek_again [of b s "[40]" s1] parseredirs_error args_loop_error
      by (cases r) (auto simp: res_simps)
  next
    case 4
    have e: "ro_bind (parseline n b (skip_tok b s)) (\<lambda>(cmd, s). case peek b s [41] of
        (False, s) \<Rightarrow> Some (Inl (Panic ''syntax - missing )'')) | (True, s) \<Rightarrow> Some (parseredirs b cmd (skip_tok b s))) = Some (Inl e)"
      using 4 by simp
    show ?case
    proof (cases "parseline n b (skip_tok b s) = Some (Inl e)")
      case False
      then obtain c s1 where "parseline n b (skip_tok b s) = Some (Inr (c, s1))" using ro_bind_fails [OF e] by auto
      moreover obtain r s2 where "peek b s1 [41] = (r, s2)" by (cases "peek b s1 [41]")
      ultimately show ?thesis using e parseredirs_error [of b c "skip_tok b s2" e] by (cases r) (auto simp: ro_bind_def parse_errors_def)
    qed (rule Suc.IH(1))
  }
qed simp_all

text \<open>C19: Parsing a command line always returns: with the fuel \<open>parsecmd\<close> takes, the parser yields a command or one of four error
  messages on every line, whatever the nesting of parentheses, pipes and lists.\<close>

theorem parsecmd_total:
  assumes "0 \<notin> set b"
  shows "(\<exists>c m. parsecmd b = Some (Inr (c, m))) \<or> (\<exists>e \<in> parse_errors. parsecmd b = Some (Inl e))"
proof (cases "parseline (parse_fuel b) b 0")
  case None
  then show ?thesis using parse_returns(1) [OF assms, of 0 "parse_fuel b"] by (simp add: fueled_def parse_fuel_def)
next
  case (Some r)
  show ?thesis
  proof (cases r)
    case (Inl e)
    then show ?thesis using Some parse_error(1) [of "parse_fuel b" b 0 e] by (auto simp: parsecmd_def ro_bind_def)
  next
    case (Inr x)
    then show ?thesis using Some
      by (cases x) (auto simp: parsecmd_def ro_bind_def parse_errors_def split: prod.splits)
  qed
qed


section \<open>The words after nulterminate\<close>

lemma length_nulterminate [simp]: "length (nulterminate c m) = length m"
proof (induction c arbitrary: m)
  case (EXEC as)
  have "length (fold (\<lambda>(q, eq) m. m[eq := 0 :: byte]) as m) = length m" by (induction as arbitrary: m) auto
  then show ?case by simp
qed simp_all

lemma nth_nulterminate:
  "i < length m \<Longrightarrow> nulterminate c m ! i = (if i \<in> snd ` set_cmd c then 0 else m ! i)"
proof (induction c arbitrary: m)
  case (EXEC as)
  have "i < length m \<Longrightarrow> fold (\<lambda>(q, eq) m. m[eq := 0 :: byte]) as m ! i = (if i \<in> snd ` set as then 0 else m ! i)"
    by (induction as arbitrary: m) (simp, force simp: nth_list_update)
  then show ?case using EXEC by simp
next
  case (REDIR c f mode fd)
  then show ?case by (cases "i = snd f") (simp_all add: nth_list_update)
qed (simp_all add: image_Un)

text \<open>The C string that starts at a position.\<close>

definition cstr :: "byte list \<Rightarrow> nat \<Rightarrow> byte list" where
  "cstr m q = takeWhile (\<lambda>c. c \<noteq> 0) (drop q m)"

lemma takeWhile_slice:
  assumes "q < e" "e < length m" "m ! e = 0" "\<forall>i \<in> {q..<e}. m ! i \<noteq> 0"
  shows "cstr m q = slice q (e - q) m"
proof -
  have "drop q m = slice q (e - q) m @ m ! e # drop (Suc e) m"
    using append_take_drop_id [of "e - q" "drop q m"] assms(1,2) by (simp add: slice_def Cons_nth_drop_Suc)
  moreover have "\<forall>c \<in> set (slice q (e - q) m). c \<noteq> 0" using assms(2,4) by (auto simp: in_set_conv_nth)
  ultimately show ?thesis using assms(3) by (simp add: cstr_def takeWhile_append)
qed

lemma nulterminate_words:
  assumes w: "within b lo hi (set_cmd c)" and v: "(q, e) \<in> set_cmd c" and m: "m = nulterminate c (b @ [0])"
  shows "q < e" "e \<le> length b" "cstr m q = slice q (e - q) b" "\<forall>x \<in> set (slice q (e - q) b). wordc x"
proof -
  have s: "word_span b (q, e)" using w v by (auto simp: within_def)
  then show qe: "q < e" "e \<le> length b" by (simp_all add: word_span_def)
  have free: "i \<notin> snd ` set_cmd c" if i: "q \<le> i" "i < e" for i
  proof
    assume "i \<in> snd ` set_cmd c"
    then obtain q' where v': "(q', i) \<in> set_cmd c" by auto
    then have "\<not> wordc (chr b i)" using w by (auto simp: within_def word_span_def)
    then show False using s i by (auto simp: word_span_def)
  qed
  have keep: "m ! i = b ! i" if "q \<le> i" "i < e" for i using free [OF that] that qe m by (simp add: nth_nulterminate nth_append)
  have wc: "wordc (b ! i)" if "q \<le> i" "i < e" for i using s that qe by (auto simp: word_span_def chr_def)
  have z: "m ! e = 0" using v qe m by (force simp: nth_nulterminate)
  have sl: "slice q (e - q) m = slice q (e - q) b" using keep qe m by (intro nth_equalityI) auto
  have "\<forall>i \<in> {q..<e}. m ! i \<noteq> 0" using keep wc by (auto simp: wordc_def)
  then show "cstr m q = slice q (e - q) b" using takeWhile_slice [of q e m] qe m z sl by simp
  show "\<forall>x \<in> set (slice q (e - q) b). wordc x" using wc qe by (auto simp: in_set_conv_nth)
qed

text \<open>C18: After parsing, every word of the command is the C string it should be: for each argument and file name, the string that
  starts at its first byte in the line with the NULs written in is exactly the run of word characters the scanner found,
  and it is not empty. No NUL of one word falls into another, because between two words there is always a byte that
  belongs to neither.\<close>

theorem parsecmd_words:
  assumes b: "0 \<notin> set b" and p: "parsecmd b = Some (Inr (c, m))"
  shows "length m = Suc (length b) \<and> (\<forall>(q, e) \<in> set_cmd c. q < e \<and> e \<le> length b \<and> cstr m q = slice q (e - q) b \<and>
    (\<forall>x \<in> set (slice q (e - q) b). wordc x))"
proof -
  obtain s' where l: "parseline (parse_fuel b) b 0 = Some (Inr (c, s'))" and m: "m = nulterminate c (b @ [0])"
    using p unfolding parsecmd_def ro_bind_Some by (auto simp: peek_def Let_def split: if_splits)
  have w: "within b 0 s' (set_cmd c)" using parse_within(1) [OF b, of 0 "parse_fuel b"] l by (simp add: parsed_def)
  then show ?thesis using nulterminate_words [OF w _ m] m by auto
qed

text \<open>The line \<open>a|b<c\<close>.\<close>

definition sh_ex :: "byte list" where
  "sh_ex = [97, 124, 98, 60, 99]"

lemma sh_ex_parse: "parsecmd sh_ex = Some (Inr (PIPE (EXEC [(0, 1)]) (REDIR (EXEC [(2, 3)]) (4, 5) O_RDONLY 0), [97, 0, 98, 0, 99, 0]))"
  by code_simp

theorem parsecmd_total_witness: "(\<exists>c m. parsecmd sh_ex = Some (Inr (c, m))) \<or> (\<exists>e \<in> parse_errors. parsecmd sh_ex = Some (Inl e))"
  using parsecmd_total [of sh_ex] by (simp add: sh_ex_def)

theorem parsecmd_words_witness: "cstr [97, 0, 98, 0, 99, 0] 2 = slice 2 1 sh_ex"
  using parsecmd_words [OF _ sh_ex_parse] by (simp add: sh_ex_def)

end
