(* ===== verification/Sh_Run.thy ===== *)
theory Sh_Run
  imports Sh
begin

text \<open>
  \<open>runcmd\<close>, \<open>fork1\<close> and one turn of \<open>main\<close> of \<open>user/sh.c\<close>. A process is its table of descriptors; \<open>open\<close>, \<open>dup\<close> and \<open>pipe\<close> use
  the lowest free ones, as \<open>fdalloc\<close> of the kernel does. Which calls succeed is an argument. The result are the events of the
  command: the programs started, each with its table, and the messages printed on descriptor 2; events of processes that
  run at the same time are listed in the order of their forks. \<open>wiring\<close> is the reference: what standard input and output
  each program of a command line is meant to have.
\<close>

section \<open>Descriptors\<close>

datatype obj = Inherited nat | Path "byte list" nat | Pipe_read nat | Pipe_write nat

type_synonym fds = "nat \<Rightarrow> obj option"

definition NOFILE :: nat where "NOFILE = 16"

definition fd_alloc :: "fds \<Rightarrow> nat option" where
  "fd_alloc t = find (\<lambda>i. t i = None) [0..<NOFILE]"

definition sh_close :: "nat \<Rightarrow> fds \<Rightarrow> fds" where
  "sh_close n t = t(n := None)"

definition sh_install :: "obj \<Rightarrow> fds \<Rightarrow> nat option \<times> fds" where
  "sh_install x t = (case fd_alloc t of None \<Rightarrow> (None, t) | Some k \<Rightarrow> (Some k, t(k \<mapsto> x)))"

definition sh_dup :: "nat \<Rightarrow> fds \<Rightarrow> fds" where
  "sh_dup n t = (case t n of None \<Rightarrow> t | Some x \<Rightarrow> snd (sh_install x t))"

text \<open>\<open>pipe\<close> gives two descriptors or fails and leaves the table as it was.\<close>

definition sh_pipe :: "nat \<Rightarrow> fds \<Rightarrow> (nat \<times> nat \<times> fds) option" where
  "sh_pipe np t =
     (case sh_install (Pipe_read np) t of
        (None, _) \<Rightarrow> None
      | (Some p0, t1) \<Rightarrow> (case sh_install (Pipe_write np) t1 of (None, _) \<Rightarrow> None | (Some p1, t2) \<Rightarrow> Some (p0, p1, t2)))"

section \<open>Running a command\<close>

text \<open>Which system calls succeed: the calls of \<open>fork\<close> and \<open>pipe\<close> are numbered.\<close>

record os =
  open_ok :: "byte list \<Rightarrow> nat \<Rightarrow> bool"
  exec_ok :: "byte list list \<Rightarrow> bool"
  fork_ok :: "nat \<Rightarrow> bool"
  pipe_ok :: "nat \<Rightarrow> bool"

datatype message = Exec_failed "byte list" | Open_failed "byte list" | Panicked string

datatype event = Started "byte list list" fds | Printed "obj option" message

text \<open>\<open>panic\<close> prints its message and exits.\<close>

definition sh_panic :: "string \<Rightarrow> fds \<Rightarrow> event list" where
  "sh_panic msg t = [Printed (t 2) (Panicked msg)]"

text \<open>\<open>np\<close> is the number of the next call of \<open>fork\<close> or \<open>pipe\<close>; a pipe is named by the number of its call. A process whose
  \<open>fork\<close> fails panics; the children it has started go on.\<close>

primrec runcmd :: "os \<Rightarrow> byte list cmd \<Rightarrow> fds \<Rightarrow> nat \<Rightarrow> event list \<times> nat" where
  "runcmd e (EXEC argv) t np =
     (case argv of
        [] \<Rightarrow> ([], np)
      | a # _ \<Rightarrow> if exec_ok e argv then ([Started argv t], np) else ([Printed (t 2) (Exec_failed a)], np))"
| "runcmd e (REDIR c f mode fd) t np =
     (let t = sh_close fd t
      in case (if open_ok e f mode then sh_install (Path f mode) t else (None, t)) of
           (None, t) \<Rightarrow> ([Printed (t 2) (Open_failed f)], np)
         | (Some _, t) \<Rightarrow> runcmd e c t np)"
| "runcmd e (LIST l r) t np =
     (if \<not> fork_ok e np then (sh_panic ''fork'' t, Suc np)
      else case runcmd e l t (Suc np) of (xs, np) \<Rightarrow> case runcmd e r t np of (ys, np) \<Rightarrow> (xs @ ys, np))"
| "runcmd e (PIPE l r) t np =
     (case (if pipe_ok e np then sh_pipe np t else None) of
        None \<Rightarrow> (sh_panic ''pipe'' t, Suc np)
      | Some (p0, p1, t) \<Rightarrow>
          if \<not> fork_ok e (np + 1) then (sh_panic ''fork'' t, np + 2)
          else case runcmd e l (sh_close p1 (sh_close p0 (sh_dup p1 (sh_close 1 t)))) (np + 2) of (xs, np) \<Rightarrow>
               if \<not> fork_ok e np then (xs @ sh_panic ''fork'' t, Suc np)
               else case runcmd e r (sh_close p1 (sh_close p0 (sh_dup p0 (sh_close 0 t)))) (Suc np) of (ys, np) \<Rightarrow> (xs @ ys, np))"
| "runcmd e (BACK c) t np = (if \<not> fork_ok e np then (sh_panic ''fork'' t, Suc np) else runcmd e c t (Suc np))"

text \<open>The command the child runs: its words are the strings at their positions in the line.\<close>

definition words_of :: "byte list \<Rightarrow> span cmd \<Rightarrow> byte list cmd" where
  "words_of m c = map_cmd (\<lambda>w. cstr m (fst w)) c"

text \<open>One turn of the loop of \<open>main\<close> on the line \<open>getcmd\<close> left in the buffer; \<open>cd\<close> is followed by a blank.\<close>

datatype turn = Quit | Chdir "byte list" | Child "event list" | Stuck

definition sh_turn :: "os \<Rightarrow> byte list \<Rightarrow> fds \<Rightarrow> nat \<Rightarrow> turn" where
  "sh_turn e line t np =
     (if line = [] then Quit
      else if chr line 0 = 99 \<and> chr line 1 = 100 \<and> chr line 2 = 32 then Chdir (drop 3 (butlast line))
      else if \<not> fork_ok e np then Child (sh_panic ''fork'' t)
      else case parsecmd line of
             None \<Rightarrow> Stuck
           | Some (Inl (Panic msg)) \<Rightarrow> Child (sh_panic msg t)
           | Some (Inl _) \<Rightarrow> Stuck
           | Some (Inr (c, m)) \<Rightarrow> Child (fst (runcmd e (words_of m c) t (Suc np))))"

lemma fd_alloc_free: "fd_alloc t = Some k \<Longrightarrow> k < NOFILE \<and> t k = None \<and> (\<forall>i < k. t i \<noteq> None)"
  by (auto simp: fd_alloc_def find_Some_iff)

lemma sh_install_free: "sh_install x t = (Some k, t') \<Longrightarrow> fd_alloc t = Some k \<and> t' = t(k \<mapsto> x)"
  by (auto simp: sh_install_def split: option.splits)

text \<open>The loop at the start of \<open>main\<close>: \<open>open("console")\<close> until the descriptor is 3 or more; every turn fills a free descriptor; \<open>ok\<close> says whether opening succeeds.\<close>

function open_console :: "bool \<Rightarrow> obj \<Rightarrow> fds \<Rightarrow> fds" where
  "open_console ok x t =
     (if \<not> ok then t
      else case sh_install x t of
             (None, t) \<Rightarrow> t
           | (Some fd, t) \<Rightarrow> if fd \<ge> 3 then sh_close fd t else open_console ok x t)"
  by pat_completeness auto

termination
proof (relation "measure (\<lambda>(ok, x, t). card {i. i < NOFILE \<and> t i = None})")
  fix ok x and t t' :: fds and r fd
  assume "(r, t') = sh_install x t" "r = Some fd"
  then have i: "fd < NOFILE" "t fd = None" "t' = t(fd \<mapsto> x)" using sh_install_free [of x t fd t'] fd_alloc_free [of t fd] by auto
  have "card {i. i < NOFILE \<and> t' i = None} < card {i. i < NOFILE \<and> t i = None}" using i by (intro psubset_card_mono) auto
  then show "((ok, x, t'), ok, x, t) \<in> measure (\<lambda>(ok, x, t). card {i. i < NOFILE \<and> t i = None})" by simp
qed simp

declare open_console.simps [simp del]

lemma open_console_std: "ok \<Longrightarrow> i < 3 \<Longrightarrow> open_console ok x t i \<noteq> None"
proof (induction ok x t rule: open_console.induct)
  case (1 ok x t)
  obtain r t' where s: "sh_install x t = (r, t')" by (cases "sh_install x t")
  show ?case
  proof (cases r)
    case None
    then have "t' = t" "\<forall>j < NOFILE. t j \<noteq> None" using s by (auto simp: sh_install_def fd_alloc_def find_None_iff split: option.splits)
    moreover have "open_console ok x t = t'" using 1(2) s None by (subst open_console.simps) simp
    ultimately show ?thesis using 1(3) by (simp add: NOFILE_def)
  next
    case (Some fd)
    have f: "\<forall>j < fd. t j \<noteq> None" "t' = t(fd \<mapsto> x)" using s Some sh_install_free [of x t fd t'] fd_alloc_free [of t fd] by auto
    show ?thesis
    proof (cases "fd \<ge> 3")
      case True
      then show ?thesis using 1(2,3) s Some f by (subst open_console.simps) (simp add: sh_close_def)
    next
      case False
      then show ?thesis using 1(1) [OF _ s [symmetric] Some False] 1(2,3) s Some by (subst open_console.simps) simp
    qed
  qed
qed

section \<open>The wiring of a command line\<close>

text \<open>A process with the three standard descriptors and no other.\<close>

definition std :: "obj \<Rightarrow> obj \<Rightarrow> obj \<Rightarrow> fds" where
  "std i o' e' = [0 \<mapsto> i, 1 \<mapsto> o', 2 \<mapsto> e']"

primrec wiring :: "os \<Rightarrow> byte list cmd \<Rightarrow> obj \<Rightarrow> obj \<Rightarrow> obj \<Rightarrow> nat \<Rightarrow> event list \<times> nat" where
  "wiring e (EXEC argv) i o' e' np =
     (if argv = [] then ([], np)
      else if exec_ok e argv then ([Started argv (std i o' e')], np) else ([Printed (Some e') (Exec_failed (hd argv))], np))"
| "wiring e (REDIR c f mode fd) i o' e' np =
     (if \<not> open_ok e f mode then ([Printed (Some e') (Open_failed f)], np)
      else if fd = 0 then wiring e c (Path f mode) o' e' np else wiring e c i (Path f mode) e' np)"
| "wiring e (LIST l r) i o' e' np =
     (if fork_ok e np then let (xs, n1) = wiring e l i o' e' (Suc np); (ys, n2) = wiring e r i o' e' n1 in (xs @ ys, n2)
      else ([Printed (Some e') (Panicked ''fork'')], Suc np))"
| "wiring e (PIPE l r) i o' e' np =
     (if \<not> pipe_ok e np then ([Printed (Some e') (Panicked ''pipe'')], Suc np)
      else if \<not> fork_ok e (Suc np) then ([Printed (Some e') (Panicked ''fork'')], np + 2)
      else let (xs, n1) = wiring e l i (Pipe_write np) e' (np + 2)
           in if fork_ok e n1 then let (ys, n2) = wiring e r (Pipe_read np) o' e' (Suc n1) in (xs @ ys, n2)
              else (xs @ [Printed (Some e') (Panicked ''fork'')], Suc n1))"
| "wiring e (BACK c) i o' e' np =
     (if fork_ok e np then wiring e c i o' e' (Suc np) else ([Printed (Some e') (Panicked ''fork'')], Suc np))"

text \<open>Redirections as the parser builds them.\<close>

primrec redirs_ok :: "'w cmd \<Rightarrow> bool" where
  "redirs_ok (EXEC as) \<longleftrightarrow> True"
| "redirs_ok (REDIR c f mode fd) \<longleftrightarrow> redirs_ok c \<and> (fd = 0 \<and> mode = O_RDONLY \<or> fd = 1 \<and> mode = O_WRONLY_CREATE)"
| "redirs_ok (PIPE c d) \<longleftrightarrow> redirs_ok c \<and> redirs_ok d"
| "redirs_ok (LIST c d) \<longleftrightarrow> redirs_ok c \<and> redirs_ok d"
| "redirs_ok (BACK c) \<longleftrightarrow> redirs_ok c"


lemma NOFILE_upt: "[0..<NOFILE] = [0, 1, 2, 3, 4, 5, 6, 7, 8, 9, 10, 11, 12, 13, 14, 15]"
  by (simp add: NOFILE_def upt_rec)

lemma std_simps [simp]:
  "std i o' e' 0 = Some i" "std i o' e' (Suc 0) = Some o'" "std i o' e' 2 = Some e'" "n > 2 \<Longrightarrow> std i o' e' n = None"
  by (simp_all add: std_def)

lemma std_redirect:
  "sh_install x (sh_close 0 (std i o' e')) = (Some 0, std x o' e')"
  "sh_install x (sh_close (Suc 0) (std i o' e')) = (Some 1, std i x e')"
  by (auto simp: sh_install_def sh_close_def fd_alloc_def NOFILE_upt std_def fun_eq_iff)

lemma std_pipe: "sh_pipe np (std i o' e') = Some (3, 4, (std i o' e')(3 \<mapsto> Pipe_read np, 4 \<mapsto> Pipe_write np))"
  by (simp add: sh_pipe_def sh_install_def fd_alloc_def NOFILE_upt)

lemma std_pipe_ends:
  fixes i o' e' np
  defines "t \<equiv> (std i o' e')(3 \<mapsto> Pipe_read np, 4 \<mapsto> Pipe_write np)"
  shows "sh_close 4 (sh_close 3 (sh_dup 4 (sh_close (Suc 0) t))) = std i (Pipe_write np) e'"
    "sh_close 4 (sh_close 3 (sh_dup 3 (sh_close 0 t))) = std (Pipe_read np) o' e'"
  by (auto simp: t_def sh_dup_def sh_install_def sh_close_def fd_alloc_def NOFILE_upt std_def fun_eq_iff)

lemma runcmd_std:
  assumes "redirs_ok c"
  shows "runcmd e c (std i o' e') np = wiring e c i o' e' np"
  using assms
proof (induction c arbitrary: i o' np)
  case (EXEC argv)
  then show ?case by (cases argv) simp_all
next
  case (REDIR c f mode fd)
  then show ?case by (auto simp: std_redirect) (simp_all add: sh_close_def)
next
  case (PIPE l r)
  then show ?case by (simp add: std_pipe std_pipe_ends sh_panic_def Let_def split: prod.split)
qed (simp_all add: sh_panic_def)



end
