(* ===== verification/Sh_Print.thy ===== *)
theory Sh_Print
  imports Sh_Run
begin

text \<open>
  What the parser of \<open>user/sh.c\<close> accepts and how it reads it: the tokens that stand for a command, with parentheses where the
  grammar needs them; the texts that spell a list of tokens, with white space wherever it may be; and the proof that
  \<open>parsecmd\<close> reads every such text as that command. So pipes, background marks, lists, parentheses and redirections have the
  structure they are meant to have.
\<close>

section \<open>Tokens of a command\<close>

datatype token = W "byte list" | S byte

text \<open>The level is that of the parsing function the text is meant for: 0 a line, 1 a line before its \<open>;\<close>, 2 a pipe, 3 a simple command
  or block.\<close>

definition paren :: "bool \<Rightarrow> token list \<Rightarrow> token list" where
  "paren p ts = (if p then [S 40] @ ts @ [S 41] else ts)"

primrec pr :: "nat \<Rightarrow> byte list cmd \<Rightarrow> token list" where
  "pr k (EXEC argv) = map W argv"
| "pr k (REDIR c f mode fd) = pr 3 c @ [S (if fd = 0 then 60 else 62), W f]"
| "pr k (PIPE c d) = paren (k > 2) (pr 3 c @ [S 124] @ pr 2 d)"
| "pr k (BACK c) = paren (k > 1) (pr 1 c @ [S 38])"
| "pr k (LIST c d) = paren (k > 0) (pr 1 c @ [S 59] @ pr 0 d)"

text \<open>What the parser can produce: at most nine arguments, words that are not empty.\<close>

definition word_ok :: "byte list \<Rightarrow> bool" where
  "word_ok w \<longleftrightarrow> w \<noteq> [] \<and> (\<forall>c \<in> set w. wordc c)"

primrec cmd_ok :: "byte list cmd \<Rightarrow> bool" where
  "cmd_ok (EXEC argv) \<longleftrightarrow> length argv < MAXARGS \<and> (\<forall>w \<in> set argv. word_ok w)"
| "cmd_ok (REDIR c f mode fd) \<longleftrightarrow> cmd_ok c \<and> word_ok f \<and> (fd = 0 \<and> mode = O_RDONLY \<or> fd = 1 \<and> mode = O_WRONLY_CREATE)"
| "cmd_ok (PIPE c d) \<longleftrightarrow> cmd_ok c \<and> cmd_ok d"
| "cmd_ok (BACK c) \<longleftrightarrow> cmd_ok c"
| "cmd_ok (LIST c d) \<longleftrightarrow> cmd_ok c \<and> cmd_ok d"

section \<open>Texts that spell tokens\<close>

text \<open>A word and the next token need white space between them only if the next is a word, and \<open>>\<close> only before another \<open>>\<close>.\<close>

inductive spells :: "token list \<Rightarrow> byte list \<Rightarrow> bool" where
  End: "spells [] []"
| Word: "word_ok w \<Longrightarrow> set ws \<subseteq> set whitespace \<Longrightarrow> ws \<noteq> [] \<or> r = [] \<or> hd r \<in> set symbols \<Longrightarrow> spells ts r \<Longrightarrow>
    spells (W w # ts) (w @ ws @ r)"
| Symbol: "c \<in> set symbols \<Longrightarrow> set ws \<subseteq> set whitespace \<Longrightarrow> c \<noteq> 62 \<or> ws \<noteq> [] \<or> r = [] \<or> hd r \<noteq> 62 \<Longrightarrow> spells ts r \<Longrightarrow>
    spells (S c # ts) (c # ws @ r)"

inductive_cases spells_EndE: "spells [] r"
inductive_cases spells_WordE: "spells (W w # ts) r"
inductive_cases spells_SymbolE: "spells (S c # ts) r"

lemma spells_WordD: "spells (W w # ts) x \<Longrightarrow>
    \<exists>ws r. x = w @ ws @ r \<and> word_ok w \<and> set ws \<subseteq> set whitespace \<and> spells ts r \<and> (ws \<noteq> [] \<or> r = [] \<or> hd r \<in> set symbols)"
  by (blast elim: spells_WordE)

lemma spells_SymbolD: "spells (S c # ts) x \<Longrightarrow>
    \<exists>ws r. x = c # ws @ r \<and> c \<in> set symbols \<and> set ws \<subseteq> set whitespace \<and> spells ts r \<and> (c \<noteq> 62 \<or> ws \<noteq> [] \<or> r = [] \<or> hd r \<noteq> 62)"
  by (blast elim: spells_SymbolE)

text \<open>At \<open>s\<close>, the rest of the line spells \<open>ts\<close>.\<close>

definition at :: "byte list \<Rightarrow> nat \<Rightarrow> token list \<Rightarrow> bool" where
  "at b s ts \<longleftrightarrow> s \<le> length b \<and> spells ts (drop s b)"

lemma wordc_not: "wordc c \<Longrightarrow> c \<notin> set whitespace \<and> c \<notin> set symbols \<and> c \<noteq> 0"
  by (simp add: wordc_def)

lemma symbol_not: "c \<in> set symbols \<Longrightarrow> c \<notin> set whitespace \<and> c \<noteq> 0 \<and> c \<noteq> 97"
  by (auto simp: symbols_def whitespace_def)

lemma spells_first:
  assumes "spells (t # ts) r"
  shows "\<exists>x xs. r = x # xs \<and> x \<notin> set whitespace \<and> x \<noteq> 0 \<and> (case t of W w \<Rightarrow> wordc x | S c \<Rightarrow> x = c)"
proof (cases t)
  case (W w)
  then obtain ws r' where r: "r = w @ ws @ r'" "word_ok w" using assms by (blast elim: spells_WordE)
  then obtain y ys where "w = y # ys" "wordc y" by (cases w) (auto simp: word_ok_def)
  then show ?thesis using W r wordc_not [of y] by simp
next
  case (S c)
  then show ?thesis using assms symbol_not [of c] by (auto elim: spells_SymbolE)
qed

lemma spells_not_ws: "spells ts r \<Longrightarrow> r = [] \<or> hd r \<notin> set whitespace"
  using spells_first by (cases ts) (auto elim: spells_EndE, fastforce)

lemma spells_no_NUL: "spells ts r \<Longrightarrow> 0 \<notin> set r"
proof (induction rule: spells.induct)
  case (Word w ws r ts)
  then show ?case by (auto simp: word_ok_def wordc_def whitespace_def)
next
  case (Symbol c ws r ts)
  then show ?case by (auto simp: symbols_def whitespace_def)
qed simp

lemma skip_ws_over:
  assumes "drop s b = ws @ r" "set ws \<subseteq> set whitespace" "r = [] \<or> hd r \<notin> set whitespace"
  shows "skip_ws b s = s + length ws"
proof -
  have "takeWhile (\<lambda>c. c \<in> set whitespace) (ws @ r) = ws"
    using assms(2,3) by (cases r) (auto simp: takeWhile_append subset_iff)
  then show ?thesis using assms(1) by (simp add: skip_ws_def)
qed

lemma skip_ws_text: "at b s ts \<Longrightarrow> skip_ws b s = s"
  using skip_ws_over [of s b "[]" "drop s b"] spells_not_ws [of ts "drop s b"] by (simp add: at_def)

lemma chr_drop: "s \<le> length b \<Longrightarrow> chr b s = (case drop s b of [] \<Rightarrow> 0 | x # xs \<Rightarrow> x)"
  by (cases "s < length b") (simp_all add: drop_chr, simp add: chr_def)

lemma drop_prefix: "drop s b = xs @ ys \<Longrightarrow> drop (s + length xs) b = ys"
  by (metis append_eq_conv_conj add.commute drop_drop)

lemma at_after:
  assumes "drop s b = xs @ ys" "s \<le> length b" "spells ts ys"
  shows "at b (s + length xs) ts"
proof -
  have "length xs \<le> length b - s" using arg_cong [OF assms(1), of length] by simp
  then show ?thesis using drop_prefix [OF assms(1)] assms(2,3) by (simp add: at_def)
qed

text \<open>The tokens the parser asks for.\<close>

definition starts :: "byte list \<Rightarrow> token list \<Rightarrow> bool" where
  "starts toks ts \<longleftrightarrow> (case ts of S c # _ \<Rightarrow> c \<in> set toks | _ \<Rightarrow> False)"

lemma peek_at:
  assumes "at b s ts" "set toks \<subseteq> set symbols"
  shows "peek b s toks = (starts toks ts, s)"
proof (cases ts)
  case Nil
  then have "chr b s = 0" using assms by (auto simp: at_def chr_drop elim: spells_EndE)
  then show ?thesis using skip_ws_text [OF assms(1)] Nil by (simp add: peek_def starts_def)
next
  case (Cons t us)
  have "spells (t # us) (drop s b)" using assms(1) Cons by (simp add: at_def)
  from spells_first [OF this] obtain x xs where x: "drop s b = x # xs" "x \<noteq> 0" "case t of W w \<Rightarrow> wordc x | S c \<Rightarrow> x = c" by blast
  have "chr b s = x" using assms(1) x by (simp add: at_def chr_drop)
  then show ?thesis using skip_ws_text [OF assms(1)] Cons x assms(2) wordc_not [of x]
    by (cases t) (auto simp: peek_def starts_def)
qed

lemma gettoken_symbol:
  assumes "at b s (S c # ts)"
  shows "\<exists>s'. gettoken b s = (c, s, s + 1, s') \<and> skip_tok b s = s' \<and> s < s' \<and> at b s' ts"
proof -
  have "spells (S c # ts) (drop s b)" using assms by (simp add: at_def)
  from spells_SymbolD [OF this] obtain ws r where d: "drop s b = c # ws @ r" "c \<in> set symbols" "set ws \<subseteq> set whitespace" "spells ts r"
    and n: "c \<noteq> 62 \<or> ws \<noteq> [] \<or> r = [] \<or> hd r \<noteq> 62" by blast
  have l: "s < length b" using d(1) by (metis drop_all leI list.distinct(1))
  have d1: "drop (s + 1) b = ws @ r" using drop_prefix [of s b "[c]" "ws @ r"] d(1) by simp
  have e: "skip_ws b (s + 1) = s + 1 + length ws" by (rule skip_ws_over [OF d1 d(3) spells_not_ws [OF d(4)]])
  have a: "at b (s + 1 + length ws) ts" by (rule at_after [OF d1 _ d(4)]) (use l in simp)
  have c: "chr b s = c" using d(1) l by (simp add: chr_drop)
  have "chr b (s + 1) \<noteq> 62" if "c = 62"
  proof (cases ws)
    case Nil
    then show ?thesis using n that l d1 by (cases r) (auto simp: chr_drop)
  next
    case (Cons y ys)
    then show ?thesis using d(3) l d1 by (auto simp: chr_drop whitespace_def)
  qed
  then have "gettoken b s = (c, s, s + 1, s + 1 + length ws)"
    using skip_ws_text [OF assms] e c d(2) by (auto simp: gettoken_def symbols_def)
  then show ?thesis using a by (simp add: skip_tok_def)
qed

lemma gettoken_text_word:
  assumes "at b s (W w # ts)"
  shows "\<exists>s'. gettoken b s = (97, s, s + length w, s') \<and> s < s' \<and> at b s' ts \<and> slice s (length w) b = w"
proof -
  have "spells (W w # ts) (drop s b)" using assms by (simp add: at_def)
  from spells_WordD [OF this] obtain ws r where d: "drop s b = w @ ws @ r" "word_ok w" "set ws \<subseteq> set whitespace" "spells ts r"
    and n: "ws \<noteq> [] \<or> r = [] \<or> hd r \<in> set symbols" by blast
  let ?P = "\<lambda>c. c \<notin> set whitespace \<and> c \<notin> set symbols"
  have w: "w \<noteq> []" "\<forall>c \<in> set w. wordc c" using d(2) by (simp_all add: word_ok_def)
  have l: "s + length w \<le> length b" using arg_cong [OF d(1), of length] w(1) by (cases "s \<le> length b") auto
  have "takeWhile ?P (ws @ r) = []" using n d(3) by (cases ws; cases r) auto
  then have e: "word_end b s = s + length w" unfolding word_end_def d(1) using w(2) by (simp add: takeWhile_append wordc_def)
  have c: "wordc (chr b s)" using d(1) w l by (cases w) (simp_all add: chr_drop)
  have d1: "drop (s + length w) b = ws @ r" by (rule drop_prefix [OF d(1)])
  have k: "skip_ws b (s + length w) = s + length w + length ws" by (rule skip_ws_over [OF d1 d(3) spells_not_ws [OF d(4)]])
  have a: "at b (s + length w + length ws) ts" by (rule at_after [OF d1 l d(4)])
  have "gettoken b s = (97, s, s + length w, s + length w + length ws)"
    using skip_ws_text [OF assms] e k c by (auto simp: gettoken_def Let_def wordc_def symbols_def)
  then show ?thesis using a w(1) d(1) by (simp add: slice_def)
qed

section \<open>The parser on such texts\<close>

definition txt_of :: "byte list \<Rightarrow> span \<Rightarrow> byte list" where
  "txt_of b w = slice (fst w) (snd w - fst w) b"

abbreviation read_cmd :: "byte list \<Rightarrow> span cmd \<Rightarrow> byte list cmd" where
  "read_cmd b \<equiv> map_cmd (txt_of b)"

text \<open>Redirections behind a command, \<open>True\<close> for input.\<close>

definition rtoks :: "(bool \<times> byte list) list \<Rightarrow> token list" where
  "rtoks rs = concat (map (\<lambda>(i, f). [S (if i then 60 else 62), W f]) rs)"

definition wrap :: "byte list cmd \<Rightarrow> (bool \<times> byte list) list \<Rightarrow> byte list cmd" where
  "wrap c rs = foldl (\<lambda>c (i, f). if i then REDIR c f O_RDONLY 0 else REDIR c f O_WRONLY_CREATE 1) c rs"

lemma rtoks_simps [simp]: "rtoks [] = []" "rtoks ((i, f) # rs) = S (if i then 60 else 62) # W f # rtoks rs"
  by (simp_all add: rtoks_def)

lemma wrap_simps [simp]: "wrap c [] = c"
  "wrap c ((i, f) # rs) = wrap (if i then REDIR c f O_RDONLY 0 else REDIR c f O_WRONLY_CREATE 1) rs"
  by (simp_all add: wrap_def)

lemma starts_simps [simp]: "\<not> starts toks []" "\<not> starts toks (W w # ts)" "starts toks (S c # ts) \<longleftrightarrow> c \<in> set toks"
  by (simp_all add: starts_def)

lemma toks_symbols: "set [60, 62] \<subseteq> set symbols" "set [40 :: byte] \<subseteq> set symbols" "set [41 :: byte] \<subseteq> set symbols"
  "set [38 :: byte] \<subseteq> set symbols" "set [59 :: byte] \<subseteq> set symbols" "set [124 :: byte] \<subseteq> set symbols"
  "set [124, 41, 38, 59] \<subseteq> set symbols"
  by (simp_all add: symbols_def)

lemmas peeks = toks_symbols [THEN [2] peek_at]

lemma parseredirs_text:
  assumes "at b s (rtoks rs @ ts)" "\<not> starts [60, 62] ts"
  shows "\<exists>c' s'. parseredirs b c s = Inr (c', s') \<and> s \<le> s' \<and> at b s' ts \<and> read_cmd b c' = wrap (read_cmd b c) rs"
  using assms
proof (induction rs arbitrary: c s)
  case Nil
  then show ?case using peeks(1) [OF Nil(1)] by (simp add: parseredirs.simps [of b c s])
next
  case (Cons r rs)
  obtain i f where r: "r = (i, f)" by (cases r)
  define t :: byte where "t = (if i then 60 else 62)"
  have a: "at b s (S t # W f # rtoks rs @ ts)" using Cons.prems r by (simp add: t_def)
  obtain q where g: "gettoken b s = (t, s, s + 1, q)" "s < q" "at b q (W f # rtoks rs @ ts)" using gettoken_symbol [OF a] by blast
  obtain s3 where h: "gettoken b q = (97, q, q + length f, s3)" "q < s3" "at b s3 (rtoks rs @ ts)" "slice q (length f) b = f"
    using gettoken_text_word [OF g(3)] by blast
  let ?e = "q + length f"
  have "peek b s [60, 62] = (True, s)" using peeks(1) [OF a] by (simp add: t_def)
  then have e: "parseredirs b c s = parseredirs b (redir t c (q, ?e)) s3"
    using g(1) h(1) by (subst parseredirs.simps) simp
  obtain c' s' where x: "parseredirs b (redir t c (q, ?e)) s3 = Inr (c', s')" "s3 \<le> s'" "at b s' ts"
    "read_cmd b c' = wrap (read_cmd b (redir t c (q, ?e))) rs"
    using Cons.IH [OF h(3) Cons.prems(2), of "redir t c (q, ?e)"] by blast
  have "txt_of b (q, ?e) = f" using h(4) by (simp add: txt_of_def)
  then have "read_cmd b (redir t c (q, ?e)) = wrap (read_cmd b c) [(i, f)]" by (simp add: redir_def t_def)
  then show ?case using x e r g(2) h(2) by (intro exI [of _ c'] exI [of _ s']) (simp add: wrap_def)
qed

text \<open>The tokens that end a simple command.\<close>

definition stop :: "token list \<Rightarrow> bool" where
  "stop ts \<longleftrightarrow> ts = [] \<or> starts [124, 41, 38, 59] ts"

lemma stop_not: "stop ts \<Longrightarrow> \<not> starts [60, 62] ts" "stop ts \<Longrightarrow> \<not> starts [40] ts" "stop ts \<Longrightarrow> ts = [] \<or> \<not> (\<exists>w us. ts = W w # us)"
  by (auto simp: stop_def starts_def split: list.splits token.splits)

lemma read_put_arg: "map_cmd f (put_arg a c) = put_arg (f a) (map_cmd f c)"
  by (induction c) simp_all

lemma gettoken_end: "at b s [] \<Longrightarrow> gettoken b s = (0, s, s, s)"
  using skip_ws_text [of b s "[]"] by (auto simp: gettoken_def at_def chr_def elim: spells_EndE)

lemma args_loop_end:
  assumes a: "at b s ts" and st: "stop ts"
  shows "args_loop b c argc s = Inr (c, s)"
proof (cases "ts = []")
  case True
  then show ?thesis using peeks(7) [OF a] gettoken_end [of b s] a by (subst args_loop.simps) simp
next
  case False
  then show ?thesis using peeks(7) [OF a] st by (subst args_loop.simps) (simp add: stop_def)
qed

lemma args_loop_text:
  assumes "at b s (map W ws @ rtoks rs @ ts)" "stop ts" "ws = [] \<longrightarrow> rs = []" "argc + length ws < MAXARGS"
  shows "\<exists>c' s'. args_loop b c argc s = Inr (c', s') \<and> s \<le> s' \<and> at b s' ts \<and> read_cmd b c' = wrap (fold put_arg ws (read_cmd b c)) rs"
  using assms
proof (induction ws arbitrary: c s argc)
  case Nil
  then show ?case using args_loop_end [of b s ts] by simp
next
  case (Cons w ws)
  have a: "at b s (W w # map W ws @ rtoks rs @ ts)" using Cons.prems by simp
  obtain s2 where g: "gettoken b s = (97, s, s + length w, s2)" "s < s2" "at b s2 (map W ws @ rtoks rs @ ts)" "slice s (length w) b = w"
    using gettoken_text_word [OF a] by blast
  have p: "peek b s [124, 41, 38, 59] = (False, s)" using peeks(7) [OF a] by simp
  define c2 where "c2 = put_arg (s, s + length w) c"
  have e: "args_loop b c argc s = res_bind (parseredirs b c2 s2) (\<lambda>(ret, s). args_loop b ret (argc + 1) s)"
    using p g(1) Cons.prems(4) by (subst args_loop.simps) (simp add: c2_def)
  have "txt_of b (s, s + length w) = w" using g(4) by (simp add: txt_of_def)
  then have c2: "read_cmd b c2 = put_arg w (read_cmd b c)" by (simp add: c2_def read_put_arg)
  show ?case
  proof (cases ws)
    case Nil
    have "at b s2 (rtoks rs @ ts)" using g(3) Nil by simp
    from parseredirs_text [OF this stop_not(1) [OF Cons.prems(2)], of c2]
    obtain c3 s3 where x: "parseredirs b c2 s2 = Inr (c3, s3)" "s2 \<le> s3" "at b s3 ts" "read_cmd b c3 = wrap (read_cmd b c2) rs" by blast
    show ?thesis using e x args_loop_end [OF x(3) Cons.prems(2), of c3 "argc + 1"] c2 Nil g(2) by simp
  next
    case vs: (Cons v vs)
    have a2: "at b s2 (rtoks [] @ map W ws @ rtoks rs @ ts)" using g(3) by simp
    have "parseredirs b c2 s2 = Inr (c2, s2)"
      using peeks(1) [OF a2] vs by (subst parseredirs.simps) simp
    moreover obtain c' s' where y: "args_loop b c2 (argc + 1) s2 = Inr (c', s')" "s2 \<le> s'" "at b s' ts"
      "read_cmd b c' = wrap (fold put_arg ws (read_cmd b c2)) rs"
      using Cons.IH [of s2 "argc + 1" c2] a2 Cons.prems vs by auto
    ultimately show ?thesis using e c2 g(2) by (intro exI [of _ c'] exI [of _ s']) simp
  qed
qed


text \<open>What it means that the printed form of a command is read back at each level.\<close>

definition stop2 :: "token list \<Rightarrow> bool" where
  "stop2 ts \<longleftrightarrow> stop ts \<and> \<not> starts [124] ts"

definition stop0 :: "token list \<Rightarrow> bool" where
  "stop0 ts \<longleftrightarrow> ts = [] \<or> starts [41] ts"

definition reads3 :: "byte list cmd \<Rightarrow> bool" where
  "reads3 c \<longleftrightarrow> (\<forall>b s n rs ts. fueled b s 2 n \<longrightarrow> at b s (pr 3 c @ rtoks rs @ ts) \<longrightarrow> stop ts \<longrightarrow>
     (\<exists>c' s'. parseexec n b s = Some (Inr (c', s')) \<and> s \<le> s' \<and> at b s' ts \<and> read_cmd b c' = wrap c rs))"

definition reads2 :: "byte list cmd \<Rightarrow> bool" where
  "reads2 c \<longleftrightarrow> (\<forall>b s n ts. fueled b s 3 n \<longrightarrow> at b s (pr 2 c @ ts) \<longrightarrow> stop2 ts \<longrightarrow>
     (\<exists>c' s'. parsepipe n b s = Some (Inr (c', s')) \<and> s \<le> s' \<and> at b s' ts \<and> read_cmd b c' = c))"

definition reads1 :: "byte list cmd \<Rightarrow> bool" where
  "reads1 c \<longleftrightarrow> (\<forall>b s n ts. fueled b s 3 n \<longrightarrow> at b s (pr 1 c @ ts) \<longrightarrow> stop2 ts \<longrightarrow>
     (\<exists>c0 s0 c' s'. parsepipe n b s = Some (Inr (c0, s0)) \<and> back_loop b c0 s0 = back_loop b c' s' \<and> s \<le> s' \<and> at b s' ts \<and>
        read_cmd b c' = c))"

definition reads0 :: "byte list cmd \<Rightarrow> bool" where
  "reads0 c \<longleftrightarrow> (\<forall>b s n ts. fueled b s 4 n \<longrightarrow> at b s (pr 0 c @ ts) \<longrightarrow> stop0 ts \<longrightarrow>
     (\<exists>c' s'. parseline n b s = Some (Inr (c', s')) \<and> s \<le> s' \<and> at b s' ts \<and> read_cmd b c' = c))"

lemma fueled_Suc: "fueled b s (Suc k) n \<Longrightarrow> \<exists>m. n = Suc m \<and> fueled b s k m"
  by (cases n) (auto simp: fueled_def)

lemma fueled_later: "fueled b s k n \<Longrightarrow> s < s' \<Longrightarrow> at b s' ts \<Longrightarrow> k' \<le> k + 4 \<Longrightarrow> fueled b s' k' n"
  using fueled_less [of b s k n s' k'] by (simp add: at_def)

lemma reads2_simple:
  assumes r: "reads3 c" and e: "pr 2 c = pr 3 c"
  shows "reads2 c"
  unfolding reads2_def
proof (intro allI impI)
  fix b s n ts
  assume f: "fueled b s 3 n" and a: "at b s (pr 2 c @ ts)" and st: "stop2 ts"
  obtain m where m: "n = Suc m" "fueled b s 2 m" using fueled_Suc [of b s 2 n] f by auto
  have a': "at b s (pr 3 c @ rtoks [] @ ts)" using a e by simp
  obtain c' s' where x: "parseexec m b s = Some (Inr (c', s'))" "s \<le> s'" "at b s' ts" "read_cmd b c' = c"
    using r [unfolded reads3_def, rule_format, OF m(2) a'] st by (auto simp: stop2_def)
  have "peek b s' [124] = (False, s')" using peeks(6) [OF x(3)] st by (simp add: stop2_def)
  then show "\<exists>c' s'. parsepipe n b s = Some (Inr (c', s')) \<and> s \<le> s' \<and> at b s' ts \<and> read_cmd b c' = c"
    using x m by (simp add: ro_bind_def)
qed

lemma reads1_simple:
  assumes r: "reads2 c" and e: "pr 1 c = pr 2 c"
  shows "reads1 c"
  unfolding reads1_def
proof (intro allI impI)
  fix b s n ts
  assume f: "fueled b s 3 n" and a: "at b s (pr 1 c @ ts)" and st: "stop2 ts"
  have a': "at b s (pr 2 c @ ts)" using a e by simp
  from r [unfolded reads2_def, rule_format, OF f a' st]
  show "\<exists>c0 s0 c' s'. parsepipe n b s = Some (Inr (c0, s0)) \<and> back_loop b c0 s0 = back_loop b c' s' \<and> s \<le> s' \<and> at b s' ts \<and>
      read_cmd b c' = c" by blast
qed

lemma back_loop_end: "at b s ts \<Longrightarrow> \<not> starts [38] ts \<Longrightarrow> back_loop b c s = (c, s)"
  using peeks(4) [of b s ts] by (subst back_loop.simps) simp

lemma reads0_simple:
  assumes r: "reads1 c" and e: "pr 0 c = pr 1 c"
  shows "reads0 c"
  unfolding reads0_def
proof (intro allI impI)
  fix b s n ts
  assume f: "fueled b s 4 n" and a: "at b s (pr 0 c @ ts)" and st: "stop0 ts"
  obtain m where m: "n = Suc m" "fueled b s 3 m" using fueled_Suc [of b s 3 n] f by auto
  have st2: "stop2 ts" "\<not> starts [38] ts" "\<not> starts [59] ts"
    using st by (auto simp: stop0_def stop2_def stop_def starts_def split: list.splits token.splits)
  have a': "at b s (pr 1 c @ ts)" using a e by simp
  obtain c0 s0 c' s' where x: "parsepipe m b s = Some (Inr (c0, s0))" "back_loop b c0 s0 = back_loop b c' s'" "s \<le> s'" "at b s' ts"
    "read_cmd b c' = c" using r [unfolded reads1_def, rule_format, OF m(2) a' st2(1)] by blast
  have "back_loop b c0 s0 = (c', s')" using x(2) back_loop_end [OF x(4) st2(2)] by simp
  moreover have "peek b s' [59] = (False, s')" using peeks(5) [OF x(4)] st2(3) by simp
  ultimately show "\<exists>c' s'. parseline n b s = Some (Inr (c', s')) \<and> s \<le> s' \<and> at b s' ts \<and> read_cmd b c' = c"
    using x(1,3,4,5) m by (simp add: ro_bind_def)
qed

lemma reads3_block:
  assumes r: "reads0 c" and e: "pr 3 c = [S 40] @ pr 0 c @ [S 41]"
  shows "reads3 c"
  unfolding reads3_def
proof (intro allI impI)
  fix b s n rs ts
  assume f: "fueled b s 2 n" and a: "at b s (pr 3 c @ rtoks rs @ ts)" and st: "stop ts"
  obtain m where m: "n = Suc m" "fueled b s 1 m" using fueled_Suc [of b s 1 n] f by (auto simp: numeral_2_eq_2)
  obtain k where k: "m = Suc k" "fueled b s 0 k" using fueled_Suc [of b s 0 m] m by auto
  have a1: "at b s (S 40 # pr 0 c @ S 41 # rtoks rs @ ts)" using a e by simp
  obtain s0 where g: "skip_tok b s = s0" "s < s0" "at b s0 (pr 0 c @ S 41 # rtoks rs @ ts)" using gettoken_symbol [OF a1] by blast
  have p: "peek b s [40] = (True, s)" using peeks(2) [OF a1] by simp
  obtain c1 s1 where x: "parseline k b s0 = Some (Inr (c1, s1))" "s0 \<le> s1" "at b s1 (S 41 # rtoks rs @ ts)" "read_cmd b c1 = c"
    using r [unfolded reads0_def, rule_format, OF fueled_later [OF k(2) g(2,3)] g(3)] by (auto simp: stop0_def)
  obtain s2 where g1: "skip_tok b s1 = s2" "s1 < s2" "at b s2 (rtoks rs @ ts)" using gettoken_symbol [OF x(3)] by blast
  have p1: "peek b s1 [41] = (True, s1)" using peeks(3) [OF x(3)] by simp
  obtain c' s' where y: "parseredirs b c1 s2 = Inr (c', s')" "s2 \<le> s'" "at b s' ts" "read_cmd b c' = wrap c rs"
    using parseredirs_text [OF g1(3) stop_not(1) [OF st], of c1] x(4) by auto
  show "\<exists>c' s'. parseexec n b s = Some (Inr (c', s')) \<and> s \<le> s' \<and> at b s' ts \<and> read_cmd b c' = wrap c rs"
    using p g p1 g1 x y m k by (simp add: ro_bind_def)
qed

lemma fold_put_arg: "fold put_arg ws (EXEC as) = EXEC (as @ ws)"
  by (induction ws arbitrary: as) simp_all

lemma reads3_exec:
  assumes "length ws < MAXARGS"
  shows "reads3 (EXEC ws)"
  unfolding reads3_def
proof (intro allI impI)
  fix b s n rs ts
  assume f: "fueled b s 2 n" and a: "at b s (pr 3 (EXEC ws) @ rtoks rs @ ts)" and st: "stop ts"
  obtain m where m: "n = Suc m" using fueled_Suc [of b s 1 n] f by (auto simp: numeral_2_eq_2)
  have a1: "at b s (map W ws @ rtoks rs @ ts)" using a by simp
  have "\<not> starts [40] (map W ws @ rtoks rs @ ts)" using stop_not(2) [OF st] by (cases ws; cases rs) (auto split: if_splits)
  then have p: "peek b s [40] = (False, s)" using peeks(2) [OF a1] by simp
  show "\<exists>c' s'. parseexec n b s = Some (Inr (c', s')) \<and> s \<le> s' \<and> at b s' ts \<and> read_cmd b c' = wrap (EXEC ws) rs"
  proof (cases "ws = []")
    case True
    then obtain c1 s1 where x: "parseredirs b (EXEC []) s = Inr (c1, s1)" "s \<le> s1" "at b s1 ts" "read_cmd b c1 = wrap (EXEC []) rs"
      using parseredirs_text [OF _ stop_not(1) [OF st], of b s rs "EXEC []"] a1 by auto
    then show ?thesis using args_loop_end [OF x(3) st] p m True by simp
  next
    case False
    then have "\<not> starts [60, 62] (map W ws @ rtoks rs @ ts)" by (cases ws) simp_all
    then have x: "parseredirs b (EXEC []) s = Inr (EXEC [], s)" using peeks(1) [OF a1] by (subst parseredirs.simps) simp
    obtain c' s' where "args_loop b (EXEC []) 0 s = Inr (c', s')" "s \<le> s'" "at b s' ts" "read_cmd b c' = wrap (fold put_arg ws (EXEC [])) rs"
      using args_loop_text [OF a1 st _ _, of 0 "EXEC []"] False assms by auto
    then show ?thesis using x p m by (simp add: fold_put_arg)
  qed
qed

lemma reads3_redir:
  assumes r: "reads3 c" and fd: "fd = 0 \<and> mode = O_RDONLY \<or> fd = 1 \<and> mode = O_WRONLY_CREATE"
  shows "reads3 (REDIR c f mode fd)"
  unfolding reads3_def
proof (intro allI impI)
  fix b s n rs ts
  assume x: "fueled b s 2 n" and a: "at b s (pr 3 (REDIR c f mode fd) @ rtoks rs @ ts)" and st: "stop ts"
  have "at b s (pr 3 c @ rtoks ((fd = 0, f) # rs) @ ts)" using a by simp
  from r [unfolded reads3_def, rule_format, OF x this st]
  show "\<exists>c' s'. parseexec n b s = Some (Inr (c', s')) \<and> s \<le> s' \<and> at b s' ts \<and> read_cmd b c' = wrap (REDIR c f mode fd) rs"
    using fd by auto
qed

lemma reads2_pipe:
  assumes l: "reads3 c" and r: "reads2 d"
  shows "reads2 (PIPE c d)"
  unfolding reads2_def
proof (intro allI impI)
  fix b s n ts
  assume f: "fueled b s 3 n" and a: "at b s (pr 2 (PIPE c d) @ ts)" and st: "stop2 ts"
  obtain m where m: "n = Suc m" "fueled b s 2 m" using fueled_Suc [of b s 2 n] f by auto
  have a1: "at b s (pr 3 c @ rtoks [] @ S 124 # pr 2 d @ ts)" using a by (simp add: paren_def)
  obtain c' s' where x: "parseexec m b s = Some (Inr (c', s'))" "s \<le> s'" "at b s' (S 124 # pr 2 d @ ts)" "read_cmd b c' = c"
    using l [unfolded reads3_def, rule_format, OF m(2) a1] by (auto simp: stop_def)
  obtain s1 where g: "skip_tok b s' = s1" "s' < s1" "at b s1 (pr 2 d @ ts)" using gettoken_symbol [OF x(3)] by blast
  have p: "peek b s' [124] = (True, s')" using peeks(6) [OF x(3)] by simp
  obtain d' s2 where y: "parsepipe m b s1 = Some (Inr (d', s2))" "s1 \<le> s2" "at b s2 ts" "read_cmd b d' = d"
    using r [unfolded reads2_def, rule_format, OF fueled_later [OF m(2) le_less_trans [OF x(2) g(2)] g(3)] g(3) st] by auto
  show "\<exists>c' s'. parsepipe n b s = Some (Inr (c', s')) \<and> s \<le> s' \<and> at b s' ts \<and> read_cmd b c' = PIPE c d"
    using x y g p m by (simp add: ro_bind_def)
qed

lemma reads1_back:
  assumes r: "reads1 c"
  shows "reads1 (BACK c)"
  unfolding reads1_def
proof (intro allI impI)
  fix b s n ts
  assume f: "fueled b s 3 n" and a: "at b s (pr 1 (BACK c) @ ts)" and st: "stop2 ts"
  have a1: "at b s (pr 1 c @ S 38 # ts)" using a by (simp add: paren_def)
  obtain c0 s0 c' s' where x: "parsepipe n b s = Some (Inr (c0, s0))" "back_loop b c0 s0 = back_loop b c' s'" "s \<le> s'"
    "at b s' (S 38 # ts)" "read_cmd b c' = c"
    using r [unfolded reads1_def, rule_format, OF f a1] by (auto simp: stop2_def stop_def)
  obtain s1 where g: "skip_tok b s' = s1" "s' < s1" "at b s1 ts" using gettoken_symbol [OF x(4)] by blast
  have "back_loop b c' s' = back_loop b (BACK c') s1" using peeks(4) [OF x(4)] g(1) by (subst back_loop.simps) simp
  then show "\<exists>c0 s0 c' s'. parsepipe n b s = Some (Inr (c0, s0)) \<and> back_loop b c0 s0 = back_loop b c' s' \<and> s \<le> s' \<and> at b s' ts \<and>
      read_cmd b c' = BACK c"
    using x g by (intro exI [of _ c0] exI [of _ s0] exI [of _ "BACK c'"] exI [of _ s1]) simp
qed

lemma reads0_list:
  assumes l: "reads1 c" and r: "reads0 d"
  shows "reads0 (LIST c d)"
  unfolding reads0_def
proof (intro allI impI)
  fix b s n ts
  assume f: "fueled b s 4 n" and a: "at b s (pr 0 (LIST c d) @ ts)" and st: "stop0 ts"
  obtain m where m: "n = Suc m" "fueled b s 3 m" using fueled_Suc [of b s 3 n] f by auto
  have a1: "at b s (pr 1 c @ S 59 # pr 0 d @ ts)" using a by (simp add: paren_def)
  obtain c0 s0 c' s' where x: "parsepipe m b s = Some (Inr (c0, s0))" "back_loop b c0 s0 = back_loop b c' s'" "s \<le> s'"
    "at b s' (S 59 # pr 0 d @ ts)" "read_cmd b c' = c"
    using l [unfolded reads1_def, rule_format, OF m(2) a1] by (auto simp: stop2_def stop_def)
  obtain s1 where g: "skip_tok b s' = s1" "s' < s1" "at b s1 (pr 0 d @ ts)" using gettoken_symbol [OF x(4)] by blast
  have k: "back_loop b c0 s0 = (c', s')" using x(2) back_loop_end [OF x(4)] by simp
  have p: "peek b s' [59] = (True, s')" using peeks(5) [OF x(4)] by simp
  obtain d' s2 where y: "parseline m b s1 = Some (Inr (d', s2))" "s1 \<le> s2" "at b s2 ts" "read_cmd b d' = d"
    using r [unfolded reads0_def, rule_format, OF fueled_later [OF m(2) le_less_trans [OF x(3) g(2)] g(3)] g(3) st] by auto
  show "\<exists>c' s'. parseline n b s = Some (Inr (c', s')) \<and> s \<le> s' \<and> at b s' ts \<and> read_cmd b c' = LIST c d"
    using x(1,3,5) y g k p m by (simp add: ro_bind_def)
qed

lemma reads_all: "cmd_ok c \<Longrightarrow> reads3 c \<and> reads2 c \<and> reads1 c \<and> reads0 c"
proof (induction c)
  case (EXEC ws)
  then show ?case using reads3_exec [of ws] by (auto intro!: reads2_simple reads1_simple reads0_simple)
next
  case (REDIR c f mode fd)
  then have "reads3 (REDIR c f mode fd)" by (intro reads3_redir) auto
  then show ?case by (auto intro!: reads2_simple reads1_simple reads0_simple)
next
  case (PIPE c d)
  then have "reads2 (PIPE c d)" by (intro reads2_pipe) auto
  moreover from this have "reads1 (PIPE c d)" by (rule reads1_simple) (simp add: paren_def)
  moreover from this have "reads0 (PIPE c d)" by (rule reads0_simple) (simp add: paren_def)
  moreover from this have "reads3 (PIPE c d)" by (rule reads3_block) (simp add: paren_def)
  ultimately show ?case by blast
next
  case (LIST c d)
  then have "reads0 (LIST c d)" by (intro reads0_list) auto
  moreover from this have "reads3 (LIST c d)" by (rule reads3_block) (simp add: paren_def)
  moreover from this have "reads2 (LIST c d)" by (rule reads2_simple) (simp add: paren_def)
  moreover from this have "reads1 (LIST c d)" by (rule reads1_simple) (simp add: paren_def)
  ultimately show ?case by blast
next
  case (BACK c)
  then have "reads1 (BACK c)" by (intro reads1_back) auto
  moreover from this have "reads0 (BACK c)" by (rule reads0_simple) (simp add: paren_def)
  moreover from this have "reads3 (BACK c)" by (rule reads3_block) (simp add: paren_def)
  moreover from this have "reads2 (BACK c)" by (rule reads2_simple) (simp add: paren_def)
  ultimately show ?case by blast
qed


section \<open>Reading a line\<close>

lemma parse_spelled:
  assumes c: "cmd_ok c" and sp: "spells (pr 0 c) b"
  shows "\<exists>c' m. parsecmd b = Some (Inr (c', m)) \<and> words_of m c' = c"
proof -
  have nz: "0 \<notin> set b" by (rule spells_no_NUL [OF sp])
  have a: "at b 0 (pr 0 c @ [])" using sp by (simp add: at_def)
  have f: "fueled b 0 4 (parse_fuel b)" by (simp add: fueled_def parse_fuel_def)
  obtain c' s' where x: "parseline (parse_fuel b) b 0 = Some (Inr (c', s'))" "at b s' []" "read_cmd b c' = c"
    using reads_all [OF c] f a unfolding reads0_def stop0_def by blast
  have e: "s' = length b" "peek b s' [] = (False, s')" using x(2) peek_at [of b s' "[]" "[]"] by (auto simp: at_def elim: spells_EndE)
  define m where "m = nulterminate c' (b @ [0])"
  have p: "parsecmd b = Some (Inr (c', m))" using x(1) e by (simp add: parsecmd_def ro_bind_def m_def)
  have w: "within b 0 s' (set_cmd c')" using parse_within(1) [OF nz, of 0 "parse_fuel b"] x(1) by (simp add: parsed_def)
  have "words_of m c' = read_cmd b c'" unfolding words_of_def
    by (rule cmd.map_cong0) (use nulterminate_words(3) [OF w _ m_def] in \<open>auto simp: txt_of_def\<close>)
  then have "words_of m c' = c" using x(3) by simp
  then show ?thesis using p by blast
qed

text \<open>C17: Parsing inverts printing: whatever way a command is written as text (any nesting of pipes, lists, background marks,
  redirections and parentheses, any white space between and after the tokens), \<open>parsecmd\<close> accepts the text and reads it as
  that command, down to the strings the child process finds in its line.\<close>

theorem parsecmd_print:
  assumes "cmd_ok c" "spells (pr 0 c) b"
  shows "\<exists>c' m. parsecmd b = Some (Inr (c', m)) \<and> words_of m c' = c"
  by (rule parse_spelled [OF assms])

text \<open>The line \<open>a|(b &;c )>>\<close> with one \<open>>\<close>, the file \<open>d\<close> and a newline.\<close>

definition line_ex :: "byte list" where
  "line_ex = [97, 124, 40, 98, 32, 38, 59, 99, 32, 41, 62, 100, 10]"

definition cmd_ex :: "byte list cmd" where
  "cmd_ex = PIPE (EXEC [[97]]) (REDIR (LIST (BACK (EXEC [[98]])) (EXEC [[99]])) [100] O_WRONLY_CREATE 1)"

lemma ex_ok: "cmd_ok cmd_ex" "redirs_ok cmd_ex"
  by (simp_all add: cmd_ex_def word_ok_def wordc_def whitespace_def symbols_def MAXARGS_def)

lemma spells_intros:
  "word_ok w \<Longrightarrow> r = [] \<or> hd r \<in> set symbols \<Longrightarrow> spells ts r \<Longrightarrow> spells (W w # ts) (w @ r)"
  "c \<in> set symbols \<Longrightarrow> c \<noteq> 62 \<or> r = [] \<or> hd r \<noteq> 62 \<Longrightarrow> spells ts r \<Longrightarrow> spells (S c # ts) (c # r)"
  "word_ok w \<Longrightarrow> x \<in> set whitespace \<Longrightarrow> spells ts r \<Longrightarrow> spells (W w # ts) (w @ x # r)"
  using spells.Word [of w "[]" r ts] spells.Symbol [of c "[]" r ts] spells.Word [of w "[x]" r ts] by auto

lemma ex_spells: "spells (pr 0 cmd_ex) line_ex"
proof -
  have w: "word_ok [97]" "word_ok [98]" "word_ok [99]" "word_ok [100]" by (simp_all add: word_ok_def wordc_def whitespace_def symbols_def)
  have "spells [W [100]] ([100] @ 10 # [])" by (rule spells_intros(3) [OF w(4)]) (simp_all add: whitespace_def spells.End)
  then have "spells [S 41, S 62, W [100]] (41 # 62 # [100, 10])" by (intro spells_intros(2)) (simp_all add: symbols_def)
  then have "spells [W [99], S 41, S 62, W [100]] ([99] @ 32 # [41, 62, 100, 10])" by (intro spells_intros(3)) (simp_all add: w whitespace_def)
  then have "spells [S 38, S 59, W [99], S 41, S 62, W [100]] (38 # 59 # [99, 32, 41, 62, 100, 10])" by (intro spells_intros(2)) (simp_all add: symbols_def)
  then have "spells [W [98], S 38, S 59, W [99], S 41, S 62, W [100]] ([98] @ 32 # [38, 59, 99, 32, 41, 62, 100, 10])"
    by (intro spells_intros(3)) (simp_all add: w whitespace_def)
  then have "spells [S 124, S 40, W [98], S 38, S 59, W [99], S 41, S 62, W [100]] (124 # 40 # [98, 32, 38, 59, 99, 32, 41, 62, 100, 10])"
    by (intro spells_intros(2)) (simp_all add: symbols_def)
  then have "spells [W [97], S 124, S 40, W [98], S 38, S 59, W [99], S 41, S 62, W [100]] ([97] @ [124, 40, 98, 32, 38, 59, 99, 32, 41, 62, 100, 10])"
    by (intro spells_intros(1)) (simp_all add: w symbols_def)
  then show ?thesis by (simp add: cmd_ex_def line_ex_def paren_def)
qed

theorem parsecmd_print_witness:
  "\<exists>c' m. parsecmd line_ex = Some (Inr (c', m)) \<and> words_of m c' = cmd_ex"
  by (rule parsecmd_print [OF ex_ok(1) ex_spells])

text \<open>C11: A turn of the shell on such a line runs the command it stands for: parsing, the strings left in the line, redirections and
  pipes together give every program of the command its arguments, input and output as the line reads.\<close>

theorem sh_turn_runs:
  assumes "cmd_ok c" "redirs_ok c" "spells (pr 0 c) b" "b \<noteq> []" "take 3 b \<noteq> [99, 100, 32]" "fork_ok e np"
  shows "sh_turn e b (std i o' e') np = Child (fst (wiring e c i o' e' (Suc np)))"
proof -
  obtain c' m where p: "parsecmd b = Some (Inr (c', m))" "words_of m c' = c" using parse_spelled [OF assms(1,3)] by blast
  have "\<not> (chr b 0 = 99 \<and> chr b 1 = 100 \<and> chr b 2 = 32)"
  proof
    assume x: "chr b 0 = 99 \<and> chr b 1 = 100 \<and> chr b 2 = 32"
    then have "2 < length b" using chr_nz [of b 2] by simp
    then obtain b0 b1 b2 r where "b = b0 # b1 # b2 # r" by (cases b; cases "tl b"; cases "tl (tl b)") auto
    then show False using x assms(5) by (simp add: chr_def)
  qed
  then show ?thesis using p assms runcmd_std [OF assms(2)] by (simp add: sh_turn_def)
qed

theorem sh_turn_runs_witness:
  "sh_turn \<lparr>open_ok = (\<lambda>_ _. True), exec_ok = (\<lambda>_. True), fork_ok = (\<lambda>_. True), pipe_ok = (\<lambda>_. True)\<rparr> line_ex
     (std (Inherited 0) (Inherited 1) (Inherited 2)) 0 =
   Child [Started [[97]] (std (Inherited 0) (Pipe_write 1) (Inherited 2)),
     Started [[98]] (std (Pipe_read 1) (Path [100] O_WRONLY_CREATE) (Inherited 2)),
     Started [[99]] (std (Pipe_read 1) (Path [100] O_WRONLY_CREATE) (Inherited 2))]"
proof -
  have "line_ex \<noteq> []" "take 3 line_ex \<noteq> [99, 100, 32]" by (simp_all add: line_ex_def)
  then show ?thesis by (subst sh_turn_runs [OF ex_ok ex_spells]) (simp_all add: cmd_ex_def)
qed

end
