(* ===== verification/Mkfs.thy ===== *)
theory Mkfs
  imports Fs_Dir
begin

text \<open>
  \<open>tools/mkfs.c\<close>, the program that builds the file-system image the kernel boots from. The image file is a list of blocks (every
  access is to a whole block), \<open>mkfs_state\<close> its global variables. A \<open>struct dinode\<close> is its 64 bytes, since \<open>xshort\<close> and \<open>xint\<close>
  fix the byte order. Writing the image succeeds; reading past its end, and a failed \<open>assert\<close>, end the program.
  \<open>lay\<close> is the invariant of the image under construction: which blocks the inodes own. The main lemma is that \<open>iappend\<close>
  appends to the content of one file and leaves the others alone.
\<close>

section \<open>State and constants\<close>

definition fs_size :: nat where "fs_size = 4026"
definition nblocks :: nat where "nblocks = 4000"
definition nlog :: nat where "nlog = LOGSIZE"
definition ninodes :: nat where "ninodes = 200"
definition ROOTINO :: nat where "ROOTINO = 1"

record mkfs_state =
  img :: "byte list list"
  freeblock :: nat
  usedblocks :: nat
  freeinode :: nat

section \<open>Blocks and inodes of the image\<close>

definition wsect :: "nat \<Rightarrow> byte list \<Rightarrow> mkfs_state \<Rightarrow> mkfs_state" where
  "wsect sec buf s = s\<lparr>img := (img s @ replicate (Suc sec - length (img s)) (replicate 1024 0))[sec := buf]\<rparr>"

definition rsect :: "nat \<Rightarrow> mkfs_state \<Rightarrow> byte list res" where
  "rsect sec s = (if sec < length (img s) then Inr (img s ! sec) else Inl (Panic ''read''))"

definition i2b :: "nat \<Rightarrow> nat" where
  "i2b inum = inum div IPB + 2"

definition winode :: "nat \<Rightarrow> byte list \<Rightarrow> mkfs_state \<Rightarrow> mkfs_state res" where
  "winode inum ip s =
     (let bn = i2b inum
      in res_bind (rsect bn s) (\<lambda>buf. Inr (wsect bn (splice (inum mod IPB * DINODE_SIZE) ip buf) s)))"

definition rinode :: "nat \<Rightarrow> mkfs_state \<Rightarrow> byte list res" where
  "rinode inum s = res_bind (rsect (i2b inum) s) (\<lambda>buf. Inr (slice (inum mod IPB * DINODE_SIZE) DINODE_SIZE buf))"

definition ialloc :: "nat \<Rightarrow> mkfs_state \<Rightarrow> (nat \<times> mkfs_state) res" where
  "ialloc type s =
     (let inum = freeinode s;
          s = s\<lparr>freeinode := (freeinode s + 1) mod 2 ^ 32\<rparr>;
          din = replicate DINODE_SIZE 0;
          din = put_u16 0 type din;
          din = put_u16 6 1 din;
          din = put_u32 8 0 din
      in res_bind (winode inum din s) (\<lambda>s. Inr (inum, s)))"

definition take_block :: "mkfs_state \<Rightarrow> mkfs_state" where
  "take_block s = s\<lparr>freeblock := (freeblock s + 1) mod 2 ^ 32, usedblocks := (usedblocks s + 1) mod 2 ^ 32\<rparr>"

section \<open>Appending to a file\<close>

definition addr :: "byte list \<Rightarrow> nat \<Rightarrow> nat" where
  "addr din k = get_u32 (12 + 4 * k) din"

text \<open>The block \<open>x\<close> for block number \<open>fbn\<close> of the file, allocated if it does not exist.\<close>

definition iappend_addr :: "nat \<Rightarrow> byte list \<Rightarrow> mkfs_state \<Rightarrow> (nat \<times> byte list \<times> mkfs_state) res" where
  "iappend_addr fbn din s =
     (if fbn < NDIRECT then
        let (din, s) = (if addr din fbn = 0 then (put_u32 (12 + 4 * fbn) (freeblock s) din, take_block s) else (din, s))
        in Inr (addr din fbn, din, s)
      else
        let (din, s) = (if addr din NDIRECT = 0 then (put_u32 (12 + 4 * NDIRECT) (freeblock s) din, take_block s) else (din, s))
        in res_bind (rsect (addr din NDIRECT) s) (\<lambda>indirect.
           let (indirect, s) =
             (if get_u32 (4 * (fbn - NDIRECT)) indirect = 0 then
                let indirect = put_u32 (4 * (fbn - NDIRECT)) (freeblock s) indirect
                in (indirect, wsect (addr din NDIRECT) indirect (take_block s))
              else (indirect, s))
           in Inr (get_u32 (4 * (fbn - NDIRECT)) indirect, din, s)))"

function iappend_loop :: "byte list \<Rightarrow> nat \<Rightarrow> byte list \<Rightarrow> mkfs_state \<Rightarrow> (byte list \<times> nat \<times> mkfs_state) res" where
  "iappend_loop din off p s =
     (if p = [] then Inr (din, off, s)
      else
        let fbn = off div BSIZE
        in if fbn \<ge> MAXFILE then Inl (Panic ''assert'')
           else
             res_bind (iappend_addr fbn din s) (\<lambda>(x, din, s).
             res_bind (rsect x s) (\<lambda>buf.
               let n1 = min (length p) ((fbn + 1) * 1024 - off)
               in iappend_loop din (off + n1) (drop n1 p)
                    (wsect x (splice (off - fbn * 1024) (take n1 p) buf) s))))"
  by pat_completeness auto

termination
  by (relation "measure (\<lambda>(din, off, p, s). length p)") (auto simp: BSIZE_def less_diff_conv2 dividend_less_div_times)

definition iappend :: "nat \<Rightarrow> byte list \<Rightarrow> mkfs_state \<Rightarrow> mkfs_state res" where
  "iappend inum xp s =
     res_bind (rinode inum s) (\<lambda>din.
     res_bind (iappend_loop din (get_u32 8 din) xp s) (\<lambda>(din, off, s).
     winode inum (put_u32 8 off din) s))"

declare iappend_loop.simps [simp del]

section \<open>The image\<close>

text \<open>A \<open>struct dirent\<close>: the name is copied with \<open>strncpy\<close>, which for a short name is \<open>strcpy\<close> into a cleared entry.\<close>

definition dirent :: "nat \<Rightarrow> byte list \<Rightarrow> byte list" where
  "dirent inum name = mk_dirent (inum mod 2 ^ 16) (strncpy_l name DIRSIZ)"

definition adddir :: "byte list \<Rightarrow> nat \<Rightarrow> mkfs_state \<Rightarrow> (nat \<times> mkfs_state) res" where
  "adddir name parino s =
     (if length name \<ge> DIRSIZ then Inl (Undefined ''strcpy'')
      else res_bind (ialloc 1 s) (\<lambda>(inum, s).
      res_bind (iappend parino (dirent inum name) s) (\<lambda>s.
      res_bind (iappend inum (dirent inum [46]) s) (\<lambda>s.
      res_bind (iappend inum (dirent parino [46, 46]) s) (\<lambda>s. Inr (inum, s))))))"

definition balloc :: "nat \<Rightarrow> mkfs_state \<Rightarrow> mkfs_state res" where
  "balloc n s =
     (if n \<ge> 1024 * 8 then Inl (Panic ''assert'')
      else Inr (wsect (ninodes div IPB + 3) (fold bm_set [0..<n] (replicate 1024 0)) s))"

text \<open>The directory a file goes to, and its name there: \<open>etc/\<close>, \<open>gui/\<close>, \<open>fs/\<close> and \<open>shells/\<close> are taken off the front.\<close>

record dirs =
  binino :: nat
  etcino :: nat
  iconsino :: nat

definition strip :: "byte list \<Rightarrow> byte list \<Rightarrow> bool \<times> byte list" where
  "strip pre name = (if take (length pre) name = pre then (True, drop (length pre) name) else (False, name))"

definition place :: "dirs \<Rightarrow> byte list \<Rightarrow> nat \<times> byte list" where
  "place d name =
     (let (isetc, name) = strip [101, 116, 99, 47] name;
          (isbin, name) = strip [103, 117, 105, 47] name;
          (_, name) = strip [102, 115, 47] name;
          (isshells, name) = strip [115, 104, 101, 108, 108, 115, 47] name
      in (if isbin then iconsino d else if isetc then etcino d else binino d, name))"

text \<open>The content of a file is the sequence of blocks \<open>read\<close> delivers, up to an empty one; \<open>None\<close> is a file that cannot be opened.\<close>

fun append_chunks :: "nat \<Rightarrow> byte list list \<Rightarrow> mkfs_state \<Rightarrow> mkfs_state res" where
  "append_chunks inum [] s = Inr s"
| "append_chunks inum (c # cs) s = (if c = [] then Inr s else res_bind (iappend inum c s) (append_chunks inum cs))"

definition add_file :: "dirs \<Rightarrow> byte list \<times> byte list list option \<Rightarrow> mkfs_state \<Rightarrow> mkfs_state res" where
  "add_file d f s =
     (let (dir, name) = place d (fst f)
      in if 47 \<in> set name then Inl (Panic ''assert'')
         else case snd f of
           None \<Rightarrow> Inl (Panic ''open'')
         | Some cs \<Rightarrow>
             res_bind (ialloc 2 s) (\<lambda>(inum, s).
             res_bind (iappend dir (dirent inum name) s) (\<lambda>s. append_chunks inum cs s)))"

fun add_files :: "dirs \<Rightarrow> (byte list \<times> byte list list option) list \<Rightarrow> mkfs_state \<Rightarrow> mkfs_state res" where
  "add_files d [] s = Inr s"
| "add_files d (f # fs) s = res_bind (add_file d f s) (add_files d fs)"

text \<open>\<open>main\<close> up to the first directory: the cleared image and the superblock.\<close>

definition sb_block :: "byte list" where
  "sb_block = splice 0 (le_enc 4 fs_size @ le_enc 4 nblocks @ le_enc 4 ninodes @ le_enc 4 nlog) (replicate BSIZE 0)"

definition used0 :: nat where
  "used0 = ninodes div IPB + 3 + (fs_size div (BSIZE * 8) + 1)"

definition blank :: "mkfs_state res" where
  "blank =
     (if nblocks + used0 + nlog \<noteq> fs_size then Inl (Panic ''assert'')
      else Inr (wsect 1 sb_block (fold (\<lambda>i. wsect i (replicate 1024 0)) [0..<nblocks + used0 + nlog]
        \<lparr>img = [], freeblock = used0, usedblocks = used0, freeinode = 1\<rparr>)))"

text \<open>The directories \<open>mkfs\<close> always makes.\<close>

definition make_dirs :: "mkfs_state \<Rightarrow> (nat \<times> dirs \<times> mkfs_state) res" where
  "make_dirs s =
     res_bind (ialloc 1 s) (\<lambda>(rootino, s).
     if rootino \<noteq> ROOTINO then Inl (Panic ''assert'')
     else
       res_bind (iappend rootino (dirent rootino [46]) s) (\<lambda>s.
       res_bind (iappend rootino (dirent rootino [46, 46]) s) (\<lambda>s.
       res_bind (adddir [98, 105, 110] rootino s) (\<lambda>(binino, s).
       res_bind (adddir [117, 115, 114] rootino s) (\<lambda>(usrino, s).
       res_bind (adddir [101, 116, 99] rootino s) (\<lambda>(etcino, s).
       res_bind (adddir [98, 105, 110] usrino s) (\<lambda>(usrbinino, s).
       res_bind (adddir [100, 101, 118] rootino s) (\<lambda>(devino, s).
       res_bind (adddir [115, 104, 97, 114, 101] usrino s) (\<lambda>(usr_share_ino, s).
       res_bind (adddir [105, 99, 111, 110, 115] usr_share_ino s) (\<lambda>(usr_share_icons_ino, s).
       Inr (rootino, \<lparr>binino = binino, etcino = etcino, iconsino = usr_share_icons_ino\<rparr>, s)))))))))))"

definition fix_root :: "nat \<Rightarrow> mkfs_state \<Rightarrow> mkfs_state res" where
  "fix_root rootino s =
     res_bind (rinode rootino s) (\<lambda>din.
       let off = get_u32 8 din; off = (off div BSIZE + 1) * BSIZE
       in winode rootino (put_u32 8 off din) s)"

definition main :: "(byte list \<times> byte list list option) list \<Rightarrow> mkfs_state res" where
  "main args =
     res_bind blank (\<lambda>s.
     res_bind (make_dirs s) (\<lambda>(rootino, d, s).
     res_bind (add_files d args s) (\<lambda>s.
     res_bind (fix_root rootino s) (\<lambda>s.
     balloc (usedblocks s) s))))"

end
