(* ===== verification/Mkfs_Lay.thy ===== *)
theory Mkfs_Lay
  imports Mkfs
begin

text \<open>
  The image \<open>mkfs\<close> builds, as files: \<open>lay\<close> says which blocks the inodes own (\<open>S j k\<close> is the block at slot \<open>k\<close> of inode \<open>j\<close>: the
  blocks of its content in order, and the indirect block as slot \<open>MAXFILE\<close>), that no two slots share a block, that the
  blocks are handed out in order and none is skipped, and that what lies behind the end of a file or is not handed out yet is zero.
  One iteration of \<open>iappend\<close> keeps it; \<open>iappend\<close> appends to the content of one inode and changes no other.
\<close>

section \<open>Slots\<close>

definition slot :: "byte list list \<Rightarrow> byte list \<Rightarrow> nat \<Rightarrow> nat" where
  "slot im din k =
     (if k < NDIRECT then addr din k
      else if k = MAXFILE then addr din NDIRECT
      else if addr din NDIRECT = 0 then 0
      else get_u32 (4 * (k - NDIRECT)) (im ! addr din NDIRECT))"

definition nb :: "nat \<Rightarrow> nat" where "nb z = (z + 1023) div 1024"

text \<open>The slots a file of \<open>z\<close> bytes uses, and their number.\<close>

definition held :: "nat \<Rightarrow> nat \<Rightarrow> bool" where
  "held z k \<longleftrightarrow> k < nb z \<or> k = MAXFILE \<and> NDIRECT < nb z"

definition nblk :: "nat \<Rightarrow> nat" where
  "nblk z = nb z + (if NDIRECT < nb z then 1 else 0)"

definition byte_at :: "byte list list \<Rightarrow> (nat \<Rightarrow> nat) \<Rightarrow> nat \<Rightarrow> byte" where
  "byte_at im S n = im ! S (n div 1024) ! (n mod 1024)"

definition slots_ok :: "nat \<Rightarrow> (nat \<Rightarrow> nat \<Rightarrow> nat) \<Rightarrow> (nat \<Rightarrow> nat) \<Rightarrow> nat \<Rightarrow> bool" where
  "slots_ok N S Z fb \<longleftrightarrow>
     (\<forall>j \<in> {1..<N}. Z j \<le> MAXFILE * BSIZE \<and>
       (\<forall>k \<le> MAXFILE. (S j k \<noteq> 0 \<longleftrightarrow> held (Z j) k) \<and> (S j k \<noteq> 0 \<longrightarrow> used0 \<le> S j k \<and> S j k < fb))) \<and>
     (\<forall>i \<in> {1..<N}. \<forall>j \<in> {1..<N}. \<forall>k \<le> MAXFILE. \<forall>l \<le> MAXFILE. S i k = S j l \<and> S i k \<noteq> 0 \<longrightarrow> i = j \<and> k = l)"

definition lay :: "nat \<Rightarrow> (nat \<Rightarrow> nat \<Rightarrow> nat) \<Rightarrow> (nat \<Rightarrow> nat) \<Rightarrow> byte list list \<Rightarrow> nat \<Rightarrow> bool" where
  "lay N S Z im fb \<longleftrightarrow> slots_ok N S Z fb \<and> used0 \<le> fb \<and> fb \<le> length im \<and> (\<forall>d \<in> set im. length d = BSIZE) \<and>
     (\<forall>j \<in> {1..<N}. \<forall>n. Z j \<le> n \<and> n < nb (Z j) * 1024 \<longrightarrow> byte_at im (S j) n = 0) \<and>
     (\<forall>b. fb \<le> b \<and> b < length im \<longrightarrow> im ! b = replicate BSIZE 0)"

lemma used0_eq [simp]: "used0 = 16"
  by (simp add: used0_def ninodes_def IPB_def fs_size_def BSIZE_def)

lemma MAXFILE_eq: "MAXFILE = 268" "NDIRECT = 12" "BSIZE = 1024"
  by (simp_all add: MAXFILE_def NDIRECT_def NINDIRECT_def BSIZE_def)

lemma NDIRECT_le [simp]: "NDIRECT \<le> MAXFILE" "NDIRECT < MAXFILE" by (simp_all add: MAXFILE_eq)

lemma slots_okD:
  assumes "slots_ok N S Z fb" "1 \<le> j" "j < N"
  shows "Z j \<le> MAXFILE * BSIZE" "k \<le> MAXFILE \<Longrightarrow> S j k \<noteq> 0 \<longleftrightarrow> held (Z j) k" "k \<le> MAXFILE \<Longrightarrow> S j k \<noteq> 0 \<Longrightarrow> 16 \<le> S j k \<and> S j k < fb"
    "1 \<le> i \<Longrightarrow> i < N \<Longrightarrow> k \<le> MAXFILE \<Longrightarrow> l \<le> MAXFILE \<Longrightarrow> S i k = S j l \<Longrightarrow> S i k \<noteq> 0 \<Longrightarrow> i = j \<and> k = l"
  using assms unfolding slots_ok_def by (auto 0 3)

text \<open>The blocks the next byte of a file of \<open>z\<close> bytes needs: its block, the indirect block, and the next free block after that.\<close>

definition next_blocks :: "(nat \<Rightarrow> nat) \<Rightarrow> nat \<Rightarrow> nat \<Rightarrow> nat \<times> nat \<times> nat" where
  "next_blocks S z fb =
     (let k = z div 1024
      in if z mod 1024 \<noteq> 0 then (S k, S MAXFILE, fb)
         else if k = NDIRECT then (fb + 1, fb, fb + 2)
         else (fb, S MAXFILE, fb + 1))"

lemma nb_step:
  assumes "z < z'" "z' \<le> (z div 1024 + 1) * 1024"
  shows "nb z' = z div 1024 + 1" "nb z = z div 1024 + (if z mod 1024 = 0 then 0 else 1)"
proof -
  define k r where "k = z div 1024" and "r = z mod 1024"
  have z: "z = k * 1024 + r" "r < 1024" by (simp_all add: k_def r_def)
  show "nb z = z div 1024 + (if z mod 1024 = 0 then 0 else 1)"
    unfolding nb_def k_def [symmetric] r_def [symmetric] using z by (intro div_nat_eqI) auto
  show "nb z' = z div 1024 + 1"
    unfolding nb_def k_def [symmetric] using z assms(1) assms(2) [folded k_def] by (intro div_nat_eqI) auto
qed

text \<open>One iteration keeps the slots apart.\<close>

lemma slots_ok_step:
  assumes ok: "slots_ok N S Z fb" and i: "1 \<le> i" "i < N" and fb: "16 \<le> fb"
    and z: "Z i < z'" "z' \<le> (Z i div 1024 + 1) * 1024" "Z i div 1024 < MAXFILE"
    and nx: "next_blocks (S i) (Z i) fb = (x, ind, fb')"
    and S': "\<And>l. l \<le> MAXFILE \<Longrightarrow> S' l = (if l = Z i div 1024 then x else if l = MAXFILE \<and> NDIRECT \<le> Z i div 1024 then ind else S i l)"
  shows "slots_ok N (S(i := S')) (Z(i := z')) fb'"
proof -
  define k where "k = Z i div 1024"
  note D = slots_okD [OF ok] and nb = nb_step [OF z(1,2)]
  have le: "fb \<le> fb'" using nx by (auto simp: next_blocks_def Let_def split: if_splits)
  have old: "held (Z i) l \<longrightarrow> S' l = S i l" "held (Z i) l \<longrightarrow> held z' l" if "l \<le> MAXFILE" for l
    using nx S' [OF that] nb that z(3) unfolding held_def next_blocks_def Let_def by (auto split: if_splits)
  have zero: "\<not> held z' l \<longrightarrow> S' l = 0" if "l \<le> MAXFILE" for l
    using S' [OF that] nb that z(3) D(2) [OF i that] unfolding held_def by (auto split: if_splits)
  have new: "held z' l \<and> \<not> held (Z i) l \<longrightarrow> fb \<le> S' l \<and> S' l < fb'" if "l \<le> MAXFILE" for l
    using nx S' [OF that] nb that z(3) unfolding held_def next_blocks_def Let_def by (auto split: if_splits)
  have inj: "\<lbrakk>held z' l; \<not> held (Z i) l; held z' m; \<not> held (Z i) m; S' l = S' m\<rbrakk> \<Longrightarrow> l = m" if "l \<le> MAXFILE" "m \<le> MAXFILE" for l m
    using nx S' [OF that(1)] S' [OF that(2)] nb that z(3) unfolding held_def next_blocks_def Let_def by (auto split: if_splits)
  have zi: "z' \<le> MAXFILE * BSIZE"
  proof -
    have "(Z i div 1024 + 1) * 1024 \<le> MAXFILE * 1024" using z(3) by (intro mult_le_mono1) simp
    then show ?thesis using z(2) by (simp add: MAXFILE_eq(3))
  qed
  have Si: "S' l \<noteq> 0 \<longleftrightarrow> held z' l" "S' l \<noteq> 0 \<Longrightarrow> 16 \<le> S' l \<and> S' l < fb'" if l: "l \<le> MAXFILE" for l
    using old [OF l] zero [OF l] new [OF l] D(2,3) [OF i l] fb le by (cases "held (Z i) l"; cases "held z' l"; auto)+
  have S'old: "held (Z i) l \<and> S' l = S i l \<and> S i l < fb \<or> fb \<le> S' l \<and> \<not> held (Z i) l \<and> held z' l" if l: "l \<le> MAXFILE" "S' l \<noteq> 0" for l
    using old [OF l(1)] zero [OF l(1)] new [OF l(1)] D(2,3) [OF i l(1)] l(2) by (cases "held (Z i) l"; cases "held z' l"; auto)
  have inji: "l = m" if "l \<le> MAXFILE" "m \<le> MAXFILE" "S' l = S' m" "S' l \<noteq> 0" for l m
    using S'old [OF that(1,4)] S'old [OF that(2)] that inj [OF that(1,2)] D(4) [OF i i that(1,2)] D(2,3) [OF i that(1)] by auto
  have injo: "False" if "1 \<le> j" "j < N" "j \<noteq> i" "l \<le> MAXFILE" "m \<le> MAXFILE" "S' l = S j m" "S' l \<noteq> 0" for j l m
    using S'old [OF that(4,7)] that D(4) [OF that(1,2) i that(4,5)] D(3) [OF that(1,2,5)] by auto
  show ?thesis
    unfolding slots_ok_def
  proof (intro conjI ballI allI impI)
    fix j assume j: "j \<in> {1..<N}"
    show "(Z(i := z')) j \<le> MAXFILE * BSIZE" using zi D(1) j by simp
    fix l assume l: "l \<le> MAXFILE"
    show "((S(i := S')) j l \<noteq> 0) = held ((Z(i := z')) j) l" using Si(1) [OF l] D(2) [of j l] j l by simp
    assume "(S(i := S')) j l \<noteq> 0"
    then show "used0 \<le> (S(i := S')) j l" "(S(i := S')) j l < fb'" using Si(2) [OF l] D(3) [of j l] j l le by (auto split: if_splits)
  next
    fix a b k l assume a: "a \<in> {1..<N}" and b: "b \<in> {1..<N}" and k: "k \<le> MAXFILE" and l: "l \<le> MAXFILE"
      and eq: "(S(i := S')) a k = (S(i := S')) b l \<and> (S(i := S')) a k \<noteq> 0"
    have "a = b \<and> k = l"
    proof (cases "a = i"; cases "b = i")
      assume "a = i" "b = i"
      then show ?thesis using inji [OF k l] eq by simp
    next
      assume "a = i" "b \<noteq> i"
      then show ?thesis using injo [of b k l] eq b k l by simp
    next
      assume "a \<noteq> i" "b = i"
      then show ?thesis using injo [of a l k] eq a k l by simp
    next
      assume "a \<noteq> i" "b \<noteq> i"
      then show ?thesis using D(4) [of b a k l] eq a b k l by simp
    qed
    then show "a = b" "k = l" by simp_all
  qed
qed

text \<open>One iteration: the chunk \<open>c\<close> is written behind the end of the file, in a block that is new or has zeros there.\<close>

definition append_step :: "nat \<Rightarrow> (nat \<Rightarrow> nat \<Rightarrow> nat) \<Rightarrow> (nat \<Rightarrow> nat) \<Rightarrow> byte list list \<Rightarrow> nat \<Rightarrow> nat \<Rightarrow> byte list \<Rightarrow> nat \<Rightarrow> nat \<Rightarrow> nat \<Rightarrow> (nat \<Rightarrow> nat) \<Rightarrow>
    byte list list \<Rightarrow> bool" where
  "append_step N S Z im fb i c x ind fb' S' im' \<longleftrightarrow> lay N S Z im fb \<and> 1 \<le> i \<and> i < N \<and> 0 < length c \<and>
     Z i + length c \<le> (Z i div 1024 + 1) * 1024 \<and> Z i div 1024 < MAXFILE \<and> next_blocks (S i) (Z i) fb = (x, ind, fb') \<and> fb' \<le> length im \<and>
     (\<forall>l \<le> MAXFILE. S' l = (if l = Z i div 1024 then x else if l = MAXFILE \<and> NDIRECT \<le> Z i div 1024 then ind else S i l)) \<and>
     length im' = length im \<and> (\<forall>b < length im. b \<noteq> x \<and> \<not> (NDIRECT \<le> Z i div 1024 \<and> b = ind) \<longrightarrow> im' ! b = im ! b) \<and>
     im' ! x = splice (Z i mod 1024) c (im ! x) \<and> (NDIRECT \<le> Z i div 1024 \<longrightarrow> length (im' ! ind) = BSIZE)"

lemma append_stepD:
  assumes "append_step N S Z im fb i c x ind fb' S' im'"
  shows "lay N S Z im fb" "1 \<le> i" "i < N" "0 < length c" "Z i + length c \<le> (Z i div 1024 + 1) * 1024" "Z i div 1024 < MAXFILE"
    "next_blocks (S i) (Z i) fb = (x, ind, fb')" "fb' \<le> length im"
    "l \<le> MAXFILE \<Longrightarrow> S' l = (if l = Z i div 1024 then x else if l = MAXFILE \<and> NDIRECT \<le> Z i div 1024 then ind else S i l)"
    "length im' = length im" "b < length im \<Longrightarrow> b \<noteq> x \<Longrightarrow> \<not> (NDIRECT \<le> Z i div 1024 \<and> b = ind) \<Longrightarrow> im' ! b = im ! b"
    "im' ! x = splice (Z i mod 1024) c (im ! x)" "NDIRECT \<le> Z i div 1024 \<Longrightarrow> length (im' ! ind) = BSIZE"
  using assms unfolding append_step_def by auto

lemma layD:
  assumes "lay N S Z im fb"
  shows "slots_ok N S Z fb" "16 \<le> fb" "fb \<le> length im" "b < length im \<Longrightarrow> length (im ! b) = 1024"
    "1 \<le> j \<Longrightarrow> j < N \<Longrightarrow> Z j \<le> n \<Longrightarrow> n < nb (Z j) * 1024 \<Longrightarrow> byte_at im (S j) n = 0"
    "fb \<le> b \<Longrightarrow> b < length im \<Longrightarrow> im ! b = replicate 1024 0"
  using assms by (auto simp: lay_def MAXFILE_eq(3))

text \<open>The blocks the iteration writes: inside the image, outside the area of the metadata, apart from each other and from the blocks of
  other files.\<close>

lemma append_step_blocks:
  assumes A: "append_step N S Z im fb i c x ind fb' S' im'"
  shows "slots_ok N (S(i := S')) (Z(i := Z i + length c)) fb'" "fb \<le> fb'" "x \<noteq> 0" "16 \<le> x" "x < fb'"
    "NDIRECT \<le> Z i div 1024 \<Longrightarrow> ind \<noteq> x \<and> 16 \<le> ind \<and> ind < fb'"
    "\<lbrakk>l \<le> MAXFILE; S' l \<noteq> 0; l \<noteq> Z i div 1024\<rbrakk> \<Longrightarrow> S' l \<noteq> x"
    "\<lbrakk>l < MAXFILE; S' l \<noteq> 0; NDIRECT \<le> Z i div 1024\<rbrakk> \<Longrightarrow> S' l \<noteq> ind"
    "\<lbrakk>1 \<le> j; j < N; j \<noteq> i; l \<le> MAXFILE; S j l \<noteq> 0\<rbrakk> \<Longrightarrow> im' ! S j l = im ! S j l"
proof -
  define k where "k = Z i div 1024"
  note D = append_stepD [OF A] and L = layD [OF append_stepD(1) [OF A]]
  have z: "Z i < Z i + length c" using D(4) by simp
  have S': "l \<le> MAXFILE \<Longrightarrow> S' l = (if l = Z i div 1024 then x else if l = MAXFILE \<and> NDIRECT \<le> Z i div 1024 then ind else S i l)" for l
    by (rule D(9))
  show ok': "slots_ok N (S(i := S')) (Z(i := Z i + length c)) fb'"
    by (rule slots_ok_step [OF L(1) D(2,3) L(2) z D(5-7) S'])
  show le: "fb \<le> fb'" using D(7) by (auto simp: next_blocks_def Let_def split: if_splits)
  note nb = nb_step [OF z D(5), folded k_def]
  have Di: "S' l \<noteq> 0 \<longleftrightarrow> held (Z i + length c) l" "S' l \<noteq> 0 \<Longrightarrow> 16 \<le> S' l \<and> S' l < fb'" if "l \<le> MAXFILE" for l
    using slots_okD(2,3) [OF ok' D(2,3) that] by simp_all
  have Dii: "l = m" if "l \<le> MAXFILE" "m \<le> MAXFILE" "S' l = S' m" "S' l \<noteq> 0" for l m
    using slots_okD(4) [OF ok' D(2,3) D(2,3) that(1,2)] that by simp
  have Dij: "S j m \<noteq> S' l" if "1 \<le> j" "j < N" "j \<noteq> i" "l \<le> MAXFILE" "m \<le> MAXFILE" "S j m \<noteq> 0" for j l m
    using slots_okD(4) [OF ok' that(1,2) D(2,3) that(4,5)] that by auto
  have Sx: "S' k = x" "k < MAXFILE" "k \<le> MAXFILE" using S' [of k] D(6) by (auto simp: k_def)
  show x: "x \<noteq> 0" "16 \<le> x" "x < fb'" using Di [of k] Sx nb by (auto simp: held_def)
  have ind: "S' MAXFILE = ind" "ind \<noteq> 0" if "NDIRECT \<le> k" using S' [of MAXFILE] Di [of MAXFILE] Sx that nb by (auto simp: k_def held_def)
  show "ind \<noteq> x \<and> 16 \<le> ind \<and> ind < fb'" if "NDIRECT \<le> Z i div 1024"
    using Di(2) [of MAXFILE] Dii [of MAXFILE k] ind Sx that by (auto simp: k_def)
  show "S' l \<noteq> x" if "l \<le> MAXFILE" "S' l \<noteq> 0" "l \<noteq> Z i div 1024" for l using Dii [of l k] Sx that by (auto simp: k_def)
  show "S' l \<noteq> ind" if "l < MAXFILE" "S' l \<noteq> 0" "NDIRECT \<le> Z i div 1024" for l using Dii [of l MAXFILE] ind that by (auto simp: k_def)
  show "im' ! S j l = im ! S j l" if j: "1 \<le> j" "j < N" "j \<noteq> i" and l: "l \<le> MAXFILE" "S j l \<noteq> 0" for j l
  proof (rule D(11))
    show "S j l < length im" using slots_okD(3) [OF L(1) j(1,2) l] L(3) by simp
    show "S j l \<noteq> x" "\<not> (NDIRECT \<le> Z i div 1024 \<and> S j l = ind)"
      using Dij [OF j, of k l] Dij [OF j, of MAXFILE l] Sx ind l by (auto simp: k_def)
  qed
qed

lemma chunk_fits: "z + c \<le> (z div 1024 + 1) * 1024 \<Longrightarrow> z mod 1024 + c \<le> (1024 :: nat)"
proof -
  define k r where "k = z div 1024" and "r = z mod 1024"
  have "z = k * 1024 + r" by (simp add: k_def r_def)
  moreover assume "z + c \<le> (z div 1024 + 1) * 1024"
  ultimately show ?thesis unfolding k_def [symmetric] r_def [symmetric] by (simp add: add_mult_distrib)
qed

text \<open>Behind the end of the file its last block is zero.\<close>

lemma append_step_zero:
  assumes A: "append_step N S Z im fb i c x ind fb' S' im'" and q: "Z i mod 1024 \<le> q" "q < 1024"
  shows "im ! x ! q = 0"
proof (cases "Z i mod 1024 = 0")
  case True
  then have "fb \<le> x" using append_stepD(7) [OF A] by (auto simp: next_blocks_def Let_def split: if_splits)
  then show ?thesis using layD(6) [OF append_stepD(1) [OF A]] append_step_blocks(5) [OF A] append_stepD(8) [OF A] q by simp
next
  case False
  define k where "k = Z i div 1024"
  have kr: "Z i = k * 1024 + Z i mod 1024" by (simp add: k_def)
  have x: "x = S i k" using append_stepD(7) [OF A] False by (auto simp: next_blocks_def Let_def k_def)
  have "nb (Z i) = k + 1" using nb_step(2) [of "Z i" "Z i + length c"] append_stepD(4,5) [OF A] False by (simp add: k_def)
  then have "byte_at im (S i) (k * 1024 + q) = 0"
    using layD(5) [OF append_stepD(1-3) [OF A], of "k * 1024 + q"] q kr by simp
  then show ?thesis using q by (simp add: byte_at_def x)
qed

lemma append_step_bytes:
  assumes A: "append_step N S Z im fb i c x ind fb' S' im'" and n: "n < (Z i div 1024 + 1) * 1024"
  shows "byte_at im' S' n = (if n < Z i then byte_at im (S i) n else if n < Z i + length c then c ! (n - Z i) else 0)"
proof (cases "n div 1024 = Z i div 1024")
  case True
  define k r q where "k = Z i div 1024" and "r = Z i mod 1024" and "q = n mod 1024"
  note D = append_stepD [OF A] and B = append_step_blocks [OF A]
  have nq: "n = k * 1024 + q" unfolding k_def q_def using True by (metis div_mult_mod_eq)
  have kr: "Z i = k * 1024 + r" "r < 1024" "q < 1024" by (simp_all add: k_def r_def q_def)
  have lx: "length (im ! x) = 1024" using layD(4) [OF D(1), of x] B(5) D(8) by simp
  have lc: "r + length c \<le> 1024" unfolding r_def by (rule chunk_fits [OF D(5)])
  have "S' k = x" using D(6) D(9) [of k] by (simp add: k_def)
  then have "byte_at im' S' n = splice r c (im ! x) ! q" using True D(12) by (simp add: byte_at_def r_def q_def k_def)
  also have "\<dots> = (if n < Z i then im ! x ! q else if n < Z i + length c then c ! (n - Z i) else im ! x ! q)"
    using lx lc kr nq by (subst nth_splice) auto
  also have "\<dots> = (if n < Z i then byte_at im (S i) n else if n < Z i + length c then c ! (n - Z i) else 0)"
  proof -
    have "x = S i k" if "n < Z i" 
    proof -
      have "r \<noteq> 0" using that kr nq by linarith
      then show ?thesis using D(7) by (auto simp: next_blocks_def Let_def r_def k_def)
    qed
    moreover have "im ! x ! q = 0" if "\<not> n < Z i" by (rule append_step_zero [OF A, folded r_def]) (use that kr nq in linarith)+
    ultimately show ?thesis using True by (simp add: byte_at_def q_def k_def)
  qed
  finally show ?thesis .
next
  case False
  note D = append_stepD [OF A] and B = append_step_blocks [OF A]
  have z: "Z i < Z i + length c" using D(4) by simp
  have lt: "n div 1024 < Z i div 1024" using n False by (metis less_mult_imp_div_less less_Suc_eq Suc_eq_plus1)
  have nz: "n < Z i" using lt by (meson div_le_mono not_less)
  have h: "held (Z i) (n div 1024)" "n div 1024 < MAXFILE" using lt nb_step(2) [OF z D(5)] D(6) by (auto simp: held_def)
  have s: "S' (n div 1024) = S i (n div 1024)" "S i (n div 1024) \<noteq> 0"
    using D(9) [of "n div 1024"] False h slots_okD(2) [OF layD(1) [OF D(1)] D(2,3), of "n div 1024"] by auto
  have "im' ! S i (n div 1024) = im ! S i (n div 1024)"
  proof (rule D(11))
    show "S i (n div 1024) < length im" using slots_okD(3) [OF layD(1) [OF D(1)] D(2,3), of "n div 1024"] layD(3) [OF D(1)] s(2) h(2) by simp
    show "S i (n div 1024) \<noteq> x" "\<not> (NDIRECT \<le> Z i div 1024 \<and> S i (n div 1024) = ind)"
      using B(7) [of "n div 1024"] B(8) [of "n div 1024"] s h(2) False by auto
  qed
  then show ?thesis using nz s by (simp add: byte_at_def)
qed

lemma append_step_lay:
  assumes A: "append_step N S Z im fb i c x ind fb' S' im'"
  shows "lay N (S(i := S')) (Z(i := Z i + length c)) im' fb'"
    "\<lbrakk>1 \<le> j; j < N; j \<noteq> i; n < nb (Z j) * 1024\<rbrakk> \<Longrightarrow> byte_at im' (S j) n = byte_at im (S j) n"
    "b < 16 \<Longrightarrow> im' ! b = im ! b"
proof -
  note D = append_stepD [OF A] and B = append_step_blocks [OF A] and L = layD [OF append_stepD(1) [OF A]]
  have z: "Z i < Z i + length c" using D(4) by simp
  show oth: "byte_at im' (S j) n = byte_at im (S j) n" if j: "1 \<le> j" "j < N" "j \<noteq> i" "n < nb (Z j) * 1024" for j n
  proof -
    have "n div 1024 < nb (Z j)" "nb (Z j) \<le> MAXFILE" using less_mult_imp_div_less [OF j(4)] slots_okD(1) [OF L(1) j(1,2)] by (simp_all add: nb_def MAXFILE_eq)
    then show ?thesis using B(9) [OF j(1-3), of "n div 1024"] slots_okD(2) [OF L(1) j(1,2), of "n div 1024"] by (simp add: byte_at_def held_def)
  qed
  have r: "Z i mod 1024 + length c \<le> 1024" by (rule chunk_fits [OF D(5)])
  have "length (im' ! b) = BSIZE" if b: "b < length im" for b
  proof -
    consider "b = x" | "NDIRECT \<le> Z i div 1024 \<and> b = ind" | "im' ! b = im ! b" using D(11) [OF b] by auto
    then show ?thesis using b D(12,13) r L(4) by cases (auto simp: MAXFILE_eq(3))
  qed
  then have len: "\<forall>d \<in> set im'. length d = BSIZE" using D(10) by (auto simp: in_set_conv_nth)
  have zero: "im' ! b = replicate BSIZE 0" if "fb' \<le> b" "b < length im" for b
    using D(11) [OF that(2)] L(6) [of b] that B(2,5,6) by (cases "NDIRECT \<le> Z i div 1024") (auto simp: MAXFILE_eq(3))
  have "byte_at im' ((S(i := S')) j) n = 0" if j: "1 \<le> j" "j < N" "(Z(i := Z i + length c)) j \<le> n" "n < nb ((Z(i := Z i + length c)) j) * 1024" for j n
  proof (cases "j = i")
    case True
    then show ?thesis using append_step_bytes [OF A, of n] j nb_step(1) [OF z D(5)] by simp
  next
    case False
    then show ?thesis using oth [OF j(1,2)] L(5) [OF j(1,2)] j by simp
  qed
  then show "lay N (S(i := S')) (Z(i := Z i + length c)) im' fb'"
    using B(1,2) len L(2) D(8,10) zero unfolding lay_def by auto
  show "im' ! b = im ! b" if "b < 16" for b using D(11) [of b] that B(4,6) L(2,3) by (cases "NDIRECT \<le> Z i div 1024") auto
qed

section \<open>Finding or allocating a block\<close>

lemma img_wsect: "b < length (img s) \<Longrightarrow> img (wsect b d s) = (img s)[b := d]"
  by (simp add: wsect_def)

lemma wsect_fields [simp]: "freeblock (wsect b d s) = freeblock s" "usedblocks (wsect b d s) = usedblocks s" "freeinode (wsect b d s) = freeinode s"
  by (simp_all add: wsect_def)

lemma take_block_fields [simp]: "img (take_block s) = img s" "freeinode (take_block s) = freeinode s"
  "freeblock s < 2 ^ 32 - 1 \<Longrightarrow> freeblock (take_block s) = freeblock s + 1" "usedblocks s < 2 ^ 32 - 1 \<Longrightarrow> usedblocks (take_block s) = usedblocks s + 1"
  by (simp_all add: take_block_def)

lemma addr_put:
  assumes "length din = DINODE_SIZE" "k \<le> NDIRECT" "l \<le> NDIRECT"
  shows "addr (put_u32 (12 + 4 * k) v din) l = (if l = k then v mod 2 ^ 32 else addr din l)"
proof (cases "l = k")
  case False
  then have "12 + 4 * l + 4 \<le> 12 + 4 * k \<or> 12 + 4 * k + 4 \<le> 12 + 4 * l" by linarith
  then show ?thesis using False assms by (simp add: addr_def get_put_disj DINODE_SIZE_def MAXFILE_eq)
qed (use assms in \<open>simp add: addr_def get_put_u32_same DINODE_SIZE_def MAXFILE_eq\<close>)

lemma entry_put:
  assumes "length d = BSIZE" "k < 256" "l < 256"
  shows "get_u32 (4 * l) (put_u32 (4 * k) v d) = (if l = k then v mod 2 ^ 32 else get_u32 (4 * l) d)"
proof (cases "l = k")
  case False
  then have "4 * l + 4 \<le> 4 * k \<or> 4 * k + 4 \<le> 4 * l" by linarith
  then show ?thesis using False assms by (simp add: get_put_disj MAXFILE_eq)
qed (use assms in \<open>simp add: get_put_u32_same MAXFILE_eq\<close>)

text \<open>The fields of an inode other than its addresses.\<close>

definition same_head :: "byte list \<Rightarrow> byte list \<Rightarrow> bool" where
  "same_head din din' \<longleftrightarrow> length din' = length din \<and> (\<forall>p \<le> 6. get_u16 p din' = get_u16 p din)"

lemma same_head_put: "length din = DINODE_SIZE \<Longrightarrow> k \<le> NDIRECT \<Longrightarrow> same_head din (put_u32 (12 + 4 * k) v din)"
  "length din = DINODE_SIZE \<Longrightarrow> same_head din (put_u32 8 v din)"
  by (auto simp: same_head_def get_put_disj DINODE_SIZE_def MAXFILE_eq)

lemma same_head_trans: "same_head a b \<Longrightarrow> same_head b c \<Longrightarrow> same_head a c" by (simp add: same_head_def)

lemma slot_direct:
  "k < NDIRECT \<Longrightarrow> slot im din k = addr din k" "slot im din MAXFILE = addr din NDIRECT"
  "NDIRECT \<le> k \<Longrightarrow> k < MAXFILE \<Longrightarrow> slot im din k = (if addr din NDIRECT = 0 then 0 else get_u32 (4 * (k - NDIRECT)) (im ! addr din NDIRECT))"
  by (simp_all add: slot_def MAXFILE_eq)

text \<open>What \<open>iappend_addr\<close> delivers: the block, and a state in which it has its slot.\<close>

definition found :: "nat \<Rightarrow> byte list \<Rightarrow> mkfs_state \<Rightarrow> (nat \<Rightarrow> nat) \<Rightarrow> nat \<Rightarrow> nat \<Rightarrow> nat \<Rightarrow> byte list \<Rightarrow> mkfs_state \<Rightarrow> bool" where
  "found k din s S x ind fb' din' s' \<longleftrightarrow>
     same_head din din' \<and> freeblock s' = fb' \<and> usedblocks s' = fb' \<and> freeinode s' = freeinode s \<and> length (img s') = length (img s) \<and>
     (\<forall>b. \<not> (NDIRECT \<le> k \<and> b = ind) \<longrightarrow> img s' ! b = img s ! b) \<and> (NDIRECT \<le> k \<longrightarrow> length (img s' ! ind) = BSIZE) \<and>
     (\<forall>im. (NDIRECT \<le> k \<longrightarrow> im ! ind = img s' ! ind) \<longrightarrow>
       (\<forall>l \<le> MAXFILE. slot im din' l = (if l = k then x else if l = MAXFILE \<and> NDIRECT \<le> k then ind else S l)))"

lemma iappend_addr_direct:
  assumes sl: "\<And>l. l \<le> MAXFILE \<Longrightarrow> slot (img s) din l = S l" and len: "length din = DINODE_SIZE"
    and k: "k < NDIRECT" and hd: "\<And>l. NDIRECT \<le> l \<Longrightarrow> l \<le> MAXFILE \<Longrightarrow> S l = 0"
    and fb: "freeblock s = fb" "usedblocks s = fb" "fb < 2 ^ 32 - 1"
    and x: "if S k = 0 then x = fb \<and> fb' = fb + 1 else x = S k \<and> fb' = fb"
  shows "\<exists>din' s'. iappend_addr k din s = Inr (x, din', s') \<and> found k din s S x ind fb' din' s'"
proof -
  have a: "addr din l = S l" if "l < NDIRECT" for l using sl [of l] that by (simp add: slot_direct less_imp_le [OF less_trans [OF _ NDIRECT_le(2)]])
  have ai: "addr din NDIRECT = 0" using sl [of MAXFILE] hd [of MAXFILE] by (simp add: slot_direct)
  define din' where "din' = (if S k = 0 then put_u32 (12 + 4 * k) fb din else din)"
  define s' where "s' = (if S k = 0 then take_block s else s)"
  have a': "addr din' l = (if l = k then x else if l = NDIRECT then 0 else S l)" if "l \<le> NDIRECT" for l
    using that k x fb(3) a [of l] ai addr_put [OF len _ that, of k fb] by (auto simp: din'_def)
  have "iappend_addr k din s = Inr (x, din', s')"
    using k a [OF k] a' [of k] x fb by (auto simp: iappend_addr_def din'_def s'_def)
  moreover have "slot im din' l = (if l = k then x else S l)" if "l \<le> MAXFILE" for im l
    using that a' [of l] a' [of NDIRECT] hd [of l] k unfolding slot_def by (auto simp: MAXFILE_eq)
  moreover have "same_head din din'" using same_head_put(1) [OF len, of k fb] k by (simp add: din'_def same_head_def)
  moreover have "freeblock s' = fb'" "usedblocks s' = fb'" "img s' = img s" "freeinode s' = freeinode s"
    using fb x by (auto simp: s'_def)
  ultimately show ?thesis using k by (auto simp: found_def)
qed

lemma iappend_addr_indirect:
  assumes sl: "\<And>l. l \<le> MAXFILE \<Longrightarrow> slot (img s) din l = S l" and len: "length din = DINODE_SIZE" "\<forall>d \<in> set (img s). length d = BSIZE"
    and k: "NDIRECT \<le> k" "k < MAXFILE" and fb: "freeblock s = fb" "usedblocks s = fb" "fb + 2 < 2 ^ 32" "0 < fb"
    and i: "if S MAXFILE = 0 then ind = fb \<and> img s ! ind = replicate BSIZE 0 \<and> f1 = fb + 1 \<and> S k = 0 else ind = S MAXFILE \<and> f1 = fb"
    and x: "if S k = 0 then x = f1 \<and> fb' = f1 + 1 else x = S k \<and> fb' = f1" and room: "ind < length (img s)"
  shows "\<exists>din' s'. iappend_addr k din s = Inr (x, din', s') \<and> found k din s S x ind fb' din' s'"
proof -
  have a: "addr din l = S l" if "l < NDIRECT" for l using sl [of l] that by (simp add: slot_direct less_imp_le [OF less_trans [OF _ NDIRECT_le(2)]])
  have ai: "addr din NDIRECT = S MAXFILE" using sl [of MAXFILE] by (simp add: slot_direct)
  define din' where "din' = (if S MAXFILE = 0 then put_u32 (12 + 4 * NDIRECT) fb din else din)"
  define s1 where "s1 = (if S MAXFILE = 0 then take_block s else s)"
  have s1: "img s1 = img s" "freeblock s1 = f1" "usedblocks s1 = f1" "freeinode s1 = freeinode s" using fb i by (auto simp: s1_def)
  have f1: "f1 + 1 < 2 ^ 32" using i fb by (auto split: if_splits)
  have a': "addr din' l = (if l = NDIRECT then ind else S l)" if "l \<le> NDIRECT" for l
    using that i fb(3) a [of l] ai addr_put [OF len(1) _ that, of NDIRECT fb] by (auto simp: din'_def)
  have ind0: "ind \<noteq> 0" using i fb(4) by (auto split: if_splits)
  have lind: "length (img s ! ind) = BSIZE" using len(2) room by simp
  have ent: "get_u32 (4 * (l - NDIRECT)) (img s ! ind) = S l" if l: "NDIRECT \<le> l" "l < MAXFILE" for l
  proof (cases "S MAXFILE = 0")
    case True
    have "get_u32 (4 * (l - NDIRECT)) (replicate BSIZE 0) = 0" using l by (intro get_u32_zeros) (simp add: MAXFILE_eq)
    moreover have "S l = 0" using sl [of l] l True ai by (simp add: slot_direct)
    ultimately show ?thesis using i True by auto
  next
    case False
    then show ?thesis using sl [of l] l i ai by (simp add: slot_direct)
  qed
  define d where "d = (if S k = 0 then put_u32 (4 * (k - NDIRECT)) f1 (img s ! ind) else img s ! ind)"
  define s' where "s' = (if S k = 0 then wsect ind d (take_block s1) else s1)"
  have kk: "k - NDIRECT < 256" using k by (simp add: MAXFILE_eq)
  have d: "length d = BSIZE" "get_u32 (4 * (l - NDIRECT)) d = (if l = k then x else S l)" if l: "NDIRECT \<le> l" "l < MAXFILE" for l
  proof -
    show "length d = BSIZE" using lind kk by (simp add: d_def MAXFILE_eq)
    have "l - NDIRECT < 256" "l - NDIRECT = k - NDIRECT \<longleftrightarrow> l = k" using l k by (auto simp: MAXFILE_eq)
    then show "get_u32 (4 * (l - NDIRECT)) d = (if l = k then x else S l)"
      using entry_put [OF lind kk, of "l - NDIRECT" f1] ent [OF l] x f1 by (auto simp: d_def)
  qed
  have run: "iappend_addr k din s = Inr (x, din', s')"
  proof -
    have c: "(if addr din NDIRECT = 0 then (put_u32 (12 + 4 * NDIRECT) (freeblock s) din, take_block s) else (din, s)) = (din', s1)"
      using ai fb by (simp add: din'_def s1_def)
    have r: "rsect (addr din' NDIRECT) s1 = Inr (img s ! ind)" using a' [of NDIRECT] s1(1) room by (simp add: rsect_def)
    have "(if get_u32 (4 * (k - NDIRECT)) (img s ! ind) = 0
        then let indirect = put_u32 (4 * (k - NDIRECT)) (freeblock s1) (img s ! ind) in (indirect, wsect (addr din' NDIRECT) indirect (take_block s1))
        else (img s ! ind, s1)) = (d, s')"
      using ent [OF k] s1(2) a' [of NDIRECT] by (simp add: d_def s'_def Let_def)
    then show ?thesis using k(1) c r d(2) [OF k] by (simp add: iappend_addr_def)
  qed
  have s': "img s' = (img s)[ind := d]" "freeblock s' = fb'" "usedblocks s' = fb'" "freeinode s' = freeinode s"
    using s1 x f1 room by (auto simp: s'_def img_wsect d_def)
  moreover have "slot im din' l = (if l = k then x else if l = MAXFILE then ind else S l)" if "im ! ind = d" "l \<le> MAXFILE" for im l
  proof -
    consider "l < NDIRECT" | "NDIRECT \<le> l" "l < MAXFILE" | "l = MAXFILE" using \<open>l \<le> MAXFILE\<close> by linarith
    then show ?thesis using that a' d(2) k ind0 by cases (auto simp: slot_direct)
  qed
  moreover have "same_head din din'" using same_head_put(1) [OF len(1), of NDIRECT fb] by (simp add: din'_def same_head_def)
  ultimately show ?thesis using run room d(1) [OF k] k by (auto simp: found_def)
qed

end
