(* ===== verification/Mkfs_Append.thy ===== *)
theory Mkfs_Append
  imports Mkfs_Lay
begin

text \<open>
  \<open>iappend\<close>, \<open>ialloc\<close> and with them all of \<open>mkfs\<close> on files as byte strings: \<open>fsimage s N C T\<close> says that the image under construction
  holds the inodes \<open>1, \<dots>, N - 1\<close> with contents \<open>C\<close> and types \<open>T\<close>, in blocks of their own, and that the blocks in use are
  exactly those the contents need.
\<close>

section \<open>One iteration of \<open>iappend\<close>\<close>

lemma iappend_addr_run:
  assumes L: "lay N S Z (img s) fb" and i: "1 \<le> i" "i < N" and k: "Z i div 1024 < MAXFILE"
    and sl: "\<And>l. l \<le> MAXFILE \<Longrightarrow> slot (img s) din l = S i l" "length din = DINODE_SIZE"
    and fb: "freeblock s = fb" "usedblocks s = fb" "length (img s) < 2 ^ 31"
    and nx: "next_blocks (S i) (Z i) fb = (x, ind, fb')" and room: "fb' \<le> length (img s)"
  shows "\<exists>din' s'. iappend_addr (Z i div 1024) din s = Inr (x, din', s') \<and> found (Z i div 1024) din s (S i) x ind fb' din' s'"
proof -
  define k where "k = Z i div 1024"
  have l: "16 \<le> fb" "fb \<le> length (img s)" "\<forall>d \<in> set (img s). length d = BSIZE" "slots_ok N S Z fb"
    "\<And>b. fb \<le> b \<Longrightarrow> b < length (img s) \<Longrightarrow> img s ! b = replicate BSIZE 0" using L by (simp_all add: lay_def)
  note nb = nb_step(2) [of "Z i" "Z i + 1"]
  have nbi: "nb (Z i) = k + (if Z i mod 1024 = 0 then 0 else 1)" using nb dividend_less_div_times [of 1024 "Z i"] by (simp add: k_def)
  have S: "S i l \<noteq> 0 \<longleftrightarrow> held (Z i) l" if "l \<le> MAXFILE" for l using slots_okD(2) [OF l(4) i that] .
  have kM: "k < MAXFILE" using k by (simp add: k_def)
  show ?thesis
  proof (cases "k < NDIRECT")
    case True
    have "S i l = 0" if "NDIRECT \<le> l" "l \<le> MAXFILE" for l using S [OF that(2)] that True nbi by (auto simp: held_def split: if_splits)
    moreover have "if S i k = 0 then x = fb \<and> fb' = fb + 1 else x = S i k \<and> fb' = fb"
      using nx S [of k] kM True nbi by (auto simp: next_blocks_def Let_def k_def [symmetric] held_def split: if_splits)
    ultimately show ?thesis
      using iappend_addr_direct [of s din "S i" k fb x fb' ind, OF sl True _ fb(1,2)] l(1,2) fb(3) unfolding k_def by simp
  next
    case False
    have Sk: "S i k = 0 \<longleftrightarrow> Z i mod 1024 = 0" "S i MAXFILE = 0 \<longleftrightarrow> k = NDIRECT \<and> Z i mod 1024 = 0"
      using S [of k] S [of MAXFILE] kM False nbi NDIRECT_le by (cases "Z i mod 1024 = 0"; auto simp: held_def)+
    have c: "if Z i mod 1024 \<noteq> 0 then x = S i k \<and> ind = S i MAXFILE \<and> fb' = fb
        else if k = NDIRECT then x = fb + 1 \<and> ind = fb \<and> fb' = fb + 2 else x = fb \<and> ind = S i MAXFILE \<and> fb' = fb + 1"
      using nx by (auto simp: next_blocks_def Let_def k_def [symmetric] split: if_splits)
    have ind: "ind < length (img s)" using c room l(2) slots_okD(3) [OF l(4) i, of MAXFILE] Sk(2) by (auto split: if_splits)
    define f1 where "f1 = (if S i MAXFILE = 0 then fb + 1 else fb)"
    have "if S i MAXFILE = 0 then ind = fb \<and> img s ! ind = replicate BSIZE 0 \<and> f1 = fb + 1 \<and> S i k = 0 else ind = S i MAXFILE \<and> f1 = fb"
      using c Sk l(5) [of ind] ind by (auto simp: f1_def split: if_splits)
    moreover have "if S i k = 0 then x = f1 \<and> fb' = f1 + 1 else x = S i k \<and> fb' = f1" using c Sk by (auto simp: f1_def split: if_splits)
    ultimately show ?thesis
      using iappend_addr_indirect [of s din "S i" k fb ind f1 x fb', OF sl l(3) _ kM fb(1,2) _ _ _ _ ind] False l(1,2) fb(3) unfolding k_def by simp
  qed
qed

lemma next_blocks_count:
  assumes "next_blocks S z fb = (x, ind, fb')" "z < z'" "z' \<le> (z div 1024 + 1) * 1024"
  shows "fb' + nblk z = fb + nblk z'"
  using assms(1) nb_step [OF assms(2,3)] by (auto simp: next_blocks_def Let_def nblk_def split: if_splits)

definition files :: "mkfs_state \<Rightarrow> (nat \<Rightarrow> byte list) \<Rightarrow> nat \<Rightarrow> (nat \<Rightarrow> byte list) \<Rightarrow> bool" where
  "files s D N C \<longleftrightarrow>
     lay N (\<lambda>j. slot (img s) (D j)) (\<lambda>j. length (C j)) (img s) (freeblock s) \<and> usedblocks s = freeblock s \<and>
     freeblock s = used0 + (\<Sum>j = 1..<N. nblk (length (C j))) \<and> length (img s) = fs_size \<and>
     (\<forall>j \<in> {1..<N}. length (D j) = DINODE_SIZE \<and> (\<forall>n < length (C j). byte_at (img s) (slot (img s) (D j)) n = C j ! n))"

lemma filesD:
  assumes "files s D N C"
  shows "length (img s) = fs_size" "\<forall>d \<in> set (img s). length d = BSIZE" "1 \<le> j \<Longrightarrow> j < N \<Longrightarrow> length (D j) = DINODE_SIZE"
    "1 \<le> j \<Longrightarrow> j < N \<Longrightarrow> n < length (C j) \<Longrightarrow> byte_at (img s) (slot (img s) (D j)) n = C j ! n"
  using assms by (simp_all add: files_def lay_def)

lemma sum_nblk_upd:
  fixes i N :: nat
  assumes "1 \<le> i" "i < N"
  shows "(\<Sum>j = 1..<N. nblk (length ((C(i := c)) j))) + nblk (length (C i)) = (\<Sum>j = 1..<N. nblk (length (C j))) + nblk (length c)"
proof -
  have "i \<in> {1..<N}" using assms by simp
  from sum.remove [OF finite_atLeastLessThan this, of "\<lambda>j. nblk (length (C j))"]
    sum.remove [OF finite_atLeastLessThan this, of "\<lambda>j. nblk (length ((C(i := c)) j))"]
  show ?thesis by (simp add: sum.cong [of "{1..<N} - {i}" "{1..<N} - {i}" "\<lambda>j. nblk (length ((C(i := c)) j))" "\<lambda>j. nblk (length (C j))"])
qed

lemma lay_cong:
  assumes "\<And>j. 1 \<le> j \<Longrightarrow> j < N \<Longrightarrow> S j = S' j"
  shows "lay N S Z im fb = lay N S' Z im fb"
  unfolding lay_def slots_ok_def using assms by simp

lemma next_blocks_apart:
  assumes "slots_ok N S Z fb" "1 \<le> i" "i < N" "16 \<le> fb" "Z i div 1024 < MAXFILE" "next_blocks (S i) (Z i) fb = (x, ind, fb')"
  shows "ind \<noteq> x"
proof (cases "Z i mod 1024 = 0")
  case True
  then show ?thesis using assms(4,6) slots_okD(3) [OF assms(1-3), of MAXFILE]
    by (cases "S i MAXFILE = 0") (auto simp: next_blocks_def Let_def split: if_splits)
next
  case False
  have "Z i < (Z i div 1024 + 1) * 1024" using dividend_less_div_times [of 1024 "Z i"] by simp
  then have "held (Z i) (Z i div 1024)" using nb_step(2) [of "Z i" "Z i + 1"] False by (simp add: held_def)
  then have "S i (Z i div 1024) \<noteq> 0" using slots_okD(2) [OF assms(1-3), of "Z i div 1024"] assms(5) by simp
  then show ?thesis
    using slots_okD(4) [OF assms(1-3) assms(2,3), of "Z i div 1024" MAXFILE] assms(5,6) False by (auto simp: next_blocks_def Let_def)
qed

text \<open>What an operation on the content of one file leaves alone.\<close>

definition kept :: "mkfs_state \<Rightarrow> mkfs_state \<Rightarrow> bool" where
  "kept s s' \<longleftrightarrow> freeinode s' = freeinode s \<and> (\<forall>b < used0. img s' ! b = img s ! b)"

lemma kept_trans: "kept a b \<Longrightarrow> kept b c \<Longrightarrow> kept a c" by (simp add: kept_def)

definition blocks_needed :: "nat \<Rightarrow> (nat \<Rightarrow> byte list) \<Rightarrow> nat" where
  "blocks_needed N C = used0 + (\<Sum>j = 1..<N. nblk (length (C j)))"

text \<open>An iteration is a step of the layout \<dots>\<close>

lemma iappend_addr_step:
  assumes L: "lay N S Z (img s) (freeblock s)" and i: "1 \<le> i" "i < N" and c: "0 < length c" "Z i + length c \<le> (Z i div 1024 + 1) * 1024"
    and k: "Z i div 1024 < MAXFILE" and sl: "\<And>l. slot (img s) din l = S i l" "length din = DINODE_SIZE"
    and fb: "usedblocks s = freeblock s" "length (img s) < 2 ^ 31" and nx: "next_blocks (S i) (Z i) (freeblock s) = (x, ind, fb')"
    and room: "fb' \<le> length (img s)"
  shows "\<exists>din' s1 s'. iappend_addr (Z i div 1024) din s = Inr (x, din', s1) \<and> s' = wsect x (splice (Z i mod 1024) c (img s1 ! x)) s1 \<and>
    x < length (img s1) \<and> append_step N S Z (img s) (freeblock s) i c x ind fb' (slot (img s') din') (img s') \<and>
    freeblock s' = fb' \<and> usedblocks s' = fb' \<and> freeinode s' = freeinode s \<and> same_head din din'"
proof -
  note ok = layD(1,2) [OF L]
  note apart = next_blocks_apart [OF ok(1) i ok(2) k nx]
  obtain din' s1 where r: "iappend_addr (Z i div 1024) din s = Inr (x, din', s1)" and fd: "found (Z i div 1024) din s (S i) x ind fb' din' s1"
    using iappend_addr_run [OF L i k sl refl fb nx room] by blast
  define s' where "s' = wsect x (splice (Z i mod 1024) c (img s1 ! x)) s1"
  have l1: "length (img s1) = length (img s)" and b1: "\<And>b. \<not> (NDIRECT \<le> Z i div 1024 \<and> b = ind) \<Longrightarrow> img s1 ! b = img s ! b"
    using fd by (auto simp: found_def)
  have xl: "x < length (img s)" using room nx slots_okD(2,3) [OF ok(1) i, of "Z i div 1024"] k nb_step(2) [OF _ c(2)] c(1) layD(3) [OF L]
    by (auto simp: next_blocks_def Let_def held_def split: if_splits)
  have im': "img s' = (img s1)[x := splice (Z i mod 1024) c (img s1 ! x)]" using xl l1 by (simp add: s'_def img_wsect)
  have "append_step N S Z (img s) (freeblock s) i c x ind fb' (slot (img s') din') (img s')"
    unfolding append_step_def
  proof (intro conjI allI impI)
    show "slot (img s') din' l = (if l = Z i div 1024 then x else if l = MAXFILE \<and> NDIRECT \<le> Z i div 1024 then ind else S i l)" if "l \<le> MAXFILE" for l
      using fd that apart by (simp add: found_def im')
    show "img s' ! x = splice (Z i mod 1024) c (img s ! x)" using b1 [of x] apart xl l1 by (simp add: im')
  qed (use L i c k nx room fd apart b1 l1 in \<open>auto simp: im' found_def\<close>)
  then show ?thesis using r xl l1 fd unfolding s'_def by (auto simp: found_def)
qed

text \<open>\<dots> and so it appends to the content of the file.\<close>

lemma iappend_iter:
  assumes F: "files s D N C" and i: "1 \<le> i" "i < N" and p: "p \<noteq> []" and k: "length (C i) div 1024 < MAXFILE"
    and n1: "n1 = min (length p) ((length (C i) div 1024 + 1) * 1024 - length (C i))"
    and room: "blocks_needed N (C(i := C i @ take n1 p)) \<le> fs_size"
  shows "\<exists>x din' s1. iappend_addr (length (C i) div 1024) (D i) s = Inr (x, din', s1) \<and> x < length (img s1) \<and> same_head (D i) din' \<and>
    files (wsect x (splice (length (C i) mod 1024) (take n1 p) (img s1 ! x)) s1) (D(i := din')) N (C(i := C i @ take n1 p)) \<and>
    kept s (wsect x (splice (length (C i) mod 1024) (take n1 p) (img s1 ! x)) s1)"
proof -
  define Z S where "Z = (\<lambda>j. length (C j))" and "S = (\<lambda>j. slot (img s) (D j))"
  define c C' where "c = take n1 p" and "C' = C(i := C i @ c)"
  have L: "lay N S Z (img s) (freeblock s)" and f: "usedblocks s = freeblock s" "freeblock s = blocks_needed N C"
    using F unfolding files_def Z_def S_def blocks_needed_def by blast+
  note fD = filesD [OF F]
  have "length (C i) < (length (C i) div 1024 + 1) * 1024" using dividend_less_div_times [of 1024 "length (C i)"] by simp
  then have n: "0 < length c" "Z i + length c \<le> (Z i div 1024 + 1) * 1024" using n1 p by (auto simp: Z_def c_def)
  have k': "Z i div 1024 < MAXFILE" using k by (simp add: Z_def)
  obtain x ind fb' where nx: "next_blocks (S i) (Z i) (freeblock s) = (x, ind, fb')" by (metis prod_cases3)
  have fb': "fb' = blocks_needed N C'"
    using next_blocks_count [OF nx _ n(2)] n(1) sum_nblk_upd [OF i, of C "C i @ c"] f(2) by (simp add: blocks_needed_def C'_def Z_def)
  have rm: "fb' \<le> length (img s)" "length (img s) < 2 ^ 31" using room fb' fD(1) by (simp_all add: C'_def c_def fs_size_def)
  from iappend_addr_step [OF L i n k' _ fD(3) [OF i] f(1) rm(2) nx rm(1)] obtain din' s1 s' where
    r: "iappend_addr (Z i div 1024) (D i) s = Inr (x, din', s1)" "s' = wsect x (splice (Z i mod 1024) c (img s1 ! x)) s1" "x < length (img s1)"
    and A: "append_step N S Z (img s) (freeblock s) i c x ind fb' (slot (img s') din') (img s')"
    and fs': "freeblock s' = fb'" "usedblocks s' = fb'" "freeinode s' = freeinode s" "same_head (D i) din'" unfolding S_def by blast
  have oslot: "slot (img s') (D j) = S j" if j: "1 \<le> j" "j < N" "j \<noteq> i" for j
  proof -
    have "S j MAXFILE = addr (D j) NDIRECT" by (simp add: S_def slot_direct)
    then show ?thesis using append_step_blocks(9) [OF A j, of MAXFILE] by (auto simp: fun_eq_iff S_def slot_def)
  qed
  have S': "slot (img s') ((D(i := din')) j) = (S(i := slot (img s') din')) j" if "1 \<le> j" "j < N" for j using oslot [OF that] by simp
  have Z': "(\<lambda>j. length (C' j)) = Z(i := Z i + length c)" by (auto simp: C'_def Z_def)
  have "lay N (\<lambda>j. slot (img s') ((D(i := din')) j)) (\<lambda>j. length (C' j)) (img s') (freeblock s')"
    unfolding Z' fs'(1) by (subst lay_cong [OF S', of N "\<lambda>j. j"]) (simp_all add: append_step_lay(1) [OF A])
  moreover have "byte_at (img s') (slot (img s') ((D(i := din')) j)) m = C' j ! m" if j: "1 \<le> j" "j < N" "m < length (C' j)" for j m
  proof (cases "j = i")
    case True
    then show ?thesis using append_step_bytes [OF A, of m] j fD(4) [OF i, of m] n(2) by (simp add: C'_def Z_def S_def nth_append)
  next
    case False
    have "m < nb (Z j) * 1024" using j(3) False dividend_less_div_times [of 1024 "Z j + 1023"] by (simp add: nb_def C'_def Z_def)
    then show ?thesis using append_step_lay(2) [OF A j(1,2) False] fD(4) [OF j(1,2)] oslot [OF j(1,2) False] j(3) False by (simp add: C'_def S_def)
  qed
  moreover have "length ((D(i := din')) j) = DINODE_SIZE" if "1 \<le> j" "j < N" for j using fD(3) that i fs'(4) by (simp add: same_head_def)
  ultimately have "files s' (D(i := din')) N C'" using fs' fb' fD(1) append_stepD(10) [OF A] by (auto simp: files_def blocks_needed_def)
  moreover have "kept s s'" using append_step_lay(3) [OF A] fs'(3) by (simp add: kept_def)
  ultimately show ?thesis using r fs'(4) by (auto simp: Z_def C'_def c_def)
qed

section \<open>Appending\<close>

lemma nblk_mono: "a \<le> b \<Longrightarrow> nblk a \<le> nblk b"
proof -
  assume "a \<le> b"
  then have "nb a \<le> nb b" by (simp add: nb_def div_le_mono)
  then show ?thesis by (auto simp: nblk_def)
qed

lemma blocks_needed_mono: "length c \<le> length c' \<Longrightarrow> blocks_needed N (C(i := c)) \<le> blocks_needed N (C(i := c'))"
  unfolding blocks_needed_def by (intro add_left_mono sum_mono) (auto intro: nblk_mono)

lemma iappend_loop_run:
  assumes "files s D N C" "1 \<le> i" "i < N" "length (C i) + length p \<le> MAXFILE * BSIZE" "blocks_needed N (C(i := C i @ p)) \<le> fs_size"
  shows "\<exists>din' s'. iappend_loop (D i) (length (C i)) p s = Inr (din', length (C i) + length p, s') \<and>
    files s' (D(i := din')) N (C(i := C i @ p)) \<and> same_head (D i) din' \<and> kept s s'"
  using assms
proof (induction p arbitrary: s D C rule: measure_induct_rule [of length])
  case (less p)
  show ?case
  proof (cases "p = []")
    case True
    then show ?thesis
      using less.prems(1) by (intro exI [of _ "D i"] exI [of _ s]) (simp add: iappend_loop.simps [of _ _ "[]"] same_head_def kept_def)
  next
    case False
    define off where "off = length (C i)"
    define n1 where "n1 = min (length p) ((off div 1024 + 1) * 1024 - off)"
    have "0 < length p" using False by simp
    then have "off < MAXFILE * 1024" using less.prems(4) unfolding off_def MAXFILE_eq(3) by linarith
    then have k: "off div 1024 < MAXFILE" by (simp add: less_mult_imp_div_less)
    have lt: "off < (off div 1024 + 1) * 1024" using dividend_less_div_times [of 1024 off] by simp
    have n: "0 < n1" "n1 \<le> length p" using False lt by (auto simp: n1_def)
    have "blocks_needed N (C(i := C i @ take n1 p)) \<le> blocks_needed N (C(i := C i @ p))" by (intro blocks_needed_mono) simp
    then have rm: "blocks_needed N (C(i := C i @ take n1 p)) \<le> fs_size" using less.prems(5) by (rule le_trans)
    from iappend_iter [OF less.prems(1-3) False k [unfolded off_def] n1_def [unfolded off_def] rm] obtain x din1 s1 where
      r: "iappend_addr (off div 1024) (D i) s = Inr (x, din1, s1)" "x < length (img s1)" "same_head (D i) din1" and
      F: "files (wsect x (splice (off mod 1024) (take n1 p) (img s1 ! x)) s1) (D(i := din1)) N (C(i := C i @ take n1 p))" and
      K: "kept s (wsect x (splice (off mod 1024) (take n1 p) (img s1 ! x)) s1)"
      unfolding off_def by blast
    define s2 where "s2 = wsect x (splice (off mod 1024) (take n1 p) (img s1 ! x)) s1"
    have step: "iappend_loop (D i) off p s = iappend_loop din1 (off + n1) (drop n1 p) s2"
      using False k r(1,2) by (subst iappend_loop.simps) (simp add: MAXFILE_eq(3) rsect_def s2_def n1_def minus_div_mult_eq_mod Let_def)
    define D1 C1 where "D1 = D(i := din1)" and "C1 = C(i := C i @ take n1 p)"
    have eq: "C1(i := C1 i @ drop n1 p) = C(i := C i @ p)" "D1(i := d) = D(i := d)" "length (C1 i) = off + n1" "D1 i = din1"
      "off + n1 + length (drop n1 p) = off + length p" for d using n by (simp_all add: C1_def D1_def off_def)
    have len: "length (drop n1 p) < length p" "length (C1 i) + length (drop n1 p) \<le> MAXFILE * BSIZE"
      using n less.prems(4) by (simp_all add: C1_def)
    obtain din' s' where R: "iappend_loop din1 (off + n1) (drop n1 p) s2 = Inr (din', off + length p, s')"
        "files s' (D(i := din')) N (C(i := C i @ p))" "same_head din1 din'" "kept s2 s'"
      using less.IH [OF len(1) F [folded s2_def D1_def C1_def] less.prems(2,3) len(2), unfolded eq, OF less.prems(5)] by blast
    have "iappend_loop (D i) (length (C i)) p s = Inr (din', length (C i) + length p, s')" using step R(1) by (simp add: off_def)
    then show ?thesis using R(2) same_head_trans [OF r(3) R(3)] kept_trans [OF K [folded s2_def] R(4)] by blast
  qed
qed

section \<open>Inodes on the image\<close>

definition disk_inode :: "mkfs_state \<Rightarrow> nat \<Rightarrow> byte list" where
  "disk_inode s j = slice (j mod IPB * DINODE_SIZE) DINODE_SIZE (img s ! i2b j)"

lemma dinode_apart: "a div IPB = b div IPB \<Longrightarrow> a \<noteq> b \<Longrightarrow>
    a mod IPB * DINODE_SIZE + DINODE_SIZE \<le> b mod IPB * DINODE_SIZE \<or> b mod IPB * DINODE_SIZE + DINODE_SIZE \<le> a mod IPB * DINODE_SIZE"
proof -
  assume "a div IPB = b div IPB" "a \<noteq> b"
  then have "a mod IPB \<noteq> b mod IPB" by (metis div_mult_mod_eq)
  then consider "a mod IPB + 1 \<le> b mod IPB" | "b mod IPB + 1 \<le> a mod IPB" by linarith
  then show ?thesis by cases (simp_all add: DINODE_SIZE_def)
qed

lemma winode_run:
  assumes "j < 208" "length (img s) = fs_size" "\<forall>d \<in> set (img s). length d = BSIZE" "length d = DINODE_SIZE"
  shows "\<exists>s'. winode j d s = Inr s' \<and> length (img s') = fs_size \<and> (\<forall>d \<in> set (img s'). length d = BSIZE) \<and>
    (\<forall>l. disk_inode s' l = (if l = j then d else disk_inode s l)) \<and> (\<forall>b. b < 2 \<or> 15 \<le> b \<longrightarrow> img s' ! b = img s ! b) \<and>
    freeblock s' = freeblock s \<and> usedblocks s' = usedblocks s \<and> freeinode s' = freeinode s"
proof -
  define bn p where "bn = i2b j" and "p = j mod IPB * DINODE_SIZE"
  have bn: "2 \<le> bn" "bn < 15" using assms(1) by (auto simp: bn_def i2b_def IPB_def)
  have bl: "bn < length (img s)" using bn assms(2) by (simp add: fs_size_def)
  have p: "p + DINODE_SIZE \<le> BSIZE" by (simp add: p_def DINODE_SIZE_def IPB_def BSIZE_def)
  have lb: "length (img s ! bn) = BSIZE" using bl assms(3) by simp
  define s' where "s' = wsect bn (splice p d (img s ! bn)) s"
  have im: "img s' = (img s)[bn := splice p d (img s ! bn)]" using bl by (simp add: s'_def img_wsect)
  have ls: "length (splice p d (img s ! bn)) = BSIZE" using p lb assms(4) by simp
  have "disk_inode s' l = (if l = j then d else disk_inode s l)" for l
  proof (cases "i2b l = bn")
    case False
    then show ?thesis by (auto simp: disk_inode_def im bn_def)
  next
    case True
    show ?thesis
    proof (cases "l = j")
      case True
      then show ?thesis using bl p lb assms(4) by (simp add: disk_inode_def im bn_def [symmetric] p_def [symmetric] slice_splice_same)
    next
      case False
      have "l div IPB = j div IPB" using True by (simp add: bn_def i2b_def)
      from dinode_apart [OF this False] show ?thesis
        using True bl p lb assms(4) False by (simp add: disk_inode_def im p_def [symmetric] slice_splice_disj)
    qed
  qed
  moreover have "winode j d s = Inr s'" using bl by (simp add: winode_def rsect_def bn_def [symmetric] p_def [symmetric] s'_def)
  moreover have "\<forall>d \<in> set (img s'). length d = BSIZE" using assms(3) ls set_update_subset_insert [of "img s" bn] by (auto simp: im)
  ultimately show ?thesis using bn assms(2) by (intro exI [of _ s']) (auto simp: im, simp_all add: s'_def)
qed

text \<open>Writing inodes does not touch the blocks of the files.\<close>

lemma files_frame:
  assumes F: "files s D N C" and s': "length (img s') = fs_size" "\<forall>d \<in> set (img s'). length d = BSIZE"
      "\<And>b. 16 \<le> b \<Longrightarrow> img s' ! b = img s ! b" "freeblock s' = freeblock s" "usedblocks s' = usedblocks s"
    and D': "\<And>j. 1 \<le> j \<Longrightarrow> j < N \<Longrightarrow> length (D' j) = DINODE_SIZE" "\<And>j k. 1 \<le> j \<Longrightarrow> j < N \<Longrightarrow> k \<le> NDIRECT \<Longrightarrow> addr (D' j) k = addr (D j) k"
  shows "files s' D' N C"
proof -
  have L: "lay N (\<lambda>j. slot (img s) (D j)) (\<lambda>j. length (C j)) (img s) (freeblock s)" and f: "usedblocks s = freeblock s"
      "freeblock s = used0 + (\<Sum>j = 1..<N. nblk (length (C j)))" "length (img s) = fs_size"
    and B: "\<And>j n. 1 \<le> j \<Longrightarrow> j < N \<Longrightarrow> n < length (C j) \<Longrightarrow> byte_at (img s) (slot (img s) (D j)) n = C j ! n"
    using F by (auto simp: files_def)
  have ok: "slots_ok N (\<lambda>j. slot (img s) (D j)) (\<lambda>j. length (C j)) (freeblock s)" using L by (simp add: lay_def)
  have sl: "slot (img s') (D' j) = slot (img s) (D j)" if j: "1 \<le> j" "j < N" for j
  proof
    fix l
    have "addr (D j) NDIRECT \<noteq> 0 \<Longrightarrow> img s' ! addr (D j) NDIRECT = img s ! addr (D j) NDIRECT"
      using slots_okD(3) [OF ok j, of MAXFILE] s'(3) by (simp add: slot_direct)
    then show "slot (img s') (D' j) l = slot (img s) (D j) l" using D'(2) [OF j] by (simp add: slot_def)
  qed
  have bb: "byte_at (img s') (slot (img s') (D' j)) n = byte_at (img s) (slot (img s) (D j)) n" if j: "1 \<le> j" "j < N" and n: "n < nb (length (C j)) * 1024" for j n
  proof -
    have "n div 1024 < nb (length (C j))" "nb (length (C j)) \<le> MAXFILE"
      using slots_okD(1) [OF ok j] n by (auto simp: nb_def MAXFILE_eq less_mult_imp_div_less)
    then have "slot (img s) (D j) (n div 1024) \<noteq> 0" "n div 1024 \<le> MAXFILE"
      using slots_okD(2) [OF ok j, of "n div 1024"] by (auto simp: held_def)
    then show ?thesis using slots_okD(3) [OF ok j] s'(3) by (simp add: byte_at_def sl [OF j])
  qed
  have nbz: "n < length (C j) \<Longrightarrow> n < nb (length (C j)) * 1024" for n j
    using dividend_less_div_times [of 1024 "length (C j) + 1023"] by (simp add: nb_def)
  have "lay N (\<lambda>j. slot (img s) (D j)) (\<lambda>j. length (C j)) (img s') (freeblock s)"
    using L s'(1-3) f(3) by (simp add: lay_def) (use bb sl in auto)
  then have "lay N (\<lambda>j. slot (img s') (D' j)) (\<lambda>j. length (C j)) (img s') (freeblock s')"
    unfolding s'(4) by (subst lay_cong [OF sl, of N "\<lambda>j. j"]) simp_all
  then show ?thesis using f s' D'(1) B bb nbz by (simp add: files_def)
qed

section \<open>Files by content\<close>

definition dhead :: "byte list \<Rightarrow> nat \<Rightarrow> nat \<Rightarrow> bool" where
  "dhead d t z \<longleftrightarrow> get_u16 0 d = t \<and> get_u16 2 d = 0 \<and> get_u16 4 d = 0 \<and> get_u16 6 d = 1 \<and> get_u32 8 d = z"

definition fsimage :: "mkfs_state \<Rightarrow> nat \<Rightarrow> (nat \<Rightarrow> byte list) \<Rightarrow> (nat \<Rightarrow> nat) \<Rightarrow> bool" where
  "fsimage s N C T \<longleftrightarrow> files s (disk_inode s) N C \<and> freeinode s = N \<and> 1 \<le> N \<and> N \<le> 208 \<and> img s ! 1 = sb_block \<and>
     (\<forall>j \<in> {1..<N}. dhead (disk_inode s j) (T j) (length (C j)))"

lemma dhead_size: "length d = DINODE_SIZE \<Longrightarrow> z < 2 ^ 32 \<Longrightarrow> same_head e d \<Longrightarrow> dhead e t y \<Longrightarrow> dhead (put_u32 8 z d) t z"
  by (auto simp: dhead_def same_head_def get_put_disj get_put_u32_same DINODE_SIZE_def)

lemma addr_size: "length d = DINODE_SIZE \<Longrightarrow> k \<le> NDIRECT \<Longrightarrow> addr (put_u32 8 z d) k = addr d k"
  by (simp add: addr_def get_put_disj DINODE_SIZE_def MAXFILE_eq)

lemma iappend_appends:
  assumes I: "fsimage s N C T" and i: "1 \<le> i" "i < N" and sz: "length (C i) + length p \<le> MAXFILE * BSIZE"
    and room: "blocks_needed N (C(i := C i @ p)) \<le> fs_size"
  shows "\<exists>s'. iappend i p s = Inr s' \<and> fsimage s' N (C(i := C i @ p)) T"
proof -
  define D z where "D = disk_inode s" and "z = length (C i) + length p"
  have F: "files s D N C" and h: "freeinode s = N" "N \<le> 208" "img s ! 1 = sb_block" "\<And>j. 1 \<le> j \<Longrightarrow> j < N \<Longrightarrow> dhead (D j) (T j) (length (C j))"
    using I by (auto simp: fsimage_def D_def)
  have "i2b i < length (img s)" using F h(2) i by (simp add: files_def fs_size_def i2b_def IPB_def)
  then have ri: "rinode i s = Inr (D i)" by (simp add: rinode_def rsect_def D_def disk_inode_def)
  have "get_u32 8 (D i) = length (C i)" using h(4) [OF i] by (simp add: dhead_def)
  with iappend_loop_run [OF F i sz room] obtain din' s1 where r: "iappend_loop (D i) (get_u32 8 (D i)) p s = Inr (din', z, s1)"
      and F1: "files s1 (D(i := din')) N (C(i := C i @ p))" and sh: "same_head (D i) din'" and K: "kept s s1"
    by (auto simp: z_def)
  have l: "length din' = DINODE_SIZE" "length (img s1) = fs_size" "\<forall>d \<in> set (img s1). length d = BSIZE"
    using filesD(1,2) [OF F1] filesD(3) [OF F1 i] by simp_all
  have d1: "disk_inode s1 j = D j" if "j < 208" for j
    using K that by (simp add: kept_def disk_inode_def D_def i2b_def IPB_def)
  have i2: "i < 208" "length (put_u32 8 z din') = DINODE_SIZE" using i h(2) l(1) by (simp_all add: DINODE_SIZE_def)
  from winode_run [OF i2(1) l(2,3) i2(2)] obtain s' where s': "winode i (put_u32 8 z din') s1 = Inr s'" "length (img s') = fs_size"
      "\<forall>d \<in> set (img s'). length d = BSIZE" "\<And>l. disk_inode s' l = (if l = i then put_u32 8 z din' else disk_inode s1 l)"
      "\<And>b. b < 2 \<or> 15 \<le> b \<Longrightarrow> img s' ! b = img s1 ! b" "freeblock s' = freeblock s1" "usedblocks s' = usedblocks s1" "freeinode s' = freeinode s1"
    by auto
  have D': "disk_inode s' j = (if j = i then put_u32 8 z din' else D j)" if "j < N" for j using s'(4) d1 [of j] h(2) that by simp
  have "files s' (disk_inode s') N (C(i := C i @ p))"
  proof (rule files_frame [OF F1 s'(2,3) _ s'(6,7)])
    show "img s' ! b = img s1 ! b" if "16 \<le> b" for b using s'(5) [of b] that by simp
    fix j k assume j: "1 \<le> j" "j < N"
    show "length (disk_inode s' j) = DINODE_SIZE" using D' [OF j(2)] i2(2) filesD(3) [OF F j] by simp
    assume "k \<le> NDIRECT"
    then show "addr (disk_inode s' j) k = addr ((D(i := din')) j) k" using D' [OF j(2)] addr_size [OF l(1)] by simp
  qed
  moreover have "dhead (disk_inode s' j) (T j) (length ((C(i := C i @ p)) j))" if "1 \<le> j" "j < N" for j
    using D' [OF that(2)] h(4) [OF that] dhead_size [OF l(1) _ sh h(4) [OF i], of z] sz by (auto simp: z_def MAXFILE_eq)
  moreover have "img s' ! 1 = sb_block" using s'(5) [of 1] K h(3) by (simp add: kept_def)
  moreover have "freeinode s' = N" using s'(8) K h(1) by (simp add: kept_def)
  ultimately have "fsimage s' N (C(i := C i @ p)) T" using I by (auto simp: fsimage_def)
  moreover have "iappend i p s = Inr s'" using ri r s'(1) by (simp add: iappend_def)
  ultimately show ?thesis by blast
qed

lemma lay_new:
  assumes L: "lay N S Z im fb" and N: "1 \<le> N" and new: "\<And>k. S' N k = 0" "Z' N = 0" and old: "\<And>j. j < N \<Longrightarrow> S' j = S j \<and> Z' j = Z j"
  shows "lay (N + 1) S' Z' im fb"
proof -
  have ok: "slots_ok N S Z fb" using L by (simp add: lay_def)
  have nb0: "nb 0 = 0" "\<And>k. \<not> held 0 k" by (simp_all add: nb_def held_def)
  have j: "j = N \<or> 1 \<le> j \<and> j < N" if "j \<in> {1..<N + 1}" for j using that by auto
  have "slots_ok (N + 1) S' Z' fb"
    unfolding slots_ok_def
  proof (intro conjI ballI allI impI)
    fix a k assume a: "a \<in> {1..<N + 1}" and k: "k \<le> MAXFILE"
    show "(S' a k \<noteq> 0) = held (Z' a) k" using j [OF a] slots_okD(2) [OF ok _ _ k, of a] old [of a] new nb0 by auto
    assume "S' a k \<noteq> 0"
    then show "used0 \<le> S' a k" "S' a k < fb" using j [OF a] slots_okD(3) [OF ok _ _ k, of a] old [of a] new by auto
  next
    fix a assume a: "a \<in> {1..<N + 1}"
    show "Z' a \<le> MAXFILE * BSIZE" using j [OF a] slots_okD(1) [OF ok, of a] old [of a] new by auto
  next
    fix a b k l assume a: "a \<in> {1..<N + 1}" "b \<in> {1..<N + 1}" "k \<le> MAXFILE" "l \<le> MAXFILE" "S' a k = S' b l \<and> S' a k \<noteq> 0"
    then have "a \<noteq> N" "b \<noteq> N" using new by auto
    then have "1 \<le> a \<and> a < N" "1 \<le> b \<and> b < N" using j a(1,2) by auto
    then show "a = b" "k = l" using slots_okD(4) [OF ok, of b a k l] a old [of a] old [of b] by auto
  qed
  moreover have "byte_at im (S' a) n = 0" if "a \<in> {1..<N + 1}" "Z' a \<le> n" "n < nb (Z' a) * 1024" for a n
    using j [OF that(1)] that(2,3) L old [of a] new nb0 by (auto simp: lay_def)
  ultimately show ?thesis using L by (auto simp: lay_def)
qed

lemma files_new:
  assumes F: "files s D N C" and N: "1 \<le> N" and d: "length d = DINODE_SIZE" "\<And>k. k \<le> NDIRECT \<Longrightarrow> addr d k = 0"
  shows "files s (D(N := d)) (N + 1) (C(N := []))"
proof -
  have r: "{1..<N + 1} = insert N {1..<N}" using N by auto
  have sum: "(\<Sum>j = 1..<N + 1. nblk (length ((C(N := [])) j))) = (\<Sum>j = 1..<N. nblk (length (C j)))"
    unfolding r by (simp add: nblk_def nb_def)
  have "lay N (\<lambda>j. slot (img s) (D j)) (\<lambda>j. length (C j)) (img s) (freeblock s)" using F unfolding files_def by blast
  then have "lay (N + 1) (\<lambda>j. slot (img s) ((D(N := d)) j)) (\<lambda>j. length ((C(N := [])) j)) (img s) (freeblock s)"
    by (rule lay_new [OF _ N]) (use d(2) in \<open>simp_all add: slot_def\<close>)
  then show ?thesis using F d(1) unfolding files_def sum unfolding r by auto
qed

lemma ialloc_empty:
  assumes I: "fsimage s N C T" and N: "N < 208" and t: "t < 2 ^ 16"
  shows "\<exists>s'. ialloc t s = Inr (N, s') \<and> fsimage s' (N + 1) (C(N := [])) (T(N := t))"
proof -
  define d where "d = put_u32 8 0 (put_u16 6 1 (put_u16 0 t (replicate DINODE_SIZE 0)))"
  define s0 where "s0 = s\<lparr>freeinode := N + 1\<rparr>"
  have F: "files s (disk_inode s) N C" and h: "freeinode s = N" "1 \<le> N" "img s ! 1 = sb_block"
      "\<And>j. 1 \<le> j \<Longrightarrow> j < N \<Longrightarrow> dhead (disk_inode s j) (T j) (length (C j))"
    using I by (auto simp: fsimage_def)
  have d: "length d = DINODE_SIZE" by (simp add: d_def DINODE_SIZE_def)
  have z: "get_u16 p (replicate DINODE_SIZE 0) = 0" if "p + 2 \<le> DINODE_SIZE" for p
    using that by (simp add: get_u16_def slice_def DINODE_SIZE_def numeral_2_eq_2)
  have dh: "dhead d t 0"
    using t by (simp add: dhead_def d_def get_put_disj get_put_u16_same get_put_u32_same DINODE_SIZE_def z [unfolded DINODE_SIZE_def])
  have da: "addr d k = 0" if "k \<le> NDIRECT" for k
    using that get_u32_zeros [of "12 + 4 * k" DINODE_SIZE] by (simp add: addr_def d_def get_put_disj DINODE_SIZE_def MAXFILE_eq)
  have L0: "length (img s0) = fs_size" "\<forall>d \<in> set (img s0). length d = BSIZE" using filesD [OF F] by (simp_all add: s0_def)
  from winode_run [OF N L0 d] obtain s' where s': "winode N d s0 = Inr s'" "length (img s') = fs_size" "\<forall>d \<in> set (img s'). length d = BSIZE"
      "\<And>l. disk_inode s' l = (if l = N then d else disk_inode s0 l)" "\<And>b. b < 2 \<or> 15 \<le> b \<Longrightarrow> img s' ! b = img s0 ! b"
      "freeblock s' = freeblock s0" "usedblocks s' = usedblocks s0" "freeinode s' = freeinode s0" by auto
  have D': "disk_inode s' = (disk_inode s)(N := d)" using s'(4) by (auto simp: s0_def disk_inode_def)
  have F': "files s' (disk_inode s) N C"
    by (rule files_frame [OF F s'(2,3)]) (use s'(5-7) filesD(3) [OF F] in \<open>simp_all add: s0_def\<close>)
  have "files s' (disk_inode s') (N + 1) (C(N := []))" unfolding D' by (rule files_new [OF F' h(2) d da])
  moreover have "dhead (disk_inode s' j) ((T(N := t)) j) (length ((C(N := [])) j))" if "1 \<le> j" "j < N + 1" for j
    using dh h(4) [of j] that by (cases "j = N") (simp_all add: D')
  moreover have "img s' ! 1 = sb_block" "freeinode s' = N + 1" using s'(5) [of 1] s'(8) h(3) by (simp_all add: s0_def)
  ultimately have "fsimage s' (N + 1) (C(N := [])) (T(N := t))" using N h(2) by (auto simp: fsimage_def)
  moreover have "ialloc t s = Inr (N, s')" using s'(1) h(1) N by (simp add: ialloc_def d_def s0_def Let_def)
  ultimately show ?thesis by blast
qed

end
