(* ===== verification/Mkfs_Image.thy ===== *)
theory Mkfs_Image
  imports Mkfs_Append
begin

text \<open>
  \<open>main\<close> of \<open>mkfs\<close>: for files that fit, it ends, and the image holds the directories it always makes, a directory entry and the
  content of every file named on the command line, and a bitmap in which exactly the blocks in use are marked.
\<close>

section \<open>The empty image\<close>

lemma fold_wsect:
  "fold (\<lambda>i. wsect i d) [length (img s)..<length (img s) + n] s = s\<lparr>img := img s @ replicate n d\<rparr>"
proof (induction n)
  case (Suc n)
  have step: "fold (\<lambda>i. wsect i d) [length (img s)..<length (img s) + Suc n] s = wsect (length (img s) + n) d (s\<lparr>img := img s @ replicate n d\<rparr>)"
    using Suc by simp
  show ?case unfolding step by (simp add: wsect_def replicate_append_same list_update_append)
qed simp

lemma sb_block_length: "length sb_block = BSIZE"
  by (simp add: sb_block_def BSIZE_def)

lemma blank_image: "\<exists>s. blank = Inr s \<and> fsimage s 1 C T"
proof -
  define s0 where "s0 = \<lparr>img = [], freeblock = used0, usedblocks = used0, freeinode = 1\<rparr>"
  define s where "s = wsect 1 sb_block (fold (\<lambda>i. wsect i (replicate 1024 0)) [0..<nblocks + used0 + nlog] s0)"
  have n: "nblocks + used0 + nlog = fs_size" by (simp add: nblocks_def nlog_def LOGSIZE_def fs_size_def)
  have "fold (\<lambda>i. wsect i (replicate 1024 0)) [0..<fs_size] s0 = s0\<lparr>img := replicate fs_size (replicate 1024 0)\<rparr>"
    using fold_wsect [of "replicate 1024 0" s0 fs_size] by (simp add: s0_def)
  then have "s = wsect 1 sb_block (s0\<lparr>img := replicate fs_size (replicate 1024 0)\<rparr>)" unfolding s_def n by simp
  then have im: "img s = (replicate fs_size (replicate 1024 0))[1 := sb_block]" "freeblock s = 16" "usedblocks s = 16" "freeinode s = 1"
    by (simp_all add: img_wsect fs_size_def s0_def)
  have "length d = BSIZE" if "d \<in> set (img s)" for d
    using that set_update_subset_insert [of "replicate fs_size (replicate 1024 0)" 1 sb_block] sb_block_length by (auto simp: im(1) MAXFILE_eq(3))
  then have "lay 1 S Z (img s) 16" for S Z using im(1) by (auto simp: lay_def slots_ok_def fs_size_def MAXFILE_eq(3))
  then have "files s D 1 C" for D using im by (simp add: files_def)
  then have "fsimage s 1 C T" using im by (simp add: fsimage_def fs_size_def)
  moreover have "blank = Inr s" using n by (simp add: blank_def s_def s0_def)
  ultimately show ?thesis by blast
qed

section \<open>Directories\<close>

lemma blocks_needed_le:
  assumes "\<And>j. 1 \<le> j \<Longrightarrow> j < N \<Longrightarrow> length (C j) \<le> length (C' j)" "N \<le> M"
  shows "blocks_needed N C \<le> blocks_needed M C'"
proof -
  have "(\<Sum>j = 1..<N. nblk (length (C j))) \<le> (\<Sum>j = 1..<N. nblk (length (C' j)))" by (intro sum_mono nblk_mono) (use assms in auto)
  also have "\<dots> \<le> (\<Sum>j = 1..<M. nblk (length (C' j)))" by (rule sum_mono2) (use assms in auto)
  finally show ?thesis by (simp add: blocks_needed_def)
qed

lemma length_dirent [simp]: "length (dirent inum name) = 16"
  by (simp add: dirent_def mk_dirent_def DIRSIZ_def)

lemma adddir_image:
  assumes I: "fsimage s N C T" and N: "N < 208" and p: "1 \<le> p" "p < N" and name: "length name < DIRSIZ" and sz: "length (C p) + 16 \<le> MAXFILE * BSIZE"
    and C': "C' = C(p := C p @ dirent N name, N := dirent N [46] @ dirent p [46, 46])" and room: "blocks_needed (N + 1) C' \<le> fs_size"
  shows "\<exists>s'. adddir name p s = Inr (N, s') \<and> fsimage s' (N + 1) C' (T(N := 1))"
proof -
  have rm: "blocks_needed (N + 1) X \<le> fs_size" if "\<And>j. length (X j) \<le> length (C' j)" for X
    using blocks_needed_le [of "N + 1" X C' "N + 1"] that room by (meson le_trans order_refl)
  define C0 C1 C2 where "C0 = C(N := [])" and "C1 = C0(p := C0 p @ dirent N name)" and "C2 = C1(N := C1 N @ dirent N [46])"
  have M: "32 \<le> MAXFILE * BSIZE" by (simp add: MAXFILE_eq)
  obtain s0 where s0: "ialloc 1 s = Inr (N, s0)" "fsimage s0 (N + 1) C0 (T(N := 1))" using ialloc_empty [OF I N, of 1] by (auto simp: C0_def)
  obtain s1 where s1: "iappend p (dirent N name) s0 = Inr s1" "fsimage s1 (N + 1) C1 (T(N := 1))"
    using iappend_appends [OF s0(2), of p "dirent N name"] p sz rm [of C1] unfolding C1_def by (auto simp: C0_def C')
  have N1: "1 \<le> N" using p by simp
  obtain s2 where s2: "iappend N (dirent N [46]) s1 = Inr s2" "fsimage s2 (N + 1) C2 (T(N := 1))"
    using iappend_appends [OF s1(2) N1, of "dirent N [46]"] p M rm [of C2] unfolding C2_def by (auto simp: C1_def C0_def C')
  have e: "C2(N := C2 N @ dirent p [46, 46]) = C'" using p by (auto simp: C2_def C1_def C0_def C')
  obtain s3 where "iappend N (dirent p [46, 46]) s2 = Inr s3" "fsimage s3 (N + 1) C' (T(N := 1))"
    using iappend_appends [OF s2(2) N1, of "dirent p [46, 46]"] p M room unfolding e by (auto simp: C2_def C1_def C0_def)
  then show ?thesis using s0 s1 s2 name by (auto simp: adddir_def)
qed

text \<open>The content of a directory from its entries, and the entries of the directories \<open>mkfs\<close> always makes: \<open>/\<close>, \<open>/bin\<close>, \<open>/usr\<close>, \<open>/etc\<close>,
  \<open>/usr/bin\<close>, \<open>/dev\<close>, \<open>/usr/share\<close> and \<open>/usr/share/icons\<close>.\<close>

definition entries :: "(nat \<times> byte list) list \<Rightarrow> byte list" where
  "entries es = concat (map (\<lambda>(i, name). dirent i name) es)"

definition base_dir :: "nat \<Rightarrow> (nat \<times> byte list) list" where
  "base_dir j =
     (if j = 1 then [(1, [46]), (1, [46, 46]), (2, [98, 105, 110]), (3, [117, 115, 114]), (4, [101, 116, 99]), (6, [100, 101, 118])]
      else if j = 3 then [(3, [46]), (1, [46, 46]), (5, [98, 105, 110]), (7, [115, 104, 97, 114, 101])]
      else if j = 7 then [(7, [46]), (3, [46, 46]), (8, [105, 99, 111, 110, 115])]
      else if j = 5 then [(5, [46]), (3, [46, 46])]
      else if j = 8 then [(8, [46]), (7, [46, 46])]
      else if j \<in> {2, 4, 6} then [(j, [46]), (1, [46, 46])]
      else [])"

lemma length_entries [simp]: "length (entries es) = 16 * length es"
  by (induction es) (auto simp: entries_def)

lemma entries_simps: "entries [] = []" "entries (e # es) = dirent (fst e) (snd e) @ entries es" "entries (es @ es') = entries es @ entries es'"
  by (simp_all add: entries_def case_prod_beta)

lemma small_blocks:
  assumes "\<And>j. length (C j) \<le> 1024"
  shows "blocks_needed N C \<le> 16 + N"
proof -
  have "nblk (length (C j)) \<le> 1" for j using nblk_mono [OF assms(1) [of j]] by (simp add: nblk_def nb_def MAXFILE_eq)
  then have "(\<Sum>j = 1..<N. nblk (length (C j))) \<le> (\<Sum>j = 1..<N. 1)" by (intro sum_mono)
  then show ?thesis by (simp add: blocks_needed_def)
qed

lemma small_room: "(\<And>j. length (C j) \<le> 1024) \<Longrightarrow> N \<le> 208 \<Longrightarrow> blocks_needed N C \<le> fs_size"
  using small_blocks [of C N] by (simp add: fs_size_def)

definition with_dir :: "nat \<Rightarrow> nat \<Rightarrow> byte list \<Rightarrow> (nat \<Rightarrow> (nat \<times> byte list) list) \<Rightarrow> nat \<Rightarrow> (nat \<times> byte list) list" where
  "with_dir N p name es = es(p := es p @ [(N, name)], N := [(N, [46]), (p, [46, 46])])"

lemma adddir_entries:
  assumes "fsimage s N (\<lambda>j. entries (es j)) (\<lambda>_. 1)" "N < 208" "1 \<le> p" "p < N" "length name < DIRSIZ" "\<And>j. length (es j) < n" "n < 64" "2 < n"
  shows "\<exists>s'. adddir name p s = Inr (N, s') \<and> fsimage s' (N + 1) (\<lambda>j. entries (with_dir N p name es j)) (\<lambda>_. 1) \<and>
    (\<forall>j. length (with_dir N p name es j) < n + 1)"
proof -
  have sm: "length (with_dir N p name es j) < n + 1" for j using assms(6) [of j] assms(6) [of p] assms(8) by (auto simp: with_dir_def)
  then have s2: "length (with_dir N p name es j) \<le> 64" for j using assms(7) less_le_trans less_imp_le_nat by (metis Suc_eq_plus1 Suc_leI le_trans less_Suc_eq_le)
  have "length (entries (with_dir N p name es j)) \<le> 1024" for j using s2 [of j] by simp
  then have "blocks_needed (N + 1) (\<lambda>j. entries (with_dir N p name es j)) \<le> fs_size" using assms(2) by (intro small_room) simp_all
  moreover have "(\<lambda>j. entries (with_dir N p name es j)) =
      (\<lambda>j. entries (es j))(p := entries (es p) @ dirent N name, N := dirent N [46] @ dirent p [46, 46])"
    using assms(4) by (auto simp: with_dir_def entries_simps)
  moreover have "length (entries (es p)) + 16 \<le> MAXFILE * BSIZE" using assms(6) [of p] assms(7) by (simp add: MAXFILE_eq)
  ultimately show ?thesis
    using adddir_image [OF assms(1-5), of "\<lambda>j. entries (with_dir N p name es j)"] sm by (auto simp: fun_upd_idem)
qed

lemma root_image:
  assumes "fsimage s 1 (\<lambda>_. []) (\<lambda>_. 1)"
  shows "\<exists>s0 s1 s2. ialloc 1 s = Inr (1, s0) \<and> iappend 1 (dirent 1 [46]) s0 = Inr s1 \<and> iappend 1 (dirent 1 [46, 46]) s1 = Inr s2 \<and>
    fsimage s2 2 (\<lambda>j. entries (((\<lambda>_. [])(1 := [(1, [46]), (1, [46, 46])])) j)) (\<lambda>_. 1)"
proof -
  have M: "32 \<le> MAXFILE * BSIZE" by (simp add: MAXFILE_eq)
  define C1 :: "nat \<Rightarrow> byte list" where "C1 = (\<lambda>_. [])(1 := dirent 1 [46])"
  define C2 :: "nat \<Rightarrow> byte list" where "C2 = (\<lambda>_. [])(1 := dirent 1 [46] @ dirent 1 [46, 46])"
  have rm: "blocks_needed 2 C1 \<le> fs_size" "blocks_needed 2 C2 \<le> fs_size" by (intro small_room; simp add: C1_def C2_def)+
  obtain s0 where s0: "ialloc 1 s = Inr (1, s0)" "fsimage s0 2 (\<lambda>_. []) (\<lambda>_. 1)"
    using ialloc_empty [OF assms, of 1, unfolded one_add_one] by (auto simp: fun_upd_idem)
  obtain s1 where s1: "iappend 1 (dirent 1 [46]) s0 = Inr s1" "fsimage s1 2 C1 (\<lambda>_. 1)"
    using iappend_appends [OF s0(2), of 1 "dirent 1 [46]"] rm M by (auto simp: C1_def)
  have "C1(1 := C1 1 @ dirent 1 [46, 46]) = C2" by (simp add: C1_def C2_def)
  then obtain s2 where s2: "iappend 1 (dirent 1 [46, 46]) s1 = Inr s2" "fsimage s2 2 C2 (\<lambda>_. 1)"
    using iappend_appends [OF s1(2), of 1 "dirent 1 [46, 46]"] rm M by (auto simp: C1_def)
  have "C2 = (\<lambda>j. entries (((\<lambda>_. [])(1 := [(1, [46]), (1, [46, 46])])) j))" by (auto simp: C2_def entries_simps)
  then show ?thesis using s0 s1 s2 by auto
qed

lemma make_dirs_image:
  assumes "fsimage s 1 (\<lambda>_. []) (\<lambda>_. 1)"
  shows "\<exists>s'. make_dirs s = Inr (1, \<lparr>binino = 2, etcino = 4, iconsino = 8\<rparr>, s') \<and> fsimage s' 9 (\<lambda>j. entries (base_dir j)) (\<lambda>_. 1)"
proof -
  define e1 :: "nat \<Rightarrow> (nat \<times> byte list) list" where "e1 = (\<lambda>_. [])(1 := [(1, [46]), (1, [46, 46])])"
  define e2 where "e2 = with_dir 2 1 [98, 105, 110] e1"
  define e3 where "e3 = with_dir 3 1 [117, 115, 114] e2"
  define e4 where "e4 = with_dir 4 1 [101, 116, 99] e3"
  define e5 where "e5 = with_dir 5 3 [98, 105, 110] e4"
  define e6 where "e6 = with_dir 6 1 [100, 101, 118] e5"
  define e7 where "e7 = with_dir 7 3 [115, 104, 97, 114, 101] e6"
  define e8 where "e8 = with_dir 8 7 [105, 99, 111, 110, 115] e7"
  from root_image [OF assms] obtain a0 a1 s1 where r: "ialloc 1 s = Inr (1, a0)" "iappend 1 (dirent 1 [46]) a0 = Inr a1"
      "iappend 1 (dirent 1 [46, 46]) a1 = Inr s1" and I1: "fsimage s1 2 (\<lambda>j. entries (e1 j)) (\<lambda>_. 1)" unfolding e1_def by blast
  have l1: "length (e1 j) < 3" for j by (simp add: e1_def)
  obtain s2 where s2: "adddir [98, 105, 110] 1 s1 = Inr (2, s2)" "fsimage s2 3 (\<lambda>j. entries (e2 j)) (\<lambda>_. 1)" "\<And>j. length (e2 j) < 4"
    using adddir_entries [OF I1 _ _ _ _ l1, of 1 "[98, 105, 110]"] by (auto simp: DIRSIZ_def e2_def)
  obtain s3 where s3: "adddir [117, 115, 114] 1 s2 = Inr (3, s3)" "fsimage s3 4 (\<lambda>j. entries (e3 j)) (\<lambda>_. 1)" "\<And>j. length (e3 j) < 5"
    using adddir_entries [OF s2(2) _ _ _ _ s2(3), of 1 "[117, 115, 114]"] by (auto simp: DIRSIZ_def e3_def)
  obtain s4 where s4: "adddir [101, 116, 99] 1 s3 = Inr (4, s4)" "fsimage s4 5 (\<lambda>j. entries (e4 j)) (\<lambda>_. 1)" "\<And>j. length (e4 j) < 6"
    using adddir_entries [OF s3(2) _ _ _ _ s3(3), of 1 "[101, 116, 99]"] by (auto simp: DIRSIZ_def e4_def)
  obtain s5 where s5: "adddir [98, 105, 110] 3 s4 = Inr (5, s5)" "fsimage s5 6 (\<lambda>j. entries (e5 j)) (\<lambda>_. 1)" "\<And>j. length (e5 j) < 7"
    using adddir_entries [OF s4(2) _ _ _ _ s4(3), of 3 "[98, 105, 110]"] by (auto simp: DIRSIZ_def e5_def)
  obtain s6 where s6: "adddir [100, 101, 118] 1 s5 = Inr (6, s6)" "fsimage s6 7 (\<lambda>j. entries (e6 j)) (\<lambda>_. 1)" "\<And>j. length (e6 j) < 8"
    using adddir_entries [OF s5(2) _ _ _ _ s5(3), of 1 "[100, 101, 118]"] by (auto simp: DIRSIZ_def e6_def)
  obtain s7 where s7: "adddir [115, 104, 97, 114, 101] 3 s6 = Inr (7, s7)" "fsimage s7 8 (\<lambda>j. entries (e7 j)) (\<lambda>_. 1)" "\<And>j. length (e7 j) < 9"
    using adddir_entries [OF s6(2) _ _ _ _ s6(3), of 3 "[115, 104, 97, 114, 101]"] by (auto simp: DIRSIZ_def e7_def)
  obtain s8 where s8: "adddir [105, 99, 111, 110, 115] 7 s7 = Inr (8, s8)" "fsimage s8 9 (\<lambda>j. entries (e8 j)) (\<lambda>_. 1)"
    using adddir_entries [OF s7(2) _ _ _ _ s7(3), of 7 "[105, 99, 111, 110, 115]"] by (auto simp: DIRSIZ_def e8_def)
  have "e8 = base_dir"
    by (rule ext) (simp add: e8_def e7_def e6_def e5_def e4_def e3_def e2_def e1_def with_dir_def base_dir_def)
  then show ?thesis using r s2(1) s3(1) s4(1) s5(1) s6(1) s7(1) s8 by (simp add: make_dirs_def ROOTINO_def)
qed

section \<open>The files of the command line\<close>

text \<open>What \<open>read\<close> delivers before the end of the file.\<close>

definition content :: "byte list list \<Rightarrow> byte list" where
  "content cs = concat (takeWhile (\<lambda>c. c \<noteq> []) cs)"

lemma append_chunks_image:
  assumes "fsimage s N C T" "1 \<le> i" "i < N" "length (C i) + length (content cs) \<le> MAXFILE * BSIZE"
    "blocks_needed N (C(i := C i @ content cs)) \<le> fs_size"
  shows "\<exists>s'. append_chunks i cs s = Inr s' \<and> fsimage s' N (C(i := C i @ content cs)) T"
  using assms
proof (induction cs arbitrary: s C)
  case Nil
  then have "fsimage s N (C(i := C i @ content [])) T" by (simp add: content_def)
  then show ?case using append_chunks.simps(1) by blast
next
  case (Cons c cs)
  show ?case
  proof (cases "c = []")
    case True
    then have "C(i := C i @ content (c # cs)) = C" "append_chunks i (c # cs) s = Inr s" by (simp_all add: content_def)
    then show ?thesis using Cons.prems(1) by metis
  next
    case False
    then have ct: "content (c # cs) = c @ content cs" by (simp add: content_def)
    define C1 where "C1 = C(i := C i @ c)"
    have eq: "C1(i := C1 i @ content cs) = C(i := C i @ content (c # cs))" "length (C1 i) + length (content cs) = length (C i) + length (content (c # cs))"
      by (simp_all add: C1_def ct)
    have "blocks_needed N C1 \<le> blocks_needed N (C(i := C i @ content (c # cs)))" unfolding C1_def by (rule blocks_needed_mono) (simp add: ct)
    then have rm: "blocks_needed N (C(i := C i @ c)) \<le> fs_size" using Cons.prems(5) unfolding C1_def by (rule le_trans)
    have "length (C i) + length c \<le> MAXFILE * BSIZE" using Cons.prems(4) by (simp add: ct)
    from iappend_appends [OF Cons.prems(1-3) this rm] obtain s1 where s1: "iappend i c s = Inr s1" "fsimage s1 N C1 T" by (auto simp: C1_def)
    have "length (C1 i) + length (content cs) \<le> MAXFILE * BSIZE" "blocks_needed N (C1(i := C1 i @ content cs)) \<le> fs_size"
      unfolding eq by (rule Cons.prems)+
    from Cons.IH [OF s1(2) Cons.prems(2,3) this] obtain s2 where
      s2: "append_chunks i cs s1 = Inr s2" "fsimage s2 N (C(i := C i @ content (c # cs))) T" unfolding eq(1) by blast
    have "append_chunks i (c # cs) s = Inr s2" using False s1(1) s2(1) by simp
    then show ?thesis using s2(2) by blast
  qed
qed

definition file_dir :: "dirs \<Rightarrow> byte list \<times> byte list list option \<Rightarrow> nat" where "file_dir d f = fst (place d (fst f))"
definition file_name :: "dirs \<Rightarrow> byte list \<times> byte list list option \<Rightarrow> byte list" where "file_name d f = snd (place d (fst f))"
definition file_data :: "byte list \<times> byte list list option \<Rightarrow> byte list" where "file_data f = content (the (snd f))"

lemma add_file_image:
  assumes I: "fsimage s N C T" and N: "N < 208" and ok: "47 \<notin> set (file_name d f)" "snd f \<noteq> None"
    and dir: "1 \<le> file_dir d f" "file_dir d f < N" "length (C (file_dir d f)) + 16 \<le> MAXFILE * BSIZE" and sz: "length (file_data f) \<le> MAXFILE * BSIZE"
    and C': "C' = C(file_dir d f := C (file_dir d f) @ dirent N (file_name d f), N := file_data f)" and room: "blocks_needed (N + 1) C' \<le> fs_size"
  shows "\<exists>s'. add_file d f s = Inr s' \<and> fsimage s' (N + 1) C' (T(N := 2))"
proof -
  obtain cs where cs: "snd f = Some cs" using ok(2) by auto
  define p where "p = file_dir d f"
  define C0 C1 where "C0 = C(N := [])" and "C1 = C0(p := C0 p @ dirent N (file_name d f))"
  obtain s0 where s0: "ialloc 2 s = Inr (N, s0)" "fsimage s0 (N + 1) C0 (T(N := 2))" using ialloc_empty [OF I N, of 2] by (auto simp: C0_def)
  have "blocks_needed (N + 1) C1 \<le> blocks_needed (N + 1) C'" by (rule blocks_needed_le) (use dir in \<open>auto simp: C1_def C0_def C' p_def\<close>)
  then have rm: "blocks_needed (N + 1) C1 \<le> fs_size" using room by simp
  obtain s1 where s1: "iappend p (dirent N (file_name d f)) s0 = Inr s1" "fsimage s1 (N + 1) C1 (T(N := 2))"
    using iappend_appends [OF s0(2), of p "dirent N (file_name d f)"] dir rm unfolding C1_def by (auto simp: C0_def p_def)
  have e: "C1(N := C1 N @ content cs) = C'" "C1 N = []" using dir cs by (auto simp: C1_def C0_def C' p_def file_data_def)
  have "1 \<le> N" "N < N + 1" "length (C1 N) + length (content cs) \<le> MAXFILE * BSIZE" using dir sz cs by (simp_all add: e(2) file_data_def)
  from append_chunks_image [OF s1(2) this, unfolded e(1), OF room] obtain s2 where "append_chunks N cs s1 = Inr s2" "fsimage s2 (N + 1) C' (T(N := 2))" by blast
  then show ?thesis using s0(1) s1(1) ok(1) cs by (auto simp: add_file_def file_name_def file_dir_def p_def split: prod.split)
qed

text \<open>The entries a directory \<open>j\<close> gets for the files, numbered from \<open>N\<close>, and the contents afterwards.\<close>

primrec filed :: "dirs \<Rightarrow> nat \<Rightarrow> (byte list \<times> byte list list option) list \<Rightarrow> nat \<Rightarrow> (nat \<times> byte list) list" where
  "filed d N [] j = []"
| "filed d N (f # fs) j = (if file_dir d f = j then [(N, file_name d f)] else []) @ filed d (N + 1) fs j"

definition with_files :: "dirs \<Rightarrow> nat \<Rightarrow> (byte list \<times> byte list list option) list \<Rightarrow> (nat \<Rightarrow> byte list) \<Rightarrow> nat \<Rightarrow> byte list" where
  "with_files d N fs C j = (if N \<le> j \<and> j < N + length fs then file_data (fs ! (j - N)) else C j @ entries (filed d N fs j))"

definition file_ok_for :: "dirs \<Rightarrow> nat \<Rightarrow> byte list \<times> byte list list option \<Rightarrow> bool" where
  "file_ok_for d N f \<longleftrightarrow> 47 \<notin> set (file_name d f) \<and> snd f \<noteq> None \<and> 1 \<le> file_dir d f \<and> file_dir d f < N \<and> length (file_data f) \<le> MAXFILE * BSIZE"

lemma filed_none: "\<forall>f \<in> set fs. file_dir d f \<noteq> j \<Longrightarrow> filed d N fs j = []"
  by (induction fs arbitrary: N) auto

lemma length_filed: "length (filed d N fs j) \<le> length fs"
  by (induction fs arbitrary: N) (auto simp: le_SucI)

lemma with_files_Cons:
  assumes "\<forall>g \<in> set (f # fs). file_dir d g < N"
  shows "with_files d N (f # fs) C =
    with_files d (N + 1) fs (C(file_dir d f := C (file_dir d f) @ dirent N (file_name d f), N := file_data f))"
proof
  fix j
  have "filed d (N + 1) fs N = []" using assms by (intro filed_none) auto
  moreover have "file_dir d f \<noteq> N" using assms by auto
  moreover consider "j < N" | "j = N" | "N < j" by linarith
  ultimately show "with_files d N (f # fs) C j =
      with_files d (N + 1) fs (C(file_dir d f := C (file_dir d f) @ dirent N (file_name d f), N := file_data f)) j"
    using assms by cases (auto simp: with_files_def entries_simps nth_Cons' Suc_diff_Suc [symmetric])
qed

lemma add_files_image:
  assumes "fsimage s N C T" "N + length fs \<le> 208" "\<forall>f \<in> set fs. file_ok_for d N f" "\<forall>j < N. length (C j) + 16 * length fs \<le> MAXFILE * BSIZE \<or> (\<forall>f \<in> set fs. file_dir d f \<noteq> j)"
    "blocks_needed (N + length fs) (with_files d N fs C) \<le> fs_size"
  shows "\<exists>s'. add_files d fs s = Inr s' \<and> fsimage s' (N + length fs) (with_files d N fs C) (\<lambda>j. if N \<le> j \<and> j < N + length fs then 2 else T j)"
  using assms
proof (induction fs arbitrary: s N C T)
  case Nil
  have "with_files d N [] C = C" by (rule ext) (auto simp: with_files_def entries_simps)
  moreover have "(\<lambda>j. if N \<le> j \<and> j < N + length ([] :: (byte list \<times> byte list list option) list) then 2 else T j) = T" by auto
  ultimately show ?case using Nil.prems(1) by simp
next
  case (Cons f fs)
  define C' where "C' = C(file_dir d f := C (file_dir d f) @ dirent N (file_name d f), N := file_data f)"
  have f: "47 \<notin> set (file_name d f)" "snd f \<noteq> None" "1 \<le> file_dir d f" "file_dir d f < N" "length (file_data f) \<le> MAXFILE * BSIZE"
    using Cons.prems(3) by (auto simp: file_ok_for_def)
  have w: "with_files d N (f # fs) C = with_files d (N + 1) fs C'" unfolding C'_def
    by (rule with_files_Cons) (use Cons.prems(3) in \<open>auto simp: file_ok_for_def\<close>)
  have n: "N + length (f # fs) = N + 1 + length fs" by simp
  have "blocks_needed (N + 1) C' \<le> blocks_needed (N + 1 + length fs) (with_files d (N + 1) fs C')"
    by (rule blocks_needed_le) (auto simp: with_files_def)
  then have rm: "blocks_needed (N + 1) C' \<le> fs_size" using Cons.prems(5) [unfolded w n] by (rule le_trans)
  have "length (C (file_dir d f)) + 16 \<le> MAXFILE * BSIZE" using Cons.prems(4) f(4) by auto
  from add_file_image [OF Cons.prems(1) _ f(1-4) this f(5) C'_def rm] Cons.prems(2) obtain s1 where
    s1: "add_file d f s = Inr s1" "fsimage s1 (N + 1) C' (T(N := 2))" by auto
  have N2: "N + 1 + length fs \<le> 208" using Cons.prems(2) by simp
  have o2: "\<forall>f \<in> set fs. file_ok_for d (N + 1) f" using Cons.prems(3) by (auto simp: file_ok_for_def)
  have c2: "\<forall>j < N + 1. length (C' j) + 16 * length fs \<le> MAXFILE * BSIZE \<or> (\<forall>f \<in> set fs. file_dir d f \<noteq> j)"
  proof (intro allI impI)
    fix j assume "j < N + 1"
    then consider "j = N" | "j < N" by linarith
    then show "length (C' j) + 16 * length fs \<le> MAXFILE * BSIZE \<or> (\<forall>f \<in> set fs. file_dir d f \<noteq> j)"
    proof cases
      case 1
      then show ?thesis using Cons.prems(3) by (auto simp: file_ok_for_def)
    next
      case 2
      then show ?thesis using Cons.prems(4) by (auto simp: C'_def)
    qed
  qed
  from Cons.IH [OF s1(2) N2 o2 c2 Cons.prems(5) [unfolded w n]] obtain s' where
    s': "add_files d fs s1 = Inr s'" "fsimage s' (N + 1 + length fs) (with_files d (N + 1) fs C') (\<lambda>j. if N + 1 \<le> j \<and> j < N + 1 + length fs then 2 else (T(N := 2)) j)"
    by blast
  have "(\<lambda>j. if N + 1 \<le> j \<and> j < N + 1 + length fs then 2 else (T(N := 2)) j) = (\<lambda>j. if N \<le> j \<and> j < N + 1 + length fs then 2 else T j)"
    by auto
  then show ?case unfolding w n using s1(1) s' by auto
qed

section \<open>The size of the root, and the bitmap\<close>

text \<open>Rounding the size of a file up to a whole block appends zeros.\<close>

lemma files_pad:
  assumes F: "files s D N C" and i: "1 \<le> i" "i < N" "length (C i) mod 1024 \<noteq> 0"
    and n: "n = (length (C i) div 1024 + 1) * 1024 - length (C i)"
  shows "files s D N (C(i := C i @ replicate n 0))"
proof -
  define z S where "z = length (C i)" and "S = (\<lambda>j. slot (img s) (D j))"
  have zz: "z < (z div 1024 + 1) * 1024" using dividend_less_div_times [of 1024 z] by simp
  then have n': "z < z + n" "z + n = (z div 1024 + 1) * 1024" by (simp_all add: n z_def)
  have nb: "nb (z + n) = nb z" using nb_step [OF n'(1)] n'(2) i(3) by (simp add: z_def)
  have Z: "(\<lambda>j. length ((C(i := C i @ replicate n 0)) j)) = (\<lambda>j. length (C j))(i := z + n)" by (auto simp: z_def)
  have L: "lay N S (\<lambda>j. length (C j)) (img s) (freeblock s)" and ok: "slots_ok N S (\<lambda>j. length (C j)) (freeblock s)"
    using F unfolding files_def lay_def S_def by blast+
  have "nb z \<le> MAXFILE" using slots_okD(1) [OF ok i(1,2)] by (simp add: nb_def z_def MAXFILE_eq)
  then have zM: "z + n \<le> MAXFILE * BSIZE" using nb_step(2) [OF n'(1)] n'(2) i(3) by (simp add: z_def MAXFILE_eq)
  have h: "held (z + n) = held z" "nblk (z + n) = nblk z" by (simp_all add: fun_eq_iff held_def nblk_def nb)
  have "slots_ok N S ((\<lambda>j. length (C j))(i := z + n)) (freeblock s)"
    using ok zM h(1) unfolding slots_ok_def by (auto simp: z_def)
  then have "lay N S ((\<lambda>j. length (C j))(i := z + n)) (img s) (freeblock s)" using L nb by (auto simp: lay_def z_def)
  moreover have "byte_at (img s) (S i) m = (C i @ replicate n 0) ! m" if "m < z + n" for m
  proof (cases "m < z")
    case True
    then show ?thesis using filesD(4) [OF F i(1,2)] by (simp add: S_def z_def nth_append)
  next
    case False
    have "z + n = nb z * 1024" using nb_step(2) [OF n'(1)] n'(2) i(3) by (simp add: z_def)
    then have "byte_at (img s) (S i) m = 0" using L i(1,2) that False by (simp add: lay_def z_def)
    then show ?thesis using False that by (simp add: nth_append z_def)
  qed
  moreover have "(\<Sum>j = 1..<N. nblk (length ((C(i := C i @ replicate n 0)) j))) = (\<Sum>j = 1..<N. nblk (length (C j)))"
    using sum_nblk_upd [OF i(1,2), of C "C i @ replicate n 0"] h(2) by (simp add: z_def)
  ultimately show ?thesis using F unfolding files_def Z S_def by (auto simp: z_def)
qed

lemma fix_root_image:
  assumes I: "fsimage s N C T" and N: "1 < N" and z: "length (C 1) mod 1024 \<noteq> 0" "length (C 1) \<le> MAXFILE * BSIZE"
    and n: "n = (length (C 1) div 1024 + 1) * 1024 - length (C 1)"
  shows "\<exists>s'. fix_root 1 s = Inr s' \<and> fsimage s' N (C(1 := C 1 @ replicate n 0)) T"
proof -
  define D off where "D = disk_inode s" and "off = (length (C 1) div 1024 + 1) * 1024"
  have F: "files s D N C" and h: "freeinode s = N" "N \<le> 208" "img s ! 1 = sb_block" "\<And>j. 1 \<le> j \<Longrightarrow> j < N \<Longrightarrow> dhead (D j) (T j) (length (C j))"
    using I by (auto simp: fsimage_def D_def)
  have "i2b 1 < length (img s)" using filesD(1) [OF F] by (simp add: fs_size_def i2b_def IPB_def)
  then have ri: "rinode 1 s = Inr (D 1)" by (simp add: rinode_def rsect_def D_def disk_inode_def)
  have g: "get_u32 8 (D 1) = length (C 1)" using h(4) [of 1] N by (simp add: dhead_def)
  have l: "length (D 1) = DINODE_SIZE" using filesD(3) [OF F _ N] by simp
  then have l2: "length (put_u32 8 off (D 1)) = DINODE_SIZE" by (simp add: DINODE_SIZE_def)
  from winode_run [OF _ filesD(1,2) [OF F] l2, of 1] obtain s' where s': "winode 1 (put_u32 8 off (D 1)) s = Inr s'" "length (img s') = fs_size"
      "\<forall>d \<in> set (img s'). length d = BSIZE" "\<And>l. disk_inode s' l = (if l = 1 then put_u32 8 off (D 1) else disk_inode s l)"
      "\<And>b. b < 2 \<or> 15 \<le> b \<Longrightarrow> img s' ! b = img s ! b" "freeblock s' = freeblock s" "usedblocks s' = usedblocks s" "freeinode s' = freeinode s"
    by auto
  have D': "disk_inode s' l = (if l = 1 then put_u32 8 off (D 1) else D l)" for l using s'(4) by (simp add: D_def)
  have "files s D N (C(1 := C 1 @ replicate n 0))" using files_pad [OF F _ N z(1) n] by simp
  then have "files s' (disk_inode s') N (C(1 := C 1 @ replicate n 0))"
  proof (rule files_frame [OF _ s'(2,3) _ s'(6,7)])
    show "img s' ! b = img s ! b" if "16 \<le> b" for b using s'(5) [of b] that by simp
    fix j k assume j: "1 \<le> j" "j < N"
    show "length (disk_inode s' j) = DINODE_SIZE" using D' l2 filesD(3) [OF F j] by simp
    show "addr (disk_inode s' j) k = addr (D j) k" if "k \<le> NDIRECT" using D' addr_size [OF l that] by simp
  qed
  moreover have lo: "length (C 1 @ replicate n 0) = off" using dividend_less_div_times [of 1024 "length (C 1)"] by (simp add: n off_def)
  have "off < 2 ^ 32" using z(2) div_le_mono [OF z(2), of 1024] by (simp add: off_def MAXFILE_eq)
  then have "dhead (disk_inode s' j) (T j) (length ((C(1 := C 1 @ replicate n 0)) j))" if "1 \<le> j" "j < N" for j
    using D' [of j] h(4) [OF that] dhead_size [OF l, of off "D 1"] lo by (auto simp: same_head_def)
  ultimately have "fsimage s' N (C(1 := C 1 @ replicate n 0)) T" using I s'(5) [of 1] s'(8) by (auto simp: fsimage_def)
  moreover have "fix_root 1 s = Inr s'" using ri g s'(1) by (simp add: fix_root_def off_def MAXFILE_eq(3))
  ultimately show ?thesis by blast
qed

lemma fold_bm_set:
  "n \<le> 8 * length d \<Longrightarrow> length (fold bm_set [0..<n] d) = length d \<and> (bm_and (fold bm_set [0..<n] d) b \<noteq> 0 \<longleftrightarrow> b < n \<or> bm_and d b \<noteq> 0)"
proof (induction n)
  case (Suc n)
  then have "n div 8 < length (fold bm_set [0..<n] d)" by simp
  moreover have "fold bm_set [0..<Suc n] d = bm_set n (fold bm_set [0..<n] d)" by simp
  ultimately show ?case using bm_and_set [of n "fold bm_set [0..<n] d" b] Suc.IH Suc.prems by auto
qed simp

lemma balloc_image:
  assumes I: "fsimage s N C T" and n: "n < 8192"
  shows "\<exists>s'. balloc n s = Inr s' \<and> fsimage s' N C T \<and> length (img s' ! 15) = BSIZE \<and> (\<forall>b < 8192. bm_and (img s' ! 15) b \<noteq> 0 \<longleftrightarrow> b < n)"
proof -
  define d where "d = fold bm_set [0..<n] (replicate 1024 (0 :: byte))"
  define s' where "s' = wsect 15 d s"
  have d: "length d = 1024" "bm_and d b \<noteq> 0 \<longleftrightarrow> b < n" if "b < 8192" for b
    using fold_bm_set [of n "replicate 1024 0" b] n that by (auto simp: d_def bm_and_def)
  have F: "files s (disk_inode s) N C" and N: "N \<le> 208" using I by (simp_all add: fsimage_def)
  have im: "img s' = (img s)[15 := d]" using filesD(1) [OF F] by (simp add: s'_def img_wsect fs_size_def)
  have fld: "freeblock s' = freeblock s" "usedblocks s' = usedblocks s" "freeinode s' = freeinode s" by (simp_all add: s'_def)
  have D: "disk_inode s' j = disk_inode s j" if "j < 208" for j using that by (simp add: disk_inode_def im i2b_def IPB_def)
  have "files s' (disk_inode s') N C"
    by (rule files_frame [OF F])
      (use filesD [OF F] D N d(1) [of 0] set_update_subset_insert [of "img s" 15 d] in \<open>auto simp: im MAXFILE_eq(3) fld intro: filesD(3) [OF F]\<close>)
  then have "fsimage s' N C T" using I D N by (simp add: fsimage_def im fld)
  moreover have "balloc n s = Inr s'" using n by (simp add: balloc_def s'_def d_def ninodes_def IPB_def)
  ultimately show ?thesis using d(1) [of 0] d(2) filesD(1) [OF F] by (intro exI [of _ s']) (simp add: im fs_size_def MAXFILE_eq(3))
qed

section \<open>The whole program\<close>

definition std_dirs :: dirs where
  "std_dirs = \<lparr>binino = 2, etcino = 4, iconsino = 8\<rparr>"

text \<open>The contents of the inodes of the image: 1 to 8 are the directories, the root padded to a block, 9 and up the files in the order of
  the command line.\<close>

definition fs_contents :: "(byte list \<times> byte list list option) list \<Rightarrow> nat \<Rightarrow> byte list" where
  "fs_contents args j = with_files std_dirs 9 args (\<lambda>j. entries (base_dir j)) j @ (if j = 1 then replicate 928 0 else [])"

definition fs_type :: "nat \<Rightarrow> nat" where
  "fs_type j = (if j < 9 then 1 else 2)"

definition args_ok :: "(byte list \<times> byte list list option) list \<Rightarrow> bool" where
  "args_ok args \<longleftrightarrow> 9 + length args \<le> ninodes \<and>
     (\<forall>f \<in> set args. 47 \<notin> set (file_name std_dirs f) \<and> snd f \<noteq> None \<and> length (file_data f) \<le> MAXFILE * BSIZE) \<and>
     blocks_needed (9 + length args) (fs_contents args) \<le> fs_size - nlog"

lemma file_dir_std: "file_dir std_dirs f \<in> {2, 4, 8}"
  by (auto simp: file_dir_def place_def std_dirs_def split: prod.split)

lemma base_dir_length: "length (base_dir j) \<le> 6" by (simp add: base_dir_def)

lemma main_image:
  assumes "args_ok args"
  shows "\<exists>s. main args = Inr s \<and> fsimage s (9 + length args) (fs_contents args) fs_type \<and> length (img s ! 15) = BSIZE \<and>
    (\<forall>b < 8192. bm_and (img s ! 15) b \<noteq> 0 \<longleftrightarrow> b < blocks_needed (9 + length args) (fs_contents args))"
proof -
  define N C where "N = 9 + length args" and "C = with_files std_dirs 9 args (\<lambda>j. entries (base_dir j))"
  have N: "N \<le> 200" "1 < N" using assms by (simp_all add: args_ok_def ninodes_def N_def)
  have room: "blocks_needed N (fs_contents args) \<le> 4016" using assms by (simp add: args_ok_def N_def fs_size_def nlog_def LOGSIZE_def)
  have dirs: "file_dir std_dirs f < 9" "1 \<le> file_dir std_dirs f" "file_dir std_dirs f \<noteq> 1" for f using file_dir_std [of f] by auto
  have C1: "C 1 = entries (base_dir 1)" using filed_none [of args std_dirs 1 9] dirs(3) by (simp add: C_def with_files_def entries_simps)
  then have l1: "length (C 1) = 96" by (simp add: base_dir_def)
  have fc: "fs_contents args = C(1 := C 1 @ replicate 928 0)" by (rule ext) (simp add: fs_contents_def C_def)
  obtain s0 where s0: "blank = Inr s0" "fsimage s0 1 (\<lambda>_. []) (\<lambda>_. 1)" using blank_image by blast
  from make_dirs_image [OF s0(2)] obtain s1 where s1: "make_dirs s0 = Inr (1, std_dirs, s1)" "fsimage s1 9 (\<lambda>j. entries (base_dir j)) (\<lambda>_. 1)"
    by (auto simp: std_dirs_def)
  have "blocks_needed N C \<le> blocks_needed N (fs_contents args)" by (rule blocks_needed_le) (simp_all add: fc)
  then have rm: "blocks_needed (9 + length args) C \<le> fs_size" using room by (simp add: fs_size_def N_def)
  have ok: "9 + length args \<le> 208" "\<forall>f \<in> set args. file_ok_for std_dirs 9 f"
    using N(1) assms dirs by (simp_all add: N_def args_ok_def file_ok_for_def)
  have "\<forall>j < 9. length (entries (base_dir j)) + 16 * length args \<le> MAXFILE * BSIZE \<or> (\<forall>f \<in> set args. file_dir std_dirs f \<noteq> j)"
  proof (intro allI impI disjI1)
    fix j :: nat
    show "length (entries (base_dir j)) + 16 * length args \<le> MAXFILE * BSIZE" using base_dir_length [of j] N(1) by (simp add: N_def MAXFILE_eq)
  qed
  from add_files_image [OF s1(2) ok this rm [unfolded C_def], folded C_def N_def] obtain s2 where s2: "add_files std_dirs args s1 = Inr s2"
      "fsimage s2 N C (\<lambda>j. if 9 \<le> j \<and> j < N then 2 else 1)"
    by blast
  from fix_root_image [OF s2(2) N(2), of 928] l1 obtain s3 where s3: "fix_root 1 s2 = Inr s3" "fsimage s3 N (fs_contents args) (\<lambda>j. if 9 \<le> j \<and> j < N then 2 else 1)"
    by (auto simp: fc MAXFILE_eq)
  have t: "fsimage s N X (\<lambda>j. if 9 \<le> j \<and> j < N then 2 else 1) = fsimage s N X fs_type" for s X
    unfolding fsimage_def by (intro conj_cong ball_cong refl) (simp add: fs_type_def)
  have ub: "usedblocks s3 = blocks_needed N (fs_contents args)" using s3(2) by (simp add: fsimage_def files_def blocks_needed_def)
  from balloc_image [OF s3(2) [unfolded t], of "usedblocks s3"] room ub obtain s4 where s4: "balloc (usedblocks s3) s3 = Inr s4"
      "fsimage s4 N (fs_contents args) fs_type" "length (img s4 ! 15) = BSIZE" "\<forall>b < 8192. bm_and (img s4 ! 15) b \<noteq> 0 \<longleftrightarrow> b < usedblocks s3" by auto
  have "main args = Inr s4" unfolding main_def by (simp add: s0(1) s1(1) s2(1) s3(1) [unfolded One_nat_def] s4(1))
  then show ?thesis using s4 ub by (auto simp: N_def)
qed

end
