(* ===== verification/Mkfs_Boot.thy ===== *)
theory Mkfs_Boot
  imports Mkfs_Image
begin

text \<open>
  The kernel on the image of \<open>mkfs\<close>: \<open>initlog\<close> finds an empty log and leaves a machine at rest that satisfies the hypotheses of the
  theorems about transactions, block allocation and files; exactly the blocks \<open>mkfs\<close> used are marked in the bitmap, and
  every inode the kernel loads is a well-formed file with the content \<open>mkfs\<close> gave it.
\<close>

section \<open>Starting the log\<close>

text \<open>The machine when \<open>binit\<close> has run: static variables are zero.\<close>

definition power_on :: "byte list list \<Rightarrow> 'a \<Rightarrow> 'a log_state_scheme" where
  "power_on im x = binit \<lparr>memdisk = im, writes = [], bufs = [], lru = [], lg_start = 0, lg_size = 0, lg_busy = False, lg_dev = 0,
     lg_n = 0, lg_sector = replicate LOGSIZE 0, \<dots> = x\<rparr>"

lemma sb_block_dec: "dec_superblock sb_block = \<lparr>sb_size = 4026, sb_nblocks = 4000, sb_ninodes = 200, sb_nlog = 10\<rparr>"
proof -
  have s: "slice off 4 sb_block = slice off 4 (le_enc 4 fs_size @ le_enc 4 nblocks @ le_enc 4 ninodes @ le_enc 4 nlog)" if "off + 4 \<le> 16" for off
    using that by (simp add: sb_block_def slice_within_splice BSIZE_def)
  show ?thesis
    by (simp add: dec_superblock_def get_u32_def s fs_size_def nblocks_def ninodes_def nlog_def LOGSIZE_def)
      (simp add: slice_def le_dec_enc [of _ 4])
qed

lemma initlog_boot:
  assumes im: "length im = fs_size" "\<forall>d \<in> set im. length d = BSIZE" "im ! 1 = sb_block" "im ! 4016 = replicate BSIZE 0"
  shows "\<exists>s. initlog (power_on im x) = Inr s \<and> tx_rest s \<and> lg_start s = 4016 \<and> lg_size s = 10 \<and> length (memdisk s) = fs_size \<and>
    (\<forall>b. b \<noteq> 4016 \<longrightarrow> memdisk s ! b = im ! b) \<and> log_state.more s = x"
proof -
  define s0 where "s0 = power_on im x"
  have md: "memdisk s0 = im" "log_state.more s0 = x" "lg_n s0 = 0" "lg_busy s0 = False" "length (lg_sector s0) = LOGSIZE"
    by (simp_all add: s0_def power_on_def binit_def)
  have b0: "bio_inv s0" "busyS s0 = {}" "dirtyS s0 = {}"
    unfolding s0_def power_on_def by (rule binit_effect; simp add: im(2))+
  have "view s0 1 = im ! 1" using view_idle [OF b0(1)] b0 by (simp add: md)
  then obtain s1 where s1: "bc.peek 1 s0 = Inr (sb_block, s1)" "bc.same s0 s1"
    using bc.peek_effect [OF b0(1), of 1] b0 im(1,3) by (auto simp: md NBUF_def fs_size_def)
  then have rs: "readsb ROOTDEV s0 = Inr (dec_superblock sb_block, s1)"
    unfolding bc.peek_def by (auto simp: res_simps readsb_def ROOTDEV_def Let_def)
  define s2 where "s2 = s1\<lparr>lg_start := 4016, lg_size := 10, lg_dev := 1\<rparr>"
  have e1: "bio_inv s1" "busyS s1 = {}" "dirtyS s1 = {}" "memdisk s1 = im" "bio_state.more s1 = bio_state.more s0"
    using s1(2) b0 by (simp_all add: bc.same_def md)
  note f1 = log_fields_more [OF e1(5)]
  have g2: "bio_inv s2" "busyS s2 = {}" "dirtyS s2 = {}" "memdisk s2 = im" "lg_start s2 = 4016" "lg_size s2 = 10" "lg_busy s2 = False"
      "log_state.more s2 = x"
    using e1 f1 by (simp_all add: s2_def md busyS_def dirtyS_def bio_inv_def)
  have geom: "log_geom s2" using im(1) f1(6) md(5) by (simp add: log_geom_def s2_def e1(4) fs_size_def)
  have h2: "disk_head s2 = replicate BSIZE 0" "head_n (disk_head s2) = 0"
    using im(4) get_u32_zeros [of 0 BSIZE] by (simp_all add: disk_head_def g2 head_n_def BSIZE_def)
  obtain s secs where r: "recover_from_log s2 = Inr s" "bio_inv s" "busyS s = {}" "dirtyS s = {}"
      "memdisk s = (apply_writes (redo_writes s2) im)[4016 := put_head 0 secs (replicate BSIZE 0)]" "lg_n s = 0" "log_geom s"
      "lg_start s = 4016" "lg_size s = 10" "lg_busy s = False" "log_state.more s = x"
    using recover_effect [OF g2(1) geom g2(2,3)] h2 by (auto simp: head_homes_def g2)
  have md': "memdisk s = im[4016 := put_head 0 secs (replicate BSIZE 0)]" using r(5) h2(2) by (simp add: redo_writes_def)
  have "head_n (disk_head s) = 0"
    using head_n_put [of "replicate BSIZE 0" 0 secs] im(1) by (simp add: disk_head_def r(8) md' fs_size_def head_n_def)
  then have "log_inv s" using r by (simp add: log_inv_def logged_def)
  then have "tx_rest s" using r by (simp add: tx_rest_def)
  moreover have "initlog s0 = Inr s" using rs r(1) by (simp add: initlog_def sb_block_dec s2_def ROOTDEV_def)
  ultimately show ?thesis using r(8,9,11) md' im(1) unfolding s0_def by (intro exI [of _ s]) simp
qed

section \<open>The geometry of the image\<close>

text \<open>A kernel at rest on an image with \<open>U\<close> blocks in use.\<close>

definition on_image :: "byte list list \<Rightarrow> nat \<Rightarrow> 'a log_state_scheme \<Rightarrow> bool" where
  "on_image im U s \<longleftrightarrow> tx_rest s \<and> lg_start s = 4016 \<and> lg_size s = 10 \<and> length (memdisk s) = fs_size \<and> 16 \<le> U \<and> U \<le> 4016 \<and>
     (\<forall>b < 4016. hv s b = im ! b) \<and> im ! 1 = sb_block \<and> (\<forall>b < 8192. bm_and (im ! 15) b \<noteq> 0 \<longleftrightarrow> b < U)"

lemma on_image_home:
  assumes "on_image im U s"
  shows "home_ok s b \<longleftrightarrow> b < 4016" "sbof s = \<lparr>sb_size = 4026, sb_nblocks = 4000, sb_ninodes = 200, sb_nlog = 10\<rparr>"
    "bmS s = {15}" "metaS s = {..<16}" "b < 4026 \<Longrightarrow> used s b \<longleftrightarrow> b < U" "tx_cap s = 9"
proof -
  show "home_ok s b \<longleftrightarrow> b < 4016" using assms by (auto simp: on_image_def home_ok_def in_log_def fs_size_def)
  show sb: "sbof s = \<lparr>sb_size = 4026, sb_nblocks = 4000, sb_ninodes = 200, sb_nlog = 10\<rparr>"
    using assms sb_block_dec by (simp add: sbof_def on_image_def)
  have bb: "bmblk s b = 15" if "b < 4026" for b
    using that by (simp add: bmblk_def sb BBLOCK_def BPB_def BSIZE_def IPB_def)
  then show bm: "bmS s = {15}" by (auto simp: bmS_def sb intro!: image_eqI [of _ _ 0])
  have "IBLOCK ` {..<200} = {2..<15}"
  proof
    show "IBLOCK ` {..<200} \<subseteq> {2..<15}" by (auto simp: IBLOCK_def IPB_def)
    show "{2..<15} \<subseteq> IBLOCK ` {..<200}"
    proof
      fix b :: nat assume "b \<in> {2..<15}"
      then show "b \<in> IBLOCK ` {..<200}" by (intro image_eqI [of _ _ "(b - 2) * 16"]) (auto simp: IBLOCK_def IPB_def)
    qed
  qed
  then show "metaS s = {..<16}" by (auto simp: metaS_def bm sb)
  show "used s b \<longleftrightarrow> b < U" if "b < 4026"
  proof -
    have "used s b \<longleftrightarrow> bm_and (im ! 15) b \<noteq> 0"
      using that assms bb [OF that] by (simp add: used_def on_image_def BPB_def BSIZE_def)
    then show ?thesis using assms that by (simp add: on_image_def)
  qed
  show "tx_cap s = 9" using assms by (simp add: tx_cap_def lcap_def on_image_def NBUF_def LOGSIZE_def)
qed

lemma on_image_geom:
  assumes "on_image im U s"
  shows "bm_geom s" "held_ok s"
proof -
  note H = on_image_home [OF assms]
  have r: "log_inv s" "busyS s = {}" "length (memdisk s) = 4026" "16 \<le> U"
    using assms tx_restD(1,3) [of s] by (simp_all add: on_image_def fs_size_def)
  then show "bm_geom s" by (auto simp: bm_geom_def H BPB_def BSIZE_def IPB_def)
  show "held_ok s" using r by (simp add: held_ok_def)
qed

section \<open>The inodes\<close>

text \<open>The inode \<open>ilock\<close> loads.\<close>

definition loaded :: "'a log_state_scheme \<Rightarrow> nat \<Rightarrow> inode \<Rightarrow> inode" where
  "loaded s i ino = load_dinode (dinode_off i) (hv s (IBLOCK i)) ino"

lemma loaded_fields:
  assumes O: "on_image (img m) U s" and i: "i < 200" and d: "dhead (disk_inode m i) t z" and l: "\<forall>d \<in> set (img m). length d = BSIZE" "length (img m) = fs_size"
  shows "i_type (loaded s i ino) = short_of t" "i_size (loaded s i ino) = z" "i_nlink (loaded s i ino) = 1"
    "length (i_addrs (loaded s i ino)) = NDIRECT + 1" "k \<le> NDIRECT \<Longrightarrow> i_addrs (loaded s i ino) ! k = addr (disk_inode m i) k"
    "i_dev (loaded s i ino) = i_dev ino"
proof -
  define p b where "p = dinode_off i" and "b = img m ! i2b i"
  have ib: "IBLOCK i = i2b i" "i2b i < 4016" using i by (simp_all add: IBLOCK_def i2b_def IPB_def)
  then have hb: "hv s (IBLOCK i) = b" using O by (simp add: on_image_def b_def)
  have di: "disk_inode m i = slice p DINODE_SIZE b" by (simp add: disk_inode_def p_def dinode_off_def b_def)
  have lb: "p + 64 \<le> length b" using l ib(2) dinode_off_fits [of i] by (simp add: b_def p_def fs_size_def DINODE_SIZE_def)
  have u16: "get_u16 q (disk_inode m i) = get_u16 (p + q) b" if "q + 2 \<le> 64" for q
    using that by (simp add: get_u16_def di slice_slice DINODE_SIZE_def)
  have u32: "get_u32 q (disk_inode m i) = get_u32 (p + q) b" if "q + 4 \<le> 64" for q
    using that by (simp add: get_u32_def di slice_slice DINODE_SIZE_def)
  show "i_type (loaded s i ino) = short_of t" "i_size (loaded s i ino) = z" "i_nlink (loaded s i ino) = 1"
    using d u16 [of 0] u16 [of 6] u32 [of 8] by (simp_all add: loaded_def hb load_dinode_def p_def [symmetric] dhead_def short_of_def)
  show "length (i_addrs (loaded s i ino)) = NDIRECT + 1" "i_dev (loaded s i ino) = i_dev ino" by (simp_all add: loaded_def load_dinode_def)
  show "i_addrs (loaded s i ino) ! k = addr (disk_inode m i) k" if "k \<le> NDIRECT"
    using that u32 [of "12 + 4 * k"] by (simp add: loaded_def load_dinode_def hb p_def [symmetric] addr_def MAXFILE_eq nth_append add.assoc)
qed

lemma loaded_file:
  assumes O: "on_image (img m) (freeblock m) s" and I: "fsimage m N C T" and N: "N \<le> 200" and i: "1 \<le> i" "i < N" and dev: "i_dev ino = 1"
  shows "file_ok s (loaded s i ino)" "i_size (loaded s i ino) = length (C i)" "i_type (loaded s i ino) = short_of (T i)"
    "n < length (C i) \<Longrightarrow> fbyte s (loaded s i ino) n = C i ! n"
proof -
  define L S where "L = loaded s i ino" and "S = slot (img m) (disk_inode m i)"
  have F: "files m (disk_inode m) N C" and d: "dhead (disk_inode m i) (T i) (length (C i))" using I i by (auto simp: fsimage_def)
  have ok: "slots_ok N (\<lambda>j. slot (img m) (disk_inode m j)) (\<lambda>j. length (C j)) (freeblock m)" using F unfolding files_def lay_def by blast
  note K = slots_okD [OF ok i, folded S_def]
  have i200: "i < 200" using i N by simp
  note Lf = loaded_fields [OF O i200 d filesD(2,1) [OF F], where ino = ino, folded L_def]
  note H = on_image_home [OF O]
  have U: "freeblock m \<le> 4016" using O by (simp add: on_image_def)
  have hvb: "hv s b = img m ! b" if "b < 4016" for b using O that by (simp add: on_image_def)
  have data: "datablk s (S k)" if "k \<le> MAXFILE" "S k \<noteq> 0" for k
    using K(3) [OF that] U by (simp add: datablk_def H)
  have ind: "i_addrs L ! NDIRECT = S MAXFILE" using Lf(5) [of NDIRECT] by (simp add: S_def slot_direct)
  have fa: "faddr s L bn = S bn" if "bn < MAXFILE" for bn
  proof (cases "bn < NDIRECT")
    case True
    then show ?thesis using Lf(5) [of bn] by (simp add: faddr_def S_def slot_direct)
  next
    case False
    have "S MAXFILE \<noteq> 0 \<Longrightarrow> hv s (S MAXFILE) = img m ! S MAXFILE" using K(3) [of MAXFILE] U hvb by simp
    then show ?thesis using False that ind by (simp add: faddr_def) (simp add: S_def slot_direct)
  qed
  have K4: "k = l" if "k \<le> MAXFILE" "l \<le> MAXFILE" "S k = S l" "S k \<noteq> 0" for k l using K(4) [OF i, of k l] that by (simp add: S_def)
  have bo: "blocks_ok s L"
    unfolding blocks_ok_def
  proof (intro conjI allI impI)
    show "i_dev L = 1" "length (i_addrs L) = NDIRECT + 1" using Lf(4,6) dev by simp_all
    show "datablk s (i_addrs L ! NDIRECT)" if "i_addrs L ! NDIRECT \<noteq> 0" using data [of MAXFILE] that ind by simp
    fix bn assume bn: "bn < MAXFILE"
    show "datablk s (faddr s L bn)" "faddr s L bn \<noteq> i_addrs L ! NDIRECT" if "faddr s L bn \<noteq> 0"
      using that data [of bn] fa [OF bn] bn ind K4 [of bn MAXFILE] by auto
    fix bm assume "bm < MAXFILE" "faddr s L bn \<noteq> 0 \<and> faddr s L bn = faddr s L bm"
    then show "bn = bm" using fa bn K4 [of bn bm] by simp
  qed
  have bl: "n div 1024 < MAXFILE" "S (n div 1024) \<noteq> 0" if "n < length (C i)" for n
  proof -
    have "n div 1024 < nb (length (C i))" using that by (intro less_mult_imp_div_less) (use dividend_less_div_times [of 1024 "length (C i) + 1023"] in \<open>simp add: nb_def\<close>)
    moreover have "nb (length (C i)) \<le> MAXFILE" using K(1) by (simp add: nb_def MAXFILE_eq)
    ultimately show "n div 1024 < MAXFILE" "S (n div 1024) \<noteq> 0" using K(2) [of "n div 1024"] by (simp_all add: held_def)
  qed
  show "i_size (loaded s i ino) = length (C i)" "i_type (loaded s i ino) = short_of (T i)" using Lf(1,2) by (simp_all add: L_def)
  show "file_ok s (loaded s i ino)"
    using bo Lf(2) K(1) bl fa by (auto simp: file_ok_def L_def [symmetric] mapped_def MAXFILE_eq(3))
  show "fbyte s (loaded s i ino) n = C i ! n" if n: "n < length (C i)"
  proof -
    have "fbyte s L n = img m ! S (n div 1024) ! (n mod 1024)"
      using fa bl [OF n] K(3) [of "n div 1024"] U hvb by (simp add: fbyte_def MAXFILE_eq(3))
    also have "\<dots> = C i ! n" using filesD(4) [OF F i n] by (simp add: byte_at_def S_def)
    finally show ?thesis by (simp add: L_def)
  qed
qed

section \<open>From the command line of \<open>mkfs\<close> to the files of the kernel\<close>

lemma boot_on_image:
  assumes I: "fsimage m N C T" and U: "freeblock m \<le> 4016" and b: "\<forall>b < 8192. bm_and (img m ! 15) b \<noteq> 0 \<longleftrightarrow> b < freeblock m"
  shows "\<exists>s. initlog (power_on (img m) x) = Inr s \<and> on_image (img m) (freeblock m) s \<and> log_state.more s = x"
proof -
  have F: "files m (disk_inode m) N C" and sb: "img m ! 1 = sb_block" using I by (simp_all add: fsimage_def)
  have L: "lay N (\<lambda>j. slot (img m) (disk_inode m j)) (\<lambda>j. length (C j)) (img m) (freeblock m)" using F unfolding files_def by blast
  have z: "img m ! 4016 = replicate BSIZE 0" "16 \<le> freeblock m" using L U filesD(1) [OF F] by (simp_all add: lay_def fs_size_def)
  from initlog_boot [OF filesD(1,2) [OF F] sb z(1), of x] obtain s where s: "initlog (power_on (img m) x) = Inr s" "tx_rest s" "lg_start s = 4016"
      "lg_size s = 10" "length (memdisk s) = fs_size" "\<forall>b. b \<noteq> 4016 \<longrightarrow> memdisk s ! b = img m ! b" "log_state.more s = x" by blast
  have "hv s b = img m ! b" if "b < 4016" for b
    using tx_restD(6) [OF s(2), of b] s(3-6) that by (simp add: home_ok_def in_log_def fs_size_def)
  then have "on_image (img m) (freeblock m) s" using s z(2) U b sb by (simp add: on_image_def)
  then show ?thesis using s(1,7) by blast
qed

text \<open>C4: The image \<open>mkfs\<close> makes is one the kernel can run on. If the files on its command line can be read and fit (in the inodes, in
  the size of a file, and in the data blocks before the log), \<open>mkfs\<close> ends; on its image \<open>initlog\<close> returns with an empty log, the
  geometry all theorems on the file system ask for holds, exactly the blocks in use are marked in the bitmap, and every
  inode the kernel loads (the eight directories with their entries, and the files in the order of the command line) is a
  well-formed file of the type, size and content it was given.\<close>

theorem mkfs_boots:
  assumes "args_ok args"
  shows "\<exists>m s. main args = Inr m \<and> initlog (power_on (img m) x) = Inr s \<and> tx_rest s \<and> bm_geom s \<and>
    (\<forall>b < fs_size. used s b \<longleftrightarrow> b < blocks_needed (9 + length args) (fs_contents args)) \<and>
    (\<forall>i \<in> {1..<9 + length args}. \<forall>ino. i_dev ino = 1 \<longrightarrow>
       file_ok s (loaded s i ino) \<and> i_type (loaded s i ino) = int (fs_type i) \<and>
       map (fbyte s (loaded s i ino)) [0..<i_size (loaded s i ino)] = fs_contents args i)"
proof -
  define N where "N = 9 + length args"
  obtain m where m: "main args = Inr m" "fsimage m N (fs_contents args) fs_type"
      "\<forall>b < 8192. bm_and (img m ! 15) b \<noteq> 0 \<longleftrightarrow> b < blocks_needed N (fs_contents args)"
    using main_image [OF assms] by (auto simp: N_def)
  have fb: "freeblock m = blocks_needed N (fs_contents args)" using m(2) by (simp add: fsimage_def files_def blocks_needed_def)
  have le: "freeblock m \<le> 4016" "N \<le> 200" using assms fb by (simp_all add: args_ok_def N_def fs_size_def nlog_def LOGSIZE_def ninodes_def)
  obtain s where s: "initlog (power_on (img m) x) = Inr s" "on_image (img m) (freeblock m) s"
    using boot_on_image [OF m(2) le(1), of x] m(3) fb by auto
  have "file_ok s (loaded s i ino) \<and> i_type (loaded s i ino) = int (fs_type i) \<and>
      map (fbyte s (loaded s i ino)) [0..<i_size (loaded s i ino)] = fs_contents args i" if "i \<in> {1..<N}" "i_dev ino = 1" for i ino
  proof -
    have i: "1 \<le> i" "i < N" using that by auto
    note L = loaded_file [OF s(2) m(2) le(2) i that(2)]
    show ?thesis using L by (auto simp: fs_type_def short_of_def intro!: nth_equalityI)
  qed
  moreover have "\<forall>b < fs_size. used s b \<longleftrightarrow> b < freeblock m" using on_image_home(5) [OF s(2)] by (simp add: fs_size_def)
  ultimately show ?thesis
    using m(1) s on_image_geom(1) [OF s(2)] fb by (auto simp: on_image_def N_def)
qed

text \<open>One file, named \<open>a\<close>, of three bytes: it is inode 9, with an entry in \<open>/bin\<close>.\<close>

definition demo_args :: "(byte list \<times> byte list list option) list" where
  "demo_args = [([97], Some [[1, 2, 3], []])]"

lemma demo_args_facts: "args_ok demo_args" "fs_contents demo_args 9 = [1, 2, 3]"
  "fs_contents demo_args 2 = entries [(2, [46]), (1, [46, 46]), (9, [97])]"
proof -
  have f: "file_name std_dirs ([97], Some [[1, 2, 3], []]) = [97]" "file_dir std_dirs ([97], Some [[1, 2, 3], []]) = 2"
    "file_data ([97], Some [[1, 2, 3], []]) = [1, 2, 3]"
    by (simp_all add: file_name_def file_dir_def place_def strip_def std_dirs_def file_data_def content_def)
  show "fs_contents demo_args 9 = [1, 2, 3]" by (simp add: fs_contents_def with_files_def demo_args_def f)
  show "fs_contents demo_args 2 = entries [(2, [46]), (1, [46, 46]), (9, [97])]"
    by (simp add: fs_contents_def with_files_def demo_args_def f base_dir_def entries_simps)
  have "length (fs_contents demo_args j) \<le> 1024" for j
    using base_dir_length [of j] by (auto simp: fs_contents_def with_files_def demo_args_def f base_dir_def)
  then have "blocks_needed 10 (fs_contents demo_args) \<le> 16 + 10" by (rule small_blocks)
  then show "args_ok demo_args"
    by (simp add: args_ok_def demo_args_def f ninodes_def MAXFILE_eq fs_size_def nlog_def LOGSIZE_def)
qed

theorem mkfs_boots_witness:
  "\<exists>m s. main demo_args = Inr m \<and> initlog (power_on (img m) ()) = Inr s \<and> bm_geom s \<and>
    (\<forall>ino. i_dev ino = 1 \<longrightarrow> map (fbyte s (loaded s 9 ino)) [0..<i_size (loaded s 9 ino)] = [1, 2, 3] \<and>
      map (fbyte s (loaded s 2 ino)) [0..<i_size (loaded s 2 ino)] = entries [(2, [46]), (1, [46, 46]), (9, [97])])"
proof -
  have "9 \<in> {1..<9 + length demo_args}" "2 \<in> {1..<9 + length demo_args}" by (simp_all add: demo_args_def)
  then show ?thesis using mkfs_boots [OF demo_args_facts(1), of "()"] demo_args_facts(2,3) by metis
qed

end
