(* ===== verification/Spec2Isabelle.thy ===== *)
theory Spec2Isabelle
  imports Sysproc Mouse Shell Umalloc Grep Ide Sh_Print Mkfs_Boot
begin

text \<open>
  \<^bold>\<open>xv6 with a window system: the kernel, and the user library and shell on top of it.\<close>

  The program is a small Unix-like kernel (64-bit build, file system image in memory) with processes, a file system
  with a write-ahead log, pipes, a console and a window manager, and a user space with a C library and a shell. This
  development models the kernel's own logic above the hardware, from the byte-string routines to the system calls,
  and the parts of user space that are libraries. Every operation is a function of an explicit state; what the code
  does on an error is a value: \<open>'a res\<close> is \<open>outcome + 'a\<close> with \<open>Panic\<close> for a call of \<open>panic\<close>, \<open>Sleeps\<close> for an operation
  that would wait for a lock, and \<open>Undefined\<close> for an access the C program must not make (a null pointer, an index
  outside an array, a value never set).

  \<^bold>\<open>Parts, theories and sources\<close> (all under \<open>src/\<close>)

  \<^item> Xv6_Prelude: machine types (\<open>byte\<close>, \<open>u32\<close>, \<open>u64\<close>, \<open>wrap_int\<close>), outcomes, little-endian layouts, slices of byte arrays.
    Ring: ring buffers with free-running 32-bit indices.
  \<^item> Kstring (\<open>kernel/string.c\<close>), Spinlock (\<open>kernel/spinlock.c\<close>), Kalloc (\<open>kernel/kalloc.c\<close>).
  \<^item> Bio (\<open>kernel/memide.c\<close>, \<open>kernel/bio.c\<close>), Log and Transaction (\<open>kernel/log.c\<close>): disk, buffer cache, log.
    Ide (\<open>kernel/ide.c\<close>): the driver of the build with a real disk. Links: lists in linked records, for Ide and Umalloc.
  \<^item> Fs_Blocks, Fs_Inode, Fs_File, Fs_Dir (\<open>kernel/fs.c\<close>): the layers of the file system. Fs_Frame: the part of the state
    they leave alone. Mkfs (\<open>tools/mkfs.c\<close>) makes the image they start from; Mkfs_Lay, Mkfs_Append, Mkfs_Image and Mkfs_Boot relate
    it to the kernel.
  \<^item> Kernel and Proc (\<open>kernel/proc.c\<close>), Pipe (\<open>kernel/pipe.c\<close>), Files (\<open>kernel/file.c\<close>), Vm (\<open>kernel/vm.c\<close>, \<open>kernel/vm64.c\<close>).
  \<^item> Syscall (\<open>kernel/syscall.c\<close>, arguments), Exec (\<open>kernel/exec.c\<close>), Sysfile (\<open>kernel/sysfile.c\<close>), Sysproc (\<open>kernel/sysproc.c\<close>,
    the dispatch of \<open>kernel/syscall.c\<close>, \<open>kernel/trap.c\<close>).
  \<^item> Console (\<open>kernel/console.c\<close>), Bga (\<open>kernel/bga.c\<close>), Msg and Kbd (\<open>kernel/kbd.c\<close>, \<open>include/kbd.h\<close>), Wm (\<open>kernel/window_manager.c\<close>), Mouse
    (\<open>kernel/mouse.c\<close>, \<open>kernel/msg.c\<close>).
  \<^item> Ustring (\<open>ulib/libc/string\<close>, \<open>ulib/libc/stdlib/stdlib.c\<close>), Ustdio (\<open>ulib/libc/stdio\<close>), Hashtable
    (\<open>ulib/libc/stdlib/hashtable.c\<close>), Umalloc (\<open>ulib/libc/stdlib/umalloc.c\<close>), Shell (\<open>shell_lib\<close>, \<open>user/shells/bash2.c\<close>), Grep
    (\<open>user/grep.c\<close>), Sh, Sh_Run and Sh_Print (\<open>user/sh.c\<close>: parser, execution, and the printer the parser is compared with).

  \<^bold>\<open>State.\<close> The disk, the buffer cache, the log, the inode cache and the tables of processes, files and pipes are one
  extensible record, each layer adding its fields, so that an operation of a lower layer acts on the state of any layer
  above. Pointers to table entries are indices. The per-CPU variable \<open>proc\<close> is the argument \<open>me\<close>. Spin locks that only
  bracket a critical section are left out of the sequential models; theory Spinlock proves that they give mutual
  exclusion. An operation that blocks inside (\<open>pipewrite\<close>, \<open>piperead\<close>, \<open>wait\<close>, \<open>consoleread\<close>, \<open>sys_sleep\<close>) returns \<open>Blocked\<close>
  and is resumed; interleavings are sequences of steps of any processes.

  \<^bold>\<open>Interfaces.\<close> \<open>block_cache\<close> (what the log needs of the buffer cache), \<open>tx_store\<close> (what the file system needs of the log),
  \<open>page_allocator\<close> (what virtual memory and pipes need of \<open>kalloc\<close>), \<open>bounded_fifo\<close> (pipes, message queues, keys in graphics
  mode), \<open>pixel_store\<close> (what the drawing functions need of a pixel format) and \<open>string_map\<close> (what the shell needs of the hash table) are locales, each interpreted on the definitions of the code.

  \<^bold>\<open>What is shown.\<close>

  \<^item> Crash safety: whatever prefix of the disk writes of a transaction reaches the disk, recovery leaves all its blocks as
    before or all as written. The theorems ask for fewer than \<open>tx_cap\<close> blocks in a transaction, which is nine with the log of ten
    blocks that \<open>mkfs\<close> makes (its header takes one); a full log makes \<open>log_write\<close> panic.
  \<^item> Files and directories: \<open>readi\<close> and \<open>writei\<close> are reading and splicing of a byte list, across block boundaries, indirect
    blocks and allocation; a name linked is found again and no other name changes; paths split as specified; on-disk
    inodes round-trip; block and inode allocation. \<open>mkfs\<close> ends for files that fit, and the kernel that starts on its image finds
    the files, the directories, the bitmap and the empty log its theorems ask for.
  \<^item> Processes: the process table keeps its invariant under all interleavings; the scheduler picks a process of highest
    priority; \<open>sys_sleep\<close> ends; a killed process does not return to user mode; \<open>exec\<close> that fails changes nothing.
  \<^item> Memory: the page allocator never hands out a page twice; \<open>mappages\<close> translates; pointer and string arguments of system
    calls are checked against the size of the process.
  \<^item> Devices: the queue of the IDE driver holds exactly the buffers whose callers wait, under every interleaving, and each
    request is completed by its own interrupt; pipes are bounded queues; the console is a line-editing terminal; keyboard and mouse bytes of any kind keep
    the drivers, the console and the window manager in order.
  \<^item> Windows: the links of the window table represent the drawing order; every message is handled and every walk ends.
  \<^item> Drawing: lines end and are connected; rectangles are drawn exactly and never outside the buffer.
  \<^item> User space: \<open>malloc\<close> hands out areas that do not overlap and \<open>free\<close> ends; the hash table is a finite map and its probing
    ends; the parsers of both shells read every printed line back; \<open>sh\<close> parses every line to an end, leaves its words as strings in the line,
    and gives each program of a line the input and output the line names; the matcher of grep decides the language of its patterns.
  \<^item> Failures that follow from the code, proved as such: which lines the shell cannot run, what closing the first window
    does, when a message is sent that was never filled in.

  \<^bold>\<open>Bounds.\<close> Loops over lists and counters are structural or have a measure. A loop that may not end is a
  \<open>partial_function\<close> into \<open>option\<close> (user strings without a NUL, \<open>ht_probe\<close> of a full table, \<open>walk\<close> along a cyclic window list, the circular
  free list of \<open>malloc\<close>, lines),
  and the theorems show \<open>Some\<close>. A pass of the
  scheduler takes the number of dispatches it may make as an argument, since a chosen process may always become runnable
  again; the parser of \<open>sh\<close>, whose functions call each other, has fuel in the length of the line, shown to suffice;
  \<open>name_for_inode\<close> of \<open>sys_getcwd\<close> has the depth of the directory as fuel, and running out is a result of
  its own, since a cycle of directories makes the code run forever. The hash-table theorem bounds a sequence of puts by
  \<open>2 ^ 19\<close>, below which the capacity, an \<open>int\<close>, and the size handed to \<open>calloc\<close> cannot overflow.

  \<^bold>\<open>Not modelled.\<close> Boot code and the drivers of interrupt controllers, timer and PCI: port and memory-mapped
  I/O without state of their own. Register loads and the context
  switch (assembly). Pixels: \<open>graphics.c\<close> (the VGA build), the window frames of \<open>amiga.c\<close> and the widgets of \<open>ulib/user_window.c\<close>; font and icon tables. \<open>ftoa\<close> and
  \<open>ulib/libc/math\<close>, which compute with floating-point numbers. The programs under \<open>user/\<close> other than \<open>sh\<close> and \<open>grep\<close>, which only call what is modelled.
\<close>

end
